(* ===== verification/Prelude.thy ===== *)
theory Prelude
  imports Main "HOL-Library.Word"
begin

text \<open>
  Shared vocabulary of the development: the machine integer types of the Rust sources,
  their little- and big-endian byte codecs (\<open>to_le_bytes\<close>, \<open>from_le_bytes\<close>,
  \<open>to_be_bytes\<close>, \<open>from_be_bytes\<close>), checked slicing (\<open>slice::get\<close>), and the
  generic lemmas on them that the component theories use. A \<open>Vec<u8>\<close> or \<open>&[u8]\<close> is
  a list of bytes.
\<close>

unbundle bit_operations_syntax

type_synonym u8 = "8 word"
type_synonym u16 = "16 word"
type_synonym u32 = "32 word"
type_synonym u64 = "64 word"
type_synonym bytes = "8 word list"

named_theorems codec_simps "equations that evaluate byte codecs on appended fields"

section \<open>Numbers as little-endian bytes\<close>

primrec nat_to_le :: "nat \<Rightarrow> nat \<Rightarrow> bytes" where
  "nat_to_le 0 x = []"
| "nat_to_le (Suc n) x = of_nat x # nat_to_le n (x div 256)"

primrec le_to_nat :: "bytes \<Rightarrow> nat" where
  "le_to_nat [] = 0"
| "le_to_nat (b # bs) = unat b + 256 * le_to_nat bs"

lemma length_nat_to_le [simp]: "length (nat_to_le n x) = n"
  by (induction n arbitrary: x) auto

lemma unat_of_nat_u8: "unat (of_nat x :: u8) = x mod 256"
  by (simp add: unat_of_nat)

lemma le_to_nat_nat_to_le: "le_to_nat (nat_to_le n x) = x mod 256 ^ n"
proof (induction n arbitrary: x)
  case 0
  then show ?case by simp
next
  case (Suc n)
  have "x mod (256 * 256 ^ n) = 256 * (x div 256 mod 256 ^ n) + x mod 256"
    by (rule mod_mult2_eq)
  then show ?case by (simp add: Suc unat_of_nat_u8)
qed

lemma le_to_nat_bound: "le_to_nat bs < 256 ^ length bs"
proof (induction bs)
  case Nil
  then show ?case by simp
next
  case (Cons b bs)
  have "unat b < 256" using unsigned_less [of b] by simp
  with Cons show ?case by simp
qed

lemma nat_to_le_le_to_nat: "nat_to_le (length bs) (le_to_nat bs) = bs"
proof (induction bs)
  case Nil
  then show ?case by simp
next
  case (Cons b bs)
  have b: "unat b < 256" using unsigned_less [of b] by simp
  have "(of_nat (unat b + 256 * le_to_nat bs) :: u8) = of_nat (unat b) + of_nat 256 * of_nat (le_to_nat bs)"
    by (simp del: of_nat_numeral word_of_nat_eq_iff)
  also have "(of_nat 256 :: u8) = 0" by simp
  finally have "(of_nat (unat b + 256 * le_to_nat bs) :: u8) = b" by simp
  moreover have "(unat b + 256 * le_to_nat bs) div 256 = le_to_nat bs" using b by simp
  ultimately show ?case using Cons by simp
qed

lemma le_to_nat_append: "le_to_nat (xs @ ys) = le_to_nat xs + 256 ^ length xs * le_to_nat ys"
  by (induction xs) (simp_all add: algebra_simps)

lemma le_to_nat_inj:
  assumes "length xs = length ys" "le_to_nat xs = le_to_nat ys"
  shows "xs = ys"
proof -
  have "xs = nat_to_le (length xs) (le_to_nat xs)" by (simp add: nat_to_le_le_to_nat)
  also have "\<dots> = nat_to_le (length ys) (le_to_nat ys)" by (simp only: assms)
  also have "\<dots> = ys" by (simp add: nat_to_le_le_to_nat)
  finally show ?thesis .
qed

section \<open>Fixed-width fields\<close>

definition u16_le :: "u16 \<Rightarrow> bytes" where "u16_le w = nat_to_le 2 (unat w)"
definition u32_le :: "u32 \<Rightarrow> bytes" where "u32_le w = nat_to_le 4 (unat w)"
definition u64_le :: "u64 \<Rightarrow> bytes" where "u64_le w = nat_to_le 8 (unat w)"

definition u16_of_le :: "bytes \<Rightarrow> u16" where "u16_of_le bs = of_nat (le_to_nat bs)"
definition u32_of_le :: "bytes \<Rightarrow> u32" where "u32_of_le bs = of_nat (le_to_nat bs)"
definition u64_of_le :: "bytes \<Rightarrow> u64" where "u64_of_le bs = of_nat (le_to_nat bs)"

definition u16_be :: "u16 \<Rightarrow> bytes" where "u16_be w = rev (u16_le w)"
definition u32_be :: "u32 \<Rightarrow> bytes" where "u32_be w = rev (u32_le w)"
definition u64_be :: "u64 \<Rightarrow> bytes" where "u64_be w = rev (u64_le w)"

definition u16_of_be :: "bytes \<Rightarrow> u16" where "u16_of_be bs = u16_of_le (rev bs)"
definition u32_of_be :: "bytes \<Rightarrow> u32" where "u32_of_be bs = u32_of_le (rev bs)"
definition u64_of_be :: "bytes \<Rightarrow> u64" where "u64_of_be bs = u64_of_le (rev bs)"

lemma length_fields [simp]:
  "length (u16_le a) = 2" "length (u32_le b) = 4" "length (u64_le c) = 8"
  "length (u16_be a) = 2" "length (u32_be b) = 4" "length (u64_be c) = 8"
  by (simp_all add: u16_le_def u32_le_def u64_le_def u16_be_def u32_be_def u64_be_def)

lemma unat_bound_u16: "unat (w :: u16) < 65536" using unsigned_less [of w] by simp
lemma unat_bound_u32: "unat (w :: u32) < 4294967296" using unsigned_less [of w] by simp
lemma unat_bound_u64: "unat (w :: u64) < 18446744073709551616" using unsigned_less [of w] by simp
lemma unat_bound_u8: "unat (w :: u8) < 256" using unsigned_less [of w] by simp

lemma u16_of_le_u16_le [simp]: "u16_of_le (u16_le w) = w"
  using unat_bound_u16 [of w] by (simp add: u16_of_le_def u16_le_def le_to_nat_nat_to_le)

lemma u32_of_le_u32_le [simp]: "u32_of_le (u32_le w) = w"
  using unat_bound_u32 [of w] by (simp add: u32_of_le_def u32_le_def le_to_nat_nat_to_le)

lemma u64_of_le_u64_le [simp]: "u64_of_le (u64_le w) = w"
  using unat_bound_u64 [of w] by (simp add: u64_of_le_def u64_le_def le_to_nat_nat_to_le)

lemma of_be_be [simp]:
  "u16_of_be (u16_be a) = a" "u32_of_be (u32_be b) = b" "u64_of_be (u64_be c) = c"
  by (simp_all add: u16_of_be_def u16_be_def u32_of_be_def u32_be_def u64_of_be_def u64_be_def)

lemma u16_le_u16_of_le: "length bs = 2 \<Longrightarrow> u16_le (u16_of_le bs) = bs"
  using le_to_nat_bound [of bs] nat_to_le_le_to_nat [of bs]
  by (simp add: u16_le_def u16_of_le_def unat_of_nat)

lemma u32_le_u32_of_le: "length bs = 4 \<Longrightarrow> u32_le (u32_of_le bs) = bs"
  using le_to_nat_bound [of bs] nat_to_le_le_to_nat [of bs]
  by (simp add: u32_le_def u32_of_le_def unat_of_nat)

lemma u64_le_u64_of_le: "length bs = 8 \<Longrightarrow> u64_le (u64_of_le bs) = bs"
  using le_to_nat_bound [of bs] nat_to_le_le_to_nat [of bs]
  by (simp add: u64_le_def u64_of_le_def unat_of_nat)

section \<open>Checked slicing\<close>

text \<open>\<open>b.get(i..j)\<close>, \<open>b.get(i..)\<close> and \<open>b.get(i)\<close>: \<open>None\<close> out of range.\<close>

definition slice_get :: "'a list \<Rightarrow> nat \<Rightarrow> nat \<Rightarrow> 'a list option" where
  "slice_get b i j = (if i \<le> j \<and> j \<le> length b then Some (take (j - i) (drop i b)) else None)"

definition slice_from :: "'a list \<Rightarrow> nat \<Rightarrow> 'a list option" where
  "slice_from b i = (if i \<le> length b then Some (drop i b) else None)"

definition index_get :: "'a list \<Rightarrow> nat \<Rightarrow> 'a option" where
  "index_get b i = (if i < length b then Some (b ! i) else None)"

definition u16_le_at :: "bytes \<Rightarrow> nat \<Rightarrow> u16 option" where
  "u16_le_at b i = map_option u16_of_le (slice_get b i (i + 2))"
definition u32_le_at :: "bytes \<Rightarrow> nat \<Rightarrow> u32 option" where
  "u32_le_at b i = map_option u32_of_le (slice_get b i (i + 4))"
definition u64_le_at :: "bytes \<Rightarrow> nat \<Rightarrow> u64 option" where
  "u64_le_at b i = map_option u64_of_le (slice_get b i (i + 8))"

lemmas slice_defs [codec_simps] =
  slice_get_def slice_from_def index_get_def u16_le_at_def u32_le_at_def u64_le_at_def

lemma slice_get_append [simp]:
  "length xs = i \<Longrightarrow> length xs + length ys = j \<Longrightarrow> slice_get (xs @ ys @ zs) i j = Some ys"
  by (auto simp: slice_get_def)

text \<open>Booleans as bytes (\<open>b as u8\<close>).\<close>

definition of_bool_u8 :: "bool \<Rightarrow> u8" where "of_bool_u8 b = (if b then 1 else 0)"

lemma of_bool_u8_neq_0 [simp]: "(of_bool_u8 b \<noteq> 0) = b" "(of_bool_u8 b = 0) = (\<not> b)"
  by (simp_all add: of_bool_u8_def)

section \<open>Lists cut into chunks\<close>

text \<open>\<open>slice::chunks(n)\<close>: consecutive pieces of \<open>n\<close> elements, the last one shorter.\<close>

function chunks_of :: "nat \<Rightarrow> 'a list \<Rightarrow> 'a list list" where
  "chunks_of n xs = (if n = 0 \<or> xs = [] then [] else take n xs # chunks_of n (drop n xs))"
  by pat_completeness auto
termination
  by (relation "measure (\<lambda>(n, xs). length xs)") auto

declare chunks_of.simps [simp del]

lemma chunks_of_Nil [simp]: "chunks_of n [] = []"
  by (subst chunks_of.simps) simp

lemma chunks_of_step: "0 < n \<Longrightarrow> xs \<noteq> [] \<Longrightarrow> chunks_of n xs = take n xs # chunks_of n (drop n xs)"
  by (subst chunks_of.simps) simp

lemma concat_chunks_of: "0 < n \<Longrightarrow> concat (chunks_of n xs) = xs"
proof (induction n xs rule: chunks_of.induct)
  case (1 n xs)
  then show ?case by (cases "xs = []") (auto simp: chunks_of_step)
qed

lemma chunks_of_eq_Nil_iff: "0 < n \<Longrightarrow> chunks_of n xs = [] \<longleftrightarrow> xs = []"
  by (subst chunks_of.simps) auto

lemma chunks_of_sizes: "c \<in> set (chunks_of n xs) \<Longrightarrow> 0 < length c \<and> length c \<le> n"
proof (induction n xs rule: chunks_of.induct)
  case (1 n xs)
  then show ?case by (subst (asm) (2) chunks_of.simps) (auto split: if_splits)
qed

end
