(* ===== verification/Gf256.thy ===== *)
theory Gf256
  imports Prelude
begin

text \<open>
  The field GF(2^8) of \<open>crates/rdp-hyper/src/fec.rs\<close>: the exponent and logarithm tables
  the code builds at compile time, multiplication and inverse through them, and the proof
  that they make the bytes a field (an instance of the class \<open>field\<close>).
\<close>

section \<open>Tables\<close>

definition POLY :: u16 where "POLY = 0x11d"

record tables =
  exp_t :: "u8 list"
  log_t :: "u8 list"

text \<open>One turn of the first \<open>while\<close> of \<open>build_tables\<close>.\<close>

definition table_step :: "nat \<Rightarrow> tables \<times> u16 \<Rightarrow> tables \<times> u16" where
  "table_step i s =
     (let t = fst s; x = snd s;
          t = t\<lparr>exp_t := (exp_t t)[i := ucast x], log_t := (log_t t)[unat x := of_nat i]\<rparr>;
          x = push_bit 1 x;
          x = (if x AND 0x100 \<noteq> 0 then x XOR POLY else x)
      in (t, x))"

definition table_init :: "tables \<times> u16" where
  "table_init = (\<lparr>exp_t = replicate 512 0, log_t = replicate 256 0\<rparr>, 1)"

text \<open>The second \<open>while\<close> repeats the powers from 255 on.\<close>

definition table_repeat :: "nat \<Rightarrow> u8 list \<Rightarrow> u8 list" where
  "table_repeat n e = fold (\<lambda>i e. e[i := e ! (i - 255)]) [255..<n] e"

definition build_tables :: tables where
  "build_tables =
     (let t = fst (fold table_step [0..<255] table_init)
      in t\<lparr>exp_t := table_repeat 512 (exp_t t)\<rparr>)"

definition gf_mul :: "u8 \<Rightarrow> u8 \<Rightarrow> u8" where
  "gf_mul a b =
     (if a = 0 \<or> b = 0 then 0
      else exp_t build_tables ! (unat (log_t build_tables ! unat a) + unat (log_t build_tables ! unat b)))"

definition gf_inv :: "u8 \<Rightarrow> u8" where
  "gf_inv a = exp_t build_tables ! (255 - unat (log_t build_tables ! unat a))"

section \<open>Multiplication by the generator\<close>

definition xt :: "u8 \<Rightarrow> u8" where
  "xt x = (if bit x 7 then push_bit 1 x XOR 0x1d else push_bit 1 x)"

primrec it :: "nat \<Rightarrow> u8 \<Rightarrow> u8" where
  "it 0 x = x"
| "it (Suc n) x = it n (xt x)"

lemma it_funpow: "it n x = (xt ^^ n) x"
  by (induction n arbitrary: x) (auto simp: funpow_swap1)

lemma xt_xor: "xt (a XOR b) = xt a XOR xt b"
  by (simp add: xt_def bit_xor_iff push_bit_xor ac_simps)

lemma it_xor: "it n (a XOR b) = it n a XOR it n b"
  by (induction n arbitrary: a b) (auto simp: xt_xor)

lemma it_add: "it (m + n) x = it n (it m x)"
  by (induction m arbitrary: x) auto

lemma it_0 [simp]: "it n 0 = 0"
  by (induction n) (auto simp: xt_def)

lemma it_15: "it 15 1 = 38" and it_51: "it 51 1 = 10" and it_85: "it 85 1 = 214" and it_255: "it 255 1 = 1"
  by code_simp+


lemma it_basis: "i < 8 \<Longrightarrow> it i 1 = push_bit i 1"
proof -
  have "it 0 1 = push_bit 0 1 \<and> it 1 1 = push_bit 1 1 \<and> it 2 1 = push_bit 2 1 \<and> it 3 1 = push_bit 3 1
    \<and> it 4 1 = push_bit 4 1 \<and> it 5 1 = push_bit 5 1 \<and> it 6 1 = push_bit 6 1 \<and> it 7 1 = push_bit 7 1"
    by code_simp
  moreover assume "i < 8"
  then have "i \<in> {0, 1, 2, 3, 4, 5, 6, 7}" by auto
  ultimately show ?thesis by auto
qed

lemma bit_basis_sum:
  "distinct is \<Longrightarrow> n < 8 \<Longrightarrow>
   bit (foldr (XOR) (map (\<lambda>i. if bit a i then push_bit i 1 else 0) is) (0 :: u8)) n
     \<longleftrightarrow> n \<in> set is \<and> bit a n"
  by (induction "is") (auto simp: bit_simps)

lemma u8_basis: "foldr (XOR) (map (\<lambda>i. if bit a i then push_bit i 1 else 0) [0..<8]) 0 = (a :: u8)"
  by (rule bit_word_eqI) (subst bit_basis_sum, auto)

lemma it_255_id: "it 255 a = a"
proof -
  have "it 255 (foldr (XOR) (map (\<lambda>i. if bit a i then push_bit i 1 else 0) is) 0)
      = foldr (XOR) (map (\<lambda>i. if bit a i then push_bit i 1 else 0) is) 0"
    if "\<forall>i \<in> set is. i < 8" for "is"
    using that
  proof (induction "is")
    case Nil
    then show ?case by simp
  next
    case (Cons i "is")
    have "it 255 (push_bit i 1) = it 255 (it i 1)" using Cons.prems by (simp add: it_basis)
    also have "\<dots> = it i (it 255 1)" by (metis it_add add.commute)
    also have "\<dots> = push_bit i 1" using Cons.prems by (simp only: it_255) (simp add: it_basis)
    finally show ?case using Cons by (simp add: it_xor del: push_bit_of_1)
  qed
  from this [of "[0..<8]"] show ?thesis unfolding u8_basis by simp
qed

lemma it_mod: "it n a = it (n mod 255) a"
proof -
  have "it (255 * k) b = b" for k b by (induction k) (simp_all add: it_add it_255_id)
  then show ?thesis by (metis it_add mult_div_mod_eq)
qed

lemma it_inj: "it n a = it n b \<Longrightarrow> a = b"
proof (induction n arbitrary: a b)
  case 0
  then show ?case by simp
next
  case (Suc n)
  then have "xt a = xt b" by simp
  then have "it 254 (xt a) = it 254 (xt b)" by simp
  then have "it (Suc 254) a = it (Suc 254) b" by (simp only: it.simps)
  then show ?case by (simp add: it_255_id)
qed

lemma it_order:
  assumes "0 < n" "n < 255"
  shows "it n 1 \<noteq> 1"
proof
  assume n: "it n 1 = 1"
  have mult: "it (m * k) 1 = 1" if "it m 1 = 1" for m k
    using that by (induction k) (simp_all add: it_add)
  define d where "d = gcd n 255"
  from assms(1) obtain x y where xy: "n * x = 255 * y + d"
    unfolding d_def using bezout_nat [of n 255] by auto
  have "it (255 * y + d) 1 = it d 1" by (simp only: it_add mult it_255)
  with n mult [OF n, of x] xy have d1: "it d 1 = 1" by simp
  have "d dvd 255" "d \<le> n" using assms(1) by (auto simp: d_def gcd_le1_nat)
  then have "d < 255" using assms(2) by simp
  have "d \<noteq> 0" using assms by (simp add: d_def)
  obtain k where k: "255 = d * k" using \<open>d dvd 255\<close> by (auto simp: dvd_def)
  have "d dvd 85 \<or> d dvd 51 \<or> d dvd 15"
  proof -
    have "\<forall>d \<in> {1..<255::nat}. d dvd 255 \<longrightarrow> d dvd 85 \<or> d dvd 51 \<or> d dvd 15"
      by code_simp
    with \<open>d dvd 255\<close> \<open>d < 255\<close> \<open>d \<noteq> 0\<close> show ?thesis by auto
  qed
  then have "it 85 1 = 1 \<or> it 51 1 = 1 \<or> it 15 1 = 1"
    using mult [OF d1] by (elim disjE dvdE) metis+
  then show False by (simp add: it_15 it_51 it_85)
qed

lemma it_exp_inj:
  assumes "it i 1 = it j 1" "i < 255" "j < 255"
  shows "i = j"
proof -
  have "i = j" if ij: "it i 1 = it j 1" "i \<le> j" "j < 255" for i j
  proof (rule ccontr)
    assume "i \<noteq> j"
    have "it j 1 = it i (it (j - i) 1)" using ij(2) by (metis it_add le_add_diff_inverse2)
    with ij have "it (j - i) 1 = 1" by (metis it_inj)
    with \<open>i \<noteq> j\<close> ij show False using it_order [of "j - i"] by auto
  qed
  with assms show ?thesis by (metis nat_le_linear)
qed

lemma it_1_neq_0: "it i 1 \<noteq> 0"
  using it_inj [of i 1 0] by auto

lemma it_exp_surj:
  assumes "a \<noteq> 0"
  shows "\<exists>i < 255. it i 1 = a"
proof -
  have inj: "inj_on (\<lambda>i. it i 1) {0..<255}" by (auto intro!: inj_onI it_exp_inj)
  have sub: "(\<lambda>i. it i 1) ` {0..<255} \<subseteq> UNIV - {0}" using it_1_neq_0 by auto
  have "card (UNIV - {0} :: u8 set) = 255" by (simp add: card_Diff_singleton card_word)
  moreover have "card ((\<lambda>i. it i 1) ` {0..<255}) = 255" using card_image [OF inj] by simp
  ultimately have "(\<lambda>i. it i 1) ` {0..<255} = UNIV - {0}"
    using sub by (intro card_subset_eq) auto
  then have "a \<in> (\<lambda>i. it i 1) ` {0..<255}" using assms by simp
  then show ?thesis by auto
qed


section \<open>What the tables hold\<close>

lemma not_bit_u8: "8 \<le> k \<Longrightarrow> \<not> bit (y :: u8) k"
  by (auto dest: bit_imp_le_length)

lemma u16_step:
  "(let x = push_bit 1 (ucast y :: u16) in if x AND 0x100 \<noteq> 0 then x XOR POLY else x) = ucast (xt y)"
proof -
  have hi: "(push_bit 1 (ucast y :: u16) AND 0x100 \<noteq> 0) = bit y 7"
  proof -
    have "(0x100 :: u16) = push_bit 8 1" by simp
    then have "(push_bit 1 (ucast y :: u16) AND 0x100 \<noteq> 0) = bit (push_bit 1 (ucast y :: u16)) 8"
      by (simp only: and_exp_eq_0_iff_not_bit push_bit_of_1) simp
    also have "\<dots> = bit y 7" by (subst bit_push_bit_iff) (simp add: bit_simps)
    finally show ?thesis .
  qed
  have "push_bit 1 (ucast y :: u16) XOR POLY = ucast (push_bit 1 y XOR 0x1d)" if "bit y 7"
  proof (rule bit_word_eqI)
    fix n assume "n < LENGTH(16)"
    then have "n \<in> {0,1,2,3,4,5,6,7,8,9,10,11,12,13,14,15}"
      by (simp add: numeral_eq_Suc less_Suc_eq)
    then show "bit (push_bit 1 (ucast y :: u16) XOR POLY) n = bit (ucast (push_bit 1 y XOR 0x1d) :: u16) n"
      using that by (auto simp: bit_simps POLY_def not_bit_u8 simp del: push_bit_Suc)
  qed
  moreover have "push_bit 1 (ucast y :: u16) = ucast (push_bit 1 y)" if "\<not> bit y 7"
  proof (rule bit_word_eqI)
    fix n assume "n < LENGTH(16)"
    then have "n \<in> {0,1,2,3,4,5,6,7,8,9,10,11,12,13,14,15}"
      by (simp add: numeral_eq_Suc less_Suc_eq)
    then show "bit (push_bit 1 (ucast y :: u16)) n = bit (ucast (push_bit 1 y) :: u16) n"
      using that by (auto simp: bit_simps not_bit_u8 simp del: push_bit_Suc)
  qed
  ultimately show ?thesis unfolding Let_def hi xt_def by presburger
qed

lemma unat_u8_lt: "unat (x :: u8) < 256"
  by (rule unat_bound_u8)

lemma ucast_back: "ucast (ucast (y :: u8) :: u16) = y"
  by (rule bit_word_eqI) (simp add: bit_simps)

lemma table_loop:
  assumes "n \<le> 255"
  shows "\<exists>t. fold table_step [0..<n] table_init = (t, ucast (it n 1))
    \<and> length (exp_t t) = 512 \<and> length (log_t t) = 256
    \<and> (\<forall>i < n. exp_t t ! i = it i 1 \<and> log_t t ! unat (it i 1) = of_nat i)"
  using assms
proof (induction n)
  case 0
  show ?case by (simp add: table_init_def)
next
  case (Suc n)
  then obtain t where t: "fold table_step [0..<n] table_init = (t, ucast (it n 1))"
    "length (exp_t t) = 512" "length (log_t t) = 256"
    "\<forall>i < n. exp_t t ! i = it i 1 \<and> log_t t ! unat (it i 1) = of_nat i" by auto
  let ?y = "it n 1"
  let ?t = "t\<lparr>exp_t := (exp_t t)[n := ?y], log_t := (log_t t)[unat ?y := of_nat n]\<rparr>"
  have "unat (ucast ?y :: u16) = unat ?y"
    using unat_u8_lt [of ?y] by (simp add: unsigned_ucast_eq take_bit_nat_eq_self)
  then have step: "table_step n (t, ucast ?y) = (?t, ucast (xt ?y))"
    using u16_step [of ?y] by (simp add: table_step_def Let_def ucast_back)
  have "fold table_step [0..<Suc n] table_init = (?t, ucast (it (Suc n) 1))"
    using t(1) step by (simp add: it_funpow)
  moreover have "\<forall>i < Suc n. exp_t ?t ! i = it i 1 \<and> log_t ?t ! unat (it i 1) = of_nat i"
  proof (intro allI impI)
    fix i assume i: "i < Suc n"
    show "exp_t ?t ! i = it i 1 \<and> log_t ?t ! unat (it i 1) = of_nat i"
    proof (cases "i = n")
      case True
      with t(2,3) Suc.prems show ?thesis by (simp add: unat_u8_lt)
    next
      case False
      with i have "i < n" by simp
      then have "unat (it i 1) \<noteq> unat (it n 1)" using it_exp_inj [of i n] Suc.prems
        by (auto dest: unsigned_word_eqI)
      with t(4) \<open>i < n\<close> show ?thesis by simp
    qed
  qed
  ultimately show ?case using t(2,3) by auto
qed

lemma table_repeat:
  assumes "length e = 512" "\<forall>i < 255. e ! i = it i 1" "255 \<le> n" "n \<le> 512"
  shows "length (table_repeat n e) = 512 \<and> (\<forall>i < n. table_repeat n e ! i = it i 1)"
  using assms(3,4)
proof (induction n rule: dec_induct)
  case base
  with assms(1,2) show ?case by (simp add: table_repeat_def)
next
  case (step n)
  then have IH: "length (table_repeat n e) = 512" "\<forall>i < n. table_repeat n e ! i = it i 1" by auto
  have "table_repeat n e ! (n - 255) = it (n - 255) 1" using IH step by simp
  also have "\<dots> = it n 1"
    using it_mod [of n 1] it_mod [of "n - 255" 1] step by (simp add: le_mod_geq)
  finally have "table_repeat n e ! (n - 255) = it n 1" .
  moreover have "table_repeat (Suc n) e = (table_repeat n e)[n := table_repeat n e ! (n - 255)]"
    using step(1) by (simp add: table_repeat_def)
  ultimately show ?case using IH step by (auto simp: less_Suc_eq)
qed

lemma exp_table: "i < 512 \<Longrightarrow> exp_t build_tables ! i = it i 1"
  and log_table: "i < 255 \<Longrightarrow> log_t build_tables ! unat (it i 1) = of_nat i"
proof -
  obtain t where t: "fold table_step [0..<255] table_init = (t, ucast (it 255 1))"
    "length (exp_t t) = 512" "\<forall>i < 255. exp_t t ! i = it i 1 \<and> log_t t ! unat (it i 1) = of_nat i"
    using table_loop [of 255] by blast
  have b: "build_tables = t\<lparr>exp_t := table_repeat 512 (exp_t t)\<rparr>"
    by (simp only: build_tables_def Let_def t(1) fst_conv)
  have "i < 512 \<Longrightarrow> table_repeat 512 (exp_t t) ! i = it i 1" for i
    using table_repeat [of "exp_t t" 512] t(2,3) by simp
  then show "i < 512 \<Longrightarrow> exp_t build_tables ! i = it i 1"
    unfolding b by simp
  show "i < 255 \<Longrightarrow> log_t build_tables ! unat (it i 1) = of_nat i"
    unfolding b using t(3) by simp
qed

section \<open>Multiplication and inverse as powers of the generator\<close>

lemma unat_of_nat_small: "i < 255 \<Longrightarrow> unat (of_nat i :: u8) = i"
  by (simp add: unat_of_nat_u8)

lemma gf_mul_pow: "i < 255 \<Longrightarrow> j < 255 \<Longrightarrow> gf_mul (it i 1) (it j 1) = it (i + j) 1"
  by (simp add: gf_mul_def it_1_neq_0 log_table exp_table unat_of_nat_small)

lemma gf_inv_pow: "i < 255 \<Longrightarrow> gf_inv (it i 1) = it (255 - i) 1"
  by (simp add: gf_inv_def log_table exp_table unat_of_nat_small)

lemma gf_mul_0 [simp]: "gf_mul 0 b = 0" "gf_mul a 0 = 0"
  by (simp_all add: gf_mul_def)

lemma gf_mul_it: "j < 255 \<Longrightarrow> gf_mul a (it j 1) = it j a"
proof (cases "a = 0")
  case False
  assume j: "j < 255"
  from False obtain i where i: "i < 255" "it i 1 = a" using it_exp_surj by blast
  have "gf_mul (it i 1) (it j 1) = it j (it i 1)" using gf_mul_pow [OF i(1) j] by (simp only: it_add)
  then show ?thesis by (simp only: i(2))
qed simp

lemma gf_mul_commute: "gf_mul a b = gf_mul b a"
  by (simp add: gf_mul_def add.commute)

lemma gf_mul_xor: "gf_mul (a XOR b) c = gf_mul a c XOR gf_mul b c"
proof (cases "c = 0")
  case False
  then obtain j where "j < 255" "it j 1 = c" using it_exp_surj by blast
  then show ?thesis by (metis gf_mul_it it_xor)
qed simp

lemma gf_mul_assoc: "gf_mul (gf_mul a b) c = gf_mul a (gf_mul b c)"
proof (cases "b = 0 \<or> c = 0")
  case False
  then obtain i j where i: "i < 255" "it i 1 = b" and j: "j < 255" "it j 1 = c"
    using it_exp_surj by meson
  have "gf_mul b c = it ((i + j) mod 255) 1"
    using gf_mul_pow [OF i(1) j(1)] it_mod [of "i + j" 1] by (simp add: i j)
  then have "gf_mul a (gf_mul b c) = it ((i + j) mod 255) a" by (simp add: gf_mul_it)
  also have "\<dots> = it j (it i a)" by (simp add: it_add flip: it_mod)
  also have "\<dots> = gf_mul (gf_mul a b) c" using i j by (metis gf_mul_it)
  finally show ?thesis by simp
qed auto

lemma gf_mul_1: "gf_mul 1 a = a"
  using gf_mul_it [of 0 a] by (simp add: gf_mul_commute)

lemma gf_mul_inv: "a \<noteq> 0 \<Longrightarrow> gf_mul (gf_inv a) a = 1"
proof -
  assume "a \<noteq> 0"
  then obtain i where i: "i < 255" "it i 1 = a" using it_exp_surj by blast
  then have "gf_mul (gf_inv a) a = it i (it (255 - i) 1)" by (metis gf_inv_pow gf_mul_it)
  also have "\<dots> = it 255 1" using i(1) by (simp add: it_add [symmetric])
  finally show ?thesis by (simp add: it_255)
qed

section \<open>The bytes as a field\<close>

typedef gf = "UNIV :: u8 set" morphisms byte_of Gf ..

setup_lifting type_definition_gf

instantiation gf :: field
begin

lift_definition zero_gf :: gf is 0 .
lift_definition one_gf :: gf is 1 .
lift_definition plus_gf :: "gf \<Rightarrow> gf \<Rightarrow> gf" is "(XOR)" .
lift_definition minus_gf :: "gf \<Rightarrow> gf \<Rightarrow> gf" is "(XOR)" .
lift_definition uminus_gf :: "gf \<Rightarrow> gf" is "\<lambda>x. x" .
lift_definition times_gf :: "gf \<Rightarrow> gf \<Rightarrow> gf" is gf_mul .
lift_definition inverse_gf :: "gf \<Rightarrow> gf" is "\<lambda>a. if a = 0 then 0 else gf_inv a" .
definition divide_gf :: "gf \<Rightarrow> gf \<Rightarrow> gf" where "divide_gf a b = a * inverse b"

instance
proof
  fix a b c :: gf
  show "a * b * c = a * (b * c)" by transfer (rule gf_mul_assoc)
  show "a * b = b * a" by transfer (rule gf_mul_commute)
  show "1 * a = a" by transfer (rule gf_mul_1)
  show "a + b + c = a + (b + c)" by transfer (simp add: ac_simps)
  show "a + b = b + a" by transfer (simp add: ac_simps)
  show "0 + a = a" by transfer simp
  show "- a + a = 0" by transfer simp
  show "a - b = a + - b" by transfer simp
  show "(a + b) * c = a * c + b * c" by transfer (rule gf_mul_xor)
  show "(0 :: gf) \<noteq> 1" by transfer simp
  show "a \<noteq> 0 \<Longrightarrow> inverse a * a = 1" by transfer (simp add: gf_mul_inv)
  show "a div b = a * inverse b" by (rule divide_gf_def)
  show "inverse (0 :: gf) = 0" by transfer simp
qed

end

lemma gf_add_self [simp]: "(a :: gf) + a = 0"
  by transfer simp

lemma gf_uminus [simp]: "- a = (a :: gf)"
  by transfer simp

lemma gf_add_eq_0_iff: "(a :: gf) + b = 0 \<longleftrightarrow> a = b"
  by (metis add_eq_0_iff2 gf_uminus)

lemma Gf_simps: "Gf (a XOR b) = Gf a + Gf b" "Gf (gf_mul a b) = Gf a * Gf b" "Gf 0 = 0" "Gf 1 = 1"
  "a \<noteq> 0 \<Longrightarrow> Gf (gf_inv a) = inverse (Gf a)"
  by (simp_all add: plus_gf.abs_eq times_gf.abs_eq zero_gf_def one_gf_def inverse_gf.abs_eq)

lemma Gf_eq_iff [simp]: "Gf a = Gf b \<longleftrightarrow> a = b"
  by (simp add: Gf_inject)

lemma Gf_eq_0_iff [simp]: "Gf a = 0 \<longleftrightarrow> a = 0"
  by (simp add: zero_gf_def)

end
