(* ===== verification/Fec.thy ===== *)
theory Fec
  imports Gf256
begin

text \<open>
  Reed-Solomon erasure coding of \<open>crates/rdp-hyper/src/fec.rs\<close>: the parity shards of a
  block (\<open>encode\<close>) and the rebuild of lost data shards (\<open>reconstruct\<close>, a Gauss-Jordan
  inversion of the square Cauchy system of the lost shards). The SIMD bodies of
  \<open>mul_add\<close> are not modelled; its portable table loop is.
\<close>

section \<open>Model\<close>

definition MAX_SHARDS :: nat where "MAX_SHARDS = 255"

text \<open>\<open>out.iter_mut().zip(src)\<close>: only as many bytes as both have.\<close>

definition zip_update :: "(u8 \<Rightarrow> u8 \<Rightarrow> u8) \<Rightarrow> bytes \<Rightarrow> bytes \<Rightarrow> bytes" where
  "zip_update f out src = map2 f out src @ drop (length src) out"

definition mul_add :: "bytes \<Rightarrow> bytes \<Rightarrow> u8 \<Rightarrow> bytes" where
  "mul_add out src c =
     (if c = 0 then out
      else if c = 1 then zip_update (\<lambda>x s. x XOR s) out src
      else
        let lo = map (\<lambda>x. gf_mul c (of_nat x)) [0..<16];
            hi = map (\<lambda>x. gf_mul c (push_bit 4 (of_nat x))) [0..<16]
        in zip_update (\<lambda>x s. x XOR (lo ! unat (s AND 15) XOR hi ! unat (drop_bit 4 s))) out src)"

definition cauchy :: "nat \<Rightarrow> nat \<Rightarrow> nat \<Rightarrow> u8" where
  "cauchy k i j = gf_inv ((of_nat (k + i) :: u8) XOR of_nat j)"

text \<open>\<open>None\<close>: the \<open>assert!\<close> fails.\<close>

definition encode :: "bytes list \<Rightarrow> nat \<Rightarrow> bytes list option" where
  "encode data m =
     (let k = length data in
      if \<not> (k > 0 \<and> k + m \<le> MAX_SHARDS) then None
      else
        let len = length (data ! 0) in
        Some (map (\<lambda>i. fold (\<lambda>(j, d) p. mul_add p d (cauchy k i j)) (enumerate 0 data) (replicate len 0))
                [0..<m]))"

text \<open>One column of the Gauss-Jordan loop: pivot, swap, scale, eliminate. \<open>None\<close>: no pivot.\<close>

definition gauss_col :: "nat \<Rightarrow> nat \<Rightarrow> bytes list \<times> bytes list \<Rightarrow> (bytes list \<times> bytes list) option" where
  "gauss_col e col ab =
     (let a = fst ab; b = snd ab in
      case find (\<lambda>r. a ! r ! col \<noteq> 0) [col..<e] of
        None \<Rightarrow> None
      | Some pivot \<Rightarrow>
          let a = a[col := a ! pivot, pivot := a ! col];
              b = b[col := b ! pivot, pivot := b ! col];
              f = gf_inv (a ! col ! col);
              a = a[col := map (\<lambda>x. gf_mul x f) (a ! col)];
              b = b[col := map (\<lambda>x. gf_mul x f) (b ! col)];
              clear = (\<lambda>r. r \<noteq> col \<and> a ! r ! col \<noteq> 0);
              a' = map (\<lambda>r. if clear r then map2 (\<lambda>x y. x XOR gf_mul (a ! r ! col) y) (a ! r) (a ! col) else a ! r) [0..<e];
              b' = map (\<lambda>r. if clear r then map2 (\<lambda>x y. x XOR gf_mul (a ! r ! col) y) (b ! r) (b ! col) else b ! r) [0..<e]
          in Some (a', b'))"

primrec gauss :: "nat \<Rightarrow> nat list \<Rightarrow> bytes list \<times> bytes list \<Rightarrow> (bytes list \<times> bytes list) option" where
  "gauss e [] ab = Some ab"
| "gauss e (col # cols) ab =
     (case gauss_col e col ab of None \<Rightarrow> None | Some ab' \<Rightarrow> gauss e cols ab')"

definition residual_of :: "bytes option list \<Rightarrow> nat \<Rightarrow> nat \<Rightarrow> bytes" where
  "residual_of shards k i =
     fold (\<lambda>j r. case shards ! j of Some d \<Rightarrow> mul_add r d (cauchy k i j) | None \<Rightarrow> r)
       [0..<k] (case shards ! (k + i) of Some p \<Rightarrow> p | None \<Rightarrow> [])"

text \<open>
  The end of \<open>reconstruct\<close>: the square system of the lost shards (columns \<open>missing\<close>)
  and the parity shards used (rows \<open>parity\<close>), its inverse, and the lost shards from it.
\<close>

definition rebuild_lost :: "bytes option list \<Rightarrow> nat \<Rightarrow> nat list \<Rightarrow> nat list \<Rightarrow> bool \<times> bytes option list" where
  "rebuild_lost shards k missing parity =
     (let e = length missing;
          len = (case shards ! (k + parity ! 0) of Some p \<Rightarrow> length p | None \<Rightarrow> 0);
          residual = map (residual_of shards k) parity;
          a = map (\<lambda>i. map (\<lambda>j. cauchy k i j) missing) parity;
          b = map (\<lambda>r. map (\<lambda>c. of_bool_u8 (r = c)) [0..<e]) [0..<e]
      in case gauss e [0..<e] (a, b) of
           None \<Rightarrow> (False, shards)
         | Some (a, b) \<Rightarrow>
             if e = 1 then
               (True, shards[missing ! 0 := Some (mul_add (replicate len 0) (residual ! 0) (b ! 0 ! 0))])
             else
               let rebuilt = map (\<lambda>x. fold (\<lambda>(r, res) out. mul_add out res (b ! x ! r))
                                         (enumerate 0 residual) (replicate len 0)) [0..<e]
               in (True, fold (\<lambda>(j, out) s. s[j := Some out]) (zip missing rebuilt) shards))"

text \<open>\<open>None\<close>: fewer shards than \<open>k\<close>, an index out of range in the code.\<close>

definition reconstruct :: "bytes option list \<Rightarrow> nat \<Rightarrow> (bool \<times> bytes option list) option" where
  "reconstruct shards k =
     (if length shards < k then None
      else
        let m = length shards - k;
            missing = filter (\<lambda>j. shards ! j = None) [0..<k]
        in if missing = [] then Some (True, shards)
           else
             let parity = take (length missing) (filter (\<lambda>i. shards ! (k + i) \<noteq> None) [0..<m]) in
             if length parity < length missing then Some (False, shards)
             else Some (rebuild_lost shards k missing parity))"

section \<open>The hot loop multiplies\<close>

lemma length_zip_update [simp]: "length (zip_update f out src) = length out"
  by (simp add: zip_update_def)

lemma zip_update_nth:
  "p < length out \<Longrightarrow>
   zip_update f out src ! p = (if p < length src then f (out ! p) (src ! p) else out ! p)"
  by (auto simp: zip_update_def nth_append min_def)

lemma nibbles: "(s AND 15) XOR push_bit 4 (drop_bit 4 s) = (s :: u8)"
proof (rule bit_word_eqI)
  fix n assume "n < LENGTH(8)"
  have "s AND 15 = take_bit 4 s" by (simp add: take_bit_eq_mask mask_eq_exp_minus_1)
  then show "bit ((s AND 15) XOR push_bit 4 (drop_bit 4 s)) n = bit s n"
    using \<open>n < LENGTH(8)\<close> by (auto simp: bit_simps)
qed

lemma nibble_lo: "unat (s AND 15 :: u8) < 16"
proof -
  have "s AND 15 \<le> 15" by (rule word_and_le1)
  then have "unat (s AND 15) \<le> unat (15 :: u8)" by (simp only: word_le_nat_alt)
  then show ?thesis by simp
qed

lemma nibble_hi: "unat (drop_bit 4 s :: u8) < 16"
  using unat_bound_u8 [of s] by (simp add: unat_drop_bit_eq drop_bit_nat_def)

lemma mul_add_eq: "mul_add out src c = zip_update (\<lambda>x s. x XOR gf_mul c s) out src"
proof -
  have id: "zip_update (\<lambda>x s. x) out src = out"
    by (rule nth_equalityI) (auto simp: zip_update_nth)
  have split: "gf_mul c (s AND 15) XOR gf_mul c (push_bit 4 (drop_bit 4 s)) = gf_mul c s" for s
    by (metis gf_mul_commute gf_mul_xor nibbles)
  show ?thesis
    unfolding mul_add_def using nibble_lo nibble_hi
    by (simp add: id gf_mul_1 Let_def split)
qed

lemma length_mul_add [simp]: "length (mul_add out src c) = length out"
  by (simp add: mul_add_eq)

lemma mul_add_nth:
  "p < length out \<Longrightarrow> p < length src \<Longrightarrow>
   Gf (mul_add out src c ! p) = Gf (out ! p) + Gf c * Gf (src ! p)"
  by (simp add: mul_add_eq zip_update_nth Gf_simps)


section \<open>Cauchy systems have no kernel\<close>

text \<open>
  Eliminating one row and one column of a Cauchy system leaves a Cauchy system with scaled
  unknowns, so induction on the number of rows shows that only zero solves it.
\<close>

lemma cauchy_eliminate:
  fixes a a0 b b0 y :: gf
  assumes "a + b \<noteq> 0" "a0 + b \<noteq> 0"
  shows "y * inverse (a + b) * (a + b0) + y * inverse (a0 + b) * (a0 + b0)
       = (a0 + a) * (y * (b + b0) * inverse (a0 + b) * inverse (a + b))"
proof -
  have "(a + b0) * (a0 + b) + (a0 + b0) * (a + b) = (a0 + a) * (b + b0)"
  proof -
    have "(a + b0) * (a0 + b) + (a0 + b0) * (a + b)
        = (a * a0 + a * a0) + (b0 * b + b0 * b) + (a * b + b0 * a0 + a0 * b + b0 * a)"
      by (simp only: algebra_simps)
    also have "\<dots> = (a0 + a) * (b + b0)" by (simp only: gf_add_self) (simp add: algebra_simps)
    finally show ?thesis .
  qed
  then have k: "y * inverse (a + b) * inverse (a0 + b) * ((a + b0) * (a0 + b) + (a0 + b0) * (a + b))
      = y * inverse (a + b) * inverse (a0 + b) * ((a0 + a) * (b + b0))" by simp
  have "y * inverse (a + b) * (a + b0) = y * inverse (a + b) * inverse (a0 + b) * ((a + b0) * (a0 + b))"
    using assms(2) by simp
  moreover have "y * inverse (a0 + b) * (a0 + b0) = y * inverse (a + b) * inverse (a0 + b) * ((a0 + b0) * (a + b))"
    using assms(1) by simp
  ultimately show ?thesis using k by (simp only: distrib_left [symmetric]) (simp only: ac_simps)
qed

lemma cauchy_kernel:
  fixes a b x :: "'n \<Rightarrow> gf"
  assumes "finite I" "finite J" "card I = card J" "inj_on a I" "inj_on b J"
    and "\<And>i j. i \<in> I \<Longrightarrow> j \<in> J \<Longrightarrow> a i + b j \<noteq> 0"
    and "\<And>i. i \<in> I \<Longrightarrow> (\<Sum>j \<in> J. x j * inverse (a i + b j)) = 0"
  shows "\<forall>j \<in> J. x j = 0"
  using assms
proof (induction "card J" arbitrary: I J x)
  case 0
  then show ?case by simp
next
  case (Suc n)
  from Suc(2) obtain j0 where j0: "j0 \<in> J" by (metis card.empty ex_in_conv nat.distinct(1))
  from Suc(2,5) obtain i0 where i0: "i0 \<in> I" by (metis card.empty ex_in_conv nat.distinct(1))
  let ?I = "I - {i0}" and ?J = "J - {j0}"
  let ?y = "\<lambda>j. x j * (b j + b j0) * inverse (a i0 + b j)"
  have row: "(\<Sum>j \<in> J. x j * inverse (a i + b j) * (a i + b j0)) = 0" if "i \<in> I" for i
    using Suc(9) [OF that] by (simp flip: sum_distrib_right)
  have "(\<Sum>j \<in> ?J. ?y j * inverse (a i + b j)) = 0" if i: "i \<in> ?I" for i
  proof -
    have "(\<Sum>j \<in> J. x j * inverse (a i + b j) * (a i + b j0) + x j * inverse (a i0 + b j) * (a i0 + b j0)) = 0"
      using row [of i] row [OF i0] i by (simp add: sum.distrib)
    then have "(a i0 + a i) * (\<Sum>j \<in> J. ?y j * inverse (a i + b j)) = 0"
      using Suc(8) i0 i by (simp add: cauchy_eliminate sum_distrib_left)
    moreover have "a i0 + a i \<noteq> 0" using Suc(6) i i0 by (auto simp: gf_add_eq_0_iff dest: inj_onD)
    ultimately have "(\<Sum>j \<in> J. ?y j * inverse (a i + b j)) = 0" by simp
    then show ?thesis using Suc(4) j0 by (simp add: sum.remove)
  qed
  moreover have "n = card ?J" "card ?I = card ?J" using Suc(2,3,4,5) i0 j0 by auto
  ultimately have "\<forall>j \<in> ?J. ?y j = 0"
    using Suc(1) [of ?J ?I ?y] Suc(3-8) by (auto simp: inj_on_diff)
  then have rest: "\<forall>j \<in> ?J. x j = 0"
    using Suc(7,8) i0 j0 by (auto simp: gf_add_eq_0_iff dest: inj_onD)
  have "(\<Sum>j \<in> J. x j * inverse (a i0 + b j)) = x j0 * inverse (a i0 + b j0)"
    using Suc(4) j0 rest by (simp add: sum.remove)
  then have "x j0 = 0" using Suc(8) [OF i0 j0] Suc(9) [OF i0] by simp
  with rest show ?case by auto
qed

section \<open>Gauss-Jordan inverts a nonsingular matrix\<close>

definition ent :: "bytes list \<Rightarrow> nat \<Rightarrow> nat \<Rightarrow> gf" where
  "ent a r c = Gf (a ! r ! c)"

definition shaped :: "nat \<Rightarrow> bytes list \<Rightarrow> bool" where
  "shaped e a \<longleftrightarrow> length a = e \<and> (\<forall>r < e. length (a ! r) = e)"

definition kernel_free :: "nat \<Rightarrow> (nat \<Rightarrow> nat \<Rightarrow> gf) \<Rightarrow> bool" where
  "kernel_free e A \<longleftrightarrow>
     (\<forall>v. (\<forall>r < e. (\<Sum>c < e. A r c * v c) = 0) \<longrightarrow> (\<forall>c < e. v c = 0))"

definition gauss_inv :: "nat \<Rightarrow> (nat \<Rightarrow> nat \<Rightarrow> gf) \<Rightarrow> nat \<Rightarrow> (nat \<Rightarrow> nat \<Rightarrow> gf) \<Rightarrow> (nat \<Rightarrow> nat \<Rightarrow> gf) \<Rightarrow> bool" where
  "gauss_inv e A col a b \<longleftrightarrow>
     (\<forall>r < e. \<forall>c < e. a r c = (\<Sum>l < e. b r l * A l c)) \<and> kernel_free e a \<and>
     (\<forall>j < col. \<forall>r < e. a r j = (if r = j then 1 else 0))"

lemma gauss_pivot:
  assumes "kernel_free e a" "col < e" "\<forall>j < col. \<forall>r < e. a r j = (if r = j then 1 else 0)"
  shows "\<exists>r \<ge> col. r < e \<and> a r col \<noteq> 0"
proof (rule ccontr)
  assume "\<not> ?thesis"
  then have z: "a r col = 0" if "col \<le> r" "r < e" for r using that by blast
  define v where "v j = (if j < col then a j col else if j = col then 1 else 0)" for j
  have "(\<Sum>c < e. a r c * v c) = 0" if r: "r < e" for r
  proof -
    have "(\<Sum>c < e. a r c * v c) = (\<Sum>c < e. (if c = col then a r col else 0) + (if c = r \<and> r < col then a r col else 0))"
    proof (rule sum.cong)
      fix c assume "c \<in> {..<e}"
      then show "a r c * v c = (if c = col then a r col else 0) + (if c = r \<and> r < col then a r col else 0)"
        using assms(3) r by (auto simp: v_def)
    qed simp
    also have "\<dots> = a r col + (if r < col then a r col else 0)"
      using assms(2) r by (simp add: sum.distrib)
    also have "\<dots> = 0" using z [of r] r by auto
    finally show ?thesis .
  qed
  then have "v col = 0" using assms(1,2) unfolding kernel_free_def by blast
  then show False by (simp add: v_def)
qed

lemma row_step_kernel:
  fixes a a' :: "nat \<Rightarrow> nat \<Rightarrow> gf"
  assumes free: "kernel_free e a" and \<sigma>: "\<forall>r < e. \<sigma> r < e \<and> \<sigma> (\<sigma> r) = r" and col: "col < e" and f: "f \<noteq> 0"
    and row: "\<forall>c < e. a' col c = f * a (\<sigma> col) c"
    and rows: "\<forall>r < e. r \<noteq> col \<longrightarrow> (\<forall>c < e. a' r c = a (\<sigma> r) c + g r * a' col c)"
  shows "kernel_free e a'"
  unfolding kernel_free_def
proof (intro allI impI)
  fix v :: "nat \<Rightarrow> gf" and c
  assume z: "\<forall>r < e. (\<Sum>c < e. a' r c * v c) = 0" and c: "c < e"
  have "(\<Sum>c < e. a' col c * v c) = f * (\<Sum>c < e. a (\<sigma> col) c * v c)"
    using row by (simp add: sum_distrib_left mult.assoc)
  then have zc: "(\<Sum>c < e. a (\<sigma> col) c * v c) = 0" using z col f by auto
  have zr: "(\<Sum>c < e. a (\<sigma> r) c * v c) = 0" if r: "r < e" for r
  proof (cases "r = col")
    case False
    have "(\<Sum>c < e. a' r c * v c) = (\<Sum>c < e. a (\<sigma> r) c * v c) + g r * (\<Sum>c < e. a' col c * v c)"
      using rows r False by (simp add: algebra_simps sum.distrib sum_distrib_left)
    then show ?thesis using z r col by simp
  qed (simp add: zc)
  have "(\<Sum>c < e. a r c * v c) = 0" if "r < e" for r
    using zr [of "\<sigma> r"] \<sigma> that by simp
  with free c show "v c = 0" unfolding kernel_free_def by blast
qed

lemma row_step_space:
  fixes a a' b b' A :: "nat \<Rightarrow> nat \<Rightarrow> gf"
  assumes sp: "\<forall>r < e. \<forall>c < e. a r c = (\<Sum>l < e. b r l * A l c)" and \<sigma>: "\<forall>r < e. \<sigma> r < e" and col: "col < e"
    and row: "\<forall>c < e. a' col c = f * a (\<sigma> col) c" "\<forall>c < e. b' col c = f * b (\<sigma> col) c"
    and rows: "\<forall>r < e. r \<noteq> col \<longrightarrow> (\<forall>c < e. a' r c = a (\<sigma> r) c + g r * a' col c)"
      "\<forall>r < e. r \<noteq> col \<longrightarrow> (\<forall>c < e. b' r c = b (\<sigma> r) c + g r * b' col c)"
  shows "\<forall>r < e. \<forall>c < e. a' r c = (\<Sum>l < e. b' r l * A l c)"
proof -
  have c0: "a' col c = (\<Sum>l < e. b' col l * A l c)" if "c < e" for c
    using that sp \<sigma> col row by (simp add: sum_distrib_left mult.assoc)
  have "a' r c = (\<Sum>l < e. b' r l * A l c)" if "r < e" "c < e" for r c
  proof (cases "r = col")
    case False
    then have "a' r c = (\<Sum>l < e. b (\<sigma> r) l * A l c) + g r * (\<Sum>l < e. b' col l * A l c)"
      using that rows(1) sp \<sigma> c0 by simp
    also have "\<dots> = (\<Sum>l < e. b' r l * A l c)"
      using that False rows(2) by (simp add: algebra_simps sum.distrib sum_distrib_left)
    finally show ?thesis .
  qed (use that c0 in simp)
  then show ?thesis by blast
qed


lemma find_upt_Some:
  assumes "\<exists>r \<ge> col. r < e \<and> P r"
  shows "\<exists>p. find P [col..<e] = Some p \<and> col \<le> p \<and> p < e \<and> P p"
proof -
  from assms have "find P [col..<e] \<noteq> None" by (auto simp: find_None_iff)
  then obtain p where p: "find P [col..<e] = Some p" by auto
  then obtain i where "i < length [col..<e]" "P ([col..<e] ! i)" "p = [col..<e] ! i"
    unfolding find_Some_iff by auto
  with p show ?thesis by auto
qed

lemma map2_nth: "i < length xs \<Longrightarrow> i < length ys \<Longrightarrow> map2 f xs ys ! i = f (xs ! i) (ys ! i)"
  by simp

definition swapped :: "nat \<Rightarrow> nat \<Rightarrow> nat \<Rightarrow> nat" where
  "swapped i j r = (if r = i then j else if r = j then i else r)"

lemma gauss_col_inv:
  assumes sh: "shaped e a" "shaped e b" and inv: "gauss_inv e A col (ent a) (ent b)" and col: "col < e"
  shows "\<exists>a' b'. gauss_col e col (a, b) = Some (a', b') \<and> shaped e a' \<and> shaped e b'
    \<and> gauss_inv e A (Suc col) (ent a') (ent b')"
proof -
  from inv have units: "\<forall>j < col. \<forall>r < e. ent a r j = (if r = j then 1 else 0)"
    and free: "kernel_free e (ent a)"
    and sp: "\<forall>r < e. \<forall>c < e. ent a r c = (\<Sum>l < e. ent b r l * A l c)" by (auto simp: gauss_inv_def)
  have "\<exists>r \<ge> col. r < e \<and> a ! r ! col \<noteq> 0"
    using gauss_pivot [OF free col units] by (auto simp: ent_def)
  from find_upt_Some [OF this] obtain p where p: "find (\<lambda>r. a ! r ! col \<noteq> 0) [col..<e] = Some p"
    "col \<le> p" "p < e" "a ! p ! col \<noteq> 0" by auto
  define \<sigma> where "\<sigma> = swapped col p"
  have \<sigma>: "\<forall>r < e. \<sigma> r < e \<and> \<sigma> (\<sigma> r) = r" using col p by (auto simp: \<sigma>_def swapped_def)
  define a1 where "a1 = a[col := a ! p, p := a ! col]"
  define b1 where "b1 = b[col := b ! p, p := b ! col]"
  define f where "f = gf_inv (a1 ! col ! col)"
  define a2 where "a2 = a1[col := map (\<lambda>x. gf_mul x f) (a1 ! col)]"
  define b2 where "b2 = b1[col := map (\<lambda>x. gf_mul x f) (b1 ! col)]"
  define clear where "clear r \<longleftrightarrow> r \<noteq> col \<and> a2 ! r ! col \<noteq> 0" for r
  define a' where "a' = map (\<lambda>r. if clear r then map2 (\<lambda>x y. x XOR gf_mul (a2 ! r ! col) y) (a2 ! r) (a2 ! col) else a2 ! r) [0..<e]"
  define b' where "b' = map (\<lambda>r. if clear r then map2 (\<lambda>x y. x XOR gf_mul (a2 ! r ! col) y) (b2 ! r) (b2 ! col) else b2 ! r) [0..<e]"
  have res: "gauss_col e col (a, b) = Some (a', b')"
    by (simp only: gauss_col_def p(1) Let_def fst_conv snd_conv option.case a'_def b'_def clear_def a2_def b2_def f_def a1_def b1_def)
  have n1: "a1 ! r = a ! \<sigma> r" "b1 ! r = b ! \<sigma> r" if "r < e" for r
    using that sh col p by (auto simp: a1_def b1_def \<sigma>_def swapped_def shaped_def nth_list_update)
  have l1: "length a1 = e" "length b1 = e" using sh by (auto simp: a1_def b1_def shaped_def)
  have f0: "Gf f = inverse (ent a p col)" "Gf f \<noteq> 0"
    using p(4) n1(1) [OF col] by (auto simp: f_def \<sigma>_def swapped_def Gf_simps ent_def simp del: Gf_eq_0_iff)
      (simp add: Gf_simps(3) [symmetric] del: Gf_simps)
  have lens: "length (a ! r) = e" "length (b ! r) = e" if "r < e" for r using sh that by (auto simp: shaped_def)
  have n2: "a2 ! r = (if r = col then map (\<lambda>x. gf_mul x f) (a ! \<sigma> r) else a ! \<sigma> r)"
    "b2 ! r = (if r = col then map (\<lambda>x. gf_mul x f) (b ! \<sigma> r) else b ! \<sigma> r)" if "r < e" for r
    using that l1 n1 by (auto simp: a2_def b2_def)
  have len2: "length (a2 ! r) = e" "length (b2 ! r) = e" if "r < e" for r
    using n2 that lens \<sigma> by auto
  have colrow: "ent a' col c = Gf f * ent a (\<sigma> col) c" "ent b' col c = Gf f * ent b (\<sigma> col) c" if "c < e" for c
    using that col n2 [OF col] lens \<sigma> by (auto simp: a'_def b'_def ent_def clear_def Gf_simps mult.commute)
  have rowsa: "ent a' r c = ent a (\<sigma> r) c + Gf (a2 ! r ! col) * ent a' col c" if "r < e" "r \<noteq> col" "c < e" for r c
  proof -
    have "ent a' col c = Gf (a2 ! col ! c)" using col by (simp add: a'_def ent_def clear_def)
    with that n2(1) [OF that(1)] len2 col lens [of "\<sigma> r"] \<sigma> show ?thesis by (simp add: a'_def ent_def clear_def Gf_simps)
  qed
  have rowsb: "ent b' r c = ent b (\<sigma> r) c + Gf (a2 ! r ! col) * ent b' col c" if "r < e" "r \<noteq> col" "c < e" for r c
  proof -
    have "ent b' col c = Gf (b2 ! col ! c)" using col by (simp add: b'_def ent_def clear_def)
    with that n2(2) [OF that(1)] len2 col lens [of "\<sigma> r"] \<sigma> show ?thesis by (simp add: b'_def ent_def clear_def Gf_simps)
  qed
  have shaped: "shaped e a'" "shaped e b'" using len2 col by (auto simp: shaped_def a'_def b'_def)
  have "\<forall>r < e. \<forall>c < e. ent a' r c = (\<Sum>l < e. ent b' r l * A l c)"
    using colrow rowsa rowsb \<sigma> by (intro row_step_space [OF sp _ col, of \<sigma> _ "Gf f" _ "\<lambda>r. Gf (a2 ! r ! col)"]) auto
  moreover have "kernel_free e (ent a')"
    using colrow rowsa \<sigma> f0 by (intro row_step_kernel [OF free _ col, of \<sigma> "Gf f" _ "\<lambda>r. Gf (a2 ! r ! col)"]) auto
  moreover have "\<forall>j < Suc col. \<forall>r < e. ent a' r j = (if r = j then 1 else 0)"
  proof (intro allI impI)
    fix j r assume j: "j < Suc col" and r: "r < e"
    have \<sigma>c: "\<sigma> col = p" by (simp add: \<sigma>_def swapped_def)
    show "ent a' r j = (if r = j then 1 else 0)"
    proof (cases "j = col")
      case True
      have one: "ent a' col col = 1" using colrow(1) [OF col] f0 \<sigma>c by auto
      have "ent a' r col = 0" if "r \<noteq> col"
      proof -
        have "Gf (a2 ! r ! col) = ent a (\<sigma> r) col" using n2(1) [OF r] that by (simp add: ent_def)
        then show ?thesis using rowsa [OF r that col] one by simp
      qed
      with one True show ?thesis by auto
    next
      case False
      with j have jc: "j < col" by simp
      then have pj: "ent a p j = 0" using units p jc by auto
      have "ent a' col j = 0" using colrow(1) [of j] jc col pj \<sigma>c by simp
      moreover have "ent a (\<sigma> r) j = (if r = j then 1 else 0)"
        using units jc r p col by (auto simp: \<sigma>_def swapped_def)
      ultimately show ?thesis using rowsa [of r j] r jc col by (cases "r = col") auto
    qed
  qed
  ultimately show ?thesis using res shaped by (auto simp: gauss_inv_def)
qed

lemma gauss_inverts:
  assumes "shaped e a" "shaped e b" "gauss_inv e A col (ent a) (ent b)" "col \<le> e"
  shows "\<exists>a' b'. gauss e [col..<e] (a, b) = Some (a', b') \<and> shaped e b'
    \<and> (\<forall>r < e. \<forall>c < e. (\<Sum>l < e. ent b' r l * A l c) = (if r = c then 1 else 0))"
  using assms(4,1-3)
proof (induction col arbitrary: a b rule: inc_induct)
  case base
  then show ?case by (auto simp: gauss_inv_def)
next
  case (step col)
  from gauss_col_inv [OF step(4,5,6,2)] obtain a' b' where
    "gauss_col e col (a, b) = Some (a', b')" "shaped e a'" "shaped e b'" "gauss_inv e A (Suc col) (ent a') (ent b')"
    by auto
  with step.IH [of a' b'] step(2) show ?case by (simp add: upt_conv_Cons)
qed


section \<open>Bytewise meaning of the shard loops\<close>

lemma length_fold_mul_add [simp]:
  "length (fold (\<lambda>(j, d) q. mul_add q d (f j)) js out) = length out"
  by (induction js arbitrary: out) (auto split: prod.splits)

lemma fold_mul_add_nth:
  "p < length out \<Longrightarrow> \<forall>(j, d) \<in> set js. p < length d \<Longrightarrow>
   Gf (fold (\<lambda>(j, d) q. mul_add q d (f j)) js out ! p)
     = Gf (out ! p) + (\<Sum>(j, d) \<leftarrow> js. Gf (f j) * Gf (d ! p))"
  by (induction js arbitrary: out) (auto simp: mul_add_nth ac_simps)

lemma sum_list_enumerate: "(\<Sum>x \<leftarrow> enumerate 0 xs. g x) = (\<Sum>i < length xs. g (i, xs ! i))"
  for g :: "nat \<times> 'a \<Rightarrow> gf"
proof -
  have "map g (enumerate 0 xs) = map (\<lambda>i. g (i, xs ! i)) [0..<length xs]"
    by (rule nth_equalityI) (auto simp: nth_enumerate_eq)
  then show ?thesis by (simp add: sum_list_distinct_conv_sum_set atLeast0LessThan)
qed

lemma length_residual_of:
  "length (residual_of shards k i) = length (case shards ! (k + i) of Some p \<Rightarrow> p | None \<Rightarrow> [])"
proof -
  have "length (fold (\<lambda>j r. case shards ! j of Some d \<Rightarrow> mul_add r d (cauchy k i j) | None \<Rightarrow> r) js r) = length r" for js r
    by (induction js arbitrary: r) (auto split: option.splits)
  then show ?thesis by (simp add: residual_of_def)
qed

lemma residual_of_nth:
  assumes "shards ! (k + i) = Some q" "p < length q"
    and "\<forall>j < k. \<forall>d. shards ! j = Some d \<longrightarrow> p < length d"
  shows "Gf (residual_of shards k i ! p) = Gf (q ! p) +
    (\<Sum>j < k. case shards ! j of Some d \<Rightarrow> Gf (cauchy k i j) * Gf (d ! p) | None \<Rightarrow> 0)"
proof -
  let ?f = "\<lambda>j r. case shards ! j of Some d \<Rightarrow> mul_add r d (cauchy k i j) | None \<Rightarrow> r"
  have "Gf (fold ?f [0..<n] q ! p) = Gf (q ! p) +
      (\<Sum>j < n. case shards ! j of Some d \<Rightarrow> Gf (cauchy k i j) * Gf (d ! p) | None \<Rightarrow> 0)
    \<and> length (fold ?f [0..<n] q) = length q" if "n \<le> k" for n
    using that
  proof (induction n)
    case (Suc n)
    then have "n < k" by simp
    with assms(3) have "\<forall>d. shards ! n = Some d \<longrightarrow> p < length d" by blast
    with Suc show ?case using assms(1,2) by (auto simp: mul_add_nth ac_simps split: option.splits)
  qed simp
  from this [of k] show ?thesis using assms(1) by (simp add: residual_of_def)
qed

lemma fold_store:
  assumes "distinct js" "length outs = length js" "set js \<subseteq> {..<length s}"
  shows "length (fold (\<lambda>(j, out) s. s[j := Some out]) (zip js outs) s) = length s
    \<and> (\<forall>x < length js. fold (\<lambda>(j, out) s. s[j := Some out]) (zip js outs) s ! (js ! x) = Some (outs ! x))
    \<and> (\<forall>j. j \<notin> set js \<longrightarrow> fold (\<lambda>(j, out) s. s[j := Some out]) (zip js outs) s ! j = s ! j)"
  using assms(2,1,3)
proof (induction outs js arbitrary: s rule: list_induct2)
  case (Cons out outs j js)
  from Cons.IH [of "s[j := Some out]"] Cons.prems show ?case
    by (auto simp: nth_Cons split: nat.splits)
qed simp

section \<open>Any k shards rebuild the block\<close>

text \<open>
  \<open>received data par shards\<close>: what a receiver holds of the data shards \<open>data\<close> and parity
  shards \<open>par\<close> of one block, each present unchanged or lost.
\<close>

definition received :: "bytes list \<Rightarrow> bytes list \<Rightarrow> bytes option list \<Rightarrow> bool" where
  "received data par shards \<longleftrightarrow>
     length shards = length data + length par \<and>
     (\<forall>x < length shards. shards ! x = None \<or> shards ! x = Some ((data @ par) ! x))"

definition arrived :: "bytes option list \<Rightarrow> nat" where
  "arrived shards = length (filter (\<lambda>s. s \<noteq> None) shards)"

lemma encode_Some:
  assumes "encode data m = Some par" "\<forall>d \<in> set data. length d = L"
  shows "0 < length data" "length data + m \<le> 255" "length par = m"
    "i < m \<Longrightarrow> length (par ! i) = L"
    "i < m \<Longrightarrow> p < L \<Longrightarrow> Gf (par ! i ! p) = (\<Sum>j < length data. Gf (cauchy (length data) i j) * Gf (data ! j ! p))"
proof -
  from assms(1) have k: "0 < length data" "length data + m \<le> 255"
    and par: "par = map (\<lambda>i. fold (\<lambda>(j, d) p. mul_add p d (cauchy (length data) i j)) (enumerate 0 data)
       (replicate (length (data ! 0)) 0)) [0..<m]"
    by (auto simp: encode_def Let_def MAX_SHARDS_def split: if_splits)
  have L: "length (data ! 0) = L" using assms(2) k by simp
  show "0 < length data" "length data + m \<le> 255" "length par = m" using k par by auto
  show "length (par ! i) = L" if "i < m" using that L by (simp add: par)
  have mem: "\<forall>(j, d) \<in> set (enumerate 0 data). length d = L"
    using assms(2) by (auto simp: in_set_enumerate_eq)
  show "Gf (par ! i ! p) = (\<Sum>j < length data. Gf (cauchy (length data) i j) * Gf (data ! j ! p))" if "i < m" "p < L"
  proof -
    have "\<forall>(j, d) \<in> set (enumerate 0 data). p < length d" using mem that by auto
    then have "Gf (par ! i ! p) = (\<Sum>(j, d) \<leftarrow> enumerate 0 data. Gf (cauchy (length data) i j) * Gf (d ! p))"
      using that L by (simp add: par fold_mul_add_nth Gf_simps)
    then show ?thesis by (simp add: sum_list_enumerate)
  qed
qed

lemma arrived_split:
  assumes "length shards = k + m"
  shows "arrived shards = (k - length (filter (\<lambda>j. shards ! j = None) [0..<k]))
    + length (filter (\<lambda>i. shards ! (k + i) \<noteq> None) [0..<m])"
proof -
  have "shards = map ((!) shards) ([0..<k] @ [k..<k + m])"
    using assms by (metis map_nth upt_add_eq_append zero_le)
  moreover have "[k..<k + m] = map ((+) k) [0..<m]" by (rule nth_equalityI) auto
  ultimately have "shards = map ((!) shards) ([0..<k] @ map ((+) k) [0..<m])" by simp
  then have "arrived shards = arrived (map ((!) shards) ([0..<k] @ map ((+) k) [0..<m]))" by (rule arg_cong)
  then have "arrived shards = length (filter (\<lambda>j. shards ! j \<noteq> None) [0..<k])
    + length (filter (\<lambda>i. shards ! (k + i) \<noteq> None) [0..<m])"
    by (simp add: arrived_def filter_map comp_def)
  moreover have "length (filter (\<lambda>j. shards ! j \<noteq> None) [0..<k]) + length (filter (\<lambda>j. shards ! j = None) [0..<k]) = k"
    using sum_length_filter_compl [of "\<lambda>j. shards ! j \<noteq> None" "[0..<k]"] by simp
  ultimately show ?thesis by simp
qed


lemma gf_of_nat_inj:
  assumes "x < 256" "y < 256" "Gf (of_nat x) + Gf (of_nat y) = 0"
  shows "x = y"
proof -
  have "(of_nat x :: u8) = of_nat y" using assms(3) by (simp add: gf_add_eq_0_iff)
  then have "unat (of_nat x :: u8) = unat (of_nat y :: u8)" by simp
  with assms show ?thesis by (simp add: unat_of_nat_u8)
qed

lemma cauchy_gf:
  assumes "k + i < 256" "j < k"
  shows "Gf (cauchy k i j) = inverse (Gf (of_nat (k + i)) + Gf (of_nat j))"
proof -
  have "(of_nat (k + i) :: u8) XOR of_nat j \<noteq> 0"
    using gf_of_nat_inj [of "k + i" j] assms by (auto simp flip: Gf_simps(1))
  then show ?thesis by (simp add: cauchy_def Gf_simps del: of_nat_add)
qed

lemma cauchy_system_kernel_free:
  assumes "length ps = e" "length js = e" "distinct ps" "distinct js"
    and "\<forall>i \<in> set ps. k + i < 256" "\<forall>j \<in> set js. j < k"
  shows "kernel_free e (\<lambda>r c. Gf (cauchy k (ps ! r) (js ! c)))"
  unfolding kernel_free_def
proof (intro allI impI)
  fix v :: "nat \<Rightarrow> gf" and c
  assume z: "\<forall>r < e. (\<Sum>c < e. Gf (cauchy k (ps ! r) (js ! c)) * v c) = 0" and "c < e"
  let ?a = "\<lambda>r. Gf (of_nat (k + ps ! r))" and ?b = "\<lambda>c. Gf (of_nat (js ! c))"
  have b1: "k + ps ! r < 256" if "r < e" for r using assms(1,5) that by simp
  have b2: "js ! c < k" if "c < e" for c using assms(2,6) that by simp
  have b3: "js ! c < 256" if "c < e" for c using b1 [OF that] b2 [OF that] by simp
  have "\<forall>c \<in> {..<e}. v c = 0"
  proof (rule cauchy_kernel [of "{..<e}" "{..<e}" ?a ?b v])
    show "inj_on ?a {..<e}"
    proof (rule inj_onI)
      fix r s assume rs: "r \<in> {..<e}" "s \<in> {..<e}" and eq: "?a r = ?a s"
      have "k + ps ! r = k + ps ! s"
        using gf_of_nat_inj [of "k + ps ! r" "k + ps ! s"] rs eq b1 by (simp only: gf_add_eq_0_iff lessThan_iff)
      then show "r = s" using assms(1,3) rs by (simp add: nth_eq_iff_index_eq)
    qed
    show "inj_on ?b {..<e}"
    proof (rule inj_onI)
      fix r s assume rs: "r \<in> {..<e}" "s \<in> {..<e}" and eq: "?b r = ?b s"
      have "js ! r = js ! s"
        using gf_of_nat_inj [of "js ! r" "js ! s"] rs eq b3 by (simp only: gf_add_eq_0_iff lessThan_iff)
      then show "r = s" using assms(2,4) rs by (simp add: nth_eq_iff_index_eq)
    qed
    show "?a r + ?b c \<noteq> 0" if "r \<in> {..<e}" "c \<in> {..<e}" for r c
    proof
      assume "?a r + ?b c = 0"
      then have "k + ps ! r = js ! c"
        using gf_of_nat_inj [of "k + ps ! r" "js ! c"] that b1 b3 by (simp only: lessThan_iff)
      with b2 [of c] that show False by simp
    qed
    show "(\<Sum>c < e. v c * inverse (?a r + ?b c)) = 0" if "r \<in> {..<e}" for r
    proof -
      have "(\<Sum>c < e. v c * inverse (?a r + ?b c)) = (\<Sum>c < e. Gf (cauchy k (ps ! r) (js ! c)) * v c)"
        using that b1 b2 by (intro sum.cong) (auto simp: cauchy_gf mult.commute simp del: of_nat_add)
      then show ?thesis using z that by simp
    qed
  qed auto
  with \<open>c < e\<close> show "v c = 0" by simp
qed

text \<open>
  What the Gauss-Jordan inverse does to the residuals: scaled by row \<open>x\<close> of the inverse and
  summed, they are the \<open>x\<close>-th lost value.
\<close>

lemma inverse_row_sum:
  fixes A B :: "nat \<Rightarrow> nat \<Rightarrow> gf"
  assumes "\<forall>r < e. \<forall>c < e. (\<Sum>l < e. B r l * A l c) = (if r = c then 1 else 0)" "x < e"
  shows "(\<Sum>r < e. B x r * (\<Sum>y < e. A r y * D y)) = D x"
proof -
  have "(\<Sum>r < e. B x r * (\<Sum>y < e. A r y * D y)) = (\<Sum>y < e. (\<Sum>r < e. B x r * A r y) * D y)"
    by (simp add: sum_distrib_left sum_distrib_right mult.assoc) (rule sum.swap)
  also have "\<dots> = (\<Sum>y < e. (if x = y then 1 else 0) * D y)" using assms by (intro sum.cong) auto
  also have "\<dots> = D x" using assms(2) by (simp add: if_distrib [of "\<lambda>z. z * _"] cong: if_cong)
  finally show ?thesis by simp
qed


lemma received_data: "received data par shards \<Longrightarrow> j < length data \<Longrightarrow> shards ! j = None \<or> shards ! j = Some (data ! j)"
  unfolding received_def by (metis nth_append trans_less_add1)

lemma received_par:
  assumes "received data par shards" "i < length par"
  shows "shards ! (length data + i) = None \<or> shards ! (length data + i) = Some (par ! i)"
proof -
  have "length data + i < length shards" using assms by (simp add: received_def)
  then have "shards ! (length data + i) = None \<or> shards ! (length data + i) = Some ((data @ par) ! (length data + i))"
    using assms(1) unfolding received_def by blast
  then show ?thesis by simp
qed

text \<open>The value of byte \<open>p\<close> of a used parity shard, less the arrived data's share.\<close>

lemma residual_lost_share:
  assumes enc: "encode data m = Some par" "\<forall>d \<in> set data. length d = L" and rec: "received data par shards"
    and k: "k = length data" and i: "i < m" "shards ! (k + i) \<noteq> None" and p: "p < L"
  shows "Gf (residual_of shards k i ! p)
    = (\<Sum>j \<leftarrow> filter (\<lambda>j. shards ! j = None) [0..<k]. Gf (cauchy k i j) * Gf (data ! j ! p))"
    (is "_ = sum_list (map ?f _)")
proof -
  note e = encode_Some [OF enc]
  have par: "shards ! (k + i) = Some (par ! i)"
    using received_par [OF rec, of i] i k e(3) by auto
  have dat: "shards ! j = None \<or> shards ! j = Some (data ! j)" if "j < k" for j
    using received_data [OF rec] that k by simp
  have "Gf (residual_of shards k i ! p)
      = Gf (par ! i ! p) + (\<Sum>j < k. case shards ! j of Some d \<Rightarrow> Gf (cauchy k i j) * Gf (d ! p) | None \<Rightarrow> 0)"
  proof (rule residual_of_nth [OF par])
    show "\<forall>j < k. \<forall>d. shards ! j = Some d \<longrightarrow> p < length d"
      using dat enc(2) k p by (metis nth_mem option.distinct(1) option.inject)
  qed (use e(4) [OF i(1)] p in simp)
  also have "(\<Sum>j < k. case shards ! j of Some d \<Rightarrow> Gf (cauchy k i j) * Gf (d ! p) | None \<Rightarrow> 0)
      = (\<Sum>j < k. if shards ! j = None then 0 else ?f j)"
    using dat by (intro sum.cong) fastforce+
  also have "Gf (par ! i ! p) + \<dots> = (\<Sum>j < k. ?f j + (if shards ! j = None then 0 else ?f j))"
    using e(5) [OF i(1) p] k by (simp add: sum.distrib)
  also have "\<dots> = (\<Sum>j < k. if shards ! j = None then ?f j else 0)"
    by (intro sum.cong) auto
  also have "\<dots> = sum ?f {j \<in> {..<k}. shards ! j = None}" by (simp add: sum.If_cases Int_def)
  also have "{j \<in> {..<k}. shards ! j = None} = set (filter (\<lambda>j. shards ! j = None) [0..<k])" by auto
  also have "sum ?f \<dots> = sum_list (map ?f (filter (\<lambda>j. shards ! j = None) [0..<k]))"
    by (rule sum.distinct_set_conv_list) simp
  finally show ?thesis .
qed

lemma rebuilt_eq:
  assumes L: "\<forall>res \<in> set residual. length res = L" "length lost = L" "length residual = e" and x: "x < e"
    and inv: "\<forall>r < e. \<forall>c < e. (\<Sum>l < e. Gf (b ! r ! l) * A l c) = (if r = c then 1 else 0)"
    and res: "\<forall>r < e. \<forall>p < L. Gf (residual ! r ! p) = (\<Sum>y < e. A r y * D p y)"
    and lost: "\<forall>p < L. Gf (lost ! p) = D p x"
  shows "fold (\<lambda>(r, res) out. mul_add out res (b ! x ! r)) (enumerate 0 residual) (replicate L 0) = lost"
proof (rule nth_equalityI)
  fix p assume "p < length (fold (\<lambda>(r, res) out. mul_add out res (b ! x ! r)) (enumerate 0 residual) (replicate L 0))"
  then have p: "p < L" by simp
  have "\<forall>(r, res) \<in> set (enumerate 0 residual). p < length res" using L(1) p by (auto simp: in_set_enumerate_eq)
  then have "Gf (fold (\<lambda>(r, res) out. mul_add out res (b ! x ! r)) (enumerate 0 residual) (replicate L 0) ! p)
      = (\<Sum>r < e. Gf (b ! x ! r) * Gf (residual ! r ! p))"
    using p L(3) by (simp add: fold_mul_add_nth sum_list_enumerate Gf_simps)
  also have "\<dots> = (\<Sum>r < e. Gf (b ! x ! r) * (\<Sum>y < e. A r y * D p y))"
    using res p by (intro sum.cong) auto
  also have "\<dots> = D p x" by (rule inverse_row_sum [where B = "\<lambda>r l. Gf (b ! r ! l)" and A = A and D = "D p" and e = e, OF inv x])
  also have "\<dots> = Gf (lost ! p)" using lost p by simp
  finally show "fold (\<lambda>(r, res) out. mul_add out res (b ! x ! r)) (enumerate 0 residual) (replicate L 0) ! p = lost ! p"
    by (simp only: Gf_eq_iff)
qed (use L in simp)

lemma lost_system:
  assumes enc: "encode data m = Some par" "\<forall>d \<in> set data. length d = L" and rec: "received data par shards"
    and missing: "missing = filter (\<lambda>j. shards ! j = None) [0..<length data]" and e: "e = length missing"
    and parity: "parity = take e (filter (\<lambda>i. shards ! (length data + i) \<noteq> None) [0..<m])" "length parity = e"
  shows "\<exists>a' b'. gauss e [0..<e] (map (\<lambda>i. map (\<lambda>j. cauchy (length data) i j) missing) parity,
          map (\<lambda>r. map (\<lambda>c. of_bool_u8 (r = c)) [0..<e]) [0..<e]) = Some (a', b')
    \<and> (\<forall>r < e. \<forall>c < e. (\<Sum>l < e. ent b' r l * Gf (cauchy (length data) (parity ! l) (missing ! c))) = (if r = c then 1 else 0))"
proof -
  let ?k = "length data"
  let ?A = "\<lambda>r c. Gf (cauchy ?k (parity ! r) (missing ! c))"
  let ?a = "map (\<lambda>i. map (\<lambda>j. cauchy ?k i j) missing) parity"
  let ?b = "map (\<lambda>r. map (\<lambda>c. of_bool_u8 (r = c)) [0..<e]) [0..<e]"
  note en = encode_Some [OF enc]
  have pm: "i < m" if "i \<in> set parity" for i using that parity(1) by (auto dest!: in_set_takeD)
  have free: "kernel_free e ?A"
  proof (rule cauchy_system_kernel_free)
    show "distinct parity" unfolding parity(1) by simp
    show "\<forall>i \<in> set parity. ?k + i < 256" using pm en(2) by fastforce
  qed (use parity(2) e missing in auto)
  have enta: "ent ?a r c = ?A r c" if "r < e" "c < e" for r c
    using that parity(2) e by (simp add: ent_def)
  have entb: "ent ?b r c = (if r = c then 1 else 0)" if "r < e" "c < e" for r c
    using that by (simp add: ent_def of_bool_u8_def Gf_simps)
  have sh: "shaped e ?a" "shaped e ?b" using parity(2) e by (auto simp: shaped_def)
  have "kernel_free e (ent ?a)"
  proof -
    have "(\<Sum>c < e. ent ?a r c * v c) = (\<Sum>c < e. ?A r c * v c)" if "r < e" for r v
      using that enta by (intro sum.cong) auto
    then show ?thesis using free by (simp add: kernel_free_def)
  qed
  moreover have "ent ?a r c = (\<Sum>l < e. ent ?b r l * ?A l c)" if rc: "r < e" "c < e" for r c
  proof -
    have "(\<Sum>l < e. ent ?b r l * ?A l c) = (\<Sum>l < e. if r = l then ?A l c else 0)"
      using rc entb by (intro sum.cong) auto
    then show ?thesis using rc enta by simp
  qed
  ultimately have "gauss_inv e ?A 0 (ent ?a) (ent ?b)" by (simp add: gauss_inv_def)
  from gauss_inverts [OF sh this] show ?thesis by auto
qed


lemma residuals_are_lost_shares:
  assumes enc: "encode data m = Some par" "\<forall>d \<in> set data. length d = L" and rec: "received data par shards"
    and missing: "missing = filter (\<lambda>j. shards ! j = None) [0..<length data]" and e: "e = length missing"
    and parity: "parity = take e (filter (\<lambda>i. shards ! (length data + i) \<noteq> None) [0..<m])" "length parity = e"
    and r: "r < e"
  shows "length (residual_of shards (length data) (parity ! r)) = L"
    "p < L \<Longrightarrow> Gf (residual_of shards (length data) (parity ! r) ! p)
      = (\<Sum>y < e. Gf (cauchy (length data) (parity ! r) (missing ! y)) * Gf (data ! (missing ! y) ! p))"
proof -
  have mem: "parity ! r \<in> set parity" using r parity(2) by simp
  then have i: "parity ! r < m" "shards ! (length data + parity ! r) \<noteq> None"
    unfolding parity(1) by (auto dest!: in_set_takeD)
  note en = encode_Some [OF enc]
  show "length (residual_of shards (length data) (parity ! r)) = L"
    using received_par [OF rec, of "parity ! r"] i en(3,4) by (auto simp: length_residual_of)
  show "Gf (residual_of shards (length data) (parity ! r) ! p)
      = (\<Sum>y < e. Gf (cauchy (length data) (parity ! r) (missing ! y)) * Gf (data ! (missing ! y) ! p))" if "p < L"
    unfolding residual_lost_share [OF enc rec refl i that] missing [symmetric]
    using e by (simp add: sum_list_sum_nth atLeast0LessThan)
qed

lemma reconstruct_none_missing:
  assumes "k \<le> length shards" "filter (\<lambda>j. shards ! j = None) [0..<k] = []"
  shows "reconstruct shards k = Some (True, shards)"
  using assms by (simp add: reconstruct_def Let_def)

lemma reconstruct_lost:
  assumes enc: "encode data m = Some par" "\<forall>d \<in> set data. length d = L" and rec: "received data par shards"
    and missing: "missing = filter (\<lambda>j. shards ! j = None) [0..<length data]" "missing \<noteq> []"
    and enough: "length data \<le> arrived shards"
  shows "reconstruct shards (length data)
    = Some (True, fold (\<lambda>(j, out) s. s[j := Some out]) (zip missing (map ((!) data) missing)) shards)"
proof -
  let ?k = "length data"
  note en = encode_Some [OF enc]
  define e where "e = length missing"
  define parity where "parity = take e (filter (\<lambda>i. shards ! (?k + i) \<noteq> None) [0..<m])"
  have len: "length shards = ?k + m" using rec en(3) by (simp add: received_def)
  have "e \<le> ?k" unfolding e_def missing by (metis diff_zero length_filter_le length_upt)
  then have "e \<le> length (filter (\<lambda>i. shards ! (?k + i) \<noteq> None) [0..<m])"
    using arrived_split [OF len] enough by (simp add: e_def missing)
  then have pl: "length parity = e" by (simp add: parity_def)
  have e0: "0 < e" using missing(2) by (simp add: e_def)
  let ?residual = "map (residual_of shards ?k) parity"
  from lost_system [OF enc rec missing(1) e_def parity_def pl] obtain a' b' where
    g: "gauss e [0..<e] (map (\<lambda>i. map (\<lambda>j. cauchy ?k i j) missing) parity,
          map (\<lambda>r. map (\<lambda>c. of_bool_u8 (r = c)) [0..<e]) [0..<e]) = Some (a', b')"
    and inv: "\<forall>r < e. \<forall>c < e. (\<Sum>l < e. Gf (b' ! r ! l) * Gf (cauchy ?k (parity ! l) (missing ! c))) = (if r = c then 1 else 0)"
    by (auto simp: ent_def)
  note res = residuals_are_lost_shares [OF enc rec missing(1) e_def parity_def pl]
  have "parity ! 0 \<in> set parity" using pl e0 by simp
  then have "parity ! 0 < m" "shards ! (?k + parity ! 0) \<noteq> None"
    unfolding parity_def by (auto dest!: in_set_takeD)
  then have L: "(case shards ! (?k + parity ! 0) of Some p \<Rightarrow> length p | None \<Rightarrow> 0) = L"
    using received_par [OF rec, of "parity ! 0"] en(3,4) by auto
  have miss: "missing ! x < ?k" if "x < e" for x
    using nth_mem [of x missing] that unfolding e_def by (simp add: missing(1))
  have rebuilt: "fold (\<lambda>(r, res) out. mul_add out res (b' ! x ! r)) (enumerate 0 ?residual) (replicate L 0)
      = data ! (missing ! x)" if x: "x < e" for x
  proof (rule rebuilt_eq [where D = "\<lambda>p y. Gf (data ! (missing ! y) ! p)" and e = e, OF _ _ _ x inv])
    show "\<forall>res \<in> set ?residual. length res = L"
      using res(1) pl by (auto simp: in_set_conv_nth)
    show "length (data ! (missing ! x)) = L" using enc(2) miss [OF x] by simp
  qed (use res(2) pl in auto)
  have "reconstruct shards ?k = Some (rebuild_lost shards ?k missing parity)"
    using missing(2) len pl
    by (simp add: reconstruct_def Let_def e_def missing(1) parity_def)
  moreover have "rebuild_lost shards ?k missing parity = (if e = 1 then
      (True, shards[missing ! 0 := Some (mul_add (replicate L 0) (?residual ! 0) (b' ! 0 ! 0))])
    else (True, fold (\<lambda>(j, out) s. s[j := Some out])
      (zip missing (map (\<lambda>x. fold (\<lambda>(r, res) out. mul_add out res (b' ! x ! r)) (enumerate 0 ?residual) (replicate L 0)) [0..<e])) shards))"
    unfolding rebuild_lost_def Let_def e_def [symmetric] g L by simp
  ultimately have shape: "reconstruct shards ?k = Some (if e = 1 then
      (True, shards[missing ! 0 := Some (mul_add (replicate L 0) (?residual ! 0) (b' ! 0 ! 0))])
    else (True, fold (\<lambda>(j, out) s. s[j := Some out])
      (zip missing (map (\<lambda>x. fold (\<lambda>(r, res) out. mul_add out res (b' ! x ! r)) (enumerate 0 ?residual) (replicate L 0)) [0..<e])) shards))"
    by simp
  have all: "map (\<lambda>x. fold (\<lambda>(r, res) out. mul_add out res (b' ! x ! r)) (enumerate 0 ?residual) (replicate L 0)) [0..<e]
      = map ((!) data) missing"
    using rebuilt by (intro nth_equalityI) (auto simp: e_def)
  show ?thesis
  proof (cases "e = 1")
    case True
    then obtain j where j: "missing = [j]" by (metis One_nat_def e_def length_0_conv length_Suc_conv)
    from True pl obtain i where i: "parity = [i]" by (metis One_nat_def length_0_conv length_Suc_conv)
    have "mul_add (replicate L 0) (?residual ! 0) (b' ! 0 ! 0) = data ! j"
      using rebuilt [of 0] True by (simp add: i j)
    then show ?thesis using shape True by (simp add: j)
  next
    case False
    then show ?thesis using shape all by simp
  qed
qed


section \<open>Properties\<close>

lemma reconstruct_rebuilds:
  assumes enc: "encode data m = Some par" and len: "\<forall>d \<in> set data. length d = L"
    and rec: "received data par shards" and enough: "length data \<le> arrived shards"
  shows "\<exists>out. reconstruct shards (length data) = Some (True, out) \<and> length out = length shards
    \<and> (\<forall>j < length data. out ! j = Some (data ! j))
    \<and> (\<forall>x \<ge> length data. out ! x = shards ! x)"
proof (cases "filter (\<lambda>j. shards ! j = None) [0..<length data] = []")
  case True
  have "length data \<le> length shards" using rec by (simp add: received_def)
  moreover have "\<forall>j < length data. shards ! j = Some (data ! j)"
  proof (intro allI impI)
    fix j assume j: "j < length data"
    then have "shards ! j \<noteq> None" using True by (auto simp: filter_empty_conv)
    with received_data [OF rec j] show "shards ! j = Some (data ! j)" by simp
  qed
  ultimately show ?thesis using reconstruct_none_missing [OF _ True] by simp
next
  case False
  let ?missing = "filter (\<lambda>j. shards ! j = None) [0..<length data]"
  define out where "out = fold (\<lambda>(j, out) s. s[j := Some out]) (zip ?missing (map ((!) data) ?missing)) shards"
  have "set ?missing \<subseteq> {..<length shards}" using rec by (auto simp: received_def)
  then have st: "length out = length shards"
    "\<forall>x < length ?missing. out ! (?missing ! x) = Some (data ! (?missing ! x))"
    "\<forall>j. j \<notin> set ?missing \<longrightarrow> out ! j = shards ! j"
    unfolding out_def using fold_store [of ?missing "map ((!) data) ?missing" shards] by auto
  have dat: "out ! j = Some (data ! j)" if "j < length data" for j
  proof (cases "shards ! j = None")
    case True
    then have "j \<in> set ?missing" using that by simp
    then obtain x where x: "x < length ?missing" "?missing ! x = j" unfolding in_set_conv_nth by blast
    from st(2) x(1) have "out ! (?missing ! x) = Some (data ! (?missing ! x))" by blast
    then show ?thesis by (simp only: x(2))
  next
    case False
    then have "j \<notin> set ?missing" by simp
    with st(3) have "out ! j = shards ! j" by blast
    then show ?thesis using received_data [OF rec that] False by simp
  qed
  have rest: "out ! x = shards ! x" if "x \<ge> length data" for x using st(3) that by simp
  have "reconstruct shards (length data) = Some (True, out)"
    unfolding out_def by (rule reconstruct_lost [OF enc len rec refl False enough])
  with st(1) dat rest show ?thesis by auto
qed

lemma pow_2: "it 1 1 = 2" and pow_3: "it 25 1 = 3" and pow_244: "it 230 1 = 244" and pow_254: "it 254 1 = 142"
  and pow_245: "it 231 1 = 245"
  by code_simp+

lemma encode_example: "encode [[1], [2]] 1 = Some [[123]]"
proof -
  have "cauchy 2 0 0 = 142" using gf_inv_pow [of 1] pow_2 pow_254 by (simp add: cauchy_def)
  moreover have "cauchy 2 0 1 = 244" using gf_inv_pow [of 25] pow_3 pow_244 by (simp add: cauchy_def)
  moreover have "gf_mul 142 1 = 142" using gf_mul_1 [of 142] gf_mul_commute [of 142 1] by simp
  moreover have "gf_mul 244 2 = 245" using gf_mul_pow [of 230 1] pow_2 pow_244 pow_245 by simp
  ultimately show ?thesis
    by (simp add: encode_def MAX_SHARDS_def Let_def mul_add_eq zip_update_def enumerate_eq_zip numeral_2_eq_2)
qed

text \<open>
  C5. Any \<open>k\<close> of a block's \<open>k + m\<close> shards are enough: if the parity shards are
  \<open>encode\<close>'s for \<open>k\<close> data shards of one length, and at least \<open>k\<close> of all the shards
  arrived (whichever they are), \<open>reconstruct\<close> returns true, every data shard is then
  present with its original bytes, and no other entry changed.
\<close>

theorem reconstruct_any_k:
  assumes enc: "encode data m = Some par" and len: "\<forall>d \<in> set data. length d = L"
    and rec: "received data par shards" and enough: "length data \<le> arrived shards"
  shows "\<exists>out. reconstruct shards (length data) = Some (True, out) \<and> length out = length shards
    \<and> (\<forall>j < length data. out ! j = Some (data ! j))
    \<and> (\<forall>x \<ge> length data. out ! x = shards ! x)"
  using assms by (rule reconstruct_rebuilds)

theorem reconstruct_any_k_witness:
  "\<exists>out. reconstruct [None, Some [2], Some [123]] 2 = Some (True, out) \<and> length out = 3
    \<and> out ! 0 = Some [1] \<and> out ! 1 = Some [2] \<and> out ! 2 = Some [123]"
proof -
  have rec: "received [[1], [2]] [[123]] [None, Some [2], Some [123]]"
    by (auto simp: received_def nth_Cons split: nat.splits)
  have len: "\<forall>d \<in> set [[1], [2 :: u8]]. length d = 1" by simp
  have "length [[1], [2 :: u8]] \<le> arrived [None, Some [2], Some [123]]" by (simp add: arrived_def)
  from reconstruct_any_k [OF encode_example len rec this] show ?thesis
    by (auto simp: numeral_2_eq_2)
qed

text \<open>
  Fewer than \<open>k\<close> shards are reported as unrecoverable: \<open>reconstruct\<close> returns false
  and leaves every shard as it was.
\<close>

lemma reconstruct_too_few:
  assumes "k \<le> length shards" "arrived shards < k"
  shows "reconstruct shards k = Some (False, shards)"
proof -
  let ?m = "length shards - k"
  let ?missing = "filter (\<lambda>j. shards ! j = None) [0..<k]"
  have "length shards = k + ?m" using assms(1) by simp
  from arrived_split [OF this] assms(2)
  have few: "length (filter (\<lambda>i. shards ! (k + i) \<noteq> None) [0..<?m]) < length ?missing" by simp
  then have "?missing \<noteq> []" by auto
  with few assms(1) show ?thesis by (simp add: reconstruct_def Let_def min_def)
qed

theorem reconstruct_too_few_witness:
  "reconstruct [Some [7], None, None] 2 = Some (False, [Some [7], None, None])"
  by (rule reconstruct_too_few) (simp_all add: arrived_def)

end
