(* ===== verification/Wire.thy ===== *)
theory Wire
  imports Prelude
begin

text \<open>
  Packet framing of \<open>crates/rdp-hyper/src/wire.rs\<close>: the 12-byte header, the sealed body,
  and the sliding replay window of a \<open>Session\<close>. AES-256-GCM is the \<open>ring\<close> crate's: the
  definitions take its two operations as the arguments \<open>sealf\<close> and \<open>openf\<close> (key, nonce,
  associated data, text), and \<open>aead_ok\<close> states what the code relies on.
\<close>

section \<open>Model\<close>

definition MAGIC :: u8 where "MAGIC = 0xD7"
definition VERSION :: u8 where "VERSION = 4"
definition HEADER_LEN :: nat where "HEADER_LEN = 12"
definition TAG_LEN :: nat where "TAG_LEN = 16"
definition OVERHEAD :: nat where "OVERHEAD = HEADER_LEN + TAG_LEN"
definition MAX_DATAGRAM :: nat where "MAX_DATAGRAM = 1200"
definition MAX_BODY :: nat where "MAX_BODY = MAX_DATAGRAM - OVERHEAD"
definition REPLAY_WINDOW :: u64 where "REPLAY_WINDOW = 1024"
definition WINDOW_WORDS :: nat where "WINDOW_WORDS = 16"

datatype kind = Video | Audio | Input | Control | Reliable | Update | Camera

fun kind_u8 :: "kind \<Rightarrow> u8" where
  "kind_u8 Video = 1"
| "kind_u8 Audio = 2"
| "kind_u8 Input = 3"
| "kind_u8 Control = 4"
| "kind_u8 Reliable = 6"
| "kind_u8 Update = 7"
| "kind_u8 Camera = 8"

definition kind_from_u8 :: "u8 \<Rightarrow> kind option" where
  "kind_from_u8 v =
     (if v = 1 then Some Video else if v = 2 then Some Audio else if v = 3 then Some Input
      else if v = 4 then Some Control else if v = 6 then Some Reliable else if v = 7 then Some Update
      else if v = 8 then Some Camera else None)"

datatype direction = HostToClient | ClientToHost

fun dir_tag :: "direction \<Rightarrow> bytes" where
  "dir_tag HostToClient = [0x48, 0x32, 0x43, 0]"
| "dir_tag ClientToHost = [0x43, 0x32, 0x48, 0]"

fun reverse_dir :: "direction \<Rightarrow> direction" where
  "reverse_dir HostToClient = ClientToHost"
| "reverse_dir ClientToHost = HostToClient"

datatype open_error = NotOurs | BadVersion u8 | BadKind u8 | Auth | Replay

record session =
  key :: bytes
  version :: u8
  send_dir :: direction
  send_seq :: u64
  recv_top :: u64
  recv_window :: "u64 list"
  recv_any :: bool

definition with_version :: "bytes \<Rightarrow> direction \<Rightarrow> u8 \<Rightarrow> session" where
  "with_version k dir v =
     \<lparr>key = k, version = v, send_dir = dir, send_seq = 0, recv_top = 0,
      recv_window = replicate WINDOW_WORDS 0, recv_any = False\<rparr>"

definition new_session :: "bytes \<Rightarrow> direction \<Rightarrow> session" where
  "new_session k dir = with_version k dir VERSION"

definition nonce :: "direction \<Rightarrow> u64 \<Rightarrow> bytes" where
  "nonce dir seq = dir_tag dir @ u64_le seq"

type_synonym aead_seal = "bytes \<Rightarrow> bytes \<Rightarrow> bytes \<Rightarrow> bytes \<Rightarrow> bytes"
type_synonym aead_open = "bytes \<Rightarrow> bytes \<Rightarrow> bytes \<Rightarrow> bytes \<Rightarrow> bytes option"

definition seal :: "aead_seal \<Rightarrow> session \<Rightarrow> kind \<Rightarrow> bytes \<Rightarrow> session \<times> bytes" where
  "seal sealf s kd body =
     (let s = s\<lparr>send_seq := send_seq s + 1\<rparr>;
          seq = send_seq s;
          header = [MAGIC, version s, kind_u8 kd, 0] @ u64_le seq
      in (s, header @ sealf (key s) (nonce (send_dir s) seq) header body))"

text \<open>\<open>fresh\<close>: not yet accepted, as far as the window tells.\<close>

definition fresh :: "session \<Rightarrow> u64 \<Rightarrow> bool" where
  "fresh s seq =
     (if \<not> recv_any s \<or> seq > recv_top s then True
      else
        let back = recv_top s - seq in
        back < REPLAY_WINDOW \<and>
        recv_window s ! (unat (back div 64)) AND push_bit (unat (back mod 64)) 1 = 0)"

text \<open>\<open>shift\<close>: the loop runs from the last word down, so it reads words not yet written.\<close>

definition shift_word :: "nat \<Rightarrow> nat \<Rightarrow> nat \<Rightarrow> u64 list \<Rightarrow> u64 list" where
  "shift_word words bits w win =
     (let at = (\<lambda>i. if i < length win then win ! i else 0);
          v = (if w \<ge> words then push_bit bits (at (w - words)) else 0);
          v = (if bits > 0 \<and> w > words then v OR drop_bit (64 - bits) (at (w - words - 1)) else v)
      in win[w := v])"

definition shift_window :: "u64 \<Rightarrow> u64 list \<Rightarrow> u64 list" where
  "shift_window n win =
     (if n \<ge> REPLAY_WINDOW then replicate WINDOW_WORDS 0
      else fold (shift_word (unat (n div 64)) (unat (n mod 64))) (rev [0..<WINDOW_WORDS]) win)"

definition accept :: "session \<Rightarrow> u64 \<Rightarrow> session" where
  "accept s seq =
     (let s = (if \<not> recv_any s then
                 s\<lparr>recv_any := True, recv_top := seq, recv_window := replicate WINDOW_WORDS 0\<rparr>
               else if seq > recv_top s then
                 s\<lparr>recv_window := shift_window (seq - recv_top s) (recv_window s), recv_top := seq\<rparr>
               else s);
          back = recv_top s - seq;
          w = unat (back div 64)
      in s\<lparr>recv_window := (recv_window s)[w := recv_window s ! w OR push_bit (unat (back mod 64)) 1]\<rparr>)"

definition check :: "session \<Rightarrow> bytes \<Rightarrow> open_error + kind \<times> u64" where
  "check s dg =
     (if length dg < OVERHEAD \<or> dg ! 0 \<noteq> MAGIC then Inl NotOurs
      else case kind_from_u8 (dg ! 2) of
        None \<Rightarrow> Inl (BadKind (dg ! 2))
      | Some kd \<Rightarrow>
          if dg ! 1 \<noteq> version s \<and> kd \<noteq> Update then Inl (BadVersion (dg ! 1))
          else
            let seq = u64_of_le (take 8 (drop 4 dg)) in
            if \<not> fresh s seq then Inl Replay else Inr (kd, seq))"

definition open_packet :: "aead_open \<Rightarrow> session \<Rightarrow> bytes \<Rightarrow> session \<times> (open_error + kind \<times> bytes)" where
  "open_packet openf s dg =
     (case check s dg of
        Inl e \<Rightarrow> (s, Inl e)
      | Inr (kd, seq) \<Rightarrow>
          let header = take HEADER_LEN dg; body = drop HEADER_LEN dg in
          case openf (key s) (nonce (reverse_dir (send_dir s)) seq) header body of
            None \<Rightarrow> (s, Inl Auth)
          | Some plain \<Rightarrow> (accept s seq, Inr (kd, plain)))"

text \<open>A receiver's packets in their order of arrival.\<close>

fun open_all :: "aead_open \<Rightarrow> session \<Rightarrow> bytes list \<Rightarrow> session \<times> (open_error + kind \<times> bytes) list" where
  "open_all openf s [] = (s, [])"
| "open_all openf s (d # ds) =
     (let (s, r) = open_packet openf s d; (s, rs) = open_all openf s ds in (s, r # rs))"

fun seal_all :: "aead_seal \<Rightarrow> session \<Rightarrow> (kind \<times> bytes) list \<Rightarrow> session \<times> bytes list" where
  "seal_all sealf s [] = (s, [])"
| "seal_all sealf s ((kd, body) # bs) =
     (let (s, p) = seal sealf s kd body; (s, ps) = seal_all sealf s bs in (s, p # ps))"

section \<open>The window as a set of sequence numbers\<close>

definition wbit :: "u64 list \<Rightarrow> nat \<Rightarrow> bool" where
  "wbit win i = bit (win ! (i div 64)) (i mod 64)"

lemma fold_shift_word:
  assumes "length win = 16" "n \<le> 16"
  shows "fold (shift_word ws bs) (rev [n..<16]) win
    = map (\<lambda>w. if w < n then win ! w else shift_word ws bs w win ! w) [0..<16]"
  using assms(2)
proof (induction n rule: inc_induct)
  case base
  show ?case using assms(1) by (intro nth_equalityI) auto
next
  case (step n)
  let ?m = "map (\<lambda>w. if w < Suc n then win ! w else shift_word ws bs w win ! w) [0..<16]"
  have "fold (shift_word ws bs) (rev [n..<16]) win = shift_word ws bs n ?m"
    using step by (simp add: upt_conv_Cons)
  also have "\<dots> = map (\<lambda>w. if w < n then win ! w else shift_word ws bs w win ! w) [0..<16]"
  proof (rule nth_equalityI)
    fix w assume "w < length (shift_word ws bs n ?m)"
    then have w: "w < 16" by (simp add: shift_word_def Let_def)
    have "?m ! i = win ! i" if "i \<le> n" for i using that step(2) by simp
    then show "shift_word ws bs n ?m ! w
        = map (\<lambda>w. if w < n then win ! w else shift_word ws bs w win ! w) [0..<16] ! w"
      using w step(2) assms(1) by (cases "w = n") (auto simp: shift_word_def Let_def)
  qed (simp add: shift_word_def Let_def)
  finally show ?case .
qed

lemma length_shift_window [simp]: "length win = 16 \<Longrightarrow> length (shift_window n win) = 16"
  using fold_shift_word [of win 0] by (simp add: shift_window_def WINDOW_WORDS_def)

lemma not_bit_u64: "64 \<le> k \<Longrightarrow> \<not> bit (y :: u64) k"
  by (auto dest: bit_imp_le_length)

lemma wbit_split: "r < 64 \<Longrightarrow> wbit win (64 * q + r) = bit (win ! q) r"
  by (simp add: wbit_def)

lemma wbit_shift_window:
  assumes "length win = 16" "i < 1024"
  shows "wbit (shift_window n win) i \<longleftrightarrow> unat n \<le> i \<and> wbit win (i - unat n)"
proof (cases "n \<ge> REPLAY_WINDOW")
  case True
  then have "unat n \<ge> 1024" by (simp add: REPLAY_WINDOW_def word_le_nat_alt)
  with True assms(2) show ?thesis by (simp add: shift_window_def wbit_def WINDOW_WORDS_def)
next
  case False
  define N where "N = unat n"
  define ws where "ws = N div 64"
  define bs where "bs = N mod 64"
  define w where "w = i div 64"
  define b where "b = i mod 64"
  have N: "N = 64 * ws + bs" "bs < 64" by (auto simp: ws_def bs_def)
  have i: "i = 64 * w + b" "b < 64" "w < 16" using assms(2) by (auto simp: w_def b_def)
  have nd: "unat (n div 64) = ws" "unat (n mod 64) = bs"
    by (simp_all add: ws_def bs_def N_def unat_div unat_mod)
  have "shift_window n win = map (\<lambda>w. shift_word ws bs w win ! w) [0..<16]"
    using False fold_shift_word [OF assms(1), of 0] by (simp add: shift_window_def nd WINDOW_WORDS_def)
  then have "wbit (shift_window n win) i = bit (shift_word ws bs w win ! w) b"
    using i by (simp add: wbit_def w_def b_def)
  also have "\<dots> = ((w \<ge> ws \<and> bs \<le> b \<and> bit (win ! (w - ws)) (b - bs))
      \<or> (bs > 0 \<and> w > ws \<and> bit (win ! (w - ws - 1)) (64 - bs + b)))"
    using i assms(1) by (auto simp: shift_word_def Let_def bit_simps)
  also have "\<dots> = (N \<le> i \<and> wbit win (i - N))"
  proof (cases "bs \<le> b")
    case True
    have "\<not> bit (win ! (w - ws - 1)) (64 - bs + b)" using True by (intro not_bit_u64) simp
    moreover have "N \<le> i \<longleftrightarrow> ws \<le> w"
    proof
      assume "N \<le> i"
      then have "64 * ws \<le> 64 * w + b" using N(1) i(1) by simp
      then show "ws \<le> w" using i(2) by linarith
    qed (use True N i in simp)
    moreover have "wbit win (i - N) = bit (win ! (w - ws)) (b - bs)" if "ws \<le> w"
    proof -
      have "i - N = 64 * (w - ws) + (b - bs)" using True N i that by (simp add: diff_mult_distrib2)
      then show ?thesis using wbit_split [of "b - bs" win "w - ws"] i(2) by simp
    qed
    ultimately show ?thesis using True by auto
  next
    case False
    have "N \<le> i \<longleftrightarrow> ws < w"
    proof
      assume "N \<le> i"
      then have "64 * ws + bs \<le> 64 * w + b" using N(1) i(1) by simp
      then show "ws < w" using False by linarith
    next
      assume "ws < w"
      then have "64 * Suc ws \<le> 64 * w" by simp
      then show "N \<le> i" using N i by simp
    qed
    moreover have "wbit win (i - N) = bit (win ! (w - ws - 1)) (64 - bs + b)" if "ws < w"
    proof -
      from that obtain d where d: "w = Suc (ws + d)" by (metis add_Suc_right less_iff_Suc_add)
      then have "i - N = 64 * (w - ws - 1) + (64 - bs + b)" using False N i by simp
      moreover have "64 - bs + b < 64" using False N by simp
      ultimately show ?thesis using wbit_split [of "64 - bs + b" win "w - ws - 1"] by (simp only:)
    qed
    ultimately show ?thesis using False by auto
  qed
  finally show ?thesis by (simp add: N_def)
qed


text \<open>
  \<open>tracks s H\<close>: \<open>H\<close> is the set of sequence numbers accepted so far, the newest is
  \<open>recv_top\<close>, and the window's bit \<open>i\<close> says whether \<open>recv_top - i\<close> is in \<open>H\<close>.
\<close>

definition tracks :: "session \<Rightarrow> u64 set \<Rightarrow> bool" where
  "tracks s H \<longleftrightarrow> length (recv_window s) = 16 \<and>
     (if recv_any s then
        recv_top s \<in> H \<and> (\<forall>q \<in> H. q \<le> recv_top s) \<and>
        (\<forall>i < 1024. i \<le> unat (recv_top s) \<longrightarrow> (wbit (recv_window s) i \<longleftrightarrow> recv_top s - of_nat i \<in> H))
      else H = {})"

definition in_window :: "session \<Rightarrow> u64 \<Rightarrow> bool" where
  "in_window s q \<longleftrightarrow> recv_any s \<longrightarrow> unat (recv_top s) < unat q + 1024"

lemma tracks_with_version: "tracks (with_version k d v) {}"
  by (simp add: tracks_def with_version_def WINDOW_WORDS_def)

lemma window_bit_test: "(x :: u64) AND push_bit n 1 = 0 \<longleftrightarrow> \<not> bit x n"
  by (simp only: push_bit_of_1 and_exp_eq_0_iff_not_bit)

lemma wbit_unat: "recv_window s ! unat (k div 64) AND push_bit (unat (k mod 64)) 1 = 0
    \<longleftrightarrow> \<not> wbit (recv_window s) (unat (k :: u64))"
  by (simp only: window_bit_test) (simp add: wbit_def unat_div unat_mod)

lemma unat_back:
  assumes "q \<le> (t :: u64)"
  shows "unat (t - q) = unat t - unat q" "t - of_nat (unat (t - q)) = q"
  using assms by (simp add: unat_sub, simp)

lemma fresh_iff:
  assumes "tracks s H"
  shows "fresh s q \<longleftrightarrow> q \<notin> H \<and> in_window s q"
proof (cases "recv_any s \<and> q \<le> recv_top s")
  case True
  let ?t = "recv_top s"
  have bk: "unat (?t - q) = unat ?t - unat q" "?t - of_nat (unat (?t - q)) = q"
    using unat_back True by auto
  have lt: "?t - q < REPLAY_WINDOW \<longleftrightarrow> in_window s q"
  proof -
    have "unat q \<le> unat ?t" using True by (simp add: word_le_nat_alt)
    then show ?thesis using True by (auto simp: REPLAY_WINDOW_def word_less_nat_alt bk(1) in_window_def)
  qed
  have "wbit (recv_window s) (unat (?t - q)) \<longleftrightarrow> q \<in> H" if "in_window s q"
  proof -
    have "unat (?t - q) < 1024" using that lt by (simp add: REPLAY_WINDOW_def word_less_nat_alt)
    moreover have "unat (?t - q) \<le> unat ?t" using bk(1) by simp
    ultimately show ?thesis using assms True bk(2) by (simp add: tracks_def)
  qed
  moreover have "fresh s q \<longleftrightarrow> ?t - q < REPLAY_WINDOW \<and> \<not> wbit (recv_window s) (unat (?t - q))"
    unfolding fresh_def Let_def wbit_unat using True by auto
  ultimately show ?thesis using lt by auto
next
  case False
  then show ?thesis using assms
    by (cases "recv_any s") (auto simp: fresh_def tracks_def in_window_def word_le_nat_alt word_less_nat_alt)
qed

lemma length_accept: "length (recv_window s) = 16 \<Longrightarrow> length (recv_window (accept s q)) = 16"
  by (simp add: accept_def Let_def WINDOW_WORDS_def)

lemma wbit_set:
  assumes "length win = 16" "unat back < 1024" "i < 1024"
  shows "wbit (win[unat (back div 64) := win ! unat (back div 64) OR push_bit (unat (back mod 64)) 1]) i
    \<longleftrightarrow> wbit win i \<or> i = unat (back :: u64)"
proof -
  define B where "B = unat back"
  have B: "unat (back div 64) = B div 64" "unat (back mod 64) = B mod 64" "B div 64 < 16"
    using assms(2) by (auto simp: B_def unat_div unat_mod)
  have eq: "i = B \<longleftrightarrow> i div 64 = B div 64 \<and> i mod 64 = B mod 64"
    by (metis div_mult_mod_eq)
  have b: "bit (push_bit m 1 :: u64) n \<longleftrightarrow> n = m" if "m < 64" for m n
    using that by (auto simp: bit_simps)
  show ?thesis
    using assms(1) b [of "B mod 64" "i mod 64"]
    by (cases "i div 64 = B div 64") (auto simp: wbit_def B bit_or_iff eq B_def [symmetric])
qed

lemma self_minus:
  assumes "i < 1024" "i \<noteq> 0"
  shows "q - of_nat i \<noteq> (q :: u64)"
proof
  assume "q - of_nat i = q"
  then have "unat (of_nat i :: u64) = unat (0 :: u64)" by simp
  then show False using assms by (simp add: unat_of_nat)
qed

lemma accept_newest:
  assumes t: "tracks s H" and any: "recv_any s" and q: "recv_top s < q"
  shows "tracks (accept s q) (insert q H)"
proof -
  let ?t = "recv_top s"
  let ?win = "shift_window (q - ?t) (recv_window s)"
  have len: "length (recv_window s) = 16" using t by (simp add: tracks_def)
  have acc: "accept s q = s\<lparr>recv_top := q, recv_window := ?win[0 := ?win ! 0 OR push_bit (unat (0 mod 64 :: u64)) 1]\<rparr>"
    using any q by (simp add: accept_def Let_def)
  have "wbit (recv_window (accept s q)) i \<longleftrightarrow> q - of_nat i \<in> insert q H" if i: "i < 1024" "i \<le> unat q" for i
  proof -
    have d: "unat (q - ?t) = unat q - unat ?t" using unat_back [of ?t q] q by simp
    have tq: "unat ?t < unat q" using q by (simp add: word_less_nat_alt)
    have "wbit (recv_window (accept s q)) i \<longleftrightarrow> wbit ?win i \<or> i = 0"
      using wbit_set [of ?win 0 i] len i by (simp add: acc)
    also have "\<dots> \<longleftrightarrow> (unat q - unat ?t \<le> i \<and> wbit (recv_window s) (i - (unat q - unat ?t))) \<or> i = 0"
      using wbit_shift_window [OF len i(1)] d by simp
    also have "\<dots> \<longleftrightarrow> q - of_nat i \<in> insert q H"
    proof (cases "unat q - unat ?t \<le> i")
      case True
      let ?j = "i - (unat q - unat ?t)"
      have j: "?j < 1024" "?j \<le> unat ?t" using i True tq by auto
      have "of_nat ?j = of_nat i - (q - ?t)"
        using True tq by (simp add: of_nat_diff d [symmetric])
      then have e: "?t - of_nat ?j = q - of_nat i" by simp
      have "wbit (recv_window s) ?j \<longleftrightarrow> ?t - of_nat ?j \<in> H" using j t any by (simp add: tracks_def)
      then have w: "wbit (recv_window s) ?j \<longleftrightarrow> q - of_nat i \<in> H" by (simp only: e)
      have "i \<noteq> 0" using True tq by simp
      moreover have "q - of_nat i \<noteq> q" using self_minus [of i q] i(1) \<open>i \<noteq> 0\<close> by simp
      ultimately show ?thesis using True w by simp
    next
      case False
      have "q - of_nat i \<notin> H" if "i \<noteq> 0"
      proof
        assume "q - of_nat i \<in> H"
        then have "q - of_nat i \<le> ?t" using t any by (simp add: tracks_def)
        then have "unat (q - of_nat i) \<le> unat ?t" by (simp add: word_le_nat_alt)
        moreover have "unat (of_nat i :: u64) = i" using i by (simp add: unat_of_nat)
        then have "unat (q - of_nat i) = unat q - i" using i(2) by (simp add: unat_sub word_le_nat_alt)
        ultimately show False using False i(2) by simp
      qed
      moreover have "i \<noteq> 0 \<Longrightarrow> q - of_nat i \<noteq> q"
        using self_minus [of i q] i(1) by simp
      ultimately show ?thesis using False by auto
    qed
    finally show ?thesis .
  qed
  moreover have "\<forall>x \<in> insert q H. x \<le> q" using t any q by (auto simp: tracks_def)
  moreover have "length (recv_window (accept s q)) = 16" using len by (rule length_accept)
  ultimately show ?thesis using any by (simp add: tracks_def acc)
qed


lemma accept_older:
  assumes t: "tracks s H" and any: "recv_any s" and q: "q \<le> recv_top s" "in_window s q"
  shows "tracks (accept s q) (insert q H)"
proof -
  let ?t = "recv_top s"
  have len: "length (recv_window s) = 16" using t by (simp add: tracks_def)
  have acc: "accept s q = s\<lparr>recv_window := (recv_window s)[unat ((?t - q) div 64) :=
      recv_window s ! unat ((?t - q) div 64) OR push_bit (unat ((?t - q) mod 64)) 1]\<rparr>"
    unfolding accept_def Let_def using any q by (simp add: not_less del: push_bit_of_1)
  have bk: "unat (?t - q) = unat ?t - unat q" "?t - of_nat (unat (?t - q)) = q" using unat_back [OF q(1)] by auto
  have lt: "unat (?t - q) < 1024" using q(2) any bk(1) by (simp add: in_window_def)
  have "wbit (recv_window (accept s q)) i \<longleftrightarrow> ?t - of_nat i \<in> insert q H" if i: "i < 1024" "i \<le> unat ?t" for i
  proof -
    have "wbit (recv_window (accept s q)) i \<longleftrightarrow> wbit (recv_window s) i \<or> i = unat (?t - q)"
      using wbit_set [OF len lt i(1)] unfolding acc by (simp del: push_bit_of_1)
    also have "wbit (recv_window s) i \<longleftrightarrow> ?t - of_nat i \<in> H" using t any i by (simp add: tracks_def)
    also have "i = unat (?t - q) \<longleftrightarrow> ?t - of_nat i = q"
    proof
      assume "?t - of_nat i = q"
      then have "of_nat i = ?t - q" by auto
      then have "unat (of_nat i :: u64) = unat (?t - q)" by (simp only:)
      then show "i = unat (?t - q)" using i(1) by (simp add: unat_of_nat)
    qed (simp only: bk(2))
    finally show ?thesis by auto
  qed
  moreover have "\<forall>x \<in> insert q H. x \<le> ?t" using t any q(1) by (auto simp: tracks_def)
  moreover have "length (recv_window (accept s q)) = 16" using len by (rule length_accept)
  ultimately show ?thesis using any t by (simp add: tracks_def acc)
qed

lemma accept_first:
  assumes t: "tracks s H" and any: "\<not> recv_any s"
  shows "tracks (accept s q) (insert q H)"
proof -
  let ?s = "s\<lparr>recv_any := True, recv_top := q, recv_window := replicate WINDOW_WORDS 0\<rparr>"
  have H: "H = {}" using t any by (simp add: tracks_def)
  have acc: "accept s q = ?s\<lparr>recv_window := (recv_window ?s)[unat ((0 :: u64) div 64) :=
      recv_window ?s ! unat ((0 :: u64) div 64) OR push_bit (unat ((0 :: u64) mod 64)) 1]\<rparr>"
    unfolding accept_def Let_def using any by simp
  have "wbit (recv_window (accept s q)) i \<longleftrightarrow> q - of_nat i \<in> insert q H" if i: "i < 1024" for i
  proof -
    have "wbit (recv_window (accept s q)) i \<longleftrightarrow> wbit (recv_window ?s) i \<or> i = unat (0 :: u64)"
      using wbit_set [of "recv_window ?s" 0 i] i unfolding acc by (simp add: WINDOW_WORDS_def del: push_bit_of_1)
    also have "\<dots> \<longleftrightarrow> i = 0" using i by (simp add: wbit_def WINDOW_WORDS_def)
    finally show ?thesis using self_minus [of i q] i H by auto
  qed
  moreover have "length (recv_window (accept s q)) = 16" using t by (simp add: tracks_def length_accept)
  ultimately show ?thesis by (simp add: tracks_def acc H)
qed

lemma accept_tracks:
  assumes "tracks s H" "fresh s q"
  shows "tracks (accept s q) (insert q H)"
  using assms accept_first accept_newest accept_older fresh_iff [OF assms(1)]
  by (metis not_le)

section \<open>The replay filter as an interface\<close>

text \<open>
  What a receiver asks of a replay filter on items named by \<open>ident\<close>: an item let through
  was not let through before, and letting one through is remembered. \<open>tr\<close> relates the
  filter's state to the set of names it stands for.
\<close>

primrec filter_run :: "('s \<Rightarrow> 'q \<Rightarrow> bool) \<Rightarrow> ('s \<Rightarrow> 'q \<Rightarrow> 's) \<Rightarrow> 's \<Rightarrow> 'q list \<Rightarrow> bool list" where
  "filter_run fr ac s [] = []"
| "filter_run fr ac s (q # qs) = fr s q # filter_run fr ac (if fr s q then ac s q else s) qs"

locale replay_filter =
  fixes ident :: "'q \<Rightarrow> 'k" and fr :: "'s \<Rightarrow> 'q \<Rightarrow> bool" and ac :: "'s \<Rightarrow> 'q \<Rightarrow> 's"
    and tr :: "'s \<Rightarrow> 'k set \<Rightarrow> bool"
  assumes fr_new: "tr s H \<Longrightarrow> fr s q \<Longrightarrow> ident q \<notin> H"
    and ac_tracks: "tr s H \<Longrightarrow> fr s q \<Longrightarrow> tr (ac s q) (insert (ident q) H)"
begin

lemma never_in_history: "tr s H \<Longrightarrow> i < length qs \<Longrightarrow> ident (qs ! i) \<in> H \<Longrightarrow> \<not> filter_run fr ac s qs ! i"
proof (induction qs arbitrary: s H i)
  case (Cons q qs)
  then show ?case
    by (cases i) (auto dest: fr_new ac_tracks)
qed simp

lemma never_twice:
  "tr s H \<Longrightarrow> i < j \<Longrightarrow> j < length qs \<Longrightarrow> filter_run fr ac s qs ! i \<Longrightarrow> filter_run fr ac s qs ! j
   \<Longrightarrow> ident (qs ! i) \<noteq> ident (qs ! j)"
proof (induction qs arbitrary: s H i j)
  case (Cons q qs)
  show ?case
  proof (cases i)
    case 0
    with Cons.prems have "fr s q" by simp
    with Cons.prems(1) have t: "tr (ac s q) (insert (ident q) H)" by (rule ac_tracks)
    obtain j' where j: "j = Suc j'" using Cons.prems 0 by (cases j) auto
    with Cons.prems \<open>fr s q\<close> never_in_history [OF t, of j' qs] show ?thesis by (auto simp: 0)
  next
    case (Suc i')
    obtain j' where j: "j = Suc j'" using Cons.prems Suc by (cases j) auto
    from Cons.prems(1) have "\<exists>H'. tr (if fr s q then ac s q else s) H'"
      using ac_tracks by (cases "fr s q") auto
    then show ?thesis using Cons.IH [of "if fr s q then ac s q else s" _ i' j'] Cons.prems Suc j by auto
  qed
qed simp

end

text \<open>
  A windowed filter also lets every new item through that is within its window (\<open>win\<close>).
  Items that never leave the window are then let through exactly once.
\<close>

locale windowed_filter = replay_filter +
  fixes win :: "'c \<Rightarrow> 'a \<Rightarrow> bool"
  assumes fr_within: "tr s H \<Longrightarrow> ident q \<notin> H \<Longrightarrow> win s q \<Longrightarrow> fr s q"
begin

lemma exactly_once:
  assumes "\<And>s H q. tr s H \<Longrightarrow> H \<subseteq> ident ` U \<Longrightarrow> q \<in> U \<Longrightarrow> win s q"
  shows "tr s H \<Longrightarrow> H \<subseteq> ident ` U \<Longrightarrow> set qs \<subseteq> U \<Longrightarrow> i < length qs \<Longrightarrow>
    filter_run fr ac s qs ! i \<longleftrightarrow> ident (qs ! i) \<notin> H \<union> ident ` set (take i qs)"
proof (induction qs arbitrary: s H i)
  case (Cons q qs)
  have fr: "fr s q \<longleftrightarrow> ident q \<notin> H"
    using Cons.prems assms fr_new fr_within by (metis list.set_intros(1) subsetD)
  show ?case
  proof (cases i)
    case 0
    then show ?thesis using fr by simp
  next
    case (Suc i')
    have "tr (if fr s q then ac s q else s) (insert (ident q) H)"
      using fr Cons.prems(1) ac_tracks by (auto simp: insert_absorb)
    then show ?thesis using Cons.IH [of _ "insert (ident q) H" i'] Cons.prems Suc by auto
  qed
qed simp

end

text \<open>The window alone, on sequence numbers.\<close>

interpretation window: windowed_filter "\<lambda>q. q" fresh accept tracks in_window
  by unfold_locales (auto simp: fresh_iff accept_tracks)

text \<open>The session, on whole datagrams: one is let through when \<open>open_packet\<close> returns its body.\<close>

definition packet_seq :: "bytes \<Rightarrow> u64" where
  "packet_seq dg = u64_of_le (take 8 (drop 4 dg))"

definition opens :: "aead_open \<Rightarrow> session \<Rightarrow> bytes \<Rightarrow> bool" where
  "opens openf s dg \<longleftrightarrow> \<not> isl (snd (open_packet openf s dg))"

definition opened :: "aead_open \<Rightarrow> session \<Rightarrow> bytes \<Rightarrow> session" where
  "opened openf s dg = fst (open_packet openf s dg)"

definition tracks_of :: "bytes \<Rightarrow> u8 \<Rightarrow> direction \<Rightarrow> session \<Rightarrow> u64 set \<Rightarrow> bool" where
  "tracks_of k v d s H \<longleftrightarrow> tracks s H \<and> key s = k \<and> version s = v \<and> send_dir s = d"

text \<open>Everything but the replay check: the header is ours and the body authenticates.\<close>

definition authentic :: "aead_open \<Rightarrow> bytes \<Rightarrow> u8 \<Rightarrow> direction \<Rightarrow> bytes \<Rightarrow> bool" where
  "authentic openf k v d dg \<longleftrightarrow>
     OVERHEAD \<le> length dg \<and> dg ! 0 = MAGIC \<and>
     (\<exists>kd. kind_from_u8 (dg ! 2) = Some kd \<and> (dg ! 1 = v \<or> kd = Update)) \<and>
     openf k (nonce (reverse_dir d) (packet_seq dg)) (take HEADER_LEN dg) (drop HEADER_LEN dg) \<noteq> None"

lemma accept_frame [simp]:
  "key (accept s q) = key s" "version (accept s q) = version s" "send_dir (accept s q) = send_dir s"
  "send_seq (accept s q) = send_seq s"
  by (simp_all add: accept_def Let_def)

lemma opens_iff:
  "opens openf s dg \<longleftrightarrow> fresh s (packet_seq dg) \<and> authentic openf (key s) (version s) (send_dir s) dg"
  by (auto simp: opens_def open_packet_def check_def Let_def packet_seq_def [symmetric] authentic_def
      split: option.splits)

lemma opened_eq: "opened openf s dg = (if opens openf s dg then accept s (packet_seq dg) else s)"
  by (auto simp: opened_def opens_def open_packet_def check_def Let_def packet_seq_def [symmetric]
      split: option.splits sum.splits)

interpretation packets: windowed_filter packet_seq "opens openf" "opened openf" "tracks_of k v d"
  "\<lambda>s dg. in_window s (packet_seq dg) \<and> authentic openf k v d dg" for openf k v d
proof unfold_locales
  fix s H q
  assume "tracks_of k v d s H"
  then have t: "tracks s H" and id: "key s = k" "version s = v" "send_dir s = d"
    by (simp_all add: tracks_of_def)
  have o: "opens openf s q \<longleftrightarrow> packet_seq q \<notin> H \<and> in_window s (packet_seq q) \<and> authentic openf k v d q"
    unfolding opens_iff id fresh_iff [OF t] by blast
  show "opens openf s q \<Longrightarrow> packet_seq q \<notin> H"
    using o by blast
  show "opens openf s q \<Longrightarrow> tracks_of k v d (opened openf s q) (insert (packet_seq q) H)"
    using accept_tracks [OF t] id by (simp add: tracks_of_def opened_eq) (simp add: opens_iff)
  show "packet_seq q \<notin> H \<Longrightarrow> in_window s (packet_seq q) \<and> authentic openf k v d q \<Longrightarrow> opens openf s q"
    using o by blast
qed

lemma open_all_filter_run:
  "map (\<lambda>r. \<not> isl r) (snd (open_all openf s ds)) = filter_run (opens openf) (opened openf) s ds"
proof (induction ds arbitrary: s)
  case (Cons d ds)
  have "fst (open_packet openf s d) = (if opens openf s d then opened openf s d else s)"
    using opened_eq [of openf s d] by (simp add: opened_def)
  with Cons show ?case by (simp add: split_beta opens_def)
qed simp

lemma length_open_all: "length (snd (open_all openf s ds)) = length ds"
  by (induction ds arbitrary: s) (auto simp: split_beta)

lemma tracks_of_new: "tracks_of k v d (with_version k d v) {}"
  using tracks_with_version by (simp add: tracks_of_def with_version_def)

section \<open>Sealing\<close>

text \<open>What the code relies on of AES-256-GCM: opening what was sealed, and the tag's length.\<close>

definition aead_ok :: "aead_seal \<Rightarrow> aead_open \<Rightarrow> bool" where
  "aead_ok sealf openf \<longleftrightarrow>
     (\<forall>k n a p. openf k n a (sealf k n a p) = Some p \<and> length (sealf k n a p) = length p + TAG_LEN)"

definition sealed_packet :: "aead_seal \<Rightarrow> session \<Rightarrow> u64 \<Rightarrow> kind \<times> bytes \<Rightarrow> bytes" where
  "sealed_packet sealf s seq kb =
     (let header = [MAGIC, version s, kind_u8 (fst kb), 0] @ u64_le seq
      in header @ sealf (key s) (nonce (send_dir s) seq) header (snd kb))"

lemma seal_eq:
  "seal sealf s kd body = (s\<lparr>send_seq := send_seq s + 1\<rparr>, sealed_packet sealf s (send_seq s + 1) (kd, body))"
  by (simp add: seal_def sealed_packet_def Let_def)

lemma seal_all_nth:
  "length (snd (seal_all sealf s bs)) = length bs \<and>
   (\<forall>i < length bs. snd (seal_all sealf s bs) ! i = sealed_packet sealf s (send_seq s + of_nat (Suc i)) (bs ! i))"
proof (induction bs arbitrary: s)
  case (Cons b bs)
  have sp: "sealed_packet sealf (s\<lparr>send_seq := x\<rparr>) q kb = sealed_packet sealf s q kb" for x q kb
    by (simp add: sealed_packet_def)
  obtain kd body where b: "b = (kd, body)" by (cases b)
  show ?case using Cons [of "s\<lparr>send_seq := send_seq s + 1\<rparr>"]
    by (auto simp: b seal_eq split_beta sp nth_Cons ac_simps split: nat.splits)
qed simp

lemma kind_from_kind_u8 [simp]: "kind_from_u8 (kind_u8 kd) = Some kd"
  by (cases kd) (simp_all add: kind_from_u8_def)

lemma sealed_header:
  "take 12 (sealed_packet sealf s q kb) = [MAGIC, version s, kind_u8 (fst kb), 0] @ u64_le q"
  "drop 12 (sealed_packet sealf s q kb) = sealf (key s) (nonce (send_dir s) q)
     ([MAGIC, version s, kind_u8 (fst kb), 0] @ u64_le q) (snd kb)"
  "packet_seq (sealed_packet sealf s q kb) = q"
  by (simp_all add: sealed_packet_def Let_def packet_seq_def)

lemma reverse_reverse [simp]: "reverse_dir (reverse_dir d) = d"
  by (cases d) simp_all

lemma open_sealed:
  assumes ok: "aead_ok sealf openf"
    and peer: "key s' = key s" "version s' = version s" "send_dir s' = reverse_dir (send_dir s)"
  shows "open_packet openf s' (sealed_packet sealf s q kb)
    = (if fresh s' q then (accept s' q, Inr kb) else (s', Inl Replay))"
proof -
  let ?p = "sealed_packet sealf s q kb"
  have hd: "?p ! 0 = MAGIC" "?p ! 1 = version s" "?p ! 2 = kind_u8 (fst kb)"
    by (simp_all add: sealed_packet_def Let_def)
  have "length ?p = 28 + length (snd kb)"
    using ok by (simp add: sealed_packet_def Let_def aead_ok_def TAG_LEN_def)
  then have "OVERHEAD \<le> length ?p" by (simp add: OVERHEAD_def HEADER_LEN_def TAG_LEN_def)
  then have "check s' ?p = (if fresh s' q then Inr (fst kb, q) else Inl Replay)"
    using hd peer sealed_header(3) [of sealf s q kb] by (simp add: check_def packet_seq_def)
  then show ?thesis using ok peer
    by (simp add: open_packet_def HEADER_LEN_def sealed_header aead_ok_def)
qed

lemma authentic_sealed:
  assumes ok: "aead_ok sealf openf"
  shows "authentic openf k v (reverse_dir d) (sealed_packet sealf (with_version k d v) q kb)"
proof -
  let ?r = "with_version k (reverse_dir d) v"
  have "fresh ?r q" by (simp add: fresh_def with_version_def)
  then have "opens openf ?r (sealed_packet sealf (with_version k d v) q kb)"
    using open_sealed [OF ok, of ?r "with_version k d v" q kb] by (simp add: opens_def with_version_def)
  then show ?thesis by (simp add: opens_iff with_version_def)
qed

lemma open_all_sealed:
  assumes ok: "aead_ok sealf openf"
    and pk: "\<And>i. i \<in> set is \<Longrightarrow> ps ! i = sealed_packet sealf s (sq i) (kb i)"
  shows "key r = key s \<Longrightarrow> version r = version s \<Longrightarrow> send_dir r = reverse_dir (send_dir s) \<Longrightarrow>
    snd (open_all openf r (map ((!) ps) is))
    = map2 (\<lambda>i b. if b then Inr (kb i) else Inl Replay) is (filter_run (opens openf) (opened openf) r (map ((!) ps) is))"
  using pk
proof (induction "is" arbitrary: r)
  case (Cons i js)
  have p: "ps ! i = sealed_packet sealf s (sq i) (kb i)" using Cons.prems by simp
  have o: "open_packet openf r (ps ! i)
      = (if fresh r (sq i) then (accept r (sq i), Inr (kb i)) else (r, Inl Replay))"
    unfolding p using open_sealed [OF ok] Cons.prems by blast
  have IH: "snd (open_all openf r' (map ((!) ps) js)) =
      map2 (\<lambda>i b. if b then Inr (kb i) else Inl Replay) js (filter_run (opens openf) (opened openf) r' (map ((!) ps) js))"
    if "key r' = key s" "version r' = version s" "send_dir r' = reverse_dir (send_dir s)" for r'
    using Cons.IH [of r'] that Cons.prems by simp
  have op: "opens openf r (ps ! i) \<longleftrightarrow> fresh r (sq i)"
    by (simp add: opens_def o)
  have od: "opened openf r (ps ! i) = (if fresh r (sq i) then accept r (sq i) else r)"
    by (simp add: opened_def o)
  show ?case using IH [of r] IH [of "accept r (sq i)"] Cons.prems(1-3)
    by (simp add: o op od split_beta)
qed simp

section \<open>Properties\<close>


definition toy_seal :: aead_seal where
  "toy_seal k n a p = p @ replicate TAG_LEN 0"

definition toy_open :: aead_open where
  "toy_open k n a c = (if TAG_LEN \<le> length c then Some (take (length c - TAG_LEN) c) else None)"

lemma toy_aead_ok: "aead_ok toy_seal toy_open"
  by (simp add: aead_ok_def toy_seal_def toy_open_def)

definition sample_packets :: "bytes list" where
  "sample_packets = snd (seal_all toy_seal (with_version [] HostToClient 4) [(Video, [1]), (Audio, [2])])"

lemma sample_open_all:
  "snd (open_all toy_open (with_version [] ClientToHost 4) sample_packets) = [Inr (Video, [1]), Inr (Audio, [2])]"
  by (simp add: sample_packets_def seal_def with_version_def Let_def toy_seal_def toy_open_def open_packet_def check_def
      OVERHEAD_def HEADER_LEN_def TAG_LEN_def MAGIC_def kind_from_u8_def fresh_def accept_def)




text \<open>
  C9. The two ends share one key and never seal under the same nonce: over fewer than
  2^64 packets each way, all the nonces used are distinct.
\<close>

fun seal_nonces :: "aead_seal \<Rightarrow> session \<Rightarrow> (kind \<times> bytes) list \<Rightarrow> bytes list" where
  "seal_nonces sealf s [] = []"
| "seal_nonces sealf s ((kd, body) # bs) =
     (let (s, p) = seal sealf s kd body in nonce (send_dir s) (send_seq s) # seal_nonces sealf s bs)"

lemma nonce_inj: "nonce d q = nonce d' q' \<longleftrightarrow> d = d' \<and> q = q'"
proof
  assume e: "nonce d q = nonce d' q'"
  have l: "length (dir_tag d) = 4" "length (dir_tag d') = 4" by (cases d, simp_all) (cases d', simp_all)
  from e l have "dir_tag d = dir_tag d'" "u64_le q = u64_le q'" by (simp_all add: nonce_def)
  then have "u64_of_le (u64_le q) = u64_of_le (u64_le q')" by simp
  moreover have "d = d'" using \<open>dir_tag d = dir_tag d'\<close> by (cases d; cases d') simp_all
  ultimately show "d = d' \<and> q = q'" by simp
qed simp

lemma seal_nonces_eq:
  "seal_nonces sealf s bs = map (\<lambda>i. nonce (send_dir s) (send_seq s + of_nat (Suc i))) [0..<length bs]"
proof (induction bs arbitrary: s)
  case (Cons b bs)
  obtain kd body where b: "b = (kd, body)" by (cases b)
  show ?case by (simp add: b seal_eq Cons upt_conv_Cons del: upt_Suc)
    (simp add: map_Suc_upt [symmetric] ac_simps del: upt_Suc)
qed simp

theorem nonces_never_reused:
  assumes "length as < 2 ^ 64" "length bs < 2 ^ 64"
  shows "distinct (seal_nonces sealf (with_version k HostToClient v) as @
    seal_nonces sealf (with_version k ClientToHost v) bs)"
proof -
  have inj: "inj_on (\<lambda>i. nonce d (0 + of_nat (Suc i))) {..<n}" if "n < 2 ^ 64" for d and n :: nat
  proof (rule inj_onI)
    fix i j assume ij: "i \<in> {..<n}" "j \<in> {..<n}" and "nonce d (0 + of_nat (Suc i)) = nonce d (0 + of_nat (Suc j))"
    then have "unat (of_nat (Suc i) :: u64) = unat (of_nat (Suc j) :: u64)" by (simp add: nonce_inj del: of_nat_Suc)
    then show "i = j" using ij that by (simp add: unat_of_nat del: of_nat_Suc)
  qed
  show ?thesis using inj [OF assms(1)] inj [OF assms(2)]
    by (auto simp: seal_nonces_eq with_version_def distinct_map atLeast0LessThan nonce_inj)
qed

theorem nonces_never_reused_witness:
  "distinct (seal_nonces toy_seal (with_version [] HostToClient 4) [(Video, []), (Video, [])] @
    seal_nonces toy_seal (with_version [] ClientToHost 4) [(Input, [])])"
  by (rule nonces_never_reused) simp_all

end
