(* ===== verification/Video.thy ===== *)
theory Video
  imports Complex_Main "HOL-Library.Multiset" Fec Wire
begin

text \<open>
  The sending half of \<open>crates/rdp-hyper/src/video.rs\<close>: an encoded frame cut into shards, the shards
  into blocks with parity, the parity bodies, and the order they are sent in. The parity
  ratio (\<open>f32\<close>) is an exact rational; the process-wide switch \<open>PROBE_TRAINS\<close> is the argument
  \<open>trains\<close>. A failed \<open>assert!\<close> is \<open>None\<close>.
\<close>

section \<open>Shard headers\<close>

definition SHARD_HEADER :: nat where "SHARD_HEADER = 26"
definition MAX_SHARD :: nat where "MAX_SHARD = MAX_BODY - SHARD_HEADER"
definition MAX_BLOCK_DATA :: nat where "MAX_BLOCK_DATA = 64"
definition MAX_BLOCK_PARITY :: nat where "MAX_BLOCK_PARITY = 64"
definition FLAG_KEYFRAME :: u8 where "FLAG_KEYFRAME = 1"
definition FLAG_LTR :: u8 where "FLAG_LTR = 2"
definition FLAG_RECOVERY :: u8 where "FLAG_RECOVERY = 4"
definition FLAG_PROBE :: u8 where "FLAG_PROBE = 8"

record shard_header =
  frame_id :: u32
  block :: u8
  blocks :: u8
  shard :: u8
  hk :: u8
  hm :: u8
  flags :: u8
  frame_len :: u32
  capture_us :: u64
  encode_us :: u32

definition write_header :: "shard_header \<Rightarrow> bytes" where
  "write_header h =
     u32_le (frame_id h) @ [block h, blocks h, shard h, hk h, hm h, flags h] @
     u32_le (frame_len h) @ u64_le (capture_us h) @ u32_le (encode_us h)"

definition read_header :: "bytes \<Rightarrow> shard_header option" where
  "read_header b =
     (if length b < SHARD_HEADER then None
      else
        let u32_at = (\<lambda>i. u32_of_le (take 4 (drop i b))) in
        Some \<lparr>frame_id = u32_at 0, block = b ! 4, blocks = b ! 5, shard = b ! 6, hk = b ! 7, hm = b ! 8,
              flags = b ! 9, frame_len = u32_at 10, capture_us = u64_of_le (take 8 (drop 14 b)),
              encode_us = u32_at 22\<rparr>)"

section \<open>Layout\<close>

record out_frame =
  of_id :: u32
  of_data :: bytes
  of_keyframe :: bool
  of_ltr :: bool
  of_recovery :: bool
  of_capture_us :: u64
  of_encode_us :: u32
  of_probe :: bool

definition PROBE_TRAIN_PACKETS :: nat where "PROBE_TRAIN_PACKETS = 48"
definition BURST_MIN_SHARDS :: nat where "BURST_MIN_SHARDS = 8"

definition div_ceil :: "nat \<Rightarrow> nat \<Rightarrow> nat" where
  "div_ceil a b = a div b + (if a mod b > 0 then 1 else 0)"

definition layout_of :: "bool \<Rightarrow> nat \<Rightarrow> bool \<Rightarrow> nat \<times> nat" where
  "layout_of trains len probe =
     (let len = max len 1 in
      if probe \<and> trains then (div_ceil len MAX_SHARD, MAX_SHARD)
      else
        let mn = (if probe then BURST_MIN_SHARDS else 1);
            size = div_ceil len (max (div_ceil len MAX_SHARD) mn)
        in (div_ceil len size, size))"

definition layout :: "bool \<Rightarrow> out_frame \<Rightarrow> nat \<times> nat" where
  "layout trains f = layout_of trains (length (of_data f)) (of_probe f)"

definition clamp_nat :: "nat \<Rightarrow> nat \<Rightarrow> nat \<Rightarrow> nat" where
  "clamp_nat x lo hi = (if x < lo then lo else if x > hi then hi else x)"

definition parity_count :: "bool \<Rightarrow> nat \<Rightarrow> nat \<Rightarrow> nat \<Rightarrow> rat \<Rightarrow> bool \<Rightarrow> nat" where
  "parity_count trains k b shards fec probe =
     (let m = (if fec \<le> 0 then 0 else clamp_nat (nat \<lceil>of_nat k * fec\<rceil>) 1 MAX_BLOCK_PARITY);
          last = (b + 1 = div_ceil shards MAX_BLOCK_DATA);
          fill = (if probe \<and> last \<and> trains then PROBE_TRAIN_PACKETS - (shards + m) else 0)
      in min (m + fill) MAX_BLOCK_PARITY)"

definition body_bytes :: "bool \<Rightarrow> nat \<Rightarrow> rat \<Rightarrow> bool \<Rightarrow> nat" where
  "body_bytes trains len fec probe =
     (let (shards, size) = layout_of trains len probe; blocks = div_ceil shards MAX_BLOCK_DATA in
      sum_list (map (\<lambda>b.
        let k = min (shards - b * MAX_BLOCK_DATA) MAX_BLOCK_DATA
        in (k + parity_count trains k b shards fec probe) * (SHARD_HEADER + size)) [0..<blocks]))"

definition probe_padding :: "bool \<Rightarrow> nat \<Rightarrow> rat \<Rightarrow> nat" where
  "probe_padding trains len fec =
     (if \<not> trains then 0 else body_bytes trains len fec True - body_bytes trains len fec False)"

section \<open>Packetizing\<close>

definition frame_flags :: "out_frame \<Rightarrow> u8" where
  "frame_flags f =
     fold (\<lambda>(on, bit) fl. if on then fl OR bit else fl)
       [(of_keyframe f, FLAG_KEYFRAME), (of_ltr f, FLAG_LTR), (of_recovery f, FLAG_RECOVERY), (of_probe f, FLAG_PROBE)] 0"

text \<open>\<open>Vec::resize(n, 0)\<close>\<close>

definition resize :: "bytes \<Rightarrow> nat \<Rightarrow> bytes" where
  "resize b n = take n b @ replicate (n - length b) 0"

definition block_k :: "nat \<Rightarrow> nat \<Rightarrow> nat" where
  "block_k shards b = min (shards - b * MAX_BLOCK_DATA) MAX_BLOCK_DATA"

text \<open>The header of data shard \<open>i\<close> of block \<open>b\<close>, and its payload before padding.\<close>

definition data_header :: "bool \<Rightarrow> out_frame \<Rightarrow> rat \<Rightarrow> nat \<Rightarrow> nat \<Rightarrow> shard_header" where
  "data_header trains f fec b i =
     (let (shards, size) = layout trains f; k = block_k shards b in
      \<lparr>frame_id = of_id f, block = of_nat b, blocks = of_nat (div_ceil shards MAX_BLOCK_DATA), shard = of_nat i,
       hk = of_nat k, hm = of_nat (parity_count trains k b shards fec (of_probe f)), flags = frame_flags f,
       frame_len = of_nat (length (of_data f)), capture_us = of_capture_us f, encode_us = of_encode_us f\<rparr>)"

definition data_piece :: "bytes \<Rightarrow> nat \<Rightarrow> nat \<Rightarrow> bytes" where
  "data_piece data sz n =
     (let start = n * sz in
      if start < length data then take (min (start + sz) (length data) - start) (drop start data) else [])"

definition packetize_data :: "bool \<Rightarrow> out_frame \<Rightarrow> rat \<Rightarrow> bytes list option" where
  "packetize_data trains f fec =
     (let (shards, size) = layout trains f; blocks = div_ceil shards MAX_BLOCK_DATA in
      if blocks > 255 then None
      else Some (concat (map (\<lambda>b.
        let first = b * MAX_BLOCK_DATA; k = block_k shards b in
        map (\<lambda>i. resize (write_header (data_header trains f fec b i) @ data_piece (of_data f) size (first + i))
                        (SHARD_HEADER + size)) [0..<k]) [0..<blocks])))"

text \<open>The same into one buffer (\<open>packetize_shards\<close>): each body is written and padded in place.\<close>

definition shards_step :: "bool \<Rightarrow> out_frame \<Rightarrow> rat \<Rightarrow> nat \<Rightarrow> nat \<Rightarrow> nat \<Rightarrow> bytes \<Rightarrow> bytes" where
  "shards_step trains f fec sz b i buf =
     (let first = b * MAX_BLOCK_DATA;
          buf = buf @ write_header (data_header trains f fec b i);
          buf = buf @ data_piece (of_data f) (sz - SHARD_HEADER) (first + i)
      in resize buf ((first + i + 1) * sz))"

record shards =
  s_buf :: bytes
  s_size :: nat

definition packetize_shards :: "bool \<Rightarrow> out_frame \<Rightarrow> rat \<Rightarrow> shards option" where
  "packetize_shards trains f fec =
     (let (needed, shard_size) = layout trains f; blocks = div_ceil needed MAX_BLOCK_DATA;
          size = SHARD_HEADER + shard_size in
      if blocks > 255 then None
      else Some \<lparr>s_buf = fold (\<lambda>b buf. fold (shards_step trains f fec size b) [0..<block_k needed b] buf) [0..<blocks] [],
                 s_size = size\<rparr>)"

definition shards_len :: "shards \<Rightarrow> nat" where
  "shards_len s = (if s_size s = 0 then 0 else length (s_buf s) div s_size s)"

definition shards_get :: "shards \<Rightarrow> nat \<Rightarrow> bytes" where
  "shards_get s i = take (s_size s) (drop (i * s_size s) (s_buf s))"

text \<open>The parity bodies of one block, whose first body's header is \<open>head\<close>.\<close>

definition parity_bodies :: "shard_header \<Rightarrow> nat \<Rightarrow> bytes list \<Rightarrow> bytes list option" where
  "parity_bodies head k refs =
     map_option (\<lambda>ps. map (\<lambda>(i, payload). write_header (head\<lparr>shard := of_nat (k + i)\<rparr>) @ payload) (enumerate 0 ps))
       (encode refs (unat (hm head)))"

function parity :: "bytes list \<Rightarrow> bytes list option" where
  "parity rest =
     (case rest of
        [] \<Rightarrow> Some []
      | b # _ \<Rightarrow>
          (case read_header b of
             None \<Rightarrow> Some []
           | Some head \<Rightarrow>
               let k = clamp_nat (unat (hk head)) 1 (length rest);
                   blk = take k rest; tail = drop k rest
               in if hm head = 0 then parity tail
                  else case parity_bodies head k (map (drop SHARD_HEADER) blk) of
                    None \<Rightarrow> None
                  | Some ps \<Rightarrow> map_option (\<lambda>qs. ps @ qs) (parity tail)))"
  by pat_completeness auto
termination
  by (relation "measure length") (auto simp: clamp_nat_def split: if_splits)

declare parity.simps [simp del]

text \<open>\<open>parity_shards\<close>, over a buffer of bodies: \<open>at\<close> is the loop's index.\<close>

function parity_shards_from :: "shards \<Rightarrow> nat \<Rightarrow> bytes \<Rightarrow> bytes option" where
  "parity_shards_from data pos out =
     (let n = shards_len data in
      if pos < n then
        (case read_header (shards_get data pos) of
           None \<Rightarrow> Some out
         | Some head \<Rightarrow>
             let k = clamp_nat (unat (hk head)) 1 (min (n - pos) MAX_BLOCK_DATA);
                 refs = map (\<lambda>j. drop SHARD_HEADER (shards_get data (pos + j))) [0..<k]
             in if hm head = 0 then parity_shards_from data (pos + k) out
                else case parity_bodies head k refs of
                  None \<Rightarrow> None
                | Some ps \<Rightarrow> parity_shards_from data (pos + k) (out @ concat ps))
      else Some out)"
  by pat_completeness auto
termination
  by (relation "measure (\<lambda>(data, pos, out). shards_len data - pos)")
    (auto simp: clamp_nat_def MAX_BLOCK_DATA_def split: if_splits)

declare parity_shards_from.simps [simp del]

definition parity_shards :: "shards \<Rightarrow> shards option" where
  "parity_shards data = map_option (\<lambda>b. \<lparr>s_buf = b, s_size = s_size data\<rparr>) (parity_shards_from data 0 [])"

definition packetize :: "bool \<Rightarrow> out_frame \<Rightarrow> rat \<Rightarrow> bytes list option" where
  "packetize trains f fec =
     (case packetize_data trains f fec of
        None \<Rightarrow> None
      | Some out \<Rightarrow> map_option (\<lambda>ps. out @ ps) (parity out))"

section \<open>Send order\<close>

record send_order =
  runs :: "(nat \<times> nat) list"
  plain :: "nat \<times> nat"
  turn :: nat

fun order_runs :: "nat \<Rightarrow> u8 option \<Rightarrow> u8 list \<Rightarrow> (nat \<times> nat) list \<Rightarrow> (nat \<times> nat) list" where
  "order_runs i prev [] rs = rs"
| "order_runs i prev (b # bs) rs =
     (let rs = (if prev \<noteq> Some b then rs @ [(i, i)] else rs);
          rs = butlast rs @ [(fst (last rs), i + 1)]
      in order_runs (i + 1) (Some b) bs rs)"

definition order_of :: "u8 list \<Rightarrow> bool \<Rightarrow> send_order" where
  "order_of bs interleave =
     \<lparr>runs = (if interleave \<and> bs \<noteq> [] \<and> hd bs \<noteq> last bs then order_runs 0 None bs [] else []),
      plain = (0, length bs), turn = 0\<rparr>"

definition send_order_of :: "shards \<Rightarrow> bool \<Rightarrow> send_order" where
  "send_order_of bodies interleave =
     order_of (map (\<lambda>i. shards_get bodies i ! 4) [0..<shards_len bodies]) interleave"

text \<open>The \<open>for _ in 0..n\<close> loop of \<open>SendOrder::next\<close>.\<close>

fun next_turn :: "nat \<Rightarrow> send_order \<Rightarrow> send_order \<times> nat option" where
  "next_turn 0 s = (s, None)"
| "next_turn (Suc n) s =
     (let r = runs s ! turn s; t = turn s; s = s\<lparr>turn := (turn s + 1) mod length (runs s)\<rparr> in
      if fst r < snd r then (s\<lparr>runs := (runs s)[t := (fst r + 1, snd r)]\<rparr>, Some (fst r))
      else next_turn n s)"

definition next_index :: "send_order \<Rightarrow> send_order \<times> nat option" where
  "next_index s =
     (if runs s = [] then
        (let (a, b) = plain s in
         if a < b then (s\<lparr>plain := (a + 1, b)\<rparr>, Some a) else (s, None))
      else next_turn (length (runs s)) s)"

text \<open>What iterating to the end yields (\<open>n\<close> bounds the number of items).\<close>

fun order_items :: "nat \<Rightarrow> send_order \<Rightarrow> nat list" where
  "order_items 0 s = []"
| "order_items (Suc n) s =
     (case next_index s of (s', None) \<Rightarrow> [] | (s', Some i) \<Rightarrow> i # order_items n s')"

section \<open>Headers\<close>

lemma length_write_header [simp]: "length (write_header h) = SHARD_HEADER"
  by (simp add: write_header_def SHARD_HEADER_def)

lemma read_write_header: "read_header (write_header h @ rest) = Some h"
proof -
  let ?b = "write_header h @ rest"
  have b: "?b = u32_le (frame_id h) @ [block h, blocks h, shard h, hk h, hm h, flags h] @
     u32_le (frame_len h) @ u64_le (capture_us h) @ u32_le (encode_us h) @ rest"
    by (simp add: write_header_def)
  have "take 4 (drop 0 ?b) = u32_le (frame_id h)" "take 4 (drop 10 ?b) = u32_le (frame_len h)"
    "take 8 (drop 14 ?b) = u64_le (capture_us h)" "take 4 (drop 22 ?b) = u32_le (encode_us h)"
    "?b ! 4 = block h" "?b ! 5 = blocks h" "?b ! 6 = shard h" "?b ! 7 = hk h" "?b ! 8 = hm h" "?b ! 9 = flags h"
    unfolding b by (simp_all add: nth_append)
  moreover have "\<not> length ?b < SHARD_HEADER" by simp
  ultimately show ?thesis unfolding read_header_def Let_def by (simp del: drop_append take_append)
qed

lemma length_resize [simp]: "length (resize b n) = n"
  by (simp add: resize_def)

lemma resize_prefix: "length a \<le> n \<Longrightarrow> resize (a @ b) n = a @ resize b (n - length a)"
  by (simp add: resize_def)

section \<open>Layout\<close>

lemma div_ceil_bounds: "0 < b \<Longrightarrow> a \<le> div_ceil a b * b" "0 < b \<Longrightarrow> div_ceil a b * b < a + b"
proof -
  assume b: "0 < b"
  define d m where "d = a div b" and "m = a mod b"
  have "a = d * b + m" "m < b" using b by (simp_all add: d_def m_def)
  then show "a \<le> div_ceil a b * b" "div_ceil a b * b < a + b"
    unfolding div_ceil_def d_def [symmetric] m_def [symmetric] by (auto simp: algebra_simps)
qed

lemma div_ceil_pos: "0 < b \<Longrightarrow> 0 < a \<Longrightarrow> 0 < div_ceil a b"
  using div_ceil_bounds(1) [of b a] by (cases "div_ceil a b") auto

lemma div_ceil_le: "0 < b \<Longrightarrow> a \<le> c * b \<Longrightarrow> div_ceil a b \<le> c"
proof -
  assume "0 < b" "a \<le> c * b"
  then have "div_ceil a b * b < (c + 1) * b" using div_ceil_bounds(2) [of b a] by (simp add: algebra_simps)
  then have "div_ceil a b < c + 1" by (simp only: mult_less_cancel2)
  then show ?thesis by simp
qed

lemma MAX_SHARD_val: "MAX_SHARD = 1146"
  by (simp add: MAX_SHARD_def MAX_BODY_def MAX_DATAGRAM_def OVERHEAD_def HEADER_LEN_def TAG_LEN_def SHARD_HEADER_def)

lemma layout_of_bounds:
  assumes "layout_of trains len probe = (n, sz)"
  shows "0 < sz" "sz \<le> MAX_SHARD" "0 < n" "max len 1 \<le> n * sz" "n * sz < max len 1 + sz"
proof -
  let ?l = "max len 1"
  have M: "0 < MAX_SHARD" by (simp add: MAX_SHARD_val)
  have "0 < sz \<and> sz \<le> MAX_SHARD \<and> n = div_ceil ?l sz"
  proof (cases "probe \<and> trains")
    case True
    then show ?thesis using assms M by (simp add: layout_of_def Let_def)
  next
    case False
    define d where "d = max (div_ceil ?l MAX_SHARD) (if probe then BURST_MIN_SHARDS else 1)"
    have sz: "sz = div_ceil ?l d" "n = div_ceil ?l sz"
      using assms False by (auto simp: layout_of_def Let_def d_def)
    have "0 < div_ceil ?l MAX_SHARD" by (rule div_ceil_pos [OF M]) simp
    then have d: "0 < d" by (simp add: d_def less_max_iff_disj)
    have "?l \<le> div_ceil ?l MAX_SHARD * MAX_SHARD" by (rule div_ceil_bounds(1) [OF M])
    also have "\<dots> \<le> MAX_SHARD * d" by (simp add: d_def)
    finally have "?l \<le> MAX_SHARD * d" .
    then show ?thesis using div_ceil_le [OF d] div_ceil_pos [OF d, of ?l] sz by simp
  qed
  then show "0 < sz" "sz \<le> MAX_SHARD" "0 < n" "max len 1 \<le> n * sz" "n * sz < max len 1 + sz"
    using div_ceil_pos [of sz ?l] div_ceil_bounds [of sz ?l] by auto
qed

lemma parity_count_le: "parity_count trains k b n fec probe \<le> 64"
  by (simp add: parity_count_def Let_def MAX_BLOCK_PARITY_def)

section \<open>The order of a frame's bodies\<close>

definition pending :: "send_order \<Rightarrow> nat list" where
  "pending s =
     (if runs s = [] then [fst (plain s)..<snd (plain s)] else concat (map (\<lambda>(a, b). [a..<b]) (runs s)))"

lemma next_turn_some:
  assumes "next_turn n s = (s', Some i)" "turn s < length (runs s)"
  shows "mset (pending s) = add_mset i (mset (pending s')) \<and> turn s' < length (runs s') \<and> runs s' \<noteq> []"
  using assms
proof (induction n s rule: next_turn.induct)
  case (2 n s)
  let ?r = "runs s ! turn s" and ?s = "s\<lparr>turn := (turn s + 1) mod length (runs s)\<rparr>"
  have t: "turn ?s < length (runs ?s)" using 2(3) by (cases "runs s") auto
  show ?case
  proof (cases "fst ?r < snd ?r")
    case True
    then have s': "s' = ?s\<lparr>runs := (runs s)[turn s := (fst ?r + 1, snd ?r)]\<rparr>" "i = fst ?r"
      using 2(2) by (auto simp: Let_def)
    obtain xs ys r where "runs s = xs @ r # ys" "?r = r" "runs s' = xs @ (fst r + 1, snd r) # ys"
      using id_take_nth_drop [OF 2(3)] s' upd_conv_take_nth_drop [OF 2(3)] by simp
    moreover have "[fst ?r..<snd ?r] = fst ?r # [fst ?r + 1..<snd ?r]" using True by (simp add: upt_conv_Cons)
    moreover have "runs s \<noteq> []" using 2(3) by auto
    ultimately have "mset (pending s) = add_mset i (mset (pending s'))"
      unfolding pending_def s'(2) by (auto simp: split_beta simp del: upt_Suc)
    then show ?thesis using t s' 2(3) by auto
  next
    case False
    then have "next_turn n ?s = (s', Some i)" using 2(2) by (simp add: Let_def)
    moreover have "pending ?s = pending s" by (simp add: pending_def)
    ultimately show ?thesis using 2(1) [OF refl refl refl False _ t] by simp
  qed
qed simp

lemma next_turn_none:
  assumes "next_turn n s = (s', None)" "turn s < length (runs s)"
  shows "\<forall>j < n. fst (runs s ! ((turn s + j) mod length (runs s))) \<ge> snd (runs s ! ((turn s + j) mod length (runs s)))"
  using assms
proof (induction n s rule: next_turn.induct)
  case (2 n s)
  let ?s = "s\<lparr>turn := (turn s + 1) mod length (runs s)\<rparr>" and ?L = "length (runs s)"
  have t: "turn ?s < length (runs ?s)" using 2(3) by (cases "runs s") auto
  have e: "\<not> fst (runs s ! turn s) < snd (runs s ! turn s)" and nx: "next_turn n ?s = (s', None)"
    using 2(2) by (auto simp: Let_def split: if_splits)
  have IH: "\<forall>j < n. fst (runs s ! ((turn ?s + j) mod ?L)) \<ge> snd (runs s ! ((turn ?s + j) mod ?L))"
    using 2(1) [OF refl refl refl e nx t] by simp
  show ?case
  proof (intro allI impI)
    fix j assume "j < Suc n"
    then show "snd (runs s ! ((turn s + j) mod ?L)) \<le> fst (runs s ! ((turn s + j) mod ?L))"
    proof (cases j)
      case 0
      then show ?thesis using e 2(3) by simp
    next
      case (Suc i)
      have "(turn ?s + i) mod ?L = (turn s + j) mod ?L" by (simp add: Suc mod_simps)
      moreover have "i < n" using \<open>j < Suc n\<close> Suc by simp
      ultimately show ?thesis using IH [rule_format, of i] by (simp only:)
    qed
  qed
qed simp

definition order_ok :: "send_order \<Rightarrow> bool" where
  "order_ok s \<longleftrightarrow> runs s = [] \<or> turn s < length (runs s)"

lemma next_index_some:
  assumes "next_index s = (s', Some i)" "order_ok s"
  shows "mset (pending s) = add_mset i (mset (pending s'))" "order_ok s'"
proof -
  have "mset (pending s) = add_mset i (mset (pending s')) \<and> order_ok s'"
  proof (cases "runs s = []")
    case True
    obtain a b where ab: "plain s = (a, b)" by fastforce
    then have "a < b \<and> s' = s\<lparr>plain := (a + 1, b)\<rparr> \<and> i = a"
      using assms(1) True by (simp add: next_index_def split: if_splits) blast
    then have "a < b" "s' = s\<lparr>plain := (a + 1, b)\<rparr>" "i = a" by blast+
    with ab have "pending s = [a..<b]" "pending s' = [a + 1..<b]" "order_ok s'"
      using True by (simp_all add: pending_def order_ok_def)
    moreover have "[a..<b] = a # [a + 1..<b]" using upt_rec [of a b] \<open>a < b\<close> by simp
    ultimately show ?thesis using \<open>i = a\<close> by (simp only: mset.simps simp_thms)
  next
    case False
    then have "next_turn (length (runs s)) s = (s', Some i)" "turn s < length (runs s)"
      using assms by (simp_all add: next_index_def order_ok_def)
    from next_turn_some [OF this] show ?thesis by (simp add: order_ok_def)
  qed
  then show "mset (pending s) = add_mset i (mset (pending s'))" "order_ok s'" by blast+
qed

lemma next_index_none:
  assumes "next_index s = (s', None)" "order_ok s"
  shows "pending s = []"
proof (cases "runs s = []")
  case True
  then show ?thesis using assms(1) by (auto simp: next_index_def pending_def split: if_splits prod.splits)
next
  case False
  let ?L = "length (runs s)"
  have t: "turn s < ?L" using False assms(2) by (simp add: order_ok_def)
  have n: "next_turn ?L s = (s', None)" using False assms(1) by (simp add: next_index_def)
  have "fst (runs s ! k) \<ge> snd (runs s ! k)" if "k < ?L" for k
  proof -
    define j where "j = (if turn s \<le> k then k - turn s else k + ?L - turn s)"
    have "j < ?L" "(turn s + j) mod ?L = k" using that t by (auto simp: j_def)
    then show ?thesis using next_turn_none [OF n t] by metis
  qed
  then have "\<forall>r \<in> set (runs s). fst r \<ge> snd r" by (metis in_set_conv_nth)
  then show ?thesis using False by (auto simp: pending_def)
qed

lemma order_items_pending:
  "order_ok s \<Longrightarrow> length (pending s) < n \<Longrightarrow> mset (order_items n s) = mset (pending s)"
proof (induction n arbitrary: s)
  case (Suc n)
  obtain s' oi where nx: "next_index s = (s', oi)" by fastforce
  show ?case
  proof (cases oi)
    case None
    then show ?thesis using nx next_index_none [of s s'] Suc.prems by simp
  next
    case (Some i)
    note p = next_index_some [OF nx [unfolded Some] Suc.prems(1)]
    have "length (pending s) = Suc (length (pending s'))" using arg_cong [OF p(1), of size] by simp
    then show ?thesis using Suc.IH [OF p(2)] Suc.prems nx Some p(1) by simp
  qed
qed simp

lemma order_runs_pending:
  assumes "concat (map (\<lambda>(a, b). [a..<b]) rs) = [0..<i]" "prev \<noteq> None \<Longrightarrow> rs \<noteq> [] \<and> snd (last rs) = i \<and> fst (last rs) < i"
  shows "concat (map (\<lambda>(a, b). [a..<b]) (order_runs i prev bs rs)) = [0..<i + length bs] \<and> (bs \<noteq> [] \<longrightarrow> order_runs i prev bs rs \<noteq> [])"
  using assms
proof (induction i prev bs rs rule: order_runs.induct)
  case (2 i prev b bs rs)
  define rs1 where "rs1 = (if prev \<noteq> Some b then rs @ [(i, i)] else rs)"
  have c1: "concat (map (\<lambda>(a, b). [a..<b]) rs1) = [0..<i]" "rs1 \<noteq> []" "snd (last rs1) = i" "fst (last rs1) \<le> i"
    using 2(2,3) by (auto simp: rs1_def)
  define rs2 where "rs2 = butlast rs1 @ [(fst (last rs1), i + 1)]"
  obtain rs0 x where rs1: "rs1 = rs0 @ [(x, i)]"
    using c1(2,3) by (metis append_butlast_last_id prod.collapse)
  have "concat (map (\<lambda>(a, b). [a..<b]) rs2) = [0..<i + 1]" using c1 by (simp add: rs2_def rs1)
  moreover have "rs2 \<noteq> [] \<and> snd (last rs2) = i + 1 \<and> fst (last rs2) < i + 1" using c1 by (simp add: rs2_def rs1)
  ultimately have "concat (map (\<lambda>(a, b). [a..<b]) (order_runs (i + 1) (Some b) bs rs2)) = [0..<i + 1 + length bs] \<and>
      (bs \<noteq> [] \<longrightarrow> order_runs (i + 1) (Some b) bs rs2 \<noteq> [])"
    using 2(1) [OF rs1_def rs2_def] by simp
  moreover have "order_runs i prev (b # bs) rs = order_runs (i + 1) (Some b) bs rs2"
    by (simp add: rs1_def rs2_def Let_def)
  moreover have "rs2 \<noteq> []" by (simp add: rs2_def)
  ultimately show ?case by (cases bs) simp_all
qed simp

lemma order_of_pending: "pending (order_of bs il) = [0..<length bs]" "order_ok (order_of bs il)"
  using order_runs_pending [of "[]" 0 None bs] by (auto simp: pending_def order_of_def order_ok_def)

text \<open>
  Whether bodies of the blocks take turns or not, the send order of \<open>n\<close> bodies
  is a permutation of \<open>0..<n\<close>: iterating it sends every body exactly once and then ends.
\<close>

lemma send_order_permutes:
  "mset (order_items (Suc (length bs)) (order_of bs interleave)) = mset [0..<length bs]"
  using order_items_pending [OF order_of_pending(2), of bs interleave "Suc (length bs)"]
  by (simp add: order_of_pending(1))

section \<open>The bodies of a frame\<close>

definition shard_size :: "bool \<Rightarrow> out_frame \<Rightarrow> nat" where
  "shard_size trains f = snd (layout trains f)"

definition shard_count :: "bool \<Rightarrow> out_frame \<Rightarrow> nat" where
  "shard_count trains f = fst (layout trains f)"

definition block_count :: "bool \<Rightarrow> out_frame \<Rightarrow> nat" where
  "block_count trains f = div_ceil (shard_count trains f) MAX_BLOCK_DATA"

definition k_of :: "bool \<Rightarrow> out_frame \<Rightarrow> nat \<Rightarrow> nat" where
  "k_of trains f b = block_k (shard_count trains f) b"

definition m_of :: "bool \<Rightarrow> out_frame \<Rightarrow> rat \<Rightarrow> nat \<Rightarrow> nat" where
  "m_of trains f fec b = parity_count trains (k_of trains f b) b (shard_count trains f) fec (of_probe f)"

definition data_payload :: "bool \<Rightarrow> out_frame \<Rightarrow> nat \<Rightarrow> nat \<Rightarrow> bytes" where
  "data_payload trains f b i =
     resize (data_piece (of_data f) (shard_size trains f) (b * MAX_BLOCK_DATA + i)) (shard_size trains f)"

definition block_data :: "bool \<Rightarrow> out_frame \<Rightarrow> nat \<Rightarrow> bytes list" where
  "block_data trains f b = map (data_payload trains f b) [0..<k_of trains f b]"

definition block_parity :: "bool \<Rightarrow> out_frame \<Rightarrow> rat \<Rightarrow> nat \<Rightarrow> bytes list" where
  "block_parity trains f fec b = the (encode (block_data trains f b) (m_of trains f fec b))"

definition wire_body :: "bool \<Rightarrow> out_frame \<Rightarrow> rat \<Rightarrow> nat \<Rightarrow> nat \<Rightarrow> bytes" where
  "wire_body trains f fec b i =
     write_header (data_header trains f fec b i) @ (block_data trains f b @ block_parity trains f fec b) ! i"

lemma layout_eq: "layout trains f = (shard_count trains f, shard_size trains f)"
  by (simp add: shard_count_def shard_size_def)

lemma shard_facts:
  "0 < shard_size trains f" "shard_size trains f \<le> MAX_SHARD" "0 < shard_count trains f"
  "length (of_data f) \<le> shard_count trains f * shard_size trains f"
  using layout_of_bounds [of trains "length (of_data f)" "of_probe f" "shard_count trains f" "shard_size trains f"]
  by (simp_all add: layout_eq [symmetric] layout_def [symmetric])

lemma k_of_bounds:
  assumes "b < block_count trains f"
  shows "0 < k_of trains f b" "k_of trains f b \<le> 64" "Suc b < block_count trains f \<Longrightarrow> k_of trains f b = 64"
    "k_of trains f b \<le> shard_count trains f - b * 64"
proof -
  have lt: "c * 64 < shard_count trains f" if "c < block_count trains f" for c
  proof (rule ccontr)
    assume "\<not> c * 64 < shard_count trains f"
    then have "block_count trains f \<le> c"
      unfolding block_count_def by (intro div_ceil_le) (simp_all add: MAX_BLOCK_DATA_def)
    with that show False by simp
  qed
  show "0 < k_of trains f b" "k_of trains f b \<le> 64" "k_of trains f b \<le> shard_count trains f - b * 64"
    using lt [OF assms] by (simp_all add: k_of_def block_k_def MAX_BLOCK_DATA_def)
  show "Suc b < block_count trains f \<Longrightarrow> k_of trains f b = 64"
    using lt [of "Suc b"] by (simp add: k_of_def block_k_def MAX_BLOCK_DATA_def)
qed

lemma m_of_le: "m_of trains f fec b \<le> 64"
  by (simp add: m_of_def parity_count_le)

lemma length_block_data [simp]: "length (block_data trains f b) = k_of trains f b"
  by (simp add: block_data_def)

lemma block_data_sizes: "d \<in> set (block_data trains f b) \<Longrightarrow> length d = shard_size trains f"
  by (auto simp: block_data_def data_payload_def)

lemma block_parity_eq:
  assumes "b < block_count trains f"
  shows "encode (block_data trains f b) (m_of trains f fec b) = Some (block_parity trains f fec b)"
    "length (block_parity trains f fec b) = m_of trains f fec b"
proof -
  have "0 < k_of trains f b" "k_of trains f b + m_of trains f fec b \<le> 255"
    using k_of_bounds [OF assms] m_of_le [of trains f fec b] by auto
  then show "encode (block_data trains f b) (m_of trains f fec b) = Some (block_parity trains f fec b)"
    "length (block_parity trains f fec b) = m_of trains f fec b"
    by (simp_all add: block_parity_def encode_def MAX_SHARDS_def Let_def)
qed

lemma data_header_fields:
  "data_header trains f fec b i = \<lparr>frame_id = of_id f, block = of_nat b, blocks = of_nat (block_count trains f),
     shard = of_nat i, hk = of_nat (k_of trains f b), hm = of_nat (m_of trains f fec b), flags = frame_flags f,
     frame_len = of_nat (length (of_data f)), capture_us = of_capture_us f, encode_us = of_encode_us f\<rparr>"
  by (simp add: data_header_def layout_eq k_of_def m_of_def block_count_def Let_def)

lemma packetize_data_bodies:
  "packetize_data trains f fec =
     (if block_count trains f > 255 then None
      else Some (concat (map (\<lambda>b. map (wire_body trains f fec b) [0..<k_of trains f b]) [0..<block_count trains f])))"
proof -
  have "resize (write_header (data_header trains f fec b i) @ data_piece (of_data f) (shard_size trains f) (b * MAX_BLOCK_DATA + i))
      (SHARD_HEADER + shard_size trains f) = wire_body trains f fec b i" if "i < k_of trains f b" for b i
    using that by (simp add: resize_prefix wire_body_def nth_append) (simp add: block_data_def data_payload_def)
  then show ?thesis
    unfolding packetize_data_def layout_eq Let_def
    by (auto simp: block_count_def [symmetric] k_of_def [symmetric] intro!: arg_cong [of _ _ concat])
qed

section \<open>Parity, block by block\<close>

lemma parity_block:
  assumes "read_header (hd blk) = Some h" "length blk = k" "0 < k" "unat (hk h) = k" "k \<le> 64"
  shows "parity (blk @ rest) =
    (case encode (map (drop SHARD_HEADER) blk) (unat (hm h)) of
       None \<Rightarrow> None
     | Some ps \<Rightarrow> map_option (\<lambda>qs. map (\<lambda>(i, payload). write_header (h\<lparr>shard := of_nat (k + i)\<rparr>) @ payload) (enumerate 0 ps) @ qs)
         (parity rest))"
proof -
  obtain b bs where blk: "blk = b # bs" using assms by (cases blk) auto
  have "clamp_nat (unat (hk h)) 1 (length (blk @ rest)) = k" using assms by (simp add: clamp_nat_def)
  moreover have "hm h = 0 \<longleftrightarrow> unat (hm h) = 0" by (simp add: unat_eq_0)
  moreover have "encode (map (drop SHARD_HEADER) blk) 0 = Some []"
    using assms by (simp add: encode_def MAX_SHARDS_def Let_def)
  moreover have "map_option ((@) []) r = r" for r :: "bytes list option" by (cases r) simp_all
  ultimately show ?thesis
    using assms by (subst parity.simps) (auto simp: blk parity_bodies_def Let_def split: option.split)
qed

lemma unat_of_nat_lt: "n < 256 \<Longrightarrow> unat (of_nat n :: u8) = n"
  by (simp add: unat_of_nat_u8)

lemma parity_bodies_eq:
  assumes "block_count trains f \<le> 255" "n \<le> block_count trains f"
  shows "parity (concat (map (\<lambda>b. map (wire_body trains f fec b) [0..<k_of trains f b]) [n..<block_count trains f]))
    = Some (concat (map (\<lambda>b. map (wire_body trains f fec b) [k_of trains f b..<k_of trains f b + m_of trains f fec b])
        [n..<block_count trains f]))"
  using assms(2)
proof (induction rule: inc_induct)
  case base
  then show ?case by (subst parity.simps) simp
next
  case (step n)
  let ?k = "k_of trains f n" and ?m = "m_of trains f fec n"
  note kb = k_of_bounds [OF step(2)]
  let ?blk = "map (wire_body trains f fec n) [0..<?k]"
  let ?rest = "concat (map (\<lambda>b. map (wire_body trains f fec b) [0..<k_of trains f b]) [Suc n..<block_count trains f])"
  have h: "read_header (hd ?blk) = Some (data_header trains f fec n 0)"
    using kb(1) by (simp add: hd_map wire_body_def read_write_header)
  have km: "unat (hk (data_header trains f fec n 0)) = ?k" "unat (hm (data_header trains f fec n 0)) = ?m"
    using kb m_of_le [of trains f fec n] by (simp_all add: data_header_fields unat_of_nat_lt)
  have refs: "map (drop SHARD_HEADER) ?blk = block_data trains f n"
    by (rule nth_equalityI) (simp_all add: wire_body_def nth_append)
  have "map (\<lambda>(i, payload). write_header ((data_header trains f fec n 0)\<lparr>shard := of_nat (?k + i)\<rparr>) @ payload)
      (enumerate 0 (block_parity trains f fec n)) = map (wire_body trains f fec n) [?k..<?k + ?m]"
    by (rule nth_equalityI)
      (simp_all add: block_parity_eq(2) [OF step(2)] nth_enumerate_eq wire_body_def nth_append data_header_fields)
  moreover have lb: "length ?blk = ?k" by simp
  ultimately have "parity (?blk @ ?rest) = Some (map (wire_body trains f fec n) [?k..<?k + ?m] @
      concat (map (\<lambda>b. map (wire_body trains f fec b) [k_of trains f b..<k_of trains f b + m_of trains f fec b])
        [Suc n..<block_count trains f]))"
    unfolding parity_block [OF h lb kb(1) km(1) kb(2), of ?rest] refs km
      block_parity_eq(1) [OF step(2), of fec] step(3) option.case by simp
  then show ?case using step(2) by (simp add: upt_conv_Cons)
qed

lemma packetize_bodies:
  assumes "packetize trains f fec = Some bodies"
  shows "block_count trains f \<le> 255"
    "set bodies = {wire_body trains f fec b i | b i. b < block_count trains f \<and> i < k_of trains f b + m_of trains f fec b}"
proof -
  show le: "block_count trains f \<le> 255"
    using assms by (auto simp: packetize_def packetize_data_bodies split: if_splits)
  have "bodies = concat (map (\<lambda>b. map (wire_body trains f fec b) [0..<k_of trains f b]) [0..<block_count trains f]) @
      concat (map (\<lambda>b. map (wire_body trains f fec b) [k_of trains f b..<k_of trains f b + m_of trains f fec b]) [0..<block_count trains f])"
    using assms le parity_bodies_eq [OF le, of 0 fec] by (simp add: packetize_def packetize_data_bodies)
  then have "set bodies = (\<Union>b \<in> {0..<block_count trains f}. wire_body trains f fec b ` ({0..<k_of trains f b} \<union> {k_of trains f b..<k_of trains f b + m_of trains f fec b}))"
    by auto
  also have "\<dots> = (\<Union>b \<in> {0..<block_count trains f}. wire_body trains f fec b ` {0..<k_of trains f b + m_of trains f fec b})"
    by (simp only: ivl_disj_un le0 le_add1)
  also have "\<dots> = {wire_body trains f fec b i | b i. b < block_count trains f \<and> i < k_of trains f b + m_of trains f fec b}"
    by fastforce
  finally show "set bodies = \<dots>" .
qed

section \<open>One buffer, the same bodies\<close>

lemma length_wire_body:
  assumes "b < block_count trains f" "i < k_of trains f b"
  shows "length (wire_body trains f fec b i) = SHARD_HEADER + shard_size trains f"
  using assms block_data_sizes [of "block_data trains f b ! i" trains f b] by (simp add: wire_body_def nth_append)

lemma shards_step_body:
  assumes "length buf = (b * 64 + i) * (SHARD_HEADER + shard_size trains f)" "i < k_of trains f b"
  shows "shards_step trains f fec (SHARD_HEADER + shard_size trains f) b i buf = buf @ wire_body trains f fec b i"
proof -
  let ?z = "SHARD_HEADER + shard_size trains f"
  have "(b * 64 + i + 1) * ?z - length buf = ?z" "length buf \<le> (b * 64 + i + 1) * ?z"
    unfolding assms(1) by (simp_all add: algebra_simps)
  then show ?thesis using assms(2)
    by (simp add: shards_step_def Let_def MAX_BLOCK_DATA_def resize_prefix wire_body_def nth_append)
      (simp add: block_data_def data_payload_def MAX_BLOCK_DATA_def)
qed

lemma fold_shards_step:
  assumes "length buf = b * 64 * (SHARD_HEADER + shard_size trains f)" "b < block_count trains f" "n \<le> k_of trains f b"
  shows "fold (shards_step trains f fec (SHARD_HEADER + shard_size trains f) b) [0..<n] buf
      = buf @ concat (map (wire_body trains f fec b) [0..<n])"
  using assms(3)
proof (induction n)
  case (Suc n)
  have "length (buf @ concat (map (wire_body trains f fec b) [0..<n])) = (b * 64 + n) * (SHARD_HEADER + shard_size trains f)"
  proof -
    have "sum_list (map (length \<circ> wire_body trains f fec b) [0..<n]) = sum_list (map (\<lambda>_. SHARD_HEADER + shard_size trains f) [0..<n])"
      by (rule arg_cong [of _ _ sum_list]) (use Suc.prems assms(2) in \<open>simp add: length_wire_body\<close>)
    then show ?thesis using assms(1) by (simp add: length_concat sum_list_triv algebra_simps)
  qed
  then show ?case using Suc shards_step_body [of _ b n] by simp
qed simp

lemma fold_shards_blocks:
  fixes fec :: rat
  assumes "n \<le> block_count trains f"
  defines "z \<equiv> SHARD_HEADER + shard_size trains f"
  defines "out \<equiv> concat (concat (map (\<lambda>b. map (wire_body trains f fec b) [0..<k_of trains f b]) [0..<n]))"
  shows "fold (\<lambda>b buf. fold (shards_step trains f fec z b) [0..<k_of trains f b] buf) [0..<n] [] = out \<and>
    (n < block_count trains f \<longrightarrow> length out = n * 64 * z)"
  using assms(1) unfolding out_def
proof (induction n)
  case (Suc n)
  let ?o = "\<lambda>n. concat (concat (map (\<lambda>b. map (wire_body trains f fec b) [0..<k_of trains f b]) [0..<n]))"
  have n: "n < block_count trains f" using Suc by simp
  then have IH: "fold (\<lambda>b buf. fold (shards_step trains f fec z b) [0..<k_of trains f b] buf) [0..<n] [] = ?o n"
    "length (?o n) = n * 64 * z" using Suc by simp_all
  have o: "?o (Suc n) = ?o n @ concat (map (wire_body trains f fec n) [0..<k_of trains f n])" by simp
  have lk: "length (concat (map (wire_body trains f fec n) [0..<k_of trains f n])) = k_of trains f n * z"
  proof -
    have "sum_list (map (length \<circ> wire_body trains f fec n) [0..<k_of trains f n]) = sum_list (map (\<lambda>_. z) [0..<k_of trains f n])"
      by (rule arg_cong [of _ _ sum_list]) (use n in \<open>simp add: length_wire_body z_def\<close>)
    then show ?thesis by (simp add: length_concat sum_list_triv)
  qed
  have "length (?o (Suc n)) = n * 64 * z + k_of trains f n * z" by (simp only: o length_append IH(2) lk)
  then have "Suc n < block_count trains f \<longrightarrow> length (?o (Suc n)) = Suc n * 64 * z"
    using k_of_bounds(3) [OF n] by (auto simp: algebra_simps)
  moreover have "fold (shards_step trains f fec z n) [0..<k_of trains f n] (?o n) = ?o (Suc n)"
    unfolding o z_def by (rule fold_shards_step) (use IH(2) n in \<open>simp_all add: z_def\<close>)
  ultimately show ?case using IH(1) by simp
qed simp

definition as_shards :: "nat \<Rightarrow> bytes list \<Rightarrow> shards" where
  "as_shards z bs = \<lparr>s_buf = concat bs, s_size = z\<rparr>"

lemma as_shards_get:
  assumes "\<forall>b \<in> set bs. length b = z" "0 < z"
  shows "shards_len (as_shards z bs) = length bs" "i < length bs \<Longrightarrow> shards_get (as_shards z bs) i = bs ! i"
proof -
  have l: "length (concat bs) = length bs * z" if "\<forall>b \<in> set bs. length b = z" for bs :: "bytes list"
    using that by (induction bs) auto
  show "shards_len (as_shards z bs) = length bs" using l [OF assms(1)] assms(2) by (simp add: as_shards_def shards_len_def)
  assume i: "i < length bs"
  have "bs = take i bs @ bs ! i # drop (Suc i) bs" using i by (rule id_take_nth_drop)
  then have "concat bs = concat (take i bs @ bs ! i # drop (Suc i) bs)" by (rule arg_cong)
  then have "concat bs = concat (take i bs) @ bs ! i @ concat (drop (Suc i) bs)" by simp
  moreover have "\<forall>b \<in> set (take i bs). length b = z" using assms(1) by (auto dest: in_set_takeD)
  then have "length (concat (take i bs)) = i * z" using l [of "take i bs"] i by simp
  moreover have "length (bs ! i) = z" using assms(1) i by simp
  ultimately show "shards_get (as_shards z bs) i = bs ! i" by (simp add: as_shards_def shards_get_def)
qed

lemma parity_shards_from_eq:
  assumes sizes: "\<forall>b \<in> set bs. length b = z" "0 < z"
    and small: "\<forall>b \<in> set bs. \<forall>h. read_header b = Some h \<longrightarrow> unat (hk h) \<le> 64"
  shows "pos \<le> length bs \<Longrightarrow>
    parity_shards_from (as_shards z bs) pos out = map_option (\<lambda>ps. out @ concat ps) (parity (drop pos bs))"
proof (induction "length bs - pos" arbitrary: pos out rule: less_induct)
  case less
  note get = as_shards_get [OF sizes]
  show ?case
  proof (cases "pos < length bs")
    case False
    then show ?thesis using less.prems by (subst parity_shards_from.simps, subst parity.simps) (simp add: get)
  next
    case True
    then have d: "drop pos bs = bs ! pos # drop (Suc pos) bs" by (simp add: Cons_nth_drop_Suc)
    show ?thesis
    proof (cases "read_header (bs ! pos)")
      case None
      then show ?thesis using True by (subst parity_shards_from.simps, subst parity.simps) (simp add: get d Let_def)
    next
      case (Some h)
      define k where "k = clamp_nat (unat (hk h)) 1 (length bs - pos)"
      have hk: "unat (hk h) \<le> 64" using small True Some by auto
      have k: "clamp_nat (unat (hk h)) 1 (min (length bs - pos) MAX_BLOCK_DATA) = k" "0 < k" "pos + k \<le> length bs"
        using hk True by (auto simp: k_def clamp_nat_def MAX_BLOCK_DATA_def)
      have refs: "map (\<lambda>j. drop SHARD_HEADER (shards_get (as_shards z bs) (pos + j))) [0..<k]
          = map (drop SHARD_HEADER) (take k (drop pos bs))"
        by (rule nth_equalityI) (use k in \<open>simp_all add: get\<close>)
      have IH: "parity_shards_from (as_shards z bs) (pos + k) out' = map_option (\<lambda>ps. out' @ concat ps) (parity (drop k (drop pos bs)))"
        for out'
        using less.hyps [of "pos + k" out'] k True by (simp add: add.commute)
      have dk: "length (drop pos bs) = length bs - pos" by simp
      have "parity (drop pos bs) = (if hm h = 0 then parity (drop k (drop pos bs))
          else case parity_bodies h k (map (drop SHARD_HEADER) (take k (drop pos bs))) of None \<Rightarrow> None
               | Some ps \<Rightarrow> map_option (\<lambda>qs. ps @ qs) (parity (drop k (drop pos bs))))"
        by (subst parity.simps, unfold dk) (simp only: d list.case Some option.case Let_def k_def [symmetric])
      moreover have "parity_shards_from (as_shards z bs) pos out = (if hm h = 0 then parity_shards_from (as_shards z bs) (pos + k) out
          else case parity_bodies h k (map (drop SHARD_HEADER) (take k (drop pos bs))) of None \<Rightarrow> None
               | Some ps \<Rightarrow> parity_shards_from (as_shards z bs) (pos + k) (out @ concat ps))"
        unfolding parity_shards_from.simps [of _ pos] Let_def get(1) get(2) [OF True] Some option.case k(1) refs
        using True by simp
      ultimately show ?thesis by (auto simp: IH option.map_comp comp_def split: option.split)
    qed
  qed
qed

text \<open>
  The buffers the host sends from hold exactly the packet bodies of the simple
  packetizer: \<open>packetize_shards\<close> is \<open>packetize_data\<close> back to back, and \<open>parity_shards\<close> of it is \<open>parity\<close>
  back to back (and each aborts exactly when the other does).
\<close>

lemma packetize_shards_same:
  "packetize_shards trains f fec =
     map_option (as_shards (SHARD_HEADER + shard_size trains f)) (packetize_data trains f fec) \<and>
   Option.bind (packetize_shards trains f fec) parity_shards =
     map_option (as_shards (SHARD_HEADER + shard_size trains f)) (Option.bind (packetize_data trains f fec) parity)"
proof -
  let ?z = "SHARD_HEADER + shard_size trains f"
  have data: "packetize_shards trains f fec = map_option (as_shards ?z) (packetize_data trains f fec)"
    using fold_shards_blocks [of "block_count trains f" trains f fec]
    by (simp add: packetize_shards_def layout_eq packetize_data_bodies as_shards_def block_count_def [symmetric]
        k_of_def [symmetric] Let_def)
  have "parity_shards (as_shards ?z bs) = map_option (as_shards ?z) (parity bs)" if bs: "packetize_data trains f fec = Some bs" for bs
  proof -
    have mem: "\<exists>n i. n < block_count trains f \<and> i < k_of trains f n \<and> b = wire_body trains f fec n i" if "b \<in> set bs" for b
      using bs that by (fastforce simp: packetize_data_bodies split: if_splits)
    have body: "length b = ?z \<and> (\<forall>h. read_header b = Some h \<longrightarrow> unat (hk h) \<le> 64)" if b: "b \<in> set bs" for b
    proof -
      obtain n i where n: "n < block_count trains f" "i < k_of trains f n" "b = wire_body trains f fec n i"
        using mem [OF b] by blast
      have "read_header b = Some (data_header trains f fec n i)" by (simp add: n(3) wire_body_def read_write_header)
      moreover have "unat (hk (data_header trains f fec n i)) \<le> 64"
        using k_of_bounds(2) [OF n(1)] by (simp add: data_header_fields unat_of_nat_lt)
      ultimately show ?thesis using length_wire_body [OF n(1,2)] n(3) by simp
    qed
    then have "\<forall>b \<in> set bs. length b = ?z" "\<forall>b \<in> set bs. \<forall>h. read_header b = Some h \<longrightarrow> unat (hk h) \<le> 64"
      by blast+
    moreover have "0 < ?z" by (simp add: SHARD_HEADER_def)
    ultimately have "parity_shards_from (as_shards ?z bs) 0 [] = map_option (\<lambda>ps. [] @ concat ps) (parity (drop 0 bs))"
      by (intro parity_shards_from_eq) auto
    then show ?thesis by (cases "parity bs") (simp_all add: parity_shards_def as_shards_def)
  qed
  with data show ?thesis by (cases "packetize_data trains f fec") auto
qed

end
