(* ===== verification/Reassemble.thy ===== *)
theory Reassemble
  imports Video
begin

text \<open>
  The receiving half of \<open>crates/rdp-hyper/src/video.rs\<close>: the \<open>Reassembler\<close> that rebuilds frames
  from shard bodies in any order, with its probe timing and counters. Buffers are reused in the
  code: \<open>FrameBuffers::take\<close> returns one with whatever contents it last had, which is the
  argument \<open>stale\<close> of \<open>push\<close>; the shard pool's buffers are cleared when taken, so \<open>pooled\<close> is the
  copy itself. An event's frame and the delay floor's \<open>i64\<close>s are as in the code.
\<close>

section \<open>Timing probe trains\<close>

record delay_floor =
  floor0 :: int
  floor1 :: int
  since_us :: u64

definition I64_MAX :: int where "I64_MAX = 2 ^ 63 - 1"
definition PROMPT_US :: int where "PROMPT_US = 2000"
definition FLOOR_PERIOD_US :: u64 where "FLOOR_PERIOD_US = 2500000"

definition sat_sub :: "u64 \<Rightarrow> u64 \<Rightarrow> u64" where
  "sat_sub a b = (if a \<ge> b then a - b else 0)"

definition prompt :: "delay_floor \<Rightarrow> int \<Rightarrow> u64 \<Rightarrow> delay_floor \<times> bool" where
  "prompt d delay now =
     (let d = (if sat_sub now (since_us d) \<ge> FLOOR_PERIOD_US
               then d\<lparr>floor0 := I64_MAX, floor1 := floor0 d, since_us := now\<rparr> else d);
          d = d\<lparr>floor0 := min (floor0 d) delay\<rparr>
      in (d, delay \<le> min (min (floor0 d) (floor1 d) + PROMPT_US) I64_MAX))"

record train =
  t_frame :: u32
  t_first_us :: u64
  t_last_us :: u64
  t_bytes :: u64
  t_packets :: u32
  t_prompt :: bool

record stats =
  st_shards :: u32
  st_recovered :: u32
  st_frames :: u32
  st_lost :: u32
  st_bytes :: u64
  st_kbps :: u32

definition BURST_MIN_US :: u64 where "BURST_MIN_US = 150"
definition TRAIN_PACKET_MIN_US :: u64 where "TRAIN_PACKET_MIN_US = 8"
definition MAX_IN_FLIGHT :: nat where "MAX_IN_FLIGHT = 32"

section \<open>State\<close>

record in_frame =
  if_id :: u32
  if_keyframe :: bool
  if_ltr :: bool
  if_recovery :: bool
  if_data :: bytes
  if_capture_us :: u64
  if_encode_us :: u32
  if_first_rx_us :: u64

datatype event = Frame in_frame | Lost u32 u32

record blk =
  b_k :: nat
  b_data :: u64
  b_staged :: "bytes option list"
  b_parity :: "bytes option list"
  b_have :: nat
  b_done :: bool

record assembly =
  a_id :: u32
  a_blocks :: "blk option list"
  a_blocks_done :: nat
  a_size :: nat
  a_len :: nat
  a_flags :: u8
  a_capture_us :: u64
  a_encode_us :: u32
  a_first_rx_us :: u64
  a_data :: bytes

definition a_span :: "assembly \<Rightarrow> nat \<Rightarrow> nat \<Rightarrow> nat \<times> nat" where
  "a_span a b i =
     (let start = min ((b * MAX_BLOCK_DATA + i) * a_size a) (a_len a)
      in (start, min (start + a_size a) (a_len a)))"

record reassembler =
  slots :: "assembly option list"
  base :: "u32 option"
  next_id :: "u32 option"
  rstats :: stats
  dfloor :: delay_floor
  rtrain :: "train option"
  stage :: bool

definition new_reassembler :: reassembler where
  "new_reassembler =
     \<lparr>slots = replicate MAX_IN_FLIGHT None, base = None, next_id = None,
      rstats = \<lparr>st_shards = 0, st_recovered = 0, st_frames = 0, st_lost = 0, st_bytes = 0, st_kbps = 0\<rparr>,
      dfloor = \<lparr>floor0 = I64_MAX, floor1 = I64_MAX, since_us = 0\<rparr>, rtrain = None, stage = False\<rparr>"

definition stage_shards :: "reassembler \<Rightarrow> bool \<Rightarrow> reassembler" where
  "stage_shards r on = r\<lparr>stage := on\<rparr>"

definition finish_train :: "reassembler \<Rightarrow> reassembler" where
  "finish_train r =
     (case rtrain r of
        None \<Rightarrow> r
      | Some t \<Rightarrow>
          let r = r\<lparr>rtrain := None\<rparr> in
          if t_packets t \<ge> of_nat BURST_MIN_SHARDS \<and> t_prompt t then
            let spread = max (max (sat_sub (t_last_us t) (t_first_us t)) BURST_MIN_US)
                             (ucast (t_packets t) * TRAIN_PACKET_MIN_US);
                kbps = ucast (min (t_bytes t * 8 * 1000 div spread) 0xFFFFFFFF)
            in r\<lparr>rstats := (rstats r)\<lparr>st_kbps := max (st_kbps (rstats r)) kbps\<rparr>\<rparr>
          else r)"

definition take_stats :: "reassembler \<Rightarrow> reassembler \<times> stats" where
  "take_stats r =
     (let r = finish_train r in
      (r\<lparr>rstats := \<lparr>st_shards = 0, st_recovered = 0, st_frames = 0, st_lost = 0, st_bytes = 0, st_kbps = 0\<rparr>\<rparr>,
       rstats r))"

definition train_open :: "reassembler \<Rightarrow> bool" where
  "train_open r \<longleftrightarrow> rtrain r \<noteq> None"

section \<open>Operations\<close>

text \<open>\<open>data[a..].copy_from_slice(xs)\<close>\<close>

definition copy_at :: "bytes \<Rightarrow> nat \<Rightarrow> bytes \<Rightarrow> bytes" where
  "copy_at data pos xs = take pos data @ xs @ drop (pos + length xs) data"

text \<open>\<open>pooled(pool, bytes, len)\<close>: a copy padded with zeros.\<close>

definition pooled :: "bytes \<Rightarrow> nat \<Rightarrow> bytes" where
  "pooled b n = resize b n"

definition count_ones :: "u64 \<Rightarrow> nat" where
  "count_ones w = length (filter (bit w) [0..<64])"

definition has_bit :: "u64 \<Rightarrow> nat \<Rightarrow> bool" where
  "has_bit w i \<longleftrightarrow> w AND push_bit i 1 \<noteq> 0"

text \<open>
  \<open>rebuild\<close>: the block's shards for \<open>reconstruct\<close>, and the rebuilt data written into the
  frame. When that fails the shards are put back where they were.
\<close>

definition rebuild_scratch :: "assembly \<Rightarrow> nat \<Rightarrow> blk \<Rightarrow> bool \<Rightarrow> bytes option list" where
  "rebuild_scratch a b bl stg =
     map (\<lambda>i. if stg then b_staged bl ! i
              else if has_bit (b_data bl) i then
                let (s, e) = a_span a b i in Some (pooled (take (e - s) (drop s (a_data a))) (a_size a))
              else None) [0..<b_k bl] @ b_parity bl"

definition rebuild_store :: "assembly \<Rightarrow> nat \<Rightarrow> blk \<Rightarrow> bool \<Rightarrow> nat \<times> bytes option \<Rightarrow> bytes \<Rightarrow> bytes" where
  "rebuild_store a b bl stg ishard data =
     (case snd ishard of
        None \<Rightarrow> data
      | Some s \<Rightarrow>
          let i = fst ishard in
          if i < b_k bl \<and> (stg \<or> \<not> has_bit (b_data bl) i) then
            let (st, e) = a_span a b i in copy_at data st (take (e - st) s)
          else data)"

definition rebuild :: "assembly \<Rightarrow> nat \<Rightarrow> bool \<Rightarrow> bool \<times> assembly" where
  "rebuild a b stg =
     (case a_blocks a ! b of
        None \<Rightarrow> (False, a)
      | Some bl \<Rightarrow>
          (case reconstruct (rebuild_scratch a b bl stg) (b_k bl) of
             None \<Rightarrow> (False, a)
           | Some (False, _) \<Rightarrow> (False, a)
           | Some (True, out) \<Rightarrow>
               let bl' = bl\<lparr>b_parity := map (\<lambda>_. None) (b_parity bl), b_staged := map (\<lambda>_. None) (b_staged bl)\<rparr>
               in (True, a\<lparr>a_data := fold (rebuild_store a b bl stg) (enumerate 0 out) (a_data a),
                           a_blocks := (a_blocks a)[b := Some bl']\<rparr>)))"

definition scrap :: "assembly \<Rightarrow> bytes" where
  "scrap a = a_data a"

text \<open>\<open>complete\<close>: deliver the frame, drop the older ones in the window below it.\<close>

definition complete :: "reassembler \<Rightarrow> u32 \<Rightarrow> reassembler \<times> event list" where
  "complete r fid =
     (let nx = (case next_id r of None \<Rightarrow> fid | Some n \<Rightarrow> n);
          evs = (if fid \<noteq> nx then [Lost nx (fid - 1)] else []);
          r = (if fid \<noteq> nx then r\<lparr>rstats := (rstats r)\<lparr>st_lost := st_lost (rstats r) + (fid - nx)\<rparr>\<rparr> else r);
          slot = unat fid mod MAX_IN_FLIGHT
      in case slots r ! slot of
           None \<Rightarrow> (r, evs)
         | Some a \<Rightarrow>
             let b = (case base r of None \<Rightarrow> fid | Some b \<Rightarrow> b);
                 drop_old = (\<lambda>i ss. let id = b + of_nat i; s = unat id mod MAX_IN_FLIGHT in
                   (case ss ! s of Some z \<Rightarrow> if a_id z = id then ss[s := None] else ss | None \<Rightarrow> ss));
                 r = r\<lparr>slots := fold drop_old [0..<min (unat (fid - b)) MAX_IN_FLIGHT] ((slots r)[slot := None]),
                       next_id := Some (fid + 1), base := Some (fid + 1)\<rparr>;
                 delay = sint (a_first_rx_us a - (a_capture_us a + ucast (a_encode_us a)));
                 r = r\<lparr>dfloor := fst (prompt (dfloor r) delay (a_first_rx_us a)),
                       rstats := (rstats r)\<lparr>st_frames := st_frames (rstats r) + 1\<rparr>\<rparr>
             in (r, evs @ [Frame \<lparr>if_id = fid, if_keyframe = (a_flags a AND FLAG_KEYFRAME \<noteq> 0),
                   if_ltr = (a_flags a AND FLAG_LTR \<noteq> 0), if_recovery = (a_flags a AND FLAG_RECOVERY \<noteq> 0),
                   if_data = scrap a, if_capture_us = a_capture_us a, if_encode_us = a_encode_us a,
                   if_first_rx_us = a_first_rx_us a\<rparr>]))"

text \<open>A shard's part in a probe train.\<close>

definition note_train :: "reassembler \<Rightarrow> shard_header \<Rightarrow> nat \<Rightarrow> u64 \<Rightarrow> reassembler" where
  "note_train r h len now =
     (if flags h AND FLAG_PROBE \<noteq> 0 then
        (case rtrain r of
           Some t \<Rightarrow>
             if t_frame t = frame_id h then
               r\<lparr>rtrain := Some (t\<lparr>t_last_us := now, t_bytes := t_bytes t + of_nat len, t_packets := t_packets t + 1\<rparr>)\<rparr>
             else
               let r = finish_train r;
                   (d, p) = prompt (dfloor r) (sint (now - (capture_us h + ucast (encode_us h)))) now
               in r\<lparr>dfloor := d, rtrain := Some \<lparr>t_frame = frame_id h, t_first_us = now, t_last_us = now, t_bytes = 0,
                     t_packets = 1, t_prompt = p\<rparr>\<rparr>
         | None \<Rightarrow>
             let (d, p) = prompt (dfloor r) (sint (now - (capture_us h + ucast (encode_us h)))) now
             in r\<lparr>dfloor := d, rtrain := Some \<lparr>t_frame = frame_id h, t_first_us = now, t_last_us = now, t_bytes = 0,
                   t_packets = 1, t_prompt = p\<rparr>\<rparr>)
      else case rtrain r of
        Some t \<Rightarrow> if t_frame t \<noteq> frame_id h then finish_train r else r
      | None \<Rightarrow> r)"

text \<open>The first shard of a frame: make room in the window, then a new assembly in its slot.\<close>

definition make_room :: "reassembler \<Rightarrow> u32 \<Rightarrow> reassembler \<times> event list" where
  "make_room r fid =
     (let b = (case base r of None \<Rightarrow> fid | Some b \<Rightarrow> b);
          r = r\<lparr>base := Some b\<rparr>
      in if fid - b \<ge> of_nat MAX_IN_FLIGHT then
           let nb = fid - (of_nat MAX_IN_FLIGHT - 1);
               nx = (case next_id r of None \<Rightarrow> b | Some n \<Rightarrow> n)
           in (r\<lparr>slots := map (\<lambda>s. case s of Some a \<Rightarrow> if a_id a - nb > 0x7FFFFFFF then None else s | None \<Rightarrow> None) (slots r),
                 rstats := (rstats r)\<lparr>st_lost := st_lost (rstats r) + (nb - nx)\<rparr>,
                 next_id := Some nb, base := Some nb\<rparr>, [Lost nx (nb - 1)])
         else (r, []))"

definition new_assembly :: "shard_header \<Rightarrow> nat \<Rightarrow> u64 \<Rightarrow> bytes \<Rightarrow> assembly" where
  "new_assembly h sz now stale =
     \<lparr>a_id = frame_id h, a_blocks = replicate (unat (blocks h)) None, a_blocks_done = 0, a_size = sz,
      a_len = unat (frame_len h), a_flags = flags h, a_capture_us = capture_us h, a_encode_us = encode_us h,
      a_first_rx_us = now, a_data = resize stale (unat (frame_len h))\<rparr>"

text \<open>What storing one shard leads to: nothing more, or a block to finish.\<close>

definition new_blk :: "nat \<Rightarrow> nat \<Rightarrow> bool \<Rightarrow> blk" where
  "new_blk k m stg =
     \<lparr>b_k = k, b_data = 0, b_staged = (if stg then replicate k None else []), b_parity = replicate m None,
      b_have = 0, b_done = False\<rparr>"

definition store_shard :: "assembly \<Rightarrow> shard_header \<Rightarrow> bytes \<Rightarrow> bool \<Rightarrow> assembly \<times> bool" where
  "store_shard a h payload stg =
     (let k = unat (hk h); m = unat (hm h); bi = unat (block h); i = unat (shard h);
          bl = (case a_blocks a ! bi of Some bl \<Rightarrow> bl | None \<Rightarrow> new_blk k m stg);
          put = (\<lambda>bl. a\<lparr>a_blocks := (a_blocks a)[bi := Some bl]\<rparr>);
          (s, e) = a_span a bi i
      in if b_done bl \<or> b_k bl \<noteq> k \<or> length (b_parity bl) \<noteq> m then (put bl, False)
         else if i < k then
           if has_bit (b_data bl) i then (put bl, False)
           else
             let bl = bl\<lparr>b_data := b_data bl OR push_bit i 1, b_have := b_have bl + 1\<rparr> in
             if stg then
               (put (bl\<lparr>b_staged := (b_staged bl)[i := Some (pooled payload (length payload))]\<rparr>), b_have bl \<ge> b_k bl)
             else ((put bl)\<lparr>a_data := copy_at (a_data a) s (take (e - s) payload)\<rparr>, b_have bl \<ge> b_k bl)
         else if b_parity bl ! (i - k) \<noteq> None then (put bl, False)
         else
           let bl = bl\<lparr>b_parity := (b_parity bl)[i - k := Some (pooled payload (length payload))], b_have := b_have bl + 1\<rparr>
           in (put bl, b_have bl \<ge> b_k bl))"

definition finish_block :: "assembly \<Rightarrow> nat \<Rightarrow> bool \<Rightarrow> (assembly \<times> nat) option" where
  "finish_block a bi stg =
     (case a_blocks a ! bi of
        None \<Rightarrow> None
      | Some bl \<Rightarrow>
          let missing = b_k bl - count_ones (b_data bl);
              (ok, a) = (if missing > 0 \<or> stg then rebuild a bi stg else (True, a))
          in if \<not> ok then None
             else case a_blocks a ! bi of
               None \<Rightarrow> None
             | Some bl \<Rightarrow>
                 Some (a\<lparr>a_blocks := (a_blocks a)[bi := Some (bl\<lparr>b_done := True, b_parity := []\<rparr>)],
                         a_blocks_done := a_blocks_done a + 1\<rparr>, missing))"

definition take_shard :: "reassembler \<Rightarrow> shard_header \<Rightarrow> bytes \<Rightarrow> reassembler \<times> event list" where
  "take_shard r h payload =
     (let slot = unat (frame_id h) mod MAX_IN_FLIGHT in
      case slots r ! slot of
        None \<Rightarrow> (r, [])
      | Some a \<Rightarrow>
          if length payload \<noteq> a_size a \<or> length (a_blocks a) \<noteq> unat (blocks h) then (r, [])
          else
            let (a, full) = store_shard a h payload (stage r);
                put = (\<lambda>a. r\<lparr>slots := (slots r)[slot := Some a]\<rparr>)
            in if \<not> full then (put a, [])
               else case finish_block a (unat (block h)) (stage r) of
                 None \<Rightarrow> (put a, [])
               | Some (a, missing) \<Rightarrow>
                   let r = put a;
                       r = r\<lparr>rstats := (rstats r)\<lparr>st_recovered := st_recovered (rstats r) + of_nat missing\<rparr>\<rparr>
                   in if a_blocks_done a < length (a_blocks a) then (r, []) else complete r (frame_id h))"

text \<open>\<open>push\<close>: one video packet body.\<close>

definition shard_refused :: "shard_header \<Rightarrow> bytes \<Rightarrow> bool" where
  "shard_refused h payload \<longleftrightarrow>
     unat (hk h) = 0 \<or> unat (hk h) > MAX_BLOCK_DATA \<or> unat (hm h) > MAX_BLOCK_PARITY \<or>
     unat (shard h) \<ge> unat (hk h) + unat (hm h) \<or> block h \<ge> blocks h \<or> payload = []"

definition push :: "reassembler \<Rightarrow> bytes \<Rightarrow> bytes \<Rightarrow> u64 \<Rightarrow> reassembler \<times> event list" where
  "push r stale body now =
     (case read_header body of
        None \<Rightarrow> (r, [])
      | Some h \<Rightarrow>
          let payload = drop SHARD_HEADER body in
          if shard_refused h payload then (r, [])
          else
            let r = r\<lparr>rstats := (rstats r)\<lparr>st_bytes := st_bytes (rstats r) + of_nat (length body)\<rparr>\<rparr>;
                r = note_train r h (length body) now
            in if (case base r of None \<Rightarrow> False | Some b \<Rightarrow> frame_id h - b > 0x7FFFFFFF) then (r, [])
               else
                 let r = r\<lparr>rstats := (rstats r)\<lparr>st_shards := st_shards (rstats r) + 1\<rparr>\<rparr>;
                     slot = unat (frame_id h) mod MAX_IN_FLIGHT
                 in if (case slots r ! slot of None \<Rightarrow> True | Some a \<Rightarrow> a_id a \<noteq> frame_id h) then
                      let (r, evs) = make_room r (frame_id h) in
                      if unat (frame_len h) > unat (blocks h) * MAX_BLOCK_DATA * length payload then (r, evs)
                      else
                        let r = r\<lparr>slots := (slots r)[slot := Some (new_assembly h (length payload) now stale)]\<rparr>;
                            (r, evs') = take_shard r h payload
                        in (r, evs @ evs')
                    else take_shard r h payload)"

section \<open>Bytes in their place\<close>

text \<open>Data shard \<open>i\<close> of block \<open>b\<close> is in the buffer, as far as the frame reaches.\<close>

definition right_at :: "bool \<Rightarrow> out_frame \<Rightarrow> nat \<Rightarrow> nat \<Rightarrow> bytes \<Rightarrow> bool" where
  "right_at trains f b i data \<longleftrightarrow>
     (\<forall>p < length (of_data f). (b * 64 + i) * shard_size trains f \<le> p \<and> p < (b * 64 + i) * shard_size trains f + shard_size trains f
        \<longrightarrow> data ! p = of_data f ! p)"

lemma data_payload_nth:
  assumes "q < shard_size trains f"
  shows "data_payload trains f b i ! q =
    (if (b * 64 + i) * shard_size trains f + q < length (of_data f) then of_data f ! ((b * 64 + i) * shard_size trains f + q) else 0)"
  using assms by (auto simp: data_payload_def data_piece_def resize_def Let_def MAX_BLOCK_DATA_def nth_append min_def)

lemma length_data_payload [simp]: "length (data_payload trains f b i) = shard_size trains f"
  by (simp add: data_payload_def)

definition fits :: "bool \<Rightarrow> out_frame \<Rightarrow> assembly \<Rightarrow> bool" where
  "fits trains f a \<longleftrightarrow> a_size a = shard_size trains f \<and> a_len a = length (of_data f)"

lemma a_span_eq:
  assumes "fits trains f a"
  shows "a_span a b i = (min ((b * 64 + i) * shard_size trains f) (length (of_data f)),
    min ((b * 64 + i) * shard_size trains f + shard_size trains f) (length (of_data f)))"
  using assms by (auto simp: a_span_def fits_def Let_def MAX_BLOCK_DATA_def min_def)

lemma copy_payload:
  assumes "fits trains f a" "length data = length (of_data f)" "a_span a b i = (s, e)"
  shows "length (copy_at data s (take (e - s) (data_payload trains f b i))) = length (of_data f)"
    "p < length (of_data f) \<Longrightarrow> copy_at data s (take (e - s) (data_payload trains f b i)) ! p =
      (if (b * 64 + i) * shard_size trains f \<le> p \<and> p < (b * 64 + i) * shard_size trains f + shard_size trains f
       then of_data f ! p else data ! p)"
proof -
  let ?n = "(b * 64 + i) * shard_size trains f" and ?z = "shard_size trains f" and ?L = "length (of_data f)"
  have se: "s = min ?n ?L" "e = min (?n + ?z) ?L" using a_span_eq [OF assms(1), of b i] assms(3) by auto
  have "e - s \<le> ?z" using se by auto
  then have l: "length (take (e - s) (data_payload trains f b i)) = e - s" by simp
  have "s + (e - s) \<le> ?L" "s \<le> ?L" using se by auto
  then show "length (copy_at data s (take (e - s) (data_payload trains f b i))) = ?L"
    unfolding copy_at_def using assms(2) l by simp
  assume p: "p < ?L"
  show "copy_at data s (take (e - s) (data_payload trains f b i)) ! p = (if ?n \<le> p \<and> p < ?n + ?z then of_data f ! p else data ! p)"
  proof (cases "?n \<le> p \<and> p < ?n + ?z")
    case True
    then have "s = ?n" "p - ?n < e - s" "p - ?n < ?z" using p se by auto
    then show ?thesis using True p assms(2) data_payload_nth [of "p - ?n" trains f b i]
      by (simp add: copy_at_def nth_append l)
  next
    case False
    have "p < s \<or> s + (e - s) \<le> p" using False p se by auto
    then show ?thesis
    proof
      assume "p < s"
      then show ?thesis using False p assms(2) se by (simp add: copy_at_def nth_append)
    next
      assume q: "s + (e - s) \<le> p"
      then have "\<not> p < s" "\<not> p - s < e - s" by auto
      moreover have "min (length data) s = s" using se assms(2) by simp
      moreover have "min (shard_size trains f) (e - s) = e - s" using \<open>e - s \<le> ?z\<close> by simp
      ultimately have "copy_at data s (take (e - s) (data_payload trains f b i)) ! p = drop (s + (e - s)) data ! (p - s - (e - s))"
        by (simp add: copy_at_def nth_append l)
      also have "\<dots> = data ! p" using q p assms(2) by simp
      finally show ?thesis unfolding if_not_P [OF False] .
    qed
  qed
qed

lemma resize_nth: "q < n \<Longrightarrow> resize w n ! q = (if q < length w then w ! q else 0)"
  by (auto simp: resize_def nth_append)

lemma right_at_copy:
  assumes "fits trains f a" "length data = length (of_data f)" "a_span a b i = (s, e)"
  shows "right_at trains f b i (copy_at data s (take (e - s) (data_payload trains f b i)))"
    "right_at trains f b' i' data \<Longrightarrow> right_at trains f b' i' (copy_at data s (take (e - s) (data_payload trains f b i)))"
  using copy_payload(2) [OF assms] by (auto simp: right_at_def)

lemma pooled_right:
  assumes "fits trains f a" "length (a_data a) = length (of_data f)" "a_span a b i = (s, e)" "right_at trains f b i (a_data a)"
  shows "pooled (take (e - s) (drop s (a_data a))) (a_size a) = data_payload trains f b i"
proof (rule nth_equalityI)
  let ?n = "(b * 64 + i) * shard_size trains f" and ?z = "shard_size trains f" and ?L = "length (of_data f)"
  have se: "s = min ?n ?L" "e = min (?n + ?z) ?L" using a_span_eq [OF assms(1), of b i] assms(3) by auto
  have z: "a_size a = ?z" using assms(1) by (simp add: fits_def)
  then show "length (pooled (take (e - s) (drop s (a_data a))) (a_size a)) = length (data_payload trains f b i)"
    by (simp add: pooled_def)
  fix q assume "q < length (pooled (take (e - s) (drop s (a_data a))) (a_size a))"
  then have q: "q < ?z" by (simp add: pooled_def z)
  show "pooled (take (e - s) (drop s (a_data a))) (a_size a) ! q = data_payload trains f b i ! q"
  proof (cases "?n + q < ?L")
    case True
    then have "s = ?n" "q < e - s" using q se by auto
    moreover have "a_data a ! (?n + q) = of_data f ! (?n + q)" using assms(4) True q by (simp add: right_at_def)
    moreover have "q < ?L - ?n" using True by simp
    ultimately show ?thesis using True q assms(2) data_payload_nth [OF q, of b i]
      by (simp add: pooled_def resize_def z nth_append)
  next
    case False
    then have "min (length (a_data a) - s) (e - s) \<le> q" using q se assms(2) by auto
    then have "\<not> q < length (take (e - s) (drop s (a_data a)))" by (auto simp: min_def split: if_splits)
    then show ?thesis using False q data_payload_nth [OF q, of b i]
      unfolding pooled_def z resize_nth [OF q] if_not_P [OF \<open>\<not> q < length _\<close>] by simp
  qed
qed

section \<open>One block\<close>

lemma has_bit_iff: "has_bit w i \<longleftrightarrow> bit w i"
  by (simp only: has_bit_def push_bit_of_1 and_exp_eq_0_iff_not_bit not_not)

lemma count_ones_card:
  assumes "\<And>i. bit w i \<longleftrightarrow> i \<in> X \<and> i < k" "k \<le> 64"
  shows "count_ones w = card (X \<inter> {..<k})"
proof -
  have "count_ones w = card (set (filter (bit w) [0..<64]))"
    unfolding count_ones_def by (rule distinct_card [symmetric]) simp
  also have "set (filter (bit w) [0..<64]) = {i. i < 64 \<and> bit w i}" by auto
  also have "\<dots> = X \<inter> {..<k}" unfolding assms(1) using assms(2) by auto
  finally show ?thesis .
qed

text \<open>
  \<open>blk_ok \<dots> arr data bl\<close>: the shards \<open>arr\<close> of block \<open>b\<close> have arrived. Until the block is done
  its bitmap and parity slots say exactly which, and each is held with its bytes; once it is
  done, \<open>k\<close> of them arrived and all the data is in place.
\<close>

definition blk_open :: "bool \<Rightarrow> out_frame \<Rightarrow> rat \<Rightarrow> bool \<Rightarrow> nat \<Rightarrow> nat set \<Rightarrow> bytes \<Rightarrow> blk \<Rightarrow> bool" where
  "blk_open trains f fec stg b arr data bl \<longleftrightarrow>
     \<not> b_done bl \<and> b_k bl = k_of trains f b \<and> length (b_parity bl) = m_of trains f fec b \<and>
     arr \<subseteq> {..<k_of trains f b + m_of trains f fec b} \<and> b_have bl = card arr \<and>
     (\<forall>i. bit (b_data bl) i \<longleftrightarrow> i \<in> arr \<and> i < k_of trains f b) \<and>
     (\<forall>j < m_of trains f fec b. b_parity bl ! j = (if k_of trains f b + j \<in> arr then Some (block_parity trains f fec b ! j) else None)) \<and>
     (if stg then length (b_staged bl) = k_of trains f b \<and>
        (\<forall>i < k_of trains f b. b_staged bl ! i = (if i \<in> arr then Some (data_payload trains f b i) else None))
      else \<forall>i \<in> arr. i < k_of trains f b \<longrightarrow> right_at trains f b i data)"

definition blk_closed :: "bool \<Rightarrow> out_frame \<Rightarrow> nat \<Rightarrow> nat set \<Rightarrow> bytes \<Rightarrow> blk \<Rightarrow> bool" where
  "blk_closed trains f b arr data bl \<longleftrightarrow>
     b_done bl \<and> b_k bl = k_of trains f b \<and> k_of trains f b \<le> card arr \<and> finite arr \<and>
     (\<forall>i < k_of trains f b. right_at trains f b i data)"

lemma blk_open_new:
  "blk_open trains f fec stg b {} data (new_blk (k_of trains f b) (m_of trains f fec b) stg)"
  by (simp add: blk_open_def new_blk_def)

lemma blk_data_mono:
  assumes "\<And>b i. right_at trains f b i data \<Longrightarrow> right_at trains f b i data'"
  shows "blk_open trains f fec stg b arr data bl \<Longrightarrow> blk_open trains f fec stg b arr data' bl"
    "blk_closed trains f b arr data bl \<Longrightarrow> blk_closed trains f b arr data' bl"
  using assms by (auto simp: blk_open_def blk_closed_def)

section \<open>One frame\<close>

definition done_slot :: "blk option \<Rightarrow> bool" where
  "done_slot x = (case x of None \<Rightarrow> False | Some bl \<Rightarrow> b_done bl)"

definition block_inv :: "bool \<Rightarrow> out_frame \<Rightarrow> rat \<Rightarrow> bool \<Rightarrow> nat \<Rightarrow> nat set \<Rightarrow> bytes \<Rightarrow> bool \<Rightarrow> blk option \<Rightarrow> bool" where
  "block_inv trains f fec stg b arr data full x \<longleftrightarrow>
     (case x of
        None \<Rightarrow> arr = {} \<and> \<not> full
      | Some bl \<Rightarrow>
          if full then blk_open trains f fec stg b arr data bl \<and> card arr = k_of trains f b
          else blk_open trains f fec stg b arr data bl \<and> card arr < k_of trains f b \<or> blk_closed trains f b arr data bl)"

definition asm_meta :: "bool \<Rightarrow> out_frame \<Rightarrow> assembly \<Rightarrow> bool" where
  "asm_meta trains f a \<longleftrightarrow>
     fits trains f a \<and> a_id a = of_id f \<and> a_flags a = frame_flags f \<and> a_capture_us a = of_capture_us f \<and>
     a_encode_us a = of_encode_us f \<and> length (a_data a) = length (of_data f) \<and>
     block_count trains f \<le> 255 \<and> length (a_blocks a) = block_count trains f"

text \<open>
  \<open>asm_ok \<dots> arr ex a\<close>: the assembly of frame \<open>f\<close>, of whose blocks \<open>b\<close> the shards \<open>arr b\<close> arrived;
  the block \<open>ex\<close>, if any, has just become full.
\<close>

definition asm_ok :: "bool \<Rightarrow> out_frame \<Rightarrow> rat \<Rightarrow> bool \<Rightarrow> (nat \<Rightarrow> nat set) \<Rightarrow> nat option \<Rightarrow> assembly \<Rightarrow> bool" where
  "asm_ok trains f fec stg arr ex a \<longleftrightarrow>
     asm_meta trains f a \<and>
     (\<forall>b < block_count trains f. block_inv trains f fec stg b (arr b) (a_data a) (ex = Some b) (a_blocks a ! b)) \<and>
     a_blocks_done a = length (filter done_slot (a_blocks a))"

lemma asm_okI:
  "asm_meta trains f a \<Longrightarrow>
   \<forall>b < block_count trains f. block_inv trains f fec stg b (arr b) (a_data a) (ex = Some b) (a_blocks a ! b) \<Longrightarrow>
   a_blocks_done a = length (filter done_slot (a_blocks a)) \<Longrightarrow> asm_ok trains f fec stg arr ex a"
  by (simp add: asm_ok_def)

lemma filter_done_update:
  assumes "b < length xs"
  shows "length (filter done_slot (xs[b := x])) + (if done_slot (xs ! b) then 1 else 0)
    = length (filter done_slot xs) + (if done_slot x then 1 else 0)"
proof -
  obtain ps y qs where xs: "xs = ps @ y # qs" "length ps = b" using id_take_nth_drop [OF assms] assms by (metis length_take min.absorb4)
  then have "xs[b := x] = ps @ x # qs" "xs ! b = y" by (simp_all add: list_update_append nth_append)
  then show ?thesis by (simp add: xs(1))
qed

lemma block_inv_mono:
  assumes "\<And>b i. right_at trains f b i data \<Longrightarrow> right_at trains f b i data'" "block_inv trains f fec stg b arr data full x"
  shows "block_inv trains f fec stg b arr data' full x"
  using assms(2) blk_data_mono [OF assms(1)] unfolding block_inv_def by (simp split: option.splits if_splits) blast+

text \<open>Changing one block, and the data without spoiling what is in place.\<close>

lemma asm_ok_update:
  assumes "asm_ok trains f fec stg arr ex a" "b < block_count trains f" "ex = None \<or> ex = Some b"
    and "\<And>b i. right_at trains f b i (a_data a) \<Longrightarrow> right_at trains f b i data'" "length data' = length (of_data f)"
    and "block_inv trains f fec stg b new data' (ex' = Some b) (Some bl)" "ex' = None \<or> ex' = Some b"
    and "n + (if done_slot (a_blocks a ! b) then 1 else 0) = a_blocks_done a + (if b_done bl then 1 else 0)"
  shows "asm_ok trains f fec stg (arr(b := new)) ex' (a\<lparr>a_blocks := (a_blocks a)[b := Some bl], a_data := data', a_blocks_done := n\<rparr>)"
proof -
  have a: "length (a_blocks a) = block_count trains f" "a_blocks_done a = length (filter done_slot (a_blocks a))"
    using assms(1) by (simp_all add: asm_ok_def asm_meta_def)
  have "block_inv trains f fec stg c (arr c) data' (ex' = Some c) (a_blocks a ! c)" if "c < block_count trains f" "c \<noteq> b" for c
  proof -
    have "block_inv trains f fec stg c (arr c) (a_data a) (ex' = Some c) (a_blocks a ! c)"
    proof -
      have "(ex = Some c) = (ex' = Some c)" using assms(3,7) that(2) by auto
      moreover have "block_inv trains f fec stg c (arr c) (a_data a) (ex = Some c) (a_blocks a ! c)"
        using assms(1) that(1) unfolding asm_ok_def by blast
      ultimately show ?thesis by (simp only:)
    qed
    with assms(4) show ?thesis by (rule block_inv_mono)
  qed
  moreover have "n = length (filter done_slot ((a_blocks a)[b := Some bl]))"
    using filter_done_update [of b "a_blocks a" "Some bl"] assms(2,8) a by (simp add: done_slot_def)
  moreover have "block_inv trains f fec stg b new data' (ex' = Some b) ((a_blocks a)[b := Some bl] ! b)"
    using assms(2,6) a(1) by simp
  ultimately have "\<forall>c < block_count trains f. block_inv trains f fec stg c ((arr(b := new)) c) data' (ex' = Some c) ((a_blocks a)[b := Some bl] ! c)"
    "n = length (filter done_slot ((a_blocks a)[b := Some bl]))" by (auto simp: nth_list_update)
  moreover have "asm_meta trains f (a\<lparr>a_blocks := (a_blocks a)[b := Some bl], a_data := data', a_blocks_done := n\<rparr>)"
    using assms(1,5) by (simp add: asm_ok_def asm_meta_def fits_def)
  moreover have "a_data (a\<lparr>a_blocks := (a_blocks a)[b := Some bl], a_data := data', a_blocks_done := n\<rparr>) = data'"
    "a_blocks (a\<lparr>a_blocks := (a_blocks a)[b := Some bl], a_data := data', a_blocks_done := n\<rparr>) = (a_blocks a)[b := Some bl]"
    "a_blocks_done (a\<lparr>a_blocks := (a_blocks a)[b := Some bl], a_data := data', a_blocks_done := n\<rparr>) = n" by simp_all
  ultimately show ?thesis unfolding asm_ok_def by (simp only: simp_thms)
qed

lemma header_fields:
  assumes "block_count trains f \<le> 255" "b < block_count trains f" "i < k_of trains f b + m_of trains f fec b"
  shows "unat (hk (data_header trains f fec b i)) = k_of trains f b" "unat (hm (data_header trains f fec b i)) = m_of trains f fec b"
    "unat (block (data_header trains f fec b i)) = b" "unat (shard (data_header trains f fec b i)) = i"
    "unat (blocks (data_header trains f fec b i)) = block_count trains f"
    "frame_id (data_header trains f fec b i) = of_id f"
  using assms k_of_bounds(2) [OF assms(2)] m_of_le [of trains f fec b]
  by (simp_all add: data_header_fields unat_of_nat_lt)

lemma card_insert_new: "finite A \<Longrightarrow> i \<notin> A \<Longrightarrow> card (insert i A) = card A + 1"
  by simp

lemma store_shard_ok:
  assumes a: "asm_ok trains f fec stg arr None a" and b: "b < block_count trains f"
    and i: "i < k_of trains f b + m_of trains f fec b"
    and st: "store_shard a (data_header trains f fec b i) ((block_data trains f b @ block_parity trains f fec b) ! i) stg = (a', full)"
  shows "asm_ok trains f fec stg (arr(b := insert i (arr b))) (if full then Some b else None) a'"
proof -
  let ?k = "k_of trains f b" and ?m = "m_of trains f fec b"
  let ?p = "(block_data trains f b @ block_parity trains f fec b) ! i"
  have B: "block_count trains f \<le> 255" using a by (simp add: asm_ok_def asm_meta_def)
  note hf = header_fields [OF B b i]
  have bi: "block_inv trains f fec stg b (arr b) (a_data a) False (a_blocks a ! b)"
    using a b by (simp add: asm_ok_def)
  have fit: "fits trains f a" "length (a_data a) = length (of_data f)" using a by (simp_all add: asm_ok_def asm_meta_def)
  define bl where "bl = (case a_blocks a ! b of Some bl \<Rightarrow> bl | None \<Rightarrow> new_blk ?k ?m stg)"
  have cases: "blk_open trains f fec stg b (arr b) (a_data a) bl \<and> card (arr b) < ?k \<or> blk_closed trains f b (arr b) (a_data a) bl"
    using bi blk_open_new k_of_bounds(1) [OF b] by (auto simp: block_inv_def bl_def split: option.splits)
  have dn: "done_slot (a_blocks a ! b) = b_done bl"
    by (auto simp: done_slot_def bl_def new_blk_def split: option.split)
  obtain s e where se: "a_span a b i = (s, e)" by fastforce
  have pl: "?p = (if i < ?k then data_payload trains f b i else block_parity trains f fec b ! (i - ?k))"
    by (simp add: nth_append) (simp add: block_data_def)
  have pooled: "pooled ?p (length ?p) = ?p" by (simp add: pooled_def resize_def)
  have S: "store_shard a (data_header trains f fec b i) ?p stg =
      (if b_done bl \<or> b_k bl \<noteq> ?k \<or> length (b_parity bl) \<noteq> ?m then (a\<lparr>a_blocks := (a_blocks a)[b := Some bl]\<rparr>, False)
       else if i < ?k then
         if has_bit (b_data bl) i then (a\<lparr>a_blocks := (a_blocks a)[b := Some bl]\<rparr>, False)
         else if stg then
           (a\<lparr>a_blocks := (a_blocks a)[b := Some (bl\<lparr>b_data := b_data bl OR push_bit i 1, b_have := b_have bl + 1,
              b_staged := (b_staged bl)[i := Some (pooled ?p (length ?p))]\<rparr>)]\<rparr>, b_have bl + 1 \<ge> b_k bl)
         else (a\<lparr>a_blocks := (a_blocks a)[b := Some (bl\<lparr>b_data := b_data bl OR push_bit i 1, b_have := b_have bl + 1\<rparr>)],
              a_data := copy_at (a_data a) s (take (e - s) ?p)\<rparr>, b_have bl + 1 \<ge> b_k bl)
       else if b_parity bl ! (i - ?k) \<noteq> None then (a\<lparr>a_blocks := (a_blocks a)[b := Some bl]\<rparr>, False)
       else (a\<lparr>a_blocks := (a_blocks a)[b := Some (bl\<lparr>b_parity := (b_parity bl)[i - ?k := Some (pooled ?p (length ?p))],
              b_have := b_have bl + 1\<rparr>)]\<rparr>, b_have bl + 1 \<ge> b_k bl))"
    unfolding store_shard_def Let_def hf bl_def [symmetric] se prod.case by (simp del: push_bit_of_1)
  have keep: "asm_ok trains f fec stg (arr(b := arr b)) None (a\<lparr>a_blocks := (a_blocks a)[b := Some bl]\<rparr>)"
    if "blk_open trains f fec stg b (arr b) (a_data a) bl \<and> card (arr b) < ?k"
  proof -
    have "asm_ok trains f fec stg (arr(b := arr b)) None
        (a\<lparr>a_blocks := (a_blocks a)[b := Some bl], a_data := a_data a, a_blocks_done := a_blocks_done a\<rparr>)"
      by (rule asm_ok_update [OF a b]) (use that fit dn in \<open>auto simp: block_inv_def\<close>)
    then show ?thesis by simp
  qed
  from cases show ?thesis
  proof (elim disjE conjE)
    assume cl: "blk_closed trains f b (arr b) (a_data a) bl"
    then have "a' = a\<lparr>a_blocks := (a_blocks a)[b := Some bl]\<rparr>" "\<not> full"
      using st by (simp_all add: store_shard_def hf bl_def [symmetric] se blk_closed_def Let_def)
    moreover have "blk_closed trains f b (insert i (arr b)) (a_data a) bl"
      using cl card_insert_le [of "arr b" i] by (auto simp: blk_closed_def)
    then have "asm_ok trains f fec stg (arr(b := insert i (arr b))) None
        (a\<lparr>a_blocks := (a_blocks a)[b := Some bl], a_data := a_data a, a_blocks_done := a_blocks_done a\<rparr>)"
      by (intro asm_ok_update [OF a b]) (use fit dn in \<open>auto simp: block_inv_def\<close>)
    ultimately show ?thesis by simp
  next
    assume op: "blk_open trains f fec stg b (arr b) (a_data a) bl" and lt: "card (arr b) < ?k"
    have o: "\<not> b_done bl" "b_k bl = ?k" "length (b_parity bl) = ?m" "b_have bl = card (arr b)" "finite (arr b)"
      "\<And>i. bit (b_data bl) i \<longleftrightarrow> i \<in> arr b \<and> i < ?k"
      "\<And>j. j < ?m \<Longrightarrow> b_parity bl ! j = (if ?k + j \<in> arr b then Some (block_parity trains f fec b ! j) else None)"
      using op by (auto simp: blk_open_def intro: finite_subset)
    show ?thesis
    proof (cases "i \<in> arr b")
      case True
      then have "i < ?k \<Longrightarrow> has_bit (b_data bl) i" "\<not> i < ?k \<Longrightarrow> b_parity bl ! (i - ?k) \<noteq> None"
        using i o(6) [of i] o(7) [of "i - ?k"] by (simp_all add: has_bit_iff)
      then have "a' = a\<lparr>a_blocks := (a_blocks a)[b := Some bl]\<rparr>" "\<not> full"
        using st by (cases "i < ?k"; simp add: store_shard_def hf bl_def [symmetric] se o(1-3) Let_def)+
      then show ?thesis using keep op lt True by (simp add: insert_absorb)
    next
      case False
      have card: "card (insert i (arr b)) = card (arr b) + 1" using o(5) False by simp
      have free: "i < ?k \<Longrightarrow> \<not> has_bit (b_data bl) i" "\<not> i < ?k \<Longrightarrow> b_parity bl ! (i - ?k) = None"
        using False i o(6) [of i] o(7) [of "i - ?k"] by (simp_all add: has_bit_iff)
      define bl' where "bl' = (if i < ?k then
          (if stg then bl\<lparr>b_data := b_data bl OR push_bit i 1, b_have := b_have bl + 1, b_staged := (b_staged bl)[i := Some ?p]\<rparr>
           else bl\<lparr>b_data := b_data bl OR push_bit i 1, b_have := b_have bl + 1\<rparr>)
        else bl\<lparr>b_parity := (b_parity bl)[i - ?k := Some ?p], b_have := b_have bl + 1\<rparr>)"
      define data' where "data' = (if i < ?k \<and> \<not> stg then copy_at (a_data a) s (take (e - s) ?p) else a_data a)"
      have a': "a' = a\<lparr>a_blocks := (a_blocks a)[b := Some bl'], a_data := data'\<rparr>"
        and full: "full \<longleftrightarrow> ?k \<le> card (arr b) + 1"
      proof -
        have "store_shard a (data_header trains f fec b i) ?p stg = (a\<lparr>a_blocks := (a_blocks a)[b := Some bl'], a_data := data'\<rparr>, ?k \<le> card (arr b) + 1)"
        proof (cases "i < ?k")
          case True
          show ?thesis
          proof (cases stg)
            case T: True
            show ?thesis unfolding S o(1-4) pooled if_P [OF True] if_not_P [OF free(1) [OF True]]
              using True T by (simp add: bl'_def data'_def o(1,4))
          next
            case F: False
            show ?thesis unfolding S o(1-4) pooled if_P [OF True] if_not_P [OF free(1) [OF True]]
              using True F by (simp add: bl'_def data'_def o(1,4))
          qed
        next
          case ge: False
          show ?thesis unfolding S o(1-4) pooled if_not_P [OF ge] free(2) [OF ge]
            using ge by (simp add: bl'_def data'_def o(1,4))
        qed
        with st show "a' = a\<lparr>a_blocks := (a_blocks a)[b := Some bl'], a_data := data'\<rparr>" "full \<longleftrightarrow> ?k \<le> card (arr b) + 1"
          by simp_all
      qed
      have mono: "right_at trains f b' i' (a_data a) \<Longrightarrow> right_at trains f b' i' data'" for b' i'
        using right_at_copy(2) [OF fit se] by (simp add: data'_def pl)
      have len: "length data' = length (of_data f)"
        using copy_payload(1) [OF fit se] fit by (simp add: data'_def pl)
      have here: "i < ?k \<Longrightarrow> \<not> stg \<Longrightarrow> right_at trains f b i data'"
        using right_at_copy(1) [OF fit se] by (simp add: data'_def pl)
      have i64: "i < ?k \<Longrightarrow> i < 64" using k_of_bounds(2) [OF b] by simp
      have bits: "i < ?k \<Longrightarrow> bit (b_data bl OR push_bit i 1) j \<longleftrightarrow> (j \<in> insert i (arr b) \<and> j < ?k)" for j
      proof -
        assume ik: "i < ?k"
        have "bit (push_bit i 1 :: u64) j \<longleftrightarrow> j = i" unfolding push_bit_of_1 using i64 [OF ik] by (auto simp: bit_exp_iff)
        then show ?thesis unfolding bit_or_iff o(6) using ik by blast
      qed
      have open': "blk_open trains f fec stg b (insert i (arr b)) data' bl'"
      proof (cases "i < ?k")
        case True
        have par: "b_parity bl ! j = (if ?k + j \<in> insert i (arr b) then Some (block_parity trains f fec b ! j) else None)" if "j < ?m" for j
          using o(7) [OF that] True by auto
        have bl': "b_done bl' = b_done bl" "b_k bl' = b_k bl" "b_parity bl' = b_parity bl" "b_have bl' = b_have bl + 1"
          "b_data bl' = b_data bl OR push_bit i 1" "b_staged bl' = (if stg then (b_staged bl)[i := Some ?p] else b_staged bl)"
          using True by (simp_all add: bl'_def)
        have sub: "insert i (arr b) \<subseteq> {..<?k + ?m}" using op i by (simp add: blk_open_def)
        have held: "if stg then length (b_staged bl') = ?k \<and>
            (\<forall>j < ?k. b_staged bl' ! j = (if j \<in> insert i (arr b) then Some (data_payload trains f b j) else None))
          else \<forall>j \<in> insert i (arr b). j < ?k \<longrightarrow> right_at trains f b j data'"
        proof (cases stg)
          case stgT: True
          then have "length (b_staged bl) = ?k" "\<forall>j < ?k. b_staged bl ! j = (if j \<in> arr b then Some (data_payload trains f b j) else None)"
            using op by (simp_all add: blk_open_def)
          then show ?thesis using stgT True by (simp add: bl'(6) nth_list_update pl)
        next
          case stgF: False
          then have "\<forall>j \<in> arr b. j < ?k \<longrightarrow> right_at trains f b j (a_data a)" using op by (simp add: blk_open_def)
          then show ?thesis using stgF mono here [OF True] by simp
        qed
        show ?thesis unfolding blk_open_def
          using sub held par bits [OF True] card by (simp only: bl' o(1-4) simp_thms) blast
      next
        case False
        have bl': "b_done bl' = b_done bl" "b_k bl' = b_k bl" "b_parity bl' = (b_parity bl)[i - ?k := Some ?p]"
          "b_have bl' = b_have bl + 1" "b_data bl' = b_data bl" "b_staged bl' = b_staged bl" "data' = a_data a"
          using False by (simp_all add: bl'_def data'_def)
        have par: "b_parity bl' ! j = (if ?k + j \<in> insert i (arr b) then Some (block_parity trains f fec b ! j) else None)" if "j < ?m" for j
          using o(7) [OF that] False that i o(3) by (auto simp: bl'(3) nth_list_update pl)
        have bits': "bit (b_data bl) j \<longleftrightarrow> j \<in> insert i (arr b) \<and> j < ?k" for j
          using o(6) [of j] False by auto
        have stag: "\<forall>j < ?k. (j \<in> insert i (arr b)) = (j \<in> arr b)" using False by auto
        have sub: "insert i (arr b) \<subseteq> {..<?k + ?m}" using op i by (simp add: blk_open_def)
        have held: "if stg then length (b_staged bl') = ?k \<and>
            (\<forall>j < ?k. b_staged bl' ! j = (if j \<in> insert i (arr b) then Some (data_payload trains f b j) else None))
          else \<forall>j \<in> insert i (arr b). j < ?k \<longrightarrow> right_at trains f b j data'"
          using op stag False by (cases stg) (auto simp: blk_open_def bl'(6,7))
        have lp: "length (b_parity bl') = ?m" using o(3) by (simp add: bl'(3))
        show ?thesis unfolding blk_open_def
          using sub held par bits' card lp by (simp only: bl'(1,2,4,5) o(1,2,4) simp_thms) blast
      qed
      have "asm_ok trains f fec stg (arr(b := insert i (arr b))) (if full then Some b else None)
          (a\<lparr>a_blocks := (a_blocks a)[b := Some bl'], a_data := data', a_blocks_done := a_blocks_done a\<rparr>)"
      proof (rule asm_ok_update [OF a b _ mono len])
        show "block_inv trains f fec stg b (insert i (arr b)) data' ((if full then Some b else None) = Some b) (Some bl')"
          using open' card lt full by (auto simp: block_inv_def)
        show "a_blocks_done a + (if done_slot (a_blocks a ! b) then 1 else 0) = a_blocks_done a + (if b_done bl' then 1 else 0)"
          using o(1) dn by (simp add: bl'_def)
      qed simp_all
      then show ?thesis by (simp add: a')
    qed
  qed
qed

text \<open>The fold that writes the rebuilt shards.\<close>

lemma fold_rebuild_store:
  assumes fit: "fits trains f a" and bk: "b_k bl = k_of trains f b"
    and ps: "\<forall>(i, x) \<in> set ps. \<forall>s. x = Some s \<longrightarrow> i < k_of trains f b \<longrightarrow> s = data_payload trains f b i"
  shows "length data = length (of_data f) \<Longrightarrow>
    length (fold (rebuild_store a b bl stg) ps data) = length (of_data f) \<and>
    (\<forall>b' i'. right_at trains f b' i' data \<longrightarrow> right_at trains f b' i' (fold (rebuild_store a b bl stg) ps data)) \<and>
    (\<forall>i s. (i, Some s) \<in> set ps \<longrightarrow> i < k_of trains f b \<longrightarrow> stg \<or> \<not> has_bit (b_data bl) i \<longrightarrow>
       right_at trains f b i (fold (rebuild_store a b bl stg) ps data))"
  using ps
proof (induction ps arbitrary: data)
  case (Cons p ps)
  obtain i x where p: "p = (i, x)" by (cases p)
  let ?d = "rebuild_store a b bl stg p data"
  obtain st e where se: "a_span a b i = (st, e)" by fastforce
  have step: "length ?d = length (of_data f) \<and> (\<forall>b' i'. right_at trains f b' i' data \<longrightarrow> right_at trains f b' i' ?d) \<and>
      (\<forall>s. x = Some s \<longrightarrow> i < k_of trains f b \<longrightarrow> stg \<or> \<not> has_bit (b_data bl) i \<longrightarrow> right_at trains f b i ?d)"
  proof (cases x)
    case None
    then show ?thesis using Cons.prems by (simp add: rebuild_store_def p)
  next
    case (Some s)
    then have s: "i < k_of trains f b \<Longrightarrow> s = data_payload trains f b i" using Cons.prems(2) p by auto
    show ?thesis
    proof (cases "i < k_of trains f b \<and> (stg \<or> \<not> has_bit (b_data bl) i)")
      case True
      then have "?d = copy_at data st (take (e - st) (data_payload trains f b i))"
        using s by (simp add: rebuild_store_def p Some bk se)
      then show ?thesis using copy_payload(1) [OF fit Cons.prems(1) se] right_at_copy [OF fit Cons.prems(1) se] by simp
    next
      case False
      then have "?d = data" by (auto simp: rebuild_store_def p Some bk)
      then show ?thesis using Cons.prems False by auto
    qed
  qed
  have "\<forall>(i, x) \<in> set ps. \<forall>s. x = Some s \<longrightarrow> i < k_of trains f b \<longrightarrow> s = data_payload trains f b i"
    using Cons.prems(2) by simp
  from Cons.IH [OF conjunct1 [OF step] this] step p show ?case by auto
qed simp

lemma block_data_nth: "i < k_of trains f b \<Longrightarrow> block_data trains f b ! i = data_payload trains f b i"
  by (simp add: block_data_def)

lemma arrived_card:
  assumes "\<And>x. x < length shards \<Longrightarrow> shards ! x \<noteq> None \<longleftrightarrow> x \<in> X" "X \<subseteq> {..<length shards}"
  shows "arrived shards = card X"
proof -
  have "arrived shards = card {i. i < length shards \<and> shards ! i \<noteq> None}"
    unfolding arrived_def by (rule length_filter_conv_card)
  also have "{i. i < length shards \<and> shards ! i \<noteq> None} = X" using assms by auto
  finally show ?thesis .
qed

lemma scratch_received:
  assumes op: "blk_open trains f fec stg b arr (a_data a) bl" and b: "b < block_count trains f"
    and fit: "fits trains f a" "length (a_data a) = length (of_data f)"
  defines "sc \<equiv> rebuild_scratch a b bl stg"
  shows "received (block_data trains f b) (block_parity trains f fec b) sc" "arrived sc = card arr"
proof -
  let ?k = "k_of trains f b" and ?m = "m_of trains f fec b"
  have o: "b_k bl = ?k" "length (b_parity bl) = ?m" "arr \<subseteq> {..<?k + ?m}"
    "\<And>i. bit (b_data bl) i \<longleftrightarrow> i \<in> arr \<and> i < ?k"
    "\<And>j. j < ?m \<Longrightarrow> b_parity bl ! j = (if ?k + j \<in> arr then Some (block_parity trains f fec b ! j) else None)"
    using op by (simp_all add: blk_open_def)
  have len: "length sc = ?k + ?m" by (simp add: sc_def rebuild_scratch_def o)
  have lo: "sc ! x = (if x \<in> arr then Some (data_payload trains f b x) else None)" if x: "x < ?k" for x
  proof (cases stg)
    case True
    then show ?thesis using op x by (simp add: sc_def rebuild_scratch_def nth_append o blk_open_def)
  next
    case False
    obtain s e where se: "a_span a b x = (s, e)" by fastforce
    have "x \<in> arr \<Longrightarrow> right_at trains f b x (a_data a)" using op False x by (simp add: blk_open_def)
    then show ?thesis using False x pooled_right [OF fit se]
      by (simp add: sc_def rebuild_scratch_def nth_append o has_bit_iff se)
  qed
  have hi: "sc ! x = (if x \<in> arr then Some (block_parity trains f fec b ! (x - ?k)) else None)" if "?k \<le> x" "x < ?k + ?m" for x
    using that o(5) [of "x - ?k"] by (simp add: sc_def rebuild_scratch_def nth_append o(1,2))
  have "length (block_parity trains f fec b) = ?m" by (rule block_parity_eq(2) [OF b])
  moreover have "sc ! x = None \<or> sc ! x = Some ((block_data trains f b @ block_parity trains f fec b) ! x)" if "x < ?k + ?m" for x
    using lo [of x] hi [of x] that by (cases "x < ?k") (auto simp: nth_append block_data_nth)
  ultimately show "received (block_data trains f b) (block_parity trains f fec b) sc"
    by (simp add: received_def len)
  show "arrived sc = card arr"
  proof (rule arrived_card)
    fix x assume "x < length sc"
    then show "sc ! x \<noteq> None \<longleftrightarrow> x \<in> arr" using lo [of x] hi [of x] len by (cases "x < ?k") auto
  qed (use o(3) len in simp)
qed

lemma rebuild_ok:
  assumes op: "blk_open trains f fec stg b arr (a_data a) bl" and b: "b < block_count trains f"
    and fit: "fits trains f a" "length (a_data a) = length (of_data f)"
    and sl: "a_blocks a ! b = Some bl" and enough: "k_of trains f b \<le> card arr"
  shows "\<exists>data'. rebuild a b stg = (True, a\<lparr>a_data := data',
      a_blocks := (a_blocks a)[b := Some (bl\<lparr>b_parity := map (\<lambda>_. None) (b_parity bl), b_staged := map (\<lambda>_. None) (b_staged bl)\<rparr>)]\<rparr>) \<and>
    length data' = length (of_data f) \<and> (\<forall>i < k_of trains f b. right_at trains f b i data') \<and>
    (\<forall>b' i'. right_at trains f b' i' (a_data a) \<longrightarrow> right_at trains f b' i' data')"
proof -
  let ?k = "k_of trains f b"
  note rc = scratch_received [OF op b fit]
  have bk: "b_k bl = ?k" using op by (simp add: blk_open_def)
  have "\<exists>out. reconstruct (rebuild_scratch a b bl stg) (length (block_data trains f b)) = Some (True, out) \<and>
      length out = length (rebuild_scratch a b bl stg) \<and> (\<forall>j < length (block_data trains f b). out ! j = Some (block_data trains f b ! j)) \<and>
      (\<forall>x \<ge> length (block_data trains f b). out ! x = rebuild_scratch a b bl stg ! x)"
    by (rule reconstruct_rebuilds [OF block_parity_eq(1) [OF b] _ rc(1), where L = "shard_size trains f"])
      (use rc(2) enough block_data_sizes in auto)
  then obtain out where out: "reconstruct (rebuild_scratch a b bl stg) ?k = Some (True, out)"
    "\<And>j. j < ?k \<Longrightarrow> out ! j = Some (data_payload trains f b j)" "length out = length (rebuild_scratch a b bl stg)"
    by (auto simp: block_data_nth)
  define data' where "data' = fold (rebuild_store a b bl stg) (enumerate 0 out) (a_data a)"
  have len: "?k \<le> length out" by (simp add: out(3) rebuild_scratch_def bk)
  have "\<forall>(i, x) \<in> set (enumerate 0 out). \<forall>s. x = Some s \<longrightarrow> i < ?k \<longrightarrow> s = data_payload trains f b i"
    using out(2) by (auto simp: in_set_enumerate_eq)
  note st = fold_rebuild_store [OF fit(1) bk this fit(2), of stg, folded data'_def]
  have "right_at trains f b i data'" if i: "i < ?k" for i
  proof (cases "stg \<or> \<not> has_bit (b_data bl) i")
    case True
    have "(i, Some (data_payload trains f b i)) \<in> set (enumerate 0 out)"
      using out(2) [OF i] i len by (simp add: in_set_enumerate_eq)
    then show ?thesis using st True i by blast
  next
    case False
    then have "right_at trains f b i (a_data a)" using op i by (simp add: blk_open_def has_bit_iff)
    then show ?thesis using st by blast
  qed
  then show ?thesis using st out(1)
    by (intro exI [of _ data']) (simp add: rebuild_def sl bk data'_def)
qed

lemma finish_block_ok:
  assumes a: "asm_ok trains f fec stg arr (Some b) a" and b: "b < block_count trains f"
  shows "\<exists>a' n. finish_block a b stg = Some (a', n) \<and> asm_ok trains f fec stg arr None a'"
proof -
  let ?k = "k_of trains f b"
  have bi: "block_inv trains f fec stg b (arr b) (a_data a) True (a_blocks a ! b)" using a b unfolding asm_ok_def by force
  then obtain bl where sl: "a_blocks a ! b = Some bl" and op: "blk_open trains f fec stg b (arr b) (a_data a) bl"
    and card: "card (arr b) = ?k" by (auto simp: block_inv_def split: option.splits)
  have fit: "fits trains f a" "length (a_data a) = length (of_data f)" and B: "b < length (a_blocks a)"
    using a b by (simp_all add: asm_ok_def asm_meta_def)
  have o: "\<not> b_done bl" "b_k bl = ?k" "\<And>i. bit (b_data bl) i \<longleftrightarrow> i \<in> arr b \<and> i < ?k" "finite (arr b)"
    using op by (auto simp: blk_open_def intro: finite_subset)
  define miss where "miss = ?k - count_ones (b_data bl)"
  have fin: "asm_ok trains f fec stg (arr(b := arr b)) None
      (a\<lparr>a_blocks := (a_blocks a)[b := Some bl'], a_data := data', a_blocks_done := a_blocks_done a + 1\<rparr>)"
    if "b_done bl'" "b_k bl' = ?k" "length data' = length (of_data f)" "\<forall>i < ?k. right_at trains f b i data'"
      "\<forall>b' i'. right_at trains f b' i' (a_data a) \<longrightarrow> right_at trains f b' i' data'" for bl' data'
    by (rule asm_ok_update [OF a b]) (use that o(1,4) card sl in \<open>auto simp: block_inv_def blk_closed_def done_slot_def\<close>)
  show ?thesis
  proof (cases "miss > 0 \<or> stg")
    case True
    obtain data' where rb: "rebuild a b stg = (True, a\<lparr>a_data := data',
      a_blocks := (a_blocks a)[b := Some (bl\<lparr>b_parity := map (\<lambda>_. None) (b_parity bl), b_staged := map (\<lambda>_. None) (b_staged bl)\<rparr>)]\<rparr>)"
      "length data' = length (of_data f)" "\<forall>i < ?k. right_at trains f b i data'"
      "\<forall>b' i'. right_at trains f b' i' (a_data a) \<longrightarrow> right_at trains f b' i' data'"
      using rebuild_ok [OF op b fit sl] card by auto
    define bl' where "bl' = bl\<lparr>b_staged := map (\<lambda>_. None) (b_staged bl), b_done := True, b_parity := []\<rparr>"
    have "finish_block a b stg = Some (a\<lparr>a_blocks := (a_blocks a)[b := Some bl'], a_data := data', a_blocks_done := a_blocks_done a + 1\<rparr>, miss)"
      using True B by (simp add: finish_block_def sl o(2) miss_def [symmetric] rb(1) bl'_def)
    then show ?thesis using fin [of bl' data'] rb(2-4) o(2) by (auto simp: bl'_def)
  next
    case False
    define bl' where "bl' = bl\<lparr>b_done := True, b_parity := []\<rparr>"
    have k64: "?k \<le> 64" using k_of_bounds(2) [OF b] .
    have "count_ones (b_data bl) = card (arr b \<inter> {..<?k})" by (rule count_ones_card [OF o(3) k64])
    then have "?k \<le> card (arr b \<inter> {..<?k})" using False by (simp add: miss_def)
    then have "{..<?k} \<subseteq> arr b"
      by (metis Int_lower2 card_lessThan card_subset_eq finite_lessThan inf.orderI inf_commute card_mono le_antisym)
    then have r: "\<forall>i < ?k. right_at trains f b i (a_data a)" using op False by (auto simp: blk_open_def)
    have "finish_block a b stg = Some (a\<lparr>a_blocks := (a_blocks a)[b := Some bl'], a_data := a_data a, a_blocks_done := a_blocks_done a + 1\<rparr>, miss)"
      using False by (simp add: finish_block_def sl o(2) miss_def [symmetric] bl'_def)
    then show ?thesis using fin [of bl' "a_data a"] r fit o(2) by (auto simp: bl'_def)
  qed
qed

end
