(* ===== verification/FrameDelivery.thy ===== *)
theory FrameDelivery
  imports Reassemble
begin

text \<open>
  What the \<open>Reassembler\<close> of \<open>crates/rdp-hyper/src/video.rs\<close> delivers when it is fed, in any
  order and with any losses and repeats, the bodies \<open>packetize\<close> made of some frames.
\<close>

section \<open>A whole frame\<close>

definition all_full :: "bool \<Rightarrow> out_frame \<Rightarrow> (nat \<Rightarrow> nat set) \<Rightarrow> bool" where
  "all_full trains f arr \<longleftrightarrow> (\<forall>b < block_count trains f. k_of trains f b \<le> card (arr b))"

lemma asm_complete:
  assumes a: "asm_ok trains f fec stg arr None a" and fin: "\<not> a_blocks_done a < length (a_blocks a)"
  shows "a_data a = of_data f" "all_full trains f arr"
proof -
  have l: "length (a_blocks a) = block_count trains f" "length (a_data a) = length (of_data f)"
    using a by (simp_all add: asm_ok_def asm_meta_def)
  have "length (filter done_slot (a_blocks a)) = length (a_blocks a)"
    using a fin length_filter_le [of done_slot "a_blocks a"] by (simp add: asm_ok_def)
  then have "\<forall>x \<in> set (a_blocks a). done_slot x" by (metis filter_id_conv length_filter_less less_irrefl)
  then have cl: "\<exists>bl. blk_closed trains f b (arr b) (a_data a) bl" if "b < block_count trains f" for b
  proof -
    have "done_slot (a_blocks a ! b)" using \<open>\<forall>x \<in> set (a_blocks a). done_slot x\<close> that l nth_mem by metis
    then obtain bl where bl: "a_blocks a ! b = Some bl" "b_done bl" by (auto simp: done_slot_def split: option.splits)
    have "block_inv trains f fec stg b (arr b) (a_data a) (None = Some b) (a_blocks a ! b)"
      using a that unfolding asm_ok_def by blast
    then show ?thesis using bl by (auto simp: block_inv_def blk_open_def)
  qed
  then show "all_full trains f arr" unfolding all_full_def blk_closed_def by blast
  show "a_data a = of_data f"
  proof (rule nth_equalityI)
    show "length (a_data a) = length (of_data f)" by (fact l(2))
    fix p assume "p < length (a_data a)"
    then have p: "p < length (of_data f)" using l by simp
    let ?z = "shard_size trains f" and ?n = "p div shard_size trains f"
    have z: "0 < ?z" by (rule shard_facts(1))
    have n: "?n < shard_count trains f"
      using p shard_facts(4) [where trains = trains and f = f] z by (simp add: less_mult_imp_div_less)
    have cnt: "shard_count trains f \<le> block_count trains f * 64"
      using div_ceil_bounds(1) [of 64 "shard_count trains f"] by (simp add: block_count_def MAX_BLOCK_DATA_def)
    have b: "?n div 64 < block_count trains f" using n cnt by (simp add: less_mult_imp_div_less)
    have "?n mod 64 < k_of trains f (?n div 64)"
    proof -
      have "?n = ?n div 64 * 64 + ?n mod 64" by simp
      then have "?n mod 64 < shard_count trains f - ?n div 64 * 64" using n by linarith
      then show ?thesis by (simp add: k_of_def block_k_def MAX_BLOCK_DATA_def)
    qed
    then have "right_at trains f (?n div 64) (?n mod 64) (a_data a)" using cl [OF b] by (auto simp: blk_closed_def)
    moreover have "(?n div 64 * 64 + ?n mod 64) * ?z \<le> p \<and> p < (?n div 64 * 64 + ?n mod 64) * ?z + ?z"
    proof -
      have "?n div 64 * 64 + ?n mod 64 = ?n" by simp
      moreover have "p = ?n * ?z + p mod ?z" by (rule div_mult_mod_eq [symmetric])
      moreover have "p mod ?z < ?z" using z by simp
      ultimately show ?thesis by (metis add_less_cancel_left le_add1)
    qed
    ultimately show "a_data a ! p = of_data f ! p" using p by (simp add: right_at_def)
  qed
qed

lemma asm_incomplete:
  assumes a: "asm_ok trains f fec stg arr None a" and "all_full trains f arr"
  shows "\<not> a_blocks_done a < length (a_blocks a)"
proof -
  have l: "length (a_blocks a) = block_count trains f" using a by (simp add: asm_ok_def asm_meta_def)
  have "done_slot (a_blocks a ! b)" if b: "b < block_count trains f" for b
  proof -
    have "block_inv trains f fec stg b (arr b) (a_data a) (None = Some b) (a_blocks a ! b)"
      using a b unfolding asm_ok_def by blast
    moreover have "0 < k_of trains f b" "k_of trains f b \<le> card (arr b)"
      using assms(2) b k_of_bounds(1) [OF b] by (simp_all add: all_full_def)
    ultimately show ?thesis by (auto simp: block_inv_def done_slot_def blk_closed_def split: option.splits)
  qed
  then have "\<forall>x \<in> set (a_blocks a). done_slot x" using l by (metis in_set_conv_nth)
  then have "filter done_slot (a_blocks a) = a_blocks a" by (simp add: filter_id_conv)
  then show ?thesis using a by (simp add: asm_ok_def)
qed

section \<open>The steps of a push\<close>

definition fields_of :: "bool \<Rightarrow> out_frame \<Rightarrow> rat \<Rightarrow> nat \<Rightarrow> nat \<Rightarrow> bytes" where
  "fields_of trains f fec b i = (block_data trains f b @ block_parity trains f fec b) ! i"

lemma length_fields_of:
  assumes "b < block_count trains f" "i < k_of trains f b + m_of trains f fec b"
  shows "length (fields_of trains f fec b i) = shard_size trains f"
proof (cases "i < k_of trains f b")
  case True
  then show ?thesis by (simp add: fields_of_def nth_append block_data_nth)
next
  case False
  have "\<forall>d \<in> set (block_data trains f b). length d = shard_size trains f" using block_data_sizes by blast
  from encode_Some(4) [OF block_parity_eq(1) [OF assms(1)] this, of "i - k_of trains f b"] False assms
  show ?thesis by (simp add: fields_of_def nth_append)
qed

lemma wire_body_read:
  "read_header (wire_body trains f fec b i) = Some (data_header trains f fec b i)"
  "drop SHARD_HEADER (wire_body trains f fec b i) = fields_of trains f fec b i"
  by (simp_all add: wire_body_def read_write_header fields_of_def)

lemma shard_not_refused:
  assumes "block_count trains f \<le> 255" "b < block_count trains f" "i < k_of trains f b + m_of trains f fec b"
  shows "\<not> shard_refused (data_header trains f fec b i) (fields_of trains f fec b i)"
proof -
  note hf = header_fields [OF assms]
  have "fields_of trains f fec b i \<noteq> []"
    using length_fields_of [OF assms(2,3)] shard_facts(1) [of trains f] by auto
  then show ?thesis using assms k_of_bounds [OF assms(2)] m_of_le [of trains f fec b]
    by (auto simp: shard_refused_def hf MAX_BLOCK_DATA_def MAX_BLOCK_PARITY_def word_le_nat_alt)
qed

lemma frame_len_small:
  assumes "block_count trains f \<le> 255"
  shows "length (of_data f) \<le> block_count trains f * 64 * shard_size trains f" "length (of_data f) < 2 ^ 32"
proof -
  have cnt: "shard_count trains f \<le> block_count trains f * 64"
    using div_ceil_bounds(1) [of 64 "shard_count trains f"] by (simp add: block_count_def MAX_BLOCK_DATA_def)
  have "length (of_data f) \<le> shard_count trains f * shard_size trains f" by (rule shard_facts)
  also have "\<dots> \<le> block_count trains f * 64 * shard_size trains f" using cnt by simp
  finally show l: "length (of_data f) \<le> block_count trains f * 64 * shard_size trains f" .
  have "block_count trains f * 64 * shard_size trains f \<le> 255 * 64 * 1146"
    using assms shard_facts(2) [of trains f] by (intro mult_le_mono) (simp_all add: MAX_SHARD_val)
  then show "length (of_data f) < 2 ^ 32" using l by simp
qed

lemma new_assembly_ok:
  assumes "block_count trains f \<le> 255" "b < block_count trains f" "i < k_of trains f b + m_of trains f fec b"
  shows "asm_ok trains f fec stg (\<lambda>_. {}) None (new_assembly (data_header trains f fec b i) (shard_size trains f) now stale)"
proof -
  have "unat (of_nat (length (of_data f)) :: u32) = length (of_data f)"
    using frame_len_small(2) [OF assms(1)] by (simp add: unat_of_nat)
  then show ?thesis
    using assms header_fields [OF assms]
    by (intro asm_okI)
      (auto simp: asm_meta_def fits_def new_assembly_def block_inv_def data_header_fields filter_empty_conv done_slot_def)
qed

text \<open>The shard of a frame stored in that frame's assembly.\<close>

lemma take_shard_cases:
  assumes sl: "slots r ! (unat (of_id f) mod 32) = Some a" "unat (of_id f) mod 32 < length (slots r)"
    and a: "asm_ok trains f fec (stage r) arr None a" "a_blocks_done a < length (a_blocks a)"
    and b: "b < block_count trains f" and i: "i < k_of trains f b + m_of trains f fec b"
  defines "arr' \<equiv> arr(b := insert i (arr b))" and "s \<equiv> unat (of_id f) mod 32"
  shows "(\<exists>a' st. take_shard r (data_header trains f fec b i) (fields_of trains f fec b i)
        = (r\<lparr>slots := (slots r)[s := Some a'], rstats := st\<rparr>, []) \<and>
      asm_ok trains f fec (stage r) arr' None a' \<and> a_blocks_done a' < length (a_blocks a') \<and> \<not> all_full trains f arr') \<or>
    (\<exists>a' st. take_shard r (data_header trains f fec b i) (fields_of trains f fec b i)
        = complete (r\<lparr>slots := (slots r)[s := Some a'], rstats := st\<rparr>) (of_id f) \<and>
      asm_ok trains f fec (stage r) arr' None a' \<and> \<not> a_blocks_done a' < length (a_blocks a') \<and> all_full trains f arr')"
proof -
  have m: "length (a_blocks a) = block_count trains f" "a_size a = shard_size trains f" "block_count trains f \<le> 255"
    using a(1) by (simp_all add: asm_ok_def asm_meta_def fits_def)
  note hf = header_fields [OF m(3) b i]
  obtain a1 full where st: "store_shard a (data_header trains f fec b i) (fields_of trains f fec b i) (stage r) = (a1, full)"
    by fastforce
  have ok1: "asm_ok trains f fec (stage r) arr' (if full then Some b else None) a1"
    unfolding arr'_def by (rule store_shard_ok [OF a(1) b i st [unfolded fields_of_def]])
  have kept: "a_blocks_done a1 = a_blocks_done a \<and> length (a_blocks a1) = length (a_blocks a)"
    using st by (auto simp: store_shard_def Let_def split: if_splits prod.splits)
  have upd: "r\<lparr>slots := x, rstats := rstats r\<rparr> = r\<lparr>slots := x\<rparr>" for x by simp
  have T: "take_shard r (data_header trains f fec b i) (fields_of trains f fec b i) =
      (if \<not> full then (r\<lparr>slots := (slots r)[s := Some a1]\<rparr>, [])
       else case finish_block a1 b (stage r) of
          None \<Rightarrow> (r\<lparr>slots := (slots r)[s := Some a1]\<rparr>, [])
        | Some (a2, missing) \<Rightarrow>
            let r2 = r\<lparr>slots := (slots r)[s := Some a2],
                       rstats := (rstats r)\<lparr>st_recovered := st_recovered (rstats r) + of_nat missing\<rparr>\<rparr>
            in if a_blocks_done a2 < length (a_blocks a2) then (r2, []) else complete r2 (of_id f))"
    using sl m length_fields_of [OF b i]
    by (simp add: take_shard_def hf MAX_IN_FLIGHT_def st s_def [symmetric] Let_def split: option.split)
  show ?thesis
  proof (cases full)
    case False
    then have "asm_ok trains f fec (stage r) arr' None a1" using ok1 by simp
    moreover have "a_blocks_done a1 < length (a_blocks a1)" using kept a(2) by simp
    moreover have "\<not> all_full trains f arr'" using asm_incomplete calculation by blast
    moreover have "take_shard r (data_header trains f fec b i) (fields_of trains f fec b i)
        = (r\<lparr>slots := (slots r)[s := Some a1], rstats := rstats r\<rparr>, [])" using T False by simp
    ultimately show ?thesis by blast
  next
    case True
    then have "asm_ok trains f fec (stage r) arr' (Some b) a1" using ok1 by simp
    from finish_block_ok [OF this b] obtain a2 n where f2: "finish_block a1 b (stage r) = Some (a2, n)"
      "asm_ok trains f fec (stage r) arr' None a2" by blast
    show ?thesis
    proof (cases "a_blocks_done a2 < length (a_blocks a2)")
      case lt: True
      then have "\<not> all_full trains f arr'" using asm_incomplete f2(2) by blast
      moreover have "take_shard r (data_header trains f fec b i) (fields_of trains f fec b i)
          = (r\<lparr>slots := (slots r)[s := Some a2], rstats := (rstats r)\<lparr>st_recovered := st_recovered (rstats r) + of_nat n\<rparr>\<rparr>, [])"
        unfolding T using True lt by (simp add: f2(1))
      ultimately show ?thesis using f2(2) lt by blast
    next
      case ge: False
      have "take_shard r (data_header trains f fec b i) (fields_of trains f fec b i)
          = complete (r\<lparr>slots := (slots r)[s := Some a2], rstats := (rstats r)\<lparr>st_recovered := st_recovered (rstats r) + of_nat n\<rparr>\<rparr>) (of_id f)"
        unfolding T using True ge by (simp add: f2(1))
      then show ?thesis using f2(2) ge asm_complete(2) [OF f2(2) ge] by blast
    qed
  qed
qed

definition frame_of :: "assembly \<Rightarrow> in_frame" where
  "frame_of a = \<lparr>if_id = a_id a, if_keyframe = (a_flags a AND FLAG_KEYFRAME \<noteq> 0),
     if_ltr = (a_flags a AND FLAG_LTR \<noteq> 0), if_recovery = (a_flags a AND FLAG_RECOVERY \<noteq> 0),
     if_data = a_data a, if_capture_us = a_capture_us a, if_encode_us = a_encode_us a,
     if_first_rx_us = a_first_rx_us a\<rparr>"

lemma update_None: "k < length ss \<Longrightarrow> ss[j := None] ! k \<noteq> ss ! k \<Longrightarrow> ss[j := None] ! k = None"
  by (cases "j = k") auto

lemma fold_drop_old:
  "length (fold (\<lambda>i ss. let id = b + of_nat i; s = unat id mod 32 in
      (case ss ! s of Some z \<Rightarrow> if a_id z = id then ss[s := None] else ss | None \<Rightarrow> ss)) is ss) = length ss \<and>
   (\<forall>k < length ss. fold (\<lambda>i ss. let id = b + of_nat i; s = unat id mod 32 in
      (case ss ! s of Some z \<Rightarrow> if a_id z = id then ss[s := None] else ss | None \<Rightarrow> ss)) is ss ! k \<in> {None, ss ! k})"
proof (induction "is" arbitrary: ss)
  case (Cons i js)
  define ss1 where "ss1 = (let id = b + of_nat i; s = unat id mod 32 in
      (case ss ! s of Some z \<Rightarrow> if a_id z = id then ss[s := None] else ss | None \<Rightarrow> ss))"
  have one: "length ss1 = length ss" "\<forall>k < length ss. ss1 ! k \<in> {None, ss ! k}"
    using update_None by (auto simp: ss1_def Let_def split: option.split)
  show ?case using Cons.IH [of ss1] one by (simp only: fold_simps ss1_def [symmetric]) fastforce
qed simp

lemma complete_spec:
  assumes "slots r ! (unat fid mod 32) = Some a" "unat fid mod 32 < length (slots r)" "a_id a = fid"
    and "complete r fid = (r', evs)"
  shows "next_id r' = Some (fid + 1)" "base r' = Some (fid + 1)" "stage r' = stage r" "length (slots r') = length (slots r)"
    "\<forall>k < length (slots r). slots r' ! k \<in> {None, slots r ! k}" "slots r' ! (unat fid mod 32) = None"
    "evs = (let nx = (case next_id r of None \<Rightarrow> fid | Some n \<Rightarrow> n) in if fid \<noteq> nx then [Lost nx (fid - 1)] else []) @ [Frame (frame_of a)]"
proof -
  let ?b = "case base r of None \<Rightarrow> fid | Some b \<Rightarrow> b"
  let ?ss = "(slots r)[unat fid mod 32 := None]"
  define out where "out = fold (\<lambda>i ss. let id = ?b + of_nat i; s = unat id mod 32 in
      (case ss ! s of Some z \<Rightarrow> if a_id z = id then ss[s := None] else ss | None \<Rightarrow> ss)) [0..<min (unat (fid - ?b)) 32] ?ss"
  have sl: "slots r' = out" and fr: "next_id r' = Some (fid + 1)" "base r' = Some (fid + 1)" "stage r' = stage r"
    and ev: "evs = (let nx = (case next_id r of None \<Rightarrow> fid | Some n \<Rightarrow> n) in if fid \<noteq> nx then [Lost nx (fid - 1)] else []) @ [Frame (frame_of a)]"
    using assms(1,3,4) by (auto simp: complete_def MAX_IN_FLIGHT_def Let_def out_def frame_of_def scrap_def split: if_splits)
  note fo = fold_drop_old [of ?b "[0..<min (unat (fid - ?b)) 32]" ?ss, folded out_def]
  show "next_id r' = Some (fid + 1)" "base r' = Some (fid + 1)" "stage r' = stage r" by (fact fr)+
  show "evs = (let nx = (case next_id r of None \<Rightarrow> fid | Some n \<Rightarrow> n) in if fid \<noteq> nx then [Lost nx (fid - 1)] else []) @ [Frame (frame_of a)]"
    by (fact ev)
  show "length (slots r') = length (slots r)" using fo by (simp add: sl)
  have each: "out ! k \<in> {None, ?ss ! k}" if "k < length (slots r)" for k using fo that by simp
  have "slots r' ! k \<in> {None, slots r ! k}" if "k < length (slots r)" for k
    using each [OF that] that by (cases "k = unat fid mod 32") (simp_all add: sl)
  then show "\<forall>k < length (slots r). slots r' ! k \<in> {None, slots r ! k}" by blast
  show "slots r' ! (unat fid mod 32) = None" using each [OF assms(2)] assms(2) by (simp add: sl)
qed

section \<open>Many frames\<close>

text \<open>The frames sent, by id, with the parity ratio each was packetized at.\<close>

type_synonym sent_frames = "u32 \<Rightarrow> (out_frame \<times> rat) option"

definition wf_frames :: "bool \<Rightarrow> sent_frames \<Rightarrow> bool" where
  "wf_frames trains frames \<longleftrightarrow>
     (\<forall>i f fec. frames i = Some (f, fec) \<longrightarrow> of_id f = i \<and> packetize trains f fec \<noteq> None)"

definition sent_body :: "bool \<Rightarrow> sent_frames \<Rightarrow> bytes \<Rightarrow> bool" where
  "sent_body trains frames body \<longleftrightarrow>
     (\<exists>i f fec bodies. frames i = Some (f, fec) \<and> packetize trains f fec = Some bodies \<and> body \<in> set bodies)"

text \<open>An arriving packet: what the buffer taken for a new frame holds, the body, the clock.\<close>

type_synonym arrival = "bytes \<times> bytes \<times> u64"

fun push_all :: "reassembler \<Rightarrow> arrival list \<Rightarrow> reassembler \<times> event list" where
  "push_all r [] = (r, [])"
| "push_all r ((stale, body, now) # xs) =
     (let (r, es) = push r stale body now; (r, es') = push_all r xs in (r, es @ es'))"

definition frame_matches :: "sent_frames \<Rightarrow> in_frame \<Rightarrow> bool" where
  "frame_matches frames fr \<longleftrightarrow>
     (case frames (if_id fr) of
        None \<Rightarrow> False
      | Some (f, _) \<Rightarrow> if_data fr = of_data f \<and> if_keyframe fr = of_keyframe f \<and> if_ltr fr = of_ltr f \<and>
          if_recovery fr = of_recovery f \<and> if_capture_us fr = of_capture_us f \<and> if_encode_us fr = of_encode_us f)"

lemma frame_flags_bits:
  "frame_flags f AND FLAG_KEYFRAME \<noteq> 0 \<longleftrightarrow> of_keyframe f" "frame_flags f AND FLAG_LTR \<noteq> 0 \<longleftrightarrow> of_ltr f"
  "frame_flags f AND FLAG_RECOVERY \<noteq> 0 \<longleftrightarrow> of_recovery f"
  by (cases "of_keyframe f"; cases "of_ltr f"; cases "of_recovery f"; cases "of_probe f";
      simp add: frame_flags_def FLAG_KEYFRAME_def FLAG_LTR_def FLAG_RECOVERY_def FLAG_PROBE_def)+

lemma frame_of_matches:
  assumes "frames (of_id f) = Some (f, fec)" "asm_ok trains f fec stg arr None a" "\<not> a_blocks_done a < length (a_blocks a)"
  shows "frame_matches frames (frame_of a)"
  using assms asm_complete(1) [OF assms(2,3)]
  by (simp add: frame_matches_def frame_of_def asm_ok_def asm_meta_def frame_flags_bits)

definition slot_inv :: "bool \<Rightarrow> sent_frames \<Rightarrow> reassembler \<Rightarrow> bool" where
  "slot_inv trains frames r \<longleftrightarrow> length (slots r) = 32 \<and>
     (\<forall>s < 32. \<forall>a. slots r ! s = Some a \<longrightarrow> unat (a_id a) mod 32 = s \<and>
        (\<exists>f fec arr. frames (a_id a) = Some (f, fec) \<and> asm_ok trains f fec (stage r) arr None a \<and>
           a_blocks_done a < length (a_blocks a)))"

lemma slot_invI:
  assumes "slot_inv trains frames r" "length (slots r') = 32" "stage r' = stage r"
    and "\<And>s a. s < 32 \<Longrightarrow> slots r' ! s = Some a \<Longrightarrow> slots r ! s = Some a \<or>
      unat (a_id a) mod 32 = s \<and> (\<exists>f fec arr. frames (a_id a) = Some (f, fec) \<and> asm_ok trains f fec (stage r) arr None a \<and>
           a_blocks_done a < length (a_blocks a))"
  shows "slot_inv trains frames r'"
  unfolding slot_inv_def assms(3)
proof (intro conjI allI impI)
  show "length (slots r') = 32" by (fact assms(2))
  fix s a assume sa: "s < 32" "slots r' ! s = Some a"
  from assms(4) [OF this] have "unat (a_id a) mod 32 = s \<and> (\<exists>f fec arr. frames (a_id a) = Some (f, fec) \<and>
      asm_ok trains f fec (stage r) arr None a \<and> a_blocks_done a < length (a_blocks a))"
    using assms(1) sa(1) unfolding slot_inv_def by blast
  then show "unat (a_id a) mod 32 = s" "\<exists>f fec arr. frames (a_id a) = Some (f, fec) \<and>
      asm_ok trains f fec (stage r) arr None a \<and> a_blocks_done a < length (a_blocks a)" by blast+
qed

lemma finish_train_frame [simp]:
  "slots (finish_train r) = slots r" "base (finish_train r) = base r" "next_id (finish_train r) = next_id r"
  "stage (finish_train r) = stage r"
  by (simp_all add: finish_train_def Let_def split: option.split)

lemma note_train_frame [simp]:
  "slots (note_train r h n now) = slots r" "base (note_train r h n now) = base r" "next_id (note_train r h n now) = next_id r"
  "stage (note_train r h n now) = stage r"
  by (simp_all add: note_train_def Let_def split_beta split: option.split)

definition too_old :: "reassembler \<Rightarrow> u32 \<Rightarrow> bool" where
  "too_old r fid \<longleftrightarrow> (case base r of None \<Rightarrow> False | Some b \<Rightarrow> fid - b > 0x7FFFFFFF)"

text \<open>The state in which the shard of frame \<open>f\<close> is stored: its assembly in its slot.\<close>

definition opened_for :: "bool \<Rightarrow> sent_frames \<Rightarrow> out_frame \<Rightarrow> rat \<Rightarrow> reassembler \<Rightarrow> reassembler \<Rightarrow> event list \<Rightarrow> bool" where
  "opened_for trains frames f fec r r1 es \<longleftrightarrow>
     slot_inv trains frames r1 \<and> stage r1 = stage r \<and>
     (\<exists>a. slots r1 ! (unat (of_id f) mod 32) = Some a \<and> a_id a = of_id f) \<and>
     (let b = (case base r of None \<Rightarrow> of_id f | Some b \<Rightarrow> b); nb = of_id f - 31 in
      (es = [] \<and> next_id r1 = next_id r \<and> (base r1 = Some b \<or> base r1 = base r) \<or>
       of_id f - b \<ge> 32 \<and> next_id r1 = Some nb \<and> base r1 = Some nb \<and>
       es = [Lost (case next_id r of None \<Rightarrow> b | Some n \<Rightarrow> n) (nb - 1)]))"

lemma make_room_spec:
  assumes "make_room r fid = (r1, es)"
  shows "stage r1 = stage r" "length (slots r1) = length (slots r)"
    "\<forall>k < length (slots r). slots r1 ! k \<in> {None, slots r ! k}"
    "let b = (case base r of None \<Rightarrow> fid | Some b \<Rightarrow> b); nb = fid - 31 in
      (es = [] \<and> next_id r1 = next_id r \<and> base r1 = Some b \<or>
       fid - b \<ge> 32 \<and> next_id r1 = Some nb \<and> base r1 = Some nb \<and>
       es = [Lost (case next_id r of None \<Rightarrow> b | Some n \<Rightarrow> n) (nb - 1)])"
proof -
  let ?b = "case base r of None \<Rightarrow> fid | Some b \<Rightarrow> b"
  have "stage r1 = stage r \<and> length (slots r1) = length (slots r) \<and> (\<forall>k < length (slots r). slots r1 ! k \<in> {None, slots r ! k}) \<and>
    (es = [] \<and> next_id r1 = next_id r \<and> base r1 = Some ?b \<or>
       fid - ?b \<ge> 32 \<and> next_id r1 = Some (fid - 31) \<and> base r1 = Some (fid - 31) \<and>
       es = [Lost (case next_id r of None \<Rightarrow> ?b | Some n \<Rightarrow> n) (fid - 31 - 1)])"
  proof (cases "fid - ?b \<ge> 32")
    case True
    then show ?thesis using assms unfolding make_room_def Let_def MAX_IN_FLIGHT_def
      by (auto split: option.split)
  next
    case False
    then show ?thesis using assms unfolding make_room_def Let_def MAX_IN_FLIGHT_def by auto
  qed
  then show "stage r1 = stage r" "length (slots r1) = length (slots r)"
    "\<forall>k < length (slots r). slots r1 ! k \<in> {None, slots r ! k}"
    "let b = (case base r of None \<Rightarrow> fid | Some b \<Rightarrow> b); nb = fid - 31 in
      (es = [] \<and> next_id r1 = next_id r \<and> base r1 = Some b \<or>
       fid - b \<ge> 32 \<and> next_id r1 = Some nb \<and> base r1 = Some nb \<and>
       es = [Lost (case next_id r of None \<Rightarrow> b | Some n \<Rightarrow> n) (nb - 1)])"
    unfolding Let_def by blast+
qed

lemma push_cases:
  assumes inv: "slot_inv trains frames r" and fr: "frames (of_id f) = Some (f, fec)"
    and B: "block_count trains f \<le> 255" "b < block_count trains f" "i < k_of trains f b + m_of trains f fec b"
  shows "(too_old r (of_id f) \<and> (\<exists>r'. push r stale (wire_body trains f fec b i) now = (r', []) \<and>
        slots r' = slots r \<and> base r' = base r \<and> next_id r' = next_id r \<and> stage r' = stage r)) \<or>
    (\<not> too_old r (of_id f) \<and> (\<exists>r1 es r2 es2. opened_for trains frames f fec r r1 es \<and>
        take_shard r1 (data_header trains f fec b i) (fields_of trains f fec b i) = (r2, es2) \<and>
        push r stale (wire_body trains f fec b i) now = (r2, es @ es2) \<and>
        (case slots r ! (unat (of_id f) mod 32) of
           Some a \<Rightarrow> if a_id a = of_id f then slots r1 = slots r
             else slots r1 ! (unat (of_id f) mod 32) = Some (new_assembly (data_header trains f fec b i) (shard_size trains f) now stale)
         | None \<Rightarrow> slots r1 ! (unat (of_id f) mod 32) = Some (new_assembly (data_header trains f fec b i) (shard_size trains f) now stale))))"
proof -
  let ?h = "data_header trains f fec b i" and ?p = "fields_of trains f fec b i" and ?s = "unat (of_id f) mod 32"
  let ?body = "wire_body trains f fec b i"
  note hf = header_fields [OF B]
  define r0 where "r0 = note_train (r\<lparr>rstats := (rstats r)\<lparr>st_bytes := st_bytes (rstats r) + of_nat (length ?body)\<rparr>\<rparr>) ?h (length ?body) now"
  define r1 where "r1 = r0\<lparr>rstats := (rstats r0)\<lparr>st_shards := st_shards (rstats r0) + 1\<rparr>\<rparr>"
  have same: "slots r0 = slots r" "base r0 = base r" "next_id r0 = next_id r" "stage r0 = stage r"
    "slots r1 = slots r" "base r1 = base r" "next_id r1 = next_id r" "stage r1 = stage r"
    by (simp_all add: r0_def r1_def)
  have P: "push r stale ?body now =
      (if too_old r (of_id f) then (r0, [])
       else if (case slots r1 ! ?s of None \<Rightarrow> True | Some a \<Rightarrow> a_id a \<noteq> of_id f) then
         let (r, evs) = make_room r1 (of_id f) in
         if unat (frame_len ?h) > block_count trains f * 64 * length ?p then (r, evs)
         else let r = r\<lparr>slots := (slots r)[?s := Some (new_assembly ?h (length ?p) now stale)]\<rparr>;
                  (r, evs') = take_shard r ?h ?p
              in (r, evs @ evs')
       else take_shard r1 ?h ?p)"
    unfolding push_def wire_body_read option.case Let_def if_not_P [OF shard_not_refused [OF B]] r0_def [symmetric] r1_def [symmetric]
      hf MAX_IN_FLIGHT_def MAX_BLOCK_DATA_def
    by (simp add: too_old_def same(2))
  have len: "unat (frame_len ?h) = length (of_data f)" "length ?p = shard_size trains f"
    using frame_len_small(2) [OF B(1)] length_fields_of [OF B(2,3)] by (simp_all add: data_header_fields unat_of_nat)
  have fitsin: "\<not> unat (frame_len ?h) > block_count trains f * 64 * length ?p"
    using frame_len_small(1) [OF B(1)] by (simp add: len)
  have L: "length (slots r) = 32" using inv by (simp add: slot_inv_def)
  have s32: "?s < 32" by simp
  show ?thesis
  proof (cases "too_old r (of_id f)")
    case True
    then show ?thesis using P same by auto
  next
    case young: False
    show ?thesis
    proof (cases "case slots r1 ! ?s of None \<Rightarrow> True | Some a \<Rightarrow> a_id a \<noteq> of_id f")
      case True
      obtain r2 es where mr: "make_room r1 (of_id f) = (r2, es)" by fastforce
      note sp = make_room_spec [OF mr]
      define r3 where "r3 = r2\<lparr>slots := (slots r2)[?s := Some (new_assembly ?h (shard_size trains f) now stale)]\<rparr>"
      obtain r4 es4 where ts: "take_shard r3 ?h ?p = (r4, es4)" by fastforce
      have push: "push r stale ?body now = (r4, es @ es4)"
        using P young True mr fitsin ts by (simp add: len r3_def)
      have newok: "asm_ok trains f fec (stage r) (\<lambda>_. {}) None (new_assembly ?h (shard_size trains f) now stale)"
        by (rule new_assembly_ok [OF B])
      have nid: "a_id (new_assembly ?h (shard_size trains f) now stale) = of_id f"
        "a_blocks_done (new_assembly ?h (shard_size trains f) now stale) < length (a_blocks (new_assembly ?h (shard_size trains f) now stale))"
        using B hf by (simp_all add: new_assembly_def)
      have "slot_inv trains frames r3"
      proof (rule slot_invI [OF inv])
        show "length (slots r3) = 32" "stage r3 = stage r" using sp same L by (simp_all add: r3_def)
        fix k a assume k: "k < 32" "slots r3 ! k = Some a"
        show "slots r ! k = Some a \<or> unat (a_id a) mod 32 = k \<and> (\<exists>f fec arr. frames (a_id a) = Some (f, fec) \<and>
            asm_ok trains f fec (stage r) arr None a \<and> a_blocks_done a < length (a_blocks a))"
        proof (cases "k = ?s")
          case True
          then have "a = new_assembly ?h (shard_size trains f) now stale" using k sp(2) same L by (simp add: r3_def)
          then show ?thesis using newok nid fr True by auto
        next
          case False
          then have "slots r2 ! k = Some a" using k by (simp add: r3_def)
          then show ?thesis using sp(3) same L k by force
        qed
      qed
      moreover have "slots r3 ! ?s = Some (new_assembly ?h (shard_size trains f) now stale)"
        using sp(2) same L by (simp add: r3_def)
      ultimately have "opened_for trains frames f fec r r3 es"
        unfolding opened_for_def using sp(1,4) same nid(1) by (auto simp: r3_def Let_def)
      with ts push young True \<open>slots r3 ! ?s = _\<close> show ?thesis
        by (intro disjI2) (auto simp: same split: option.splits)
    next
      case False
      then obtain a where a: "slots r1 ! ?s = Some a" "a_id a = of_id f" by (auto split: option.splits)
      obtain r4 es4 where ts: "take_shard r1 ?h ?p = (r4, es4)" by fastforce
      have push: "push r stale ?body now = (r4, [] @ es4)" using P young a ts by simp
      have "slot_inv trains frames r1" using inv by (simp add: slot_inv_def same)
      then have "opened_for trains frames f fec r r1 []"
        unfolding opened_for_def using a same by (cases "base r") (auto simp: Let_def)
      with ts push young a show ?thesis
        by (intro disjI2 conjI young exI [of _ r1], intro exI [of _ "[]"] exI [of _ r4] exI [of _ es4]) (simp add: same)
    qed
  qed
qed

text \<open>After the shard is stored the slots are as before, and a finished frame matches what was sent.\<close>

lemma take_shard_inv:
  assumes op: "opened_for trains frames f fec r r1 es" and wf: "wf_frames trains frames" and fr: "frames (of_id f) = Some (f, fec)"
    and B: "b < block_count trains f" "i < k_of trains f b + m_of trains f fec b"
    and ts: "take_shard r1 (data_header trains f fec b i) (fields_of trains f fec b i) = (r2, es2)"
  shows "slot_inv trains frames r2 \<and> stage r2 = stage r1 \<and>
    (es2 = [] \<and> next_id r2 = next_id r1 \<and> base r2 = base r1 \<or>
     (\<exists>g. frame_matches frames g \<and> if_id g = of_id f \<and> next_id r2 = Some (of_id f + 1) \<and> base r2 = Some (of_id f + 1) \<and>
       es2 = (let nx = (case next_id r1 of None \<Rightarrow> of_id f | Some n \<Rightarrow> n) in
         if of_id f \<noteq> nx then [Lost nx (of_id f - 1)] else []) @ [Frame g]))"
proof -
  let ?s = "unat (of_id f) mod 32"
  have inv: "slot_inv trains frames r1" using op by (simp add: opened_for_def)
  obtain a where a: "slots r1 ! ?s = Some a" "a_id a = of_id f" using op by (auto simp: opened_for_def)
  have s: "?s < length (slots r1)" "?s < 32" using inv by (simp_all add: slot_inv_def)
  obtain arr where ok: "asm_ok trains f fec (stage r1) arr None a" "a_blocks_done a < length (a_blocks a)"
    using inv a s(2) fr unfolding slot_inv_def by (metis option.inject prod.inject)
  have upd: "slot_inv trains frames (r1\<lparr>slots := (slots r1)[?s := Some a'], rstats := st\<rparr>)"
    if "asm_ok trains f fec (stage r1) arr' None a'" "a_blocks_done a' < length (a_blocks a')" for a' st arr'
  proof (rule slot_invI [OF inv])
    fix k x assume k: "k < 32" "slots (r1\<lparr>slots := (slots r1)[?s := Some a'], rstats := st\<rparr>) ! k = Some x"
    have "a_id a' = of_id f" using that(1) by (simp add: asm_ok_def asm_meta_def)
    with k s that fr show "slots r1 ! k = Some x \<or> unat (a_id x) mod 32 = k \<and> (\<exists>f fec arr. frames (a_id x) = Some (f, fec) \<and>
        asm_ok trains f fec (stage r1) arr None x \<and> a_blocks_done x < length (a_blocks x))"
      by (cases "k = ?s") auto
  qed (use s inv in \<open>simp_all add: slot_inv_def\<close>)
  from take_shard_cases [OF a(1) s(1) ok B] show ?thesis
  proof (elim disjE exE conjE)
    fix a' st
    assume "take_shard r1 (data_header trains f fec b i) (fields_of trains f fec b i) = (r1\<lparr>slots := (slots r1)[?s := Some a'], rstats := st\<rparr>, [])"
      "asm_ok trains f fec (stage r1) (arr(b := insert i (arr b))) None a'" "a_blocks_done a' < length (a_blocks a')"
    with ts upd show ?thesis by auto
  next
    fix a' st
    let ?r = "r1\<lparr>slots := (slots r1)[?s := Some a'], rstats := st\<rparr>"
    assume c: "take_shard r1 (data_header trains f fec b i) (fields_of trains f fec b i) = complete ?r (of_id f)"
      and ok': "asm_ok trains f fec (stage r1) (arr(b := insert i (arr b))) None a'" "\<not> a_blocks_done a' < length (a_blocks a')"
    have id: "a_id a' = of_id f" using ok'(1) by (simp add: asm_ok_def asm_meta_def)
    have sl: "slots ?r ! ?s = Some a'" "?s < length (slots ?r)" using s by simp_all
    have cc: "complete ?r (of_id f) = (r2, es2)" using c ts by simp
    note sp = complete_spec [OF sl id cc]
    have "slot_inv trains frames r2"
    proof (rule slot_invI [OF inv])
      show "length (slots r2) = 32" "stage r2 = stage r1" using sp(3,4) inv by (simp_all add: slot_inv_def)
      fix k x assume k: "k < 32" "slots r2 ! k = Some x"
      then have "k \<noteq> ?s" using sp(6) by auto
      moreover have "k < length (slots r1)" using k inv by (simp add: slot_inv_def)
      ultimately have "slots r1 ! k = Some x" using sp(5) k(2) by force
      then show "slots r1 ! k = Some x \<or> unat (a_id x) mod 32 = k \<and> (\<exists>f fec arr. frames (a_id x) = Some (f, fec) \<and>
          asm_ok trains f fec (stage r1) arr None x \<and> a_blocks_done x < length (a_blocks x))" by blast
    qed
    moreover have "frame_matches frames (frame_of a')" using frame_of_matches [of frames, OF fr ok'] .
    ultimately show ?thesis using sp(1,2,3,7) id by (intro conjI disjI2 exI [of _ "frame_of a'"]) (simp_all add: frame_of_def)
  qed
qed

lemma sent_bodyE:
  assumes "sent_body trains frames body" "wf_frames trains frames"
  obtains f fec b i where "frames (of_id f) = Some (f, fec)" "block_count trains f \<le> 255" "b < block_count trains f"
    "i < k_of trains f b + m_of trains f fec b" "body = wire_body trains f fec b i"
proof -
  obtain k f fec bodies where 1: "frames k = Some (f, fec)" "packetize trains f fec = Some bodies" "body \<in> set bodies"
    using assms(1) by (auto simp: sent_body_def)
  note pb = packetize_bodies [OF 1(2)]
  obtain b i where bi: "b < block_count trains f" "i < k_of trains f b + m_of trains f fec b" "body = wire_body trains f fec b i"
    using 1(3) pb(2) by auto
  have "of_id f = k" using assms(2) 1(1) by (auto simp: wf_frames_def)
  then show thesis using that [of f fec b i] 1(1) pb(1) bi by simp
qed

text \<open>The frame ids an event reports.\<close>

fun covers :: "event \<Rightarrow> nat list" where
  "covers (Frame g) = [unat (if_id g)]"
| "covers (Lost a b) = [unat a..<Suc (unat b)]"

definition order_inv :: "reassembler \<Rightarrow> event list \<Rightarrow> bool" where
  "order_inv r es \<longleftrightarrow>
     (case next_id r of
        None \<Rightarrow> es = []
      | Some n \<Rightarrow> base r = Some n \<and> (\<exists>s \<le> unat n. concat (map covers es) = [s..<unat n])) \<and>
     (case base r of None \<Rightarrow> True | Some b \<Rightarrow> unat b \<le> 2 ^ 31)"

definition small_ids :: "sent_frames \<Rightarrow> bool" where
  "small_ids frames \<longleftrightarrow> (\<forall>i. frames i \<noteq> None \<longrightarrow> unat i < 2 ^ 31)"

lemma young_ge:
  assumes "\<not> too_old r fid" "base r = Some b" "unat b \<le> 2 ^ 31" "unat fid < 2 ^ 31"
  shows "unat b \<le> unat fid"
proof (rule ccontr)
  assume lt: "\<not> unat b \<le> unat fid"
  have "unat (fid - b) = 2 ^ 32 + unat fid - unat b"
    using lt unat_sub_if' [of fid b] by simp
  then have "unat (fid - b) > 0x7FFFFFFF" using assms(3,4) lt by simp
  then show False using assms(1,2) by (simp add: too_old_def word_less_nat_alt)
qed

lemma unat_minus_small: "(k :: u32) \<le> x \<Longrightarrow> unat (x - k) = unat x - unat k"
  by (simp add: unat_sub)

lemma covers_Lost: "a < b \<Longrightarrow> covers (Lost a (b - 1)) = [unat a..<unat b]"
proof -
  assume "a < b"
  then have lt: "unat a < unat b" by (simp add: word_less_nat_alt)
  then have "1 \<le> b" by (simp add: word_le_nat_alt)
  then have "unat (b - 1) = unat b - 1" by (simp add: unat_sub)
  then have "Suc (unat (b - 1)) = unat b" using lt by simp
  then show ?thesis by (simp only: covers.simps)
qed

lemma upt_append: "i \<le> j \<Longrightarrow> j \<le> k \<Longrightarrow> [i..<j] @ [j..<k] = [i..<k]"
  using upt_add_eq_append [of i j "k - j"] by simp

lemma open_order:
  assumes oi: "order_inv r es" and young: "\<not> too_old r (of_id f)" and id: "unat (of_id f) < 2 ^ 31"
    and op: "opened_for trains frames f fec r r1 es1"
  shows "order_inv r1 (es @ es1)" "\<forall>n. next_id r1 = Some n \<longrightarrow> unat n \<le> unat (of_id f)"
proof -
  let ?b = "case base r of None \<Rightarrow> of_id f | Some b \<Rightarrow> b"
  have b: "unat ?b \<le> unat (of_id f)"
    using young_ge [OF young _ _ id] oi by (auto simp: order_inv_def split: option.splits)
  have bn: "n = ?b" if "next_id r = Some n" for n using oi that by (simp add: order_inv_def)
  from op have "(es1 = [] \<and> next_id r1 = next_id r \<and> (base r1 = Some ?b \<or> base r1 = base r) \<or>
       of_id f - ?b \<ge> 32 \<and> next_id r1 = Some (of_id f - 31) \<and> base r1 = Some (of_id f - 31) \<and>
       es1 = [Lost (case next_id r of None \<Rightarrow> ?b | Some n \<Rightarrow> n) (of_id f - 31 - 1)])"
    by (simp add: opened_for_def Let_def)
  then have "order_inv r1 (es @ es1) \<and> (\<forall>n. next_id r1 = Some n \<longrightarrow> unat n \<le> unat (of_id f))"
  proof (elim disjE conjE)
    assume 1: "es1 = []" "next_id r1 = next_id r" "base r1 = Some ?b"
    then show ?thesis using oi b bn id by (auto simp: order_inv_def split: option.splits)
  next
    assume 1: "es1 = []" "next_id r1 = next_id r" "base r1 = base r"
    then show ?thesis using oi b bn id by (auto simp: order_inv_def split: option.splits)
  next
    assume 1: "of_id f - ?b \<ge> 32" "next_id r1 = Some (of_id f - 31)" "base r1 = Some (of_id f - 31)"
      "es1 = [Lost (case next_id r of None \<Rightarrow> ?b | Some n \<Rightarrow> n) (of_id f - 31 - 1)]"
    have nx: "(case next_id r of None \<Rightarrow> ?b | Some n \<Rightarrow> n) = ?b" using bn by (cases "next_id r") auto
    have "?b \<le> of_id f" using b by (simp add: word_le_nat_alt)
    then have "unat (of_id f - ?b) = unat (of_id f) - unat ?b" by (rule unat_minus_small)
    then have ge: "unat ?b + 32 \<le> unat (of_id f)" using 1(1) by (simp add: word_le_nat_alt)
    then have u: "unat (of_id f - 31) = unat (of_id f) - 31" by (intro unat_minus_small [of 31, simplified]) (simp add: word_le_nat_alt)
    then have "?b < of_id f - 31" using ge by (simp add: word_less_nat_alt)
    then have c: "covers (Lost ?b (of_id f - 31 - 1)) = [unat ?b..<unat (of_id f - 31)]" by (rule covers_Lost)
    obtain s where s: "s \<le> unat ?b" "concat (map covers es) = [s..<unat ?b]"
    proof (cases "next_id r")
      case None
      then have "es = []" using oi by (simp add: order_inv_def)
      then show thesis using that [of "unat ?b"] by simp
    next
      case (Some n)
      then show thesis using oi that bn [OF Some] by (auto simp: order_inv_def)
    qed
    have "concat (map covers (es @ es1)) = [s..<unat ?b] @ [unat ?b..<unat (of_id f - 31)]"
      using s(2) c by (simp only: 1(4) nx map_append concat_append) simp
    also have "\<dots> = [s..<unat (of_id f - 31)]" by (rule upt_append) (use s(1) ge u in auto)
    finally show ?thesis using 1(2,3) u id s(1) ge unfolding order_inv_def
      by (simp only: option.case) (intro conjI exI [of _ s]; simp)
  qed
  then show "order_inv r1 (es @ es1)" "\<forall>n. next_id r1 = Some n \<longrightarrow> unat n \<le> unat (of_id f)" by blast+
qed

lemma complete_order:
  assumes oi: "order_inv r es" "\<forall>n. next_id r = Some n \<longrightarrow> unat n \<le> unat fid" and id: "unat fid < 2 ^ 31" and g: "if_id g = fid"
    and r2: "next_id r2 = Some (fid + 1)" "base r2 = Some (fid + 1)"
    and es2: "es2 = (let nx = (case next_id r of None \<Rightarrow> fid | Some n \<Rightarrow> n) in if fid \<noteq> nx then [Lost nx (fid - 1)] else []) @ [Frame g]"
  shows "order_inv r2 (es @ es2)"
proof -
  let ?nx = "case next_id r of None \<Rightarrow> fid | Some n \<Rightarrow> n"
  have u: "unat (fid + 1) = unat fid + 1" using id by (simp add: unat_word_ariths)
  have nx: "unat ?nx \<le> unat fid" using oi(2) by (cases "next_id r") auto
  have c: "concat (map covers es2) = [unat ?nx..<unat (fid + 1)]"
  proof (cases "fid = ?nx")
    case True
    then show ?thesis by (simp add: es2 Let_def g u)
  next
    case False
    then have lt: "?nx < fid" using nx by (metis le_neq_implies_less word_less_nat_alt word_unat_eq_iff)
    then have "concat (map covers es2) = [unat ?nx..<unat fid] @ [unat fid]"
      using covers_Lost [OF lt] False by (simp add: es2 Let_def g del: covers.simps) (simp add: g)
    also have "\<dots> = [unat ?nx..<unat (fid + 1)]" using nx by (simp add: u)
    finally show ?thesis .
  qed
  obtain s where s: "s \<le> unat ?nx" "concat (map covers es) = [s..<unat ?nx]"
  proof (cases "next_id r")
    case None
    then have "es = []" using oi by (simp add: order_inv_def)
    then show thesis using that [of "unat ?nx"] by simp
  next
    case (Some n)
    then show thesis using oi that by (auto simp: order_inv_def)
  qed
  have "concat (map covers (es @ es2)) = [s..<unat ?nx] @ [unat ?nx..<unat (fid + 1)]" using s c by simp
  also have "\<dots> = [s..<unat (fid + 1)]" by (rule upt_append) (use s nx u in auto)
  finally show ?thesis using r2 s nx u id unfolding order_inv_def
    by (simp only: option.case) (intro conjI exI [of _ s]; simp)
qed

lemma push_all_append:
  "push_all r (xs @ ys) = (let (r1, es) = push_all r xs; (r2, es') = push_all r1 ys in (r2, es @ es'))"
proof (induction xs arbitrary: r)
  case (Cons x xs)
  obtain st b now where "x = (st, b, now)" by (cases x)
  with Cons show ?case by (simp add: split_beta Let_def)
qed simp

lemma push_all_snoc:
  "push_all r (xs @ [(stale, body, now)]) =
     (fst (push (fst (push_all r xs)) stale body now), snd (push_all r xs) @ snd (push (fst (push_all r xs)) stale body now))"
  by (simp add: push_all_append split_beta Let_def)

definition start :: "bool \<Rightarrow> reassembler" where
  "start on = stage_shards new_reassembler on"

lemma start_inv: "slot_inv trains frames (start on)" "order_inv (start on) []"
  by (simp_all add: start_def stage_shards_def new_reassembler_def slot_inv_def order_inv_def MAX_IN_FLIGHT_def)

lemma run_inv:
  assumes wf: "wf_frames trains frames" and sent: "\<forall>(stale, body, now) \<in> set xs. sent_body trains frames body"
  shows "slot_inv trains frames (fst (push_all (start on) xs)) \<and>
    (\<forall>g. Frame g \<in> set (snd (push_all (start on) xs)) \<longrightarrow> frame_matches frames g) \<and>
    (small_ids frames \<longrightarrow> order_inv (fst (push_all (start on) xs)) (snd (push_all (start on) xs)))"
  using sent
proof (induction xs rule: rev_induct)
  case Nil
  then show ?case using start_inv by simp
next
  case (snoc x xs)
  obtain stale body now where x: "x = (stale, body, now)" by (cases x)
  define r es where "r = fst (push_all (start on) xs)" and "es = snd (push_all (start on) xs)"
  have IH: "slot_inv trains frames r" "\<forall>g. Frame g \<in> set es \<longrightarrow> frame_matches frames g"
    "small_ids frames \<Longrightarrow> order_inv r es" using snoc by (simp_all add: r_def es_def)
  have "sent_body trains frames body" using snoc.prems x by simp
  then obtain f fec b i where bd: "frames (of_id f) = Some (f, fec)" "block_count trains f \<le> 255" "b < block_count trains f"
    "i < k_of trains f b + m_of trains f fec b" "body = wire_body trains f fec b i" using wf by (rule sent_bodyE)
  obtain r' es' where push: "push r stale body now = (r', es')" by fastforce
  have "slot_inv trains frames r' \<and> (\<forall>g. Frame g \<in> set es' \<longrightarrow> frame_matches frames g) \<and>
    (small_ids frames \<longrightarrow> order_inv r' (es @ es'))"
    using push_cases [OF IH(1) bd(1-4), of stale now]
  proof (elim disjE conjE exE)
    fix r2
    assume 1: "push r stale (wire_body trains f fec b i) now = (r2, [])" "slots r2 = slots r" "base r2 = base r"
      "next_id r2 = next_id r" "stage r2 = stage r"
    have "r' = r2" "es' = []" using push 1(1) by (simp_all add: bd(5))
    moreover have "slot_inv trains frames r2" using IH(1) 1 by (simp add: slot_inv_def)
    moreover have "order_inv r2 es \<longleftrightarrow> order_inv r es" by (simp only: order_inv_def 1)
    ultimately show ?thesis using IH(3) by simp
  next
    fix r1 es1 r2 es2
    assume young: "\<not> too_old r (of_id f)" and op: "opened_for trains frames f fec r r1 es1"
      and ts: "take_shard r1 (data_header trains f fec b i) (fields_of trains f fec b i) = (r2, es2)"
      and pu: "push r stale (wire_body trains f fec b i) now = (r2, es1 @ es2)"
    have r': "r' = r2" "es' = es1 @ es2" using push pu by (simp_all add: bd(5))
    have nof: "Frame g \<notin> set es1" for g using op by (auto simp: opened_for_def Let_def)
    from take_shard_inv [OF op wf bd(1,3,4) ts] show ?thesis
    proof (elim conjE disjE exE)
      assume 1: "slot_inv trains frames r2" "es2 = []" "next_id r2 = next_id r1" "base r2 = base r1"
      have "order_inv r2 (es @ es1)" if "small_ids frames"
      proof -
        have "unat (of_id f) < 2 ^ 31" using that bd(1) by (simp add: small_ids_def)
        from open_order(1) [OF IH(3) [OF that] young this op] show ?thesis by (simp only: order_inv_def 1(3,4))
      qed
      then show ?thesis using 1 r' nof by auto
    next
      fix g
      assume 1: "slot_inv trains frames r2" "frame_matches frames g" "if_id g = of_id f"
        "next_id r2 = Some (of_id f + 1)" "base r2 = Some (of_id f + 1)"
        "es2 = (let nx = (case next_id r1 of None \<Rightarrow> of_id f | Some n \<Rightarrow> n) in
           if of_id f \<noteq> nx then [Lost nx (of_id f - 1)] else []) @ [Frame g]"
      have "order_inv r2 ((es @ es1) @ es2)" if "small_ids frames"
      proof -
        have id: "unat (of_id f) < 2 ^ 31" using that bd(1) by (simp add: small_ids_def)
        note oo = open_order [OF IH(3) [OF that] young id op]
        show ?thesis by (rule complete_order [OF oo id 1(3,4,5,6)])
      qed
      then show ?thesis using 1 r' nof by (auto simp: Let_def split: if_splits)
    qed
  qed
  then show ?case unfolding x push_all_snoc r_def [symmetric] es_def [symmetric] push using IH(2) by auto
qed

section \<open>One frame, enough shards\<close>

definition arrived_of :: "bool \<Rightarrow> out_frame \<Rightarrow> rat \<Rightarrow> arrival list \<Rightarrow> nat \<Rightarrow> nat set" where
  "arrived_of trains f fec xs b =
     {i. i < k_of trains f b + m_of trains f fec b \<and> wire_body trains f fec b i \<in> (\<lambda>(stale, body, now). body) ` set xs}"

lemma wire_body_inj:
  assumes "block_count trains f \<le> 255" "b < block_count trains f" "i < k_of trains f b + m_of trains f fec b"
    "b' < block_count trains f" "i' < k_of trains f b' + m_of trains f fec b'"
    "wire_body trains f fec b i = wire_body trains f fec b' i'"
  shows "b = b' \<and> i = i'"
proof -
  have "data_header trains f fec b i = data_header trains f fec b' i'"
    using wire_body_read(1) [of trains f fec b i] wire_body_read(1) [of trains f fec b' i'] assms(6) by simp
  then show ?thesis using header_fields(3,4) [OF assms(1,2,3)] header_fields(3,4) [OF assms(1,4,5)] by simp
qed

definition waiting :: "bool \<Rightarrow> out_frame \<Rightarrow> rat \<Rightarrow> (nat \<Rightarrow> nat set) \<Rightarrow> reassembler \<Rightarrow> bool" where
  "waiting trains f fec arr r \<longleftrightarrow> next_id r = None \<and>
     (case slots r ! (unat (of_id f) mod 32) of
        None \<Rightarrow> base r = None \<and> (\<forall>b < block_count trains f. arr b = {})
      | Some a \<Rightarrow> a_id a = of_id f \<and> (base r = None \<or> base r = Some (of_id f)) \<and> asm_ok trains f fec (stage r) arr None a \<and>
          a_blocks_done a < length (a_blocks a))"

lemma asm_ok_cong:
  assumes "\<And>b. b < block_count trains f \<Longrightarrow> arr b = arr' b"
  shows "asm_ok trains f fec stg arr ex a = asm_ok trains f fec stg arr' ex a"
  using assms by (simp add: asm_ok_def)

lemma waiting_step:
  assumes inv: "slot_inv trains frames r" and w: "waiting trains f fec arr r" and wf: "wf_frames trains frames"
    and fr: "frames (of_id f) = Some (f, fec)"
    and B: "block_count trains f \<le> 255" "b < block_count trains f" "i < k_of trains f b + m_of trains f fec b"
    and push: "push r stale (wire_body trains f fec b i) now = (r', es)"
  defines "arr' \<equiv> arr(b := insert i (arr b))"
  shows "\<not> all_full trains f arr' \<and> es = [] \<and> waiting trains f fec arr' r' \<or>
    all_full trains f arr' \<and> (\<exists>g. es = [Frame g] \<and> frame_matches frames g \<and> if_id g = of_id f) \<and> base r' = Some (of_id f + 1)"
proof -
  let ?s = "unat (of_id f) mod 32" and ?new = "new_assembly (data_header trains f fec b i) (shard_size trains f) now stale"
  have base: "base r = None \<or> base r = Some (of_id f)" using w by (auto simp: waiting_def split: option.splits)
  then have young: "\<not> too_old r (of_id f)" by (auto simp: too_old_def)
  from push_cases [OF inv fr B, of stale now] young obtain r1 es1 r2 es2 where
    op: "opened_for trains frames f fec r r1 es1"
    and ts: "take_shard r1 (data_header trains f fec b i) (fields_of trains f fec b i) = (r2, es2)"
    and pu: "push r stale (wire_body trains f fec b i) now = (r2, es1 @ es2)"
    and sl: "case slots r ! ?s of Some a \<Rightarrow> if a_id a = of_id f then slots r1 = slots r else slots r1 ! ?s = Some ?new
         | None \<Rightarrow> slots r1 ! ?s = Some ?new" by blast
  have nx: "next_id r = None" using w by (simp add: waiting_def)
  have "of_id f - (case base r of None \<Rightarrow> of_id f | Some b \<Rightarrow> b) = 0" using base by auto
  then have o: "es1 = []" "next_id r1 = None" "base r1 = None \<or> base r1 = Some (of_id f)" "stage r1 = stage r" "slot_inv trains frames r1"
    using op nx base by (auto simp: opened_for_def Let_def)
  obtain a where a: "slots r1 ! ?s = Some a" "asm_ok trains f fec (stage r1) arr None a" "a_blocks_done a < length (a_blocks a)"
  proof (cases "slots r ! ?s")
    case None
    then have "\<forall>b < block_count trains f. arr b = {}" using w by (simp add: waiting_def)
    then have "asm_ok trains f fec (stage r1) arr None ?new"
      using new_assembly_ok [OF B, of "stage r1" now stale] asm_ok_cong [of trains f arr "\<lambda>_. {}"] by simp
    moreover have "a_blocks_done ?new < length (a_blocks ?new)" using B header_fields(5) [OF B] by (simp add: new_assembly_def)
    ultimately show thesis using that sl None by simp
  next
    case (Some a)
    then show thesis using that [of a] sl w o(4) by (simp add: waiting_def)
  qed
  have s: "?s < length (slots r1)" using o(5) by (simp add: slot_inv_def)
  have r': "r' = r2" "es = es2" using push pu o(1) by simp_all
  from take_shard_cases [OF a(1) s a(2,3) B(2,3)] show ?thesis
  proof (elim disjE exE conjE)
    fix a' st
    assume 1: "take_shard r1 (data_header trains f fec b i) (fields_of trains f fec b i) = (r1\<lparr>slots := (slots r1)[?s := Some a'], rstats := st\<rparr>, [])"
      "asm_ok trains f fec (stage r1) (arr(b := insert i (arr b))) None a'" "a_blocks_done a' < length (a_blocks a')"
      "\<not> all_full trains f (arr(b := insert i (arr b)))"
    have "a_id a' = of_id f" using 1(2) by (simp add: asm_ok_def asm_meta_def)
    then have "waiting trains f fec arr' r2" using 1 ts o s by (auto simp: waiting_def arr'_def)
    then show ?thesis using 1 ts r' by (simp add: arr'_def)
  next
    fix a' st
    let ?r = "r1\<lparr>slots := (slots r1)[?s := Some a'], rstats := st\<rparr>"
    assume 1: "take_shard r1 (data_header trains f fec b i) (fields_of trains f fec b i) = complete ?r (of_id f)"
      "asm_ok trains f fec (stage r1) (arr(b := insert i (arr b))) None a'" "\<not> a_blocks_done a' < length (a_blocks a')"
      "all_full trains f (arr(b := insert i (arr b)))"
    have id: "a_id a' = of_id f" using 1(2) by (simp add: asm_ok_def asm_meta_def)
    have cc: "complete ?r (of_id f) = (r2, es2)" using 1(1) ts by simp
    have "slots ?r ! ?s = Some a'" "?s < length (slots ?r)" using s by simp_all
    note sp = complete_spec [OF this id cc]
    have "es2 = [Frame (frame_of a')]" using sp(7) o(2) by simp
    moreover have "frame_matches frames (frame_of a')" using frame_of_matches [of frames, OF fr 1(2,3)] .
    ultimately show ?thesis using sp(2) 1(4) r' id by (simp add: arr'_def frame_of_def)
  qed
qed

lemma arrived_of_snoc:
  assumes "block_count trains f \<le> 255" "b < block_count trains f" "i < k_of trains f b + m_of trains f fec b" "c < block_count trains f"
  shows "arrived_of trains f fec (xs @ [(stale, wire_body trains f fec b i, now)]) c
    = ((arrived_of trains f fec xs)(b := insert i (arrived_of trains f fec xs b))) c"
proof -
  define S where "S = (\<lambda>(stale :: bytes, body :: bytes, now :: u64). body) ` set xs"
  have e: "(\<lambda>(stale, body, now). body) ` set (xs @ [(stale, wire_body trains f fec b i, now)]) = insert (wire_body trains f fec b i) S"
    by (simp add: S_def)
  have inj: "j < k_of trains f c + m_of trains f fec c \<Longrightarrow> wire_body trains f fec c j = wire_body trains f fec b i \<longleftrightarrow> c = b \<and> j = i" for j
    using wire_body_inj [OF assms(1,4) _ assms(2,3)] by blast
  show ?thesis
  proof (rule set_eqI)
    fix j
    show "j \<in> arrived_of trains f fec (xs @ [(stale, wire_body trains f fec b i, now)]) c \<longleftrightarrow>
        j \<in> ((arrived_of trains f fec xs)(b := insert i (arrived_of trains f fec xs b))) c"
      unfolding arrived_of_def e S_def [symmetric] using inj [of j] assms(3) by (cases "c = b") auto
  qed
qed

lemma all_full_cong: "(\<And>b. b < block_count trains f \<Longrightarrow> arr b = arr' b) \<Longrightarrow> all_full trains f arr = all_full trains f arr'"
  by (simp add: all_full_def)

lemma waiting_cong:
  assumes "\<And>b. b < block_count trains f \<Longrightarrow> arr b = arr' b"
  shows "waiting trains f fec arr r = waiting trains f fec arr' r"
  using assms asm_ok_cong [of trains f arr arr', OF assms] by (auto simp: waiting_def split: option.split)

lemma block_count_pos: "0 < block_count trains f"
  unfolding block_count_def by (rule div_ceil_pos) (simp_all add: MAX_BLOCK_DATA_def shard_facts(3))

lemma one_frame_run:
  assumes pk: "packetize trains f fec = Some bodies" and xs: "\<forall>(stale, body, now) \<in> set xs. body \<in> set bodies"
  defines "fam \<equiv> [of_id f \<mapsto> (f, fec)]"
  shows "if all_full trains f (arrived_of trains f fec xs)
    then (\<exists>g. snd (push_all (start on) xs) = [Frame g] \<and> frame_matches fam g \<and> if_id g = of_id f) \<and>
      base (fst (push_all (start on) xs)) = Some (of_id f + 1)
    else snd (push_all (start on) xs) = [] \<and> waiting trains f fec (arrived_of trains f fec xs) (fst (push_all (start on) xs))"
  using xs
proof (induction xs rule: rev_induct)
  case Nil
  have "\<not> all_full trains f (arrived_of trains f fec [])"
    using block_count_pos [of trains f] k_of_bounds(1) [OF block_count_pos, of trains f] by (auto simp: all_full_def arrived_of_def)
  moreover have "waiting trains f fec (arrived_of trains f fec []) (start on)"
    by (simp add: waiting_def start_def stage_shards_def new_reassembler_def MAX_IN_FLIGHT_def arrived_of_def)
  ultimately show ?case by simp
next
  case (snoc x xs)
  obtain stale body now where x: "x = (stale, body, now)" by (cases x)
  have wf: "wf_frames trains fam" using pk by (simp add: wf_frames_def fam_def)
  have fr: "fam (of_id f) = Some (f, fec)" by (simp add: fam_def)
  have sent: "\<forall>(stale, body, now) \<in> set xs. sent_body trains fam body"
    using snoc.prems pk fr by (fastforce simp: sent_body_def)
  define r where "r = fst (push_all (start on) xs)"
  have inv: "slot_inv trains fam r" using run_inv [OF wf sent] by (simp add: r_def)
  note pb = packetize_bodies [OF pk]
  have "body \<in> set bodies" using snoc.prems x by simp
  then obtain b i where bi: "b < block_count trains f" "i < k_of trains f b + m_of trains f fec b" "body = wire_body trains f fec b i"
    using pb(2) by auto
  obtain r' es' where push: "push r stale (wire_body trains f fec b i) now = (r', es')" by fastforce
  let ?arr = "arrived_of trains f fec xs" and ?arr' = "arrived_of trains f fec (xs @ [x])"
  define arr1 where "arr1 = ?arr(b := insert i (?arr b))"
  have arr: "?arr' c = arr1 c" if "c < block_count trains f" for c
    using arrived_of_snoc [OF pb(1) bi(1,2) that] by (simp add: x bi(3) arr1_def)
  note cong = all_full_cong [of trains f ?arr' arr1, OF arr] waiting_cong [of trains f ?arr' arr1, OF arr]
  have res: "push_all (start on) (xs @ [x]) = (r', snd (push_all (start on) xs) @ es')"
    using push by (simp add: x push_all_snoc r_def [symmetric] bi(3))
  have IH: "if all_full trains f ?arr
    then (\<exists>g. snd (push_all (start on) xs) = [Frame g] \<and> frame_matches fam g \<and> if_id g = of_id f) \<and> base r = Some (of_id f + 1)
    else snd (push_all (start on) xs) = [] \<and> waiting trains f fec ?arr r"
    using snoc by (simp add: r_def)
  show ?case
  proof (cases "all_full trains f ?arr")
    case True
    have "card (?arr c) \<le> card (arr1 c)" for c
      by (rule card_mono) (auto simp: arr1_def arrived_of_def)
    then have "all_full trains f arr1" using True by (meson all_full_def le_trans)
    moreover have "base r = Some (of_id f + 1)" using IH True by simp
    then have "too_old r (of_id f)" by (simp add: too_old_def)
    then have "es' = [] \<and> base r' = base r" using push_cases [OF inv fr pb(1) bi(1,2), of stale now] push by auto
    ultimately show ?thesis using IH True by (simp add: res cong)
  next
    case False
    then have w: "waiting trains f fec ?arr r" and e: "snd (push_all (start on) xs) = []" using IH by simp_all
    from waiting_step [OF inv w wf fr pb(1) bi(1,2) push] show ?thesis
      unfolding arr1_def [symmetric] by (auto simp: res cong e)
  qed
qed

section \<open>Properties\<close>

text \<open>
  C3. Frames come out intact: whatever bodies of however many sent frames arrive, lost,
  repeated, reordered or interleaved, and whatever the reused buffers held before, every frame the
  reassembler delivers has exactly the bytes, flags and times of the frame sent under its id.
\<close>

theorem frames_intact:
  assumes "wf_frames trains frames" "\<forall>(stale, body, now) \<in> set xs. sent_body trains frames body"
    and "Frame g \<in> set (snd (push_all (start on) xs))"
  shows "frame_matches frames g"
  using run_inv [OF assms(1,2), of on] assms(3) by blast

text \<open>
  C11. Every frame is accounted for once, in order: with ids below 2^31, the ids the
  events report (a delivered frame's, or the range of a loss) are one ascending run without
  gap or repeat.
\<close>

theorem events_account_in_order:
  assumes "wf_frames trains frames" "small_ids frames" "\<forall>(stale, body, now) \<in> set xs. sent_body trains frames body"
  shows "\<exists>first last. concat (map covers (snd (push_all (start on) xs))) = [first..<last]"
proof -
  have "order_inv (fst (push_all (start on) xs)) (snd (push_all (start on) xs))"
    using run_inv [OF assms(1,3), of on] assms(2) by blast
  then show ?thesis
  proof (cases "next_id (fst (push_all (start on) xs))")
    case None
    then have "snd (push_all (start on) xs) = []"
      using \<open>order_inv _ _\<close> by (simp add: order_inv_def)
    then show ?thesis by (intro exI [of _ 0]) simp
  next
    case (Some n)
    then show ?thesis using \<open>order_inv _ _\<close> by (auto simp: order_inv_def)
  qed
qed


text \<open>A three-byte frame: one shard, no parity.\<close>

definition tiny_frame :: out_frame where
  "tiny_frame = \<lparr>of_id = 5, of_data = [10, 20, 30], of_keyframe = True, of_ltr = False, of_recovery = False,
     of_capture_us = 7, of_encode_us = 2, of_probe = False\<rparr>"

definition tiny_body :: bytes where
  "tiny_body = wire_body True tiny_frame 0 0 0"

lemma tiny_layout: "layout True tiny_frame = (1, 3)"
  by (simp add: layout_def layout_of_def tiny_frame_def MAX_SHARD_val div_ceil_def)

lemma tiny_counts:
  "shard_count True tiny_frame = 1" "block_count True tiny_frame = 1" "k_of True tiny_frame 0 = 1" "m_of True tiny_frame 0 0 = 0"
proof -
  show c: "shard_count True tiny_frame = 1" by (simp add: shard_count_def tiny_layout)
  show "block_count True tiny_frame = 1" by (simp add: block_count_def c div_ceil_def MAX_BLOCK_DATA_def)
  show k: "k_of True tiny_frame 0 = 1" by (simp add: k_of_def c block_k_def MAX_BLOCK_DATA_def)
  show "m_of True tiny_frame 0 0 = 0" by (simp add: m_of_def c k parity_count_def) (simp add: tiny_frame_def)
qed

lemma tiny_packetize: "packetize True tiny_frame 0 = Some [tiny_body]"
proof -
  have d: "packetize_data True tiny_frame 0 = Some [tiny_body]"
    by (simp add: packetize_data_bodies tiny_counts tiny_body_def)
  have "parity [tiny_body] = Some []"
    using parity_bodies_eq [of True tiny_frame 0 0] by (simp add: tiny_counts tiny_body_def)
  with d show ?thesis by (simp add: packetize_def)
qed

definition tiny_frames :: sent_frames where
  "tiny_frames = [5 \<mapsto> (tiny_frame, 0)]"

lemma tiny_wf: "wf_frames True tiny_frames"
  by (simp add: wf_frames_def tiny_frames_def tiny_packetize) (simp add: tiny_frame_def)

lemma tiny_sent: "sent_body True tiny_frames tiny_body"
  unfolding sent_body_def tiny_frames_def
  by (intro exI [of _ 5] exI [of _ tiny_frame] exI [of _ 0] exI [of _ "[tiny_body]"]) (simp add: tiny_packetize)

lemma tiny_full: "all_full True tiny_frame (arrived_of True tiny_frame 0 [([9], tiny_body, 100)])"
proof -
  have "arrived_of True tiny_frame 0 [([9], tiny_body, 100)] 0 = {0}"
    by (auto simp: arrived_of_def tiny_counts tiny_body_def)
  then show ?thesis by (simp add: all_full_def tiny_counts)
qed

theorem frames_intact_witness:
  "\<exists>g. Frame g \<in> set (snd (push_all (start False) [([9], tiny_body, 100)])) \<and> frame_matches tiny_frames g"
proof -
  obtain g where "Frame g \<in> set (snd (push_all (start False) [([9], tiny_body, 100)]))"
    using one_frame_run [OF tiny_packetize, of "[([9], tiny_body, 100)]" False] tiny_full by (auto simp del: push_all.simps)
  with frames_intact [OF tiny_wf _ this] tiny_sent show ?thesis by (auto simp del: push_all.simps)
qed

theorem events_account_in_order_witness:
  "\<exists>first last. concat (map covers (snd (push_all (start False) [([9], tiny_body, 100)]))) = [first..<last]"
  by (rule events_account_in_order [OF tiny_wf]) (simp_all add: small_ids_def tiny_frames_def tiny_sent [unfolded tiny_frames_def])


end
