(* ===== verification/Reorder.thy ===== *)
theory Reorder
  imports Prelude "HOL-Library.AList"
begin

text \<open>
  The reorder buffer both in-order channels keep (\<open>rdp-hyper/reliable.rs\<close>'s \<open>Receiver\<close> and
  \<open>rdp-pdu/rdpudp.rs\<close>'s \<open>Connection\<close>): a cumulative sequence number and a \<open>BTreeMap\<close> of what
  arrived ahead of it, drained while the next number is there. A \<open>BTreeMap\<close> is an association
  list read through \<open>map_of\<close>; sequence numbers wrap at 32 bits.
\<close>

section \<open>Sequence numbers below the wrap\<close>

lemma unat_of_nat_u32: "n < 2 ^ 32 \<Longrightarrow> unat (of_nat n :: u32) = n"
  by (simp add: unat_of_nat)

lemma of_nat_eq_u32: "a < 2 ^ 32 \<Longrightarrow> b < 2 ^ 32 \<Longrightarrow> (of_nat a :: u32) = of_nat b \<longleftrightarrow> a = b"
  using unat_of_nat_u32 [of a] unat_of_nat_u32 [of b] by metis

lemma sint_diff_u32:
  assumes "a < 2 ^ 31" "b < 2 ^ 31"
  shows "sint (of_nat a - of_nat b :: u32) = int a - int b"
proof -
  have "(of_nat a - of_nat b :: u32) = word_of_int (int a - int b)" by simp
  then have "sint (of_nat a - of_nat b :: u32) = signed_take_bit 31 (int a - int b)"
    by (simp only: signed_of_int) simp
  also have "\<dots> = int a - int b" using assms by (intro signed_take_bit_int_eq_self) auto
  finally show ?thesis .
qed

lemma unat_diff_u32:
  assumes "b \<le> a" "a < 2 ^ 32"
  shows "unat (of_nat a - of_nat b :: u32) = a - b"
proof -
  have "(of_nat a - of_nat b :: u32) = of_nat (a - b)" using assms by (simp add: of_nat_diff)
  then show ?thesis using assms unat_of_nat_u32 [of "a - b"] by (simp only:)
qed

section \<open>Draining\<close>

text \<open>\<open>while let Some(x) = pending.remove(&cum.wrapping_add(1)) { cum = cum + 1; body }\<close>\<close>

lemma length_delete_less: "map_of p k = Some x \<Longrightarrow> length (AList.delete k p) < length p"
proof (induction p)
  case (Cons a p)
  then show ?case
    using AList.length_delete_le [of k p] by (cases a) (auto split: if_splits)
qed simp

function drain :: "('a \<Rightarrow> 's \<Rightarrow> 's) \<Rightarrow> u32 \<Rightarrow> (u32 \<times> 'a) list \<Rightarrow> 's \<Rightarrow> u32 \<times> (u32 \<times> 'a) list \<times> 's" where
  "drain f cum p st =
     (case map_of p (cum + 1) of
        None \<Rightarrow> (cum, p, st)
      | Some x \<Rightarrow> drain f (cum + 1) (AList.delete (cum + 1) p) (f x st))"
  by pat_completeness auto
termination
  by (relation "measure (\<lambda>(f, cum, p, st). length p)") (auto simp: length_delete_less)

declare drain.simps [simp del]

text \<open>\<open>entry(k).or_insert_with(...)\<close>\<close>

definition or_insert :: "'k \<Rightarrow> 'v \<Rightarrow> ('k \<times> 'v) list \<Rightarrow> ('k \<times> 'v) list" where
  "or_insert k v p = (if map_of p k = None then (k, v) # p else p)"

lemma map_of_or_insert: "map_of (or_insert k v p) = (if map_of p k = None then (map_of p)(k \<mapsto> v) else map_of p)"
  by (auto simp: or_insert_def)

text \<open>
  \<open>holds all c p\<close>: \<open>p\<close> buffers items of the sender's stream \<open>all\<close> under their numbers (item
  \<open>i\<close> has number \<open>i + 1\<close>), none of them among the first \<open>c\<close>.
\<close>

definition holds :: "'a list \<Rightarrow> nat \<Rightarrow> (u32 \<times> 'a) list \<Rightarrow> bool" where
  "holds all c p \<longleftrightarrow>
     (\<forall>k x. map_of p k = Some x \<longrightarrow> c < unat k \<and> unat k \<le> length all \<and> x = all ! (unat k - 1))"

text \<open>Item \<open>i\<close> has been received: delivered or buffered.\<close>

definition has :: "nat \<Rightarrow> (u32 \<times> 'a) list \<Rightarrow> nat \<Rightarrow> bool" where
  "has c p i \<longleftrightarrow> i < c \<or> map_of p (of_nat (Suc i)) \<noteq> None"

lemma holds_append: "holds all c p \<Longrightarrow> holds (all @ more) c p"
  by (fastforce simp: holds_def nth_append)

lemma holds_Nil [simp]: "holds all c []"
  by (simp add: holds_def)

lemma holds_insert:
  assumes "holds all c p" "c \<le> i" "i < length all" "length all < 2 ^ 32"
  shows "holds all c (or_insert (of_nat (Suc i)) (all ! i) p)"
  using assms by (auto simp: holds_def map_of_or_insert unat_of_nat_u32 simp del: of_nat_Suc)

lemma has_insert:
  assumes "i < n" "j < n" "n < 2 ^ 32"
  shows "has c (or_insert (of_nat (Suc i)) x p) j \<longleftrightarrow> has c p j \<or> j = i"
proof -
  have "(of_nat (Suc j) :: u32) = of_nat (Suc i) \<longleftrightarrow> j = i"
    using assms of_nat_eq_u32 [of "Suc j" "Suc i"] by simp
  then show ?thesis by (auto simp: has_def map_of_or_insert simp del: of_nat_Suc)
qed

lemma drain_spec:
  assumes "holds all c p" "c \<le> length all" "length all < 2 ^ 32 - 1"
  shows "\<exists>c' p'. c \<le> c' \<and> c' \<le> length all \<and> holds all c' p' \<and>
      drain f (of_nat c) p st = (of_nat c', p', fold f (drop c (take c' all)) st) \<and>
      map_of p' (of_nat (Suc c')) = None \<and>
      (\<forall>i < length all. has c' p' i = has c p i)"
  using assms
proof (induction "length p" arbitrary: c p st rule: less_induct)
  case less
  show ?case
  proof (cases "map_of p (of_nat (Suc c))")
    case None
    then have "drain f (of_nat c) p st = (of_nat c, p, st)" by (subst drain.simps) (simp add: add.commute)
    with None less.prems show ?thesis by (intro exI [of _ c] exI [of _ p]) simp
  next
    case (Some x)
    let ?p = "AList.delete (of_nat (Suc c)) p"
    have k: "unat (of_nat (Suc c) :: u32) = Suc c"
      using less.prems by (intro unat_of_nat_u32) simp
    have x: "c < length all" "x = all ! c" using less.prems(1) Some k by (force simp: holds_def)+
    have mo: "map_of ?p j = (if j = of_nat (Suc c) then None else map_of p j)" for j
      by (simp add: AList.delete_conv')
    have h: "holds all (Suc c) ?p"
      unfolding holds_def
    proof (intro allI impI)
      fix j y assume j: "map_of ?p j = Some y"
      then have "j \<noteq> of_nat (Suc c)" "map_of p j = Some y"
        unfolding mo by (simp_all only: split: if_splits) simp_all
      moreover have "unat j \<noteq> Suc c" using \<open>j \<noteq> _\<close> k by (metis word_unat_eq_iff)
      ultimately show "Suc c < unat j \<and> unat j \<le> length all \<and> y = all ! (unat j - 1)"
        using less.prems(1) by (fastforce simp: holds_def)
    qed
    have st: "drain f (of_nat c) p st = drain f (of_nat (Suc c)) ?p (f x st)"
      using Some by (subst drain.simps) (simp add: add.commute)
    have hs: "has (Suc c) ?p i = has c p i" if "i < length all" for i
    proof (cases "i = c")
      case True
      then show ?thesis using Some by (simp add: has_def del: of_nat_Suc)
    next
      case False
      have "(of_nat (Suc i) :: u32) \<noteq> of_nat (Suc c)"
        using False that less.prems of_nat_eq_u32 [of "Suc i" "Suc c"] by simp
      then show ?thesis using False by (auto simp: has_def mo simp del: of_nat_Suc)
    qed
    obtain c' p' where *: "Suc c \<le> c'" "c' \<le> length all" "holds all c' p'"
      "drain f (of_nat (Suc c)) ?p (f x st) = (of_nat c', p', fold f (drop (Suc c) (take c' all)) (f x st))"
      "map_of p' (of_nat (Suc c')) = None" "\<forall>i < length all. has c' p' i = has (Suc c) ?p i"
      using less.hyps [OF length_delete_less [OF Some] h] x less.prems by (metis Suc_leI)
    have "drop c (take c' all) = x # drop (Suc c) (take c' all)"
      using x * by (subst Cons_nth_drop_Suc [symmetric]) auto
    with * st hs show ?thesis
      by (intro exI [of _ c'] exI [of _ p']) (simp del: of_nat_Suc)
  qed
qed

end
