(* ===== verification/Reliable.thy ===== *)
theory Reliable
  imports Complex_Main "HOL-Library.Option_ord" "HOL-Library.Sublist" Reorder Wire
begin

text \<open>
  The reliable channel of \<open>crates/rdp-hyper/src/reliable.rs\<close>: \<open>Sender\<close> (chunking, congestion
  window, loss detection, pacing) and \<open>Receiver\<close> (in-order delivery, acks). An \<open>Instant\<close> and a
  \<open>Duration\<close> are nanoseconds (\<open>nat\<close>; \<open>duration_since\<close> saturates at zero, as Rust's does), the
  \<open>f64\<close>s of the congestion window and the pacing bucket are exact rationals (an unpaced rate,
  \<open>f64::INFINITY\<close>, is \<open>None\<close>), and counters that only grow (\<open>tx\<close>, \<open>retries\<close>, statistics)
  are \<open>nat\<close>. Sequence numbers keep their 32 bits. A \<open>VecDeque\<close> is a list.
\<close>

section \<open>Sender\<close>

definition MAX_CHUNK :: nat where "MAX_CHUNK = MAX_BODY - 16"
definition SPAN :: u32 where "SPAN = 256"
definition BITMAP_BYTES :: nat where "BITMAP_BYTES = 32"
definition WIDE_SPAN :: u32 where "WIDE_SPAN = 4096"
definition WIDE_BITMAP_BYTES :: nat where "WIDE_BITMAP_BYTES = 512"

definition millis :: "nat \<Rightarrow> nat" where "millis n = n * 1000000"
definition MIN_RTO :: nat where "MIN_RTO = millis 40"
definition MAX_RTO :: nat where "MAX_RTO = millis 1000"
definition INITIAL_RTO :: nat where "INITIAL_RTO = millis 200"
definition CWND_MIN :: rat where "CWND_MIN = 4"
definition CWND_START :: rat where "CWND_START = 32"
definition REORDER :: nat where "REORDER = 3"
definition QUEUE_LIMIT :: nat where "QUEUE_LIMIT = millis 25"
definition MIN_RTT_WINDOW :: nat where "MIN_RTT_WINDOW = millis 10000"
definition TOLERANT_MIN_RTO :: nat where "TOLERANT_MIN_RTO = millis 200"
definition TYPE_DATA :: u8 where "TYPE_DATA = 1"
definition TYPE_ACK :: u8 where "TYPE_ACK = 2"

record chunk =
  seq :: u32
  body :: bytes
  sent :: "nat option"
  tx :: nat
  retries :: nat
  acked :: bool
  lost :: bool

definition in_flight :: "chunk \<Rightarrow> bool" where
  "in_flight c \<longleftrightarrow> sent c \<noteq> None \<and> \<not> acked c \<and> \<not> lost c"

datatype cut = CutTimeout | CutLoss | CutDelay

record sender_counts =
  cuts_timeout :: nat
  cuts_loss :: nat
  cuts_delay :: nat
  resent :: nat

record sender =
  next_seq :: u32
  queue :: "chunk list"
  backlog_bytes :: nat
  next_tx :: nat
  acked_tx :: nat
  recovery_tx :: nat
  srtt :: "nat option"
  rttvar :: nat
  tolerant :: bool
  stats :: sender_counts
  min_rtt :: "(nat \<times> nat) option"
  queue_limit :: nat
  cwnd :: rat
  ssthresh :: rat
  wide :: bool
  rate_bps :: "rat option"
  tokens :: rat
  last_refill :: "nat option"

definition new_sender :: sender where
  "new_sender =
     \<lparr>next_seq = 1, queue = [], backlog_bytes = 0, next_tx = 1, acked_tx = 0, recovery_tx = 0,
      srtt = None, rttvar = 0, tolerant = False,
      stats = \<lparr>cuts_timeout = 0, cuts_loss = 0, cuts_delay = 0, resent = 0\<rparr>,
      min_rtt = None, queue_limit = QUEUE_LIMIT, cwnd = CWND_START, ssthresh = 4096, wide = False,
      rate_bps = None, tokens = 0, last_refill = None\<rparr>"

definition set_rate :: "sender \<Rightarrow> u64 option \<Rightarrow> sender" where
  "set_rate s bps = s\<lparr>rate_bps := map_option (\<lambda>b. of_nat (unat (max b 64000))) bps\<rparr>"

definition set_queue_limit :: "sender \<Rightarrow> nat \<Rightarrow> sender" where
  "set_queue_limit s limit = s\<lparr>queue_limit := limit\<rparr>"

definition set_jitter_tolerant :: "sender \<Rightarrow> bool \<Rightarrow> sender" where
  "set_jitter_tolerant s on = s\<lparr>tolerant := on\<rparr>"

text \<open>The loop of \<open>send\<close>: one queued chunk per piece, the last one marked.\<close>

definition data_body :: "u32 \<Rightarrow> bool \<times> bytes \<Rightarrow> bytes" where
  "data_body sq piece = TYPE_DATA # u32_le sq @ of_bool_u8 (fst piece) # snd piece"

definition send_chunk :: "bool \<times> bytes \<Rightarrow> sender \<Rightarrow> sender" where
  "send_chunk piece s =
     (let b = data_body (next_seq s) piece in
      s\<lparr>backlog_bytes := backlog_bytes s + length b,
        queue := queue s @ [\<lparr>seq = next_seq s, body = b, sent = None, tx = 0, retries = 0,
                            acked = False, lost = False\<rparr>],
        next_seq := next_seq s + 1\<rparr>)"

definition pieces :: "bytes \<Rightarrow> (bool \<times> bytes) list" where
  "pieces msg =
     (let chunks = (if msg = [] then [[]] else chunks_of MAX_CHUNK msg); last = length chunks - 1
      in map (\<lambda>(i, c). (i = last, c)) (enumerate 0 chunks))"

definition send :: "sender \<Rightarrow> bytes \<Rightarrow> sender" where
  "send s msg = fold send_chunk (pieces msg) s"

definition clamp :: "nat \<Rightarrow> nat \<Rightarrow> nat \<Rightarrow> nat" where
  "clamp x lo hi = (if x < lo then lo else if x > hi then hi else x)"

definition rto :: "sender \<Rightarrow> nat" where
  "rto s =
     (if tolerant s then
        (case srtt s of None \<Rightarrow> INITIAL_RTO
         | Some r \<Rightarrow> clamp (r + rttvar s * 4 + millis 10) TOLERANT_MIN_RTO MAX_RTO)
      else
        (case srtt s of None \<Rightarrow> INITIAL_RTO
         | Some r \<Rightarrow> clamp (r * 2 + millis 10) MIN_RTO MAX_RTO))"

definition span :: "sender \<Rightarrow> u32" where
  "span s = (if wide s then WIDE_SPAN else SPAN)"

text \<open>\<open>window\<close> yields the leading chunks within the span; the callers change them in place.\<close>

definition front_seq :: "chunk list \<Rightarrow> u32" where
  "front_seq q = (case q of [] \<Rightarrow> 0 | c # _ \<Rightarrow> seq c)"

definition on_window :: "u32 \<Rightarrow> (chunk list \<Rightarrow> chunk list) \<Rightarrow> chunk list \<Rightarrow> chunk list" where
  "on_window sp f q =
     f (takeWhile (\<lambda>c. seq c - front_seq q < sp) q) @ dropWhile (\<lambda>c. seq c - front_seq q < sp) q"

definition window :: "u32 \<Rightarrow> chunk list \<Rightarrow> chunk list" where
  "window sp q = takeWhile (\<lambda>c. seq c - front_seq q < sp) q"

definition on_congestion :: "sender \<Rightarrow> nat \<Rightarrow> cut \<Rightarrow> sender" where
  "on_congestion s t cause =
     (if t \<ge> recovery_tx s then
        let half = max (cwnd s / 2) CWND_MIN;
            st = stats s
        in s\<lparr>ssthresh := half, cwnd := half, recovery_tx := next_tx s,
             stats := (case cause of
                 CutTimeout \<Rightarrow> st\<lparr>cuts_timeout := cuts_timeout st + 1\<rparr>
               | CutLoss \<Rightarrow> st\<lparr>cuts_loss := cuts_loss st + 1\<rparr>
               | CutDelay \<Rightarrow> st\<lparr>cuts_delay := cuts_delay st + 1\<rparr>)\<rparr>
      else s)"

definition refill :: "sender \<Rightarrow> nat \<Rightarrow> sender" where
  "refill s now =
     (case rate_bps s of
        None \<Rightarrow> s
      | Some rate \<Rightarrow>
          let dt = (case last_refill s of None \<Rightarrow> 0 | Some t \<Rightarrow> of_nat (now - t) / 1000000000);
              cap = max (rate / 8 * (2 / 100)) (2 * of_nat MAX_DATAGRAM)
          in s\<lparr>tokens := min (tokens s + dt * rate / 8) cap, last_refill := Some now\<rparr>)"

definition timed_out :: "nat \<Rightarrow> nat \<Rightarrow> chunk \<Rightarrow> bool" where
  "timed_out rt now c =
     (case sent c of None \<Rightarrow> False | Some t \<Rightarrow> now - t \<ge> rt * 2 ^ min (retries c) 4)"

definition expire :: "nat \<Rightarrow> nat \<Rightarrow> chunk \<Rightarrow> chunk" where
  "expire rt now c = (if in_flight c \<and> timed_out rt now c then c\<lparr>lost := True\<rparr> else c)"

definition max_tx :: "(chunk \<Rightarrow> bool) \<Rightarrow> chunk list \<Rightarrow> nat option" where
  "max_tx P cs = fold (\<lambda>c m. if P c then max m (Some (tx c)) else m) cs None"

record poll_state =
  p_flight :: rat
  p_tokens :: rat
  p_tx :: nat
  p_resent :: nat

text \<open>The sending loop: \<open>break\<close> keeps the remaining chunks as they are.\<close>

fun poll_loop :: "nat \<Rightarrow> rat \<Rightarrow> bool \<Rightarrow> poll_state \<Rightarrow> chunk list \<Rightarrow> chunk list \<times> poll_state \<times> bytes list" where
  "poll_loop now cw paced p [] = ([], p, [])"
| "poll_loop now cw paced p (c # cs) =
     (if acked c \<or> sent c \<noteq> None \<and> \<not> lost c then
        (let (cs', p', out) = poll_loop now cw paced p cs in (c # cs', p', out))
      else if p_flight p \<ge> cw then (c # cs, p, [])
      else if paced \<and> p_tokens p < of_nat (length (body c)) then (c # cs, p, [])
      else
        let again = (sent c \<noteq> None);
            c' = c\<lparr>retries := retries c + (if again then 1 else 0), lost := False, sent := Some now, tx := p_tx p\<rparr>;
            p = \<lparr>p_flight = p_flight p + 1,
                 p_tokens = (if paced then p_tokens p - of_nat (length (body c)) else p_tokens p),
                 p_tx = p_tx p + 1, p_resent = p_resent p + (if again then 1 else 0)\<rparr>;
            (cs', p', out) = poll_loop now cw paced p cs
        in (c' # cs', p', body c # out))"

definition poll :: "sender \<Rightarrow> nat \<Rightarrow> sender \<times> bytes list" where
  "poll s now =
     (let s = refill s now;
          rt = rto s;
          sp = span s;
          due = (\<lambda>c. in_flight c \<and> timed_out rt now c);
          flight = of_nat (length (filter (\<lambda>c. in_flight c \<and> \<not> timed_out rt now c) (window sp (queue s))));
          lost_tx = max_tx due (window sp (queue s));
          s = s\<lparr>queue := on_window sp (map (expire rt now)) (queue s)\<rparr>;
          s = (case lost_tx of None \<Rightarrow> s | Some t \<Rightarrow> on_congestion s t CutTimeout);
          (w, p, out) = poll_loop now (cwnd s) (rate_bps s \<noteq> None)
            \<lparr>p_flight = flight, p_tokens = tokens s, p_tx = next_tx s, p_resent = 0\<rparr>
            (window sp (queue s))
      in (s\<lparr>queue := on_window sp (\<lambda>_. w) (queue s), tokens := p_tokens p, next_tx := p_tx p,
            stats := (stats s)\<lparr>resent := resent (stats s) + p_resent p\<rparr>\<rparr>, out))"

definition parse_ack :: "bytes \<Rightarrow> (u32 \<times> bytes) option" where
  "parse_ack b =
     (if index_get b 0 \<noteq> Some TYPE_ACK \<or> length b < 5 + BITMAP_BYTES then None
      else Some (u32_of_le (take 4 (drop 1 b)), drop 5 (take (min (length b) (5 + WIDE_BITMAP_BYTES)) b)))"

text \<open>What the \<open>take\<close> closure of \<open>on_ack\<close> accumulates.\<close>

record ack_acc =
  newly :: nat
  a_tx :: nat
  sample :: "(nat \<times> nat) option"

definition take_ack :: "nat \<Rightarrow> chunk \<Rightarrow> ack_acc \<Rightarrow> ack_acc" where
  "take_ack now c a =
     (if acked c then a
      else case sent c of
        None \<Rightarrow> a
      | Some t \<Rightarrow>
          let a = a\<lparr>newly := newly a + 1\<rparr> in
          if retries c = 0 then
            a\<lparr>a_tx := max (a_tx a) (tx c),
              sample := (if (case sample a of None \<Rightarrow> True | Some (_, t') \<Rightarrow> tx c > t')
                         then Some (now - t, tx c) else sample a)\<rparr>
          else a)"

text \<open>Cumulative part: the queue's front is popped while it is at or below \<open>cum\<close>.\<close>

fun pop_cum :: "u32 \<Rightarrow> nat \<Rightarrow> chunk list \<Rightarrow> nat \<Rightarrow> ack_acc \<Rightarrow> chunk list \<times> nat \<times> ack_acc" where
  "pop_cum cum now [] bb a = ([], bb, a)"
| "pop_cum cum now (c # cs) bb a =
     (if sint (seq c - cum) \<le> 0 then pop_cum cum now cs (bb - length (body c)) (take_ack now c a)
      else (c # cs, bb, a))"

definition bit_set :: "bytes \<Rightarrow> nat \<Rightarrow> bool" where
  "bit_set bits i = (bits ! (i div 8) AND push_bit (i mod 8) 1 \<noteq> 0)"

text \<open>Selective part: bit \<open>i\<close> names the chunk \<open>cum + 1 + i\<close>, indexed from the front.\<close>

definition select_one :: "u32 \<Rightarrow> bytes \<Rightarrow> nat \<Rightarrow> u32 \<Rightarrow> nat \<Rightarrow> chunk list \<times> ack_acc \<Rightarrow> chunk list \<times> ack_acc" where
  "select_one cum bits now front i qa =
     (let q = fst qa; a = snd qa; sq = cum + 1 + of_nat i; pos = unat (sq - front) in
      if \<not> bit_set bits i then qa
      else if pos < length q \<and> seq (q ! pos) = sq then
        (q[pos := (q ! pos)\<lparr>acked := True, lost := False\<rparr>], take_ack now (q ! pos) a)
      else qa)"

definition select_acks :: "u32 \<Rightarrow> bytes \<Rightarrow> nat \<Rightarrow> u32 \<Rightarrow> chunk list \<times> ack_acc \<Rightarrow> chunk list \<times> ack_acc" where
  "select_acks cum bits now sp qa =
     (case fst qa of
        [] \<Rightarrow> qa
      | c # _ \<Rightarrow> fold (select_one cum bits now (seq c)) [0..<min (length bits * 8) (unat sp)] qa)"

definition overtaken :: "nat \<Rightarrow> chunk \<Rightarrow> bool" where
  "overtaken atx c \<longleftrightarrow> in_flight c \<and> tx c + REORDER \<le> atx"

definition abs_diff :: "nat \<Rightarrow> nat \<Rightarrow> nat" where
  "abs_diff a b = (if a > b then a - b else b - a)"

text \<open>The round-trip estimate, and whether the sample says a queue is building.\<close>

definition on_sample :: "sender \<Rightarrow> nat \<times> nat \<Rightarrow> nat \<Rightarrow> sender \<times> nat option" where
  "on_sample s sm now =
     (let (rtt, t) = sm;
          s = (case srtt s of
                 Some r \<Rightarrow> s\<lparr>rttvar := (rttvar s * 3 + abs_diff rtt r) div 4\<rparr>
               | None \<Rightarrow> s\<lparr>rttvar := rtt div 2\<rparr>);
          s = s\<lparr>srtt := Some (case srtt s of Some r \<Rightarrow> (r * 7 + rtt) div 8 | None \<Rightarrow> rtt)\<rparr>;
          judged = (if tolerant s then (case srtt s of Some r \<Rightarrow> r | None \<Rightarrow> rtt) else rtt)
      in case min_rtt s of
           Some (m, since) \<Rightarrow>
             if rtt \<ge> m \<and> now - since < MIN_RTT_WINDOW then
               (s, if judged > m + queue_limit s then Some t else None)
             else (s\<lparr>min_rtt := Some (rtt, now)\<rparr>, None)
         | None \<Rightarrow> (s\<lparr>min_rtt := Some (rtt, now)\<rparr>, None))"

definition span_rat :: "sender \<Rightarrow> rat" where
  "span_rat s = of_nat (unat (span s))"

text \<open>The end of \<open>on_ack\<close>: cut or grow the window.\<close>

definition adjust :: "sender \<Rightarrow> nat option \<Rightarrow> nat option \<Rightarrow> nat \<Rightarrow> sender" where
  "adjust s lost_tx queued_tx nw =
     (let cause = (if lost_tx \<ge> queued_tx then CutLoss else CutDelay) in
      case max lost_tx queued_tx of
        Some t \<Rightarrow> on_congestion s t cause
      | None \<Rightarrow>
          if nw > 0 then
            let grow = (if cwnd s < ssthresh s then of_nat nw else of_nat nw / cwnd s) in
            s\<lparr>cwnd := min (cwnd s + grow) (span_rat s)\<rparr>
          else s)"

fun pop_acked :: "chunk list \<Rightarrow> nat \<Rightarrow> chunk list \<times> nat" where
  "pop_acked [] bb = ([], bb)"
| "pop_acked (c # cs) bb = (if acked c then pop_acked cs (bb - length (body c)) else (c # cs, bb))"

text \<open>\<open>on_ack\<close> after its two early returns.\<close>

definition fold_ack :: "sender \<Rightarrow> u32 \<Rightarrow> bytes \<Rightarrow> nat \<Rightarrow> sender" where
  "fold_ack s cum bits now =
     (let (q, bb, a) = pop_cum cum now (queue s) (backlog_bytes s)
                         \<lparr>newly = 0, a_tx = acked_tx s, sample = None\<rparr>;
          (q, a) = select_acks cum bits now (span s) (q, a);
          atx = a_tx a;
          lost_tx = max_tx (overtaken atx) (window (span s) q);
          q = on_window (span s) (map (\<lambda>c. if overtaken atx c then c\<lparr>lost := True\<rparr> else c)) q;
          s = s\<lparr>queue := q, backlog_bytes := bb, acked_tx := atx\<rparr>;
          (s, queued_tx) = (case sample a of None \<Rightarrow> (s, None) | Some sm \<Rightarrow> on_sample s sm now);
          s = adjust s lost_tx queued_tx (newly a);
          (q, bb) = pop_acked (queue s) (backlog_bytes s)
      in s\<lparr>queue := q, backlog_bytes := bb\<rparr>)"

definition on_ack :: "sender \<Rightarrow> bytes \<Rightarrow> nat \<Rightarrow> sender" where
  "on_ack s b now =
     (case parse_ack b of
        None \<Rightarrow> s
      | Some (cum, bits) \<Rightarrow>
          let s = s\<lparr>wide := wide s \<or> length bits > BITMAP_BYTES\<rparr> in
          if sint (cum - next_seq s) \<ge> 0 then s else fold_ack s cum bits now)"

section \<open>Receiver\<close>

record receiver =
  cum :: u32
  pending :: "(u32 \<times> bool \<times> bytes) list"
  partial :: bytes
  oversize :: bool
  unacked :: nat
  first_unacked :: "nat option"
  urgent :: bool

definition MAX_MESSAGE :: nat where "MAX_MESSAGE = 268435456"
definition ACK_EVERY :: nat where "ACK_EVERY = 4"
definition ACK_DELAY :: nat where "ACK_DELAY = millis 5"

definition new_receiver :: receiver where
  "new_receiver = \<lparr>cum = 0, pending = [], partial = [], oversize = False, unacked = 0,
     first_unacked = None, urgent = False\<rparr>"

text \<open>What the drain loop's body changes: the message being assembled and the finished ones.\<close>

record assembly =
  a_partial :: bytes
  a_over :: bool
  a_done :: "bytes list"
  a_urgent :: bool

definition assemble :: "bool \<times> bytes \<Rightarrow> assembly \<Rightarrow> assembly" where
  "assemble x a =
     (let (last, data) = x;
          a = (if length (a_partial a) + length data > MAX_MESSAGE
               then a\<lparr>a_over := True, a_partial := []\<rparr> else a);
          a = (if \<not> a_over a then a\<lparr>a_partial := a_partial a @ data\<rparr> else a)
      in if last then
           a\<lparr>a_done := (if \<not> a_over a then a_done a @ [a_partial a] else a_done a),
             a_partial := [], a_over := False, a_urgent := True\<rparr>
         else a)"

definition on_data :: "receiver \<Rightarrow> bytes \<Rightarrow> nat \<Rightarrow> receiver \<times> bytes list" where
  "on_data r b now =
     (if index_get b 0 \<noteq> Some TYPE_DATA \<or> length b < 6 then (r, [])
      else
        let sq = u32_of_le (take 4 (drop 1 b));
            last = (b ! 5 \<noteq> 0);
            r = r\<lparr>unacked := unacked r + 1,
                  first_unacked := (case first_unacked r of None \<Rightarrow> Some now | Some t \<Rightarrow> Some t)\<rparr>;
            ahead = sq - cum r
        in if sint ahead \<le> 0 \<or> ahead > WIDE_SPAN then (r\<lparr>urgent := True\<rparr>, [])
           else
             let r = (if ahead \<noteq> 1 then r\<lparr>urgent := True\<rparr> else r);
                 p = or_insert sq (last, drop 6 b) (pending r);
                 (c, p, a) = drain assemble (cum r) p
                   \<lparr>a_partial = partial r, a_over = oversize r, a_done = [], a_urgent = urgent r\<rparr>
             in (r\<lparr>cum := c, pending := p, partial := a_partial a, oversize := a_over a,
                   urgent := a_urgent a\<rparr>, a_done a))"

definition ack_deadline :: "receiver \<Rightarrow> nat option" where
  "ack_deadline r =
     (case first_unacked r of
        None \<Rightarrow> None
      | Some first \<Rightarrow>
          if unacked r > 0 then
            Some (if urgent r \<or> unacked r \<ge> ACK_EVERY then first else first + ACK_DELAY)
          else None)"

text \<open>One key of the buffer: its bit after \<open>cum + 1\<close>, the bitmap grown to hold it.\<close>

definition mark_bit :: "u32 \<Rightarrow> u32 \<Rightarrow> bytes \<Rightarrow> bytes" where
  "mark_bit cm s bits =
     (let i = s - (cm + 1) in
      if i < WIDE_SPAN then
        let byte = unat (i div 8);
            bits = (if byte \<ge> length bits then bits @ replicate (byte + 1 - length bits) 0 else bits)
        in bits[byte := bits ! byte OR push_bit (unat (i mod 8)) 1]
      else bits)"

definition ack_bits :: "receiver \<Rightarrow> bytes" where
  "ack_bits r = fold (mark_bit (cum r)) (map fst (pending r)) (replicate (BITMAP_BYTES + 1) 0)"

definition ack :: "receiver \<Rightarrow> nat \<Rightarrow> receiver \<times> bytes option" where
  "ack r now =
     (if unacked r = 0 then (r, None)
      else
        let due = urgent r \<or> unacked r \<ge> ACK_EVERY \<or>
                  (case first_unacked r of None \<Rightarrow> False | Some t \<Rightarrow> now - t \<ge> ACK_DELAY)
        in if \<not> due then (r, None)
           else (r\<lparr>unacked := 0, first_unacked := None, urgent := False\<rparr>,
                 Some (TYPE_ACK # u32_le (cum r) @ ack_bits r)))"

section \<open>The stream of pieces\<close>

text \<open>All the pieces of the messages sent so far; piece \<open>i\<close> travels as number \<open>i + 1\<close>.\<close>

definition stream :: "bytes list \<Rightarrow> (bool \<times> bytes) list" where
  "stream msgs = concat (map pieces msgs)"

definition item :: "(bool \<times> bytes) list \<Rightarrow> nat \<Rightarrow> u32 \<times> bytes" where
  "item all i = (of_nat (Suc i), data_body (of_nat (Suc i)) (all ! i))"

definition shape :: "chunk \<Rightarrow> u32 \<times> bytes" where
  "shape c = (seq c, body c)"

definition bytes_of :: "chunk list \<Rightarrow> nat" where
  "bytes_of q = sum_list (map (\<lambda>c. length (body c)) q)"

text \<open>
  The sender's queue holds exactly the pieces from \<open>p\<close> on, numbered contiguously, the backlog
  counts their bytes, and only the first \<open>span\<close> of them were ever sent.
\<close>

definition sender_inv :: "(bool \<times> bytes) list \<Rightarrow> nat \<Rightarrow> sender \<Rightarrow> bool" where
  "sender_inv all p s \<longleftrightarrow>
     p \<le> length all \<and> next_seq s = of_nat (Suc (length all)) \<and>
     map shape (queue s) = map (item all) [p..<length all] \<and>
     backlog_bytes s = bytes_of (queue s) \<and> CWND_MIN \<le> cwnd s \<and> CWND_MIN \<le> ssthresh s \<and>
     (\<forall>i < length (queue s). sent (queue s ! i) \<noteq> None \<longrightarrow> i < unat (span s))"

lemma bytes_of_simps [simp]:
  "bytes_of [] = 0" "bytes_of (c # cs) = length (body c) + bytes_of cs" "bytes_of (q @ r) = bytes_of q + bytes_of r"
  by (simp_all add: bytes_of_def)

lemma bytes_of_shape: "map shape q = map shape r \<Longrightarrow> bytes_of q = bytes_of r"
proof -
  assume "map shape q = map shape r"
  then have "map (length \<circ> snd) (map shape q) = map (length \<circ> snd) (map shape r)" by (simp only:)
  then show ?thesis by (simp add: bytes_of_def shape_def comp_def)
qed

lemma item_snoc: "i < length all \<Longrightarrow> item (all @ xs) i = item all i"
  by (simp add: item_def nth_append)

lemma sender_inv_new: "sender_inv [] 0 new_sender"
  by (simp add: sender_inv_def new_sender_def CWND_MIN_def CWND_START_def)

lemma span_cases: "unat (span s) = (if wide s then 4096 else 256)"
  by (simp add: span_def WIDE_SPAN_def SPAN_def)

lemma sender_inv_send_chunk:
  assumes "sender_inv all p s"
  shows "sender_inv (all @ [x]) p (send_chunk x s)"
proof -
  have "map (item (all @ [x])) [p..<length all] = map (item all) [p..<length all]"
    by (rule map_cong) (simp_all add: item_snoc)
  then show ?thesis using assms
    by (auto simp: sender_inv_def send_chunk_def Let_def shape_def item_def nth_append span_def less_Suc_eq
        dest!: arg_cong [of "map shape _" _ length])
qed

lemma sender_inv_send:
  assumes "sender_inv all p s"
  shows "sender_inv (all @ pieces m) p (send s m)"
proof -
  have "sender_inv (all @ xs) p (fold send_chunk xs s)" for xs
    using assms
  proof (induction xs arbitrary: all s)
    case (Cons x xs)
    then show ?case using Cons.IH [OF sender_inv_send_chunk [OF Cons.prems]] by simp
  qed simp
  then show ?thesis by (simp add: send_def)
qed

section \<open>Polling keeps the queue's shape\<close>

lemma on_window_shape:
  assumes "\<And>cs. map shape (f cs) = map shape cs"
  shows "map shape (on_window sp f q) = map shape q"
proof -
  have "map shape (on_window sp f q) = map shape (takeWhile (\<lambda>c. seq c - front_seq q < sp) q @ dropWhile (\<lambda>c. seq c - front_seq q < sp) q)"
    unfolding on_window_def by (simp only: map_append assms)
  then show ?thesis by simp
qed

lemma shape_expire [simp]: "shape (expire rt now c) = shape c"
  by (simp add: expire_def shape_def)

lemma map_shape_expire: "map shape (map (expire rt now) cs) = map shape cs"
  by simp

lemma poll_loop_Cons:
  "poll_loop now cw paced p (c # cs) = (cs', p', out) \<Longrightarrow>
   (cs' = c # cs \<and> out = []) \<or>
   (\<exists>c1 p1 cs1 out1. poll_loop now cw paced p1 cs = (cs1, p', out1) \<and> cs' = c1 # cs1 \<and>
      shape c1 = shape c \<and> acked c1 = acked c \<and> (out = out1 \<or> out = body c # out1))"
proof -
  assume a: "poll_loop now cw paced p (c # cs) = (cs', p', out)"
  define c1 where "c1 = c\<lparr>retries := retries c + (if sent c \<noteq> None then 1 else 0), lost := False,
      sent := Some now, tx := p_tx p\<rparr>"
  define p1 where "p1 = \<lparr>p_flight = p_flight p + 1,
      p_tokens = (if paced then p_tokens p - of_nat (length (body c)) else p_tokens p),
      p_tx = p_tx p + 1, p_resent = p_resent p + (if sent c \<noteq> None then 1 else 0)\<rparr>"
  have c1: "shape c1 = shape c" "acked c1 = acked c" by (simp_all add: c1_def shape_def)
  consider (skip) "acked c \<or> sent c \<noteq> None \<and> \<not> lost c"
    | (stop) "\<not> (acked c \<or> sent c \<noteq> None \<and> \<not> lost c)" "p_flight p \<ge> cw \<or> paced \<and> p_tokens p < of_nat (length (body c))"
    | (go) "\<not> (acked c \<or> sent c \<noteq> None \<and> \<not> lost c)" "\<not> p_flight p \<ge> cw" "\<not> (paced \<and> p_tokens p < of_nat (length (body c)))"
    by blast
  then show ?thesis
  proof cases
    case skip
    with a have "poll_loop now cw paced p cs = (tl cs', p', out)" "cs' = c # tl cs'"
      by (auto split: prod.splits)
    then show ?thesis by blast
  next
    case stop
    with a show ?thesis by (auto split: if_splits)
  next
    case go
    with a have "poll_loop now cw paced p1 cs = (tl cs', p', tl out)" "cs' = c1 # tl cs'" "out = body c # tl out"
      unfolding c1_def p1_def by (simp_all only: poll_loop.simps if_False Let_def) (auto split: prod.splits)
    with c1 show ?thesis by metis
  qed
qed

lemma poll_loop_shape:
  "poll_loop now cw paced p cs = (cs', p', out) \<Longrightarrow>
   map shape cs' = map shape cs \<and> map acked cs' = map acked cs \<and> set out \<subseteq> body ` set cs"
proof (induction cs arbitrary: p cs' p' out)
  case (Cons c cs)
  from poll_loop_Cons [OF Cons.prems] show ?case
  proof (elim disjE exE conjE)
    fix c1 p1 cs1 out1
    assume "poll_loop now cw paced p1 cs = (cs1, p', out1)"
    from Cons.IH [OF this]
    show "cs' = c1 # cs1 \<Longrightarrow> shape c1 = shape c \<Longrightarrow> acked c1 = acked c \<Longrightarrow> out = out1 \<Longrightarrow> ?thesis"
      "cs' = c1 # cs1 \<Longrightarrow> shape c1 = shape c \<Longrightarrow> acked c1 = acked c \<Longrightarrow> out = body c # out1 \<Longrightarrow> ?thesis"
      by auto
  qed simp
qed simp

lemma split_at: "length w = min k (length q) \<Longrightarrow> take k (w @ drop k q) = w \<and> drop k (w @ drop k q) = drop k q"
  by (cases "k \<le> length q") simp_all

text \<open>Under the invariant, the window is the first \<open>span\<close> chunks.\<close>

lemma queue_nth:
  assumes "map shape q = map (item all) [p..<n]" "i < length q"
  shows "seq (q ! i) = of_nat (Suc (p + i))" "body (q ! i) = data_body (of_nat (Suc (p + i))) (all ! (p + i))"
    "p + i < n"
proof -
  have l: "length q = n - p" using arg_cong [OF assms(1), of length] by simp
  have "shape (q ! i) = map shape q ! i" using assms(2) by simp
  also have "\<dots> = item all (p + i)" using assms l by (simp only: assms(1)) simp
  finally show "seq (q ! i) = of_nat (Suc (p + i))" "body (q ! i) = data_body (of_nat (Suc (p + i))) (all ! (p + i))"
    by (simp_all add: shape_def item_def)
  show "p + i < n" using l assms(2) by simp
qed

lemma window_take:
  assumes q: "map shape q = map (item all) [p..<n]" and n: "n < 2 ^ 31"
  shows "window sp q = take (unat sp) q"
    "on_window sp f q = f (take (unat sp) q) @ drop (unat sp) q"
proof -
  have d: "seq (q ! i) - front_seq q < sp \<longleftrightarrow> i < unat sp" if i: "i < length q" for i
  proof -
    have "front_seq q = seq (q ! 0)" using i by (cases q) (auto simp: front_seq_def)
    moreover have "0 < length q" using i by (cases q) auto
    ultimately have "front_seq q = of_nat (Suc p)" using queue_nth(1) [OF q, of 0] by simp
    moreover have "unat (of_nat (Suc (p + i)) - of_nat (Suc p) :: u32) = i"
      using unat_diff_u32 [of "Suc p" "Suc (p + i)"] queue_nth(3) [OF q i] n by simp
    ultimately show ?thesis using queue_nth(1) [OF q i] by (simp add: word_less_nat_alt)
  qed
  have t: "takeWhile (\<lambda>c. seq c - front_seq q < sp) q = take (unat sp) q"
    by (rule takeWhile_eq_take_P_nth) (use d in auto)
  then show "window sp q = take (unat sp) q" by (simp add: window_def)
  have "dropWhile (\<lambda>c. seq c - front_seq q < sp) q = drop (unat sp) q"
    unfolding dropWhile_eq_drop t by (simp add: min_def)
  with t show "on_window sp f q = f (take (unat sp) q) @ drop (unat sp) q"
    by (simp add: on_window_def)
qed

lemma on_congestion_frame [simp]:
  "queue (on_congestion s t c) = queue s" "next_seq (on_congestion s t c) = next_seq s"
  "backlog_bytes (on_congestion s t c) = backlog_bytes s" "wide (on_congestion s t c) = wide s"
  "span (on_congestion s t c) = span s" "rate_bps (on_congestion s t c) = rate_bps s"
  "tokens (on_congestion s t c) = tokens s" "next_tx (on_congestion s t c) = next_tx s"
  by (simp_all add: on_congestion_def Let_def span_def split: cut.split)

lemma on_congestion_bounds:
  "CWND_MIN \<le> cwnd s \<Longrightarrow> CWND_MIN \<le> cwnd (on_congestion s t c)"
  "CWND_MIN \<le> ssthresh s \<Longrightarrow> CWND_MIN \<le> ssthresh (on_congestion s t c)"
  by (simp_all add: on_congestion_def Let_def split: cut.split)

lemma refill_frame [simp]:
  "queue (refill s now) = queue s" "next_seq (refill s now) = next_seq s"
  "backlog_bytes (refill s now) = backlog_bytes s" "wide (refill s now) = wide s"
  "cwnd (refill s now) = cwnd s" "ssthresh (refill s now) = ssthresh s" "span (refill s now) = span s"
  "rate_bps (refill s now) = rate_bps s" "rto (refill s now) = rto s" "next_tx (refill s now) = next_tx s"
  by (simp_all add: refill_def span_def rto_def split: option.split)

text \<open>What a poll does, with the window spelled out as the queue's first \<open>span\<close> chunks.\<close>

definition poll_mid :: "sender \<Rightarrow> nat \<Rightarrow> sender" where
  "poll_mid s now =
     (let s1 = refill s now; n = unat (span s);
          due = (\<lambda>c. in_flight c \<and> timed_out (rto s) now c);
          s2 = s1\<lparr>queue := map (expire (rto s) now) (take n (queue s)) @ drop n (queue s)\<rparr>
      in case max_tx due (take n (queue s)) of None \<Rightarrow> s2 | Some t \<Rightarrow> on_congestion s2 t CutTimeout)"

lemma poll_mid_frame [simp]:
  "queue (poll_mid s now) = map (expire (rto s) now) (take (unat (span s)) (queue s)) @ drop (unat (span s)) (queue s)"
  "next_seq (poll_mid s now) = next_seq s" "backlog_bytes (poll_mid s now) = backlog_bytes s"
  "wide (poll_mid s now) = wide s" "span (poll_mid s now) = span s" "rate_bps (poll_mid s now) = rate_bps s"
  by (simp_all add: poll_mid_def Let_def span_def split: option.split)

lemma poll_mid_bounds:
  "CWND_MIN \<le> cwnd s \<Longrightarrow> CWND_MIN \<le> cwnd (poll_mid s now)"
  "CWND_MIN \<le> ssthresh s \<Longrightarrow> CWND_MIN \<le> ssthresh (poll_mid s now)"
  by (auto simp: poll_mid_def Let_def on_congestion_bounds split: option.split)

lemma map_shape_mid: "map shape (queue (poll_mid s now)) = map shape (queue s)"
proof -
  have "map shape (queue (poll_mid s now)) = map shape (take (unat (span s)) (queue s)) @ map shape (drop (unat (span s)) (queue s))"
    by (simp only: poll_mid_frame map_append map_shape_expire)
  then show ?thesis by (simp only: map_append [symmetric] append_take_drop_id)
qed

lemma poll_eq:
  fixes now :: nat
  assumes inv: "sender_inv all p s" and n: "length all < 2 ^ 31"
  defines "m \<equiv> poll_mid s now" and "k \<equiv> unat (span s)"
  shows "poll s now =
    (let (w, ps, out) = poll_loop now (cwnd m) (rate_bps s \<noteq> None)
           \<lparr>p_flight = of_nat (length (filter (\<lambda>c. in_flight c \<and> \<not> timed_out (rto s) now c) (take k (queue s)))),
            p_tokens = tokens m, p_tx = next_tx m, p_resent = 0\<rparr> (map (expire (rto s) now) (take k (queue s)))
     in (m\<lparr>queue := w @ drop k (queue s), tokens := p_tokens ps, next_tx := p_tx ps,
           stats := (stats m)\<lparr>resent := resent (stats m) + p_resent ps\<rparr>\<rparr>, out))"
proof -
  have q: "map shape (queue s) = map (item all) [p..<length all]" using inv by (simp add: sender_inv_def)
  have qm: "map shape (queue m) = map (item all) [p..<length all]" using q map_shape_mid by (simp add: m_def)
  have e: "(refill s now)\<lparr>queue := on_window (span s) (map (expire (rto s) now)) (queue s)\<rparr>
     = (refill s now)\<lparr>queue := map (expire (rto s) now) (take k (queue s)) @ drop k (queue s)\<rparr>"
    using window_take(2) [OF q n] by (simp add: k_def)
  have m: "m = (case max_tx (\<lambda>c. in_flight c \<and> timed_out (rto s) now c) (window (span s) (queue s)) of
      None \<Rightarrow> (refill s now)\<lparr>queue := on_window (span s) (map (expire (rto s) now)) (queue s)\<rparr>
    | Some t \<Rightarrow> on_congestion ((refill s now)\<lparr>queue := on_window (span s) (map (expire (rto s) now)) (queue s)\<rparr>) t CutTimeout)"
    unfolding m_def poll_mid_def Let_def e window_take(1) [OF q n] k_def by (rule refl)
  have sp: "take k (queue m) = map (expire (rto s) now) (take k (queue s))" "drop k (queue m) = drop k (queue s)"
    using split_at [of "map (expire (rto s) now) (take k (queue s))" k "queue s"] by (simp_all add: m_def k_def min.commute)
  have w: "window (span s) (queue m) = map (expire (rto s) now) (take k (queue s))"
    "on_window (span s) (\<lambda>_. w) (queue m) = w @ drop k (queue s)" for w
    unfolding window_take [OF qm n] using sp by (simp_all add: k_def)
  show ?thesis
    unfolding poll_def Let_def refill_frame m [symmetric]
    by (simp only: w window_take(1) [OF q n] k_def split_beta) (simp add: m_def k_def split_beta)
qed

lemma sender_inv_poll:
  assumes inv: "sender_inv all p s" and n: "length all < 2 ^ 31" and "poll s now = (s', out)"
  shows "sender_inv all p s'" "map acked (queue s') = map acked (queue s)" "set out \<subseteq> body ` set (queue s)"
proof -
  let ?k = "unat (span s)"
  let ?w0 = "map (expire (rto s) now) (take ?k (queue s))"
  obtain ps w where loop: "poll_loop now (cwnd (poll_mid s now)) (rate_bps s \<noteq> None)
           \<lparr>p_flight = of_nat (length (filter (\<lambda>c. in_flight c \<and> \<not> timed_out (rto s) now c) (take ?k (queue s)))),
            p_tokens = tokens (poll_mid s now), p_tx = next_tx (poll_mid s now), p_resent = 0\<rparr> ?w0 = (w, ps, out)"
    and s': "s' = (poll_mid s now)\<lparr>queue := w @ drop ?k (queue s), tokens := p_tokens ps, next_tx := p_tx ps,
           stats := (stats (poll_mid s now))\<lparr>resent := resent (stats (poll_mid s now)) + p_resent ps\<rparr>\<rparr>"
    using assms(3) unfolding poll_eq [OF inv n] Let_def by (auto split: prod.splits)
  have ws: "map shape w = map shape (take ?k (queue s))" "set out \<subseteq> body ` set ?w0"
    using poll_loop_shape [OF loop] by (simp_all only: map_shape_expire simp_thms)
  have q': "map shape (queue s') = map shape (queue s)"
  proof -
    have "map shape (queue s') = map shape (take ?k (queue s)) @ map shape (drop ?k (queue s))"
      by (simp add: s' ws(1) del: map_append [symmetric])
    then show ?thesis by (simp only: map_append [symmetric] append_take_drop_id)
  qed
  have ac: "map acked w = map acked (take ?k (queue s))"
    using poll_loop_shape [OF loop] by (simp add: expire_def comp_def)
  have lw: "length w = min ?k (length (queue s))" using arg_cong [OF ws(1), of length] by (simp add: min.commute)
  have bd: "i < ?k" if i: "i < length (queue s')" "sent (queue s' ! i) \<noteq> None" for i
  proof (rule ccontr)
    assume "\<not> i < ?k"
    with i lw have "queue s' ! i = queue s ! i" "i < length (queue s)"
      by (auto simp: s' nth_append min_def split: if_splits)
    with i(2) inv \<open>\<not> i < ?k\<close> show False by (auto simp: sender_inv_def)
  qed
  show "sender_inv all p s'"
    using inv bytes_of_shape [OF q'] q' bd poll_mid_bounds [of s now] unfolding sender_inv_def
    by (auto simp: s' span_def)
  show "map acked (queue s') = map acked (queue s)"
    by (simp add: s' ac) (simp only: map_append [symmetric] append_take_drop_id)
  have "body ` set ?w0 \<subseteq> body ` set (queue s)"
    by (auto simp: expire_def dest: in_set_takeD)
  with ws(2) show "set out \<subseteq> body ` set (queue s)" by blast
qed

section \<open>Folding in an ack\<close>

text \<open>
  \<open>queue_inv all p sp got q\<close>: the queue holds the pieces from \<open>p\<close> on, only its first \<open>sp\<close>
  chunks were sent, and a chunk marked acknowledged is a piece the peer has (\<open>got\<close>).
\<close>

definition queue_inv :: "(bool \<times> bytes) list \<Rightarrow> nat \<Rightarrow> nat \<Rightarrow> (nat \<Rightarrow> bool) \<Rightarrow> chunk list \<Rightarrow> bool" where
  "queue_inv all p sp got q \<longleftrightarrow>
     p \<le> length all \<and> map shape q = map (item all) [p..<length all] \<and>
     (\<forall>i < length q. sent (q ! i) \<noteq> None \<longrightarrow> i < sp) \<and>
     (\<forall>i < length q. acked (q ! i) \<longrightarrow> got (p + i))"

definition key_of :: "chunk \<Rightarrow> (u32 \<times> bytes) \<times> bool \<times> bool" where
  "key_of c = (shape c, sent c = None, acked c)"

lemma key_of_eqD: "map key_of q = map key_of q' \<Longrightarrow>
  length q = length q' \<and> map shape q = map shape q' \<and>
  (\<forall>i < length q. (sent (q ! i) = None) = (sent (q' ! i) = None) \<and> acked (q ! i) = acked (q' ! i))"
  by (auto simp: key_of_def list_eq_iff_nth_eq)

lemma queue_inv_cong: "map key_of q = map key_of q' \<Longrightarrow> queue_inv all p sp got q \<Longrightarrow> queue_inv all p sp got q'"
  unfolding queue_inv_def by (drule key_of_eqD) simp

lemma on_window_key:
  assumes "\<And>c. key_of (f c) = key_of c"
  shows "map key_of (on_window sp (map f) q) = map key_of q"
proof -
  have "map key_of (map f cs) = map key_of cs" for cs using assms by simp
  then have "map key_of (on_window sp (map f) q) = map key_of (takeWhile (\<lambda>c. seq c - front_seq q < sp) q @ dropWhile (\<lambda>c. seq c - front_seq q < sp) q)"
    unfolding on_window_def by (simp only: map_append)
  then show ?thesis by simp
qed

lemma queue_inv_tl:
  assumes "queue_inv all p sp got (c # cs)"
  shows "queue_inv all (Suc p) sp got cs" "seq c = of_nat (Suc p)" "p < length all" "acked c \<Longrightarrow> got p"
proof -
  have q: "map shape (c # cs) = map (item all) [p..<length all]" using assms by (simp add: queue_inv_def)
  then have lt: "p < length all" by (cases "p < length all") auto
  with q have "shape c = item all p" "map shape cs = map (item all) [Suc p..<length all]"
    by (simp_all add: upt_conv_Cons)
  moreover have "sent (cs ! i) \<noteq> None \<longrightarrow> i < sp" "acked (cs ! i) \<longrightarrow> got (Suc p + i)" if i: "i < length cs" for i
  proof -
    have "Suc i < length (c # cs)" using i by simp
    then have "sent ((c # cs) ! Suc i) \<noteq> None \<longrightarrow> Suc i < sp" "acked ((c # cs) ! Suc i) \<longrightarrow> got (p + Suc i)"
      using assms unfolding queue_inv_def by blast+
    then show "sent (cs ! i) \<noteq> None \<longrightarrow> i < sp" "acked (cs ! i) \<longrightarrow> got (Suc p + i)" by auto
  qed
  ultimately show "queue_inv all (Suc p) sp got cs" "seq c = of_nat (Suc p)"
    using lt by (simp_all add: queue_inv_def shape_def item_def)
  show "p < length all" by (fact lt)
  have "0 < length (c # cs)" by simp
  then have "acked ((c # cs) ! 0) \<longrightarrow> got (p + 0)" using assms unfolding queue_inv_def by blast
  then show "acked c \<Longrightarrow> got p" by simp
qed

lemma pop_cum_inv:
  assumes "queue_inv all p sp got q" "m \<le> length all" "length all < 2 ^ 31 - 1"
    "pop_cum (of_nat m) now q (bytes_of q) a = (q', bb', a')"
  shows "queue_inv all (max p m) sp got q' \<and> bb' = bytes_of q'"
  using assms
proof (induction q arbitrary: p a)
  case Nil
  then have "p = length all" by (auto simp: queue_inv_def)
  with Nil show ?case by (simp add: max_def)
next
  case (Cons c cs)
  note tl = queue_inv_tl [OF Cons.prems(1)]
  have "sint (seq c - of_nat m) \<le> 0 \<longleftrightarrow> Suc p \<le> m"
  proof -
    have "sint (seq c - of_nat m) = int (Suc p) - int m"
      unfolding tl(2) using tl(3) Cons.prems(2,3) by (intro sint_diff_u32) simp_all
    then show ?thesis by linarith
  qed
  then consider (pop) "sint (seq c - of_nat m) \<le> 0" "max (Suc p) m = max p m" | (keep) "\<not> sint (seq c - of_nat m) \<le> 0" "max p m = p"
    by (cases "Suc p \<le> m") auto
  then show ?case
  proof cases
    case pop
    with Cons.IH [OF tl(1), of "take_ack now c a"] Cons.prems show ?thesis by simp
  next
    case keep
    with Cons.prems show ?thesis by auto
  qed
qed

lemma pop_acked_inv:
  assumes "queue_inv all p sp got q" "pop_acked q (bytes_of q) = (q', bb')"
  shows "\<exists>p'. p \<le> p' \<and> queue_inv all p' sp got q' \<and> bb' = bytes_of q' \<and> (\<forall>i. p \<le> i \<and> i < p' \<longrightarrow> got i) \<and>
    (q' = [] \<or> \<not> acked (hd q'))"
  using assms
proof (induction q arbitrary: p)
  case (Cons c cs)
  note tl = queue_inv_tl [OF Cons.prems(1)]
  show ?case
  proof (cases "acked c")
    case True
    with Cons.prems have "pop_acked cs (bytes_of cs) = (q', bb')" by simp
    from Cons.IH [OF tl(1) this] obtain p' where "Suc p \<le> p'" "queue_inv all p' sp got q'"
      "bb' = bytes_of q'" "\<forall>i. Suc p \<le> i \<and> i < p' \<longrightarrow> got i" "q' = [] \<or> \<not> acked (hd q')" by blast
    moreover have "got i" if "p \<le> i" "i < p'" for i
      using that tl(4) [OF True] calculation(4) by (cases "i = p") auto
    ultimately show ?thesis by (intro exI [of _ p']) auto
  qed (use Cons.prems in auto)
qed auto

lemma select_one_inv:
  assumes "queue_inv all p sp got q" "length all < 2 ^ 31" "m \<le> length all" "i < 4096"
    "bit_set bits i \<Longrightarrow> got (m + i)" "select_one (of_nat m) bits now front i (q, a) = (q', a')"
  shows "queue_inv all p sp got q' \<and> bytes_of q' = bytes_of q"
proof -
  define sq where "sq = (of_nat m + 1 + of_nat i :: u32)"
  define at' where "at' = unat (sq - front)"
  have sq: "sq = of_nat (Suc (m + i))" by (simp add: sq_def)
  show ?thesis
  proof (cases "bit_set bits i \<and> at' < length q \<and> seq (q ! at') = sq")
    case False
    then have "q' = q" using assms(6) by (auto simp: select_one_def sq_def at'_def Let_def split: if_splits)
    with assms(1) show ?thesis by simp
  next
    case True
    have q': "q' = q[at' := (q ! at')\<lparr>acked := True, lost := False\<rparr>]"
      using assms(6) True by (auto simp: select_one_def sq_def at'_def Let_def)
    have sh: "map shape q' = map shape q"
      using True by (simp add: q' map_update shape_def list_update_id) (metis (no_types, lifting) length_map list_update_id nth_map shape_def)
    have q: "map shape q = map (item all) [p..<length all]" using assms(1) by (simp add: queue_inv_def)
    note qn = queue_nth [OF q, of at']
    have "(of_nat (Suc (p + at')) :: u32) = of_nat (Suc (m + i))"
      using True qn(1) sq by simp
    moreover have "Suc (p + at') < 2 ^ 32" "Suc (m + i) < 2 ^ 32" using True qn(3) assms by auto
    ultimately have "Suc (p + at') = Suc (m + i)" by (simp only: of_nat_eq_u32)
    then have g: "got (p + at')" using assms(5) True by simp
    have "(sent (q' ! j) = None) = (sent (q ! j) = None) \<and> (acked (q' ! j) \<longrightarrow> acked (q ! j) \<or> j = at')" if "j < length q" for j
      using that by (cases "j = at'") (simp_all add: q')
    then have "queue_inv all p sp got q'"
      using assms(1) sh g unfolding queue_inv_def by (auto simp: q')
    with sh bytes_of_shape show ?thesis by blast
  qed
qed

lemma select_acks_inv:
  assumes "queue_inv all p sp got q" "length all < 2 ^ 31" "m \<le> length all" "unat w \<le> 4096"
    "\<And>i. i < length bits * 8 \<Longrightarrow> bit_set bits i \<Longrightarrow> got (m + i)" "select_acks (of_nat m) bits now w (q, a) = (q', a')"
  shows "queue_inv all p sp got q' \<and> bytes_of q' = bytes_of q"
proof -
  have step: "queue_inv all p sp got (fst (fold (select_one (of_nat m) bits now front) is (q, a))) \<and>
      bytes_of (fst (fold (select_one (of_nat m) bits now front) is (q, a))) = bytes_of q"
    if "set is \<subseteq> {..<min (length bits * 8) 4096}" "queue_inv all p sp got q" for front "is" q a
    using that
  proof (induction "is" arbitrary: q a)
    case (Cons i js)
    obtain q1 a1 where one: "select_one (of_nat m) bits now front i (q, a) = (q1, a1)" by fastforce
    have "queue_inv all p sp got q1 \<and> bytes_of q1 = bytes_of q"
      by (rule select_one_inv [OF Cons.prems(2) assms(2,3) _ _ one]) (use Cons.prems assms(5) in auto)
    then show ?case using Cons.IH [of q1 a1] Cons.prems one by simp
  qed simp
  show ?thesis
  proof (cases q)
    case Nil
    then show ?thesis using assms by (simp add: select_acks_def)
  next
    case (Cons c cs)
    have "fold (select_one (of_nat m) bits now (seq c)) [0..<min (length bits * 8) (unat w)] (q, a) = (q', a')"
      using assms(6) by (simp add: select_acks_def Cons)
    moreover have "set [0..<min (length bits * 8) (unat w)] \<subseteq> {..<min (length bits * 8) 4096}"
      using assms(4) by auto
    ultimately show ?thesis using step [OF _ assms(1), of "[0..<min (length bits * 8) (unat w)]" "seq c" a] by simp
  qed
qed

lemma on_sample_frame:
  assumes "on_sample s sm now = (s', t)"
  shows "queue s' = queue s" "next_seq s' = next_seq s" "backlog_bytes s' = backlog_bytes s" "wide s' = wide s"
    "cwnd s' = cwnd s" "ssthresh s' = ssthresh s" "rate_bps s' = rate_bps s"
  using assms by (auto simp: on_sample_def Let_def split: prod.splits option.splits if_splits)

lemma adjust_frame [simp]:
  "queue (adjust s l t n) = queue s" "next_seq (adjust s l t n) = next_seq s"
  "backlog_bytes (adjust s l t n) = backlog_bytes s" "wide (adjust s l t n) = wide s"
  "rate_bps (adjust s l t n) = rate_bps s"
  by (simp_all add: adjust_def Let_def split: option.split)

lemma adjust_bounds:
  assumes "CWND_MIN \<le> cwnd s" "CWND_MIN \<le> ssthresh s"
  shows "CWND_MIN \<le> cwnd (adjust s l t n)" "CWND_MIN \<le> ssthresh (adjust s l t n)"
proof -
  have c: "4 \<le> cwnd s" using assms by (simp add: CWND_MIN_def)
  have "4 \<le> span_rat s" by (simp add: span_rat_def span_cases)
  moreover have "4 \<le> cwnd s + of_nat n" "4 \<le> cwnd s + of_nat n / cwnd s"
    using c by (simp_all add: add_increasing2)
  ultimately show "CWND_MIN \<le> cwnd (adjust s l t n)" "CWND_MIN \<le> ssthresh (adjust s l t n)"
    using assms on_congestion_bounds by (auto simp: adjust_def Let_def CWND_MIN_def split: option.split)
qed

lemma sender_inv_iff:
  "sender_inv all p s \<and> (\<forall>i < length (queue s). acked (queue s ! i) \<longrightarrow> got (p + i)) \<longleftrightarrow>
   queue_inv all p (unat (span s)) got (queue s) \<and> next_seq s = of_nat (Suc (length all)) \<and>
   backlog_bytes s = bytes_of (queue s) \<and> CWND_MIN \<le> cwnd s \<and> CWND_MIN \<le> ssthresh s"
  unfolding sender_inv_def queue_inv_def by blast

lemma queue_inv_span: "queue_inv all p sp got q \<Longrightarrow> sp \<le> sp' \<Longrightarrow> queue_inv all p sp' got q"
  unfolding queue_inv_def by force

text \<open>
  An ack that tells the truth about what the peer has (\<open>got\<close>) only drops chunks the peer has,
  and drops all those below its cumulative number.
\<close>

lemma on_ack_inv:
  assumes inv: "sender_inv all p s" "\<forall>i < length (queue s). acked (queue s ! i) \<longrightarrow> got (p + i)"
    and n: "length all < 2 ^ 31 - 1" and ack: "parse_ack b = Some (of_nat m, bits)" "m \<le> length all"
    and truth: "\<And>i. i < m \<Longrightarrow> got i" "\<And>i. i < length bits * 8 \<Longrightarrow> bit_set bits i \<Longrightarrow> got (m + i)"
  shows "\<exists>p'. max p m \<le> p' \<and> sender_inv all p' (on_ack s b now) \<and>
    (\<forall>i < length (queue (on_ack s b now)). acked (queue (on_ack s b now) ! i) \<longrightarrow> got (p' + i)) \<and>
    (\<forall>i. p \<le> i \<and> i < p' \<longrightarrow> got i) \<and> rate_bps (on_ack s b now) = rate_bps s \<and>
    (queue (on_ack s b now) = [] \<or> \<not> acked (hd (queue (on_ack s b now))))"
proof -
  define s1 where "s1 = s\<lparr>wide := wide s \<or> length bits > BITMAP_BYTES\<rparr>"
  have "sender_inv all p s \<and> (\<forall>i < length (queue s). acked (queue s ! i) \<longrightarrow> got (p + i))" using inv by blast
  then have q0: "queue_inv all p (unat (span s)) got (queue s)" and fr: "next_seq s = of_nat (Suc (length all))"
    "backlog_bytes s = bytes_of (queue s)" "CWND_MIN \<le> cwnd s" "CWND_MIN \<le> ssthresh s"
    unfolding sender_inv_iff by blast+
  have q1: "queue_inv all p (unat (span s1)) got (queue s1)"
    using q0 by (simp add: s1_def) (erule queue_inv_span, simp add: span_cases)
  have ns: "next_seq s1 = of_nat (Suc (length all))" using fr(1) by (simp add: s1_def)
  have "sint (of_nat m - next_seq s1) = int m - int (Suc (length all))"
    unfolding ns using n ack(2) by (intro sint_diff_u32) simp_all
  then have fresh: "\<not> sint (of_nat m - next_seq s1) \<ge> 0" using ack(2) by linarith
  obtain q2 bb2 a2 where pop: "pop_cum (of_nat m) now (queue s1) (backlog_bytes s1)
      \<lparr>newly = 0, a_tx = acked_tx s1, sample = None\<rparr> = (q2, bb2, a2)" by (metis prod_cases3)
  have "backlog_bytes s1 = bytes_of (queue s1)" using fr by (simp add: s1_def)
  with pop_cum_inv [OF q1 ack(2) n] pop
  have q2: "queue_inv all (max p m) (unat (span s1)) got q2" "bb2 = bytes_of q2" by (metis)+
  obtain q3 a3 where sel: "select_acks (of_nat m) bits now (span s1) (q2, a2) = (q3, a3)" by fastforce
  have "unat (span s1) \<le> 4096" by (simp add: span_cases)
  then have q3: "queue_inv all (max p m) (unat (span s1)) got q3" "bytes_of q3 = bytes_of q2"
    using select_acks_inv [OF q2(1) _ ack(2) _ truth(2) sel] n by auto
  define q4 where "q4 = on_window (span s1) (map (\<lambda>c. if overtaken (a_tx a3) c then c\<lparr>lost := True\<rparr> else c)) q3"
  have k4: "map key_of q4 = map key_of q3"
    unfolding q4_def by (rule on_window_key) (simp add: key_of_def shape_def)
  have sh4: "map shape q4 = map shape q3" using key_of_eqD [OF k4] by (simp only:)
  have q4: "queue_inv all (max p m) (unat (span s1)) got q4" "bytes_of q4 = bytes_of q2"
    using queue_inv_cong [OF k4 [symmetric] q3(1)] bytes_of_shape [OF sh4] q3(2) by simp_all
  define s4 where "s4 = s1\<lparr>queue := q4, backlog_bytes := bb2, acked_tx := a_tx a3\<rparr>"
  obtain s5 t5 where samp: "(case sample a3 of None \<Rightarrow> (s4, None) | Some sm \<Rightarrow> on_sample s4 sm now) = (s5, t5)"
    by fastforce
  have f5: "queue s5 = q4" "next_seq s5 = next_seq s" "backlog_bytes s5 = bb2" "wide s5 = wide s1"
    "cwnd s5 = cwnd s" "ssthresh s5 = ssthresh s" "rate_bps s5 = rate_bps s"
    using samp by (auto simp: s4_def s1_def split: option.splits dest: on_sample_frame)
  define s6 where "s6 = adjust s5 (max_tx (overtaken (a_tx a3)) (window (span s1) q3)) t5 (newly a3)"
  obtain q7 bb7 where fin: "pop_acked (queue s6) (backlog_bytes s6) = (q7, bb7)" by fastforce
  have "on_ack s b now = fold_ack s1 (of_nat m) bits now"
    using fresh unfolding on_ack_def ack(1) by (simp add: s1_def Let_def)
  also have "\<dots> = s6\<lparr>queue := q7, backlog_bytes := bb7\<rparr>"
    unfolding fold_ack_def Let_def pop sel prod.case q4_def [symmetric] s4_def [symmetric] samp s6_def [symmetric] fin
    by (rule refl)
  finally have res: "on_ack s b now = s6\<lparr>queue := q7, backlog_bytes := bb7\<rparr>" .
  have "queue s6 = q4" "backlog_bytes s6 = bytes_of q4" using f5 q2 q4 by (simp_all add: s6_def)
  with pop_acked_inv [OF q4(1)] fin obtain p' where p': "max p m \<le> p'" "queue_inv all p' (unat (span s1)) got q7"
    "bb7 = bytes_of q7" "\<forall>i. max p m \<le> i \<and> i < p' \<longrightarrow> got i" "q7 = [] \<or> \<not> acked (hd q7)" by metis
  have "span (s6\<lparr>queue := q7, backlog_bytes := bb7\<rparr>) = span s1" using f5 by (simp add: s6_def span_def)
  then have "sender_inv all p' (on_ack s b now) \<and>
      (\<forall>i < length (queue (on_ack s b now)). acked (queue (on_ack s b now) ! i) \<longrightarrow> got (p' + i))"
    unfolding sender_inv_iff res using p' f5 fr adjust_bounds [of s5] by (simp add: s6_def)
  moreover have "got i" if "p \<le> i" "i < p'" for i
    using that p'(4) truth(1) [of i] by (cases "i < m") auto
  moreover have "rate_bps (on_ack s b now) = rate_bps s" using f5 by (simp add: res s6_def)
  ultimately show ?thesis using p' by (intro exI [of _ p']) (auto simp: res)
qed

section \<open>Assembling messages\<close>

definition asm_view :: "assembly \<Rightarrow> bytes \<times> bool \<times> bytes list" where
  "asm_view a = (a_partial a, a_over a, a_done a)"

definition asm0 :: assembly where
  "asm0 = \<lparr>a_partial = [], a_over = False, a_done = [], a_urgent = False\<rparr>"

lemma assemble_more:
  assumes "asm_view a = (P, Ov, d @ a_done b)" "P = a_partial b" "Ov = a_over b"
  shows "asm_view (assemble x a) = (a_partial (assemble x b), a_over (assemble x b), d @ a_done (assemble x b))"
  using assms by (cases x) (auto simp: assemble_def asm_view_def Let_def)

lemma fold_assemble_more:
  "asm_view a = (a_partial b, a_over b, d @ a_done b) \<Longrightarrow>
   asm_view (fold assemble xs a) = (a_partial (fold assemble xs b), a_over (fold assemble xs b), d @ a_done (fold assemble xs b))"
proof (induction xs arbitrary: a b)
  case (Cons x xs)
  have "asm_view (assemble x a) = (a_partial (assemble x b), a_over (assemble x b), d @ a_done (assemble x b))"
    using Cons.prems by (intro assemble_more) auto
  from Cons.IH [OF this] show ?case by simp
qed simp

lemma fold_assemble_view:
  assumes "asm_view a = asm_view b"
  shows "asm_view (fold assemble xs a) = asm_view (fold assemble xs b)"
  using fold_assemble_more [of a b "[]" xs] assms by (simp add: asm_view_def)

text \<open>The pieces of a message that carry no end mark only add up.\<close>

lemma fold_assemble_unfinished:
  "(a_over a \<longrightarrow> a_partial a = []) \<Longrightarrow>
   asm_view (fold assemble (map (Pair False) cs) a) =
     (let over = (a_over a \<or> length (a_partial a) + length (concat cs) > MAX_MESSAGE)
      in (if over \<and> cs \<noteq> [] \<or> a_over a then [] else a_partial a @ concat cs, over \<and> cs \<noteq> [] \<or> a_over a, a_done a))"
  if "length (a_partial a) \<le> MAX_MESSAGE"
  using that
proof (induction cs arbitrary: a)
  case Nil
  then show ?case by (auto simp: asm_view_def)
next
  case (Cons c cs)
  let ?a = "assemble (False, c) a"
  have v: "a_done ?a = a_done a"
    "a_over ?a \<longleftrightarrow> a_over a \<or> length (a_partial a) + length c > MAX_MESSAGE"
    "a_partial ?a = (if a_over ?a then [] else a_partial a @ c)"
    using Cons.prems by (auto simp: assemble_def Let_def)
  have "length (a_partial ?a) \<le> MAX_MESSAGE" "a_over ?a \<longrightarrow> a_partial ?a = []" using v by auto
  from Cons.IH [OF this(2,1)] show ?case
    using v Cons.prems by (auto simp: Let_def split: if_splits)
qed

definition ok_size :: "bytes \<Rightarrow> bool" where
  "ok_size m \<longleftrightarrow> length m \<le> MAX_MESSAGE"

lemma enumerate_last:
  "cs \<noteq> [] \<Longrightarrow> map (\<lambda>(i, c). (i = length cs - 1, c)) (enumerate 0 cs)
    = map (Pair False) (butlast cs) @ [(True, last cs)]"
proof (rule nth_equalityI)
  fix i assume "cs \<noteq> []" "i < length (map (\<lambda>(i, c). (i = length cs - 1, c)) (enumerate 0 cs))"
  then show "map (\<lambda>(i, c). (i = length cs - 1, c)) (enumerate 0 cs) ! i = (map (Pair False) (butlast cs) @ [(True, last cs)]) ! i"
    by (cases "i = length cs - 1") (auto simp: nth_append nth_butlast last_conv_nth nth_enumerate_eq)
qed auto

lemma pieces_split:
  "\<exists>cs. cs \<noteq> [] \<and> concat cs = m \<and> pieces m = map (Pair False) (butlast cs) @ [(True, last cs)]"
proof (cases "m = []")
  case True
  then show ?thesis by (intro exI [of _ "[[]]"]) (simp add: pieces_def)
next
  case False
  have p: "0 < MAX_CHUNK" by (simp add: MAX_CHUNK_def MAX_BODY_def MAX_DATAGRAM_def OVERHEAD_def HEADER_LEN_def TAG_LEN_def)
  then have "chunks_of MAX_CHUNK m \<noteq> []" using False by (simp add: chunks_of_eq_Nil_iff)
  then show ?thesis using False concat_chunks_of [OF p, of m] enumerate_last [of "chunks_of MAX_CHUNK m"]
    by (intro exI [of _ "chunks_of MAX_CHUNK m"]) (simp add: pieces_def Let_def)
qed

lemma assemble_pieces:
  assumes "asm_view a = ([], False, d)"
  shows "asm_view (fold assemble (pieces m) a) = ([], False, d @ (if ok_size m then [m] else []))"
proof -
  obtain cs where cs: "cs \<noteq> []" "concat cs = m" "pieces m = map (Pair False) (butlast cs) @ [(True, last cs)]"
    using pieces_split by blast
  define a' where "a' = fold assemble (map (Pair False) (butlast cs)) a"
  define big where "big \<longleftrightarrow> length (concat (butlast cs)) > MAX_MESSAGE"
  have "asm_view a' = (if big then [] else concat (butlast cs), big, d)"
    using fold_assemble_unfinished [of a "butlast cs"] assms
    by (auto simp: a'_def asm_view_def big_def)
  then have a': "a_partial a' = (if big then [] else concat (butlast cs))" "a_over a' = big" "a_done a' = d"
    by (simp_all add: asm_view_def)
  have m: "m = concat (butlast cs) @ last cs"
    using cs(1,2) by (metis append_butlast_last_id concat.simps concat_append append_Nil2)
  have "asm_view (assemble (True, last cs) a') = ([], False, d @ (if ok_size m then [m] else []))"
    using a' m by (auto simp: assemble_def asm_view_def Let_def ok_size_def big_def)
  then show ?thesis by (simp add: cs(3) a'_def)
qed

lemma assemble_stream:
  "asm_view (fold assemble (stream msgs) asm0) = ([], False, filter ok_size msgs)"
proof (induction msgs rule: rev_induct)
  case Nil
  then show ?case by (simp add: stream_def asm_view_def asm0_def)
next
  case (snoc m msgs)
  then show ?case using assemble_pieces [OF snoc, of m] by (simp add: stream_def)
qed

lemma assemble_done_prefix: "prefix (a_done a) (a_done (fold assemble xs a))"
proof (induction xs arbitrary: a)
  case (Cons x xs)
  have "prefix (a_done a) (a_done (assemble x a))" by (cases x) (simp add: assemble_def Let_def)
  with Cons show ?case by (metis fold_simps(2) prefix_order.trans)
qed simp

section \<open>Receiving\<close>

text \<open>
  \<open>receiver_inv all del c r\<close>: of the stream \<open>all\<close> the receiver took the first \<open>c\<close> pieces,
  delivering \<open>del\<close>; what it buffers is later, and piece \<open>c\<close> itself is still missing.
\<close>

definition receiver_inv :: "(bool \<times> bytes) list \<Rightarrow> bytes list \<Rightarrow> nat \<Rightarrow> receiver \<Rightarrow> bool" where
  "receiver_inv all del c r \<longleftrightarrow>
     cum r = of_nat c \<and> c \<le> length all \<and> holds all c (pending r) \<and>
     map_of (pending r) (of_nat (Suc c)) = None \<and>
     asm_view (fold assemble (take c all) asm0) = (partial r, oversize r, del)"

lemma receiver_inv_new: "receiver_inv [] [] 0 new_receiver"
  by (simp add: receiver_inv_def new_receiver_def asm_view_def asm0_def)

lemma receiver_inv_more: "receiver_inv all del c r \<Longrightarrow> receiver_inv (all @ xs) del c r"
  by (simp add: receiver_inv_def holds_append)

lemma data_body_fields:
  "index_get (data_body sq x) 0 = Some TYPE_DATA" "\<not> length (data_body sq x) < 6"
  "u32_of_le (take 4 (drop 1 (data_body sq x))) = sq"
  "data_body sq x ! 5 \<noteq> 0 \<longleftrightarrow> fst x" "drop 6 (data_body sq x) = snd x"
  by (simp_all add: data_body_def index_get_def nth_append)

lemma on_data_body:
  "on_data r (data_body sq x) now =
    (let r1 = r\<lparr>unacked := unacked r + 1,
                first_unacked := (case first_unacked r of None \<Rightarrow> Some now | Some t \<Rightarrow> Some t)\<rparr> in
     if sint (sq - cum r) \<le> 0 \<or> sq - cum r > WIDE_SPAN then (r1\<lparr>urgent := True\<rparr>, [])
     else
       (case drain assemble (cum r) (or_insert sq x (pending r))
              \<lparr>a_partial = partial r, a_over = oversize r, a_done = [], a_urgent = (sq - cum r \<noteq> 1 \<or> urgent r)\<rparr> of
          (c, p, a) \<Rightarrow> (r1\<lparr>cum := c, pending := p, partial := a_partial a, oversize := a_over a,
                           urgent := a_urgent a\<rparr>, a_done a)))"
  unfolding on_data_def Let_def data_body_fields by (simp add: split_beta data_body_fields(2))

lemma on_data_inv:
  assumes inv: "receiver_inv all del c r" and n: "length all < 2 ^ 31 - 1" and i: "i < length all"
    and step: "on_data r (data_body (of_nat (Suc i)) (all ! i)) now = (r', out)"
  shows "\<exists>c'. c \<le> c' \<and> receiver_inv all (del @ out) c' r' \<and>
    (\<forall>j < length all. has c (pending r) j \<longrightarrow> has c' (pending r') j) \<and>
    (i < c + 4096 \<longrightarrow> has c' (pending r') i)"
proof -
  have c: "cum r = of_nat c" "c \<le> length all" using inv by (simp_all add: receiver_inv_def)
  let ?sq = "of_nat (Suc i) :: u32"
  have ahead: "sint (?sq - cum r) = int (Suc i) - int c"
    unfolding c using i n c(2) by (intro sint_diff_u32) simp_all
  show ?thesis
  proof (cases "sint (?sq - cum r) \<le> 0 \<or> ?sq - cum r > WIDE_SPAN")
    case True
    have "i < c" if "i < c + 4096"
    proof (rule ccontr)
      assume "\<not> i < c"
      then have "unat (?sq - cum r) = Suc i - c" unfolding c using i n by (intro unat_diff_u32) simp_all
      then show False using True that ahead \<open>\<not> i < c\<close> by (auto simp: WIDE_SPAN_def word_less_nat_alt)
    qed
    moreover have "pending r' = pending r" "cum r' = cum r" "partial r' = partial r" "oversize r' = oversize r" "out = []"
      using step True by (auto simp: on_data_body Let_def simp del: of_nat_Suc)
    ultimately show ?thesis using inv by (intro exI [of _ c]) (auto simp: receiver_inv_def has_def)
  next
    case False
    then have "c \<le> i" using ahead by linarith
    define p where "p = or_insert ?sq (all ! i) (pending r)"
    have h: "holds all c p" unfolding p_def
      using inv \<open>c \<le> i\<close> i n by (intro holds_insert) (auto simp: receiver_inv_def)
    define u where "u = (?sq - cum r \<noteq> 1 \<or> urgent r)"
    define a where "a = \<lparr>a_partial = partial r, a_over = oversize r, a_done = [], a_urgent = u\<rparr>"
    obtain c' p' where d: "c \<le> c'" "c' \<le> length all" "holds all c' p'"
      "drain assemble (of_nat c) p a = (of_nat c', p', fold assemble (drop c (take c' all)) a)"
      "map_of p' (of_nat (Suc c')) = None" "\<forall>j < length all. has c' p' j = has c p j"
      using drain_spec [OF h c(2), of assemble a] n by auto
    let ?a = "fold assemble (drop c (take c' all)) a"
    have x: "(fst (all ! i), snd (all ! i)) = all ! i" by simp
    have r': "cum r' = of_nat c'" "pending r' = p'" "partial r' = a_partial ?a" "oversize r' = a_over ?a" "out = a_done ?a"
      using step False d(4) by (auto simp: on_data_body Let_def c(1) p_def a_def u_def simp del: of_nat_Suc)
    have "asm_view (fold assemble (take c all) asm0) = (a_partial a, a_over a, del @ a_done a)"
      using inv by (simp add: receiver_inv_def a_def)
    from fold_assemble_more [OF this, of "drop c (take c' all)"]
    have "asm_view (fold assemble (take c all @ drop c (take c' all)) asm0) = (partial r', oversize r', del @ out)"
      by (simp add: r')
    moreover have "take c all @ drop c (take c' all) = take c' all"
      using d(1) by (metis append_take_drop_id min.absorb1 take_take)
    ultimately have "receiver_inv all (del @ out) c' r'" using d r' by (simp add: receiver_inv_def)
    moreover have "has c p j \<longleftrightarrow> has c (pending r) j \<or> j = i" if "j < length all" for j
      unfolding p_def using i n that by (intro has_insert) auto
    ultimately show ?thesis using d i r' by (intro exI [of _ c']) auto
  qed
qed

end
