(* ===== verification/ReliableLink.thy ===== *)
theory ReliableLink
  imports Reliable
begin

text \<open>
  The two halves of \<open>crates/rdp-hyper/src/reliable.rs\<close> joined by a link that loses, repeats and
  reorders datagrams at will: a step relation over a \<open>Sender\<close>, a \<open>Receiver\<close> and the bodies in
  the air, its invariant, and what it shows of the channel.
\<close>

section \<open>What an ack says\<close>

definition marked :: "bytes \<Rightarrow> nat \<Rightarrow> bool" where
  "marked bits i \<longleftrightarrow> i < length bits * 8 \<and> bit_set bits i"

lemma bit_set_iff: "bit_set bits i \<longleftrightarrow> bit (bits ! (i div 8)) (i mod 8)"
  by (simp only: bit_set_def push_bit_of_1 and_exp_eq_0_iff_not_bit not_not)

lemma marked_extend: "marked (bits @ replicate n 0) i \<longleftrightarrow> marked bits i"
proof (cases "i div 8 < length bits")
  case True
  then show ?thesis by (auto simp: marked_def bit_set_iff nth_append)
next
  case False
  then have "\<not> i < length bits * 8" by (simp add: not_less less_eq_div_iff_mult_less_eq)
  moreover have "\<not> bit ((bits @ replicate n 0) ! (i div 8)) (i mod 8)" if "i < (length bits + n) * 8"
  proof -
    have "i div 8 < length bits + n" using that by (simp add: less_mult_imp_div_less)
    then show ?thesis using False by (simp add: nth_append)
  qed
  ultimately show ?thesis by (auto simp: marked_def bit_set_iff)
qed

lemma marked_or:
  assumes "k div 8 < length bits"
  shows "marked (bits[k div 8 := bits ! (k div 8) OR push_bit (k mod 8) 1]) i \<longleftrightarrow> marked bits i \<or> i = k"
proof (cases "i div 8 = k div 8")
  case True
  then have i: "i = k \<longleftrightarrow> i mod 8 = k mod 8" by (metis mod_div_decomp)
  have lt: "i < length bits * 8" using assms unfolding True [symmetric] by (simp add: div_less_iff_less_mult)
  have "bit (bits ! (k div 8) OR push_bit (k mod 8) 1) (i mod 8) \<longleftrightarrow> bit (bits ! (k div 8)) (i mod 8) \<or> i mod 8 = k mod 8"
    by (auto simp: bit_or_iff bit_push_bit_iff bit_1_iff simp del: push_bit_of_1)
  then show ?thesis using True assms lt i by (simp add: marked_def bit_set_iff)
next
  case False
  then show ?thesis by (auto simp: marked_def bit_set_iff)
qed

lemma mark_bit_spec:
  assumes "33 \<le> length bits" "length bits \<le> 512"
  shows "33 \<le> length (mark_bit cm s bits) \<and> length (mark_bit cm s bits) \<le> 512 \<and>
    (\<forall>i. marked (mark_bit cm s bits) i \<longleftrightarrow> marked bits i \<or> i < 4096 \<and> i = unat (s - (cm + 1)))"
proof (cases "s - (cm + 1) < WIDE_SPAN")
  case False
  then show ?thesis using assms by (auto simp: mark_bit_def Let_def WIDE_SPAN_def word_less_nat_alt)
next
  case True
  define k where "k = unat (s - (cm + 1))"
  define bits' where "bits' = (if k div 8 \<ge> length bits then bits @ replicate (k div 8 + 1 - length bits) 0 else bits)"
  have k: "k < 4096" using True by (simp add: k_def WIDE_SPAN_def word_less_nat_alt)
  have m: "mark_bit cm s bits = bits'[k div 8 := bits' ! (k div 8) OR push_bit (k mod 8) 1]"
    using True by (simp add: mark_bit_def Let_def k_def bits'_def unat_div unat_mod)
  have l: "k div 8 < length bits'" by (simp add: bits'_def)
  have "length bits' = max (length bits) (k div 8 + 1)" by (simp add: bits'_def max_def)
  then have "33 \<le> length (mark_bit cm s bits)" "length (mark_bit cm s bits) \<le> 512" using assms k by (simp_all add: m)
  moreover have "marked (mark_bit cm s bits) i \<longleftrightarrow> marked bits i \<or> i < 4096 \<and> i = k" for i
    unfolding m marked_or [OF l] using k by (auto simp: bits'_def marked_extend)
  ultimately show ?thesis by (simp add: k_def)
qed

lemma fold_mark_bit:
  "33 \<le> length bits \<Longrightarrow> length bits \<le> 512 \<Longrightarrow>
   33 \<le> length (fold (mark_bit cm) ks bits) \<and> length (fold (mark_bit cm) ks bits) \<le> 512 \<and>
   (\<forall>i. marked (fold (mark_bit cm) ks bits) i \<longleftrightarrow> marked bits i \<or> i < 4096 \<and> (\<exists>k \<in> set ks. i = unat (k - (cm + 1))))"
proof (induction ks arbitrary: bits)
  case (Cons k ks)
  note m = mark_bit_spec [OF Cons.prems, of cm k]
  from Cons.IH [of "mark_bit cm k bits"] m show ?case by auto
qed simp

lemma ack_bits_spec:
  "33 \<le> length (ack_bits r) \<and> length (ack_bits r) \<le> 512 \<and>
   (\<forall>i. marked (ack_bits r) i \<longleftrightarrow> i < 4096 \<and> map_of (pending r) (cum r + 1 + of_nat i) \<noteq> None)"
proof -
  have z: "\<not> marked (replicate 33 0) i" for i
    using marked_extend [of "[]" 33 i] by (simp add: marked_def)
  have "(\<exists>k \<in> set (map fst (pending r)). i = unat (k - (cum r + 1))) \<longleftrightarrow> map_of (pending r) (cum r + 1 + of_nat i) \<noteq> None"
    if "i < 4096" for i
  proof -
    have "i = unat (k - (cum r + 1)) \<longleftrightarrow> k = cum r + 1 + of_nat i" for k
    proof
      show "i = unat (k - (cum r + 1)) \<Longrightarrow> k = cum r + 1 + of_nat i" by simp
      assume "k = cum r + 1 + of_nat i"
      then have "k - (cum r + 1) = of_nat i" by simp
      then show "i = unat (k - (cum r + 1))" using that unat_of_nat_u32 [of i] by simp
    qed
    then show ?thesis by (auto simp: map_of_eq_None_iff)
  qed
  moreover have "33 \<le> length (ack_bits r) \<and> length (ack_bits r) \<le> 512 \<and>
      (\<forall>i. marked (ack_bits r) i \<longleftrightarrow> i < 4096 \<and> (\<exists>k \<in> set (map fst (pending r)). i = unat (k - (cum r + 1))))"
    using fold_mark_bit [of "replicate 33 0" "cum r" "map fst (pending r)"] z
    by (simp add: ack_bits_def BITMAP_BYTES_def del: set_map list.set_map)
  ultimately show ?thesis by blast
qed

text \<open>An ack body parses to the cumulative number and the bitmap it was made of.\<close>

lemma parse_ack_body:
  assumes "33 \<le> length bits" "length bits \<le> 512"
  shows "parse_ack (TYPE_ACK # u32_le c @ bits) = Some (c, bits)"
proof -
  have "take (min (length bits + 5) (5 + 512)) (TYPE_ACK # u32_le c @ bits) = TYPE_ACK # u32_le c @ bits"
    using assms by simp
  then show ?thesis using assms
    by (simp add: parse_ack_def index_get_def BITMAP_BYTES_def WIDE_BITMAP_BYTES_def TYPE_ACK_def)
qed

text \<open>\<open>truthful all c p b\<close>: whatever the ack \<open>b\<close> covers, the receiver (at \<open>c\<close>, \<open>p\<close>) has.\<close>

definition got :: "(bool \<times> bytes) list \<Rightarrow> nat \<Rightarrow> (u32 \<times> bool \<times> bytes) list \<Rightarrow> nat \<Rightarrow> bool" where
  "got all c p i \<longleftrightarrow> i < length all \<and> has c p i"

definition truthful :: "(bool \<times> bytes) list \<Rightarrow> nat \<Rightarrow> (u32 \<times> bool \<times> bytes) list \<Rightarrow> bytes \<Rightarrow> bool" where
  "truthful all c p b \<longleftrightarrow>
     (\<exists>m bits. parse_ack b = Some (of_nat m, bits) \<and> m \<le> c \<and>
        (\<forall>i. i < length bits * 8 \<longrightarrow> bit_set bits i \<longrightarrow> got all c p (m + i)))"

lemma ack_truthful:
  assumes inv: "receiver_inv all del c r" and n: "length all < 2 ^ 31 - 1" and "ack r now = (r', Some b)"
  shows "truthful all c (pending r) b" "parse_ack b = Some (of_nat c, ack_bits r)"
    "receiver_inv all del c r'" "pending r' = pending r"
proof -
  have c: "cum r = of_nat c" "c \<le> length all" "holds all c (pending r)" using inv by (simp_all add: receiver_inv_def)
  have b: "b = TYPE_ACK # u32_le (cum r) @ ack_bits r" and r': "r' = r\<lparr>unacked := 0, first_unacked := None, urgent := False\<rparr>"
    using assms(3) by (auto simp: ack_def Let_def split: if_splits)
  show p: "parse_ack b = Some (of_nat c, ack_bits r)"
    using ack_bits_spec [of r] c(1) by (simp add: b parse_ack_body)
  have "got all c (pending r) (c + i)" if i: "i < length (ack_bits r) * 8" "bit_set (ack_bits r) i" for i
  proof -
    have e: "cum r + 1 + of_nat i = of_nat (Suc (c + i))" by (simp add: c(1))
    have "marked (ack_bits r) i" using i by (simp add: marked_def)
    with ack_bits_spec [of r] have m: "i < 4096" "map_of (pending r) (of_nat (Suc (c + i))) \<noteq> None"
      unfolding e [symmetric] by blast+
    moreover have "unat (of_nat (Suc (c + i)) :: u32) = Suc (c + i)"
      using m(1) c(2) n by (intro unat_of_nat_u32) simp
    ultimately have "Suc (c + i) \<le> length all" using c(3) unfolding holds_def by (metis not_None_eq)
    with m(2) show ?thesis by (simp add: got_def has_def del: of_nat_Suc)
  qed
  with p show "truthful all c (pending r) b" unfolding truthful_def by blast
  show "receiver_inv all del c r'" "pending r' = pending r" using inv by (simp_all add: r' receiver_inv_def)
qed

section \<open>The link\<close>

record link =
  tx_end :: sender
  rx_end :: receiver
  air :: "bytes list"
  acks :: "bytes list"
  submitted :: "bytes list"
  delivered :: "bytes list"

definition new_link :: link where
  "new_link = \<lparr>tx_end = new_sender, rx_end = new_receiver, air = [], acks = [], submitted = [], delivered = []\<rparr>"

text \<open>
  A datagram in the air may arrive any number of times, in any order, or never: it stays in
  \<open>air\<close> (or \<open>acks\<close>) and no step is forced.
\<close>

inductive link_step :: "link \<Rightarrow> link \<Rightarrow> bool" where
  Submit: "link_step l (l\<lparr>tx_end := send (tx_end l) m, submitted := submitted l @ [m]\<rparr>)"
| Tune: "s = set_rate (tx_end l) bps \<or> s = set_queue_limit (tx_end l) ql \<or> s = set_jitter_tolerant (tx_end l) on
    \<Longrightarrow> link_step l (l\<lparr>tx_end := s\<rparr>)"
| Transmit: "poll (tx_end l) now = (s, out) \<Longrightarrow> link_step l (l\<lparr>tx_end := s, air := air l @ out\<rparr>)"
| Arrive: "b \<in> set (air l) \<Longrightarrow> on_data (rx_end l) b now = (r, out)
    \<Longrightarrow> link_step l (l\<lparr>rx_end := r, delivered := delivered l @ out\<rparr>)"
| AckSent: "ack (rx_end l) now = (r, Some b) \<Longrightarrow> link_step l (l\<lparr>rx_end := r, acks := acks l @ [b]\<rparr>)"
| AckArrives: "b \<in> set (acks l) \<Longrightarrow> link_step l (l\<lparr>tx_end := on_ack (tx_end l) b now\<rparr>)"

inductive_cases link_stepE: "link_step l l'"

definition link_inv :: "link \<Rightarrow> bool" where
  "link_inv l \<longleftrightarrow>
     (let all = stream (submitted l); s = tx_end l; r = rx_end l in
      \<exists>p c. p \<le> c \<and> sender_inv all p s \<and>
        (\<forall>i < length (queue s). acked (queue s ! i) \<longrightarrow> got all c (pending r) (p + i)) \<and>
        (queue s = [] \<or> \<not> acked (hd (queue s))) \<and>
        receiver_inv all (delivered l) c r \<and>
        (\<forall>b \<in> set (air l). \<exists>i < length all. b = data_body (of_nat (Suc i)) (all ! i)) \<and>
        (\<forall>b \<in> set (acks l). truthful all c (pending r) b))"

lemma link_inv_new: "link_inv new_link"
  unfolding link_inv_def Let_def new_link_def
  using sender_inv_new receiver_inv_new
  by (intro exI [of _ 0]) (simp add: stream_def new_sender_def)

lemma stream_snoc: "stream (msgs @ [m]) = stream msgs @ pieces m"
  by (simp add: stream_def)

lemma got_more: "got all c p i \<Longrightarrow> got (all @ xs) c p i"
  by (simp add: got_def)

lemma truthful_mono:
  assumes "truthful all c p b" "c \<le> c'" "\<And>i. got all c p i \<Longrightarrow> got all' c' p' i"
  shows "truthful all' c' p' b"
  using assms unfolding truthful_def by (meson order_trans)

lemma send_frame: "queue (send s m) = [] \<or> hd (queue (send s m)) = hd (queue s) \<and> queue s \<noteq> [] \<or> queue s = [] \<and> \<not> acked (hd (queue (send s m)))"
  "\<forall>i < length (queue (send s m)). acked (queue (send s m) ! i) \<longrightarrow> i < length (queue s) \<and> acked (queue s ! i)"
proof -
  have "\<exists>q. queue (fold send_chunk xs s) = queue s @ q \<and> (\<forall>c \<in> set q. \<not> acked c)" for xs
  proof (induction xs arbitrary: s)
    case (Cons x xs)
    obtain q where "queue (fold send_chunk xs (send_chunk x s)) = queue (send_chunk x s) @ q" "\<forall>c \<in> set q. \<not> acked c"
      using Cons by blast
    moreover obtain y where "queue (send_chunk x s) = queue s @ [y]" "\<not> acked y" by (simp add: send_chunk_def Let_def)
    ultimately show ?case by (intro exI [of _ "y # q"]) simp
  qed simp
  then obtain q where q: "queue (send s m) = queue s @ q" "\<forall>c \<in> set q. \<not> acked c" by (auto simp: send_def)
  then show "queue (send s m) = [] \<or> hd (queue (send s m)) = hd (queue s) \<and> queue s \<noteq> [] \<or> queue s = [] \<and> \<not> acked (hd (queue (send s m)))"
    by (cases "queue s"; cases q) auto
  show "\<forall>i < length (queue (send s m)). acked (queue (send s m) ! i) \<longrightarrow> i < length (queue s) \<and> acked (queue s ! i)"
    using q by (auto simp: nth_append)
qed

lemma link_invI:
  assumes "p \<le> c" "sender_inv (stream (submitted l)) p (tx_end l)"
    "\<forall>i < length (queue (tx_end l)). acked (queue (tx_end l) ! i) \<longrightarrow> got (stream (submitted l)) c (pending (rx_end l)) (p + i)"
    "queue (tx_end l) = [] \<or> \<not> acked (hd (queue (tx_end l)))"
    "receiver_inv (stream (submitted l)) (delivered l) c (rx_end l)"
    "\<forall>b \<in> set (air l). \<exists>i < length (stream (submitted l)). b = data_body (of_nat (Suc i)) (stream (submitted l) ! i)"
    "\<forall>b \<in> set (acks l). truthful (stream (submitted l)) c (pending (rx_end l)) b"
  shows "link_inv l"
  unfolding link_inv_def Let_def using assms by blast

lemma link_invE:
  assumes "link_inv l"
  obtains p c where "p \<le> c" "sender_inv (stream (submitted l)) p (tx_end l)"
    "\<forall>i < length (queue (tx_end l)). acked (queue (tx_end l) ! i) \<longrightarrow> got (stream (submitted l)) c (pending (rx_end l)) (p + i)"
    "queue (tx_end l) = [] \<or> \<not> acked (hd (queue (tx_end l)))"
    "receiver_inv (stream (submitted l)) (delivered l) c (rx_end l)"
    "\<forall>b \<in> set (air l). \<exists>i < length (stream (submitted l)). b = data_body (of_nat (Suc i)) (stream (submitted l) ! i)"
    "\<forall>b \<in> set (acks l). truthful (stream (submitted l)) c (pending (rx_end l)) b"
  using assms unfolding link_inv_def Let_def by blast

lemma tune_frame:
  assumes "s = set_rate t bps \<or> s = set_queue_limit t ql \<or> s = set_jitter_tolerant t on"
  shows "queue s = queue t" "sender_inv all p s \<longleftrightarrow> sender_inv all p t"
  using assms by (auto simp: set_rate_def set_queue_limit_def set_jitter_tolerant_def sender_inv_def span_def)

lemma submit_inv:
  assumes "link_inv l"
  shows "link_inv (l\<lparr>tx_end := send (tx_end l) m, submitted := submitted l @ [m]\<rparr>)"
  using assms
proof (rule link_invE)
  fix p c
  assume inv: "p \<le> c" "sender_inv (stream (submitted l)) p (tx_end l)"
    "\<forall>i < length (queue (tx_end l)). acked (queue (tx_end l) ! i) \<longrightarrow> got (stream (submitted l)) c (pending (rx_end l)) (p + i)"
    "queue (tx_end l) = [] \<or> \<not> acked (hd (queue (tx_end l)))"
    "receiver_inv (stream (submitted l)) (delivered l) c (rx_end l)"
    "\<forall>b \<in> set (air l). \<exists>i < length (stream (submitted l)). b = data_body (of_nat (Suc i)) (stream (submitted l) ! i)"
    "\<forall>b \<in> set (acks l). truthful (stream (submitted l)) c (pending (rx_end l)) b"
  let ?l = "l\<lparr>tx_end := send (tx_end l) m, submitted := submitted l @ [m]\<rparr>"
  have e: "stream (submitted ?l) = stream (submitted l) @ pieces m" by (simp add: stream_snoc)
  show ?thesis
  proof (rule link_invI)
    show "p \<le> c" by (fact inv)
    show "sender_inv (stream (submitted ?l)) p (tx_end ?l)"
      unfolding e using sender_inv_send [OF inv(2)] by simp
    show "\<forall>i < length (queue (tx_end ?l)). acked (queue (tx_end ?l) ! i) \<longrightarrow> got (stream (submitted ?l)) c (pending (rx_end ?l)) (p + i)"
      unfolding e using send_frame(2) [of "tx_end l" m] inv(3) got_more by simp
    show "queue (tx_end ?l) = [] \<or> \<not> acked (hd (queue (tx_end ?l)))"
      using send_frame(1) [of "tx_end l" m] inv(4) by auto
    show "receiver_inv (stream (submitted ?l)) (delivered ?l) c (rx_end ?l)"
      unfolding e using receiver_inv_more [OF inv(5)] by simp
    show "\<forall>b \<in> set (air ?l). \<exists>i < length (stream (submitted ?l)). b = data_body (of_nat (Suc i)) (stream (submitted ?l) ! i)"
      unfolding e using inv(6) by simp (metis nth_append trans_less_add1)
    show "\<forall>b \<in> set (acks ?l). truthful (stream (submitted ?l)) c (pending (rx_end ?l)) b"
      unfolding e using inv(7) truthful_mono got_more by simp (metis order_refl)
  qed
qed

lemma transmit_inv:
  assumes "link_inv l" and n: "length (stream (submitted l)) < 2 ^ 31 - 1" and step: "poll (tx_end l) now = (s, out)"
  shows "link_inv (l\<lparr>tx_end := s, air := air l @ out\<rparr>)"
  using assms(1)
proof (rule link_invE)
  fix p c
  assume inv: "p \<le> c" "sender_inv (stream (submitted l)) p (tx_end l)"
    "\<forall>i < length (queue (tx_end l)). acked (queue (tx_end l) ! i) \<longrightarrow> got (stream (submitted l)) c (pending (rx_end l)) (p + i)"
    "queue (tx_end l) = [] \<or> \<not> acked (hd (queue (tx_end l)))"
    "receiver_inv (stream (submitted l)) (delivered l) c (rx_end l)"
    "\<forall>b \<in> set (air l). \<exists>i < length (stream (submitted l)). b = data_body (of_nat (Suc i)) (stream (submitted l) ! i)"
    "\<forall>b \<in> set (acks l). truthful (stream (submitted l)) c (pending (rx_end l)) b"
  have n': "length (stream (submitted l)) < 2 ^ 31" using n by simp
  note sp = sender_inv_poll [OF inv(2) n' step]
  have len: "length (queue s) = length (queue (tx_end l))" using arg_cong [OF sp(2), of length] by simp
  have ack: "acked (queue s ! i) = acked (queue (tx_end l) ! i)" if "i < length (queue s)" for i
    using that len sp(2) by (metis nth_map)
  have hd: "queue s = [] \<or> \<not> acked (hd (queue s))"
    using inv(4) len ack [of 0] by (cases "queue s"; cases "queue (tx_end l)") auto
  have q: "map shape (queue (tx_end l)) = map (item (stream (submitted l))) [p..<length (stream (submitted l))]"
    using inv(2) by (simp add: sender_inv_def)
  have "\<exists>i < length (stream (submitted l)). b = data_body (of_nat (Suc i)) (stream (submitted l) ! i)" if b: "b \<in> set out" for b
  proof -
    obtain ch where "ch \<in> set (queue (tx_end l))" "b = body ch" using b sp(3) by auto
    then obtain j where "j < length (queue (tx_end l))" "b = body (queue (tx_end l) ! j)"
      by (metis in_set_conv_nth)
    then show ?thesis using queue_nth [OF q] by blast
  qed
  then show ?thesis
    by (intro link_invI [of p c]) (use inv sp hd ack len in auto)
qed

lemma arrive_inv:
  assumes "link_inv l" and n: "length (stream (submitted l)) < 2 ^ 31 - 1"
    and b: "b \<in> set (air l)" and step: "on_data (rx_end l) b now = (r, out)"
  shows "link_inv (l\<lparr>rx_end := r, delivered := delivered l @ out\<rparr>)"
  using assms(1)
proof (rule link_invE)
  fix p c
  assume inv: "p \<le> c" "sender_inv (stream (submitted l)) p (tx_end l)"
    "\<forall>i < length (queue (tx_end l)). acked (queue (tx_end l) ! i) \<longrightarrow> got (stream (submitted l)) c (pending (rx_end l)) (p + i)"
    "queue (tx_end l) = [] \<or> \<not> acked (hd (queue (tx_end l)))"
    "receiver_inv (stream (submitted l)) (delivered l) c (rx_end l)"
    "\<forall>b \<in> set (air l). \<exists>i < length (stream (submitted l)). b = data_body (of_nat (Suc i)) (stream (submitted l) ! i)"
    "\<forall>b \<in> set (acks l). truthful (stream (submitted l)) c (pending (rx_end l)) b"
  obtain i where i: "i < length (stream (submitted l))" "b = data_body (of_nat (Suc i)) (stream (submitted l) ! i)"
    using inv(6) b by blast
  obtain c' where c': "c \<le> c'" "receiver_inv (stream (submitted l)) (delivered l @ out) c' r"
    "\<forall>j < length (stream (submitted l)). has c (pending (rx_end l)) j \<longrightarrow> has c' (pending r) j"
    using on_data_inv [OF inv(5) n i(1) step [unfolded i(2)]] by blast
  then have g: "got (stream (submitted l)) c (pending (rx_end l)) j \<Longrightarrow> got (stream (submitted l)) c' (pending r) j" for j
    by (auto simp: got_def)
  show ?thesis
    by (rule link_invI [of p c']) (use inv c' g truthful_mono [OF _ c'(1) g] in auto)
qed

lemma ack_sent_inv:
  assumes "link_inv l" and n: "length (stream (submitted l)) < 2 ^ 31 - 1" and step: "ack (rx_end l) now = (r, Some b)"
  shows "link_inv (l\<lparr>rx_end := r, acks := acks l @ [b]\<rparr>)"
  using assms(1)
proof (rule link_invE)
  fix p c
  assume inv: "p \<le> c" "sender_inv (stream (submitted l)) p (tx_end l)"
    "\<forall>i < length (queue (tx_end l)). acked (queue (tx_end l) ! i) \<longrightarrow> got (stream (submitted l)) c (pending (rx_end l)) (p + i)"
    "queue (tx_end l) = [] \<or> \<not> acked (hd (queue (tx_end l)))"
    "receiver_inv (stream (submitted l)) (delivered l) c (rx_end l)"
    "\<forall>b \<in> set (air l). \<exists>i < length (stream (submitted l)). b = data_body (of_nat (Suc i)) (stream (submitted l) ! i)"
    "\<forall>b \<in> set (acks l). truthful (stream (submitted l)) c (pending (rx_end l)) b"
  note t = ack_truthful [OF inv(5) n step]
  show ?thesis by (rule link_invI [of p c]) (use inv t in auto)
qed

lemma ack_arrives_inv:
  assumes "link_inv l" and n: "length (stream (submitted l)) < 2 ^ 31 - 1" and b: "b \<in> set (acks l)"
  shows "link_inv (l\<lparr>tx_end := on_ack (tx_end l) b now\<rparr>)"
  using assms(1)
proof (rule link_invE)
  fix p c
  assume inv: "p \<le> c" "sender_inv (stream (submitted l)) p (tx_end l)"
    "\<forall>i < length (queue (tx_end l)). acked (queue (tx_end l) ! i) \<longrightarrow> got (stream (submitted l)) c (pending (rx_end l)) (p + i)"
    "queue (tx_end l) = [] \<or> \<not> acked (hd (queue (tx_end l)))"
    "receiver_inv (stream (submitted l)) (delivered l) c (rx_end l)"
    "\<forall>b \<in> set (air l). \<exists>i < length (stream (submitted l)). b = data_body (of_nat (Suc i)) (stream (submitted l) ! i)"
    "\<forall>b \<in> set (acks l). truthful (stream (submitted l)) c (pending (rx_end l)) b"
  let ?all = "stream (submitted l)" and ?g = "got (stream (submitted l)) c (pending (rx_end l))"
  obtain m bits where pa: "parse_ack b = Some (of_nat m, bits)" "m \<le> c"
    "\<And>i. i < length bits * 8 \<Longrightarrow> bit_set bits i \<Longrightarrow> ?g (m + i)"
    using inv(7) b unfolding truthful_def by blast
  have c: "c \<le> length ?all" "map_of (pending (rx_end l)) (of_nat (Suc c)) = None"
    using inv(5) by (simp_all add: receiver_inv_def)
  have cum: "?g i" if "i < m" for i using that pa(2) c(1) by (simp add: got_def has_def)
  have "m \<le> length ?all" using pa(2) c(1) by simp
  from on_ack_inv [OF inv(2,3) n pa(1) this cum pa(3), of now]
  obtain p' where p': "max p m \<le> p'" "sender_inv ?all p' (on_ack (tx_end l) b now)"
    "\<forall>i < length (queue (on_ack (tx_end l) b now)). acked (queue (on_ack (tx_end l) b now) ! i) \<longrightarrow> ?g (p' + i)"
    "\<forall>i. p \<le> i \<and> i < p' \<longrightarrow> ?g i"
    "queue (on_ack (tx_end l) b now) = [] \<or> \<not> acked (hd (queue (on_ack (tx_end l) b now)))" by blast
  have "p' \<le> c"
  proof (rule ccontr)
    assume "\<not> p' \<le> c"
    then have "?g c" using p'(4) inv(1) by simp
    then show False using c(2) by (simp add: got_def has_def del: of_nat_Suc)
  qed
  then show ?thesis by (rule link_invI) (use inv p' in auto)
qed

lemma link_inv_step:
  assumes "link_step l l'" "link_inv l" "length (stream (submitted l')) < 2 ^ 31 - 1"
  shows "link_inv l'"
  using assms
proof (cases rule: link_step.cases)
  case (Tune s bps ql on)
  then show ?thesis using assms(2) tune_frame [OF Tune(2)] by (simp add: link_inv_def Let_def)
qed (auto intro: submit_inv transmit_inv arrive_inv ack_sent_inv ack_arrives_inv)

lemma link_step_submitted: "link_step l l' \<Longrightarrow> length (stream (submitted l)) \<le> length (stream (submitted l'))"
  by (erule link_step.cases) (auto simp: stream_snoc)

lemma link_reachable_inv:
  "link_step\<^sup>*\<^sup>* new_link l \<Longrightarrow> length (stream (submitted l)) < 2 ^ 31 - 1 \<Longrightarrow> link_inv l"
proof (induction rule: rtranclp_induct)
  case base
  then show ?case using link_inv_new by simp
next
  case (step l l')
  then show ?case using link_inv_step link_step_submitted [OF step(2)] by simp
qed

lemma link_inv_delivery:
  assumes "link_inv l"
  shows "prefix (delivered l) (filter ok_size (submitted l))"
    "queue (tx_end l) = [] \<Longrightarrow> delivered l = filter ok_size (submitted l)"
proof -
  let ?all = "stream (submitted l)"
  obtain p c where inv: "p \<le> c" "sender_inv ?all p (tx_end l)" "receiver_inv ?all (delivered l) c (rx_end l)"
    using assms by (rule link_invE)
  have d: "a_done (fold assemble (take c ?all) asm0) = delivered l"
    using inv(3) by (simp add: receiver_inv_def asm_view_def)
  have all: "a_done (fold assemble ?all asm0) = filter ok_size (submitted l)"
    using assemble_stream [of "submitted l"] by (simp add: asm_view_def)
  have "fold assemble ?all asm0 = fold assemble (drop c ?all) (fold assemble (take c ?all) asm0)"
    by (metis append_take_drop_id fold_append comp_apply)
  then show "prefix (delivered l) (filter ok_size (submitted l))"
    using assemble_done_prefix all d by metis
  assume "queue (tx_end l) = []"
  then have "p = length ?all" using inv(2) by (auto simp: sender_inv_def dest: arg_cong [of _ _ length])
  moreover have "c \<le> length ?all" using inv(3) by (simp add: receiver_inv_def)
  ultimately have "take c ?all = ?all" using inv(1) by simp
  then show "delivered l = filter ok_size (submitted l)" using d all by simp
qed

section \<open>Progress\<close>

text \<open>When no chunk of the window is in flight, a poll of an unpaced sender transmits the first.\<close>

definition all_late :: "sender \<Rightarrow> nat \<Rightarrow> bool" where
  "all_late s now \<longleftrightarrow> (\<forall>c \<in> set (queue s). \<forall>t. sent c = Some t \<longrightarrow> t + rto s * 16 \<le> now)"

lemma all_late_times_out:
  assumes "all_late s now" "c \<in> set (queue s)" "in_flight c"
  shows "timed_out (rto s) now c"
proof -
  obtain t where t: "sent c = Some t" using assms(3) by (auto simp: in_flight_def)
  have "(2 :: nat) ^ min (retries c) 4 \<le> 2 ^ 4" by (intro power_increasing) simp_all
  then have "rto s * 2 ^ min (retries c) 4 \<le> rto s * 16" by simp
  moreover have "t + rto s * 16 \<le> now" using assms(1,2) t by (auto simp: all_late_def)
  ultimately have "rto s * 2 ^ min (retries c) 4 \<le> now - t" by linarith
  then show ?thesis by (simp add: timed_out_def t)
qed

lemma exists_late: "\<exists>now. all_late s now"
proof -
  have "\<exists>now. \<forall>c \<in> set cs. \<forall>t. sent c = Some t \<longrightarrow> t + k \<le> now" for cs and k :: nat
  proof (induction cs)
    case (Cons c cs)
    then obtain now where "\<forall>c \<in> set cs. \<forall>t. sent c = Some t \<longrightarrow> t + k \<le> now" by blast
    then show ?case
      by (intro exI [of _ "now + (case sent c of None \<Rightarrow> 0 | Some t \<Rightarrow> t + k)"]) (auto intro: trans_le_add1 split: option.split)
  qed simp
  then show ?thesis by (simp add: all_late_def)
qed

lemma poll_sends_front:
  assumes inv: "sender_inv all p s" and n: "length all < 2 ^ 31" and ne: "queue s \<noteq> []"
    and hd: "\<not> acked (hd (queue s))" and late: "all_late s now" and unpaced: "rate_bps s = None"
    and step: "poll s now = (s', out)"
  shows "out \<noteq> [] \<and> hd out = data_body (of_nat (Suc p)) (all ! p) \<and> rate_bps s' = None"
proof -
  let ?k = "unat (span s)"
  obtain c cs where q: "queue s = c # cs" using ne by (cases "queue s") auto
  have k: "?k \<noteq> 0" by (simp add: span_cases)
  have none: "filter (\<lambda>c. in_flight c \<and> \<not> timed_out (rto s) now c) (take ?k (queue s)) = []"
    using all_late_times_out [OF late] by (auto simp: filter_empty_conv dest: in_set_takeD)
  have m: "0 < cwnd (poll_mid s now)"
    using inv poll_mid_bounds(1) [of s now] by (force simp: sender_inv_def CWND_MIN_def)
  let ?c = "expire (rto s) now c"
  have c: "\<not> (acked ?c \<or> sent ?c \<noteq> None \<and> \<not> lost ?c)"
  proof (cases "in_flight c")
    case True
    then have "timed_out (rto s) now c" using all_late_times_out [OF late] q by simp
    with True show ?thesis by (simp add: expire_def in_flight_def)
  next
    case False
    then show ?thesis using hd q by (auto simp: expire_def in_flight_def)
  qed
  obtain k' where k': "?k = Suc k'" using k by (cases ?k) auto
  have "map (expire (rto s) now) (take ?k (queue s)) = ?c # map (expire (rto s) now) (take k' cs)"
    by (simp add: q k')
  then have "\<exists>o'. snd (poll s now) = body ?c # o'"
    using c m unfolding poll_eq [OF inv n] none Let_def
    by (auto simp: unpaced Let_def split: prod.split)
  moreover have "body ?c = body c" using shape_expire [of "rto s" now c] by (simp add: shape_def)
  moreover have "body c = data_body (of_nat (Suc p)) (all ! p)"
    using inv queue_nth(2) [of "queue s" all p "length all" 0] by (simp add: sender_inv_def q)
  moreover have "rate_bps s' = rate_bps s"
    using step unfolding poll_eq [OF inv n] Let_def by (auto split: prod.splits)
  ultimately show ?thesis using step unpaced by auto
qed

text \<open>From any reachable state of an unpaced link there is a round trip that shrinks the queue.\<close>

lemma link_round_trip:
  assumes "link_inv l" and n: "length (stream (submitted l)) < 2 ^ 31 - 1"
    and ne: "queue (tx_end l) \<noteq> []" and unpaced: "rate_bps (tx_end l) = None"
  shows "\<exists>l'. link_step\<^sup>*\<^sup>* l l' \<and> submitted l' = submitted l \<and> link_inv l' \<and> rate_bps (tx_end l') = None \<and>
    length (queue (tx_end l')) < length (queue (tx_end l))"
  using assms(1)
proof (rule link_invE)
  fix p c
  let ?all = "stream (submitted l)"
  assume inv: "p \<le> c" "sender_inv ?all p (tx_end l)"
    "queue (tx_end l) = [] \<or> \<not> acked (hd (queue (tx_end l)))" "receiver_inv ?all (delivered l) c (rx_end l)"
  have n': "length ?all < 2 ^ 31" using n by simp
  have qlen: "length (queue s) = length ?all - q" if "sender_inv ?all q s" for q s
    using that by (auto simp: sender_inv_def dest: arg_cong [of _ _ length])
  have p: "p < length ?all" using qlen [OF inv(2)] ne by (cases "p < length ?all") auto
  obtain now where late: "all_late (tx_end l) now" using exists_late by blast
  obtain s1 out where poll: "poll (tx_end l) now = (s1, out)" by fastforce
  let ?b = "data_body (of_nat (Suc p)) (?all ! p)"
  have snd: "out \<noteq> []" "hd out = ?b" "rate_bps s1 = None"
    using poll_sends_front [OF inv(2) n' ne _ late unpaced poll] inv(3) ne by auto
  define l1 where "l1 = l\<lparr>tx_end := s1, air := air l @ out\<rparr>"
  have st1: "link_step l l1" "link_inv l1" "?b \<in> set (air l1)"
    unfolding l1_def using Transmit [OF poll] transmit_inv [OF assms(1) n poll] list.set_sel(1) [OF snd(1)] snd(2)
    by auto
  obtain r2 out2 where od: "on_data (rx_end l1) ?b now = (r2, out2)" by fastforce
  define l2 where "l2 = l1\<lparr>rx_end := r2, delivered := delivered l1 @ out2\<rparr>"
  have st2: "link_step l1 l2" "link_inv l2"
    unfolding l2_def using Arrive [OF st1(3) od] arrive_inv [OF st1(2) _ st1(3) od] n by (auto simp: l1_def)
  have "receiver_inv ?all (delivered l1) c (rx_end l1)" using inv(4) by (simp add: l1_def)
  from on_data_inv [OF this n p od] inv(1) obtain c2 where c2: "c \<le> c2" "receiver_inv ?all (delivered l1 @ out2) c2 r2"
    "has c2 (pending r2) p" by auto
  have pc2: "p < c2"
  proof (rule ccontr)
    assume "\<not> p < c2"
    then have "p = c2" using c2(1) inv(1) by simp
    then show False using c2(2,3) by (simp add: receiver_inv_def has_def del: of_nat_Suc)
  qed
  have un: "unacked r2 \<noteq> 0" "first_unacked r2 \<noteq> None"
    using od by (auto simp: on_data_body Let_def split: if_splits prod.splits option.splits)
  then obtain t where t: "first_unacked r2 = Some t" by blast
  then obtain r3 b3 where ak: "ack r2 (t + ACK_DELAY) = (r3, Some b3)" using un by (simp add: ack_def)
  define l3 where "l3 = l2\<lparr>rx_end := r3, acks := acks l2 @ [b3]\<rparr>"
  have ak': "ack (rx_end l2) (t + ACK_DELAY) = (r3, Some b3)" using ak by (simp add: l2_def)
  have n2: "length (stream (submitted l2)) < 2 ^ 31 - 1" using n by (simp add: l2_def l1_def)
  have st3: "link_step l2 l3" "link_inv l3" "b3 \<in> set (acks l3)"
    unfolding l3_def using AckSent [OF ak'] ack_sent_inv [OF st2(2) n2 ak'] by (auto simp: l3_def)
  define l4 where "l4 = l3\<lparr>tx_end := on_ack (tx_end l3) b3 0\<rparr>"
  have n3: "length (stream (submitted l3)) < 2 ^ 31 - 1" using n by (simp add: l3_def l2_def l1_def)
  have st4: "link_step l3 l4" "link_inv l4"
    unfolding l4_def using AckArrives [OF st3(3)] ack_arrives_inv [OF st3(2) n3 st3(3)] by (auto simp: l4_def)
  have pa: "parse_ack b3 = Some (of_nat c2, ack_bits r2)" using ack_truthful(2) [OF c2(2) n ak] .
  have "sender_inv ?all p s1" using sender_inv_poll(1) [OF inv(2) n' poll] .
  moreover have "c2 \<le> length ?all" using c2(2) by (simp add: receiver_inv_def)
  ultimately obtain p' where p': "max p c2 \<le> p'" "sender_inv ?all p' (on_ack s1 b3 0)" "rate_bps (on_ack s1 b3 0) = rate_bps s1"
    using on_ack_inv [OF _ _ n pa, of p s1 "\<lambda>_. True" 0] by auto
  have tx4: "tx_end l4 = on_ack s1 b3 0" by (simp add: l4_def l3_def l2_def l1_def)
  have "length (queue (tx_end l4)) < length (queue (tx_end l))"
    using qlen [OF inv(2)] qlen [OF p'(2)] p'(1) pc2 p by (simp add: tx4)
  moreover have "submitted l4 = submitted l" by (simp add: l4_def l3_def l2_def l1_def)
  moreover have "link_step\<^sup>*\<^sup>* l l4"
    using st1(1) st2(1) st3(1) st4(1) by (meson converse_rtranclp_into_rtranclp rtranclp.rtrancl_refl)
  ultimately show ?thesis using st4(2) p'(3) snd(3) tx4 by (intro exI [of _ l4]) simp
qed

lemma link_can_finish:
  assumes "link_inv l" "length (stream (submitted l)) < 2 ^ 31 - 1" "rate_bps (tx_end l) = None"
  shows "\<exists>l'. link_step\<^sup>*\<^sup>* l l' \<and> submitted l' = submitted l \<and> queue (tx_end l') = [] \<and> link_inv l'"
  using assms
proof (induction "length (queue (tx_end l))" arbitrary: l rule: less_induct)
  case less
  show ?case
  proof (cases "queue (tx_end l) = []")
    case False
    then obtain l1 where l1: "link_step\<^sup>*\<^sup>* l l1" "submitted l1 = submitted l" "link_inv l1"
      "rate_bps (tx_end l1) = None" "length (queue (tx_end l1)) < length (queue (tx_end l))"
      using link_round_trip less.prems by blast
    then show ?thesis using less.hyps [OF l1(5,3)] less.prems by (metis rtranclp_trans)
  qed (use less.prems in blast)
qed

section \<open>Properties\<close>

text \<open>
  C2. The reliable channel delivers the messages in order, each at most once and whole,
  over any link: whatever datagrams are lost, repeated or reordered, what the receiver has delivered is a
  prefix of what was submitted (less the messages above \<open>MAX_MESSAGE\<close>), and when the sender's
  queue is empty it is all of it. The sender's queue invariant holds with it: contiguous
  numbers, the backlog its bytes, nothing sent beyond the span.
\<close>

theorem reliable_delivery:
  assumes "link_step\<^sup>*\<^sup>* new_link l" "length (stream (submitted l)) < 2 ^ 31 - 1"
  shows "prefix (delivered l) (filter ok_size (submitted l)) \<and>
    (queue (tx_end l) = [] \<longrightarrow> delivered l = filter ok_size (submitted l)) \<and>
    (\<exists>p. sender_inv (stream (submitted l)) p (tx_end l))"
proof -
  have inv: "link_inv l" using link_reachable_inv assms by blast
  then show ?thesis using link_inv_delivery [OF inv] by (auto elim: link_invE)
qed


text \<open>A message submitted and on its way.\<close>

definition sample_link :: link where
  "sample_link = new_link\<lparr>tx_end := send new_sender [1, 2, 3], submitted := [[1, 2, 3]]\<rparr>"

lemma sample_link_reachable: "link_step\<^sup>*\<^sup>* new_link sample_link"
  using Submit [of new_link "[1, 2, 3]"] by (simp add: sample_link_def new_link_def)

lemma sample_link_stream: "length (stream (submitted sample_link)) = 1"
  by (simp add: sample_link_def stream_def pieces_def MAX_CHUNK_def MAX_BODY_def MAX_DATAGRAM_def
      OVERHEAD_def HEADER_LEN_def TAG_LEN_def chunks_of_step)

lemma sample_link_unpaced: "rate_bps (tx_end sample_link) = None"
proof -
  have "rate_bps (send_chunk x s) = rate_bps s" for x s by (simp add: send_chunk_def Let_def)
  then have "rate_bps (fold send_chunk xs s) = rate_bps s" for xs s by (induction xs arbitrary: s) simp_all
  then show ?thesis by (simp add: sample_link_def send_def new_sender_def)
qed

text \<open>A run in which the message sent is delivered and acknowledged.\<close>

theorem reliable_delivery_witness:
  "\<exists>l. link_step\<^sup>*\<^sup>* new_link l \<and> submitted l = [[1, 2, 3]] \<and> queue (tx_end l) = [] \<and> delivered l = [[1, 2, 3]]"
proof -
  have short: "length (stream (submitted sample_link)) < 2 ^ 31 - 1" by (simp add: sample_link_stream)
  obtain l where l: "link_step\<^sup>*\<^sup>* sample_link l" "submitted l = submitted sample_link" "queue (tx_end l) = []"
    using link_can_finish [OF link_reachable_inv [OF sample_link_reachable short] short sample_link_unpaced] by blast
  have reach: "link_step\<^sup>*\<^sup>* new_link l" using sample_link_reachable l(1) by (rule rtranclp_trans)
  have "delivered l = filter ok_size (submitted l)" using reliable_delivery [OF reach] short l(2,3) by simp
  moreover have "submitted l = [[1, 2, 3]]" using l(2) by (simp add: sample_link_def)
  ultimately show ?thesis using reach l(3) by (intro exI [of _ l]) (simp add: ok_size_def MAX_MESSAGE_def)
qed


end
