(* ===== verification/Input.thy ===== *)
theory Input
  imports Reorder Wire
begin

text \<open>
  Input events over lossy UDP (\<open>input.rs\<close>): the event codec, the client's \<open>InputSender\<close> that
  merges unsent motion and repeats what is not acknowledged, and the host's \<open>InputReceiver\<close> that
  applies each number once, in order. An \<open>i16\<close> is a 16-bit word read with \<open>sint\<close>.
\<close>

type_synonym i16 = "16 word"

datatype touch_phase = TouchDown | TouchMove | TouchUp | TouchCancel

fun touch_phase_u8 :: "touch_phase \<Rightarrow> u8" where
  "touch_phase_u8 TouchDown = 0" | "touch_phase_u8 TouchMove = 1"
| "touch_phase_u8 TouchUp = 2" | "touch_phase_u8 TouchCancel = 3"

definition touch_phase_from_u8 :: "u8 \<Rightarrow> touch_phase option" where
  "touch_phase_from_u8 b =
    (if b = 0 then Some TouchDown else if b = 1 then Some TouchMove
     else if b = 2 then Some TouchUp else if b = 3 then Some TouchCancel else None)"

datatype input_event =
    Key u16 bool bool
  | MouseAbs u16 u16
  | MouseRel i16 i16
  | Button u8 bool
  | Wheel i16 bool
  | Chr u16 bool
  | SecureAttention
  | Touch u8 touch_phase u16 u16

fun write_event :: "input_event \<Rightarrow> bytes" where
  "write_event (Key scancode extended down) = 1 # u16_le scancode @ [of_bool_u8 extended OR push_bit 1 (of_bool_u8 down)]"
| "write_event (MouseAbs x y) = 2 # u16_le x @ u16_le y"
| "write_event (MouseRel dx dy) = 3 # u16_le dx @ u16_le dy"
| "write_event (Button button down) = [4, button, of_bool_u8 down]"
| "write_event (Wheel delta horizontal) = 5 # u16_le delta @ [of_bool_u8 horizontal]"
| "write_event (Chr code down) = 6 # u16_le code @ [of_bool_u8 down]"
| "write_event SecureAttention = [7]"
| "write_event (Touch i phase x y) = [8, i, touch_phase_u8 phase] @ u16_le x @ u16_le y"

definition read_event :: "bytes \<Rightarrow> (input_event \<times> nat) option" where
  "read_event b = (case index_get b 0 of None \<Rightarrow> None | Some t \<Rightarrow>
    if t = 1 then Option.bind (index_get b 3) (\<lambda>f. Option.bind (u16_le_at b 1) (\<lambda>s.
      Some (Key s (f AND 1 \<noteq> 0) (f AND 2 \<noteq> 0), 4)))
    else if t = 2 then Option.bind (u16_le_at b 1) (\<lambda>x. Option.bind (u16_le_at b 3) (\<lambda>y. Some (MouseAbs x y, 5)))
    else if t = 3 then Option.bind (u16_le_at b 1) (\<lambda>x. Option.bind (u16_le_at b 3) (\<lambda>y. Some (MouseRel x y, 5)))
    else if t = 4 then Option.bind (index_get b 1) (\<lambda>n. Option.bind (index_get b 2) (\<lambda>d. Some (Button n (d \<noteq> 0), 3)))
    else if t = 5 then Option.bind (u16_le_at b 1) (\<lambda>d. Option.bind (index_get b 3) (\<lambda>h. Some (Wheel d (h \<noteq> 0), 4)))
    else if t = 6 then Option.bind (u16_le_at b 1) (\<lambda>c. Option.bind (index_get b 3) (\<lambda>d. Some (Chr c (d \<noteq> 0), 4)))
    else if t = 7 then Some (SecureAttention, 1)
    else if t = 8 then Option.bind (index_get b 1) (\<lambda>i. Option.bind (index_get b 2) (\<lambda>p.
      Option.bind (touch_phase_from_u8 p) (\<lambda>phase. Option.bind (u16_le_at b 3) (\<lambda>x. Option.bind (u16_le_at b 5) (\<lambda>y.
        Some (Touch i phase x y, 7))))))
    else None)"

definition MAX_PER_PACKET :: nat where "MAX_PER_PACKET = (MAX_BODY - 5) div 7"
definition CAPPED_TAIL :: nat where "CAPPED_TAIL = 16"
definition CAPPED_REPEATS :: u8 where "CAPPED_REPEATS = 3"

record input_sender =
  pending :: "(u32 \<times> input_event \<times> u8) list"
  next_seq :: u32
  sent_top :: u32

definition new_input_sender :: input_sender where
  "new_input_sender = \<lparr> pending = [], next_seq = 1, sent_top = 0 \<rparr>"

text \<open>\<open>i16::checked_add\<close>.\<close>

definition checked_add16 :: "i16 \<Rightarrow> i16 \<Rightarrow> i16 option" where
  "checked_add16 a b =
    (let s = sint a + sint b in if - 32768 \<le> s \<and> s \<le> 32767 then Some (word_of_int s) else None)"

definition unsent :: "input_sender \<Rightarrow> u32 \<Rightarrow> bool" where
  "unsent s seq \<longleftrightarrow> sint (seq - sent_top s) > 0"

text \<open>The event the last, unsent one becomes when the new one can be merged into it.\<close>

fun merged :: "input_event \<Rightarrow> input_event \<Rightarrow> input_event option" where
  "merged (MouseRel px py) (MouseRel dx dy) =
    Option.bind (checked_add16 px dx) (\<lambda>x. Option.bind (checked_add16 py dy) (\<lambda>y. Some (MouseRel x y)))"
| "merged (MouseAbs _ _) (MouseAbs x y) = Some (MouseAbs x y)"
| "merged (Touch j TouchMove _ _) (Touch i TouchMove x y) = (if j = i then Some (Touch i TouchMove x y) else None)"
| "merged _ _ = None"

definition push :: "input_sender \<Rightarrow> input_event \<Rightarrow> input_sender" where
  "push s ev =
    (let fresh = s\<lparr>pending := pending s @ [(next_seq s, ev, 0)], next_seq := next_seq s + 1\<rparr>
     in if pending s = [] then fresh
        else
          (let (seq, last_ev, sends) = last (pending s)
           in if unsent s seq
              then (case merged last_ev ev of
                      Some m \<Rightarrow> s\<lparr>pending := butlast (pending s) @ [(seq, m, sends)]\<rparr>
                    | None \<Rightarrow> fresh)
              else fresh))"

definition ack :: "input_sender \<Rightarrow> u32 \<Rightarrow> input_sender" where
  "ack s seq = s\<lparr>pending := filter (\<lambda>e. sint (fst e - seq) > 0) (pending s)\<rparr>"

definition is_motion :: "input_event \<Rightarrow> bool" where
  "is_motion e = (case e of MouseRel _ _ \<Rightarrow> True | MouseAbs _ _ \<Rightarrow> True | Touch _ TouchMove _ _ \<Rightarrow> True | _ \<Rightarrow> False)"

definition unsent_motion :: "input_sender \<Rightarrow> bool option" where
  "unsent_motion s =
    (let fresh = filter (\<lambda>e. unsent s (fst e)) (pending s)
     in if fresh = [] then None else Some (list_all (\<lambda>(_, e, _). is_motion e) fresh))"

definition wants_repeat :: "input_sender \<Rightarrow> bool" where
  "wants_repeat s = list_ex (\<lambda>(_, e, sends). 1 \<le> sends \<and> sends < CAPPED_REPEATS \<and> \<not> is_motion e) (pending s)"

text \<open>One packet body, and the loop over the chunks sent.\<close>

definition event_body :: "(u32 \<times> input_event \<times> u8) list \<Rightarrow> bytes" where
  "event_body es = u32_le (fst (hd es)) @ [of_nat (length es)] @ concat (map (\<lambda>(_, e, _). write_event e) es)"

definition saturating_inc :: "u8 \<Rightarrow> u8" where
  "saturating_inc b = (if b = 255 then 255 else b + 1)"

definition advance_sent :: "(u32 \<times> input_event \<times> u8) list \<Rightarrow> u32 \<Rightarrow> u32" where
  "advance_sent es t = (if sint (fst (last es) - t) > 0 then fst (last es) else t)"

definition packets_from :: "input_sender \<Rightarrow> nat \<Rightarrow> nat \<Rightarrow> input_sender \<times> bytes list" where
  "packets_from s start max_packets =
    (if start > length (pending s) then (s, [])
     else
       (let groups = take max_packets (chunks_of MAX_PER_PACKET (drop start (pending s)));
            touched = length (concat groups)
        in (s\<lparr>pending := take start (pending s)
                @ map (\<lambda>(q, e, n). (q, e, saturating_inc n)) (take touched (drop start (pending s)))
                @ drop (start + touched) (pending s),
              sent_top := fold advance_sent groups (sent_top s)\<rparr>,
            map event_body groups)))"

definition packets :: "input_sender \<Rightarrow> nat \<Rightarrow> input_sender \<times> bytes list" where
  "packets s max_packets = packets_from s 0 max_packets"

definition packet :: "input_sender \<Rightarrow> input_sender \<times> bytes option" where
  "packet s = (let (s', bodies) = packets s 1 in (s', if bodies = [] then None else Some (last bodies)))"

definition has_pending :: "input_sender \<Rightarrow> bool" where
  "has_pending s \<longleftrightarrow> pending s \<noteq> []"

text \<open>\<open>position\<close>: the first index that satisfies the test.\<close>

definition position :: "('a \<Rightarrow> bool) \<Rightarrow> 'a list \<Rightarrow> nat option" where
  "position P xs = (let n = length (takeWhile (\<lambda>x. \<not> P x) xs) in if n < length xs then Some n else None)"

definition capped_start :: "input_sender \<Rightarrow> nat" where
  "capped_start s =
    (let tail = length (pending s) - CAPPED_TAIL
     in case position (\<lambda>(_, _, sends). sends < CAPPED_REPEATS) (pending s) of
          Some i \<Rightarrow> min i tail | None \<Rightarrow> tail)"

definition capped_packets :: "input_sender \<Rightarrow> nat \<Rightarrow> input_sender \<times> bytes list" where
  "capped_packets s max_packets = packets_from s (capped_start s) max_packets"

text \<open>The host's loop: \<open>n\<close> events to go, \<open>seq\<close> the number of the next one in the body.\<close>

fun receive_loop :: "nat \<Rightarrow> u32 \<Rightarrow> bytes \<Rightarrow> u32 \<Rightarrow> input_event list \<times> u32" where
  "receive_loop 0 seq rest applied = ([], applied)"
| "receive_loop (Suc n) seq rest applied =
    (case read_event rest of
       None \<Rightarrow> ([], applied)
     | Some (ev, used) \<Rightarrow>
         (let d = sint (seq - applied)
          in if d = 1 then (let (out, a) = receive_loop n (seq + 1) (drop used rest) seq in (ev # out, a))
             else if d > 1 then ([], applied)
             else receive_loop n (seq + 1) (drop used rest) applied))"

definition receive :: "u32 \<Rightarrow> bytes \<Rightarrow> input_event list \<times> u32" where
  "receive applied body =
    (if length body < 5 then ([], applied)
     else receive_loop (unat (body ! 4)) (u32_of_le (take 4 body)) (drop 5 body) applied)"

section \<open>The event codec\<close>

lemma key_flags: "(of_bool_u8 e OR push_bit 1 (of_bool_u8 d)) AND 1 \<noteq> 0 \<longleftrightarrow> e"
  "(of_bool_u8 e OR push_bit 1 (of_bool_u8 d)) AND 2 \<noteq> 0 \<longleftrightarrow> d"
  by (cases e; cases d; simp add: of_bool_u8_def)+

lemma touch_phase_roundtrip [simp]: "touch_phase_from_u8 (touch_phase_u8 p) = Some p"
  by (cases p) (simp_all add: touch_phase_from_u8_def)

lemma read_write_event: "read_event (write_event e @ rest) = Some (e, length (write_event e))"
  by (cases e) (simp_all add: read_event_def codec_simps drop_Cons' take_Cons' nth_append nth_Cons' key_flags [simplified])

lemma write_event_size: "0 < length (write_event e) \<and> length (write_event e) \<le> 7"
  by (cases e) simp_all

section \<open>The sender's queue\<close>

text \<open>
  The events numbered so far are \<open>all\<close> (event \<open>i\<close> has number \<open>i + 1\<close>); the first \<open>n\<close> have
  been acknowledged, and the first \<open>t\<close> have been in a packet.
\<close>

definition numbered :: "input_event list \<Rightarrow> nat \<Rightarrow> (u32 \<times> input_event) list" where
  "numbered all n = map (\<lambda>i. (of_nat (Suc i), all ! i)) [n..<length all]"

definition plain :: "(u32 \<times> input_event \<times> u8) list \<Rightarrow> (u32 \<times> input_event) list" where
  "plain p = map (\<lambda>(q, e, c). (q, e)) p"

definition input_queue :: "input_event list \<Rightarrow> nat \<Rightarrow> nat \<Rightarrow> input_sender \<Rightarrow> bool" where
  "input_queue all n t s \<longleftrightarrow> length all < 2 ^ 31 - 1 \<and> n \<le> t \<and> t \<le> length all \<and>
     plain (pending s) = numbered all n \<and> next_seq s = of_nat (Suc (length all)) \<and> sent_top s = of_nat t"

text \<open>A packet of events \<open>i\<close> to \<open>j - 1\<close>.\<close>

definition packet_of :: "input_event list \<Rightarrow> nat \<Rightarrow> nat \<Rightarrow> bytes" where
  "packet_of all i j = u32_le (of_nat (Suc i)) @ [of_nat (j - i)] @ concat (map write_event (take (j - i) (drop i all)))"

lemma plain_simps [simp]:
  "plain [] = []" "plain (p @ q) = plain p @ plain q" "length (plain p) = length p"
  "plain (x # p) = (fst x, fst (snd x)) # plain p"
  "plain (take m p) = take m (plain p)" "plain (drop m p) = drop m (plain p)"
  by (simp_all add: plain_def case_prod_unfold take_map drop_map)

lemma plain_inc: "plain (map (\<lambda>(q, e, c). (q, e, f c)) p) = plain p"
  by (simp add: plain_def case_prod_unfold comp_def)

lemma length_numbered [simp]: "length (numbered all n) = length all - n"
  by (simp add: numbered_def)

lemma numbered_snoc: "n \<le> length all \<Longrightarrow> numbered (all @ [e]) n = numbered all n @ [(of_nat (Suc (length all)), e)]"
  by (auto simp: numbered_def nth_append)

lemma numbered_butlast: "numbered (butlast all) n = butlast (numbered all n)"
proof (cases all rule: rev_cases)
  case (snoc xs x)
  then show ?thesis by (cases "n \<le> length xs") (simp_all add: numbered_snoc, simp add: numbered_def)
qed (simp add: numbered_def)

lemma last_numbered: "n < length all \<Longrightarrow> last (numbered all n) = (of_nat (length all), last all)"
  by (cases all rule: rev_cases) (simp_all add: numbered_snoc)

lemma sint_gt_u32: "a < 2 ^ 31 \<Longrightarrow> b < 2 ^ 31 \<Longrightarrow> sint (of_nat a - of_nat b :: u32) > 0 \<longleftrightarrow> b < a"
  by (simp add: sint_diff_u32)

lemma input_queue_new: "input_queue [] 0 0 new_input_sender"
  by (simp add: input_queue_def new_input_sender_def numbered_def plain_def)

text \<open>The stream after a push.\<close>

definition pushed :: "input_event list \<Rightarrow> nat \<Rightarrow> nat \<Rightarrow> input_event \<Rightarrow> input_event list" where
  "pushed all n t ev =
    (if n < length all \<and> t < length all
     then (case merged (last all) ev of Some m \<Rightarrow> butlast all @ [m] | None \<Rightarrow> all @ [ev])
     else all @ [ev])"

lemma push_inv:
  assumes inv: "input_queue all n t s" and room: "length (pushed all n t ev) < 2 ^ 31 - 1"
  shows "input_queue (pushed all n t ev) n t (push s ev)"
proof -
  have b: "length all < 2 ^ 31 - 1" "n \<le> t" "t \<le> length all" "plain (pending s) = numbered all n"
    "next_seq s = of_nat (Suc (length all))" "sent_top s = of_nat t"
    using inv by (simp_all add: input_queue_def)
  define fresh where "fresh = s\<lparr>pending := pending s @ [(next_seq s, ev, 0)], next_seq := next_seq s + 1\<rparr>"
  have fresh: "input_queue (all @ [ev]) n t fresh" if "length (all @ [ev]) < 2 ^ 31 - 1"
    using b that by (simp add: input_queue_def fresh_def numbered_snoc)
  have len: "length (pending s) = length all - n" using b(4) by (metis plain_simps(3) length_numbered)
  show ?thesis
  proof (cases "n < length all")
    case False
    then show ?thesis using fresh room len b(2,3) by (simp add: push_def pushed_def fresh_def Let_def)
  next
    case True
    obtain q e c where l: "last (pending s) = (q, e, c)" by (cases "last (pending s)")
    have ne: "pending s \<noteq> []" using True len by auto
    then have split: "pending s = butlast (pending s) @ [(q, e, c)]" using l by (metis append_butlast_last_id)
    have "plain (pending s) = plain (butlast (pending s)) @ [(q, e)]" by (subst split) simp
    then have pl: "plain (butlast (pending s)) = butlast (numbered all n)" and "(q, e) = last (numbered all n)"
      using b(4) by (metis butlast_snoc) (metis b(4) last_snoc \<open>plain (pending s) = plain (butlast (pending s)) @ [(q, e)]\<close>)
    then have qe: "q = of_nat (length all)" "e = last all" using last_numbered [OF True] by simp_all
    have uns: "unsent s q \<longleftrightarrow> t < length all" using b by (simp add: unsent_def qe sint_gt_u32)
    have step: "push s ev = (if t < length all then (case merged (last all) ev of
        Some m \<Rightarrow> s\<lparr>pending := butlast (pending s) @ [(q, m, c)]\<rparr> | None \<Rightarrow> fresh) else fresh)"
      using ne by (simp add: push_def l uns fresh_def [symmetric] Let_def qe(2))
    show ?thesis
    proof (cases "t < length all \<and> merged (last all) ev \<noteq> None")
      case False
      then have "push s ev = fresh" "pushed all n t ev = all @ [ev]"
        unfolding step pushed_def by (auto split: option.splits)
      then show ?thesis using fresh room by simp
    next
      case m: True
      then obtain m where m': "merged (last all) ev = Some m" by auto
      have "numbered (butlast all @ [m]) n = butlast (numbered all n) @ [(of_nat (length all), m)]"
        using True by (simp add: numbered_snoc numbered_butlast Suc_leI)
      moreover have "length (butlast all @ [m]) = length all" using True by simp
      ultimately show ?thesis using m m' True b pl
        by (simp add: step pushed_def input_queue_def qe(1) del: length_butlast length_append)
    qed
  qed
qed

lemma ack_inv:
  assumes inv: "input_queue all n t s" and k: "k \<le> t"
  shows "input_queue all (max n k) t (ack s (of_nat k))"
proof -
  have b: "length all < 2 ^ 31 - 1" "n \<le> t" "t \<le> length all" "plain (pending s) = numbered all n"
    using inv by (simp_all add: input_queue_def)
  have "plain (filter (\<lambda>e. sint (fst e - of_nat k) > 0) p) = filter (\<lambda>x. sint (fst x - of_nat k) > 0) (plain p)" for p
    by (induction p) auto
  then have "plain (pending (ack s (of_nat k))) = filter (\<lambda>x. sint (fst x - of_nat k) > 0) (numbered all n)"
    using b(4) by (simp add: ack_def)
  also have "\<dots> = map (\<lambda>i. (of_nat (Suc i), all ! i)) (filter (\<lambda>i. sint (of_nat (Suc i) - of_nat k :: u32) > 0) [n..<length all])"
    by (simp add: numbered_def filter_map comp_def del: of_nat_Suc)
  also have "filter (\<lambda>i. sint (of_nat (Suc i) - of_nat k :: u32) > 0) [n..<length all] = filter (\<lambda>i. k \<le> i) [n..<length all]"
    using b k by (intro filter_cong refl) (auto simp: sint_gt_u32 simp del: of_nat_Suc)
  also have "filter (\<lambda>i. k \<le> i) [n..<length all] = [max n k..<length all]"
  proof (rule map_sorted_distinct_set_unique [where f = id])
  qed (auto simp: sorted_wrt_filter)
  finally show ?thesis using inv k by (simp add: input_queue_def numbered_def ack_def)
qed

section \<open>Packets\<close>

lemma chunks_of_nth:
  assumes "0 < m"
  shows "i < length (chunks_of m xs) \<Longrightarrow> chunks_of m xs ! i = take m (drop (i * m) xs) \<and> i * m < length xs"
proof (induction m xs arbitrary: i rule: chunks_of.induct)
  case (1 m xs)
  show ?case
  proof (cases "m = 0 \<or> xs = []")
    case False
    then have c: "chunks_of m xs = take m xs # chunks_of m (drop m xs)" by (simp add: chunks_of_step)
    show ?thesis
    proof (cases i)
      case (Suc j)
      then have "j < length (chunks_of m (drop m xs))" using "1.prems" c by simp
      from "1.IH" [OF False this] show ?thesis using Suc by (auto simp: c add.commute)
    qed (use False c in simp)
  qed (use "1.prems" in \<open>auto simp: chunks_of.simps\<close>)
qed

lemma take_concat_chunks:
  assumes "0 < m"
  shows "take g (chunks_of m xs) = chunks_of m (take (g * m) xs)"
  using assms
proof (induction g arbitrary: xs)
  case (Suc g)
  show ?case
  proof (cases "xs = []")
    case False
    then show ?thesis using Suc by (simp add: chunks_of_step drop_take min_def)
  qed simp
qed simp

lemma MAX_PER_PACKET_bounds: "0 < MAX_PER_PACKET" "MAX_PER_PACKET \<le> 255"
  by (simp_all add: MAX_PER_PACKET_def MAX_BODY_def MAX_DATAGRAM_def OVERHEAD_def HEADER_LEN_def TAG_LEN_def)

text \<open>Each packet is a run of the stream, and raises the top to its end.\<close>

lemma group_is_run:
  assumes p: "plain es = take (length es) (drop i (numbered all n))" and es: "es \<noteq> []" and n: "n \<le> length all"
    and len: "n + i + length es \<le> length all"
  shows "event_body es = packet_of all (n + i) (n + i + length es)"
    and "fst (last es) = of_nat (n + i + length es)"
proof -
  have run: "plain es = map (\<lambda>j. (of_nat (Suc j), all ! j)) [n + i..<n + i + length es]"
    using p len by (simp add: numbered_def drop_map take_map)
  have evs: "map (\<lambda>(q, e, c). e) es = map snd (plain es)" "map fst es = map fst (plain es)"
    by (simp_all add: plain_def case_prod_unfold)
  have "map (\<lambda>(q, e, c). write_event e) es = map write_event (map (\<lambda>(q, e, c). e) es)" by (simp add: case_prod_unfold)
  also have "\<dots> = map write_event (map ((!) all) [n + i..<n + i + length es])" unfolding evs(1) run by simp
  also have "map ((!) all) [n + i..<n + i + length es] = take (length es) (drop (n + i) all)"
    using len by (intro nth_equalityI) simp_all
  finally have body: "map (\<lambda>(q, e, c). write_event e) es = map write_event (take (length es) (drop (n + i) all))" .
  have "fst (hd es) = hd (map fst es)" using es by (simp add: hd_map)
  also have "\<dots> = of_nat (Suc (n + i))" using es unfolding evs(2) run by (simp add: hd_map)
  finally show "event_body es = packet_of all (n + i) (n + i + length es)"
    by (simp add: event_body_def packet_of_def body)
  have "fst (last es) = last (map fst es)" using es by (simp add: last_map)
  also have "\<dots> = of_nat (n + i + length es)"
  proof -
    obtain m where m: "length es = Suc m" using es by (cases es) auto
    show ?thesis unfolding evs(2) run m by simp
  qed
  finally show "fst (last es) = of_nat (n + i + length es)" .
qed

lemma fold_advance_sent:
  assumes "\<forall>g \<in> set gs. \<exists>e \<le> L. fst (last g) = of_nat e" "t \<le> L" "L < 2 ^ 31"
  shows "\<exists>t'. t \<le> t' \<and> t' \<le> L \<and> fold advance_sent gs (of_nat t) = of_nat t' \<and>
    (\<forall>g \<in> set gs. \<forall>e \<le> L. fst (last g) = of_nat e \<longrightarrow> e \<le> t')"
  using assms
proof (induction gs arbitrary: t)
  case (Cons g gs)
  then obtain e where e: "e \<le> L" "fst (last g) = of_nat e" by auto
  have adv: "advance_sent g (of_nat t) = of_nat (max t e)"
    using e Cons.prems by (auto simp: advance_sent_def sint_gt_u32 max_def)
  have uniq: "e' = e" if "e' \<le> L" "fst (last g) = of_nat e'" for e'
    using that e Cons.prems(3) of_nat_eq_u32 [of e' e] by simp
  obtain t' where "max t e \<le> t'" "t' \<le> L" "fold advance_sent gs (of_nat (max t e)) = of_nat t'"
    "\<forall>g \<in> set gs. \<forall>e \<le> L. fst (last g) = of_nat e \<longrightarrow> e \<le> t'"
    using Cons.IH [of "max t e"] Cons.prems e(1) by auto
  then show ?case using adv uniq by (intro exI [of _ t']) auto
qed auto

lemma packets_from_inv:
  assumes inv: "input_queue all n t s"
  shows "\<exists>t'. t \<le> t' \<and> input_queue all n t' (fst (packets_from s start mp)) \<and>
    (\<forall>g < length (snd (packets_from s start mp)). \<exists>i j. i < j \<and> j \<le> t' \<and> j - i \<le> MAX_PER_PACKET \<and>
       i = n + start + g * MAX_PER_PACKET \<and> j = min (i + MAX_PER_PACKET) (length all) \<and>
       snd (packets_from s start mp) ! g = packet_of all i j)"
proof (cases "start > length (pending s)")
  case True
  then show ?thesis using inv by (intro exI [of _ t]) (simp add: packets_from_def)
next
  case False
  let ?M = MAX_PER_PACKET
  have b: "length all < 2 ^ 31 - 1" "n \<le> t" "t \<le> length all" "plain (pending s) = numbered all n" "sent_top s = of_nat t"
    using inv by (simp_all add: input_queue_def)
  have len: "length (pending s) = length all - n" using b(4) by (metis plain_simps(3) length_numbered)
  define rest where "rest = drop start (pending s)"
  define groups where "groups = take mp (chunks_of ?M rest)"
  define s' where "s' = fst (packets_from s start mp)"
  have out: "snd (packets_from s start mp) = map event_body groups"
    "sent_top s' = fold advance_sent groups (of_nat t)" "next_seq s' = next_seq s"
    using False by (simp_all add: packets_from_def groups_def rest_def s'_def Let_def b(5))
  have rejoin: "take start P @ take m (drop start P) @ drop (start + m) P = P" for m and P :: "'c list"
    by (metis append_take_drop_id drop_drop add.commute)
  have same: "plain (pending s') = plain (pending s)"
    using False by (simp add: s'_def packets_from_def Let_def plain_inc rejoin)
  have g: "event_body (groups ! i) = packet_of all (n + start + i * ?M) (min (n + start + i * ?M + ?M) (length all)) \<and>
      fst (last (groups ! i)) = of_nat (min (n + start + i * ?M + ?M) (length all)) \<and> n + start + i * ?M < length all"
    if "i < length groups" for i
  proof -
    have "i < length (chunks_of ?M rest)" using that by (simp add: groups_def)
    from chunks_of_nth [OF MAX_PER_PACKET_bounds(1) this]
    have gi: "groups ! i = take ?M (drop (start + i * ?M) (pending s))" "i * ?M < length rest"
      using that by (simp_all add: groups_def rest_def add.commute)
    then have lt: "n + (start + i * ?M) < length all" using len False by (simp add: rest_def)
    let ?es = "groups ! i"
    have le: "length ?es = min ?M (length all - (n + (start + i * ?M)))" using gi(1) len by simp
    have "plain ?es = take (length ?es) (drop (start + i * ?M) (numbered all n))"
      using gi(1) b(4) len by (simp add: min_def)
    moreover have "?es \<noteq> []" using le lt MAX_PER_PACKET_bounds(1) by auto
    moreover have "n + (start + i * ?M) + length ?es = min (n + start + i * ?M + ?M) (length all)" using le lt by simp
    ultimately show ?thesis using group_is_run [of ?es "start + i * ?M" all n] b(2,3) lt
      by (simp add: add.assoc)
  qed
  have "\<forall>es \<in> set groups. \<exists>e \<le> length all. fst (last es) = of_nat e"
    using g by (metis in_set_conv_nth min.cobounded2)
  then obtain t' where t': "t \<le> t'" "t' \<le> length all" "fold advance_sent groups (of_nat t) = of_nat t'"
    "\<forall>es \<in> set groups. \<forall>e \<le> length all. fst (last es) = of_nat e \<longrightarrow> e \<le> t'"
    using fold_advance_sent [of groups "length all" t] b(1,3) by auto
  have top: "min (n + start + i * ?M + ?M) (length all) \<le> t'" if "i < length groups" for i
    using t'(4) g [OF that] that by (meson min.cobounded2 nth_mem)
  show ?thesis
  proof (rule exI [of _ t'], intro conjI allI impI)
    show "input_queue all n t' (fst (packets_from s start mp))"
      using inv t' same out by (simp add: input_queue_def s'_def)
    fix i assume "i < length (snd (packets_from s start mp))"
    then have i: "i < length groups" using out(1) by simp
    show "\<exists>a c. a < c \<and> c \<le> t' \<and> c - a \<le> ?M \<and> a = n + start + i * ?M \<and> c = min (a + ?M) (length all) \<and>
        snd (packets_from s start mp) ! i = packet_of all a c"
      using g [OF i] top [OF i] i out(1) MAX_PER_PACKET_bounds(1) by auto
  qed (use t'(1) in simp)
qed

section \<open>The host\<close>

lemma receive_loop_run:
  assumes "i + m \<le> length all" "k \<le> length all" "length all < 2 ^ 31 - 1"
  shows "receive_loop m (of_nat (Suc i)) (concat (map write_event (take m (drop i all)))) (of_nat k) =
    (if i \<le> k then (drop k (take (i + m) all), of_nat (max k (i + m))) else ([], of_nat k))"
  using assms
proof (induction m arbitrary: i k)
  case (Suc m)
  have i: "i < length all" using Suc.prems(1) by simp
  then have d: "take (Suc m) (drop i all) = all ! i # take m (drop (Suc i) all)" by (simp add: Cons_nth_drop_Suc [symmetric])
  have diff: "sint (of_nat (Suc i) - of_nat k :: u32) = int (Suc i) - int k"
    using i Suc.prems by (intro sint_diff_u32) simp_all
  have nxt: "(of_nat (Suc i) + 1 :: u32) = of_nat (Suc (Suc i))" by simp
  note IH = Suc.IH [of "Suc i"]
  consider "k = i" | "k < i" | "i < k" by linarith
  then show ?case
  proof cases
    case 1
    have "drop i (take (i + Suc m) all) = all ! i # drop (Suc i) (take (Suc i + m) all)"
      using i by (simp add: Cons_nth_drop_Suc [symmetric] min_def)
    then show ?thesis using 1 IH [of "Suc i"] Suc.prems i diff
      by (simp add: d read_write_event nxt Let_def del: of_nat_Suc)
  next
    case 2
    then show ?thesis using diff by (simp add: d read_write_event Let_def del: of_nat_Suc)
  next
    case 3
    then show ?thesis using IH [of k] Suc.prems i diff
      by (simp add: d read_write_event nxt Let_def del: of_nat_Suc)
  qed
qed simp

lemma receive_packet:
  assumes "i < j" "j \<le> length all" "j - i \<le> MAX_PER_PACKET" "k \<le> length all" "length all < 2 ^ 31 - 1"
  shows "receive (of_nat k) (packet_of all i j) =
    (if i \<le> k then (drop k (take j all), of_nat (max k j)) else ([], of_nat k))"
proof -
  have "unat (of_nat (j - i) :: u8) = j - i" using assms(3) MAX_PER_PACKET_bounds(2) by (simp add: unat_of_nat)
  moreover have "packet_of all i j ! 4 = of_nat (j - i)" by (simp add: packet_of_def nth_append)
  moreover have "take 4 (packet_of all i j) = u32_le (of_nat (Suc i))" by (simp add: packet_of_def del: of_nat_Suc)
  moreover have "drop 5 (packet_of all i j) = concat (map write_event (take (j - i) (drop i all)))" by (simp add: packet_of_def)
  moreover have "5 \<le> length (packet_of all i j)" by (simp add: packet_of_def)
  moreover have "i + (j - i) = j" using assms(1) by simp
  ultimately show ?thesis using receive_loop_run [of i "j - i" all k] assms by (simp add: receive_def del: of_nat_Suc)
qed

section \<open>What a list of events does\<close>

text \<open>
  The pointer as its last absolute place and the relative motion since, each finger's last place,
  and every other event with what the pointer and the fingers were when it happened.
\<close>

record pointing =
  pointer :: "(u16 \<times> u16) option \<times> int \<times> int"
  fingers :: "u8 \<Rightarrow> (u16 \<times> u16) option"
  happened :: "(input_event \<times> ((u16 \<times> u16) option \<times> int \<times> int) \<times> (u8 \<Rightarrow> (u16 \<times> u16) option)) list"

fun apply_event :: "input_event \<Rightarrow> pointing \<Rightarrow> pointing" where
  "apply_event (MouseAbs x y) p = p\<lparr>pointer := (Some (x, y), 0, 0)\<rparr>"
| "apply_event (MouseRel dx dy) p =
    (case pointer p of (a, x, y) \<Rightarrow> p\<lparr>pointer := (a, x + sint dx, y + sint dy)\<rparr>)"
| "apply_event (Touch i TouchMove x y) p = p\<lparr>fingers := (fingers p)(i := Some (x, y))\<rparr>"
| "apply_event e p = p\<lparr>happened := happened p @ [(e, pointer p, fingers p)]\<rparr>"

definition effect :: "input_event list \<Rightarrow> pointing" where
  "effect es = fold apply_event es \<lparr> pointer = (None, 0, 0), fingers = \<lambda>_. None, happened = [] \<rparr>"

lemma checked_add16_sint: "checked_add16 a b = Some c \<Longrightarrow> sint c = sint a + sint b"
  using int_word_sint [where 'a = 16, of "sint a + sint b"] by (auto simp: checked_add16_def Let_def split: if_splits)

lemma merged_effect: "merged e ev = Some m \<Longrightarrow> apply_event m p = apply_event ev (apply_event e p)"
  by (induction e ev rule: merged.induct)
    (auto split: if_splits prod.splits simp: bind_eq_Some_conv dest!: checked_add16_sint)

lemma pushed_effect: "effect (pushed all n t ev) = apply_event ev (effect all)"
proof (cases all rule: rev_cases)
  case (snoc xs x)
  then show ?thesis by (auto simp: pushed_def effect_def merged_effect split: option.splits)
qed (simp add: pushed_def effect_def)

lemma pushed_simps: "t \<le> length all \<Longrightarrow> take t (pushed all n t ev) = take t all"
  "length all \<le> length (pushed all n t ev)" "length (pushed all n t ev) \<le> Suc (length all)"
  by (auto simp: pushed_def take_butlast split: option.splits)

section \<open>The two ends over a lossy link\<close>

record input_link =
  sender :: input_sender
  applied_seq :: u32
  air :: "bytes list"
  told :: "u32 list"
  performed :: "input_event list"
  typed :: "input_event list"

definition new_input_link :: input_link where
  "new_input_link = \<lparr> sender = new_input_sender, applied_seq = 0, air = [], told = [], performed = [], typed = [] \<rparr>"

definition input_push :: "input_event \<Rightarrow> input_link \<Rightarrow> input_link" where
  "input_push ev l = l\<lparr>sender := push (sender l) ev, typed := typed l @ [ev]\<rparr>"

definition input_send :: "(input_sender \<Rightarrow> input_sender \<times> bytes list) \<Rightarrow> input_link \<Rightarrow> input_link" where
  "input_send f l = (let (s, bodies) = f (sender l) in l\<lparr>sender := s, air := air l @ bodies\<rparr>)"

definition input_deliver :: "bytes \<Rightarrow> input_link \<Rightarrow> input_link" where
  "input_deliver b l =
    (let (out, a) = receive (applied_seq l) b
     in l\<lparr>applied_seq := a, told := a # told l, performed := performed l @ out\<rparr>)"

definition input_ack :: "u32 \<Rightarrow> input_link \<Rightarrow> input_link" where
  "input_ack q l = l\<lparr>sender := ack (sender l) q\<rparr>"

text \<open>
  A packet in the air is delivered any number of times, in any order, or never, and so is a number
  the host reported. Fewer than \<open>2 ^ 31 - 1\<close> events are numbered.
\<close>

inductive input_reach :: "input_link \<Rightarrow> bool" where
  start: "input_reach new_input_link"
| push: "input_reach l \<Longrightarrow> next_seq (sender l) < 0x7FFFFFFF \<Longrightarrow> input_reach (input_push ev l)"
| send: "input_reach l \<Longrightarrow> input_reach (input_send (\<lambda>s. packets s m) l)"
| send_capped: "input_reach l \<Longrightarrow> input_reach (input_send (\<lambda>s. capped_packets s m) l)"
| deliver: "input_reach l \<Longrightarrow> b \<in> set (air l) \<Longrightarrow> input_reach (input_deliver b l)"
| ack: "input_reach l \<Longrightarrow> q \<in> set (told l) \<Longrightarrow> input_reach (input_ack q l)"

definition input_inv :: "input_event list \<Rightarrow> nat \<Rightarrow> nat \<Rightarrow> nat \<Rightarrow> input_link \<Rightarrow> bool" where
  "input_inv all n k t l \<longleftrightarrow> input_queue all n t (sender l) \<and> n \<le> k \<and> k \<le> t \<and>
     applied_seq l = of_nat k \<and> performed l = take k all \<and> effect all = effect (typed l) \<and>
     (\<forall>b \<in> set (air l). \<exists>i j. i < j \<and> j \<le> t \<and> j - i \<le> MAX_PER_PACKET \<and> b = packet_of all i j) \<and>
     (\<forall>q \<in> set (told l). \<exists>m \<le> k. q = of_nat m)"

lemma input_inv_bounds: "input_inv all n k t l \<Longrightarrow> t \<le> length all" "input_inv all n k t l \<Longrightarrow> length all < 2 ^ 31 - 1"
  by (simp_all add: input_inv_def input_queue_def)

lemma packet_of_cong: "take t all' = take t all \<Longrightarrow> j \<le> t \<Longrightarrow> i < j \<Longrightarrow> packet_of all' i j = packet_of all i j"
proof -
  assume a: "take t all' = take t all" "j \<le> t" "i < j"
  have "take (j - i) (drop i xs) = drop i (take j (take t xs))" for xs :: "input_event list"
    using a(2,3) by (simp add: drop_take min_def)
  then show ?thesis by (simp only: packet_of_def a(1))
qed

lemma input_push_inv:
  assumes inv: "input_inv all n k t l" and room: "next_seq (sender l) < 0x7FFFFFFF"
  shows "input_inv (pushed all n t ev) n k t (input_push ev l)"
proof -
  have "next_seq (sender l) = of_nat (Suc (length all))" using inv by (simp add: input_inv_def input_queue_def)
  then have "Suc (length all) < 2 ^ 31 - 1"
    using room input_inv_bounds(2) [OF inv] by (simp add: word_less_nat_alt unat_of_nat del: of_nat_Suc)
  then have "length (pushed all n t ev) < 2 ^ 31 - 1" using pushed_simps(3) [of all n t ev] by linarith
  then have s: "input_queue (pushed all n t ev) n t (push (sender l) ev)" using inv by (intro push_inv) (simp_all add: input_inv_def)
  have tk: "take t (pushed all n t ev) = take t all" using input_inv_bounds(1) [OF inv] by (rule pushed_simps(1))
  have "take k (pushed all n t ev) = take k (take t (pushed all n t ev))" using inv by (simp add: input_inv_def min_def)
  also have "\<dots> = take k all" using inv by (simp add: tk input_inv_def min_def)
  finally have k: "take k (pushed all n t ev) = take k all" .
  have e: "effect (typed l @ [ev]) = apply_event ev (effect (typed l))" by (simp add: effect_def)
  have air: "\<exists>i j. i < j \<and> j \<le> t \<and> j - i \<le> MAX_PER_PACKET \<and> b = packet_of (pushed all n t ev) i j" if "b \<in> set (air l)" for b
    using that inv packet_of_cong [OF tk] unfolding input_inv_def by metis
  show ?thesis using inv s air by (simp add: input_inv_def input_push_def k e pushed_effect)
qed

lemma input_send_inv:
  assumes inv: "input_inv all n k t l"
  shows "\<exists>t'. input_inv all n k t' (input_send (\<lambda>s. packets_from s (first s) m) l)"
proof -
  define r where "r = packets_from (sender l) (first (sender l)) m"
  have "input_queue all n t (sender l)" using inv by (simp add: input_inv_def)
  from packets_from_inv [OF this, of "first (sender l)" m] obtain t' where t': "t \<le> t'" "input_queue all n t' (fst r)"
    "\<forall>g < length (snd r). \<exists>i j. i < j \<and> j \<le> t' \<and> j - i \<le> MAX_PER_PACKET \<and>
      i = n + first (sender l) + g * MAX_PER_PACKET \<and> j = min (i + MAX_PER_PACKET) (length all) \<and> snd r ! g = packet_of all i j"
    unfolding r_def by blast
  have new: "\<exists>i j. i < j \<and> j \<le> t' \<and> j - i \<le> MAX_PER_PACKET \<and> b = packet_of all i j" if "b \<in> set (snd r)" for b
    using that t'(3) unfolding in_set_conv_nth by metis
  have old: "\<exists>i j. i < j \<and> j \<le> t' \<and> j - i \<le> MAX_PER_PACKET \<and> b = packet_of all i j" if "b \<in> set (air l)" for b
    using that inv t'(1) unfolding input_inv_def by (meson order_trans)
  have "input_send (\<lambda>s. packets_from s (first s) m) l = l\<lparr>sender := fst r, air := air l @ snd r\<rparr>"
    by (simp add: input_send_def r_def case_prod_unfold Let_def)
  then have "input_inv all n k t' (input_send (\<lambda>s. packets_from s (first s) m) l)"
    using inv t'(1,2) new old by (auto simp: input_inv_def)
  then show ?thesis by blast
qed

lemma input_deliver_inv:
  assumes inv: "input_inv all n k t l" and b: "b \<in> set (air l)"
  shows "\<exists>k'. input_inv all n k' t (input_deliver b l)"
proof -
  obtain i j where ij: "i < j" "j \<le> t" "j - i \<le> MAX_PER_PACKET" "b = packet_of all i j"
    using inv b unfolding input_inv_def by blast
  have k: "k \<le> t" "applied_seq l = of_nat k" "performed l = take k all" "n \<le> k" "\<forall>q \<in> set (told l). \<exists>m \<le> k. q = of_nat m"
    using inv by (simp_all add: input_inv_def)
  note bounds = input_inv_bounds [OF inv]
  have r: "receive (applied_seq l) b = (if i \<le> k then (drop k (take j all), of_nat (max k j)) else ([], of_nat k))"
    using receive_packet [of i j all k] ij k(1,2) bounds by simp
  define k' where "k' = (if i \<le> k then max k j else k)"
  have kk: "k \<le> k'" "k' \<le> t" using k(1) ij(2) by (simp_all add: k'_def)
  have "take k all @ drop k (take j all) = take (max k j) all"
    using append_take_drop_id [of k "take j all"] by (auto simp: max_def min_def)
  then have out: "performed l @ fst (receive (applied_seq l) b) = take k' all" "snd (receive (applied_seq l) b) = of_nat k'"
    by (simp_all add: r k'_def k(3))
  have t: "\<exists>m \<le> k'. q = of_nat m" if "q \<in> set (of_nat k' # told l)" for q
    using that k(5) kk(1) by (auto intro: order_trans)
  have "input_inv all n k' t (input_deliver b l)"
    using inv kk k(4) out t by (simp add: input_inv_def input_deliver_def case_prod_unfold)
  then show ?thesis by blast
qed

lemma input_ack_inv:
  assumes inv: "input_inv all n k t l" and q: "q \<in> set (told l)"
  shows "\<exists>n'. input_inv all n' k t (input_ack q l)"
proof -
  obtain m where m: "m \<le> k" "q = of_nat m" using inv q by (auto simp: input_inv_def)
  have "input_queue all (max n m) t (ack (sender l) q)" using inv m ack_inv [of all n t "sender l" m] by (simp add: input_inv_def)
  then have "input_inv all (max n m) k t (input_ack q l)" using inv m by (simp add: input_inv_def input_ack_def)
  then show ?thesis by blast
qed

lemma input_inv_new: "input_inv [] 0 0 0 new_input_link"
  by (simp add: input_inv_def new_input_link_def input_queue_new effect_def)

lemma reach_input_inv: "input_reach l \<Longrightarrow> \<exists>all n k t. input_inv all n k t l"
proof (induction rule: input_reach.induct)
  case start
  show ?case using input_inv_new by blast
next
  case (push l ev)
  then show ?case using input_push_inv by blast
next
  case (send l m)
  then show ?case unfolding packets_def using input_send_inv [where first = "\<lambda>_. 0"] by blast
next
  case (send_capped l m)
  then obtain all n k t where "input_inv all n k t l" by blast
  from input_send_inv [OF this] show ?case unfolding capped_packets_def by blast
next
  case (deliver l b)
  then show ?case using input_deliver_inv by blast
next
  case (ack l q)
  then show ?case using input_ack_inv by blast
qed

section \<open>Nothing lost, nothing repeated\<close>

text \<open>
  C7. Whatever the link loses, repeats or reorders, the host has performed a prefix of the
  client's stream of events, each once and in order; and that stream has the effect of exactly the
  events the user typed, the merged motion included.
\<close>

theorem input_applied_once_in_order:
  assumes "input_reach l"
  shows "\<exists>stream k. performed l = take k stream \<and> effect stream = effect (typed l) \<and>
    applied_seq l = of_nat k \<and> k \<le> length stream \<and> length stream < 2 ^ 31 - 1"
proof -
  obtain all n k t where inv: "input_inv all n k t l" using reach_input_inv [OF assms] by blast
  then show ?thesis using input_inv_bounds [OF inv] by (intro exI [of _ all] exI [of _ k]) (simp add: input_inv_def)
qed

definition sample_input :: input_link where
  "sample_input =
    input_deliver (packet_of [MouseRel 3 4, Key 30 False True] 0 2)
      (input_send (\<lambda>s. packets s 4)
        (input_push (Key 30 False True) (input_push (MouseRel 2 3) (input_push (MouseRel 1 1) new_input_link))))"

lemma sample_input_reach: "input_reach sample_input"
  unfolding sample_input_def
  apply (rule input_reach.deliver)
   apply (intro input_reach.intros)
     apply code_simp
    apply code_simp
   apply code_simp
  apply code_simp
  done

theorem input_applied_once_in_order_witness:
  "\<exists>stream k. performed sample_input = take k stream \<and>
    effect stream = effect [MouseRel 1 1, MouseRel 2 3, Key 30 False True] \<and>
    applied_seq sample_input = of_nat k \<and> k \<le> length stream \<and> length stream < 2 ^ 31 - 1"
proof -
  have "typed sample_input = [MouseRel 1 1, MouseRel 2 3, Key 30 False True]" by code_simp
  then show ?thesis using input_applied_once_in_order [OF sample_input_reach] by simp
qed

section \<open>Everything arrives\<close>

text \<open>The deliveries of a list of bodies in order.\<close>

definition deliver_all :: "bytes list \<Rightarrow> input_link \<Rightarrow> input_link" where
  "deliver_all bodies l = fold input_deliver bodies l"

lemma chunks_cover: "0 < m \<Longrightarrow> length xs \<le> length (chunks_of m xs) * m"
proof (induction m xs rule: chunks_of.induct)
  case (1 m xs)
  then show ?case by (cases "xs = []") (auto simp: chunks_of_step)
qed

text \<open>A full set of packets, delivered in order, brings the host to the end of the stream.\<close>

lemma deliver_run:
  assumes "input_inv all n k t l" "i \<le> k"
    and "\<forall>g < length bodies. \<exists>j. j \<le> t \<and> i + g * MAX_PER_PACKET < j \<and>
      j = min (i + g * MAX_PER_PACKET + MAX_PER_PACKET) (length all) \<and>
      bodies ! g = packet_of all (i + g * MAX_PER_PACKET) j"
    and "set bodies \<subseteq> set (air l)"
  shows "\<exists>k'. input_inv all n k' t (deliver_all bodies l) \<and> min (i + length bodies * MAX_PER_PACKET) (length all) \<le> k' \<and> k \<le> k' \<and>
    sender (deliver_all bodies l) = sender l \<and> typed (deliver_all bodies l) = typed l"
  using assms
proof (induction bodies arbitrary: l k i)
  case (Cons b bodies)
  let ?M = MAX_PER_PACKET
  let ?l = "input_deliver b l"
  obtain j where j: "j \<le> t" "i < j" "j = min (i + ?M) (length all)" "b = packet_of all i j"
    using Cons.prems(3) by (metis add.right_neutral length_greater_0_conv list.distinct(1) mult_0 nth_Cons_0)
  have same: "sender ?l = sender l" "typed ?l = typed l" "air ?l = air l"
    by (simp_all add: input_deliver_def case_prod_unfold Let_def)
  obtain k1 where k1: "input_inv all n k1 t ?l" using input_deliver_inv [OF Cons.prems(1)] Cons.prems(4) by auto
  have "k \<le> length all" "length all < 2 ^ 31 - 1" "applied_seq l = of_nat k" "k1 \<le> length all" "applied_seq ?l = of_nat k1"
    using Cons.prems(1) k1 input_inv_bounds [OF k1] by (simp_all add: input_inv_def)
  moreover from this have "receive (of_nat k) b = (drop k (take j all), of_nat (max k j))"
    using receive_packet [of i j all k] j Cons.prems(2) by simp
  ultimately have "(of_nat k1 :: u32) = of_nat (max k j)" by (simp add: input_deliver_def case_prod_unfold Let_def)
  then have "k1 = max k j" using of_nat_eq_u32 [of k1 "max k j"] \<open>k1 \<le> length all\<close> \<open>k \<le> length all\<close> j \<open>length all < _\<close> by simp
  show ?case
  proof (cases "bodies = []")
    case True
    then show ?thesis using k1 same \<open>k1 = max k j\<close> j(3) by (intro exI [of _ k1]) (simp add: deliver_all_def)
  next
    case False
    have rest: "\<forall>g < length bodies. \<exists>j. j \<le> t \<and> i + ?M + g * ?M < j \<and> j = min (i + ?M + g * ?M + ?M) (length all) \<and>
        bodies ! g = packet_of all (i + ?M + g * ?M) j"
    proof (intro allI impI)
      fix g assume "g < length bodies"
      then show "\<exists>j. j \<le> t \<and> i + ?M + g * ?M < j \<and> j = min (i + ?M + g * ?M + ?M) (length all) \<and>
          bodies ! g = packet_of all (i + ?M + g * ?M) j"
        using Cons.prems(3) [rule_format, of "Suc g"] by (simp add: add.assoc)
    qed
    then have "i + ?M < length all" using False Cons.prems(1) input_inv_bounds(1) [OF Cons.prems(1)]
      by (metis add.right_neutral length_greater_0_conv less_le_trans mult_0)
    then have "i + ?M \<le> k1" using \<open>k1 = max k j\<close> j(3) by simp
    from Cons.IH [OF k1 this rest] Cons.prems(4) obtain k' where
      k': "input_inv all n k' t (deliver_all bodies ?l)" "min (i + ?M + length bodies * ?M) (length all) \<le> k'" "k1 \<le> k'"
        "sender (deliver_all bodies ?l) = sender l" "typed (deliver_all bodies ?l) = typed l"
      by (auto simp: same)
    then show ?thesis using \<open>k1 = max k j\<close> by (intro exI [of _ k']) (simp add: deliver_all_def add.assoc)
  qed
qed (auto simp: deliver_all_def)

text \<open>
  C8. One full round of packets that gets through is enough: from any state the link can be in,
  delivering every packet of one \<open>packets\<close> call in order makes the host's effect that of all the
  user typed, and the number it then reports empties the client's queue.
\<close>

theorem input_resend_completes:
  assumes "input_reach l" "length (pending (sender l)) \<le> m * MAX_PER_PACKET"
    and "l' = deliver_all (snd (packets (sender l) m)) (input_send (\<lambda>s. packets s m) l)"
  shows "effect (performed l') = effect (typed l) \<and> pending (ack (sender l') (applied_seq l')) = []"
proof -
  obtain all n k t where inv: "input_inv all n k t l" using reach_input_inv [OF assms(1)] by blast
  define bodies where "bodies = snd (packets (sender l) m)"
  define l1 where "l1 = input_send (\<lambda>s. packets s m) l"
  have s: "input_queue all n t (sender l)" using inv by (simp add: input_inv_def)
  then have len: "length (pending (sender l)) = length all - n" "n \<le> length all"
    by (auto simp: input_queue_def) (metis plain_simps(3) length_numbered)
  from packets_from_inv [OF s, of 0 m] obtain t1 where t1: "t \<le> t1" "input_queue all n t1 (sender l1)"
    "\<forall>g < length bodies. \<exists>i j. i < j \<and> j \<le> t1 \<and> j - i \<le> MAX_PER_PACKET \<and> i = n + g * MAX_PER_PACKET \<and>
       j = min (i + MAX_PER_PACKET) (length all) \<and> bodies ! g = packet_of all i j"
    by (auto simp: packets_def [symmetric] bodies_def l1_def input_send_def case_prod_unfold Let_def)
  have "\<exists>i j. i < j \<and> j \<le> t1 \<and> j - i \<le> MAX_PER_PACKET \<and> b = packet_of all i j" if "b \<in> set bodies" for b
    using that t1(3) unfolding in_set_conv_nth by metis
  moreover have "\<forall>b \<in> set (air l). \<exists>i j. i < j \<and> j \<le> t1 \<and> j - i \<le> MAX_PER_PACKET \<and> b = packet_of all i j"
    using inv t1(1) unfolding input_inv_def by (meson order_trans)
  ultimately have inv1: "input_inv all n k t1 l1" and sub: "set bodies \<subseteq> set (air l1)"
    using inv t1(1,2) by (auto simp: input_inv_def l1_def input_send_def case_prod_unfold Let_def bodies_def)
  have "n \<le> k" using inv by (simp add: input_inv_def)
  have grid: "\<forall>g < length bodies. \<exists>j. j \<le> t1 \<and> n + g * MAX_PER_PACKET < j \<and>
      j = min (n + g * MAX_PER_PACKET + MAX_PER_PACKET) (length all) \<and> bodies ! g = packet_of all (n + g * MAX_PER_PACKET) j"
    using t1(3) by blast
  obtain k' where k': "input_inv all n k' t1 (deliver_all bodies l1)"
      "min (n + length bodies * MAX_PER_PACKET) (length all) \<le> k'"
      "typed (deliver_all bodies l1) = typed l1"
    using deliver_run [OF inv1 \<open>n \<le> k\<close> grid sub] by blast
  have lb: "length bodies = min (length (chunks_of MAX_PER_PACKET (pending (sender l)))) m"
    by (simp add: bodies_def packets_def packets_from_def Let_def)
  have "length (pending (sender l)) \<le> length bodies * MAX_PER_PACKET"
    using chunks_cover [OF MAX_PER_PACKET_bounds(1), of "pending (sender l)"] assms(2) by (simp add: lb min_def)
  then have "length all \<le> n + length bodies * MAX_PER_PACKET" using len by linarith
  then have full: "k' = length all" "t1 = length all"
    using k'(1,2) input_inv_bounds(1) [OF k'(1)] by (auto simp: input_inv_def)
  have l': "l' = deliver_all bodies l1" using assms(3) by (simp add: bodies_def l1_def)
  have "typed l1 = typed l" by (simp add: l1_def input_send_def case_prod_unfold Let_def)
  then have e: "effect (performed l') = effect (typed l)" using k'(1,3) full by (simp add: l' input_inv_def)
  have "input_queue all n t1 (sender l')" "applied_seq l' = of_nat (length all)" "n \<le> k'"
    using k'(1) full by (simp_all add: l' input_inv_def)
  then have "input_queue all (length all) t1 (ack (sender l') (applied_seq l'))"
    using ack_inv [of all n t1 "sender l'" "length all"] full by (simp add: max_def)
  then have "plain (pending (ack (sender l') (applied_seq l'))) = []" by (simp add: input_queue_def numbered_def)
  then show ?thesis using e by (simp add: plain_def)
qed

theorem input_resend_completes_witness:
  "effect (performed (deliver_all (snd (packets (sender sample_input) 1)) (input_send (\<lambda>s. packets s 1) sample_input))) =
    effect (typed sample_input)"
proof -
  have "length (pending (sender sample_input)) \<le> 1 * MAX_PER_PACKET" by code_simp
  from input_resend_completes [OF sample_input_reach this refl] show ?thesis by simp
qed

end
