(* ===== verification/Machine.thy ===== *)
theory Machine
  imports Main
begin

text \<open>
  Components that are driven by a sequence of calls: \<open>run\<close> feeds a list of inputs to a
  step function and records each input with its output. The locale \<open>history\<close> is the interface
  of an invariant between the state and what has happened so far: the component proves that one
  step keeps it, and every run has it.
\<close>

primrec run :: "('s \<Rightarrow> 'a \<Rightarrow> 's \<times> 'b) \<Rightarrow> 's \<Rightarrow> 'a list \<Rightarrow> 's \<times> ('a \<times> 'b) list" where
  "run f s [] = (s, [])"
| "run f s (x # xs) = (let r = run f (fst (f s x)) xs in (fst r, (x, snd (f s x)) # snd r))"

lemma length_run [simp]: "length (snd (run f s xs)) = length xs"
  by (induction xs arbitrary: s) (auto simp: Let_def)

lemma take_run: "take n (snd (run f s xs)) = snd (run f s (take n xs))"
  by (induction xs arbitrary: s n) (auto simp: take_Cons Let_def split: nat.splits)

lemma run_nth:
  "n < length xs \<Longrightarrow> snd (run f s xs) ! n = (xs ! n, snd (f (fst (run f s (take n xs))) (xs ! n)))"
  by (induction xs arbitrary: s n) (auto simp: nth_Cons Let_def split: nat.splits)

lemma map_fst_run: "map fst (snd (run f s xs)) = xs"
  by (induction xs arbitrary: s) (auto simp: Let_def)

locale history =
  fixes step :: "'s \<Rightarrow> 'a \<Rightarrow> 's \<times> 'b"
    and init :: 's
    and inv :: "'s \<Rightarrow> ('a \<times> 'b) list \<Rightarrow> bool"
  assumes inv_init: "inv init []"
    and inv_step: "\<And>s tr x s' y. inv s tr \<Longrightarrow> step s x = (s', y) \<Longrightarrow> inv s' (tr @ [(x, y)])"
begin

lemma inv_from: "inv s tr \<Longrightarrow> inv (fst (run step s xs)) (tr @ snd (run step s xs))"
proof (induction xs arbitrary: s tr)
  case (Cons x xs)
  obtain s' y where sy: "step s x = (s', y)" by (cases "step s x")
  from Cons.IH [OF inv_step [OF Cons.prems sy]] show ?case
    by (simp add: sy Let_def)
qed simp

lemma inv_run: "inv (fst (run step init xs)) (snd (run step init xs))"
  using inv_from [OF inv_init, of xs] by simp

text \<open>The invariant just before call \<open>n\<close>, and that call's output.\<close>

lemma inv_at:
  assumes "n < length xs"
  shows "\<exists>s. inv s (take n (snd (run step init xs))) \<and>
    snd (run step init xs) ! n = (xs ! n, snd (step s (xs ! n)))"
  using inv_run [of "take n xs"] assms by (intro exI [of _ "fst (run step init (take n xs))"])
    (simp add: take_run run_nth)

end

end
