(* ===== verification/HostPolicy.thy ===== *)
theory HostPolicy
  imports Prelude Machine
begin

text \<open>
  Two policies of the host's stream loop: which kept frame a loss is repaired from
  (\<open>ltr.rs\<close>, the long-term references), and when a paused stream lets the GPU go
  (\<open>pause.rs\<close>). An \<open>Instant\<close> or \<open>Duration\<close> is a number of nanoseconds; \<open>duration_since\<close>
  saturates at zero as in the standard library.
\<close>

section \<open>Long-term references\<close>

definition SLOTS :: nat where "SLOTS = 2"
definition EVERY :: nat where "EVERY = 250000000"
definition REPAIRS_PER_SEC :: nat where "REPAIRS_PER_SEC = 3"
definition SECOND :: nat where "SECOND = 1000000000"

record ltr =
  l_encoder :: u64
  l_slots :: "(u32 \<times> bool) option list"
  next_slot :: nat
  last_mark :: "nat option"
  marking :: "(u64 \<times> nat) list"
  repairing :: "u64 option"
  l_repairs :: "nat list"
  repaired :: "u32 option"
  repair_ok :: bool

datatype ltr_plan = Encode "u32 option" "u32 option" | Keyframe

definition new_ltr :: "u64 \<Rightarrow> bool \<Rightarrow> ltr" where
  "new_ltr e ok = \<lparr> l_encoder = e, l_slots = replicate SLOTS None, next_slot = 0, last_mark = None,
     marking = [], repairing = None, l_repairs = [], repaired = None, repair_ok = ok \<rparr>"

text \<open>Frame \<open>a\<close> came after \<open>b\<close> (ids wrap).\<close>

definition newer :: "u32 \<Rightarrow> u32 \<Rightarrow> bool" where
  "newer a b \<longleftrightarrow> a \<noteq> b \<and> a - b < 2147483647"

text \<open>The iterator of \<open>plan\<close>: the confirmed slots, and \<open>max_by\<close> (on equality the later one).\<close>

definition confirmed :: "(u32 \<times> bool) option list \<Rightarrow> (u32 \<times> nat) list" where
  "confirmed ss = concat (map
     (\<lambda>s. case ss ! s of Some (f, True) \<Rightarrow> [(f, s)] | _ \<Rightarrow> []) [0..<length ss])"

definition newest :: "(u32 \<times> nat) list \<Rightarrow> (u32 \<times> nat) option" where
  "newest cs = (case cs of [] \<Rightarrow> None
     | c # rest \<Rightarrow> Some (fold (\<lambda>b a. if newer (fst a) (fst b) then a else b) rest c))"

definition plan :: "ltr \<Rightarrow> u64 \<Rightarrow> bool \<Rightarrow> bool \<Rightarrow> nat \<Rightarrow> ltr \<times> ltr_plan" where
  "plan l input recover key now =
    (if key then (l, if recover then Keyframe else Encode None None)
     else if recover then
       (let l1 = l\<lparr>l_repairs := filter (\<lambda>t. now - t < SECOND) (l_repairs l)\<rparr>
        in case newest (confirmed (l_slots l)) of
             Some (_, slot) \<Rightarrow>
               if length (l_repairs l1) < REPAIRS_PER_SEC
               then (l1\<lparr>repairing := Some input, l_repairs := l_repairs l1 @ [now]\<rparr>,
                     Encode None (Some (push_bit slot 1)))
               else (l1\<lparr>l_repairs := []\<rparr>, Keyframe)
           | None \<Rightarrow> (l1\<lparr>l_repairs := []\<rparr>, Keyframe))
     else if (case last_mark l of Some t \<Rightarrow> now - t < EVERY | None \<Rightarrow> False) then (l, Encode None None)
     else
       (let slot = next_slot l
        in (l\<lparr>l_slots := (l_slots l)[slot := None], next_slot := (slot + 1) mod length (l_slots l),
              last_mark := Some now, marking := marking l @ [(input, slot)]\<rparr>,
            Encode (Some (of_nat slot)) None)))"

text \<open>\<open>position\<close> and \<open>remove\<close>: the first entry of this picture, and the list without it.\<close>

definition take_marking :: "u64 \<Rightarrow> (u64 \<times> nat) list \<Rightarrow> nat option \<times> (u64 \<times> nat) list" where
  "take_marking input ms = (case find (\<lambda>e. fst e = input) ms of
     None \<Rightarrow> (None, ms) | Some e \<Rightarrow> (Some (snd e), remove1 e ms))"

definition sent :: "ltr \<Rightarrow> u64 \<Rightarrow> u32 \<Rightarrow> bool \<Rightarrow> ltr \<times> (bool \<times> bool)" where
  "sent l input frame_id keyframe =
    (let l1 = (if keyframe then l\<lparr>l_slots := replicate SLOTS None, l_repairs := [], repaired := None\<rparr> else l);
         (found, rest) = take_marking input (marking l1);
         l2 = l1\<lparr>marking := filter (\<lambda>e. fst e > input) rest\<rparr>;
         kept = (if keyframe then None else found);
         l3 = (case kept of Some slot \<Rightarrow> l2\<lparr>l_slots := (l_slots l2)[slot := Some (frame_id, False)]\<rparr> | None \<Rightarrow> l2);
         repair = (repairing l3 = Some input);
         l4 = (if repair \<or> (case repairing l3 of Some i \<Rightarrow> i < input | None \<Rightarrow> False)
               then l3\<lparr>repairing := None\<rparr> else l3);
         l5 = (if repair \<and> \<not> keyframe then l4\<lparr>repaired := Some frame_id\<rparr> else l4)
     in (l5, (kept \<noteq> None, repair \<and> \<not> keyframe)))"

definition confirm :: "u32 \<Rightarrow> (u32 \<times> bool) option \<Rightarrow> (u32 \<times> bool) option" where
  "confirm frame_id s = map_option (\<lambda>(f, a). (f, a \<or> f = frame_id)) s"

definition acked :: "ltr \<Rightarrow> u32 \<Rightarrow> ltr" where
  "acked l frame_id =
    (let l1 = l\<lparr>l_slots := map (confirm frame_id) (l_slots l)\<rparr>
     in if repair_ok l1 \<and> (case repaired l1 of Some r \<Rightarrow> newer frame_id r | None \<Rightarrow> False)
        then l1\<lparr>l_repairs := [], repaired := None\<rparr> else l1)"

subsection \<open>A host driven by calls\<close>

datatype ltr_call = Plan u64 bool bool nat | Sent u64 u32 bool | Acked u32
datatype ltr_answer = Planned ltr_plan | Went bool bool | Noted

fun ltr_step :: "ltr \<Rightarrow> ltr_call \<Rightarrow> ltr \<times> ltr_answer" where
  "ltr_step l (Plan input recover key now) = (let (l', p) = plan l input recover key now in (l', Planned p))"
| "ltr_step l (Sent input f key) = (let (l', k, r) = sent l input f key in (l', Went k r))"
| "ltr_step l (Acked f) = (acked l f, Noted)"

text \<open>Well-formedness: two slots, every index one of theirs, three repairs counted at most.\<close>

definition ltr_wf :: "ltr \<Rightarrow> bool" where
  "ltr_wf l \<longleftrightarrow> length (l_slots l) = SLOTS \<and> next_slot l < SLOTS \<and>
     (\<forall>e \<in> set (marking l). snd e < SLOTS) \<and> length (l_repairs l) \<le> REPAIRS_PER_SEC"

text \<open>
  What the calls so far say of a slot: \<open>backed tr s f a\<close> when some picture was told to be kept
  in \<open>s\<close>, went out as the ordinary frame \<open>f\<close>, and since then neither did a keyframe go out nor was
  the slot given to another picture; with \<open>a\<close>, the client has since said it decoded \<open>f\<close>.
\<close>

definition keyframe_sent :: "ltr_call \<times> ltr_answer \<Rightarrow> bool" where
  "keyframe_sent e = (case fst e of Sent _ _ key \<Rightarrow> key | _ \<Rightarrow> False)"

definition marks :: "nat \<Rightarrow> ltr_call \<times> ltr_answer \<Rightarrow> bool" where
  "marks s e \<longleftrightarrow> (\<exists>m. snd e = Planned (Encode (Some m) None) \<and> m = of_nat s)"

definition backed :: "(ltr_call \<times> ltr_answer) list \<Rightarrow> nat \<Rightarrow> u32 \<Rightarrow> bool \<Rightarrow> bool" where
  "backed tr s f a \<longleftrightarrow> (\<exists>before mid after input r.
     tr = before @ (Sent input f False, Went True r) # after \<and>
     (\<exists>now. (Plan input False False now, Planned (Encode (Some (of_nat s)) None)) \<in> set before) \<and>
     (\<forall>e \<in> set after. \<not> keyframe_sent e \<and> \<not> marks s e) \<and>
     (a \<longrightarrow> (Acked f, mid) \<in> set after))"

definition ltr_inv :: "ltr \<Rightarrow> (ltr_call \<times> ltr_answer) list \<Rightarrow> bool" where
  "ltr_inv l tr \<longleftrightarrow> ltr_wf l \<and>
     (\<forall>s f a. s < SLOTS \<longrightarrow> l_slots l ! s = Some (f, a) \<longrightarrow> backed tr s f a) \<and>
     (\<forall>(i, s) \<in> set (marking l). \<exists>now. (Plan i False False now, Planned (Encode (Some (of_nat s)) None)) \<in> set tr)"

lemma of_nat_slot_inj: "s < SLOTS \<Longrightarrow> s' < SLOTS \<Longrightarrow> (of_nat s :: u32) = of_nat s' \<longleftrightarrow> s = s'"
  by (auto simp: SLOTS_def less_2_cases_iff)

lemma backed_snoc:
  "backed tr s f a \<Longrightarrow> \<not> keyframe_sent e \<Longrightarrow> \<not> marks s e \<Longrightarrow> (b \<longrightarrow> a \<or> fst e = Acked f)
    \<Longrightarrow> backed (tr @ [e]) s f b"
  unfolding backed_def
proof (elim exE conjE)
  fix before mid after input r now
  assume h: "tr = before @ (Sent input f False, Went True r) # after"
    "(Plan input False False now, Planned (Encode (Some (of_nat s)) None)) \<in> set before"
    "\<forall>e\<in>set after. \<not> keyframe_sent e \<and> \<not> marks s e" "a \<longrightarrow> (Acked f, mid) \<in> set after"
    "\<not> keyframe_sent e" "\<not> marks s e" "b \<longrightarrow> a \<or> fst e = Acked f"
  obtain mid' where "b \<longrightarrow> (Acked f, mid') \<in> set (after @ [e])"
    using h(4,7) by (cases e) auto
  then show "\<exists>before mid after input r. tr @ [e] = before @ (Sent input f False, Went True r) # after \<and>
     (\<exists>now. (Plan input False False now, Planned (Encode (Some (of_nat s)) None)) \<in> set before) \<and>
     (\<forall>e \<in> set after. \<not> keyframe_sent e \<and> \<not> marks s e) \<and> (b \<longrightarrow> (Acked f, mid) \<in> set after)"
    using h by (intro exI [of _ before] exI [of _ mid'] exI [of _ "after @ [e]"] exI [of _ input] exI [of _ r]) auto
qed

lemma backed_cases:
  assumes "backed tr s f a" "\<not> keyframe_sent e" "\<And>m. snd e \<noteq> Planned (Encode (Some m) None)"
  shows "backed (tr @ [e]) s f a"
  using backed_snoc [OF assms(1,2)] assms(3) by (auto simp: marks_def)

lemma confirmed_iff: "(f, s) \<in> set (confirmed ss) \<longleftrightarrow> s < length ss \<and> ss ! s = Some (f, True)"
  by (force simp: confirmed_def split: option.splits bool.splits)

lemma newest_in: "newest cs = Some c \<Longrightarrow> c \<in> set cs"
proof -
  have "fold (\<lambda>b a. if newer (fst a) (fst b) then a else b) xs c \<in> set (c # xs)" for xs and c :: "u32 \<times> nat"
  proof (induction xs arbitrary: c)
    case (Cons x xs)
    from Cons [of c] Cons [of x] show ?case by (cases "newer (fst c) (fst x)") auto
  qed simp
  then show "newest cs = Some c \<Longrightarrow> c \<in> set cs"
    by (cases cs) (auto simp: newest_def)
qed

lemma newest_confirmed: "newest (confirmed ss) = Some (f, s) \<Longrightarrow> s < length ss \<and> ss ! s = Some (f, True)"
  using newest_in confirmed_iff by blast

lemma take_marking_sub: "take_marking i ms = (r, rest) \<Longrightarrow> set rest \<subseteq> set ms"
  by (auto simp: take_marking_def split: option.splits dest: set_remove1_subset [THEN subsetD])

lemma take_marking_found: "take_marking i ms = (Some s, rest) \<Longrightarrow> (i, s) \<in> set ms"
  by (auto simp: take_marking_def find_Some_iff split: option.splits)

subsection \<open>The slots tell what happened\<close>

definition told :: "(ltr_call \<times> ltr_answer) list \<Rightarrow> u64 \<Rightarrow> nat \<Rightarrow> bool" where
  "told tr i s \<longleftrightarrow> (\<exists>now. (Plan i False False now, Planned (Encode (Some (of_nat s)) None)) \<in> set tr)"

lemma told_snoc: "told tr i s \<Longrightarrow> told (tr @ [e]) i s" by (auto simp: told_def)

lemma ltr_invI:
  assumes "ltr_wf l" "\<And>s f a. s < SLOTS \<Longrightarrow> l_slots l ! s = Some (f, a) \<Longrightarrow> backed tr s f a"
    "\<And>i s. (i, s) \<in> set (marking l) \<Longrightarrow> told tr i s"
  shows "ltr_inv l tr"
  using assms unfolding ltr_inv_def told_def by blast

lemma ltr_invD:
  assumes "ltr_inv l tr"
  shows "ltr_wf l" "s < SLOTS \<Longrightarrow> l_slots l ! s = Some (f, a) \<Longrightarrow> backed tr s f a"
    "(i, s) \<in> set (marking l) \<Longrightarrow> told tr i s"
  using assms unfolding ltr_inv_def told_def by auto

lemma plan_inv:
  assumes inv: "ltr_inv l tr" and p: "plan l input recover key now = (l', p)"
  shows "ltr_inv l' (tr @ [(Plan input recover key now, Planned p)])"
proof (cases "\<exists>m. p = Encode (Some m) None")
  case True
  define s where "s = next_slot l"
  from True p have l': "l' = l\<lparr>l_slots := (l_slots l)[s := None], next_slot := (s + 1) mod length (l_slots l),
      last_mark := Some now, marking := marking l @ [(input, s)]\<rparr>"
    and pm: "p = Encode (Some (of_nat s)) None" and flags: "\<not> recover" "\<not> key"
    by (auto simp: plan_def s_def Let_def split: if_splits option.splits)
  have wf: "ltr_wf l" and s: "s < SLOTS" using ltr_invD(1) [OF inv] by (auto simp: ltr_wf_def s_def)
  show ?thesis
  proof (rule ltr_invI)
    show "ltr_wf l'" using wf s by (auto simp: ltr_wf_def l' SLOTS_def)
    fix s' f a assume s': "s' < SLOTS" "l_slots l' ! s' = Some (f, a)"
    then have "s' \<noteq> s" using wf by (auto simp: l' ltr_wf_def)
    moreover have "l_slots l ! s' = Some (f, a)" using s'(2) \<open>s' \<noteq> s\<close> by (simp add: l')
    ultimately show "backed (tr @ [(Plan input recover key now, Planned p)]) s' f a"
      using backed_snoc [OF ltr_invD(2) [OF inv s'(1)], of f a] of_nat_slot_inj [OF s s'(1)]
      by (auto simp: keyframe_sent_def marks_def pm)
  next
    fix i s' assume "(i, s') \<in> set (marking l')"
    then show "told (tr @ [(Plan input recover key now, Planned p)]) i s'"
      using ltr_invD(3) [OF inv] told_snoc flags by (auto simp: l' pm) (auto simp: told_def)
  qed
next
  case False
  then have same: "l_slots l' = l_slots l" "next_slot l' = next_slot l" "marking l' = marking l"
    and reps: "length (l_repairs l') \<le> REPAIRS_PER_SEC \<or> l_repairs l' = l_repairs l"
    using p by (auto simp: plan_def Let_def split: if_splits option.splits prod.splits)
  have "ltr_wf l'" using ltr_invD(1) [OF inv] reps by (auto simp: ltr_wf_def same)
  then show ?thesis using ltr_invD(2,3) [OF inv] False
    by (intro ltr_invI) (auto simp: same keyframe_sent_def intro!: told_snoc backed_cases)
qed

lemma sent_inv:
  assumes inv: "ltr_inv l tr" and p: "sent l input f key = (l', k, r)"
  shows "ltr_inv l' (tr @ [(Sent input f key, Went k r)])"
proof -
  obtain found rest where tm: "take_marking input (marking l) = (found, rest)"
    by (cases "take_marking input (marking l)")
  have wf: "ltr_wf l" using ltr_invD(1) [OF inv] .
  have mk: "set (marking l') \<subseteq> set (marking l)"
    using p take_marking_sub [OF tm] by (cases key; cases found) (auto simp: sent_def Let_def tm split: if_splits)
  have kept: "k \<longleftrightarrow> \<not> key \<and> found \<noteq> None"
    using p by (cases key; cases found) (auto simp: sent_def Let_def tm)
  have slots: "l_slots l' = (if key then replicate SLOTS None else
      case found of None \<Rightarrow> l_slots l | Some s \<Rightarrow> (l_slots l)[s := Some (f, False)])"
    using p by (cases key; cases found) (auto simp: sent_def Let_def tm split: if_splits)
  have rest: "next_slot l' = next_slot l" "l_repairs l' = (if key then [] else l_repairs l)"
    using p by (cases key; cases found; auto simp: sent_def Let_def tm split: if_splits)+
  show ?thesis
  proof (rule ltr_invI)
    show "ltr_wf l'" using wf mk by (auto simp: ltr_wf_def slots rest split: option.splits)
    show "told (tr @ [(Sent input f key, Went k r)]) i s" if "(i, s) \<in> set (marking l')" for i s
      using told_snoc ltr_invD(3) [OF inv] mk that by blast
    fix s g a assume s: "s < SLOTS" "l_slots l' ! s = Some (g, a)"
    then have "\<not> key" by (auto simp: slots)
    show "backed (tr @ [(Sent input f key, Went k r)]) s g a"
    proof (cases "found = Some s")
      case True
      then have "g = f" "\<not> a" using s wf \<open>\<not> key\<close> by (auto simp: slots ltr_wf_def)
      moreover have "told tr input s" using take_marking_found True tm ltr_invD(3) [OF inv] by blast
      ultimately show ?thesis using True \<open>\<not> key\<close> kept unfolding backed_def told_def
        by (intro exI [of _ tr] exI [of _ Noted] exI [of _ "[]"] exI [of _ input] exI [of _ r]) auto
    next
      case False
      then have "l_slots l ! s = Some (g, a)" using s \<open>\<not> key\<close>
        by (auto simp: slots nth_list_update_neq split: option.splits)
      then show ?thesis using \<open>\<not> key\<close> s(1)
        by (intro backed_cases ltr_invD(2) [OF inv]) (auto simp: keyframe_sent_def)
    qed
  qed
qed

lemma acked_inv:
  assumes inv: "ltr_inv l tr"
  shows "ltr_inv (acked l f) (tr @ [(Acked f, Noted)])"
proof (rule ltr_invI)
  have slots: "l_slots (acked l f) = map (confirm f) (l_slots l)" "marking (acked l f) = marking l"
    by (auto simp: acked_def Let_def split: option.splits)
  have wf: "ltr_wf l" using ltr_invD(1) [OF inv] .
  then show "ltr_wf (acked l f)" by (auto simp: ltr_wf_def acked_def Let_def split: option.splits)
  show "told (tr @ [(Acked f, Noted)]) i s" if "(i, s) \<in> set (marking (acked l f))" for i s
    using told_snoc ltr_invD(3) [OF inv] that slots by auto
  fix s g a assume s: "s < SLOTS" "l_slots (acked l f) ! s = Some (g, a)"
  then obtain a' where a': "l_slots l ! s = Some (g, a')" "a \<longleftrightarrow> a' \<or> g = f"
    using wf by (auto simp: slots ltr_wf_def confirm_def)
  show "backed (tr @ [(Acked f, Noted)]) s g a"
    using backed_snoc [OF ltr_invD(2) [OF inv s(1) a'(1)]] a'(2) by (auto simp: keyframe_sent_def marks_def)
qed

interpretation ltr_history: history ltr_step "new_ltr e ok" ltr_inv
proof
  show "ltr_inv (new_ltr e ok) []"
    by (auto simp: ltr_inv_def ltr_wf_def new_ltr_def SLOTS_def less_2_cases_iff)
  show "ltr_inv s' (tr @ [(x, y)])" if "ltr_inv s tr" "ltr_step s x = (s', y)" for s tr x s' y
    using that plan_inv sent_inv acked_inv by (cases x) (auto split: prod.splits)
qed

text \<open>The budget: what \<open>plan\<close> answers to a loss, by how many repairs the last second has seen.\<close>

lemma plan_loss:
  "snd (plan l input True False now) =
    (case newest (confirmed (l_slots l)) of
       Some (f, s) \<Rightarrow> if length (filter (\<lambda>t. now - t < SECOND) (l_repairs l)) < REPAIRS_PER_SEC
                       then Encode None (Some (push_bit s 1)) else Keyframe
     | None \<Rightarrow> Keyframe)"
  by (auto simp: plan_def Let_def split: option.splits)

section \<open>Pause release\<close>

definition RELEASE_AFTER :: nat where "RELEASE_AFTER = 10000000000"

datatype released = Encoder | Pipeline
datatype pause_step = Run | Release released | Wait | Rebuild released

record pause_release =
  since :: "nat option"
  let_go :: "released option"

definition new_pause :: pause_release where
  "new_pause = \<lparr> since = None, let_go = None \<rparr>"

definition pause :: "pause_release \<Rightarrow> bool \<Rightarrow> bool \<Rightarrow> bool \<Rightarrow> bool \<Rightarrow> nat \<Rightarrow> pause_release \<times> pause_step" where
  "pause p paused key on whole now =
    (case let_go p of
       Some what \<Rightarrow>
         if paused \<and> \<not> key \<and> on then (p, Wait)
         else (p\<lparr>since := (if paused then Some now else None), let_go := None\<rparr>, Rebuild what)
     | None \<Rightarrow>
         if \<not> paused then (p\<lparr>since := None\<rparr>, Run)
         else
           (let t = (case since p of Some t \<Rightarrow> t | None \<Rightarrow> now);
                p1 = p\<lparr>since := Some t\<rparr>
            in if on \<and> \<not> key \<and> now - t \<ge> RELEASE_AFTER
               then (let what = (if whole then Pipeline else Encoder) in (p1\<lparr>let_go := Some what\<rparr>, Release what))
               else (p1, Run)))"

datatype pause_tick = Tick (tick_paused: bool) (tick_key: bool) (tick_on: bool) (tick_whole: bool) (tick_time: nat)

fun pause_call :: "pause_release \<Rightarrow> pause_tick \<Rightarrow> pause_release \<times> pause_step" where
  "pause_call p (Tick paused key on whole now) = pause p paused key on whole now"

text \<open>Every release is followed by waits and one rebuild of the same thing; nothing else.\<close>

fun alternates :: "released option \<Rightarrow> pause_step list \<Rightarrow> bool" where
  "alternates cur [] = True"
| "alternates None (Run # ys) = alternates None ys"
| "alternates None (Release w # ys) = alternates (Some w) ys"
| "alternates (Some w) (Wait # ys) = alternates (Some w) ys"
| "alternates (Some w) (Rebuild v # ys) = (v = w \<and> alternates None ys)"
| "alternates cur (y # ys) = False"

lemma alternates_run: "alternates (let_go p) (map snd (snd (run pause_call p xs)))"
proof (induction xs arbitrary: p)
  case (Cons x xs)
  obtain paused key on whole now where x: "x = Tick paused key on whole now" by (cases x)
  show ?case using Cons [of "fst (pause_call p x)"]
    by (cases "let_go p") (auto simp: x pause_def Let_def split: option.splits)
qed simp

text \<open>
  The clock: since the time it holds, every call found the stream paused, and nothing was
  released or rebuilt after the first of them.
\<close>

definition paused_stretch :: "(pause_tick \<times> pause_step) list \<Rightarrow> nat \<Rightarrow> bool" where
  "paused_stretch tr t \<longleftrightarrow> (\<exists>before c y stretch. tr = before @ (c, y) # stretch \<and> tick_time c = t \<and> tick_paused c \<and>
     (\<forall>(c, y) \<in> set stretch. tick_paused c \<and> y = Run))"

definition pause_inv :: "pause_release \<Rightarrow> (pause_tick \<times> pause_step) list \<Rightarrow> bool" where
  "pause_inv p tr \<longleftrightarrow> (\<forall>t. let_go p = None \<longrightarrow> since p = Some t \<longrightarrow> paused_stretch tr t)"

lemma paused_stretch_start: "tick_paused c \<Longrightarrow> paused_stretch (tr @ [(c, y)]) (tick_time c)"
  unfolding paused_stretch_def by (intro exI [of _ tr] exI [of _ c] exI [of _ y] exI [of _ "[]"]) simp

lemma paused_stretch_snoc: "paused_stretch tr t \<Longrightarrow> tick_paused c \<Longrightarrow> paused_stretch (tr @ [(c, Run)]) t"
  unfolding paused_stretch_def
proof (elim exE conjE)
  fix before c' y stretch
  assume "tr = before @ (c', y) # stretch" "tick_time c' = t" "tick_paused c'" "\<forall>(c, y) \<in> set stretch. tick_paused c \<and> y = Run" "tick_paused c"
  then show "\<exists>before c' y stretch. tr @ [(c, Run)] = before @ (c', y) # stretch \<and> tick_time c' = t \<and> tick_paused c' \<and>
     (\<forall>(c, y) \<in> set stretch. tick_paused c \<and> y = Run)"
    by (intro exI [of _ before] exI [of _ c'] exI [of _ y] exI [of _ "stretch @ [(c, Run)]"]) auto
qed

interpretation pause_history: history pause_call new_pause pause_inv
proof
  show "pause_inv new_pause []" by (simp add: pause_inv_def new_pause_def)
  fix p tr c p' y
  assume inv: "pause_inv p tr" and st: "pause_call p c = (p', y)"
  obtain paused key on whole now where c: "c = Tick paused key on whole now" by (cases c)
  show "pause_inv p' (tr @ [(c, y)])" unfolding pause_inv_def
  proof (intro allI impI)
    fix t assume t: "let_go p' = None" "since p' = Some t"
    then have pd: "paused" using st by (auto simp: c pause_def Let_def split: option.splits if_splits)
    show "paused_stretch (tr @ [(c, y)]) t"
    proof (cases "let_go p = None \<and> since p = Some t")
      case True
      then have "y = Run" using st t pd by (auto simp: c pause_def Let_def split: option.splits if_splits)
      then show ?thesis using inv True pd by (auto simp: pause_inv_def c intro: paused_stretch_snoc)
    next
      case False
      then have "t = now" using st t by (auto simp: c pause_def Let_def split: option.splits if_splits)
      then show ?thesis using paused_stretch_start [of c tr y] pd by (simp add: c)
    qed
  qed
qed

section \<open>Properties\<close>

text \<open>
  C22. A repair is only ever coded from a frame the client has: whenever \<open>plan\<close> answers a loss
  with a reference refmask, the refmask names one slot, some picture kept in that slot went out as an
  ordinary frame, the client has since said it decoded that frame, and neither has a keyframe
  gone out nor the slot been given to another picture since.
\<close>

theorem repairs_from_confirmed:
  assumes "n < length xs"
    and "snd (run ltr_step (new_ltr e ok) xs) ! n =
      (Plan input recover key now, Planned (Encode m (Some refmask)))"
  shows "recover \<and> \<not> key \<and> m = None \<and>
    (\<exists>s f. s < SLOTS \<and> refmask = push_bit s 1 \<and>
       backed (take n (snd (run ltr_step (new_ltr e ok) xs))) s f True)"
proof -
  obtain l where inv: "ltr_inv l (take n (snd (run ltr_step (new_ltr e ok) xs)))"
    and "at": "xs ! n = Plan input recover key now" "snd (ltr_step l (xs ! n)) = Planned (Encode m (Some refmask))"
    using ltr_history.inv_at [OF assms(1), of e ok] assms(2) by (metis fst_conv snd_conv)
  then have p: "snd (plan l input recover key now) = Encode m (Some refmask)" by (auto split: prod.splits)
  then have flags: "recover" "\<not> key" by (auto simp: plan_def Let_def split: if_splits)
  with p obtain f s where "newest (confirmed (l_slots l)) = Some (f, s)" "m = None" "refmask = push_bit s 1"
    by (auto simp: plan_loss split: option.splits if_splits)
  moreover from this(1) have "s < length (l_slots l)" "l_slots l ! s = Some (f, True)"
    by (simp_all add: newest_confirmed)
  ultimately show ?thesis using ltr_invD(1,2) [OF inv] flags
    by (intro conjI exI [of _ s] exI [of _ f]) (auto simp: ltr_wf_def)
qed

definition sample_ltr_calls :: "ltr_call list" where
  "sample_ltr_calls = [Plan 1 False False 10, Sent 1 101 False, Acked 101, Plan 2 True False 40]"

theorem repairs_from_confirmed_witness:
  "\<exists>s f. s < SLOTS \<and> (1 :: u32) = push_bit s 1 \<and>
    backed (take 3 (snd (run ltr_step (new_ltr 7 True) sample_ltr_calls))) s f True"
proof -
  have "snd (run ltr_step (new_ltr 7 True) sample_ltr_calls) ! 3 =
      (Plan 2 True False 40, Planned (Encode None (Some 1)))"
    by (simp add: sample_ltr_calls_def plan_def sent_def acked_def new_ltr_def Let_def take_marking_def
        confirm_def confirmed_def newest_def SLOTS_def REPAIRS_PER_SEC_def upt_rec)
  from repairs_from_confirmed [OF _ this] show ?thesis by (simp add: sample_ltr_calls_def)
qed

text \<open>
  The third repair within a second is still coded as a repair, and the next loss brings a keyframe:
  the budget is three repairs a second, where the file's comment allows two.
\<close>

lemma three_repairs_then_a_keyframe:
  "map snd (drop 3 (snd (run ltr_step (new_ltr e ok)
      (take 3 sample_ltr_calls @ map (\<lambda>i. Plan (of_nat i) True False (i * 1000000)) [2..<6]))))
   = map Planned [Encode None (Some 1), Encode None (Some 1), Encode None (Some 1), Keyframe]"
  by (simp add: sample_ltr_calls_def plan_def sent_def acked_def new_ltr_def Let_def take_marking_def
      confirm_def confirmed_def newest_def SLOTS_def REPAIRS_PER_SEC_def SECOND_def upt_rec)

text \<open>
  Whatever the client and the switches toggle, releases and rebuilds alternate: after a release the stream loop only waits
  until the one rebuild of exactly what was let go, and it never waits or rebuilds otherwise.
\<close>

lemma releases_and_rebuilds_alternate: "alternates None (map snd (snd (run pause_call new_pause xs)))"
  using alternates_run [of new_pause xs] by (simp add: new_pause_def)

text \<open>
  The GPU is let go only after a pause of ten seconds: at a release the switch is on,
  no keyframe is wanted, and there was a call at least ten seconds before it since when every call
  found the stream paused and no release or rebuild happened.
\<close>

lemma release_needs_a_long_pause:
  assumes "n < length xs" "snd (run pause_call new_pause xs) ! n = (c, Release what)"
  shows "tick_on c \<and> \<not> tick_key c \<and> what = (if tick_whole c then Pipeline else Encoder) \<and>
    (\<exists>t. tick_time c \<ge> t + RELEASE_AFTER \<and> paused_stretch (take n (snd (run pause_call new_pause xs))) t)"
proof -
  obtain p where inv: "pause_inv p (take n (snd (run pause_call new_pause xs)))"
    and "at": "xs ! n = c" "snd (pause_call p (xs ! n)) = Release what"
    using pause_history.inv_at [OF assms(1)] assms(2) by (metis fst_conv snd_conv)
  obtain pd key on whole now where c: "c = Tick pd key on whole now" by (cases c)
  have "let_go p = None" "on" "\<not> key" "what = (if whole then Pipeline else Encoder)"
    "now - (case since p of Some t \<Rightarrow> t | None \<Rightarrow> now) \<ge> RELEASE_AFTER"
    using "at" by (auto simp: c pause_def Let_def split: option.splits if_splits)
  moreover from this obtain t where "since p = Some t"
    by (cases "since p") (auto simp: RELEASE_AFTER_def)
  ultimately show ?thesis using inv
    by (intro conjI exI [of _ t]) (auto simp: c pause_inv_def RELEASE_AFTER_def)
qed

theorem release_needs_a_long_pause_witness:
  "\<exists>t. 10000000005 \<ge> t + RELEASE_AFTER \<and>
    paused_stretch (take 1 (snd (run pause_call new_pause
      [Tick True False True True 5, Tick True False True True 10000000005]))) t"
  using release_needs_a_long_pause [of 1 "[Tick True False True True 5, Tick True False True True 10000000005]"
      "Tick True False True True 10000000005" Pipeline]
  by (simp add: pause_def new_pause_def RELEASE_AFTER_def Let_def)

end
