(* ===== verification/ClientPolicy.thy ===== *)
theory ClientPolicy
  imports Prelude Machine
begin

text \<open>
  Two policies of the client: when silence means the stream is dead and how soon to sign in
  again (\<open>liveness.rs\<close>), and when frames waiting for the decoder are thrown away
  (\<open>backlog.rs\<close>). A \<open>Duration\<close> or \<open>Instant\<close> is a number of nanoseconds.
\<close>

section \<open>Liveness\<close>

datatype verdict = Fine | Probe | Lost

definition millis :: "nat \<Rightarrow> nat" where "millis n = n * 1000000"

definition PROBE_AFTER :: nat where "PROBE_AFTER = millis 1500"
definition SLOW_LOST :: nat where "SLOW_LOST = millis 6000"
definition SETUP_LOST :: nat where "SETUP_LOST = millis 15000"
definition FAST_LOST :: nat where "FAST_LOST = millis 3000"

definition verdict_of :: "nat \<Rightarrow> bool \<Rightarrow> bool \<Rightarrow> nat \<Rightarrow> bool \<Rightarrow> verdict" where
  "verdict_of silent heard paused rtt fast =
    (if \<not> heard then (if silent > SETUP_LOST then Lost else Fine)
     else if \<not> fast \<or> paused then (if silent > SLOW_LOST then Lost else Fine)
     else
       (let lost = max FAST_LOST (min SLOW_LOST (rtt * 4))
        in if silent > lost then Lost else if silent > PROBE_AFTER then Probe else Fine))"

definition reconnect_wait :: "nat \<Rightarrow> bool \<Rightarrow> nat" where
  "reconnect_wait attempt fast =
    (if fast then millis (250 * 2 ^ min (attempt - 1) 3)
     else if attempt \<le> 1 then millis 300 else millis 2000)"

text \<open>Verdicts by how serious they are.\<close>

fun severity :: "verdict \<Rightarrow> nat" where
  "severity Fine = 0" | "severity Probe = 1" | "severity Lost = 2"

lemma severity_inj: "severity a = severity b \<Longrightarrow> a = b"
  by (cases a; cases b) simp_all

instantiation verdict :: linorder
begin

definition less_eq_verdict :: "verdict \<Rightarrow> verdict \<Rightarrow> bool" where "a \<le> b \<longleftrightarrow> severity a \<le> severity b"
definition less_verdict :: "verdict \<Rightarrow> verdict \<Rightarrow> bool" where "a < b \<longleftrightarrow> severity a < severity b"

instance
  by standard (auto simp: less_eq_verdict_def less_verdict_def severity_inj)

end

lemmas liveness_consts = PROBE_AFTER_def SLOW_LOST_def SETUP_LOST_def FAST_LOST_def millis_def

lemma reconnect_wait_mono: "a \<le> b \<Longrightarrow> reconnect_wait a fast \<le> reconnect_wait b fast"
  by (auto simp: reconnect_wait_def millis_def intro!: power_increasing)

lemma reconnect_wait_bounds: "millis 250 \<le> reconnect_wait a fast \<and> reconnect_wait a fast \<le> millis 2000"
proof -
  have "min (a - 1) 3 \<in> {0, 1, 2, 3 :: nat}" by auto
  then show ?thesis by (auto simp: reconnect_wait_def millis_def)
qed

section \<open>Backlog\<close>

definition DRAIN :: nat where "DRAIN = millis 300"
definition CATCH_UP_S :: u32 where "CATCH_UP_S = 2"

record backlog =
  over_since :: "(nat \<times> u32) option"

definition new_backlog :: backlog where "new_backlog = \<lparr> over_since = None \<rparr>"

definition limit_of :: "u32 \<Rightarrow> u32" where "limit_of fps = max (max fps 30 div 20) 3"
definition cap_of :: "u32 \<Rightarrow> u32" where "cap_of fps = max fps 30 * CATCH_UP_S"

definition skip :: "backlog \<Rightarrow> nat \<Rightarrow> u32 \<Rightarrow> u32 \<Rightarrow> bool \<Rightarrow> backlog \<times> bool" where
  "skip s now waiting fps burst_ok =
    (if waiting \<le> limit_of fps then (s\<lparr>over_since := None\<rparr>, False)
     else if \<not> burst_ok \<or> waiting > cap_of fps then (s\<lparr>over_since := None\<rparr>, True)
     else
       (let (since, first) = (case over_since s of Some p \<Rightarrow> p | None \<Rightarrow> (now, waiting));
            s1 = s\<lparr>over_since := Some (since, first)\<rparr>
        in if now - since < DRAIN then (s1, False)
           else if waiting < first then (s1\<lparr>over_since := Some (now, waiting)\<rparr>, False)
           else (s1\<lparr>over_since := None\<rparr>, True)))"

datatype look = Look (look_time: nat) (look_waiting: u32) (look_fps: u32) (look_burst: bool)

fun skip_step :: "backlog \<Rightarrow> look \<Rightarrow> backlog \<times> bool" where
  "skip_step s (Look now waiting fps burst_ok) = skip s now waiting fps burst_ok"

text \<open>A look that found a backlog over the limit but within reach of catching up, and kept it.\<close>

definition stands :: "look \<Rightarrow> bool" where
  "stands c \<longleftrightarrow> limit_of (look_fps c) < look_waiting c \<and> look_waiting c \<le> cap_of (look_fps c) \<and> look_burst c"

definition stood :: "(look \<times> bool) list \<Rightarrow> nat \<Rightarrow> u32 \<Rightarrow> bool" where
  "stood tr t b \<longleftrightarrow> (\<exists>before c stretch. tr = before @ (c, False) # stretch \<and> look_time c = t \<and> look_waiting c = b \<and>
     stands c \<and> (\<forall>(c, y) \<in> set stretch. stands c \<and> \<not> y))"

definition backlog_inv :: "backlog \<Rightarrow> (look \<times> bool) list \<Rightarrow> bool" where
  "backlog_inv s tr \<longleftrightarrow> (\<forall>t b. over_since s = Some (t, b) \<longrightarrow> stood tr t b)"

lemma stood_start: "stands c \<Longrightarrow> stood (tr @ [(c, False)]) (look_time c) (look_waiting c)"
  unfolding stood_def by (intro exI [of _ tr] exI [of _ c] exI [of _ "[]"]) simp

lemma stood_snoc: "stood tr t b \<Longrightarrow> stands c \<Longrightarrow> stood (tr @ [(c, False)]) t b"
  unfolding stood_def
proof (elim exE conjE)
  fix before c' stretch
  assume "tr = before @ (c', False) # stretch" "look_time c' = t" "look_waiting c' = b" "stands c'"
    "\<forall>(c, y) \<in> set stretch. stands c \<and> \<not> y" "stands c"
  then show "\<exists>before c' stretch'. tr @ [(c, False)] = before @ (c', False) # stretch' \<and> look_time c' = t \<and>
     look_waiting c' = b \<and> stands c' \<and> (\<forall>(c, y) \<in> set stretch'. stands c \<and> \<not> y)"
    by (intro exI [of _ before] exI [of _ c'] exI [of _ "stretch @ [(c, False)]"]) auto
qed

lemma skip_keeps:
  assumes "skip_step s c = (s', y)" "over_since s' = Some (t, b)"
  shows "\<not> y" "stands c" "over_since s = Some (t, b) \<or> (t = look_time c \<and> b = look_waiting c)"
  using assms by (cases c; auto simp: skip_def stands_def Let_def not_less not_le split: if_splits prod.splits option.splits)+

interpretation backlog_history: history skip_step new_backlog backlog_inv
proof
  show "backlog_inv new_backlog []" by (simp add: backlog_inv_def new_backlog_def)
  show "backlog_inv s' (tr @ [(c, y)])" if "backlog_inv s tr" "skip_step s c = (s', y)" for s tr c s' y
    using that skip_keeps [OF that(2)] stood_start stood_snoc unfolding backlog_inv_def by (metis (full_types))
qed

section \<open>Properties\<close>

text \<open>
  The verdict on a silent host only gets worse as the silence grows; a stream that showed video is given up after
  six seconds at the latest, any stream after fifteen, and none within three.
\<close>

lemma verdict_escalates:
  assumes "s \<le> s'"
  shows "verdict_of s heard paused rtt fast \<le> verdict_of s' heard paused rtt fast \<and>
    (verdict_of s heard paused rtt fast = Lost \<longrightarrow> s > millis 3000) \<and>
    (s > (if heard then millis 6000 else millis 15000) \<longrightarrow> verdict_of s heard paused rtt fast = Lost)"
  using assms by (auto simp: verdict_of_def Let_def less_eq_verdict_def liveness_consts)

theorem verdict_escalates_witness:
  "verdict_of (millis 2000) True False (millis 100) True \<le> verdict_of (millis 3001) True False (millis 100) True \<and>
   verdict_of (millis 2000) True False (millis 100) True = Probe"
  using verdict_escalates [of "millis 2000" "millis 3001" True False "millis 100" True]
  by (simp add: verdict_of_def liveness_consts)

text \<open>
  Frames are thrown away only for a reason: whenever \<open>skip\<close> says so, the backlog is over its limit, and
  unless bursts are not allowed or the backlog is more than two seconds of frames, it has stood over the limit, looked at without a
  skip, for at least 300 ms and is now no smaller than at the start of that stretch.
\<close>

lemma skip_has_a_reason:
  assumes "n < length xs" "snd (run skip_step new_backlog xs) ! n = (c, True)"
  shows "look_waiting c > limit_of (look_fps c) \<and>
    (\<not> look_burst c \<or> look_waiting c > cap_of (look_fps c) \<or>
     (\<exists>t b. stood (take n (snd (run skip_step new_backlog xs))) t b \<and> look_time c \<ge> t + DRAIN \<and> b \<le> look_waiting c))"
proof -
  obtain s where inv: "backlog_inv s (take n (snd (run skip_step new_backlog xs)))"
    and "at": "xs ! n = c" "snd (skip_step s (xs ! n)) = True"
    using backlog_history.inv_at [OF assms(1)] assms(2) by (metis fst_conv snd_conv)
  obtain now w fps ok where c: "c = Look now w fps ok" by (cases c)
  show ?thesis
  proof (cases "over_since s")
    case None
    then show ?thesis using "at" by (auto simp: c skip_def Let_def DRAIN_def millis_def not_less not_le split: if_splits)
  next
    case (Some p)
    obtain t b where p: "p = (t, b)" by (cases p)
    have "stood (take n (snd (run skip_step new_backlog xs))) t b"
      using inv Some by (simp add: backlog_inv_def p)
    moreover have "w > limit_of fps" "\<not> ok \<or> w > cap_of fps \<or> now \<ge> t + DRAIN \<and> b \<le> w"
      using "at" Some by (auto simp: c p skip_def Let_def DRAIN_def millis_def not_less not_le split: if_splits)
    ultimately show ?thesis by (auto simp: c)
  qed
qed

theorem skip_has_a_reason_witness:
  "\<exists>t b. stood (take 1 (snd (run skip_step new_backlog [Look 0 10 60 True, Look 300000000 12 60 True]))) t b \<and>
    300000000 \<ge> t + DRAIN \<and> b \<le> 12"
  using skip_has_a_reason [of 1 "[Look 0 10 60 True, Look 300000000 12 60 True]" "Look 300000000 12 60 True"]
  by (simp add: skip_def new_backlog_def limit_of_def cap_of_def CATCH_UP_S_def DRAIN_def millis_def Let_def)

end
