(* ===== verification/Utf8.thy ===== *)
theory Utf8
  imports Prelude
begin

text \<open>
  Rust strings. A \<open>String\<close> is its bytes, which are UTF-8 (\<open>utf8\<close>); \<open>String::from_utf8\<close>
  checks that, \<open>String::from_utf8_lossy\<close> replaces each maximal ill-formed part by U+FFFD,
  \<open>str::is_char_boundary\<close> is the standard library's test. \<open>floor_boundary\<close> is the loop of
  the senders that cut a text to a size without splitting a character.
\<close>

definition cont :: "u8 \<Rightarrow> bool" where "cont b \<longleftrightarrow> 0x80 \<le> b \<and> b \<le> 0xBF"

text \<open>The range of the second byte, by the first; \<open>None\<close> if the first starts no sequence.\<close>

definition lead :: "u8 \<Rightarrow> (nat \<times> u8 \<times> u8) option" where
  "lead b =
    (if b < 0x80 then Some (1, 0, 0)
     else if b < 0xC2 then None
     else if b \<le> 0xDF then Some (2, 0x80, 0xBF)
     else if b = 0xE0 then Some (3, 0xA0, 0xBF)
     else if b = 0xED then Some (3, 0x80, 0x9F)
     else if b \<le> 0xEF then Some (3, 0x80, 0xBF)
     else if b = 0xF0 then Some (4, 0x90, 0xBF)
     else if b \<le> 0xF3 then Some (4, 0x80, 0xBF)
     else if b = 0xF4 then Some (4, 0x80, 0x8F)
     else None)"

text \<open>The first character: whether it is well-formed, and how many bytes it (or the ill-formed part) takes.\<close>

fun first_char :: "bytes \<Rightarrow> bool \<times> nat" where
  "first_char [] = (True, 0)"
| "first_char (b # rest) = (case lead b of
     None \<Rightarrow> (False, 1)
   | Some (n, lo, hi) \<Rightarrow>
       if n = 1 then (True, 1)
       else if \<not> (rest \<noteq> [] \<and> lo \<le> rest ! 0 \<and> rest ! 0 \<le> hi) then (False, 1)
       else if n = 2 then (True, 2)
       else if \<not> (1 < length rest \<and> cont (rest ! 1)) then (False, 2)
       else if n = 3 then (True, 3)
       else if \<not> (2 < length rest \<and> cont (rest ! 2)) then (False, 3)
       else (True, 4))"

lemma first_char_pos: "bs \<noteq> [] \<Longrightarrow> 0 < snd (first_char bs)"
  by (cases bs) (auto split: option.splits)

lemma first_char_len: "snd (first_char bs) \<le> length bs"
  by (cases bs) (auto simp: Suc_le_eq split: option.splits)

function utf8 :: "bytes \<Rightarrow> bool" where
  "utf8 bs = (if bs = [] then True
     else if fst (first_char bs) then utf8 (drop (snd (first_char bs)) bs) else False)"
  by pat_completeness auto
termination
  by (relation "measure length") (auto simp: first_char_pos)

declare utf8.simps [simp del]

definition REPLACEMENT :: bytes where "REPLACEMENT = [0xEF, 0xBF, 0xBD]"

function from_utf8_lossy :: "bytes \<Rightarrow> bytes" where
  "from_utf8_lossy bs = (if bs = [] then [] else
     (if fst (first_char bs) then take (snd (first_char bs)) bs else REPLACEMENT)
       @ from_utf8_lossy (drop (snd (first_char bs)) bs))"
  by pat_completeness auto
termination
  by (relation "measure length") (auto simp: first_char_pos)

declare from_utf8_lossy.simps [simp del]

definition from_utf8 :: "bytes \<Rightarrow> bytes option" where
  "from_utf8 bs = (if utf8 bs then Some bs else None)"

definition is_char_boundary :: "bytes \<Rightarrow> nat \<Rightarrow> bool" where
  "is_char_boundary s i \<longleftrightarrow> i = 0 \<or> i = length s \<or> (i < length s \<and> \<not> cont (s ! i))"

text \<open>\<open>let mut end = text.len().min(max); while !text.is_char_boundary(end) { end -= 1; }\<close>\<close>

primrec floor_boundary :: "bytes \<Rightarrow> nat \<Rightarrow> nat" where
  "floor_boundary s 0 = 0"
| "floor_boundary s (Suc i) = (if is_char_boundary s (Suc i) then Suc i else floor_boundary s i)"

section \<open>Whole characters\<close>

lemma utf8_Nil [simp]: "utf8 []" "from_utf8_lossy [] = []"
  by (simp_all add: utf8.simps from_utf8_lossy.simps)

lemma utf8_cases:
  assumes "utf8 bs" "bs \<noteq> []"
  obtains n where "first_char bs = (True, n)" "0 < n" "n \<le> length bs" "utf8 (drop n bs)"
  using assms first_char_pos [OF assms(2)] first_char_len [of bs] utf8.simps [of bs]
  by (cases "first_char bs") (auto split: if_splits)

lemma utf8_step: "first_char bs = (True, n) \<Longrightarrow> utf8 bs \<longleftrightarrow> utf8 (drop n bs)"
  by (cases "bs = []") (auto simp: utf8.simps [of bs])

text \<open>Well-formed text is kept as it is.\<close>

lemma lossy_utf8: "utf8 bs \<Longrightarrow> from_utf8_lossy bs = bs"
proof (induction bs rule: from_utf8_lossy.induct)
  case (1 bs)
  show ?case
  proof (cases "bs = []")
    case False
    then obtain n where n: "first_char bs = (True, n)" "utf8 (drop n bs)"
      using "1.prems" by (auto elim: utf8_cases)
    have "from_utf8_lossy (drop n bs) = drop n bs" using "1.IH" [OF False] n by simp
    then show ?thesis using False n(1) by (subst from_utf8_lossy.simps) simp
  qed simp
qed

lemma lead_bounds:
  "lead b = Some (n, lo, hi) \<Longrightarrow> n \<noteq> 1 \<Longrightarrow> 0x80 \<le> lo \<and> hi \<le> 0xBF \<and> \<not> cont b \<and> n \<in> {2, 3, 4}"
  "lead b = Some (n, lo, hi) \<Longrightarrow> n = 1 \<Longrightarrow> \<not> cont b"
  by (auto simp: lead_def cont_def not_le not_less word_le_nat_alt word_less_nat_alt split: if_splits)

lemma first_char_bytes:
  assumes "first_char bs = (True, n)" "bs \<noteq> []"
  shows "\<not> cont (bs ! 0)" "0 < i \<Longrightarrow> i < n \<Longrightarrow> cont (bs ! i)"
proof -
  obtain b rest where bs: "bs = b # rest" using assms(2) by (cases bs) auto
  obtain m lo hi where l: "lead b = Some (m, lo, hi)" using assms(1) by (auto simp: bs split: option.splits)
  show "\<not> cont (bs ! 0)" using lead_bounds [OF l] by (cases "m = 1") (auto simp: bs)
  show "cont (bs ! i)" if "0 < i" "i < n"
  proof (cases "m = 1")
    case False
    from lead_bounds(1) [OF l this] have r: "0x80 \<le> lo" "hi \<le> 0xBF" "m \<in> {2, 3, 4}" by auto
    have "lo \<le> rest ! 0 \<and> rest ! 0 \<le> hi" "2 < n \<Longrightarrow> cont (rest ! 1)" "3 < n \<Longrightarrow> cont (rest ! 2)" "n \<le> 4"
      using assms(1) False by (auto simp: bs l split: if_splits)
    moreover from this(1) r have "cont (rest ! 0)" unfolding cont_def using order_trans by blast
    moreover have "i = 1 \<or> i = 2 \<or> i = 3" using that \<open>n \<le> 4\<close> by auto
    ultimately show ?thesis using that by (auto simp: bs)
  qed (use assms(1) that in \<open>auto simp: bs l\<close>)
qed

lemma first_char_take:
  assumes "first_char bs = (True, n)" "n \<le> m"
  shows "first_char (take m bs) = (True, n)"
proof (cases bs)
  case (Cons b rest)
  show ?thesis
  proof (cases "n = 0")
    case False
    then obtain m' where m: "m = Suc m'" using assms(2) by (cases m) auto
    obtain k lo hi where l: "lead b = Some (k, lo, hi)" using assms(1) by (auto simp: Cons split: option.splits)
    have "n = (if k = 1 then 1 else if k = 2 then 2 else if k = 3 then 3 else 4)"
      using assms(1) by (simp add: Cons l split: if_splits)
    then show ?thesis using assms by (simp add: Cons l m split: if_splits)
  qed (use assms first_char_pos [of bs] Cons in auto)
qed (use assms in simp)

text \<open>Cut at a boundary, well-formed text stays well-formed.\<close>

lemma utf8_take_boundary: "utf8 bs \<Longrightarrow> is_char_boundary bs e \<Longrightarrow> utf8 (take e bs)"
proof (induction "length bs" arbitrary: bs e rule: less_induct)
  case less
  show ?case
  proof (cases "bs = [] \<or> e = 0")
    case False
    then have "bs \<noteq> []" "0 < e" by auto
    with less.prems obtain n where n: "first_char bs = (True, n)" "0 < n" "n \<le> length bs" "utf8 (drop n bs)"
      by (auto elim: utf8_cases)
    have "e \<le> length bs" using less.prems(2) by (auto simp: is_char_boundary_def)
    have "n \<le> e"
      using first_char_bytes(2) [OF n(1) \<open>bs \<noteq> []\<close>, of e] less.prems(2) n(3) \<open>0 < e\<close>
      by (cases "e < n") (auto simp: is_char_boundary_def)
    moreover have "is_char_boundary (drop n bs) (e - n)"
      using less.prems(2) \<open>n \<le> e\<close> n(3) by (auto simp: is_char_boundary_def)
    moreover have "length (drop n bs) < length bs" using n(2,3) by simp
    ultimately have "utf8 (take (e - n) (drop n bs))" using less.hyps n(4) by blast
    then show ?thesis using utf8_step [OF first_char_take [OF n(1) \<open>n \<le> e\<close>]]
      by (simp add: drop_take)
  qed auto
qed

lemma floor_boundary: "is_char_boundary s (floor_boundary s i)" "floor_boundary s i \<le> i"
  by (induction i) (auto simp: is_char_boundary_def)

lemma floor_boundary_id: "is_char_boundary s i \<Longrightarrow> floor_boundary s i = i"
  by (cases i) auto

text \<open>The text a sender puts in a packet with room for \<open>limit\<close> bytes.\<close>

definition clip :: "nat \<Rightarrow> bytes \<Rightarrow> bytes" where
  "clip limit s = take (floor_boundary s (min (length s) limit)) s"

lemma utf8_clip: "utf8 s \<Longrightarrow> utf8 (clip limit s)"
  by (simp add: clip_def utf8_take_boundary floor_boundary)

lemma length_clip: "length (clip limit s) \<le> limit"
  using floor_boundary(2) [of s "min (length s) limit"] by (simp add: clip_def)

lemma clip_short: "length s \<le> limit \<Longrightarrow> clip limit s = s"
  by (simp add: clip_def floor_boundary_id is_char_boundary_def min_def)

section \<open>Replacing what is ill-formed\<close>

lemma first_char_append:
  assumes "first_char bs = (True, n)" "bs \<noteq> []"
  shows "first_char (bs @ ys) = (True, n)"
proof -
  obtain b rest where bs: "bs = b # rest" using assms(2) by (cases bs) auto
  obtain k lo hi where l: "lead b = Some (k, lo, hi)" using assms(1) by (auto simp: bs split: option.splits)
  then show ?thesis using assms(1) by (auto simp: bs nth_append Suc_lessI split: if_splits)
qed

lemma utf8_prepend:
  assumes "first_char bs = (True, n)" "bs \<noteq> []"
  shows "utf8 (take n bs @ ys) \<longleftrightarrow> utf8 ys"
proof -
  have n: "0 < n" "n \<le> length bs" using first_char_pos [OF assms(2)] first_char_len [of bs] assms(1) by auto
  then have "first_char (take n bs @ ys) = (True, n)"
    by (intro first_char_append) (auto simp: first_char_take [OF assms(1)])
  from utf8_step [OF this] n show ?thesis by simp
qed

lemma utf8_replacement: "utf8 (REPLACEMENT @ ys) \<longleftrightarrow> utf8 ys"
proof -
  have "first_char REPLACEMENT = (True, 3)" by (simp add: REPLACEMENT_def lead_def cont_def)
  from utf8_prepend [OF this, of ys] show ?thesis by (simp add: REPLACEMENT_def)
qed

lemma utf8_lossy: "utf8 (from_utf8_lossy bs)"
proof (induction bs rule: from_utf8_lossy.induct)
  case (1 bs)
  show ?case
  proof (cases "bs = []")
    case False
    from "1" [OF this] show ?thesis
      by (subst from_utf8_lossy.simps)
        (cases "first_char bs", simp add: False utf8_prepend utf8_replacement)
  qed simp
qed

end
