(* ===== verification/Control.thy ===== *)
theory Control
  imports Utf8
begin

text \<open>
  The binary control messages of the UDP session (\<open>control.rs\<close>): the enum \<open>Control\<close>, its
  encoder \<open>to_bytes\<close> and its decoder \<open>parse\<close>. Strings are their UTF-8 bytes (theory \<open>Utf8\<close>); an
  \<open>i64\<close> is the 64-bit word of its two's complement, as \<open>as i64\<close> reads it. The JSON handshake
  (serde) is not modelled.
\<close>

definition PROTOCOL :: u32 where "PROTOCOL = 3"
definition RELAY_MAX :: nat where "RELAY_MAX = 32"
definition NOTICE_MAX :: nat where "NOTICE_MAX = 600"
definition U32_MAX :: u32 where "U32_MAX = 0xFFFFFFFF"

record feedback =
  shards :: u32
  recovered :: u32
  frames :: u32
  frames_lost :: u32
  fb_bytes :: u64
  delay_min_us :: u64
  delay_avg_us :: u64
  window_us :: u32
  ltr_frame :: "u32 option"
  link_kbps :: u32

datatype path_kind = Unknown | Lan | Direct | Relay | PeerRelay

fun path_kind_u8 :: "path_kind \<Rightarrow> u8" where
  "path_kind_u8 Unknown = 0"
| "path_kind_u8 Lan = 1"
| "path_kind_u8 Direct = 2"
| "path_kind_u8 Relay = 3"
| "path_kind_u8 PeerRelay = 4"

definition path_kind_from_u8 :: "u8 \<Rightarrow> path_kind" where
  "path_kind_from_u8 b =
    (if b = 1 then Lan else if b = 2 then Direct else if b = 3 then Relay else if b = 4 then PeerRelay else Unknown)"

datatype control =
    Ping u32 u64
  | Pong u32 u64 u64
  | KeyframeRequest
  | Recover
  | Feedback feedback
  | Status u32 u16 u16 u16 u32 u16
  | Bye
  | Mic bool
  | Paused bool
  | Mode bool bool
  | Reconnect
  | Refresh u16
  | Cameras u8
  | Camera bool
  | CameraKeyframe
  | Notice bytes
  | AudioReport u8 u16
  | View u16 u16
  | Path path_kind bytes

definition feedback_bytes :: "feedback \<Rightarrow> bytes" where
  "feedback_bytes f = u32_le (shards f) @ u32_le (recovered f) @ u32_le (frames f) @ u32_le (frames_lost f)
     @ u64_le (fb_bytes f) @ u64_le (delay_min_us f) @ u64_le (delay_avg_us f) @ u32_le (window_us f)
     @ u32_le (case ltr_frame f of Some v \<Rightarrow> v | None \<Rightarrow> U32_MAX) @ u32_le (link_kbps f)"

fun control_bytes :: "control \<Rightarrow> bytes" where
  "control_bytes (Ping i client_us) = 1 # u32_le i @ u64_le client_us"
| "control_bytes (Pong i client_us host_us) = 2 # u32_le i @ u64_le client_us @ u64_le host_us"
| "control_bytes KeyframeRequest = [3]"
| "control_bytes (Feedback f) = 4 # feedback_bytes f"
| "control_bytes (Status input_ack w h fps bitrate_kbps fec_permille) =
     5 # u32_le input_ack @ u16_le w @ u16_le h @ u16_le fps @ u32_le bitrate_kbps @ u16_le fec_permille"
| "control_bytes Bye = [6]"
| "control_bytes (Mic on) = [7, of_bool_u8 on]"
| "control_bytes (Paused p) = [8, of_bool_u8 p]"
| "control_bytes (Mode office fast_text) = [9, of_bool_u8 office, of_bool_u8 fast_text]"
| "control_bytes Reconnect = [10]"
| "control_bytes Recover = [11]"
| "control_bytes (Refresh hz) = 12 # u16_le hz"
| "control_bytes (Cameras count) = [13, count]"
| "control_bytes (Camera on) = [14, of_bool_u8 on]"
| "control_bytes CameraKeyframe = [15]"
| "control_bytes (Notice text) = 16 # clip NOTICE_MAX text"
| "control_bytes (AudioReport frame_ms lost) = 17 # frame_ms # u16_le lost"
| "control_bytes (View w h) = 18 # u16_le w @ u16_le h"
| "control_bytes (Path kind relay) = 19 # path_kind_u8 kind # clip RELAY_MAX relay"

text \<open>The \<open>?\<close> operator is \<open>Option.bind\<close>, in the order of the source's fields.\<close>

definition parse_feedback :: "bytes \<Rightarrow> feedback option" where
  "parse_feedback b =
    Option.bind (u32_le_at b 1) (\<lambda>sh. Option.bind (u32_le_at b 5) (\<lambda>re.
    Option.bind (u32_le_at b 9) (\<lambda>fr. Option.bind (u32_le_at b 13) (\<lambda>fl.
    Option.bind (u64_le_at b 17) (\<lambda>by. Option.bind (u64_le_at b 25) (\<lambda>dm.
    Option.bind (u64_le_at b 33) (\<lambda>da.
      Some \<lparr> shards = sh, recovered = re, frames = fr, frames_lost = fl, fb_bytes = by,
        delay_min_us = dm, delay_avg_us = da,
        window_us = (case u32_le_at b 41 of Some v \<Rightarrow> v | None \<Rightarrow> 0),
        ltr_frame = (case u32_le_at b 45 of Some v \<Rightarrow> if v \<noteq> U32_MAX then Some v else None | None \<Rightarrow> None),
        link_kbps = (case u32_le_at b 49 of Some v \<Rightarrow> v | None \<Rightarrow> 0) \<rparr>)))))))"

definition flag_at :: "bytes \<Rightarrow> nat \<Rightarrow> bool option" where
  "flag_at b i = map_option (\<lambda>v. v \<noteq> 0) (index_get b i)"

definition text_from :: "bytes \<Rightarrow> nat \<Rightarrow> nat \<Rightarrow> bytes" where
  "text_from b i n = from_utf8_lossy (take (min (length b) (i + n) - i) (drop i b))"

definition control_parse :: "bytes \<Rightarrow> control option" where
  "control_parse b = (case index_get b 0 of None \<Rightarrow> None | Some t \<Rightarrow>
    if t = 1 then Option.bind (u32_le_at b 1) (\<lambda>i. Option.bind (u64_le_at b 5) (\<lambda>c. Some (Ping i c)))
    else if t = 2 then Option.bind (u32_le_at b 1) (\<lambda>i. Option.bind (u64_le_at b 5) (\<lambda>c.
      Option.bind (u64_le_at b 13) (\<lambda>h. Some (Pong i c h))))
    else if t = 3 then Some KeyframeRequest
    else if t = 4 then map_option Feedback (parse_feedback b)
    else if t = 5 then Option.bind (u32_le_at b 1) (\<lambda>a. Option.bind (u16_le_at b 5) (\<lambda>w.
      Option.bind (u16_le_at b 7) (\<lambda>h. Option.bind (u16_le_at b 9) (\<lambda>f. Option.bind (u32_le_at b 11) (\<lambda>r.
      Option.bind (u16_le_at b 15) (\<lambda>p. Some (Status a w h f r p)))))))
    else if t = 6 then Some Bye
    else if t = 7 then map_option Mic (flag_at b 1)
    else if t = 8 then map_option Paused (flag_at b 1)
    else if t = 9 then Option.bind (flag_at b 1) (\<lambda>office.
      Some (Mode office (case index_get b 2 of Some v \<Rightarrow> v \<noteq> 0 | None \<Rightarrow> False)))
    else if t = 10 then Some Reconnect
    else if t = 11 then Some Recover
    else if t = 12 then map_option Refresh (u16_le_at b 1)
    else if t = 13 then map_option Cameras (index_get b 1)
    else if t = 14 then map_option Camera (flag_at b 1)
    else if t = 15 then Some CameraKeyframe
    else if t = 16 then Some (Notice (text_from b 1 NOTICE_MAX))
    else if t = 17 then Option.bind (index_get b 1) (\<lambda>m. Option.bind (u16_le_at b 2) (\<lambda>l. Some (AudioReport m l)))
    else if t = 18 then Option.bind (u16_le_at b 1) (\<lambda>w. Option.bind (u16_le_at b 3) (\<lambda>h. Some (View w h)))
    else if t = 19 then Option.bind (index_get b 1) (\<lambda>k.
      Some (Path (path_kind_from_u8 k) (text_from b 2 RELAY_MAX)))
    else None)"

section \<open>Round trip\<close>

text \<open>What the wire carries of a message: texts cut to their room, and no reference frame \<open>u32::MAX\<close>.\<close>

fun carried :: "control \<Rightarrow> control" where
  "carried (Notice text) = Notice (clip NOTICE_MAX text)"
| "carried (Path kind relay) = Path kind (clip RELAY_MAX relay)"
| "carried (Feedback f) = Feedback (f\<lparr>ltr_frame := (if ltr_frame f = Some U32_MAX then None else ltr_frame f)\<rparr>)"
| "carried c = c"

text \<open>A message a Rust value can be: its strings are UTF-8.\<close>

fun control_wf :: "control \<Rightarrow> bool" where
  "control_wf (Notice text) = utf8 text"
| "control_wf (Path kind relay) = utf8 relay"
| "control_wf c = True"

lemma path_kind_roundtrip [simp]: "path_kind_from_u8 (path_kind_u8 k) = k"
  by (cases k) (simp_all add: path_kind_from_u8_def)

lemma parse_feedback_bytes:
  "parse_feedback (4 # feedback_bytes f) =
    Some (f\<lparr>ltr_frame := (if ltr_frame f = Some U32_MAX then None else ltr_frame f)\<rparr>)"
  by (simp add: parse_feedback_def feedback_bytes_def codec_simps drop_Cons' take_Cons' split: option.splits)

lemma text_from_clip:
  "utf8 s \<Longrightarrow> length pre = i \<Longrightarrow> text_from (pre @ clip n s) i n = clip n s"
  using length_clip [of n s] by (simp add: text_from_def lossy_utf8 utf8_clip)

lemmas text_from_clip1 = text_from_clip [of _ "[a]" 1, simplified] for a
lemmas text_from_clip2 = text_from_clip [of _ "[a, b]" 2, simplified] for a b

lemma control_bytes_fit: "length (control_bytes c) \<le> Suc NOTICE_MAX"
  using length_clip by (cases c) (auto simp: feedback_bytes_def NOTICE_MAX_def RELAY_MAX_def
      intro: order_trans [OF length_clip])

lemma utf8_text_from: "utf8 (text_from b i n)"
  by (simp add: text_from_def utf8_lossy)

section \<open>Properties\<close>

text \<open>
  C23. Every control message survives the wire: \<open>parse\<close> of \<open>to_bytes\<close> gives it back, but that a text
  is cut at a character boundary to its room, and a reference frame numbered \<open>u32::MAX\<close> reads as none.
\<close>

theorem control_roundtrip:
  assumes "control_wf c"
  shows "control_parse (control_bytes c) = Some (carried c)"
proof (cases c)
  case (Feedback f)
  then show ?thesis by (simp add: control_parse_def index_get_def parse_feedback_bytes)
qed (use assms in \<open>simp_all add: control_parse_def codec_simps flag_at_def drop_Cons' take_Cons' text_from_clip1 text_from_clip2\<close>)

theorem control_roundtrip_witness:
  "control_parse (control_bytes (Path Relay [0x6F, 0x72, 0x64])) = Some (Path Relay [0x6F, 0x72, 0x64])"
  using control_roundtrip [of "Path Relay [0x6F, 0x72, 0x64]"]
  by (simp add: utf8.simps lead_def clip_short RELAY_MAX_def)

text \<open>
  Whatever bytes arrive, a control message parsed from them is one the program can hold (its texts are
  UTF-8), and sending it on takes at most 601 bytes.
\<close>

lemma control_parse_wf:
  assumes "control_parse b = Some c"
  shows "control_wf c \<and> length (control_bytes c) \<le> 601"
proof
  show "control_wf c" using assms
    by (cases c) (auto simp: control_parse_def utf8_text_from split: option.splits if_splits bind_splits)
  show "length (control_bytes c) \<le> 601" using control_bytes_fit [of c] by (simp add: NOTICE_MAX_def)
qed

theorem control_parse_wf_witness:
  "control_wf (Notice [0x61, 0xEF, 0xBF, 0xBD]) \<and> length (control_bytes (Notice [0x61, 0xEF, 0xBF, 0xBD])) \<le> 601"
  by (rule control_parse_wf [of "[16, 0x61, 0xFF]"])
    (simp add: control_parse_def index_get_def text_from_def NOTICE_MAX_def from_utf8_lossy.simps lead_def REPLACEMENT_def)

end
