(* ===== verification/Messages.thy ===== *)
theory Messages
  imports Utf8
begin

text \<open>
  The messages of the reliable channel (\<open>messages.rs\<close>): their lanes, encoder and decoder. The
  JSON of a file list is \<open>serde_json\<close>'s: \<open>to_json\<close> and \<open>of_json\<close> are parameters, of which the round
  trip only asks that what the first writes the second reads back.
\<close>

definition KEY_LEN :: nat where "KEY_LEN = 32"
definition MAX_STREAMS :: u8 where "MAX_STREAMS = 16"

datatype lane = Urgent | Bulk

fun lane_u8 :: "lane \<Rightarrow> u8" where "lane_u8 Urgent = 0" | "lane_u8 Bulk = 1"

definition lane_from_u8 :: "u8 \<Rightarrow> lane option" where
  "lane_from_u8 b = (if b = 0 then Some Urgent else if b = 1 then Some Bulk else None)"

record file_entry =
  entry_name :: bytes
  entry_size :: u64
  is_dir :: bool

datatype message =
    CursorShape u16 u16 u16 u16 bytes
  | CursorVisible bool
  | ClipboardText bytes
  | ClipboardImage bytes
  | ClipboardFiles u32 "file_entry list"
  | FileChunk u32 u32 u64 bytes
  | BulkTcp u16 bytes u8

fun lane_of :: "message \<Rightarrow> lane" where
  "lane_of (CursorShape _ _ _ _ _) = Urgent"
| "lane_of (CursorVisible _) = Urgent"
| "lane_of _ = Bulk"

fun message_bytes :: "(file_entry list \<Rightarrow> bytes option) \<Rightarrow> message \<Rightarrow> bytes" where
  "message_bytes to_json (CursorShape w h hot_x hot_y rgba) =
     1 # u16_le w @ u16_le h @ u16_le hot_x @ u16_le hot_y @ rgba"
| "message_bytes to_json (CursorVisible v) = [2, of_bool_u8 v]"
| "message_bytes to_json (ClipboardText t) = 3 # t"
| "message_bytes to_json (ClipboardImage dib) = 4 # dib"
| "message_bytes to_json (ClipboardFiles transfer entries) =
     5 # u32_le transfer @ (case to_json entries of Some j \<Rightarrow> j | None \<Rightarrow> [])"
| "message_bytes to_json (FileChunk transfer index offset data) =
     6 # u32_le transfer @ u32_le index @ u64_le offset @ data"
| "message_bytes to_json (BulkTcp port key streams) = 7 # u16_le port @ key @ [streams]"

definition clamp_streams :: "u8 \<Rightarrow> u8" where "clamp_streams v = max 1 (min v MAX_STREAMS)"

definition message_parse :: "(bytes \<Rightarrow> file_entry list option) \<Rightarrow> bytes \<Rightarrow> message option" where
  "message_parse of_json b = (case index_get b 0 of None \<Rightarrow> None | Some t \<Rightarrow>
    if t = 1 then Option.bind (u16_le_at b 1) (\<lambda>w. Option.bind (u16_le_at b 3) (\<lambda>h.
      Option.bind (slice_from b 9) (\<lambda>rgba.
        if length rgba \<noteq> unat w * unat h * 4 then None
        else Option.bind (u16_le_at b 5) (\<lambda>x. Option.bind (u16_le_at b 7) (\<lambda>y.
          Some (CursorShape w h x y rgba))))))
    else if t = 2 then map_option (\<lambda>v. CursorVisible (v \<noteq> 0)) (index_get b 1)
    else if t = 3 then map_option ClipboardText (from_utf8 (drop 1 b))
    else if t = 4 then Some (ClipboardImage (drop 1 b))
    else if t = 5 then Option.bind (u32_le_at b 1) (\<lambda>transfer. Option.bind (slice_from b 5) (\<lambda>j.
      map_option (ClipboardFiles transfer) (of_json j)))
    else if t = 6 then Option.bind (u32_le_at b 1) (\<lambda>transfer. Option.bind (u32_le_at b 5) (\<lambda>index.
      Option.bind (u64_le_at b 9) (\<lambda>offset. Option.bind (slice_from b 17) (\<lambda>data.
        Some (FileChunk transfer index offset data)))))
    else if t = 7 then Option.bind (u16_le_at b 1) (\<lambda>port. Option.bind (slice_get b 3 (3 + KEY_LEN)) (\<lambda>key.
      Some (BulkTcp port key (clamp_streams (case index_get b (3 + KEY_LEN) of Some v \<Rightarrow> v | None \<Rightarrow> 1)))))
    else None)"

text \<open>What a Rust value and the sender keep to: string and key types, whole pictures, 1 to 16 streams.\<close>

fun message_wf :: "message \<Rightarrow> bool" where
  "message_wf (CursorShape w h _ _ rgba) = (length rgba = unat w * unat h * 4)"
| "message_wf (ClipboardText t) = utf8 t"
| "message_wf (BulkTcp _ key streams) = (length key = KEY_LEN \<and> 1 \<le> streams \<and> streams \<le> MAX_STREAMS)"
| "message_wf _ = True"

lemma lane_roundtrip [simp]: "lane_from_u8 (lane_u8 l) = Some l"
  by (cases l) (simp_all add: lane_from_u8_def)

lemma clamp_streams_id: "1 \<le> s \<Longrightarrow> s \<le> MAX_STREAMS \<Longrightarrow> clamp_streams s = s"
  by (simp add: clamp_streams_def min_def max_def)

lemma clamp_streams_range [simp]: "1 \<le> clamp_streams v" "clamp_streams v \<le> MAX_STREAMS"
  by (simp_all add: clamp_streams_def MAX_STREAMS_def min_def max_def)

lemma pred_option_bind: "pred_option P (Option.bind x f) \<longleftrightarrow> (\<forall>a. x = Some a \<longrightarrow> pred_option P (f a))"
  by (cases x) simp_all

lemma pred_option_wf: "pred_option message_wf (message_parse of_json b)"
  unfolding message_parse_def
  by (simp add: pred_option_bind option.pred_map comp_def option.pred_True from_utf8_def slice_get_def split: option.split)

text \<open>An older host leaves the number of connections out: one.\<close>

lemma bulk_without_streams:
  "length key = KEY_LEN \<Longrightarrow> message_parse of_json (7 # u16_le port @ key) = Some (BulkTcp port key 1)"
  by (simp add: message_parse_def codec_simps drop_Cons' take_Cons' KEY_LEN_def clamp_streams_def MAX_STREAMS_def)

section \<open>Properties\<close>

text \<open>
  Every message of the reliable channel parses back from its bytes, given that serde reads the file lists it wrote;
  in particular a pointer shape arrives only with exactly the pixels its size asks for.
\<close>

lemma message_roundtrip:
  assumes "message_wf m"
    and "\<And>t es. m = ClipboardFiles t es \<Longrightarrow> \<exists>j. to_json es = Some j \<and> of_json j = Some es"
  shows "message_parse of_json (message_bytes to_json m) = Some m"
proof (cases m)
  case (ClipboardFiles transfer entries)
  obtain j where "to_json entries = Some j" "of_json j = Some entries" using assms(2) ClipboardFiles by blast
  then show ?thesis by (simp add: ClipboardFiles message_parse_def codec_simps drop_Cons' take_Cons')
qed (use assms(1) in \<open>simp_all add: message_parse_def codec_simps drop_Cons' take_Cons' from_utf8_def
      clamp_streams_id KEY_LEN_def nth_append nth_Cons'\<close>)

text \<open>A reader and writer of lists of one file, enough for an example.\<close>

definition one_to_json :: "file_entry list \<Rightarrow> bytes option" where
  "one_to_json es = (case es of [e] \<Rightarrow> Some (u64_le (entry_size e) @ of_bool_u8 (is_dir e) # entry_name e) | _ \<Rightarrow> None)"

definition one_of_json :: "bytes \<Rightarrow> file_entry list option" where
  "one_of_json j = Some [\<lparr> entry_name = drop 9 j, entry_size = u64_of_le (take 8 j), is_dir = j ! 8 \<noteq> 0 \<rparr>]"

theorem message_roundtrip_witness:
  "message_parse one_of_json (message_bytes one_to_json
      (ClipboardFiles 7 [\<lparr> entry_name = [0x61], entry_size = 3, is_dir = False \<rparr>])) =
    Some (ClipboardFiles 7 [\<lparr> entry_name = [0x61], entry_size = 3, is_dir = False \<rparr>])"
  by (rule message_roundtrip) (auto simp: one_to_json_def one_of_json_def nth_append)

text \<open>
  A message parsed from any bytes keeps what its handlers rely on: text is UTF-8, a
  pointer shape has width times height pixels, a bulk key has 32 bytes and the number of connections is 1 to 16.
\<close>

lemma message_parse_wf:
  assumes "message_parse of_json b = Some m"
  shows "message_wf m"
  using assms pred_option_wf [of of_json b] by simp

theorem message_parse_wf_witness: "message_wf (BulkTcp 8080 (replicate KEY_LEN 9) 1)"
  by (rule message_parse_wf [OF bulk_without_streams]) simp

end
