(* ===== verification/Rdpudp.thy ===== *)
theory Rdpudp
  imports Reorder Machine
begin

text \<open>
  The RDP-UDP transport (\<open>rdpudp.rs\<close>): headers, SYN and ACK datagrams, the source payload
  header, and the \<open>Connection\<close> state machine. Fields are big-endian. A \<open>BTreeMap\<close> is an association
  list read through \<open>map_of\<close>; where the code walks it by key the model sorts. The describe line for logs
  is not modelled.
\<close>

definition SYN :: u16 where "SYN = 0x0001"
definition FIN :: u16 where "FIN = 0x0002"
definition ACK :: u16 where "ACK = 0x0004"
definition DATA :: u16 where "DATA = 0x0008"
definition FEC :: u16 where "FEC = 0x0010"
definition SYNLOSSY :: u16 where "SYNLOSSY = 0x0080"
definition SYN_PACKET_SIZE :: nat where "SYN_PACKET_SIZE = 1232"
definition MAX_REORDER :: nat where "MAX_REORDER = 256"
definition MAX_UNACKED :: nat where "MAX_UNACKED = 512"
definition RECEIVED :: u8 where "RECEIVED = 0x00"

lemmas flag_defs = SYN_def FIN_def ACK_def DATA_def FEC_def SYNLOSSY_def

record fec_header =
  sn_source_ack :: u32
  receiver_window :: u16
  hflags :: u16

definition write_fec_header :: "fec_header \<Rightarrow> bytes" where
  "write_fec_header h = u32_be (sn_source_ack h) @ u16_be (receiver_window h) @ u16_be (hflags h)"

definition parse_fec_header :: "bytes \<Rightarrow> fec_header option" where
  "parse_fec_header data =
    (if length data < 8 then None
     else Some \<lparr> sn_source_ack = u32_of_be (take 4 data), receiver_window = u16_of_be (take 2 (drop 4 data)),
                hflags = u16_of_be (take 2 (drop 6 data)) \<rparr>)"

definition has_flag :: "fec_header \<Rightarrow> u16 \<Rightarrow> bool" where
  "has_flag h flag \<longleftrightarrow> hflags h AND flag \<noteq> 0"

record syn_data =
  initial_sequence :: u32
  upstream_mtu :: u16
  downstream_mtu :: u16

definition write_syn_data :: "syn_data \<Rightarrow> bytes" where
  "write_syn_data s = u32_be (initial_sequence s) @ u16_be (upstream_mtu s) @ u16_be (downstream_mtu s)"

definition parse_syn_data :: "bytes \<Rightarrow> syn_data option" where
  "parse_syn_data data =
    (if length data < 8 then None
     else Some \<lparr> initial_sequence = u32_of_be (take 4 data), upstream_mtu = u16_of_be (take 2 (drop 4 data)),
                downstream_mtu = u16_of_be (take 2 (drop 6 data)) \<rparr>)"

text \<open>\<open>Vec::resize(n, 0)\<close>\<close>

definition resize :: "nat \<Rightarrow> bytes \<Rightarrow> bytes" where
  "resize n bs = take n bs @ replicate (n - length bs) 0"

definition build_syn :: "u32 \<Rightarrow> u16 \<Rightarrow> bool \<Rightarrow> bytes" where
  "build_syn isn window lossy =
    (let header = \<lparr> sn_source_ack = isn - 1, receiver_window = window,
                    hflags = (if lossy then SYN OR SYNLOSSY else SYN) \<rparr>;
         syn = \<lparr> initial_sequence = isn, upstream_mtu = of_nat SYN_PACKET_SIZE, downstream_mtu = of_nat SYN_PACKET_SIZE \<rparr>
     in resize SYN_PACKET_SIZE (write_fec_header header @ write_syn_data syn))"

text \<open>The run-length elements of the ACK vector: the loop with \<open>n\<close> elements still allowed.\<close>

fun ack_elements :: "nat \<Rightarrow> u32 \<Rightarrow> bytes" where
  "ack_elements 0 remaining = []"
| "ack_elements (Suc n) remaining =
    (if remaining > 0
     then (let run = (ucast (min remaining 63) :: u8) in (RECEIVED OR run) # ack_elements n (remaining - ucast run))
     else [])"

definition ack_vector :: "u32 \<Rightarrow> bytes" where
  "ack_vector received = (let elements = ack_elements 0xFFFF received in u16_be (of_nat (length elements)) @ elements)"

definition build_ack_with :: "u32 \<Rightarrow> u16 \<Rightarrow> u32 \<Rightarrow> bytes" where
  "build_ack_with ack window received =
    write_fec_header \<lparr> sn_source_ack = ack, receiver_window = window, hflags = ACK \<rparr> @ ack_vector received"

definition build_ack :: "u32 \<Rightarrow> u16 \<Rightarrow> bytes" where
  "build_ack ack window = build_ack_with ack window 0"

datatype datagram_kind = SynAck | Ack | Data | Fin | Other

text \<open>Past the FEC header and the ACK vector (\<open>(off + 3) & !3\<close> rounds up to a multiple of four).\<close>

definition after_acks :: "bytes \<Rightarrow> u16 \<Rightarrow> nat option" where
  "after_acks data flags =
    (if flags AND ACK \<noteq> 0
     then Option.bind (index_get data 8) (\<lambda>a. Option.bind (index_get data 9) (\<lambda>b.
            let off = 8 + (2 + unat (u16_of_be [a, b])) in Some ((off + 3) div 4 * 4)))
     else Some 8)"

definition source_payload :: "bytes \<Rightarrow> u16 \<Rightarrow> bytes option" where
  "source_payload data flags =
    Option.bind (after_acks data flags) (\<lambda>off.
      slice_from data (if flags AND DATA \<noteq> 0 then off + 8 else off))"

definition source_seq :: "bytes \<Rightarrow> u16 \<Rightarrow> u32 option" where
  "source_seq data flags =
    (if flags AND DATA = 0 then None
     else Option.bind (after_acks data flags) (\<lambda>off.
       let s = off + 4
       in Option.bind (index_get data s) (\<lambda>a. Option.bind (index_get data (s + 1)) (\<lambda>b.
          Option.bind (index_get data (s + 2)) (\<lambda>c. Option.bind (index_get data (s + 3)) (\<lambda>d.
            Some (u32_of_be [a, b, c, d])))))))"

definition classify :: "bytes \<Rightarrow> (fec_header \<times> datagram_kind \<times> syn_data option) option" where
  "classify data =
    Option.bind (parse_fec_header data) (\<lambda>header.
      let kind = (if has_flag header SYN \<and> has_flag header ACK then SynAck
                  else if has_flag header FIN then Fin
                  else if has_flag header DATA then Data
                  else if has_flag header ACK then Ack
                  else Other);
          syn = (if has_flag header SYN then parse_syn_data (drop 8 data) else None)
      in Some (header, kind, syn))"

datatype conn_state = SynSent | Established | Closed
datatype action = Send bytes | Deliver bytes | NowEstablished | NowClosed

record connection =
  state :: conn_state
  send_seq :: u32
  recv_seq :: u32
  recv_count :: u32
  window :: u16
  lossy :: bool
  unacked :: "(u32 \<times> bytes) list"
  recv_source_total :: u64
  recv_lost :: u64
  recv_next :: "u32 option"
  reorder :: "(u32 \<times> bytes) list"

definition connect :: "u32 \<Rightarrow> u16 \<Rightarrow> bool \<Rightarrow> connection \<times> bytes" where
  "connect isn w l =
    (\<lparr> state = SynSent, send_seq = isn, recv_seq = 0, recv_count = 0, window = w, lossy = l,
       unacked = [], recv_source_total = 0, recv_lost = 0, recv_next = None, reorder = [] \<rparr>,
     build_syn isn w l)"

text \<open>\<open>seq\<close> is strictly ahead of the acknowledged number.\<close>

definition ahead_of :: "u32 \<Rightarrow> u32 \<Rightarrow> bool" where
  "ahead_of seq ack \<longleftrightarrow> seq - ack \<noteq> 0 \<and> seq - ack < 0x80000000"

definition drop_acked :: "u32 \<Rightarrow> connection \<Rightarrow> connection" where
  "drop_acked ack c = c\<lparr>unacked := filter (\<lambda>e. ahead_of (fst e) ack) (unacked c)\<rparr>"

definition re_ack :: "connection \<Rightarrow> action" where
  "re_ack c = Send (build_ack_with (recv_seq c) (window c) (recv_count c))"

text \<open>The body of the drain loop: one held payload delivered.\<close>

definition deliver_held :: "u16 \<Rightarrow> bytes \<Rightarrow> action list \<times> u32 \<Rightarrow> action list \<times> u32" where
  "deliver_held w held st = (fst st @ [Deliver held], min (snd st + 1) (ucast w))"

definition accept_source :: "connection \<Rightarrow> u32 \<Rightarrow> bytes \<Rightarrow> connection \<times> action list" where
  "accept_source c0 seq payload =
    (let first = (case recv_next c0 of Some n \<Rightarrow> n | None \<Rightarrow> seq);
         c = c0\<lparr>recv_next := Some first\<rparr>;
         ahead = seq - first
     in if ahead \<ge> 0x80000000 then (c, [])
        else if ahead = 0 then
          (let (last, held, (actions, count)) =
             drain (deliver_held (window c)) first (reorder c) ([Deliver payload], min (recv_count c + 1) (ucast (window c)))
           in (c\<lparr>recv_seq := last + 1 - 1, recv_count := count, recv_next := Some (last + 1), reorder := held\<rparr>, actions))
        else
          (c\<lparr>recv_lost := recv_lost c + 1,
             reorder := (if length (reorder c) < MAX_REORDER then AList.update seq payload (reorder c) else reorder c)\<rparr>, []))"

definition on_data :: "connection \<Rightarrow> fec_header \<Rightarrow> bytes \<Rightarrow> connection \<times> action list" where
  "on_data c header datagram =
    (if has_flag header FEC then (c, [re_ack c])
     else
       (let c1 = c\<lparr>recv_source_total := recv_source_total c + 1\<rparr>;
            (c2, actions) =
              (case (source_seq datagram (hflags header), source_payload datagram (hflags header)) of
                 (Some seq, Some payload) \<Rightarrow> if payload \<noteq> [] then accept_source c1 seq payload else (c1, [])
               | _ \<Rightarrow> (c1, []))
        in (c2, actions @ [re_ack c2])))"

definition on_receive :: "connection \<Rightarrow> bytes \<Rightarrow> connection \<times> action list" where
  "on_receive c0 datagram =
    (case classify datagram of None \<Rightarrow> (c0, [])
     | Some (header, kind, syn) \<Rightarrow>
        (let c = drop_acked (sn_source_ack header) c0
         in if kind = SynAck \<and> state c = SynSent then
              (let c1 = (case syn of
                     Some s \<Rightarrow> c\<lparr>state := Established, recv_seq := initial_sequence s, recv_next := Some (initial_sequence s + 1)\<rparr>
                   | None \<Rightarrow> c\<lparr>state := Established, recv_seq := sn_source_ack header\<rparr>)
               in (c1, [Send (build_ack (recv_seq c1) (window c1)), NowEstablished]))
            else if kind = Data \<and> state c = Established then on_data c header datagram
            else if kind = Fin then (c\<lparr>state := Closed\<rparr>, [NowClosed])
            else (c, [])))"

text \<open>\<open>keys().next()\<close> of a \<open>BTreeMap\<close> is its least key; \<open>values()\<close> come by key.\<close>

definition build_data :: "connection \<Rightarrow> bytes \<Rightarrow> connection \<times> bytes" where
  "build_data c payload =
    (let seq = send_seq c + 1;
         out = write_fec_header \<lparr> sn_source_ack = recv_seq c, receiver_window = window c, hflags = DATA OR ACK \<rparr> @ payload;
         c1 = c\<lparr>send_seq := seq\<rparr>
     in if lossy c then (c1, out)
        else
          (let kept = (if length (unacked c1) \<ge> MAX_UNACKED
                       then AList.delete (Min (set (map fst (unacked c1)))) (unacked c1) else unacked c1)
           in (c1\<lparr>unacked := AList.update seq out kept\<rparr>, out)))"

definition retransmit :: "connection \<Rightarrow> bytes list" where
  "retransmit c = map snd (sort_key fst (unacked c))"

section \<open>Codecs\<close>

lemma fec_header_roundtrip: "parse_fec_header (write_fec_header h @ rest) = Some h"
  by (simp add: parse_fec_header_def write_fec_header_def)

lemma syn_data_roundtrip: "parse_syn_data (write_syn_data s @ rest) = Some s"
  by (simp add: parse_syn_data_def write_syn_data_def)

lemma length_write [simp]: "length (write_fec_header h) = 8" "length (write_syn_data s) = 8"
  by (simp_all add: write_fec_header_def write_syn_data_def)

section \<open>Sequence numbers from any start\<close>

definition shift :: "u32 \<Rightarrow> (u32 \<times> 'a) list \<Rightarrow> (u32 \<times> 'a) list" where
  "shift d p = map (\<lambda>(k, v). (k + d, v)) p"

lemma map_of_shift: "map_of (shift d p) (k + d) = map_of p k"
  by (induction p) (auto simp: shift_def)

lemma delete_shift: "AList.delete (k + d) (shift d p) = shift d (AList.delete k p)"
  by (induction p) (auto simp: shift_def)

lemma update_shift: "AList.update (k + d) v (shift d p) = shift d (AList.update k v p)"
  by (induction p) (auto simp: shift_def)

lemma length_shift [simp]: "length (shift d p) = length p"
  by (simp add: shift_def)

lemma drain_shift:
  "drain f (cum + d) (shift d p) st =
    (fst (drain f cum p st) + d, shift d (fst (snd (drain f cum p st))), snd (snd (drain f cum p st)))"
proof (induction f cum p st rule: drain.induct)
  case (1 f cum p st)
  have k: "cum + d + 1 = (cum + 1) + d" by simp
  show ?case
  proof (cases "map_of p (cum + 1)")
    case None
    then show ?thesis unfolding drain.simps [of f "cum + d"] drain.simps [of f cum p] k map_of_shift by simp
  next
    case (Some x)
    then show ?thesis using "1.IH" [OF Some]
      unfolding drain.simps [of f "cum + d"] drain.simps [of f cum p] k map_of_shift delete_shift by simp
  qed
qed

lemma drain_distinct:
  "distinct (map fst p) \<Longrightarrow> distinct (map fst (fst (snd (drain f cum p st))))"
proof (induction f cum p st rule: drain.induct)
  case (1 f cum p st)
  then show ?case using distinct_delete [of p "cum + 1"]
    by (subst drain.simps) (auto split: option.splits)
qed

lemma behind:
  assumes "i < k" "k < 2 ^ 31"
  shows "(of_nat i - of_nat k :: u32) \<ge> 0x80000000"
proof -
  have eq: "(of_nat i - of_nat k :: u32) = of_nat (2 ^ 32 - (k - i))"
    using assms by (simp add: of_nat_diff)
  have u: "unat (of_nat (2 ^ 32 - (k - i)) :: u32) = 2 ^ 32 - (k - i)"
    using assms by (intro unat_of_nat_u32) simp
  show ?thesis unfolding eq word_le_nat_alt u using assms by simp
qed

lemma ahead:
  assumes "k < i" "i < 2 ^ 31"
  shows "(of_nat i - of_nat k :: u32) < 0x80000000" "(of_nat i - of_nat k :: u32) \<noteq> 0"
  using unat_diff_u32 [of k i] assms by (auto simp: word_less_nat_alt)

section \<open>In-order delivery\<close>

definition delivered :: "action list \<Rightarrow> bytes list" where
  "delivered acts = concat (map (\<lambda>a. case a of Deliver p \<Rightarrow> [p] | _ \<Rightarrow> []) acts)"

lemma delivered_append [simp]: "delivered (as @ bs) = delivered as @ delivered bs"
  by (simp add: delivered_def)

lemma delivered_simps [simp]:
  "delivered [] = []" "delivered (Deliver p # as) = p # delivered as" "delivered (Send b # as) = delivered as"
  "delivered (NowEstablished # as) = delivered as" "delivered (NowClosed # as) = delivered as"
  "delivered (map Deliver ps) = ps"
  by (simp_all add: delivered_def comp_def)

lemma fold_deliver_held:
  "fst (fold (deliver_held w) xs st) = fst st @ map Deliver xs"
  by (induction xs arbitrary: st) (simp_all add: deliver_held_def)

text \<open>
  The receiving side after \<open>k\<close> payloads of the peer's stream \<open>all\<close> have been delivered: item
  \<open>i\<close> has the sequence number \<open>isn + i + 1\<close>; \<open>arrived\<close> is what has come in.
\<close>

definition recv_inv :: "bytes list \<Rightarrow> u32 \<Rightarrow> nat set \<Rightarrow> connection \<Rightarrow> nat \<Rightarrow> bool" where
  "recv_inv all isn arrived c k \<longleftrightarrow>
     state c = Established \<and> k \<le> length all \<and>
     recv_next c = Some (of_nat (Suc k) + isn) \<and> recv_seq c = of_nat k + isn \<and>
     (\<exists>p. reorder c = shift isn p \<and> holds all k p \<and> map_of p (of_nat (Suc k)) = None \<and> distinct (map fst p) \<and>
        (length all \<le> MAX_REORDER \<longrightarrow> (\<forall>i \<in> arrived. has k p i)))"

lemma not_next:
  assumes "map_of p (of_nat (Suc k)) = None" "map_of p q = Some x"
  shows "unat (q :: u32) \<noteq> Suc k"
proof
  assume "unat q = Suc k"
  moreover have "of_nat (unat q) = q" by simp
  ultimately show False using assms by (simp del: of_nat_Suc)
qed

lemma held_room:
  assumes "holds all k p" "map_of p (of_nat (Suc k)) = None" "distinct (map fst p)"
    "length all \<le> MAX_REORDER" "0 < length all" "k \<le> length all"
  shows "length p < MAX_REORDER"
proof -
  have "unat ` set (map fst p) \<subseteq> {Suc (Suc k)..length all}"
  proof
    fix n assume "n \<in> unat ` set (map fst p)"
    then obtain q where q: "q \<in> set (map fst p)" "n = unat q" by auto
    then obtain x where x: "map_of p q = Some x" by (metis map_of_eq_None_iff list.set_map not_Some_eq)
    then have "k < unat q" "unat q \<le> length all" using assms(1) by (auto simp: holds_def)
    moreover have "unat q \<noteq> Suc k" using not_next [OF assms(2) x] .
    ultimately show "n \<in> {Suc (Suc k)..length all}" using q by auto
  qed
  then have "card (unat ` set (map fst p)) \<le> length all - Suc k"
    using card_mono [of "{Suc (Suc k)..length all}"] by (simp add: le_diff_conv)
  moreover have "card (unat ` set (map fst p)) = length p"
    using assms(3) by (metis card_image distinct_card inj_on_def length_map word_unat_eq_iff)
  moreover have "length all - Suc k < length all" using assms(5) by simp
  ultimately show ?thesis using assms(4) by linarith
qed

lemma holds_update:
  assumes "holds all c p" "c \<le> i" "i < length all" "length all < 2 ^ 32"
  shows "holds all c (AList.update (of_nat (Suc i)) (all ! i) p)"
  using assms by (auto simp: holds_def update_conv' unat_of_nat_u32 simp del: of_nat_Suc)

lemma has_update:
  assumes "i < n" "j < n" "n < 2 ^ 32"
  shows "has c (AList.update (of_nat (Suc i)) x p) j \<longleftrightarrow> has c p j \<or> j = i"
proof -
  have "(of_nat (Suc j) :: u32) = of_nat (Suc i) \<longleftrightarrow> j = i"
    using assms of_nat_eq_u32 [of "Suc j" "Suc i"] by simp
  then show ?thesis by (auto simp: has_def update_conv' simp del: of_nat_Suc)
qed

lemma accept_source_inv:
  assumes inv: "recv_inv all isn arrived c k" and n: "length all < 2 ^ 31" and i: "i < length all"
    and arr: "arrived \<subseteq> {..<length all}"
  shows "\<exists>k'. k \<le> k' \<and> recv_inv all isn (insert i arrived) (fst (accept_source c (of_nat (Suc i) + isn) (all ! i))) k' \<and>
    delivered (snd (accept_source c (of_nat (Suc i) + isn) (all ! i))) = drop k (take k' all)"
proof -
  obtain p where p: "reorder c = shift isn p" "holds all k p" "map_of p (of_nat (Suc k)) = None" "distinct (map fst p)"
    "length all \<le> MAX_REORDER \<longrightarrow> (\<forall>i \<in> arrived. has k p i)"
    and k: "state c = Established" "k \<le> length all" "recv_next c = Some (of_nat (Suc k) + isn)" "recv_seq c = of_nat k + isn"
    using inv unfolding recv_inv_def by blast
  have diff: "(of_nat (Suc i) + isn) - (of_nat (Suc k) + isn) = (of_nat i - of_nat k :: u32)" by simp
  have same: "c\<lparr>recv_next := Some (of_nat (Suc k) + isn)\<rparr> = c" using k(3) by simp
  consider "i < k" | "i = k" | "k < i" by linarith
  then show ?thesis
  proof cases
    case 1
    then have "accept_source c (of_nat (Suc i) + isn) (all ! i) = (c, [])"
      using behind [of i k] k(2) n unfolding accept_source_def k(3) option.case same Let_def diff by simp
    moreover have "recv_inv all isn (insert i arrived) c k"
      using inv 1 unfolding recv_inv_def by (auto simp: has_def)
    ultimately show ?thesis by (intro exI [of _ k]) simp
  next
    case 2
    have h: "holds all (Suc k) p" unfolding holds_def
    proof (intro allI impI)
      fix q x assume x: "map_of p q = Some x"
      then have "unat q \<noteq> Suc k" using not_next [OF p(3)] by blast
      then show "Suc k < unat q \<and> unat q \<le> length all \<and> x = all ! (unat q - 1)"
        using p(2) x unfolding holds_def by (metis Suc_lessI)
    qed
    let ?st = "([Deliver (all ! i)], min (recv_count c + 1) (ucast (window c)))"
    obtain k' p' where d: "Suc k \<le> k'" "k' \<le> length all" "holds all k' p'"
      "drain (deliver_held (window c)) (of_nat (Suc k)) p ?st = (of_nat k', p', fold (deliver_held (window c)) (drop (Suc k) (take k' all)) ?st)"
      "map_of p' (of_nat (Suc k')) = None" "\<forall>j < length all. has k' p' j = has (Suc k) p j"
      using drain_spec [OF h, of "deliver_held (window c)" ?st] 2 i n by auto
    define st where "st = fold (deliver_held (window c)) (drop (Suc k) (take k' all)) ?st"
    have dr: "drain (deliver_held (window c)) (of_nat (Suc k) + isn) (reorder c) ?st = (of_nat k' + isn, shift isn p', st)"
      unfolding p(1) drain_shift d(4) st_def by simp
    have acts: "fst st = map Deliver (drop k (take k' all))"
      using d(1) 2 i by (simp add: st_def fold_deliver_held Cons_nth_drop_Suc [symmetric] d(2))
    have arrived: "has k' p' j" if "length all \<le> MAX_REORDER" "j \<in> insert i arrived" for j
    proof -
      have "has (Suc k) p j" using that p(5) 2 by (auto simp: has_def)
      then show ?thesis using d(6) that(2) arr i by auto
    qed
    have zero: "\<not> (0x80000000 :: u32) \<le> 0" by (simp add: word_le_nat_alt)
    have acc: "accept_source c (of_nat (Suc i) + isn) (all ! i) =
        (c\<lparr>recv_seq := of_nat k' + isn, recv_count := snd st, recv_next := Some (of_nat (Suc k') + isn), reorder := shift isn p'\<rparr>, fst st)"
      unfolding accept_source_def k(3) option.case same Let_def diff using 2 dr zero
      by (cases st) (simp add: algebra_simps)
    have dist: "distinct (map fst p')" using drain_distinct [OF p(4), of "deliver_held (window c)" "of_nat (Suc k)" ?st] d(4) by simp
    have "recv_inv all isn (insert i arrived) (fst (accept_source c (of_nat (Suc i) + isn) (all ! i))) k'"
      unfolding recv_inv_def acc using k(1) d(2,3,5) dist arrived
      by (auto simp del: of_nat_Suc intro!: exI [of _ p'])
    then show ?thesis using d(1) acts acc by (intro exI [of _ k']) auto
  next
    case 3
    have ah: "\<not> 0x80000000 \<le> (of_nat i - of_nat k :: u32)" "(of_nat i - of_nat k :: u32) \<noteq> 0"
      using ahead [OF 3] i n by (auto simp: not_le)
    define q where "q = (if length p < MAX_REORDER then AList.update (of_nat (Suc i)) (all ! i) p else p)"
    have acc: "accept_source c (of_nat (Suc i) + isn) (all ! i) = (c\<lparr>recv_lost := recv_lost c + 1, reorder := shift isn q\<rparr>, [])"
      unfolding accept_source_def k(3) option.case same Let_def diff using ah
      by (simp add: p(1) q_def update_shift del: of_nat_Suc)
    have "holds all k q" using holds_update [OF p(2), of i] p(2) 3 i n by (simp add: q_def del: of_nat_Suc)
    moreover have "map_of q (of_nat (Suc k)) = None"
      using p(3) of_nat_eq_u32 [of "Suc k" "Suc i"] 3 i n by (auto simp: q_def update_conv' simp del: of_nat_Suc)
    moreover have "distinct (map fst q)" using p(4) by (simp add: q_def distinct_update)
    moreover have "has k q j" if "length all \<le> MAX_REORDER" "j \<in> insert i arrived" for j
    proof -
      have "length p < MAX_REORDER" by (rule held_room [OF p(2,3,4) that(1) _ k(2)]) (use i in linarith)
      then show ?thesis using has_update [OF i, of j k "all ! i" p] that p(5) arr i n by (auto simp: q_def simp del: of_nat_Suc)
    qed
    ultimately have "recv_inv all isn (insert i arrived) (fst (accept_source c (of_nat (Suc i) + isn) (all ! i))) k"
      using k acc unfolding recv_inv_def by (auto simp del: of_nat_Suc intro!: exI [of _ q])
    then show ?thesis using acc by (intro exI [of _ k]) auto
  qed
qed

text \<open>A datagram of the peer that carries item \<open>i\<close>.\<close>

definition source_item :: "bytes list \<Rightarrow> u32 \<Rightarrow> nat \<Rightarrow> bytes \<Rightarrow> bool" where
  "source_item all isn i d \<longleftrightarrow> i < length all \<and>
     (\<exists>h syn. classify d = Some (h, Data, syn) \<and> \<not> has_flag h FEC \<and>
        source_seq d (hflags h) = Some (of_nat (Suc i) + isn) \<and> source_payload d (hflags h) = Some (all ! i))"

text \<open>
  What may arrive: malformed datagrams, acknowledgements, parity and repeated handshakes as they
  like, and source datagrams of the stream; no FIN.
\<close>

definition peer_sends :: "bytes list \<Rightarrow> u32 \<Rightarrow> bytes \<Rightarrow> bool" where
  "peer_sends all isn d \<longleftrightarrow>
     (\<forall>h kind syn. classify d = Some (h, kind, syn) \<longrightarrow> kind \<noteq> Fin \<and>
        (kind = Data \<longrightarrow> has_flag h FEC \<or> (\<exists>i. source_item all isn i d)))"

lemma recv_inv_other:
  "recv_inv all isn arrived c k \<Longrightarrow> recv_inv all isn arrived (c\<lparr>unacked := u\<rparr>) k"
  "recv_inv all isn arrived c k \<Longrightarrow> recv_inv all isn arrived (c\<lparr>recv_source_total := t\<rparr>) k"
  by (auto simp: recv_inv_def)

lemma receive_inv:
  assumes inv: "recv_inv all isn arrived c k" and n: "length all < 2 ^ 31" "\<forall>p \<in> set all. p \<noteq> []"
    and d: "peer_sends all isn d" and arr: "arrived \<subseteq> {..<length all}"
  shows "\<exists>k'. k \<le> k' \<and> recv_inv all isn (arrived \<union> {i. source_item all isn i d}) (fst (on_receive c d)) k' \<and>
    delivered (snd (on_receive c d)) = drop k (take k' all)"
proof (cases "classify d")
  case None
  then have "{i. source_item all isn i d} = {}" by (auto simp: source_item_def)
  then show ?thesis using None inv by (intro exI [of _ k]) (simp add: on_receive_def)
next
  case (Some r)
  obtain h kind syn where r: "classify d = Some (h, kind, syn)" using Some by (cases r) auto
  define c1 where "c1 = drop_acked (sn_source_ack h) c"
  have inv1: "recv_inv all isn arrived c1 k" using inv by (simp add: c1_def drop_acked_def recv_inv_other)
  then have est: "state c1 = Established" by (simp add: recv_inv_def)
  have "kind \<noteq> Fin" using d r by (simp add: peer_sends_def)
  then have step: "on_receive c d = (if kind = Data then on_data c1 h d else (c1, []))"
    by (simp add: on_receive_def r c1_def [symmetric] Let_def est)
  show ?thesis
  proof (cases "\<exists>i. source_item all isn i d")
    case False
    then have "on_receive c d = (c1, []) \<or> on_receive c d = (c1, [re_ack c1])"
      using d r step by (auto simp: peer_sends_def on_data_def)
    then show ?thesis using inv1 False by (intro exI [of _ k]) (auto simp: re_ack_def)
  next
    case True
    then obtain i where i: "source_item all isn i d" by blast
    then have src: "i < length all" "kind = Data" "\<not> has_flag h FEC"
      "source_seq d (hflags h) = Some (of_nat (Suc i) + isn)" "source_payload d (hflags h) = Some (all ! i)"
      using r by (auto simp: source_item_def)
    have only: "{j. source_item all isn j d} = {i}"
    proof -
      have "j = i" if "source_item all isn j d" for j
      proof -
        have "(of_nat (Suc j) :: u32) = of_nat (Suc i)" "j < length all"
          using that src(4) r by (auto simp: source_item_def)
        then show ?thesis using of_nat_eq_u32 [of "Suc j" "Suc i"] src(1) n(1) by (simp del: of_nat_Suc)
      qed
      then show ?thesis using i by blast
    qed
    let ?c2 = "c1\<lparr>recv_source_total := recv_source_total c1 + 1\<rparr>"
    obtain k' where k': "k \<le> k'"
      "recv_inv all isn (insert i arrived) (fst (accept_source ?c2 (of_nat (Suc i) + isn) (all ! i))) k'"
      "delivered (snd (accept_source ?c2 (of_nat (Suc i) + isn) (all ! i))) = drop k (take k' all)"
      using accept_source_inv [OF recv_inv_other(2) [OF inv1] n(1) src(1) arr] by blast
    have "all ! i \<noteq> []" using n(2) src(1) by simp
    then have "on_receive c d = (let r = accept_source ?c2 (of_nat (Suc i) + isn) (all ! i) in (fst r, snd r @ [re_ack (fst r)]))"
      using step src(2,3) by (simp add: on_data_def src(4,5) Let_def split_beta del: of_nat_Suc)
    then show ?thesis using k' by (intro exI [of _ k']) (simp add: only Let_def re_ack_def)
  qed
qed

lemma drop_take_join: "k \<le> k1 \<Longrightarrow> k1 \<le> k2 \<Longrightarrow> drop k (take k1 xs) @ drop k1 (take k2 xs) = drop k (take k2 xs)"
proof -
  assume k: "k \<le> k1" "k1 \<le> k2"
  define ys where "ys = take k2 xs"
  have "drop k ys = drop k (take k1 ys @ drop k1 ys)" by simp
  also have "\<dots> = drop k (take k1 ys) @ drop k1 ys"
    using k by (cases "k1 \<le> length ys") (simp_all del: append_take_drop_id)
  finally show ?thesis using k by (simp add: ys_def min_def)
qed

lemma receive_all_inv:
  assumes "recv_inv all isn arrived c k" "length all < 2 ^ 31" "\<forall>p \<in> set all. p \<noteq> []"
    "\<forall>d \<in> set ds. peer_sends all isn d" "arrived \<subseteq> {..<length all}"
  shows "\<exists>k'. k \<le> k' \<and> recv_inv all isn (arrived \<union> {i. \<exists>d \<in> set ds. source_item all isn i d}) (fst (run on_receive c ds)) k' \<and>
    delivered (concat (map snd (snd (run on_receive c ds)))) = drop k (take k' all)"
  using assms
proof (induction ds arbitrary: c k arrived)
  case (Cons d ds)
  obtain k1 where k1: "k \<le> k1" "recv_inv all isn (arrived \<union> {i. source_item all isn i d}) (fst (on_receive c d)) k1"
    "delivered (snd (on_receive c d)) = drop k (take k1 all)"
    using receive_inv [OF Cons.prems(1,2,3) _ Cons.prems(5)] Cons.prems(4) by auto
  have sub: "arrived \<union> {i. source_item all isn i d} \<subseteq> {..<length all}"
    using Cons.prems(5) by (auto simp: source_item_def)
  obtain k2 where k2: "k1 \<le> k2"
    "recv_inv all isn ((arrived \<union> {i. source_item all isn i d}) \<union> {i. \<exists>d \<in> set ds. source_item all isn i d})
       (fst (run on_receive (fst (on_receive c d)) ds)) k2"
    "delivered (concat (map snd (snd (run on_receive (fst (on_receive c d)) ds)))) = drop k1 (take k2 all)"
    using Cons.IH [OF k1(2) Cons.prems(2,3) _ sub] Cons.prems(4) by auto
  have "drop k (take k1 all) @ drop k1 (take k2 all) = drop k (take k2 all)"
    using k1(1) k2(1) by (rule drop_take_join)
  moreover have "(arrived \<union> {i. source_item all isn i d}) \<union> {i. \<exists>d \<in> set ds. source_item all isn i d} =
      arrived \<union> {i. \<exists>d' \<in> set (d # ds). source_item all isn i d'}" by auto
  ultimately show ?case using k1 k2 by (intro exI [of _ k2]) (simp add: Let_def)
qed auto

section \<open>Sending\<close>

text \<open>What \<open>unacked\<close> is: at most 512 datagrams, one per number, none on a lossy channel.\<close>

definition unacked_inv :: "connection \<Rightarrow> bool" where
  "unacked_inv c \<longleftrightarrow> distinct (map fst (unacked c)) \<and> length (unacked c) \<le> MAX_UNACKED \<and> (lossy c \<longrightarrow> unacked c = [])"

lemma length_update_le: "length (AList.update k v p) \<le> Suc (length p)"
  by (induction p) auto

lemma build_data_inv: "unacked_inv c \<Longrightarrow> unacked_inv (fst (build_data c p))"
proof -
  assume inv: "unacked_inv c"
  define kept where "kept = (if length (unacked c) \<ge> MAX_UNACKED
    then AList.delete (Min (set (map fst (unacked c)))) (unacked c) else unacked c)"
  have kept_len: "length kept < MAX_UNACKED"
  proof (cases "length (unacked c) \<ge> MAX_UNACKED")
    case True
    then have "set (map fst (unacked c)) \<noteq> {}" by (auto simp: MAX_UNACKED_def)
    then have "Min (set (map fst (unacked c))) \<in> set (map fst (unacked c))" by (intro Min_in) auto
    then obtain x where "map_of (unacked c) (Min (set (map fst (unacked c)))) = Some x"
      by (metis map_of_eq_None_iff list.set_map not_Some_eq)
    from length_delete_less [OF this] show ?thesis using True inv by (simp add: kept_def unacked_inv_def)
  qed (simp add: kept_def)
  have "distinct (map fst kept)" using inv by (auto simp: kept_def unacked_inv_def distinct_delete)
  moreover have "length (AList.update k v kept) \<le> MAX_UNACKED" for k v
    using kept_len length_update_le [of k v kept] by linarith
  moreover have "unacked (fst (build_data c p)) =
      (if lossy c then unacked c else AList.update (send_seq c + 1) (snd (build_data c p)) kept)"
    "lossy (fst (build_data c p)) = lossy c"
    by (simp_all add: build_data_def Let_def kept_def)
  ultimately show "unacked_inv (fst (build_data c p))" using inv
    by (simp add: unacked_inv_def distinct_update)
qed

lemma receive_unacked:
  "unacked (fst (on_receive c d)) =
    (case classify d of None \<Rightarrow> unacked c
     | Some (h, _) \<Rightarrow> filter (\<lambda>e. ahead_of (fst e) (sn_source_ack h)) (unacked c))"
  by (auto simp: on_receive_def on_data_def accept_source_def drop_acked_def Let_def split_beta split: option.splits prod.splits)

lemma receive_unacked_inv: "unacked_inv c \<Longrightarrow> unacked_inv (fst (on_receive c d))"
proof -
  have "lossy (fst (on_receive c d)) = lossy c"
    by (auto simp: on_receive_def on_data_def accept_source_def drop_acked_def Let_def split_beta split: option.splits prod.splits)
  then show "unacked_inv c \<Longrightarrow> unacked_inv (fst (on_receive c d))"
    by (auto simp: unacked_inv_def receive_unacked distinct_map_filter split: option.splits
        intro: order_trans [OF length_filter_le])
qed

section \<open>Properties\<close>


text \<open>Datagrams as the specification frames them: SYN+ACK, and source data without an ACK vector.\<close>

definition syn_ack_datagram :: "u32 \<Rightarrow> bytes" where
  "syn_ack_datagram isn =
    write_fec_header \<lparr> sn_source_ack = 0, receiver_window = 64, hflags = SYN OR ACK \<rparr> @
    write_syn_data \<lparr> initial_sequence = isn, upstream_mtu = 1232, downstream_mtu = 1232 \<rparr>"

definition source_datagram :: "u32 \<Rightarrow> bytes \<Rightarrow> bytes" where
  "source_datagram seq payload =
    write_fec_header \<lparr> sn_source_ack = 0, receiver_window = 64, hflags = DATA \<rparr> @ u32_be seq @ u32_be seq @ payload"

lemma classify_syn_ack: "\<exists>h. classify (syn_ack_datagram isn) =
    Some (h, SynAck, Some \<lparr> initial_sequence = isn, upstream_mtu = 1232, downstream_mtu = 1232 \<rparr>)"
  using syn_data_roundtrip [of "\<lparr> initial_sequence = isn, upstream_mtu = 1232, downstream_mtu = 1232 \<rparr>" "[]"]
  by (simp add: classify_def syn_ack_datagram_def fec_header_roundtrip has_flag_def flag_defs)

lemma length_4_eq: "length xs = 4 \<Longrightarrow> [xs ! 0, xs ! 1, xs ! 2, xs ! 3] = xs"
  by (auto simp: numeral_eq_Suc length_Suc_conv)

lemma source_item_datagram:
  assumes "i < length all"
  shows "source_item all isn i (source_datagram (of_nat (Suc i) + isn) (all ! i))"
proof -
  define seq where "seq = (of_nat (Suc i) + isn :: u32)"
  have cl: "classify (source_datagram seq p) = Some (\<lparr> sn_source_ack = 0, receiver_window = 64, hflags = DATA \<rparr>, Data, None)" for p
    by (simp add: classify_def source_datagram_def fec_header_roundtrip has_flag_def flag_defs)
  have len: "length (write_fec_header h) = 8" for h by simp
  have "source_seq (source_datagram seq p) DATA = Some seq" for p
    using length_4_eq [of "u32_be seq"]
    by (simp add: source_seq_def after_acks_def source_datagram_def index_get_def flag_defs nth_append)
  moreover have "source_payload (source_datagram seq p) DATA = Some p" for p
    by (simp add: source_payload_def after_acks_def source_datagram_def slice_from_def flag_defs)
  ultimately show ?thesis using assms cl by (simp add: source_item_def has_flag_def flag_defs seq_def del: of_nat_Suc)
qed


text \<open>Everything a driver does with a connection.\<close>

datatype udp_call = Receive bytes | Submit bytes

fun udp_step :: "connection \<Rightarrow> udp_call \<Rightarrow> connection \<times> action list" where
  "udp_step c (Receive d) = on_receive c d"
| "udp_step c (Submit p) = (let (c', out) = build_data c p in (c', [Send out]))"

lemma receive_lossy: "lossy (fst (on_receive c d)) = lossy c"
  by (auto simp: on_receive_def on_data_def accept_source_def drop_acked_def Let_def split_beta split: option.splits prod.splits)

lemma build_data_lossy: "lossy (fst (build_data c p)) = lossy c"
  by (simp add: build_data_def Let_def)

lemma udp_step_inv: "unacked_inv c \<Longrightarrow> unacked_inv (fst (udp_step c x)) \<and> lossy (fst (udp_step c x)) = lossy c"
  using build_data_inv receive_unacked_inv
  by (cases x) (auto simp: split_beta Let_def receive_lossy build_data_lossy)

interpretation udp_history: history udp_step "fst (connect isn w l)" "\<lambda>c _. unacked_inv c \<and> lossy c = l"
proof
  show "unacked_inv (fst (connect isn w l)) \<and> lossy (fst (connect isn w l)) = l"
    by (simp add: connect_def unacked_inv_def)
  show "unacked_inv c' \<and> lossy c' = l" if "unacked_inv c \<and> lossy c = l" "udp_step c x = (c', y)" for c x c' y
    using udp_step_inv [of c x] that by simp
qed

text \<open>
  A stalled peer cannot make the sender grow: whatever is sent and received, at most 512 datagrams wait to be
  sent again (none on the lossy channel), and after a datagram none of them is one its acknowledgement covers.
\<close>

lemma udp_sender_bounded:
  assumes "c = fst (run udp_step (fst (connect isn w l)) xs)" "classify d = Some (h, kind, syn)"
  shows "length (retransmit c) \<le> 512 \<and> (l \<longrightarrow> retransmit c = []) \<and>
    (\<forall>seq \<in> fst ` set (unacked (fst (on_receive c d))). ahead_of seq (sn_source_ack h))"
  using udp_history.inv_run [of isn w l xs] assms receive_unacked [of c d]
  by (auto simp: unacked_inv_def retransmit_def MAX_UNACKED_def)

theorem udp_sender_bounded_witness:
  "length (retransmit (fst (run udp_step (fst (connect 1 64 True)) [Submit [7]]))) \<le> 512 \<and>
    retransmit (fst (run udp_step (fst (connect 1 64 True)) [Submit [7]])) = []"
proof -
  obtain h where "classify (syn_ack_datagram 100) =
      Some (h, SynAck, Some \<lparr> initial_sequence = 100, upstream_mtu = 1232, downstream_mtu = 1232 \<rparr>)"
    using classify_syn_ack by blast
  from udp_sender_bounded [OF refl this, of 1 64 True "[Submit [7]]"] show ?thesis by blast
qed

text \<open>
  What \<open>build_data\<close> sends cannot be read back by the same module: it sets the DATA and ACK flags but writes
  neither the ACK vector nor the source payload header, so \<open>source_payload\<close> never returns the payload.
\<close>

lemma udp_own_data_unreadable:
  "source_payload (snd (build_data c payload)) (DATA OR ACK) \<noteq> Some payload"
proof
  assume r: "source_payload (snd (build_data c payload)) (DATA OR ACK) = Some payload"
  define out where "out = snd (build_data c payload)"
  have len: "length out = 8 + length payload"
    by (simp add: out_def build_data_def Let_def)
  have flags: "(DATA OR ACK) AND DATA \<noteq> 0" "(DATA OR ACK) AND ACK \<noteq> 0" by (simp_all add: flag_defs)
  obtain off where off: "after_acks out (DATA OR ACK) = Some off" "slice_from out (off + 8) = Some payload"
    using r flags by (auto simp: source_payload_def out_def [symmetric] split: bind_splits)
  have "10 \<le> off" using off(1) flags(2) by (auto simp: after_acks_def split: bind_splits)
  then have "length payload < length out - 8"
    using off(2) len by (auto simp: slice_from_def split: if_splits)
  then show False using len by simp
qed

end
