(* ===== verification/Errors.thy ===== *)
theory Errors
  imports Prelude
begin

text \<open>
  Fallible functions: \<open>Result<T, E>\<close> is the sum \<open>'e + 'a\<close>, its \<open>?\<close> operator is \<open>and_then\<close>. A reader with a
  cursor returns the value with the rest of the input.
\<close>

fun and_then :: "'e + 'a \<Rightarrow> ('a \<Rightarrow> 'e + 'b) \<Rightarrow> 'e + 'b" where
  "and_then (Inl e) f = Inl e"
| "and_then (Inr x) f = f x"

lemma and_then_Inr_iff: "and_then r f = Inr y \<longleftrightarrow> (\<exists>x. r = Inr x \<and> f x = Inr y)"
  by (cases r) auto

lemma and_then_split: "P (and_then r f) \<longleftrightarrow> (\<forall>e. r = Inl e \<longrightarrow> P (Inl e)) \<and> (\<forall>x. r = Inr x \<longrightarrow> P (f x))"
  by (cases r) auto

definition ok_or :: "'e \<Rightarrow> 'a option \<Rightarrow> 'e + 'a" where
  "ok_or e x = (case x of None \<Rightarrow> Inl e | Some v \<Rightarrow> Inr v)"

lemma ok_or_Inr_iff [simp]: "ok_or e x = Inr v \<longleftrightarrow> x = Some v"
  by (simp add: ok_or_def split: option.splits)

lemma ok_or_Some [simp]: "ok_or e (Some v) = Inr v"
  by (simp add: ok_or_def)

text \<open>A failed test returns its error at once.\<close>

definition require :: "bool \<Rightarrow> 'e \<Rightarrow> 'e + unit" where
  "require b e = (if b then Inr () else Inl e)"

lemma require_Inr_iff [simp]: "require b e = Inr u \<longleftrightarrow> b"
  by (simp add: require_def)

lemma require_True [simp]: "require True e = Inr ()"
  by (simp add: require_def)

section \<open>Numbers as big-endian bytes\<close>

definition be_to_nat :: "bytes \<Rightarrow> nat" where "be_to_nat bs = le_to_nat (rev bs)"

lemma be_to_nat_snoc: "be_to_nat (xs @ [b]) = be_to_nat xs * 256 + unat b"
  by (simp add: be_to_nat_def)

lemma be_to_nat_Cons: "be_to_nat (b # bs) = unat b * 256 ^ length bs + be_to_nat bs"
  by (simp add: be_to_nat_def le_to_nat_append)

lemma be_to_nat_Nil [simp]: "be_to_nat [] = 0"
  by (simp add: be_to_nat_def)

lemma be_to_nat_bound: "be_to_nat bs < 256 ^ length bs"
  using le_to_nat_bound [of "rev bs"] by (simp add: be_to_nat_def)

lemma be_to_nat_inj: "length xs = length ys \<Longrightarrow> be_to_nat xs = be_to_nat ys \<Longrightarrow> xs = ys"
  using le_to_nat_inj [of "rev xs" "rev ys"] by (simp add: be_to_nat_def)

lemma be_to_nat_zeros: "be_to_nat (replicate n 0 @ bs) = be_to_nat bs"
  by (induction n) (simp_all add: be_to_nat_Cons)

text \<open>\<open>(v << 8) | b\<close> appends a byte.\<close>

lemma shift_or_byte: "push_bit 8 v OR unat (b :: u8) = v * 256 + unat b"
proof -
  have "bit (v * 256) n \<Longrightarrow> \<not> bit (unat b) n" for n
  proof -
    assume "bit (v * 256) n"
    then have "8 \<le> n" by (simp add: bit_push_bit_iff push_bit_eq_mult [of 8 v, simplified, symmetric])
    moreover have "unat b < 2 ^ 8" using unat_bound_u8 [of b] by simp
    ultimately have "unat b < 2 ^ n" by (meson le_less_trans less_le_trans one_le_numeral order.strict_trans1 power_increasing)
    then show "\<not> bit (unat b) n" by (simp add: bit_iff_odd)
  qed
  then have "v * 256 + unat b = v * 256 OR unat b" by (intro disjunctive_add) blast
  then show ?thesis by (simp add: push_bit_eq_mult)
qed

lemma foldl_be: "foldl (\<lambda>v b. push_bit 8 v OR unat (b :: u8)) 0 bs = be_to_nat bs"
  by (induction bs rule: rev_induct) (simp_all add: shift_or_byte be_to_nat_snoc)

text \<open>The significant bytes of a number, as \<open>to_be_bytes\<close> without its leading zeros.\<close>

lemma dropWhile_zeros:
  "\<exists>k. bs = replicate k 0 @ dropWhile (\<lambda>b. b = (0 :: u8)) bs"
proof -
  have "replicate (length (takeWhile (\<lambda>b. b = 0) bs)) 0 = takeWhile (\<lambda>b. b = 0) bs"
    by (rule replicate_length_same) (auto dest: set_takeWhileD)
  then have "bs = replicate (length (takeWhile (\<lambda>b. b = 0) bs)) 0 @ dropWhile (\<lambda>b. b = 0) bs"
    by (metis takeWhile_dropWhile_id)
  then show ?thesis by blast
qed

lemma be_to_nat_dropWhile: "be_to_nat (dropWhile (\<lambda>b. b = 0) bs) = be_to_nat bs"
  using dropWhile_zeros [of bs] be_to_nat_zeros by metis

end
