(* ===== verification/Der.thy ===== *)
theory Der
  imports Errors
begin

text \<open>
  The DER codec of \<open>rdp-asn1\<close>: definite lengths, tag-length-value elements, integers. A \<open>usize\<close>
  is a \<open>nat\<close> below 2^64; a cursor \<open>&mut &[u8]\<close> is the rest of the input in the result.
\<close>

datatype asn1_error =
    UnexpectedEof
  | LengthOverflow
  | NonMinimalLength
  | IndefiniteLength
  | UnexpectedTag u8 u8

definition TAG_INTEGER :: u8 where "TAG_INTEGER = 0x02"
definition TAG_OCTET_STRING :: u8 where "TAG_OCTET_STRING = 0x04"
definition TAG_SEQUENCE :: u8 where "TAG_SEQUENCE = 0x30"

definition context_tag :: "u8 \<Rightarrow> u8" where "context_tag n = 0xA0 OR (n AND 0x1F)"

text \<open>\<open>usize::to_be_bytes\<close>.\<close>

definition usize_be :: "nat \<Rightarrow> bytes" where "usize_be len = rev (nat_to_le 8 len)"

definition significant :: "bytes \<Rightarrow> bytes" where
  "significant bs = (let sig = dropWhile (\<lambda>b. b = 0) bs in if sig = [] then drop (length bs - 1) bs else sig)"

definition encode_length :: "nat \<Rightarrow> bytes" where
  "encode_length len =
    (if len < 0x80 then [of_nat len]
     else (let sig = significant (usize_be len) in (0x80 OR of_nat (length sig)) # sig))"

definition decode_length :: "bytes \<Rightarrow> asn1_error + nat \<times> bytes" where
  "decode_length input = (case input of [] \<Rightarrow> Inl UnexpectedEof | first # rest \<Rightarrow>
    if first < 0x80 then Inr (unat first, rest)
    else if first = 0x80 then Inl IndefiniteLength
    else
      (let n = unat (first AND 0x7F)
       in if n > 8 then Inl LengthOverflow
          else if length rest < n then Inl UnexpectedEof
          else
            (let head = take n rest
             in if head ! 0 = 0 then Inl NonMinimalLength
                else
                  (let val = foldl (\<lambda>v b. push_bit 8 v OR unat b) 0 head
                   in if val < 0x80 then Inl NonMinimalLength else Inr (val, drop n rest)))))"

definition tlv :: "u8 \<Rightarrow> bytes \<Rightarrow> bytes" where
  "tlv tag val = tag # encode_length (length val) @ val"

definition integer_value :: "u32 \<Rightarrow> bytes" where
  "integer_value v =
    (if v = 0 then [0]
     else (let bs = dropWhile (\<lambda>b. b = 0) (u32_be v) in if bs ! 0 AND 0x80 \<noteq> 0 then 0 # bs else bs))"

definition integer :: "u32 \<Rightarrow> bytes" where "integer v = tlv TAG_INTEGER (integer_value v)"
definition octet_string :: "bytes \<Rightarrow> bytes" where "octet_string bs = tlv TAG_OCTET_STRING bs"
definition sequence :: "bytes \<Rightarrow> bytes" where "sequence inner = tlv TAG_SEQUENCE inner"
definition der_context :: "u8 \<Rightarrow> bytes \<Rightarrow> bytes" where "der_context n inner = tlv (context_tag n) inner"

definition read_element :: "bytes \<Rightarrow> asn1_error + (u8 \<times> bytes) \<times> bytes" where
  "read_element input = (case input of [] \<Rightarrow> Inl UnexpectedEof | tag # rest \<Rightarrow>
    and_then (decode_length rest) (\<lambda>(len, rest1).
      if length rest1 < len then Inl UnexpectedEof
      else Inr ((tag, take len rest1), drop len rest1)))"

definition expect :: "u8 \<Rightarrow> bytes \<Rightarrow> asn1_error + bytes \<times> bytes" where
  "expect tag input =
    and_then (read_element input) (\<lambda>((found, val), rest).
      if found \<noteq> tag then Inl (UnexpectedTag tag found) else Inr (val, rest))"

definition read_u32 :: "bytes \<Rightarrow> asn1_error + u32" where
  "read_u32 val =
    (if length val > 5 then Inl LengthOverflow
     else
       (let v = foldl (\<lambda>v b. push_bit 8 v OR unat b) 0 val
        in if v > 0xFFFFFFFF then Inl LengthOverflow else Inr (of_nat v)))"

section \<open>Lengths\<close>

lemma usize_be: "length (usize_be n) = 8" "n < 2 ^ 64 \<Longrightarrow> be_to_nat (usize_be n) = n"
  by (simp_all add: usize_be_def be_to_nat_def le_to_nat_nat_to_le)

lemma significant_usize:
  assumes "0 < n" "n < 2 ^ 64"
  shows "significant (usize_be n) = dropWhile (\<lambda>b. b = 0) (usize_be n)"
    and "be_to_nat (significant (usize_be n)) = n"
    and "0 < length (significant (usize_be n))" "length (significant (usize_be n)) \<le> 8"
    and "significant (usize_be n) ! 0 \<noteq> 0"
proof -
  let ?d = "dropWhile (\<lambda>b. b = 0) (usize_be n)"
  have v: "be_to_nat ?d = n" using assms usize_be(2) by (simp add: be_to_nat_dropWhile)
  have ne: "?d \<noteq> []"
  proof
    assume "?d = []"
    with v have "n = 0" by (simp only: be_to_nat_Nil)
    then show False using assms(1) by simp
  qed
  show s: "significant (usize_be n) = ?d" using ne by (simp only: significant_def Let_def if_False)
  show "be_to_nat (significant (usize_be n)) = n" using v s by simp
  show "0 < length (significant (usize_be n))" using ne s by simp
  show "length (significant (usize_be n)) \<le> 8" using s usize_be(1) [of n] length_dropWhile_le [of "\<lambda>b. b = 0" "usize_be n"] by simp
  show "significant (usize_be n) ! 0 \<noteq> 0" using ne s hd_dropWhile [of "\<lambda>b. b = 0" "usize_be n"] by (simp add: hd_conv_nth)
qed

lemma long_form_octet:
  assumes "0 < n" "n \<le> 8"
  shows "unat ((0x80 OR of_nat n :: u8) AND 0x7F) = n" "\<not> (0x80 OR of_nat n :: u8) < 0x80" "(0x80 OR of_nat n :: u8) \<noteq> 0x80"
proof -
  have "n \<in> {1, 2, 3, 4, 5, 6, 7, 8}" using assms by auto
  then show "unat ((0x80 OR of_nat n :: u8) AND 0x7F) = n" "\<not> (0x80 OR of_nat n :: u8) < 0x80" "(0x80 OR of_nat n :: u8) \<noteq> 0x80"
    by auto
qed

lemma decode_encode_length:
  assumes "n < 2 ^ 64"
  shows "decode_length (encode_length n @ rest) = Inr (n, rest)"
proof (cases "n < 0x80")
  case True
  then have "(of_nat n :: u8) < 0x80" "unat (of_nat n :: u8) = n"
    by (simp_all add: word_less_nat_alt unat_of_nat)
  then show ?thesis using True by (simp add: decode_length_def encode_length_def)
next
  case False
  then have n: "0 < n" by simp
  note sig = significant_usize [OF n assms] and oct = long_form_octet [OF significant_usize(3,4) [OF n assms]]
  let ?s = "significant (usize_be n)"
  have "(?s @ rest) ! 0 \<noteq> 0" using sig(3,5) by (simp add: nth_append)
  then show ?thesis using False sig oct
    by (simp add: decode_length_def encode_length_def Let_def foldl_be)
qed

lemma decode_length_canonical:
  assumes "decode_length input = Inr (n, rest)"
  shows "input = encode_length n @ rest \<and> n < 2 ^ 64"
proof -
  obtain first tl where i: "input = first # tl" using assms by (cases input) (auto simp: decode_length_def)
  show ?thesis
  proof (cases "first < 0x80")
    case True
    then have "n = unat first" "rest = tl" "unat first < 128" using assms by (auto simp: decode_length_def i word_less_nat_alt)
    then show ?thesis using i by (simp add: encode_length_def)
  next
    case False
    define k where "k = unat (first AND 0x7F)"
    define head where "head = take k tl"
    have d: "first \<noteq> 0x80" "k \<le> 8" "k \<le> length tl" "head ! 0 \<noteq> 0" "be_to_nat head = n" "0x80 \<le> n" "rest = drop k tl"
      using assms False by (auto simp: i decode_length_def Let_def foldl_be k_def [symmetric] head_def [symmetric] split: if_splits)
    have hl: "length head = k" using d(3) by (simp add: head_def)
    have n: "n < 2 ^ 64" using be_to_nat_bound [of head] d(2,5) hl power_increasing [of k 8 "256 :: nat"] by simp
    have k0: "0 < k" using d(5,6) hl by (cases k) auto
    have f: "first = 0x80 OR of_nat k"
    proof -
      have "unat first div 128 = 1" using False unat_bound_u8 [of first] by (simp add: word_less_nat_alt)
      then have "bit (unat first) 7" by (simp add: bit_iff_odd)
      then have "bit first 7" by (simp add: bit_unsigned_iff)
      then show ?thesis by (intro bit_word_eqI) (auto simp: k_def bit_simps less_Suc_eq numeral_eq_Suc)
    qed
    have "usize_be n = replicate (8 - k) 0 @ head"
      using usize_be [of n] n d(2,5) hl by (intro be_to_nat_inj) (simp_all add: be_to_nat_zeros)
    moreover have "dropWhile (\<lambda>b. b = 0) (replicate m 0 @ head) = head" for m
      using d(4) k0 hl by (induction m) (cases head; simp)+
    ultimately have "significant (usize_be n) = head"
      using significant_usize(1) [of n] n d(6) by simp
    then show ?thesis using d n hl f by (simp add: encode_length_def Let_def i head_def not_less)
  qed
qed

section \<open>Elements and integers\<close>

lemma read_tlv: "length val < 2 ^ 64 \<Longrightarrow> read_element (tlv tag val @ rest) = Inr ((tag, val), rest)"
  using decode_encode_length [of "length val" "val @ rest"]
  by (simp add: read_element_def tlv_def)

lemma read_element_canonical:
  "read_element input = Inr ((tag, val), rest) \<Longrightarrow> input = tlv tag val @ rest \<and> length val < 2 ^ 64"
  using decode_length_canonical
  by (fastforce simp: read_element_def tlv_def and_then_Inr_iff split: list.splits if_splits)

lemma expect_tlv: "length val < 2 ^ 64 \<Longrightarrow> expect tag (tlv tag val @ rest) = Inr (val, rest)"
  by (simp add: expect_def read_tlv)

lemma be_to_nat_u32_be: "be_to_nat (u32_be v) = unat v"
  using unat_bound_u32 [of v] by (simp add: be_to_nat_def u32_be_def u32_le_def le_to_nat_nat_to_le)

lemma read_integer_value: "read_u32 (integer_value v) = Inr v"
proof (cases "v = 0")
  case False
  let ?d = "dropWhile (\<lambda>b. b = 0) (u32_be v)"
  have "length ?d \<le> 4" using length_dropWhile_le [of "\<lambda>b. b = 0" "u32_be v"] by simp
  moreover have d: "be_to_nat ?d = unat v" by (simp add: be_to_nat_dropWhile be_to_nat_u32_be)
  moreover have "be_to_nat (0 # ?d) = unat v" using d by (simp add: be_to_nat_Cons)
  ultimately show ?thesis using False unat_bound_u32 [of v]
    by (simp add: read_u32_def integer_value_def Let_def foldl_be)
qed (simp add: read_u32_def integer_value_def foldl_be be_to_nat_Cons)

section \<open>Properties\<close>

text \<open>
  C26. The length codec is a bijection: every length below 2^64 reads back, and what \<open>decode_length\<close> accepts
  is exactly the shortest encoding of the length it returns, as DER demands; so are whole elements.
\<close>

theorem der_canonical:
  assumes "length val < 2 ^ 64"
  shows "(read_element input = Inr ((tag, val), rest)) = (input = tlv tag val @ rest) \<and>
    (decode_length input = Inr (length val, rest)) = (input = encode_length (length val) @ rest)"
  using read_tlv [OF assms] read_element_canonical [of input tag val rest]
    decode_encode_length [OF assms] decode_length_canonical [of input "length val" rest] by blast

theorem der_canonical_witness:
  "read_element [0x04, 0x81, 0x01, 0xFF] \<noteq> Inr ((0x04, [0xFF]), [])"
proof -
  have "tlv 0x04 [0xFF] @ [] = [0x04, 0x01, 0xFF]" by (simp add: tlv_def encode_length_def)
  then show ?thesis using der_canonical [of "[0xFF]" "[0x04, 0x81, 0x01, 0xFF]" "0x04" "[]"] by simp
qed

text \<open>
  An unsigned integer written in DER reads back, from an element of at most seven bytes.
\<close>

lemma der_integer_roundtrip:
  "and_then (expect TAG_INTEGER (integer v @ rest)) (\<lambda>(val, rest'). and_then (read_u32 val) (\<lambda>w. Inr (w, rest')))
    = Inr (v, rest) \<and> length (integer v) \<le> 7"
proof -
  have "length (dropWhile (\<lambda>b. b = 0) (u32_be v)) \<le> 4"
    using length_dropWhile_le [of "\<lambda>b. b = 0" "u32_be v"] by simp
  then have "length (integer_value v) \<le> 5" by (simp add: integer_value_def Let_def)
  then show ?thesis
    by (simp add: integer_def expect_tlv read_integer_value) (simp add: tlv_def encode_length_def)
qed

end
