(* ===== verification/X224.thy ===== *)
theory X224
  imports Der
begin

text \<open>
  The PDU errors and \<open>ensure\<close> of \<open>rdp-pdu/lib.rs\<close>, and TPKT framing, the X.224 connection request and confirm and
  the RDP negotiation they carry (\<open>x224.rs\<close>). An error keeps its kind and field; the detail text for the log
  is left out. \<open>bitflags\<close> types are their words, \<open>from_bits_truncate\<close> keeps the named bits.
\<close>

datatype pdu_error =
    NotEnoughData nat nat
  | InvalidField string
  | Unsupported string
  | Asn1 asn1_error

definition ensure :: "bytes \<Rightarrow> nat \<Rightarrow> pdu_error + unit" where
  "ensure src needed = (if length src < needed then Inl (NotEnoughData (length src) needed) else Inr ())"

lemma ensure_Inr_iff [simp]: "ensure src n = Inr u \<longleftrightarrow> n \<le> length src"
  by (auto simp: ensure_def)

lemma ensure_ok: "n \<le> length src \<Longrightarrow> ensure src n = Inr ()"
  by (simp add: ensure_def)

definition TPKT_HEADER_LEN :: nat where "TPKT_HEADER_LEN = 4"
definition TPKT_VERSION :: u8 where "TPKT_VERSION = 3"
definition X224_TPDU_CONNECTION_REQUEST :: u8 where "X224_TPDU_CONNECTION_REQUEST = 0xE0"
definition X224_TPDU_CONNECTION_CONFIRM :: u8 where "X224_TPDU_CONNECTION_CONFIRM = 0xD0"
definition X224_TPDU_DATA :: u8 where "X224_TPDU_DATA = 0xF0"
definition X224_CRCC_FIXED :: nat where "X224_CRCC_FIXED = 6"
definition TYPE_RDP_NEG_REQ :: u8 where "TYPE_RDP_NEG_REQ = 0x01"
definition TYPE_RDP_NEG_RSP :: u8 where "TYPE_RDP_NEG_RSP = 0x02"
definition TYPE_RDP_NEG_FAILURE :: u8 where "TYPE_RDP_NEG_FAILURE = 0x03"
definition RDP_NEG_SIZE :: nat where "RDP_NEG_SIZE = 8"

lemmas x224_consts = TPKT_HEADER_LEN_def TPKT_VERSION_def X224_TPDU_CONNECTION_REQUEST_def
  X224_TPDU_CONNECTION_CONFIRM_def X224_TPDU_DATA_def X224_CRCC_FIXED_def TYPE_RDP_NEG_REQ_def
  TYPE_RDP_NEG_RSP_def TYPE_RDP_NEG_FAILURE_def RDP_NEG_SIZE_def

text \<open>\<open>SecurityProtocol\<close> and the flag sets: all their named bits.\<close>

definition SSL :: u32 where "SSL = 0x00000001"
definition HYBRID :: u32 where "HYBRID = 0x00000002"
definition RDSTLS :: u32 where "RDSTLS = 0x00000004"
definition HYBRID_EX :: u32 where "HYBRID_EX = 0x00000008"
definition RDSAAD :: u32 where "RDSAAD = 0x00000010"

definition protocol_from_bits :: "u32 \<Rightarrow> u32" where
  "protocol_from_bits b = b AND (SSL OR HYBRID OR RDSTLS OR HYBRID_EX OR RDSAAD)"

definition response_flags_from_bits :: "u8 \<Rightarrow> u8" where
  "response_flags_from_bits b = b AND (0x01 OR 0x02 OR 0x08 OR 0x10)"

datatype neg_failure =
    SslRequiredByServer
  | SslNotAllowedByServer
  | SslCertNotOnServer
  | InconsistentFlags
  | HybridRequiredByServer
  | SslWithUserAuthRequiredByServer
  | UnknownFailure u32

definition neg_failure_from_u32 :: "u32 \<Rightarrow> neg_failure" where
  "neg_failure_from_u32 v =
    (if v = 1 then SslRequiredByServer else if v = 2 then SslNotAllowedByServer
     else if v = 3 then SslCertNotOnServer else if v = 4 then InconsistentFlags
     else if v = 5 then HybridRequiredByServer else if v = 6 then SslWithUserAuthRequiredByServer
     else UnknownFailure v)"

definition read_tpkt_len :: "bytes \<Rightarrow> pdu_error + nat" where
  "read_tpkt_len header =
    and_then (ensure header TPKT_HEADER_LEN) (\<lambda>_.
      if header ! 0 \<noteq> TPKT_VERSION then Inl (InvalidField ''tpkt_version'')
      else Inr (unat (u16_of_be (take 2 (drop 2 header)))))"

record connection_request =
  requested_protocols :: u32
  neg_flags :: u8
  cookie :: "bytes option"

definition default_request :: connection_request where
  "default_request = \<lparr> requested_protocols = SSL OR HYBRID, neg_flags = 0, cookie = None \<rparr>"

text \<open>\<open>Cookie: mstshash=\<close> and the line end.\<close>

definition cookie_prefix :: bytes where
  "cookie_prefix = [0x43, 0x6F, 0x6F, 0x6B, 0x69, 0x65, 0x3A, 0x20,
     0x6D, 0x73, 0x74, 0x73, 0x68, 0x61, 0x73, 0x68, 0x3D]"

definition request_user_data :: "connection_request \<Rightarrow> bytes" where
  "request_user_data r =
    (case cookie r of Some c \<Rightarrow> cookie_prefix @ c @ [0x0D, 0x0A] | None \<Rightarrow> [])
    @ [TYPE_RDP_NEG_REQ, neg_flags r] @ u16_le (of_nat RDP_NEG_SIZE) @ u32_le (requested_protocols r)"

definition encode_request :: "connection_request \<Rightarrow> pdu_error + bytes" where
  "encode_request r =
    (let user_data = request_user_data r;
         li = X224_CRCC_FIXED + length user_data;
         tpkt_len = TPKT_HEADER_LEN + 1 + li
     in if li > 255 then Inl (InvalidField ''x224_li'')
        else if tpkt_len > 65535 then Inl (InvalidField ''tpkt_length'')
        else Inr ([TPKT_VERSION, 0] @ u16_be (of_nat tpkt_len)
               @ [of_nat li, X224_TPDU_CONNECTION_REQUEST, 0, 0, 0, 0, 0] @ user_data))"

datatype connection_confirm =
    Response u8 u32
  | Failure neg_failure
  | NoNegotiation

definition read_negotiation :: "bytes \<Rightarrow> pdu_error + connection_confirm" where
  "read_negotiation nego =
    (let kind = nego ! 0; flags = nego ! 1; payload = u32_of_le (take 4 (drop 4 nego))
     in if kind = TYPE_RDP_NEG_RSP
        then Inr (Response (response_flags_from_bits flags) (protocol_from_bits payload))
        else if kind = TYPE_RDP_NEG_FAILURE then Inr (Failure (neg_failure_from_u32 payload))
        else Inl (Unsupported ''rdp negotiation type''))"

definition decode_confirm :: "bytes \<Rightarrow> pdu_error + connection_confirm \<times> bytes" where
  "decode_confirm src =
    and_then (read_tpkt_len src) (\<lambda>tpkt_len.
    and_then (ensure src tpkt_len) (\<lambda>_.
      if tpkt_len < TPKT_HEADER_LEN + 1 + X224_CRCC_FIXED then Inl (InvalidField ''tpkt_length'')
      else
        (let li = unat (src ! 4); type_code = src ! 5
         in if type_code AND 0xF0 \<noteq> X224_TPDU_CONNECTION_CONFIRM then Inl (Unsupported ''x224 tpdu code'')
            else
              and_then
                (if li \<le> X224_CRCC_FIXED then Inr NoNegotiation
                 else
                   (let nego_off = TPKT_HEADER_LEN + 1 + X224_CRCC_FIXED
                    in if tpkt_len < nego_off + RDP_NEG_SIZE then Inl (InvalidField ''rdp_neg'')
                       else read_negotiation (take RDP_NEG_SIZE (drop nego_off src))))
                (\<lambda>result. Inr (result, drop tpkt_len src)))))"

definition X224_DATA_HEADER :: bytes where "X224_DATA_HEADER = [0x02, X224_TPDU_DATA, 0x80]"

definition write_data_header :: "nat \<Rightarrow> pdu_error + bytes" where
  "write_data_header payload_len =
    (let tpkt_len = TPKT_HEADER_LEN + length X224_DATA_HEADER + payload_len
     in if tpkt_len > 65535 then Inl (InvalidField ''tpkt_length'')
        else Inr ([TPKT_VERSION, 0] @ u16_be (of_nat tpkt_len) @ X224_DATA_HEADER))"

section \<open>Properties\<close>

lemma unat_of_nat_u16: "n < 65536 \<Longrightarrow> unat (of_nat n :: u16) = n"
  by (simp add: unat_of_nat)

lemma unat_of_nat_byte: "n < 256 \<Longrightarrow> unat (of_nat n :: u8) = n"
  by (simp add: unat_of_nat)

text \<open>
  A connection request is refused exactly when its cookie has extra than 222 bytes; otherwise both of its length
  fields tell the truth: a reader of the TPKT header waits for exactly the bytes sent, and the X.224
  length indicator counts what follows it.
\<close>

lemma request_lengths:
  "(case encode_request r of
      Inl e \<Rightarrow> e = InvalidField ''x224_li'' \<and> (\<exists>c. cookie r = Some c \<and> length c > 222)
    | Inr bs \<Rightarrow> (\<forall>c. cookie r = Some c \<longrightarrow> length c \<le> 222) \<and> read_tpkt_len bs = Inr (length bs) \<and> unat (bs ! 4) + 5 = length bs)"
proof -
  let ?u = "request_user_data r"
  have u: "length ?u = (case cookie r of Some c \<Rightarrow> 27 + length c | None \<Rightarrow> 8)"
    by (simp add: request_user_data_def cookie_prefix_def split: option.split)
  show ?thesis
  proof (cases "6 + length ?u > 255")
    case True
    then show ?thesis using u by (auto simp: encode_request_def Let_def x224_consts split: option.splits)
  next
    case False
    then have fit: "11 + length ?u < 65536" "6 + length ?u < 256" by simp_all
    have n: "unat (u16_of_be (u16_be (of_nat (11 + length ?u)))) = 11 + length ?u" "unat (of_nat (6 + length ?u) :: u8) = 6 + length ?u"
      using unat_of_nat_u16 [OF fit(1)] unat_of_nat_byte [OF fit(2)] by (simp_all only: of_be_be)
    show ?thesis using False u n
      by (auto simp: encode_request_def Let_def x224_consts read_tpkt_len_def ensure_def nth_append
          simp del: of_nat_add of_be_be split: option.splits)
  qed
qed

theorem request_lengths_witness:
  "\<exists>bs. encode_request default_request = Inr bs \<and> read_tpkt_len bs = Inr (length bs) \<and> unat (bs ! 4) + 5 = length bs"
  using request_lengths [of default_request] by (auto simp: default_request_def split: sum.splits)

text \<open>
  Decoding a connection confirm consumes exactly one TPKT and depends on nothing after it: what is
  decoded from a buffer is decoded from any longer one, leaving the rest of it.
\<close>

lemma confirm_takes_one_tpkt:
  assumes "decode_confirm src = Inr (r, rest)"
  shows "\<exists>n. read_tpkt_len src = Inr n \<and> n \<le> length src \<and> rest = drop n src \<and>
    decode_confirm (take n src @ extra) = Inr (r, extra)"
proof -
  obtain n where n: "read_tpkt_len src = Inr n" "n \<le> length src" "11 \<le> n" "rest = drop n src"
    and body: "src ! 5 AND 0xF0 = X224_TPDU_CONNECTION_CONFIRM"
      "(if unat (src ! 4) \<le> 6 then Inr NoNegotiation
        else if n < 19 then Inl (InvalidField ''rdp_neg'') else read_negotiation (take 8 (drop 11 src))) = Inr r"
    using assms by (auto simp: decode_confirm_def and_then_Inr_iff Let_def x224_consts split: if_splits)
  let ?src = "take n src @ extra"
  have "take 2 (drop 2 ?src) = take 2 (drop 2 src)" "length (take n src) = n" using n(2,3) by (auto simp: drop_take min_def)
  moreover have nth: "?src ! i = src ! i" if "i < 11" for i using that n(2,3) by (simp add: nth_append)
  ultimately have len: "read_tpkt_len ?src = Inr n"
    using n(1-3) by (auto simp: read_tpkt_len_def and_then_Inr_iff ensure_def x224_consts split: if_splits)
  have nego: "take 8 (drop 11 ?src) = take 8 (drop 11 src)" if "\<not> n < 19" using that n(2,3) by (auto simp: drop_take min_def)
  have "decode_confirm ?src = Inr (r, extra)"
    using len n(2,3) nth [of 4] nth [of 5] body nego
    by (auto simp: decode_confirm_def ensure_def Let_def x224_consts split: if_splits)
  then show ?thesis using n by blast
qed

text \<open>A confirm that selects CredSSP, and the first bytes of the next PDU.\<close>

theorem confirm_takes_one_tpkt_witness:
  "decode_confirm ([3, 0, 0, 19, 14, 0xD0, 0, 0, 0, 0, 0, 2, 1, 8, 0, 2, 0, 0, 0] @ [9, 9]) = Inr (Response 1 2, [9, 9])"
proof -
  let ?c = "[3, 0, 0, 19, 14, 0xD0, 0, 0, 0, 0, 0, 2, 1, 8, 0, 2, 0, 0, 0] :: bytes"
  have w: "u16_of_be [0, 19] = 19" "u32_of_le [2, 0, 0, 0] = 2"
    by (simp_all add: u16_of_be_def u16_of_le_def u32_of_le_def)
  have "decode_confirm ?c = Inr (Response 1 2, [])"
    by (simp add: decode_confirm_def read_tpkt_len_def ensure_def Let_def x224_consts w read_negotiation_def
        response_flags_from_bits_def protocol_from_bits_def SSL_def HYBRID_def RDSTLS_def HYBRID_EX_def RDSAAD_def)
  moreover have "read_tpkt_len ?c = Inr 19" by (simp add: read_tpkt_len_def ensure_def x224_consts w)
  ultimately show ?thesis using confirm_takes_one_tpkt [of ?c "Response 1 2" "[]" "[9, 9]"] by simp
qed

end
