(* ===== verification/Framing.thy ===== *)
theory Framing
  imports Prelude
begin

text \<open>
  The interface of a layer that cuts messages into packets and puts them together again:
  \<open>split\<close> on the sending side, a stateful \<open>push\<close> on the receiving side that returns a message
  when it is complete. Its one law is that the packets of a message, pushed from an idle state,
  return exactly that message and leave the state idle; then a stream of messages comes out as it went in
  (\<open>feed_stream\<close>). \<open>layers\<close> puts one such layer on top of another and is again one.
\<close>

primrec feed :: "('s \<Rightarrow> 'p \<Rightarrow> 's \<times> 'm option) \<Rightarrow> 's \<Rightarrow> 'p list \<Rightarrow> 's \<times> 'm list" where
  "feed push s [] = (s, [])"
| "feed push s (p # ps) =
    (let r = feed push (fst (push s p)) ps
     in (fst r, (case snd (push s p) of None \<Rightarrow> snd r | Some m \<Rightarrow> m # snd r)))"

lemma feed_append:
  "feed push s (ps @ qs) =
    (fst (feed push (fst (feed push s ps)) qs), snd (feed push s ps) @ snd (feed push (fst (feed push s ps)) qs))"
  by (induction ps arbitrary: s) (auto simp: Let_def split: option.splits)

locale framing =
  fixes split :: "'m \<Rightarrow> 'p list"
    and ok :: "'m \<Rightarrow> bool"
    and push :: "'s \<Rightarrow> 'p \<Rightarrow> 's \<times> 'm option"
    and idle :: "'s \<Rightarrow> bool"
  assumes feed_split: "\<And>m s. ok m \<Longrightarrow> idle s \<Longrightarrow> \<exists>s'. feed push s (split m) = (s', [m]) \<and> idle s'"
begin

lemma feed_stream:
  "(\<forall>m \<in> set ms. ok m) \<Longrightarrow> idle s \<Longrightarrow>
    \<exists>s'. feed push s (concat (map split ms)) = (s', ms) \<and> idle s'"
proof (induction ms arbitrary: s)
  case (Cons m ms)
  then have "ok m" "idle s" "\<forall>m \<in> set ms. ok m" by simp_all
  from feed_split [OF this(1,2)] obtain s1 where s1: "feed push s (split m) = (s1, [m])" "idle s1" by blast
  from Cons.IH [OF \<open>\<forall>m \<in> set ms. ok m\<close> s1(2)] obtain s2
    where "feed push s1 (concat (map split ms)) = (s2, ms)" "idle s2" by blast
  with s1 show ?case by (auto simp: feed_append)
qed simp

end

text \<open>One layer on another: each packet of the outer layer is a message of the inner one.\<close>

definition layered_split :: "('m \<Rightarrow> 'q list) \<Rightarrow> ('q \<Rightarrow> 'p list) \<Rightarrow> 'm \<Rightarrow> 'p list" where
  "layered_split split_o split_i m = concat (map split_i (split_o m))"

definition layered_push ::
  "('t \<Rightarrow> 'q \<Rightarrow> 't \<times> 'm option) \<Rightarrow> ('s \<Rightarrow> 'p \<Rightarrow> 's \<times> 'q option) \<Rightarrow> 't \<times> 's \<Rightarrow> 'p \<Rightarrow> ('t \<times> 's) \<times> 'm option" where
  "layered_push push_o push_i st p =
    (let r = push_i (snd st) p
     in case snd r of
          None \<Rightarrow> ((fst st, fst r), None)
        | Some q \<Rightarrow> (let r' = push_o (fst st) q in ((fst r', fst r), snd r')))"

lemma feed_layered:
  "feed (layered_push push_o push_i) (t, s) ps =
    (let inner = feed push_i s ps; outer = feed push_o t (snd inner) in ((fst outer, fst inner), snd outer))"
  by (induction ps arbitrary: t s) (auto simp: layered_push_def Let_def split: option.splits)

locale layers =
  inner: framing split_i ok_i push_i idle_i + outer: framing split_o ok_o push_o idle_o
  for split_i :: "'q \<Rightarrow> 'p list" and ok_i and push_i :: "'s \<Rightarrow> 'p \<Rightarrow> 's \<times> 'q option" and idle_i
    and split_o :: "'m \<Rightarrow> 'q list" and ok_o and push_o :: "'t \<Rightarrow> 'q \<Rightarrow> 't \<times> 'm option" and idle_o +
  assumes packets_ok: "\<And>m q. ok_o m \<Longrightarrow> q \<in> set (split_o m) \<Longrightarrow> ok_i q"
begin

sublocale both: framing "layered_split split_o split_i" ok_o "layered_push push_o push_i"
    "\<lambda>(t, s). idle_o t \<and> idle_i s"
proof
  fix m and st :: "'t \<times> 's"
  assume m: "ok_o m" and st: "case st of (t, s) \<Rightarrow> idle_o t \<and> idle_i s"
  obtain t s where ts: "st = (t, s)" "idle_o t" "idle_i s" using st by (cases st) auto
  obtain s' where s': "feed push_i s (concat (map split_i (split_o m))) = (s', split_o m)" "idle_i s'"
    using inner.feed_stream [of "split_o m" s] packets_ok m ts(3) by blast
  obtain t' where "feed push_o t (split_o m) = (t', [m])" "idle_o t'" using outer.feed_split m ts(2) by blast
  with s' show "\<exists>s'. feed (layered_push push_o push_i) st (layered_split split_o split_i m) = (s', [m]) \<and>
      (case s' of (t, s) \<Rightarrow> idle_o t \<and> idle_i s)"
    by (auto simp: ts(1) layered_split_def feed_layered Let_def)
qed

end

end
