(* ===== verification/Svc.thy ===== *)
theory Svc
  imports Framing
begin

text \<open>
  Static virtual channel chunking (\<open>svc.rs\<close>): messages cut into chunks of at most 1600 bytes
  behind an eight-byte header, and the reassembler. The buffer's capacity, which the code
  reserves ahead, has no counterpart.
\<close>

definition CHANNEL_FLAG_FIRST :: u32 where "CHANNEL_FLAG_FIRST = 0x00000001"
definition CHANNEL_FLAG_LAST :: u32 where "CHANNEL_FLAG_LAST = 0x00000002"
definition CHANNEL_FLAG_SHOW_PROTOCOL :: u32 where "CHANNEL_FLAG_SHOW_PROTOCOL = 0x00000010"
definition CHUNK_SIZE :: nat where "CHUNK_SIZE = 1600"

text \<open>The loop of \<open>chunks_with\<close> from offset \<open>off\<close>.\<close>

definition chunk_at :: "u32 \<Rightarrow> bytes \<Rightarrow> nat \<Rightarrow> bytes" where
  "chunk_at base_flags data off =
    (let stop = min (off + CHUNK_SIZE) (length data);
         flags = base_flags OR (if off = 0 then CHANNEL_FLAG_FIRST else 0)
           OR (if stop = length data then CHANNEL_FLAG_LAST else 0)
     in u32_le (of_nat (length data)) @ u32_le flags @ take (stop - off) (drop off data))"

function chunks_from :: "u32 \<Rightarrow> bytes \<Rightarrow> nat \<Rightarrow> bytes list" where
  "chunks_from base_flags data off =
    chunk_at base_flags data off #
    (if off + CHUNK_SIZE \<ge> length data then [] else chunks_from base_flags data (off + CHUNK_SIZE))"
  by pat_completeness auto
termination
  by (relation "measure (\<lambda>(_, data, off). length data - off)") (auto simp: CHUNK_SIZE_def)

declare chunks_from.simps [simp del]

definition chunks_with :: "bytes \<Rightarrow> u32 \<Rightarrow> bytes list" where
  "chunks_with data base_flags = chunks_from base_flags data 0"

definition svc_chunks :: "bytes \<Rightarrow> bytes list" where
  "svc_chunks data = chunks_with data CHANNEL_FLAG_SHOW_PROTOCOL"

definition chunks_dvc :: "bytes \<Rightarrow> bytes list" where
  "chunks_dvc data = chunks_with data 0"

definition svc_push :: "bytes \<Rightarrow> bytes \<Rightarrow> bytes \<times> bytes option" where
  "svc_push buf chunk =
    (if length chunk < 8 then (buf, None)
     else
       (let flags = u32_of_le (take 4 (drop 4 chunk));
            buf1 = (if flags AND CHANNEL_FLAG_FIRST \<noteq> 0 then [] else buf) @ drop 8 chunk
        in if flags AND CHANNEL_FLAG_LAST \<noteq> 0 then ([], Some buf1) else (buf1, None)))"

section \<open>Reassembly\<close>

definition plain_flags :: "u32 \<Rightarrow> bool" where
  "plain_flags b \<longleftrightarrow> b = 0 \<or> b = CHANNEL_FLAG_SHOW_PROTOCOL"

lemma push_chunk_at:
  assumes "plain_flags base"
  shows "svc_push buf (chunk_at base data off) =
    (let buf1 = (if off = 0 then [] else buf) @ take CHUNK_SIZE (drop off data)
     in if off + CHUNK_SIZE \<ge> length data then ([], Some buf1) else (buf1, None))"
  using assms
  by (cases "off = 0"; cases "off + CHUNK_SIZE \<ge> length data")
    (auto simp: svc_push_def chunk_at_def Let_def plain_flags_def CHANNEL_FLAG_FIRST_def CHANNEL_FLAG_LAST_def
      CHANNEL_FLAG_SHOW_PROTOCOL_def min_def)

lemma feed_chunks_from:
  assumes "plain_flags base" "off = 0 \<or> off < length data \<and> buf = take off data"
  shows "feed svc_push buf (chunks_from base data off) = ([], [data])"
  using assms
proof (induction base data off arbitrary: buf rule: chunks_from.induct)
  case (1 base data off)
  have c: "(if off = 0 then [] else buf) @ take CHUNK_SIZE (drop off data) = take (off + CHUNK_SIZE) data"
    using "1.prems"(2) by (auto simp: take_add)
  show ?case
  proof (cases "off + CHUNK_SIZE \<ge> length data")
    case True
    then show ?thesis using c by (subst chunks_from.simps) (simp add: push_chunk_at [OF "1.prems"(1)] Let_def)
  next
    case False
    then show ?thesis using "1.IH" [OF False "1.prems"(1)] c
      by (subst chunks_from.simps) (simp add: push_chunk_at [OF "1.prems"(1)] Let_def)
  qed
qed

lemma plain_flags_used [simp]: "plain_flags 0" "plain_flags CHANNEL_FLAG_SHOW_PROTOCOL"
  by (simp_all add: plain_flags_def)

text \<open>A first chunk starts afresh, so every state is idle; any data may be sent.\<close>

interpretation svc_plain: framing svc_chunks "\<lambda>_. True" svc_push "\<lambda>_. True"
  by unfold_locales (simp add: svc_chunks_def chunks_with_def feed_chunks_from)

interpretation svc_dvc: framing chunks_dvc "\<lambda>_. True" svc_push "\<lambda>_. True"
  by unfold_locales (simp add: chunks_dvc_def chunks_with_def feed_chunks_from)

lemma chunks_from_sizes: "c \<in> set (chunks_from base data off) \<Longrightarrow> 8 \<le> length c \<and> length c \<le> 8 + CHUNK_SIZE"
proof (induction base data off rule: chunks_from.induct)
  case (1 base data off)
  then show ?case by (subst (asm) (2) chunks_from.simps) (auto simp: chunk_at_def Let_def split: if_splits)
qed

text \<open>A message that fits is one chunk.\<close>

lemma chunks_dvc_short: "length data \<le> CHUNK_SIZE \<Longrightarrow> chunks_dvc data = [chunk_at 0 data 0]"
  by (simp add: chunks_dvc_def chunks_with_def chunks_from.simps)

text \<open>
  Channel data of any size, sent in chunks of at most 1608 bytes, is put together again byte
  for byte: whatever an unfinished message left in the reassembler's buffer, a stream of messages comes out as it went in,
  on channels with and without the protocol header shown.
\<close>

lemma svc_roundtrip:
  "snd (feed svc_push buf (concat (map svc_chunks ms))) = ms \<and>
   snd (feed svc_push buf (concat (map chunks_dvc ms))) = ms \<and>
   list_all (\<lambda>c. 8 \<le> length c \<and> length c \<le> 1608) (svc_chunks d @ chunks_dvc d)"
proof (intro conjI)
  show "snd (feed svc_push buf (concat (map svc_chunks ms))) = ms" using svc_plain.feed_stream [of ms buf] by auto
  show "snd (feed svc_push buf (concat (map chunks_dvc ms))) = ms" using svc_dvc.feed_stream [of ms buf] by auto
  show "list_all (\<lambda>c. 8 \<le> length c \<and> length c \<le> 1608) (svc_chunks d @ chunks_dvc d)"
    using chunks_from_sizes by (fastforce simp: svc_chunks_def chunks_dvc_def chunks_with_def CHUNK_SIZE_def list_all_iff)
qed

end
