(* ===== verification/Drdynvc.thy ===== *)
theory Drdynvc
  imports Svc Utf8
begin

text \<open>
  Dynamic virtual channels (\<open>drdynvc.rs\<close>): the parser of inbound PDUs, the builders of outbound
  ones with their narrowest-width fields, fragmentation and the reassembler, a \<open>HashMap\<close> of unfinished
  messages by channel. A \<open>usize\<close> is a \<open>nat\<close>.
\<close>

definition CMD_CREATE :: u8 where "CMD_CREATE = 0x01"
definition CMD_DATA_FIRST :: u8 where "CMD_DATA_FIRST = 0x02"
definition CMD_DATA :: u8 where "CMD_DATA = 0x03"
definition CMD_CLOSE :: u8 where "CMD_CLOSE = 0x04"
definition CMD_CAPABILITIES :: u8 where "CMD_CAPABILITIES = 0x05"
definition MAX_DATA_CHUNK :: nat where "MAX_DATA_CHUNK = 1500"

lemmas cmd_defs = CMD_CREATE_def CMD_DATA_FIRST_def CMD_DATA_def CMD_CLOSE_def CMD_CAPABILITIES_def

datatype dvc_error = Truncated

datatype dvc_pdu =
    CapabilitiesRequest u16
  | CreateRequest u32 bytes
  | DataFirst u32 u32 bytes
  | Data u32 bytes
  | Close u32
  | Other u8

text \<open>A field of width 1, 2 or 4 by its two-bit selector, and how many bytes it took.\<close>

definition read_channel_id :: "u8 \<Rightarrow> bytes \<Rightarrow> (u32 \<times> nat) option" where
  "read_channel_id cb data =
    (if cb = 0 then (case data of b # _ \<Rightarrow> Some (ucast b, 1) | [] \<Rightarrow> None)
     else if cb = 1 then (if length data \<ge> 2 then Some (ucast (u16_of_le (take 2 data)), 2) else None)
     else if cb = 2 then (if length data \<ge> 4 then Some (u32_of_le (take 4 data), 4) else None)
     else None)"

definition read_length :: "u8 \<Rightarrow> bytes \<Rightarrow> (u32 \<times> nat) option" where
  "read_length sp data =
    (if sp = 0 then (case data of b # _ \<Rightarrow> Some (ucast b, 1) | [] \<Rightarrow> None)
     else if sp = 1 then (if length data \<ge> 2 then Some (ucast (u16_of_le (take 2 data)), 2) else None)
     else if sp = 2 then (if length data \<ge> 4 then Some (u32_of_le (take 4 data), 4) else None)
     else None)"

definition write_channel_id :: "u32 \<Rightarrow> bytes \<times> u8" where
  "write_channel_id i =
    (if i \<le> 0xFF then ([ucast i], 0) else if i \<le> 0xFFFF then (u16_le (ucast i), 1) else (u32_le i, 2))"

definition write_length :: "u32 \<Rightarrow> bytes \<times> u8" where
  "write_length i =
    (if i \<le> 0xFF then ([ucast i], 0) else if i \<le> 0xFFFF then (u16_le (ucast i), 1) else (u32_le i, 2))"

definition or_truncated :: "'a option \<Rightarrow> ('a \<Rightarrow> dvc_error + 'b) \<Rightarrow> dvc_error + 'b" where
  "or_truncated x f = (case x of None \<Rightarrow> Inl Truncated | Some v \<Rightarrow> f v)"

definition dvc_parse :: "bytes \<Rightarrow> dvc_error + dvc_pdu" where
  "dvc_parse data = (case data of [] \<Rightarrow> Inl Truncated | first # rest \<Rightarrow>
    (let cmd = drop_bit 4 first; cb = first AND 0x03
     in if cmd = CMD_CAPABILITIES then
          (if length rest < 3 then Inl Truncated
           else Inr (CapabilitiesRequest (u16_of_le (take 2 (drop 1 rest)))))
        else if cmd = CMD_CREATE then
          or_truncated (read_channel_id cb rest) (\<lambda>(channel_id, n).
            Inr (CreateRequest channel_id (from_utf8_lossy (takeWhile (\<lambda>b. b \<noteq> 0) (drop n rest)))))
        else if cmd = CMD_DATA_FIRST then
          (let sp = drop_bit 2 first AND 0x03
           in or_truncated (read_channel_id cb rest) (\<lambda>(channel_id, n).
                let after_id = drop n rest
                in or_truncated (read_length sp after_id) (\<lambda>(total_length, m).
                     Inr (DataFirst channel_id total_length (drop m after_id)))))
        else if cmd = CMD_DATA then
          or_truncated (read_channel_id cb rest) (\<lambda>(channel_id, n). Inr (Data channel_id (drop n rest)))
        else if cmd = CMD_CLOSE then
          or_truncated (read_channel_id cb rest) (\<lambda>(channel_id, _). Inr (Close channel_id))
        else Inr (Other cmd)))"

definition capabilities_response :: "u16 \<Rightarrow> bytes" where
  "capabilities_response version = [push_bit 4 CMD_CAPABILITIES, 0] @ u16_le version"

definition create_response :: "u32 \<Rightarrow> u32 \<Rightarrow> bytes" where
  "create_response channel_id status =
    (let (tail, cb) = write_channel_id channel_id
     in (push_bit 4 CMD_CREATE OR cb) # tail @ u32_le status)"

definition dvc_data :: "u32 \<Rightarrow> bytes \<Rightarrow> bytes" where
  "dvc_data channel_id payload =
    (let (tail, cb) = write_channel_id channel_id
     in (push_bit 4 CMD_DATA OR cb) # tail @ payload)"

definition data_first :: "u32 \<Rightarrow> u32 \<Rightarrow> bytes \<Rightarrow> bytes" where
  "data_first channel_id announced payload =
    (let (tail, cb) = write_channel_id channel_id; (len_bytes, sp) = write_length announced
     in (push_bit 4 CMD_DATA_FIRST OR push_bit 2 sp OR cb) # tail @ len_bytes @ payload)"

definition data_message :: "u32 \<Rightarrow> bytes \<Rightarrow> bytes list" where
  "data_message channel_id payload =
    (if length payload \<le> MAX_DATA_CHUNK then [dvc_data channel_id payload]
     else (case chunks_of MAX_DATA_CHUNK payload of
             [] \<Rightarrow> [data_first channel_id (of_nat (length payload)) []]
           | first # chunks \<Rightarrow>
               data_first channel_id (of_nat (length payload)) first # map (dvc_data channel_id) chunks))"

type_synonym dvc_reassembler = "u32 \<rightharpoonup> nat \<times> bytes"

definition dvc_accept :: "dvc_reassembler \<Rightarrow> dvc_pdu \<Rightarrow> dvc_reassembler \<times> (u32 \<times> bytes) option" where
  "dvc_accept pending pdu = (case pdu of
     DataFirst channel_id total_length payload \<Rightarrow>
       (let need = unat total_length
        in if length payload \<ge> need then (pending, Some (channel_id, payload))
           else (pending(channel_id \<mapsto> (need, payload)), None))
   | Data channel_id payload \<Rightarrow>
       (case pending channel_id of
          Some (need, buf) \<Rightarrow>
            (let buf1 = buf @ payload
             in if length buf1 \<ge> need then (pending(channel_id := None), Some (channel_id, buf1))
                else (pending(channel_id \<mapsto> (need, buf1)), None))
        | None \<Rightarrow> (pending, Some (channel_id, payload)))
   | _ \<Rightarrow> (pending, None))"

section \<open>The codec\<close>

lemma ucast_narrow8: "i \<le> 0xFF \<Longrightarrow> (ucast (ucast (i :: u32) :: u8) :: u32) = i"
  by (simp add: word_le_nat_alt word_unat_eq_iff unsigned_ucast_eq unsigned_take_bit_eq take_bit_nat_eq_self)

lemma ucast_narrow16: "i \<le> 0xFFFF \<Longrightarrow> (ucast (ucast (i :: u32) :: u16) :: u32) = i"
  by (simp add: word_le_nat_alt word_unat_eq_iff unsigned_ucast_eq unsigned_take_bit_eq take_bit_nat_eq_self)

lemma write_channel_id_cases:
  obtains "write_channel_id i = ([ucast i], 0)" "i \<le> 0xFF"
  | "write_channel_id i = (u16_le (ucast i), 1)" "i \<le> 0xFFFF"
  | "write_channel_id i = (u32_le i, 2)"
  by (cases "i \<le> 0xFF"; cases "i \<le> 0xFFFF") (auto simp: write_channel_id_def)

lemma write_length_is: "write_length = write_channel_id" "read_length = read_channel_id"
  by (auto simp: fun_eq_iff write_length_def write_channel_id_def read_length_def read_channel_id_def)

lemma read_write_channel_id:
  "read_channel_id (snd (write_channel_id i)) (fst (write_channel_id i) @ rest) =
    Some (i, length (fst (write_channel_id i)))"
  by (cases i rule: write_channel_id_cases) (simp_all add: read_channel_id_def ucast_narrow8 ucast_narrow16)

lemma selector_range: "snd (write_channel_id i) \<in> {0, 1, 2}"
  by (cases i rule: write_channel_id_cases) simp_all

lemma tail_length: "0 < length (fst (write_channel_id i)) \<and> length (fst (write_channel_id i)) \<le> 4"
  by (cases i rule: write_channel_id_cases) simp_all

lemma parse_dvc_data: "dvc_parse (dvc_data c p) = Inr (Data c p)"
  using selector_range [of c] read_write_channel_id [of c p]
  by (auto simp: dvc_parse_def dvc_data_def cmd_defs or_truncated_def split: prod.splits)

lemma parse_data_first: "dvc_parse (data_first c n p) = Inr (DataFirst c n p)"
  using selector_range [of c] selector_range [of n] read_write_channel_id [of c "fst (write_channel_id n) @ p"]
    read_write_channel_id [of n p]
  by (auto simp: dvc_parse_def data_first_def cmd_defs or_truncated_def write_length_is split: prod.splits)

section \<open>Reassembly of one channel\<close>

text \<open>A PDU off the wire, parsed and handed to the reassembler.\<close>

definition dvc_step :: "dvc_reassembler \<Rightarrow> bytes \<Rightarrow> dvc_reassembler \<times> (u32 \<times> bytes) option" where
  "dvc_step pending b = (case dvc_parse b of Inr pdu \<Rightarrow> dvc_accept pending pdu | Inl _ \<Rightarrow> (pending, None))"

lemma dvc_step_data: "dvc_step s (dvc_data c p) = dvc_accept s (Data c p)"
  by (simp add: dvc_step_def parse_dvc_data)

lemma dvc_step_first: "dvc_step s (data_first c n p) = dvc_accept s (DataFirst c n p)"
  by (simp add: dvc_step_def parse_data_first)

lemmas dvc_steps = dvc_step_data dvc_step_first dvc_accept_def

lemma dvc_step_more:
  "s ch = Some (n, buf) \<Longrightarrow> length buf + length p < n \<Longrightarrow>
    dvc_step s (dvc_data ch p) = (s(ch \<mapsto> (n, buf @ p)), None)"
  by (simp add: dvc_steps Let_def)

lemma dvc_step_last:
  "s ch = Some (n, buf) \<Longrightarrow> length buf + length p \<ge> n \<Longrightarrow>
    dvc_step s (dvc_data ch p) = (s(ch := None), Some (ch, buf @ p))"
  by (simp add: dvc_steps Let_def)

lemma feed_fragments:
  assumes "length buf < n" "n = length (buf @ concat chunks)" "\<forall>c \<in> set chunks. c \<noteq> []"
  shows "feed dvc_step (s(ch \<mapsto> (n, buf))) (map (dvc_data ch) chunks) =
    (s(ch := None), [(ch, buf @ concat chunks)])"
  using assms
proof (induction chunks arbitrary: buf)
  case (Cons c chunks)
  show ?case
  proof (cases "chunks = []")
    case False
    then have "0 < length (concat chunks)" using Cons.prems(3) by (cases chunks) auto
    then have "length (buf @ c) < n" "length buf + length c < n" using Cons.prems(2) by simp_all
    moreover from this(2) have "dvc_step (s(ch \<mapsto> (n, buf))) (dvc_data ch c) = (s(ch \<mapsto> (n, buf @ c)), None)"
      using dvc_step_more [of "s(ch \<mapsto> (n, buf))" ch n buf c] by simp
    ultimately show ?thesis using Cons.IH [of "buf @ c"] Cons.prems by (simp add: Let_def del: fun_upd_apply)
  next
    case True
    have "dvc_step (s(ch \<mapsto> (n, buf))) (dvc_data ch c) = (s(ch := None), Some (ch, buf @ c))"
      using dvc_step_last [of "s(ch \<mapsto> (n, buf))" ch n buf c] Cons.prems True by simp
    then show ?thesis using True by (simp add: Let_def del: fun_upd_apply)
  qed
qed simp

lemma feed_data_message:
  assumes "s ch = None" "length m < 2 ^ 32"
  shows "feed dvc_step s (data_message ch m) = (s, [(ch, m)])"
proof (cases "length m \<le> MAX_DATA_CHUNK")
  case True
  then show ?thesis using assms by (simp add: data_message_def dvc_steps)
next
  case False
  let ?n = MAX_DATA_CHUNK
  have n: "0 < ?n" "?n < length m" using False by (auto simp: MAX_DATA_CHUNK_def)
  have c: "chunks_of ?n m = take ?n m # chunks_of ?n (drop ?n m)" using n by (intro chunks_of_step) auto
  let ?rest = "chunks_of ?n (drop ?n m)"
  have parts: "take ?n m @ concat ?rest = m" using n by (simp add: concat_chunks_of)
  have "unat (of_nat (length m) :: u32) = length m" using assms(2) by (simp add: unat_of_nat)
  then have first: "dvc_step s (data_first ch (of_nat (length m)) (take ?n m)) = (s(ch \<mapsto> (length m, take ?n m)), None)"
    using n by (simp add: dvc_steps)
  have "\<forall>c \<in> set ?rest. c \<noteq> []" using chunks_of_sizes by fastforce
  then have rest: "feed dvc_step (s(ch \<mapsto> (length m, take ?n m))) (map (dvc_data ch) ?rest) = (s(ch := None), [(ch, m)])"
    using feed_fragments [of "take ?n m" "length m" ?rest s ch] n unfolding parts by simp
  have pieces: "data_message ch m = data_first ch (of_nat (length m)) (take ?n m) # map (dvc_data ch) ?rest"
    using False by (simp add: data_message_def c)
  have "s(ch := None) = s" using assms(1) by auto
  then show ?thesis by (simp only: pieces feed.simps first fst_conv snd_conv rest Let_def option.case)
qed

definition message_ok :: "u32 \<times> bytes \<Rightarrow> bool" where "message_ok m \<longleftrightarrow> length (snd m) < 2 ^ 32"

interpretation dvc: framing "\<lambda>m. data_message (fst m) (snd m)" message_ok dvc_step "\<lambda>s. s = Map.empty"
  by unfold_locales (auto simp: message_ok_def feed_data_message)

text \<open>Dynamic channels run on the static channel \<open>drdynvc\<close>.\<close>

interpretation dvc_over_svc: layers chunks_dvc "\<lambda>_. True" svc_push "\<lambda>_. True"
    "\<lambda>m. data_message (fst m) (snd m)" message_ok dvc_step "\<lambda>s. s = Map.empty"
  by unfold_locales simp

lemma data_message_sizes:
  assumes "p \<in> set (data_message ch m)"
  shows "length p \<le> CHUNK_SIZE"
proof -
  have tl: "length (fst (write_channel_id i)) \<le> 4" for i using tail_length by blast
  have d: "length (dvc_data ch x) \<le> CHUNK_SIZE" "length (data_first ch n x) \<le> CHUNK_SIZE" if "length x \<le> MAX_DATA_CHUNK" for x n
    using tl [of ch] tl [of n] that
    by (auto simp: dvc_data_def data_first_def write_length_is CHUNK_SIZE_def MAX_DATA_CHUNK_def split: prod.splits)
  have "length x \<le> MAX_DATA_CHUNK" if "x \<in> set (chunks_of MAX_DATA_CHUNK m)" for x
    using chunks_of_sizes [OF that] by simp
  then show ?thesis using assms d
    by (auto simp: data_message_def split: if_splits list.splits)
qed

section \<open>Many channels at once\<close>

text \<open>The channel whose message a PDU carries.\<close>

definition dvc_channel :: "bytes \<Rightarrow> u32 option" where
  "dvc_channel b = (case dvc_parse b of Inr (DataFirst c _ _) \<Rightarrow> Some c | Inr (Data c _) \<Rightarrow> Some c | _ \<Rightarrow> None)"

lemma dvc_step_other:
  "dvc_channel p \<noteq> Some ch \<Longrightarrow>
    fst (dvc_step s p) ch = s ch \<and> (\<forall>m. snd (dvc_step s p) = Some m \<longrightarrow> fst m \<noteq> ch)"
  by (auto simp: dvc_step_def dvc_channel_def dvc_accept_def Let_def split: sum.splits dvc_pdu.splits option.splits if_splits)

lemma dvc_step_same:
  "dvc_channel p = Some ch \<Longrightarrow> s ch = s' ch \<Longrightarrow>
    fst (dvc_step s p) ch = fst (dvc_step s' p) ch \<and> snd (dvc_step s p) = snd (dvc_step s' p) \<and>
    (\<forall>m. snd (dvc_step s p) = Some m \<longrightarrow> fst m = ch)"
  by (auto simp: dvc_step_def dvc_channel_def dvc_accept_def Let_def split: sum.splits dvc_pdu.splits option.splits if_splits)

text \<open>What a channel delivers depends on its own PDUs only.\<close>

lemma channels_apart:
  "s ch = s' ch \<Longrightarrow>
    filter (\<lambda>m. fst m = ch) (snd (feed dvc_step s ps)) =
      snd (feed dvc_step s' (filter (\<lambda>p. dvc_channel p = Some ch) ps))"
proof (induction ps arbitrary: s s')
  case (Cons p ps)
  show ?case
  proof (cases "dvc_channel p = Some ch")
    case True
    with Cons.IH [of "fst (dvc_step s p)" "fst (dvc_step s' p)"] dvc_step_same [OF True, of s s'] Cons.prems
    show ?thesis by (auto simp: Let_def split: option.splits)
  next
    case False
    with Cons.IH [of "fst (dvc_step s p)" s'] dvc_step_other [OF False, of s] Cons.prems
    show ?thesis by (auto simp: Let_def split: option.splits)
  qed
qed simp

lemma feed_channel:
  assumes "\<forall>m \<in> set ms. length m < 2 ^ 32"
  shows "snd (feed dvc_step Map.empty (concat (map (data_message ch) ms))) = map (Pair ch) ms"
proof -
  have "\<forall>m \<in> set (map (Pair ch) ms). message_ok m" using assms by (auto simp: message_ok_def)
  from dvc.feed_stream [OF this refl] show ?thesis by (auto simp: comp_def)
qed

section \<open>Properties\<close>

text \<open>
  C24. Dynamic channels share one static channel without disturbing each other: however the PDUs
  of messages on any number of channels are interleaved, cut into static channel chunks and
  reassembled, each channel delivers exactly its own messages, whole and in order.
\<close>

theorem dvc_channels_deliver:
  assumes "\<And>ch. filter (\<lambda>p. dvc_channel p = Some ch) ps = concat (map (data_message ch) (msgs ch))"
    and "\<And>ch. \<forall>m \<in> set (msgs ch). length m < 2 ^ 32"
  shows "filter (\<lambda>m. fst m = ch) (snd (feed (layered_push dvc_step svc_push) (Map.empty, buf) (concat (map chunks_dvc ps))))
    = map (Pair ch) (msgs ch)"
proof -
  have "snd (feed svc_push buf (concat (map chunks_dvc ps))) = ps" using svc_dvc.feed_stream [of ps buf] by auto
  then have "snd (feed (layered_push dvc_step svc_push) (Map.empty, buf) (concat (map chunks_dvc ps))) =
      snd (feed dvc_step Map.empty ps)"
    by (simp add: feed_layered Let_def)
  then show ?thesis using channels_apart [of Map.empty ch Map.empty ps] feed_channel [OF assms(2)] assms(1)
    by simp
qed

text \<open>Two channels, the fragments of one around the message of the other.\<close>

theorem dvc_channels_deliver_witness:
  "filter (\<lambda>m. fst m = 7) (snd (feed (layered_push dvc_step svc_push) (Map.empty, [])
      (concat (map chunks_dvc [data_first 7 1501 (replicate MAX_DATA_CHUNK 1), dvc_data 300 [9], dvc_data 7 [2]]))))
   = [(7, replicate MAX_DATA_CHUNK 1 @ [2])]"
proof -
  let ?big = "replicate MAX_DATA_CHUNK (1 :: u8) @ [2]"
  let ?msgs = "\<lambda>ch :: u32. if ch = 7 then [?big] else if ch = 300 then [[9]] else []"
  have n: "0 < MAX_DATA_CHUNK" "Suc MAX_DATA_CHUNK = 1501" by (simp_all add: MAX_DATA_CHUNK_def)
  have n': "(1 + of_nat MAX_DATA_CHUNK :: u32) = 1501" by (simp add: MAX_DATA_CHUNK_def)
  have "chunks_of MAX_DATA_CHUNK ?big = take MAX_DATA_CHUNK ?big # chunks_of MAX_DATA_CHUNK (drop MAX_DATA_CHUNK ?big)"
    by (rule chunks_of_step) (simp_all add: n)
  also have "\<dots> = [replicate MAX_DATA_CHUNK 1, [2]]"
    using n(1) by (simp add: chunks_of_step Suc_leI)
  finally have "chunks_of MAX_DATA_CHUNK ?big = [replicate MAX_DATA_CHUNK 1, [2]]" .
  then have big: "data_message 7 ?big = [data_first 7 1501 (replicate MAX_DATA_CHUNK 1), dvc_data 7 [2]]"
    using n(2) n' by (simp add: data_message_def)
  have small: "data_message 300 [9] = [dvc_data 300 [9]]" by (simp add: data_message_def MAX_DATA_CHUNK_def)
  have "map (Pair 7) (?msgs 7) = [(7 :: u32, ?big)]" by simp
  show ?thesis unfolding \<open>map (Pair 7) (?msgs 7) = _\<close> [symmetric]
    by (rule dvc_channels_deliver)
      (auto simp: dvc_channel_def parse_data_first parse_dvc_data big small, simp_all add: MAX_DATA_CHUNK_def)
qed

text \<open>
  Every PDU of a dynamic channel message fits one static channel chunk, so a PDU is never spread over two.
\<close>

lemma dvc_pdu_is_one_chunk:
  assumes "p \<in> set (data_message ch m)"
  shows "chunks_dvc p = [chunk_at 0 p 0]"
  using chunks_dvc_short [OF data_message_sizes [OF assms]] .

theorem dvc_pdu_is_one_chunk_witness:
  "chunks_dvc (dvc_data 5 [1, 2]) = [chunk_at 0 (dvc_data 5 [1, 2]) 0]"
  by (rule dvc_pdu_is_one_chunk [of _ 5 "[1, 2]"]) (simp add: data_message_def MAX_DATA_CHUNK_def)

end
