(* ===== verification/Mcs.thy ===== *)
theory Mcs
  imports X224 Drdynvc
begin

text \<open>
  MCS domain PDUs (\<open>mcs.rs\<close>): the Connect-Initial and Connect-Response around the GCC data, the
  attach and channel join exchange, and Send Data with its PER length, in TPKT and X.224 frames.
  \<open>u16\<close> arithmetic wraps as in a release build. The GCC blocks themselves are an argument.
\<close>

definition CONNECT_INITIAL_TAG :: bytes where "CONNECT_INITIAL_TAG = [0x7F, 0x65]"
definition CONNECT_RESPONSE_TAG :: bytes where "CONNECT_RESPONSE_TAG = [0x7F, 0x66]"
definition MCS_BASE_CHANNEL_ID :: u16 where "MCS_BASE_CHANNEL_ID = 1001"
definition TAG_ENUMERATED :: u8 where "TAG_ENUMERATED = 0x0A"
definition CHOICE_ATTACH_USER_CONFIRM :: u8 where "CHOICE_ATTACH_USER_CONFIRM = 11"
definition CHOICE_CHANNEL_JOIN_CONFIRM :: u8 where "CHOICE_CHANNEL_JOIN_CONFIRM = 15"

definition domain_parameters :: "u32 list \<Rightarrow> bytes" where
  "domain_parameters vs = sequence (concat (map integer vs))"

definition connect_initial :: "bytes \<Rightarrow> bytes" where
  "connect_initial gcc_ccr =
    (let content = octet_string [0x01] @ octet_string [0x01] @ [0x01, 0x01, 0xFF]
           @ domain_parameters [34, 2, 0, 1, 0, 1, 0xFFFF, 2]
           @ domain_parameters [1, 1, 1, 1, 0, 1, 0x420, 2]
           @ domain_parameters [0xFFFF, 0xFC17, 0xFFFF, 1, 0, 1, 0xFFFF, 2]
           @ octet_string gcc_ccr
     in CONNECT_INITIAL_TAG @ encode_length (length content) @ content)"

record connect_response =
  cr_result :: u8
  cr_user_data :: bytes

definition strip_framing :: "bytes \<Rightarrow> bytes" where
  "strip_framing pdu =
    (if pdu \<noteq> [] \<and> pdu ! 0 = TPKT_VERSION \<and> length pdu > TPKT_HEADER_LEN
     then (let li = unat (pdu ! TPKT_HEADER_LEN); start = TPKT_HEADER_LEN + li + 1
           in if start \<le> length pdu then drop start pdu else pdu)
     else pdu)"

text \<open>\<open>?\<close> on a DER result converts its error.\<close>

definition asn1 :: "asn1_error + 'a \<Rightarrow> pdu_error + 'a" where
  "asn1 r = (case r of Inl e \<Rightarrow> Inl (Asn1 e) | Inr x \<Rightarrow> Inr x)"

definition parse_connect_response :: "bytes \<Rightarrow> pdu_error + connect_response" where
  "parse_connect_response pdu =
    (let body = strip_framing pdu
     in if length body < 2 \<or> body ! 0 \<noteq> CONNECT_RESPONSE_TAG ! 0 \<or> body ! 1 \<noteq> CONNECT_RESPONSE_TAG ! 1
        then Inl (InvalidField ''mcs_connect_response_tag'')
        else
          and_then (asn1 (decode_length (drop 2 body))) (\<lambda>(_, b1).
          and_then (asn1 (expect TAG_ENUMERATED b1)) (\<lambda>(res, b2).
          and_then (asn1 (expect TAG_INTEGER b2)) (\<lambda>(_, b3).
          and_then (asn1 (expect TAG_SEQUENCE b3)) (\<lambda>(_, b4).
          and_then (asn1 (expect TAG_OCTET_STRING b4)) (\<lambda>(user_data, _).
            Inr \<lparr> cr_result = (case res of r # _ \<Rightarrow> r | [] \<Rightarrow> 0xFF), cr_user_data = user_data \<rparr>))))))"

definition erect_domain_request :: bytes where "erect_domain_request = [0x04, 0x01, 0x00, 0x01, 0x00]"
definition attach_user_request :: bytes where "attach_user_request = [0x28]"

definition parse_attach_user_confirm :: "bytes \<Rightarrow> pdu_error + u16" where
  "parse_attach_user_confirm pdu =
    (let mcs = strip_framing pdu
     in if length mcs < 4 \<or> drop_bit 2 (mcs ! 0) \<noteq> CHOICE_ATTACH_USER_CONFIRM then Inl (InvalidField ''attach_user_confirm'')
        else if mcs ! 1 \<noteq> 0 then Inl (InvalidField ''attach_user_confirm'')
        else Inr (MCS_BASE_CHANNEL_ID + u16_of_be (take 2 (drop 2 mcs))))"

definition channel_join_request :: "u16 \<Rightarrow> u16 \<Rightarrow> bytes" where
  "channel_join_request user_id channel_id = 0x38 # u16_be (user_id - MCS_BASE_CHANNEL_ID) @ u16_be channel_id"

definition parse_channel_join_confirm :: "bytes \<Rightarrow> pdu_error + u16" where
  "parse_channel_join_confirm pdu =
    (let mcs = strip_framing pdu
     in if length mcs < 8 \<or> drop_bit 2 (mcs ! 0) \<noteq> CHOICE_CHANNEL_JOIN_CONFIRM then Inl (InvalidField ''channel_join_confirm'')
        else if mcs ! 1 \<noteq> 0 then Inl (InvalidField ''channel_join_confirm'')
        else Inr (u16_of_be (take 2 (drop 6 mcs))))"

definition frame :: "bytes \<Rightarrow> pdu_error + bytes" where
  "frame mcs = and_then (write_data_header (length mcs)) (\<lambda>header. Inr (header @ mcs))"

text \<open>The PER length of Send Data: \<open>as u8\<close> keeps the low byte.\<close>

definition per_length :: "nat \<Rightarrow> bytes" where
  "per_length n = (if n > 0x7F then [0x80 OR of_nat (n div 256), of_nat (n mod 256)] else [of_nat n])"

definition send_data_request :: "u16 \<Rightarrow> u16 \<Rightarrow> bytes \<Rightarrow> bytes" where
  "send_data_request user_id channel_id payload =
    0x64 # u16_be (user_id - MCS_BASE_CHANNEL_ID) @ u16_be channel_id @ [0x70] @ per_length (length payload) @ payload"

definition parse_send_data_indication :: "bytes \<Rightarrow> pdu_error + u16 \<times> bytes" where
  "parse_send_data_indication pdu =
    (let mcs = strip_framing pdu
     in and_then (ensure mcs 7) (\<lambda>_.
        if drop_bit 2 (mcs ! 0) \<noteq> 26 then Inl (InvalidField ''send_data_indication'')
        else
          (let channel_id = u16_of_be (take 2 (drop 3 mcs)); first = mcs ! 6
           in and_then
                (if first AND 0x80 \<noteq> 0
                 then and_then (ensure mcs 8) (\<lambda>_. Inr (push_bit 8 (unat (first AND 0x7F)) OR unat (mcs ! 7), 8))
                 else Inr (unat first, 7))
                (\<lambda>(payload_len, idx).
                   and_then (ensure mcs (idx + payload_len)) (\<lambda>_.
                     Inr (channel_id, take payload_len (drop idx mcs)))))))"

section \<open>Framing\<close>

lemma strip_frame:
  assumes "frame mcs = Inr pdu"
  shows "strip_framing pdu = mcs" "length pdu = length mcs + 7" "read_tpkt_len pdu = Inr (length pdu)"
proof -
  have n: "7 + length mcs \<le> 65535" and pdu: "pdu = [3, 0] @ u16_be (of_nat (7 + length mcs)) @ [2, 0xF0, 0x80] @ mcs"
    using assms by (auto simp: frame_def write_data_header_def Let_def X224_DATA_HEADER_def x224_consts split: if_splits)
  show "strip_framing pdu = mcs" "length pdu = length mcs + 7"
    by (simp_all add: pdu strip_framing_def x224_consts nth_append)
  have "unat (of_nat (7 + length mcs) :: u16) = 7 + length mcs" using n by (intro unat_of_nat_u16) simp
  then show "read_tpkt_len pdu = Inr (length pdu)"
    by (simp add: pdu read_tpkt_len_def ensure_def x224_consts del: of_nat_add)
qed

lemma frame_ok: "length mcs \<le> 65528 \<Longrightarrow> \<exists>pdu. frame mcs = Inr pdu"
  by (simp add: frame_def write_data_header_def Let_def X224_DATA_HEADER_def TPKT_HEADER_LEN_def)

text \<open>The server's indication has the request's layout under its own choice byte (26 shifted by two).\<close>

definition send_data_indication :: "u16 \<Rightarrow> u16 \<Rightarrow> bytes \<Rightarrow> bytes" where
  "send_data_indication user_id channel_id payload = 0x68 # tl (send_data_request user_id channel_id payload)"

lemma per_length_value:
  assumes "n > 0x7F"
  shows "unat ((0x80 OR of_nat (n div 256) :: u8) AND 0x7F) = n div 256 mod 128"
    "(0x80 OR of_nat (n div 256) :: u8) AND 0x80 \<noteq> 0"
proof -
  have "(0x80 OR w) AND 0x7F = w AND (0x7F :: u8)" for w
    by (intro bit_word_eqI) (auto simp: bit_simps less_Suc_eq numeral_eq_Suc)
  then have "unat ((0x80 OR of_nat (n div 256) :: u8) AND 0x7F) = unat (take_bit 7 (of_nat (n div 256) :: u8))"
    by (simp add: take_bit_eq_mask mask_eq_exp_minus_1)
  also have "\<dots> = n div 256 mod 128"
    by (subst unsigned_take_bit_eq) (simp add: unat_of_nat take_bit_eq_mod mod_mod_cancel)
  finally show "unat ((0x80 OR of_nat (n div 256) :: u8) AND 0x7F) = n div 256 mod 128" .
  have "bit ((0x80 OR of_nat (n div 256) :: u8) AND 0x80) 7" by (simp add: bit_simps)
  then show "(0x80 OR of_nat (n div 256) :: u8) AND 0x80 \<noteq> 0" by (metis bit_0_eq bot_apply bot_bool_def)
qed

lemma length_mod: "n div 256 mod 128 * 256 + n mod 256 = n mod (0x8000 :: nat)"
  using mod_mult2_eq [of n 256 128] by simp

lemma indication_bytes:
  "send_data_indication u c p = 0x68 # u16_be (u - MCS_BASE_CHANNEL_ID) @ u16_be c @ [0x70] @ per_length (length p) @ p"
  by (simp add: send_data_indication_def send_data_request_def)

lemma take_2_be: "take 2 (u16_be c @ xs) = u16_be c" by simp

text \<open>What a reader of Send Data gets: the payload cut to its length below 2^15.\<close>

lemma parse_indication:
  assumes "strip_framing pdu = send_data_indication u c p"
  shows "parse_send_data_indication pdu = Inr (c, take (length p mod 0x8000) p)"
proof -
  let ?m = "send_data_indication u c p"
  have ch: "u16_of_be (take 2 (drop 3 ?m)) = c" by (simp add: indication_bytes)
  show ?thesis
  proof (cases "length p > 0x7F")
    case True
    note per = per_length_value [OF True]
    have m: "?m ! 0 = 0x68" "?m ! 6 = 0x80 OR of_nat (length p div 256)" "?m ! 7 = of_nat (length p mod 256)"
      "length ?m = 8 + length p" "drop 8 ?m = p"
      using True by (simp_all add: indication_bytes per_length_def nth_append)
    have "push_bit 8 (length p div 256 mod 128) OR unat (of_nat (length p mod 256) :: u8) = length p mod 0x8000"
    proof -
      have u: "unat (of_nat (length p mod 256) :: u8) = length p mod 256" by (rule unat_of_nat_byte) simp
      show ?thesis unfolding shift_or_byte unfolding u by (rule length_mod)
    qed
    then show ?thesis using per
      by (simp add: parse_send_data_indication_def assms ensure_def Let_def m ch)
  next
    case False
    have m: "?m ! 0 = 0x68" "?m ! 6 = of_nat (length p)" "length ?m = 7 + length p" "drop 7 ?m = p"
      using False by (simp_all add: indication_bytes per_length_def nth_append)
    have short: "(of_nat (length p) :: u8) AND 0x80 = 0"
    proof -
      have "unat (of_nat (length p) :: u8) div 2 ^ 7 = 0" using False by (simp add: unat_of_nat_byte)
      then have "\<not> bit (unat (of_nat (length p) :: u8)) 7" unfolding bit_iff_odd by simp
      then have "\<not> bit (of_nat (length p) :: u8) 7" by (simp add: bit_unsigned_iff)
      then show ?thesis by (intro bit_word_eqI) (auto simp: bit_simps less_Suc_eq numeral_eq_Suc)
    qed
    show ?thesis using False short
      by (simp add: parse_send_data_indication_def assms ensure_def Let_def m ch unat_of_nat_byte)
  qed
qed

section \<open>Channel data over MCS\<close>

text \<open>One packet on channel \<open>c\<close>, framed for the wire, and its reader.\<close>

definition mcs_split :: "u16 \<Rightarrow> u16 \<Rightarrow> bytes \<Rightarrow> bytes list" where
  "mcs_split u c p = (case frame (send_data_indication u c p) of Inr pdu \<Rightarrow> [pdu] | Inl _ \<Rightarrow> [])"

definition mcs_push :: "u16 \<Rightarrow> unit \<Rightarrow> bytes \<Rightarrow> unit \<times> bytes option" where
  "mcs_push c s pdu =
    ((), case parse_send_data_indication pdu of Inr (ch, p) \<Rightarrow> if ch = c then Some p else None | Inl _ \<Rightarrow> None)"

lemma indication_length: "length (send_data_indication u c p) \<le> 8 + length p"
  by (simp add: indication_bytes per_length_def)

lemma framed_indication:
  assumes "length p < 0x8000"
  shows "\<exists>pdu. frame (send_data_indication u c p) = Inr pdu \<and> parse_send_data_indication pdu = Inr (c, p)"
proof -
  have "length (send_data_indication u c p) \<le> 65528" using indication_length [of u c p] assms by simp
  then obtain pdu where pdu: "frame (send_data_indication u c p) = Inr pdu" using frame_ok by blast
  have "parse_send_data_indication pdu = Inr (c, p)"
    using parse_indication [OF strip_frame(1) [OF pdu]] assms by simp
  with pdu show ?thesis by blast
qed

interpretation mcs: framing "mcs_split u c" "\<lambda>p. length p < 0x8000" "mcs_push c" "\<lambda>_. True"
proof
  fix p :: bytes and s :: unit
  assume "length p < 0x8000"
  from framed_indication [OF this, of u c] show "\<exists>s'. feed (mcs_push c) s (mcs_split u c p) = (s', [p]) \<and> True"
    by (auto simp: mcs_split_def mcs_push_def)
qed

interpretation svc_over_mcs: layers "mcs_split u c" "\<lambda>p. length p < 0x8000" "mcs_push c" "\<lambda>_. True"
    chunks_dvc "\<lambda>_. True" svc_push "\<lambda>_. True"
proof
  show "length q < 0x8000" if "q \<in> set (chunks_dvc m)" for m q
    using chunks_from_sizes [of q 0 m 0] that by (simp add: chunks_dvc_def chunks_with_def CHUNK_SIZE_def)
qed

interpretation dvc_stack: layers "layered_split chunks_dvc (mcs_split u c)" "\<lambda>_. True"
    "layered_push svc_push (mcs_push c)" "\<lambda>(t, s). True \<and> True"
    "\<lambda>m. data_message (fst m) (snd m)" message_ok dvc_step "\<lambda>s. s = Map.empty"
  by (intro layers.intro layers_axioms.intro svc_over_mcs.both.framing_axioms dvc.framing_axioms) simp

section \<open>Properties\<close>

text \<open>
  Send Data survives framing: a payload below 32 KiB on any channel, in the layout of \<open>send_data_request\<close> under the indication's
  choice byte, framed by \<open>frame\<close>, is read back by \<open>parse_send_data_indication\<close> with its channel; the TPKT
  length is that of the PDU.
\<close>

lemma send_data_roundtrip:
  assumes "length p < 0x8000"
  shows "\<exists>pdu. frame (0x68 # tl (send_data_request u c p)) = Inr pdu \<and>
    parse_send_data_indication pdu = Inr (c, p) \<and> read_tpkt_len pdu = Inr (length pdu)"
  using framed_indication [OF assms, of u c] strip_frame(3) by (auto simp: send_data_indication_def)

theorem send_data_roundtrip_witness:
  "\<exists>pdu. frame (0x68 # tl (send_data_request 1007 1003 [1, 2, 3])) = Inr pdu \<and>
    parse_send_data_indication pdu = Inr (1003, [1, 2, 3]) \<and> read_tpkt_len pdu = Inr (length pdu)"
  by (rule send_data_roundtrip) simp

text \<open>
  From 32 KiB on the two length bytes of \<open>send_data_request\<close> are wrong: the same reader takes only the first
  \<open>length - 32768\<close> bytes of the payload, and no error is reported on either side.
\<close>

lemma send_data_truncates:
  assumes "0x8000 \<le> length p" "length p \<le> 0xFFF0"
  shows "\<exists>pdu. frame (0x68 # tl (send_data_request u c p)) = Inr pdu \<and>
    parse_send_data_indication pdu = Inr (c, take (length p - 0x8000) p)"
proof -
  have "length (send_data_indication u c p) \<le> 65528" using indication_length [of u c p] assms(2) by simp
  then obtain pdu where pdu: "frame (send_data_indication u c p) = Inr pdu" using frame_ok by blast
  have "length p mod 0x8000 = length p - 0x8000" using assms by (simp add: mod_if)
  then show ?thesis using pdu parse_indication [OF strip_frame(1) [OF pdu]] by (auto simp: send_data_indication_def)
qed

theorem send_data_truncates_witness:
  "\<exists>pdu. frame (0x68 # tl (send_data_request 1007 1003 (replicate (2 ^ 15) 7))) = Inr pdu \<and>
    parse_send_data_indication pdu = Inr (1003, take (length (replicate (2 ^ 15) (7 :: u8)) - 0x8000) (replicate (2 ^ 15) 7))"
  by (rule send_data_truncates) (simp_all del: replicate.simps)

text \<open>
  The user id given by Attach User Confirm comes back as the initiator of every join request, and the confirm of a
  join names the channel asked for; a non-zero result is refused.
\<close>

lemma attach_and_join:
  "(\<forall>initiator. parse_attach_user_confirm ([0x2E, 0] @ u16_be initiator) = Inr (MCS_BASE_CHANNEL_ID + initiator) \<and>
      channel_join_request (MCS_BASE_CHANNEL_ID + initiator) ch = 0x38 # u16_be initiator @ u16_be ch) \<and>
   parse_channel_join_confirm ([0x3E, 0] @ u16_be initiator @ u16_be ch @ u16_be ch) = Inr ch \<and>
   parse_channel_join_confirm ([0x3E, 1] @ u16_be initiator @ u16_be ch @ u16_be ch) = Inl (InvalidField ''channel_join_confirm'')"
  by (simp add: parse_attach_user_confirm_def parse_channel_join_confirm_def channel_join_request_def strip_framing_def
      x224_consts CHOICE_ATTACH_USER_CONFIRM_def CHOICE_CHANNEL_JOIN_CONFIRM_def)

text \<open>The PDU a server builds.\<close>

definition connect_response_pdu :: "u8 \<Rightarrow> bytes \<Rightarrow> bytes \<Rightarrow> bytes \<Rightarrow> bytes" where
  "connect_response_pdu result called params user_data =
    (let content = tlv TAG_ENUMERATED [result] @ tlv TAG_INTEGER called @ sequence params @ octet_string user_data
     in CONNECT_RESPONSE_TAG @ encode_length (length content) @ content)"

lemma asn1_Inr [simp]: "asn1 (Inr x) = Inr x"
  by (simp add: asn1_def)

lemma strip_bare: "pdu ! 0 \<noteq> TPKT_VERSION \<Longrightarrow> strip_framing pdu = pdu"
  by (simp add: strip_framing_def)

text \<open>
  A Connect-Response built in DER from a result, an id, domain parameters and the server's data, bare or framed, is parsed
  into exactly that result and data.
\<close>

lemma connect_response_roundtrip:
  assumes "length called < 2 ^ 16" "length params < 2 ^ 32" "length user_data < 2 ^ 32"
    and "pdu = connect_response_pdu result called params user_data \<or>
      frame (connect_response_pdu result called params user_data) = Inr pdu"
  shows "parse_connect_response pdu = Inr \<lparr> cr_result = result, cr_user_data = user_data \<rparr>"
proof -
  let ?b = "connect_response_pdu result called params user_data"
  let ?content = "tlv TAG_ENUMERATED [result] @ tlv TAG_INTEGER called @ sequence params @ octet_string user_data"
  have tl: "length (tlv t v) \<le> 10 + length v" if "length v < 2 ^ 64" for t v
  proof (cases "length v < 0x80")
    case False
    then have "0 < length v" by linarith
    then have "length (significant (usize_be (length v))) \<le> 8" using that by (rule significant_usize(4))
    then show ?thesis by (simp add: tlv_def encode_length_def Let_def)
  qed (simp add: tlv_def encode_length_def)
  have "length ?content < 2 ^ 64"
    using tl [of "[result]" TAG_ENUMERATED] tl [of called TAG_INTEGER] tl [of params TAG_SEQUENCE] tl [of user_data TAG_OCTET_STRING] assms
    by (simp add: sequence_def octet_string_def)
  then have len: "decode_length (drop 2 ?b) = Inr (length ?content, ?content)"
    by (simp add: connect_response_pdu_def Let_def CONNECT_RESPONSE_TAG_def decode_encode_length del: length_append)
  have strip: "strip_framing pdu = ?b"
    using assms(4) strip_frame(1) [of ?b pdu]
    by (auto intro!: strip_bare simp: connect_response_pdu_def Let_def CONNECT_RESPONSE_TAG_def TPKT_VERSION_def)
  have ex: "expect TAG_ENUMERATED ?content = Inr ([result], tlv TAG_INTEGER called @ sequence params @ octet_string user_data)"
    "expect TAG_INTEGER (tlv TAG_INTEGER called @ sequence params @ octet_string user_data) = Inr (called, sequence params @ octet_string user_data)"
    "expect TAG_SEQUENCE (sequence params @ octet_string user_data) = Inr (params, octet_string user_data)"
    "expect TAG_OCTET_STRING (octet_string user_data) = Inr (user_data, [])"
    using assms(1-3) expect_tlv [of user_data TAG_OCTET_STRING "[]"]
    by (simp_all add: expect_tlv sequence_def octet_string_def)
  have tag: "length ?b \<ge> 2" "?b ! 0 = CONNECT_RESPONSE_TAG ! 0" "?b ! 1 = CONNECT_RESPONSE_TAG ! 1"
    by (simp_all add: connect_response_pdu_def Let_def CONNECT_RESPONSE_TAG_def)
  show ?thesis unfolding parse_connect_response_def strip Let_def
    using tag by (simp add: len ex)
qed

theorem connect_response_roundtrip_witness:
  "parse_connect_response (connect_response_pdu 0 [0] [] [1, 2]) = Inr \<lparr> cr_result = 0, cr_user_data = [1, 2] \<rparr>"
  by (rule connect_response_roundtrip [of "[0]" "[]" "[1, 2]"]) simp_all

end
