(* ===== verification/Bignum.thy ===== *)
theory Bignum
  imports Prelude
begin

text \<open>
  The unsigned big integer of \<open>rdp-crypto\<close> (\<open>bignum.rs\<close>) and the RSA encryption of Standard RDP Security
  on it (\<open>rsa.rs\<close>). A \<open>BigUint\<close> is its limbs, least significant first. Indexing out of range is a panic
  (\<open>None\<close>), which the lemmas on \<open>mul\<close> rule out.
\<close>

type_synonym big_uint = "u32 list"

definition normalize :: "big_uint \<Rightarrow> big_uint" where
  "normalize ls = rev (dropWhile (\<lambda>l. l = 0) (rev ls))"

definition zero :: big_uint where "zero = []"

definition from_u32 :: "u32 \<Rightarrow> big_uint" where "from_u32 v = normalize [v]"

definition is_zero :: "big_uint \<Rightarrow> bool" where "is_zero x \<longleftrightarrow> x = []"

text \<open>One limb of up to four bytes.\<close>

definition limb_of :: "bytes \<Rightarrow> u32" where
  "limb_of chunk = fold (\<lambda>(i, b) v. v OR push_bit (8 * i) (ucast b)) (List.enumerate 0 chunk) 0"

definition from_bytes_le :: "bytes \<Rightarrow> big_uint" where
  "from_bytes_le bs = normalize (map limb_of (chunks_of 4 bs))"

definition from_bytes_be :: "bytes \<Rightarrow> big_uint" where
  "from_bytes_be bs = from_bytes_le (rev bs)"

definition to_bytes_le :: "big_uint \<Rightarrow> nat \<Rightarrow> bytes" where
  "to_bytes_le x len =
    (let out = concat (map u32_le x) in take len (take len out @ replicate (len - length out) 0))"

datatype ordering = Less | Equal | Greater

definition compare :: "'a :: linorder \<Rightarrow> 'a \<Rightarrow> ordering" where
  "compare a b = (if a < b then Less else if a = b then Equal else Greater)"

text \<open>The loop of \<open>cmp\<close> from the last limb down.\<close>

fun cmp_loop :: "(u32 \<times> u32) list \<Rightarrow> ordering" where
  "cmp_loop [] = Equal"
| "cmp_loop ((a, b) # rest) = (if a \<noteq> b then compare a b else cmp_loop rest)"

definition cmp :: "big_uint \<Rightarrow> big_uint \<Rightarrow> ordering" where
  "cmp x y = (if length x \<noteq> length y then compare (length x) (length y) else cmp_loop (rev (zip x y)))"

definition leading_zeros :: "u32 \<Rightarrow> nat" where
  "leading_zeros w = length (takeWhile (\<lambda>i. \<not> bit w i) (rev [0..<32]))"

definition bit_len :: "big_uint \<Rightarrow> nat" where
  "bit_len x = (if x = [] then 0 else length x * 32 - leading_zeros (last x))"

definition big_bit :: "big_uint \<Rightarrow> nat \<Rightarrow> bool" where
  "big_bit x i = (let limb = i div 32 in limb < length x \<and> drop_bit (i mod 32) (x ! limb) AND 1 = 1)"

fun shl1_loop :: "u32 \<Rightarrow> u32 list \<Rightarrow> u32 list" where
  "shl1_loop carry [] = (if carry \<noteq> 0 then [carry] else [])"
| "shl1_loop carry (l # ls) =
    (let v = push_bit 1 (ucast l :: u64) OR ucast carry
     in ucast v # shl1_loop (ucast (drop_bit 32 v)) ls)"

definition shl1 :: "big_uint \<Rightarrow> big_uint" where
  "shl1 x = normalize (shl1_loop 0 x)"

text \<open>The \<open>i64\<close> values stay between \<open>- 2 ^ 32\<close> and \<open>2 ^ 32\<close>: they are integers here.\<close>

fun sub_loop :: "int \<Rightarrow> u32 list \<Rightarrow> u32 list \<Rightarrow> u32 list" where
  "sub_loop borrow [] others = []"
| "sub_loop borrow (l # ls) others =
    (let o' = (case others of k # _ \<Rightarrow> uint k | [] \<Rightarrow> 0);
         d = uint l - o' - borrow
     in if d < 0 then word_of_int (d + 2 ^ 32) # sub_loop 1 ls (tl others)
        else word_of_int d # sub_loop 0 ls (tl others))"

definition sub :: "big_uint \<Rightarrow> big_uint \<Rightarrow> big_uint" where
  "sub x y = normalize (sub_loop 0 x y)"

text \<open>
  The two loops of \<open>mul\<close> for one limb \<open>a\<close>: over the limbs of the other factor from index \<open>k\<close> on, and
  the carry on from where they end.
\<close>

fun mul_row :: "u32 \<Rightarrow> u32 list \<Rightarrow> nat \<Rightarrow> u64 \<Rightarrow> u32 list \<Rightarrow> (u32 list \<times> u64) option" where
  "mul_row a [] k carry limbs = Some (limbs, carry)"
| "mul_row a (b # bs) k carry limbs =
    (if k < length limbs
     then (let cur = ucast (limbs ! k) + ucast a * ucast b + carry
           in mul_row a bs (Suc k) (drop_bit 32 cur) (limbs[k := ucast cur]))
     else None)"

function mul_carry :: "nat \<Rightarrow> u64 \<Rightarrow> u32 list \<Rightarrow> u32 list option" where
  "mul_carry k carry limbs =
    (if carry > 0
     then if k < length limbs
          then (let cur = ucast (limbs ! k) + carry
                in mul_carry (Suc k) (drop_bit 32 cur) (limbs[k := ucast cur]))
          else None
     else Some limbs)"
  by pat_completeness auto
termination
  by (relation "measure (\<lambda>(k, carry, limbs). length limbs - k)") auto

declare mul_carry.simps [simp del]

fun mul_loop :: "u32 list \<Rightarrow> u32 list \<Rightarrow> nat \<Rightarrow> u32 list \<Rightarrow> u32 list option" where
  "mul_loop [] ys i limbs = Some limbs"
| "mul_loop (a # xs) ys i limbs =
    Option.bind (mul_row a ys i 0 limbs) (\<lambda>(limbs, carry).
      Option.bind (mul_carry (i + length ys) carry limbs) (mul_loop xs ys (Suc i)))"

definition mul :: "big_uint \<Rightarrow> big_uint \<Rightarrow> big_uint option" where
  "mul x y =
    (if is_zero x \<or> is_zero y then Some zero
     else map_option normalize (mul_loop x y 0 (replicate (length x + length y) 0)))"

definition rem_step :: "big_uint \<Rightarrow> big_uint \<Rightarrow> nat \<Rightarrow> big_uint \<Rightarrow> big_uint" where
  "rem_step x m i r =
    (let r = shl1 r;
         r = (if big_bit x i then (if r = [] then [1] else r[0 := r ! 0 OR 1]) else r)
     in if cmp r m \<noteq> Less then sub r m else r)"

definition big_rem :: "big_uint \<Rightarrow> big_uint \<Rightarrow> big_uint" where
  "big_rem x m =
    (if cmp x m = Less then x else fold (rem_step x m) (rev [0..<bit_len x]) zero)"

definition mul_rem :: "big_uint \<Rightarrow> big_uint \<Rightarrow> big_uint \<Rightarrow> big_uint option" where
  "mul_rem x y m = map_option (\<lambda>p. big_rem p m) (mul x y)"

fun modpow_loop :: "big_uint \<Rightarrow> big_uint \<Rightarrow> nat list \<Rightarrow> big_uint \<Rightarrow> big_uint \<Rightarrow> big_uint option" where
  "modpow_loop e m [] result base = Some result"
| "modpow_loop e m (i # is) result base =
    Option.bind (if big_bit e i then mul_rem result base m else Some result) (\<lambda>result.
      Option.bind (mul_rem base base m) (modpow_loop e m is result))"

definition modpow :: "big_uint \<Rightarrow> big_uint \<Rightarrow> big_uint \<Rightarrow> big_uint option" where
  "modpow x e m =
    (if is_zero m then Some zero
     else modpow_loop e m [0..<bit_len e] (big_rem (from_u32 1) m) (big_rem x m))"

definition encrypt_le :: "bytes \<Rightarrow> bytes \<Rightarrow> bytes \<Rightarrow> bytes option" where
  "encrypt_le message_le modulus_le exponent_le =
    map_option (\<lambda>c. to_bytes_le c (length modulus_le))
      (modpow (from_bytes_le message_le) (from_bytes_le exponent_le) (from_bytes_le modulus_le))"

section \<open>The number a list of limbs stands for\<close>

primrec big_value :: "big_uint \<Rightarrow> nat" where
  "big_value [] = 0"
| "big_value (l # ls) = unat l + 2 ^ 32 * big_value ls"

definition normal :: "big_uint \<Rightarrow> bool" where
  "normal x \<longleftrightarrow> x = [] \<or> last x \<noteq> 0"

lemma normal_simps [simp]: "normal []" "normal [l] \<longleftrightarrow> l \<noteq> 0" "normal (l # k # ls) \<longleftrightarrow> normal (k # ls)"
  by (simp_all add: normal_def)

lemma big_value_append: "big_value (xs @ ys) = big_value xs + 2 ^ (32 * length xs) * big_value ys"
  by (induction xs) (simp_all add: algebra_simps power_add)

lemma big_value_bound: "big_value x < 2 ^ (32 * length x)"
proof (induction x)
  case (Cons l ls)
  have "unat l + 2 ^ 32 * big_value ls < 2 ^ 32 + 2 ^ 32 * big_value ls" using unat_bound_u32 [of l] by simp
  also have "\<dots> = 2 ^ 32 * Suc (big_value ls)" by simp
  also have "\<dots> \<le> 2 ^ 32 * 2 ^ (32 * length ls)" using Cons.IH by (intro mult_le_mono2) simp
  finally show ?case by (simp add: power_add)
qed simp

lemma normalize_snoc: "normalize (xs @ [x]) = (if x = 0 then normalize xs else xs @ [x])"
  by (simp add: normalize_def)

lemma big_value_normalize [simp]: "big_value (normalize x) = big_value x"
  by (induction x rule: rev_induct) (simp_all add: normalize_snoc big_value_append, simp add: normalize_def)

lemma normal_normalize [simp]: "normal (normalize x)"
  by (induction x rule: rev_induct) (simp_all add: normalize_snoc, simp add: normalize_def, simp add: normal_def)

lemma normal_lower: "normal x \<Longrightarrow> x \<noteq> [] \<Longrightarrow> 2 ^ (32 * (length x - 1)) \<le> big_value x"
proof (induction x rule: rev_induct)
  case (snoc l ls)
  then have "1 \<le> unat l" by (simp add: normal_def unat_gt_0 Suc_le_eq)
  then have "2 ^ (32 * length ls) * 1 \<le> 2 ^ (32 * length ls) * unat l" by (intro mult_le_mono2)
  then show ?case by (simp add: big_value_append trans_le_add2)
qed simp

lemma normal_zero_iff: "normal x \<Longrightarrow> big_value x = 0 \<longleftrightarrow> x = []"
  using normal_lower [of x] by (cases "x = []") (auto dest: order_less_le_trans [rotated, of _ _ 0])

text \<open>A limb below a multiple of \<open>2 ^ 32\<close>.\<close>

lemma split_low:
  fixes l m :: u32
  shows "(unat l + 2 ^ 32 * a) mod 2 ^ 32 = unat l" "(unat l + 2 ^ 32 * a) div 2 ^ 32 = a"
  using unat_bound_u32 [of l] by simp_all

lemma big_value_update:
  "k < length xs \<Longrightarrow> big_value (xs[k := y]) + unat (xs ! k) * 2 ^ (32 * k) = big_value xs + unat y * 2 ^ (32 * k)"
proof (induction xs arbitrary: k)
  case (Cons x xs)
  show ?case
  proof (cases k)
    case (Suc j)
    then show ?thesis using Cons.IH [of j] Cons.prems by (simp add: power_add algebra_simps)
  qed simp
qed simp

section \<open>Multiplication\<close>

text \<open>A sum in \<open>u64\<close> that does not wrap, cut into a limb and a carry.\<close>

lemma unat_add_u64: "unat (x :: u64) + unat y < 2 ^ 64 \<Longrightarrow> unat (x + y) = unat x + unat y"
  by (simp add: unat_word_ariths)

lemma unat_mult_u64: "unat (x :: u64) * unat y < 2 ^ 64 \<Longrightarrow> unat (x * y) = unat x * unat y"
  by (simp add: unat_word_ariths)

lemma unat_ucast_u64 [simp]: "unat (ucast (l :: u32) :: u64) = unat l"
  using unat_bound_u32 [of l] by (simp add: unsigned_ucast_eq take_bit_nat_eq_self)

lemma limb_and_carry:
  fixes cur :: u64
  shows "unat (ucast cur :: u32) + 2 ^ 32 * unat (drop_bit 32 cur) = unat cur"
    and "unat (drop_bit 32 cur) < 2 ^ 32"
  using unat_bound_u64 [of cur] by (simp_all add: unsigned_ucast_eq unsigned_take_bit_eq take_bit_eq_mod unat_drop_bit_eq drop_bit_eq_div [where 'a = nat])

lemma product_step:
  fixes l a b :: u32 and carry :: u64
  assumes "unat carry < 2 ^ 32"
  shows "unat (ucast l + ucast a * ucast b + carry :: u64) = unat l + unat a * unat b + unat carry"
proof -
  have p: "unat a * unat b \<le> (2 ^ 32 - 1) * (2 ^ 32 - 1)"
    using unat_bound_u32 [of a] unat_bound_u32 [of b] by (intro mult_le_mono) simp_all
  have l: "unat l \<le> 2 ^ 32 - 1" using unat_bound_u32 [of l] by simp
  have "unat (ucast a * ucast b :: u64) = unat a * unat b" using p by (subst unat_mult_u64) simp_all
  then have "unat (ucast l + ucast a * ucast b :: u64) = unat l + unat a * unat b" using p l by (subst unat_add_u64) simp_all
  then show ?thesis using p l assms by (subst unat_add_u64) simp_all
qed

lemma mul_row_value:
  assumes "k + length bs \<le> length limbs" "unat carry < 2 ^ 32"
  shows "\<exists>limbs' carry'. mul_row a bs k carry limbs = Some (limbs', carry') \<and> length limbs' = length limbs \<and>
    unat carry' < 2 ^ 32 \<and>
    big_value limbs' + unat carry' * 2 ^ (32 * (k + length bs)) =
      big_value limbs + (unat a * big_value bs + unat carry) * 2 ^ (32 * k)"
  using assms
proof (induction bs arbitrary: k carry limbs)
  case (Cons b bs)
  define cur :: u64 where "cur = ucast (limbs ! k) + ucast a * ucast b + carry"
  have cur: "unat cur = unat (limbs ! k) + unat a * unat b + unat carry"
    unfolding cur_def by (rule product_step [OF Cons.prems(2)])
  note lc = limb_and_carry [of cur]
  have k: "k < length limbs" using Cons.prems(1) by simp
  obtain limbs' carry' where r: "mul_row a bs (Suc k) (drop_bit 32 cur) (limbs[k := ucast cur]) = Some (limbs', carry')"
    "length limbs' = length limbs" "unat carry' < 2 ^ 32"
    "big_value limbs' + unat carry' * 2 ^ (32 * (Suc k + length bs)) =
      big_value (limbs[k := ucast cur]) + (unat a * big_value bs + unat (drop_bit 32 cur)) * 2 ^ (32 * Suc k)"
    using Cons.IH [of "Suc k" "limbs[k := ucast cur]" "drop_bit 32 cur"] Cons.prems lc(2) by auto
  define P :: nat where "P = 2 ^ (32 * k)"
  have u: "big_value (limbs[k := ucast cur]) + unat (limbs ! k) * P = big_value limbs + unat (ucast cur :: u32) * P"
    unfolding P_def by (rule big_value_update [OF k])
  have SP: "2 ^ (32 * Suc k) = 2 ^ 32 * P" by (simp add: P_def power_add)
  have "big_value limbs' + unat carry' * 2 ^ (32 * (k + length (b # bs))) + unat (limbs ! k) * P =
      big_value limbs + (unat (ucast cur :: u32) + 2 ^ 32 * unat (drop_bit 32 cur)) * P + unat a * big_value bs * (2 ^ 32 * P)"
    using r(4) u unfolding SP by (simp add: algebra_simps)
  also have "\<dots> = big_value limbs + (unat a * big_value (b # bs) + unat carry) * P + unat (limbs ! k) * P"
    unfolding lc(1) cur by (simp add: algebra_simps)
  finally show ?case using r(1-3) k by (simp add: cur_def P_def Let_def)
qed auto

lemma mul_carry_value:
  assumes "k \<le> length limbs" "unat carry < 2 ^ 32" "big_value limbs + unat carry * 2 ^ (32 * k) < 2 ^ (32 * length limbs)"
  shows "\<exists>limbs'. mul_carry k carry limbs = Some limbs' \<and> length limbs' = length limbs \<and>
    big_value limbs' = big_value limbs + unat carry * 2 ^ (32 * k)"
  using assms
proof (induction k carry limbs rule: mul_carry.induct)
  case (1 k carry limbs)
  show ?case
  proof (cases "carry > 0")
    case False
    then have "carry = 0" by (simp add: word_gt_0)
    then show ?thesis by (subst mul_carry.simps) simp
  next
    case True
    have k: "k < length limbs"
    proof (rule ccontr)
      assume "\<not> k < length limbs"
      then have "k = length limbs" using "1.prems"(1) by simp
      moreover have "1 \<le> unat carry" using True by (simp add: unat_gt_0 Suc_le_eq word_gt_0)
      ultimately have "1 * 2 ^ (32 * length limbs) \<le> unat carry * 2 ^ (32 * k)" by (simp only: mult_le_mono1)
      then show False using "1.prems"(3) by simp
    qed
    define cur :: u64 where "cur = ucast (limbs ! k) + carry"
    have cur: "unat cur = unat (limbs ! k) + unat carry"
      unfolding cur_def using unat_bound_u32 [of "limbs ! k"] "1.prems"(2) by (subst unat_add_u64) simp_all
    note lc = limb_and_carry [of cur]
    define P :: nat where "P = 2 ^ (32 * k)"
    have u: "big_value (limbs[k := ucast cur]) + unat (limbs ! k) * P = big_value limbs + unat (ucast cur :: u32) * P"
      unfolding P_def by (rule big_value_update [OF k])
    have SP: "2 ^ (32 * Suc k) = 2 ^ 32 * P" by (simp add: P_def power_add)
    have "unat cur * P = unat (ucast cur :: u32) * P + unat (drop_bit 32 cur) * (2 ^ 32 * P)"
      by (subst lc(1) [symmetric]) (simp add: algebra_simps)
    then have v: "big_value (limbs[k := ucast cur]) + unat (drop_bit 32 cur) * 2 ^ (32 * Suc k) = big_value limbs + unat carry * P"
      using u unfolding SP cur by (simp add: algebra_simps)
    have "\<exists>limbs'. mul_carry (Suc k) (drop_bit 32 cur) (limbs[k := ucast cur]) = Some limbs' \<and> length limbs' = length (limbs[k := ucast cur]) \<and>
        big_value limbs' = big_value (limbs[k := ucast cur]) + unat (drop_bit 32 cur) * 2 ^ (32 * Suc k)"
      by (rule "1.IH" [OF True k cur_def]) (use k lc(2) v "1.prems"(3) in \<open>simp_all add: P_def\<close>)
    then show ?thesis unfolding v using True k by (subst mul_carry.simps) (simp add: cur_def P_def Let_def)
  qed
qed

lemma mul_loop_value:
  assumes "i + length xs + length ys \<le> length limbs" "big_value limbs < 2 ^ (32 * (i + length ys))"
  shows "\<exists>limbs'. mul_loop xs ys i limbs = Some limbs' \<and>
    big_value limbs' = big_value limbs + 2 ^ (32 * i) * (big_value xs * big_value ys)"
  using assms
proof (induction xs arbitrary: i limbs)
  case (Cons a xs)
  define n where "n = length ys"
  define P :: nat where "P = 2 ^ (32 * i)"
  define Q :: nat where "Q = 2 ^ (32 * (i + n))"
  obtain limbs1 c where row: "mul_row a ys i 0 limbs = Some (limbs1, c)" "length limbs1 = length limbs" "unat c < 2 ^ 32"
    "big_value limbs1 + unat c * Q = big_value limbs + unat a * big_value ys * P"
    using mul_row_value [of i ys limbs 0 a] Cons.prems(1) by (auto simp: P_def Q_def n_def)
  have "big_value ys * P \<le> Q"
    using big_value_bound [of ys] mult_le_mono1 [of "big_value ys" "2 ^ (32 * n)" P]
    by (simp add: P_def Q_def n_def power_add add_mult_distrib2 mult.commute)
  then have "unat a * (big_value ys * P) \<le> (2 ^ 32 - 1) * Q"
    using unat_bound_u32 [of a] by (intro mult_le_mono) simp_all
  then have b: "big_value limbs + unat a * big_value ys * P < 2 ^ 32 * Q"
    using Cons.prems(2) by (simp add: Q_def n_def mult.assoc)
  have SQ: "2 ^ 32 * Q = 2 ^ (32 * (Suc i + n))" by (simp add: Q_def power_add)
  also have "\<dots> \<le> 2 ^ (32 * length limbs)" using Cons.prems(1) by (intro power_increasing) (simp_all add: n_def)
  finally obtain limbs2 where carry: "mul_carry (i + n) c limbs1 = Some limbs2" "length limbs2 = length limbs"
    "big_value limbs2 = big_value limbs + unat a * big_value ys * P"
    using mul_carry_value [of "i + n" limbs1 c] row b Cons.prems(1) unfolding Q_def [symmetric] by (auto simp: n_def)
  obtain limbs' where "mul_loop xs ys (Suc i) limbs2 = Some limbs'"
    "big_value limbs' = big_value limbs2 + 2 ^ (32 * Suc i) * (big_value xs * big_value ys)"
    using Cons.IH [of "Suc i" limbs2] Cons.prems(1) carry b unfolding SQ by (auto simp: n_def)
  then show ?case using row(1) carry by (simp add: n_def P_def power_add algebra_simps)
qed simp

lemma big_value_replicate_zero [simp]: "big_value (replicate n 0) = 0"
  by (induction n) simp_all

lemma mul_value: "\<exists>p. mul x y = Some p \<and> normal p \<and> big_value p = big_value x * big_value y"
proof (cases "x = [] \<or> y = []")
  case True
  then show ?thesis by (auto simp: mul_def is_zero_def zero_def)
next
  case False
  obtain limbs where "mul_loop x y 0 (replicate (length x + length y) 0) = Some limbs"
    "big_value limbs = big_value x * big_value y"
    using mul_loop_value [of 0 x y "replicate (length x + length y) 0"] by auto
  then show ?thesis using False by (simp add: mul_def is_zero_def)
qed

section \<open>Comparison, doubling, subtraction\<close>

lemma cmp_loop_value:
  "length x = length y \<Longrightarrow> cmp_loop (rev (zip x y)) = compare (big_value x) (big_value y)"
proof (induction x y rule: rev_induct2)
  case (4 x xs y ys)
  then have len: "length xs = length ys" by simp
  define P :: nat where "P = 2 ^ (32 * length ys)"
  have bx: "big_value xs < P" "big_value ys < P" using big_value_bound [of xs] big_value_bound [of ys] len by (simp_all add: P_def)
  have lt: "big_value us + P * unat u < big_value vs + P * unat v" if "u < v" "big_value us < P" for u v :: u32 and us vs
  proof -
    have "unat u + 1 \<le> unat v" using that(1) by (simp add: word_less_nat_alt)
    then have "P * (unat u + 1) \<le> P * unat v" by (rule mult_le_mono2)
    then show ?thesis using that(2) by (simp add: algebra_simps)
  qed
  show ?case
    using 4 len lt [of x y xs ys] lt [of y x ys xs] bx
    by (cases x y rule: linorder_cases) (auto simp: big_value_append P_def [symmetric] compare_def)
qed (simp_all add: compare_def)

lemma shorter_less: "normal y \<Longrightarrow> length x < length y \<Longrightarrow> big_value x < big_value y"
proof -
  assume y: "normal y" "length x < length y"
  have "big_value x < 2 ^ (32 * length x)" by (rule big_value_bound)
  also have "\<dots> \<le> 2 ^ (32 * (length y - 1))" using y(2) by (intro power_increasing) simp_all
  also have "\<dots> \<le> big_value y" using y by (intro normal_lower) auto
  finally show ?thesis .
qed

lemma cmp_value: "normal x \<Longrightarrow> normal y \<Longrightarrow> cmp x y = compare (big_value x) (big_value y)"
  using shorter_less [of x y] shorter_less [of y x] cmp_loop_value [of x y]
  by (auto simp: cmp_def compare_def not_less_iff_gr_or_eq)

lemma shl1_loop_value: "unat carry \<le> 1 \<Longrightarrow> big_value (shl1_loop carry ls) = 2 * big_value ls + unat carry"
proof (induction carry ls rule: shl1_loop.induct)
  case (2 carry l ls)
  define v :: u64 where "v = push_bit 1 (ucast l) OR ucast carry"
  have "carry = 0 \<or> carry = 1" using "2.prems" by (cases carry) (auto simp: unat_of_nat le_Suc_eq)
  moreover have p: "unat (push_bit 1 (ucast l) :: u64) = 2 * unat l"
    using unat_bound_u32 [of l] by (subst unsigned_push_bit_eq) (simp_all add: push_bit_eq_mult [where 'a = nat] take_bit_nat_eq_self del: push_bit_numeral_minus_1)
  moreover have "even (push_bit 1 (ucast l) :: u64)" by simp
  ultimately have v: "unat v = 2 * unat l + unat carry"
    using unat_bound_u32 [of l] by (auto simp: v_def or_one_eq unat_add_u64)
  note lc = limb_and_carry [of v]
  have "unat (ucast (drop_bit 32 v) :: u32) = unat (drop_bit 32 v)"
    using lc(2) by (simp add: unsigned_ucast_eq take_bit_nat_eq_self)
  moreover have "unat (drop_bit 32 v) \<le> 1" using lc(1) unat_bound_u32 [of l] "2.prems" unfolding v by simp
  ultimately have "big_value (shl1_loop (ucast (drop_bit 32 v)) ls) = 2 * big_value ls + unat (drop_bit 32 v)"
    using "2.IH" [OF v_def] by simp
  moreover have "shl1_loop carry (l # ls) = ucast v # shl1_loop (ucast (drop_bit 32 v)) ls"
    by (simp only: shl1_loop.simps v_def Let_def)
  ultimately show ?case using lc(1) unfolding v by simp
qed simp

lemma shl1_value: "normal (shl1 x)" "big_value (shl1 x) = 2 * big_value x"
  by (simp_all add: shl1_def shl1_loop_value)

lemma sub_loop_value:
  assumes "length ys \<le> length xs" "b = 0 \<or> b = 1"
  shows "length (sub_loop b xs ys) = length xs \<and> (\<exists>c. (c = 0 \<or> c = 1) \<and>
    int (big_value (sub_loop b xs ys)) = int (big_value xs) - int (big_value ys) - b + c * 2 ^ (32 * length xs))"
  using assms
proof (induction b xs ys rule: sub_loop.induct)
  case (2 b l ls ys)
  define y where "y = (case ys of k # _ \<Rightarrow> uint k | [] \<Rightarrow> 0)"
  define d where "d = uint l - y - b"
  define c where "c = (if d < 0 then 1 else 0 :: int)"
  have y: "0 \<le> y" "y < 2 ^ 32" "int (big_value ys) = y + 2 ^ 32 * int (big_value (tl ys))"
    using uint_lt2p [where 'a = 32] by (auto simp: y_def split: list.splits)
  have l: "0 \<le> uint l" "uint l < 2 ^ 32" using uint_lt2p [of l] by simp_all
  have b: "0 \<le> b" "b \<le> 1" using "2.prems"(2) by auto
  have d: "d < 2 ^ 32" "- (2 ^ 32) \<le> d" unfolding d_def using y(1,2) l b by linarith+
  then have dc: "0 \<le> d + c * 2 ^ 32" "d + c * 2 ^ 32 < 2 ^ 32" by (simp_all add: c_def)
  have "uint (word_of_int z :: u32) = z" if "0 \<le> z" "z < 2 ^ 32" for z
    using that by (simp add: unsigned_of_int take_bit_int_eq_self)
  note w = this [OF dc]
  have step: "sub_loop b (l # ls) ys = word_of_int (d + c * 2 ^ 32) # sub_loop c ls (tl ys)"
    by (simp add: y_def [symmetric] c_def Let_def d_def)
  have "length (sub_loop c ls (tl ys)) = length ls \<and> (\<exists>e. (e = 0 \<or> e = 1) \<and>
      int (big_value (sub_loop c ls (tl ys))) = int (big_value ls) - int (big_value (tl ys)) - c + e * 2 ^ (32 * length ls))"
    using "2.IH" [OF y_def d_def] "2.prems"(1) by (cases "d < 0") (auto simp: c_def)
  then obtain e where e: "length (sub_loop c ls (tl ys)) = length ls" "e = 0 \<or> e = 1"
    "int (big_value (sub_loop c ls (tl ys))) = int (big_value ls) - int (big_value (tl ys)) - c + e * 2 ^ (32 * length ls)" by blast
  have "int (big_value (sub_loop b (l # ls) ys)) =
      (d + c * 2 ^ 32) + 2 ^ 32 * (int (big_value ls) - int (big_value (tl ys)) - c + e * 2 ^ (32 * length ls))"
    unfolding step using w by (simp add: e(3))
  also have "\<dots> = int (big_value (l # ls)) - int (big_value ys) - b + e * 2 ^ (32 * length (l # ls))"
    by (simp add: y(3) d_def power_add algebra_simps)
  finally show ?case using e(1,2) step by auto
qed auto

lemma sub_value:
  assumes "normal y" "big_value y \<le> big_value x"
  shows "normal (sub x y)" "big_value (sub x y) = big_value x - big_value y"
proof -
  have "length y \<le> length x" using shorter_less [of y x] assms by (meson leD leI)
  from sub_loop_value [OF this, of 0] obtain c where c: "c = 0 \<or> c = 1" "length (sub_loop 0 x y) = length x"
    "int (big_value (sub_loop 0 x y)) = int (big_value x) - int (big_value y) + c * 2 ^ (32 * length x)" by auto
  moreover have "int (big_value (sub_loop 0 x y)) < 2 ^ (32 * length x)"
    using big_value_bound [of "sub_loop 0 x y"] c(2) by (metis of_nat_less_iff of_nat_numeral of_nat_power)
  ultimately have "c = 0" using assms(2) by auto
  then show "big_value (sub x y) = big_value x - big_value y" using c(3) assms(2) by (simp add: sub_def)
qed (simp add: sub_def)

section \<open>Bits\<close>

lemma odd_low_limb: "i < 32 \<Longrightarrow> odd ((unat (l :: u32) + 2 ^ 32 * a) div 2 ^ i) \<longleftrightarrow> odd (unat l div 2 ^ i)"
proof -
  assume i: "i < 32"
  then have "2 ^ 32 * a = 2 ^ i * (2 ^ (32 - i) * a)" by (simp only: power_add [symmetric] mult.assoc [symmetric] le_add_diff_inverse less_imp_le)
  then have "(unat l + 2 ^ 32 * a) div 2 ^ i = 2 ^ (32 - i) * a + unat l div 2 ^ i"
    by (metis div_mult_self2 power_not_zero zero_neq_numeral)
  then show ?thesis using i by simp
qed

lemma big_bit_value: "big_bit x i \<longleftrightarrow> odd (big_value x div 2 ^ i)"
proof (induction x arbitrary: i)
  case (Cons l ls)
  show ?case
  proof (cases "i < 32")
    case True
    have "drop_bit i l AND 1 = 1 \<longleftrightarrow> odd (drop_bit i l)" by (simp add: and_one_eq odd_iff_mod_2_eq_one)
    also have "\<dots> \<longleftrightarrow> bit l i" by (simp add: bit_iff_odd_drop_bit)
    also have "\<dots> \<longleftrightarrow> odd (unat l div 2 ^ i)" using True
      by (simp only: bit_iff_odd [of "unat l" i, symmetric]) (simp add: bit_unsigned_iff)
    finally show ?thesis using True odd_low_limb [OF True, of l "big_value ls"] by (simp add: big_bit_def)
  next
    case False
    then have e: "(2 :: nat) ^ i = 2 ^ 32 * 2 ^ (i - 32)" by (simp only: power_add [symmetric] le_add_diff_inverse not_less)
    have "big_value (l # ls) div 2 ^ i = big_value ls div 2 ^ (i - 32)"
      unfolding e div_mult2_eq using split_low(2) [of l "big_value ls"] by simp
    moreover have "i div 32 = Suc ((i - 32) div 32)" "i mod 32 = (i - 32) mod 32" using False by (simp_all add: le_div_geq le_mod_geq)
    ultimately show ?thesis using Cons.IH [of "i - 32"] by (simp add: big_bit_def Let_def)
  qed
qed (simp add: big_bit_def)

lemma leading_zeros_bound: "unat w < 2 ^ (32 - leading_zeros w)" "leading_zeros w \<le> 32"
proof -
  let ?tw = "takeWhile (\<lambda>i. \<not> bit w i) (rev [0..<32])"
  have le: "length ?tw \<le> 32" by (rule order_trans [OF length_takeWhile_le]) simp
  then show "leading_zeros w \<le> 32" by (simp add: leading_zeros_def)
  define z where "z = leading_zeros w"
  have clear: "\<not> bit w i" if "32 - z \<le> i" "i < 32" for i
  proof -
    have j: "31 - i < length ?tw" using that by (simp add: z_def leading_zeros_def)
    then have "?tw ! (31 - i) = rev [0..<32] ! (31 - i)" by (rule takeWhile_nth)
    also have "\<dots> = i" using that(2) by (simp add: rev_nth)
    finally have "i \<in> set ?tw" using j by (metis nth_mem)
    then show ?thesis by (auto dest: set_takeWhileD)
  qed
  have "take_bit (32 - z) w = w"
    by (rule bit_word_eqI) (simp add: bit_take_bit_iff, metis clear not_le)
  then have "take_bit (32 - z) (unat w) = unat w" by (simp only: unsigned_take_bit_eq [symmetric])
  then show "unat w < 2 ^ (32 - leading_zeros w)" by (simp only: take_bit_nat_eq_self_iff z_def)
qed

lemma bit_len_bound: "big_value x < 2 ^ bit_len x"
proof (cases x rule: rev_cases)
  case (snoc ls l)
  note lz = leading_zeros_bound [of l]
  have "big_value x < 2 ^ (32 * length ls) * (1 + unat l)"
    using big_value_bound [of ls] by (simp add: snoc big_value_append)
  also have "\<dots> \<le> 2 ^ (32 * length ls) * 2 ^ (32 - leading_zeros l)" using lz(1) by (intro mult_le_mono2) simp
  also have "\<dots> = 2 ^ bit_len x" using lz(2) by (simp add: snoc bit_len_def power_add [symmetric])
  finally show ?thesis .
qed (simp add: bit_len_def)

section \<open>Remainder and power\<close>

lemma set_low_bit:
  assumes "normal r" "even (big_value r)"
  defines "r' \<equiv> (if r = [] then [1] else r[0 := r ! 0 OR 1])"
  shows "normal r'" "big_value r' = big_value r + 1"
proof -
  have "normal r' \<and> big_value r' = big_value r + 1"
  proof (cases r)
    case (Cons l ls)
    have "even (unat l)" using assms(2) Cons by simp
    moreover have "bit (unat l) 0 = bit l 0" by (simp only: bit_unsigned_iff) simp
    ultimately have "even l" by (simp add: bit_0)
    then have "l OR 1 = l + 1" by (simp add: or_one_eq)
    moreover have "unat (l + 1) = unat l + 1"
    proof -
      have "unat l \<noteq> 2 ^ 32 - 1" using \<open>even (unat l)\<close> by auto
      then show ?thesis using unat_bound_u32 [of l] by (simp add: unat_word_ariths)
    qed
    moreover from this have "l + 1 \<noteq> 0" by auto
    ultimately show ?thesis using assms(1) Cons by (cases ls) (auto simp: r'_def)
  qed (simp add: r'_def)
  then show "normal r'" "big_value r' = big_value r + 1" by auto
qed

lemma rem_step_value:
  assumes "normal m" "0 < big_value m" "normal r" "big_value r = big_value x div 2 ^ Suc i mod big_value m"
  shows "normal (rem_step x m i r) \<and> big_value (rem_step x m i r) = big_value x div 2 ^ i mod big_value m"
proof -
  define M X where "M = big_value m" and "X = big_value x"
  define r2 where "r2 = (if big_bit x i then (if shl1 r = [] then [1] else (shl1 r)[0 := shl1 r ! 0 OR 1]) else shl1 r)"
  have r2: "normal r2" "big_value r2 = 2 * big_value r + X div 2 ^ i mod 2"
    using set_low_bit [of "shl1 r"] shl1_value [of r] by (auto simp: r2_def big_bit_value X_def odd_iff_mod_2_eq_one)
  have q: "X div 2 ^ i = 2 * (X div 2 ^ Suc i) + X div 2 ^ i mod 2"
    by (simp add: power_Suc2 div_mult2_eq del: power_Suc)
  have "big_value r < M" using assms(2,4) by (simp add: M_def)
  then have b: "big_value r2 < 2 * M" unfolding r2(2) by (cases "X div 2 ^ i mod 2 = 0") auto
  have eq: "X div 2 ^ i mod M = big_value r2 mod M"
    unfolding r2(2) assms(4) M_def [symmetric] X_def [symmetric] by (subst q) (metis mod_add_left_eq mod_mult_right_eq)
  have "rem_step x m i r = (if cmp r2 m \<noteq> Less then sub r2 m else r2)"
    by (simp add: rem_step_def r2_def Let_def)
  moreover have "cmp r2 m = compare (big_value r2) M" using cmp_value [OF r2(1) assms(1)] by (simp add: M_def)
  ultimately show ?thesis
    using r2(1) sub_value [OF assms(1), of r2] b eq le_mod_geq [of M "big_value r2"]
    by (auto simp: compare_def M_def X_def [symmetric])
qed

lemma rem_fold_value:
  assumes "normal m" "0 < big_value m"
  shows "normal r \<Longrightarrow> big_value r = big_value x div 2 ^ n mod big_value m \<Longrightarrow>
    normal (fold (rem_step x m) (rev [0..<n]) r) \<and>
    big_value (fold (rem_step x m) (rev [0..<n]) r) = big_value x mod big_value m"
proof (induction n arbitrary: r)
  case (Suc n)
  from Suc.IH rem_step_value [OF assms Suc.prems] show ?case by simp
qed simp

lemma big_rem_value:
  assumes "normal m" "0 < big_value m" "normal x"
  shows "normal (big_rem x m)" "big_value (big_rem x m) = big_value x mod big_value m"
  using rem_fold_value [OF assms(1,2), of zero x "bit_len x"] bit_len_bound [of x] assms cmp_value [of x m]
  by (auto simp: big_rem_def zero_def compare_def split: if_splits)

lemma mul_rem_value:
  assumes "normal m" "0 < big_value m"
  shows "\<exists>p. mul_rem x y m = Some p \<and> normal p \<and> big_value p = big_value x * big_value y mod big_value m"
  using mul_value [of x y] big_rem_value [OF assms] by (fastforce simp: mul_rem_def)

lemma modpow_loop_value:
  assumes "normal m" "0 < big_value m" "normal r" "big_value r < big_value m"
  shows "\<exists>p. modpow_loop e m [i..<i + n] r b = Some p \<and> normal p \<and> big_value p < big_value m \<and>
    big_value p mod big_value m = big_value r * big_value b ^ (big_value e div 2 ^ i mod 2 ^ n) mod big_value m"
  using assms(3,4)
proof (induction n arbitrary: i r b)
  case (Suc n)
  define M E where "M = big_value m" and "E = big_value e div 2 ^ i"
  define r1 where "r1 = big_value r * big_value b ^ (E mod 2) mod M"
  have bit: "big_bit e i \<longleftrightarrow> E mod 2 = 1" by (simp add: big_bit_value E_def odd_iff_mod_2_eq_one)
  have "\<exists>q. (if big_bit e i then mul_rem r b m else Some r) = Some q \<and> normal q \<and> big_value q = r1"
    using mul_rem_value [OF assms(1,2), of r b] Suc.prems bit by (cases "E mod 2 = 1") (auto simp: r1_def M_def)
  then obtain q where q: "(if big_bit e i then mul_rem r b m else Some r) = Some q" "normal q" "big_value q = r1" by blast
  obtain s where s: "mul_rem b b m = Some s" "normal s" "big_value s = big_value b * big_value b mod M"
    using mul_rem_value [OF assms(1,2), of b b] by (auto simp: M_def)
  have "big_value q < M" using assms(2) by (simp add: q(3) r1_def M_def)
  from Suc.IH [OF q(2) this [unfolded M_def], of "Suc i" s] obtain p where
    p: "modpow_loop e m [Suc i..<Suc i + n] q s = Some p" "normal p" "big_value p < M"
       "big_value p mod M = r1 * big_value s ^ (E div 2 mod 2 ^ n) mod M"
    by (auto simp: q(3) M_def E_def div_mult2_eq [symmetric] mult.commute)
  have "E mod 2 ^ Suc n = E mod 2 + 2 * (E div 2 mod 2 ^ n)" by (simp add: mod_mult2_eq)
  then have "big_value b ^ (E mod 2 ^ Suc n) = big_value b ^ (E mod 2) * (big_value b * big_value b) ^ (E div 2 mod 2 ^ n)"
    by (simp only: power_add power_mult power2_eq_square [symmetric])
  then have "big_value r * big_value b ^ (E mod 2 ^ Suc n) mod M = r1 * big_value s ^ (E div 2 mod 2 ^ n) mod M"
    unfolding r1_def s(3) by (metis mod_mult_left_eq mod_mult_right_eq mult.assoc power_mod)
  moreover have "[i..<i + Suc n] = i # [Suc i..<Suc i + n]" by (simp add: upt_conv_Cons)
  ultimately show ?case using q(1) s(1) p by (simp add: M_def E_def)
qed (auto simp: assms)

lemma normal_from_u32: "normal (from_u32 v)" "big_value (from_u32 v) = unat v"
  by (simp_all add: from_u32_def)

lemma modpow_value:
  assumes "normal x" "normal m"
  shows "\<exists>p. modpow x e m = Some p \<and> normal p \<and>
    big_value p = (if big_value m = 0 then 0 else big_value x ^ big_value e mod big_value m)"
proof (cases "m = []")
  case True
  then show ?thesis by (simp add: modpow_def is_zero_def zero_def)
next
  case False
  then have m: "0 < big_value m" using normal_zero_iff [OF assms(2)] by simp
  note one = big_rem_value [OF assms(2) m normal_from_u32(1) [of 1]]
  note base = big_rem_value [OF assms(2) m assms(1)]
  have "big_value (big_rem (from_u32 1) m) < big_value m" using m by (simp add: one)
  from modpow_loop_value [OF assms(2) m one(1) this, of e 0 "bit_len e" "big_rem x m"] obtain p where
    p: "modpow_loop e m [0..<bit_len e] (big_rem (from_u32 1) m) (big_rem x m) = Some p" "normal p" "big_value p < big_value m"
      "big_value p mod big_value m = (1 mod big_value m) * (big_value x mod big_value m) ^ big_value e mod big_value m"
    using bit_len_bound [of e] by (auto simp: one(2) base(2) normal_from_u32(2))
  have "big_value p = big_value x ^ big_value e mod big_value m"
    using p(3,4) by (simp add: mod_mult_left_eq power_mod)
  then show ?thesis using p(1,2) m False by (simp add: modpow_def is_zero_def)
qed

section \<open>Bytes\<close>

lemma or_push_bit:
  fixes v :: u32 and b :: u8
  assumes "8 * n + 8 \<le> 32" "unat v < 2 ^ (8 * n)"
  shows "unat (v OR push_bit (8 * n) (ucast b)) = unat v + 2 ^ (8 * n) * unat b"
proof -
  define w :: u32 where "w = push_bit (8 * n) (ucast b)"
  have "2 ^ (8 * n) * unat b < 2 ^ (8 * n) * 2 ^ 8" using unat_bound_u8 [of b] by simp
  also have "\<dots> = 2 ^ (8 * n + 8)" by (simp add: power_add)
  also have "\<dots> \<le> (2 :: nat) ^ 32" using assms(1) by (intro power_increasing) simp_all
  finally have lt: "2 ^ (8 * n) * unat b < 2 ^ 32" .
  have "unat (ucast b :: u32) = unat b" using unat_bound_u8 [of b] by (simp add: unsigned_ucast_eq take_bit_nat_eq_self)
  then have w: "unat w = 2 ^ (8 * n) * unat b"
    using lt by (simp add: w_def unsigned_push_bit_eq push_bit_eq_mult [where 'a = nat] take_bit_nat_eq_self mult.commute)
  have v: "take_bit (8 * n) (unat v) = unat v" using assms(2) by (simp add: take_bit_nat_eq_self)
  have "unat v AND unat w = 0"
  proof (rule bit_eqI)
    fix i
    show "bit (unat v AND unat w) i \<longleftrightarrow> bit (0 :: nat) i"
      by (subst v [symmetric]) (simp add: w mult.commute [of "2 ^ (8 * n)"] push_bit_eq_mult [symmetric] bit_and_iff bit_take_bit_iff bit_push_bit_iff)
  qed
  then have "unat v + unat w = unat v OR unat w" by (rule disjunctive_add_eq_or)
  then show ?thesis using w by (simp add: unsigned_or_eq w_def)
qed

lemma limb_fold_value:
  "8 * (n + length bs) \<le> 32 \<Longrightarrow> unat v < 2 ^ (8 * n) \<Longrightarrow>
   unat (fold (\<lambda>(i, b) v. v OR push_bit (8 * i) (ucast b)) (List.enumerate n bs) v) = unat (v :: u32) + 2 ^ (8 * n) * le_to_nat bs"
proof (induction bs arbitrary: n v)
  case (Cons b bs)
  have o': "unat (v OR push_bit (8 * n) (ucast b)) = unat v + 2 ^ (8 * n) * unat b"
    using Cons.prems by (intro or_push_bit) simp_all
  have "unat v + 2 ^ (8 * n) * unat b < 2 ^ (8 * n) * (1 + unat b)" using Cons.prems(2) by simp
  also have "\<dots> \<le> 2 ^ (8 * n) * 2 ^ 8" using unat_bound_u8 [of b] by (intro mult_le_mono2) simp
  also have "\<dots> = 2 ^ (8 * Suc n)" by (simp add: power_add)
  finally show ?case using Cons.IH [of "Suc n" "v OR push_bit (8 * n) (ucast b)"] Cons.prems(1) o'
    by (simp add: power_add algebra_simps)
qed simp

lemma limb_of_value: "length bs \<le> 4 \<Longrightarrow> unat (limb_of bs) = le_to_nat bs"
  using limb_fold_value [of 0 bs 0] by (simp add: limb_of_def)

lemma chunk_limbs_value: "big_value (map limb_of (chunks_of 4 bs)) = le_to_nat bs"
proof (induction "length bs" arbitrary: bs rule: less_induct)
  case less
  show ?case
  proof (cases "bs = []")
    case False
    have "big_value (map limb_of (chunks_of 4 (drop 4 bs))) = le_to_nat (drop 4 bs)" using False by (intro less) simp
    then have "big_value (map limb_of (chunks_of 4 bs)) = le_to_nat (take 4 bs) + 2 ^ 32 * le_to_nat (drop 4 bs)"
      using False by (simp add: chunks_of_step limb_of_value)
    also have "\<dots> = le_to_nat (take 4 bs @ drop 4 bs)"
      by (cases "length bs \<le> 4") (simp_all add: le_to_nat_append min_def del: append_take_drop_id)
    finally show ?thesis by simp
  qed simp
qed

lemma from_bytes_le_value: "normal (from_bytes_le bs)" "big_value (from_bytes_le bs) = le_to_nat bs"
  by (simp_all add: from_bytes_le_def chunk_limbs_value)

lemma le_to_nat_limbs: "le_to_nat (concat (map u32_le x)) = big_value x"
proof (induction x)
  case (Cons l ls)
  have "le_to_nat (u32_le l) = unat l" using unat_bound_u32 [of l] by (simp add: u32_le_def le_to_nat_nat_to_le)
  then show ?case using Cons by (simp add: le_to_nat_append)
qed simp

lemma le_to_nat_take: "le_to_nat (take n bs) = le_to_nat bs mod 256 ^ n"
proof (cases "n \<le> length bs")
  case True
  have "le_to_nat bs = le_to_nat (take n bs) + 256 ^ n * le_to_nat (drop n bs)"
    using le_to_nat_append [of "take n bs" "drop n bs"] True by simp
  moreover have "le_to_nat (take n bs) < 256 ^ n" using le_to_nat_bound [of "take n bs"] True by simp
  ultimately show ?thesis by simp
next
  case False
  have "le_to_nat bs < 256 ^ length bs" by (rule le_to_nat_bound)
  also have "\<dots> \<le> 256 ^ n" using False by (intro power_increasing) simp_all
  finally show ?thesis using False by simp
qed

lemma le_to_nat_zeros [simp]: "le_to_nat (replicate n 0) = 0"
  by (induction n) simp_all

lemma to_bytes_le_value: "length (to_bytes_le x n) = n" "le_to_nat (to_bytes_le x n) = big_value x mod 256 ^ n"
  by (simp_all add: to_bytes_le_def Let_def le_to_nat_append le_to_nat_take le_to_nat_limbs)

section \<open>RSA\<close>

text \<open>
  C20. \<open>encrypt_le\<close> never fails, gives as many bytes as the modulus has, and their number is the message's to the power of
  the exponent, modulo the modulus (nought for the modulus nought).
\<close>

theorem rsa_encrypts:
  "\<exists>c. encrypt_le message modulus exponent = Some c \<and> length c = length modulus \<and>
    le_to_nat c = (if le_to_nat modulus = 0 then 0 else le_to_nat message ^ le_to_nat exponent mod le_to_nat modulus)"
proof -
  let ?m = "from_bytes_le message" and ?n = "from_bytes_le modulus" and ?e = "from_bytes_le exponent"
  obtain p where p: "modpow ?m ?e ?n = Some p"
    "big_value p = (if le_to_nat modulus = 0 then 0 else le_to_nat message ^ le_to_nat exponent mod le_to_nat modulus)"
    using modpow_value [of ?m ?n ?e] by (auto simp: from_bytes_le_value)
  then have "big_value p \<le> le_to_nat modulus" by auto
  then have "big_value p < 256 ^ length modulus" using le_to_nat_bound [of modulus] by simp
  then show ?thesis using p by (simp add: encrypt_le_def to_bytes_le_value)
qed

end
