(* ===== verification/Hashes.thy ===== *)
theory Hashes
  imports Prelude
begin

text \<open>
  The message digests of \<open>rdp-crypto\<close>: MD4, MD5, SHA-1 and SHA-256 and the keyed HMAC-MD5 and HMAC-SHA1.
  All four pad alike and go over the padded message in chunks of 64 bytes; 32-bit arithmetic wraps.
\<close>

section \<open>Padding and words\<close>

text \<open>\<open>while msg.len() % 64 != 56 { msg.push(0); }\<close>\<close>

function pad_zeros :: "bytes \<Rightarrow> bytes" where
  "pad_zeros msg = (if length msg mod 64 \<noteq> 56 then pad_zeros (msg @ [0]) else msg)"
  by pat_completeness auto

text \<open>The zeros still to come.\<close>

definition zeros_due :: "nat \<Rightarrow> nat" where
  "zeros_due n = (if n mod 64 \<le> 56 then 56 - n mod 64 else 120 - n mod 64)"

lemma zeros_due_step:
  assumes "n mod 64 \<noteq> 56"
  shows "zeros_due n = Suc (zeros_due (Suc n))"
proof -
  obtain r where r: "n mod 64 = r" "r < 64" by simp
  then have "Suc n mod 64 = (if r = 63 then 0 else Suc r)" by (simp add: mod_Suc)
  then have "zeros_due (Suc n) = (if r = 63 then 56 else if Suc r \<le> 56 then 56 - Suc r else 120 - Suc r)"
    by (simp add: zeros_due_def)
  moreover have "zeros_due n = (if r \<le> 56 then 56 - r else 120 - r)" by (simp add: zeros_due_def r(1))
  moreover have "r \<noteq> 56" using assms r(1) by simp
  ultimately show ?thesis using r(2) by (simp split: if_splits)
qed

termination pad_zeros
  by (relation "measure (\<lambda>msg. zeros_due (length msg))") (simp_all add: zeros_due_step)

declare pad_zeros.simps [simp del]

definition padded :: "(u64 \<Rightarrow> bytes) \<Rightarrow> bytes \<Rightarrow> bytes" where
  "padded field input =
    (let bit_len = of_nat (length input) * 8 in pad_zeros (input @ [0x80]) @ field bit_len)"

definition rotate_left :: "u32 \<Rightarrow> nat \<Rightarrow> u32" where
  "rotate_left w n = push_bit n w OR drop_bit (32 - n) w"

definition rotate_right :: "u32 \<Rightarrow> nat \<Rightarrow> u32" where
  "rotate_right w n = drop_bit n w OR push_bit (32 - n) w"

definition words_le :: "bytes \<Rightarrow> u32 list" where
  "words_le chunk = map (\<lambda>i. u32_of_le (take 4 (drop (i * 4) chunk))) [0..<16]"

definition words_be :: "bytes \<Rightarrow> u32 list" where
  "words_be chunk = map (\<lambda>i. u32_of_be (take 4 (drop (i * 4) chunk))) [0..<16]"

type_synonym abcd = "u32 \<times> u32 \<times> u32 \<times> u32"

fun add_abcd :: "abcd \<Rightarrow> abcd \<Rightarrow> abcd" where
  "add_abcd (a0, b0, c0, d0) (a, b, c, d) = (a0 + a, b0 + b, c0 + c, d0 + d)"

fun abcd_bytes :: "abcd \<Rightarrow> bytes" where
  "abcd_bytes (a, b, c, d) = u32_le a @ u32_le b @ u32_le c @ u32_le d"

section \<open>MD5\<close>

definition md5_S :: "nat list" where
  "md5_S = concat [
    [7, 12, 17, 22, 7, 12, 17, 22, 7, 12, 17, 22, 7, 12, 17, 22],
    [5, 9, 14, 20, 5, 9, 14, 20, 5, 9, 14, 20, 5, 9, 14, 20],
    [4, 11, 16, 23, 4, 11, 16, 23, 4, 11, 16, 23, 4, 11, 16, 23],
    [6, 10, 15, 21, 6, 10, 15, 21, 6, 10, 15, 21, 6, 10, 15, 21]]"

definition md5_K :: "u32 list" where
  "md5_K = concat [
    [0xd76aa478, 0xe8c7b756, 0x242070db, 0xc1bdceee, 0xf57c0faf, 0x4787c62a, 0xa8304613, 0xfd469501],
    [0x698098d8, 0x8b44f7af, 0xffff5bb1, 0x895cd7be, 0x6b901122, 0xfd987193, 0xa679438e, 0x49b40821],
    [0xf61e2562, 0xc040b340, 0x265e5a51, 0xe9b6c7aa, 0xd62f105d, 0x02441453, 0xd8a1e681, 0xe7d3fbc8],
    [0x21e1cde6, 0xc33707d6, 0xf4d50d87, 0x455a14ed, 0xa9e3e905, 0xfcefa3f8, 0x676f02d9, 0x8d2a4c8a],
    [0xfffa3942, 0x8771f681, 0x6d9d6122, 0xfde5380c, 0xa4beea44, 0x4bdecfa9, 0xf6bb4b60, 0xbebfbc70],
    [0x289b7ec6, 0xeaa127fa, 0xd4ef3085, 0x04881d05, 0xd9d4d039, 0xe6db99e5, 0x1fa27cf8, 0xc4ac5665],
    [0xf4292244, 0x432aff97, 0xab9423a7, 0xfc93a039, 0x655b59c3, 0x8f0ccc92, 0xffeff47d, 0x85845dd1],
    [0x6fa87e4f, 0xfe2ce6e0, 0xa3014314, 0x4e0811a1, 0xf7537e82, 0xbd3af235, 0x2ad7d2bb, 0xeb86d391]]"

definition md5_init :: abcd where
  "md5_init = (0x67452301, 0xefcdab89, 0x98badcfe, 0x10325476)"

definition md5_round :: "u32 list \<Rightarrow> nat \<Rightarrow> abcd \<Rightarrow> abcd" where
  "md5_round m i st =
    (case st of (a, b, c, d) \<Rightarrow>
      (let (f, g) =
             (if i \<le> 15 then ((b AND c) OR (NOT b AND d), i)
              else if i \<le> 31 then ((d AND b) OR (NOT d AND c), (5 * i + 1) mod 16)
              else if i \<le> 47 then (b XOR c XOR d, (3 * i + 5) mod 16)
              else (c XOR (b OR NOT d), (7 * i) mod 16));
           f = f + a + md5_K ! i + m ! g
       in (d, b + rotate_left f (md5_S ! i), b, c)))"

definition md5_chunk :: "bytes \<Rightarrow> abcd \<Rightarrow> abcd" where
  "md5_chunk chunk h = add_abcd h (fold (md5_round (words_le chunk)) [0..<64] h)"

definition md5 :: "bytes \<Rightarrow> bytes" where
  "md5 input = abcd_bytes (fold md5_chunk (chunks_of 64 (padded u64_le input)) md5_init)"

text \<open>The key of an HMAC: hashed down when longer than a block, padded with zeros to a block.\<close>

definition hmac_key :: "(bytes \<Rightarrow> bytes) \<Rightarrow> bytes \<Rightarrow> bytes" where
  "hmac_key hash key =
    (let k = (if length key > 64 then hash key else key) in k @ replicate (64 - length k) 0)"

definition hmac_md5 :: "bytes \<Rightarrow> bytes \<Rightarrow> bytes" where
  "hmac_md5 key message =
    (let k = hmac_key md5 key
     in md5 (map (\<lambda>b. b XOR 0x5c) k @ md5 (map (\<lambda>b. b XOR 0x36) k @ message)))"

section \<open>MD4\<close>

definition md4_f :: "u32 \<Rightarrow> u32 \<Rightarrow> u32 \<Rightarrow> u32" where "md4_f x y z = (x AND y) OR (NOT x AND z)"
definition md4_g :: "u32 \<Rightarrow> u32 \<Rightarrow> u32 \<Rightarrow> u32" where "md4_g x y z = (x AND y) OR (x AND z) OR (y AND z)"
definition md4_h :: "u32 \<Rightarrow> u32 \<Rightarrow> u32 \<Rightarrow> u32" where "md4_h x y z = x XOR y XOR z"

text \<open>The macro \<open>step!\<close>: the new value of its first variable.\<close>

definition md4_step :: "(u32 \<Rightarrow> u32 \<Rightarrow> u32 \<Rightarrow> u32) \<Rightarrow> u32 list \<Rightarrow> u32 \<Rightarrow> u32 \<Rightarrow> u32 \<Rightarrow> u32 \<Rightarrow> nat \<Rightarrow> nat \<Rightarrow> u32 \<Rightarrow> u32" where
  "md4_step func x a b c d k s add = rotate_left (a + func b c d + x ! k + add) s"

text \<open>Four steps, of which each assigns one of the four variables.\<close>

definition md4_quad ::
  "(u32 \<Rightarrow> u32 \<Rightarrow> u32 \<Rightarrow> u32) \<Rightarrow> u32 list \<Rightarrow> u32 \<Rightarrow> nat \<times> nat \<times> nat \<times> nat \<Rightarrow> nat \<times> nat \<times> nat \<times> nat \<Rightarrow> abcd \<Rightarrow> abcd" where
  "md4_quad func x add ks ss st =
    (case st of (a, b, c, d) \<Rightarrow> case ks of (k0, k1, k2, k3) \<Rightarrow> case ss of (s0, s1, s2, s3) \<Rightarrow>
      (let a = md4_step func x a b c d k0 s0 add;
           d = md4_step func x d a b c k1 s1 add;
           c = md4_step func x c d a b k2 s2 add;
           b = md4_step func x b c d a k3 s3 add
       in (a, b, c, d)))"

definition md4_K2 :: u32 where "md4_K2 = 0x5A827999"
definition md4_K3 :: u32 where "md4_K3 = 0x6ED9EBA1"

definition md4_chunk :: "bytes \<Rightarrow> abcd \<Rightarrow> abcd" where
  "md4_chunk chunk h =
    (let x = words_le chunk;
         st = fold (\<lambda>k. md4_quad md4_f x 0 (k, k + 1, k + 2, k + 3) (3, 7, 11, 19)) [0, 4, 8, 12] h;
         st = fold (\<lambda>k. md4_quad md4_g x md4_K2 (k, k + 4, k + 8, k + 12) (3, 5, 9, 13)) [0..<4] st;
         st = fold (\<lambda>k. md4_quad md4_h x md4_K3 (k, k + 8, k + 4, k + 12) (3, 9, 11, 15)) [0, 2, 1, 3] st
     in add_abcd h st)"

definition md4 :: "bytes \<Rightarrow> bytes" where
  "md4 input = abcd_bytes (fold md4_chunk (chunks_of 64 (padded u64_le input)) md5_init)"

section \<open>SHA-1\<close>

definition sha1_init :: "u32 list" where
  "sha1_init = [0x67452301, 0xEFCDAB89, 0x98BADCFE, 0x10325476, 0xC3D2E1F0]"

definition sha1_schedule :: "bytes \<Rightarrow> u32 list" where
  "sha1_schedule chunk =
    fold (\<lambda>i w. w[i := rotate_left (w ! (i - 3) XOR w ! (i - 8) XOR w ! (i - 14) XOR w ! (i - 16)) 1])
      [16..<80] (words_be chunk @ replicate 64 0)"

definition sha1_round :: "nat \<times> u32 \<Rightarrow> u32 \<times> u32 \<times> u32 \<times> u32 \<times> u32 \<Rightarrow> u32 \<times> u32 \<times> u32 \<times> u32 \<times> u32" where
  "sha1_round iw st =
    (case st of (a, b, c, d, e) \<Rightarrow>
      (let i = fst iw;
           (f, k) =
             (if i \<le> 19 then ((b AND c) OR (NOT b AND d), 0x5A827999)
              else if i \<le> 39 then (b XOR c XOR d, 0x6ED9EBA1)
              else if i \<le> 59 then ((b AND c) OR (b AND d) OR (c AND d), 0x8F1BBCDC)
              else (b XOR c XOR d, 0xCA62C1D6));
           tmp = rotate_left a 5 + f + e + k + snd iw
       in (tmp, a, rotate_left b 30, c, d)))"

definition sha1_chunk :: "bytes \<Rightarrow> u32 list \<Rightarrow> u32 list" where
  "sha1_chunk chunk h =
    (case fold sha1_round (List.enumerate 0 (sha1_schedule chunk)) (h ! 0, h ! 1, h ! 2, h ! 3, h ! 4) of
       (a, b, c, d, e) \<Rightarrow> [h ! 0 + a, h ! 1 + b, h ! 2 + c, h ! 3 + d, h ! 4 + e])"

definition sha1 :: "bytes \<Rightarrow> bytes" where
  "sha1 input = concat (map u32_be (fold sha1_chunk (chunks_of 64 (padded u64_be input)) sha1_init))"

definition hmac_sha1 :: "bytes \<Rightarrow> bytes \<Rightarrow> bytes" where
  "hmac_sha1 key message =
    (let k = hmac_key sha1 key
     in sha1 (map (\<lambda>b. 0x5c XOR b) k @ sha1 (map (\<lambda>b. 0x36 XOR b) k @ message)))"

section \<open>SHA-256\<close>

definition sha256_K :: "u32 list" where
  "sha256_K = concat [
    [0x428a2f98, 0x71374491, 0xb5c0fbcf, 0xe9b5dba5, 0x3956c25b, 0x59f111f1, 0x923f82a4, 0xab1c5ed5],
    [0xd807aa98, 0x12835b01, 0x243185be, 0x550c7dc3, 0x72be5d74, 0x80deb1fe, 0x9bdc06a7, 0xc19bf174],
    [0xe49b69c1, 0xefbe4786, 0x0fc19dc6, 0x240ca1cc, 0x2de92c6f, 0x4a7484aa, 0x5cb0a9dc, 0x76f988da],
    [0x983e5152, 0xa831c66d, 0xb00327c8, 0xbf597fc7, 0xc6e00bf3, 0xd5a79147, 0x06ca6351, 0x14292967],
    [0x27b70a85, 0x2e1b2138, 0x4d2c6dfc, 0x53380d13, 0x650a7354, 0x766a0abb, 0x81c2c92e, 0x92722c85],
    [0xa2bfe8a1, 0xa81a664b, 0xc24b8b70, 0xc76c51a3, 0xd192e819, 0xd6990624, 0xf40e3585, 0x106aa070],
    [0x19a4c116, 0x1e376c08, 0x2748774c, 0x34b0bcb5, 0x391c0cb3, 0x4ed8aa4a, 0x5b9cca4f, 0x682e6ff3],
    [0x748f82ee, 0x78a5636f, 0x84c87814, 0x8cc70208, 0x90befffa, 0xa4506ceb, 0xbef9a3f7, 0xc67178f2]]"

definition sha256_init :: "u32 list" where
  "sha256_init = [0x6a09e667, 0xbb67ae85, 0x3c6ef372, 0xa54ff53a, 0x510e527f, 0x9b05688c, 0x1f83d9ab, 0x5be0cd19]"

definition sha256_word :: "nat \<Rightarrow> u32 list \<Rightarrow> u32 list" where
  "sha256_word i w =
    (let s0 = rotate_right (w ! (i - 15)) 7 XOR rotate_right (w ! (i - 15)) 18 XOR drop_bit 3 (w ! (i - 15));
         s1 = rotate_right (w ! (i - 2)) 17 XOR rotate_right (w ! (i - 2)) 19 XOR drop_bit 10 (w ! (i - 2))
     in w[i := w ! (i - 16) + s0 + w ! (i - 7) + s1])"

definition sha256_schedule :: "bytes \<Rightarrow> u32 list" where
  "sha256_schedule chunk = fold sha256_word [16..<64] (words_be chunk @ replicate 48 0)"

definition sha256_round :: "u32 list \<Rightarrow> nat \<Rightarrow> u32 list \<Rightarrow> u32 list" where
  "sha256_round w i st =
    (let a = st ! 0; b = st ! 1; c = st ! 2; d = st ! 3; e = st ! 4; f = st ! 5; g = st ! 6; hh = st ! 7;
         s1 = rotate_right e 6 XOR rotate_right e 11 XOR rotate_right e 25;
         ch = (e AND f) XOR (NOT e AND g);
         t1 = hh + s1 + ch + sha256_K ! i + w ! i;
         s0 = rotate_right a 2 XOR rotate_right a 13 XOR rotate_right a 22;
         maj = (a AND b) XOR (a AND c) XOR (b AND c);
         t2 = s0 + maj
     in [t1 + t2, a, b, c, d + t1, e, f, g])"

definition sha256_chunk :: "bytes \<Rightarrow> u32 list \<Rightarrow> u32 list" where
  "sha256_chunk chunk h = map2 (+) h (fold (sha256_round (sha256_schedule chunk)) [0..<64] h)"

definition sha256 :: "bytes \<Rightarrow> bytes" where
  "sha256 input = concat (map u32_be (fold sha256_chunk (chunks_of 64 (padded u64_be input)) sha256_init))"

section \<open>Padding\<close>

lemma pad_zeros_replicate: "pad_zeros msg = msg @ replicate (zeros_due (length msg)) 0"
proof (induction msg rule: pad_zeros.induct)
  case (1 msg)
  show ?case
  proof (cases "length msg mod 64 = 56")
    case True
    then show ?thesis by (simp add: pad_zeros.simps zeros_due_def)
  next
    case False
    then show ?thesis using 1 zeros_due_step [OF False] by (subst pad_zeros.simps) simp
  qed
qed

lemma padded_eq:
  "padded field input = input @ 0x80 # replicate (zeros_due (Suc (length input))) 0 @ field (of_nat (length input) * 8)"
  by (simp add: padded_def pad_zeros_replicate Let_def)

lemma zeros_due_mod: "(n + zeros_due n) mod 64 = 56"
proof -
  obtain q r where n: "n = 64 * q + r" "r < 64" by (metis mod_less_divisor mult_div_mod_eq zero_less_numeral)
  then have "n mod 64 = r" by simp
  then have "n + zeros_due n = 64 * q + (if r \<le> 56 then 56 else 120)" using n by (auto simp: zeros_due_def)
  then show ?thesis by simp
qed

lemma padded_chunks: "length (field (of_nat (length input) * 8)) = 8 \<Longrightarrow> length (padded field input) mod 64 = 0"
proof -
  assume f: "length (field (of_nat (length input) * 8)) = 8"
  have "length (padded field input) = (Suc (length input) + zeros_due (Suc (length input))) + 8"
    using f by (simp add: padded_eq)
  moreover have "(a + 8) mod 64 = 0" if "a mod 64 = 56" for a :: nat
    using mod_add_left_eq [of a 64 8] that by simp
  ultimately show ?thesis using zeros_due_mod by presburger
qed

text \<open>What is before the last nonzero byte of the padding.\<close>

lemma unpad:
  assumes "\<And>n. length (field n) = 8"
  shows "rev (tl (dropWhile (\<lambda>b. b = 0) (drop 8 (rev (padded field input))))) = input"
proof -
  have "dropWhile (\<lambda>b. b = 0) (replicate n 0 @ 0x80 # xs) = 0x80 # xs" for n and xs :: bytes
    by (induction n) simp_all
  then show ?thesis by (simp add: padded_eq assms)
qed

lemma padded_inj: "(\<And>n. length (field n) = 8) \<Longrightarrow> padded field x = padded field y \<longleftrightarrow> x = y"
  using unpad by metis

lemma abcd_length: "length (abcd_bytes h) = 16"
  by (cases h) simp

lemma sha1_chunk_length: "length h = 5 \<Longrightarrow> length (sha1_chunk c h) = 5"
  by (simp add: sha1_chunk_def split: prod.splits)

lemma sha256_round_length: "length (fold (sha256_round w) is st) = (if is = [] then length st else 8)"
  by (induction "is" arbitrary: st) (simp_all add: sha256_round_def Let_def)

lemma sha256_chunk_length: "length h = 8 \<Longrightarrow> length (sha256_chunk c h) = 8"
  by (simp add: sha256_chunk_def sha256_round_length del: upt_conv_Cons)

lemma fold_length: "(\<And>c h. length h = n \<Longrightarrow> length (f c h) = n) \<Longrightarrow> length h = n \<Longrightarrow> length (fold f cs h) = n"
  by (induction cs arbitrary: h) simp_all

lemma length_words_be: "length (concat (map u32_be ws)) = 4 * length ws"
  by (induction ws) simp_all

lemma digest_lengths [simp]:
  "length (md5 x) = 16" "length (md4 x) = 16" "length (sha1 x) = 20" "length (sha256 x) = 32" "length (hmac_md5 k x) = 16"
  "length (hmac_sha1 k x) = 20"
  by (simp_all add: md5_def md4_def sha1_def sha256_def hmac_md5_def hmac_sha1_def abcd_length length_words_be
      fold_length [where n = 5] fold_length [where n = 8] sha1_chunk_length sha256_chunk_length sha1_init_def sha256_init_def Let_def)

text \<open>
  Different messages are different after padding, for either order of the length's bytes; the padded message is whole
  chunks of 64 bytes, with every byte of the message in place; and every digest has its length.
\<close>

lemma digests_pad_injectively:
  "(padded u64_le x = padded u64_le y \<longleftrightarrow> x = y) \<and> (padded u64_be x = padded u64_be y \<longleftrightarrow> x = y) \<and>
   length (padded u64_le x) mod 64 = 0 \<and> length (padded u64_be x) mod 64 = 0 \<and>
   take (length x) (padded u64_le x) = x \<and> take (length x) (padded u64_be x) = x \<and>
   length (md4 x) = 16 \<and> length (md5 x) = 16 \<and> length (sha1 x) = 20 \<and> length (sha256 x) = 32"
  by (simp add: padded_inj padded_chunks) (simp add: padded_eq)

end
