(* ===== verification/Rc4.thy ===== *)
theory Rc4
  imports Prelude "HOL-Library.Multiset"
begin

text \<open>
  The RC4 stream cipher of \<open>rdp-crypto\<close> (\<open>rc4.rs\<close>). Its arithmetic is \<open>u8\<close>'s, which wraps; the table has 256
  bytes, so a byte always indexes it.
\<close>

record rc4 =
  rc4_s :: bytes
  rc4_i :: u8
  rc4_j :: u8

definition swap :: "bytes \<Rightarrow> nat \<Rightarrow> nat \<Rightarrow> bytes" where
  "swap s a b = s[a := s ! b, b := s ! a]"

definition ksa_step :: "bytes \<Rightarrow> nat \<Rightarrow> bytes \<times> u8 \<Rightarrow> bytes \<times> u8" where
  "ksa_step key i st =
    (let (s, j) = st;
         j = j + s ! i + key ! (i mod length key)
     in (swap s i (unat j), j))"

text \<open>The assertion that the key is not empty: \<open>None\<close> is its panic.\<close>

definition new_rc4 :: "bytes \<Rightarrow> rc4 option" where
  "new_rc4 key =
    (if key = [] then None
     else Some \<lparr> rc4_s = fst (fold (ksa_step key) [0..<256] (map of_nat [0..<256], 0)), rc4_i = 0, rc4_j = 0 \<rparr>)"

text \<open>One turn of \<open>apply\<close>: the next key byte.\<close>

definition next_key :: "rc4 \<Rightarrow> rc4 \<times> u8" where
  "next_key c =
    (let i = rc4_i c + 1;
         j = rc4_j c + rc4_s c ! unat i;
         s = swap (rc4_s c) (unat i) (unat j)
     in (\<lparr> rc4_s = s, rc4_i = i, rc4_j = j \<rparr>, s ! unat (s ! unat i + s ! unat j)))"

fun apply_stream :: "rc4 \<Rightarrow> bytes \<Rightarrow> rc4 \<times> bytes" where
  "apply_stream c [] = (c, [])"
| "apply_stream c (b # data) =
    (let (c, k) = next_key c; (c', out) = apply_stream c data in (c', (b XOR k) # out))"

section \<open>The table stays a permutation\<close>

definition table_ok :: "bytes \<Rightarrow> bool" where
  "table_ok s \<longleftrightarrow> length s = 256 \<and> distinct s"

lemma swap_table: "table_ok s \<Longrightarrow> a < 256 \<Longrightarrow> b < 256 \<Longrightarrow> table_ok (swap s a b)"
  using distinct_swap [of a s b] by (simp add: table_ok_def swap_def)

lemma ksa_table:
  "\<forall>i \<in> set is. i < 256 \<Longrightarrow> table_ok (fst st) \<Longrightarrow> table_ok (fst (fold (ksa_step key) is st))"
proof (induction "is" arbitrary: st)
  case (Cons i "is")
  have "table_ok (fst (ksa_step key i st))"
    using Cons.prems unat_bound_u8 by (auto simp: ksa_step_def case_prod_unfold Let_def intro!: swap_table)
  then show ?case using Cons by simp
qed simp

lemma start_table: "table_ok (map of_nat [0..<256])"
  by (auto simp: table_ok_def distinct_map inj_on_def of_nat_inverse word_unat_eq_iff unat_of_nat)

lemma apply_table: "table_ok (rc4_s c) \<Longrightarrow> table_ok (rc4_s (fst (apply_stream c data)))"
proof (induction data arbitrary: c)
  case (Cons b data)
  have "table_ok (rc4_s (fst (next_key c)))"
    using Cons.prems unat_bound_u8 by (simp add: next_key_def Let_def swap_table)
  then show ?case using Cons.IH by (simp add: case_prod_unfold Let_def)
qed simp

text \<open>No key but the empty one panics, and the table stays a permutation of the bytes, from the key's set-up on.\<close>

lemma rc4_table_permutes:
  "(new_rc4 key = None \<longleftrightarrow> key = []) \<and>
   (case new_rc4 key of None \<Rightarrow> True | Some c \<Rightarrow> mset (rc4_s (fst (apply_stream c data))) = mset (map of_nat [0..<256]))"
proof -
  have perm: "mset s = mset (map of_nat [0..<256])" if "table_ok s" for s
  proof -
    have "set s = UNIV"
      using that by (intro card_subset_eq) (simp_all add: table_ok_def distinct_card card_word)
    moreover have "set (map of_nat [0..<256] :: bytes) = UNIV"
      using start_table by (intro card_subset_eq) (simp_all add: table_ok_def distinct_card card_word del: set_map)
    ultimately show ?thesis using that start_table unfolding table_ok_def by (metis set_eq_iff_mset_eq_distinct)
  qed
  have "table_ok (fst (fold (ksa_step key) [0..<256] (map of_nat [0..<256], 0)))"
    by (rule ksa_table) (simp_all add: start_table)
  then show ?thesis by (auto simp: new_rc4_def simp del: mset_map intro!: perm apply_table)
qed

section \<open>Encryption and decryption\<close>

lemma apply_append:
  "apply_stream c (xs @ ys) = (let (c1, o1) = apply_stream c xs; (c2, o2) = apply_stream c1 ys in (c2, o1 @ o2))"
  by (induction xs arbitrary: c) (simp_all add: case_prod_unfold Let_def)

lemma apply_twice: "apply_stream c (snd (apply_stream c data)) = (fst (apply_stream c data), data)"
  by (induction data arbitrary: c) (simp_all add: case_prod_unfold Let_def xor.assoc)

text \<open>
  The interface of a cipher that both ends of a direction run in step: the state the packets so far left, and one packet's
  encryption, which is also its decryption. \<open>None\<close> is a panic.
\<close>

primrec crypt_all :: "('s \<Rightarrow> bytes \<Rightarrow> ('s \<times> bytes) option) \<Rightarrow> 's \<Rightarrow> bytes list \<Rightarrow> ('s \<times> bytes list) option" where
  "crypt_all crypt s [] = Some (s, [])"
| "crypt_all crypt s (p # ps) =
    Option.bind (crypt s p) (\<lambda>(s, out). map_option (\<lambda>(s, outs). (s, out # outs)) (crypt_all crypt s ps))"

locale stream_cipher =
  fixes crypt :: "'s \<Rightarrow> bytes \<Rightarrow> ('s \<times> bytes) option"
    and ready :: "'s \<Rightarrow> bool"
  assumes crypt_twice: "ready s \<Longrightarrow> \<exists>s' out. crypt s p = Some (s', out) \<and> crypt s out = Some (s', p) \<and> ready s'"
begin

lemma in_step:
  "ready s \<Longrightarrow> \<exists>s' outs. crypt_all crypt s packets = Some (s', outs) \<and> crypt_all crypt s outs = Some (s', packets) \<and> ready s'"
proof (induction packets arbitrary: s)
  case (Cons p ps)
  obtain t out where t: "crypt s p = Some (t, out)" "crypt s out = Some (t, p)" "ready t"
    using crypt_twice [OF Cons.prems] by blast
  obtain s' outs where "crypt_all crypt t ps = Some (s', outs)" "crypt_all crypt t outs = Some (s', ps)" "ready s'"
    using Cons.IH [OF t(3)] by blast
  then show ?case using t by (intro exI [of _ s'] exI [of _ "out # outs"]) simp
qed simp

end

interpretation plain_rc4: stream_cipher "\<lambda>c data. Some (apply_stream c data)" "\<lambda>c. table_ok (rc4_s c)"
  by unfold_locales (auto simp: apply_twice prod_eq_iff intro!: apply_table)

lemma crypt_all_concat:
  "crypt_all (\<lambda>c data. Some (apply_stream c data)) c ps = Some (c', outs) \<Longrightarrow>
   apply_stream c (concat ps) = (c', concat outs)"
proof (induction ps arbitrary: c c' outs)
  case (Cons p ps)
  obtain c1 o1 where o1: "apply_stream c p = (c1, o1)" by (cases "apply_stream c p")
  with Cons.prems obtain rest where "crypt_all (\<lambda>c data. Some (apply_stream c data)) c1 ps = Some (c', rest)" "outs = o1 # rest"
    by auto
  then show ?case using Cons.IH o1 by (simp add: apply_append)
qed simp

text \<open>
  A cipher in the state the encrypting one started in gives back every packet, in order, and both end in the same
  state; and packets may be cut otherwise on the way, since only the bytes count.
\<close>

lemma rc4_decrypts:
  assumes "crypt_all (\<lambda>c data. Some (apply_stream c data)) c texts = Some (c1, sealed)" "concat pieces = concat sealed"
    and "crypt_all (\<lambda>c data. Some (apply_stream c data)) c pieces = Some (c2, opened)"
  shows "c2 = c1 \<and> concat opened = concat texts"
proof -
  from crypt_all_concat [OF assms(1)] have "apply_stream c (concat sealed) = (c1, concat texts)"
    by (metis apply_twice fst_conv snd_conv)
  then show ?thesis using crypt_all_concat [OF assms(3)] assms(2) by simp
qed

theorem rc4_decrypts_witness:
  "\<exists>c c1 sealed opened. new_rc4 [1, 2, 3] = Some c \<and>
    crypt_all (\<lambda>c data. Some (apply_stream c data)) c [[7, 8], [9]] = Some (c1, sealed) \<and>
    crypt_all (\<lambda>c data. Some (apply_stream c data)) c [concat sealed] = Some (c1, opened) \<and>
    concat opened = [7, 8, 9]"
proof -
  obtain c where c: "new_rc4 [1, 2, 3] = Some c" by (simp add: new_rc4_def)
  obtain c1 sealed where s: "crypt_all (\<lambda>c data. Some (apply_stream c data)) c [[7, 8], [9]] = Some (c1, sealed)"
    by (simp add: case_prod_unfold)
  obtain c2 opened where "crypt_all (\<lambda>c data. Some (apply_stream c data)) c [concat sealed] = Some (c2, opened)"
    by (simp add: case_prod_unfold)
  with rc4_decrypts [OF s _ this] c s show ?thesis by auto
qed

end
