(* ===== verification/Keys.thy ===== *)
theory Keys
  imports Hashes Rc4
begin

text \<open>
  The keys of Standard RDP Security (\<open>keys.rs\<close>): derivation from the two randoms, the packet signature, and the cipher
  of one direction with its key update every 4096 packets. \<open>None\<close> is a panic: a slice out of range or RC4's assertion.
\<close>

definition METHOD_40BIT :: u32 where "METHOD_40BIT = 0x01"
definition METHOD_56BIT :: u32 where "METHOD_56BIT = 0x08"

record session_keys =
  mac_key :: bytes
  client_encrypt_key :: bytes
  server_decrypt_key :: bytes

definition salted_hash :: "bytes \<Rightarrow> bytes \<Rightarrow> bytes \<Rightarrow> bytes \<Rightarrow> bytes" where
  "salted_hash s i client_random server_random =
    md5 (s @ sha1 (i @ s @ client_random @ server_random))"

definition final_hash :: "bytes \<Rightarrow> bytes \<Rightarrow> bytes \<Rightarrow> bytes" where
  "final_hash k client_random server_random = md5 (k @ client_random @ server_random)"

definition adjust :: "u32 \<Rightarrow> bytes \<Rightarrow> bytes" where
  "adjust mthd key =
    (if mthd = METHOD_40BIT then take 8 (key[0 := 0xD1, 1 := 0x26, 2 := 0x9E])
     else if mthd = METHOD_56BIT then take 8 (key[0 := 0xD1])
     else key)"

text \<open>The byte strings \<open>A\<close>, \<open>BB\<close>, \<open>CCC\<close> and \<open>X\<close>, \<open>YY\<close>, \<open>ZZZ\<close>.\<close>

definition derive :: "bytes \<Rightarrow> bytes \<Rightarrow> u32 \<Rightarrow> session_keys option" where
  "derive client_random server_random mthd =
    Option.bind (slice_get client_random 0 24) (\<lambda>c. Option.bind (slice_get server_random 0 24) (\<lambda>s.
      (let pre_master = c @ s;
           master = concat (map (\<lambda>i. salted_hash pre_master i client_random server_random)
                      [[0x41], [0x42, 0x42], [0x43, 0x43, 0x43]]);
           blob = concat (map (\<lambda>i. salted_hash master i client_random server_random)
                    [[0x58], [0x59, 0x59], [0x5A, 0x5A, 0x5A]]);
           server_key = final_hash (take 16 (drop 16 blob)) client_random server_random;
           client_key = final_hash (take 16 (drop 32 blob)) client_random server_random
       in Some \<lparr> mac_key = take 16 blob, client_encrypt_key = adjust mthd client_key,
                 server_decrypt_key = adjust mthd server_key \<rparr>)))"

definition PAD1 :: bytes where "PAD1 = replicate 40 0x36"
definition PAD2 :: bytes where "PAD2 = replicate 48 0x5C"

definition mac_signature :: "bytes \<Rightarrow> bytes \<Rightarrow> bytes" where
  "mac_signature key data =
    (let sha = sha1 (key @ PAD1 @ u32_le (of_nat (length data)) @ data)
     in take 8 (md5 (key @ PAD2 @ sha)))"

text \<open>The salting of an updated key, which has the length of the initial one.\<close>

definition salt_key :: "u32 \<Rightarrow> bytes \<Rightarrow> bytes option" where
  "salt_key mthd new_key =
    (if mthd = METHOD_40BIT
     then if length new_key < 3 then None else Some (new_key[0 := 0xD1, 1 := 0x26, 2 := 0x9E])
     else if mthd = METHOD_56BIT
     then if length new_key < 1 then None else Some (new_key[0 := 0xD1])
     else Some new_key)"

definition update_session_key :: "bytes \<Rightarrow> bytes \<Rightarrow> u32 \<Rightarrow> bytes option" where
  "update_session_key initial current mthd =
    (let temp = md5 (initial @ PAD2 @ sha1 (initial @ PAD1 @ current))
     in Option.bind (slice_get temp 0 (length initial)) (\<lambda>key.
          Option.bind (new_rc4 key) (\<lambda>c. salt_key mthd (snd (apply_stream c key)))))"

definition KEY_UPDATE_INTERVAL :: u32 where "KEY_UPDATE_INTERVAL = 4096"

record session_cipher =
  cipher :: rc4
  initial_key :: bytes
  current_key :: bytes
  cipher_method :: u32
  packets_done :: u32

definition new_session_cipher :: "bytes \<Rightarrow> u32 \<Rightarrow> session_cipher option" where
  "new_session_cipher key mthd =
    map_option (\<lambda>c. \<lparr> cipher = c, initial_key = key, current_key = key, cipher_method = mthd, packets_done = 0 \<rparr>) (new_rc4 key)"

text \<open>The key update before a packet.\<close>

definition refresh :: "session_cipher \<Rightarrow> session_cipher option" where
  "refresh s =
    (if packets_done s \<ge> KEY_UPDATE_INTERVAL
     then Option.bind (update_session_key (initial_key s) (current_key s) (cipher_method s)) (\<lambda>k.
            map_option (\<lambda>c. s\<lparr>current_key := k, cipher := c, packets_done := 0\<rparr>) (new_rc4 k))
     else Some s)"

definition apply_packet :: "session_cipher \<Rightarrow> bytes \<Rightarrow> (session_cipher \<times> bytes) option" where
  "apply_packet s data =
    map_option (\<lambda>s. (case apply_stream (cipher s) data of (c, out) \<Rightarrow>
      (s\<lparr>cipher := c, packets_done := packets_done s + 1\<rparr>, out))) (refresh s)"

section \<open>Derived keys\<close>

text \<open>The length of a key by the method, and the salt at its front.\<close>

definition strong :: "u32 \<Rightarrow> bytes \<Rightarrow> bool" where
  "strong mthd key \<longleftrightarrow>
    (if mthd = METHOD_40BIT then length key = 8 \<and> take 3 key = [0xD1, 0x26, 0x9E]
     else if mthd = METHOD_56BIT then length key = 8 \<and> take 1 key = [0xD1]
     else length key = 16)"

lemma METHOD_distinct [simp]: "METHOD_40BIT \<noteq> METHOD_56BIT" "METHOD_56BIT \<noteq> METHOD_40BIT"
  by (simp_all add: METHOD_40BIT_def METHOD_56BIT_def)

lemma take_3: "3 \<le> length xs \<Longrightarrow> take 3 (xs[0 := a, Suc 0 := b, 2 := c]) = [a, b, c]"
  by (cases xs; cases "tl xs"; cases "tl (tl xs)") (auto simp: numeral_2_eq_2 numeral_3_eq_3)

lemma take_1: "0 < length xs \<Longrightarrow> take (Suc 0) (xs[0 := a]) = [a]"
  by (cases xs) auto

lemma adjust_strong: "length key = 16 \<Longrightarrow> strong mthd (adjust mthd key)"
  by (auto simp: strong_def adjust_def take_3 take_1 min_def)

text \<open>
  The derivation panics exactly for a random of fewer than 24 bytes; the signing key has 16 bytes, and both cipher keys
  have the length and the fixed first bytes of the strength the server selected.
\<close>

lemma derived_keys:
  "case derive client_random server_random mthd of
     None \<Rightarrow> length client_random < 24 \<or> length server_random < 24
   | Some k \<Rightarrow> 24 \<le> length client_random \<and> 24 \<le> length server_random \<and> length (mac_key k) = 16 \<and>
       strong mthd (client_encrypt_key k) \<and> strong mthd (server_decrypt_key k)"
  by (auto simp: derive_def slice_get_def salted_hash_def final_hash_def Let_def intro!: adjust_strong)

section \<open>The two ends of a direction\<close>

definition cipher_ok :: "session_cipher \<Rightarrow> bool" where
  "cipher_ok s \<longleftrightarrow> strong (cipher_method s) (initial_key s) \<and> length (current_key s) = length (initial_key s) \<and>
     packets_done s \<le> KEY_UPDATE_INTERVAL"

lemma strong_length: "strong mthd key \<Longrightarrow> 8 \<le> length key \<and> length key \<le> 16"
  by (auto simp: strong_def split: if_splits)

lemma new_rc4_Some: "key \<noteq> [] \<Longrightarrow> \<exists>c. new_rc4 key = Some c"
  by (simp add: new_rc4_def)

lemma length_apply_stream [simp]: "length (snd (apply_stream c data)) = length data"
  by (induction data arbitrary: c) (simp_all add: case_prod_unfold Let_def)

lemma update_session_key_ok:
  assumes "strong mthd initial"
  shows "\<exists>k. update_session_key initial current mthd = Some k \<and> length k = length initial \<and> strong mthd k"
proof -
  define temp where "temp = md5 (initial @ PAD2 @ sha1 (initial @ PAD1 @ current))"
  define key where "key = take (length initial) temp"
  note l = strong_length [OF assms]
  have key: "slice_get temp 0 (length initial) = Some key" "length key = length initial"
    using l by (simp_all add: key_def temp_def slice_get_def)
  then have "key \<noteq> []" using l by auto
  then obtain c where c: "new_rc4 key = Some c" using new_rc4_Some by blast
  have "update_session_key initial current mthd = salt_key mthd (snd (apply_stream c key))"
    by (simp add: update_session_key_def temp_def [symmetric] key(1) c Let_def)
  then show ?thesis using assms l key(2)
    by (auto simp: salt_key_def strong_def take_3 take_1)
qed

lemma refresh_ok: "cipher_ok s \<Longrightarrow> \<exists>s'. refresh s = Some s' \<and> cipher_ok s' \<and> packets_done s' < KEY_UPDATE_INTERVAL"
proof -
  assume ok: "cipher_ok s"
  show ?thesis
  proof (cases "packets_done s \<ge> KEY_UPDATE_INTERVAL")
    case True
    obtain k where k: "update_session_key (initial_key s) (current_key s) (cipher_method s) = Some k"
      "length k = length (initial_key s)"
      using update_session_key_ok ok unfolding cipher_ok_def by blast
    moreover have "k \<noteq> []" using k(2) ok strong_length unfolding cipher_ok_def by fastforce
    ultimately show ?thesis using True ok new_rc4_Some [of k]
      by (auto simp: refresh_def cipher_ok_def KEY_UPDATE_INTERVAL_def)
  qed (use ok in \<open>auto simp: refresh_def\<close>)
qed

lemma apply_packet_twice:
  assumes "cipher_ok s"
  shows "\<exists>s' out. apply_packet s p = Some (s', out) \<and> apply_packet s out = Some (s', p) \<and> cipher_ok s'"
proof -
  obtain t where t: "refresh s = Some t" "cipher_ok t" "packets_done t < KEY_UPDATE_INTERVAL" using refresh_ok [OF assms] by blast
  have "packets_done t + 1 \<le> KEY_UPDATE_INTERVAL" using t(3) by (rule inc_le)
  then show ?thesis using t by (simp add: apply_packet_def cipher_ok_def apply_twice case_prod_unfold)
qed

interpretation session: stream_cipher apply_packet cipher_ok
  by unfold_locales (rule apply_packet_twice)

lemma new_session_cipher_ok: "strong mthd key \<Longrightarrow> \<exists>s. new_session_cipher key mthd = Some s \<and> cipher_ok s"
proof -
  assume s: "strong mthd key"
  then have "key \<noteq> []" using strong_length by fastforce
  then obtain c where "new_rc4 key = Some c" using new_rc4_Some by blast
  then show ?thesis using s by (simp add: new_session_cipher_def cipher_ok_def)
qed



end
