(* ===== verification/Zgfx.thy ===== *)
theory Zgfx
  imports Prelude
begin

text \<open>
  ZGFX bulk decompression (\<open>zgfx.rs\<close>): segments of literals and matches over a ring of the last 2,500,000 bytes. The
  code finds each token by a table of 512 slots, takes bursts of literals from one peek, and feeds the ring late and in
  bulk. Token fields are small constants and are natural numbers here; \<open>remaining\<close> is a \<open>u32\<close> that only goes down,
  and a natural number too. A call that never returns is \<open>None\<close>; a malformed segment is the result \<open>None\<close> inside.
\<close>

definition SEGMENTED_SINGLE :: u8 where "SEGMENTED_SINGLE = 0xE0"
definition SEGMENTED_MULTIPART :: u8 where "SEGMENTED_MULTIPART = 0xE1"
definition PACKET_COMPRESSED :: u8 where "PACKET_COMPRESSED = 0x20"
definition HISTORY_SIZE :: nat where "HISTORY_SIZE = 2500000"
definition MAX_SEGMENT_OUTPUT :: nat where "MAX_SEGMENT_OUTPUT = 65536"

datatype token =
  Token (prefix_len: nat) (prefix_code: nat) (value_bits: nat) (token_type: nat) (value_base: nat)

definition TOKENS :: "token list" where
  "TOKENS = [
    Token 1 0 8 0 0,
    Token 5 17 5 1 0, Token 5 18 7 1 32, Token 5 19 9 1 160, Token 5 20 10 1 672, Token 5 21 12 1 1696,
    Token 5 24 0 0 0x00, Token 5 25 0 0 0x01,
    Token 6 44 14 1 5792, Token 6 45 15 1 22176,
    Token 6 52 0 0 0x02, Token 6 53 0 0 0x03, Token 6 54 0 0 0xFF,
    Token 7 92 18 1 54944, Token 7 93 20 1 317088,
    Token 7 110 0 0 0x04, Token 7 111 0 0 0x05, Token 7 112 0 0 0x06, Token 7 113 0 0 0x07,
    Token 7 114 0 0 0x08, Token 7 115 0 0 0x09, Token 7 116 0 0 0x0A, Token 7 117 0 0 0x0B,
    Token 7 118 0 0 0x3A, Token 7 119 0 0 0x3B, Token 7 120 0 0 0x3C, Token 7 121 0 0 0x3D,
    Token 7 122 0 0 0x3E, Token 7 123 0 0 0x3F, Token 7 124 0 0 0x40, Token 7 125 0 0 0x80,
    Token 8 188 20 1 1365664, Token 8 189 21 1 2414240,
    Token 8 252 0 0 0x0C, Token 8 253 0 0 0x38, Token 8 254 0 0 0x39, Token 8 255 0 0 0x66,
    Token 9 380 22 1 4511392, Token 9 381 23 1 8705696, Token 9 382 24 1 17094304]"

definition PREFIX_BITS :: nat where "PREFIX_BITS = 9"

datatype kind = KindInvalid | KindLiteral | KindMatch

datatype slot = Slot (slot_base: nat) (slot_len: nat) (slot_vbits: nat) (slot_kind: kind)

text \<open>The slot a token puts at an index of its range.\<close>

definition token_slot :: "token \<Rightarrow> nat \<Rightarrow> slot" where
  "token_slot tok idx =
    (let shift = PREFIX_BITS - prefix_len tok
     in if token_type tok = 0
        then Slot (value_base tok + (idx mod 2 ^ shift) div 2 ^ (shift - value_bits tok))
               (prefix_len tok + value_bits tok) 0 KindLiteral
        else Slot (value_base tok) (prefix_len tok) (value_bits tok) KindMatch)"

definition fill_token :: "token \<Rightarrow> slot list \<Rightarrow> slot list" where
  "fill_token tok table =
    (let shift = PREFIX_BITS - prefix_len tok; first = prefix_code tok * 2 ^ shift
     in fold (\<lambda>idx table. table[idx := token_slot tok idx]) [first..<first + 2 ^ shift] table)"

definition build_decode :: "slot list" where
  "build_decode = foldr fill_token TOKENS (replicate (2 ^ PREFIX_BITS) (Slot 0 0 0 KindInvalid))"

text \<open>\<open>Bits::word\<close>: the next 64 bits, the first one on top, zeros past the end.\<close>

definition word_at :: "bytes \<Rightarrow> nat \<Rightarrow> u64" where
  "word_at input bitpos =
    (let byte = bitpos div 8;
         b = take 8 (drop byte input)
     in push_bit (bitpos mod 8) (u64_of_be (b @ replicate (8 - length b) 0)))"

record zgfx =
  history :: bytes
  history_index :: nat

definition new_zgfx :: zgfx where
  "new_zgfx = \<lparr> history = replicate HISTORY_SIZE 0, history_index = 0 \<rparr>"

text \<open>\<open>data[a..a + xs.len()].copy_from_slice(xs)\<close>\<close>

definition copy_into :: "bytes \<Rightarrow> nat \<Rightarrow> bytes \<Rightarrow> bytes" where
  "copy_into data a xs = take a data @ xs @ drop (a + length xs) data"

definition history_write :: "zgfx \<Rightarrow> bytes \<Rightarrow> zgfx" where
  "history_write z src =
    (let n = length src; idx = history_index z in
     if n = 0 then z
     else if n \<ge> HISTORY_SIZE
     then (let tail = drop (n - HISTORY_SIZE) src;
               finish = (idx + n) mod HISTORY_SIZE;
               first_len = HISTORY_SIZE - finish
           in z\<lparr>history := copy_into (copy_into (history z) finish (take first_len tail)) 0 (drop first_len tail),
                history_index := finish\<rparr>)
     else (let first = min n (HISTORY_SIZE - idx)
           in z\<lparr>history := copy_into (copy_into (history z) idx (take first src)) 0 (drop first src),
                history_index := (idx + n) mod HISTORY_SIZE\<rparr>))"

text \<open>The doubling copy: \<open>made\<close> is what the match has produced so far.\<close>

partial_function (option) double_copy :: "nat \<Rightarrow> bytes \<Rightarrow> bytes option" where
  "double_copy count made =
    (if length made < count
     then double_copy count (made @ take (min (length made) (count - length made)) made)
     else Some made)"

definition match_into :: "zgfx \<Rightarrow> nat \<Rightarrow> nat \<Rightarrow> bytes \<Rightarrow> bytes option" where
  "match_into z distance count out =
    (if distance = 0 \<or> count = 0 then Some out
     else (let dist = distance mod HISTORY_SIZE;
               index = (history_index z + HISTORY_SIZE - dist) mod HISTORY_SIZE;
               first = min count dist;
               run1 = min first (HISTORY_SIZE - index);
               made = take run1 (drop index (history z)) @ take (first - run1) (history z)
           in map_option (\<lambda>made. out @ made) (double_copy count made)))"

record decoder =
  d_z :: zgfx
  d_pos :: nat
  d_rem :: nat
  d_out :: bytes
  d_synced :: nat

definition slot_at :: "u64 \<Rightarrow> nat \<Rightarrow> slot" where
  "slot_at w used = build_decode ! unat (drop_bit (64 - PREFIX_BITS) (push_bit used w))"

text \<open>The burst: up to \<open>m + 1\<close> literals from one peek, and the bits they took.\<close>

fun burst :: "u64 \<Rightarrow> nat \<Rightarrow> nat \<Rightarrow> slot \<Rightarrow> bytes \<times> nat" where
  "burst w 0 used s = ([of_nat (slot_base s)], used + slot_len s)"
| "burst w (Suc m) used s =
    (let used = used + slot_len s; s' = slot_at w used
     in if slot_kind s' \<noteq> KindLiteral then ([of_nat (slot_base s)], used)
        else (let (bs, u) = burst w m used s' in (of_nat (slot_base s) # bs, u)))"

definition leading_ones :: "u64 \<Rightarrow> nat" where
  "leading_ones w = length (takeWhile (bit w) (rev [0..<64]))"

text \<open>The length code: \<open>None\<close> where the code gives up, else the count and the bits read.\<close>

definition length_code :: "u64 \<Rightarrow> (nat \<times> nat) option" where
  "length_code w =
    (if drop_bit 63 w = 0 then Some (3, 1)
     else (let k = leading_ones (push_bit 1 w)
           in if k \<ge> 15 then None
              else (let extra = 2 + k;
                        bits = unat (drop_bit (64 - extra) (push_bit (2 + k) w))
                    in Some (4 * 2 ^ k + bits, 2 + k + extra))))"

text \<open>One turn of \<open>decode_tokens\<close>; the flag says whether to go on (else it returns \<open>None\<close>).\<close>

definition match_turn :: "bytes \<Rightarrow> nat \<Rightarrow> decoder \<Rightarrow> (decoder \<times> bool) option" where
  "match_turn input distance d =
    (case length_code (word_at input (d_pos d)) of
       None \<Rightarrow> Some (d, False)
     | Some (count, used) \<Rightarrow>
         (let d = d\<lparr>d_pos := d_pos d + used, d_rem := d_rem d - used\<rparr>
          in if count > MAX_SEGMENT_OUTPUT then Some (d, False)
             else (let d = d\<lparr>d_z := history_write (d_z d) (drop (d_synced d) (d_out d)), d_synced := length (d_out d)\<rparr>
                   in map_option (\<lambda>out. (d\<lparr>d_out := out\<rparr>, True)) (match_into (d_z d) distance count (d_out d)))))"

definition raw_turn :: "bytes \<Rightarrow> decoder \<Rightarrow> decoder \<times> bool" where
  "raw_turn input d =
    (let count = unat (drop_bit (64 - 15) (word_at input (d_pos d)));
         bitpos = d_pos d + 15;
         remaining = d_rem d - 15 - (8 - bitpos mod 8) mod 8;
         pos = min ((bitpos + 7) div 8) (length input)
     in case slice_get input pos (pos + count) of
          None \<Rightarrow> (d\<lparr>d_pos := bitpos, d_rem := remaining\<rparr>, False)
        | Some raw \<Rightarrow> (d\<lparr>d_pos := (pos + count) * 8, d_rem := remaining - 8 * count, d_out := d_out d @ raw\<rparr>, True))"

definition token_turn :: "bytes \<Rightarrow> nat \<Rightarrow> decoder \<Rightarrow> (decoder \<times> bool) option" where
  "token_turn input seg_start d =
    (if length (d_out d) - seg_start > MAX_SEGMENT_OUTPUT then Some (d, False)
     else
       (let w = word_at input (d_pos d); s = slot_at w 0
        in case slot_kind s of
             KindLiteral \<Rightarrow>
               if d_rem d \<ge> 6 * PREFIX_BITS \<and> length (d_out d) - seg_start + 5 \<le> MAX_SEGMENT_OUTPUT
               then (let (bs, used) = burst w 5 0 s
                     in Some (d\<lparr>d_out := d_out d @ bs, d_pos := d_pos d + used, d_rem := d_rem d - used\<rparr>, True))
               else Some (d\<lparr>d_pos := d_pos d + slot_len s, d_rem := d_rem d - slot_len s,
                            d_out := d_out d @ [of_nat (slot_base s)]\<rparr>, True)
           | KindInvalid \<Rightarrow> Some (d, False)
           | KindMatch \<Rightarrow>
               (let used = slot_len s + slot_vbits s;
                    distance = slot_base s + unat (drop_bit (64 - slot_vbits s) (push_bit (slot_len s) w));
                    d = d\<lparr>d_pos := d_pos d + used, d_rem := d_rem d - used\<rparr>
                in if distance \<noteq> 0 then match_turn input distance d else Some (raw_turn input d))))"

section \<open>The ring as the end of a list\<close>

text \<open>
  \<open>H\<close> is all that went into the ring since it was made, and before it there are zeros: \<open>ago H d\<close> is the byte \<open>d\<close>
  before the end, \<open>window H\<close> the last \<open>HISTORY_SIZE\<close> bytes.
\<close>

definition ago :: "bytes \<Rightarrow> nat \<Rightarrow> u8" where
  "ago H d = (if d \<le> length H then H ! (length H - d) else 0)"

definition window :: "bytes \<Rightarrow> bytes" where
  "window H = drop (length H) (replicate HISTORY_SIZE 0 @ H)"

definition ring_ok :: "zgfx \<Rightarrow> bytes \<Rightarrow> bool" where
  "ring_ok z H \<longleftrightarrow> length (history z) = HISTORY_SIZE \<and> history_index z < HISTORY_SIZE \<and>
     drop (history_index z) (history z) @ take (history_index z) (history z) = window H"

lemma HISTORY_SIZE_pos: "0 < HISTORY_SIZE"
  by (simp add: HISTORY_SIZE_def)

lemma length_window [simp]: "length (window H) = HISTORY_SIZE"
  by (simp add: window_def)

lemma window_nth: "i < HISTORY_SIZE \<Longrightarrow> window H ! i = ago H (HISTORY_SIZE - i)"
proof -
  assume i: "i < HISTORY_SIZE"
  have "length H - HISTORY_SIZE + i - (HISTORY_SIZE - length H) = length H + i - HISTORY_SIZE"
    if "HISTORY_SIZE - length H \<le> i" using that i by arith
  then show ?thesis using i by (auto simp: window_def ago_def nth_append)
qed

lemma window_append: "length src \<le> HISTORY_SIZE \<Longrightarrow> window (H @ src) = drop (length src) (window H) @ src"
proof -
  assume "length src \<le> HISTORY_SIZE"
  then have "length H + length src - HISTORY_SIZE = length H - HISTORY_SIZE + (length src - (HISTORY_SIZE - length H))"
    by arith
  then show ?thesis using \<open>length src \<le> HISTORY_SIZE\<close> by (simp add: window_def add.commute)
qed

lemma window_long: "HISTORY_SIZE \<le> length src \<Longrightarrow> window (H @ src) = drop (length src - HISTORY_SIZE) src"
  by (simp add: window_def)

lemma ring_new: "ring_ok new_zgfx []"
  using HISTORY_SIZE_pos by (simp add: ring_ok_def new_zgfx_def window_def)

lemma history_write_ok:
  assumes ok: "ring_ok z H"
  shows "ring_ok (history_write z src) (H @ src)"
proof -
  define n idx h where "n = length src" and "idx = history_index z" and "h = history z"
  have z: "length h = HISTORY_SIZE" "idx < HISTORY_SIZE" "drop idx h @ take idx h = window H"
    using ok by (simp_all add: ring_ok_def idx_def h_def)
  consider "n = 0" | "0 < n" "HISTORY_SIZE \<le> n" | "0 < n" "idx + n < HISTORY_SIZE"
    | "0 < n" "n < HISTORY_SIZE" "HISTORY_SIZE \<le> idx + n" by linarith
  then show ?thesis
  proof cases
    case 1
    then show ?thesis using ok by (simp add: history_write_def n_def)
  next
    case 2
    define e where "e = (idx + n) mod HISTORY_SIZE"
    have e: "e < HISTORY_SIZE" using HISTORY_SIZE_pos by (simp add: e_def)
    define tail where "tail = drop (n - HISTORY_SIZE) src"
    have tl: "length tail = HISTORY_SIZE" using 2 by (simp add: tail_def n_def)
    have "history_write z src = z\<lparr>history := copy_into (copy_into h e (take (HISTORY_SIZE - e) tail)) 0 (drop (HISTORY_SIZE - e) tail),
        history_index := e\<rparr>"
      using 2 by (simp add: history_write_def n_def [symmetric] idx_def [symmetric] h_def [symmetric] e_def [symmetric] tail_def [symmetric] Let_def)
    moreover have "window (H @ src) = tail" using 2 by (simp add: window_long tail_def n_def)
    ultimately show ?thesis using z(1) e tl by (simp add: ring_ok_def copy_into_def)
  next
    case 3
    have "history_write z src = z\<lparr>history := take idx h @ src @ drop (idx + n) h, history_index := idx + n\<rparr>"
      using 3 by (simp add: history_write_def n_def [symmetric] idx_def [symmetric] h_def [symmetric] copy_into_def Let_def)
    moreover have "window (H @ src) = drop (idx + n) h @ take idx h @ src"
      using 3 z by (simp add: window_append n_def [symmetric] z(3) [symmetric] add.commute)
    ultimately show ?thesis using z 3 by (simp add: ring_ok_def n_def)
  next
    case 4
    define first idx' where "first = HISTORY_SIZE - idx" and "idx' = idx + n - HISTORY_SIZE"
    have "(idx + n) mod HISTORY_SIZE = idx'" using 4 z(2) by (simp add: idx'_def le_mod_geq)
    moreover have "min n first = first" using 4 by (simp add: first_def)
    ultimately have "history_write z src = z\<lparr>history := drop first src @ drop idx' (take idx h @ take first src), history_index := idx'\<rparr>"
      using 4 z(1,2) by (simp add: history_write_def n_def [symmetric] idx_def [symmetric] h_def [symmetric] copy_into_def Let_def first_def [symmetric] idx'_def [symmetric])
        (simp add: first_def idx'_def n_def add.commute)
    moreover have "window (H @ src) = drop idx' (take idx h) @ src"
      using 4 z by (simp add: window_append n_def [symmetric] z(3) [symmetric] idx'_def add.commute)
    moreover have "length (drop first src) = idx'" "idx' \<le> idx" "n = first + idx'" using 4 z(2) by (simp_all add: first_def idx'_def n_def)
    ultimately show ?thesis using z 4 by (simp add: ring_ok_def n_def [symmetric] first_def)
  qed
qed

section \<open>Overlapping copies\<close>

primrec lz_copy :: "nat \<Rightarrow> nat \<Rightarrow> bytes \<Rightarrow> bytes" where
  "lz_copy 0 d H = []"
| "lz_copy (Suc n) d H = (let b = ago H d in b # lz_copy n d (H @ [b]))"

lemma length_lz_copy [simp]: "length (lz_copy n d H) = n"
  by (induction n arbitrary: H) (simp_all add: Let_def)

lemma lz_copy_nth: "0 < d \<Longrightarrow> i < n \<Longrightarrow> lz_copy n d H ! i = ago H (d - i mod d)"
proof (induction n arbitrary: H i)
  case (Suc n)
  show ?case
  proof (cases i)
    case (Suc j)
    define b where "b = ago H d"
    have bk: "ago (H @ [b]) e = (if e = 1 then b else ago H (e - 1))" if "0 < e" for e
      using that by (auto simp: ago_def nth_append)
    have "lz_copy (Suc n) d H ! i = ago (H @ [b]) (d - j mod d)"
      using Suc.IH [of j "H @ [b]"] Suc.prems Suc by (simp add: b_def Let_def)
    also have "\<dots> = ago H (d - i mod d)"
    proof (cases "d - j mod d = 1")
      case True
      then have "j mod d = d - 1" using Suc.prems(1) by (metis One_nat_def Suc_pred diff_Suc_1 diff_diff_cancel less_imp_le_nat mod_less_divisor)
      then have "i mod d = 0" using Suc Suc.prems(1) by (simp add: mod_Suc)
      then show ?thesis using True bk by (simp add: b_def)
    next
      case False
      have "j mod d < d" using Suc.prems(1) by simp
      then have "i mod d = Suc (j mod d)" using False Suc by (simp add: mod_Suc)
      then show ?thesis using bk [of "d - j mod d"] \<open>j mod d < d\<close> False by simp
    qed
    finally show ?thesis .
  qed (simp add: Let_def)
qed simp

text \<open>What a doubling copy of a buffer that repeats with period \<open>d\<close> ends with.\<close>

lemma double_copy_repeats:
  assumes "0 < d" "d dvd length made \<or> count \<le> length made" "0 < length made \<or> count = 0" "length made \<le> count"
    and "\<forall>i < length made. made ! i = f (i mod d)"
  shows "double_copy count made = Some (map (\<lambda>i. f (i mod d)) [0..<count])"
  using assms(2-)
proof (induction "count - length made" arbitrary: made rule: less_induct)
  case less
  show ?case
  proof (cases "length made < count")
    case False
    then have "length made = count" using less.prems(3) by simp
    then have "made = map (\<lambda>i. f (i mod d)) [0..<count]" using less.prems(4) by (intro nth_equalityI) simp_all
    then show ?thesis using False by (subst double_copy.simps) simp
  next
    case True
    then have dv: "d dvd length made" and pos: "0 < length made" using less.prems(1,2) by auto
    define n where "n = min (length made) (count - length made)"
    define made2 where "made2 = made @ take n made"
    have len: "length made2 = length made + n" "n \<le> length made" "0 < n" "length made + n \<le> count"
      using True pos by (simp_all add: made2_def n_def)
    have "d dvd length made2 \<or> count \<le> length made2"
      using dv len by (auto simp: n_def min_def split: if_splits)
    moreover have "\<forall>i < length made2. made2 ! i = f (i mod d)"
    proof (intro allI impI)
      fix i assume "i < length made2"
      moreover have "(i - length made) mod d = i mod d" if "length made \<le> i"
      proof -
        obtain q where "length made = d * q" using dv by (rule dvdE)
        then show ?thesis using that mod_mult_self2 [of "i - d * q" d q] by simp
      qed
      ultimately show "made2 ! i = f (i mod d)" using less.prems(4) len(2) by (auto simp: made2_def nth_append)
    qed
    ultimately have "double_copy count made2 = Some (map (\<lambda>i. f (i mod d)) [0..<count])"
      using less.hyps [of made2] len True by simp
    then show ?thesis using True by (subst double_copy.simps) (simp add: made2_def n_def)
  qed
qed

text \<open>A loop that has produced nothing never will.\<close>

lemma double_copy_empty: "0 < count \<Longrightarrow> double_copy count [] = None"
proof -
  have "0 < n \<longrightarrow> made \<noteq> []" if ret: "double_copy n made = Some r" for n made r
  proof (rule double_copy.raw_induct [where P = "\<lambda>n made r. 0 < n \<longrightarrow> made \<noteq> []", OF _ ret])
    fix f :: "nat \<Rightarrow> bytes \<Rightarrow> bytes option" and n made r
    assume "\<And>n made r. f n made = Some r \<Longrightarrow> 0 < n \<longrightarrow> made \<noteq> []"
      and "(if length made < n then f n (made @ take (min (length made) (n - length made)) made) else Some made) = Some r"
    then show "0 < n \<longrightarrow> made \<noteq> []" by fastforce
  qed
  then show "0 < count \<Longrightarrow> double_copy count [] = None" by (cases "double_copy count []") auto
qed

text \<open>The match as the code computes it is the copy byte by byte, except where the distance is a multiple of the ring's size.\<close>

lemma match_into_ok:
  assumes ok: "ring_ok z H" and d: "0 < distance" and c: "0 < count"
  shows "match_into z distance count out =
    (if distance mod HISTORY_SIZE = 0 then None else Some (out @ lz_copy count (distance mod HISTORY_SIZE) H))"
proof -
  define dist idx h where "dist = distance mod HISTORY_SIZE" and "idx = history_index z" and "h = history z"
  have z: "length h = HISTORY_SIZE" "idx < HISTORY_SIZE" "drop idx h @ take idx h = window H"
    using ok by (simp_all add: ring_ok_def idx_def h_def)
  have dist: "dist < HISTORY_SIZE" using HISTORY_SIZE_pos by (simp add: dist_def)
  define index where "index = (idx + HISTORY_SIZE - dist) mod HISTORY_SIZE"
  define first where "first = min count dist"
  define run1 where "run1 = min first (HISTORY_SIZE - index)"
  define made where "made = take run1 (drop index h) @ take (first - run1) h"
  have step: "match_into z distance count out = map_option (\<lambda>made. out @ made) (double_copy count made)"
    using d c by (simp add: match_into_def dist_def [symmetric] idx_def [symmetric] h_def [symmetric]
        index_def [symmetric] first_def [symmetric] run1_def [symmetric] made_def [symmetric] Let_def)
  show ?thesis
  proof (cases "dist = 0")
    case True
    then have "made = []" by (simp add: made_def first_def run1_def)
    then show ?thesis using step True c by (simp add: dist_def [symmetric] double_copy_empty)
  next
    case False
    have index: "index = (if dist \<le> idx then idx - dist else idx + HISTORY_SIZE - dist)"
      using False dist z(2) by (auto simp: index_def le_mod_geq)
    have cyc: "h ! ((index + i) mod HISTORY_SIZE) = ago H (dist - i)" if "i < dist" for i
    proof -
      have "ago H (dist - i) = window H ! (HISTORY_SIZE - dist + i)" using that dist by (subst window_nth) simp_all
      also have "\<dots> = h ! ((index + i) mod HISTORY_SIZE)"
        using that dist z(1,2) by (auto simp: z(3) [symmetric] nth_append index le_mod_geq ac_simps)
      finally show ?thesis by simp
    qed
    have made: "length made = first" "\<forall>i < first. made ! i = ago H (dist - i)"
    proof -
      have i: "index < HISTORY_SIZE" "first \<le> dist" using HISTORY_SIZE_pos by (simp_all add: index_def first_def)
      then show "length made = first" using z(1) dist by (auto simp: made_def run1_def min_def)
      show "\<forall>i < first. made ! i = ago H (dist - i)"
      proof (intro allI impI)
        fix j assume j: "j < first"
        then have "made ! j = h ! ((index + j) mod HISTORY_SIZE)"
          using i z(1) dist by (auto simp: made_def run1_def nth_append min_def le_mod_geq ac_simps)
        then show "made ! j = ago H (dist - j)" using cyc [of j] j i(2) by simp
      qed
    qed
    have "double_copy count made = Some (map (\<lambda>i. ago H (dist - i mod dist)) [0..<count])"
      using False c made by (intro double_copy_repeats) (auto simp: first_def min_def)
    moreover have "map (\<lambda>i. ago H (dist - i mod dist)) [0..<count] = lz_copy count dist H"
      using False by (intro nth_equalityI) (simp_all add: lz_copy_nth)
    ultimately show ?thesis using step False by (simp add: dist_def [symmetric])
  qed
qed

section \<open>Bits of the stream\<close>

text \<open>Bit \<open>p\<close> of the input, the first bit of a byte on top, zeros past the end; and the number of \<open>n\<close> bits from \<open>p\<close> on.\<close>

definition sbit :: "bytes \<Rightarrow> nat \<Rightarrow> bool" where
  "sbit input p \<longleftrightarrow> p div 8 < length input \<and> bit (input ! (p div 8)) (7 - p mod 8)"

primrec peek :: "bytes \<Rightarrow> nat \<Rightarrow> nat \<Rightarrow> nat" where
  "peek input p 0 = 0"
| "peek input p (Suc n) = 2 * peek input p n + of_bool (sbit input (p + n))"

lemma bit_peek: "bit (peek input p n) m \<longleftrightarrow> m < n \<and> sbit input (p + n - 1 - m)"
proof (induction n arbitrary: m)
  case (Suc n)
  show ?case
  proof (cases m)
    case 0
    then show ?thesis by (simp add: bit_0)
  next
    case (Suc k)
    then show ?thesis using Suc.IH [of k] by (auto simp: bit_Suc)
  qed
qed simp

lemma peek_less: "peek input p n < 2 ^ n"
  by (induction n) auto

lemma peek_add: "peek input p (a + b) = peek input p a * 2 ^ b + peek input (p + a) b"
  by (induction b) (simp_all add: add.assoc)

lemma peek_mod: "peek input p (a + b) mod 2 ^ b = peek input (p + a) b" "peek input p (a + b) div 2 ^ b = peek input p a"
  using peek_less [of input "p + a" b] by (simp_all add: peek_add)

lemma bit_le_to_nat: "bit (le_to_nat bs) i \<longleftrightarrow> i div 8 < length bs \<and> bit (bs ! (i div 8)) (i mod 8)"
proof (induction bs arbitrary: i)
  case (Cons b bs)
  have e: "le_to_nat (b # bs) = unat b OR push_bit 8 (le_to_nat bs)"
  proof -
    have t: "take_bit 8 (unat b) = unat b" using unat_bound_u8 [of b] by (simp add: take_bit_nat_eq_self)
    have "take_bit 8 (unat b) AND push_bit 8 (le_to_nat bs) = 0"
      by (rule bit_eqI) (auto simp: bit_and_iff bit_take_bit_iff bit_push_bit_iff)
    then have "unat b AND push_bit 8 (le_to_nat bs) = 0" by (simp only: t)
    then show ?thesis using disjunctive_add_eq_or [of "unat b" "push_bit 8 (le_to_nat bs)"] by (simp add: push_bit_eq_mult mult.commute)
  qed
  have b: "bit (unat b) i \<longleftrightarrow> i < 8 \<and> bit b i" by (auto simp: bit_unsigned_iff dest: bit_imp_le_length)
  show ?case
  proof (cases "i < 8")
    case True
    then show ?thesis by (simp only: e bit_or_iff bit_push_bit_iff b) simp
  next
    case False
    then have "i div 8 = Suc ((i - 8) div 8)" "i mod 8 = (i - 8) mod 8" by (simp_all add: le_div_geq le_mod_geq)
    then show ?thesis using False Cons.IH [of "i - 8"] by (simp only: e bit_or_iff bit_push_bit_iff b) simp
  qed
qed simp

lemma bit_push_u64: "m \<le> n \<Longrightarrow> n \<le> 63 \<Longrightarrow> bit (push_bit m (w :: u64)) n \<longleftrightarrow> bit w (n - m)"
  by (simp add: bit_push_bit_iff)

lemma bit_word_at:
  assumes j: "j \<le> 56"
  shows "bit (word_at input pos) (63 - j) \<longleftrightarrow> sbit input (pos + j)"
proof -
  define b where "b = take 8 (drop (pos div 8) input)"
  define bs where "bs = b @ replicate (8 - length b) 0"
  define q where "q = pos mod 8 + j"
  have len: "length b = min 8 (length input - pos div 8)" "length bs = 8" by (simp_all add: bs_def b_def)
  have q: "q \<le> 63" "pos + j = 8 * (pos div 8) + q" using j by (simp_all add: q_def)
  have pq: "(pos + j) div 8 = pos div 8 + q div 8" "(pos + j) mod 8 = q mod 8" unfolding q(2) by simp_all
  have "63 - (8 * a + c) = 8 * (7 - a) + (7 - c)" if "a < 8" "c < 8" for a c :: nat using that by simp
  from this [of "q div 8" "q mod 8"] have e: "63 - q = 8 * (7 - q div 8) + (7 - q mod 8)" using q(1) by simp
  have dm: "(8 * a + r) div 8 = a" "(8 * a + r) mod 8 = r" if "r < 8" for a r :: nat using that by simp_all
  have rq: "(63 - q) div 8 = 7 - q div 8" "(63 - q) mod 8 = 7 - q mod 8" "q div 8 < 8"
    unfolding e using q(1) dm(1) [of "7 - q mod 8"] dm(2) [of "7 - q mod 8"] by (simp_all only: less_Suc_eq_le)
  have "bit (word_at input pos) (63 - j) \<longleftrightarrow> bit (u64_of_be bs) (63 - q)"
  proof -
    have "word_at input pos = push_bit (pos mod 8) (u64_of_be bs)" by (simp only: word_at_def bs_def b_def Let_def)
    moreover have "pos mod 8 \<le> 63 - j" "63 - j - pos mod 8 = 63 - q" using q(1) by (simp_all add: q_def)
    ultimately show ?thesis by (simp only: bit_push_u64 diff_le_self)
  qed
  also have "\<dots> \<longleftrightarrow> bit (le_to_nat (rev bs)) (63 - q)"
  proof -
    have "63 - q < 64" by simp
    then show ?thesis by (simp only: u64_of_be_def u64_of_le_def bit_of_nat_iff) simp
  qed
  also have "\<dots> \<longleftrightarrow> bit (bs ! (q div 8)) (7 - q mod 8)"
  proof -
    have "rev bs ! (7 - q div 8) = bs ! (q div 8)" "7 - q div 8 < 8" using rq(3) len(2) by (simp_all add: rev_nth)
    then show ?thesis using rq len(2) by (simp add: bit_le_to_nat)
  qed
  also have "\<dots> \<longleftrightarrow> sbit input (pos + j)"
  proof (cases "pos div 8 + q div 8 < length input")
    case True
    then have "bs ! (q div 8) = input ! (pos div 8 + q div 8)"
      using rq(3) len(1) by (simp add: bs_def nth_append b_def less_diff_conv add.commute)
    then show ?thesis using True by (simp add: sbit_def pq)
  next
    case False
    then have "\<not> q div 8 < length b" unfolding len(1) by linarith
    moreover from this have "q div 8 - length b < 8 - length b" using rq(3) by linarith
    ultimately have "bs ! (q div 8) = 0" unfolding bs_def by (simp add: nth_append)
    then show ?thesis using False by (simp add: sbit_def pq)
  qed
  finally show ?thesis .
qed

lemma peek_word:
  assumes "u + n \<le> 57"
  shows "unat (drop_bit (64 - n) (push_bit u (word_at input pos))) = peek input (pos + u) n"
proof (rule bit_eqI)
  fix m
  have "bit (word_at input pos) (63 - (u + n - 1 - m)) \<longleftrightarrow> sbit input (pos + (u + n - 1 - m))" if "m < n"
    using assms that by (intro bit_word_at) simp
  moreover have "64 - n + m - u = 63 - (u + n - 1 - m)" "pos + (u + n - 1 - m) = pos + u + n - 1 - m" if "m < n"
    using assms that by simp_all
  ultimately show "bit (unat (drop_bit (64 - n) (push_bit u (word_at input pos)))) m \<longleftrightarrow> bit (peek input (pos + u) n) m"
    using assms by (auto simp: bit_unsigned_iff bit_drop_bit_eq bit_push_bit_iff bit_peek dest: bit_imp_le_length)
qed

section \<open>The table and the tokens\<close>

text \<open>The reference: the first token whose prefix the stream starts with.\<close>

definition token_at :: "bytes \<Rightarrow> nat \<Rightarrow> token option" where
  "token_at input p = find (\<lambda>t. peek input p (prefix_len t) = prefix_code t) TOKENS"

definition token_wf :: "token \<Rightarrow> bool" where
  "token_wf t \<longleftrightarrow> 1 \<le> prefix_len t \<and> prefix_len t \<le> PREFIX_BITS \<and> value_bits t \<le> 24 \<and>
     (token_type t = 0 \<longrightarrow> prefix_len t + value_bits t \<le> PREFIX_BITS)"

lemma tokens_wf: "t \<in> set TOKENS \<Longrightarrow> token_wf t"
proof -
  have "list_all token_wf TOKENS" by (simp add: TOKENS_def token_wf_def PREFIX_BITS_def)
  then show "t \<in> set TOKENS \<Longrightarrow> token_wf t" by (simp add: list_all_iff)
qed

lemma token_atD: "token_at input p = Some t \<Longrightarrow> token_wf t \<and> peek input p (prefix_len t) = prefix_code t"
  by (auto simp: token_at_def find_Some_iff intro!: tokens_wf)

lemma fold_update_nth:
  "j < length table \<Longrightarrow> fold (\<lambda>i table. table[i := f i]) is table ! j = (if j \<in> set is then f j else table ! j)"
  by (induction "is" arbitrary: table) (auto simp: nth_list_update)

lemma length_fold_update [simp]: "length (fold (\<lambda>i table. table[i := f i]) is table) = length table"
  by (induction "is" arbitrary: table) simp_all

lemma block_div:
  assumes "0 < (b :: nat)"
  shows "j \<in> {c * b..<c * b + b} \<longleftrightarrow> j div b = c"
  using assms div_times_less_eq_dividend [of j b] dividend_less_div_times [OF assms, of j]
  by (auto intro: div_nat_eqI simp: mult.commute)

lemma fill_token_nth:
  assumes "j < length table"
  shows "fill_token t table ! j = (if j div 2 ^ (PREFIX_BITS - prefix_len t) = prefix_code t then token_slot t j else table ! j)"
proof -
  define s where "s = PREFIX_BITS - prefix_len t"
  have "j \<in> {prefix_code t * 2 ^ s..<prefix_code t * 2 ^ s + 2 ^ s} \<longleftrightarrow> j div 2 ^ s = prefix_code t"
    by (rule block_div) simp
  then show ?thesis using assms by (simp add: fill_token_def s_def [symmetric] fold_update_nth Let_def)
qed

lemma length_foldr_fill [simp]: "length (foldr fill_token ts table) = length table"
  by (induction ts) (simp_all add: fill_token_def Let_def)

lemma foldr_fill_nth:
  "j < length table \<Longrightarrow> foldr fill_token ts table ! j =
    (case find (\<lambda>t. j div 2 ^ (PREFIX_BITS - prefix_len t) = prefix_code t) ts of Some t \<Rightarrow> token_slot t j | None \<Rightarrow> table ! j)"
  by (induction ts) (simp_all add: fill_token_nth)

lemma slot_at_token:
  assumes "u + PREFIX_BITS \<le> 57"
  shows "slot_at (word_at input pos) u =
    (case token_at input (pos + u) of Some t \<Rightarrow> token_slot t (peek input (pos + u) PREFIX_BITS) | None \<Rightarrow> Slot 0 0 0 KindInvalid)"
proof -
  define j where "j = peek input (pos + u) PREFIX_BITS"
  have j: "j < 2 ^ PREFIX_BITS" unfolding j_def by (rule peek_less)
  have "slot_at (word_at input pos) u = build_decode ! j"
    using peek_word [OF assms] by (simp add: slot_at_def j_def)
  also have "\<dots> = (case find (\<lambda>t. j div 2 ^ (PREFIX_BITS - prefix_len t) = prefix_code t) TOKENS of
      Some t \<Rightarrow> token_slot t j | None \<Rightarrow> Slot 0 0 0 KindInvalid)"
    unfolding build_decode_def using j by (subst foldr_fill_nth) (simp_all split: option.splits)
  also have "find (\<lambda>t. j div 2 ^ (PREFIX_BITS - prefix_len t) = prefix_code t) TOKENS = token_at input (pos + u)"
    unfolding token_at_def
  proof (rule find_cong [OF refl])
    fix t assume "t \<in> set TOKENS"
    then have "prefix_len t + (PREFIX_BITS - prefix_len t) = PREFIX_BITS" using tokens_wf by (auto simp: token_wf_def)
    then have "j div 2 ^ (PREFIX_BITS - prefix_len t) = peek input (pos + u) (prefix_len t)"
      using peek_mod(2) [of input "pos + u" "prefix_len t" "PREFIX_BITS - prefix_len t"] by (simp add: j_def)
    then show "(j div 2 ^ (PREFIX_BITS - prefix_len t) = prefix_code t) = (peek input (pos + u) (prefix_len t) = prefix_code t)" by simp
  qed
  finally show ?thesis by (simp only: j_def)
qed

lemma literal_slot:
  assumes "token_wf t" "token_type t = 0"
  shows "token_slot t (peek input p PREFIX_BITS) =
    Slot (value_base t + peek input (p + prefix_len t) (value_bits t)) (prefix_len t + value_bits t) 0 KindLiteral"
proof -
  define s where "s = PREFIX_BITS - prefix_len t"
  have s: "PREFIX_BITS = prefix_len t + s" "s = value_bits t + (s - value_bits t)"
    using assms by (simp_all add: token_wf_def s_def)
  have "peek input p PREFIX_BITS mod 2 ^ s = peek input (p + prefix_len t) s" by (subst s(1)) (rule peek_mod)
  also have "\<dots> div 2 ^ (s - value_bits t) = peek input (p + prefix_len t) (value_bits t)"
    by (subst s(2)) (rule peek_mod)
  finally show ?thesis using assms(2) by (simp add: token_slot_def s_def)
qed

lemma match_slot: "token_type t \<noteq> 0 \<Longrightarrow> token_slot t j = Slot (value_base t) (prefix_len t) (value_bits t) KindMatch"
  by (simp add: token_slot_def)

section \<open>Length codes\<close>

text \<open>The ones before the next zero, of which the code takes at most 14.\<close>

definition ones_at :: "bytes \<Rightarrow> nat \<Rightarrow> nat" where
  "ones_at input p = length (takeWhile (\<lambda>i. sbit input (p + i)) [0..<15])"

definition ref_length :: "bytes \<Rightarrow> nat \<Rightarrow> (nat \<times> nat) option" where
  "ref_length input p =
    (if \<not> sbit input p then Some (3, 1)
     else (let k = ones_at input (p + 1)
           in if k = 15 then None else Some (4 * 2 ^ k + peek input (p + 2 + k) (2 + k), 2 + k + (2 + k))))"

lemma rev_upt_map: "rev [0..<64] = map (\<lambda>j. 63 - j) [0..<64 :: nat]"
  by (intro nth_equalityI) (simp_all add: rev_nth)

lemma takeWhile_prefix:
  assumes "\<And>i. i < m \<Longrightarrow> P i = Q i" "m \<le> n"
  shows "min m (length (takeWhile P [0..<n])) = length (takeWhile Q [0..<m])"
proof -
  have split: "[0..<n] = [0..<m] @ [m..<n]" using upt_add_eq_append [of 0 m "n - m"] assms(2) by simp
  have q: "takeWhile Q [0..<m] = takeWhile P [0..<m]" using assms(1) by (intro takeWhile_cong) auto
  show ?thesis
  proof (cases "\<forall>i < m. P i")
    case True
    then have "takeWhile P [0..<n] = [0..<m] @ takeWhile P [m..<n]" unfolding split by (subst takeWhile_append2) auto
    moreover have "takeWhile P [0..<m] = [0..<m]" using True by (simp add: takeWhile_eq_all_conv)
    then have "length (takeWhile P [0..<m]) = m" by (metis length_upt diff_zero)
    ultimately show ?thesis unfolding q by simp
  next
    case False
    then obtain i where "i \<in> set [0..<m]" "\<not> P i" by auto
    then have "takeWhile P [0..<n] = takeWhile P [0..<m]" unfolding split by (rule takeWhile_append1)
    then show ?thesis unfolding q using length_takeWhile_le [of P "[0..<m]"] by simp
  qed
qed

lemma ones_at_le: "ones_at input p \<le> 15"
  using length_takeWhile_le [of _ "[0..<15]"] by (simp add: ones_at_def)

lemma leading_ones_at: "min 15 (leading_ones (push_bit 1 (word_at input p))) = ones_at input (p + 1)"
proof -
  let ?w = "push_bit 1 (word_at input p)"
  have "leading_ones ?w = length (takeWhile (\<lambda>j. bit ?w (63 - j)) [0..<64])"
    by (simp only: leading_ones_def rev_upt_map takeWhile_map length_map comp_def)
  moreover have "bit ?w (63 - j) \<longleftrightarrow> sbit input (p + 1 + j)" if "j < 15" for j
  proof -
    have "1 \<le> 63 - j" "63 - j - 1 = 63 - (j + 1)" "p + (j + 1) = p + 1 + j" "j + 1 \<le> 56" using that by simp_all
    then show ?thesis using bit_word_at [of "j + 1" input p] by (simp only: bit_push_u64 diff_le_self)
  qed
  ultimately show ?thesis using takeWhile_prefix [of 15 "\<lambda>j. bit ?w (63 - j)" "\<lambda>j. sbit input (p + 1 + j)" 64]
    by (simp only: ones_at_def)
qed

lemma top_bit: "drop_bit 63 (word_at input p) = 0 \<longleftrightarrow> \<not> sbit input p"
proof -
  have "unat (drop_bit 63 (word_at input p)) = peek input p 1" using peek_word [of 0 1 input p] by simp
  then show ?thesis by (simp add: unat_eq_0 [symmetric])
qed

lemma length_code_ok: "length_code (word_at input p) = ref_length input p"
proof -
  define k where "k = leading_ones (push_bit 1 (word_at input p))"
  have k: "min 15 k = ones_at input (p + 1)" unfolding k_def by (rule leading_ones_at)
  have "unat (drop_bit (64 - (2 + k)) (push_bit (2 + k) (word_at input p))) = peek input (p + (2 + k)) (2 + k)" if "k < 15"
    using that by (intro peek_word) simp
  moreover have "ones_at input (p + 1) = (if k < 15 then k else 15)" using k by (simp add: min_def split: if_splits)
  ultimately show ?thesis
    by (cases "sbit input p"; cases "k < 15")
      (simp_all only: length_code_def ref_length_def top_bit k_def [symmetric] Let_def add.assoc
        not_le [symmetric] if_True if_False simp_thms, simp_all)
qed

section \<open>The reference decoder\<close>

text \<open>One token at a time, straight from the bits, with all the bytes ever produced as its history.\<close>

record ref_decoder =
  r_hist :: bytes
  r_pos :: nat
  r_rem :: nat
  r_out :: bytes

definition consume :: "nat \<Rightarrow> ref_decoder \<Rightarrow> ref_decoder" where
  "consume n r = r\<lparr>r_pos := r_pos r + n, r_rem := r_rem r - n\<rparr>"

definition emit :: "bytes \<Rightarrow> ref_decoder \<Rightarrow> ref_decoder" where
  "emit bs r = r\<lparr>r_hist := r_hist r @ bs, r_out := r_out r @ bs\<rparr>"

definition ref_match :: "bytes \<Rightarrow> nat \<Rightarrow> ref_decoder \<Rightarrow> (ref_decoder \<times> bool) option" where
  "ref_match input distance r =
    (case ref_length input (r_pos r) of
       None \<Rightarrow> Some (r, False)
     | Some (count, used) \<Rightarrow>
         if count > MAX_SEGMENT_OUTPUT then Some (consume used r, False)
         else if distance mod HISTORY_SIZE = 0 then None
         else Some (emit (lz_copy count (distance mod HISTORY_SIZE) (r_hist r)) (consume used r), True))"

definition ref_raw :: "bytes \<Rightarrow> ref_decoder \<Rightarrow> ref_decoder \<times> bool" where
  "ref_raw input r =
    (let count = peek input (r_pos r) 15;
         bitpos = r_pos r + 15;
         remaining = r_rem r - 15 - (8 - bitpos mod 8) mod 8;
         pos = min ((bitpos + 7) div 8) (length input)
     in case slice_get input pos (pos + count) of
          None \<Rightarrow> (r\<lparr>r_pos := bitpos, r_rem := remaining\<rparr>, False)
        | Some raw \<Rightarrow> (emit raw (r\<lparr>r_pos := (pos + count) * 8, r_rem := remaining - 8 * count\<rparr>), True))"

definition ref_turn :: "bytes \<Rightarrow> nat \<Rightarrow> ref_decoder \<Rightarrow> (ref_decoder \<times> bool) option" where
  "ref_turn input seg_start r =
    (if length (r_out r) - seg_start > MAX_SEGMENT_OUTPUT then Some (r, False)
     else (case token_at input (r_pos r) of
             None \<Rightarrow> Some (r, False)
           | Some t \<Rightarrow>
               (let v = value_base t + peek input (r_pos r + prefix_len t) (value_bits t);
                    r = consume (prefix_len t + value_bits t) r
                in if token_type t = 0 then Some (emit [of_nat v] r, True)
                   else if v \<noteq> 0 then ref_match input v r
                   else Some (ref_raw input r))))"

lemma ref_turn_less:
  assumes "ref_turn input seg_start r = Some (r', True)" "r_rem r \<noteq> 0"
  shows "r_rem r' < r_rem r"
proof -
  obtain t where t: "token_at input (r_pos r) = Some t"
    using assms(1) by (auto simp: ref_turn_def split: if_splits option.splits)
  then have pos: "1 \<le> prefix_len t + value_bits t" using token_atD by (fastforce simp: token_wf_def)
  have "r_rem r' \<le> r_rem r - (prefix_len t + value_bits t)"
    using assms(1) t by (auto simp: ref_turn_def ref_match_def ref_raw_def emit_def consume_def Let_def split: if_splits option.splits)
  then show ?thesis using pos assms(2) by linarith
qed

function ref_tokens :: "bytes \<Rightarrow> nat \<Rightarrow> ref_decoder \<Rightarrow> (ref_decoder \<times> bool) option" where
  "ref_tokens input seg_start r =
    (if r_rem r = 0 then Some (r, True)
     else (case ref_turn input seg_start r of
             None \<Rightarrow> None
           | Some (r', go) \<Rightarrow> if go then ref_tokens input seg_start r' else Some (r', False)))"
  by pat_completeness auto
termination
  by (relation "measure (\<lambda>(input, seg_start, r). r_rem r)") (auto intro: ref_turn_less)

declare ref_tokens.simps [simp del]

section \<open>The decoder's turns as reference turns\<close>

lemma slot_kind_token:
  assumes "u + PREFIX_BITS \<le> 57" "token_at input (pos + u) = Some t" "token_type t = 0"
  shows "slot_at (word_at input pos) u =
    Slot (value_base t + peek input (pos + u + prefix_len t) (value_bits t)) (prefix_len t + value_bits t) 0 KindLiteral"
  using slot_at_token [OF assms(1), of input pos] literal_slot [of t input "pos + u"] token_atD [OF assms(2)] assms by simp

lemma slot_literalD:
  assumes "u + PREFIX_BITS \<le> 57" "slot_kind (slot_at (word_at input pos) u) = KindLiteral"
  obtains t where "token_at input (pos + u) = Some t" "token_type t = 0"
    "slot_base (slot_at (word_at input pos) u) = value_base t + peek input (pos + u + prefix_len t) (value_bits t)"
    "slot_len (slot_at (word_at input pos) u) = prefix_len t + value_bits t"
    "1 \<le> prefix_len t + value_bits t" "prefix_len t + value_bits t \<le> PREFIX_BITS"
proof -
  obtain t where t: "token_at input (pos + u) = Some t" "token_type t = 0"
    using assms slot_at_token [OF assms(1), of input pos] by (auto simp: match_slot split: option.splits dest: spec)
      (metis kind.distinct(5) match_slot slot.sel(4))
  then show thesis using that slot_kind_token [OF assms(1) t] token_atD [OF t(1)] by (auto simp: token_wf_def)
qed

text \<open>A literal of the reference.\<close>

lemma ref_literal:
  assumes "r_rem r \<noteq> 0" "length (r_out r) - seg_start \<le> MAX_SEGMENT_OUTPUT"
    and "token_at input (r_pos r) = Some t" "token_type t = 0"
  shows "ref_tokens input seg_start r =
    ref_tokens input seg_start (emit [of_nat (value_base t + peek input (r_pos r + prefix_len t) (value_bits t))]
      (consume (prefix_len t + value_bits t) r))"
  using assms by (subst ref_tokens.simps) (simp add: ref_turn_def Let_def)

lemma burst_bounds:
  assumes "slot_kind s = KindLiteral" "s = slot_at (word_at input pos) u" "u + (m + 1) * PREFIX_BITS \<le> 57"
  shows "snd (burst (word_at input pos) m u s) \<le> u + (m + 1) * PREFIX_BITS \<and> u < snd (burst (word_at input pos) m u s)"
  using assms
proof (induction m arbitrary: u s)
  case 0
  have "u + PREFIX_BITS \<le> 57" using 0 by simp
  then show ?case using 0 by (elim slot_literalD) auto
next
  case (Suc m)
  have "u + PREFIX_BITS \<le> 57" using Suc.prems(3) by simp
  then have "1 \<le> slot_len s \<and> slot_len s \<le> PREFIX_BITS"
    using Suc.prems(1,2) by (elim slot_literalD) auto
  then have t: "1 \<le> slot_len s" "slot_len s \<le> PREFIX_BITS" by simp_all
  define s' where "s' = slot_at (word_at input pos) (u + slot_len s)"
  show ?case
  proof (cases "slot_kind s' = KindLiteral")
    case True
    have "u + slot_len s + (m + 1) * PREFIX_BITS \<le> 57" using Suc.prems(3) t by simp
    from Suc.IH [OF True s'_def this] show ?thesis using t True
      by (simp add: s'_def [symmetric] case_prod_unfold Let_def)
  qed (use t in \<open>simp add: s'_def [symmetric] Let_def\<close>)
qed

lemma burst_ref:
  assumes "slot_kind s = KindLiteral" "s = slot_at (word_at input pos) u" "u + (m + 1) * PREFIX_BITS \<le> 57"
    and "r_pos r = pos + u" "(m + 1) * PREFIX_BITS \<le> r_rem r" "length (r_out r) - seg_start + m \<le> MAX_SEGMENT_OUTPUT"
  shows "ref_tokens input seg_start r =
    ref_tokens input seg_start (emit (fst (burst (word_at input pos) m u s)) (consume (snd (burst (word_at input pos) m u s) - u) r))"
  using assms
proof (induction m arbitrary: u s r)
  case 0
  have "u + PREFIX_BITS \<le> 57" using 0 by simp
  then obtain t where t: "token_at input (pos + u) = Some t" "token_type t = 0"
    "slot_base s = value_base t + peek input (pos + u + prefix_len t) (value_bits t)" "slot_len s = prefix_len t + value_bits t"
    using 0(1,2) by (elim slot_literalD) auto
  then show ?case using ref_literal [of r seg_start input t] 0 by (simp add: PREFIX_BITS_def)
next
  case (Suc m)
  have "u + PREFIX_BITS \<le> 57" using Suc.prems(3) by simp
  then obtain t where t: "token_at input (pos + u) = Some t" "token_type t = 0"
    "slot_base s = value_base t + peek input (pos + u + prefix_len t) (value_bits t)" "slot_len s = prefix_len t + value_bits t"
    "1 \<le> slot_len s" "slot_len s \<le> PREFIX_BITS"
    using Suc.prems(1,2) by (elim slot_literalD) auto
  define r1 where "r1 = emit [of_nat (slot_base s)] (consume (slot_len s) r)"
  have step: "ref_tokens input seg_start r = ref_tokens input seg_start r1"
    using ref_literal [of r seg_start input t] Suc.prems t by (simp add: r1_def PREFIX_BITS_def)
  define s' where "s' = slot_at (word_at input pos) (u + slot_len s)"
  show ?case
  proof (cases "slot_kind s' = KindLiteral")
    case True
    have u: "u + slot_len s + (m + 1) * PREFIX_BITS \<le> 57" using Suc.prems(3) t(6) by simp
    note bounds = burst_bounds [OF True s'_def u]
    have "ref_tokens input seg_start r1 = ref_tokens input seg_start
        (emit (fst (burst (word_at input pos) m (u + slot_len s) s')) (consume (snd (burst (word_at input pos) m (u + slot_len s) s') - (u + slot_len s)) r1))"
      using Suc.prems t(6) by (intro Suc.IH [OF True s'_def u]) (simp_all add: r1_def emit_def consume_def)
    then show ?thesis using step True bounds
      by (simp add: s'_def [symmetric] case_prod_unfold Let_def r1_def emit_def consume_def)
  qed (use step in \<open>simp add: s'_def [symmetric] Let_def r1_def\<close>)
qed

section \<open>The decoder's loop\<close>

text \<open>What a turn of the decoder and of the reference have in common.\<close>

definition same_as :: "decoder \<Rightarrow> ref_decoder \<Rightarrow> bool" where
  "same_as d r \<longleftrightarrow> d_pos d = r_pos r \<and> d_rem d = r_rem r \<and> d_out d = r_out r \<and> d_synced d \<le> length (d_out d) \<and>
     (\<exists>H. ring_ok (d_z d) H \<and> r_hist r = H @ drop (d_synced d) (d_out d))"

lemma raw_turn_ok:
  assumes "same_as d r"
  shows "snd (raw_turn input d) = snd (ref_raw input r)" "same_as (fst (raw_turn input d)) (fst (ref_raw input r))"
  using assms peek_word [of 0 15 input "r_pos r"]
  by (auto simp: same_as_def raw_turn_def ref_raw_def emit_def Let_def split: option.splits)

lemma match_turn_ok:
  assumes same: "same_as d r" and v: "v \<noteq> 0"
  shows "case match_turn input v d of None \<Rightarrow> ref_match input v r = None
    | Some (d', go) \<Rightarrow> \<exists>r'. ref_match input v r = Some (r', go) \<and> same_as d' r'"
proof (cases "ref_length input (r_pos r)")
  case None
  then show ?thesis using same by (auto simp: match_turn_def ref_match_def length_code_ok same_as_def)
next
  case (Some cu)
  obtain count used where cu: "ref_length input (r_pos r) = Some (count, used)" using Some by (cases cu) auto
  have count: "0 < count" using cu by (auto simp: ref_length_def Let_def split: if_splits)
  obtain H where H: "ring_ok (d_z d) H" "r_hist r = H @ drop (d_synced d) (d_out d)" using same by (auto simp: same_as_def)
  define z where "z = history_write (d_z d) (drop (d_synced d) (d_out d))"
  have z: "ring_ok z (r_hist r)" unfolding z_def H(2) by (rule history_write_ok [OF H(1)])
  have mi: "match_into z v count (d_out d) =
      (if v mod HISTORY_SIZE = 0 then None else Some (d_out d @ lz_copy count (v mod HISTORY_SIZE) (r_hist r)))"
    using match_into_ok [OF z] v count by simp
  define d1 where "d1 = d\<lparr>d_pos := d_pos d + used, d_rem := d_rem d - used\<rparr>"
  moreover have turn: "match_turn input v d = (if count > MAX_SEGMENT_OUTPUT then Some (d1, False)
      else map_option (\<lambda>out. (d1\<lparr>d_z := z, d_synced := length (d_out d), d_out := out\<rparr>, True)) (match_into z v count (d_out d)))"
    using cu same by (simp add: match_turn_def length_code_ok same_as_def z_def d1_def Let_def)
  moreover have "same_as d1 (consume used r)" using same by (auto simp: same_as_def d1_def consume_def)
  moreover have "same_as (d1\<lparr>d_z := z, d_synced := length (d_out d), d_out := d_out d @ bs\<rparr>) (emit bs (consume used r))" for bs
    using same z by (auto simp: same_as_def d1_def consume_def emit_def)
  ultimately show ?thesis using cu unfolding turn mi by (auto simp: ref_match_def)
qed

lemma token_turn_cases:
  assumes same: "same_as d r" and rem: "d_rem d \<noteq> 0"
  shows "case token_turn input seg_start d of
      None \<Rightarrow> ref_tokens input seg_start r = None
    | Some (d', False) \<Rightarrow> \<exists>r'. ref_tokens input seg_start r = Some (r', False) \<and> same_as d' r'
    | Some (d', True) \<Rightarrow> d_rem d' < d_rem d \<and>
        (\<exists>r'. ref_tokens input seg_start r = ref_tokens input seg_start r' \<and> same_as d' r')"
proof -
  have eqs: "d_pos d = r_pos r" "d_rem d = r_rem r" "d_out d = r_out r" using same by (simp_all add: same_as_def)
  define w where "w = word_at input (r_pos r)"
  have P: "0 + PREFIX_BITS \<le> 57" by (simp add: PREFIX_BITS_def)
  have out: "same_as (d\<lparr>d_out := d_out d @ bs, d_pos := d_pos d + n, d_rem := d_rem d - n\<rparr>) (emit bs (consume n r))" for bs n
    using same by (auto simp: same_as_def emit_def consume_def)
  show ?thesis
  proof (cases "length (r_out r) - seg_start > MAX_SEGMENT_OUTPUT")
    case True
    then show ?thesis using same rem eqs by (subst ref_tokens.simps) (auto simp: token_turn_def ref_turn_def)
  next
    case short: False
    show ?thesis
    proof (cases "token_at input (r_pos r)")
      case None
      then have "slot_kind (slot_at w 0) = KindInvalid" using slot_at_token [OF P, of input "r_pos r"] by (simp add: w_def)
      then show ?thesis using None same rem eqs short
        by (subst ref_tokens.simps) (auto simp: token_turn_def ref_turn_def w_def)
    next
      case (Some t)
      note t = Some token_atD [OF Some]
      show ?thesis
      proof (cases "token_type t = 0")
        case True
        note s = slot_kind_token [OF P, of input "r_pos r" t, simplified, OF Some True]
        define s0 where "s0 = slot_at w 0"
        have s0: "slot_kind s0 = KindLiteral" "slot_base s0 = value_base t + peek input (r_pos r + prefix_len t) (value_bits t)"
          "slot_len s0 = prefix_len t + value_bits t" "1 \<le> slot_len s0"
          using s t by (simp_all add: s0_def w_def token_wf_def)
        have tt: "token_turn input seg_start d =
            (if d_rem d \<ge> 6 * PREFIX_BITS \<and> length (d_out d) - seg_start + 5 \<le> MAX_SEGMENT_OUTPUT
             then (let (bs, used) = burst w 5 0 s0
                   in Some (d\<lparr>d_out := d_out d @ bs, d_pos := d_pos d + used, d_rem := d_rem d - used\<rparr>, True))
             else Some (d\<lparr>d_pos := d_pos d + slot_len s0, d_rem := d_rem d - slot_len s0, d_out := d_out d @ [of_nat (slot_base s0)]\<rparr>, True))"
          using short s0(1) eqs(1,3) by (simp add: token_turn_def s0_def w_def Let_def)
        show ?thesis
        proof (cases "d_rem d \<ge> 6 * PREFIX_BITS \<and> length (d_out d) - seg_start + 5 \<le> MAX_SEGMENT_OUTPUT")
          case True
          define bs n where "bs = fst (burst w 5 0 s0)" and "n = snd (burst w 5 0 s0)"
          have "0 < n" using burst_bounds [OF s0(1), of input "r_pos r" 0 5] by (simp add: s0_def w_def PREFIX_BITS_def n_def)
          moreover have "ref_tokens input seg_start r = ref_tokens input seg_start (emit bs (consume n r))"
            using burst_ref [OF s0(1), of input "r_pos r" 0 5 r seg_start] True eqs
            by (simp add: s0_def w_def PREFIX_BITS_def bs_def n_def)
          moreover have "token_turn input seg_start d = Some (d\<lparr>d_out := d_out d @ bs, d_pos := d_pos d + n, d_rem := d_rem d - n\<rparr>, True)"
            unfolding tt if_P [OF True] by (simp add: bs_def n_def case_prod_unfold Let_def)
          ultimately show ?thesis using out [where bs = bs and n = n] rem by auto
        next
          case False
          define bs where "bs = [of_nat (slot_base s0) :: u8]"
          have "ref_tokens input seg_start r = ref_tokens input seg_start (emit bs (consume (slot_len s0) r))"
            using ref_literal [of r seg_start input t] rem eqs short t(1) \<open>token_type t = 0\<close> by (simp add: bs_def s0)
          moreover have "token_turn input seg_start d = Some (d\<lparr>d_out := d_out d @ bs, d_pos := d_pos d + slot_len s0, d_rem := d_rem d - slot_len s0\<rparr>, True)"
            unfolding tt if_not_P [OF False] by (simp add: bs_def)
          ultimately show ?thesis using out [where bs = bs and n = "slot_len s0"] rem s0(4) by auto
        qed
      next
        case False
        have s: "slot_at w 0 = Slot (value_base t) (prefix_len t) (value_bits t) KindMatch"
          using slot_at_token [OF P, of input "r_pos r"] Some False by (simp add: w_def match_slot)
        define n v where "n = prefix_len t + value_bits t" and "v = value_base t + peek input (r_pos r + prefix_len t) (value_bits t)"
        define d1 r1 where "d1 = d\<lparr>d_pos := d_pos d + n, d_rem := d_rem d - n\<rparr>" and "r1 = consume n r"
        have d1: "same_as d1 r1" "d_rem d1 < d_rem d" using out [where bs = "[]" and n = n] t(2) rem same by (auto simp: d1_def r1_def emit_def token_wf_def n_def same_as_def consume_def)
        have "prefix_len t + value_bits t \<le> 57" using t(2) by (simp add: token_wf_def PREFIX_BITS_def)
        from peek_word [OF this, of input "r_pos r"] have turn: "token_turn input seg_start d =
            (if v \<noteq> 0 then match_turn input v d1 else Some (raw_turn input d1))"
          using s eqs short by (simp add: token_turn_def w_def v_def n_def d1_def Let_def)
        have ref: "ref_turn input seg_start r = (if v \<noteq> 0 then ref_match input v r1 else Some (ref_raw input r1))"
          using Some False short by (simp add: ref_turn_def v_def n_def r1_def Let_def)
        have less: "d_rem d' \<le> d_rem d1" if "token_turn input seg_start d = Some (d', go)" for d' go
          using that unfolding turn
          by (auto simp: match_turn_def raw_turn_def Let_def split: if_splits option.splits)
        have step: "ref_tokens input seg_start r = (case ref_turn input seg_start r of None \<Rightarrow> None
            | Some (r', go) \<Rightarrow> if go then ref_tokens input seg_start r' else Some (r', False))"
          using rem eqs by (subst ref_tokens.simps) simp
        show ?thesis
        proof (cases "v = 0")
          case True
          obtain d' r' go where raw: "raw_turn input d1 = (d', go)" "ref_raw input r1 = (r', go)" "same_as d' r'"
            using raw_turn_ok [OF d1(1), of input]
            by (cases "raw_turn input d1"; cases "ref_raw input r1") auto
          have "token_turn input seg_start d = Some (d', go)" unfolding turn using True raw(1) by simp
          moreover have "ref_tokens input seg_start r = (if go then ref_tokens input seg_start r' else Some (r', False))"
            unfolding step ref using True raw(2) by simp
          ultimately show ?thesis using less d1(2) raw(3) by (cases go) force+
        next
          case False
          show ?thesis
          proof (cases "match_turn input v d1")
            case None
            then have "ref_match input v r1 = None" using match_turn_ok [OF d1(1) False, of input] by simp
            then show ?thesis using None False unfolding turn step ref by simp
          next
            case (Some dg)
            obtain d' go where dg: "match_turn input v d1 = Some (d', go)" using Some by (cases dg) auto
            then obtain r' where r': "ref_match input v r1 = Some (r', go)" "same_as d' r'"
              using match_turn_ok [OF d1(1) False, of input] by auto
            have "token_turn input seg_start d = Some (d', go)" unfolding turn using False dg by simp
            moreover have "ref_tokens input seg_start r = (if go then ref_tokens input seg_start r' else Some (r', False))"
              unfolding step ref using False r'(1) by simp
            ultimately show ?thesis using less d1(2) r'(2) by (cases go) force+
          qed
        qed
      qed
    qed
  qed
qed

lemma slot_uses_bits:
  assumes "slot_kind (slot_at (word_at input pos) 0) \<noteq> KindInvalid"
  shows "1 \<le> slot_len (slot_at (word_at input pos) 0)"
proof -
  have P: "0 + PREFIX_BITS \<le> 57" by (simp add: PREFIX_BITS_def)
  obtain t where t: "token_at input pos = Some t"
    using assms slot_at_token [OF P, of input pos] by (auto split: option.splits)
  then show ?thesis using slot_at_token [OF P, of input pos] token_atD [OF t]
    by (cases "token_type t = 0") (auto simp: literal_slot match_slot token_wf_def)
qed

lemma token_turn_less:
  assumes turn: "token_turn input seg_start d = Some (d', True)" and rem: "d_rem d \<noteq> 0"
  shows "d_rem d' < d_rem d"
proof -
  define s where "s = slot_at (word_at input (d_pos d)) 0"
  note pos = slot_uses_bits [of input "d_pos d", folded s_def]
  note burst = burst_bounds [of s input "d_pos d" 0 5]
  have "d_rem d' \<le> d_rem d - 1"
  proof (cases "slot_kind s")
    case KindLiteral
    have "1 \<le> snd (burst (word_at input (d_pos d)) 5 0 s)"
      using burst KindLiteral by (simp add: s_def PREFIX_BITS_def)
    then show ?thesis using turn pos KindLiteral
      by (auto simp: token_turn_def s_def [symmetric] case_prod_unfold Let_def split: if_splits)
  next
    case KindMatch
    then show ?thesis using turn pos
      by (auto simp: token_turn_def match_turn_def raw_turn_def s_def [symmetric] Let_def split: if_splits option.splits)
  qed (use turn in \<open>simp add: token_turn_def s_def [symmetric] Let_def split: if_splits\<close>)
  then show ?thesis using rem by linarith
qed

function decode_tokens :: "bytes \<Rightarrow> nat \<Rightarrow> decoder \<Rightarrow> (decoder \<times> bool) option" where
  "decode_tokens input seg_start d =
    (if d_rem d = 0 then Some (d, True)
     else (case token_turn input seg_start d of
             None \<Rightarrow> None
           | Some (d', go) \<Rightarrow> if go then decode_tokens input seg_start d' else Some (d', False)))"
  by pat_completeness auto
termination
  by (relation "measure (\<lambda>(input, seg_start, d). d_rem d)") (auto intro: token_turn_less)

declare decode_tokens.simps [simp del]

lemma decode_tokens_ok:
  "same_as d r \<Longrightarrow>
   (case decode_tokens input seg_start d of None \<Rightarrow> ref_tokens input seg_start r = None
    | Some (d', ok) \<Rightarrow> \<exists>r'. ref_tokens input seg_start r = Some (r', ok) \<and> same_as d' r')"
proof (induction "d_rem d" arbitrary: d r rule: less_induct)
  case less
  show ?case
  proof (cases "d_rem d = 0")
    case True
    then show ?thesis using less.prems
      by (subst decode_tokens.simps, subst (1 2) ref_tokens.simps) (auto simp: same_as_def)
  next
    case False
    note cases = token_turn_cases [OF less.prems False, of input seg_start]
    show ?thesis
    proof (cases "token_turn input seg_start d")
      case None
      then show ?thesis using cases False by (subst decode_tokens.simps) simp
    next
      case (Some dg)
      obtain d' go where dg: "token_turn input seg_start d = Some (d', go)" using Some by (cases dg) auto
      have dec: "decode_tokens input seg_start d = (if go then decode_tokens input seg_start d' else Some (d', False))"
        using dg False by (subst decode_tokens.simps) simp
      show ?thesis
      proof (cases go)
        case True
        then obtain r' where r': "d_rem d' < d_rem d" "ref_tokens input seg_start r = ref_tokens input seg_start r'" "same_as d' r'"
          using cases dg by auto
        show ?thesis unfolding dec if_P [OF True] r'(2) by (rule less.hyps [OF r'(1,3)])
      qed (use cases dg in \<open>simp add: dec\<close>)
    qed
  qed
qed

section \<open>Segments and messages\<close>

definition decompress_segment :: "zgfx \<Rightarrow> bytes \<Rightarrow> bytes \<Rightarrow> (zgfx \<times> bytes \<times> bool) option" where
  "decompress_segment z seg out =
    (if length seg < 2 then Some (z, out, False)
     else
       (let body = drop 1 seg; seg_start = length out
        in if seg ! 0 AND PACKET_COMPRESSED = 0
           then if length body > MAX_SEGMENT_OUTPUT then Some (z, out, False)
                else Some (history_write z body, out @ body, True)
           else (let unused = unat (last body); input = butlast body;
                     total_bits = 8 * (length input mod 2 ^ 32)
                 in if total_bits \<ge> 2 ^ 32 \<or> total_bits < unused then Some (z, out, False)
                    else (case decode_tokens input seg_start
                            \<lparr> d_z = z, d_pos = 0, d_rem = total_bits - unused, d_out = out, d_synced = seg_start \<rparr> of
                            None \<Rightarrow> None
                          | Some (d, ok) \<Rightarrow> Some (history_write (d_z d) (drop (d_synced d) (d_out d)), d_out d, ok)))))"

text \<open>The loop over the segments of a multipart message, and \<open>decompress_with\<close>, over what decodes one segment.\<close>

fun multi_segments :: "('s \<Rightarrow> bytes \<Rightarrow> bytes \<Rightarrow> ('s \<times> bytes \<times> bool) option) \<Rightarrow> nat \<Rightarrow> 's \<Rightarrow> bytes \<Rightarrow> nat \<Rightarrow> bytes \<Rightarrow> ('s \<times> bytes \<times> bool) option" where
  "multi_segments segment 0 s src off out = Some (s, out, True)"
| "multi_segments segment (Suc n) s src off out =
    (case u32_le_at src off of
       None \<Rightarrow> Some (s, out, False)
     | Some seg_size \<Rightarrow>
         (case slice_get src (off + 4) (off + 4 + unat seg_size) of
            None \<Rightarrow> Some (s, out, False)
          | Some seg \<Rightarrow>
              (case segment s seg out of
                 None \<Rightarrow> None
               | Some (s, out, ok) \<Rightarrow>
                   if ok then multi_segments segment n s src (off + 4 + unat seg_size) out else Some (s, out, False))))"

definition decompress_with :: "('s \<Rightarrow> bytes \<Rightarrow> bytes \<Rightarrow> ('s \<times> bytes \<times> bool) option) \<Rightarrow> 's \<Rightarrow> bytes \<Rightarrow> ('s \<times> bytes option) option" where
  "decompress_with segment s src =
    (case src of
       [] \<Rightarrow> Some (s, None)
     | descriptor # rest \<Rightarrow>
         if descriptor = SEGMENTED_SINGLE
         then map_option (\<lambda>(s, out, ok). (s, if ok then Some out else None)) (segment s rest [])
         else if descriptor = SEGMENTED_MULTIPART
         then (case u16_le_at src 1 of
                 None \<Rightarrow> Some (s, None)
               | Some count \<Rightarrow>
                   (case u32_le_at src 3 of
                      None \<Rightarrow> Some (s, None)
                    | Some uncompressed \<Rightarrow>
                        map_option (\<lambda>(s, out, ok). (s, if ok \<and> length out = unat uncompressed then Some out else None))
                          (multi_segments segment (unat count) s src 7 [])))
         else Some (s, None))"

definition decompress :: "zgfx \<Rightarrow> bytes \<Rightarrow> (zgfx \<times> bytes option) option" where
  "decompress = decompress_with decompress_segment"

text \<open>The reference: its state is all the bytes ever produced.\<close>

definition ref_segment :: "bytes \<Rightarrow> bytes \<Rightarrow> bytes \<Rightarrow> (bytes \<times> bytes \<times> bool) option" where
  "ref_segment H seg out =
    (if length seg < 2 then Some (H, out, False)
     else
       (let body = drop 1 seg
        in if seg ! 0 AND PACKET_COMPRESSED = 0
           then if length body > MAX_SEGMENT_OUTPUT then Some (H, out, False) else Some (H @ body, out @ body, True)
           else (let unused = unat (last body); input = butlast body;
                     total_bits = 8 * (length input mod 2 ^ 32)
                 in if total_bits \<ge> 2 ^ 32 \<or> total_bits < unused then Some (H, out, False)
                    else map_option (\<lambda>(r, ok). (r_hist r, r_out r, ok))
                      (ref_tokens input (length out) \<lparr> r_hist = H, r_pos = 0, r_rem = total_bits - unused, r_out = out \<rparr>))))"

definition ref_decompress :: "bytes \<Rightarrow> bytes \<Rightarrow> (bytes \<times> bytes option) option" where
  "ref_decompress = decompress_with ref_segment"

text \<open>Message after message, up to one that never returns.\<close>

fun decompress_all :: "('s \<Rightarrow> bytes \<Rightarrow> ('s \<times> bytes option) option) \<Rightarrow> 's \<Rightarrow> bytes list \<Rightarrow> bytes option option list" where
  "decompress_all step s [] = []"
| "decompress_all step s (src # rest) =
    (case step s src of None \<Rightarrow> [None] | Some (s, out) \<Rightarrow> Some out # decompress_all step s rest)"

definition seg_rel :: "(zgfx \<times> 'x) option \<Rightarrow> (bytes \<times> 'x) option \<Rightarrow> bool" where
  "seg_rel a b \<longleftrightarrow> (case a of None \<Rightarrow> b = None | Some (z, x) \<Rightarrow> \<exists>H. b = Some (H, x) \<and> ring_ok z H)"

lemma seg_rel_simps [simp]:
  "seg_rel None b \<longleftrightarrow> b = None" "seg_rel (Some (z, x)) b \<longleftrightarrow> (\<exists>H. b = Some (H, x) \<and> ring_ok z H)"
  by (simp_all add: seg_rel_def)

lemma segment_ok: "ring_ok z H \<Longrightarrow> seg_rel (decompress_segment z seg out) (ref_segment H seg out)"
proof -
  assume ok: "ring_ok z H"
  define input rem0 where "input = butlast (drop 1 seg)" and "rem0 = 8 * (length input mod 2 ^ 32) - unat (last (drop 1 seg))"
  define d r where "d = \<lparr> d_z = z, d_pos = 0, d_rem = rem0, d_out = out, d_synced = length out \<rparr>"
    and "r = \<lparr> r_hist = H, r_pos = 0, r_rem = rem0, r_out = out \<rparr>"
  have "same_as d r" using ok by (auto simp: same_as_def d_def r_def)
  note tokens = decode_tokens_ok [OF this, of input "length out"]
  define X where "X = (case decode_tokens input (length out) d of None \<Rightarrow> None
      | Some (d, ok) \<Rightarrow> Some (history_write (d_z d) (drop (d_synced d) (d_out d)), d_out d, ok))"
  define Y where "Y = map_option (\<lambda>(r, ok). (r_hist r, r_out r, ok)) (ref_tokens input (length out) r)"
  have XY: "seg_rel X Y"
  proof (cases "decode_tokens input (length out) d")
    case None
    then show ?thesis using tokens by (simp add: X_def Y_def)
  next
    case (Some dk)
    obtain d' k where dk: "decode_tokens input (length out) d = Some (d', k)" using Some by (cases dk) auto
    then obtain r' where "ref_tokens input (length out) r = Some (r', k)" "same_as d' r'" using tokens by auto
    then show ?thesis using dk by (auto simp: X_def Y_def same_as_def intro: history_write_ok)
  qed
  define short raw long bad where "short \<longleftrightarrow> length seg < 2" and "raw \<longleftrightarrow> seg ! 0 AND PACKET_COMPRESSED = 0"
    and "long \<longleftrightarrow> length (drop 1 seg) > MAX_SEGMENT_OUTPUT"
    and "bad \<longleftrightarrow> 8 * (length input mod 2 ^ 32) \<ge> 2 ^ 32 \<or> 8 * (length input mod 2 ^ 32) < unat (last (drop 1 seg))"
  have "decompress_segment z seg out = (if short then Some (z, out, False)
      else if raw then if long then Some (z, out, False) else Some (history_write z (drop 1 seg), out @ drop 1 seg, True)
      else if bad then Some (z, out, False) else X)"
    by (simp only: decompress_segment_def Let_def X_def input_def rem0_def d_def short_def raw_def long_def bad_def)
  moreover have "ref_segment H seg out = (if short then Some (H, out, False)
      else if raw then if long then Some (H, out, False) else Some (H @ drop 1 seg, out @ drop 1 seg, True)
      else if bad then Some (H, out, False) else Y)"
    by (simp only: ref_segment_def Let_def Y_def input_def rem0_def r_def short_def raw_def long_def bad_def)
  ultimately show ?thesis using ok history_write_ok [OF ok, of "drop 1 seg"] XY by simp
qed

lemma multi_ok: "ring_ok z H \<Longrightarrow>
  seg_rel (multi_segments decompress_segment n z src off out) (multi_segments ref_segment n H src off out)"
proof (induction n arbitrary: z H off out)
  case (Suc n)
  show ?case
  proof (cases "u32_le_at src off")
    case (Some size)
    show ?thesis
    proof (cases "slice_get src (off + 4) (off + 4 + unat size)")
      case (Some seg)
      note segs = segment_ok [OF Suc.prems, of seg out]
      show ?thesis
      proof (cases "decompress_segment z seg out")
        case None
        then show ?thesis using segs Some \<open>u32_le_at src off = Some size\<close> by simp
      next
        case c: (Some x)
        obtain z' out' k where x: "decompress_segment z seg out = Some (z', out', k)" using c by (cases x) auto
        then obtain H' where "ref_segment H seg out = Some (H', out', k)" "ring_ok z' H'" using segs by auto
        then show ?thesis using x Some \<open>u32_le_at src off = Some size\<close> Suc.IH by simp
      qed
    qed (use Suc.prems Some in simp)
  qed (use Suc.prems in simp)
qed (simp)

lemma decompress_ok: "ring_ok z H \<Longrightarrow> seg_rel (decompress z src) (ref_decompress H src)"
proof -
  assume ok: "ring_ok z H"
  have m: "seg_rel (map_option (\<lambda>(s, out, k). (s, f out k)) a) (map_option (\<lambda>(s, out, k). (s, f out k)) b)"
    if "seg_rel a b" for a b and f :: "bytes \<Rightarrow> bool \<Rightarrow> 'y"
    using that by (cases a) auto
  show ?thesis unfolding decompress_def ref_decompress_def decompress_with_def
    using ok m [OF segment_ok [OF ok]] m [OF multi_ok [OF ok]]
    by (auto split: list.splits option.splits)
qed

text \<open>
  C18. Over any sequence of messages, well-formed or not, the decompressor with its table, its bursts and its late and
  bulk history returns what the reference does, that reads one token at a time and copies byte by byte from all it
  ever produced; and it fails to return exactly where the reference says so: at a match whose distance is a
  multiple of the ring's size.
\<close>

theorem zgfx_is_reference: "decompress_all decompress new_zgfx blobs = decompress_all ref_decompress [] blobs"
proof -
  have "decompress_all decompress z blobs = decompress_all ref_decompress H blobs" if "ring_ok z H" for z H
    using that
  proof (induction blobs arbitrary: z H)
    case (Cons src rest)
    note rel = decompress_ok [OF Cons.prems, of src]
    show ?case
    proof (cases "decompress z src")
      case (Some x)
      then obtain z' out where "decompress z src = Some (z', out)" by (cases x) auto
      then show ?thesis using rel Cons.IH by auto
    qed (use rel in simp)
  qed simp
  then show ?thesis using ring_new by blast
qed

section \<open>A match that never returns\<close>

text \<open>One compressed segment: a match of three bytes at distance 2,500,000.\<close>

definition stuck_blob :: bytes where
  "stuck_blob = [0xE0, 0x24, 0xBD, 0x0A, 0x78, 0x00, 0x02]"

lemma peek_numeral:
  "peek input p (numeral n) = 2 * peek input p (pred_numeral n) + of_bool (sbit input (p + pred_numeral n))"
  by (simp add: numeral_eq_Suc)

lemma stuck_token:
  "token_at [0xBD, 0x0A, 0x78, 0x00] 0 = Some (Token 8 189 21 1 2414240)" "peek [0xBD, 0x0A, 0x78, 0x00] 8 21 = 85760"
  "ref_length [0xBD, 0x0A, 0x78, 0x00] 29 = Some (3, 1)"
  by (simp_all add: token_at_def TOKENS_def peek_numeral sbit_def ref_length_def)

lemma stuck_anywhere: "ring_ok z H \<Longrightarrow> decompress z stuck_blob = None"
proof -
  assume ok: "ring_ok z H"
  have "ref_tokens [0xBD, 0x0A, 0x78, 0x00] 0 \<lparr> r_hist = H, r_pos = 0, r_rem = 30, r_out = [] \<rparr> = None"
    by (subst ref_tokens.simps) (simp add: ref_turn_def stuck_token consume_def ref_match_def MAX_SEGMENT_OUTPUT_def HISTORY_SIZE_def)
  then have "ref_decompress H stuck_blob = None"
    by (simp add: ref_decompress_def decompress_with_def stuck_blob_def SEGMENTED_SINGLE_def ref_segment_def PACKET_COMPRESSED_def)
  then show ?thesis using decompress_ok [OF ok, of stuck_blob] by (cases "decompress z stuck_blob") auto
qed

text \<open>
  C19. A well-formed message of seven bytes stops the decompressor for good, whatever came before it: the doubling copy of a match
  at a distance of exactly the ring's size starts from nothing and never grows.
\<close>

theorem zgfx_never_returns: "last (decompress_all decompress new_zgfx (blobs @ [stuck_blob])) = None"
proof -
  have "last (decompress_all decompress z (blobs @ [stuck_blob])) = None" if "ring_ok z H" for z H
    using that
  proof (induction blobs arbitrary: z H)
    case (Cons src rest)
    have ne: "decompress_all decompress z' (rest @ [stuck_blob]) \<noteq> []" for z'
      by (cases rest) (auto split: option.splits)
    show ?case
    proof (cases "decompress z src")
      case (Some x)
      then obtain z' out where x: "decompress z src = Some (z', out)" by (cases x) auto
      then obtain H' where "ring_ok z' H'" using decompress_ok [OF Cons.prems, of src] by auto
      then show ?thesis using Cons.IH x ne [of z'] by simp
    qed simp
  qed (simp add: stuck_anywhere)
  then show ?thesis using ring_new by blast
qed

end
