(* ===== verification/Audio.thy ===== *)
theory Audio
  imports Reorder
begin

text \<open>
  Opus audio over lossy datagrams (\<open>audio.rs\<close>): the packet codec, the loss figure for the sender's FEC, and the
  sequencer that turns packets into what to decode. An Opus frame is its bytes. \<open>None\<close> is a panic of \<open>push\<close>, which
  needs a packet without frames; the parser gives none.
\<close>

record audio_packet =
  seq :: u32
  channels :: u8
  capture_us :: u64
  frames :: "bytes list"

section \<open>The packet codec\<close>

definition frame_bytes :: "bytes \<Rightarrow> bytes" where
  "frame_bytes f = u16_le (of_nat (length f)) @ f"

definition audio_bytes :: "audio_packet \<Rightarrow> bytes" where
  "audio_bytes p = u32_le (seq p) @ [channels p] @ u64_le (capture_us p) @ [of_nat (length (frames p))]
     @ concat (map frame_bytes (frames p))"

fun parse_frames :: "nat \<Rightarrow> bytes \<Rightarrow> nat \<Rightarrow> bytes list option" where
  "parse_frames 0 b pos = Some []"
| "parse_frames (Suc n) b pos =
    Option.bind (u16_le_at b pos) (\<lambda>len.
      Option.bind (slice_get b (pos + 2) (pos + 2 + unat len)) (\<lambda>f.
        map_option (\<lambda>fs. f # fs) (parse_frames n b (pos + 2 + unat len))))"

definition audio_parse :: "bytes \<Rightarrow> audio_packet option" where
  "audio_parse b =
    Option.bind (u32_le_at b 0) (\<lambda>sq. Option.bind (index_get b 4) (\<lambda>ch.
      Option.bind (u64_le_at b 5) (\<lambda>cap. Option.bind (index_get b 13) (\<lambda>count.
        Option.bind (parse_frames (unat count) b 14) (\<lambda>fs.
          if count > 0 then Some \<lparr>seq = sq, channels = ch, capture_us = cap, frames = fs\<rparr> else None)))))"

lemma drop_split: "drop i xs = take n (drop i xs) @ drop (i + n) xs"
  by (metis append_take_drop_id drop_drop add.commute)

text \<open>The frames \<open>parse_frames\<close> finds at \<open>pos\<close> are the ones whose bytes stand there.\<close>

lemma parse_frames_iff:
  "pos \<le> length b \<Longrightarrow>
   parse_frames n b pos = Some fs \<longleftrightarrow>
     length fs = n \<and> (\<forall>f \<in> set fs. length f < 65536) \<and> (\<exists>rest. drop pos b = concat (map frame_bytes fs) @ rest)"
proof (induction n b pos arbitrary: fs rule: parse_frames.induct)
  case (1 b pos)
  then show ?case by auto
next
  case (2 n b pos)
  show ?case
  proof
    assume "parse_frames (Suc n) b pos = Some fs"
    then obtain len f fs' where len: "u16_le_at b pos = Some len"
      and f: "slice_get b (pos + 2) (pos + 2 + unat len) = Some f"
      and rest: "parse_frames n b (pos + 2 + unat len) = Some fs'" and fs: "fs = f # fs'"
      by (auto simp: bind_eq_Some_conv)
    have le: "pos + 2 + unat len \<le> length b" and f': "f = take (unat len) (drop (pos + 2) b)"
      using f by (auto simp: slice_get_def split: if_splits)
    have lf: "length f = unat len" using f' le by simp
    obtain r where r: "length fs' = n" "\<forall>f \<in> set fs'. length f < 65536"
        "drop (pos + 2 + unat len) b = concat (map frame_bytes fs') @ r"
      using 2(1) [OF len f le] rest by auto
    have "take 2 (drop pos b) = u16_le len"
      using len le by (auto simp: u16_le_at_def slice_get_def u16_le_u16_of_le split: if_splits)
    then have "drop pos b = u16_le len @ drop (pos + 2) b"
      by (metis append_take_drop_id drop_drop add.commute)
    moreover have "drop (pos + 2) b = f @ drop (pos + 2 + unat len) b"
      unfolding f' by (metis append_take_drop_id drop_drop add.commute)
    ultimately have "drop pos b = frame_bytes f @ drop (pos + 2 + unat len) b"
      by (simp add: frame_bytes_def lf)
    then show "length fs = Suc n \<and> (\<forall>f \<in> set fs. length f < 65536) \<and> (\<exists>rest. drop pos b = concat (map frame_bytes fs) @ rest)"
      using r unat_bound_u16 [of len] lf by (auto simp: fs)
  next
    assume a: "length fs = Suc n \<and> (\<forall>f \<in> set fs. length f < 65536) \<and> (\<exists>rest. drop pos b = concat (map frame_bytes fs) @ rest)"
    then obtain f fs' r where fs: "fs = f # fs'" "length fs' = n" and b: "drop pos b = u16_le (of_nat (length f)) @ f @ concat (map frame_bytes fs') @ r"
      by (cases fs) (auto simp: frame_bytes_def)
    let ?len = "of_nat (length f) :: u16"
    have u: "unat ?len = length f" using a by (simp add: fs unat_of_nat)
    have lb: "length b - pos = 2 + length f + length (concat (map frame_bytes fs') @ r)"
      using arg_cong [OF b, of length] by simp
    then have le: "pos + 2 + length f \<le> length b" using 2(2) by simp
    have len: "u16_le_at b pos = Some ?len"
      using le b by (simp add: u16_le_at_def slice_get_def)
    have d: "drop (pos + 2) b = f @ concat (map frame_bytes fs') @ r"
      using arg_cong [OF b, of "drop 2"] by (simp add: add.commute)
    then have f: "slice_get b (pos + 2) (pos + 2 + unat ?len) = Some f"
      using le by (simp add: slice_get_def u)
    have d2: "drop (pos + 2 + length f) b = concat (map frame_bytes fs') @ r"
      using arg_cong [OF d, of "drop (length f)"] by (simp add: add.commute)
    have "parse_frames n b (pos + 2 + unat ?len) = Some fs'"
      unfolding u using 2(1) [OF len f, unfolded u, OF le, of fs'] a d2 fs by auto
    then show "parse_frames (Suc n) b pos = Some fs" using len f by (simp add: fs u)
  qed
qed

definition packet_ok :: "audio_packet \<Rightarrow> bool" where
  "packet_ok p \<longleftrightarrow> 0 < length (frames p) \<and> length (frames p) < 256 \<and> (\<forall>f \<in> set (frames p). length f < 65536)"

lemma audio_parse_iff_ok:
  "audio_parse b = Some p \<longleftrightarrow> packet_ok p \<and> (\<exists>rest. b = audio_bytes p @ rest)"
proof
  assume "audio_parse b = Some p"
  then obtain sq ch cap count fs where c: "u32_le_at b 0 = Some sq" "index_get b 4 = Some ch" "u64_le_at b 5 = Some cap"
      "index_get b 13 = Some count" "parse_frames (unat count) b 14 = Some fs" "count > 0"
    and p: "p = \<lparr>seq = sq, channels = ch, capture_us = cap, frames = fs\<rparr>"
    by (auto simp: audio_parse_def bind_eq_Some_conv split: if_splits)
  have l: "14 \<le> length b" using c(4) by (simp add: index_get_def split: if_splits)
  obtain r where fs: "length fs = unat count" "\<forall>f \<in> set fs. length f < 65536" "drop 14 b = concat (map frame_bytes fs) @ r"
    using iffD1 [OF parse_frames_iff [OF l] c(5)] by (elim conjE exE)
  have f1: "u32_le sq = take 4 b" "u64_le cap = take 8 (drop 5 b)"
    using c l by (auto simp: u32_le_at_def u64_le_at_def slice_get_def u32_le_u32_of_le u64_le_u64_of_le split: if_splits)
  have f2: "[ch] = take 1 (drop 4 b)" "[count] = take 1 (drop 13 b)"
    using c l by (auto simp: index_get_def take_Suc_conv_app_nth hd_drop_conv_nth take_Suc split: if_splits)
  have f3: "take 4 b @ take 1 (drop 4 b) @ take 8 (drop 5 b) @ take 1 (drop 13 b) @ drop 14 b = b"
    using drop_split [of 4 b 1, symmetric] drop_split [of 5 b 8, symmetric] drop_split [of 13 b 1, symmetric] by simp
  have "u32_le sq @ [ch] @ u64_le cap @ [count] @ concat (map frame_bytes fs) @ r = b"
    unfolding f1 f2 fs(3) [symmetric] by (rule f3)
  then have "b = audio_bytes p @ r" by (simp add: audio_bytes_def p fs(1))
  moreover have "0 < unat count" using c(6) by (simp add: word_gt_0 unat_gt_0)
  ultimately show "packet_ok p \<and> (\<exists>rest. b = audio_bytes p @ rest)"
    using fs unat_bound_u8 [of count] by (auto simp: packet_ok_def p)
next
  assume "packet_ok p \<and> (\<exists>rest. b = audio_bytes p @ rest)"
  then obtain r where p: "packet_ok p" and b: "b = audio_bytes p @ r" by blast
  have u: "unat (of_nat (length (frames p)) :: u8) = length (frames p)" using p by (simp add: packet_ok_def unat_of_nat)
  have l: "14 \<le> length b" by (simp add: b audio_bytes_def)
  have d: "drop 14 b = concat (map frame_bytes (frames p)) @ r" by (simp add: b audio_bytes_def drop_Cons')
  have "parse_frames (length (frames p)) b 14 = Some (frames p)"
    using p d parse_frames_iff [OF l] by (auto simp: packet_ok_def)
  moreover have "u32_le_at b 0 = Some (seq p)" "index_get b 4 = Some (channels p)" "u64_le_at b 5 = Some (capture_us p)"
      "index_get b 13 = Some (of_nat (length (frames p)))"
    by (simp_all add: b audio_bytes_def codec_simps nth_append nth_Cons' take_Cons' drop_Cons')
  moreover have "(of_nat (length (frames p)) :: u8) > 0" using u p unfolding packet_ok_def by (metis unat_0 word_gt_0 less_numeral_extra(3))
  ultimately show "audio_parse b = Some p" by (simp add: audio_parse_def u)
qed

section \<open>The loss figure\<close>

text \<open>\<open>loss_pct\<close>; its products are \<open>u32\<close> and wrap.\<close>

definition div_ceil :: "nat \<Rightarrow> nat \<Rightarrow> nat" where "div_ceil a b = (a + b - 1) div b"

definition loss_pct :: "u32 \<Rightarrow> u32 \<Rightarrow> u32 \<Rightarrow> u32" where
  "loss_pct prev lost sent =
    (let now = (if sent = 0 then 0 else of_nat (div_ceil (unat (lost * 100)) (unat (max sent lost))))
     in min (max now (prev * 3 div 4)) 30)"

lemma loss_pct_le: "loss_pct prev lost sent \<le> 30"
  by (simp add: loss_pct_def Let_def)

section \<open>The sequencer\<close>

definition RESTART_BEHIND :: int where "RESTART_BEHIND = 16"
definition MAX_CONCEAL :: nat where "MAX_CONCEAL = 3"

datatype decode = Frame bytes | Conceal | Fec bytes | Restart

record sequencer =
  next_seq :: "u32 option"
  newest_capture_us :: u64
  fec :: bool
  lost_packets :: u32

definition new_sequencer :: sequencer where
  "new_sequencer = \<lparr>next_seq = None, newest_capture_us = 0, fec = False, lost_packets = 0\<rparr>"

definition set_fec :: "sequencer \<Rightarrow> bool \<Rightarrow> sequencer" where "set_fec q on = q\<lparr>fec := on\<rparr>"

definition saturating_add :: "u32 \<Rightarrow> u32 \<Rightarrow> u32" where
  "saturating_add a b = (if unat a + unat b < 2 ^ 32 then a + b else - 1)"

definition first_seq :: "audio_packet \<Rightarrow> u32" where
  "first_seq p = seq p - (of_nat (length (frames p)) - 1)"

text \<open>The filled gap: \<open>None\<close> is the panic of \<open>p.frames[0]\<close>.\<close>

definition fill_gap :: "bool \<Rightarrow> audio_packet \<Rightarrow> u32 \<Rightarrow> decode list option" where
  "fill_gap fc p nx =
    (let gap = sint (first_seq p - nx)
     in if gap > 0
        then (let conceals = replicate (min (nat gap - (if fc then 1 else 0)) MAX_CONCEAL) Conceal
              in if fc then map_option (\<lambda>f. conceals @ [Fec f]) (index_get (frames p) 0) else Some conceals)
        else Some [])"

definition played :: "audio_packet \<Rightarrow> u32 \<Rightarrow> decode list" where
  "played p nx =
    map (\<lambda>(i, f). Frame f)
      (filter (\<lambda>(i, f). sint (first_seq p + of_nat i - nx) \<ge> 0) (zip [0..<length (frames p)] (frames p)))"

definition take_packet :: "sequencer \<Rightarrow> audio_packet \<Rightarrow> decode list \<Rightarrow> u32 \<Rightarrow> (sequencer \<times> decode list) option" where
  "take_packet q p out nx =
    map_option (\<lambda>gap. (q\<lparr>next_seq := Some (seq p + 1), newest_capture_us := max (newest_capture_us q) (capture_us p)\<rparr>,
        out @ gap @ played p nx))
      (fill_gap (fec q) p nx)"

definition push :: "sequencer \<Rightarrow> audio_packet \<Rightarrow> (sequencer \<times> decode list) option" where
  "push q p =
    (let first = first_seq p;
         nx = (case next_seq q of None \<Rightarrow> first | Some x \<Rightarrow> x);
         ahead = sint (seq p - nx)
     in if ahead < - RESTART_BEHIND \<and> capture_us p > newest_capture_us q
        then take_packet q p [Restart] first
        else if ahead < 0 then Some (q, [])
        else if next_seq q \<noteq> None \<and> ahead > 0
        then take_packet (q\<lparr>lost_packets := saturating_add (lost_packets q) (min (of_int ahead) 50)\<rparr>) p [] nx
        else take_packet q p [] nx)"

text \<open>A receiver's packets in their order of arrival.\<close>

primrec play :: "sequencer \<Rightarrow> audio_packet list \<Rightarrow> (sequencer \<times> decode list) option" where
  "play q [] = Some (q, [])"
| "play q (p # ps) =
    Option.bind (push q p) (\<lambda>(q, out). map_option (\<lambda>(q, outs). (q, out @ outs)) (play q ps))"

text \<open>No packet the parser lets through panics the sequencer.\<close>

lemma parsed_never_panics: "audio_parse b = Some p \<Longrightarrow> push q p \<noteq> None"
proof -
  assume "audio_parse b = Some p"
  then have "frames p \<noteq> []" by (auto simp: audio_parse_iff_ok packet_ok_def)
  then have "fill_gap fc p nx \<noteq> None" for fc nx by (simp add: fill_gap_def index_get_def Let_def)
  then show ?thesis by (simp add: push_def take_packet_def Let_def)
qed

section \<open>A stream of frames\<close>

text \<open>
  A sender's stream: frame \<open>i\<close> is \<open>F i\<close>, captured at \<open>cap i\<close>, and the packet for it carries the last \<open>n\<close> frames.
\<close>

definition sent :: "(nat \<Rightarrow> bytes) \<Rightarrow> (nat \<Rightarrow> u64) \<Rightarrow> u8 \<Rightarrow> nat \<times> nat \<Rightarrow> audio_packet" where
  "sent F cap c = (\<lambda>(i, n).
    \<lparr>seq = of_nat i, channels = c, capture_us = cap i, frames = map F [Suc i - n..<Suc i]\<rparr>)"

text \<open>What the sequencer makes of a packet, in terms of frame numbers: \<open>nx\<close> is the next frame to play.\<close>

definition start :: "nat option \<Rightarrow> nat \<Rightarrow> nat \<Rightarrow> nat" where
  "start nx i n = (case nx of None \<Rightarrow> Suc i - n | Some x \<Rightarrow> x)"

definition heard :: "(nat \<Rightarrow> bytes) \<Rightarrow> bool \<Rightarrow> nat \<Rightarrow> nat \<times> nat \<Rightarrow> decode list" where
  "heard F fc x = (\<lambda>(i, n).
    if i < x then []
    else (if Suc i - n > x
          then replicate (min (Suc i - n - x - (if fc then 1 else 0)) MAX_CONCEAL) Conceal @ (if fc then [Fec (F (Suc i - n))] else [])
          else [])
      @ map (\<lambda>j. Frame (F j)) [max x (Suc i - n)..<Suc i])"

definition follows :: "(nat \<Rightarrow> u64) \<Rightarrow> bool \<Rightarrow> sequencer \<Rightarrow> nat option \<Rightarrow> bool" where
  "follows cap fc q nx \<longleftrightarrow> next_seq q = map_option of_nat nx \<and> fec q = fc \<and>
    (\<forall>x. nx = Some x \<longrightarrow> x < 2 ^ 31 \<and> (\<forall>j < x. cap j \<le> newest_capture_us q))"

definition carried :: "nat \<times> nat \<Rightarrow> bool" where
  "carried = (\<lambda>(i, n). 0 < n \<and> n \<le> Suc i \<and> i < 2 ^ 31 - 1)"

lemma first_seq_sent: "carried (i, n) \<Longrightarrow> first_seq (sent F cap c (i, n)) = of_nat (Suc i - n)"
  by (simp add: carried_def first_seq_def sent_def of_nat_diff del: upt_Suc)

lemma zip_filter_map:
  "map (\<lambda>(k, f). Frame f) (filter (\<lambda>(k, f). P k) (zip [0..<m] (map F [a..<a + m])))
    = map (\<lambda>j. Frame (F j)) (filter (\<lambda>j. P (j - a)) [a..<a + m])"
proof (induction m)
  case (Suc m)
  have "zip [0..<Suc m] (map F [a..<a + Suc m]) = zip [0..<m] (map F [a..<a + m]) @ [(m, F (a + m))]"
    by simp
  then show ?case using Suc by simp
qed simp

lemma filter_ge: "filter (\<lambda>j. x \<le> j) [a..<b] = [max x a..<b]"
proof (induction b)
  case (Suc b)
  then show ?case by (cases "x \<le> b"; cases "a \<le> b") (auto simp: max_def)
qed simp

lemma played_sent:
  assumes "carried (i, n)" "x < 2 ^ 31"
  shows "played (sent F cap c (i, n)) (of_nat x) = map (\<lambda>j. Frame (F j)) [max x (Suc i - n)..<Suc i]"
proof -
  let ?a = "Suc i - n"
  have m: "?a + n = Suc i" "0 < n" "Suc i < 2 ^ 31" using assms(1) by (auto simp: carried_def)
  have fr: "frames (sent F cap c (i, n)) = map F [?a..<?a + n]" by (simp add: sent_def m)
  have s: "sint (of_nat ?a + of_nat k - of_nat x :: u32) \<ge> 0 \<longleftrightarrow> x \<le> ?a + k" if "k < n" for k
  proof -
    have "sint (of_nat (?a + k) - of_nat x :: u32) = int (?a + k) - int x"
      using that m assms(2) by (intro sint_diff_u32) auto
    then show ?thesis unfolding of_nat_add by linarith
  qed
  have "played (sent F cap c (i, n)) (of_nat x)
      = map (\<lambda>(k, f). Frame f) (filter (\<lambda>(k, f). x \<le> ?a + k) (zip [0..<n] (map F [?a..<?a + n])))"
    unfolding played_def first_seq_sent [OF assms(1)] fr
    by (intro arg_cong [where f = "map _"] filter_cong) (auto simp: s dest: set_zip_leftD)
  also have "\<dots> = map (\<lambda>j. Frame (F j)) (filter (\<lambda>j. x \<le> ?a + (j - ?a)) [?a..<?a + n])"
    by (rule zip_filter_map)
  also have "filter (\<lambda>j. x \<le> ?a + (j - ?a)) [?a..<?a + n] = filter (\<lambda>j. x \<le> j) [?a..<?a + n]"
    by (intro filter_cong) auto
  finally show ?thesis by (simp only: filter_ge m)
qed

lemma fill_gap_sent:
  assumes "carried (i, n)" "x < 2 ^ 31"
  shows "fill_gap fc (sent F cap c (i, n)) (of_nat x) = Some
    (if Suc i - n > x
     then replicate (min (Suc i - n - x - (if fc then 1 else 0)) MAX_CONCEAL) Conceal @ (if fc then [Fec (F (Suc i - n))] else [])
     else [])"
proof -
  let ?a = "Suc i - n"
  have m: "?a + n = Suc i" "0 < n" "Suc i < 2 ^ 31" using assms(1) by (auto simp: carried_def)
  have s: "sint (of_nat ?a - of_nat x :: u32) = int ?a - int x" using m assms(2) by (intro sint_diff_u32) auto
  have h: "index_get (frames (sent F cap c (i, n))) 0 = Some (F ?a)"
    using m by (auto simp: index_get_def sent_def simp del: upt_Suc)
  show ?thesis unfolding fill_gap_def first_seq_sent [OF assms(1)] s h Let_def by (auto simp: nat_diff_distrib')
qed

lemma push_sent:
  assumes mono: "mono cap" and q: "follows cap fc q nx" and c: "carried (i, n)"
  shows "\<exists>q'. push q (sent F cap c (i, n)) = Some (q', heard F fc (start nx i n) (i, n)) \<and>
    follows cap fc q' (Some (max (start nx i n) (Suc i)))"
proof -
  let ?x = "start nx i n" and ?p = "sent F cap c (i, n)"
  have m: "0 < n" "n \<le> Suc i" "Suc i < 2 ^ 31" using c by (auto simp: carried_def)
  have x: "?x < 2 ^ 31" using q m by (auto simp: start_def follows_def split: option.splits)
  have nx: "(case next_seq q of None \<Rightarrow> first_seq ?p | Some x \<Rightarrow> x) = of_nat ?x"
    using q by (cases nx) (simp_all add: follows_def start_def first_seq_sent [OF c])
  have ahead: "sint (seq ?p - of_nat ?x) = int i - int ?x" using x m by (simp add: sent_def sint_diff_u32)
  show ?thesis
  proof (cases "i < ?x")
    case True
    then obtain y where y: "nx = Some y" "?x = y" using m by (cases nx) (auto simp: start_def)
    have "cap i \<le> newest_capture_us q" using q True y by (auto simp: follows_def)
    then have "\<not> capture_us ?p > newest_capture_us q" by (simp add: sent_def)
    then have "push q ?p = Some (q, [])" unfolding push_def nx Let_def ahead using True by simp
    moreover have "max ?x (Suc i) = y" using True y by simp
    ultimately show ?thesis using q True y by (simp add: heard_def)
  next
    case False
    have t: "take_packet q' ?p [] (of_nat ?x)
        = Some (q'\<lparr>next_seq := Some (of_nat (Suc i)), newest_capture_us := max (newest_capture_us q') (cap i)\<rparr>, heard F fc ?x (i, n))"
      if "fec q' = fc" for q'
      unfolding take_packet_def that fill_gap_sent [OF c x] played_sent [OF c x]
      using False by (simp add: heard_def sent_def add.commute)
    have st: "follows cap fc (q'\<lparr>next_seq := Some (of_nat (Suc i)), newest_capture_us := max (newest_capture_us q') (cap i)\<rparr>) (Some (max ?x (Suc i)))"
      if "fec q' = fc" for q'
    proof -
      have "max ?x (Suc i) = Suc i" using False by simp
      moreover have "cap j \<le> max (newest_capture_us q') (cap i)" if "j < Suc i" for j
        using monoD [OF mono, of j i] that by (simp add: le_max_iff_disj)
      ultimately show ?thesis using m that by (simp add: follows_def del: of_nat_Suc)
    qed
    have f: "fec q = fc" using q by (simp add: follows_def)
    show ?thesis
    proof (cases "next_seq q \<noteq> None \<and> int i - int ?x > 0")
      case True
      let ?q = "q\<lparr>lost_packets := saturating_add (lost_packets q) (min (of_int (int i - int ?x)) 50)\<rparr>"
      have "push q ?p = take_packet ?q ?p [] (of_nat ?x)"
        unfolding push_def nx Let_def ahead using False True by (simp add: RESTART_BEHIND_def)
      then show ?thesis using t [of ?q] st [of ?q] f by simp
    next
      case noloss: False
      then have "push q ?p = take_packet q ?p [] (of_nat ?x)"
        unfolding push_def nx Let_def ahead using False by (auto simp: RESTART_BEHIND_def)
      then show ?thesis using t [of q] st [of q] f by simp
    qed
  qed
qed

text \<open>A whole run: the next frame after some packets, and what was heard.\<close>

definition heard_to :: "nat \<Rightarrow> (nat \<times> nat) list \<Rightarrow> nat" where
  "heard_to x ar = fold (\<lambda>a x. max x (Suc (fst a))) ar x"

primrec heard_all :: "(nat \<Rightarrow> bytes) \<Rightarrow> bool \<Rightarrow> nat \<Rightarrow> (nat \<times> nat) list \<Rightarrow> decode list" where
  "heard_all F fc x [] = []"
| "heard_all F fc x (a # ar) = heard F fc x a @ heard_all F fc (max x (Suc (fst a))) ar"

definition first_of :: "(nat \<times> nat) list \<Rightarrow> nat" where
  "first_of ar = (case ar of [] \<Rightarrow> 0 | a # _ \<Rightarrow> Suc (fst a) - snd a)"

lemma heard_all_snoc: "heard_all F fc x (ar @ [a]) = heard_all F fc x ar @ heard F fc (heard_to x ar) a"
  by (induction ar arbitrary: x) (auto simp: heard_to_def)

lemma play_from:
  "mono cap \<Longrightarrow> \<forall>a \<in> set ar. carried a \<Longrightarrow> follows cap fc q (Some x) \<Longrightarrow>
    \<exists>q'. play q (map (sent F cap c) ar) = Some (q', heard_all F fc x ar)"
proof (induction ar arbitrary: q x)
  case (Cons a ar)
  obtain i n where a: "a = (i, n)" by (cases a)
  from push_sent [OF Cons.prems(1,3), of i n F c] Cons.prems(2) obtain q' where
    q': "push q (sent F cap c a) = Some (q', heard F fc x a)" "follows cap fc q' (Some (max x (Suc (fst a))))"
    by (auto simp: a start_def)
  from Cons.IH [OF Cons.prems(1) _ q'(2)] Cons.prems(2) obtain q'' where
    "play q' (map (sent F cap c) ar) = Some (q'', heard_all F fc (max x (Suc (fst a))) ar)" by auto
  then show ?case by (simp add: q'(1))
qed simp

lemma play_stream:
  assumes "mono cap" "\<forall>a \<in> set ar. carried a"
  shows "\<exists>q. play (set_fec new_sequencer fc) (map (sent F cap c) ar) = Some (q, heard_all F fc (first_of ar) ar)"
proof (cases ar)
  case (Cons a ar')
  obtain i n where a: "a = (i, n)" by (cases a)
  have "follows cap fc (set_fec new_sequencer fc) None" by (simp add: follows_def set_fec_def new_sequencer_def)
  from push_sent [OF assms(1) this, of i n F c] assms(2) obtain q' where
    q': "push (set_fec new_sequencer fc) (sent F cap c a) = Some (q', heard F fc (first_of ar) a)"
      "follows cap fc q' (Some (max (first_of ar) (Suc (fst a))))"
    by (auto simp: a start_def first_of_def Cons)
  from play_from [OF assms(1) _ q'(2), of ar' F c] assms(2) obtain q'' where
    "play q' (map (sent F cap c) ar') = Some (q'', heard_all F fc (max (first_of ar) (Suc (fst a))) ar')"
    by (auto simp: Cons)
  then show ?thesis by (simp add: Cons q'(1) [unfolded Cons])
qed simp

text \<open>The frames among what is to be decoded, and that a FEC copy always rides its own frame.\<close>

definition frames_in :: "decode list \<Rightarrow> bytes list" where
  "frames_in out = concat (map (\<lambda>d. case d of Frame f \<Rightarrow> [f] | _ \<Rightarrow> []) out)"

definition fec_rides :: "decode list \<Rightarrow> bool" where
  "fec_rides out \<longleftrightarrow> (\<forall>us b vs. out = us @ Fec b # vs \<longrightarrow> (\<exists>ws. vs = Frame b # ws))"

lemma fec_rides_Nil [simp]: "fec_rides []"
  by (simp add: fec_rides_def)

lemma frames_in_append: "frames_in (xs @ ys) = frames_in xs @ frames_in ys"
  by (simp add: frames_in_def)

lemma fec_rides_append: "fec_rides xs \<Longrightarrow> fec_rides ys \<Longrightarrow> fec_rides (xs @ ys)"
  unfolding fec_rides_def
proof (intro allI impI)
  fix us b vs
  assume xs: "\<forall>us b vs. xs = us @ Fec b # vs \<longrightarrow> (\<exists>ws. vs = Frame b # ws)"
    and ys: "\<forall>us b vs. ys = us @ Fec b # vs \<longrightarrow> (\<exists>ws. vs = Frame b # ws)"
    and e: "xs @ ys = us @ Fec b # vs"
  from e consider r where "us = xs @ r" "ys = r @ Fec b # vs" | r where "xs = us @ Fec b # r" "vs = r @ ys"
    by (auto simp: append_eq_append_conv2 Cons_eq_append_conv append_eq_Cons_conv)
  then show "\<exists>ws. vs = Frame b # ws"
  proof cases
    case 1
    then show ?thesis using ys by blast
  next
    case 2
    then obtain ws where "r = Frame b # ws" using xs by blast
    then show ?thesis using 2 by simp
  qed
qed

lemma fec_rides_none: "(\<And>b. Fec b \<notin> set out) \<Longrightarrow> fec_rides out"
  unfolding fec_rides_def by (metis in_set_conv_decomp)

lemma frames_in_frames [simp]: "frames_in (map (\<lambda>j. Frame (F j)) js) = map F js"
  by (induction js) (simp_all add: frames_in_def)

lemma frames_in_conceal [simp]: "frames_in (replicate k Conceal) = []" "frames_in (Fec b # out) = frames_in out" "frames_in [] = []"
  by (simp_all add: frames_in_def)

lemma frames_in_heard: "frames_in (heard F fc x a) = map F [max x (Suc (fst a) - snd a)..<Suc (fst a)]"
  by (cases a) (auto simp: heard_def frames_in_append simp del: upt_Suc)

lemma heard_no_restart: "Restart \<notin> set (heard F fc x a)"
  by (cases a) (simp add: heard_def image_iff del: upt_Suc)

lemma heard_all_no_restart: "Restart \<notin> set (heard_all F fc x ar)"
  by (induction ar arbitrary: x) (auto simp: heard_no_restart)

lemma fec_rides_heard:
  assumes "carried a"
  shows "fec_rides (heard F fc x a)"
proof -
  obtain i n where a: "a = (i, n)" by (cases a)
  let ?a = "Suc i - n"
  have n: "0 < n" "n \<le> Suc i" using assms by (simp_all add: a carried_def)
  have fr: "fec_rides (map (\<lambda>j. Frame (F j)) js)" "fec_rides (replicate k Conceal)" for js k
    by (auto intro: fec_rides_none)
  show ?thesis
  proof (cases "x \<le> i \<and> ?a > x \<and> fc")
    case True
    have "[max x ?a..<Suc i] = ?a # [Suc ?a..<Suc i]" using True n by (simp add: upt_conv_Cons max_def del: upt_Suc)
    then have h: "heard F fc x a = replicate (min (?a - x - 1) MAX_CONCEAL) Conceal @ (Fec (F ?a) # Frame (F ?a) # map (\<lambda>j. Frame (F j)) [Suc ?a..<Suc i])"
      using True by (simp add: a heard_def del: upt_Suc)
    have "fec_rides (Fec (F ?a) # Frame (F ?a) # map (\<lambda>j. Frame (F j)) js)" for js
      using fr(1) [of js] unfolding fec_rides_def by (auto simp: Cons_eq_append_conv)
    then show ?thesis unfolding h by (intro fec_rides_append fr)
  next
    case False
    then show ?thesis by (auto simp: a heard_def simp del: upt_Suc intro!: fec_rides_append fr fec_rides_none)
  qed
qed

text \<open>The numbers of the frames played.\<close>

primrec heard_numbers :: "nat \<Rightarrow> (nat \<times> nat) list \<Rightarrow> nat list" where
  "heard_numbers x [] = []"
| "heard_numbers x (a # ar) = [max x (Suc (fst a) - snd a)..<Suc (fst a)] @ heard_numbers (max x (Suc (fst a))) ar"

lemma frames_in_heard_all: "frames_in (heard_all F fc x ar) = map F (heard_numbers x ar)"
  by (induction ar arbitrary: x) (simp_all add: frames_in_append frames_in_heard del: upt_Suc)

lemma heard_numbers_ge: "j \<in> set (heard_numbers x ar) \<Longrightarrow> x \<le> j"
  by (induction ar arbitrary: x) (fastforce simp del: upt_Suc)+

lemma heard_numbers_sorted: "sorted_wrt (<) (heard_numbers x ar)"
  by (induction ar arbitrary: x) (auto simp: sorted_wrt_append simp del: upt_Suc dest!: heard_numbers_ge)

lemma heard_numbers_newest:
  "\<forall>a \<in> set ar. carried a \<Longrightarrow> ar = us @ a # vs \<Longrightarrow> x \<le> fst a \<Longrightarrow> \<forall>b \<in> set us. fst b < fst a \<Longrightarrow> fst a \<in> set (heard_numbers x ar)"
proof (induction us arbitrary: x ar)
  case Nil
  then show ?case by (cases a) (auto simp: carried_def)
next
  case (Cons b us)
  then show ?case by (auto simp del: upt_Suc intro!: Cons.IH)
qed

lemma heard_to_newest:
  "ar \<noteq> [] \<Longrightarrow> x \<le> Suc (fst (hd ar)) \<Longrightarrow> heard_to x ar = Suc (Max (fst ` set ar))"
proof (induction ar rule: rev_induct)
  case (snoc a ar)
  then show ?case by (cases "ar = []") (simp_all add: heard_to_def max.commute)
qed simp

lemma fec_rides_heard_all: "\<forall>a \<in> set ar. carried a \<Longrightarrow> fec_rides (heard_all F fc x ar)"
  by (induction ar arbitrary: x) (auto intro!: fec_rides_append fec_rides_heard)

text \<open>Packets whose copies reach back to what was played leave no gap.\<close>

lemma heard_whole:
  assumes "carried a" "fst a \<le> m + snd a" "x = Suc m"
  shows "heard F fc x a = map (\<lambda>j. Frame (F j)) [x..<Suc (fst a)]"
  using assms by (cases a) (auto simp: heard_def carried_def max_def simp del: upt_Suc)

lemma heard_all_whole:
  "ar \<noteq> [] \<Longrightarrow> \<forall>a \<in> set ar. carried a \<Longrightarrow>
   (\<And>us a vs. ar = us @ a # vs \<Longrightarrow> us \<noteq> [] \<Longrightarrow> fst a \<le> Max (fst ` set us) + snd a) \<Longrightarrow>
   heard_all F fc (first_of ar) ar = map (\<lambda>j. Frame (F j)) [first_of ar..<Suc (Max (fst ` set ar))]"
proof (induction ar rule: rev_induct)
  case (snoc a ar)
  show ?case
  proof (cases "ar = []")
    case True
    then show ?thesis by (cases a) (simp add: first_of_def heard_def del: upt_Suc)
  next
    case False
    have f: "first_of (ar @ [a]) = first_of ar" using False by (cases ar) (simp_all add: first_of_def)
    have hd: "carried (hd ar)" using False snoc.prems(2) by (cases ar) auto
    have x: "heard_to (first_of ar) ar = Suc (Max (fst ` set ar))"
      using False by (intro heard_to_newest) (cases ar; simp add: first_of_def)+
    have "Max (fst ` set ar) \<ge> fst (hd ar)" using False by (intro Max_ge) auto
    moreover have "first_of ar \<le> Suc (fst (hd ar))" using False by (cases ar) (simp_all add: first_of_def)
    ultimately have first: "first_of ar \<le> Suc (Max (fst ` set ar))" by linarith
    have ih: "heard_all F fc (first_of ar) ar = map (\<lambda>j. Frame (F j)) [first_of ar..<Suc (Max (fst ` set ar))]"
    proof (rule snoc.IH [OF False])
      show "\<forall>a \<in> set ar. carried a" using snoc.prems(2) by simp
      show "fst b \<le> Max (fst ` set us) + snd b" if "ar = us @ b # vs" "us \<noteq> []" for us b vs
        using snoc.prems(3) [of us b "vs @ [a]"] that by simp
    qed
    have last: "heard F fc (Suc (Max (fst ` set ar))) a = map (\<lambda>j. Frame (F j)) [Suc (Max (fst ` set ar))..<Suc (fst a)]"
      using snoc.prems(2) snoc.prems(3) [of ar a "[]"] False by (intro heard_whole) auto
    have mx: "Max (fst ` set (ar @ [a])) = max (Max (fst ` set ar)) (fst a)"
      using False by (simp add: max.commute)
    have "[first_of ar..<Suc (Max (fst ` set ar))] @ [Suc (Max (fst ` set ar))..<Suc (fst a)]
        = [first_of ar..<Suc (max (Max (fst ` set ar)) (fst a))]"
    proof (cases "Max (fst ` set ar) \<le> fst a")
      case True
      then show ?thesis
        using upt_add_eq_append [OF first, of "fst a - Max (fst ` set ar)"] by (simp add: max_def del: upt_Suc)
    qed (simp add: max_def del: upt_Suc)
    then show ?thesis unfolding f mx heard_all_snoc x ih last by (simp only: map_append [symmetric])
  qed
qed simp

section \<open>Properties\<close>

text \<open>
  \<open>AudioPacket::parse\<close> accepts exactly what \<open>to_bytes\<close> writes of packets of 1 to 255 frames below 64 KiB, with any
  bytes after it, and gives back the packet written.
\<close>

lemma audio_parse_iff: "audio_parse b = Some p \<longleftrightarrow> packet_ok p \<and> (\<exists>rest. b = audio_bytes p @ rest)"
  by (rule audio_parse_iff_ok)

text \<open>
  C15. Whatever packets of a stream arrive, and in whatever order or number, the sequencer never panics and never takes
  the stream for a new one; it plays each frame at most once and in order; the newest frame of every packet that is
  newer than those before it is played; and a FEC copy is always decoded just before the frame it rides in.
\<close>

theorem audio_plays_in_order:
  assumes "mono cap" and "\<forall>(i, n) \<in> set arrivals. 0 < n \<and> n \<le> Suc i \<and> i < 2 ^ 31 - 1"
  shows "\<exists>q outs js. play (set_fec new_sequencer fc) (map (sent F cap c) arrivals) = Some (q, outs) \<and>
    Restart \<notin> set outs \<and> fec_rides outs \<and>
    frames_in outs = map F js \<and> sorted_wrt (<) js \<and>
    (\<forall>us a vs. arrivals = us @ a # vs \<longrightarrow> (\<forall>b \<in> set us. fst b < fst a) \<longrightarrow> fst a \<in> set js)"
proof -
  let ?x = "first_of arrivals"
  have c: "\<forall>a \<in> set arrivals. carried a" using assms(2) by (auto simp: carried_def)
  from play_stream [OF assms(1) this] obtain q where
    q: "play (set_fec new_sequencer fc) (map (sent F cap c) arrivals) = Some (q, heard_all F fc ?x arrivals)" by blast
  have "fst a \<in> set (heard_numbers ?x arrivals)" if a: "arrivals = us @ a # vs" "\<forall>b \<in> set us. fst b < fst a" for us a vs
  proof (rule heard_numbers_newest [OF c a(1) _ a(2)])
    have "0 < snd a" "\<forall>b \<in> set us. 0 < snd b" using c a(1) by (auto simp: carried_def)
    then show "?x \<le> fst a" using a by (cases us) (auto simp: first_of_def)
  qed
  then show ?thesis
    using q heard_all_no_restart fec_rides_heard_all [OF c] frames_in_heard_all heard_numbers_sorted by blast
qed

lemma mono_clock: "mono (\<lambda>i. of_nat (min i 1000) :: u64)"
  by (rule monoI) (simp add: word_le_nat_alt unat_of_nat)

theorem audio_plays_in_order_witness:
  "\<exists>q outs js. play (set_fec new_sequencer True)
      (map (sent (\<lambda>i. [of_nat i]) (\<lambda>i. of_nat (min i 1000)) 2) [(3, 2), (9, 2), (7, 2), (9, 1)]) = Some (q, outs) \<and>
    Restart \<notin> set outs \<and> fec_rides outs \<and>
    frames_in outs = map (\<lambda>i. [of_nat i]) js \<and> sorted_wrt (<) js \<and>
    (\<forall>us a vs. [(3, 2), (9, 2), (7, 2), (9 :: nat, 1 :: nat)] = us @ a # vs \<longrightarrow> (\<forall>b \<in> set us. fst b < fst a) \<longrightarrow> fst a \<in> set js)"
  by (rule audio_plays_in_order [OF mono_clock]) simp

text \<open>
  Copies hide losses: as long as each packet's oldest frame follows on what has arrived, in whatever order the packets
  come, the sequencer plays exactly every frame from the first packet's oldest to the newest, with nothing concealed.
\<close>

lemma audio_copies_hide_losses:
  assumes "mono cap" and "\<forall>(i, n) \<in> set arrivals. 0 < n \<and> n \<le> Suc i \<and> i < 2 ^ 31 - 1" and "arrivals \<noteq> []"
    and "\<And>us a vs. arrivals = us @ a # vs \<Longrightarrow> us \<noteq> [] \<Longrightarrow> fst a \<le> Max (fst ` set us) + snd a"
  shows "\<exists>q. play (set_fec new_sequencer fc) (map (sent F cap c) arrivals) =
    Some (q, map (\<lambda>j. Frame (F j)) [Suc (fst (hd arrivals)) - snd (hd arrivals)..<Suc (Max (fst ` set arrivals))])"
proof -
  have c: "\<forall>a \<in> set arrivals. carried a" using assms(2) by (auto simp: carried_def)
  have "first_of arrivals = Suc (fst (hd arrivals)) - snd (hd arrivals)"
    using assms(3) by (cases arrivals) (simp_all add: first_of_def)
  then show ?thesis using play_stream [OF assms(1) c, where fc = fc and F = F and c = c] heard_all_whole [OF assms(3) c assms(4), where fc = fc and F = F] by simp
qed

theorem audio_copies_hide_losses_witness:
  "\<exists>q. play (set_fec new_sequencer True) (map (sent (\<lambda>i. [of_nat i]) (\<lambda>i. of_nat (min i 1000)) 2) [(3, 2), (5, 2), (4, 2), (7, 2)]) =
    Some (q, map (\<lambda>j. Frame [of_nat j]) [2..<8])"
proof -
  let ?ar = "[(3, 2), (5, 2), (4, 2), (7, 2)] :: (nat \<times> nat) list"
  have "\<exists>q. play (set_fec new_sequencer True) (map (sent (\<lambda>i. [of_nat i]) (\<lambda>i. of_nat (min i 1000)) 2) ?ar) =
    Some (q, map (\<lambda>j. Frame [of_nat j]) [Suc (fst (hd ?ar)) - snd (hd ?ar)..<Suc (Max (fst ` set ?ar))])"
    by (rule audio_copies_hide_losses [OF mono_clock]) (auto simp: Cons_eq_append_conv)
  then show ?thesis by (simp del: upt_Suc)
qed

end
