(* ===== verification/BulkTcp.thy ===== *)
theory BulkTcp
  imports Wire
begin

text \<open>
  The sealed record stream beside the link (\<open>bulk_tcp.rs\<close>): records of a length, a ciphertext and its tag, under a nonce
  made of direction, connection and record counter. AES-256-GCM is the \<open>ring\<close> crate's, as in \<open>Wire\<close>: \<open>sealf\<close> and \<open>openf\<close>
  are parameters. A reader's source is the bytes it will yield before its end.
\<close>

definition MAX_RECORD :: nat where "MAX_RECORD = 4 * 1024 * 1024"

fun dir_u8 :: "direction \<Rightarrow> u8" where
  "dir_u8 HostToClient = 1"
| "dir_u8 ClientToHost = 2"

definition record_nonce :: "direction \<Rightarrow> u8 \<Rightarrow> u64 \<Rightarrow> bytes" where
  "record_nonce d l counter = [dir_u8 d, l, 0, 0] @ u64_le counter"

datatype bulk_error = TooBig | Eof | RecordLength | DidntOpen

text \<open>\<open>Sealer\<close> and \<open>Opener\<close>: the key, direction, connection and counter; the sealer's buffer is empty between calls.\<close>

record bulk_end =
  b_key :: bytes
  b_dir :: direction
  b_lane :: u8
  b_counter :: u64

definition bulk_lane :: "bytes \<Rightarrow> direction \<Rightarrow> u8 \<Rightarrow> bulk_end" where
  "bulk_lane k d l = \<lparr>b_key = k, b_dir = d, b_lane = l, b_counter = 0\<rparr>"

definition bulk_new :: "bytes \<Rightarrow> direction \<Rightarrow> bulk_end" where
  "bulk_new k d = bulk_lane k d 0"

definition skip_one :: "bulk_end \<Rightarrow> bulk_end" where
  "skip_one e = e\<lparr>b_counter := b_counter e + 1\<rparr>"

definition end_nonce :: "bulk_end \<Rightarrow> bytes" where
  "end_nonce e = record_nonce (b_dir e) (b_lane e) (b_counter e)"

text \<open>\<open>Sealer::write\<close>: the bytes it writes.\<close>

definition bulk_write :: "aead_seal \<Rightarrow> bulk_end \<Rightarrow> bytes \<Rightarrow> bulk_end \<times> (bulk_error + bytes)" where
  "bulk_write sealf e plain =
    (if length plain + TAG_LEN > MAX_RECORD then (e, Inl TooBig)
     else (skip_one e, Inr (u32_le (of_nat (length plain + TAG_LEN)) @ sealf (b_key e) (end_nonce e) [] plain)))"

text \<open>\<open>Opener::read\<close>: with the bytes left.\<close>

definition bulk_read :: "aead_open \<Rightarrow> bulk_end \<Rightarrow> bytes \<Rightarrow> bulk_end \<times> bytes \<times> (bulk_error + bytes)" where
  "bulk_read openf e src =
    (if length src < 4 then (e, [], Inl Eof)
     else (let len = unat (u32_of_le (take 4 src)); src = drop 4 src
           in if \<not> (TAG_LEN \<le> len \<and> len \<le> MAX_RECORD) then (e, src, Inl RecordLength)
              else if length src < len then (e, [], Inl Eof)
              else (case openf (b_key e) (end_nonce e) [] (take len src) of
                      None \<Rightarrow> (e, drop len src, Inl DidntOpen)
                    | Some plain \<Rightarrow> (skip_one e, drop len src, Inr plain))))"

text \<open>A stream: record after record, up to the first error, which ends it.\<close>

primrec write_all :: "aead_seal \<Rightarrow> bulk_end \<Rightarrow> bytes list \<Rightarrow> bulk_end \<times> (bulk_error + bytes)" where
  "write_all sealf e [] = (e, Inr [])"
| "write_all sealf e (p # ps) =
    (case bulk_write sealf e p of
       (e, Inl x) \<Rightarrow> (e, Inl x)
     | (e, Inr b) \<Rightarrow> (case write_all sealf e ps of (e, Inl x) \<Rightarrow> (e, Inl x) | (e, Inr bs) \<Rightarrow> (e, Inr (b @ bs))))"

lemma bulk_read_less: "bulk_read openf e src = (e', src', Inr p) \<Longrightarrow> length src' < length src"
  by (auto simp: bulk_read_def Let_def split: if_splits option.splits)

function read_all :: "aead_open \<Rightarrow> bulk_end \<Rightarrow> bytes \<Rightarrow> bytes list \<times> bulk_error" where
  "read_all openf e src =
    (case bulk_read openf e src of
       (e, src', Inl x) \<Rightarrow> ([], x)
     | (e, src', Inr p) \<Rightarrow> (let r = read_all openf e src' in (p # fst r, snd r)))"
  by pat_completeness auto
termination
  by (relation "measure (\<lambda>(_, _, src). length src)") (auto dest: bulk_read_less [OF sym])

declare read_all.simps [simp del]

section \<open>Round trip\<close>

lemma skip_one_simps [simp]:
  "b_key (skip_one e) = b_key e" "b_dir (skip_one e) = b_dir e" "b_lane (skip_one e) = b_lane e"
  "b_counter (skip_one e) = b_counter e + 1"
  by (simp_all add: skip_one_def)

lemma read_written:
  assumes "aead_ok sealf openf" "bulk_write sealf e p = (e', Inr b)"
  shows "e' = skip_one e" "bulk_read openf e (b @ rest) = (skip_one e, rest, Inr p)"
proof -
  let ?c = "sealf (b_key e) (end_nonce e) [] p" and ?n = "length p + TAG_LEN"
  from assms(2) have b: "b = u32_le (of_nat ?n) @ ?c" and n: "?n \<le> MAX_RECORD" and e: "e' = skip_one e"
    by (auto simp: bulk_write_def split: if_splits)
  have c: "length ?c = ?n" "openf (b_key e) (end_nonce e) [] ?c = Some p" using assms(1) by (auto simp: aead_ok_def)
  have u: "unat (of_nat ?n :: u32) = ?n" unfolding unat_of_nat using n by (simp add: MAX_RECORD_def)
  show "e' = skip_one e" by (rule e)
  show "bulk_read openf e (b @ rest) = (skip_one e, rest, Inr p)"
    using c n u by (simp add: bulk_read_def b Let_def del: of_nat_add)
qed

lemma read_all_step:
  "bulk_read openf e src = (e', src', Inr p) \<Longrightarrow> read_all openf e src = (p # fst (read_all openf e' src'), snd (read_all openf e' src'))"
  by (subst read_all.simps) (simp add: Let_def)

lemma read_all_written:
  "aead_ok sealf openf \<Longrightarrow> write_all sealf e ps = (e', Inr b) \<Longrightarrow> read_all openf e b = (ps, Eof)"
proof (induction ps arbitrary: e b)
  case Nil
  then show ?case by (subst read_all.simps) (simp add: bulk_read_def)
next
  case (Cons p ps)
  from Cons.prems(2) obtain e1 b1 b2 where w: "bulk_write sealf e p = (e1, Inr b1)"
    and ws: "write_all sealf e1 ps = (e', Inr b2)" and b: "b = b1 @ b2"
    by (auto split: prod.splits sum.splits)
  note r = read_written [OF Cons.prems(1) w]
  show ?case unfolding b read_all_step [OF r(2)] using Cons.IH [OF Cons.prems(1) ws] by (simp add: r(1))
qed

section \<open>An attacker's stream\<close>

text \<open>
  What authenticated encryption promises of a key: nothing opens but what its holders sealed, under the nonce they sealed
  it with. \<open>written d l\<close> is what they wrote on connection \<open>l\<close> in direction \<open>d\<close>, in order.
\<close>

definition only_sealed_opens :: "aead_open \<Rightarrow> bytes \<Rightarrow> (direction \<Rightarrow> u8 \<Rightarrow> bytes list) \<Rightarrow> bool" where
  "only_sealed_opens openf k written \<longleftrightarrow>
    (\<forall>n c p. openf k n [] c = Some p \<longrightarrow>
      (\<exists>d l i. i < length (written d l) \<and> n = record_nonce d l (of_nat i) \<and> p = written d l ! i))"

lemma record_nonce_inj: "record_nonce d l c = record_nonce d' l' c' \<longleftrightarrow> d = d' \<and> l = l' \<and> c = c'"
proof
  assume "record_nonce d l c = record_nonce d' l' c'"
  then have "dir_u8 d = dir_u8 d'" "l = l'" "u64_of_le (u64_le c) = u64_of_le (u64_le c')"
    by (simp_all add: record_nonce_def)
  then show "d = d' \<and> l = l' \<and> c = c'" by (cases d; cases d') simp_all
qed simp

lemma read_prefix:
  assumes len: "\<And>d l. length (written d l) < 2 ^ 64"
  shows "only_sealed_opens openf k written \<Longrightarrow> b_key e = k \<Longrightarrow> b_dir e = d \<Longrightarrow> b_lane e = l \<Longrightarrow> b_counter e = of_nat i \<Longrightarrow> i < 2 ^ 64 \<Longrightarrow>
    \<exists>j. fst (read_all openf e src) = take j (drop i (written d l))"
proof (induction openf e src arbitrary: i rule: read_all.induct)
  case (1 openf e src)
  show ?case
  proof (cases "snd (snd (bulk_read openf e src))")
    case (Inl x)
    then have "fst (read_all openf e src) = []"
      by (cases "bulk_read openf e src", subst read_all.simps) simp
    then show ?thesis by (intro exI [of _ 0]) simp
  next
    case (Inr p)
    then obtain src' where r: "bulk_read openf e src = (skip_one e, src', Inr p)"
      by (auto simp: bulk_read_def Let_def split: if_splits option.splits)
    have rd: "read_all openf e src = (p # fst (read_all openf (skip_one e) src'), snd (read_all openf (skip_one e) src'))"
      by (rule read_all_step [OF r])
    from r obtain c where "openf k (record_nonce d l (of_nat i)) [] c = Some p"
      using "1.prems" by (auto simp: bulk_read_def Let_def end_nonce_def split: if_splits option.splits)
    then obtain d' l' i' where x: "i' < length (written d' l')" "p = written d' l' ! i'"
        "record_nonce d l (of_nat i) = record_nonce d' l' (of_nat i')"
      using "1.prems"(1) unfolding only_sealed_opens_def by blast
    then have i': "i' < length (written d l)" "(of_nat i :: u64) = of_nat i'" "p = written d l ! i'"
      by (simp_all only: record_nonce_inj)
    have "unat (of_nat i :: u64) = i" "unat (of_nat i' :: u64) = i'"
      using "1.prems"(6) i'(1) len [of d l] by (simp_all add: unat_of_nat)
    then have "i = i'" using i'(2) by metis
    then have d: "drop i (written d l) = p # drop (Suc i) (written d l)" using i' by (simp add: Cons_nth_drop_Suc)
    have "Suc i < 2 ^ 64" using i' \<open>i = i'\<close> len [of d l] by linarith
    with "1.IH" [OF r [symmetric] refl refl, of "Suc i"] "1.prems" obtain j
      where "fst (read_all openf (skip_one e) src') = take j (drop (Suc i) (written d l))" by auto
    then show ?thesis unfolding rd d by (intro exI [of _ "Suc j"]) simp
  qed
qed

section \<open>Properties\<close>

lemma write_all_cases:
  "case snd (write_all sealf e ps) of
     Inl x \<Rightarrow> x = TooBig \<and> (\<exists>p \<in> set ps. MAX_RECORD < length p + TAG_LEN)
   | Inr b \<Rightarrow> \<forall>p \<in> set ps. length p + TAG_LEN \<le> MAX_RECORD"
proof (induction ps arbitrary: e)
  case (Cons p ps)
  then show ?case using Cons.IH [of "skip_one e"]
    by (cases "write_all sealf (skip_one e) ps") (auto simp: bulk_write_def split: sum.splits)
qed simp

text \<open>
  A stream of records, each no larger than the code allows, is read back record by record to its end; a stream with a
  larger one is refused with an error.
\<close>

lemma bulk_stream_roundtrip:
  assumes "aead_ok sealf openf"
  shows "case snd (write_all sealf (bulk_lane k d l) ps) of
     Inl x \<Rightarrow> x = TooBig \<and> (\<exists>p \<in> set ps. MAX_RECORD < length p + TAG_LEN)
   | Inr b \<Rightarrow> (\<forall>p \<in> set ps. length p + TAG_LEN \<le> MAX_RECORD) \<and> read_all openf (bulk_lane k d l) b = (ps, Eof)"
  using write_all_cases [where sealf = sealf and e = "bulk_lane k d l" and ps = ps] read_all_written [OF assms, where e = "bulk_lane k d l" and ps = ps]
  by (cases "write_all sealf (bulk_lane k d l) ps") (auto split: sum.splits)

theorem bulk_stream_roundtrip_witness:
  "case snd (write_all toy_seal (bulk_lane [7] HostToClient 2) [[1, 2], [], [3]]) of
     Inl x \<Rightarrow> x = TooBig \<and> (\<exists>p \<in> set [[1, 2], [], [3 :: u8]]. MAX_RECORD < length p + TAG_LEN)
   | Inr b \<Rightarrow> (\<forall>p \<in> set [[1, 2], [], [3 :: u8]]. length p + TAG_LEN \<le> MAX_RECORD) \<and>
       read_all toy_open (bulk_lane [7] HostToClient 2) b = ([[1, 2], [], [3]], Eof)"
  by (rule bulk_stream_roundtrip [OF toy_aead_ok])

text \<open>
  C14. Whatever bytes a reader is given (truncated, replayed, reordered, of another connection or of the other direction),
  the records it accepts before the stream ends in an error are the first records written on its own connection in its own
  direction, in order, given that only what was sealed under the key opens.
\<close>

theorem bulk_reads_a_prefix:
  assumes "only_sealed_opens openf k written" "\<And>d l. length (written d l) < 2 ^ 64"
  shows "\<exists>j. fst (read_all openf (bulk_lane k d l) src) = take j (written d l)"
  using read_prefix [OF assms(2,1), of "bulk_lane k d l" d l 0 src] by (simp add: bulk_lane_def)

definition one_record_open :: aead_open where
  "one_record_open k n a c = (if n = record_nonce HostToClient 3 0 \<and> c = replicate 16 9 then Some [] else None)"

theorem bulk_reads_a_prefix_witness:
  "\<exists>j. fst (read_all one_record_open (bulk_lane [1] HostToClient 3) (concat (replicate 2 ([16, 0, 0, 0] @ replicate 16 9)))) = take j [[]]"
proof -
  define written :: "direction \<Rightarrow> u8 \<Rightarrow> bytes list" where
    "written = (\<lambda>d l. if d = HostToClient \<and> l = 3 then [[]] else [])"
  have "only_sealed_opens one_record_open [1] written"
    by (auto simp: only_sealed_opens_def one_record_open_def written_def split: if_splits intro!: exI [of _ HostToClient] exI [of _ 3] exI [of _ 0])
  moreover have "length (written d l) < 2 ^ 64" for d l by (simp add: written_def)
  ultimately have "\<exists>j. fst (read_all one_record_open (bulk_lane [1] HostToClient 3) (concat (replicate 2 ([16, 0, 0, 0] @ replicate 16 9))))
      = take j (written HostToClient 3)"
    by (rule bulk_reads_a_prefix)
  then show ?thesis by (simp only: written_def if_True simp_thms)
qed

end
