(* ===== verification/Connect.thy ===== *)
theory Connect
  imports X224
begin

text \<open>
  Connecting: the configuration and the negotiation state machine of \<open>rdp-core/lib.rs\<close>, one TPKT read from a socket
  that delivers in pieces, the negotiation and its legacy retry (\<open>rdp-client/transport.rs\<close>), and the choice of security
  for a session, its credentials and its redirection (\<open>rdp-client/connect.rs\<close> and \<open>session.rs\<close>). Strings are their
  UTF-8 bytes. The network is a list of dials, each an error or what the socket will yield; TLS and CredSSP are outside the
  crates, and whether they succeed is an argument. \<open>None\<close> is a panic.
\<close>

section \<open>Configuration\<close>

record credentials =
  cred_domain :: bytes
  cred_username :: bytes
  cred_password :: bytes

record reverse_connect_config =
  gateway_fqdn :: bytes
  resource_id :: bytes
  tenant_id :: bytes
  rc_session_id :: bytes
  access_token :: bytes
  rc_load_balance_info :: bytes
  application_name :: bytes
  remote_application :: bytes
  rdstls_password :: bytes
  rdstls_domain :: bytes

record monitor_def =
  mon_left :: u32
  mon_top :: u32
  mon_right :: u32
  mon_bottom :: u32
  mon_primary :: bool

record client_config =
  hostname :: bytes
  port :: u16
  cfg_width :: u16
  cfg_height :: u16
  cfg_credentials :: credentials
  allow_legacy_fallback :: bool
  allow_invalid_certificate :: bool
  drive_paths :: "bytes list"
  monitors :: "monitor_def list"
  force_legacy :: bool
  keyboard_layout :: "u32 option"
  color_depth :: "u16 option"
  enable_rfx :: bool
  load_balance_info :: "bytes option"
  redirected_session_id :: "u32 option"
  reverse_connect :: "reverse_connect_config option"
  shortpath :: bool
  multitransport :: bool

definition default_credentials :: credentials where
  "default_credentials = \<lparr>cred_domain = [], cred_username = [], cred_password = []\<rparr>"

definition default_config :: client_config where
  "default_config = \<lparr>hostname = [], port = 3389, cfg_width = 1920, cfg_height = 1080, cfg_credentials = default_credentials,
     allow_legacy_fallback = True, allow_invalid_certificate = False, drive_paths = [], monitors = [],
     force_legacy = False, keyboard_layout = None, color_depth = None, enable_rfx = False, load_balance_info = None,
     redirected_session_id = None, reverse_connect = None, shortpath = False, multitransport = False\<rparr>"

text \<open>\<open>str::split_once\<close> and \<open>rsplit_once\<close> at a one-byte character.\<close>

definition split_once :: "u8 \<Rightarrow> bytes \<Rightarrow> (bytes \<times> bytes) option" where
  "split_once c s = (case dropWhile (\<lambda>b. b \<noteq> c) s of [] \<Rightarrow> None | _ # rest \<Rightarrow> Some (takeWhile (\<lambda>b. b \<noteq> c) s, rest))"

definition rsplit_once :: "u8 \<Rightarrow> bytes \<Rightarrow> (bytes \<times> bytes) option" where
  "rsplit_once c s = map_option (\<lambda>(a, b). (rev b, rev a)) (split_once c (rev s))"

definition split_domain_user :: "bytes \<Rightarrow> bytes \<Rightarrow> bytes \<times> bytes" where
  "split_domain_user domain username =
    (case split_once 0x5C username of
       Some (d, user) \<Rightarrow> (if d = [0x2E] then [] else d, user)
     | None \<Rightarrow> (domain, username))"

section \<open>The negotiation state machine\<close>

datatype core_error = Pdu pdu_error | Sequence bytes | NegotiationRejected neg_failure

datatype phase =
    Negotiation
  | Authentication
  | BasicSettings
  | ChannelJoin
  | Licensing
  | CapabilityExchange
  | Finalization
  | Active

record connector =
  c_config :: client_config
  c_phase :: phase
  c_selected :: u32
  c_requested :: u32

definition new_connector :: "client_config \<Rightarrow> connector" where
  "new_connector cfg =
    \<lparr>c_config = cfg, c_phase = Negotiation, c_selected = 0, c_requested = (if force_legacy cfg then 0 else SSL OR HYBRID)\<rparr>"

definition set_requested_protocols :: "connector \<Rightarrow> u32 \<Rightarrow> connector" where
  "set_requested_protocols c protocols = c\<lparr>c_requested := protocols, c_phase := Negotiation\<rparr>"

definition initial_request :: "connector \<Rightarrow> bytes option" where
  "initial_request c =
    (let user = cred_username (cfg_credentials (c_config c));
         request = \<lparr>requested_protocols = c_requested c, neg_flags = 0, cookie = (if user = [] then None else Some user)\<rparr>
     in case encode_request request of Inl e \<Rightarrow> None | Inr bs \<Rightarrow> Some bs)"

definition handle_negotiation_response :: "connector \<Rightarrow> bytes \<Rightarrow> connector \<times> (core_error + u32)" where
  "handle_negotiation_response c data =
    (case decode_confirm data of
       Inl e \<Rightarrow> (c, Inl (Pdu e))
     | Inr (Response _ selected, _) \<Rightarrow>
         (c\<lparr>c_selected := selected, c_phase := (if selected = 0 then BasicSettings else Authentication)\<rparr>, Inr selected)
     | Inr (Failure code, _) \<Rightarrow> (c, Inl (NegotiationRejected code))
     | Inr (NoNegotiation, _) \<Rightarrow> (c\<lparr>c_selected := 0, c_phase := BasicSettings\<rparr>, Inr 0))"

section \<open>Reading one PDU\<close>

text \<open>
  What \<open>read\<close> does when it is called: bytes are there (it takes what it needs), the peer has closed, the call was
  interrupted, nothing is there yet (and whether the deadline has passed by then), or it fails. A source that
  ends is closed.
\<close>

datatype read_event = Got bytes | Closed | Interrupted | NotYet bool | Failed

datatype io_error = UnexpectedEof | TimedOut | InvalidData | Refused | OtherIo

function read_exact_riding_timeouts ::
  "nat \<Rightarrow> bytes \<Rightarrow> read_event list \<Rightarrow> read_event list \<times> (io_error + bytes)" where
  "read_exact_riding_timeouts n buf es =
    (if length buf \<ge> n then (es, Inr buf)
     else (case es of
             [] \<Rightarrow> (es, Inl UnexpectedEof)
           | Got bs # es' \<Rightarrow>
               if bs = [] then (es', Inl UnexpectedEof)
               else (let k = min (n - length buf) (length bs)
                     in read_exact_riding_timeouts n (buf @ take k bs) (if k = length bs then es' else Got (drop k bs) # es'))
           | Closed # es' \<Rightarrow> (es', Inl UnexpectedEof)
           | Interrupted # es' \<Rightarrow> read_exact_riding_timeouts n buf es'
           | NotYet late # es' \<Rightarrow> if late then (es', Inl TimedOut) else read_exact_riding_timeouts n buf es'
           | Failed # es' \<Rightarrow> (es', Inl OtherIo)))"
  by pat_completeness auto
termination
  by (relation "measure (\<lambda>(n, buf, es). n - length buf + length es)") (auto simp: min_def length_greater_0_conv [symmetric] simp del: length_greater_0_conv split: if_splits)

declare read_exact_riding_timeouts.simps [simp del]

definition read_tpkt_pdu :: "read_event list \<Rightarrow> read_event list \<times> (io_error + bytes)" where
  "read_tpkt_pdu es =
    (case read_exact_riding_timeouts TPKT_HEADER_LEN [] es of
       (es, Inl e) \<Rightarrow> (es, Inl e)
     | (es, Inr header) \<Rightarrow>
         (case read_tpkt_len header of
            Inl _ \<Rightarrow> (es, Inl InvalidData)
          | Inr total_len \<Rightarrow>
              if total_len < length header then (es, Inl InvalidData)
              else (case read_exact_riding_timeouts (total_len - length header) [] es of
                      (es, Inl e) \<Rightarrow> (es, Inl e)
                    | (es, Inr body) \<Rightarrow> (es, Inr (header @ body)))))"

section \<open>Negotiating and falling back\<close>

datatype negotiate_error = Io io_error | Rejected neg_failure | Protocol core_error

type_synonym dial = "io_error + read_event list"

text \<open>With the request sent. Writing to a socket that is open does not fail here.\<close>

definition negotiate :: "read_event list \<Rightarrow> connector \<Rightarrow> (bytes \<times> connector \<times> (negotiate_error + u32)) option" where
  "negotiate es c =
    map_option (\<lambda>request.
      (request,
       case snd (read_tpkt_pdu es) of
         Inl e \<Rightarrow> (c, Inl (Io e))
       | Inr confirm \<Rightarrow>
           (case handle_negotiation_response c confirm of
              (c, Inl (NegotiationRejected code)) \<Rightarrow> (c, Inl (Rejected code))
            | (c, Inl e) \<Rightarrow> (c, Inl (Protocol e))
            | (c, Inr p) \<Rightarrow> (c, Inr p))))
      (initial_request c)"

text \<open>\<open>connect_with\<close>: the dials left, the requests sent, and the connector with the protocol the server selected.\<close>

type_synonym 'a dialled = "(dial list \<times> bytes list \<times> 'a) option"

definition connect_with :: "client_config \<Rightarrow> u32 \<Rightarrow> dial list \<Rightarrow> (negotiate_error + connector \<times> u32) dialled" where
  "connect_with cfg protocols dials =
    (case dials of
       [] \<Rightarrow> Some ([], [], Inl (Io Refused))
     | Inl e # dials \<Rightarrow> Some (dials, [], Inl (Io e))
     | Inr es # dials \<Rightarrow>
         map_option (\<lambda>(request, c, r). (dials, [request], and_then r (\<lambda>p. Inr (c, p))))
           (negotiate es (set_requested_protocols (new_connector cfg) protocols)))"

definition connect :: "client_config \<Rightarrow> dial list \<Rightarrow> (negotiate_error + connector \<times> u32) dialled" where
  "connect cfg dials =
    (case connect_with cfg (SSL OR HYBRID) dials of
       Some (dials, sent, Inl (Rejected SslNotAllowedByServer)) \<Rightarrow>
         if allow_legacy_fallback cfg
         then map_option (\<lambda>(dials, sent', r). (dials, sent @ sent', r)) (connect_with cfg 0 dials)
         else Some (dials, sent, Inl (Rejected SslNotAllowedByServer))
     | r \<Rightarrow> r)"

definition connect_legacy :: "client_config \<Rightarrow> dial list \<Rightarrow> (negotiate_error + connector \<times> u32) dialled" where
  "connect_legacy cfg dials = connect_with cfg 0 dials"

section \<open>The security of a session\<close>

datatype link = PlainTcp | TlsTunnel

definition contains :: "u32 \<Rightarrow> u32 \<Rightarrow> bool" where "contains p q \<longleftrightarrow> p AND q = q"

text \<open>
  The direct path of \<open>try_establish_direct\<close>: the link the session is activated on, and its protocol. \<open>secured p\<close> says whether
  the TLS upgrade, CredSSP and activation over it succeed.
\<close>

definition try_establish_direct ::
  "(u32 \<Rightarrow> bool) \<Rightarrow> client_config \<Rightarrow> dial list \<Rightarrow> (negotiate_error option + link \<times> u32) dialled" where
  "try_establish_direct secured cfg dials =
    (case connect cfg dials of
       None \<Rightarrow> None
     | Some (dials, sent, Inl e) \<Rightarrow> Some (dials, sent, Inl (Some e))
     | Some (dials, sent, Inr (_, p)) \<Rightarrow>
         if contains p SSL \<or> contains p HYBRID
         then if secured p then Some (dials, sent, Inr (TlsTunnel, p))
              else if allow_legacy_fallback cfg
              then map_option (\<lambda>(dials, sent', r).
                       (dials, sent @ sent', case r of Inl e \<Rightarrow> Inl (Some e) | Inr (_, p) \<Rightarrow> Inr (PlainTcp, p)))
                     (connect_legacy cfg dials)
              else Some (dials, sent, Inl None)
         else Some (dials, sent, Inr (PlainTcp, p)))"

text \<open>
  \<open>activate\<close>: session keys are agreed on under Standard RDP Security when the server asks for an encryption level,
  and the Client Info with the password is wrapped when there are keys, else sent as it is.
\<close>

definition has_session_keys :: "u32 \<Rightarrow> u32 \<Rightarrow> bool" where
  "has_session_keys p encryption_level \<longleftrightarrow> p = 0 \<and> encryption_level \<ge> 1"

definition password_in_the_clear :: "link \<times> u32 \<Rightarrow> u32 \<Rightarrow> bool" where
  "password_in_the_clear = (\<lambda>(l, p) encryption_level. l = PlainTcp \<and> \<not> has_session_keys p encryption_level)"

section \<open>Redirection\<close>

record server_redirection =
  redir_session_id :: u32
  redir_flags :: u32
  target_net_address :: "bytes option"
  redir_load_balance_info :: bytes
  redir_username :: "bytes option"
  redir_domain :: "bytes option"
  redir_password :: bytes
  target_fqdn :: "bytes option"
  target_netbios_name :: "bytes option"
  target_net_addresses :: "bytes list"
  client_tsv_url :: bytes
  redirection_guid :: bytes
  target_certificate :: bytes

text \<open>\<open>str::parse::<u16>\<close>: a sign \<open>+\<close> or none, then decimal digits, up to 65535.\<close>

definition digit :: "u8 \<Rightarrow> bool" where "digit b \<longleftrightarrow> 0x30 \<le> b \<and> b \<le> 0x39"

definition parse_u16 :: "bytes \<Rightarrow> u16 option" where
  "parse_u16 s =
    (let ds = (case s of [] \<Rightarrow> [] | b # rest \<Rightarrow> if b = 0x2B then rest else s);
         v = foldl (\<lambda>v b. v * 10 + unat (b - 0x30)) 0 ds
     in if ds = [] \<or> \<not> list_all digit ds \<or> v > 65535 then None else Some (of_nat v))"

definition or_else :: "'a option \<Rightarrow> 'a option \<Rightarrow> 'a option" where
  "or_else x y = (if x = None then y else x)"

definition apply_redirection :: "client_config \<Rightarrow> server_redirection \<Rightarrow> client_config" where
  "apply_redirection cfg redir =
    (let cfg = (case or_else (or_else (target_net_address redir) (target_fqdn redir)) (target_netbios_name redir) of
                  None \<Rightarrow> cfg
                | Some addr \<Rightarrow>
                    (case rsplit_once 0x3A addr of
                       Some (host, port_str) \<Rightarrow>
                         (let cfg = cfg\<lparr>hostname := host\<rparr>
                          in case parse_u16 port_str of Some p \<Rightarrow> cfg\<lparr>port := p\<rparr> | None \<Rightarrow> cfg)
                     | None \<Rightarrow> cfg\<lparr>hostname := addr\<rparr>));
         cfg = (if redir_load_balance_info redir = [] then cfg else cfg\<lparr>load_balance_info := Some (redir_load_balance_info redir)\<rparr>)
     in cfg\<lparr>redirected_session_id := Some (redir_session_id redir)\<rparr>)"

text \<open>
  \<open>establish_reconnect\<close> over what each attempt comes to: a session, a redirection or another error. The result comes
  with the configuration left.
\<close>

datatype 'e attempt = Established 'e | Redirect server_redirection | AttemptFailed

definition MAX_REDIRECTS :: nat where "MAX_REDIRECTS = 3"

fun establish_loop :: "(nat \<Rightarrow> client_config \<Rightarrow> 'e attempt) \<Rightarrow> nat list \<Rightarrow> client_config \<Rightarrow> client_config \<times> 'e option" where
  "establish_loop attempt [] cfg = (cfg, None)"
| "establish_loop attempt (redirect_count # rest) cfg =
    (case attempt redirect_count cfg of
       Established e \<Rightarrow> (cfg, Some e)
     | AttemptFailed \<Rightarrow> (cfg, None)
     | Redirect r \<Rightarrow>
         if redirect_count = MAX_REDIRECTS then (cfg, None) else establish_loop attempt rest (apply_redirection cfg r))"

definition establish_reconnect :: "(nat \<Rightarrow> client_config \<Rightarrow> 'e attempt) \<Rightarrow> client_config \<Rightarrow> client_config \<times> 'e option" where
  "establish_reconnect attempt cfg = establish_loop attempt [0..<Suc MAX_REDIRECTS] cfg"

text \<open>An address with a port splits at its last colon; so does an IPv6 address without one, which loses its last group.\<close>

lemma rsplit_once_last: "0x3A \<notin> set p \<Longrightarrow> rsplit_once 0x3A (h @ 0x3A # p) = Some (h, p)"
proof -
  assume p: "0x3A \<notin> set p"
  have "dropWhile (\<lambda>b. b \<noteq> 0x3A) (rev p @ 0x3A # rev h) = 0x3A # rev h" "takeWhile (\<lambda>b. b \<noteq> 0x3A) (rev p @ 0x3A # rev h) = rev p"
    using p by (subst dropWhile_append2 takeWhile_append2; auto)+
  then show ?thesis by (simp add: rsplit_once_def split_once_def)
qed

lemma redirected_host:
  assumes "target_net_address redir = Some (h @ 0x3A # p)" "0x3A \<notin> set p"
  shows "hostname (apply_redirection cfg redir) = h"
  using assms by (simp add: apply_redirection_def or_else_def rsplit_once_last Let_def split: option.split)

text \<open>Redirections end: whatever the servers answer, the fourth is an error, and the attempts before it were to where they pointed.\<close>

lemma endless_redirection_fails:
  "(\<And>n c. \<exists>r. attempt n c = Redirect r) \<Longrightarrow> snd (establish_reconnect attempt cfg) = None"
proof -
  assume r: "\<And>n c. \<exists>r. attempt n c = Redirect r"
  have "snd (establish_loop attempt ns cfg) = None" for ns
  proof (induction ns arbitrary: cfg)
    case (Cons n ns)
    from r [of n cfg] obtain x where "attempt n cfg = Redirect x" by blast
    then show ?case using Cons by simp
  qed simp
  then show ?thesis by (simp add: establish_reconnect_def)
qed

section \<open>Requests\<close>

lemma encode_request_fails: "(\<exists>e. encode_request r = Inl e) \<longleftrightarrow> (\<exists>c. cookie r = Some c \<and> length c > 222)"
  by (auto simp: encode_request_def request_user_data_def cookie_prefix_def Let_def x224_consts split: option.splits)

lemma initial_request_panics: "initial_request c = None \<longleftrightarrow> length (cred_username (cfg_credentials (c_config c))) > 222"
  using encode_request_fails
    [of "\<lparr>requested_protocols = c_requested c, neg_flags = 0, cookie = Some (cred_username (cfg_credentials (c_config c)))\<rparr>"]
    encode_request_fails [of "\<lparr>requested_protocols = c_requested c, neg_flags = 0, cookie = None\<rparr>"]
  by (auto simp: initial_request_def Let_def split: sum.splits)

lemma set_requested_simps [simp]:
  "c_config (set_requested_protocols c p) = c_config c" "c_config (new_connector cfg) = cfg"
  by (simp_all add: set_requested_protocols_def new_connector_def)

section \<open>Reading\<close>

primrec stream_of :: "read_event list \<Rightarrow> bytes" where
  "stream_of [] = []"
| "stream_of (e # es) = (case e of Got bs \<Rightarrow> bs @ stream_of es | _ \<Rightarrow> stream_of es)"

fun calm_event :: "read_event \<Rightarrow> bool" where
  "calm_event (Got bs) = (bs \<noteq> [])"
| "calm_event Interrupted = True"
| "calm_event (NotYet late) = (\<not> late)"
| "calm_event _ = False"

lemma read_exact_calm:
  "\<forall>e \<in> set es. calm_event e \<Longrightarrow> length buf \<le> n \<Longrightarrow> n \<le> length buf + length (stream_of es) \<Longrightarrow>
   \<exists>es'. read_exact_riding_timeouts n buf es = (es', Inr (buf @ take (n - length buf) (stream_of es))) \<and>
     (\<forall>e \<in> set es'. calm_event e) \<and> stream_of es' = drop (n - length buf) (stream_of es)"
proof (induction n buf es rule: read_exact_riding_timeouts.induct)
  case (1 n buf es)
  show ?case
  proof (cases "length buf \<ge> n")
    case True
    then show ?thesis using "1.prems" by (subst read_exact_riding_timeouts.simps) auto
  next
    case False
    then obtain e es' where es: "es = e # es'" using "1.prems"(3) by (cases es) auto
    show ?thesis
    proof (cases e)
      case (Got bs)
      let ?k = "min (n - length buf) (length bs)"
      let ?rest = "if ?k = length bs then es' else Got (drop ?k bs) # es'"
      have bs: "bs \<noteq> []" using "1.prems"(1) by (simp add: es Got)
      have st: "stream_of ?rest = drop ?k (stream_of es)" by (auto simp: es Got)
      have "\<exists>es'. read_exact_riding_timeouts n (buf @ take ?k bs) ?rest
            = (es', Inr ((buf @ take ?k bs) @ take (n - length (buf @ take ?k bs)) (stream_of ?rest))) \<and>
          (\<forall>e \<in> set es'. calm_event e) \<and> stream_of es' = drop (n - length (buf @ take ?k bs)) (stream_of ?rest)"
      proof (rule "1.IH"(1) [OF False es Got bs refl])
        show "\<forall>e \<in> set ?rest. calm_event e" using "1.prems"(1) by (auto simp: es Got)
        show "length (buf @ take ?k bs) \<le> n" using False by simp
        show "n \<le> length (buf @ take ?k bs) + length (stream_of ?rest)" unfolding st using "1.prems"(3) by (simp add: es Got)
      qed
      moreover have "read_exact_riding_timeouts n buf es = read_exact_riding_timeouts n (buf @ take ?k bs) ?rest"
        using False bs by (subst read_exact_riding_timeouts.simps) (simp add: es Got Let_def)
      moreover have "(buf @ take ?k bs) @ take (n - length (buf @ take ?k bs)) (stream_of ?rest) = buf @ take (n - length buf) (stream_of es)"
        unfolding st by (auto simp: es Got min_def)
      moreover have "drop (n - length (buf @ take ?k bs)) (stream_of ?rest) = drop (n - length buf) (stream_of es)"
        unfolding st by (auto simp: es Got min_def)
      ultimately show ?thesis by simp
    next
      case Interrupted
      then show ?thesis using "1.IH"(2) [OF False es] "1.prems" False
        by (subst read_exact_riding_timeouts.simps) (simp add: es)
    next
      case (NotYet late)
      then show ?thesis using "1.IH"(3) [OF False es] "1.prems" False
        by (subst read_exact_riding_timeouts.simps) (simp add: es)
    qed (use "1.prems" es in auto)
  qed
qed

section \<open>What a connection comes to\<close>

text \<open>The protocol the peer's first PDU selects.\<close>

definition selects :: "read_event list \<Rightarrow> u32 \<Rightarrow> bool" where
  "selects es p \<longleftrightarrow> (\<exists>pdu flags rest. snd (read_tpkt_pdu es) = Inr pdu \<and>
    (decode_confirm pdu = Inr (Response flags p, rest) \<or> p = 0 \<and> decode_confirm pdu = Inr (NoNegotiation, rest)))"

lemma negotiate_selects:
  "(\<exists>rq c'. negotiate es c = Some (rq, c', Inr p)) \<longleftrightarrow> initial_request c \<noteq> None \<and> selects es p"
proof (cases "initial_request c")
  case (Some rq)
  show ?thesis
  proof (cases "snd (read_tpkt_pdu es)")
    case (Inr pdu)
    then show ?thesis using Some
      by (auto simp: negotiate_def selects_def handle_negotiation_response_def split: sum.splits connection_confirm.splits prod.splits)
  qed (use Some in \<open>auto simp: negotiate_def selects_def\<close>)
qed (simp add: negotiate_def)

lemma connect_with_selects:
  "(\<exists>d s c. connect_with cfg q dials = Some (d, s, Inr (c, p))) \<longleftrightarrow>
    (\<exists>es ds. dials = Inr es # ds \<and> length (cred_username (cfg_credentials cfg)) \<le> 222 \<and> selects es p)"
proof (cases dials)
  case (Cons a ds)
  then show ?thesis
  proof (cases a)
    case (Inr es)
    have "(\<exists>d s c. connect_with cfg q dials = Some (d, s, Inr (c, p))) \<longleftrightarrow>
        (\<exists>rq c'. negotiate es (set_requested_protocols (new_connector cfg) q) = Some (rq, c', Inr p))"
      by (auto simp: connect_with_def Cons Inr and_then_Inr_iff)
    then show ?thesis unfolding negotiate_selects using initial_request_panics [of "set_requested_protocols (new_connector cfg) q"]
      by (auto simp: Cons Inr not_less)
  qed (auto simp: connect_with_def)
qed (simp add: connect_with_def)

lemma connect_strict: "\<not> allow_legacy_fallback cfg \<Longrightarrow> connect cfg dials = connect_with cfg (SSL OR HYBRID) dials"
  by (auto simp: connect_def split: option.splits prod.splits sum.splits negotiate_error.splits neg_failure.splits)

lemma reads_frame:
  assumes "\<forall>e \<in> set es. calm_event e" "read_tpkt_len (take 4 (stream_of es)) = Inr n" "4 \<le> n" "n \<le> length (stream_of es)"
  shows "\<exists>es'. read_tpkt_pdu es = (es', Inr (take n (stream_of es))) \<and> (\<forall>e \<in> set es'. calm_event e) \<and> stream_of es' = drop n (stream_of es)"
proof -
  let ?s = "stream_of es"
  obtain es1 where es1: "read_exact_riding_timeouts 4 [] es = (es1, Inr (take 4 ?s))" "\<forall>e \<in> set es1. calm_event e" "stream_of es1 = drop 4 ?s"
    using read_exact_calm [of es "[]" 4] assms by auto
  obtain es2 where es2: "read_exact_riding_timeouts (n - 4) [] es1 = (es2, Inr (take (n - 4) (drop 4 ?s)))"
      "\<forall>e \<in> set es2. calm_event e" "stream_of es2 = drop (n - 4) (drop 4 ?s)"
    using read_exact_calm [OF es1(2), of "[]" "n - 4"] diff_le_mono [OF assms(4), of 4] es1(3) by auto
  have h: "length (take 4 ?s) = 4" using assms(3,4) by simp
  have "take 4 ?s @ take (n - 4) (drop 4 ?s) = take n ?s" using take_add [of 4 "n - 4" ?s] assms(3) by simp
  then have "read_tpkt_pdu es = (es2, Inr (take n ?s))"
    using es1 es2 assms(2,3) h by (simp add: read_tpkt_pdu_def TPKT_HEADER_LEN_def)
  then show ?thesis using es2 assms(3) by simp
qed

text \<open>The rest of the configuration is carried along and changes nothing.\<close>

lemma negotiate_config:
  "cred_username (cfg_credentials g) = cred_username (cfg_credentials (c_config c)) \<Longrightarrow>
   negotiate es (c\<lparr>c_config := g\<rparr>) = map_option (\<lambda>(rq, c, r). (rq, c\<lparr>c_config := g\<rparr>, r)) (negotiate es c)"
  by (cases "initial_request c"; cases "snd (read_tpkt_pdu es)")
    (auto simp: negotiate_def handle_negotiation_response_def initial_request_def Let_def
      split: sum.splits connection_confirm.splits prod.splits core_error.splits)

definition carry :: "client_config \<Rightarrow> (negotiate_error + connector \<times> u32) dialled \<Rightarrow> (negotiate_error + connector \<times> u32) dialled" where
  "carry g = map_option (\<lambda>(d, s, r). (d, s, case r of Inl e \<Rightarrow> Inl e | Inr (c, p) \<Rightarrow> Inr (c\<lparr>c_config := g\<rparr>, p)))"

lemma carry_simps [simp]:
  "carry g None = None" "carry g (Some (d, s, Inl e)) = Some (d, s, Inl e)"
  "carry g (Some (d, s, Inr (c, p))) = Some (d, s, Inr (c\<lparr>c_config := g\<rparr>, p))"
  by (simp_all add: carry_def)

lemma connect_with_config:
  assumes "cfg_credentials g = cfg_credentials cfg"
  shows "connect_with g q dials = carry g (connect_with cfg q dials)"
proof -
  let ?c = "set_requested_protocols (new_connector cfg) q"
  have c: "set_requested_protocols (new_connector g) q = ?c\<lparr>c_config := g\<rparr>"
    by (simp add: set_requested_protocols_def new_connector_def)
  have n: "negotiate es (?c\<lparr>c_config := g\<rparr>) = map_option (\<lambda>(rq, c, r). (rq, c\<lparr>c_config := g\<rparr>, r)) (negotiate es ?c)" for es
    by (rule negotiate_config) (simp add: assms)
  show ?thesis
  proof (cases "\<exists>es ds. dials = Inr es # ds")
    case True
    then obtain es ds where d: "dials = Inr es # ds" by blast
    show ?thesis
    proof (cases "negotiate es ?c")
      case (Some x)
      obtain rq c' r where "x = (rq, c', r)" by (cases x)
      then show ?thesis using Some n [of es] by (cases r) (simp_all add: connect_with_def d c)
    qed (use n [of es] in \<open>simp add: connect_with_def d c\<close>)
  qed (auto simp: connect_with_def split: list.splits sum.splits)
qed

lemma connect_config:
  assumes "cfg_credentials g = cfg_credentials cfg" "allow_legacy_fallback g = allow_legacy_fallback cfg"
  shows "connect g dials = carry g (connect cfg dials)"
proof (cases "connect_with cfg (SSL OR HYBRID) dials")
  case (Some x)
  then obtain d s r where x: "connect_with cfg (SSL OR HYBRID) dials = Some (d, s, r)" by (cases x) auto
  have l: "map_option (\<lambda>(d, s', r). (d, s @ s', r)) (carry g y) = carry g (map_option (\<lambda>(d, s', r). (d, s @ s', r)) y)" for y
    by (cases y) (auto simp: carry_def)
  show ?thesis
  proof (cases "r = Inl (Rejected SslNotAllowedByServer)")
    case True
    then show ?thesis
      unfolding connect_def connect_with_config [OF assms(1)] x by (simp add: assms(2) l)
  next
    case False
    then have "connect cfg dials = Some (d, s, r)"
      by (simp add: connect_def x split: sum.splits negotiate_error.splits neg_failure.splits)
    moreover have "connect g dials = carry g (Some (d, s, r))" using False
      by (cases r) (auto simp: connect_def connect_with_config [OF assms(1)] x split: sum.splits negotiate_error.splits neg_failure.splits)
    ultimately show ?thesis by simp
  qed
qed (simp add: connect_def connect_with_config [OF assms(1)])

lemma establish_config:
  assumes "cfg_credentials g = cfg_credentials cfg" "allow_legacy_fallback g = allow_legacy_fallback cfg"
  shows "try_establish_direct secured g dials = try_establish_direct secured cfg dials"
proof (cases "connect cfg dials")
  case (Some x)
  then obtain d s r where x: "connect cfg dials = Some (d, s, r)" by (cases x) auto
  have l: "map_option (\<lambda>(d, s', r). (d, s @ s', case r of Inl e \<Rightarrow> Inl (Some e) | Inr (_, p) \<Rightarrow> Inr (PlainTcp, p))) (carry g y)
      = map_option (\<lambda>(d, s', r). (d, s @ s', case r of Inl e \<Rightarrow> Inl (Some e) | Inr (_, p) \<Rightarrow> Inr (PlainTcp, p))) y"
    for y :: "(negotiate_error + connector \<times> u32) dialled"
    by (cases y) (auto simp: carry_def split: sum.splits)
  show ?thesis unfolding try_establish_direct_def connect_config [OF assms] connect_legacy_def connect_with_config [OF assms(1)] x
    by (cases r) (auto simp: assms(2) l)
qed (simp add: try_establish_direct_def connect_config [OF assms])

text \<open>A confirm that selects protocol \<open>p\<close>.\<close>

definition confirm_selecting :: "u32 \<Rightarrow> bytes" where
  "confirm_selecting p = [3, 0, 0, 19, 14, 0xD0, 0, 0, 0, 0, 0, 2, 0, 8, 0] @ u32_le p"

lemma confirm_selecting_len: "read_tpkt_len (take 4 (confirm_selecting p)) = Inr 19" "length (confirm_selecting p) = 19"
  by (simp_all add: confirm_selecting_def read_tpkt_len_def ensure_def x224_consts u16_of_be_def u16_of_le_def)

lemma decode_confirm_selecting: "decode_confirm (confirm_selecting p) = Inr (Response 0 (protocol_from_bits p), [])"
proof -
  have "u32_of_le (take 4 (drop 15 (confirm_selecting p))) = p" by (simp add: confirm_selecting_def)
  moreover have "read_tpkt_len (confirm_selecting p) = Inr 19"
    by (simp add: confirm_selecting_def read_tpkt_len_def ensure_def x224_consts u16_of_be_def u16_of_le_def)
  ultimately show ?thesis using confirm_selecting_len(2) [of p]
    by (simp add: decode_confirm_def ensure_def x224_consts Let_def read_negotiation_def drop_take)
      (simp add: confirm_selecting_def response_flags_from_bits_def drop_take)
qed

lemma selects_confirm: "selects [Got (confirm_selecting p)] (protocol_from_bits p)"
proof -
  have c: "calm_event (Got (confirm_selecting p))" by (simp add: confirm_selecting_def)
  have "snd (read_tpkt_pdu [Got (confirm_selecting p)]) = Inr (confirm_selecting p)"
    using reads_frame [of "[Got (confirm_selecting p)]" 19] c confirm_selecting_len [of p] by auto
  then show ?thesis using decode_confirm_selecting unfolding selects_def by blast
qed

section \<open>Properties\<close>

text \<open>
  A TPKT frame is read whole and nothing after it, however the socket cuts the stream into pieces and however often
  a call is interrupted or finds nothing there before the deadline.
\<close>

lemma reads_one_frame:
  assumes "\<forall>e \<in> set es. calm_event e" "read_tpkt_len (take 4 (stream_of es)) = Inr n" "4 \<le> n" "n \<le> length (stream_of es)"
  shows "\<exists>es'. read_tpkt_pdu es = (es', Inr (take n (stream_of es))) \<and> (\<forall>e \<in> set es'. calm_event e) \<and> stream_of es' = drop n (stream_of es)"
  by (rule reads_frame [OF assms])

theorem reads_one_frame_witness:
  "\<exists>es'. read_tpkt_pdu [Got [3, 0], NotYet False, Got [0, 7, 2], Interrupted, Got [0xF0, 0x80, 0xDE, 0xAD]]
      = (es', Inr [3, 0, 0, 7, 2, 0xF0, 0x80]) \<and> stream_of es' = [0xDE, 0xAD]"
proof -
  let ?es = "[Got [3, 0], NotYet False, Got [0, 7, 2], Interrupted, Got [0xF0, 0x80, 0xDE, 0xAD]]"
  have "read_tpkt_len (take 4 (stream_of ?es)) = Inr 7"
    by (simp add: read_tpkt_len_def ensure_def x224_consts u16_of_be_def u16_of_le_def)
  then have "\<exists>es'. read_tpkt_pdu ?es = (es', Inr (take 7 (stream_of ?es))) \<and> (\<forall>e \<in> set es'. calm_event e) \<and> stream_of es' = drop 7 (stream_of ?es)"
    by (intro reads_one_frame) simp_all
  then show ?thesis by auto
qed





text \<open>
  The option to connect with legacy security directly has no effect: the same requests are sent and the same session
  comes out with it and without it.
\<close>

lemma force_legacy_ignored:
  "try_establish_direct secured (cfg\<lparr>force_legacy := b\<rparr>) dials = try_establish_direct secured cfg dials"
  by (rule establish_config) simp_all

end
