(* ===== verification/Bitmap.thy ===== *)
theory Bitmap
  imports Prelude
begin

text \<open>
  Bitmap updates of the legacy path (\<open>bitmap.rs\<close>): the parser of an update into rectangles, the conversion of raw pixels to
  RGBA, and the interleaved run-length decoder, against a decoder that first reads all orders and then paints a growing list
  of pixels. A pixel is its bytes.
\<close>

definition UPDATETYPE_BITMAP :: u16 where "UPDATETYPE_BITMAP = 0x0001"
definition BITMAP_COMPRESSION :: u16 where "BITMAP_COMPRESSION = 0x0001"
definition NO_BITMAP_COMPRESSION_HDR :: u16 where "NO_BITMAP_COMPRESSION_HDR = 0x0400"

record bitmap_rect =
  dest_left :: u16
  dest_top :: u16
  dest_right :: u16
  dest_bottom :: u16
  rect_width :: u16
  rect_height :: u16
  bits_per_pixel :: u16
  compressed :: bool
  rect_data :: bytes

text \<open>\<open>u16le\<close>; its callers have checked that the two bytes are there.\<close>

definition u16le :: "bytes \<Rightarrow> nat \<Rightarrow> u16" where
  "u16le b off = u16_of_le [b ! off, b ! (off + 1)]"

primrec parse_rects :: "nat \<Rightarrow> bytes \<Rightarrow> nat \<Rightarrow> bitmap_rect list" where
  "parse_rects 0 body off = []"
| "parse_rects (Suc n) body off =
    (if off + 18 > length body then []
     else (let flags = u16le body (off + 14);
               bitmap_length = unat (u16le body (off + 16))
           in if off + 18 + bitmap_length > length body then []
              else (let blob = take bitmap_length (drop (off + 18) body);
                        comp = (flags AND BITMAP_COMPRESSION \<noteq> 0);
                        blob = (if comp \<and> flags AND NO_BITMAP_COMPRESSION_HDR = 0 \<and> length blob \<ge> 8 then drop 8 blob else blob)
                    in \<lparr>dest_left = u16le body off, dest_top = u16le body (off + 2), dest_right = u16le body (off + 4),
                        dest_bottom = u16le body (off + 6), rect_width = u16le body (off + 8), rect_height = u16le body (off + 10),
                        bits_per_pixel = u16le body (off + 12), compressed = comp, rect_data = blob\<rparr>
                       # parse_rects n body (off + 18 + bitmap_length))))"

definition parse_bitmap_update :: "bytes \<Rightarrow> bitmap_rect list option" where
  "parse_bitmap_update body =
    (if length body < 4 \<or> u16le body 0 \<noteq> UPDATETYPE_BITMAP then None
     else Some (parse_rects (unat (u16le body 2)) body 4))"

section \<open>Pixels to RGBA\<close>

definition bytes_per_pixel :: "u16 \<Rightarrow> nat option" where
  "bytes_per_pixel bpp = (if bpp = 32 then Some 4 else if bpp = 24 then Some 3 else if bpp = 16 \<or> bpp = 15 then Some 2 else None)"

definition widen5 :: "u16 \<Rightarrow> u8" where
  "widen5 v = (let x = ucast (v AND 0x1f) :: u8 in push_bit 3 x OR drop_bit 2 x)"

definition widen6 :: "u16 \<Rightarrow> u8" where
  "widen6 v = (let x = ucast (v AND 0x3f) :: u8 in push_bit 2 x OR drop_bit 4 x)"

definition pixel_rgba :: "bytes \<Rightarrow> u16 \<Rightarrow> nat \<Rightarrow> bytes" where
  "pixel_rgba data bpp si =
    (if bpp = 32 \<or> bpp = 24 then [data ! (si + 2), data ! (si + 1), data ! si, 0xFF]
     else (let v = u16_of_le [data ! si, data ! (si + 1)]
           in if bpp = 16 then [widen5 (drop_bit 11 v), widen6 (drop_bit 5 v), widen5 v, 0xFF]
              else [widen5 (drop_bit 10 v), widen5 (drop_bit 5 v), widen5 v, 0xFF]))"

definition to_rgba :: "bytes \<Rightarrow> u16 \<Rightarrow> u16 \<Rightarrow> u16 \<Rightarrow> bool \<Rightarrow> bytes option" where
  "to_rgba data width height bpp bottom_up =
    (let w = unat width; h = unat height
     in if w = 0 \<or> h = 0 \<or> w > 16384 \<or> h > 16384 then None
        else (case bytes_per_pixel bpp of
                None \<Rightarrow> None
              | Some n \<Rightarrow>
                  if length data < w * h * n then None
                  else Some (concat (map (\<lambda>row.
                         (let src_row = (if bottom_up then h - 1 - row else row)
                          in concat (map (\<lambda>col. pixel_rgba data bpp ((src_row * w + col) * n)) [0..<w]))) [0..<h]))))"

section \<open>Orders\<close>

definition C_BG_RUN :: u8 where "C_BG_RUN = 0x00"
definition C_FG_RUN :: u8 where "C_FG_RUN = 0x01"
definition C_FGBG_IMAGE :: u8 where "C_FGBG_IMAGE = 0x02"
definition C_COLOR_RUN :: u8 where "C_COLOR_RUN = 0x03"
definition C_COLOR_IMAGE :: u8 where "C_COLOR_IMAGE = 0x04"
definition C_LITE_SET_FG_FG_RUN :: u8 where "C_LITE_SET_FG_FG_RUN = 0x0C"
definition C_LITE_SET_FG_FGBG_IMAGE :: u8 where "C_LITE_SET_FG_FGBG_IMAGE = 0x0D"
definition C_LITE_DITHERED_RUN :: u8 where "C_LITE_DITHERED_RUN = 0x0E"
definition C_MEGA_BG_RUN :: u8 where "C_MEGA_BG_RUN = 0xF0"
definition C_MEGA_FG_RUN :: u8 where "C_MEGA_FG_RUN = 0xF1"
definition C_MEGA_FGBG_IMAGE :: u8 where "C_MEGA_FGBG_IMAGE = 0xF2"
definition C_MEGA_COLOR_RUN :: u8 where "C_MEGA_COLOR_RUN = 0xF3"
definition C_MEGA_COLOR_IMAGE :: u8 where "C_MEGA_COLOR_IMAGE = 0xF4"
definition C_MEGA_SET_FG_RUN :: u8 where "C_MEGA_SET_FG_RUN = 0xF6"
definition C_MEGA_SET_FGBG_IMAGE :: u8 where "C_MEGA_SET_FGBG_IMAGE = 0xF7"
definition C_MEGA_DITHERED_RUN :: u8 where "C_MEGA_DITHERED_RUN = 0xF8"
definition C_SPECIAL_FGBG_1 :: u8 where "C_SPECIAL_FGBG_1 = 0xF9"
definition C_SPECIAL_FGBG_2 :: u8 where "C_SPECIAL_FGBG_2 = 0xFA"
definition C_SPECIAL_WHITE :: u8 where "C_SPECIAL_WHITE = 0xFD"
definition C_SPECIAL_BLACK :: u8 where "C_SPECIAL_BLACK = 0xFE"

lemmas code_consts =
  C_BG_RUN_def C_FG_RUN_def C_FGBG_IMAGE_def C_COLOR_RUN_def C_COLOR_IMAGE_def C_LITE_SET_FG_FG_RUN_def
  C_LITE_SET_FG_FGBG_IMAGE_def C_LITE_DITHERED_RUN_def C_MEGA_BG_RUN_def C_MEGA_FG_RUN_def C_MEGA_FGBG_IMAGE_def
  C_MEGA_COLOR_RUN_def C_MEGA_COLOR_IMAGE_def C_MEGA_SET_FG_RUN_def C_MEGA_SET_FGBG_IMAGE_def C_MEGA_DITHERED_RUN_def
  C_SPECIAL_FGBG_1_def C_SPECIAL_FGBG_2_def C_SPECIAL_WHITE_def C_SPECIAL_BLACK_def

definition extract_code_id :: "u8 \<Rightarrow> u8" where
  "extract_code_id h =
    (if h AND 0xC0 \<noteq> 0xC0 then drop_bit 5 h else if h AND 0x30 \<noteq> 0x30 then drop_bit 4 h else h)"

text \<open>The run length in the header byte, or in the next byte when that field is zero.\<close>

definition short_length :: "nat \<Rightarrow> nat \<Rightarrow> nat \<Rightarrow> bytes \<Rightarrow> nat \<Rightarrow> (nat \<times> nat) option" where
  "short_length r factor base src s =
    (if r = 0 then map_option (\<lambda>b. (unat b + base, 2)) (index_get src (s + 1)) else Some (r * factor, 1))"

definition extract_run_length :: "u8 \<Rightarrow> bytes \<Rightarrow> nat \<Rightarrow> (nat \<times> nat) option" where
  "extract_run_length code src s =
    Option.bind (index_get src s) (\<lambda>h.
      if code = C_FGBG_IMAGE then short_length (unat (h AND 0x1F)) 8 1 src s
      else if code = C_LITE_SET_FG_FGBG_IMAGE then short_length (unat (h AND 0x0F)) 8 1 src s
      else if code \<in> {C_BG_RUN, C_FG_RUN, C_COLOR_RUN, C_COLOR_IMAGE} then short_length (unat (h AND 0x1F)) 1 32 src s
      else if code \<in> {C_LITE_SET_FG_FG_RUN, C_LITE_DITHERED_RUN} then short_length (unat (h AND 0x0F)) 1 16 src s
      else if code \<in> {C_MEGA_BG_RUN, C_MEGA_FG_RUN, C_MEGA_SET_FG_RUN, C_MEGA_DITHERED_RUN, C_MEGA_COLOR_RUN,
          C_MEGA_FGBG_IMAGE, C_MEGA_SET_FGBG_IMAGE, C_MEGA_COLOR_IMAGE}
      then Option.bind (index_get src (s + 1)) (\<lambda>lo.
             map_option (\<lambda>hi. (unat lo OR push_bit 8 (unat hi), 3)) (index_get src (s + 2)))
      else None)"

section \<open>Writing pixels\<close>

text \<open>The output with its cursor: \<open>dst\<close> and \<open>d\<close>.\<close>

type_synonym cursor = "bytes \<times> nat"

definition above_pel :: "bytes \<Rightarrow> nat \<Rightarrow> nat \<Rightarrow> nat \<Rightarrow> bytes" where
  "above_pel dst d row_delta p = (if d \<ge> row_delta then take p (drop (d - row_delta) dst) else replicate p 0)"

definition write_abs :: "nat \<Rightarrow> bytes \<Rightarrow> cursor \<Rightarrow> cursor option" where
  "write_abs p pel = (\<lambda>(dst, d).
    if d + p > length dst then None else Some (take d dst @ take p pel @ drop (d + p) dst, d + p))"

definition write_bg :: "nat \<Rightarrow> nat \<Rightarrow> cursor \<Rightarrow> cursor option" where
  "write_bg row_delta p = (\<lambda>(dst, d).
    if d + p > length dst then None else Some (take d dst @ above_pel dst d row_delta p @ drop (d + p) dst, d + p))"

definition write_fg :: "nat \<Rightarrow> nat \<Rightarrow> bytes \<Rightarrow> cursor \<Rightarrow> cursor option" where
  "write_fg row_delta p fg = (\<lambda>(dst, d).
    if d + p > length dst then None
    else Some (take d dst @ map2 (XOR) (above_pel dst d row_delta p) (take p fg) @ drop (d + p) dst, d + p))"

primrec write_bits :: "nat \<Rightarrow> nat \<Rightarrow> bytes \<Rightarrow> bool list \<Rightarrow> cursor \<Rightarrow> cursor option" where
  "write_bits row_delta p fg [] c = Some c"
| "write_bits row_delta p fg (b # bs) c =
    Option.bind (if b then write_fg row_delta p fg c else write_bg row_delta p c) (write_bits row_delta p fg bs)"

definition write_fgbg :: "nat \<Rightarrow> nat \<Rightarrow> bytes \<Rightarrow> u8 \<Rightarrow> nat \<Rightarrow> cursor \<Rightarrow> cursor option" where
  "write_fgbg row_delta p fg mask_byte cbits = write_bits row_delta p fg (map (bit mask_byte) [0..<cbits])"

text \<open>\<open>for _ in 0..n { step?; }\<close>\<close>

primrec repeat_ok :: "nat \<Rightarrow> ('s \<Rightarrow> 's option) \<Rightarrow> 's \<Rightarrow> 's option" where
  "repeat_ok 0 f s = Some s"
| "repeat_ok (Suc n) f s = Option.bind (f s) (repeat_ok n f)"

function fgbg_image :: "nat \<Rightarrow> nat \<Rightarrow> bytes \<Rightarrow> bytes \<Rightarrow> nat \<Rightarrow> nat \<times> cursor \<Rightarrow> (nat \<times> cursor) option" where
  "fgbg_image row_delta p fg src remaining sc =
    (if remaining = 0 then Some sc
     else (let cbits = min remaining 8
           in Option.bind (index_get src (fst sc)) (\<lambda>m.
                Option.bind (write_fgbg row_delta p fg m cbits (snd sc)) (\<lambda>c.
                  fgbg_image row_delta p fg src (remaining - cbits) (fst sc + 1, c)))))"
  by pat_completeness auto
termination
  by (relation "measure (\<lambda>(_, _, _, _, remaining, _). remaining)") auto

declare fgbg_image.simps [simp del]

record rle =
  r_cur :: cursor
  r_s :: nat
  r_fg :: bytes
  r_prev_bg :: bool

definition set_fg :: "nat \<Rightarrow> bytes \<Rightarrow> bool \<Rightarrow> nat \<Rightarrow> bytes \<Rightarrow> (nat \<times> bytes) option" where
  "set_fg p src sets s fg = (if sets then map_option (\<lambda>x. (s + p, x)) (slice_get src s (s + p)) else Some (s, fg))"

text \<open>One turn of the loop of \<open>decompress_interleaved\<close>.\<close>

definition rle_order :: "nat \<Rightarrow> nat \<Rightarrow> bytes \<Rightarrow> rle \<Rightarrow> rle option" where
  "rle_order row_delta p src r =
    (let s = r_s r; code = extract_code_id (src ! s);
         finish = (\<lambda>s fg c. Some (r\<lparr>r_cur := c, r_s := s, r_fg := fg, r_prev_bg := False\<rparr>))
     in if code \<in> {C_BG_RUN, C_MEGA_BG_RUN}
        then Option.bind (extract_run_length code src s) (\<lambda>(run, adv).
               Option.bind (if r_prev_bg r then write_fg row_delta p (r_fg r) (r_cur r) else Some (r_cur r)) (\<lambda>c.
                 Option.bind (repeat_ok (if r_prev_bg r then run - 1 else run) (write_bg row_delta p) c) (\<lambda>c.
                   Some (r\<lparr>r_cur := c, r_s := s + adv, r_prev_bg := True\<rparr>))))
        else if code \<in> {C_FG_RUN, C_MEGA_FG_RUN, C_LITE_SET_FG_FG_RUN, C_MEGA_SET_FG_RUN}
        then Option.bind (extract_run_length code src s) (\<lambda>(run, adv).
               Option.bind (set_fg p src (code \<in> {C_LITE_SET_FG_FG_RUN, C_MEGA_SET_FG_RUN}) (s + adv) (r_fg r)) (\<lambda>(s, fg).
                 Option.bind (repeat_ok run (write_fg row_delta p fg) (r_cur r)) (finish s fg)))
        else if code \<in> {C_COLOR_RUN, C_MEGA_COLOR_RUN}
        then Option.bind (extract_run_length code src s) (\<lambda>(run, adv).
               Option.bind (slice_get src (s + adv) (s + adv + p)) (\<lambda>color.
                 Option.bind (repeat_ok run (write_abs p color) (r_cur r)) (finish (s + adv + p) (r_fg r))))
        else if code \<in> {C_COLOR_IMAGE, C_MEGA_COLOR_IMAGE}
        then Option.bind (extract_run_length code src s) (\<lambda>(run, adv).
               Option.bind (repeat_ok run (\<lambda>(s, c). Option.bind (slice_get src s (s + p)) (\<lambda>px.
                     map_option (\<lambda>c. (s + p, c)) (write_abs p px c))) (s + adv, r_cur r)) (\<lambda>(s, c). finish s (r_fg r) c))
        else if code \<in> {C_FGBG_IMAGE, C_MEGA_FGBG_IMAGE, C_LITE_SET_FG_FGBG_IMAGE, C_MEGA_SET_FGBG_IMAGE}
        then Option.bind (extract_run_length code src s) (\<lambda>(run, adv).
               Option.bind (set_fg p src (code \<in> {C_LITE_SET_FG_FGBG_IMAGE, C_MEGA_SET_FGBG_IMAGE}) (s + adv) (r_fg r)) (\<lambda>(s, fg).
                 Option.bind (fgbg_image row_delta p fg src run (s, r_cur r)) (\<lambda>(s, c). finish s fg c)))
        else if code \<in> {C_LITE_DITHERED_RUN, C_MEGA_DITHERED_RUN}
        then Option.bind (extract_run_length code src s) (\<lambda>(run, adv).
               Option.bind (slice_get src (s + adv) (s + adv + p)) (\<lambda>pel1.
                 Option.bind (slice_get src (s + adv + p) (s + adv + p + p)) (\<lambda>pel2.
                   Option.bind (repeat_ok run (\<lambda>c. Option.bind (write_abs p pel1 c) (write_abs p pel2)) (r_cur r))
                     (finish (s + adv + p + p) (r_fg r)))))
        else if code = C_SPECIAL_FGBG_1 then Option.bind (write_fgbg row_delta p (r_fg r) 0x03 8 (r_cur r)) (finish (s + 1) (r_fg r))
        else if code = C_SPECIAL_FGBG_2 then Option.bind (write_fgbg row_delta p (r_fg r) 0x05 8 (r_cur r)) (finish (s + 1) (r_fg r))
        else if code = C_SPECIAL_WHITE then Option.bind (write_abs p (replicate p 0xFF) (r_cur r)) (finish (s + 1) (r_fg r))
        else if code = C_SPECIAL_BLACK then Option.bind (write_abs p (replicate p 0) (r_cur r)) (finish (s + 1) (r_fg r))
        else None)"

section \<open>The whole stream\<close>

text \<open>The loop. Every order takes a byte at least, so as many turns as there are bytes are enough.\<close>

primrec rle_loop :: "nat \<Rightarrow> nat \<Rightarrow> nat \<Rightarrow> bytes \<Rightarrow> rle \<Rightarrow> rle option" where
  "rle_loop 0 row_delta p src r = Some r"
| "rle_loop (Suc fuel) row_delta p src r =
    (if r_s r < length src then Option.bind (rle_order row_delta p src r) (rle_loop fuel row_delta p src) else Some r)"

definition rle_pixel_size :: "u16 \<Rightarrow> nat option" where
  "rle_pixel_size bpp = (if bpp = 8 then Some 1 else if bpp = 15 \<or> bpp = 16 then Some 2 else if bpp = 24 then Some 3 else None)"

definition decompress_interleaved :: "bytes \<Rightarrow> u16 \<Rightarrow> u16 \<Rightarrow> u16 \<Rightarrow> bytes option" where
  "decompress_interleaved src width height bpp =
    (let w = unat width; h = unat height
     in Option.bind (rle_pixel_size bpp) (\<lambda>p.
          if w * h * p = 0 then Some []
          else map_option (\<lambda>r. fst (r_cur r))
                 (rle_loop (length src) (w * p) p src
                   \<lparr>r_cur = (replicate (w * h * p) 0, 0), r_s = 0, r_fg = replicate p 0xFF, r_prev_bg = False\<rparr>)))"

end
