(* ===== verification/BitmapPainting.thy ===== *)
theory BitmapPainting
  imports Bitmap
begin

text \<open>
  What the run-length decoder of \<open>Bitmap\<close> computes: the orders of the stream are read first, then painted on a growing
  list of pixels that knows nothing of buffers, cursors and bounds. The size of what comes out, the pixels on screen,
  and how background runs of two rows are told apart.
\<close>

section \<open>The reference: read all orders, then paint\<close>

datatype order = BgRun nat | FgBits "bytes option" "bool list" | Pels "bytes list"

definition new_fg :: "nat \<Rightarrow> bytes \<Rightarrow> bool \<Rightarrow> nat \<Rightarrow> (nat \<times> bytes option) option" where
  "new_fg p src sets s = (if sets then map_option (\<lambda>x. (s + p, Some x)) (slice_get src s (s + p)) else Some (s, None))"

primrec read_pels :: "nat \<Rightarrow> nat \<Rightarrow> bytes \<Rightarrow> nat \<Rightarrow> (bytes list \<times> nat) option" where
  "read_pels p 0 src s = Some ([], s)"
| "read_pels p (Suc n) src s =
    Option.bind (slice_get src s (s + p)) (\<lambda>x. map_option (\<lambda>(xs, s). (x # xs, s)) (read_pels p n src (s + p)))"

function read_bits :: "bytes \<Rightarrow> nat \<Rightarrow> nat \<Rightarrow> (bool list \<times> nat) option" where
  "read_bits src n s =
    (if n = 0 then Some ([], s)
     else Option.bind (index_get src s) (\<lambda>m. map_option (\<lambda>(bs, s). (map (bit m) [0..<min n 8] @ bs, s)) (read_bits src (n - min n 8) (s + 1))))"
  by pat_completeness auto
termination
  by (relation "measure (\<lambda>(_, n, _). n)") auto

declare read_bits.simps [simp del]

definition special_bits :: "u8 \<Rightarrow> order" where
  "special_bits m = FgBits None (map (bit m) [0..<8])"

definition read_order :: "nat \<Rightarrow> bytes \<Rightarrow> nat \<Rightarrow> (order \<times> nat) option" where
  "read_order p src s =
    (let code = extract_code_id (src ! s); len = extract_run_length code src s
     in if code \<in> {C_BG_RUN, C_MEGA_BG_RUN} then map_option (\<lambda>(run, adv). (BgRun run, s + adv)) len
        else if code \<in> {C_FG_RUN, C_MEGA_FG_RUN, C_LITE_SET_FG_FG_RUN, C_MEGA_SET_FG_RUN}
        then Option.bind len (\<lambda>(run, adv).
               map_option (\<lambda>(s, fg). (FgBits fg (replicate run True), s))
                 (new_fg p src (code \<in> {C_LITE_SET_FG_FG_RUN, C_MEGA_SET_FG_RUN}) (s + adv)))
        else if code \<in> {C_COLOR_RUN, C_MEGA_COLOR_RUN}
        then Option.bind len (\<lambda>(run, adv).
               map_option (\<lambda>color. (Pels (replicate run color), s + adv + p)) (slice_get src (s + adv) (s + adv + p)))
        else if code \<in> {C_COLOR_IMAGE, C_MEGA_COLOR_IMAGE}
        then Option.bind len (\<lambda>(run, adv). map_option (\<lambda>(xs, s). (Pels xs, s)) (read_pels p run src (s + adv)))
        else if code \<in> {C_FGBG_IMAGE, C_MEGA_FGBG_IMAGE, C_LITE_SET_FG_FGBG_IMAGE, C_MEGA_SET_FGBG_IMAGE}
        then Option.bind len (\<lambda>(run, adv).
               Option.bind (new_fg p src (code \<in> {C_LITE_SET_FG_FGBG_IMAGE, C_MEGA_SET_FGBG_IMAGE}) (s + adv)) (\<lambda>(s, fg).
                 map_option (\<lambda>(bs, s). (FgBits fg bs, s)) (read_bits src run s)))
        else if code \<in> {C_LITE_DITHERED_RUN, C_MEGA_DITHERED_RUN}
        then Option.bind len (\<lambda>(run, adv).
               Option.bind (slice_get src (s + adv) (s + adv + p)) (\<lambda>pel1.
                 map_option (\<lambda>pel2. (Pels (concat (replicate run [pel1, pel2])), s + adv + p + p))
                   (slice_get src (s + adv + p) (s + adv + p + p))))
        else if code = C_SPECIAL_FGBG_1 then Some (special_bits 0x03, s + 1)
        else if code = C_SPECIAL_FGBG_2 then Some (special_bits 0x05, s + 1)
        else if code = C_SPECIAL_WHITE then Some (Pels [replicate p 0xFF], s + 1)
        else if code = C_SPECIAL_BLACK then Some (Pels [replicate p 0], s + 1)
        else None)"

definition above :: "nat \<Rightarrow> nat \<Rightarrow> bytes list \<Rightarrow> bytes" where
  "above w p px = (if length px \<ge> w then px ! (length px - w) else replicate p 0)"

definition paint_bit :: "nat \<Rightarrow> nat \<Rightarrow> bytes \<Rightarrow> bytes list \<Rightarrow> bool \<Rightarrow> bytes list" where
  "paint_bit w p fg px b = px @ [if b then map2 (XOR) (above w p px) fg else above w p px]"

definition paint_bits :: "nat \<Rightarrow> nat \<Rightarrow> bytes \<Rightarrow> bytes list \<Rightarrow> bool list \<Rightarrow> bytes list" where
  "paint_bits w p fg = foldl (paint_bit w p fg)"

text \<open>A painter has the pixels so far, the foreground pixel, and whether the last order was a background run.\<close>

fun paint :: "nat \<Rightarrow> nat \<Rightarrow> bytes list \<times> bytes \<times> bool \<Rightarrow> order \<Rightarrow> bytes list \<times> bytes \<times> bool" where
  "paint w p (px, fg, prev) (BgRun n) =
    (paint_bits w p fg px (if prev then True # replicate (n - 1) False else replicate n False), fg, True)"
| "paint w p (px, fg, prev) (FgBits new bs) =
    (let fg = (case new of None \<Rightarrow> fg | Some x \<Rightarrow> x) in (paint_bits w p fg px bs, fg, False))"
| "paint w p (px, fg, prev) (Pels xs) = (px @ xs, fg, False)"

section \<open>One order\<close>

text \<open>Every order takes at least its header.\<close>

lemma run_length_adv: "extract_run_length code src s = Some (run, adv) \<Longrightarrow> 0 < adv"
  by (auto simp: extract_run_length_def short_length_def bind_eq_Some_conv split: if_splits)

lemma read_pels_ge: "read_pels p n src s = Some (xs, s') \<Longrightarrow> s \<le> s'"
  by (induction n arbitrary: s xs s') (fastforce simp: bind_eq_Some_conv)+

lemma read_bits_ge: "read_bits src n s = Some (bs, s') \<Longrightarrow> s \<le> s'"
proof (induction src n s arbitrary: bs s' rule: read_bits.induct)
  case (1 src n s)
  then show ?case by (subst (asm) (2) read_bits.simps) (fastforce simp: bind_eq_Some_conv split: if_splits)
qed

lemma new_fg_ge: "new_fg p src sets s = Some (s', fg) \<Longrightarrow> s \<le> s'"
  by (auto simp: new_fg_def split: if_splits)

lemma read_order_less: "read_order p src s = Some (ord, s') \<Longrightarrow> s < s'"
  unfolding read_order_def Let_def
  by (auto simp: bind_eq_Some_conv dest!: run_length_adv read_pels_ge read_bits_ge new_fg_ge split: if_splits)

text \<open>The buffer and cursor show the pixels painted so far, the rest black.\<close>

definition pic :: "nat \<Rightarrow> nat \<Rightarrow> cursor \<Rightarrow> bytes list \<Rightarrow> bool" where
  "pic p n = (\<lambda>(dst, d) px. dst = concat px @ replicate ((n - length px) * p) 0 \<and> d = length px * p \<and>
    length px \<le> n \<and> (\<forall>x \<in> set px. length x = p))"

definition opt_pic :: "nat \<Rightarrow> nat \<Rightarrow> cursor option \<Rightarrow> bytes list \<Rightarrow> bool" where
  "opt_pic p n oc px = (case oc of None \<Rightarrow> n < length px | Some c \<Rightarrow> pic p n c px)"

lemma length_concat_p: "\<forall>x \<in> set px. length x = p \<Longrightarrow> length (concat px) = length px * p"
  by (induction px) auto

lemma nth_concat_p: "\<forall>x \<in> set px. length x = p \<Longrightarrow> i < length px \<Longrightarrow> take p (drop (i * p) (concat px @ zs)) = px ! i"
proof (induction px arbitrary: i)
  case (Cons x px)
  then show ?case by (cases i) simp_all
qed simp

lemma put_pixel:
  assumes "pic p n (dst, d) px" "0 < p" "length x = p"
  shows "opt_pic p n (if d + p > length dst then None else Some (take d dst @ x @ drop (d + p) dst, d + p)) (px @ [x])"
proof -
  have l: "length (concat px) = length px * p" "length dst = n * p" "d = length px * p" "length px \<le> n"
      and dst: "dst = concat px @ replicate ((n - length px) * p) 0"
    using assms(1) length_concat_p [of px p] by (auto simp: pic_def add_mult_distrib [symmetric])
  have full: "d + p > length dst \<longleftrightarrow> n < length (px @ [x])"
  proof -
    have "d + p = (length px + 1) * p" using l by simp
    then show ?thesis using assms(2) by (simp only: l mult_less_cancel2) auto
  qed
  show ?thesis
  proof (cases "n < length (px @ [x])")
    case False
    then have "(n - length px) * p = p + (n - length (px @ [x])) * p"
      by (metis Suc_diff_Suc length_append_singleton mult_Suc not_less_eq)
    then have "drop (d + p) dst = replicate ((n - length (px @ [x])) * p) 0" "take d dst = concat px"
      unfolding dst l(3) using l(1) by simp_all
    then show ?thesis using False full assms by (auto simp: opt_pic_def pic_def l(3))
  qed (use full in \<open>simp add: opt_pic_def\<close>)
qed

lemma above_pic:
  assumes "pic p n (dst, d) px" "0 < p" "0 < w"
  shows "above_pel dst d (w * p) p = above w p px" "length (above w p px) = p"
proof -
  have d: "d = length px * p" "\<forall>x \<in> set px. length x = p" "dst = concat px @ replicate ((n - length px) * p) 0"
    using assms(1) by (auto simp: pic_def)
  have c: "w * p \<le> d \<longleftrightarrow> w \<le> length px" using assms(2) by (simp add: d)
  have "take p (drop (length px * p - w * p) dst) = px ! (length px - w)" if "w \<le> length px"
    unfolding d(3) diff_mult_distrib [symmetric] using that assms(3) by (intro nth_concat_p d(2)) simp
  then show "above_pel dst d (w * p) p = above w p px" unfolding above_pel_def above_def c by (simp add: d(1))
  show "length (above w p px) = p" using d(2) assms(3) by (auto simp: above_def)
qed

lemma write_bit_pic:
  assumes "pic p n c px" "0 < p" "0 < w" "length fg = p"
  shows "opt_pic p n (if b then write_fg (w * p) p fg c else write_bg (w * p) p c) (paint_bit w p fg px b)"
proof -
  obtain dst d where c: "c = (dst, d)" by (cases c)
  note a = above_pic [OF assms(1) [unfolded c] assms(2,3)]
  show ?thesis using put_pixel [OF assms(1) [unfolded c] assms(2), of "if b then map2 (XOR) (above w p px) fg else above w p px"] a assms(4)
    by (auto simp: c write_fg_def write_bg_def paint_bit_def split: if_splits)
qed

lemma write_abs_pic:
  assumes "pic p n c px" "0 < p" "length x = p"
  shows "opt_pic p n (write_abs p x c) (px @ [x])"
  using put_pixel [of p n "fst c" "snd c" px x] assms by (auto simp: write_abs_def split: prod.splits)

lemma opt_pic_bind:
  assumes "opt_pic p n oc px" "\<And>c. pic p n c px \<Longrightarrow> opt_pic p n (f c) px'" "length px \<le> length px'"
  shows "opt_pic p n (Option.bind oc f) px'"
  using assms by (cases oc) (auto simp: opt_pic_def)

lemma paint_bits_ge: "length (paint_bits w p fg px bs) = length px + length bs"
  unfolding paint_bits_def by (induction bs arbitrary: px) (simp_all add: paint_bit_def)

lemma paint_bits_Cons: "paint_bits w p fg px (b # bs) = paint_bits w p fg (paint_bit w p fg px b) bs"
  by (simp add: paint_bits_def)

lemma paint_bits_append: "paint_bits w p fg px (bs @ bs') = paint_bits w p fg (paint_bits w p fg px bs) bs'"
  by (simp add: paint_bits_def)

lemma write_bits_pic:
  "pic p n c px \<Longrightarrow> 0 < p \<Longrightarrow> 0 < w \<Longrightarrow> length fg = p \<Longrightarrow> opt_pic p n (write_bits (w * p) p fg bs c) (paint_bits w p fg px bs)"
proof (induction bs arbitrary: c px)
  case Nil
  then show ?case by (simp add: opt_pic_def paint_bits_def)
next
  case (Cons b bs)
  show ?case unfolding write_bits.simps paint_bits_Cons
    by (rule opt_pic_bind [OF write_bit_pic [OF Cons.prems]]) (auto intro: Cons.IH simp: Cons.prems paint_bits_ge)
qed

lemma repeat_bits:
  "repeat_ok k (write_fg rd p fg) = write_bits rd p fg (replicate k True)"
  "repeat_ok k (write_bg rd p) = write_bits rd p fg (replicate k False)"
proof -
  show "repeat_ok k (write_fg rd p fg) = write_bits rd p fg (replicate k True)" by (induction k; rule ext) simp_all
  show "repeat_ok k (write_bg rd p) = write_bits rd p fg (replicate k False)" by (induction k; rule ext) simp_all
qed

lemma opt_pic_drop: "opt_pic p n oc px \<Longrightarrow> length px \<le> length px' \<Longrightarrow> oc = None \<Longrightarrow> n < length px'"
  by (simp add: opt_pic_def)

lemma repeat_abs_pic:
  "pic p n c px \<Longrightarrow> 0 < p \<Longrightarrow> length x = p \<Longrightarrow> opt_pic p n (repeat_ok k (write_abs p x) c) (px @ replicate k x)"
proof (induction k arbitrary: c px)
  case (Suc k)
  have "px @ replicate (Suc k) x = (px @ [x]) @ replicate k x" by simp
  then show ?case unfolding repeat_ok.simps
    by (auto intro!: opt_pic_bind [OF write_abs_pic [OF Suc.prems]] simp: Suc.IH [OF _ Suc.prems(2,3), of _ "px @ [x]", simplified])
qed (simp add: opt_pic_def)

lemma repeat_dither_pic:
  assumes "0 < p" "length x = p" "length y = p"
  shows "pic p n c px \<Longrightarrow> opt_pic p n (repeat_ok k (\<lambda>c. Option.bind (write_abs p x c) (write_abs p y)) c) (px @ concat (replicate k [x, y]))"
proof (induction k arbitrary: c px)
  case (Suc k)
  have one: "opt_pic p n (Option.bind (write_abs p x c) (write_abs p y)) (px @ [x, y])"
    using opt_pic_bind [OF write_abs_pic [OF Suc.prems assms(1,2)], of "write_abs p y" "px @ [x, y]"]
      write_abs_pic [of p n _ "px @ [x]" y] assms by simp
  show ?case unfolding repeat_ok.simps
    by (rule opt_pic_bind [OF one]) (use Suc.IH [of _ "px @ [x, y]"] in \<open>simp_all\<close>)
qed (simp add: opt_pic_def)

text \<open>Loops that read while they write: they fail when the reading does, else they come to what was read.\<close>

definition opt_pic_at :: "nat \<Rightarrow> nat \<Rightarrow> nat \<Rightarrow> (nat \<times> cursor) option \<Rightarrow> bytes list \<Rightarrow> bool" where
  "opt_pic_at p n s oc px = (case oc of None \<Rightarrow> n < length px | Some (s', c) \<Rightarrow> s' = s \<and> pic p n c px)"

lemma slice_get_len: "slice_get src s (s + p) = Some x \<Longrightarrow> length x = p"
  by (auto simp: slice_get_def split: if_splits)

lemma color_image_pic:
  fixes src :: bytes
  assumes "0 < p"
  defines "step \<equiv> (\<lambda>(s, c). Option.bind (slice_get src s (s + p)) (\<lambda>px. map_option (\<lambda>c. (s + p, c)) (write_abs p px c)))"
  shows "pic p n c px \<Longrightarrow>
    (case read_pels p k src s of
       None \<Rightarrow> repeat_ok k step (s, c) = None
     | Some (xs, s') \<Rightarrow> opt_pic_at p n s' (repeat_ok k step (s, c)) (px @ xs))"
proof (induction k arbitrary: s c px)
  case (Suc k)
  show ?case
  proof (cases "slice_get src s (s + p)")
    case (Some x)
    have w: "opt_pic p n (write_abs p x c) (px @ [x])" by (rule write_abs_pic [OF Suc.prems assms(1) slice_get_len [OF Some]])
    show ?thesis
    proof (cases "write_abs p x c")
      case None
      then show ?thesis using w Some by (auto simp: step_def opt_pic_def opt_pic_at_def split: option.splits)
    next
      case (Some c')
      then have "pic p n c' (px @ [x])" using w by (simp add: opt_pic_def)
      from Suc.IH [OF this, of "s + p"] Some \<open>slice_get src s (s + p) = Some x\<close> show ?thesis
        by (auto simp: step_def split: option.splits)
    qed
  qed (simp add: step_def)
qed (simp add: opt_pic_at_def)

lemma fgbg_image_pic:
  "pic p n c px \<Longrightarrow> 0 < p \<Longrightarrow> 0 < w \<Longrightarrow> length fg = p \<Longrightarrow>
    (case read_bits src k s of
       None \<Rightarrow> fgbg_image (w * p) p fg src k (s, c) = None
     | Some (bs, s') \<Rightarrow> opt_pic_at p n s' (fgbg_image (w * p) p fg src k (s, c)) (paint_bits w p fg px bs))"
proof (induction k arbitrary: s c px rule: less_induct)
  case (less k)
  show ?case
  proof (cases "k = 0")
    case True
    then show ?thesis using less.prems
      by (subst fgbg_image.simps, subst read_bits.simps) (simp add: opt_pic_at_def paint_bits_def)
  next
    case False
    let ?k = "k - min k 8"
    show ?thesis
    proof (cases "index_get src s")
      case None
      then show ?thesis using False by (subst fgbg_image.simps, subst read_bits.simps) simp
    next
      case (Some m)
      let ?bits = "map (bit m) [0..<min k 8]"
      have w: "opt_pic p n (write_fgbg (w * p) p fg m (min k 8) c) (paint_bits w p fg px ?bits)"
        unfolding write_fgbg_def by (rule write_bits_pic [OF less.prems])
      have rb: "read_bits src k s = map_option (\<lambda>(bs, s). (?bits @ bs, s)) (read_bits src ?k (s + 1))"
        using False Some by (subst read_bits.simps) simp
      have fi: "fgbg_image (w * p) p fg src k (s, c) =
          Option.bind (write_fgbg (w * p) p fg m (min k 8) c) (\<lambda>c. fgbg_image (w * p) p fg src ?k (s + 1, c))"
        using False Some by (subst fgbg_image.simps) (simp add: Let_def)
      show ?thesis
      proof (cases "write_fgbg (w * p) p fg m (min k 8) c")
        case None
        then show ?thesis unfolding rb fi using w
          by (auto simp: opt_pic_def opt_pic_at_def paint_bits_append paint_bits_ge split: option.splits)
      next
        case (Some c')
        then have "pic p n c' (paint_bits w p fg px ?bits)" using w by (simp add: opt_pic_def)
        from less.IH [OF _ this less.prems(2-4), of ?k "s + 1"] False Some show ?thesis unfolding rb fi
          by (auto simp: paint_bits_append split: option.splits)
      qed
    qed
  qed
qed

lemma set_fg_new: "set_fg p src sets s fg = map_option (\<lambda>(s, x). (s, case x of None \<Rightarrow> fg | Some x \<Rightarrow> x)) (new_fg p src sets s)"
  by (cases "slice_get src s (s + p)") (simp_all add: set_fg_def new_fg_def)

lemma new_fg_len: "new_fg p src sets s = Some (s', Some x) \<Longrightarrow> length x = p"
  by (auto simp: new_fg_def dest: slice_get_len split: if_splits)

text \<open>One order of the decoder against one of the painter.\<close>

definition good :: "nat \<Rightarrow> nat \<Rightarrow> rle option \<Rightarrow> bytes list \<times> bytes \<times> bool \<Rightarrow> nat \<Rightarrow> bool" where
  "good p n ro t s' =
    (case ro of None \<Rightarrow> n < length (fst t)
     | Some r \<Rightarrow> r_s r = s' \<and> pic p n (r_cur r) (fst t) \<and> (r_fg r, r_prev_bg r) = snd t)"

lemma good_bind:
  "opt_pic p n oc px \<Longrightarrow> good p n (Option.bind oc (\<lambda>c. Some (r\<lparr>r_cur := c, r_s := s', r_fg := fg, r_prev_bg := b\<rparr>))) (px, fg, b) s'"
  by (cases oc) (simp_all add: opt_pic_def good_def)

lemma good_bg:
  "opt_pic p n oc px \<Longrightarrow> good p n (Option.bind oc (\<lambda>c. Some (r\<lparr>r_cur := c, r_s := s', r_prev_bg := b\<rparr>))) (px, r_fg r, b) s'"
  by (cases oc) (simp_all add: opt_pic_def good_def)

lemma good_at:
  "opt_pic_at p n s' oc px \<Longrightarrow>
    good p n (Option.bind oc (\<lambda>(s, c). Some (r\<lparr>r_cur := c, r_s := s, r_fg := fg, r_prev_bg := b\<rparr>))) (px, fg, b) s'"
  by (cases oc) (auto simp: opt_pic_at_def good_def)

lemma bg_bits:
  "Option.bind (if prev then write_fg rd p fg c else Some c) (\<lambda>c. Option.bind (repeat_ok (if prev then k - 1 else k) (write_bg rd p) c) f)
    = Option.bind (write_bits rd p fg (if prev then True # replicate (k - 1) False else replicate k False) c) f"
  by (cases prev) (simp_all add: repeat_bits(2) [where fg = fg])

definition agree :: "nat \<Rightarrow> nat \<Rightarrow> rle option \<Rightarrow> bytes list \<times> bytes \<times> bool \<Rightarrow> (order \<times> nat) option \<Rightarrow> nat \<Rightarrow> bool" where
  "agree p n ro t oo w = (case oo of None \<Rightarrow> ro = None | Some (ord, s') \<Rightarrow> good p n ro (paint w p t ord) s')"

lemma agree_None [simp]: "agree p n None t None w"
  by (simp add: agree_def)

lemma order_agrees:
  assumes pic: "pic p n (r_cur r) px" and p: "0 < p" and w: "0 < w" and fg: "length (r_fg r) = p"
  shows "agree p n (rle_order (w * p) p src r) (px, r_fg r, r_prev_bg r) (read_order p src (r_s r)) w"
proof -
  let ?code = "extract_code_id (src ! r_s r)" and ?len = "extract_run_length (extract_code_id (src ! r_s r)) src (r_s r)"
  note bits = write_bits_pic [OF pic p w]
  have keep: "r\<lparr>r_cur := c, r_s := s', r_fg := r_fg r, r_prev_bg := False\<rparr> = r\<lparr>r_cur := c, r_s := s', r_prev_bg := False\<rparr>" for c s'
    by simp
  have special: "good p n (Option.bind (write_fgbg (w * p) p (r_fg r) m 8 (r_cur r))
        (\<lambda>c. Some (r\<lparr>r_cur := c, r_s := s', r_prev_bg := False\<rparr>))) (paint w p (px, r_fg r, r_prev_bg r) (special_bits m)) s'" for m s'
    using good_bg [OF bits [OF fg]] by (simp add: special_bits_def write_fgbg_def Let_def)
  have pel: "good p n (Option.bind (write_abs p x (r_cur r))
        (\<lambda>c. Some (r\<lparr>r_cur := c, r_s := s', r_prev_bg := False\<rparr>))) (paint w p (px, r_fg r, r_prev_bg r) (Pels [x])) s'"
    if "length x = p" for x s'
    using good_bg [OF write_abs_pic [OF pic p that]] by simp
  consider (bg)  "?code \<in> {C_BG_RUN, C_MEGA_BG_RUN}"
    | (fgr) "?code \<notin> {C_BG_RUN, C_MEGA_BG_RUN}" "?code \<in> {C_FG_RUN, C_MEGA_FG_RUN, C_LITE_SET_FG_FG_RUN, C_MEGA_SET_FG_RUN}"
    | (colors) "?code \<notin> {C_BG_RUN, C_MEGA_BG_RUN}" "?code \<notin> {C_FG_RUN, C_MEGA_FG_RUN, C_LITE_SET_FG_FG_RUN, C_MEGA_SET_FG_RUN}" "?code \<in> {C_COLOR_RUN, C_MEGA_COLOR_RUN}"
    | (image) "?code \<notin> {C_BG_RUN, C_MEGA_BG_RUN}" "?code \<notin> {C_FG_RUN, C_MEGA_FG_RUN, C_LITE_SET_FG_FG_RUN, C_MEGA_SET_FG_RUN}" "?code \<notin> {C_COLOR_RUN, C_MEGA_COLOR_RUN}" "?code \<in> {C_COLOR_IMAGE, C_MEGA_COLOR_IMAGE}"
    | (fgbg) "?code \<notin> {C_BG_RUN, C_MEGA_BG_RUN}" "?code \<notin> {C_FG_RUN, C_MEGA_FG_RUN, C_LITE_SET_FG_FG_RUN, C_MEGA_SET_FG_RUN}" "?code \<notin> {C_COLOR_RUN, C_MEGA_COLOR_RUN}" "?code \<notin> {C_COLOR_IMAGE, C_MEGA_COLOR_IMAGE}" "?code \<in> {C_FGBG_IMAGE, C_MEGA_FGBG_IMAGE, C_LITE_SET_FG_FGBG_IMAGE, C_MEGA_SET_FGBG_IMAGE}"
    | (dither) "?code \<notin> {C_BG_RUN, C_MEGA_BG_RUN}" "?code \<notin> {C_FG_RUN, C_MEGA_FG_RUN, C_LITE_SET_FG_FG_RUN, C_MEGA_SET_FG_RUN}" "?code \<notin> {C_COLOR_RUN, C_MEGA_COLOR_RUN}" "?code \<notin> {C_COLOR_IMAGE, C_MEGA_COLOR_IMAGE}" "?code \<notin> {C_FGBG_IMAGE, C_MEGA_FGBG_IMAGE, C_LITE_SET_FG_FGBG_IMAGE, C_MEGA_SET_FGBG_IMAGE}" "?code \<in> {C_LITE_DITHERED_RUN, C_MEGA_DITHERED_RUN}"
    | (rest) "?code \<notin> {C_BG_RUN, C_MEGA_BG_RUN}" "?code \<notin> {C_FG_RUN, C_MEGA_FG_RUN, C_LITE_SET_FG_FG_RUN, C_MEGA_SET_FG_RUN}" "?code \<notin> {C_COLOR_RUN, C_MEGA_COLOR_RUN}" "?code \<notin> {C_COLOR_IMAGE, C_MEGA_COLOR_IMAGE}" "?code \<notin> {C_FGBG_IMAGE, C_MEGA_FGBG_IMAGE, C_LITE_SET_FG_FGBG_IMAGE, C_MEGA_SET_FGBG_IMAGE}" "?code \<notin> {C_LITE_DITHERED_RUN, C_MEGA_DITHERED_RUN}"
    by blast
  then show ?thesis
  proof cases
    case bg
    show ?thesis
    proof (cases ?len)
      case (Some ra)
      obtain run adv where "ra = (run, adv)" by (cases ra)
      with Some have len: "?len = Some (run, adv)" by simp
      let ?bits = "if r_prev_bg r then True # replicate (run - 1) False else replicate run False"
      have "rle_order (w * p) p src r =
          Option.bind (write_bits (w * p) p (r_fg r) ?bits (r_cur r)) (\<lambda>c. Some (r\<lparr>r_cur := c, r_s := r_s r + adv, r_prev_bg := True\<rparr>))"
        unfolding rle_order_def Let_def if_P [OF bg] len by (simp only: bind.simps prod.case bg_bits)
      moreover have "read_order p src (r_s r) = Some (BgRun run, r_s r + adv)"
        unfolding read_order_def Let_def if_P [OF bg] len by simp
      ultimately show ?thesis
        using good_bg [OF bits [OF fg, of ?bits], where r = r and b = True] by (simp only: agree_def option.case prod.case paint.simps)
    next
      case None
      then show ?thesis unfolding rle_order_def read_order_def Let_def if_P [OF bg] agree_def by simp
    qed
  next
    case fgr
    show ?thesis
    proof (cases ?len)
      case (Some ra)
      obtain run adv where "ra = (run, adv)" by (cases ra)
      with Some have len: "?len = Some (run, adv)" by simp
      let ?sets = "?code \<in> {C_LITE_SET_FG_FG_RUN, C_MEGA_SET_FG_RUN}"
      show ?thesis
      proof (cases "new_fg p src ?sets (r_s r + adv)")
        case None
        then show ?thesis unfolding rle_order_def read_order_def Let_def if_not_P [OF fgr(1)] if_P [OF fgr(2)] len agree_def set_fg_new
          by simp
      next
        case (Some sx)
        obtain s' x where "sx = (s', x)" by (cases sx)
        with Some have nf: "new_fg p src ?sets (r_s r + adv) = Some (s', x)" by simp
        let ?fg = "case x of None \<Rightarrow> r_fg r | Some y \<Rightarrow> y"
        have "length ?fg = p" using fg nf by (cases x) (auto dest: new_fg_len)
        from good_bind [OF bits [OF this, of "replicate run True"], where r = r and s' = s' and fg = ?fg and b = False] show ?thesis
          unfolding rle_order_def read_order_def Let_def if_not_P [OF fgr(1)] if_P [OF fgr(2)] len agree_def set_fg_new
          using nf by (simp add: repeat_bits(1) Let_def)
      qed
    next
      case None
      then show ?thesis unfolding rle_order_def read_order_def Let_def if_not_P [OF fgr(1)] if_P [OF fgr(2)] agree_def by simp
    qed
  next
    case colors
    show ?thesis
    proof (cases ?len)
      case (Some ra)
      obtain run adv where "ra = (run, adv)" by (cases ra)
      with Some have len: "?len = Some (run, adv)" by simp
      show ?thesis
      proof (cases "slice_get src (r_s r + adv) (r_s r + adv + p)")
        case (Some x)
        from good_bg [OF repeat_abs_pic [OF pic p slice_get_len [OF Some], where k = run], where r = r and b = False] show ?thesis
          unfolding rle_order_def read_order_def Let_def if_not_P [OF colors(1)] if_not_P [OF colors(2)] if_P [OF colors(3)] len agree_def keep using Some by simp
      next
        case None
        then show ?thesis unfolding rle_order_def read_order_def Let_def if_not_P [OF colors(1)] if_not_P [OF colors(2)] if_P [OF colors(3)] len agree_def by simp
      qed
    next
      case None
      then show ?thesis unfolding rle_order_def read_order_def Let_def if_not_P [OF colors(1)] if_not_P [OF colors(2)] if_P [OF colors(3)] agree_def by simp
    qed
  next
    case image
    show ?thesis
    proof (cases ?len)
      case (Some ra)
      obtain run adv where "ra = (run, adv)" by (cases ra)
      with Some have len: "?len = Some (run, adv)" by simp
      from color_image_pic [OF p pic, where src = src and k = run and s = "r_s r + adv"] good_at [where p = p and n = n and r = r and fg = "r_fg r" and b = False]
      show ?thesis unfolding rle_order_def read_order_def Let_def if_not_P [OF image(1)] if_not_P [OF image(2)] if_not_P [OF image(3)] if_P [OF image(4)] len agree_def
        by (auto split: option.splits)
    next
      case None
      then show ?thesis unfolding rle_order_def read_order_def Let_def if_not_P [OF image(1)] if_not_P [OF image(2)] if_not_P [OF image(3)] if_P [OF image(4)] agree_def by simp
    qed
  next
    case fgbg
    show ?thesis
    proof (cases ?len)
      case (Some ra)
      obtain run adv where "ra = (run, adv)" by (cases ra)
      with Some have len: "?len = Some (run, adv)" by simp
      let ?sets = "?code \<in> {C_LITE_SET_FG_FGBG_IMAGE, C_MEGA_SET_FGBG_IMAGE}"
      show ?thesis
      proof (cases "new_fg p src ?sets (r_s r + adv)")
        case None
        then show ?thesis unfolding rle_order_def read_order_def Let_def if_not_P [OF fgbg(1)] if_not_P [OF fgbg(2)] if_not_P [OF fgbg(3)] if_not_P [OF fgbg(4)] if_P [OF fgbg(5)] len agree_def set_fg_new by simp
      next
        case (Some sx)
        obtain s' x where "sx = (s', x)" by (cases sx)
        with Some have nf: "new_fg p src ?sets (r_s r + adv) = Some (s', x)" by simp
        let ?fg = "case x of None \<Rightarrow> r_fg r | Some y \<Rightarrow> y"
        have "length ?fg = p" using fg nf by (cases x) (auto dest: new_fg_len)
        from fgbg_image_pic [OF pic p w this, where src = src and k = run and s = s'] good_at [where p = p and n = n and r = r and fg = ?fg and b = False] show ?thesis
          unfolding rle_order_def read_order_def Let_def if_not_P [OF fgbg(1)] if_not_P [OF fgbg(2)] if_not_P [OF fgbg(3)] if_not_P [OF fgbg(4)] if_P [OF fgbg(5)] len agree_def set_fg_new
          using nf by (auto simp: Let_def split: option.splits)
      qed
    next
      case None
      then show ?thesis unfolding rle_order_def read_order_def Let_def if_not_P [OF fgbg(1)] if_not_P [OF fgbg(2)] if_not_P [OF fgbg(3)] if_not_P [OF fgbg(4)] if_P [OF fgbg(5)] agree_def by simp
    qed
  next
    case dither
    show ?thesis
    proof (cases ?len)
      case (Some ra)
      obtain run adv where "ra = (run, adv)" by (cases ra)
      with Some have len: "?len = Some (run, adv)" by simp
      show ?thesis
      proof (cases "slice_get src (r_s r + adv) (r_s r + adv + p)")
        case x: (Some x)
        show ?thesis
        proof (cases "slice_get src (r_s r + adv + p) (r_s r + adv + p + p)")
          case y: (Some y)
          from good_bg [OF repeat_dither_pic [OF p slice_get_len [OF x] slice_get_len [OF y] pic, where k = run], where r = r and b = False]
          show ?thesis unfolding rle_order_def read_order_def Let_def if_not_P [OF dither(1)] if_not_P [OF dither(2)] if_not_P [OF dither(3)] if_not_P [OF dither(4)] if_not_P [OF dither(5)] if_P [OF dither(6)] len agree_def keep using x y by simp
        next
          case None
          then show ?thesis unfolding rle_order_def read_order_def Let_def if_not_P [OF dither(1)] if_not_P [OF dither(2)] if_not_P [OF dither(3)] if_not_P [OF dither(4)] if_not_P [OF dither(5)] if_P [OF dither(6)] len agree_def using x by simp
        qed
      next
        case None
        then show ?thesis unfolding rle_order_def read_order_def Let_def if_not_P [OF dither(1)] if_not_P [OF dither(2)] if_not_P [OF dither(3)] if_not_P [OF dither(4)] if_not_P [OF dither(5)] if_P [OF dither(6)] len agree_def by simp
      qed
    next
      case None
      then show ?thesis unfolding rle_order_def read_order_def Let_def if_not_P [OF dither(1)] if_not_P [OF dither(2)] if_not_P [OF dither(3)] if_not_P [OF dither(4)] if_not_P [OF dither(5)] if_P [OF dither(6)] agree_def by simp
    qed
  next
    case rest
    note u = if_not_P [OF rest(1)] if_not_P [OF rest(2)] if_not_P [OF rest(3)] if_not_P [OF rest(4)] if_not_P [OF rest(5)] if_not_P [OF rest(6)]
    show ?thesis unfolding rle_order_def read_order_def Let_def u agree_def keep
      using special pel [of "replicate p 0xFF"] pel [of "replicate p 0"] by simp
  qed
qed

section \<open>The whole stream\<close>

lemma order_advances:
  assumes "pic p n (r_cur r) px" "0 < p" "0 < w" "length (r_fg r) = p" "rle_order (w * p) p src r = Some r'"
  shows "r_s r < r_s r'"
  using order_agrees [OF assms(1-4), of src] assms(5)
  by (auto simp: agree_def good_def dest: read_order_less split: option.splits)

function read_orders :: "nat \<Rightarrow> bytes \<Rightarrow> nat \<Rightarrow> order list option" where
  "read_orders p src s =
    (if s < length src
     then (case read_order p src s of
             None \<Rightarrow> None
           | Some (ord, s') \<Rightarrow> map_option (\<lambda>os. ord # os) (read_orders p src s'))
     else Some [])"
  by pat_completeness auto
termination
  by (relation "measure (\<lambda>(p, src, s). length src - s)") (auto dest!: read_order_less)

declare read_orders.simps [simp del]

text \<open>The picture the orders paint: \<open>None\<close> when it is over full, the rest black.\<close>

definition painted :: "nat \<Rightarrow> nat \<Rightarrow> nat \<Rightarrow> order list \<Rightarrow> bytes option" where
  "painted w n p os =
    (let px = fst (foldl (paint w p) ([], replicate p 0xFF, False) os)
     in if n < length px then None else Some (concat px @ replicate ((n - length px) * p) 0))"

lemma paint_grows: "length (fst t) \<le> length (fst (paint w p t ord))"
  by (cases "(w, p, t, ord)" rule: paint.cases) (simp_all add: paint_bits_ge Let_def)

lemma foldl_paint_grows: "length (fst t) \<le> length (fst (foldl (paint w p) t os))"
proof (induction os arbitrary: t)
  case (Cons ord os)
  from order.trans [OF paint_grows Cons.IH] show ?case by simp
qed simp

lemma read_order_fg: "read_order p src s = Some (FgBits (Some x) bs, s') \<Longrightarrow> length x = p"
  unfolding read_order_def Let_def
  by (auto simp del: insert_iff singleton_iff simp: bind_eq_Some_conv special_bits_def dest!: new_fg_len split: if_splits)

lemma paint_fg_len:
  assumes "length fg = p" "read_order p src s = Some (ord, s')"
  shows "length (fst (snd (paint w p (px, fg, prev) ord))) = p"
proof (cases ord)
  case (FgBits new bs)
  then show ?thesis using assms read_order_fg [of p src s _ bs s'] by (cases new) (simp_all add: Let_def)
qed (use assms in simp_all)

lemma read_orders_end: "\<not> s < length src \<Longrightarrow> read_orders p src s = Some []"
  by (subst read_orders.simps) simp

lemma pic_full: "pic p n c px \<Longrightarrow> fst c = concat px @ replicate ((n - length px) * p) 0 \<and> \<not> n < length px"
  by (cases c) (simp add: pic_def)

lemma rle_loop_paints:
  "pic p n (r_cur r) px \<Longrightarrow> 0 < p \<Longrightarrow> 0 < w \<Longrightarrow> length (r_fg r) = p \<Longrightarrow> length src - r_s r \<le> fuel \<Longrightarrow>
   map_option (\<lambda>r. fst (r_cur r)) (rle_loop fuel (w * p) p src r) =
   Option.bind (read_orders p src (r_s r)) (\<lambda>os.
     let px = fst (foldl (paint w p) (px, r_fg r, r_prev_bg r) os)
     in if n < length px then None else Some (concat px @ replicate ((n - length px) * p) 0))"
proof (induction fuel arbitrary: r px)
  case 0
  then show ?case using pic_full [OF "0.prems"(1)] read_orders_end [of "r_s r" src p] by simp
next
  case (Suc fuel)
  show ?case
  proof (cases "r_s r < length src")
    case False
    then show ?thesis using pic_full [OF Suc.prems(1)] read_orders_end [OF False, of p] by simp
  next
    case True
    note ag = order_agrees [OF Suc.prems(1-4), of src]
    show ?thesis
    proof (cases "read_order p src (r_s r)")
      case None
      then have "rle_order (w * p) p src r = None" using ag by (simp add: agree_def)
      then show ?thesis using True None by (subst read_orders.simps) simp
    next
      case (Some os)
      obtain ord s' where ord: "read_order p src (r_s r) = Some (ord, s')" using Some by (cases os) auto
      have g: "good p n (rle_order (w * p) p src r) (paint w p (px, r_fg r, r_prev_bg r) ord) s'"
        using ag ord by (simp add: agree_def)
      have rd: "read_orders p src (r_s r) = map_option (\<lambda>os. ord # os) (read_orders p src s')"
        using True ord by (subst read_orders.simps) simp
      show ?thesis
      proof (cases "rle_order (w * p) p src r")
        case None
        then have "n < length (fst (paint w p (px, r_fg r, r_prev_bg r) ord))" using g by (simp add: good_def)
        then have "n < length (fst (foldl (paint w p) (paint w p (px, r_fg r, r_prev_bg r) ord) os))" for os
          using foldl_paint_grows order.strict_trans2 by blast
        then show ?thesis using True None unfolding rd by (cases "read_orders p src s'") (simp_all add: Let_def)
      next
        case (Some r')
        obtain px' fg' prev' where pt: "paint w p (px, r_fg r, r_prev_bg r) ord = (px', fg', prev')"
          by (cases "paint w p (px, r_fg r, r_prev_bg r) ord") auto
        have r': "r_s r' = s'" "pic p n (r_cur r') px'" "r_fg r' = fg'" "r_prev_bg r' = prev'"
          using g Some by (auto simp: good_def pt)
        have "length (r_fg r') = p" using paint_fg_len [OF Suc.prems(4) ord, of w px "r_prev_bg r"] by (simp add: pt r')
        moreover have "length src - r_s r' \<le> fuel" using read_order_less [OF ord] Suc.prems(5) True by (simp add: r')
        ultimately show ?thesis using Suc.IH [OF r'(2) Suc.prems(2,3)] True Some unfolding rd
          by (cases "read_orders p src s'") (simp_all add: r' pt)
      qed
    qed
  qed
qed

lemma rle_pixel_size_pos: "rle_pixel_size bpp = Some p \<Longrightarrow> 0 < p"
  by (auto simp: rle_pixel_size_def split: if_splits)

lemma decompress_paints:
  assumes "rle_pixel_size bpp = Some p" "unat width * unat height \<noteq> 0"
  shows "decompress_interleaved src width height bpp = Option.bind (read_orders p src 0) (painted (unat width) (unat width * unat height) p)"
proof -
  let ?n = "unat width * unat height"
  let ?r = "\<lparr>r_cur = (replicate (?n * p) 0, 0), r_s = 0, r_fg = replicate p 0xFF, r_prev_bg = False\<rparr>"
  have "pic p ?n (r_cur ?r) []" by (simp add: pic_def)
  from rle_loop_paints [OF this, of "unat width" src "length src"] assms rle_pixel_size_pos [OF assms(1)] show ?thesis
    by (auto simp: decompress_interleaved_def painted_def [abs_def] Let_def)
qed

lemma decompress_painting:
  "decompress_interleaved src width height bpp =
    (case rle_pixel_size bpp of
       None \<Rightarrow> None
     | Some p \<Rightarrow>
         if unat width * unat height = 0 then Some []
         else Option.bind (read_orders p src 0) (painted (unat width) (unat width * unat height) p))"
proof (cases "rle_pixel_size bpp")
  case (Some p)
  show ?thesis
  proof (cases "unat width * unat height = 0")
    case True
    then show ?thesis using Some by (auto simp: decompress_interleaved_def Let_def)
  qed (use decompress_paints [OF Some] Some in simp)
qed (simp add: decompress_interleaved_def Let_def)

text \<open>What comes out has the size of the picture.\<close>

lemma read_pels_len: "read_pels p n src s = Some (xs, s') \<Longrightarrow> \<forall>x \<in> set xs. length x = p"
  by (induction n arbitrary: s xs s') (fastforce simp: bind_eq_Some_conv dest: slice_get_len)+

lemma read_order_pels: "read_order p src s = Some (Pels xs, s') \<Longrightarrow> \<forall>x \<in> set xs. length x = p"
  unfolding read_order_def Let_def
  by (auto simp del: insert_iff singleton_iff simp: bind_eq_Some_conv special_bits_def in_set_replicate
      dest!: slice_get_len read_pels_len split: if_splits)

definition lens_ok :: "nat \<Rightarrow> bytes list \<times> bytes \<times> bool \<Rightarrow> bool" where
  "lens_ok p t \<longleftrightarrow> (\<forall>x \<in> set (fst t). length x = p) \<and> length (fst (snd t)) = p"

lemma paint_bits_lens:
  "0 < w \<Longrightarrow> length fg = p \<Longrightarrow> \<forall>x \<in> set px. length x = p \<Longrightarrow> \<forall>x \<in> set (paint_bits w p fg px bs). length x = p"
proof (induction bs arbitrary: px)
  case (Cons b bs)
  have "length (above w p px) = p" using Cons.prems by (auto simp: above_def)
  then have "\<forall>x \<in> set (paint_bit w p fg px b). length x = p" using Cons.prems by (auto simp: paint_bit_def)
  then show ?case unfolding paint_bits_Cons by (rule Cons.IH [OF Cons.prems(1,2)])
qed (simp add: paint_bits_def)

lemma paint_lens:
  assumes "0 < w" "lens_ok p t" "read_order p src s = Some (ord, s')"
  shows "lens_ok p (paint w p t ord)"
proof -
  obtain px fg prev where t: "t = (px, fg, prev)" by (cases t)
  have px: "\<forall>x \<in> set px. length x = p" and fg: "length fg = p" using assms(2) by (simp_all add: lens_ok_def t)
  have "length (fst (snd (paint w p t ord))) = p" unfolding t by (rule paint_fg_len [OF fg assms(3)])
  moreover have "\<forall>x \<in> set (fst (paint w p t ord)). length x = p"
  proof (cases ord)
    case (BgRun n)
    then show ?thesis unfolding t using paint_bits_lens [OF assms(1) fg px] by auto
  next
    case (FgBits new bs)
    have "length (case new of None \<Rightarrow> fg | Some x \<Rightarrow> x) = p"
      using fg assms(3) read_order_fg [of p src s _ bs s'] FgBits by (cases new) auto
    then show ?thesis unfolding t using paint_bits_lens [OF assms(1) _ px] by (auto simp: FgBits Let_def)
  next
    case (Pels xs)
    then show ?thesis unfolding t using read_order_pels [of p src s xs s'] assms(3) px by auto
  qed
  ultimately show ?thesis by (simp add: lens_ok_def)
qed

lemma foldl_paint_lens:
  "0 < w \<Longrightarrow> lens_ok p t \<Longrightarrow> read_orders p src s = Some os \<Longrightarrow> lens_ok p (foldl (paint w p) t os)"
proof (induction p src s arbitrary: t os rule: read_orders.induct)
  case (1 p src s)
  show ?case
  proof (cases "s < length src")
    case True
    then obtain ord s' os' where o: "read_order p src s = Some (ord, s')" "read_orders p src s' = Some os'" "os = ord # os'"
      using "1.prems"(3) by (subst (asm) read_orders.simps) (auto split: option.splits)
    show ?thesis using "1.IH" [OF True o(1) refl "1.prems"(1) paint_lens [OF "1.prems"(1,2) o(1)] o(2)] by (simp add: o(3))
  next
    case False
    then show ?thesis using "1.prems" read_orders_end [OF False, of p] by simp
  qed
qed

lemma decompress_length:
  assumes "decompress_interleaved src width height bpp = Some data" "rle_pixel_size bpp = Some p"
  shows "length data = unat width * unat height * p"
proof (cases "unat width * unat height = 0")
  case True
  then show ?thesis using assms by (simp add: decompress_painting)
next
  case False
  let ?w = "unat width" and ?n = "unat width * unat height"
  obtain os where os: "read_orders p src 0 = Some os" "painted ?w ?n p os = Some data"
    using assms False by (auto simp: decompress_painting bind_eq_Some_conv)
  have "lens_ok p (foldl (paint ?w p) ([], replicate p 0xFF, False) os)"
    using foldl_paint_lens [OF _ _ os(1), of ?w "([], replicate p 0xFF, False)"] False by (simp add: lens_ok_def)
  then have "length (concat (fst (foldl (paint ?w p) ([], replicate p 0xFF, False) os)))
      = length (fst (foldl (paint ?w p) ([], replicate p 0xFF, False) os)) * p"
    by (intro length_concat_p) (simp add: lens_ok_def)
  then show ?thesis using os(2) by (auto simp: painted_def Let_def diff_mult_distrib split: if_splits)
qed

section \<open>The rectangle on screen\<close>

lemma length_pixel_rgba [simp]: "length (pixel_rgba data bpp si) = 4"
  by (simp add: pixel_rgba_def Let_def)

lemma nth_grid:
  assumes "\<And>r. r < h \<Longrightarrow> length (f r) = m" "row < h"
  shows "take k (drop (row * m + j) (concat (map f [0..<h]))) = take k (drop j (f row @ concat (map f [Suc row..<h])))"
proof -
  have "[0..<h] = [0..<row] @ row # [Suc row..<h]"
    using assms(2) by (metis less_imp_add_positive plus_nat.add_0 upt_add_eq_append upt_conv_Cons zero_le)
  then have "concat (map f [0..<h]) = concat (map f [0..<row]) @ f row @ concat (map f [Suc row..<h])" by simp
  moreover have "length (concat (map f [0..<row])) = row * m"
    using assms length_concat_p [of "map f [0..<row]" m] by simp
  ultimately show ?thesis by (simp add: drop_append)
qed

lemma to_rgba_pixel:
  assumes "to_rgba data width height bpp bottom_up = Some out" "bytes_per_pixel bpp = Some n"
    and "row < unat height" "col < unat width"
  shows "length out = unat width * unat height * 4"
    and "take 4 (drop ((row * unat width + col) * 4) out) =
      pixel_rgba data bpp (((if bottom_up then unat height - 1 - row else row) * unat width + col) * n)"
proof -
  let ?w = "unat width" and ?h = "unat height"
  define f where "f row = concat (map (\<lambda>col. pixel_rgba data bpp (((if bottom_up then ?h - 1 - row else row) * ?w + col) * n)) [0..<?w])" for row
  have out: "out = concat (map f [0..<?h])"
    using assms(1,2) by (auto simp: to_rgba_def f_def [abs_def] Let_def split: if_splits)
  have lf: "length (f r) = ?w * 4" for r
    unfolding f_def by (subst length_concat_p [where p = 4]) auto
  show "length out = ?w * ?h * 4" unfolding out by (subst length_concat_p [where p = "?w * 4"]) (auto simp: lf)
  have "take 4 (drop (row * (?w * 4) + col * 4) out) = take 4 (drop (col * 4) (f row @ concat (map f [Suc row..<?h])))"
    unfolding out by (rule nth_grid) (simp_all add: lf assms(3))
  also have "\<dots> = take 4 (drop (col * 4) (f row))" using assms(4) by (simp add: lf)
  also have "\<dots> = pixel_rgba data bpp (((if bottom_up then ?h - 1 - row else row) * ?w + col) * n)"
    unfolding f_def using assms(4)
    by (subst nth_concat_p [where zs = "[]", simplified]) auto
  finally show "take 4 (drop ((row * ?w + col) * 4) out) =
      pixel_rgba data bpp (((if bottom_up then ?h - 1 - row else row) * ?w + col) * n)"
    by (simp add: algebra_simps)
qed

section \<open>Background runs\<close>

lemma extract_bg:
  assumes "0 < n" "n < 32"
  shows "extract_code_id (of_nat n) = C_BG_RUN" "unat (of_nat n AND 0x1F :: u8) = n"
proof -
  have u: "unat (of_nat n :: u8) = n" using assms by (simp add: unat_of_nat)
  have "of_nat n AND 0xC0 \<le> (of_nat n :: u8)" by (rule word_and_le2)
  then have "unat (of_nat n AND 0xC0 :: u8) \<le> n" using u by (simp add: word_le_nat_alt)
  then have "of_nat n AND 0xC0 \<noteq> (0xC0 :: u8)" using assms(2) by auto
  moreover have "unat (drop_bit 5 (of_nat n :: u8)) = 0"
    by (simp only: unat_drop_bit_eq u) (use assms(2) in \<open>simp add: drop_bit_eq_div\<close>)
  ultimately show "extract_code_id (of_nat n) = C_BG_RUN" by (simp add: extract_code_id_def C_BG_RUN_def unat_eq_0)
  have "of_nat n AND 0x1F = take_bit 5 (of_nat n :: u8)" by (simp add: take_bit_eq_mask mask_eq_exp_minus_1)
  moreover have "unat (take_bit 5 (of_nat n :: u8)) = n" 
    by (simp only: unsigned_take_bit_eq u) (use assms(2) in \<open>simp add: take_bit_eq_mod\<close>)
  ultimately show "unat (of_nat n AND 0x1F :: u8) = n" by simp
qed

lemma read_bg:
  assumes "s < length src" "src ! s = of_nat n" "0 < n" "n < 32"
  shows "read_order p src s = Some (BgRun n, s + 1)"
  using assms extract_bg [OF assms(3,4)]
  by (simp add: read_order_def extract_run_length_def short_length_def index_get_def Let_def code_consts)

text \<open>Background continues the rows above it.\<close>

lemma paint_bg_black:
  assumes "0 < w"
  shows "paint_bits w p fg (replicate k (replicate p 0)) (replicate m False) = replicate (k + m) (replicate p 0)"
proof (induction m arbitrary: k)
  case (Suc m)
  have "paint_bit w p fg (replicate k (replicate p 0)) False = replicate (Suc k) (replicate p 0)"
    using assms by (simp add: paint_bit_def above_def replicate_append_same)
  then show ?case using Suc [of "Suc k"] by (simp add: paint_bits_Cons)
qed (simp add: paint_bits_def)

lemma paint_bg_mark:
  "m + k \<le> w \<Longrightarrow> 0 < k \<Longrightarrow> paint_bits w 1 fg (replicate w [0] @ [0xFF] # replicate (k - 1) [0]) (replicate m False)
    = replicate w [0] @ [0xFF] # replicate (k - 1 + m) [0]"
proof (induction m arbitrary: k)
  case (Suc m)
  let ?px = "replicate w [0] @ [0xFF :: u8] # replicate (k - 1) [0]"
  have "above w 1 ?px = [0]" using Suc.prems by (simp add: above_def nth_append)
  then have "paint_bit w 1 fg ?px False = replicate w [0] @ [0xFF] # replicate (Suc k - 1) [0]"
    using Suc.prems by (cases k) (simp_all add: paint_bit_def replicate_append_same)
  then show ?case using Suc.IH [of "Suc k"] Suc.prems by (simp add: paint_bits_Cons)
qed (simp add: paint_bits_def)

section \<open>Properties\<close>

text \<open>
  C16. The decoder of interleaved bitmaps is the painter: it fails exactly when an order does not read or the orders paint more
  pixels than the picture has, and otherwise gives the painted pixels, the rest black.
\<close>

theorem rle_is_painting:
  "decompress_interleaved src width height bpp =
    (case rle_pixel_size bpp of
       None \<Rightarrow> None
     | Some p \<Rightarrow>
         if unat width * unat height = 0 then Some []
         else Option.bind (read_orders p src 0) (painted (unat width) (unat width * unat height) p))"
  by (rule decompress_painting)


lemma sample_bitmap:
  "decompress_interleaved [0x61, 0xE0, 0x07, 0x63, 0x34, 0x12] 2 2 16 = Some [0xE0, 0x07, 0x34, 0x12, 0x34, 0x12, 0x34, 0x12]"
  by code_simp


text \<open>
  A picture of two rows that a run of background codes row by row does not come out all background: the second run is taken
  for one that the compressor kept apart from the first by a foreground pixel, which the decoder puts in.
\<close>

lemma rle_marks_second_row:
  assumes "0 < w" "w < 32"
  shows "decompress_interleaved [of_nat w, of_nat w] (of_nat w) 2 8 = Some (replicate w 0 @ 0xFF # replicate (w - 1) 0)"
proof -
  let ?src = "[of_nat w, of_nat w] :: bytes"
  have u: "unat (of_nat w :: u16) = w" using assms by (simp add: unat_of_nat)
  have "read_order 1 ?src 0 = Some (BgRun w, 1)" "read_order 1 ?src 1 = Some (BgRun w, 2)"
    using read_bg [of 0 ?src w 1] read_bg [of 1 ?src w 1] assms by simp_all
  moreover have "read_orders 1 ?src 2 = Some []" by (rule read_orders_end) simp
  ultimately have "read_orders 1 ?src 1 = Some [BgRun w]" by (subst read_orders.simps) simp
  with \<open>read_order 1 ?src 0 = _\<close> have os: "read_orders 1 ?src 0 = Some [BgRun w, BgRun w]" by (subst read_orders.simps) simp
  have first: "paint_bits w 1 [0xFF] [] (replicate w False) = replicate w [0]"
    using paint_bg_black [OF assms(1), of 1 "[0xFF]" 0 w] by simp
  have "paint_bit w 1 [0xFF] (replicate w [0]) True = replicate w [0] @ [0xFF] # replicate (1 - 1) [0]"
    using assms(1) by (simp add: paint_bit_def above_def)
  then have second: "paint_bits w 1 [0xFF] (replicate w [0]) (True # replicate (w - 1) False) = replicate w [0] @ [0xFF] # replicate (w - 1) [0]"
    unfolding paint_bits_Cons using paint_bg_mark [of "w - 1" 1 w "[0xFF]"] assms(1) by simp
  have c: "concat (replicate k [0 :: u8]) = replicate k 0" for k by (induction k) simp_all
  have r1: "replicate 1 (0xFF :: u8) = [0xFF]" by simp
  have px: "fst (foldl (paint w 1) ([], replicate 1 0xFF, False) [BgRun w, BgRun w]) = replicate w [0] @ [0xFF] # replicate (w - 1) [0]"
    by (simp only: foldl_Nil foldl_Cons paint.simps r1 if_False if_True first second fst_conv)
  have "painted w (w * 2) 1 [BgRun w, BgRun w] = Some (replicate w 0 @ 0xFF # replicate (w - 1) 0)"
    unfolding painted_def px Let_def using assms(1) by (simp add: c)
  then show ?thesis using assms(1) os u by (simp add: decompress_painting rle_pixel_size_def)
qed

theorem rle_marks_second_row_witness:
  "decompress_interleaved [4, 4] 4 2 8 = Some [0, 0, 0, 0, 0xFF, 0, 0, 0]"
  using rle_marks_second_row [of 4] by (simp add: numeral_eq_Suc)

end
