(* ===== verification/Fastpath.thy ===== *)
theory Fastpath
  imports Framing Errors
begin

text \<open>
  Fast-path output (\<open>fastpath.rs\<close>): framing, the records of a PDU, the reassembly of updates cut into fragments, and the
  surface commands an update carries. A server's side, as MS-RDPBCGR describes it, is what the theorems run it against.
\<close>

section \<open>Output\<close>

definition FRAG_SINGLE :: u8 where "FRAG_SINGLE = 0x0"
definition FRAG_LAST :: u8 where "FRAG_LAST = 0x1"
definition FRAG_FIRST :: u8 where "FRAG_FIRST = 0x2"
definition FRAG_NEXT :: u8 where "FRAG_NEXT = 0x3"
definition COMPRESSION_USED :: u8 where "COMPRESSION_USED = 0x2"
definition PACKET_COMPRESSED :: u8 where "PACKET_COMPRESSED = 0x20"
definition FASTPATH_OUTPUT_ENCRYPTED :: u8 where "FASTPATH_OUTPUT_ENCRYPTED = 0x2"
definition MAX_FRAGMENT_BYTES :: nat where "MAX_FRAGMENT_BYTES = 64 * 1024 * 1024"

definition is_fastpath_output :: "u8 \<Rightarrow> bool" where
  "is_fastpath_output first_byte \<longleftrightarrow> first_byte AND 0x03 = 0"

definition output_pdu_len :: "bytes \<Rightarrow> nat option" where
  "output_pdu_len buf =
    Option.bind (index_get buf 1) (\<lambda>b1.
      if b1 AND 0x80 \<noteq> 0
      then map_option (\<lambda>b2. push_bit 8 (unat (b1 AND 0x7f)) OR unat b2) (index_get buf 2)
      else Some (unat b1))"

text \<open>A whole update: its code and payload.\<close>

type_synonym fp_update = "u8 \<times> bytes"

record fragments =
  f_buf :: bytes
  f_code :: "u8 option"

definition new_fragments :: fragments where "new_fragments = \<lparr>f_buf = [], f_code = None\<rparr>"

definition reset :: "fragments \<Rightarrow> fragments" where "reset f = \<lparr>f_buf = [], f_code = None\<rparr>"

definition start :: "fragments \<Rightarrow> u8 \<Rightarrow> bytes \<Rightarrow> fragments" where
  "start f code data = \<lparr>f_buf = data, f_code = Some code\<rparr>"

definition push :: "fragments \<Rightarrow> bytes \<Rightarrow> fragments" where
  "push f data =
    (if f_code f = None \<or> length (f_buf f) + length data > MAX_FRAGMENT_BYTES then reset f
     else f\<lparr>f_buf := f_buf f @ data\<rparr>)"

definition finish :: "fragments \<Rightarrow> u8 \<Rightarrow> bytes \<Rightarrow> fragments \<times> fp_update option" where
  "finish f code data =
    (if f_code f \<noteq> Some code \<or> length (f_buf f) + length data > MAX_FRAGMENT_BYTES then (reset f, None)
     else (\<lparr>f_buf = [], f_code = None\<rparr>, Some (code, f_buf f @ data)))"

text \<open>One record, once its fields are read.\<close>

definition take_record :: "fragments \<Rightarrow> u8 \<Rightarrow> u8 \<Rightarrow> bool \<Rightarrow> bytes \<Rightarrow> fragments \<times> fp_update option" where
  "take_record f fragmentation code packed data =
    (if packed then (reset f, None)
     else if fragmentation = FRAG_SINGLE then (f, Some (code, data))
     else if fragmentation = FRAG_FIRST then (start f code data, None)
     else if fragmentation = FRAG_NEXT then (push f data, None)
     else if fragmentation = FRAG_LAST then finish f code data
     else (f, None))"

function parse_updates :: "bytes \<Rightarrow> nat \<Rightarrow> fragments \<Rightarrow> fragments \<times> fp_update list" where
  "parse_updates body off f =
    (if off \<ge> length body then (f, [])
     else
       (let hdr = body ! off;
            code = hdr AND 0x0f;
            fragmentation = drop_bit 4 hdr AND 0x03;
            uses = (drop_bit 6 hdr AND 0x03 AND COMPRESSION_USED \<noteq> 0)
        in case (if uses then map_option (\<lambda>cf. (off + 2, cf AND PACKET_COMPRESSED \<noteq> 0)) (index_get body (off + 1))
                 else Some (off + 1, False)) of
             None \<Rightarrow> (f, [])
           | Some (off', packed) \<Rightarrow>
               (case u16_le_at body off' of
                  None \<Rightarrow> (f, [])
                | Some sz \<Rightarrow>
                    (case slice_get body (off' + 2) (off' + 2 + unat sz) of
                       None \<Rightarrow> (f, [])
                     | Some data \<Rightarrow>
                         (let r = take_record f fragmentation code packed data;
                              rest = parse_updates body (off' + 2 + unat sz) (fst r)
                          in (fst rest, (case snd r of None \<Rightarrow> snd rest | Some u \<Rightarrow> u # snd rest)))))))"
  by pat_completeness auto
termination
  by (relation "measure (\<lambda>(body, off, f). length body - off)") (auto split: if_splits)

declare parse_updates.simps [simp del]

definition parse_output :: "bytes \<Rightarrow> fragments \<Rightarrow> fragments \<times> fp_update list option" where
  "parse_output pdu f =
    (case index_get pdu 0 of
       None \<Rightarrow> (f, None)
     | Some b0 \<Rightarrow>
         if \<not> is_fastpath_output b0 then (f, None)
         else if drop_bit 6 b0 AND FASTPATH_OUTPUT_ENCRYPTED \<noteq> 0 then (f, None)
         else (case output_pdu_len pdu of
                 None \<Rightarrow> (f, None)
               | Some whole \<Rightarrow>
                   if whole > length pdu \<or> whole < 2 then (f, None)
                   else (let header_len = (if pdu ! 1 AND 0x80 \<noteq> 0 then 3 else 2)
                         in case slice_get pdu header_len whole of
                              None \<Rightarrow> (f, None)
                            | Some body \<Rightarrow> (let r = parse_updates body 0 f in (fst r, Some (snd r))))))"

section \<open>Surface commands\<close>

definition CMDTYPE_SET_SURFACE_BITS :: u16 where "CMDTYPE_SET_SURFACE_BITS = 0x0001"
definition CMDTYPE_FRAME_MARKER :: u16 where "CMDTYPE_FRAME_MARKER = 0x0004"
definition CMDTYPE_STREAM_SURFACE_BITS :: u16 where "CMDTYPE_STREAM_SURFACE_BITS = 0x0006"
definition EX_COMPRESSED_BITMAP_HEADER_PRESENT :: u8 where "EX_COMPRESSED_BITMAP_HEADER_PRESENT = 0x01"
definition EX_BITMAP_HEADER_LEN :: nat where "EX_BITMAP_HEADER_LEN = 24"

record surface_bits =
  sb_left :: u16
  sb_top :: u16
  sb_right :: u16
  sb_bottom :: u16
  sb_bpp :: u8
  sb_codec_id :: u8
  sb_width :: u16
  sb_height :: u16
  sb_data :: bytes

definition parse_set_surface_bits :: "bytes \<Rightarrow> nat \<Rightarrow> (surface_bits \<times> nat) option" where
  "parse_set_surface_bits data s =
    Option.bind (u16_le_at data s) (\<lambda>left.
    Option.bind (u16_le_at data (s + 2)) (\<lambda>up.
    Option.bind (u16_le_at data (s + 4)) (\<lambda>right.
    Option.bind (u16_le_at data (s + 6)) (\<lambda>bottom.
    Option.bind (index_get data (s + 8)) (\<lambda>bpp.
    Option.bind (index_get data (s + 9)) (\<lambda>flags.
    Option.bind (index_get data (s + 11)) (\<lambda>codec_id.
    Option.bind (u16_le_at data (s + 12)) (\<lambda>width.
    Option.bind (u16_le_at data (s + 14)) (\<lambda>height.
    Option.bind (u32_le_at data (s + 16)) (\<lambda>blen.
      (let payload = s + 20 + (if flags AND EX_COMPRESSED_BITMAP_HEADER_PRESENT \<noteq> 0 then EX_BITMAP_HEADER_LEN else 0)
       in map_option (\<lambda>body.
            (\<lparr>sb_left = left, sb_top = up, sb_right = right, sb_bottom = bottom, sb_bpp = bpp, sb_codec_id = codec_id,
              sb_width = width, sb_height = height, sb_data = body\<rparr>, payload + unat blen))
            (slice_get data payload (payload + unat blen)))))))))))))"

lemma surface_bits_advance: "parse_set_surface_bits data s = Some (bits, nxt) \<Longrightarrow> s < nxt"
  by (auto simp: parse_set_surface_bits_def bind_eq_Some_conv Let_def)

function parse_surface_commands :: "bytes \<Rightarrow> nat \<Rightarrow> surface_bits list" where
  "parse_surface_commands data off =
    (if off + 2 > length data then []
     else
       (let cmd_type = u16_of_le (take 2 (drop off data))
        in if cmd_type = CMDTYPE_SET_SURFACE_BITS \<or> cmd_type = CMDTYPE_STREAM_SURFACE_BITS
           then (case parse_set_surface_bits data (off + 2) of
                   None \<Rightarrow> []
                 | Some (bits, nxt) \<Rightarrow> bits # parse_surface_commands data nxt)
           else if cmd_type = CMDTYPE_FRAME_MARKER then parse_surface_commands data (off + 8)
           else []))"
  by pat_completeness auto
termination
  by (relation "measure (\<lambda>(data, off). length data - off)") (auto dest!: surface_bits_advance)

declare parse_surface_commands.simps [simp del]

section \<open>A server's updates\<close>

text \<open>
  A server cuts an update into pieces of under 64 KiB: one is sent alone, more as first, next and last. A piece may carry a
  byte of compression flags, as long as they do not say it is compressed.
\<close>

type_synonym piece = "u8 option \<times> bytes"
type_synonym fp_record = "u8 \<times> u8 \<times> piece"

definition piece_ok :: "piece \<Rightarrow> bool" where
  "piece_ok p \<longleftrightarrow> length (snd p) < 2 ^ 16 \<and> (\<forall>cf. fst p = Some cf \<longrightarrow> cf AND PACKET_COMPRESSED = 0)"

definition record_bytes :: "fp_record \<Rightarrow> bytes" where
  "record_bytes = (\<lambda>(frag, code, cf, data).
    (case cf of
       None \<Rightarrow> [code OR push_bit 4 frag]
     | Some c \<Rightarrow> [code OR push_bit 4 frag OR 0x80, c])
    @ u16_le (of_nat (length data)) @ data)"

definition record_ok :: "fp_record \<Rightarrow> bool" where
  "record_ok = (\<lambda>(frag, code, p). frag < 4 \<and> code < 16 \<and> piece_ok p)"

fun later :: "u8 \<Rightarrow> piece list \<Rightarrow> fp_record list" where
  "later code [] = []"
| "later code [p] = [(FRAG_LAST, code, p)]"
| "later code (p # ps) = (FRAG_NEXT, code, p) # later code ps"

fun cut :: "u8 \<times> piece list \<Rightarrow> fp_record list" where
  "cut (code, []) = []"
| "cut (code, [p]) = [(FRAG_SINGLE, code, p)]"
| "cut (code, p # ps) = (FRAG_FIRST, code, p) # later code ps"

definition whole :: "u8 \<times> piece list \<Rightarrow> fp_update" where
  "whole u = (fst u, concat (map snd (snd u)))"

definition update_ok :: "u8 \<times> piece list \<Rightarrow> bool" where
  "update_ok u \<longleftrightarrow> fst u < 16 \<and> snd u \<noteq> [] \<and> (\<forall>p \<in> set (snd u). piece_ok p) \<and> length (snd (whole u)) \<le> MAX_FRAGMENT_BYTES"

text \<open>The body of a PDU, and its header: the one-byte length where it fits, the action and flags in the first byte.\<close>

definition fp_pdu :: "u8 \<times> fp_record list \<Rightarrow> bytes" where
  "fp_pdu = (\<lambda>(b0, rs). (let body = concat (map record_bytes rs); n = length body
    in (if n + 2 < 0x80 then [b0, of_nat (n + 2)]
        else [b0, of_nat ((n + 3) div 256) OR 0x80, of_nat ((n + 3) mod 256)]) @ body))"

definition pdu_ok :: "u8 \<times> fp_record list \<Rightarrow> bool" where
  "pdu_ok = (\<lambda>(b0, rs). b0 AND 0x83 = 0 \<and> length (concat (map record_bytes rs)) + 3 < 2 ^ 15)"

text \<open>The client's side, record by record.\<close>

definition push_record :: "fragments \<Rightarrow> fp_record \<Rightarrow> fragments \<times> fp_update option" where
  "push_record f = (\<lambda>(frag, code, cf, data). take_record f frag code False data)"

lemma frag_consts: "FRAG_SINGLE = 0" "FRAG_LAST = 1" "FRAG_FIRST = 2" "FRAG_NEXT = 3"
  by (simp_all add: FRAG_SINGLE_def FRAG_LAST_def FRAG_FIRST_def FRAG_NEXT_def)

lemma feed_later:
  "ps \<noteq> [] \<Longrightarrow> length buf + length (concat (map snd ps)) \<le> MAX_FRAGMENT_BYTES \<Longrightarrow>
   feed push_record \<lparr>f_buf = buf, f_code = Some code\<rparr> (later code ps) = (new_fragments, [(code, buf @ concat (map snd ps))])"
proof (induction code ps arbitrary: buf rule: later.induct)
  case (2 code p)
  then show ?case
    by (cases p) (simp add: push_record_def take_record_def frag_consts finish_def new_fragments_def)
next
  case (3 code p q ps)
  obtain cf data where p: "p = (cf, data)" by (cases p)
  have "push_record \<lparr>f_buf = buf, f_code = Some code\<rparr> (FRAG_NEXT, code, p) = (\<lparr>f_buf = buf @ data, f_code = Some code\<rparr>, None)"
    using 3(3) by (simp add: p push_record_def take_record_def frag_consts push_def)
  moreover have "feed push_record \<lparr>f_buf = buf @ data, f_code = Some code\<rparr> (later code (q # ps))
      = (new_fragments, [(code, (buf @ data) @ concat (map snd (q # ps)))])"
    by (rule 3(1)) (use 3(3) in \<open>simp_all add: p\<close>)
  ultimately show ?case by (simp add: p)
qed simp

lemma feed_cut: "update_ok u \<Longrightarrow> \<exists>f'. feed push_record f (cut u) = (f', [whole u])"
proof (cases u rule: cut.cases)
  case (3 code p q ps)
  assume u: "update_ok u"
  obtain cf data where p: "p = (cf, data)" by (cases p)
  have "push_record f (FRAG_FIRST, code, p) = (\<lparr>f_buf = data, f_code = Some code\<rparr>, None)"
    by (simp add: p push_record_def take_record_def frag_consts start_def)
  moreover have "feed push_record \<lparr>f_buf = data, f_code = Some code\<rparr> (later code (q # ps)) = (new_fragments, [(code, data @ concat (map snd (q # ps)))])"
    by (rule feed_later) (use u in \<open>simp_all add: 3 p update_ok_def whole_def\<close>)
  ultimately show ?thesis by (simp add: 3 p whole_def)
qed (auto simp: update_ok_def whole_def push_record_def take_record_def frag_consts split: prod.splits)

text \<open>
  The client's reassembly is a framing, whatever state it is left in and however the server chops an update.
\<close>

interpretation fast_path: framing "\<lambda>u. cut (fst u, chop u)" "\<lambda>u. update_ok (fst u, chop u) \<and> whole (fst u, chop u) = u"
    push_record "\<lambda>_. True" for chop
proof
  fix m and f :: fragments
  assume "update_ok (fst m, chop m) \<and> whole (fst m, chop m) = m"
  then show "\<exists>f'. feed push_record f (cut (fst m, chop m)) = (f', [m]) \<and> True" using feed_cut [of "(fst m, chop m)" f] by simp
qed

section \<open>Records as bytes\<close>

lemma header_bits_all:
  "\<forall>c \<in> set [0..<16]. \<forall>f \<in> set [0..<4]. \<forall>h \<in> {0, 0x80}.
    (let code = of_nat c :: u8; frag = of_nat f :: u8; hdr = code OR push_bit 4 frag OR h
     in hdr AND 0x0f = code \<and> drop_bit 4 hdr AND 0x03 = frag \<and> (drop_bit 6 hdr AND 0x03 AND 2 \<noteq> 0) = (h = 0x80))"
  by code_simp

lemma header_bits:
  assumes "code < 16" "frag < 4" "h \<in> {0, 0x80}"
  shows "(code OR push_bit 4 frag OR h) AND 0x0f = code" "drop_bit 4 (code OR push_bit 4 frag OR h) AND 0x03 = frag"
    "(drop_bit 6 (code OR push_bit 4 frag OR h) AND 0x03 AND COMPRESSION_USED \<noteq> 0) = (h = 0x80)"
proof -
  have inv: "(of_nat (unat code) :: u8) = code" "(of_nat (unat frag) :: u8) = frag" by simp_all
  have "unat code \<in> set [0..<16]" "unat frag \<in> set [0..<4]" using assms(1,2) by (auto simp: word_less_nat_alt)
  then show "(code OR push_bit 4 frag OR h) AND 0x0f = code" "drop_bit 4 (code OR push_bit 4 frag OR h) AND 0x03 = frag"
    "(drop_bit 6 (code OR push_bit 4 frag OR h) AND 0x03 AND COMPRESSION_USED \<noteq> 0) = (h = 0x80)"
    using header_bits_all [rule_format, of "unat code" "unat frag" h] assms(3)
    by (simp_all only: Let_def inv COMPRESSION_USED_def)
qed

lemma at_drop: "drop off xs = ys @ zs \<Longrightarrow> ys \<noteq> [] \<Longrightarrow> off < length xs \<and> xs ! off = hd ys"
  by (metis append_is_Nil_conv drop_all hd_append2 hd_drop_conv_nth linorder_not_le)

lemma parse_record:
  assumes r: "record_ok r" and b: "drop off body = record_bytes r @ rest"
  shows "parse_updates body off f =
    (let x = push_record f r; y = parse_updates body (off + length (record_bytes r)) (fst x)
     in (fst y, (case snd x of None \<Rightarrow> snd y | Some u \<Rightarrow> u # snd y)))"
proof -
  obtain frag code cf data where rr: "r = (frag, code, cf, data)" by (cases r) auto
  have ok: "frag < 4" "code < 16" "length data < 2 ^ 16" "\<And>c. cf = Some c \<Longrightarrow> c AND PACKET_COMPRESSED = 0"
    using r by (auto simp: record_ok_def rr piece_ok_def)
  have u: "unat (of_nat (length data) :: u16) = length data" using ok(3) by (simp add: unat_of_nat)
  define pre where "pre = (case cf of None \<Rightarrow> [code OR push_bit 4 frag OR 0] | Some c \<Rightarrow> [code OR push_bit 4 frag OR 0x80, c])"
  have rb: "record_bytes r = pre @ u16_le (of_nat (length data)) @ data"
    by (simp add: record_bytes_def rr pre_def split: option.split)
  have len: "length body = off + length pre + 2 + length data + length rest" "off < length body"
  proof -
    have "length (drop off body) = length pre + 2 + length data + length rest" unfolding b rb by simp
    moreover have "pre \<noteq> []" by (simp add: pre_def split: option.split)
    ultimately show "length body = off + length pre + 2 + length data + length rest" "off < length body" by auto
  qed
  have hd: "body ! off = hd pre" using at_drop [of off body pre] b rb by (auto simp: pre_def split: option.split)
  have d: "drop (off + length pre) body = u16_le (of_nat (length data)) @ data @ rest"
    using arg_cong [OF b, of "drop (length pre)"] unfolding rb by (simp add: add.commute)
  have d2: "drop (off + length pre + 2) body = data @ rest"
    using arg_cong [OF d, of "drop 2"] by (simp add: add.commute add.left_commute)
  have sz: "u16_le_at body (off + length pre) = Some (of_nat (length data))"
    using d len by (simp add: u16_le_at_def slice_get_def)
  have sl: "slice_get body (off + length pre + 2) (off + length pre + 2 + length data) = Some data"
    using d2 len by (simp add: slice_get_def)
  have st: "off + length (record_bytes r) = off + length pre + 2 + length data" by (simp add: rb)
  show ?thesis
  proof (cases cf)
    case None
    then have pre: "pre = [code OR push_bit 4 frag OR 0]" by (simp add: pre_def)
    show ?thesis
      unfolding st using len(2) sz sl u hd header_bits [OF ok(2,1), where h = "0"]
      by (subst parse_updates.simps) (simp add: pre push_record_def rr Let_def None)
  next
    case (Some c)
    then have pre: "pre = [code OR push_bit 4 frag OR 0x80, c]" by (simp add: pre_def)
    have "drop (Suc off) body = c # u16_le (of_nat (length data)) @ data @ rest"
      using arg_cong [OF b, of "drop 1"] unfolding rb pre by simp
    then have c: "index_get body (Suc off) = Some c" using at_drop [of "Suc off" body "[c]"] by (simp add: index_get_def)
    show ?thesis
      unfolding st using len(2) sz sl u hd header_bits [OF ok(2,1), where h = "0x80"] c ok(4) [OF Some]
      by (subst parse_updates.simps) (simp add: pre push_record_def rr Let_def Some numeral_2_eq_2)
  qed
qed

lemma parse_records:
  "\<forall>r \<in> set rs. record_ok r \<Longrightarrow> drop off body = concat (map record_bytes rs) \<Longrightarrow> off \<le> length body \<Longrightarrow>
   parse_updates body off f = feed push_record f rs"
proof (induction rs arbitrary: off f)
  case Nil
  then show ?case by (subst parse_updates.simps) simp
next
  case (Cons r rs)
  have b: "drop off body = record_bytes r @ concat (map record_bytes rs)" using Cons.prems(2) by simp
  have d: "drop (off + length (record_bytes r)) body = concat (map record_bytes rs)"
    using arg_cong [OF b, of "drop (length (record_bytes r))"] by (simp add: add.commute)
  have "off + length (record_bytes r) \<le> length body"
    using arg_cong [OF b, of length] Cons.prems(3) by simp
  from Cons.IH [OF _ d this] Cons.prems(1) parse_record [OF _ b] show ?case by (simp add: Let_def)
qed

lemma length_bits_all:
  "\<forall>x \<in> set [0..<128]. (of_nat x :: u8) AND 0x80 = 0 \<and> (of_nat x OR 0x80 :: u8) AND 0x80 \<noteq> 0 \<and> (of_nat x OR 0x80 :: u8) AND 0x7f = of_nat x"
  by code_simp

lemma length_bits:
  assumes "x < 128"
  shows "(of_nat x :: u8) AND 0x80 = 0" "(of_nat x OR 0x80 :: u8) AND 0x80 \<noteq> 0" "(of_nat x OR 0x80 :: u8) AND 0x7f = of_nat x"
  using length_bits_all [rule_format, of x] assms by simp_all

lemma pdu_header:
  assumes "pdu_ok (b0, rs)" "\<forall>r \<in> set rs. record_ok r"
  shows "parse_output (fp_pdu (b0, rs)) f = (let r = feed push_record f rs in (fst r, Some (snd r)))"
proof -
  let ?body = "concat (map record_bytes rs)" and ?pdu = "fp_pdu (b0, rs)"
  let ?n = "length ?body"
  have b0: "is_fastpath_output b0" "drop_bit 6 b0 AND FASTPATH_OUTPUT_ENCRYPTED = 0"
  proof -
    have z: "b0 AND 0x83 = 0" using assms(1) by (simp add: pdu_ok_def)
    have "b0 AND 0x03 = (b0 AND 0x83) AND 0x03" by (simp add: and.assoc)
    then show "is_fastpath_output b0" by (simp add: is_fastpath_output_def z)
    have "drop_bit 6 b0 AND 2 = drop_bit 6 (b0 AND 0x80)" by (simp add: drop_bit_and)
    also have "b0 AND 0x80 = (b0 AND 0x83) AND 0x80" by (simp add: and.assoc)
    finally show "drop_bit 6 b0 AND FASTPATH_OUTPUT_ENCRYPTED = 0" by (simp add: z FASTPATH_OUTPUT_ENCRYPTED_def)
  qed
  have n: "?n + 3 < 32768" using assms(1) by (simp add: pdu_ok_def)
  have r0: "parse_updates ?body 0 f = feed push_record f rs" by (rule parse_records [OF assms(2)]) simp_all
  show ?thesis
  proof (cases "?n + 2 < 0x80")
    case True
    then have p: "?pdu = [b0, of_nat (?n + 2)] @ ?body" by (simp add: fp_pdu_def Let_def)
    have u: "unat (of_nat (?n + 2) :: u8) = ?n + 2" unfolding unat_of_nat_u8 using True by simp
    have hi: "(of_nat (?n + 2) :: u8) AND 0x80 = 0" using True by (intro length_bits(1)) simp
    have l: "output_pdu_len ?pdu = Some (?n + 2)"
      unfolding output_pdu_len_def p using hi u by (simp add: index_get_def del: of_nat_add)
    have "slice_get ?pdu 2 (?n + 2) = Some ?body" unfolding p by (simp add: slice_get_def)
    moreover have "?pdu ! 1 AND 0x80 = 0" unfolding p using hi by (simp del: of_nat_add)
    moreover have "index_get ?pdu 0 = Some b0" "\<not> ?n + 2 > length ?pdu" unfolding p by (simp_all add: index_get_def)
    ultimately show ?thesis using b0 l r0 by (simp add: parse_output_def Let_def)
  next
    case False
    let ?hi = "(?n + 3) div 256" and ?lo = "(?n + 3) mod 256"
    have p: "?pdu = [b0, of_nat ?hi OR 0x80, of_nat ?lo] @ ?body" using False by (simp add: fp_pdu_def Let_def)
    have hi: "?hi < 128" using n by simp
    have u: "unat (of_nat ?hi :: u8) = ?hi" "unat (of_nat ?lo :: u8) = ?lo" unfolding unat_of_nat_u8 using hi by simp_all
    have "push_bit 8 ?hi OR unat (of_nat ?lo :: u8) = ?hi * 256 + ?lo"
      using shift_or_byte [of ?hi "of_nat ?lo"] by (simp only: u(2))
    then have l: "output_pdu_len ?pdu = Some (?n + 3)"
      unfolding output_pdu_len_def p using length_bits [OF hi] u by (simp add: index_get_def)
    have "slice_get ?pdu 3 (?n + 3) = Some ?body" unfolding p by (simp add: slice_get_def)
    moreover have "?pdu ! 1 AND 0x80 \<noteq> 0" unfolding p using length_bits(2) [OF hi] by simp
    moreover have "index_get ?pdu 0 = Some b0" "\<not> ?n + 3 > length ?pdu" unfolding p by (simp_all add: index_get_def)
    ultimately show ?thesis using b0 l r0 by (simp add: parse_output_def Let_def)
  qed
qed

text \<open>A stream of PDUs, one after another.\<close>

primrec parse_all :: "fragments \<Rightarrow> bytes list \<Rightarrow> fragments \<times> fp_update list option list" where
  "parse_all f [] = (f, [])"
| "parse_all f (pdu # pdus) =
    (let r = parse_output pdu f; rest = parse_all (fst r) pdus in (fst rest, snd r # snd rest))"

lemma parse_all_pdus:
  "\<forall>p \<in> set ps. pdu_ok p \<and> (\<forall>r \<in> set (snd p). record_ok r) \<Longrightarrow>
   \<exists>us. parse_all f (map fp_pdu ps) = (fst (feed push_record f (concat (map snd ps))), map Some us) \<and>
     concat us = snd (feed push_record f (concat (map snd ps)))"
proof (induction ps arbitrary: f)
  case (Cons p ps)
  obtain b0 rs where p: "p = (b0, rs)" by (cases p)
  have h: "parse_output (fp_pdu p) f = (fst (feed push_record f rs), Some (snd (feed push_record f rs)))"
    using pdu_header [of b0 rs f] Cons.prems by (simp add: p Let_def)
  from Cons.IH [of "fst (feed push_record f rs)"] Cons.prems obtain us where
    us: "parse_all (fst (feed push_record f rs)) (map fp_pdu ps)
        = (fst (feed push_record (fst (feed push_record f rs)) (concat (map snd ps))), map Some us)"
      "concat us = snd (feed push_record (fst (feed push_record f rs)) (concat (map snd ps)))" by auto
  show ?case
    by (rule exI [of _ "snd (feed push_record f rs) # us"]) (simp add: h [unfolded p] us p feed_append Let_def)
qed simp

lemma record_ok_later: "code < 16 \<Longrightarrow> \<forall>p \<in> set ps. piece_ok p \<Longrightarrow> \<forall>r \<in> set (later code ps). record_ok r"
  by (induction code ps rule: later.induct) (auto simp: record_ok_def frag_consts)

lemma record_ok_cut: "update_ok u \<Longrightarrow> \<forall>r \<in> set (cut u). record_ok r"
proof (cases u rule: cut.cases)
  case (3 code p q ps)
  assume "update_ok u"
  then have "code < 16" "piece_ok p" "\<forall>x \<in> set (q # ps). piece_ok x" by (simp_all add: 3 update_ok_def)
  with record_ok_later [of code "q # ps"] show ?thesis unfolding 3 by (auto simp: record_ok_def frag_consts)
qed (auto simp: update_ok_def record_ok_def frag_consts)

section \<open>Properties\<close>

text \<open>
  C28. A server's updates of up to 64 MiB arrive whole and in order, however it chops them into pieces, marks pieces with
  compression flags, and packs the records into PDUs, and whatever fragments the client was left with before.
\<close>

theorem updates_arrive:
  assumes "\<forall>u \<in> set us. update_ok (fst u, chop u) \<and> whole (fst u, chop u) = u"
    and "concat (map snd ps) = concat (map (\<lambda>u. cut (fst u, chop u)) us)" and "\<forall>p \<in> set ps. pdu_ok p"
  shows "\<exists>f' outs. parse_all f (map fp_pdu ps) = (f', map Some outs) \<and> concat outs = us"
proof -
  obtain f' where f': "feed push_record f (concat (map snd ps)) = (f', us)"
    using fast_path.feed_stream [of us chop f] assms(1,2) by auto
  have "\<forall>r \<in> set (concat (map snd ps)). record_ok r" unfolding assms(2) using assms(1) record_ok_cut by fastforce
  then have "\<forall>p \<in> set ps. pdu_ok p \<and> (\<forall>r \<in> set (snd p). record_ok r)" using assms(3) by auto
  from parse_all_pdus [OF this, of f] f' show ?thesis by auto
qed

theorem updates_arrive_witness:
  "\<exists>f' outs. parse_all \<lparr>f_buf = [9], f_code = Some 1\<rparr>
      (map fp_pdu [(0, [(2, 4, None, [1, 2])]), (4, [(3, 4, Some 0x40, [3]), (1, 4, None, [4, 5]), (0, 1, None, [6])])])
      = (f', map Some outs) \<and> concat outs = [(4, [1, 2, 3, 4, 5]), (1, [6])]"
proof -
  let ?chop = "\<lambda>u :: fp_update. if fst u = 4 then [(None, [1, 2]), (Some 0x40, [3]), (None, [4, 5])] else [(None, [6])]"
  show ?thesis
    by (rule updates_arrive [where chop = ?chop])
      (simp_all add: update_ok_def whole_def piece_ok_def PACKET_COMPRESSED_def MAX_FRAGMENT_BYTES_def frag_consts pdu_ok_def record_bytes_def)
qed

end
