(* ===== verification/RdpInput.thy ===== *)
theory RdpInput
  imports Errors X224
begin

text \<open>
  Share Data PDUs of the client (\<open>finalization.rs\<close>), its input events and the slow path that carries them
  (\<open>rdp-pdu/input.rs\<close>), and the fast path that carries the same events without those headers (the second half of
  \<open>fastpath.rs\<close>). An \<open>EventBytes\<close> is a list of 12 bytes. A server that reads either path, as MS-RDPBCGR describes it, is
  what the theorem runs them against.
\<close>

section \<open>Share Data PDUs\<close>

definition PDUTYPE_DATA :: u16 where "PDUTYPE_DATA = 0x17"
definition PDUTYPE2_CONTROL :: u8 where "PDUTYPE2_CONTROL = 20"
definition PDUTYPE2_INPUT :: u8 where "PDUTYPE2_INPUT = 28"
definition PDUTYPE2_SYNCHRONIZE :: u8 where "PDUTYPE2_SYNCHRONIZE = 31"
definition PDUTYPE2_REFRESH_RECT :: u8 where "PDUTYPE2_REFRESH_RECT = 33"
definition PDUTYPE2_SUPPRESS_OUTPUT :: u8 where "PDUTYPE2_SUPPRESS_OUTPUT = 35"
definition PDUTYPE2_FONTLIST :: u8 where "PDUTYPE2_FONTLIST = 39"
definition SHARE_DATA_HEADER_LEN :: nat where "SHARE_DATA_HEADER_LEN = 18"

definition share_data :: "u32 \<Rightarrow> u16 \<Rightarrow> u8 \<Rightarrow> bytes \<Rightarrow> bytes" where
  "share_data share_id user_id pdu_type2 body =
    (let len = of_nat (SHARE_DATA_HEADER_LEN + length body) :: u16
     in u16_le len @ u16_le PDUTYPE_DATA @ u16_le user_id @ u32_le share_id @ [0, 1] @ u16_le len
        @ [pdu_type2, 0] @ u16_le 0 @ body)"

type_synonym area = "u16 \<times> u16 \<times> u16 \<times> u16"

definition area_bytes :: "area \<Rightarrow> bytes" where
  "area_bytes = (\<lambda>(l, t, r, b). u16_le l @ u16_le t @ u16_le r @ u16_le b)"

definition refresh_rect_pdu :: "u32 \<Rightarrow> u16 \<Rightarrow> area list \<Rightarrow> bytes" where
  "refresh_rect_pdu share_id user_id areas =
    (let areas = take 255 areas
     in share_data share_id user_id PDUTYPE2_REFRESH_RECT
          ([of_nat (length areas), 0, 0, 0] @ concat (map area_bytes areas)))"

definition suppress_output_pdu :: "u32 \<Rightarrow> u16 \<Rightarrow> area option \<Rightarrow> bytes" where
  "suppress_output_pdu share_id user_id resume =
    share_data share_id user_id PDUTYPE2_SUPPRESS_OUTPUT
      ([of_bool_u8 (resume \<noteq> None), 0, 0, 0] @ (case resume of None \<Rightarrow> [] | Some a \<Rightarrow> area_bytes a))"

definition synchronize_pdu :: "u32 \<Rightarrow> u16 \<Rightarrow> u16 \<Rightarrow> bytes" where
  "synchronize_pdu share_id user_id target_user = share_data share_id user_id PDUTYPE2_SYNCHRONIZE (u16_le 1 @ u16_le target_user)"

definition control_pdu :: "u32 \<Rightarrow> u16 \<Rightarrow> u16 \<Rightarrow> bytes" where
  "control_pdu share_id user_id action = share_data share_id user_id PDUTYPE2_CONTROL (u16_le action @ u16_le 0 @ u32_le 0)"

definition font_list_pdu :: "u32 \<Rightarrow> u16 \<Rightarrow> bytes" where
  "font_list_pdu share_id user_id =
    share_data share_id user_id PDUTYPE2_FONTLIST (u16_le 0 @ u16_le 0 @ u16_le 0x0003 @ u16_le 50)"

definition data_pdu_type2 :: "bytes \<Rightarrow> u8 option" where
  "data_pdu_type2 share_pdu =
    (case ensure share_pdu SHARE_DATA_HEADER_LEN of
       Inl _ \<Rightarrow> None
     | Inr _ \<Rightarrow>
         if u16_of_le [share_pdu ! 2, share_pdu ! 3] AND 0x0f \<noteq> 7 then None else Some (share_pdu ! 14))"

section \<open>Events\<close>

definition INPUT_EVENT_SYNC :: u16 where "INPUT_EVENT_SYNC = 0x0000"
definition INPUT_EVENT_SCANCODE :: u16 where "INPUT_EVENT_SCANCODE = 0x0004"
definition INPUT_EVENT_UNICODE :: u16 where "INPUT_EVENT_UNICODE = 0x0005"
definition INPUT_EVENT_MOUSE :: u16 where "INPUT_EVENT_MOUSE = 0x8001"
definition INPUT_EVENT_MOUSEX :: u16 where "INPUT_EVENT_MOUSEX = 0x8002"
definition INPUT_EVENT_MOUSEREL :: u16 where "INPUT_EVENT_MOUSEREL = 0x8004"
definition KBDFLAGS_EXTENDED :: u16 where "KBDFLAGS_EXTENDED = 0x0100"
definition KBDFLAGS_RELEASE :: u16 where "KBDFLAGS_RELEASE = 0x8000"

definition event :: "u16 \<Rightarrow> u16 \<Rightarrow> u16 \<Rightarrow> u16 \<Rightarrow> bytes" where
  "event message_type a b c = [0, 0, 0, 0] @ u16_le message_type @ u16_le a @ u16_le b @ u16_le c"

definition keyboard_event :: "u16 \<Rightarrow> u16 \<Rightarrow> bytes" where
  "keyboard_event flags key_code = event INPUT_EVENT_SCANCODE flags key_code 0"
definition unicode_event :: "u16 \<Rightarrow> u16 \<Rightarrow> bytes" where
  "unicode_event flags code = event INPUT_EVENT_UNICODE flags code 0"
definition mouse_event :: "u16 \<Rightarrow> u16 \<Rightarrow> u16 \<Rightarrow> bytes" where
  "mouse_event flags x y = event INPUT_EVENT_MOUSE flags x y"
definition mouse_x_event :: "u16 \<Rightarrow> u16 \<Rightarrow> u16 \<Rightarrow> bytes" where
  "mouse_x_event flags x y = event INPUT_EVENT_MOUSEX flags x y"
definition rel_mouse_event :: "u16 \<Rightarrow> u16 \<Rightarrow> u16 \<Rightarrow> bytes" where
  "rel_mouse_event flags dx dy = event INPUT_EVENT_MOUSEREL flags dx dy"
definition sync_event :: "u32 \<Rightarrow> bytes" where
  "sync_event toggle_flags = [0, 0, 0, 0] @ u16_le INPUT_EVENT_SYNC @ [0, 0] @ u32_le toggle_flags"

definition slow_input_pdu :: "u32 \<Rightarrow> u16 \<Rightarrow> bytes list \<Rightarrow> bytes" where
  "slow_input_pdu share_id user_id events =
    share_data share_id user_id PDUTYPE2_INPUT (u16_le (of_nat (length events)) @ u16_le 0 @ concat events)"

section \<open>The fast path\<close>

definition FASTPATH_INPUT_EVENT_SCANCODE :: u8 where "FASTPATH_INPUT_EVENT_SCANCODE = 0"
definition FASTPATH_INPUT_EVENT_MOUSE :: u8 where "FASTPATH_INPUT_EVENT_MOUSE = 1"
definition FASTPATH_INPUT_EVENT_MOUSEX :: u8 where "FASTPATH_INPUT_EVENT_MOUSEX = 2"
definition FASTPATH_INPUT_EVENT_SYNC :: u8 where "FASTPATH_INPUT_EVENT_SYNC = 3"
definition FASTPATH_INPUT_EVENT_UNICODE :: u8 where "FASTPATH_INPUT_EVENT_UNICODE = 4"
definition FASTPATH_INPUT_EVENT_RELPOINTER :: u8 where "FASTPATH_INPUT_EVENT_RELPOINTER = 5"
definition FASTPATH_INPUT_KBDFLAGS_RELEASE :: u8 where "FASTPATH_INPUT_KBDFLAGS_RELEASE = 0x01"
definition FASTPATH_INPUT_KBDFLAGS_EXTENDED :: u8 where "FASTPATH_INPUT_KBDFLAGS_EXTENDED = 0x02"

definition fp_header :: "u8 \<Rightarrow> u8 \<Rightarrow> u8" where "fp_header code flags = flags OR push_bit 5 code"

text \<open>The bytes \<open>push_fp_event\<close> appends, \<open>None\<close> where it returns false.\<close>

definition push_fp_event :: "bytes \<Rightarrow> bytes option" where
  "push_fp_event ev =
    (let msg = u16_of_le [ev ! 4, ev ! 5]; a = u16_of_le [ev ! 6, ev ! 7]; bc = take 4 (drop 8 ev)
     in if msg = 0x0004
        then Some [fp_header FASTPATH_INPUT_EVENT_SCANCODE
                     ((if a AND KBDFLAGS_RELEASE \<noteq> 0 then FASTPATH_INPUT_KBDFLAGS_RELEASE else 0) OR
                      (if a AND KBDFLAGS_EXTENDED \<noteq> 0 then FASTPATH_INPUT_KBDFLAGS_EXTENDED else 0)), ev ! 8]
        else if msg = 0x0005
        then Some ([fp_header FASTPATH_INPUT_EVENT_UNICODE
                      (if a AND KBDFLAGS_RELEASE \<noteq> 0 then FASTPATH_INPUT_KBDFLAGS_RELEASE else 0)] @ take 2 (drop 8 ev))
        else if msg = 0x8001 \<or> msg = 0x8002 \<or> msg = 0x8004
        then Some ([fp_header (if msg = 0x8001 then FASTPATH_INPUT_EVENT_MOUSE
                               else if msg = 0x8002 then FASTPATH_INPUT_EVENT_MOUSEX
                               else FASTPATH_INPUT_EVENT_RELPOINTER) 0] @ u16_le a @ bc)
        else if msg = 0x0000 then Some [fp_header FASTPATH_INPUT_EVENT_SYNC (ev ! 8 AND 0x1F)]
        else None)"

fun push_fp_events :: "bytes list \<Rightarrow> bytes option" where
  "push_fp_events [] = Some []"
| "push_fp_events (ev # evs) = Option.bind (push_fp_event ev) (\<lambda>b. map_option (\<lambda>bs. b @ bs) (push_fp_events evs))"

definition input_pdu :: "bytes list \<Rightarrow> bytes option" where
  "input_pdu events =
    (if events = [] \<or> length events > 255 then None
     else map_option (\<lambda>body.
            (let num = length events;
                 sep_count = (num > 15);
                 len = 1 + 2 + (if sep_count then 1 else 0) + length body
             in [if sep_count then 0 else push_bit 2 (of_nat num)] @ u16_be (0x8000 OR of_nat len)
                @ (if sep_count then [of_nat num] else []) @ body))
            (push_fp_events events))"

section \<open>A server's reading\<close>

datatype client_event =
    KeyEvent u16 u16
  | UnicodeEvent u16 u16
  | MouseEvent u16 u16 u16
  | MouseXEvent u16 u16 u16
  | RelMouseEvent u16 u16 u16
  | SyncEvent u32

fun event_bytes :: "client_event \<Rightarrow> bytes" where
  "event_bytes (KeyEvent flags key) = keyboard_event flags key"
| "event_bytes (UnicodeEvent flags code) = unicode_event flags code"
| "event_bytes (MouseEvent flags x y) = mouse_event flags x y"
| "event_bytes (MouseXEvent flags x y) = mouse_x_event flags x y"
| "event_bytes (RelMouseEvent flags x y) = rel_mouse_event flags x y"
| "event_bytes (SyncEvent toggles) = sync_event toggles"

text \<open>What an event means to a server: for keys whether one is released and extended, not how that is flagged.\<close>

datatype meaning =
    Key bool bool u16
  | Unicode bool u16
  | Mouse u16 u16 u16
  | MouseX u16 u16 u16
  | RelMouse u16 u16 u16
  | Sync u32

fun means :: "client_event \<Rightarrow> meaning" where
  "means (KeyEvent flags key) = Key (flags AND KBDFLAGS_RELEASE \<noteq> 0) (flags AND KBDFLAGS_EXTENDED \<noteq> 0) key"
| "means (UnicodeEvent flags code) = Unicode (flags AND KBDFLAGS_RELEASE \<noteq> 0) code"
| "means (MouseEvent flags x y) = Mouse flags x y"
| "means (MouseXEvent flags x y) = MouseX flags x y"
| "means (RelMouseEvent flags x y) = RelMouse flags x y"
| "means (SyncEvent toggles) = Sync toggles"

fun event_ok :: "client_event \<Rightarrow> bool" where
  "event_ok (KeyEvent flags key) = (key < 256)"
| "event_ok (SyncEvent toggles) = (toggles < 32)"
| "event_ok _ = True"

definition read_slow_event :: "bytes \<Rightarrow> meaning option" where
  "read_slow_event ev =
    (let msg = u16_of_le (take 2 (drop 4 ev)); a = u16_of_le (take 2 (drop 6 ev));
         b = u16_of_le (take 2 (drop 8 ev)); c = u16_of_le (take 2 (drop 10 ev))
     in if msg = 4 then Some (Key (a AND 0x8000 \<noteq> 0) (a AND 0x0100 \<noteq> 0) b)
        else if msg = 5 then Some (Unicode (a AND 0x8000 \<noteq> 0) b)
        else if msg = 0x8001 then Some (Mouse a b c)
        else if msg = 0x8002 then Some (MouseX a b c)
        else if msg = 0x8004 then Some (RelMouse a b c)
        else if msg = 0 then Some (Sync (u32_of_le (take 4 (drop 8 ev))))
        else None)"

fun read_slow_events :: "nat \<Rightarrow> bytes \<Rightarrow> meaning list option" where
  "read_slow_events 0 b = (if b = [] then Some [] else None)"
| "read_slow_events (Suc n) b =
    Option.bind (read_slow_event (take 12 b)) (\<lambda>m. map_option (\<lambda>ms. m # ms) (read_slow_events n (drop 12 b)))"

definition read_slow_pdu :: "bytes \<Rightarrow> meaning list option" where
  "read_slow_pdu pdu =
    (if unat (u16_of_le (take 2 pdu)) \<noteq> length pdu \<or> data_pdu_type2 pdu \<noteq> Some PDUTYPE2_INPUT then None
     else read_slow_events (unat (u16_of_le (take 2 (drop 18 pdu)))) (drop 22 pdu))"

definition read_fast_event :: "bytes \<Rightarrow> (meaning \<times> bytes) option" where
  "read_fast_event b =
    (let code = drop_bit 5 (b ! 0); flags = b ! 0 AND 0x1F;
         f16 = (\<lambda>i. u16_of_le (take 2 (drop i b)))
     in if code = 0 then Some (Key (flags AND 1 \<noteq> 0) (flags AND 2 \<noteq> 0) (ucast (b ! 1)), drop 2 b)
        else if code = 4 then Some (Unicode (flags AND 1 \<noteq> 0) (f16 1), drop 3 b)
        else if code = 1 then Some (Mouse (f16 1) (f16 3) (f16 5), drop 7 b)
        else if code = 2 then Some (MouseX (f16 1) (f16 3) (f16 5), drop 7 b)
        else if code = 5 then Some (RelMouse (f16 1) (f16 3) (f16 5), drop 7 b)
        else if code = 3 then Some (Sync (ucast flags), drop 1 b)
        else None)"

fun read_fast_events :: "nat \<Rightarrow> bytes \<Rightarrow> meaning list option" where
  "read_fast_events 0 b = (if b = [] then Some [] else None)"
| "read_fast_events (Suc n) b =
    Option.bind (read_fast_event b) (\<lambda>(m, rest). map_option (\<lambda>ms. m # ms) (read_fast_events n rest))"

text \<open>The count is in the first byte, or in a byte of its own after the length.\<close>

definition read_fast_pdu :: "bytes \<Rightarrow> meaning list option" where
  "read_fast_pdu pdu =
    (if pdu ! 0 AND 3 \<noteq> 0 \<or> pdu ! 1 AND 0x80 = 0 \<or> unat (u16_of_be (take 2 (drop 1 pdu)) AND 0x7fff) \<noteq> length pdu then None
     else (let num = unat (drop_bit 2 (pdu ! 0) AND 0x0f)
           in if num \<noteq> 0 then read_fast_events num (drop 3 pdu)
              else read_fast_events (unat (pdu ! 3)) (drop 4 pdu)))"

section \<open>One event on either path\<close>

lemma nat_to_le_2: "nat_to_le 2 n = [of_nat n, of_nat (n div 256)]"
proof -
  have "nat_to_le (Suc (Suc 0)) n = [of_nat n, of_nat (n div 256)]" by (simp only: nat_to_le.simps)
  then show ?thesis by (simp only: numeral_2_eq_2)
qed

lemma nat_to_le_4: "nat_to_le 4 n = of_nat n # nat_to_le 3 (n div 256)"
proof -
  have "(4 :: nat) = Suc 3" by simp
  then show ?thesis by (simp only: nat_to_le.simps)
qed

lemma u16_le_pair:
  obtains x y where "u16_le w = [x, y]" "u16_of_le [x, y] = w" "x = of_nat (unat w)"
  using nat_to_le_2 [of "unat w"] u16_of_le_u16_le [of w] unfolding u16_le_def by (metis that)

lemma low_byte_all: "\<forall>n \<in> set [0..<256]. ucast (of_nat n :: u8) = (of_nat n :: u16)"
  by code_simp

lemma low_byte:
  fixes w :: u16
  assumes "w < 256"
  shows "ucast (of_nat (unat w) :: u8) = w"
proof -
  have i: "(of_nat (unat w) :: u16) = w" by simp
  have "unat w \<in> set [0..<256]" using assms by (simp add: word_less_nat_alt)
  from low_byte_all [rule_format, OF this] show ?thesis by (simp only: i)
qed

lemma toggles_all:
  "\<forall>n \<in> set [0..<32]. (of_nat n :: u8) AND 0x1F < 32 \<and> ucast ((of_nat n :: u8) AND 0x1F) = (of_nat n :: u32)"
  by code_simp

lemma toggles:
  fixes w :: u32
  assumes "w < 32"
  shows "(of_nat (unat w) :: u8) AND 0x1F < 32" "ucast ((of_nat (unat w) :: u8) AND 0x1F) = w"
proof -
  have i: "(of_nat (unat w) :: u32) = w" by simp
  have "unat w \<in> set [0..<32]" using assms by (simp add: word_less_nat_alt)
  from toggles_all [rule_format, OF this]
  show "(of_nat (unat w) :: u8) AND 0x1F < 32" "ucast ((of_nat (unat w) :: u8) AND 0x1F) = w" by (simp_all only: i)
qed

lemma fp_header_all:
  "\<forall>f \<in> set [0..<32]. \<forall>c \<in> set [0..<8]. drop_bit 5 (fp_header (of_nat c) (of_nat f)) = of_nat c \<and> fp_header (of_nat c) (of_nat f) AND 0x1F = of_nat f"
  by code_simp

lemma fp_header_read:
  assumes "flags < 32" "code < 8"
  shows "drop_bit 5 (fp_header code flags) = code" "fp_header code flags AND 0x1F = flags"
proof -
  have i: "(of_nat (unat flags) :: u8) = flags" "(of_nat (unat code) :: u8) = code" by simp_all
  have "unat flags \<in> set [0..<32]" "unat code \<in> set [0..<8]" using assms by (auto simp: word_less_nat_alt)
  from fp_header_all [rule_format, OF this] show "drop_bit 5 (fp_header code flags) = code" "fp_header code flags AND 0x1F = flags"
    by (simp_all only: i)
qed

lemmas fp_codes =
  FASTPATH_INPUT_EVENT_SCANCODE_def FASTPATH_INPUT_EVENT_MOUSE_def FASTPATH_INPUT_EVENT_MOUSEX_def FASTPATH_INPUT_EVENT_SYNC_def
  FASTPATH_INPUT_EVENT_UNICODE_def FASTPATH_INPUT_EVENT_RELPOINTER_def FASTPATH_INPUT_KBDFLAGS_RELEASE_def
  FASTPATH_INPUT_KBDFLAGS_EXTENDED_def

lemmas slow_events =
  keyboard_event_def unicode_event_def mouse_event_def mouse_x_event_def rel_mouse_event_def sync_event_def event_def
  INPUT_EVENT_SYNC_def INPUT_EVENT_SCANCODE_def INPUT_EVENT_UNICODE_def INPUT_EVENT_MOUSE_def INPUT_EVENT_MOUSEX_def
  INPUT_EVENT_MOUSEREL_def

lemma msg_types:
  "u16_le 0 = [0, 0]" "u16_le 4 = [4, 0]" "u16_le 5 = [5, 0]" "u16_le 0x8001 = [1, 0x80]" "u16_le 0x8002 = [2, 0x80]"
  "u16_le 0x8004 = [4, 0x80]" "u16_of_le [0, 0] = 0" "u16_of_le [4, 0] = 4" "u16_of_le [5, 0] = 5"
  "u16_of_le [1, 0x80] = 0x8001" "u16_of_le [2, 0x80] = 0x8002" "u16_of_le [4, 0x80] = 0x8004"
  by (simp_all add: u16_le_def nat_to_le_2 u16_of_le_def)

lemma length_event_bytes [simp]: "length (event_bytes e) = 12"
  by (cases e) (simp_all add: slow_events)

lemma read_slow_one: "read_slow_event (event_bytes e) = Some (means e)"
  by (cases e) (simp_all add: slow_events read_slow_event_def msg_types Let_def KBDFLAGS_RELEASE_def KBDFLAGS_EXTENDED_def)

lemma event_fields:
  "u16_of_le [event m a b c ! 4, event m a b c ! 5] = m" "u16_of_le [event m a b c ! 6, event m a b c ! 7] = a"
  "event m a b c ! 8 = of_nat (unat b)" "take 4 (drop 8 (event m a b c)) = u16_le b @ u16_le c"
  "take 2 (drop 8 (event m a b c)) = u16_le b"
proof -
  obtain m0 m1 where m: "u16_le m = [m0, m1]" "u16_of_le [m0, m1] = m" by (rule u16_le_pair)
  obtain a0 a1 where a: "u16_le a = [a0, a1]" "u16_of_le [a0, a1] = a" by (rule u16_le_pair)
  obtain b0 b1 where b: "u16_le b = [b0, b1]" "b0 = of_nat (unat b)" by (rule u16_le_pair)
  show "u16_of_le [event m a b c ! 4, event m a b c ! 5] = m" "u16_of_le [event m a b c ! 6, event m a b c ! 7] = a"
    "event m a b c ! 8 = of_nat (unat b)" "take 4 (drop 8 (event m a b c)) = u16_le b @ u16_le c"
    "take 2 (drop 8 (event m a b c)) = u16_le b"
    unfolding event_def m(1) a(1) b(1) using m(2) a(2) b(2) by simp_all
qed

lemma sync_fields:
  "u16_of_le [sync_event t ! 4, sync_event t ! 5] = 0" "sync_event t ! 8 = of_nat (unat t)"
  by (simp_all add: sync_event_def INPUT_EVENT_SYNC_def msg_types u32_le_def nat_to_le_4)

lemma push_fp_one:
  assumes "event_ok e"
  shows "\<exists>bs. push_fp_event (event_bytes e) = Some bs \<and> 1 \<le> length bs \<and> length bs \<le> 7 \<and>
    (\<forall>rest. read_fast_event (bs @ rest) = Some (means e, rest))"
proof (cases e)
  case (KeyEvent flags key)
  then have k: "key < 256" using assms by simp
  show ?thesis
    using low_byte [OF k]
    by (simp add: fp_header_read KeyEvent keyboard_event_def push_fp_event_def event_fields Let_def fp_codes INPUT_EVENT_SCANCODE_def
        read_fast_event_def)
next
  case (UnicodeEvent flags code)
  show ?thesis
    by (simp add: fp_header_read UnicodeEvent unicode_event_def push_fp_event_def event_fields Let_def fp_codes INPUT_EVENT_UNICODE_def
        read_fast_event_def)
next
  case (SyncEvent toggles')
  then have t: "toggles' < 32" using assms by simp
  show ?thesis
    using toggles [OF t] fp_header_read [OF toggles(1) [OF t], of 3]
    by (simp add: SyncEvent push_fp_event_def sync_fields Let_def fp_codes read_fast_event_def)
next
  case (MouseEvent flags x y)
  show ?thesis
    by (simp add: fp_header_read MouseEvent mouse_event_def push_fp_event_def event_fields Let_def fp_codes INPUT_EVENT_MOUSE_def read_fast_event_def)
next
  case (MouseXEvent flags x y)
  show ?thesis
    by (simp add: fp_header_read MouseXEvent mouse_x_event_def push_fp_event_def event_fields Let_def fp_codes INPUT_EVENT_MOUSEX_def read_fast_event_def)
next
  case (RelMouseEvent flags x y)
  show ?thesis
    by (simp add: fp_header_read RelMouseEvent rel_mouse_event_def push_fp_event_def event_fields Let_def fp_codes INPUT_EVENT_MOUSEREL_def read_fast_event_def)
qed

section \<open>A batch on either path\<close>

lemma read_slow_batch: "read_slow_events (length es) (concat (map event_bytes es)) = Some (map means es)"
  by (induction es) (simp_all add: read_slow_one)

lemma push_fp_batch:
  "\<forall>e \<in> set es. event_ok e \<Longrightarrow>
   \<exists>bs. push_fp_events (map event_bytes es) = Some bs \<and> length bs \<le> 7 * length es \<and> read_fast_events (length es) bs = Some (map means es)"
proof (induction es)
  case (Cons e es)
  from Cons obtain bs where bs: "push_fp_events (map event_bytes es) = Some bs" "length bs \<le> 7 * length es"
      "read_fast_events (length es) bs = Some (map means es)" by auto
  from push_fp_one [of e] Cons.prems obtain b where b: "push_fp_event (event_bytes e) = Some b" "length b \<le> 7"
      "\<And>rest. read_fast_event (b @ rest) = Some (means e, rest)" by auto
  show ?case using bs b by simp
qed simp

lemma length_concat_events: "length (concat (map event_bytes es)) = 12 * length es"
  by (induction es) simp_all

lemma data_pdu_type2_share_data: "data_pdu_type2 (share_data sid user t body) = Some t"
proof -
  obtain l0 l1 where l: "u16_le (of_nat (SHARE_DATA_HEADER_LEN + length body)) = [l0, l1]" by (rule u16_le_pair)
  obtain u0 u1 where u: "u16_le user = [u0, u1]" by (rule u16_le_pair)
  have "u16_le PDUTYPE_DATA = [0x17, 0]" by (simp add: PDUTYPE_DATA_def u16_le_def nat_to_le_2)
  moreover have "u16_of_le [0x17, 0] AND 0x0f = 7" by (simp add: u16_of_le_def)
  moreover have "length (u32_le sid) = 4" by simp
  ultimately show ?thesis
    by (simp add: data_pdu_type2_def ensure_def share_data_def Let_def l u nth_append SHARE_DATA_HEADER_LEN_def)
qed

lemma share_data_parts:
  "take 2 (share_data sid user t body) = u16_le (of_nat (18 + length body))" "drop 18 (share_data sid user t body) = body"
  "length (share_data sid user t body) = 18 + length body"
  by (simp_all add: share_data_def Let_def SHARE_DATA_HEADER_LEN_def)

lemma slow_batch:
  assumes "length es \<le> 255"
  shows "read_slow_pdu (slow_input_pdu sid user (map event_bytes es)) = Some (map means es)"
proof -
  let ?body = "u16_le (of_nat (length es)) @ u16_le 0 @ concat (map event_bytes es)"
  let ?pdu = "share_data sid user PDUTYPE2_INPUT ?body"
  have n: "unat (of_nat (length es) :: u16) = length es" using assms by (simp add: unat_of_nat)
  have b: "length ?body = 4 + 12 * length es" by (simp add: length_concat_events)
  have l: "unat (u16_of_le (take 2 ?pdu)) = length ?pdu"
    unfolding share_data_parts b u16_of_le_u16_le using assms by (simp add: unat_of_nat del: of_nat_add)
  have c: "u16_of_le (take 2 (drop 18 ?pdu)) = of_nat (length es)" unfolding share_data_parts by simp
  have "drop 22 ?pdu = drop 4 (drop 18 ?pdu)" by simp
  then have d: "drop 22 ?pdu = concat (map event_bytes es)" unfolding share_data_parts by simp
  show ?thesis
    unfolding read_slow_pdu_def slow_input_pdu_def length_map l c d data_pdu_type2_share_data n read_slow_batch by simp
qed

lemma fast_count_all:
  "\<forall>n \<in> set [1..<16]. drop_bit 2 (push_bit 2 (of_nat n :: u8)) AND 0x0f = of_nat n \<and> push_bit 2 (of_nat n :: u8) AND 3 = 0"
  by code_simp

lemma high_bit_all: "\<forall>m \<in> set [0..<128]. (of_nat (128 + m) :: u8) AND 0x80 \<noteq> 0"
  by code_simp

lemma fast_length_word:
  assumes "n < 32768"
  shows "unat (0x8000 OR of_nat n :: u16) = 32768 + n" "(0x8000 OR of_nat n) AND 0x7fff = (of_nat n :: u16)"
proof -
  have nb: "\<not> bit n k" if "k \<ge> 15" for k
  proof -
    have "take_bit 15 n = n" using assms by (simp add: take_bit_nat_eq_self)
    then have "bit n k = bit (take_bit 15 n) k" by simp
    then show ?thesis using that by (simp add: bit_take_bit_iff)
  qed
  have z: "0x8000 AND (of_nat n :: u16) = 0"
  proof (rule bit_word_eqI)
    fix k assume "k < LENGTH(16)"
    have "bit (0x8000 :: u16) k \<longleftrightarrow> k = 15"
      using bit_exp_iff [where 'a = "16 word", of 15 k] by auto
    then show "bit (0x8000 AND (of_nat n :: u16)) k = bit (0 :: u16) k" using nb [of k] by (auto simp: bit_and_iff bit_of_nat_iff)
  qed
  have "0x8000 OR of_nat n = (0x8000 + of_nat n :: u16)" by (simp only: disjunctive_add_eq_or [OF z])
  also have "\<dots> = of_nat (32768 + n)" by simp
  finally have s: "0x8000 OR of_nat n = (of_nat (32768 + n) :: u16)" .
  show "unat (0x8000 OR of_nat n :: u16) = 32768 + n" unfolding s using assms by (simp add: unat_of_nat del: of_nat_add)
  show "(0x8000 OR of_nat n) AND 0x7fff = (of_nat n :: u16)"
  proof (rule bit_word_eqI)
    fix k assume k: "k < LENGTH(16)"
    have "bit (0x7fff :: u16) k \<longleftrightarrow> k < 15"
      using bit_mask_iff [where 'a = "16 word", of 15 k] k by (simp add: mask_eq_exp_minus_1)
    moreover have "bit (0x8000 :: u16) k \<longleftrightarrow> k = 15"
      using bit_exp_iff [where 'a = "16 word", of 15 k] by auto
    ultimately show "bit ((0x8000 OR of_nat n) AND 0x7fff :: u16) k = bit (of_nat n :: u16) k"
      using nb [of k] by (auto simp: bit_and_iff bit_or_iff bit_of_nat_iff)
  qed
qed

lemma fast_length:
  assumes "n < 32768"
  obtains x y where "u16_be (0x8000 OR of_nat n) = [x, y]" "x AND 0x80 \<noteq> 0" "unat (u16_of_be [x, y] AND 0x7fff) = n"
proof (rule that)
  let ?w = "0x8000 OR of_nat n :: u16"
  have u: "unat ?w = 32768 + n" by (rule fast_length_word(1) [OF assms])
  show w: "u16_be ?w = [of_nat (unat ?w div 256), of_nat (unat ?w)]" by (simp only: u16_be_def u16_le_def nat_to_le_2 rev.simps append.simps)
  have "unat ?w div 256 = 128 + n div 256" unfolding u by simp
  moreover have "n div 256 \<in> set [0..<128]" using assms by simp
  ultimately show "(of_nat (unat ?w div 256) :: u8) AND 0x80 \<noteq> 0" using high_bit_all [rule_format, of "n div 256"] by (simp only: not_False_eq_True)
  have "u16_of_be [of_nat (unat ?w div 256), of_nat (unat ?w)] = ?w" unfolding w [symmetric] by (rule of_be_be)
  then have "u16_of_be [of_nat (unat ?w div 256), of_nat (unat ?w)] AND 0x7fff = (of_nat n :: u16)"
    using fast_length_word(2) [OF assms] by (simp only:)
  then show "unat (u16_of_be [of_nat (unat ?w div 256), of_nat (unat ?w)] AND 0x7fff) = n" using assms by (simp only:) (simp add: unat_of_nat)
qed

lemma fast_batch:
  assumes "es \<noteq> []" "length es \<le> 255" "\<forall>e \<in> set es. event_ok e"
  obtains pdu where "input_pdu (map event_bytes es) = Some pdu" "read_fast_pdu pdu = Some (map means es)"
proof -
  let ?n = "length es"
  obtain bs where bs: "push_fp_events (map event_bytes es) = Some bs" "length bs \<le> 7 * ?n" "read_fast_events ?n bs = Some (map means es)"
    using push_fp_batch [OF assms(3)] by blast
  let ?sep = "?n > 15"
  let ?len = "1 + 2 + (if ?sep then 1 else 0) + length bs"
  have "?len < 32768" using bs(2) assms(2) by simp
  then obtain x y where xy: "u16_be (0x8000 OR of_nat ?len) = [x, y]" "x AND 0x80 \<noteq> 0" "unat (u16_of_be [x, y] AND 0x7fff) = ?len"
    by (rule fast_length)
  let ?pdu = "[if ?sep then 0 else push_bit 2 (of_nat ?n)] @ [x, y] @ (if ?sep then [of_nat ?n] else []) @ bs"
  have p: "input_pdu (map event_bytes es) = Some ?pdu"
    unfolding input_pdu_def bs(1) Let_def option.map length_map xy(1) using assms(1,2) by (simp only: map_is_Nil_conv if_False) simp
  have l: "take 2 (drop 1 ?pdu) = [x, y]" "length ?pdu = ?len" "?pdu ! 1 = x" by simp_all
  have "read_fast_pdu ?pdu = Some (map means es)"
  proof (cases ?sep)
    case True
    have "unat (of_nat ?n :: u8) = ?n" using assms(2) by (simp add: unat_of_nat_u8)
    then show ?thesis unfolding read_fast_pdu_def l using xy(2,3) True bs(3) by (simp add: numeral_3_eq_3)
  next
    case False
    then have "?n \<in> set [1..<16]" using assms(1) by (cases es) auto
    note c = fast_count_all [rule_format, OF this]
    have "unat (of_nat ?n :: u8) = ?n" using assms(2) by (simp add: unat_of_nat_u8)
    then show ?thesis unfolding read_fast_pdu_def l using xy(2,3) False bs(3) c assms(1) by (simp add: numeral_3_eq_3)
  qed
  with p show thesis by (rule that)
qed

section \<open>Properties\<close>

text \<open>
  C29. A batch of 1 to 255 events, keys below 256 and toggles below 32, always translates to the fast path, and a server
  reads the same events from that PDU and from the slow path's, in order.
\<close>

theorem fast_and_slow_input_agree:
  assumes "es \<noteq> []" "length es \<le> 255" "\<forall>e \<in> set es. event_ok e"
  shows "\<exists>pdu. input_pdu (map event_bytes es) = Some pdu \<and> read_fast_pdu pdu = Some (map means es) \<and>
    read_slow_pdu (slow_input_pdu sid user (map event_bytes es)) = Some (map means es)"
  using fast_batch [OF assms] slow_batch [OF assms(2)] by metis

theorem fast_and_slow_input_agree_witness:
  "\<exists>pdu. input_pdu (map event_bytes (replicate 20 (KeyEvent 0xC100 0x1c))) = Some pdu \<and>
     read_fast_pdu pdu = Some (replicate 20 (Key True True 0x1c)) \<and>
     read_slow_pdu (slow_input_pdu 7 1004 (map event_bytes (replicate 20 (KeyEvent 0xC100 0x1c)))) = Some (replicate 20 (Key True True 0x1c))"
  using fast_and_slow_input_agree [of "replicate 20 (KeyEvent 0xC100 0x1c)" 7 1004]
  by (simp add: KBDFLAGS_RELEASE_def KBDFLAGS_EXTENDED_def)

end
