(* ===== verification/ClearCodec.thy ===== *)
theory ClearCodec
  imports Prelude "HOL-Library.Monad_Syntax"
begin

text \<open>
  The ClearCodec decoder (\<open>clearcodec.rs\<close>): its caches, the three layers and the glyph cache. A function that writes to the
  destination returns it, and \<open>None\<close> where the code would panic or never return; an early return inside a layer, which its
  caller ignores, is the destination as far as it was written. The counts \<open>subcodecs\<close> returns, for a log line, are left out.
\<close>

unbundle bit_operations_syntax

section \<open>Reading\<close>

text \<open>A \<open>Reader\<close> is the bytes it has not read.\<close>

type_synonym reader = bytes

fun read_u8 :: "reader \<Rightarrow> (u8 \<times> reader) option" where
  "read_u8 (a # r) = Some (a, r)"
| "read_u8 _ = None"

fun read_u16 :: "reader \<Rightarrow> (u16 \<times> reader) option" where
  "read_u16 (a # b # r) = Some (u16_of_le [a, b], r)"
| "read_u16 _ = None"

fun read_u32 :: "reader \<Rightarrow> (u32 \<times> reader) option" where
  "read_u32 (a # b # c # d # r) = Some (u32_of_le [a, b, c, d], r)"
| "read_u32 _ = None"

definition read_take :: "nat \<Rightarrow> reader \<Rightarrow> (bytes \<times> reader) option" where
  "read_take n r = (if n \<le> length r then Some (take n r, drop n r) else None)"

definition run_length :: "u8 \<Rightarrow> reader \<Rightarrow> (u32 \<times> reader) option" where
  "run_length b r =
    (if b < 0xFF then Some (ucast b, r)
     else do { (two, r') \<leftarrow> read_u16 r; if two < 0xFFFF then Some (ucast two, r') else read_u32 r' })"

section \<open>Writing\<close>

text \<open>\<open>dst[o..o + n].copy_from_slice(bs)\<close>, and \<open>xs[i] = x\<close>.\<close>

definition paste :: "bytes \<Rightarrow> nat \<Rightarrow> bytes \<Rightarrow> bytes option" where
  "paste dst off bs = (if off + length bs \<le> length dst then Some (take off dst @ bs @ drop (off + length bs) dst) else None)"

definition set_slot :: "'a list \<Rightarrow> nat \<Rightarrow> 'a \<Rightarrow> 'a list option" where
  "set_slot xs i x = (if i < length xs then Some (xs[i := x]) else None)"

type_synonym rgb = "u8 \<times> u8 \<times> u8"

definition pixel :: "rgb \<Rightarrow> bytes" where "pixel = (\<lambda>(r, g, b). [r, g, b, 0xFF])"

text \<open>The pixels of B,G,R triples; a rest shorter than a triple is dropped.\<close>

fun bgr_pixels :: "bytes \<Rightarrow> rgb list" where
  "bgr_pixels (b # g # r # bs) = (r, g, b) # bgr_pixels bs"
| "bgr_pixels _ = []"

definition pixels_bytes :: "rgb list \<Rightarrow> bytes" where "pixels_bytes ps = concat (map pixel ps)"

section \<open>State\<close>

definition GLYPH_CACHE :: nat where "GLYPH_CACHE = 4000"
definition VBAR_CACHE :: nat where "VBAR_CACHE = 32768"
definition SHORT_VBAR_CACHE :: nat where "SHORT_VBAR_CACHE = 16384"
definition FLAG_GLYPH_INDEX :: u8 where "FLAG_GLYPH_INDEX = 0x01"
definition FLAG_GLYPH_HIT :: u8 where "FLAG_GLYPH_HIT = 0x02"
definition FLAG_CACHE_RESET :: u8 where "FLAG_CACHE_RESET = 0x04"
definition SUBCODEC_RAW :: u8 where "SUBCODEC_RAW = 0"
definition SUBCODEC_NSCODEC :: u8 where "SUBCODEC_NSCODEC = 1"
definition SUBCODEC_RLEX :: u8 where "SUBCODEC_RLEX = 2"

record pixels =
  px_count :: nat
  px_rgba :: bytes

record clear =
  glyphs :: "pixels list"
  vbar :: "pixels list"
  short_vbar :: "pixels list"
  vbar_cursor :: nat
  short_vbar_cursor :: nat

definition no_pixels :: pixels where "no_pixels = \<lparr>px_count = 0, px_rgba = []\<rparr>"

definition clear_new :: clear where
  "clear_new =
    \<lparr>glyphs = replicate GLYPH_CACHE no_pixels, vbar = replicate VBAR_CACHE no_pixels,
     short_vbar = replicate SHORT_VBAR_CACHE no_pixels, vbar_cursor = 0, short_vbar_cursor = 0\<rparr>"

section \<open>Residual layer\<close>

text \<open>\<open>run\<close> pixels from \<open>idx\<close> on, four at a time while four are left.\<close>

function fill_run :: "nat \<Rightarrow> nat \<Rightarrow> nat \<Rightarrow> bytes \<Rightarrow> bytes \<Rightarrow> bytes option" where
  "fill_run idx i run px dst =
    (if i + 4 \<le> run then do { dst \<leftarrow> paste dst ((idx + i) * 4) (px @ px @ px @ px); fill_run idx (i + 4) run px dst }
     else if i < run then do { dst \<leftarrow> paste dst ((idx + i) * 4) px; fill_run idx (i + 1) run px dst }
     else Some dst)"
  by pat_completeness auto
termination by (relation "measure (\<lambda>(idx, i, run, px, dst). run - i)") auto

declare fill_run.simps [simp del]

text \<open>One run: its colour and length.\<close>

definition residual_run :: "reader \<Rightarrow> ((rgb \<times> u32) \<times> reader) option" where
  "residual_run r = do {
     (b, r) \<leftarrow> read_u8 r; (g, r) \<leftarrow> read_u8 r; (rr, r) \<leftarrow> read_u8 r; (fst_byte, r) \<leftarrow> read_u8 r;
     (run, r) \<leftarrow> run_length fst_byte r;
     Some (((rr, g, b), run), r) }"

lemma read_u8_shrinks: "read_u8 r = Some (a, r') \<Longrightarrow> length r = Suc (length r')"
  by (cases r rule: read_u8.cases) auto

lemma read_u16_shrinks: "read_u16 r = Some (b, r') \<Longrightarrow> length r = Suc (Suc (length r'))"
  by (cases r rule: read_u16.cases) auto

lemma read_u32_shrinks: "read_u32 r = Some (c, r') \<Longrightarrow> length r = length r' + 4"
  by (cases r rule: read_u32.cases) auto

lemma read_take_shrinks: "read_take n r = Some (d, r') \<Longrightarrow> length r = length r' + n"
  by (auto simp: read_take_def split: if_splits)

lemmas read_shrinks = read_u8_shrinks read_u16_shrinks read_u32_shrinks read_take_shrinks

lemma run_length_shrinks: "run_length b r = Some (n, r') \<Longrightarrow> length r' \<le> length r"
  by (auto simp: run_length_def split: if_splits option.splits bind_splits dest!: read_shrinks)

lemma residual_run_shrinks: "residual_run r = Some (x, r') \<Longrightarrow> length r' < length r"
  by (auto simp: residual_run_def split: bind_splits dest!: read_shrinks run_length_shrinks)

function residual_loop :: "nat \<Rightarrow> nat \<Rightarrow> reader \<Rightarrow> bytes \<Rightarrow> bytes option" where
  "residual_loop total_px idx r dst =
    (if length r < 4 \<or> idx \<ge> total_px then Some dst
     else (case residual_run r of
             None \<Rightarrow> Some dst
           | Some ((col, run), r') \<Rightarrow>
               (let run = min (unat run) (total_px - idx)
                in do { dst \<leftarrow> fill_run idx 0 run (pixel col) dst; residual_loop total_px (idx + run) r' dst })))"
  by pat_completeness auto
termination by (relation "measure (\<lambda>(total_px, idx, r, dst). length r)") (auto dest: residual_run_shrinks)

declare residual_loop.simps [simp del]

definition residual :: "bytes \<Rightarrow> nat \<Rightarrow> nat \<Rightarrow> bytes \<Rightarrow> bytes option" where
  "residual data w h dst = residual_loop (w * h) 0 data dst"

section \<open>Bands layer\<close>

text \<open>\<open>fill_background\<close> and \<open>background_column\<close>: the column is resized, then overwritten 16 bytes at a time.\<close>

definition background_column :: "nat \<Rightarrow> rgb \<Rightarrow> bytes" where
  "background_column count col =
    concat (replicate (count * 4 div 16) (pixel col @ pixel col @ pixel col @ pixel col)) @
    concat (replicate (count * 4 mod 16 div 4) (pixel col))"

text \<open>Down the destination, one pixel per chunk of a row's length, until either ends.\<close>

primrec emit_chunks :: "nat \<Rightarrow> bytes list \<Rightarrow> nat \<Rightarrow> bytes \<Rightarrow> bytes option" where
  "emit_chunks stride [] d dst = Some dst"
| "emit_chunks stride (p # ps) d dst =
    (if d \<ge> length dst then Some dst else do { dst \<leftarrow> paste dst d p; emit_chunks stride ps (d + stride) dst })"

definition emit_column :: "bytes \<Rightarrow> nat \<Rightarrow> nat \<Rightarrow> nat \<Rightarrow> nat \<Rightarrow> nat \<Rightarrow> bytes \<Rightarrow> bytes option" where
  "emit_column dst w h dx y_start vbar_height column =
    (if dx \<ge> w then Some dst
     else (let rows = min (min vbar_height (length column div 4)) (h - y_start)
           in if rows = 0 then Some dst
              else if (y_start * w + dx) * 4 > length dst then None
              else emit_chunks (w * 4) (chunks_of 4 (take (rows * 4) column)) ((y_start * w + dx) * 4) dst))"

record band =
  b_x :: nat
  b_y :: nat
  b_count :: nat
  b_height :: nat
  b_color :: rgb

text \<open>
  The short column of a header, cached or new: the state, its slot, the row it starts at, and what is left to read; the
  inner \<open>None\<close> ends the layer.
\<close>

definition short_column :: "u16 \<Rightarrow> reader \<Rightarrow> clear \<Rightarrow> (clear \<times> (nat \<times> nat \<times> reader) option) option" where
  "short_column header r c =
    (if header AND 0xC000 = 0x4000
     then (let idx = unat (header AND 0x3FFF)
           in if idx \<ge> SHORT_VBAR_CACHE then Some (c, None)
              else (case read_u8 r of None \<Rightarrow> Some (c, None) | Some (y_on, r) \<Rightarrow> Some (c, Some (idx, unat y_on, r))))
     else (let y_on = unat (header AND 0x00FF); y_off = unat (drop_bit 8 header AND 0x3F); count = y_off - y_on
           in if y_off < y_on then Some (c, None)
              else (case read_take (count * 3) r of
                      None \<Rightarrow> Some (c, None)
                    | Some (bgr, r) \<Rightarrow>
                        (let cur = short_vbar_cursor c
                         in do { slots \<leftarrow> set_slot (short_vbar c) cur \<lparr>px_count = count, px_rgba = pixels_bytes (bgr_pixels bgr)\<rparr>;
                              Some (c\<lparr>short_vbar := slots, short_vbar_cursor := (cur + 1) mod SHORT_VBAR_CACHE\<rparr>,
                                    Some (cur, y_on, r)) }))))"

text \<open>The column composed over the background from a short one.\<close>

definition compose_column :: "band \<Rightarrow> pixels \<Rightarrow> nat \<Rightarrow> bytes option" where
  "compose_column bd short y_on =
    (let v = background_column (b_height bd) (b_color bd)
     in if y_on < b_height bd
        then (let n = min (px_count short) (b_height bd - y_on) * 4
              in do { bs \<leftarrow> slice_get (px_rgba short) 0 n; paste v (y_on * 4) bs })
        else Some v)"

definition band_column :: "nat \<Rightarrow> nat \<Rightarrow> band \<Rightarrow> nat \<Rightarrow> reader \<Rightarrow> clear \<Rightarrow> bytes \<Rightarrow> (clear \<times> bytes \<times> reader option) option" where
  "band_column w h bd dx r c dst =
    (case read_u16 r of
       None \<Rightarrow> Some (c, dst, None)
     | Some (header, r) \<Rightarrow>
         if header AND 0x8000 \<noteq> 0
         then (case index_get (vbar c) (unat (header AND 0x7FFF)) of
                 None \<Rightarrow> Some (c, dst, None)
               | Some entry \<Rightarrow> do {
                   dst \<leftarrow> emit_column dst w h dx (b_y bd) (b_height bd)
                     (if px_count entry = 0 then background_column (b_height bd) (b_color bd) else px_rgba entry);
                   Some (c, dst, Some r) })
         else do {
           (c, found) \<leftarrow> short_column header r c;
           (case found of
              None \<Rightarrow> Some (c, dst, None)
            | Some (short_idx, y_on, r) \<Rightarrow> do {
                short \<leftarrow> index_get (short_vbar c) short_idx;
                v \<leftarrow> compose_column bd short y_on;
                slots \<leftarrow> set_slot (vbar c) (vbar_cursor c) \<lparr>px_count = b_height bd, px_rgba = v\<rparr>;
                dst \<leftarrow> emit_column dst w h dx (b_y bd) (b_height bd) v;
                Some (c\<lparr>vbar := slots, vbar_cursor := (vbar_cursor c + 1) mod VBAR_CACHE\<rparr>, dst, Some r) }) })"

primrec band_columns :: "nat \<Rightarrow> nat \<Rightarrow> nat \<Rightarrow> band \<Rightarrow> nat \<Rightarrow> reader \<Rightarrow> clear \<Rightarrow> bytes \<Rightarrow> (clear \<times> bytes \<times> reader option) option" where
  "band_columns 0 w h bd dx r c dst = Some (c, dst, Some r)"
| "band_columns (Suc n) w h bd dx r c dst = do {
     (c, dst, left) \<leftarrow> band_column w h bd dx r c dst;
     (case left of None \<Rightarrow> Some (c, dst, None) | Some r \<Rightarrow> band_columns n w h bd (dx + 1) r c dst) }"

text \<open>The header of a band; \<open>None\<close> where its ends are out of order.\<close>

definition band_header :: "reader \<Rightarrow> (band \<times> reader) option" where
  "band_header r = do {
     (x_start, r) \<leftarrow> read_u16 r; (x_end, r) \<leftarrow> read_u16 r; (y_start, r) \<leftarrow> read_u16 r; (y_end, r) \<leftarrow> read_u16 r;
     (cb, r) \<leftarrow> read_u8 r; (cg, r) \<leftarrow> read_u8 r; (cr, r) \<leftarrow> read_u8 r;
     if x_end < x_start \<or> y_end < y_start then None
     else Some (\<lparr>b_x = unat x_start, b_y = unat y_start, b_count = unat x_end - unat x_start + 1,
                 b_height = unat y_end - unat y_start + 1, b_color = (cr, cg, cb)\<rparr>, r) }"

lemma band_header_shrinks: "band_header r = Some (bd, r') \<Longrightarrow> length r' < length r"
  by (auto simp: band_header_def split: bind_splits if_splits dest!: read_shrinks)

lemma short_column_shrinks: "short_column header r c = Some (c', Some (i, y, r')) \<Longrightarrow> length r' \<le> length r"
  by (auto simp: short_column_def Let_def split: bind_splits if_splits option.splits dest!: read_shrinks)

lemma band_column_shrinks: "band_column w h bd dx r c dst = Some (c', dst', Some r') \<Longrightarrow> length r' \<le> length r"
  by (auto simp: band_column_def split: bind_splits if_splits option.splits dest!: read_shrinks short_column_shrinks)

lemma band_columns_shrinks: "band_columns n w h bd dx r c dst = Some (c', dst', Some r') \<Longrightarrow> length r' \<le> length r"
  by (induction n arbitrary: dx r c dst) (fastforce split: bind_splits option.splits dest: band_column_shrinks)+

function bands :: "nat \<Rightarrow> nat \<Rightarrow> reader \<Rightarrow> clear \<Rightarrow> bytes \<Rightarrow> (clear \<times> bytes) option" where
  "bands w h r c dst =
    (if length r < 11 then Some (c, dst)
     else (case band_header r of
             None \<Rightarrow> Some (c, dst)
           | Some (bd, r) \<Rightarrow>
               (case band_columns (b_count bd) w h bd (b_x bd) r c dst of
                  None \<Rightarrow> None
                | Some (c, dst, None) \<Rightarrow> Some (c, dst)
                | Some (c, dst, Some r) \<Rightarrow> bands w h r c dst)))"
  by pat_completeness auto
termination by (relation "measure (\<lambda>(w, h, r, c, dst). length r)") (auto dest!: band_header_shrinks band_columns_shrinks)

declare bands.simps [simp del]

section \<open>Subcodec layer: RAW and RLEX\<close>

text \<open>The visible part of \<open>n\<close> pixels of a region's row: where it starts in the destination, and how many pixels it has.\<close>

definition row_span :: "nat \<Rightarrow> nat \<Rightarrow> nat \<Rightarrow> nat \<Rightarrow> nat \<Rightarrow> nat \<Rightarrow> nat \<Rightarrow> (nat \<times> nat) option" where
  "row_span w h x0 y0 x y n =
    (let dx = x0 + x; dy = y0 + y
     in if dy \<ge> h \<or> dx \<ge> w \<or> n = 0 then None else Some ((dy * w + dx) * 4, min n (w - dx)))"

text \<open>The rows of a raw region that are left; \<open>n\<close> is the number of pixels there are.\<close>

primrec raw_rows :: "nat list \<Rightarrow> bytes \<Rightarrow> nat \<Rightarrow> nat \<Rightarrow> nat \<Rightarrow> nat \<Rightarrow> nat \<Rightarrow> nat \<Rightarrow> bytes \<Rightarrow> bytes option" where
  "raw_rows [] data n x0 y0 rw w h dst = Some dst"
| "raw_rows (y # ys) data n x0 y0 rw w h dst =
    (let start = y * rw
     in if start \<ge> n then Some dst
        else (case row_span w h x0 y0 0 y (min (n - start) rw) of
                None \<Rightarrow> raw_rows ys data n x0 y0 rw w h dst
              | Some (off, vis) \<Rightarrow> do {
                  src \<leftarrow> slice_get data (start * 3) ((start + vis) * 3);
                  dst \<leftarrow> paste dst off (pixels_bytes (bgr_pixels src));
                  raw_rows ys data n x0 y0 rw w h dst }))"

definition raw_region :: "bytes \<Rightarrow> nat \<Rightarrow> nat \<Rightarrow> nat \<Rightarrow> nat \<Rightarrow> nat \<Rightarrow> nat \<Rightarrow> bytes \<Rightarrow> bytes option" where
  "raw_region data x0 y0 rw rh w h dst = raw_rows [0..<rh] data (min (length data div 3) (rw * rh)) x0 y0 rw w h dst"

text \<open>
  \<open>Span::fill\<close>: a raster cursor, \<open>n\<close> pixels of one colour. A cursor at or past the region's width would never move, or
  underflow: \<open>None\<close>.
\<close>

function span_fill :: "nat \<Rightarrow> nat \<Rightarrow> nat \<Rightarrow> nat \<Rightarrow> nat \<Rightarrow> nat \<Rightarrow> rgb \<Rightarrow> nat \<times> nat \<Rightarrow> bytes \<Rightarrow> ((nat \<times> nat) \<times> bytes) option" where
  "span_fill w h x0 y0 rw n col (x, y) dst =
    (if n = 0 then Some ((x, y), dst)
     else if x \<ge> rw then None
     else (let seg = min n (rw - x);
               next_xy = (if x + seg = rw then (0, y + 1) else (x + seg, y))
           in case row_span w h x0 y0 x y seg of
                None \<Rightarrow> span_fill w h x0 y0 rw (n - seg) col next_xy dst
              | Some (off, vis) \<Rightarrow> do {
                  dst \<leftarrow> paste dst off (pixels_bytes (replicate vis col));
                  span_fill w h x0 y0 rw (n - seg) col next_xy dst }))"
  by pat_completeness auto
termination by (relation "measure (\<lambda>(w, h, x0, y0, rw, n, col, xy, dst). n)") auto

declare span_fill.simps [simp del]

text \<open>The palette, and the bits an index takes: \<open>32 - leading_zeros\<close> is the length in bits.\<close>

fun bit_len :: "nat \<Rightarrow> nat" where "bit_len n = (if n = 0 then 0 else Suc (bit_len (n div 2)))"

declare bit_len.simps [simp del]

definition index_bits :: "nat \<Rightarrow> nat" where
  "index_bits palette_count = (if palette_count \<le> 1 then 1 else bit_len (palette_count - 1))"

definition bits_mask :: "nat \<Rightarrow> u8" where "bits_mask n = ucast (push_bit n (1 :: u32) - 1)"

text \<open>One record: the start and stop index and the run; \<open>None\<close> ends the region.\<close>

definition rlex_record :: "nat \<Rightarrow> reader \<Rightarrow> ((nat \<times> nat \<times> u32) \<times> reader) option" where
  "rlex_record palette_count r = do {
     (tmp, r) \<leftarrow> read_u8 r; (fst_byte, r) \<leftarrow> read_u8 r;
     let num_bits = index_bits palette_count;
         suite_depth = unat (drop_bit num_bits tmp AND bits_mask (8 - num_bits));
         stop_index = unat (tmp AND bits_mask num_bits)
     in if stop_index < suite_depth then None
        else do {
          (run, r) \<leftarrow> run_length fst_byte r;
          if stop_index - suite_depth \<ge> palette_count \<or> stop_index \<ge> palette_count then None
          else Some ((stop_index - suite_depth, stop_index, run), r) } }"

lemma rlex_record_shrinks: "rlex_record n r = Some (x, r') \<Longrightarrow> length r' < length r"
  by (auto simp: rlex_record_def Let_def split: bind_splits if_splits dest!: read_shrinks run_length_shrinks)

primrec rlex_suite ::
  "nat list \<Rightarrow> rgb list \<Rightarrow> nat \<Rightarrow> nat \<Rightarrow> nat \<Rightarrow> nat \<Rightarrow> nat \<Rightarrow> nat \<Rightarrow> nat \<Rightarrow> nat \<times> nat \<Rightarrow> bytes \<Rightarrow> (nat \<times> (nat \<times> nat) \<times> bytes) option" where
  "rlex_suite [] palette region w h x0 y0 rw idx cur dst = Some (idx, cur, dst)"
| "rlex_suite (si # sis) palette region w h x0 y0 rw idx cur dst =
    (if idx \<ge> region then Some (idx, cur, dst)
     else do {
       col \<leftarrow> index_get palette si;
       (cur, dst) \<leftarrow> span_fill w h x0 y0 rw 1 col cur dst;
       rlex_suite sis palette region w h x0 y0 rw (idx + 1) cur dst })"

function rlex_loop ::
  "rgb list \<Rightarrow> nat \<Rightarrow> nat \<Rightarrow> nat \<Rightarrow> nat \<Rightarrow> nat \<Rightarrow> nat \<Rightarrow> reader \<Rightarrow> nat \<Rightarrow> nat \<times> nat \<Rightarrow> bytes \<Rightarrow> bytes option" where
  "rlex_loop palette region w h x0 y0 rw r idx cur dst =
    (if length r < 2 \<or> idx \<ge> region then Some dst
     else (case rlex_record (length palette) r of
             None \<Rightarrow> Some dst
           | Some ((start_index, stop_index, run), r') \<Rightarrow> do {
               col \<leftarrow> index_get palette start_index;
               (cur, dst) \<leftarrow> span_fill w h x0 y0 rw (min (unat run) (region - idx)) col cur dst;
               (idx, cur, dst) \<leftarrow> rlex_suite [start_index..<stop_index + 1] palette region w h x0 y0 rw
                 (idx + min (unat run) (region - idx)) cur dst;
               rlex_loop palette region w h x0 y0 rw r' idx cur dst }))"
  by pat_completeness auto
termination
  by (relation "measure (\<lambda>(palette, region, w, h, x0, y0, rw, r, idx, cur, dst). length r)") (auto dest: rlex_record_shrinks)

declare rlex_loop.simps [simp del]

definition read_palette :: "reader \<Rightarrow> (rgb list \<times> reader) option" where
  "read_palette r = do {
     (n, r) \<leftarrow> read_u8 r;
     if n = 0 \<or> n > 127 then None
     else do { (bgr, r) \<leftarrow> read_take (unat n * 3) r; Some (bgr_pixels bgr, r) } }"

definition rlex_region :: "bytes \<Rightarrow> nat \<Rightarrow> nat \<Rightarrow> nat \<Rightarrow> nat \<Rightarrow> nat \<Rightarrow> nat \<Rightarrow> bytes \<Rightarrow> bytes option" where
  "rlex_region data x0 y0 rw rh w h dst =
    (case read_palette data of
       None \<Rightarrow> Some dst
     | Some (palette, r) \<Rightarrow> rlex_loop palette (rw * rh) w h x0 y0 rw r 0 (0, 0) dst)"

section \<open>Subcodec layer: NSCodec\<close>

text \<open>
  The token at \<open>i\<close>, as the careful path reads it: where reading goes on, and the value and length of the run (1 for a
  literal); \<open>None\<close> where the input stops.
\<close>

definition nsc_token :: "bytes \<Rightarrow> nat \<Rightarrow> nat \<Rightarrow> nat \<Rightarrow> nat \<times> (u8 \<times> nat) option" where
  "nsc_token input orig_size i pos =
    (case index_get input i of
       None \<Rightarrow> (i, None)
     | Some val \<Rightarrow>
         if pos + 5 = orig_size then (i + 1, Some (val, 1))
         else if index_get input (i + 1) = Some val
         then (case index_get input (i + 2) of
                 None \<Rightarrow> (i + 2, None)
               | Some n \<Rightarrow>
                   if n < 0xFF then (i + 3, Some (val, unat n + 2))
                   else (case slice_get input (i + 3) (i + 7) of
                           None \<Rightarrow> (i + 3, None)
                         | Some b \<Rightarrow> (i + 7, Some (val, unat (u32_of_le b)))))
         else (i + 1, Some (val, 1)))"

text \<open>The fast path's token, of seven bytes that are there; \<open>None\<close> for the length of a literal.\<close>

definition fast_token :: "bytes \<Rightarrow> nat \<times> u8 \<times> nat option" where
  "fast_token b =
    (if b ! 1 \<noteq> b ! 0 then (1, b ! 0, None)
     else if b ! 2 < 0xFF then (3, b ! 0, Some (unat (b ! 2) + 2))
     else (7, b ! 0, Some (unat (u32_of_le [b ! 3, b ! 4, b ! 5, b ! 6]))))"

lemma nsc_token_moves: "nsc_token input orig_size i pos = (i', Some x) \<Longrightarrow> i < i' \<and> i < length input"
  by (auto simp: nsc_token_def index_get_def split: option.splits if_splits)

lemma fast_token_moves: "fast_token b = (k, x) \<Longrightarrow> 0 < k"
  by (auto simp: fast_token_def split: if_splits)

function nsc_loop :: "bytes \<Rightarrow> nat \<Rightarrow> nat \<Rightarrow> nat \<Rightarrow> bytes \<Rightarrow> (nat \<times> nat \<times> bytes) option" where
  "nsc_loop input orig_size i pos out =
    (if pos + 4 \<ge> orig_size then Some (i, pos, out)
     else (case (if pos + 5 < orig_size then slice_get input i (i + 7) else None) of
             Some b \<Rightarrow>
               (case fast_token b of
                  (k, val, None) \<Rightarrow> do { out \<leftarrow> paste out pos [val]; nsc_loop input orig_size (i + k) (pos + 1) out }
                | (k, val, Some len) \<Rightarrow>
                    if len \<le> 8 \<and> pos + 8 \<le> orig_size
                    then do { out \<leftarrow> paste out pos (replicate 8 val); nsc_loop input orig_size (i + k) (pos + len) out }
                    else (let stop = min (pos + len) orig_size
                          in do { out \<leftarrow> paste out pos (replicate (stop - pos) val); nsc_loop input orig_size (i + k) stop out }))
           | None \<Rightarrow>
               (case nsc_token input orig_size i pos of
                  (i', None) \<Rightarrow> Some (i', pos, out)
                | (i', Some (val, len)) \<Rightarrow>
                    (let stop = min (pos + len) orig_size
                     in do { out \<leftarrow> paste out pos (replicate (stop - pos) val); nsc_loop input orig_size i' stop out }))))"
  by pat_completeness auto
termination
  by (relation "measure (\<lambda>(input, orig_size, i, pos, out). length input - i)")
    (auto simp: slice_get_def dest!: sym [THEN nsc_token_moves] sym [THEN fast_token_moves] split: if_splits)

declare nsc_loop.simps [simp del]

text \<open>\<open>*input.get(i).unwrap_or(&0)\<close>.\<close>

definition byte_or_0 :: "bytes \<Rightarrow> nat \<Rightarrow> u8" where
  "byte_or_0 input i = (case index_get input i of None \<Rightarrow> 0 | Some b \<Rightarrow> b)"

definition nsc_rle :: "bytes \<Rightarrow> nat \<Rightarrow> bytes option" where
  "nsc_rle input orig_size =
    (if orig_size \<le> 4 then Some (map (byte_or_0 input) [0..<orig_size])
     else do {
       (i, pos, out) \<leftarrow> nsc_loop input orig_size 0 0 (replicate orig_size 0);
       out \<leftarrow> (if pos + 4 < orig_size then paste out pos (replicate (min (pos + 8) (orig_size - 4) - pos) 0) else Some out);
       paste out (orig_size - 4) (map (\<lambda>k. byte_or_0 input (i + k)) [0..<4]) })"

definition nsc_plane :: "bytes \<Rightarrow> nat \<Rightarrow> bytes option" where
  "nsc_plane rle orig_size =
    (if orig_size = 0 then Some []
     else if rle = [] then Some (replicate orig_size 0xFF)
     else if length rle \<ge> orig_size then Some (take orig_size rle)
     else nsc_rle rle orig_size)"

text \<open>
  The header of a region: the sizes of the three payloads, the shift and whether chroma is subsampled; and from these and the
  region's size the strides and sizes of the planes. \<open>(n + 7) & !7\<close> rounds up to a multiple of 8.
\<close>

record nsc =
  luma_bc :: nat
  co_bc :: nat
  cg_bc :: nat
  nsc_shift :: nat
  subsample :: bool

definition nsc_header :: "bytes \<Rightarrow> nsc option" where
  "nsc_header data =
    (if length data < 20 then None
     else (let u32at = (\<lambda>i. unat (u32_of_le [data ! i, data ! (i + 1), data ! (i + 2), data ! (i + 3)]))
           in if \<not> (1 \<le> data ! 16 \<and> data ! 16 \<le> 7) then None
              else Some \<lparr>luma_bc = u32at 0, co_bc = u32at 4, cg_bc = u32at 8, nsc_shift = unat (data ! 16 - 1),
                         subsample = (data ! 17 \<noteq> 0)\<rparr>))"

definition temp_w :: "nat \<Rightarrow> nat" where "temp_w rw = (rw + 7) div 8 * 8"
definition temp_h :: "nat \<Rightarrow> nat" where "temp_h rh = (rh + 1) div 2 * 2"

definition luma_layout :: "bool \<Rightarrow> nat \<Rightarrow> nat \<Rightarrow> nat \<times> nat" where
  "luma_layout sub rw rh = (if sub then (temp_w rw, temp_w rw * rh) else (rw, rw * rh))"

definition chroma_layout :: "bool \<Rightarrow> nat \<Rightarrow> nat \<Rightarrow> nat \<times> nat" where
  "chroma_layout sub rw rh =
    (if sub then (temp_w rw div 2, (temp_w rw div 2) * (temp_h rh div 2)) else (rw, rw * rh))"

text \<open>The next payload of \<open>bc\<close> bytes, as far as the data goes.\<close>

definition nsc_next :: "bytes \<Rightarrow> nat \<Rightarrow> nat \<Rightarrow> bytes" where
  "nsc_next data off bc = (case slice_get data off (min (off + bc) (length data)) of None \<Rightarrow> [] | Some s \<Rightarrow> s)"

text \<open>The luma and the two chroma planes.\<close>

definition nsc_planes :: "bytes \<Rightarrow> nsc \<Rightarrow> nat \<Rightarrow> nat \<Rightarrow> (bytes \<times> bytes \<times> bytes) option" where
  "nsc_planes data hdr rw rh = do {
     luma \<leftarrow> nsc_plane (nsc_next data 20 (luma_bc hdr)) (snd (luma_layout (subsample hdr) rw rh));
     co \<leftarrow> nsc_plane (nsc_next data (20 + luma_bc hdr) (co_bc hdr)) (snd (chroma_layout (subsample hdr) rw rh));
     cg \<leftarrow> nsc_plane (nsc_next data (20 + luma_bc hdr + co_bc hdr) (cg_bc hdr)) (snd (chroma_layout (subsample hdr) rw rh));
     Some (luma, co, cg) }"

text \<open>\<open>((v as i16) << shift) as i8 as i16\<close>, and a pixel of the YCoCg transform. No sum of these leaves 16 bits.\<close>

definition chroma_value :: "nat \<Rightarrow> u8 \<Rightarrow> int" where
  "chroma_value shift v = sint (ucast (push_bit shift (ucast v :: 16 word)) :: 8 word)"

definition clamp_u8 :: "int \<Rightarrow> u8" where "clamp_u8 z = word_of_int (max 0 (min 255 z))"

definition ycocg :: "nat \<Rightarrow> u8 \<Rightarrow> u8 \<Rightarrow> u8 \<Rightarrow> rgb" where
  "ycocg shift yv co cg =
    (let y = uint yv; cov = chroma_value shift co; cgv = chroma_value shift cg
     in (clamp_u8 (y + cov - cgv), clamp_u8 (y + cgv), clamp_u8 (y - cov - cgv)))"

text \<open>One row: the three slices of the planes, zipped.\<close>

definition nsc_row :: "nsc \<Rightarrow> bytes \<times> bytes \<times> bytes \<Rightarrow> nat \<Rightarrow> nat \<Rightarrow> nat \<Rightarrow> nat \<Rightarrow> rgb list option" where
  "nsc_row hdr planes rw rh cols y =
    (let (luma, co, cg) = planes;
         luma_stride = fst (luma_layout (subsample hdr) rw rh); chroma_stride = fst (chroma_layout (subsample hdr) rw rh)
     in do {
       lrow \<leftarrow> slice_get luma (y * luma_stride) (y * luma_stride + cols);
       (if subsample hdr
        then do {
          corow \<leftarrow> slice_get co (y div 2 * chroma_stride) (y div 2 * chroma_stride + (cols + 1) div 2);
          cgrow \<leftarrow> slice_get cg (y div 2 * chroma_stride) (y div 2 * chroma_stride + (cols + 1) div 2);
          Some (map (\<lambda>(x, yv). ycocg (nsc_shift hdr) yv (corow ! (x div 2)) (cgrow ! (x div 2))) (enumerate 0 lrow)) }
        else do {
          corow \<leftarrow> slice_get co (y * rw) (y * rw + cols);
          cgrow \<leftarrow> slice_get cg (y * rw) (y * rw + cols);
          Some (map (\<lambda>((yv, cov), cgv). ycocg (nsc_shift hdr) yv cov cgv) (zip (zip lrow corow) cgrow)) }) })"

primrec nsc_rows :: "nat list \<Rightarrow> nsc \<Rightarrow> bytes \<times> bytes \<times> bytes \<Rightarrow> nat \<Rightarrow> nat \<Rightarrow> nat \<Rightarrow> nat \<Rightarrow> nat \<Rightarrow> nat \<Rightarrow> bytes \<Rightarrow> bytes option" where
  "nsc_rows [] hdr planes rw rh cols x0 y0 w dst = Some dst"
| "nsc_rows (y # ys) hdr planes rw rh cols x0 y0 w dst = do {
     ps \<leftarrow> nsc_row hdr planes rw rh cols y;
     dst \<leftarrow> paste dst (((y0 + y) * w + x0) * 4) (pixels_bytes ps);
     nsc_rows ys hdr planes rw rh cols x0 y0 w dst }"

definition nscodec_region :: "bytes \<Rightarrow> nat \<Rightarrow> nat \<Rightarrow> nat \<Rightarrow> nat \<Rightarrow> nat \<Rightarrow> nat \<Rightarrow> bytes \<Rightarrow> bytes option" where
  "nscodec_region data x0 y0 rw rh w h dst =
    (if rw = 0 \<or> rh = 0 then Some dst
     else (case nsc_header data of
             None \<Rightarrow> Some dst
           | Some hdr \<Rightarrow> do {
               planes \<leftarrow> nsc_planes data hdr rw rh;
               let rows = min rh (h - y0); cols = min rw (w - x0)
               in if cols = 0 then Some dst else nsc_rows [0..<rows] hdr planes rw rh cols x0 y0 w dst }))"

section \<open>A stream\<close>

record region =
  rg_x :: nat
  rg_y :: nat
  rg_w :: nat
  rg_h :: nat
  rg_id :: u8
  rg_data :: bytes

definition read_region :: "reader \<Rightarrow> (region \<times> reader) option" where
  "read_region r = do {
     (x, r) \<leftarrow> read_u16 r; (y, r) \<leftarrow> read_u16 r; (rw, r) \<leftarrow> read_u16 r; (rh, r) \<leftarrow> read_u16 r;
     (byte_count, r) \<leftarrow> read_u32 r; (sub_id, r) \<leftarrow> read_u8 r; (sub, r) \<leftarrow> read_take (unat byte_count) r;
     Some (\<lparr>rg_x = unat x, rg_y = unat y, rg_w = unat rw, rg_h = unat rh, rg_id = sub_id, rg_data = sub\<rparr>, r) }"

lemma read_region_shrinks: "read_region r = Some (g, r') \<Longrightarrow> length r' < length r"
  by (auto simp: read_region_def split: bind_splits dest!: read_shrinks)

definition decode_region :: "region \<Rightarrow> nat \<Rightarrow> nat \<Rightarrow> bytes \<Rightarrow> bytes option" where
  "decode_region g w h dst =
    (if rg_id g = SUBCODEC_RAW then raw_region (rg_data g) (rg_x g) (rg_y g) (rg_w g) (rg_h g) w h dst
     else if rg_id g = SUBCODEC_NSCODEC then nscodec_region (rg_data g) (rg_x g) (rg_y g) (rg_w g) (rg_h g) w h dst
     else if rg_id g = SUBCODEC_RLEX then rlex_region (rg_data g) (rg_x g) (rg_y g) (rg_w g) (rg_h g) w h dst
     else Some dst)"

function subcodecs :: "reader \<Rightarrow> nat \<Rightarrow> nat \<Rightarrow> bytes \<Rightarrow> bytes option" where
  "subcodecs r w h dst =
    (if length r < 13 then Some dst
     else (case read_region r of
             None \<Rightarrow> Some dst
           | Some (g, r') \<Rightarrow> do { dst \<leftarrow> decode_region g w h dst; subcodecs r' w h dst }))"
  by pat_completeness auto
termination by (relation "measure (\<lambda>(r, w, h, dst). length r)") (auto dest: read_region_shrinks)

declare subcodecs.simps [simp del]

text \<open>The flags, the glyph's index and what follows; a header that ends early is \<open>None\<close>.\<close>

definition stream_header :: "bytes \<Rightarrow> (u8 \<times> nat option \<times> reader) option" where
  "stream_header data = do {
     (flags, r) \<leftarrow> read_u8 data; (seq, r) \<leftarrow> read_u8 r;
     if flags AND FLAG_GLYPH_INDEX \<noteq> 0 then do { (gi, r) \<leftarrow> read_u16 r; Some (flags, Some (unat gi), r) }
     else Some (flags, None, r) }"

text \<open>The sizes of the three layers.\<close>

definition layer_sizes :: "reader \<Rightarrow> ((nat \<times> nat \<times> nat) \<times> reader) option" where
  "layer_sizes r = do {
     (rb, r) \<leftarrow> read_u32 r; (bb, r) \<leftarrow> read_u32 r; (sb, r) \<leftarrow> read_u32 r;
     Some ((unat rb, unat bb, unat sb), r) }"

text \<open>A layer's bytes: a layer of size 0, or one that is not all there, is skipped without reading.\<close>

definition layer :: "nat \<Rightarrow> reader \<Rightarrow> (bytes \<times> reader) option" where
  "layer n r = (if n > 0 then read_take n r else None)"

definition compose_layers :: "nat \<times> nat \<times> nat \<Rightarrow> reader \<Rightarrow> nat \<Rightarrow> nat \<Rightarrow> clear \<Rightarrow> bytes \<Rightarrow> (clear \<times> bytes) option" where
  "compose_layers sizes r w h c dst =
    (let (residual_bytes, bands_bytes, subcodec_bytes) = sizes
     in do {
       (dst, r) \<leftarrow> (case layer residual_bytes r of
                      None \<Rightarrow> Some (dst, r) | Some (s, r) \<Rightarrow> map_option (\<lambda>dst. (dst, r)) (residual s w h dst));
       (c, dst, r) \<leftarrow> (case layer bands_bytes r of
                         None \<Rightarrow> Some (c, dst, r) | Some (s, r) \<Rightarrow> map_option (\<lambda>(c, dst). (c, dst, r)) (bands w h s c dst));
       (case layer subcodec_bytes r of
          None \<Rightarrow> Some (c, dst) | Some (s, r) \<Rightarrow> map_option (\<lambda>dst. (c, dst)) (subcodecs s w h dst)) })"

definition blank_or_seed :: "bytes option \<Rightarrow> nat \<Rightarrow> nat \<Rightarrow> bytes" where
  "blank_or_seed seed w h =
    (case seed of
       Some s \<Rightarrow> if length s = w * h * 4 then s else replicate (w * h * 4) 0
     | None \<Rightarrow> replicate (w * h * 4) 0)"

text \<open>
  The state after the call and its result, where \<open>None\<close> is a malformed stream. The outer \<open>None\<close> is a panic.
\<close>

definition decode_seeded :: "clear \<Rightarrow> bytes \<Rightarrow> u16 \<Rightarrow> u16 \<Rightarrow> bytes option \<Rightarrow> (clear \<times> bytes option) option" where
  "decode_seeded c data wdt hgt seed =
    (let w = unat wdt; h = unat hgt
     in if w = 0 \<or> h = 0 then Some (c, None)
        else (case stream_header data of
                None \<Rightarrow> Some (c, None)
              | Some (flags, glyph, r) \<Rightarrow>
                  (let c = (if flags AND FLAG_CACHE_RESET \<noteq> 0 then c\<lparr>vbar_cursor := 0, short_vbar_cursor := 0\<rparr> else c)
                   in if (case glyph of None \<Rightarrow> False | Some gi \<Rightarrow> gi \<ge> GLYPH_CACHE) then Some (c, None)
                      else if glyph \<noteq> None \<and> flags AND FLAG_GLYPH_HIT \<noteq> 0
                      then do {
                        g \<leftarrow> index_get (glyphs c) (the glyph);
                        (if px_count g < w * h then Some (c, None)
                         else do { tile \<leftarrow> slice_get (px_rgba g) 0 (w * h * 4); Some (c, Some tile) }) }
                      else if glyph \<noteq> None \<and> w * h > 1024 * 1024 then Some (c, None)
                      else (case layer_sizes r of
                              None \<Rightarrow> Some (c, None)
                            | Some (sizes, r) \<Rightarrow> do {
                                (c, dst) \<leftarrow> compose_layers sizes r w h c (blank_or_seed seed w h);
                                c \<leftarrow> (case glyph of
                                        None \<Rightarrow> Some c
                                      | Some gi \<Rightarrow> do {
                                          slots \<leftarrow> set_slot (glyphs c) gi \<lparr>px_count = w * h, px_rgba = dst\<rparr>;
                                          Some (c\<lparr>glyphs := slots\<rparr>) });
                                Some (c, Some dst) }))))"

definition decode :: "clear \<Rightarrow> bytes \<Rightarrow> u16 \<Rightarrow> u16 \<Rightarrow> (clear \<times> bytes option) option" where
  "decode c data wdt hgt = decode_seeded c data wdt hgt None"

text \<open>\<open>13 + byte_count\<close> is a \<open>u32\<close> sum.\<close>

definition needs_seed :: "bytes \<Rightarrow> u16 \<Rightarrow> u16 \<Rightarrow> bool" where
  "needs_seed data wdt hgt =
    (case stream_header data of
       None \<Rightarrow> True
     | Some (flags, glyph, r) \<Rightarrow>
         if glyph \<noteq> None \<and> flags AND FLAG_GLYPH_HIT \<noteq> 0 then False
         else (case do { (rb, r) \<leftarrow> read_u32 r; (bb, r) \<leftarrow> read_u32 r; (sb, r) \<leftarrow> read_u32 r; Some (rb, bb, sb, r) } of
                 None \<Rightarrow> True
               | Some (rb, bb, sb, r) \<Rightarrow>
                   if rb = 0 \<and> bb = 0 \<and> sb > 0
                   then (case do { (x, r) \<leftarrow> read_u16 r; (y, r) \<leftarrow> read_u16 r; (rw, r) \<leftarrow> read_u16 r; (rh, r) \<leftarrow> read_u16 r;
                                   (byte_count, r) \<leftarrow> read_u32 r; (sub_id, r) \<leftarrow> read_u8 r;
                                   Some (x, y, rw, rh, byte_count, sub_id) } of
                           None \<Rightarrow> True
                         | Some (x, y, rw, rh, byte_count, sub_id) \<Rightarrow>
                             \<not> (sb = 13 + byte_count \<and> x = 0 \<and> y = 0 \<and> rw = wdt \<and> rh = hgt \<and>
                                (sub_id = SUBCODEC_RAW \<or> sub_id = SUBCODEC_NSCODEC)))
                   else True))"

end
