(* ===== verification/ClearReference.thy ===== *)
theory ClearReference
  imports ClearCodec
begin

text \<open>
  The ClearCodec decoder as it was before it worked row by row (\<open>clearcodec_ref.rs\<close>, which the tests of \<open>clearcodec.rs\<close>
  compare it with). Where the two files have the same code (reading, residual layer, headers, tokens) the definitions of
  \<open>ClearCodec\<close> stand for both.
\<close>

section \<open>Pixels one at a time\<close>

definition put :: "bytes \<Rightarrow> nat \<Rightarrow> nat \<Rightarrow> nat \<Rightarrow> nat \<Rightarrow> rgb \<Rightarrow> bytes option" where
  "put dst w h x y col = (if x < w \<and> y < h then paste dst ((y * w + x) * 4) (pixel col) else Some dst)"

section \<open>RAW and RLEX\<close>

text \<open>A row of a raw region; no reader is left where the data ends.\<close>

primrec ref_raw_row :: "nat list \<Rightarrow> nat \<Rightarrow> nat \<Rightarrow> nat \<Rightarrow> nat \<Rightarrow> nat \<Rightarrow> reader \<Rightarrow> bytes \<Rightarrow> (bytes \<times> reader option) option" where
  "ref_raw_row [] y x0 y0 w h r dst = Some (dst, Some r)"
| "ref_raw_row (x # xs) y x0 y0 w h r dst =
    (case do { (b, r) \<leftarrow> read_u8 r; (g, r) \<leftarrow> read_u8 r; (rr, r) \<leftarrow> read_u8 r; Some ((rr, g, b), r) } of
       None \<Rightarrow> Some (dst, None)
     | Some (col, r) \<Rightarrow> do { dst \<leftarrow> put dst w h (x0 + x) (y0 + y) col; ref_raw_row xs y x0 y0 w h r dst })"

primrec ref_raw_rows :: "nat list \<Rightarrow> nat \<Rightarrow> nat \<Rightarrow> nat \<Rightarrow> nat \<Rightarrow> nat \<Rightarrow> reader \<Rightarrow> bytes \<Rightarrow> bytes option" where
  "ref_raw_rows [] x0 y0 rw w h r dst = Some dst"
| "ref_raw_rows (y # ys) x0 y0 rw w h r dst = do {
     (dst, left) \<leftarrow> ref_raw_row [0..<rw] y x0 y0 w h r dst;
     (case left of None \<Rightarrow> Some dst | Some r \<Rightarrow> ref_raw_rows ys x0 y0 rw w h r dst) }"

definition ref_raw_region :: "bytes \<Rightarrow> nat \<Rightarrow> nat \<Rightarrow> nat \<Rightarrow> nat \<Rightarrow> nat \<Rightarrow> nat \<Rightarrow> bytes \<Rightarrow> bytes option" where
  "ref_raw_region data x0 y0 rw rh w h dst = ref_raw_rows [0..<rh] x0 y0 rw w h data dst"

definition ref_place :: "nat \<Rightarrow> nat \<Rightarrow> nat \<Rightarrow> nat \<Rightarrow> nat \<Rightarrow> bytes \<Rightarrow> nat \<Rightarrow> rgb \<Rightarrow> bytes option" where
  "ref_place w h x0 y0 rw dst idx col = put dst w h (x0 + idx mod rw) (y0 + idx div rw) col"

primrec ref_run :: "nat \<Rightarrow> nat \<Rightarrow> nat \<Rightarrow> nat \<Rightarrow> nat \<Rightarrow> nat \<Rightarrow> nat \<Rightarrow> rgb \<Rightarrow> nat \<Rightarrow> bytes \<Rightarrow> (nat \<times> bytes) option" where
  "ref_run 0 region w h x0 y0 rw col idx dst = Some (idx, dst)"
| "ref_run (Suc n) region w h x0 y0 rw col idx dst =
    (if idx \<ge> region then Some (idx, dst)
     else do { dst \<leftarrow> ref_place w h x0 y0 rw dst idx col; ref_run n region w h x0 y0 rw col (idx + 1) dst })"

primrec ref_suite :: "nat list \<Rightarrow> rgb list \<Rightarrow> nat \<Rightarrow> nat \<Rightarrow> nat \<Rightarrow> nat \<Rightarrow> nat \<Rightarrow> nat \<Rightarrow> nat \<Rightarrow> bytes \<Rightarrow> (nat \<times> bytes) option" where
  "ref_suite [] palette region w h x0 y0 rw idx dst = Some (idx, dst)"
| "ref_suite (si # sis) palette region w h x0 y0 rw idx dst =
    (if idx \<ge> region then Some (idx, dst)
     else do {
       col \<leftarrow> index_get palette si;
       dst \<leftarrow> ref_place w h x0 y0 rw dst idx col;
       ref_suite sis palette region w h x0 y0 rw (idx + 1) dst })"

function ref_rlex_loop :: "rgb list \<Rightarrow> nat \<Rightarrow> nat \<Rightarrow> nat \<Rightarrow> nat \<Rightarrow> nat \<Rightarrow> nat \<Rightarrow> reader \<Rightarrow> nat \<Rightarrow> bytes \<Rightarrow> bytes option" where
  "ref_rlex_loop palette region w h x0 y0 rw r idx dst =
    (if length r < 2 \<or> idx \<ge> region then Some dst
     else (case rlex_record (length palette) r of
             None \<Rightarrow> Some dst
           | Some ((start_index, stop_index, run), r') \<Rightarrow> do {
               col \<leftarrow> index_get palette start_index;
               (idx, dst) \<leftarrow> ref_run (unat run) region w h x0 y0 rw col idx dst;
               (idx, dst) \<leftarrow> ref_suite [start_index..<stop_index + 1] palette region w h x0 y0 rw idx dst;
               ref_rlex_loop palette region w h x0 y0 rw r' idx dst }))"
  by pat_completeness auto
termination
  by (relation "measure (\<lambda>(palette, region, w, h, x0, y0, rw, r, idx, dst). length r)") (auto dest: rlex_record_shrinks)

declare ref_rlex_loop.simps [simp del]

definition ref_rlex_region :: "bytes \<Rightarrow> nat \<Rightarrow> nat \<Rightarrow> nat \<Rightarrow> nat \<Rightarrow> nat \<Rightarrow> nat \<Rightarrow> bytes \<Rightarrow> bytes option" where
  "ref_rlex_region data x0 y0 rw rh w h dst =
    (case read_palette data of
       None \<Rightarrow> Some dst
     | Some (palette, r) \<Rightarrow> ref_rlex_loop palette (rw * rh) w h x0 y0 rw r 0 dst)"

section \<open>NSCodec\<close>

function ref_nsc_loop :: "bytes \<Rightarrow> nat \<Rightarrow> nat \<Rightarrow> nat \<Rightarrow> bytes \<Rightarrow> (nat \<times> nat \<times> bytes) option" where
  "ref_nsc_loop input orig_size i pos out =
    (if pos + 4 \<ge> orig_size then Some (i, pos, out)
     else (case nsc_token input orig_size i pos of
             (i', None) \<Rightarrow> Some (i', pos, out)
           | (i', Some (val, len)) \<Rightarrow>
               (let stop = min (pos + len) orig_size
                in do { out \<leftarrow> paste out pos (replicate (stop - pos) val); ref_nsc_loop input orig_size i' stop out })))"
  by pat_completeness auto
termination
  by (relation "measure (\<lambda>(input, orig_size, i, pos, out). length input - i)") (auto dest!: sym [THEN nsc_token_moves])

declare ref_nsc_loop.simps [simp del]

definition ref_nsc_rle :: "bytes \<Rightarrow> nat \<Rightarrow> bytes option" where
  "ref_nsc_rle input orig_size =
    (if orig_size \<le> 4 then Some (map (byte_or_0 input) [0..<orig_size])
     else do {
       (i, pos, out) \<leftarrow> ref_nsc_loop input orig_size 0 0 (replicate orig_size 0);
       paste out (orig_size - 4) (map (\<lambda>k. byte_or_0 input (i + k)) [0..<4]) })"

definition ref_nsc_plane :: "bytes \<Rightarrow> nat \<Rightarrow> bytes option" where
  "ref_nsc_plane rle orig_size =
    (if orig_size = 0 then Some []
     else if rle = [] then Some (replicate orig_size 0xFF)
     else if length rle \<ge> orig_size then Some (take orig_size rle)
     else ref_nsc_rle rle orig_size)"

definition ref_nsc_planes :: "bytes \<Rightarrow> nsc \<Rightarrow> nat \<Rightarrow> nat \<Rightarrow> (bytes \<times> bytes \<times> bytes) option" where
  "ref_nsc_planes data hdr rw rh = do {
     luma \<leftarrow> ref_nsc_plane (nsc_next data 20 (luma_bc hdr)) (snd (luma_layout (subsample hdr) rw rh));
     co \<leftarrow> ref_nsc_plane (nsc_next data (20 + luma_bc hdr) (co_bc hdr)) (snd (chroma_layout (subsample hdr) rw rh));
     cg \<leftarrow> ref_nsc_plane (nsc_next data (20 + luma_bc hdr + co_bc hdr) (cg_bc hdr)) (snd (chroma_layout (subsample hdr) rw rh));
     Some (luma, co, cg) }"

definition ref_nsc_pixel :: "nsc \<Rightarrow> bytes \<times> bytes \<times> bytes \<Rightarrow> nat \<Rightarrow> nat \<Rightarrow> nat \<Rightarrow> nat \<Rightarrow> rgb" where
  "ref_nsc_pixel hdr planes rw rh x y =
    (let (luma, co, cg) = planes;
         ci = (if subsample hdr then y div 2 * fst (chroma_layout (subsample hdr) rw rh) + x div 2 else y * rw + x)
     in ycocg (nsc_shift hdr) (byte_or_0 luma (y * fst (luma_layout (subsample hdr) rw rh) + x)) (byte_or_0 co ci) (byte_or_0 cg ci))"

primrec ref_nsc_row ::
  "nat list \<Rightarrow> nat \<Rightarrow> nsc \<Rightarrow> bytes \<times> bytes \<times> bytes \<Rightarrow> nat \<Rightarrow> nat \<Rightarrow> nat \<Rightarrow> nat \<Rightarrow> nat \<Rightarrow> nat \<Rightarrow> bytes \<Rightarrow> bytes option" where
  "ref_nsc_row [] y hdr planes rw rh x0 y0 w h dst = Some dst"
| "ref_nsc_row (x # xs) y hdr planes rw rh x0 y0 w h dst = do {
     dst \<leftarrow> put dst w h (x0 + x) (y0 + y) (ref_nsc_pixel hdr planes rw rh x y);
     ref_nsc_row xs y hdr planes rw rh x0 y0 w h dst }"

primrec ref_nsc_rows :: "nat list \<Rightarrow> nsc \<Rightarrow> bytes \<times> bytes \<times> bytes \<Rightarrow> nat \<Rightarrow> nat \<Rightarrow> nat \<Rightarrow> nat \<Rightarrow> nat \<Rightarrow> nat \<Rightarrow> bytes \<Rightarrow> bytes option" where
  "ref_nsc_rows [] hdr planes rw rh x0 y0 w h dst = Some dst"
| "ref_nsc_rows (y # ys) hdr planes rw rh x0 y0 w h dst = do {
     dst \<leftarrow> ref_nsc_row [0..<rw] y hdr planes rw rh x0 y0 w h dst;
     ref_nsc_rows ys hdr planes rw rh x0 y0 w h dst }"

definition ref_nscodec_region :: "bytes \<Rightarrow> nat \<Rightarrow> nat \<Rightarrow> nat \<Rightarrow> nat \<Rightarrow> nat \<Rightarrow> nat \<Rightarrow> bytes \<Rightarrow> bytes option" where
  "ref_nscodec_region data x0 y0 rw rh w h dst =
    (if rw = 0 \<or> rh = 0 then Some dst
     else (case nsc_header data of
             None \<Rightarrow> Some dst
           | Some hdr \<Rightarrow> do {
               planes \<leftarrow> ref_nsc_planes data hdr rw rh;
               ref_nsc_rows [0..<rh] hdr planes rw rh x0 y0 w h dst }))"

section \<open>Bands\<close>

primrec ref_emit_rows :: "nat list \<Rightarrow> nat \<Rightarrow> nat \<Rightarrow> nat \<Rightarrow> bytes \<Rightarrow> bytes \<Rightarrow> bytes option" where
  "ref_emit_rows [] w dx y_start column dst = Some dst"
| "ref_emit_rows (y # ys) w dx y_start column dst = do {
     bs \<leftarrow> slice_get column (y * 4) (y * 4 + 4);
     dst \<leftarrow> paste dst (((y_start + y) * w + dx) * 4) bs;
     ref_emit_rows ys w dx y_start column dst }"

definition ref_emit_column :: "bytes \<Rightarrow> nat \<Rightarrow> nat \<Rightarrow> nat \<Rightarrow> nat \<Rightarrow> nat \<Rightarrow> bytes \<Rightarrow> bytes option" where
  "ref_emit_column dst w h dx y_start vbar_height column =
    (if dx \<ge> w then Some dst
     else ref_emit_rows [0..<min (min vbar_height (length column div 4)) (h - y_start)] w dx y_start column dst)"

text \<open>As in the decoder, with a copy of the short column in place of its slot.\<close>

definition ref_short_column :: "u16 \<Rightarrow> reader \<Rightarrow> clear \<Rightarrow> (clear \<times> (pixels \<times> nat \<times> reader) option) option" where
  "ref_short_column header r c =
    (if header AND 0xC000 = 0x4000
     then (case index_get (short_vbar c) (unat (header AND 0x3FFF)) of
             None \<Rightarrow> Some (c, None)
           | Some e \<Rightarrow> (case read_u8 r of None \<Rightarrow> Some (c, None) | Some (y_on, r) \<Rightarrow> Some (c, Some (e, unat y_on, r))))
     else (let y_on = unat (header AND 0x00FF); y_off = unat (drop_bit 8 header AND 0x3F); count = y_off - y_on
           in if y_off < y_on then Some (c, None)
              else (case read_take (count * 3) r of
                      None \<Rightarrow> Some (c, None)
                    | Some (bgr, r) \<Rightarrow>
                        (let short = \<lparr>px_count = count, px_rgba = pixels_bytes (bgr_pixels bgr)\<rparr>; cur = short_vbar_cursor c
                         in do { slots \<leftarrow> set_slot (short_vbar c) cur short;
                              Some (c\<lparr>short_vbar := slots, short_vbar_cursor := (cur + 1) mod SHORT_VBAR_CACHE\<rparr>,
                                    Some (short, y_on, r)) }))))"

primrec ref_compose :: "nat list \<Rightarrow> nat \<Rightarrow> bytes \<Rightarrow> nat \<Rightarrow> bytes \<Rightarrow> bytes option" where
  "ref_compose [] height short y_on v = Some v"
| "ref_compose (k # ks) height short y_on v =
    (if y_on + k \<ge> height then Some v
     else if k * 4 + 3 < length short
     then do { v \<leftarrow> paste v ((y_on + k) * 4) (take 4 (drop (k * 4) short)); ref_compose ks height short y_on v }
     else ref_compose ks height short y_on v)"

definition ref_band_column :: "nat \<Rightarrow> nat \<Rightarrow> band \<Rightarrow> nat \<Rightarrow> reader \<Rightarrow> clear \<Rightarrow> bytes \<Rightarrow> (clear \<times> bytes \<times> reader option) option" where
  "ref_band_column w h bd dx r c dst =
    (case read_u16 r of
       None \<Rightarrow> Some (c, dst, None)
     | Some (header, r) \<Rightarrow>
         if header AND 0x8000 \<noteq> 0
         then (case index_get (vbar c) (unat (header AND 0x7FFF)) of
                 None \<Rightarrow> Some (c, dst, None)
               | Some entry \<Rightarrow> do {
                   dst \<leftarrow> ref_emit_column dst w h dx (b_y bd) (b_height bd)
                     (if px_count entry = 0 then background_column (b_height bd) (b_color bd) else px_rgba entry);
                   Some (c, dst, Some r) })
         else do {
           (c, found) \<leftarrow> ref_short_column header r c;
           (case found of
              None \<Rightarrow> Some (c, dst, None)
            | Some (short, y_on, r) \<Rightarrow> do {
                v \<leftarrow> ref_compose [0..<px_count short] (b_height bd) (px_rgba short) y_on (background_column (b_height bd) (b_color bd));
                dst \<leftarrow> ref_emit_column dst w h dx (b_y bd) (b_height bd) v;
                slots \<leftarrow> set_slot (vbar c) (vbar_cursor c) \<lparr>px_count = b_height bd, px_rgba = v\<rparr>;
                Some (c\<lparr>vbar := slots, vbar_cursor := (vbar_cursor c + 1) mod VBAR_CACHE\<rparr>, dst, Some r) }) })"

primrec ref_band_columns :: "nat \<Rightarrow> nat \<Rightarrow> nat \<Rightarrow> band \<Rightarrow> nat \<Rightarrow> reader \<Rightarrow> clear \<Rightarrow> bytes \<Rightarrow> (clear \<times> bytes \<times> reader option) option" where
  "ref_band_columns 0 w h bd dx r c dst = Some (c, dst, Some r)"
| "ref_band_columns (Suc n) w h bd dx r c dst = do {
     (c, dst, left) \<leftarrow> ref_band_column w h bd dx r c dst;
     (case left of None \<Rightarrow> Some (c, dst, None) | Some r \<Rightarrow> ref_band_columns n w h bd (dx + 1) r c dst) }"

lemma ref_short_column_shrinks: "ref_short_column header r c = Some (c', Some (i, y, r')) \<Longrightarrow> length r' \<le> length r"
  by (auto simp: ref_short_column_def Let_def split: bind_splits if_splits option.splits dest!: read_shrinks)

lemma ref_band_column_shrinks: "ref_band_column w h bd dx r c dst = Some (c', dst', Some r') \<Longrightarrow> length r' \<le> length r"
  by (auto simp: ref_band_column_def split: bind_splits if_splits option.splits dest!: read_shrinks ref_short_column_shrinks)

lemma ref_band_columns_shrinks: "ref_band_columns n w h bd dx r c dst = Some (c', dst', Some r') \<Longrightarrow> length r' \<le> length r"
  by (induction n arbitrary: dx r c dst) (fastforce split: bind_splits option.splits dest: ref_band_column_shrinks)+

function ref_bands :: "nat \<Rightarrow> nat \<Rightarrow> reader \<Rightarrow> clear \<Rightarrow> bytes \<Rightarrow> (clear \<times> bytes) option" where
  "ref_bands w h r c dst =
    (if length r < 11 then Some (c, dst)
     else (case band_header r of
             None \<Rightarrow> Some (c, dst)
           | Some (bd, r) \<Rightarrow>
               (case ref_band_columns (b_count bd) w h bd (b_x bd) r c dst of
                  None \<Rightarrow> None
                | Some (c, dst, None) \<Rightarrow> Some (c, dst)
                | Some (c, dst, Some r) \<Rightarrow> ref_bands w h r c dst)))"
  by pat_completeness auto
termination by (relation "measure (\<lambda>(w, h, r, c, dst). length r)") (auto dest!: band_header_shrinks ref_band_columns_shrinks)

declare ref_bands.simps [simp del]

section \<open>A stream\<close>

definition ref_decode_region :: "region \<Rightarrow> nat \<Rightarrow> nat \<Rightarrow> bytes \<Rightarrow> bytes option" where
  "ref_decode_region g w h dst =
    (if rg_id g = SUBCODEC_RAW then ref_raw_region (rg_data g) (rg_x g) (rg_y g) (rg_w g) (rg_h g) w h dst
     else if rg_id g = SUBCODEC_NSCODEC then ref_nscodec_region (rg_data g) (rg_x g) (rg_y g) (rg_w g) (rg_h g) w h dst
     else if rg_id g = SUBCODEC_RLEX then ref_rlex_region (rg_data g) (rg_x g) (rg_y g) (rg_w g) (rg_h g) w h dst
     else Some dst)"

function ref_subcodecs :: "reader \<Rightarrow> nat \<Rightarrow> nat \<Rightarrow> bytes \<Rightarrow> bytes option" where
  "ref_subcodecs r w h dst =
    (if length r < 13 then Some dst
     else (case read_region r of
             None \<Rightarrow> Some dst
           | Some (g, r') \<Rightarrow> do { dst \<leftarrow> ref_decode_region g w h dst; ref_subcodecs r' w h dst }))"
  by pat_completeness auto
termination by (relation "measure (\<lambda>(r, w, h, dst). length r)") (auto dest: read_region_shrinks)

declare ref_subcodecs.simps [simp del]

definition ref_compose_layers :: "nat \<times> nat \<times> nat \<Rightarrow> reader \<Rightarrow> nat \<Rightarrow> nat \<Rightarrow> clear \<Rightarrow> bytes \<Rightarrow> (clear \<times> bytes) option" where
  "ref_compose_layers sizes r w h c dst =
    (let (residual_bytes, bands_bytes, subcodec_bytes) = sizes
     in do {
       (dst, r) \<leftarrow> (case layer residual_bytes r of
                      None \<Rightarrow> Some (dst, r) | Some (s, r) \<Rightarrow> map_option (\<lambda>dst. (dst, r)) (residual s w h dst));
       (c, dst, r) \<leftarrow> (case layer bands_bytes r of
                         None \<Rightarrow> Some (c, dst, r) | Some (s, r) \<Rightarrow> map_option (\<lambda>(c, dst). (c, dst, r)) (ref_bands w h s c dst));
       (case layer subcodec_bytes r of
          None \<Rightarrow> Some (c, dst) | Some (s, r) \<Rightarrow> map_option (\<lambda>dst. (c, dst)) (ref_subcodecs s w h dst)) })"

definition ref_decode_seeded :: "clear \<Rightarrow> bytes \<Rightarrow> u16 \<Rightarrow> u16 \<Rightarrow> bytes option \<Rightarrow> (clear \<times> bytes option) option" where
  "ref_decode_seeded c data wdt hgt seed =
    (let w = unat wdt; h = unat hgt
     in if w = 0 \<or> h = 0 then Some (c, None)
        else (case stream_header data of
                None \<Rightarrow> Some (c, None)
              | Some (flags, glyph, r) \<Rightarrow>
                  (let c = (if flags AND FLAG_CACHE_RESET \<noteq> 0 then c\<lparr>vbar_cursor := 0, short_vbar_cursor := 0\<rparr> else c)
                   in if (case glyph of None \<Rightarrow> False | Some gi \<Rightarrow> gi \<ge> GLYPH_CACHE) then Some (c, None)
                      else if glyph \<noteq> None \<and> flags AND FLAG_GLYPH_HIT \<noteq> 0
                      then do {
                        g \<leftarrow> index_get (glyphs c) (the glyph);
                        (if px_count g < w * h then Some (c, None)
                         else do { tile \<leftarrow> slice_get (px_rgba g) 0 (w * h * 4); Some (c, Some tile) }) }
                      else if glyph \<noteq> None \<and> w * h > 1024 * 1024 then Some (c, None)
                      else (case layer_sizes r of
                              None \<Rightarrow> Some (c, None)
                            | Some (sizes, r) \<Rightarrow> do {
                                (c, dst) \<leftarrow> ref_compose_layers sizes r w h c (blank_or_seed seed w h);
                                c \<leftarrow> (case glyph of
                                        None \<Rightarrow> Some c
                                      | Some gi \<Rightarrow> do {
                                          slots \<leftarrow> set_slot (glyphs c) gi \<lparr>px_count = w * h, px_rgba = dst\<rparr>;
                                          Some (c\<lparr>glyphs := slots\<rparr>) });
                                Some (c, Some dst) }))))"

end
