(* ===== verification/ClearEquivalence.thy ===== *)
theory ClearEquivalence
  imports ClearReference
begin

text \<open>
  The row-wise ClearCodec decoder is the pixel-wise one: both write the same sequence of pixels, and neither panics.
\<close>

section \<open>Sequences of pixels\<close>

lemma length_pixel [simp]: "length (pixel c) = 4"
  by (cases c) (simp add: pixel_def)

lemma length_pixels_bytes [simp]: "length (pixels_bytes ps) = 4 * length ps"
  by (induction ps) (simp_all add: pixels_bytes_def)

lemma pixels_bytes_simps [simp]:
  "pixels_bytes [] = []" "pixels_bytes (p # ps) = pixel p @ pixels_bytes ps" "pixels_bytes (ps @ qs) = pixels_bytes ps @ pixels_bytes qs"
  by (simp_all add: pixels_bytes_def)

lemma paste_length: "paste dst off bs = Some d \<Longrightarrow> length d = length dst"
  by (auto simp: paste_def split: if_splits)

lemma paste_Nil [simp]: "off \<le> length dst \<Longrightarrow> paste dst off [] = Some dst"
  by (simp add: paste_def)

lemma paste_append:
  "paste dst off (xs @ ys) = do { d \<leftarrow> paste dst off xs; paste d (off + length xs) ys }"
  by (auto simp: paste_def ac_simps)

text \<open>A pixel to be put, and the puts one after another.\<close>

type_synonym placed = "nat \<times> nat \<times> rgb"

primrec puts :: "nat \<Rightarrow> nat \<Rightarrow> placed list \<Rightarrow> bytes \<Rightarrow> bytes option" where
  "puts w h [] dst = Some dst"
| "puts w h (p # ps) dst = do { dst \<leftarrow> put dst w h (fst p) (fst (snd p)) (snd (snd p)); puts w h ps dst }"

lemma puts_append: "puts w h (ps @ qs) dst = do { dst \<leftarrow> puts w h ps dst; puts w h qs dst }"
  by (induction ps arbitrary: dst) simp_all

lemma put_in_tile:
  fixes x w y h :: nat
  assumes "x < w" "y < h"
  shows "(y * w + x) * 4 + 4 \<le> w * h * 4"
proof -
  have "y * w + x < Suc y * w" using assms by simp
  also have "\<dots> \<le> h * w" using assms by (intro mult_le_mono1) simp
  finally show ?thesis by (simp add: mult.commute)
qed

lemma put_ok: "length dst = w * h * 4 \<Longrightarrow> \<exists>d. put dst w h x y col = Some d \<and> length d = w * h * 4"
  using put_in_tile [of x w y h] by (auto simp: put_def paste_def)

lemma puts_ok: "length dst = w * h * 4 \<Longrightarrow> \<exists>d. puts w h ps dst = Some d \<and> length d = w * h * 4"
proof (induction ps arbitrary: dst)
  case (Cons p ps)
  from put_ok [OF Cons.prems] obtain d where "put dst w h (fst p) (fst (snd p)) (snd (snd p)) = Some d" "length d = w * h * 4" by blast
  with Cons.IH [of d] show ?case by simp
qed simp

primrec row_list :: "nat \<Rightarrow> nat \<Rightarrow> rgb list \<Rightarrow> placed list" where
  "row_list x y [] = []"
| "row_list x y (c # cs) = (x, y, c) # row_list (x + 1) y cs"

lemma row_list_append: "row_list x y (as @ bs) = row_list x y as @ row_list (x + length as) y bs"
  by (induction as arbitrary: x) simp_all

lemma puts_row_outside: "x \<ge> w \<or> y \<ge> h \<Longrightarrow> puts w h (row_list x y cs) dst = Some dst"
  by (induction cs arbitrary: x) (auto simp: put_def)

text \<open>A row at once is its pixels one by one, cut where the tile ends.\<close>

lemma puts_row:
  assumes "length dst = w * h * 4" "x < w" "y < h"
  shows "puts w h (row_list x y cs) dst = paste dst ((y * w + x) * 4) (pixels_bytes (take (w - x) cs))"
  using assms
proof (induction cs arbitrary: x dst)
  case Nil
  then show ?case using put_in_tile [of x w y h] by simp
next
  case (Cons c cs)
  from Cons.prems obtain d where d: "put dst w h x y c = Some d" "length d = w * h * 4" using put_ok by blast
  then have p: "paste dst ((y * w + x) * 4) (pixel c) = Some d" using Cons.prems by (simp add: put_def)
  have "w - x = Suc (w - (x + 1))" using Cons.prems by simp
  then have t: "take (w - x) (c # cs) = c # take (w - (x + 1)) cs" by (simp only: take_Suc_Cons)
  have r: "paste dst ((y * w + x) * 4) (pixels_bytes (take (w - x) (c # cs))) = paste d ((y * w + x) * 4 + 4) (pixels_bytes (take (w - (x + 1)) cs))"
    unfolding t pixels_bytes_simps paste_append p by simp
  show ?case
  proof (cases "x + 1 < w")
    case True
    from Cons.IH [OF d(2) True Cons.prems(3)] show ?thesis unfolding r using d(1) by (simp add: algebra_simps)
  next
    case False
    then show ?thesis unfolding r using d Cons.prems put_in_tile [of x w y h] by (simp add: puts_row_outside)
  qed
qed

lemma puts_span:
  assumes "length dst = w * h * 4"
  shows "puts w h (row_list (x0 + x) (y0 + y) cs) dst =
    (case row_span w h x0 y0 x y (length cs) of
       None \<Rightarrow> Some dst | Some (off, vis) \<Rightarrow> paste dst off (pixels_bytes (take vis cs)))"
proof (cases "x0 + x < w \<and> y0 + y < h \<and> cs \<noteq> []")
  case True
  have "take (min (length cs) (w - (x0 + x))) cs = take (w - (x0 + x)) cs" by (simp add: min_def)
  then show ?thesis using True puts_row [OF assms, of "x0 + x" "y0 + y" cs] by (simp add: row_span_def Let_def)
next
  case False
  then show ?thesis by (cases "cs = []") (auto simp: row_span_def Let_def puts_row_outside)
qed

text \<open>The pixels of a region in raster order, from pixel \<open>idx\<close> on.\<close>

primrec raster :: "nat \<Rightarrow> nat \<Rightarrow> nat \<Rightarrow> nat \<Rightarrow> rgb list \<Rightarrow> placed list" where
  "raster x0 y0 rw idx [] = []"
| "raster x0 y0 rw idx (c # cs) = (x0 + idx mod rw, y0 + idx div rw, c) # raster x0 y0 rw (idx + 1) cs"

lemma raster_append: "raster x0 y0 rw idx (as @ bs) = raster x0 y0 rw idx as @ raster x0 y0 rw (idx + length as) bs"
  by (induction as arbitrary: idx) simp_all

lemma raster_row: "x + length cs \<le> rw \<Longrightarrow> raster x0 y0 rw (y * rw + x) cs = row_list (x0 + x) (y0 + y) cs"
proof (induction cs arbitrary: x)
  case (Cons c cs)
  then have "(y * rw + x) mod rw = x" "(y * rw + x) div rw = y" by simp_all
  with Cons.IH [of "x + 1"] Cons.prems show ?case by simp
qed simp

section \<open>RAW\<close>

lemma length_bgr_pixels [simp]: "length (bgr_pixels bs) = length bs div 3"
  by (induction bs rule: bgr_pixels.induct) auto

lemma Suc_3: "Suc k * 3 = Suc (Suc (Suc (k * 3)))"
  by simp

lemma bgr_pixels_drop: "bgr_pixels (drop (k * 3) bs) = drop k (bgr_pixels bs)"
proof (induction k arbitrary: bs)
  case (Suc k)
  show ?case unfolding Suc_3 using Suc by (cases bs rule: bgr_pixels.cases) simp_all
qed simp

lemma bgr_pixels_take: "bgr_pixels (take (k * 3) bs) = take k (bgr_pixels bs)"
proof (induction k arbitrary: bs)
  case (Suc k)
  show ?case unfolding Suc_3 using Suc by (cases bs rule: bgr_pixels.cases) simp_all
qed simp

lemma raw_rows_puts:
  fixes data :: bytes
  defines "cs \<equiv> bgr_pixels data"
  assumes "length dst = w * h * 4" "n \<le> length data div 3" "n \<le> rw * rh" "y \<le> rh"
  shows "raw_rows [y..<rh] data n x0 y0 rw w h dst = puts w h (raster x0 y0 rw (y * rw) (drop (y * rw) (take n cs))) dst"
  using assms(2,5)
proof (induction "rh - y" arbitrary: y dst)
  case 0
  then have "n \<le> y * rw" using assms(4) by (simp add: mult.commute)
  then show ?case using 0 by simp
next
  case (Suc d)
  then have y: "y < rh" by simp
  then have u: "[y..<rh] = y # [y + 1..<rh]" by (simp add: upt_conv_Cons)
  let ?row = "take rw (drop (y * rw) (take n cs))"
  show ?case
  proof (cases "y * rw \<ge> n")
    case True
    then show ?thesis unfolding u by simp
  next
    case False
    have l: "length ?row = min (n - y * rw) rw" using assms(3) by (simp add: cs_def min.commute)
    have sp: "drop (y * rw) (take n cs) = ?row @ drop ((y + 1) * rw) (take n cs)"
    proof -
      have "drop ((y + 1) * rw) (take n cs) = drop rw (drop (y * rw) (take n cs))" by (simp only: drop_drop) (simp add: algebra_simps)
      then show ?thesis by (simp only: append_take_drop_id)
    qed
    have rr: "raster x0 y0 rw (y * rw) ?row = row_list x0 (y0 + y) ?row"
      using raster_row [of 0 ?row rw x0 y0 y] by simp
    have rest: "raster x0 y0 rw (y * rw + length ?row) (drop ((y + 1) * rw) (take n cs)) =
        raster x0 y0 rw ((y + 1) * rw) (drop ((y + 1) * rw) (take n cs))"
    proof (cases "rw \<le> n - y * rw")
      case True
      then show ?thesis using l by (simp add: algebra_simps)
    next
      case False
      then have "drop ((y + 1) * rw) (take n cs) = []" by (simp add: algebra_simps)
      then show ?thesis by simp
    qed
    have split: "puts w h (raster x0 y0 rw (y * rw) (drop (y * rw) (take n cs))) dst =
        do { dst \<leftarrow> puts w h (row_list x0 (y0 + y) ?row) dst;
             puts w h (raster x0 y0 rw ((y + 1) * rw) (drop ((y + 1) * rw) (take n cs))) dst }"
      by (subst sp) (simp only: raster_append puts_append rr rest)
    have IH: "raw_rows [y + 1..<rh] data n x0 y0 rw w h dst' =
        puts w h (raster x0 y0 rw ((y + 1) * rw) (drop ((y + 1) * rw) (take n cs))) dst'" if "length dst' = w * h * 4" for dst'
      using Suc.hyps(1) [of "y + 1" dst'] Suc.hyps(2) y that by simp
    note sp_row = puts_span [OF Suc.prems(1), of x0 0 y0 y ?row, unfolded l add_0_right]
    show ?thesis
    proof (cases "row_span w h x0 y0 0 y (min (n - y * rw) rw)")
      case None
      then show ?thesis unfolding u split sp_row using False IH Suc.prems(1) by (simp add: Let_def)
    next
      case (Some p)
      obtain off vis where p: "p = (off, vis)" by (cases p)
      have vis: "vis \<le> min (n - y * rw) rw" using Some p by (auto simp: row_span_def Let_def split: if_splits)
      have src: "slice_get data (y * rw * 3) ((y * rw + vis) * 3) = Some (take (vis * 3) (drop (y * rw * 3) data))"
      proof -
        have "vis \<le> n - y * rw" using vis by simp
        then have "y * rw + vis \<le> length data div 3" using assms(3) False by linarith
        then have "(y * rw + vis) * 3 \<le> length data" by simp
        then show ?thesis by (simp add: slice_get_def algebra_simps)
      qed
      have "take vis (drop (y * rw) cs) = take vis ?row"
      proof -
        have "vis \<le> rw" "vis \<le> n - y * rw" using vis by simp_all
        then show ?thesis by (simp add: drop_take min.absorb1)
      qed
      then have "bgr_pixels (take (vis * 3) (drop (y * rw * 3) data)) = take vis ?row"
        by (simp add: bgr_pixels_take bgr_pixels_drop cs_def)
      then show ?thesis unfolding u split sp_row Some p
        using False src IH Suc.prems(1) Some p
        by (cases "paste dst off (pixels_bytes (take vis ?row))") (auto simp: Let_def dest: paste_length)
    qed
  qed
qed

lemma read_bgr:
  "do { (b, r) \<leftarrow> read_u8 r; (g, r) \<leftarrow> read_u8 r; (rr, r) \<leftarrow> read_u8 r; Some ((rr, g, b), r) } =
   (case bgr_pixels r of [] \<Rightarrow> None | c # cs \<Rightarrow> Some (c, drop 3 r))"
  by (cases r rule: bgr_pixels.cases) simp_all

lemma bgr_pixels_tl: "bgr_pixels r = c # cs \<Longrightarrow> bgr_pixels (drop 3 r) = cs \<and> length r = length (drop 3 r) + 3"
  by (cases r rule: bgr_pixels.cases) auto

lemma ref_raw_row_puts:
  "x \<le> rw \<Longrightarrow> ref_raw_row [x..<rw] y x0 y0 w h r dst =
   do { dst \<leftarrow> puts w h (row_list (x0 + x) (y0 + y) (take (rw - x) (bgr_pixels r))) dst;
        Some (dst, if rw - x \<le> length r div 3 then Some (drop ((rw - x) * 3) r) else None) }"
proof (induction "rw - x" arbitrary: x r dst)
  case (Suc d)
  then have u: "[x..<rw] = x # [x + 1..<rw]" "rw - x = Suc (rw - (x + 1))" by (simp_all add: upt_conv_Cons)
  show ?case
  proof (cases "bgr_pixels r")
    case Nil
    then have "length r div 3 = 0" using length_bgr_pixels [of r] by simp
    then show ?thesis unfolding u(1) using Nil Suc.hyps(2) by (simp add: read_bgr)
  next
    case (Cons c cs)
    from bgr_pixels_tl [OF Cons] have t: "bgr_pixels (drop 3 r) = cs" "length r = length (drop 3 r) + 3" by simp_all
    define L where "L = (if rw - x \<le> length r div 3 then Some (drop ((rw - x) * 3) r) else None)"
    have L: "L = (if rw - (x + 1) \<le> length (drop 3 r) div 3 then Some (drop ((rw - (x + 1)) * 3) (drop 3 r)) else None)"
    proof -
      have "(m + 3) div 3 = Suc (m div 3)" for m :: nat by simp
      then have "length r div 3 = Suc (length (drop 3 r) div 3)" using t(2) by (simp only:)
      moreover have "drop ((rw - x) * 3) r = drop ((rw - (x + 1)) * 3) (drop 3 r)" using u(2) by (simp add: algebra_simps)
      ultimately show ?thesis by (simp only: L_def u(2) Suc_le_mono)
    qed
    have IH: "ref_raw_row [x + 1..<rw] y x0 y0 w h (drop 3 r) dst' =
        do { dst \<leftarrow> puts w h (row_list (x0 + x + 1) (y0 + y) (take (rw - (x + 1)) cs)) dst'; Some (dst, L) }" for dst'
      using Suc.hyps(1) [of "x + 1" "drop 3 r" dst'] Suc.hyps(2) Suc.prems unfolding t(1) L [symmetric] by simp
    show ?thesis unfolding L_def [symmetric] unfolding u(1) ref_raw_row.simps read_bgr Cons u(2)
      by (cases "put dst w h (x0 + x) (y0 + y) c") (simp_all add: IH [unfolded One_nat_def add_Suc_right add_0_right])
  qed
qed simp

lemma raster_empty_row: "length cs \<le> rw \<Longrightarrow> raster x0 y0 rw (y * rw) cs = row_list x0 (y0 + y) cs"
  using raster_row [of 0 cs rw x0 y0 y] by simp

lemma ref_raw_rows_puts:
  "y \<le> rh \<Longrightarrow> ref_raw_rows [y..<rh] x0 y0 rw w h r dst =
   puts w h (raster x0 y0 rw (y * rw) (take ((rh - y) * rw) (bgr_pixels r))) dst"
proof (induction "rh - y" arbitrary: y r dst)
  case (Suc d)
  then have u: "[y..<rh] = y # [y + 1..<rh]" "rh - y = Suc (rh - (y + 1))" by (simp_all add: upt_conv_Cons)
  let ?cs = "bgr_pixels r"
  have row: "ref_raw_row [0..<rw] y x0 y0 w h r dst = do { dst \<leftarrow> puts w h (row_list x0 (y0 + y) (take rw ?cs)) dst;
      Some (dst, if rw \<le> length r div 3 then Some (drop (rw * 3) r) else None) }"
    using ref_raw_row_puts [of 0 rw y x0 y0 w h r dst] by simp
  have t: "take ((rh - y) * rw) ?cs = take rw ?cs @ take ((rh - (y + 1)) * rw) (drop rw ?cs)"
    unfolding u(2) by (simp add: take_add [symmetric] algebra_simps)
  show ?case
  proof (cases "rw \<le> length r div 3")
    case True
    have IH: "ref_raw_rows [y + 1..<rh] x0 y0 rw w h (drop (rw * 3) r) dst' =
        puts w h (raster x0 y0 rw ((y + 1) * rw) (take ((rh - (y + 1)) * rw) (drop rw ?cs))) dst'" for dst'
      using Suc.hyps(1) [of "y + 1" "drop (rw * 3) r" dst'] Suc.hyps(2) Suc.prems by (simp add: bgr_pixels_drop)
    have l: "length (take rw ?cs) = rw" "y * rw + rw = (y + 1) * rw" using True by simp_all
    have e: "raster x0 y0 rw (y * rw) (take rw ?cs) = row_list x0 (y0 + y) (take rw ?cs)" by (rule raster_empty_row) simp
    have "raster x0 y0 rw (y * rw) (take ((rh - y) * rw) ?cs) =
        row_list x0 (y0 + y) (take rw ?cs) @ raster x0 y0 rw ((y + 1) * rw) (take ((rh - (y + 1)) * rw) (drop rw ?cs))"
      unfolding t raster_append l e ..
    then show ?thesis unfolding u(1) ref_raw_rows.simps row using True IH
      by (cases "puts w h (row_list x0 (y0 + y) (take rw ?cs)) dst") (simp_all add: puts_append)
  next
    case False
    then have "drop rw ?cs = []" by simp
    then have "raster x0 y0 rw (y * rw) (take ((rh - y) * rw) ?cs) = row_list x0 (y0 + y) (take rw ?cs)"
      unfolding t by (simp add: raster_empty_row)
    then show ?thesis unfolding u(1) ref_raw_rows.simps row using False
      by (cases "puts w h (row_list x0 (y0 + y) (take rw ?cs)) dst") simp_all
  qed
qed simp

lemma raw_region_puts:
  assumes "length dst = w * h * 4"
  shows "raw_region data x0 y0 rw rh w h dst = puts w h (raster x0 y0 rw 0 (take (rw * rh) (bgr_pixels data))) dst"
    and "ref_raw_region data x0 y0 rw rh w h dst = puts w h (raster x0 y0 rw 0 (take (rw * rh) (bgr_pixels data))) dst"
proof -
  have "take (min (length data div 3) (rw * rh)) (bgr_pixels data) = take (rw * rh) (bgr_pixels data)" by (simp add: min_def)
  then show "raw_region data x0 y0 rw rh w h dst = puts w h (raster x0 y0 rw 0 (take (rw * rh) (bgr_pixels data))) dst"
    using raw_rows_puts [OF assms, of "min (length data div 3) (rw * rh)" data rw rh 0] by (simp add: raw_region_def)
  show "ref_raw_region data x0 y0 rw rh w h dst = puts w h (raster x0 y0 rw 0 (take (rw * rh) (bgr_pixels data))) dst"
    using ref_raw_rows_puts [of 0 rh x0 y0 rw w h data dst] by (simp add: ref_raw_region_def mult.commute)
qed

section \<open>RLEX\<close>

lemma span_fill_puts:
  "length dst = w * h * 4 \<Longrightarrow> x < rw \<Longrightarrow>
   span_fill w h x0 y0 rw n col (x, y) dst =
     do { dst \<leftarrow> puts w h (raster x0 y0 rw (y * rw + x) (replicate n col)) dst;
          Some (((y * rw + x + n) mod rw, (y * rw + x + n) div rw), dst) }"
proof (induction n arbitrary: x y dst rule: less_induct)
  case (less n)
  show ?case
  proof (cases "n = 0")
    case True
    then show ?thesis using less.prems by (subst span_fill.simps) simp
  next
    case False
    define seg where "seg = min n (rw - x)"
    define nx where "nx = (if x + seg = rw then 0 else x + seg)"
    define ny where "ny = (if x + seg = rw then y + 1 else y)"
    have seg: "0 < seg" "seg \<le> n" "x + seg \<le> rw" using False less.prems by (auto simp: seg_def)
    have n: "nx < rw" "ny * rw + nx = y * rw + x + seg" using seg less.prems by (auto simp: nx_def ny_def)
    have r: "replicate n col = replicate seg col @ replicate (n - seg) col" using seg by (simp add: replicate_add [symmetric])
    have ra: "raster x0 y0 rw (y * rw + x) (replicate n col) =
        row_list (x0 + x) (y0 + y) (replicate seg col) @ raster x0 y0 rw (ny * rw + nx) (replicate (n - seg) col)"
      unfolding r raster_append using seg(3) by (simp add: raster_row n(2))
    have IH: "span_fill w h x0 y0 rw (n - seg) col (nx, ny) dst' =
        do { dst \<leftarrow> puts w h (raster x0 y0 rw (ny * rw + nx) (replicate (n - seg) col)) dst';
             Some (((y * rw + x + n) mod rw, (y * rw + x + n) div rw), dst) }" if "length dst' = w * h * 4" for dst'
      using less.IH [of "n - seg" dst' nx ny] seg n that False by (simp add: add.assoc)
    note sp = puts_span [OF less.prems(1), of x0 x y0 y "replicate seg col", unfolded length_replicate]
    have unf: "span_fill w h x0 y0 rw n col (x, y) dst = (case row_span w h x0 y0 x y seg of
        None \<Rightarrow> span_fill w h x0 y0 rw (n - seg) col (nx, ny) dst
      | Some (off, vis) \<Rightarrow> do { dst \<leftarrow> paste dst off (pixels_bytes (replicate vis col));
          span_fill w h x0 y0 rw (n - seg) col (nx, ny) dst })"
      using False less.prems(2) by (subst span_fill.simps) (cases "x + seg = rw"; simp add: Let_def seg_def [symmetric] nx_def ny_def split: option.split)
    show ?thesis
    proof (cases "row_span w h x0 y0 x y seg")
      case None
      then show ?thesis unfolding unf ra puts_append sp using IH less.prems(1) by simp
    next
      case (Some p)
      obtain off vis where p: "p = (off, vis)" by (cases p)
      have "vis \<le> seg" using Some p by (auto simp: row_span_def Let_def split: if_splits)
      then have "take vis (replicate seg col) = replicate vis col" by (simp add: min_def)
      then show ?thesis unfolding unf ra puts_append sp Some p using IH less.prems(1)
        by (cases "paste dst off (pixels_bytes (replicate vis col))") (auto dest: paste_length)
    qed
  qed
qed

lemma ref_run_puts:
  "idx \<le> region \<Longrightarrow> ref_run n region w h x0 y0 rw col idx dst =
   do { dst \<leftarrow> puts w h (raster x0 y0 rw idx (replicate (min n (region - idx)) col)) dst; Some (idx + min n (region - idx), dst) }"
proof (induction n arbitrary: idx dst)
  case (Suc n)
  show ?case
  proof (cases "idx = region")
    case False
    then have i: "idx < region" "min (Suc n) (region - idx) = Suc (min n (region - (idx + 1)))" using Suc.prems by simp_all
    then show ?thesis using Suc.IH [of "idx + 1"] by (cases "ref_place w h x0 y0 rw dst idx col") (simp_all add: ref_place_def)
  qed simp
qed simp

lemma span_fill_one:
  assumes "length dst = w * h * 4" "0 < rw"
  shows "span_fill w h x0 y0 rw 1 col (idx mod rw, idx div rw) dst =
    do { dst \<leftarrow> ref_place w h x0 y0 rw dst idx col; Some (((idx + 1) mod rw, (idx + 1) div rw), dst) }"
  using span_fill_puts [OF assms(1), of "idx mod rw" rw x0 y0 1 col "idx div rw"] assms(2)
  by (cases "ref_place w h x0 y0 rw dst idx col") (simp_all add: ref_place_def)

lemma ref_place_length: "length dst = w * h * 4 \<Longrightarrow> ref_place w h x0 y0 rw dst idx col = Some d \<Longrightarrow> length d = w * h * 4"
  using put_ok [of dst w h "x0 + idx mod rw" "y0 + idx div rw" col] unfolding ref_place_def by auto

lemma rlex_suite_ref:
  "length dst = w * h * 4 \<Longrightarrow> 0 < rw \<Longrightarrow>
   rlex_suite sis palette region w h x0 y0 rw idx (idx mod rw, idx div rw) dst =
     map_option (\<lambda>(i, d). (i, (i mod rw, i div rw), d)) (ref_suite sis palette region w h x0 y0 rw idx dst)"
proof (induction sis arbitrary: idx dst)
  case (Cons si sis)
  show ?case
  proof (cases "index_get palette si")
    case (Some col)
    show ?thesis
    proof (cases "ref_place w h x0 y0 rw dst idx col")
      case None
      then show ?thesis using Some span_fill_one [OF Cons.prems] by simp
    next
      case (Some d)
      note d = ref_place_length [OF Cons.prems(1) Some]
      show ?thesis using \<open>index_get palette si = Some col\<close> Some span_fill_one [OF Cons.prems] Cons.IH [OF d Cons.prems(2), of "idx + 1"] by simp
    qed
  qed simp
qed simp

text \<open>What the loop asks of its palette, and that it never panics.\<close>

lemma ref_suite_ok:
  "length dst = w * h * 4 \<Longrightarrow> \<forall>si \<in> set sis. si < length palette \<Longrightarrow>
   \<exists>i d. ref_suite sis palette region w h x0 y0 rw idx dst = Some (i, d) \<and> length d = w * h * 4 \<and> idx \<le> i \<and> (idx \<le> region \<longrightarrow> i \<le> region)"
proof (induction sis arbitrary: idx dst)
  case (Cons si sis)
  from Cons.prems have p: "index_get palette si = Some (palette ! si)" by (simp add: index_get_def)
  obtain d where d: "ref_place w h x0 y0 rw dst idx (palette ! si) = Some d" "length d = w * h * 4"
    using put_ok [OF Cons.prems(1)] unfolding ref_place_def by blast
  from Cons.IH [OF d(2), of "idx + 1"] Cons.prems p d show ?case by auto
qed simp

lemma rlex_record_bounds: "rlex_record n r = Some ((a, b, run), r') \<Longrightarrow> a \<le> b \<and> b < n"
  by (auto simp: rlex_record_def Let_def split: bind_splits if_splits)

lemma rlex_loop_ref:
  assumes "0 < rw"
  shows "length dst = w * h * 4 \<Longrightarrow> idx \<le> region \<Longrightarrow>
   rlex_loop palette region w h x0 y0 rw r idx (idx mod rw, idx div rw) dst = ref_rlex_loop palette region w h x0 y0 rw r idx dst \<and>
   (\<exists>d. ref_rlex_loop palette region w h x0 y0 rw r idx dst = Some d \<and> length d = w * h * 4)"
proof (induction "length r" arbitrary: r idx dst rule: less_induct)
  case less
  show ?case
  proof (cases "length r < 2 \<or> idx \<ge> region \<or> rlex_record (length palette) r = None")
    case True
    then show ?thesis using less.prems by (subst rlex_loop.simps, subst (1 2) ref_rlex_loop.simps) auto
  next
    case False
    then obtain a b run r' where rec: "rlex_record (length palette) r = Some ((a, b, run), r')" by auto
    from rlex_record_bounds [OF rec] have ab: "a \<le> b" "b < length palette" by simp_all
    then have col: "index_get palette a = Some (palette ! a)" by (simp add: index_get_def)
    define n where "n = min (unat run) (region - idx)"
    obtain d where d: "puts w h (raster x0 y0 rw idx (replicate n (palette ! a))) dst = Some d" "length d = w * h * 4"
      using puts_ok [OF less.prems(1)] by blast
    have "\<forall>si \<in> set [a..<b + 1]. si < length palette" using ab by auto
    from ref_suite_ok [OF d(2) this, of region x0 y0 rw "idx + n"] obtain i d' where
      s: "ref_suite [a..<b + 1] palette region w h x0 y0 rw (idx + n) d = Some (i, d')" "length d' = w * h * 4" "i \<le> region"
      using less.prems(2) by (auto simp: n_def)
    have f: "span_fill w h x0 y0 rw n (palette ! a) (idx mod rw, idx div rw) dst = Some (((idx + n) mod rw, (idx + n) div rw), d)"
      using span_fill_puts [OF less.prems(1), of "idx mod rw" rw x0 y0 n "palette ! a" "idx div rw"] assms d(1) by simp
    have rr: "ref_run (unat run) region w h x0 y0 rw (palette ! a) idx dst = Some (idx + n, d)"
      using ref_run_puts [OF less.prems(2), of "unat run"] d(1) by (simp add: n_def)
    have su: "rlex_suite [a..<b + 1] palette region w h x0 y0 rw (idx + n) ((idx + n) mod rw, (idx + n) div rw) d = Some (i, (i mod rw, i div rw), d')"
      using rlex_suite_ref [OF d(2) assms] s(1) by simp
    have 1: "rlex_loop palette region w h x0 y0 rw r idx (idx mod rw, idx div rw) dst = rlex_loop palette region w h x0 y0 rw r' i (i mod rw, i div rw) d'"
      using False rec col f su unfolding n_def by (subst rlex_loop.simps) simp
    have 2: "ref_rlex_loop palette region w h x0 y0 rw r idx dst = ref_rlex_loop palette region w h x0 y0 rw r' i d'"
      using False rec col rr s(1) by (subst ref_rlex_loop.simps) simp
    show ?thesis unfolding 1 2 by (rule less.hyps [OF rlex_record_shrinks [OF rec] s(2,3)])
  qed
qed

lemma rlex_region_ref:
  assumes "length dst = w * h * 4"
  shows "rlex_region data x0 y0 rw rh w h dst = ref_rlex_region data x0 y0 rw rh w h dst \<and>
    (\<exists>d. ref_rlex_region data x0 y0 rw rh w h dst = Some d \<and> length d = w * h * 4)"
proof (cases "read_palette data")
  case None
  then show ?thesis using assms by (simp add: rlex_region_def ref_rlex_region_def)
next
  case (Some p)
  obtain palette r where p: "p = (palette, r)" by (cases p)
  show ?thesis
  proof (cases "rw = 0")
    case True
    then show ?thesis using assms Some p
      by (simp add: rlex_region_def ref_rlex_region_def rlex_loop.simps ref_rlex_loop.simps)
  next
    case False
    then show ?thesis using rlex_loop_ref [of rw dst w h 0 "rw * rh" palette x0 y0 r] assms Some p
      by (simp add: rlex_region_def ref_rlex_region_def)
  qed
qed

section \<open>NSCodec planes\<close>

text \<open>
  What the reference has written at \<open>pos\<close>: the bytes before it, zeros after. The fast path's eight-byte stores leave rubbish,
  but never eight bytes past \<open>pos\<close>.
\<close>

definition clean :: "nat \<Rightarrow> bytes \<Rightarrow> bytes" where
  "clean pos out = take pos out @ replicate (length out - pos) 0"

definition tidy :: "nat \<Rightarrow> bytes \<Rightarrow> bool" where
  "tidy pos out \<longleftrightarrow> pos \<le> length out \<and> drop (pos + 8) out = replicate (length out - (pos + 8)) 0"

lemma paste_some: "off + length bs \<le> length dst \<Longrightarrow> paste dst off bs = Some (take off dst @ bs @ drop (off + length bs) dst)"
  by (simp add: paste_def)

lemma drop_zeros: "drop n xs = replicate (length xs - n) (0 :: u8) \<Longrightarrow> n \<le> m \<Longrightarrow> drop m xs = replicate (length xs - m) 0"
proof -
  assume "drop n xs = replicate (length xs - n) 0" "n \<le> m"
  then have "drop m xs = drop (m - n) (replicate (length xs - n) 0)" by (metis drop_drop le_add_diff_inverse2)
  then show ?thesis using \<open>n \<le> m\<close> by simp
qed

text \<open>A run of \<open>len\<close> written with \<open>n\<close> bytes, at least the run and at most eight or the run.\<close>

lemma write_run:
  assumes "tidy pos out" "stop \<le> pos + n" "pos \<le> stop" "pos + n \<le> length out" "pos + n \<le> stop \<or> n \<le> 8"
  shows "\<exists>out'. paste out pos (replicate n val) = Some out' \<and> length out' = length out \<and> tidy stop out' \<and>
    paste (clean pos out) pos (replicate (stop - pos) val) = Some (clean stop out')"
proof (intro exI conjI)
  let ?out' = "take pos out @ replicate n val @ drop (pos + n) out"
  show p: "paste out pos (replicate n val) = Some ?out'" using assms(4) by (simp add: paste_some)
  show l: "length ?out' = length out" using assms(4) by simp
  have "drop (stop + 8) ?out' = drop (stop + 8) out" using assms(3-5) by (auto simp: min_def)
  moreover have "drop (stop + 8) out = replicate (length out - (stop + 8)) 0"
    using assms(1,3) drop_zeros [of "pos + 8" out "stop + 8"] by (simp add: tidy_def)
  ultimately show "tidy stop ?out'" using assms(2,4) l by (simp add: tidy_def)
  have "take stop ?out' = take pos out @ replicate (stop - pos) val" using assms(2-4) by (auto simp: min_def)
  then show "paste (clean pos out) pos (replicate (stop - pos) val) = Some (clean stop ?out')"
    using assms(2-4) l by (simp add: clean_def paste_def min_def)
qed

lemma fast_is_token:
  assumes "pos + 5 < n" "slice_get input i (i + 7) = Some b" "fast_token b = (k, val, len)"
  shows "nsc_token input n i pos = (i + k, Some (val, case len of None \<Rightarrow> 1 | Some l \<Rightarrow> l))"
proof -
  have l: "i + 7 \<le> length input" and b: "b = take 7 (drop i input)" using assms(2) by (auto simp: slice_get_def split: if_splits)
  have at: "b ! 0 = input ! i" "b ! Suc 0 = input ! Suc i" "b ! 2 = input ! (i + 2)" using l by (simp_all add: b)
  have rest: "[b ! 3, b ! 4, b ! 5, b ! 6] = take 4 (drop (i + 3) input)"
    by (rule nth_equalityI) (use l in \<open>auto simp: b less_Suc_eq numeral_eq_Suc\<close>)
  show ?thesis using assms(1,3) l
    by (auto simp: nsc_token_def fast_token_def index_get_def slice_get_def at rest split: if_splits)
qed

lemma nsc_loop_ref:
  "tidy pos out \<Longrightarrow> length out = n \<Longrightarrow>
   \<exists>i' pos' out'. nsc_loop input n i pos out = Some (i', pos', out') \<and>
     ref_nsc_loop input n i pos (clean pos out) = Some (i', pos', clean pos' out') \<and> tidy pos' out' \<and> length out' = n"
proof (induction "length input - i" arbitrary: i pos out rule: less_induct)
  case less
  show ?case
  proof (cases "pos + 4 \<ge> n")
    case True
    then show ?thesis using less.prems by (simp add: nsc_loop.simps ref_nsc_loop.simps)
  next
    case False
    note tidy = less.prems(1) and len = less.prems(2)
    have step: "\<exists>i'' pos'' out''. do { out \<leftarrow> paste out pos (replicate m val); nsc_loop input n i' stop out } = Some (i'', pos'', out'') \<and>
        do { out \<leftarrow> paste (clean pos out) pos (replicate (stop - pos) val); ref_nsc_loop input n i' stop out } = Some (i'', pos'', clean pos'' out'') \<and>
        tidy pos'' out'' \<and> length out'' = n"
      if "i < i'" "i < length input" "stop \<le> pos + m" "pos \<le> stop" "pos + m \<le> n" "pos + m \<le> stop \<or> m \<le> 8" for i' stop m val
    proof -
      from write_run [OF tidy that(3,4), of val] that(5,6) len obtain out' where
        o: "paste out pos (replicate m val) = Some out'" "length out' = n" "tidy stop out'"
          "paste (clean pos out) pos (replicate (stop - pos) val) = Some (clean stop out')" by auto
      have "length input - i' < length input - i" using that(1,2) by simp
      from less.hyps [OF this o(3,2)] show ?thesis by (simp add: o(1,4))
    qed
    show ?thesis
    proof (cases "if pos + 5 < n then slice_get input i (i + 7) else None")
      case None
      obtain i' x where t: "nsc_token input n i pos = (i', x)" by (cases "nsc_token input n i pos")
      show ?thesis
      proof (cases x)
        case None
        then show ?thesis using t False tidy len \<open>(if pos + 5 < n then _ else None) = None\<close>
          by (simp add: nsc_loop.simps [of input n i pos] ref_nsc_loop.simps [of input n i pos])
      next
        case (Some vl)
        obtain val l where vl: "vl = (val, l)" by (cases vl)
        from nsc_token_moves [OF t [unfolded Some]] have m: "i < i'" "i < length input" by simp_all
        from step [OF m, of "min (pos + l) n" "min (pos + l) n - pos" val] False
        show ?thesis using t Some vl False \<open>(if pos + 5 < n then _ else None) = None\<close>
          by (simp add: nsc_loop.simps [of input n i pos] ref_nsc_loop.simps [of input n i pos] Let_def)
      qed
    next
      case (Some b)
      then have f: "pos + 5 < n" "slice_get input i (i + 7) = Some b" by (auto split: if_splits)
      obtain k val ol where ft: "fast_token b = (k, val, ol)" by (cases "fast_token b")
      define l where "l = (case ol of None \<Rightarrow> 1 | Some l \<Rightarrow> l)"
      note t = fast_is_token [OF f ft, folded l_def]
      from nsc_token_moves [OF t] have m: "i < i + k" "i < length input" by simp_all
      have ref: "ref_nsc_loop input n i pos (clean pos out) = do { out \<leftarrow> paste (clean pos out) pos (replicate (min (pos + l) n - pos) val);
          ref_nsc_loop input n (i + k) (min (pos + l) n) out }"
        using False t by (simp add: ref_nsc_loop.simps [of input n i pos] Let_def)
      show ?thesis
      proof (cases ol)
        case None
        then have l: "l = 1" "min (pos + l) n = pos + 1" using f by (simp_all add: l_def)
        from step [OF m, of "pos + 1" 1 val] f(1) show ?thesis
          unfolding ref using False f ft None l by (simp add: nsc_loop.simps [of input n i pos])
      next
        case (Some l')
        then have l: "l = l'" by (simp add: l_def)
        show ?thesis
        proof (cases "l' \<le> 8 \<and> pos + 8 \<le> n")
          case True
          then have mn: "min (pos + l) n = pos + l'" using l by simp
          from step [OF m, of "pos + l'" 8 val] True show ?thesis
            unfolding ref mn using False f ft Some by (simp add: nsc_loop.simps [of input n i pos])
        next
          case F: False
          from step [OF m, of "min (pos + l) n" "min (pos + l) n - pos" val] False show ?thesis
            unfolding ref using F f ft Some l False by (auto simp: nsc_loop.simps [of input n i pos] Let_def)
        qed
      qed
    qed
  qed
qed

lemma nsc_rle_ref: "nsc_rle input n = ref_nsc_rle input n \<and> (\<exists>out. ref_nsc_rle input n = Some out \<and> length out = n)"
proof (cases "n \<le> 4")
  case True
  then show ?thesis by (simp add: nsc_rle_def ref_nsc_rle_def)
next
  case False
  have c: "clean 0 (replicate n 0) = replicate n 0" "tidy 0 (replicate n 0)" by (simp_all add: clean_def tidy_def)
  from nsc_loop_ref [OF c(2), of n input 0] obtain i pos out where
    o: "nsc_loop input n 0 0 (replicate n 0) = Some (i, pos, out)" "tidy pos out" "length out = n"
      "ref_nsc_loop input n 0 0 (replicate n 0) = Some (i, pos, clean pos out)" unfolding c(1) by auto
  let ?tail = "map (\<lambda>k. byte_or_0 input (i + k)) [0..<4]"
  have tail: "paste d (n - 4) ?tail = Some (take (n - 4) d @ ?tail)" if "length d = n" for d
    using that False by (simp add: paste_def)
  have cl: "length (clean pos out) = n" using o(2,3) by (simp add: clean_def tidy_def)
  have "\<exists>d. (if pos + 4 < n then paste out pos (replicate (min (pos + 8) (n - 4) - pos) 0) else Some out) = Some d \<and>
      length d = n \<and> take (n - 4) d = take (n - 4) (clean pos out)"
  proof (cases "pos + 4 < n")
    case c: True
    define m where "m = min (pos + 8) (n - 4)"
    have m: "pos \<le> m" "m \<le> n - 4" using c by (simp_all add: m_def)
    let ?d = "take pos out @ replicate (m - pos) 0 @ drop m out"
    have p: "paste out pos (replicate (m - pos) 0) = Some ?d" using m o(3) False by (simp add: paste_def)
    have l: "length ?d = n" using m o(3) False by simp
    have "take (n - 4) ?d = take pos out @ replicate (n - 4 - pos) 0"
    proof (cases "m = n - 4")
      case True
      then show ?thesis using m o(3) c by (simp add: min_def)
    next
      case F: False
      then have "m = pos + 8" by (simp add: m_def min_def split: if_splits)
      then have d: "drop m out = replicate (n - m) 0" using o(2,3) by (simp add: tidy_def)
      have "take pos out @ replicate (m - pos) 0 @ drop m out = take pos out @ replicate (n - pos) 0"
        unfolding d using m c by (simp add: replicate_add [symmetric])
      moreover have "\<not> n - 4 \<le> pos" "n - (4 + pos) \<le> n - pos" using c by linarith+
      ultimately show ?thesis using o(3) c by (simp add: min.absorb1)
    qed
    moreover have "take (n - 4) (clean pos out) = take pos out @ replicate (n - 4 - pos) 0"
    proof -
      have "\<not> n - 4 \<le> pos" "n - (4 + pos) \<le> n - pos" using c by linarith+
      then show ?thesis using c o(3) by (simp add: clean_def min_def)
    qed
    moreover have "(if pos + 4 < n then paste out pos (replicate (min (pos + 8) (n - 4) - pos) 0) else Some out) = Some ?d"
      using c p unfolding m_def by simp
    ultimately show ?thesis using l by (intro exI [of _ ?d] conjI) (simp_all only:)
  next
    case F: False
    then have "n - 4 \<le> pos" by linarith
    then show ?thesis using F o(3) by (simp add: clean_def)
  qed
  then show ?thesis using False o tail cl by (auto simp: nsc_rle_def ref_nsc_rle_def)
qed

lemma nsc_plane_ref: "nsc_plane rle n = ref_nsc_plane rle n \<and> (\<exists>out. ref_nsc_plane rle n = Some out \<and> length out = n)"
  using nsc_rle_ref [of rle n] by (simp add: nsc_plane_def ref_nsc_plane_def)

lemma nsc_planes_ref:
  "nsc_planes data hdr rw rh = ref_nsc_planes data hdr rw rh \<and>
   (\<exists>luma co cg. ref_nsc_planes data hdr rw rh = Some (luma, co, cg) \<and> length luma = snd (luma_layout (subsample hdr) rw rh) \<and>
      length co = snd (chroma_layout (subsample hdr) rw rh) \<and> length cg = snd (chroma_layout (subsample hdr) rw rh))"
proof -
  have p: "\<exists>out. nsc_plane x n = Some out \<and> ref_nsc_plane x n = Some out \<and> length out = n" for x n
    using nsc_plane_ref [of x n] by auto
  obtain l where l: "nsc_plane (nsc_next data 20 (luma_bc hdr)) (snd (luma_layout (subsample hdr) rw rh)) = Some l"
      "ref_nsc_plane (nsc_next data 20 (luma_bc hdr)) (snd (luma_layout (subsample hdr) rw rh)) = Some l"
      "length l = snd (luma_layout (subsample hdr) rw rh)" using p by blast
  obtain co where co: "nsc_plane (nsc_next data (20 + luma_bc hdr) (co_bc hdr)) (snd (chroma_layout (subsample hdr) rw rh)) = Some co"
      "ref_nsc_plane (nsc_next data (20 + luma_bc hdr) (co_bc hdr)) (snd (chroma_layout (subsample hdr) rw rh)) = Some co"
      "length co = snd (chroma_layout (subsample hdr) rw rh)" using p by blast
  obtain cg where cg: "nsc_plane (nsc_next data (20 + luma_bc hdr + co_bc hdr) (cg_bc hdr)) (snd (chroma_layout (subsample hdr) rw rh)) = Some cg"
      "ref_nsc_plane (nsc_next data (20 + luma_bc hdr + co_bc hdr) (cg_bc hdr)) (snd (chroma_layout (subsample hdr) rw rh)) = Some cg"
      "length cg = snd (chroma_layout (subsample hdr) rw rh)" using p by blast
  show ?thesis using l co cg by (simp add: nsc_planes_def ref_nsc_planes_def)
qed

section \<open>NSCodec pixels\<close>

lemma slice_nth: "slice_get xs a (a + n) = Some s \<Longrightarrow> i < n \<Longrightarrow> s ! i = byte_or_0 xs (a + i) \<and> length s = n"
  by (auto simp: slice_get_def byte_or_0_def index_get_def split: if_splits)

lemma slice_some: "a + n \<le> length xs \<Longrightarrow> \<exists>s. slice_get xs a (a + n) = Some s \<and> length s = n"
  by (simp add: slice_get_def)

text \<open>A row is within its planes, and has the pixels the reference computes.\<close>

lemma nsc_row_pixels:
  assumes "length luma = snd (luma_layout (subsample hdr) rw rh)" "length co = snd (chroma_layout (subsample hdr) rw rh)"
    "length cg = snd (chroma_layout (subsample hdr) rw rh)" "y < rh" "cols \<le> rw"
  shows "nsc_row hdr (luma, co, cg) rw rh cols y = Some (map (\<lambda>x. ref_nsc_pixel hdr (luma, co, cg) rw rh x y) [0..<cols])"
proof (cases "subsample hdr")
  case True
  have lw: "rw \<le> temp_w rw" by (simp add: temp_w_def)
  have "y * temp_w rw + temp_w rw \<le> rh * temp_w rw"
    using assms(4) mult_le_mono1 [of "Suc y" rh "temp_w rw"] by (simp add: add.commute)
  then have l: "y * temp_w rw + cols \<le> length luma" using assms(1,5) lw True by (simp add: luma_layout_def mult.commute)
  have hc: "(cols + 1) div 2 \<le> temp_w rw div 2" using assms(5) unfolding temp_w_def by presburger
  have hy: "Suc (y div 2) \<le> temp_h rh div 2" using assms(4) unfolding temp_h_def by presburger
  have "y div 2 * (temp_w rw div 2) + temp_w rw div 2 \<le> temp_w rw div 2 * (temp_h rh div 2)"
    using mult_le_mono1 [OF hy, of "temp_w rw div 2"] by (simp add: mult.commute add.commute)
  then have c: "y div 2 * (temp_w rw div 2) + (cols + 1) div 2 \<le> length co" "y div 2 * (temp_w rw div 2) + (cols + 1) div 2 \<le> length cg"
    using assms(2,3) True hc by (simp_all add: chroma_layout_def)
  from slice_some [OF l] obtain lrow where lrow: "slice_get luma (y * temp_w rw) (y * temp_w rw + cols) = Some lrow" "length lrow = cols" by blast
  from slice_some [OF c(1)] obtain corow where corow: "slice_get co (y div 2 * (temp_w rw div 2)) (y div 2 * (temp_w rw div 2) + (cols + 1) div 2) = Some corow" by blast
  from slice_some [OF c(2)] obtain cgrow where cgrow: "slice_get cg (y div 2 * (temp_w rw div 2)) (y div 2 * (temp_w rw div 2) + (cols + 1) div 2) = Some cgrow" by blast
  have "map (\<lambda>(x, yv). ycocg (nsc_shift hdr) yv (corow ! (x div 2)) (cgrow ! (x div 2))) (enumerate 0 lrow) =
      map (\<lambda>x. ref_nsc_pixel hdr (luma, co, cg) rw rh x y) [0..<cols]"
  proof (rule nth_equalityI)
    fix x assume "x < length (map (\<lambda>(x, yv). ycocg (nsc_shift hdr) yv (corow ! (x div 2)) (cgrow ! (x div 2))) (enumerate 0 lrow))"
    then have x: "x < cols" "x div 2 < (cols + 1) div 2" using lrow(2) by simp_all
    show "map (\<lambda>(x, yv). ycocg (nsc_shift hdr) yv (corow ! (x div 2)) (cgrow ! (x div 2))) (enumerate 0 lrow) ! x =
        map (\<lambda>x. ref_nsc_pixel hdr (luma, co, cg) rw rh x y) [0..<cols] ! x"
      using x lrow(2) True slice_nth [OF lrow(1) x(1)] slice_nth [OF corow x(2)] slice_nth [OF cgrow x(2)]
      by (simp add: nth_enumerate_eq ref_nsc_pixel_def luma_layout_def chroma_layout_def Let_def)
  qed (use lrow in simp)
  then show ?thesis using True lrow(1) corow cgrow by (simp add: nsc_row_def luma_layout_def chroma_layout_def Let_def)
next
  case False
  have "y * rw + rw \<le> rh * rw" using assms(4) mult_le_mono1 [of "Suc y" rh rw] by (simp add: add.commute)
  then have l: "y * rw + cols \<le> length luma" "y * rw + cols \<le> length co" "y * rw + cols \<le> length cg"
    using assms(1-3,5) False by (simp_all add: luma_layout_def chroma_layout_def mult.commute)
  from slice_some [OF l(1)] obtain lrow where lrow: "slice_get luma (y * rw) (y * rw + cols) = Some lrow" "length lrow = cols" by blast
  from slice_some [OF l(2)] obtain corow where corow: "slice_get co (y * rw) (y * rw + cols) = Some corow" "length corow = cols" by blast
  from slice_some [OF l(3)] obtain cgrow where cgrow: "slice_get cg (y * rw) (y * rw + cols) = Some cgrow" "length cgrow = cols" by blast
  have "map (\<lambda>((yv, cov), cgv). ycocg (nsc_shift hdr) yv cov cgv) (zip (zip lrow corow) cgrow) =
      map (\<lambda>x. ref_nsc_pixel hdr (luma, co, cg) rw rh x y) [0..<cols]"
  proof (rule nth_equalityI)
    fix x assume "x < length (map (\<lambda>((yv, cov), cgv). ycocg (nsc_shift hdr) yv cov cgv) (zip (zip lrow corow) cgrow))"
    then have x: "x < cols" using lrow(2) by simp
    show "map (\<lambda>((yv, cov), cgv). ycocg (nsc_shift hdr) yv cov cgv) (zip (zip lrow corow) cgrow) ! x =
        map (\<lambda>x. ref_nsc_pixel hdr (luma, co, cg) rw rh x y) [0..<cols] ! x"
      using x lrow(2) corow(2) cgrow(2) False slice_nth [OF lrow(1) x] slice_nth [OF corow(1) x] slice_nth [OF cgrow(1) x]
      by (simp add: ref_nsc_pixel_def luma_layout_def chroma_layout_def Let_def)
  qed (use lrow corow cgrow in simp)
  then show ?thesis using False lrow(1) corow(1) cgrow(1) by (simp add: nsc_row_def luma_layout_def chroma_layout_def Let_def)
qed

lemma ref_nsc_row_puts:
  "ref_nsc_row [x..<rw] y hdr planes rw rh x0 y0 w h dst =
   puts w h (row_list (x0 + x) (y0 + y) (map (\<lambda>x. ref_nsc_pixel hdr planes rw rh x y) [x..<rw])) dst"
proof (induction "rw - x" arbitrary: x dst)
  case (Suc d)
  then have u: "[x..<rw] = x # [x + 1..<rw]" by (simp add: upt_conv_Cons)
  from Suc.hyps(1) [of "x + 1"] Suc.hyps(2) show ?case unfolding u by (cases "put dst w h (x0 + x) (y0 + y) (ref_nsc_pixel hdr planes rw rh x y)") simp_all
qed simp

lemma nsc_rows_ref:
  assumes "length luma = snd (luma_layout (subsample hdr) rw rh)" "length co = snd (chroma_layout (subsample hdr) rw rh)"
    "length cg = snd (chroma_layout (subsample hdr) rw rh)" "x0 < w"
  shows "length dst = w * h * 4 \<Longrightarrow> y \<le> rh \<Longrightarrow>
    nsc_rows [y..<min rh (h - y0)] hdr (luma, co, cg) rw rh (min rw (w - x0)) x0 y0 w dst =
    ref_nsc_rows [y..<rh] hdr (luma, co, cg) rw rh x0 y0 w h dst"
proof (induction "rh - y" arbitrary: y dst)
  case 0
  then show ?case by simp
next
  case (Suc d)
  then have y: "y < rh" and u: "[y..<rh] = y # [y + 1..<rh]" by (simp_all add: upt_conv_Cons)
  let ?ps = "map (\<lambda>x. ref_nsc_pixel hdr (luma, co, cg) rw rh x y) [0..<rw]"
  have row: "ref_nsc_row [0..<rw] y hdr (luma, co, cg) rw rh x0 y0 w h dst = puts w h (row_list x0 (y0 + y) ?ps) dst"
    using ref_nsc_row_puts [of 0 rw y hdr "(luma, co, cg)" rh x0 y0 w h dst] by simp
  show ?case
  proof (cases "y0 + y < h")
    case True
    then have v: "[y..<min rh (h - y0)] = y # [y + 1..<min rh (h - y0)]" using y by (simp add: upt_conv_Cons)
    have t: "take (w - x0) ?ps = map (\<lambda>x. ref_nsc_pixel hdr (luma, co, cg) rw rh x y) [0..<min rw (w - x0)]"
      by (cases "w - x0 \<le> rw") (simp_all add: take_map min_def)
    have r: "nsc_row hdr (luma, co, cg) rw rh (min rw (w - x0)) y = Some (take (w - x0) ?ps)"
      unfolding t by (rule nsc_row_pixels [OF assms(1-3) y]) simp
    obtain d' where d': "puts w h (row_list x0 (y0 + y) ?ps) dst = Some d'" "length d' = w * h * 4"
      using puts_ok [OF Suc.prems(1)] by blast
    have "paste dst (((y0 + y) * w + x0) * 4) (pixels_bytes (take (w - x0) ?ps)) = Some d'"
      using puts_row [OF Suc.prems(1) assms(4) True, of ?ps] d'(1) by simp
    then show ?thesis using Suc.hyps(1) [of "y + 1" d'] Suc.hyps(2) y d' unfolding u v nsc_rows.simps ref_nsc_rows.simps row r by simp
  next
    case False
    then have v: "[y..<min rh (h - y0)] = []" "[y + 1..<min rh (h - y0)] = []" by simp_all
    have r: "ref_nsc_row [0..<rw] y hdr (luma, co, cg) rw rh x0 y0 w h dst = Some dst"
      unfolding row using False by (intro puts_row_outside) simp
    have "nsc_rows [y + 1..<min rh (h - y0)] hdr (luma, co, cg) rw rh (min rw (w - x0)) x0 y0 w dst =
        ref_nsc_rows [y + 1..<rh] hdr (luma, co, cg) rw rh x0 y0 w h dst"
      by (rule Suc.hyps(1)) (use Suc.hyps(2) Suc.prems(1) y in simp_all)
    then have "ref_nsc_rows [y + 1..<rh] hdr (luma, co, cg) rw rh x0 y0 w h dst = Some dst" unfolding v by simp
    then show ?thesis unfolding u ref_nsc_rows.simps r v by simp
  qed
qed

lemma ref_nsc_rows_ok:
  "length dst = w * h * 4 \<Longrightarrow> \<exists>d. ref_nsc_rows ys hdr planes rw rh x0 y0 w h dst = Some d \<and> length d = w * h * 4 \<and> (x0 \<ge> w \<longrightarrow> d = dst)"
proof (induction ys arbitrary: dst)
  case (Cons y ys)
  have row: "ref_nsc_row [0..<rw] y hdr planes rw rh x0 y0 w h dst =
      puts w h (row_list x0 (y0 + y) (map (\<lambda>x. ref_nsc_pixel hdr planes rw rh x y) [0..<rw])) dst"
    using ref_nsc_row_puts [of 0 rw y hdr planes rh x0 y0 w h dst] by simp
  let ?ps = "row_list x0 (y0 + y) (map (\<lambda>x. ref_nsc_pixel hdr planes rw rh x y) [0..<rw])"
  obtain d where d: "puts w h ?ps dst = Some d" "length d = w * h * 4" using puts_ok [OF Cons.prems] by blast
  have o: "x0 \<ge> w \<longrightarrow> d = dst"
  proof
    assume "x0 \<ge> w"
    then have "puts w h ?ps dst = Some dst" by (intro puts_row_outside) simp
    then show "d = dst" using d(1) by simp
  qed
  from Cons.IH [OF d(2)] d(1) o row show ?case by auto
qed simp

lemma nscodec_region_ref:
  assumes "length dst = w * h * 4"
  shows "nscodec_region data x0 y0 rw rh w h dst = ref_nscodec_region data x0 y0 rw rh w h dst \<and>
    (\<exists>d. ref_nscodec_region data x0 y0 rw rh w h dst = Some d \<and> length d = w * h * 4)"
proof (cases "rw = 0 \<or> rh = 0 \<or> nsc_header data = None")
  case True
  then show ?thesis using assms by (auto simp: nscodec_region_def ref_nscodec_region_def)
next
  case False
  then obtain hdr where hdr: "nsc_header data = Some hdr" and rw: "rw \<noteq> 0" "rh \<noteq> 0" by auto
  from nsc_planes_ref [of data hdr rw rh] obtain luma co cg where
    pl: "nsc_planes data hdr rw rh = Some (luma, co, cg)" "ref_nsc_planes data hdr rw rh = Some (luma, co, cg)"
      "length luma = snd (luma_layout (subsample hdr) rw rh)" "length co = snd (chroma_layout (subsample hdr) rw rh)"
      "length cg = snd (chroma_layout (subsample hdr) rw rh)" by auto
  from ref_nsc_rows_ok [OF assms, of "[0..<rh]" hdr "(luma, co, cg)" rw rh x0 y0] obtain d where
    d: "ref_nsc_rows [0..<rh] hdr (luma, co, cg) rw rh x0 y0 w h dst = Some d" "length d = w * h * 4" "x0 \<ge> w \<longrightarrow> d = dst" by blast
  have "nscodec_region data x0 y0 rw rh w h dst = Some d"
  proof (cases "x0 < w")
    case True
    then have "nsc_rows [0..<min rh (h - y0)] hdr (luma, co, cg) rw rh (min rw (w - x0)) x0 y0 w dst = Some d"
      using nsc_rows_ref [OF pl(3-5) True assms, of 0 y0] d(1) by simp
    moreover have "(min rw (w - x0) = 0) = False" using True rw by (simp add: min_def)
    ultimately show ?thesis using hdr rw pl(1) by (simp only: nscodec_region_def Let_def) simp
  next
    case False
    then show ?thesis using hdr rw pl(1) d(3) by (simp add: nscodec_region_def Let_def)
  qed
  then show ?thesis using hdr rw pl(2) d(1,2) by (simp add: ref_nscodec_region_def)
qed

section \<open>Subcodecs\<close>

lemma decode_region_ref:
  assumes "length dst = w * h * 4"
  shows "decode_region g w h dst = ref_decode_region g w h dst \<and> (\<exists>d. ref_decode_region g w h dst = Some d \<and> length d = w * h * 4)"
proof -
  have "raw_region data x0 y0 rw rh w h dst = ref_raw_region data x0 y0 rw rh w h dst \<and>
      (\<exists>d. ref_raw_region data x0 y0 rw rh w h dst = Some d \<and> length d = w * h * 4)" for data x0 y0 rw rh
    unfolding raw_region_puts [OF assms] using puts_ok [OF assms] by simp
  then show ?thesis using rlex_region_ref [OF assms] nscodec_region_ref [OF assms] assms
    by (simp add: decode_region_def ref_decode_region_def)
qed

lemma subcodecs_ref:
  "length dst = w * h * 4 \<Longrightarrow>
   subcodecs r w h dst = ref_subcodecs r w h dst \<and> (\<exists>d. ref_subcodecs r w h dst = Some d \<and> length d = w * h * 4)"
proof (induction "length r" arbitrary: r dst rule: less_induct)
  case less
  show ?case
  proof (cases "length r < 13 \<or> read_region r = None")
    case True
    then show ?thesis using less.prems by (auto simp: subcodecs.simps [of r] ref_subcodecs.simps [of r])
  next
    case False
    then obtain g r' where g: "read_region r = Some (g, r')" by auto
    from decode_region_ref [OF less.prems, of g] obtain d where
      d: "decode_region g w h dst = Some d" "ref_decode_region g w h dst = Some d" "length d = w * h * 4" by auto
    from less.hyps [OF read_region_shrinks [OF g] d(3)] show ?thesis
      using False g d by (simp add: subcodecs.simps [of r] ref_subcodecs.simps [of r])
  qed
qed

section \<open>Bands\<close>

lemma emit_rows_ref:
  assumes "dx < w" "y_start + rows \<le> h" "rows * 4 \<le> length column"
  shows "length dst = w * h * 4 \<Longrightarrow> k \<le> rows \<Longrightarrow>
    emit_chunks (w * 4) (chunks_of 4 (take ((rows - k) * 4) (drop (k * 4) column))) (((y_start + k) * w + dx) * 4) dst =
      ref_emit_rows [k..<rows] w dx y_start column dst \<and>
    (\<exists>d. ref_emit_rows [k..<rows] w dx y_start column dst = Some d \<and> length d = w * h * 4)"
proof (induction "rows - k" arbitrary: k dst)
  case (Suc n)
  then have k: "k < rows" and u: "[k..<rows] = k # [k + 1..<rows]" by (simp_all add: upt_conv_Cons)
  let ?off = "((y_start + k) * w + dx) * 4" and ?rest = "take ((rows - k) * 4) (drop (k * 4) column)"
  have kc: "k * 4 + 4 \<le> length column" using k assms(3) by linarith
  define bs where "bs = take 4 (drop (k * 4) column)"
  have bs: "slice_get column (k * 4) (k * 4 + 4) = Some bs" "length bs = 4" using kc by (simp_all add: slice_get_def bs_def)
  have r4: "(rows - k) * 4 = 4 + (rows - (k + 1)) * 4" using k by simp
  have ne: "?rest \<noteq> []" using k kc by (simp add: take_eq_Nil)
  have t: "take 4 ?rest = bs" using k by (simp add: bs_def min_def)
  have dr: "drop 4 ?rest = take ((rows - (k + 1)) * 4) (drop ((k + 1) * 4) column)"
    unfolding r4 drop_take by (simp add: algebra_simps)
  have ch: "chunks_of 4 ?rest = bs # chunks_of 4 (take ((rows - (k + 1)) * 4) (drop ((k + 1) * 4) column))"
    using chunks_of_step [of 4 ?rest] ne unfolding t dr by simp
  have fits: "?off + 4 \<le> length dst" using put_in_tile [of dx w "y_start + k" h] assms(1,2) k Suc.prems(1) by simp
  define d where "d = take ?off dst @ bs @ drop (?off + 4) dst"
  have d: "paste dst ?off bs = Some d" "length d = w * h * 4" using fits bs(2) Suc.prems(1) by (simp_all add: paste_def d_def)
  have off: "?off + w * 4 = ((y_start + (k + 1)) * w + dx) * 4" by (simp add: algebra_simps)
  have "emit_chunks (w * 4) (chunks_of 4 ?rest) ?off dst =
      emit_chunks (w * 4) (chunks_of 4 (take ((rows - (k + 1)) * 4) (drop ((k + 1) * 4) column))) (((y_start + (k + 1)) * w + dx) * 4) d"
    unfolding ch emit_chunks.simps off [symmetric] using fits d(1) by simp
  moreover have "ref_emit_rows [k..<rows] w dx y_start column dst = ref_emit_rows [k + 1..<rows] w dx y_start column d"
    unfolding u ref_emit_rows.simps bs(1) using d(1) by simp
  moreover have "rows - (k + 1) = n" "k + 1 \<le> rows" using Suc.hyps(2) k by simp_all
  ultimately show ?case using Suc.hyps(1) [of "k + 1" d] d(2) by simp
qed simp

lemma emit_column_ref:
  assumes "length dst = w * h * 4"
  shows "emit_column dst w h dx y_start height column = ref_emit_column dst w h dx y_start height column \<and>
    (\<exists>d. ref_emit_column dst w h dx y_start height column = Some d \<and> length d = w * h * 4)"
proof (cases "dx \<ge> w \<or> min (min height (length column div 4)) (h - y_start) = 0")
  case True
  then show ?thesis using assms by (auto simp: emit_column_def ref_emit_column_def Let_def)
next
  case False
  define rows where "rows = min (min height (length column div 4)) (h - y_start)"
  have r: "dx < w" "0 < rows" "rows \<le> h - y_start" "rows \<le> length column div 4" using False by (auto simp: rows_def)
  then have b: "y_start + rows \<le> h" "rows * 4 \<le> length column" by linarith+
  have "(y_start * w + dx) * 4 + 4 \<le> length dst" using put_in_tile [of dx w y_start h] r assms by simp
  then show ?thesis using emit_rows_ref [OF r(1) b assms, of 0] r
    by (simp add: emit_column_def ref_emit_column_def Let_def rows_def [symmetric])
qed

text \<open>What holds of the state between calls.\<close>

definition wf_pixels :: "pixels \<Rightarrow> bool" where "wf_pixels p \<longleftrightarrow> length (px_rgba p) = px_count p * 4"

definition wf_clear :: "clear \<Rightarrow> bool" where
  "wf_clear c \<longleftrightarrow>
    length (glyphs c) = GLYPH_CACHE \<and> length (vbar c) = VBAR_CACHE \<and> length (short_vbar c) = SHORT_VBAR_CACHE \<and>
    vbar_cursor c < VBAR_CACHE \<and> short_vbar_cursor c < SHORT_VBAR_CACHE \<and>
    (\<forall>p \<in> set (glyphs c) \<union> set (vbar c) \<union> set (short_vbar c). wf_pixels p)"

lemma wf_clear_new: "wf_clear clear_new"
  by (auto simp: wf_clear_def clear_new_def wf_pixels_def no_pixels_def GLYPH_CACHE_def VBAR_CACHE_def SHORT_VBAR_CACHE_def)

lemma background_pixels: "background_column n col = pixels_bytes (replicate n col)"
proof -
  have q: "n * 4 div 16 = n div 4" "n * 4 mod 16 div 4 = n mod 4"
    using div_mult_mult2 [of 4 n 4] mult_mod_left [of n 4 4] by simp_all
  have four: "concat (replicate k (pixel col @ pixel col @ pixel col @ pixel col)) = pixels_bytes (replicate (k * 4) col)" for k
  proof (induction k)
    case (Suc k)
    have "Suc k * 4 = Suc (Suc (Suc (Suc (k * 4))))" by simp
    then show ?case by (simp only: replicate_Suc concat.simps pixels_bytes_simps Suc append.assoc)
  qed simp
  have one: "concat (replicate k (pixel col)) = pixels_bytes (replicate k col)" for k by (induction k) simp_all
  have "replicate n col = replicate (n div 4 * 4) col @ replicate (n mod 4) col" unfolding replicate_add [symmetric] by simp
  then show ?thesis unfolding background_column_def q four one by (simp only: pixels_bytes_simps)
qed

lemma length_background [simp]: "length (background_column n col) = n * 4"
  by (simp add: background_pixels)

lemma ref_compose_paste:
  assumes "length short = cnt * 4" "length v = height * 4" "y_on < height"
  shows "length v' = height * 4 \<Longrightarrow> k \<le> min cnt (height - y_on) \<Longrightarrow>
    ref_compose [k..<cnt] height short y_on v' = paste v' ((y_on + k) * 4) (take ((min cnt (height - y_on) - k) * 4) (drop (k * 4) short))"
proof (induction "min cnt (height - y_on) - k" arbitrary: k v')
  case 0
  then have k: "k = min cnt (height - y_on)" by simp
  have "(y_on + k) * 4 \<le> length v'" using 0 assms(3) k by simp
  moreover have "ref_compose [k..<cnt] height short y_on v' = Some v'"
  proof (cases "k < cnt")
    case True
    then show ?thesis using k assms(3) by (simp add: upt_conv_Cons min_def split: if_splits)
  qed simp
  ultimately show ?case using 0 by simp
next
  case (Suc n)
  define m where "m = min cnt (height - y_on)"
  have k: "k < m" "m \<le> cnt" "y_on + m \<le> height" using Suc.hyps(2) assms(3) by (auto simp: m_def)
  have u: "[k..<cnt] = k # [k + 1..<cnt]" using k by (simp add: upt_conv_Cons)
  let ?b = "take 4 (drop (k * 4) short)"
  have b: "length ?b = 4" "k * 4 + 3 < length short" using k assms(1) by simp_all
  define v2 where "v2 = take ((y_on + k) * 4) v' @ ?b @ drop ((y_on + k) * 4 + 4) v'"
  have v2: "paste v' ((y_on + k) * 4) ?b = Some v2" "length v2 = height * 4"
    using k b Suc.prems(1) by (simp_all add: paste_def v2_def)
  have m4: "(m - k) * 4 = 4 + (m - (k + 1)) * 4" using k by simp
  have "take ((m - k) * 4) (drop (k * 4) short) = ?b @ take ((m - (k + 1)) * 4) (drop ((k + 1) * 4) short)"
    unfolding m4 take_add by (simp add: algebra_simps)
  moreover have off: "(y_on + k) * 4 + length ?b = (y_on + (k + 1)) * 4" using b(1) by simp
  moreover have "paste v' ((y_on + k) * 4) (?b @ rest) = paste v2 ((y_on + (k + 1)) * 4) rest" for rest
    by (simp only: paste_append v2(1) off) simp
  ultimately have "paste v' ((y_on + k) * 4) (take ((m - k) * 4) (drop (k * 4) short)) =
      paste v2 ((y_on + (k + 1)) * 4) (take ((m - (k + 1)) * 4) (drop ((k + 1) * 4) short))" by (simp only:)
  moreover have "ref_compose [k..<cnt] height short y_on v' = ref_compose [k + 1..<cnt] height short y_on v2"
    unfolding u using k b v2(1) by simp
  moreover have "ref_compose [k + 1..<cnt] height short y_on v2 =
      paste v2 ((y_on + (k + 1)) * 4) (take ((m - (k + 1)) * 4) (drop ((k + 1) * 4) short))"
    unfolding m_def by (rule Suc.hyps(1)) (use Suc.hyps(2) v2(2) k in \<open>simp_all add: m_def\<close>)
  ultimately show ?case by (simp only: m_def)
qed

lemma compose_column_ref:
  assumes "wf_pixels short"
  shows "\<exists>v. compose_column bd short y_on = Some v \<and> length v = b_height bd * 4 \<and>
    ref_compose [0..<px_count short] (b_height bd) (px_rgba short) y_on (background_column (b_height bd) (b_color bd)) = Some v"
proof (cases "y_on < b_height bd")
  case True
  define n where "n = min (px_count short) (b_height bd - y_on)"
  let ?v = "background_column (b_height bd) (b_color bd)"
  have l: "length (px_rgba short) = px_count short * 4" using assms by (simp add: wf_pixels_def)
  have n: "n * 4 \<le> length (px_rgba short)" "y_on + n \<le> b_height bd" using l True by (simp_all add: n_def)
  then have "paste ?v (y_on * 4) (take (n * 4) (px_rgba short)) \<noteq> None" by (simp add: paste_def)
  then obtain v where v: "paste ?v (y_on * 4) (take (n * 4) (px_rgba short)) = Some v" by auto
  moreover have "compose_column bd short y_on = Some v"
    using True v n by (simp add: compose_column_def slice_get_def Let_def n_def [symmetric])
  ultimately show ?thesis using ref_compose_paste [OF l length_background True length_background, of 0] paste_length [OF v]
    by (simp add: n_def)
next
  case False
  have "ref_compose [0..<k] (b_height bd) (px_rgba short) y_on v = Some v" for k v using False by (cases k) (simp_all add: upt_conv_Cons del: upt_Suc)
  then show ?thesis using False by (simp add: compose_column_def Let_def)
qed

lemma set_slot_ok:
  "i < length xs \<Longrightarrow> wf_pixels x \<Longrightarrow> \<forall>p \<in> set xs. wf_pixels p \<Longrightarrow>
   \<exists>ys. set_slot xs i x = Some ys \<and> length ys = length xs \<and> (\<forall>p \<in> set ys. wf_pixels p) \<and> index_get ys i = Some x"
  using set_update_subset_insert [of xs i x] by (auto simp: set_slot_def index_get_def)

lemma short_column_ref:
  assumes "wf_clear c"
  shows "(short_column header r c = Some (c, None) \<and> ref_short_column header r c = Some (c, None)) \<or>
    (\<exists>c' idx y r' short. short_column header r c = Some (c', Some (idx, y, r')) \<and>
       ref_short_column header r c = Some (c', Some (short, y, r')) \<and> index_get (short_vbar c') idx = Some short \<and>
       wf_clear c' \<and> wf_pixels short)"
proof (cases "header AND 0xC000 = 0x4000")
  case True
  have "header AND 0x3FFF \<le> 0x3FFF" by (rule word_and_le1)
  then have i: "unat (header AND 0x3FFF) < SHORT_VBAR_CACHE" by (simp add: word_le_nat_alt SHORT_VBAR_CACHE_def)
  then have e: "index_get (short_vbar c) (unat (header AND 0x3FFF)) = Some (short_vbar c ! unat (header AND 0x3FFF))"
      "wf_pixels (short_vbar c ! unat (header AND 0x3FFF))" using assms by (auto simp: index_get_def wf_clear_def)
  show ?thesis
  proof (cases "read_u8 r")
    case None
    then show ?thesis using True i e by (simp add: short_column_def ref_short_column_def)
  next
    case (Some p)
    then show ?thesis using True i e assms by (cases p) (simp add: short_column_def ref_short_column_def)
  qed
next
  case False
  define y_on where "y_on = unat (header AND 0x00FF)"
  define y_off where "y_off = unat (drop_bit 8 header AND 0x3F)"
  show ?thesis
  proof (cases "y_off < y_on \<or> read_take ((y_off - y_on) * 3) r = None")
    case True
    then show ?thesis using False by (auto simp: short_column_def ref_short_column_def Let_def y_on_def y_off_def)
  next
    case F: False
    then obtain bgr r' where rt: "read_take ((y_off - y_on) * 3) r = Some (bgr, r')" by auto
    then have "length bgr = (y_off - y_on) * 3" by (auto simp: read_take_def split: if_splits)
    then have wp: "wf_pixels \<lparr>px_count = y_off - y_on, px_rgba = pixels_bytes (bgr_pixels bgr)\<rparr>" (is "wf_pixels ?p")
      by (simp add: wf_pixels_def)
    obtain slots where sl: "set_slot (short_vbar c) (short_vbar_cursor c) ?p = Some slots" "length slots = length (short_vbar c)"
        "\<forall>p \<in> set slots. wf_pixels p" "index_get slots (short_vbar_cursor c) = Some ?p"
      using set_slot_ok [OF _ wp, of "short_vbar_cursor c" "short_vbar c"] assms by (auto simp: wf_clear_def)
    have "wf_clear (c\<lparr>short_vbar := slots, short_vbar_cursor := (short_vbar_cursor c + 1) mod SHORT_VBAR_CACHE\<rparr>)"
      using assms sl(2,3) by (auto simp: wf_clear_def SHORT_VBAR_CACHE_def)
    then show ?thesis using False F rt sl wp
      by (simp add: short_column_def ref_short_column_def Let_def y_on_def [symmetric] y_off_def [symmetric])
  qed
qed

text \<open>Two runs of the decoder's steps that agree, do not panic, and keep the state well formed.\<close>

definition agree :: "nat \<Rightarrow> (clear \<times> bytes \<times> 'r) option \<Rightarrow> (clear \<times> bytes \<times> 'r) option \<Rightarrow> bool" where
  "agree n a b \<longleftrightarrow> a = b \<and> (\<exists>c d x. b = Some (c, d, x) \<and> wf_clear c \<and> length d = n)"

lemma agreeI: "a = Some (c, d, x) \<Longrightarrow> b = Some (c, d, x) \<Longrightarrow> wf_clear c \<Longrightarrow> length d = n \<Longrightarrow> agree n a b"
  by (simp add: agree_def)

lemma agreeE:
  assumes "agree n a b"
  obtains c d x where "a = Some (c, d, x)" "b = Some (c, d, x)" "wf_clear c" "length d = n"
  using assms by (auto simp: agree_def)

lemma band_column_ref:
  assumes "wf_clear c" "length dst = w * h * 4"
  shows "agree (w * h * 4) (band_column w h bd dx r c dst) (ref_band_column w h bd dx r c dst)"
proof (cases "read_u16 r")
  case None
  then show ?thesis using assms by (intro agreeI) (simp_all add: band_column_def ref_band_column_def)
next
  case (Some p)
  obtain header r' where p: "p = (header, r')" by (cases p)
  note em = emit_column_ref [OF assms(2), of dx "b_y bd" "b_height bd"]
  show ?thesis
  proof (cases "header AND 0x8000 \<noteq> 0")
    case True
    have "header AND 0x7FFF \<le> 0x7FFF" by (rule word_and_le1)
    then have "index_get (vbar c) (unat (header AND 0x7FFF)) = Some (vbar c ! unat (header AND 0x7FFF))" (is "_ = Some ?e")
      using assms(1) by (simp add: index_get_def wf_clear_def VBAR_CACHE_def word_le_nat_alt)
    moreover obtain d where "emit_column dst w h dx (b_y bd) (b_height bd) (if px_count ?e = 0 then background_column (b_height bd) (b_color bd) else px_rgba ?e) = Some d"
        "ref_emit_column dst w h dx (b_y bd) (b_height bd) (if px_count ?e = 0 then background_column (b_height bd) (b_color bd) else px_rgba ?e) = Some d"
        "length d = w * h * 4" using em by metis
    ultimately show ?thesis using Some p True assms(1)
      by (intro agreeI [of _ c d "Some r'"]) (simp_all only: band_column_def ref_band_column_def option.case prod.case if_True not_False_eq_True, simp_all)
  next
    case False
    from short_column_ref [OF assms(1), of header r'] show ?thesis
    proof (elim disjE exE conjE)
      assume "short_column header r' c = Some (c, None)" "ref_short_column header r' c = Some (c, None)"
      then show ?thesis using Some p False assms by (intro agreeI) (simp_all add: band_column_def ref_band_column_def)
    next
      fix c' idx y r2 short
      assume sh: "short_column header r' c = Some (c', Some (idx, y, r2))" "ref_short_column header r' c = Some (c', Some (short, y, r2))"
        "index_get (short_vbar c') idx = Some short" "wf_clear c'" "wf_pixels short"
      from compose_column_ref [OF sh(5), of bd y] obtain v where v: "compose_column bd short y = Some v" "length v = b_height bd * 4"
        "ref_compose [0..<px_count short] (b_height bd) (px_rgba short) y (background_column (b_height bd) (b_color bd)) = Some v" by blast
      have "wf_pixels \<lparr>px_count = b_height bd, px_rgba = v\<rparr>" using v(2) by (simp add: wf_pixels_def)
      from set_slot_ok [OF _ this, of "vbar_cursor c'" "vbar c'"] sh(4) obtain slots where
        sl: "set_slot (vbar c') (vbar_cursor c') \<lparr>px_count = b_height bd, px_rgba = v\<rparr> = Some slots" "length slots = length (vbar c')"
          "\<forall>p \<in> set slots. wf_pixels p" by (auto simp: wf_clear_def)
      have wf: "wf_clear (c'\<lparr>vbar := slots, vbar_cursor := (vbar_cursor c' + 1) mod VBAR_CACHE\<rparr>)"
        using sh(4) sl(2,3) by (auto simp: wf_clear_def VBAR_CACHE_def)
      obtain d where "emit_column dst w h dx (b_y bd) (b_height bd) v = Some d" "ref_emit_column dst w h dx (b_y bd) (b_height bd) v = Some d"
        "length d = w * h * 4" using em [of v] by auto
      then show ?thesis using Some p False sh v sl wf
        by (intro agreeI [OF _ _ wf, of _ d "Some r2"]) (simp_all add: band_column_def ref_band_column_def)
    qed
  qed
qed

lemma band_columns_ref:
  "wf_clear c \<Longrightarrow> length dst = w * h * 4 \<Longrightarrow>
   agree (w * h * 4) (band_columns n w h bd dx r c dst) (ref_band_columns n w h bd dx r c dst)"
proof (induction n arbitrary: dx r c dst)
  case 0
  then show ?case by (intro agreeI) simp_all
next
  case (Suc n)
  from band_column_ref [OF Suc.prems, of bd dx r] obtain c' d x where
    b: "band_column w h bd dx r c dst = Some (c', d, x)" "ref_band_column w h bd dx r c dst = Some (c', d, x)" "wf_clear c'" "length d = w * h * 4"
    by (rule agreeE)
  show ?case
  proof (cases x)
    case None
    then show ?thesis using b by (intro agreeI) simp_all
  next
    case (Some r')
    then show ?thesis using b Suc.IH [OF b(3,4), of "dx + 1" r'] by simp
  qed
qed

lemma bands_ref:
  "wf_clear c \<Longrightarrow> length dst = w * h * 4 \<Longrightarrow>
   bands w h r c dst = ref_bands w h r c dst \<and> (\<exists>c' d. ref_bands w h r c dst = Some (c', d) \<and> wf_clear c' \<and> length d = w * h * 4)"
proof (induction "length r" arbitrary: r c dst rule: less_induct)
  case less
  show ?case
  proof (cases "length r < 11 \<or> band_header r = None")
    case True
    then show ?thesis using less.prems by (auto simp: bands.simps [of w h r] ref_bands.simps [of w h r])
  next
    case False
    then obtain bd r1 where h: "band_header r = Some (bd, r1)" by auto
    from band_columns_ref [OF less.prems, of "b_count bd" bd "b_x bd" r1] obtain c' d x where
      b: "band_columns (b_count bd) w h bd (b_x bd) r1 c dst = Some (c', d, x)"
        "ref_band_columns (b_count bd) w h bd (b_x bd) r1 c dst = Some (c', d, x)" "wf_clear c'" "length d = w * h * 4" by (rule agreeE)
    show ?thesis
    proof (cases x)
      case None
      then show ?thesis using b False h by (simp add: bands.simps [of w h r] ref_bands.simps [of w h r])
    next
      case (Some r2)
      have "length r2 < length r" using band_header_shrinks [OF h] band_columns_shrinks [OF b(1) [unfolded Some]] by simp
      from less.hyps [OF this b(3,4)] show ?thesis
        using b False h Some by (simp add: bands.simps [of w h r] ref_bands.simps [of w h r])
    qed
  qed
qed

section \<open>Residual layer\<close>

text \<open>A run, four pixels at a time, is the run; it stays in the tile.\<close>

lemma fill_run_paste:
  "i \<le> run \<Longrightarrow> (idx + run) * 4 \<le> length dst \<Longrightarrow>
   fill_run idx i run (pixel col) dst = paste dst ((idx + i) * 4) (pixels_bytes (replicate (run - i) col))"
proof (induction "run - i" arbitrary: i dst rule: less_induct)
  case less
  have step: "fill_run idx (i + k) run (pixel col) d = paste d ((idx + (i + k)) * 4) (pixels_bytes (replicate (run - (i + k)) col))"
    if "0 < k" "i + k \<le> run" "length d = length dst" for k d
    using less.hyps [of "i + k" d] that less.prems(2) by simp
  have two: "paste dst ((idx + i) * 4) (pixels_bytes (replicate (run - i) col)) =
      do { d \<leftarrow> paste dst ((idx + i) * 4) (pixels_bytes (replicate k col));
           paste d ((idx + (i + k)) * 4) (pixels_bytes (replicate (run - (i + k)) col)) }" if "i + k \<le> run" for k
  proof -
    have "run - i = k + (run - (i + k))" using that by simp
    then have "replicate (run - i) col = replicate k col @ replicate (run - (i + k)) col" by (simp only: replicate_add)
    moreover have "(idx + i) * 4 + length (pixels_bytes (replicate k col)) = (idx + (i + k)) * 4" by simp
    ultimately show ?thesis by (simp only: pixels_bytes_simps paste_append)
  qed
  show ?case
  proof (cases "i + 4 \<le> run")
    case True
    have "pixels_bytes (replicate 4 col) = pixel col @ pixel col @ pixel col @ pixel col" by (simp add: numeral_eq_Suc)
    then show ?thesis unfolding two [OF True] using True step [of 4]
      by (subst fill_run.simps) (cases "paste dst ((idx + i) * 4) (pixels_bytes (replicate 4 col))"; auto dest: paste_length)
  next
    case F: False
    show ?thesis
    proof (cases "i < run")
      case True
      then show ?thesis using F two [of 1] step [of 1]
        by (subst fill_run.simps) (cases "paste dst ((idx + i) * 4) (pixel col)"; auto dest: paste_length)
    next
      case False
      then show ?thesis using F less.prems by (subst fill_run.simps) simp
    qed
  qed
qed

lemma residual_loop_ok:
  "length dst = n * 4 \<Longrightarrow> \<exists>d. residual_loop n idx r dst = Some d \<and> length d = n * 4"
proof (induction "length r" arbitrary: r idx dst rule: less_induct)
  case less
  show ?case
  proof (cases "length r < 4 \<or> idx \<ge> n \<or> residual_run r = None")
    case True
    then show ?thesis using less.prems by (auto simp: residual_loop.simps [of n idx r])
  next
    case False
    then obtain col run r' where rr: "residual_run r = Some ((col, run), r')" by (cases "residual_run r") auto
    define k where "k = min (unat run) (n - idx)"
    have "idx \<le> n" "k \<le> n - idx" using False by (simp_all add: k_def)
    then have "idx + k \<le> n" by linarith
    then have "(idx + k) * 4 \<le> length dst" unfolding less.prems by (rule mult_le_mono1)
    from fill_run_paste [OF _ this, of 0 col] this obtain d where
      d: "fill_run idx 0 k (pixel col) dst = Some d" "length d = n * 4" using less.prems by (auto simp: paste_def)
    from less.hyps [OF residual_run_shrinks [OF rr] d(2), of "idx + k"] show ?thesis
      using False rr d by (simp add: residual_loop.simps [of n idx r] Let_def k_def)
  qed
qed

section \<open>Streams\<close>

lemma compose_layers_ref:
  assumes "wf_clear c" "length dst = w * h * 4"
  shows "compose_layers sizes r w h c dst = ref_compose_layers sizes r w h c dst \<and>
    (\<exists>c' d. ref_compose_layers sizes r w h c dst = Some (c', d) \<and> wf_clear c' \<and> length d = w * h * 4)"
proof -
  obtain rb bb sb where s: "sizes = (rb, bb, sb)" by (cases sizes)
  obtain d1 r1 where 1: "(case layer rb r of None \<Rightarrow> Some (dst, r) | Some (s, r) \<Rightarrow> map_option (\<lambda>dst. (dst, r)) (residual s w h dst)) = Some (d1, r1)"
      "length d1 = w * h * 4"
  proof (cases "layer rb r")
    case (Some p)
    then show thesis using that residual_loop_ok [OF assms(2), of 0 "fst p"] by (cases p) (auto simp: residual_def)
  qed (use that assms in simp)
  obtain c2 d2 r2 where 2: "(case layer bb r1 of None \<Rightarrow> Some (c, d1, r1) | Some (s, r) \<Rightarrow> map_option (\<lambda>(c, dst). (c, dst, r)) (bands w h s c d1)) = Some (c2, d2, r2)"
      "(case layer bb r1 of None \<Rightarrow> Some (c, d1, r1) | Some (s, r) \<Rightarrow> map_option (\<lambda>(c, dst). (c, dst, r)) (ref_bands w h s c d1)) = Some (c2, d2, r2)"
      "wf_clear c2" "length d2 = w * h * 4"
  proof (cases "layer bb r1")
    case (Some p)
    then show thesis using that bands_ref [OF assms(1) 1(2), of "fst p"] by (cases p) auto
  qed (use that assms 1 in simp)
  obtain d3 where 3: "(case layer sb r2 of None \<Rightarrow> Some (c2, d2) | Some (s, r) \<Rightarrow> map_option (\<lambda>dst. (c2, dst)) (subcodecs s w h d2)) = Some (c2, d3)"
      "(case layer sb r2 of None \<Rightarrow> Some (c2, d2) | Some (s, r) \<Rightarrow> map_option (\<lambda>dst. (c2, dst)) (ref_subcodecs s w h d2)) = Some (c2, d3)"
      "length d3 = w * h * 4"
  proof (cases "layer sb r2")
    case (Some p)
    then show thesis using that subcodecs_ref [OF 2(4), of "fst p"] by (cases p) auto
  qed (use that 2 in simp)
  show ?thesis using 1 2 3 by (simp add: s compose_layers_def ref_compose_layers_def)
qed

lemma length_blank_or_seed [simp]: "length (blank_or_seed seed w h) = w * h * 4"
  by (simp add: blank_or_seed_def split: option.split)

text \<open>One call: the two agree, neither panics, the state stays well formed, and a tile has the size asked for.\<close>

lemma decode_seeded_ref:
  assumes "wf_clear c"
  shows "decode_seeded c data wdt hgt seed = ref_decode_seeded c data wdt hgt seed \<and>
    (\<exists>c' res. ref_decode_seeded c data wdt hgt seed = Some (c', res) \<and> wf_clear c' \<and>
       (\<forall>d. res = Some d \<longrightarrow> length d = unat wdt * unat hgt * 4))"
proof (cases "unat wdt = 0 \<or> unat hgt = 0 \<or> stream_header data = None")
  case True
  then show ?thesis using assms by (auto simp: decode_seeded_def ref_decode_seeded_def Let_def)
next
  case False
  then obtain flags glyph r where h: "stream_header data = Some (flags, glyph, r)" by (cases "stream_header data") auto
  define c1 where "c1 = (if flags AND FLAG_CACHE_RESET \<noteq> 0 then c\<lparr>vbar_cursor := 0, short_vbar_cursor := 0\<rparr> else c)"
  have wf1: "wf_clear c1" using assms by (auto simp: c1_def wf_clear_def VBAR_CACHE_def SHORT_VBAR_CACHE_def)
  have wfr: "wf_clear (c\<lparr>vbar_cursor := 0, short_vbar_cursor := 0\<rparr>)"
    using assms by (auto simp: wf_clear_def VBAR_CACHE_def SHORT_VBAR_CACHE_def)
  let ?w = "unat wdt" and ?h = "unat hgt"
  show ?thesis
  proof (cases "case glyph of None \<Rightarrow> False | Some gi \<Rightarrow> gi \<ge> GLYPH_CACHE")
    case True
    then show ?thesis using False h wf1 by (simp add: decode_seeded_def ref_decode_seeded_def c1_def)
  next
    case in_range: False
    show ?thesis
    proof (cases "glyph \<noteq> None \<and> flags AND FLAG_GLYPH_HIT \<noteq> 0")
      case True
      then obtain gi where gi: "glyph = Some gi" "gi < GLYPH_CACHE" using in_range by auto
      then have g: "index_get (glyphs c1) gi = Some (glyphs c1 ! gi)" "wf_pixels (glyphs c1 ! gi)"
        using wf1 by (auto simp: index_get_def wf_clear_def)
      then show ?thesis using False h wf1 in_range True gi(1)
        by (auto simp: decode_seeded_def ref_decode_seeded_def c1_def [symmetric] slice_get_def wf_pixels_def Let_def)
    next
      case no_hit: False
      show ?thesis
      proof (cases "(glyph \<noteq> None \<and> ?w * ?h > 1024 * 1024) \<or> layer_sizes r = None")
        case True
        then show ?thesis using False h wfr assms in_range no_hit by (auto simp: decode_seeded_def ref_decode_seeded_def Let_def)
      next
        case small: False
        then obtain sizes r' where ls: "layer_sizes r = Some (sizes, r')" by auto
        from compose_layers_ref [OF wf1, of "blank_or_seed seed ?w ?h" ?w ?h sizes r'] obtain c2 d where
          d: "compose_layers sizes r' ?w ?h c1 (blank_or_seed seed ?w ?h) = Some (c2, d)"
            "ref_compose_layers sizes r' ?w ?h c1 (blank_or_seed seed ?w ?h) = Some (c2, d)" "wf_clear c2" "length d = ?w * ?h * 4" by auto
        obtain c3 where c3: "(case glyph of None \<Rightarrow> Some c2 | Some gi \<Rightarrow> do {
            slots \<leftarrow> set_slot (glyphs c2) gi \<lparr>px_count = ?w * ?h, px_rgba = d\<rparr>; Some (c2\<lparr>glyphs := slots\<rparr>) }) = Some c3" "wf_clear c3"
        proof (cases glyph)
          case (Some gi)
          have "wf_pixels \<lparr>px_count = ?w * ?h, px_rgba = d\<rparr>" using d(4) by (simp add: wf_pixels_def)
          from set_slot_ok [OF _ this, of gi "glyphs c2"] d(3) in_range Some obtain slots where
            "set_slot (glyphs c2) gi \<lparr>px_count = ?w * ?h, px_rgba = d\<rparr> = Some slots" "length slots = length (glyphs c2)"
              "\<forall>p \<in> set slots. wf_pixels p" by (auto simp: wf_clear_def)
          then show thesis using that [of "c2\<lparr>glyphs := slots\<rparr>"] d(3) Some by (auto simp: wf_clear_def)
        qed (use that d(3) in simp)
        have "decode_seeded c data wdt hgt seed = Some (c3, Some d)" "ref_decode_seeded c data wdt hgt seed = Some (c3, Some d)"
          using False h in_range no_hit small ls d(1,2) c3(1)
          by (simp_all only: decode_seeded_def ref_decode_seeded_def c1_def [symmetric] Let_def option.case prod.case if_False) simp_all
        then show ?thesis using c3(2) d(4) by simp
      qed
    qed
  qed
qed

end
