(* ===== verification/ClearStreams.thy ===== *)
theory ClearStreams
  imports ClearEquivalence
begin

text \<open>A session's calls of the ClearCodec decoder: what the glyph cache gives back, and what the seed is needed for.\<close>

section \<open>Calls\<close>

type_synonym clear_call = "bytes \<times> u16 \<times> u16 \<times> bytes option"

primrec decode_calls :: "clear \<Rightarrow> clear_call list \<Rightarrow> (clear \<times> bytes option list) option" where
  "decode_calls c [] = Some (c, [])"
| "decode_calls c (k # ks) = (case k of (data, w, h, seed) \<Rightarrow> do {
     (c, res) \<leftarrow> decode_seeded c data w h seed; (c, rs) \<leftarrow> decode_calls c ks; Some (c, res # rs) })"

primrec ref_calls :: "clear \<Rightarrow> clear_call list \<Rightarrow> (clear \<times> bytes option list) option" where
  "ref_calls c [] = Some (c, [])"
| "ref_calls c (k # ks) = (case k of (data, w, h, seed) \<Rightarrow> do {
     (c, res) \<leftarrow> ref_decode_seeded c data w h seed; (c, rs) \<leftarrow> ref_calls c ks; Some (c, res # rs) })"

definition tile_ok :: "clear_call \<Rightarrow> bytes option \<Rightarrow> bool" where
  "tile_ok k res = (case k of (data, w, h, seed) \<Rightarrow> (case res of None \<Rightarrow> True | Some d \<Rightarrow> length d = unat w * unat h * 4))"

lemma calls_ref:
  "wf_clear c \<Longrightarrow>
   \<exists>c' rs. decode_calls c ks = Some (c', rs) \<and> ref_calls c ks = Some (c', rs) \<and> wf_clear c' \<and> list_all2 tile_ok ks rs"
proof (induction ks arbitrary: c)
  case (Cons k ks)
  obtain data w h seed where k: "k = (data, w, h, seed)" by (cases k)
  from decode_seeded_ref [OF Cons.prems, of data w h seed] obtain c' res where
    d: "decode_seeded c data w h seed = Some (c', res)" "ref_decode_seeded c data w h seed = Some (c', res)" "wf_clear c'"
      "\<forall>d. res = Some d \<longrightarrow> length d = unat w * unat h * 4" by auto
  from Cons.IH [OF d(3)] obtain c2 rs where
    r: "decode_calls c' ks = Some (c2, rs)" "ref_calls c' ks = Some (c2, rs)" "wf_clear c2" "list_all2 tile_ok ks rs" by auto
  have "tile_ok k res" using d(4) by (simp add: k tile_ok_def split: option.split)
  then show ?case using r d by (simp add: k)
qed simp

section \<open>Glyphs\<close>

lemma short_column_glyphs: "short_column header r c = Some (c', x) \<Longrightarrow> glyphs c' = glyphs c"
  by (auto simp: short_column_def Let_def split: if_splits option.splits bind_splits)

lemma band_column_glyphs: "band_column w h bd dx r c dst = Some (c', x) \<Longrightarrow> glyphs c' = glyphs c"
  by (auto simp: band_column_def split: if_splits option.splits bind_splits dest!: short_column_glyphs)

lemma band_columns_glyphs: "band_columns n w h bd dx r c dst = Some (c', x) \<Longrightarrow> glyphs c' = glyphs c"
  by (induction n arbitrary: dx r c dst) (fastforce split: bind_splits option.splits dest: band_column_glyphs)+

lemma bands_glyphs: "bands w h r c dst = Some (c', d) \<Longrightarrow> glyphs c' = glyphs c"
proof (induction "length r" arbitrary: r c dst rule: less_induct)
  case less
  show ?case
  proof (cases "length r < 11 \<or> band_header r = None")
    case True
    then show ?thesis using less.prems by (auto simp: bands.simps [of w h r] split: if_splits)
  next
    case False
    then obtain bd r1 where h: "band_header r = Some (bd, r1)" by auto
    then obtain c1 d1 x where b: "band_columns (b_count bd) w h bd (b_x bd) r1 c dst = Some (c1, d1, x)"
      using False less.prems by (auto simp: bands.simps [of w h r] split: option.splits)
    note g = band_columns_glyphs [OF b]
    show ?thesis
    proof (cases x)
      case None
      then show ?thesis using less.prems False h b g by (simp add: bands.simps [of w h r])
    next
      case (Some r2)
      have "length r2 < length r" using band_header_shrinks [OF h] band_columns_shrinks [OF b [unfolded Some]] by simp
      then show ?thesis using less.hyps [of r2 c1 d1] less.prems False h b g Some by (simp add: bands.simps [of w h r])
    qed
  qed
qed

lemma compose_layers_glyphs: "compose_layers sizes r w h c dst = Some (c', d) \<Longrightarrow> glyphs c' = glyphs c"
  by (auto simp: compose_layers_def split: option.splits bind_splits prod.splits dest!: bands_glyphs)

text \<open>A stream stores its tile under a glyph, or replays one.\<close>

definition stores :: "bytes \<Rightarrow> nat \<Rightarrow> bool" where
  "stores data gi = (case stream_header data of Some (flags, Some gi', r) \<Rightarrow> gi' = gi \<and> flags AND FLAG_GLYPH_HIT = 0 | _ \<Rightarrow> False)"

definition replays :: "bytes \<Rightarrow> nat \<Rightarrow> bool" where
  "replays data gi = (case stream_header data of Some (flags, Some gi', r) \<Rightarrow> gi' = gi \<and> flags AND FLAG_GLYPH_HIT \<noteq> 0 | _ \<Rightarrow> False)"

lemma decode_stores:
  assumes "decode_seeded c data w h seed = Some (c', Some tile)" "stores data gi"
  shows "gi < length (glyphs c') \<and> gi < GLYPH_CACHE \<and> glyphs c' ! gi = \<lparr>px_count = unat w * unat h, px_rgba = tile\<rparr>"
  using assms
  by (auto simp: decode_seeded_def stores_def Let_def set_slot_def split: if_splits option.splits bind_splits prod.splits)

lemma decode_keeps:
  assumes "decode_seeded c data w h seed = Some (c', res)" "\<not> stores data gi"
  shows "length (glyphs c') = length (glyphs c) \<and> glyphs c' ! gi = glyphs c ! gi"
  using assms
  by (auto simp: decode_seeded_def stores_def Let_def set_slot_def split: if_splits option.splits bind_splits prod.splits
      dest!: compose_layers_glyphs)

lemma calls_keep:
  "decode_calls c ks = Some (c', rs) \<Longrightarrow> \<forall>(data, _) \<in> set ks. \<not> stores data gi \<Longrightarrow>
   length (glyphs c') = length (glyphs c) \<and> glyphs c' ! gi = glyphs c ! gi"
proof (induction ks arbitrary: c rs)
  case (Cons k ks)
  obtain data w h seed where k: "k = (data, w, h, seed)" by (cases k)
  from Cons.prems(1) obtain c1 res rs' where d: "decode_seeded c data w h seed = Some (c1, res)" "decode_calls c1 ks = Some (c', rs')"
    by (auto simp: k split: bind_splits)
  from Cons.IH [OF d(2)] Cons.prems(2) decode_keeps [OF d(1), of gi] show ?case by (auto simp: k)
qed simp

section \<open>What needs no seed\<close>

lemma layer_some: "layer n r = Some (s, r') \<longleftrightarrow> 0 < n \<and> n \<le> length r \<and> s = take n r \<and> r' = drop n r"
  by (auto simp: layer_def read_take_def)

text \<open>The region \<open>needs_seed\<close> looks at, and when its payload really fills it.\<close>

definition first_region :: "bytes \<Rightarrow> region option" where
  "first_region data = do {
     (flags, glyph, r) \<leftarrow> stream_header data; (sizes, r) \<leftarrow> layer_sizes r; (g, r) \<leftarrow> read_region r; Some g }"

definition fills :: "region \<Rightarrow> bool" where
  "fills g \<longleftrightarrow> (rg_id g = SUBCODEC_RAW \<and> rg_w g * rg_h g * 3 \<le> length (rg_data g)) \<or>
             (rg_id g = SUBCODEC_NSCODEC \<and> nsc_header (rg_data g) \<noteq> None)"

lemma puts_raster_whole:
  "length dst = w * h * 4 \<Longrightarrow> idx + length cs \<le> w * h \<Longrightarrow>
   puts w h (raster 0 0 w idx cs) dst = paste dst (idx * 4) (pixels_bytes cs)"
proof (induction cs arbitrary: idx dst)
  case (Cons c cs)
  then have i: "idx < w * h" by simp
  then have "0 < w" by (cases w) simp_all
  then have w: "0 < w" "idx mod w < w" by simp_all
  have "idx div w < h" using i w(1) by (simp add: less_mult_imp_div_less mult.commute)
  moreover have "(idx div w * w + idx mod w) * 4 = idx * 4" by simp
  ultimately have p: "put dst w h (0 + idx mod w) (0 + idx div w) c = paste dst (idx * 4) (pixel c)" using w(2) by (simp add: put_def)
  show ?case
  proof (cases "paste dst (idx * 4) (pixel c)")
    case None
    then show ?thesis using p by (simp add: paste_append)
  next
    case (Some d)
    then have "length d = w * h * 4" using Cons.prems(1) by (simp add: paste_length)
    from Cons.IH [OF this, of "idx + 1"] Cons.prems(2) show ?thesis using p Some by (simp add: paste_append add.commute)
  qed
qed simp

lemma ref_nsc_rows_whole:
  "length dst = w * h * 4 \<Longrightarrow> y \<le> h \<Longrightarrow>
   ref_nsc_rows [y..<h] hdr planes w h 0 0 w h dst =
     paste dst (y * w * 4) (pixels_bytes (concat (map (\<lambda>y. map (\<lambda>x. ref_nsc_pixel hdr planes w h x y) [0..<w]) [y..<h])))"
proof (induction "h - y" arbitrary: y dst)
  case 0
  then show ?case by (simp add: mult.commute)
next
  case (Suc n)
  then have y: "y < h" and u: "[y..<h] = y # [y + 1..<h]" by (simp_all add: upt_conv_Cons)
  let ?ps = "map (\<lambda>x. ref_nsc_pixel hdr planes w h x y) [0..<w]"
  have "y * w + length ?ps \<le> w * h" using y mult_le_mono1 [of "Suc y" h w] by (simp add: mult.commute add.commute)
  then have row: "ref_nsc_row [0..<w] y hdr planes w h 0 0 w h dst = paste dst (y * w * 4) (pixels_bytes ?ps)"
    using ref_nsc_row_puts [of 0 w y hdr planes h 0 0 w h dst] raster_row [of 0 ?ps w 0 0 y] puts_raster_whole [OF Suc.prems(1), of "y * w" ?ps] by simp
  have off: "y * w * 4 + length (pixels_bytes ?ps) = (y + 1) * w * 4" by (simp add: algebra_simps)
  show ?case unfolding u ref_nsc_rows.simps row list.map concat.simps pixels_bytes_simps paste_append off
  proof (cases "paste dst (y * w * 4) (pixels_bytes ?ps)")
    case (Some d)
    then have "length d = w * h * 4" using Suc.prems(1) by (simp add: paste_length)
    from Suc.hyps(1) [of "y + 1" d, OF _ this] Suc.hyps(2) y Some
    show "do { dst \<leftarrow> paste dst (y * w * 4) (pixels_bytes ?ps); ref_nsc_rows [y + 1..<h] hdr planes w h 0 0 w h dst } =
      do { d \<leftarrow> paste dst (y * w * 4) (pixels_bytes ?ps);
           paste d ((y + 1) * w * 4) (pixels_bytes (concat (map (\<lambda>y. map (\<lambda>x. ref_nsc_pixel hdr planes w h x y) [0..<w]) [y + 1..<h]))) }"
      by simp
  qed simp
qed

lemma paste_whole: "length bs = length dst \<Longrightarrow> paste dst 0 bs = Some bs"
  by (simp add: paste_def)

text \<open>A region over the whole tile that fills it gives the same tile over any background.\<close>

lemma fills_whole:
  assumes "fills g" "rg_x g = 0" "rg_y g = 0" "rg_w g = w" "rg_h g = h" "length d = w * h * 4" "length d' = w * h * 4"
  shows "decode_region g w h d = decode_region g w h d'"
proof -
  have "ref_decode_region g w h d = ref_decode_region g w h d'"
    using assms(1) unfolding fills_def
  proof (elim disjE conjE)
    assume raw: "rg_id g = SUBCODEC_RAW" "rg_w g * rg_h g * 3 \<le> length (rg_data g)"
    let ?cs = "take (w * h) (bgr_pixels (rg_data g))"
    have l: "length ?cs = w * h" using raw(2) assms(4,5) by simp
    have "puts w h (raster 0 0 w 0 ?cs) e = Some (pixels_bytes ?cs)" if "length e = w * h * 4" for e
      using puts_raster_whole [OF that, of 0 ?cs] paste_whole [of "pixels_bytes ?cs" e] l that by simp
    then show ?thesis using raw assms by (simp add: ref_decode_region_def raw_region_puts(2))
  next
    assume nsc: "rg_id g = SUBCODEC_NSCODEC" "nsc_header (rg_data g) \<noteq> None"
    then obtain hdr where hdr: "nsc_header (rg_data g) = Some hdr" by auto
    from nsc_planes_ref [of "rg_data g" hdr w h] obtain planes where pl: "ref_nsc_planes (rg_data g) hdr w h = Some planes" by auto
    let ?ps = "concat (map (\<lambda>y. map (\<lambda>x. ref_nsc_pixel hdr planes w h x y) [0..<w]) [0..<h])"
    have l: "length ?ps = w * h" by (simp add: length_concat comp_def sum_list_triv mult.commute)
    have "ref_nsc_rows [0..<h] hdr planes w h 0 0 w h e = Some (pixels_bytes ?ps)" if "length e = w * h * 4" for e
      using ref_nsc_rows_whole [OF that, of 0 hdr planes] paste_whole [of "pixels_bytes ?ps" e] l that by simp
    then show ?thesis using nsc hdr pl assms
      by (auto simp: ref_decode_region_def ref_nscodec_region_def SUBCODEC_RAW_def SUBCODEC_NSCODEC_def)
  qed
  then show ?thesis using decode_region_ref assms(6,7) by simp
qed

lemma read_u8_iff: "read_u8 r = Some (v, r') \<longleftrightarrow> r = v # r'"
  by (cases r rule: read_u8.cases) auto

lemma read_u16_iff: "read_u16 r = Some (v, r') \<longleftrightarrow> r = u16_le v @ r'"
proof
  assume "read_u16 r = Some (v, r')"
  then show "r = u16_le v @ r'" by (cases r rule: read_u16.cases) (auto simp: u16_le_u16_of_le)
next
  assume r: "r = u16_le v @ r'"
  have "length (u16_le v) = Suc (Suc 0)" by simp
  then obtain a b where ab: "u16_le v = [a, b]" unfolding length_Suc_conv length_0_conv by blast
  then have "u16_of_le [a, b] = v" using u16_of_le_u16_le [of v] by simp
  then show "read_u16 r = Some (v, r')" by (simp add: r ab)
qed

lemma read_u32_iff: "read_u32 r = Some (v, r') \<longleftrightarrow> r = u32_le v @ r'"
proof
  assume "read_u32 r = Some (v, r')"
  then show "r = u32_le v @ r'" by (cases r rule: read_u32.cases) (auto simp: u32_le_u32_of_le)
next
  assume r: "r = u32_le v @ r'"
  have "length (u32_le v) = Suc (Suc (Suc (Suc 0)))" by simp
  then obtain a b c d where ab: "u32_le v = [a, b, c, d]" unfolding length_Suc_conv length_0_conv by blast
  then have "u32_of_le [a, b, c, d] = v" using u32_of_le_u32_le [of v] by simp
  then show "read_u32 r = Some (v, r')" by (simp add: r ab)
qed

lemma read_take_iff: "read_take n r = Some (s, r') \<longleftrightarrow> r = s @ r' \<and> length s = n"
  by (auto simp: read_take_def)

lemmas read_iffs = read_u8_iff read_u16_iff read_u32_iff read_take_iff

text \<open>What \<open>needs_seed\<close> has seen when it says no.\<close>

lemma needs_seed_false:
  assumes "\<not> needs_seed data wdt hgt" "stream_header data = Some (flags, glyph, r)" "glyph = None \<or> flags AND FLAG_GLYPH_HIT = 0"
  obtains bc i r2 where "r = u32_le 0 @ u32_le 0 @ u32_le (13 + bc) @ u16_le 0 @ u16_le 0 @ u16_le wdt @ u16_le hgt @ u32_le bc @ [i] @ r2"
    "13 + bc > 0"
  using assms
  by (fastforce simp: needs_seed_def bind_eq_Some_conv read_iffs split: option.splits prod.splits if_splits)

lemma read_region_made:
  "read_region (u16_le x @ u16_le y @ u16_le rw @ u16_le rh @ u32_le bc @ [i] @ rest) =
   map_option (\<lambda>(sub, r). (\<lparr>rg_x = unat x, rg_y = unat y, rg_w = unat rw, rg_h = unat rh, rg_id = i, rg_data = sub\<rparr>, r)) (read_take (unat bc) rest)"
proof -
  have r: "read_u16 (u16_le v @ r) = Some (v, r)" "read_u32 (u32_le q @ r) = Some (q, r)" for v q r by (simp_all add: read_iffs)
  show ?thesis by (cases "read_take (unat bc) rest") (simp_all add: read_region_def r split: prod.split)
qed

definition glyph_hit :: "bytes \<Rightarrow> bool" where
  "glyph_hit data = (case stream_header data of Some (flags, Some gi, r) \<Rightarrow> flags AND FLAG_GLYPH_HIT \<noteq> 0 | _ \<Rightarrow> False)"

lemma subcodecs_one:
  assumes "read_region s = Some (g, [])" "length s \<ge> 13"
  shows "subcodecs s w h dst = decode_region g w h dst"
  using assms by (cases "decode_region g w h dst") (simp_all add: subcodecs.simps [of s] subcodecs.simps [of "[]"])

lemma compose_filled:
  assumes "r = u16_le 0 @ u16_le 0 @ u16_le wdt @ u16_le hgt @ u32_le bc @ [i] @ rest" "read_region r = Some (g, r')" "fills g"
    "13 + unat bc < 2 ^ 32" "length d = unat wdt * unat hgt * 4" "length d' = unat wdt * unat hgt * 4"
  shows "compose_layers (0, 0, unat (13 + bc)) r (unat wdt) (unat hgt) c d = compose_layers (0, 0, unat (13 + bc)) r (unat wdt) (unat hgt) c d'"
proof -
  have n: "unat (13 + bc) = 13 + unat bc" using assms(4) by (simp add: unat_add_lem [THEN iffD1])
  obtain sub r2 where t: "read_take (unat bc) rest = Some (sub, r2)"
    and g: "g = \<lparr>rg_x = 0, rg_y = 0, rg_w = unat wdt, rg_h = unat hgt, rg_id = i, rg_data = sub\<rparr>"
    using assms(2) unfolding assms(1) read_region_made by auto
  have sub: "rest = sub @ r2" "length sub = unat bc" using t by (auto simp: read_take_iff)
  let ?s = "u16_le 0 @ u16_le 0 @ u16_le wdt @ u16_le hgt @ u32_le bc @ [i] @ sub"
  have lay: "layer (unat (13 + bc)) r = Some (?s, r2)" unfolding layer_some n assms(1) sub(1) using sub(2) by simp
  have "read_region ?s = Some (g, [])" unfolding read_region_made g using sub(2) by (simp add: read_take_def)
  then have one: "subcodecs ?s (unat wdt) (unat hgt) e = decode_region g (unat wdt) (unat hgt) e" for e by (rule subcodecs_one) simp
  have "decode_region g (unat wdt) (unat hgt) d = decode_region g (unat wdt) (unat hgt) d'"
    by (rule fills_whole [OF assms(3) _ _ _ _ assms(5,6)]) (simp_all add: g)
  then have "subcodecs ?s (unat wdt) (unat hgt) d = subcodecs ?s (unat wdt) (unat hgt) d'" unfolding one .
  then show ?thesis by (simp add: compose_layers_def layer_def [of 0] lay)
qed

text \<open>A stream of one region that covers a tile of one pixel.\<close>

definition one_region :: "u8 \<Rightarrow> bytes \<Rightarrow> bytes" where
  "one_region i payload =
    [0, 0] @ u32_le 0 @ u32_le 0 @ u32_le (13 + of_nat (length payload)) @
    u16_le 0 @ u16_le 0 @ u16_le 1 @ u16_le 1 @ u32_le (of_nat (length payload)) @ [i] @ payload"

section \<open>Properties\<close>

text \<open>
  C30. The row-wise decoder is the pixel-wise one it replaced: whatever streams a session decodes, whatever their sizes and
  seeds, the two give the same tiles and end in the same state.
\<close>

theorem clear_is_reference: "decode_calls clear_new ks = ref_calls clear_new ks"
  using calls_ref [OF wf_clear_new] by metis

text \<open>
  C31. No stream makes the decoder panic or loop, on any history of calls; a call that gives a tile gives one of exactly the
  size that was asked for.
\<close>

theorem clear_never_panics: "\<exists>c rs. decode_calls clear_new ks = Some (c, rs) \<and> list_all2 tile_ok ks rs"
  using calls_ref [OF wf_clear_new] by metis

text \<open>
  A tile stored under a glyph comes back when the glyph is hit, cut to the size asked for, as long as no call in between
  stored another tile under it.
\<close>

lemma glyph_comes_back:
  assumes "decode_calls clear_new before = Some (c, rs)"
    and "decode_seeded c data w h seed = Some (c1, Some tile)" "stores data gi"
    and "decode_calls c1 ks = Some (c2, rs')" "\<forall>(d, _) \<in> set ks. \<not> stores d gi"
    and "replays hit gi" "0 < w'" "0 < h'" "unat w' * unat h' \<le> unat w * unat h"
  shows "\<exists>c3. decode_seeded c2 hit w' h' seed' = Some (c3, Some (take (unat w' * unat h' * 4) tile))"
proof -
  have "wf_clear c" using calls_ref [OF wf_clear_new, of before] assms(1) by auto
  from decode_seeded_ref [OF this, of data w h seed] assms(2) have l: "length tile = unat w * unat h * 4" by auto
  from decode_stores [OF assms(2,3)] calls_keep [OF assms(4,5)] have g: "gi < length (glyphs c2)" "gi < GLYPH_CACHE"
    "glyphs c2 ! gi = \<lparr>px_count = unat w * unat h, px_rgba = tile\<rparr>" by simp_all
  obtain flags r where h: "stream_header hit = Some (flags, Some gi, r)" "flags AND FLAG_GLYPH_HIT \<noteq> 0"
    using assms(6) by (auto simp: replays_def split: option.splits)
  have "0 < unat w'" "0 < unat h'" using assms(7,8) by (simp_all add: word_less_nat_alt)
  then show ?thesis using h g l assms(9) by (auto simp: decode_seeded_def Let_def index_get_def slice_get_def)
qed

theorem glyph_comes_back_witness:
  "\<exists>c1 c3. decode_seeded clear_new [1, 0, 7, 0, 4, 0, 0, 0, 0, 0, 0, 0, 0, 0, 0, 0, 1, 2, 3, 2] 2 1 None = Some (c1, Some [3, 2, 1, 255, 3, 2, 1, 255]) \<and>
     decode_seeded c1 [3, 9, 7, 0] 1 1 None = Some (c3, Some [3, 2, 1, 255])"
proof -
  let ?data = "[1, 0, 7, 0, 4, 0, 0, 0, 0, 0, 0, 0, 0, 0, 0, 0, 1, 2, 3, 2] :: bytes" and ?tile = "[3, 2, 1, 255, 3, 2, 1, 255] :: bytes"
  have g: "7 < GLYPH_CACHE" by (simp add: GLYPH_CACHE_def)
  have st: "stores ?data 7" "replays [3, 9, 7, 0] 7" by code_simp+
  have hd: "stream_header ?data = Some (1, Some 7, drop 4 ?data)" by code_simp
  have sz: "layer_sizes (drop 4 ?data) = Some ((4, 0, 0), [1, 2, 3, 2])" by code_simp
  have cl: "compose_layers (4, 0, 0) [1, 2, 3, 2] 2 1 clear_new (blank_or_seed None 2 1) = Some (clear_new, ?tile)"
  proof -
    have "layer 4 [1, 2, 3, 2] = Some ([1, 2, 3, 2] :: bytes, [])" by code_simp
    moreover have "residual [1, 2, 3, 2] 2 1 (blank_or_seed None 2 1) = Some ?tile" by code_simp
    moreover have "layer 0 ([] :: bytes) = None" by code_simp
    ultimately show ?thesis by (simp add: compose_layers_def)
  qed
  obtain c1 where c1: "decode_seeded clear_new ?data 2 1 None = Some (c1, Some ?tile)"
    using g hd sz cl
    by (simp add: decode_seeded_def FLAG_CACHE_RESET_def FLAG_GLYPH_HIT_def set_slot_def clear_new_def)
  have "\<exists>c3. decode_seeded c1 [3, 9, 7, 0] 1 1 None = Some (c3, Some (take (unat (1 :: u16) * unat (1 :: u16) * 4) ?tile))"
    by (rule glyph_comes_back [where before = "[]" and ks = "[]", OF _ c1 st(1) _ _ st(2)]) simp_all
  then show ?thesis using c1 by auto
qed

text \<open>
  C32. Where \<open>needs_seed\<close> says no, the tile does not depend on the seed, provided the stream replays a glyph or its region's
  payload fills the region: all the pixels of a raw one, a valid header for NSCodec.
\<close>

theorem seed_unused:
  assumes "\<not> needs_seed data w h" "length data < 2 ^ 32"
    and "glyph_hit data \<or> (\<exists>g. first_region data = Some g \<and> fills g)"
  shows "decode_seeded c data w h seed = decode_seeded c data w h seed'"
proof (cases "unat w = 0 \<or> unat h = 0 \<or> stream_header data = None")
  case True
  then show ?thesis by (auto simp: decode_seeded_def Let_def)
next
  case False
  then obtain flags glyph r where hd: "stream_header data = Some (flags, glyph, r)" by (cases "stream_header data") auto
  show ?thesis
  proof (cases "glyph \<noteq> None \<and> flags AND FLAG_GLYPH_HIT \<noteq> 0")
    case True
    then show ?thesis using hd by (simp add: decode_seeded_def Let_def)
  next
    case no_hit: False
    then have "\<not> glyph_hit data" using hd by (auto simp: glyph_hit_def split: option.splits)
    then obtain g where g: "first_region data = Some g" "fills g" using assms(3) by auto
    have "glyph = None \<or> flags AND FLAG_GLYPH_HIT = 0" using no_hit by simp
    from needs_seed_false [OF assms(1) hd this] obtain bc i r2 where
      r: "r = u32_le 0 @ u32_le 0 @ u32_le (13 + bc) @ u16_le 0 @ u16_le 0 @ u16_le w @ u16_le h @ u32_le bc @ [i] @ r2" by blast
    let ?r1 = "u16_le 0 @ u16_le 0 @ u16_le w @ u16_le h @ u32_le bc @ [i] @ r2"
    have "read_u32 (u32_le v @ x) = Some (v, x)" for v x by (simp add: read_iffs)
    then have ls: "layer_sizes r = Some ((0, 0, unat (13 + bc)), ?r1)" unfolding r layer_sizes_def by simp
    obtain r3 where rr: "read_region ?r1 = Some (g, r3)" using g(1) hd ls by (auto simp: first_region_def bind_eq_Some_conv)
    then have "unat bc \<le> length r2" unfolding read_region_made by (auto simp: read_take_def split: if_splits)
    moreover have "length r2 + 25 \<le> length data"
    proof -
      have "length r \<le> length data" using hd by (auto simp: stream_header_def bind_eq_Some_conv split: if_splits dest!: read_shrinks)
      then show ?thesis unfolding r by simp
    qed
    ultimately have bc: "13 + unat bc < 2 ^ 32" using assms(2) by linarith
    have "compose_layers (0, 0, unat (13 + bc)) ?r1 (unat w) (unat h) c' (blank_or_seed seed (unat w) (unat h)) =
        compose_layers (0, 0, unat (13 + bc)) ?r1 (unat w) (unat h) c' (blank_or_seed seed' (unat w) (unat h))" for c'
      by (rule compose_filled [OF refl rr g(2) bc]) simp_all
    then show ?thesis using hd ls by (simp add: decode_seeded_def Let_def cong: if_cong option.case_cong)
  qed
qed

theorem seed_unused_witness:
  "decode_seeded clear_new ([0, 0, 0, 0, 0, 0, 0, 0, 0, 0, 16, 0, 0, 0, 0, 0, 0, 0, 1, 0, 1, 0, 3, 0, 0, 0, 0, 9, 8, 7]) 1 1 (Some [1, 1, 1, 1]) =
   decode_seeded clear_new ([0, 0, 0, 0, 0, 0, 0, 0, 0, 0, 16, 0, 0, 0, 0, 0, 0, 0, 1, 0, 1, 0, 3, 0, 0, 0, 0, 9, 8, 7]) 1 1 None"
proof (rule seed_unused)
  let ?data = "[0, 0, 0, 0, 0, 0, 0, 0, 0, 0, 16, 0, 0, 0, 0, 0, 0, 0, 1, 0, 1, 0, 3, 0, 0, 0, 0, 9, 8, 7] :: bytes"
  show "\<not> needs_seed ?data 1 1" by code_simp
  have "first_region ?data = Some \<lparr>rg_x = 0, rg_y = 0, rg_w = 1, rg_h = 1, rg_id = 0, rg_data = [9, 8, 7]\<rparr>" by code_simp
  then show "glyph_hit ?data \<or> (\<exists>g. first_region ?data = Some g \<and> fills g)" by (auto simp: fills_def SUBCODEC_RAW_def)
qed simp

text \<open>
  Without that proviso it does: a raw region over the whole tile with no pixels at all, and an NSCodec region of four zero
  bytes, need no seed for \<open>needs_seed\<close>, and are what was there before or black.
\<close>

lemma needs_seed_trusts_payload:
  "\<not> needs_seed (one_region SUBCODEC_RAW []) 1 1 \<and>
   decode_seeded c (one_region SUBCODEC_RAW []) 1 1 (Some [7, 7, 7, 7]) = Some (c, Some [7, 7, 7, 7]) \<and>
   decode_seeded c (one_region SUBCODEC_RAW []) 1 1 None = Some (c, Some [0, 0, 0, 0]) \<and>
   \<not> needs_seed (one_region SUBCODEC_NSCODEC [0, 0, 0, 0]) 1 1 \<and>
   decode_seeded c (one_region SUBCODEC_NSCODEC [0, 0, 0, 0]) 1 1 (Some [7, 7, 7, 7]) = Some (c, Some [7, 7, 7, 7]) \<and>
   decode_seeded c (one_region SUBCODEC_NSCODEC [0, 0, 0, 0]) 1 1 None = Some (c, Some [0, 0, 0, 0])"
proof -
  have raw: "\<not> needs_seed (one_region SUBCODEC_RAW []) 1 1" by code_simp
  have nsc: "\<not> needs_seed (one_region SUBCODEC_NSCODEC [0, 0, 0, 0]) 1 1" by code_simp
  have one: "decode_seeded c (one_region i pay) 1 1 seed = map_option (\<lambda>dst. (c, Some dst)) (subcodecs s 1 1 (blank_or_seed seed 1 1))"
    if "stream_header (one_region i pay) = Some (0, None, r)" "layer_sizes r = Some ((0, 0, n), s)" "layer n s = Some (s, [])" for i pay seed r n s
    using that by (simp add: decode_seeded_def FLAG_CACHE_RESET_def compose_layers_def layer_def [of 0]) (cases "subcodecs s (Suc 0) (Suc 0) (blank_or_seed seed (Suc 0) (Suc 0))"; simp)
  let ?raw = "[0, 0, 0, 0, 1, 0, 1, 0, 0, 0, 0, 0, 0] :: bytes" and ?nsc = "[0, 0, 0, 0, 1, 0, 1, 0, 4, 0, 0, 0, 1, 0, 0, 0, 0] :: bytes"
  have r: "stream_header (one_region SUBCODEC_RAW []) = Some (0, None, [0, 0, 0, 0, 0, 0, 0, 0, 13, 0, 0, 0] @ ?raw)"
    "layer_sizes ([0, 0, 0, 0, 0, 0, 0, 0, 13, 0, 0, 0] @ ?raw) = Some ((0, 0, 13), ?raw)" "layer 13 ?raw = Some (?raw, [])" by code_simp+
  have n: "stream_header (one_region SUBCODEC_NSCODEC [0, 0, 0, 0]) = Some (0, None, [0, 0, 0, 0, 0, 0, 0, 0, 17, 0, 0, 0] @ ?nsc)"
    "layer_sizes ([0, 0, 0, 0, 0, 0, 0, 0, 17, 0, 0, 0] @ ?nsc) = Some ((0, 0, 17), ?nsc)" "layer 17 ?nsc = Some (?nsc, [])" by code_simp+
  have d: "subcodecs ?raw 1 1 (blank_or_seed (Some [7, 7, 7, 7]) 1 1) = Some [7, 7, 7, 7]" "subcodecs ?raw 1 1 (blank_or_seed None 1 1) = Some [0, 0, 0, 0]"
    "subcodecs ?nsc 1 1 (blank_or_seed (Some [7, 7, 7, 7]) 1 1) = Some [7, 7, 7, 7]" "subcodecs ?nsc 1 1 (blank_or_seed None 1 1) = Some [0, 0, 0, 0]"
    by code_simp+
  show ?thesis unfolding one [OF r] one [OF n] d using raw nsc by simp
qed

end
