(* ===== verification/Floats.thy ===== *)
theory Floats
  imports Complex_Main "HOL-Library.Log_Nat"
begin

text \<open>
  The \<open>f64\<close> and \<open>f32\<close> values of the rate controller, as rational numbers with the
  rounding of IEEE 754 written out: \<open>fl p x\<close> is \<open>x\<close> rounded to \<open>p\<close>
  significant bits, to nearest, ties to even, and each operation of the source is the exact one
  followed by that rounding. Infinities and NaN are not values here: where the source can make
  one (a division by zero, \<open>f64::INFINITY\<close> as a neutral element) the model writes the case out.
  The exponent is not bounded: the values are bit rates, byte counts and times, far inside the
  range of both formats, and never subnormal but for zero.

  The locale \<open>rounding\<close> is what the proofs use of it: rounding is monotone, leaves what
  it has rounded alone, and errs by at most one part in \<open>2 ^ p\<close>.
\<close>

section \<open>Rounding\<close>

definition round_even :: "rat \<Rightarrow> int" where
  "round_even x =
    (let n = \<lfloor>x\<rfloor>; d = x - of_int n in
     if d < 1 / 2 then n else if 1 / 2 < d then n + 1 else if even n then n else n + 1)"

definition pow2 :: "int \<Rightarrow> rat" where
  "pow2 e = (if 0 \<le> e then 2 ^ nat e else 1 / 2 ^ nat (- e))"

definition exponent :: "rat \<Rightarrow> int" where
  "exponent x =
    (let (a, b) = quotient_of x; k = bitlen a - bitlen b in if pow2 k \<le> x then k else k - 1)"

definition fl :: "nat \<Rightarrow> rat \<Rightarrow> rat" where
  "fl p x =
    (if x = 0 then 0
     else let m = pow2 (int p - 1 - exponent \<bar>x\<bar>) in sgn x * (of_int (round_even (\<bar>x\<bar> * m)) / m))"

abbreviation f64 :: "rat \<Rightarrow> rat" where "f64 \<equiv> fl 53"
abbreviation f32 :: "rat \<Rightarrow> rat" where "f32 \<equiv> fl 24"

section \<open>Lemmas\<close>

lemma round_even_bounds: "of_int (round_even x) \<le> x + 1 / 2" "x - 1 / 2 \<le> of_int (round_even x)"
  using of_int_floor_le [of x] by (auto simp: round_even_def Let_def; linarith)+

lemma round_even_int [simp]: "round_even (of_int n) = n"
  by (simp add: round_even_def)

lemma round_even_mono:
  assumes "x \<le> y"
  shows "round_even x \<le> round_even y"
proof (cases "\<lfloor>x\<rfloor> = \<lfloor>y\<rfloor>")
  case True
  with assms show ?thesis by (auto simp: round_even_def Let_def)
next
  case False
  with floor_mono [OF assms] have "\<lfloor>x\<rfloor> + 1 \<le> \<lfloor>y\<rfloor>" by linarith
  moreover have "round_even x \<le> \<lfloor>x\<rfloor> + 1" "\<lfloor>y\<rfloor> \<le> round_even y"
    by (auto simp: round_even_def Let_def)
  ultimately show ?thesis by linarith
qed

lemma round_even_ge: "of_int n \<le> x \<Longrightarrow> n \<le> round_even x"
  using round_even_mono [of "of_int n" x] by simp

lemma round_even_le: "x \<le> of_int n \<Longrightarrow> round_even x \<le> n"
  using round_even_mono [of x "of_int n"] by simp

lemma pow2_pos [simp]: "0 < pow2 e" "pow2 e \<noteq> 0" "0 \<le> pow2 e"
  by (simp_all add: pow2_def)

lemma pow2_powi: "pow2 e = 2 powi e"
  by (simp add: pow2_def power_int_def inverse_eq_divide power_one_over)

lemma pow2_add: "pow2 (a + b) = pow2 a * pow2 b"
  by (simp add: pow2_powi power_int_add)

lemma pow2_less: "a < b \<Longrightarrow> pow2 a < pow2 b"
  by (simp add: pow2_powi power_int_strict_increasing)

lemma pow2_le: "a \<le> b \<Longrightarrow> pow2 a \<le> pow2 b"
  by (simp add: pow2_powi power_int_increasing)

lemma pow2_nat: "pow2 (int n) = 2 ^ n"
  by (simp add: pow2_def)

lemma pow2_int: "0 \<le> e \<Longrightarrow> pow2 e = of_int (2 ^ nat e)"
  by (simp add: pow2_def)

lemma pow2_diff: "pow2 (a - b) = pow2 a / pow2 b"
  by (simp add: pow2_powi power_int_diff)

lemma exponent_unique:
  assumes "pow2 e \<le> x" "x < pow2 (e + 1)" "pow2 k \<le> x" "x < pow2 (k + 1)"
  shows "e = k"
proof (rule ccontr)
  assume "e \<noteq> k"
  then consider "e + 1 \<le> k" | "k + 1 \<le> e" by linarith
  then show False
  proof cases
    case 1
    from pow2_le [OF this] assms show False by linarith
  next
    case 2
    from pow2_le [OF this] assms show False by linarith
  qed
qed

lemma bitlen_pow2_bounds:
  assumes "0 < a"
  shows "pow2 (bitlen a - 1) \<le> of_int a" "of_int a < pow2 (bitlen a)"
proof -
  have "0 \<le> bitlen a - 1" using assms bitlen_eq_zero_iff [of a] bitlen_nonneg [of a] by linarith
  then have P: "pow2 (bitlen a - 1) = of_int (2 ^ nat (bitlen a - 1))" "pow2 (bitlen a) = of_int (2 ^ nat (bitlen a))"
    by (rule pow2_int) (rule pow2_int [OF bitlen_nonneg])
  show "pow2 (bitlen a - 1) \<le> of_int a" "of_int a < pow2 (bitlen a)"
    unfolding P of_int_le_iff of_int_less_iff using bitlen_bounds [OF assms] by simp_all
qed

lemma exponent_bounds:
  assumes "0 < x"
  shows "pow2 (exponent x) \<le> x" "x < pow2 (exponent x + 1)"
proof -
  obtain a b where ab: "quotient_of x = (a, b)" by (cases "quotient_of x")
  have b: "0 < b" using quotient_of_denom_pos [OF ab] .
  have x: "x = of_int a / of_int b" using quotient_of_div [OF ab] .
  have a: "0 < a" using assms b unfolding x by (simp add: zero_less_divide_iff)
  define s t where "s = bitlen a" and "t = bitlen b"
  have s1: "1 \<le> s" and t1: "1 \<le> t"
    using a b bitlen_eq_zero_iff [of a] bitlen_eq_zero_iff [of b] bitlen_nonneg [of a] bitlen_nonneg [of b]
    unfolding s_def t_def by linarith+
  have A: "pow2 (s - 1) \<le> of_int a" "of_int a < pow2 s"
    unfolding s_def using bitlen_pow2_bounds [OF a] by simp_all
  have B: "pow2 (t - 1) \<le> of_int b" "of_int b < pow2 t"
    unfolding t_def using bitlen_pow2_bounds [OF b] by simp_all
  have lo: "pow2 (s - t - 1) \<le> x"
  proof -
    have "pow2 (s - t - 1) * of_int b \<le> pow2 (s - t - 1) * pow2 t"
      using B(2) by (intro mult_left_mono) auto
    also have "\<dots> = pow2 (s - 1)" using pow2_add [of "s - t - 1" t] by simp
    also have "\<dots> \<le> of_int a" by (rule A)
    finally show ?thesis using b by (simp add: x pos_le_divide_eq)
  qed
  have hi: "x < pow2 (s - t + 1)"
  proof -
    have "of_int a < pow2 s" by (rule A)
    also have "\<dots> = pow2 (s - t + 1) * pow2 (t - 1)" using pow2_add [of "s - t + 1" "t - 1"] by simp
    also have "\<dots> \<le> pow2 (s - t + 1) * of_int b" using B(1) by (intro mult_left_mono) auto
    finally show ?thesis using b by (simp add: x pos_divide_less_eq)
  qed
  show "pow2 (exponent x) \<le> x" "x < pow2 (exponent x + 1)"
    using lo hi by (auto simp: exponent_def ab Let_def s_def t_def)
qed

section \<open>The rounding of positive numbers\<close>

lemma fl_0 [simp]: "fl p 0 = 0"
  by (simp add: fl_def)

lemma fl_neg: "fl p (- x) = - fl p x"
  by (simp add: fl_def Let_def sgn_minus)

lemma fl_pos: "0 < x \<Longrightarrow>
  fl p x = (let m = pow2 (int p - 1 - exponent x) in of_int (round_even (x * m)) / m)"
  by (simp add: fl_def)

lemma fl_scaled:
  assumes "0 < x" "0 < p"
  defines "m \<equiv> pow2 (int p - 1 - exponent x)"
  shows "pow2 (int p - 1) \<le> x * m" "x * m < pow2 (int p)"
proof -
  have "pow2 (int p - 1) = pow2 (exponent x) * m" by (simp add: m_def flip: pow2_add)
  also have "\<dots> \<le> x * m" using exponent_bounds [OF assms(1)] by (intro mult_right_mono) (auto simp: m_def)
  finally show "pow2 (int p - 1) \<le> x * m" .
  have "x * m < pow2 (exponent x + 1) * m" using exponent_bounds [OF assms(1)]
    by (intro mult_strict_right_mono) (auto simp: m_def)
  also have "\<dots> = pow2 (int p)" by (simp add: m_def flip: pow2_add)
  finally show "x * m < pow2 (int p)" .
qed

lemma fl_binade:
  assumes "0 < x" "0 < p"
  shows "pow2 (exponent x) \<le> fl p x" "fl p x \<le> pow2 (exponent x + 1)"
proof -
  let ?m = "pow2 (int p - 1 - exponent x)"
  note s = fl_scaled [OF assms]
  have P: "pow2 (int p - 1) = of_int (2 ^ (p - 1))" "pow2 (int p) = of_int (2 ^ p)"
    using assms by (simp_all add: pow2_int nat_diff_distrib)
  have "2 ^ (p - 1) \<le> round_even (x * ?m)" using s(1) unfolding P by (rule round_even_ge)
  then have "pow2 (int p - 1) \<le> of_int (round_even (x * ?m))" unfolding P of_int_le_iff .
  then have "pow2 (int p - 1) / ?m \<le> fl p x" by (simp add: fl_pos [OF assms(1)] Let_def divide_right_mono)
  then show "pow2 (exponent x) \<le> fl p x" by (simp flip: pow2_diff)
  have "round_even (x * ?m) \<le> 2 ^ p" using s(2) unfolding P by (intro round_even_le) simp
  then have "of_int (round_even (x * ?m)) \<le> pow2 (int p)" unfolding P of_int_le_iff .
  then have "fl p x \<le> pow2 (int p) / ?m" by (simp add: fl_pos [OF assms(1)] Let_def divide_right_mono)
  moreover have "pow2 (int p) / ?m = pow2 (exponent x + 1)"
    using pow2_diff [of "int p" "int p - 1 - exponent x"] by (simp add: add.commute)
  ultimately show "fl p x \<le> pow2 (exponent x + 1)" by simp
qed

lemma fl_nonneg: "0 \<le> x \<Longrightarrow> 0 < p \<Longrightarrow> 0 \<le> fl p x"
proof (cases "x = 0")
  case False
  assume "0 \<le> x" "0 < p"
  with False fl_binade(1) [of x p] pow2_pos(1) [of "exponent x"] show ?thesis by linarith
qed simp

lemma exponent_mono:
  assumes "0 < x" "x \<le> y"
  shows "exponent x \<le> exponent y"
proof (rule ccontr)
  assume "\<not> ?thesis"
  then have "pow2 (exponent y + 1) \<le> pow2 (exponent x)" by (intro pow2_le) simp
  with exponent_bounds [of x] exponent_bounds [of y] assms show False by linarith
qed

lemma fl_mono_pos:
  assumes "0 < x" "x \<le> y" "0 < p"
  shows "fl p x \<le> fl p y"
proof (cases "exponent x = exponent y")
  case True
  have "0 < y" using assms by simp
  with assms(1,2) show ?thesis
    by (simp add: fl_pos True Let_def divide_right_mono round_even_mono mult_right_mono)
next
  case False
  with exponent_mono [OF assms(1,2)] have "pow2 (exponent x + 1) \<le> pow2 (exponent y)"
    by (intro pow2_le) simp
  with fl_binade [OF assms(1,3)] fl_binade [of y p] assms show ?thesis by linarith
qed

lemma fl_mono:
  assumes "x \<le> y" "0 < p"
  shows "fl p x \<le> fl p y"
proof -
  consider "0 < x" | "x \<le> 0" "0 \<le> y" | "y < 0" using assms by linarith
  then show ?thesis
  proof cases
    case 2
    have "0 \<le> fl p (- x)" using 2 assms by (intro fl_nonneg) auto
    moreover have "0 \<le> fl p y" using 2 assms by (intro fl_nonneg) auto
    ultimately show ?thesis by (simp add: fl_neg)
  next
    case 3
    have "fl p (- y) \<le> fl p (- x)" using 3 assms by (intro fl_mono_pos) auto
    then show ?thesis by (simp add: fl_neg)
  qed (simp add: assms fl_mono_pos)
qed

lemma fl_error_pos:
  assumes "0 < x" "0 < p"
  shows "\<bar>fl p x - x\<bar> \<le> x / 2 ^ p"
proof -
  let ?m = "pow2 (int p - 1 - exponent x)"
  have "\<bar>of_int (round_even (x * ?m)) - x * ?m\<bar> \<le> 1 / 2"
    using round_even_bounds [of "x * ?m"] by linarith
  then have "\<bar>of_int (round_even (x * ?m)) - x * ?m\<bar> / ?m \<le> (1 / 2) / ?m"
    by (intro divide_right_mono) auto
  moreover have "\<bar>of_int (round_even (x * ?m)) - x * ?m\<bar> / ?m = \<bar>fl p x - x\<bar>"
  proof -
    have "fl p x - x = (of_int (round_even (x * ?m)) - x * ?m) / ?m"
      by (simp add: fl_pos [OF assms(1)] Let_def diff_divide_distrib)
    then show ?thesis by (simp add: abs_divide)
  qed
  moreover have "(1 / 2) / ?m \<le> x / 2 ^ p"
  proof -
    have "(2::rat) ^ p = 2 * pow2 (int p - 1)"
      using pow2_add [of 1 "int p - 1"] by (simp add: pow2_nat pow2_def [of 1])
    with fl_scaled(1) [OF assms] have "2 ^ p \<le> 2 * (x * ?m)" by simp
    then show ?thesis by (simp add: field_simps)
  qed
  ultimately show ?thesis by simp
qed

lemma fl_error:
  assumes "0 \<le> x" "0 < p"
  shows "fl p x \<le> x * (1 + 1 / 2 ^ p)" "x * (1 - 1 / 2 ^ p) \<le> fl p x"
  using fl_error_pos [of x p] assms by (cases "x = 0"; simp add: algebra_simps abs_le_iff)+

lemma fl_grid:
  assumes "0 < p" "\<bar>k\<bar> < 2 ^ p"
  shows "fl p (of_int k * pow2 e) = of_int k * pow2 e"
proof -
  have main: "fl p (of_int k * pow2 e) = of_int k * pow2 e" if k: "0 < k" "k < 2 ^ p" for k :: int
  proof -
    let ?x = "of_int k * pow2 e"
    have x: "0 < ?x" using k by simp
    have "?x < of_int (2 ^ p) * pow2 e" using k by (intro mult_strict_right_mono) (simp_all only: of_int_less_iff pow2_pos)
    also have "\<dots> = pow2 (int p + e)" by (simp add: pow2_add pow2_nat)
    finally have "pow2 (exponent ?x) < pow2 (int p + e)" using exponent_bounds(1) [OF x] by linarith
    then have "exponent ?x < int p + e" using pow2_le [of "int p + e" "exponent ?x"] by (meson not_le)
    then have "0 \<le> int p - 1 - exponent ?x + e" by linarith
    then obtain d where d: "int p - 1 - exponent ?x + e = int d" by (rule nonneg_int_cases)
    have "?x * pow2 (int p - 1 - exponent ?x) = of_int k * pow2 (int d)"
      unfolding d [symmetric] pow2_add by (simp only: ac_simps)
    also have "\<dots> = of_int (k * 2 ^ d)" by (simp add: pow2_nat)
    finally have "?x * pow2 (int p - 1 - exponent ?x) = of_int (k * 2 ^ d)" .
    note * = this
    then have "fl p ?x = of_int (k * 2 ^ d) / pow2 (int p - 1 - exponent ?x)"
      by (simp only: fl_pos [OF x] Let_def round_even_int)
    also have "\<dots> = ?x" unfolding * [symmetric] by simp
    finally show ?thesis .
  qed
  consider "0 < k" | "k = 0" | "0 < - k" by linarith
  then show ?thesis
  proof cases
    case 1 then show ?thesis using main assms by simp
  next
    case 3
    then have "fl p (of_int (- k) * pow2 e) = of_int (- k) * pow2 e" using main [of "- k"] assms by simp
    then show ?thesis by (simp add: fl_neg)
  qed simp
qed

lemma fl_of_int: "0 < p \<Longrightarrow> \<bar>k\<bar> < 2 ^ p \<Longrightarrow> fl p (of_int k) = of_int k"
  using fl_grid [of p k 0] by (simp add: pow2_def)

lemma fl_of_nat: "0 < p \<Longrightarrow> n < 2 ^ p \<Longrightarrow> fl p (of_nat n) = of_nat n"
  using fl_of_int [of p "int n"] by (simp flip: of_nat_power)

lemma fl_1: "0 < p \<Longrightarrow> fl p 1 = 1"
  using fl_of_int [of p 1] one_less_power [of "2::int" p] by simp

section \<open>What the clients use\<close>

locale rounding =
  fixes rnd :: "rat \<Rightarrow> rat" and eps :: rat
  assumes rnd_mono: "\<And>x y. x \<le> y \<Longrightarrow> rnd x \<le> rnd y"
    and rnd_1: "rnd 1 = 1"
    and rnd_0: "rnd 0 = 0"
    and rnd_up: "\<And>x. 0 \<le> x \<Longrightarrow> rnd x \<le> x * (1 + eps)"
    and rnd_down: "\<And>x. 0 \<le> x \<Longrightarrow> x * (1 - eps) \<le> rnd x"
    and eps: "0 \<le> eps" "eps \<le> 1 / 1000"
begin

lemma nonneg: "0 \<le> x \<Longrightarrow> 0 \<le> rnd x"
  using rnd_mono [of 0 x] rnd_0 by simp

lemma one_le: "1 \<le> x \<Longrightarrow> 1 \<le> rnd x"
  using rnd_mono [of 1 x] rnd_1 by simp

text \<open>Scaling down by a visible factor never rounds back up, scaling up never rounds back down.\<close>

lemma shrinks:
  assumes "0 \<le> x" "0 \<le> c" "c * (1 + eps) \<le> 1"
  shows "rnd (x * c) \<le> x"
proof -
  have "rnd (x * c) \<le> x * c * (1 + eps)" using assms by (intro rnd_up) simp
  also have "\<dots> = x * (c * (1 + eps))" by simp
  also have "\<dots> \<le> x * 1" using assms by (intro mult_left_mono)
  finally show ?thesis by simp
qed

lemma grows:
  assumes "0 \<le> x" "0 \<le> c" "1 \<le> c * (1 - eps)"
  shows "x \<le> rnd (x * c)"
proof -
  have "x * 1 \<le> x * (c * (1 - eps))" using assms by (intro mult_left_mono)
  also have "\<dots> = x * c * (1 - eps)" by simp
  also have "\<dots> \<le> rnd (x * c)" using assms by (intro rnd_down) simp
  finally show ?thesis by simp
qed

end

interpretation r64: rounding f64 "1 / 2 ^ 53"
  by (unfold_locales; (rule fl_mono fl_error fl_0 fl_1)?; simp)

interpretation r32: rounding f32 "1 / 2 ^ 24"
  by (unfold_locales; (rule fl_mono fl_error fl_0 fl_1)?; simp)

end
