(* ===== verification/Rate.thy ===== *)
theory Rate
  imports Floats Control Video "HOL-Library.Signed_Division"
begin

text \<open>
  The bitrate and parity control of the host (\<open>rate.rs\<close>): the state of
  \<open>RateController\<close>, everything but its \<open>update\<close> (theory RateUpdate), and the frame
  rate that follows the bitrate (\<open>FrameRate\<close>). The \<open>f64\<close> and \<open>f32\<close> arithmetic is
  rounded as in theory Floats. Clocks (\<open>u64\<close> milliseconds) and byte and frame counters are natural
  numbers, so that \<open>-\<close> on them is \<open>saturating_sub\<close>; the \<open>i64\<close> delays are integers,
  each operation wrapped to 64 bits by \<open>i64\<close>.
\<close>

type_synonym ms = nat

section \<open>Machine arithmetic\<close>

definition i64 :: "int \<Rightarrow> int" where "i64 x = signed_take_bit 63 x"

text \<open>\<open>u32 as f64\<close> is exact, \<open>u32 as f32\<close> and \<open>u64 as f64\<close> round.\<close>

definition of_u32 :: "u32 \<Rightarrow> rat" where "of_u32 w = of_nat (unat w)"
definition of_u64 :: "nat \<Rightarrow> rat" where "of_u64 n = f64 (of_nat n)"
definition of_i64 :: "int \<Rightarrow> rat" where "of_i64 n = f64 (of_int n)"

definition to_u32 :: "rat \<Rightarrow> u32" where
  "to_u32 x = of_nat (min (nat \<lfloor>x\<rfloor>) (2 ^ 32 - 1))"

definition to_u64 :: "rat \<Rightarrow> nat" where
  "to_u64 x = min (nat \<lfloor>x\<rfloor>) (2 ^ 64 - 1)"

definition clampf :: "rat \<Rightarrow> rat \<Rightarrow> rat \<Rightarrow> rat" where
  "clampf x lo hi = (if x < lo then lo else if hi < x then hi else x)"

text \<open>\<open>reduce(f64::max)\<close>, and the minimum with \<open>f64::INFINITY\<close> as \<open>None\<close>.\<close>

definition reduce_max :: "rat list \<Rightarrow> rat option" where
  "reduce_max xs = (case xs of [] \<Rightarrow> None | x # ys \<Rightarrow> Some (fold max ys x))"

definition min_inf :: "rat \<Rightarrow> rat option \<Rightarrow> rat" where
  "min_inf x y = (case y of None \<Rightarrow> x | Some b \<Rightarrow> min x b)"

section \<open>Constants\<close>

definition QUEUE_SOFT_US :: int where "QUEUE_SOFT_US = 10000"
definition QUEUE_HARD_US :: int where "QUEUE_HARD_US = 30000"
definition HOLD_MS :: ms where "HOLD_MS = 600"
definition RECOVER_AFTER_MS :: ms where "RECOVER_AFTER_MS = 5000"
definition PACE_MIN :: rat where "PACE_MIN = f32 (3 / 100)"
definition PACE_MAX :: rat where "PACE_MAX = f32 (6 / 10)"
definition BASELINE_WINDOWS :: nat where "BASELINE_WINDOWS = 600"
definition BASELINE_MS :: ms where "BASELINE_MS = 30000"
definition PAUSE_MS :: ms where "PAUSE_MS = 2000"
definition STANDING_US :: int where "STANDING_US = 100000"
definition STANDING_MS :: ms where "STANDING_MS = 500"
definition STANDING_EVERY_MS :: ms where "STANDING_EVERY_MS = 1000"
definition STANDING_REBASE_MS :: ms where "STANDING_REBASE_MS = 15000"
definition STANDING_FLAT_US :: int where "STANDING_FLAT_US = 50000"
definition BULK_START :: rat where "BULK_START = 8000000"
definition BULK_MIN :: rat where "BULK_MIN = 1000000"
definition BULK_LAN_MIN :: rat where "BULK_LAN_MIN = 20000000"
definition BULK_MAX :: rat where "BULK_MAX = 100000000"
definition CLEAN_AFTER_MS :: ms where "CLEAN_AFTER_MS = 10000"
definition PARITY_FREE_BYTES :: nat where "PARITY_FREE_BYTES = 4096"
definition CLEAN_FEC :: rat where "CLEAN_FEC = f32 (2 / 100)"
definition REPAIR_FEC :: rat where "REPAIR_FEC = 1 / 2"
definition DRAIN_FPS :: u32 where "DRAIN_FPS = 8"
definition DRAIN_END_US :: int where "DRAIN_END_US = STANDING_US div 2"
definition DRAIN_TAIL_MS :: ms where "DRAIN_TAIL_MS = 2000"
definition KEY_WAIT_BASE_MS :: rat where "KEY_WAIT_BASE_MS = 400"
definition KEY_WAIT_MIN_MS :: rat where "KEY_WAIT_MIN_MS = 600"
definition KEY_WAIT_MAX_MS :: rat where "KEY_WAIT_MAX_MS = 10000"
definition KEY_PROBE_MS :: ms where "KEY_PROBE_MS = 250"
definition KEY_QUEUE_MS :: ms where "KEY_QUEUE_MS = 1000"
definition GAP_MS :: ms where "GAP_MS = 500"
definition GAP_CUT :: rat where "GAP_CUT = 1 / 2"
definition GAP_GROW :: rat where "GAP_GROW = f64 (8 / 10)"
definition SLOW_PACE_BELOW_BPS :: rat where "SLOW_PACE_BELOW_BPS = 3000000"
definition WARM_RAMP :: rat where "WARM_RAMP = f64 (106 / 100)"
definition WARM_RETUNE_MS :: ms where "WARM_RETUNE_MS = 30000"
definition SUSTAINED_MIN_WINDOWS :: nat where "SUSTAINED_MIN_WINDOWS = 40"
definition PROBE_EVERY_MS :: ms where "PROBE_EVERY_MS = 1000"
definition PROBE_MIN_BYTES :: nat where "PROBE_MIN_BYTES = 2000"
definition PROBE_IDLE_EVERY_MS :: ms where "PROBE_IDLE_EVERY_MS = 5000"
definition PROBE_IDLE_SHARE :: rat where "PROBE_IDLE_SHARE = 20"
definition LINK_KEEP_READINGS :: nat where "LINK_KEEP_READINGS = 4"
definition LINK_KEEP_MS :: ms where "LINK_KEEP_MS = 30000"
definition LINK_WINDOW_MS :: ms where "LINK_WINDOW_MS = 2000"
definition LINK_WINDOW_TRAIN_MS :: ms where "LINK_WINDOW_TRAIN_MS = 4000"
definition LINK_DOUBT_MS :: ms where "LINK_DOUBT_MS = 3000"
definition LINK_BEST_MS :: ms where "LINK_BEST_MS = 60000"
definition LINK_RAMP_BELOW :: rat where "LINK_RAMP_BELOW = f64 (1 / 10)"
definition LINK_MAX_BPS :: rat where "LINK_MAX_BPS = 5000000000"
definition SLOW_PATH_MS :: ms where "SLOW_PATH_MS = 60000"
definition CARRIED_MS :: ms where "CARRIED_MS = 20000"
definition GROW_HEADROOM :: rat where "GROW_HEADROOM = 2"
definition LAN_FLOOR_BPS :: rat where "LAN_FLOOR_BPS = 20000000"
definition LAN_FLOOR_YIELD_MS :: ms where "LAN_FLOOR_YIELD_MS = 5000"
definition LAN_FLOOR_YIELD_MAX_MS :: ms where "LAN_FLOOR_YIELD_MAX_MS = 120000"
definition LAN_FLOOR_CALM_MS :: ms where "LAN_FLOOR_CALM_MS = 30000"

definition CUT_NAMES :: "string list" where
  "CUT_NAMES = [''probe'', ''gap'', ''standing'', ''drain'', ''loss'', ''queue'', ''soft'']"
definition CUT_PROBE :: nat where "CUT_PROBE = 0"
definition CUT_GAP :: nat where "CUT_GAP = 1"
definition CUT_STANDING :: nat where "CUT_STANDING = 2"
definition CUT_DRAIN :: nat where "CUT_DRAIN = 3"
definition CUT_LOSS :: nat where "CUT_LOSS = 4"
definition CUT_QUEUE :: nat where "CUT_QUEUE = 5"
definition CUT_SOFT :: nat where "CUT_SOFT = 6"

section \<open>State\<close>

record limits =
  min_bps :: u32
  start_bps :: u32
  max_bps :: u32

definition limits_default :: limits where
  "limits_default = \<lparr>min_bps = 500000, start_bps = 20000000, max_bps = 80000000\<rparr>"

record switches =
  sw_standing_queue :: bool
  sw_drain :: bool
  sw_one_keyframe :: bool
  sw_fec_floor :: bool
  sw_key_probe :: bool
  sw_gap_cut :: bool
  sw_slow_pace :: bool
  sw_grow_cap :: bool
  sw_soft_slow :: bool
  sw_probe_train :: bool
  sw_pause_hold :: bool
  sw_held_burst :: bool
  sw_own_queue :: bool
  sw_lone_frame :: bool
  sw_repair_fec :: bool
  sw_interleave :: bool
  sw_probe_idle :: bool
  sw_lan_floor :: bool
  sw_link_memory :: bool

definition switches_default :: switches where
  "switches_default = \<lparr>
     sw_standing_queue = True, sw_drain = True, sw_one_keyframe = True, sw_fec_floor = True,
     sw_key_probe = True, sw_gap_cut = True, sw_slow_pace = False, sw_grow_cap = True,
     sw_soft_slow = True, sw_probe_train = True, sw_pause_hold = True, sw_held_burst = True,
     sw_own_queue = True, sw_lone_frame = True, sw_repair_fec = True, sw_interleave = True,
     sw_probe_idle = True, sw_lan_floor = True, sw_link_memory = True\<rparr>"

text \<open>The fields of \<open>RateController\<close>, in its order.\<close>

record rate =
  rc_limits :: limits
  rc_bitrate :: rat
  rc_fec :: rat
  rc_loss :: rat
  rc_pace :: rat
  rc_minima :: "(ms \<times> int) list"
  rc_hold_until :: ms
  rc_last_cut :: "ms option"
  rc_queue_cut :: "(ms \<times> int) option"
  rc_resting :: rat
  rc_sent_payload :: nat
  rc_sent_wire :: nat
  rc_overhead :: rat
  rc_bulk :: rat
  rc_bulk_busy :: bool
  rc_clean_since :: "ms option"
  rc_clean :: bool
  rc_last_used :: rat
  rc_last_frames :: "ms option"
  rc_standing_since :: "ms option"
  rc_standing_start :: int
  rc_standing_cut :: "(ms \<times> int) option"
  rc_standing_span :: "int \<times> int"
  rc_switches :: switches
  rc_draining :: bool
  rc_drain_tail_since :: "ms option"
  rc_queue_min :: int
  rc_last_queue :: int
  rc_sent_frames :: nat
  rc_resolved :: nat
  rc_key_wait :: "(nat \<times> ms) option"
  rc_collapsed :: u32
  rc_quiet_since :: "ms option"
  rc_sent_at_last_update :: nat
  rc_sustained :: rat
  rc_sustained_n :: nat
  rc_warm_cap :: "rat option"
  rc_warm_retune :: "(ms \<times> ms) option"
  rc_lan :: bool
  rc_floor_yield_until :: ms
  rc_floor_yield :: ms
  rc_link_bps :: "rat option"
  rc_link_seen :: "(ms \<times> rat) list"
  rc_link_doubt_until :: ms
  rc_link_best :: "(ms \<times> rat) list"
  rc_last_probe :: "ms option"
  rc_pad_pending :: nat
  rc_key_sent :: ms
  rc_key_landed :: "ms option"
  rc_key_probe :: "nat \<times> ms"
  rc_key_probe_cut :: bool
  rc_standing_delivered :: "nat \<times> ms"
  rc_gap :: "(ms \<times> nat \<times> nat \<times> ms) list"
  rc_slow_until :: ms
  rc_carried :: "(ms \<times> rat) list"
  rc_cuts :: "u32 list"
  rc_paused :: bool

definition rate_new :: "limits \<Rightarrow> rate" where
  "rate_new l = \<lparr>
     rc_limits = l, rc_bitrate = of_u32 (start_bps l), rc_fec = f32 (1 / 10), rc_loss = 0,
     rc_pace = PACE_MIN, rc_minima = [], rc_hold_until = 0, rc_last_cut = None, rc_queue_cut = None,
     rc_resting = of_u32 (start_bps l), rc_sent_payload = 0, rc_sent_wire = 0,
     rc_overhead = f64 (115 / 100), rc_bulk = BULK_START, rc_bulk_busy = False,
     rc_clean_since = None, rc_clean = False, rc_last_used = 0, rc_last_frames = None,
     rc_standing_since = None, rc_standing_start = 0, rc_standing_cut = None,
     rc_standing_span = (0, 0), rc_switches = switches_default, rc_draining = False,
     rc_drain_tail_since = None, rc_queue_min = 0, rc_last_queue = 0, rc_sent_frames = 0,
     rc_resolved = 0, rc_key_wait = None, rc_collapsed = 0, rc_quiet_since = None,
     rc_sent_at_last_update = 0, rc_sustained = 0, rc_sustained_n = 0, rc_warm_cap = None,
     rc_warm_retune = None, rc_lan = False, rc_floor_yield_until = 0, rc_floor_yield = 0,
     rc_link_bps = None, rc_link_seen = [], rc_link_doubt_until = 0, rc_link_best = [],
     rc_last_probe = None, rc_pad_pending = 0, rc_key_sent = 0, rc_key_landed = None,
     rc_key_probe = (0, 0), rc_key_probe_cut = False, rc_standing_delivered = (0, 0),
     rc_gap = [], rc_slow_until = 0, rc_carried = [], rc_cuts = replicate 7 0,
     rc_paused = False\<rparr>"

section \<open>Operations\<close>

definition take_cuts :: "rate \<Rightarrow> rate \<times> u32 list" where
  "take_cuts r = (r\<lparr>rc_cuts := replicate 7 0\<rparr>, rc_cuts r)"

definition count_cut :: "nat \<Rightarrow> rate \<Rightarrow> rate" where
  "count_cut why r = r\<lparr>rc_cuts := (rc_cuts r)[why := rc_cuts r ! why + 1]\<rparr>"

definition set_switches :: "switches \<Rightarrow> rate \<Rightarrow> rate" where
  "set_switches sw r =
    (let r = r\<lparr>rc_switches := sw\<rparr> in
     if \<not> sw_standing_queue sw \<or> \<not> sw_drain sw then r\<lparr>rc_draining := False\<rparr> else r)"

definition warm_start :: "u32 \<Rightarrow> rate \<Rightarrow> rate" where
  "warm_start bps r =
    (let bps = clampf (of_u32 bps) (of_u32 (min_bps (rc_limits r))) (of_u32 (max_bps (rc_limits r))) in
     if bps < rc_bitrate r then
       (let r = r\<lparr>rc_bitrate := bps, rc_warm_cap := Some bps\<rparr> in
        if bps < SLOW_PACE_BELOW_BPS then r\<lparr>rc_slow_until := 2 ^ 64 - 1\<rparr> else r)
     else r)"

definition sustained_bps :: "rate \<Rightarrow> u32 option" where
  "sustained_bps r =
    (if SUSTAINED_MIN_WINDOWS \<le> rc_sustained_n r then Some (to_u32 (rc_sustained r)) else None)"

definition note_sustained :: "rate \<Rightarrow> rate" where
  "note_sustained r = r\<lparr>
     rc_sustained := (if rc_sustained_n r = 0 then rc_bitrate r
       else f64 (f64 (rc_sustained r * f64 (95 / 100)) + f64 (rc_bitrate r * f64 (5 / 100)))),
     rc_sustained_n := min (rc_sustained_n r + 1) (2 ^ 32 - 1)\<rparr>"

definition key_in_flight :: "rate \<Rightarrow> ms \<Rightarrow> bool" where
  "key_in_flight r now =
    (case rc_key_wait r of None \<Rightarrow> False | Some (need, until) \<Rightarrow> rc_resolved r < need \<and> now < until)"

definition drain_fps :: "rate \<Rightarrow> ms \<Rightarrow> u32 option" where
  "drain_fps r now =
    (let sw = rc_switches r;
         draining = (rc_draining r \<and> sw_drain sw \<and> sw_standing_queue sw);
         probing = (sw_key_probe sw \<and> key_in_flight r now \<and> KEY_PROBE_MS \<le> now - rc_key_sent r) in
     if draining \<or> probing then Some DRAIN_FPS else None)"

definition set_lan :: "bool \<Rightarrow> rate \<Rightarrow> rate" where
  "set_lan lan r = r\<lparr>rc_lan := lan\<rparr>"

definition floor_yield :: "ms \<Rightarrow> rate \<Rightarrow> rate" where
  "floor_yield now r =
    (let again = (0 < rc_floor_yield r \<and> now < rc_floor_yield_until r + LAN_FLOOR_CALM_MS) in
     if now < rc_floor_yield_until r then r
     else
       let y = (if again then min (rc_floor_yield r * 2) LAN_FLOOR_YIELD_MAX_MS else LAN_FLOOR_YIELD_MS);
           r = r\<lparr>rc_floor_yield := y\<rparr>;
           r = (if again then r\<lparr>rc_link_best := []\<rparr> else r)
       in r\<lparr>rc_floor_yield_until := now + y\<rparr>)"

definition link_shown :: "rate \<Rightarrow> rat option" where
  "link_shown r =
    (let best = (if rc_lan r \<and> sw_link_memory (rc_switches r)
                 then reduce_max (map snd (rc_link_best r)) else None) in
     case (rc_link_bps r, best) of
       (Some l, Some b) \<Rightarrow> Some (max l b)
     | (Some l, None) \<Rightarrow> Some l
     | (None, b) \<Rightarrow> b)"

definition lan_floor :: "rate \<Rightarrow> ms \<Rightarrow> rat" where
  "lan_floor r now =
    (if \<not> (rc_lan r \<and> sw_lan_floor (rc_switches r)) \<or> now < rc_floor_yield_until r then 0
     else
       let shown = map_option (\<lambda>l. f64 (f64 (l / rc_overhead r) * (1 / 2))) (link_shown r)
       in min (min_inf LAN_FLOOR_BPS shown) (of_u32 (max_bps (rc_limits r))))"

definition bulk_min :: "rate \<Rightarrow> ms \<Rightarrow> rat" where
  "bulk_min r now =
    (if 0 < lan_floor r now then
       let shown = map_option (\<lambda>l. f64 (l / 2)) (link_shown r)
       in max (min_inf BULK_LAN_MIN shown) BULK_MIN
     else BULK_MIN)"

text \<open>\<open>trains\<close> is the process-wide switch of the packetizer (\<open>video::set_probe_trains\<close>).\<close>

definition probe_idle :: "bool \<Rightarrow> nat \<Rightarrow> ms \<Rightarrow> rate \<Rightarrow> bool" where
  "probe_idle trains n now r =
    (let padded = (fst (layout_of trains n True) < PROBE_TRAIN_PACKETS div 2);
         recent = map snd (filter (\<lambda>(t, _). now - t \<le> LINK_WINDOW_TRAIN_MS) (rc_carried r));
         carried = f64 (fold max recent 0 * rc_overhead r) in
     sw_probe_idle (rc_switches r) \<and> sw_probe_train (rc_switches r) \<and> padded \<and>
     rc_link_doubt_until r \<le> now \<and> LINK_KEEP_READINGS \<le> length (rc_link_seen r) \<and>
     (case rc_link_bps r of None \<Rightarrow> False | Some l \<Rightarrow> f64 (carried * PROBE_IDLE_SHARE) < l))"

definition probe_due :: "bool \<Rightarrow> nat \<Rightarrow> ms \<Rightarrow> rate \<Rightarrow> rate \<times> bool" where
  "probe_due trains n now r =
    (let every = (if probe_idle trains n now r then PROBE_IDLE_EVERY_MS else PROBE_EVERY_MS);
         due = (rc_lan r \<and> (PROBE_MIN_BYTES \<le> n \<or> sw_probe_train (rc_switches r)) \<and> \<not> rc_draining r \<and>
           rc_standing_since r = None \<and>
           (case rc_last_probe r of None \<Rightarrow> True | Some t \<Rightarrow> every \<le> now - t)) in
     (if due then r\<lparr>rc_last_probe := Some now\<rparr> else r, due))"

definition note_probe_padding :: "nat \<Rightarrow> rate \<Rightarrow> rate" where
  "note_probe_padding n r = r\<lparr>rc_pad_pending := rc_pad_pending r + n\<rparr>"

definition set_paused :: "bool \<Rightarrow> rate \<Rightarrow> rate" where
  "set_paused paused r = r\<lparr>rc_paused := paused\<rparr>"

definition doubt_link :: "rat \<Rightarrow> ms \<Rightarrow> rate \<Rightarrow> rate" where
  "doubt_link bps now r = r\<lparr>
     rc_link_bps := (if rc_lan r then Some (f64 (bps * rc_overhead r)) else None),
     rc_link_doubt_until := now + LINK_DOUBT_MS,
     rc_link_seen := []\<rparr>"

definition pace_cap_bps :: "rate \<Rightarrow> u32 option" where
  "pace_cap_bps r =
    (let constrained = (rc_draining r \<or> rc_standing_since r \<noteq> None \<or> rc_bitrate r < SLOW_PACE_BELOW_BPS) in
     if sw_slow_pace (rc_switches r) \<and> constrained then Some (to_u32 (f64 (rc_bitrate r * f64 (12 / 10)))) else None)"

text \<open>\<open>bytes as f64 * 8.0 * 1000.0 / ms as f64\<close>.\<close>

definition bits_per_s :: "nat \<Rightarrow> ms \<Rightarrow> rat" where
  "bits_per_s n t = f64 (f64 (f64 (of_u64 n * 8) * 1000) / of_u64 t)"

text \<open>
  The first component is \<open>got as f64 / sent as f64\<close>, \<open>None\<close> for the infinity that
  \<open>sent = 0\<close> makes of it (\<open>got\<close> is not zero there).
\<close>

definition delivery_gap :: "rate \<Rightarrow> (rat option \<times> rat) option" where
  "delivery_gap r =
    (let sent = sum_list (map (\<lambda>(_, s, _, _). s) (rc_gap r));
         got = sum_list (map (\<lambda>(_, _, g, _). g) (rc_gap r));
         t = sum_list (map (\<lambda>(_, _, _, m). m) (rc_gap r));
         sent_bps = bits_per_s sent (max t 1) in
     if t < GAP_MS * 4 div 5 \<or> got = 0 \<or> sent_bps < of_u32 (min_bps (rc_limits r)) then None
     else Some (if sent = 0 then None else Some (f64 (of_u64 got / of_u64 sent)),
                f64 (bits_per_s got t / rc_overhead r)))"

definition ratio_below :: "rat option \<Rightarrow> rat \<Rightarrow> bool" where
  "ratio_below ratio c = (case ratio of None \<Rightarrow> False | Some x \<Rightarrow> x < c)"

definition note_keyframe :: "u32 \<Rightarrow> nat \<Rightarrow> ms \<Rightarrow> rate \<Rightarrow> rate" where
  "note_keyframe frame n now r =
    (let transmit = f64 (f64 (f64 (of_u64 n * 8) * 1000) / max (rc_bitrate r) 1);
         queue = f64 (of_i64 (max (rc_queue_min r) 0) / 1000);
         wait = (if rc_resolved r = 0 then KEY_WAIT_MAX_MS
                 else clampf (f64 (f64 (KEY_WAIT_BASE_MS + f64 (2 * transmit)) + queue)) KEY_WAIT_MIN_MS KEY_WAIT_MAX_MS) in
     r\<lparr>rc_key_wait := Some (unat frame + 1, now + to_u64 wait),
       rc_key_sent := now, rc_key_probe := (0, 0), rc_key_landed := None, rc_key_probe_cut := False\<rparr>)"

definition collapse_keyframe_request :: "ms \<Rightarrow> rate \<Rightarrow> rate \<times> bool" where
  "collapse_keyframe_request now r =
    (let waiting = (sw_one_keyframe (rc_switches r) \<and> key_in_flight r now) in
     (if waiting then r\<lparr>rc_collapsed := rc_collapsed r + 1\<rparr> else r, waiting))"

definition take_collapsed :: "rate \<Rightarrow> rate \<times> u32" where
  "take_collapsed r = (r\<lparr>rc_collapsed := 0\<rparr>, rc_collapsed r)"

definition parity_of :: "rate \<Rightarrow> nat \<Rightarrow> bool \<Rightarrow> rat" where
  "parity_of r n keyframe =
    (if rc_clean r \<and> \<not> keyframe \<and> n \<le> PARITY_FREE_BYTES then 0
     else if rc_clean r \<and> \<not> keyframe \<and> sw_fec_floor (rc_switches r) then min (rc_fec r) CLEAN_FEC
     else rc_fec r)"

definition parity_for_frame :: "rate \<Rightarrow> nat \<Rightarrow> bool \<Rightarrow> bool \<Rightarrow> rat" where
  "parity_for_frame r n keyframe repair =
    (let fec = parity_of r n keyframe in
     if repair \<and> sw_repair_fec (rc_switches r) then max fec REPAIR_FEC else fec)"

definition parity_for :: "rate \<Rightarrow> nat \<Rightarrow> bool \<Rightarrow> rat" where
  "parity_for r n keyframe = parity_for_frame r n keyframe False"

definition note_sent :: "nat \<Rightarrow> nat \<Rightarrow> rate \<Rightarrow> rate" where
  "note_sent payload wire r = r\<lparr>
     rc_sent_payload := rc_sent_payload r + payload,
     rc_sent_wire := rc_sent_wire r + wire,
     rc_sent_frames := rc_sent_frames r + 1\<rparr>"

definition bulk_bps :: "rate \<Rightarrow> nat" where "bulk_bps r = to_u64 (rc_bulk r)"

definition set_bulk_busy :: "bool \<Rightarrow> rate \<Rightarrow> rate" where
  "set_bulk_busy busy r = r\<lparr>rc_bulk_busy := busy\<rparr>"

definition bitrate_bps :: "rate \<Rightarrow> u32" where "bitrate_bps r = to_u32 (rc_bitrate r)"

definition set_resting :: "u32 \<Rightarrow> rate \<Rightarrow> rate" where
  "set_resting bps r = r\<lparr>rc_resting :=
     clampf (of_u32 bps) (of_u32 (min_bps (rc_limits r))) (of_u32 (max_bps (rc_limits r)))\<rparr>"

section \<open>The frame rate\<close>

definition BPP_LOW :: rat where "BPP_LOW = f64 (15 / 1000)"
definition BPP_HIGH :: rat where "BPP_HIGH = f64 (25 / 1000)"
definition FPS_DIVISORS :: "u32 list" where "FPS_DIVISORS = [1, 2, 3, 4, 6]"
definition FPS_FLOOR :: u32 where "FPS_FLOOR = 20"
definition OFFICE_FPS_FLOOR :: u32 where "OFFICE_FPS_FLOOR = 10"
definition FPS_DOWN_AFTER_MS :: ms where "FPS_DOWN_AFTER_MS = 1000"
definition FPS_UP_AFTER_MS :: ms where "FPS_UP_AFTER_MS = 3000"

record frame_rate =
  fr_step :: nat
  fr_low_since :: "ms option"
  fr_high_since :: "ms option"

definition frame_rate_default :: frame_rate where
  "frame_rate_default = \<lparr>fr_step = 0, fr_low_since = None, fr_high_since = None\<rparr>"

definition rate_at :: "u32 \<Rightarrow> nat \<Rightarrow> u32" where
  "rate_at full step = full div FPS_DIVISORS ! step"

definition usable :: "u32 \<Rightarrow> u32 \<Rightarrow> nat \<Rightarrow> bool" where
  "usable full flr step = (step = 0 \<or> step < length FPS_DIVISORS \<and> flr \<le> rate_at full step)"

text \<open>\<open>while !usable(self.step) { self.step -= 1 }\<close>\<close>

fun nearest_usable :: "u32 \<Rightarrow> u32 \<Rightarrow> nat \<Rightarrow> nat" where
  "nearest_usable full flr step =
    (if usable full flr step then step else case step of 0 \<Rightarrow> 0 | Suc n \<Rightarrow> nearest_usable full flr n)"

declare nearest_usable.simps [simp del]

definition bpp :: "u32 \<Rightarrow> nat \<Rightarrow> u32 \<Rightarrow> rat" where
  "bpp bps pixels fps = f64 (of_u32 bps / f64 (of_u64 (max pixels 1) * of_u32 (max fps 1)))"

definition follow_floor :: "u32 \<Rightarrow> nat \<Rightarrow> u32 \<Rightarrow> ms \<Rightarrow> u32 \<Rightarrow> frame_rate \<Rightarrow> frame_rate \<times> u32" where
  "follow_floor bps pixels full now flr f =
    (let full = max full 1;
         step = nearest_usable full flr (fr_step f);
         f = f\<lparr>fr_step := step\<rparr>;
         f = (if usable full flr (step + 1) \<and> bpp bps pixels (rate_at full step) < BPP_LOW then
                (let since = (case fr_low_since f of Some t \<Rightarrow> t | None \<Rightarrow> now);
                     f = f\<lparr>fr_high_since := None, fr_low_since := Some since\<rparr> in
                 if FPS_DOWN_AFTER_MS \<le> now - since then f\<lparr>fr_step := step + 1, fr_low_since := None\<rparr> else f)
              else if 0 < step \<and> BPP_HIGH \<le> bpp bps pixels (rate_at full (step - 1)) then
                (let since = (case fr_high_since f of Some t \<Rightarrow> t | None \<Rightarrow> now);
                     f = f\<lparr>fr_low_since := None, fr_high_since := Some since\<rparr> in
                 if FPS_UP_AFTER_MS \<le> now - since then f\<lparr>fr_step := step - 1, fr_high_since := None\<rparr> else f)
              else f\<lparr>fr_low_since := None, fr_high_since := None\<rparr>)
     in (f, rate_at full (fr_step f)))"

definition follow :: "u32 \<Rightarrow> nat \<Rightarrow> u32 \<Rightarrow> ms \<Rightarrow> frame_rate \<Rightarrow> frame_rate \<times> u32" where
  "follow bps pixels full now f = follow_floor bps pixels full now FPS_FLOOR f"

definition follow_office :: "u32 \<Rightarrow> nat \<Rightarrow> u32 \<Rightarrow> ms \<Rightarrow> frame_rate \<Rightarrow> frame_rate \<times> u32" where
  "follow_office bps pixels full now f = follow_floor bps pixels full now OFFICE_FPS_FLOOR f"

end
