(* ===== verification/RateUpdate.thy ===== *)
theory RateUpdate
  imports Rate
begin

text \<open>
  \<open>RateController::update\<close>: one feedback window folded in. The body of the function is cut into
  its consecutive steps, one definition each, in the order of the source; \<open>update\<close> at the end
  runs them. The clock of a call is \<open>now\<close>, the window's length on the host \<open>window\<close>.
\<close>

section \<open>Accounting\<close>

definition take_padding :: "feedback \<Rightarrow> rate \<Rightarrow> rate \<times> feedback" where
  "take_padding fb r =
    (let pad = min (rc_pad_pending r) (unat (fb_bytes fb)) in
     (r\<lparr>rc_pad_pending := 0\<rparr>, fb\<lparr>fb_bytes := of_nat (unat (fb_bytes fb) - pad)\<rparr>))"

definition note_overhead :: "rate \<Rightarrow> rate" where
  "note_overhead r =
    (if 0 < rc_sent_payload r then
       (let ratio = clampf (f64 (of_u64 (rc_sent_wire r) / of_u64 (rc_sent_payload r))) 1 3 in
        r\<lparr>rc_overhead := f64 (f64 (rc_overhead r * f64 (8 / 10)) + f64 (ratio * f64 (2 / 10)))\<rparr>)
     else r)"

text \<open>\<open>while front.is_some_and(old) { pop_front() }\<close> is \<open>dropWhile\<close>.\<close>

definition note_gap :: "feedback \<Rightarrow> ms \<Rightarrow> ms \<Rightarrow> rate \<Rightarrow> rate" where
  "note_gap fb window now r =
    (let gap = dropWhile (\<lambda>(t, _). GAP_MS < now - t)
           (rc_gap r @ [(now, rc_sent_wire r, unat (fb_bytes fb), window)]);
         got = sum_list (map (\<lambda>(_, _, d, _). d) gap);
         t = sum_list (map (\<lambda>(_, _, _, w). w) gap);
         carried = (if GAP_MS div 2 \<le> t
           then rc_carried r @ [(now, f64 (bits_per_s got t / rc_overhead r))] else rc_carried r)
     in r\<lparr>rc_gap := gap, rc_carried := dropWhile (\<lambda>(t, _). CARRIED_MS < now - t) carried,
          rc_sent_payload := 0, rc_sent_wire := 0\<rparr>)"

definition note_warm :: "ms \<Rightarrow> rate \<Rightarrow> rate" where
  "note_warm now r =
    (let r = (if rc_slow_until r = 2 ^ 64 - 1 then r\<lparr>rc_slow_until := now + SLOW_PATH_MS\<rparr> else r) in
     if rc_warm_cap r = None then r
     else
       let (at_ms, warm_slow) =
             (case rc_warm_retune r of None \<Rightarrow> (now + WARM_RETUNE_MS, rc_slow_until r) | Some w \<Rightarrow> w);
           r = r\<lparr>rc_warm_retune := Some (at_ms, warm_slow)\<rparr> in
       if at_ms \<le> now then
         (let r = r\<lparr>rc_warm_cap := None\<rparr> in
          if rc_slow_until r = warm_slow then r\<lparr>rc_slow_until := min (rc_slow_until r) now\<rparr> else r)
       else r)"

definition note_resolved :: "feedback \<Rightarrow> ms \<Rightarrow> rate \<Rightarrow> rate" where
  "note_resolved fb now r =
    (let r = r\<lparr>rc_resolved := rc_resolved r + unat (frames fb + frames_lost fb)\<rparr>;
         r = (if frames fb = 0 \<and> frames_lost fb = 0 \<and> rc_sent_frames r = rc_sent_at_last_update r then
                (let since = (case rc_quiet_since r of None \<Rightarrow> now | Some t \<Rightarrow> t);
                     r = r\<lparr>rc_quiet_since := Some since\<rparr> in
                 if 1000 \<le> now - since then r\<lparr>rc_resolved := max (rc_resolved r) (rc_sent_frames r)\<rparr> else r)
              else r\<lparr>rc_quiet_since := None\<rparr>)
     in r\<lparr>rc_sent_at_last_update := rc_sent_frames r\<rparr>)"

definition raw_loss :: "feedback \<Rightarrow> rat" where
  "raw_loss fb =
    (let total = shards fb + recovered fb in
     if 0 < total then f32 (f32 (of_u32 (recovered fb)) / f32 (of_u32 total)) else 0)"

text \<open>The literal \<open>0.05\<close>, an \<open>f32\<close>.\<close>

definition FEC_MIN :: rat where "FEC_MIN = f32 (5 / 100)"

definition note_loss :: "feedback \<Rightarrow> ms \<Rightarrow> rate \<Rightarrow> rate" where
  "note_loss fb now r =
    (let raw = raw_loss fb;
         r = (if 0 < shards fb + recovered fb
              then r\<lparr>rc_loss := f32 (f32 (rc_loss r * f32 (85 / 100)) + f32 (raw * f32 (15 / 100)))\<rparr> else r);
         r = (if f32 (1 / 100) < raw \<or> 0 < frames_lost fb
              then r\<lparr>rc_pace := min (f32 (rc_pace r * (3 / 2))) PACE_MAX\<rparr>
              else if rc_loss r < f32 (2 / 1000)
              then r\<lparr>rc_pace := max (f32 (rc_pace r * f32 (97 / 100))) PACE_MIN\<rparr> else r);
         r = r\<lparr>rc_fec := clampf (f32 (FEC_MIN + f32 (rc_loss r * 3))) FEC_MIN (1 / 2)\<rparr>
     in if 0 < frames_lost fb then r\<lparr>rc_fec := max (rc_fec r) (1 / 4)\<rparr> else r)"

definition note_clean :: "feedback \<Rightarrow> ms \<Rightarrow> rate \<Rightarrow> rate" where
  "note_clean fb now r =
    (let r = (if 0 < raw_loss fb \<or> 0 < frames_lost fb then r\<lparr>rc_clean_since := None\<rparr>
              else if rc_clean_since r = None then r\<lparr>rc_clean_since := Some now\<rparr> else r)
     in r\<lparr>rc_clean := (case rc_clean_since r of None \<Rightarrow> False | Some t \<Rightarrow> CLEAN_AFTER_MS \<le> now - t)\<rparr>)"

section \<open>The link\<close>

definition link_window :: "rate \<Rightarrow> ms" where
  "link_window r = (if sw_probe_train (rc_switches r) then LINK_WINDOW_TRAIN_MS else LINK_WINDOW_MS)"

fun drop_readings :: "ms \<Rightarrow> nat \<Rightarrow> ms \<Rightarrow> (ms \<times> rat) list \<Rightarrow> (ms \<times> rat) list" where
  "drop_readings window keep now [] = []"
| "drop_readings window keep now (x # xs) =
    (let age = now - fst x in
     if window < age \<and> (keep < length (x # xs) \<or> LINK_KEEP_MS < age)
     then drop_readings window keep now xs else x # xs)"

definition note_link :: "feedback \<Rightarrow> ms \<Rightarrow> rate \<Rightarrow> rate" where
  "note_link fb now r =
    (let reading = (now, min (f64 (of_u32 (link_kbps fb) * 1000)) LINK_MAX_BPS);
         r = (if rc_lan r \<and> 0 < link_kbps fb \<and> rc_link_doubt_until r \<le> now
              then r\<lparr>rc_link_seen := rc_link_seen r @ [reading]\<rparr> else r);
         r = (if rc_lan r \<and> 0 < link_kbps fb then r\<lparr>rc_link_best := rc_link_best r @ [reading]\<rparr> else r);
         r = r\<lparr>rc_link_best := dropWhile (\<lambda>(t, _). LINK_BEST_MS < now - t) (rc_link_best r)\<rparr>;
         window = link_window r;
         keep = (if sw_probe_idle (rc_switches r) \<and> sw_probe_train (rc_switches r) then LINK_KEEP_READINGS else 0);
         r = r\<lparr>rc_link_seen := drop_readings window keep now (rc_link_seen r)\<rparr>;
         r = (case reduce_max (map snd (rc_link_seen r)) of
                None \<Rightarrow> r | Some most \<Rightarrow> r\<lparr>rc_link_bps := Some most\<rparr>)
     in if sw_probe_train (rc_switches r) \<and> rc_link_doubt_until r \<le> now then
          (case (rc_link_bps r, reduce_max (map snd (filter (\<lambda>(t, _). now - t \<le> window) (rc_carried r)))) of
             (Some l, Some most) \<Rightarrow> r\<lparr>rc_link_bps := Some (max l (f64 (most * rc_overhead r)))\<rparr>
           | _ \<Rightarrow> r)
        else r)"

section \<open>The queue\<close>

fun drop_minima :: "ms \<Rightarrow> (ms \<times> int) list \<Rightarrow> (ms \<times> int) list" where
  "drop_minima now [] = []"
| "drop_minima now (x # xs) =
    (if BASELINE_WINDOWS \<le> length (x # xs) \<or> BASELINE_MS < now - fst x then drop_minima now xs else x # xs)"

text \<open>The window's \<open>queue_min_us\<close> and \<open>queue_us\<close>.\<close>

definition note_delay :: "feedback \<Rightarrow> ms \<Rightarrow> rate \<Rightarrow> rate \<times> int \<times> int" where
  "note_delay fb now r =
    (if 0 < frames fb then
       (let r = (case rc_last_frames r of
                   None \<Rightarrow> r | Some t \<Rightarrow> if PAUSE_MS < now - t then r\<lparr>rc_minima := []\<rparr> else r);
            r = r\<lparr>rc_last_frames := Some now,
                  rc_minima := drop_minima now (rc_minima r) @ [(now, sint (delay_min_us fb))]\<rparr>;
            base = min_list (map snd (rc_minima r))
        in (r, i64 (sint (delay_min_us fb) - base), i64 (sint (delay_avg_us fb) - base)))
     else (r, 0, 0))"

text \<open>
  Whether the stream's own bytes could have made the queue. Over a link of zero the source divides
  to infinity when something was sent (always enough, never too big) and to NaN when nothing was
  (neither).
\<close>

definition own_us :: "nat \<Rightarrow> rat \<Rightarrow> rat" where
  "own_us recent l = f64 (f64 (f64 (of_u64 recent * 8) / l) * 1000000)"

definition lasting :: "feedback \<Rightarrow> int \<Rightarrow> int \<Rightarrow> rate \<Rightarrow> bool" where
  "lasting fb queue_min queue r =
    (let sw = rc_switches r;
         burst = (sw_held_burst sw \<and> queue_min < max (queue sdiv 2) QUEUE_SOFT_US);
         lone = (sw_lone_frame sw \<and> frames fb < 2 \<and> queue \<le> STANDING_US)
     in 0 < frames fb \<and> QUEUE_HARD_US < queue \<and> QUEUE_HARD_US < rc_last_queue r \<and> \<not> burst \<and> \<not> lone)"

definition ours :: "feedback \<Rightarrow> int \<Rightarrow> int \<Rightarrow> rate \<Rightarrow> bool" where
  "ours fb queue_min queue r =
    (let recent = sum_list (map (\<lambda>(_, s, _, _). s) (take 2 (rev (rc_gap r))));
         enough = (\<lambda>l. if l = 0 then 0 < recent else of_int QUEUE_SOFT_US \<le> own_us recent l);
         too_big = (\<lambda>l. sw_own_queue (rc_switches r) \<and> l \<noteq> 0 \<and>
           f64 (2 * own_us recent l) < of_i64 queue \<and> queue_min < QUEUE_SOFT_US)
     in (case link_shown r of None \<Rightarrow> True | Some l \<Rightarrow> enough l \<and> \<not> too_big l) \<or> lasting fb queue_min queue r)"

definition yield_bulk :: "feedback \<Rightarrow> int \<Rightarrow> ms \<Rightarrow> rate \<Rightarrow> rate" where
  "yield_bulk fb queue now r =
    (if 0 < frames_lost fb \<or> QUEUE_SOFT_US div 2 < queue
     then r\<lparr>rc_bulk := max (f64 (rc_bulk r * (1 / 2))) (bulk_min r now)\<rparr>
     else if rc_bulk_busy r then r\<lparr>rc_bulk := min (f64 (rc_bulk r * f64 (115 / 100))) BULK_MAX\<rparr>
     else r)"

text \<open>Bits per second in encoder terms: \<open>used\<close>, \<open>delivered\<close> and \<open>rate_of\<close>.\<close>

definition rate_of :: "nat \<times> ms \<Rightarrow> rate \<Rightarrow> rat" where
  "rate_of d r = f64 (bits_per_s (fst d) (max (snd d) 1) / rc_overhead r)"

definition note_used :: "rat \<Rightarrow> rate \<Rightarrow> rate \<times> bool" where
  "note_used used r =
    (r\<lparr>rc_last_used := used\<rparr>, f64 (rc_bitrate r * (1 / 2)) \<le> max used (rc_last_used r))"

section \<open>Cuts by what the link delivers\<close>

text \<open>What every cut does: hold the rate, remember when.\<close>

definition hold :: "ms \<Rightarrow> rate \<Rightarrow> rate" where
  "hold now r = r\<lparr>rc_hold_until := now + HOLD_MS, rc_last_cut := Some now\<rparr>"

definition slow_path :: "ms \<Rightarrow> rate \<Rightarrow> rate" where
  "slow_path now r = r\<lparr>rc_slow_until := now + SLOW_PATH_MS\<rparr>"

definition min_rate :: "rate \<Rightarrow> rat" where "min_rate r = of_u32 (min_bps (rc_limits r))"
definition max_rate :: "rate \<Rightarrow> rat" where "max_rate r = of_u32 (max_bps (rc_limits r))"

definition probe_key :: "feedback \<Rightarrow> ms \<Rightarrow> ms \<Rightarrow> rate \<Rightarrow> rate" where
  "probe_key fb window now r =
    (if sw_key_probe (rc_switches r) \<and> key_in_flight r now then
       (let r = (if 0 < fb_bytes fb \<or> 0 < snd (rc_key_probe r)
                 then r\<lparr>rc_key_probe := (fst (rc_key_probe r) + unat (fb_bytes fb), snd (rc_key_probe r) + window)\<rparr>
                 else r);
            roomy = (rc_lan r \<and> (case rc_link_bps r of None \<Rightarrow> False
              | Some l \<Rightarrow> f64 (2 * rc_bitrate r) < f64 (l / rc_overhead r))) in
        if KEY_PROBE_MS \<le> now - rc_key_sent r \<and> 100 \<le> snd (rc_key_probe r) \<and>
           \<not> rc_key_probe_cut r \<and> \<not> roomy then
          (let link = f64 (rate_of (rc_key_probe r) r * f64 (85 / 100)) in
           if link < rc_bitrate r then
             doubt_link link now (count_cut CUT_PROBE (slow_path now (hold now
               (r\<lparr>rc_key_probe_cut := True, rc_bitrate := max link (min_rate r)\<rparr>))))
           else r)
        else r)
     else r)"

definition held :: "rat option \<times> rat \<Rightarrow> rate \<Rightarrow> bool" where
  "held g r =
    (rc_lan r \<and> (case rc_link_bps r of None \<Rightarrow> False
       | Some l \<Rightarrow> (case fst g of None \<Rightarrow> 0 < f64 (l / rc_overhead r)
           | Some ratio \<Rightarrow> f64 (f64 (2 * snd g) / max ratio (f64 (1 / 100))) < f64 (l / rc_overhead r))))"

definition cut_gap :: "(rat option \<times> rat) option \<Rightarrow> ms \<Rightarrow> rate \<Rightarrow> rate" where
  "cut_gap gap now r =
    (let probing = (sw_key_probe (rc_switches r) \<and> key_in_flight r now) in
     case gap of
       None \<Rightarrow> r
     | Some (ratio, link) \<Rightarrow>
         if sw_gap_cut (rc_switches r) \<and> ratio_below ratio GAP_CUT \<and> \<not> probing \<and> \<not> held (ratio, link) r then
           (let flr = lan_floor r now in
            if f64 (link * f64 (85 / 100)) < rc_bitrate r \<and> flr < rc_bitrate r then
              (let r = r\<lparr>rc_bitrate := max (max (f64 (link * f64 (85 / 100))) (min_rate r)) flr\<rparr>;
                   r = doubt_link link now (count_cut CUT_GAP (slow_path now (hold now r)));
                   r = r\<lparr>rc_bulk := bulk_min r now\<rparr>
               in r\<lparr>rc_gap := []\<rparr>)
            else r)
         else r)"

section \<open>The standing queue\<close>

definition note_standing :: "feedback \<Rightarrow> ms \<Rightarrow> int \<Rightarrow> int \<Rightarrow> rate \<Rightarrow> rate" where
  "note_standing fb window queue_min queue r =
    (let r = (if rc_standing_since r \<noteq> None \<or> rc_draining r
              then r\<lparr>rc_standing_delivered :=
                (fst (rc_standing_delivered r) + unat (fb_bytes fb), snd (rc_standing_delivered r) + window)\<rparr>
              else r)
     in if 0 < frames fb then r\<lparr>rc_queue_min := queue_min, rc_last_queue := queue\<rparr> else r)"

text \<open>A window whose fastest packet is late: the state, \<open>standing_cut\<close> and \<open>link_bps\<close>.\<close>

definition stand :: "feedback \<Rightarrow> rat \<Rightarrow> ms \<Rightarrow> int \<Rightarrow> rate \<Rightarrow> rate \<times> bool \<times> rat option" where
  "stand fb delivered now queue_min r =
    (let r = (case rc_standing_since r of
                Some _ \<Rightarrow> r
              | None \<Rightarrow> r\<lparr>rc_standing_start := queue_min, rc_standing_span := (queue_min, queue_min),
                          rc_standing_since := Some now\<rparr>);
         since = the (rc_standing_since r);
         r = r\<lparr>rc_drain_tail_since := None\<rparr>;
         shrinking = (case rc_standing_cut r of
             None \<Rightarrow> False | Some (_, q) \<Rightarrow> queue_min < i64 (q * 9) sdiv 10);
         due = (case rc_standing_cut r of None \<Rightarrow> True | Some (t, _) \<Rightarrow> STANDING_EVERY_MS \<le> now - t);
         r = r\<lparr>rc_standing_span := (min (fst (rc_standing_span r)) queue_min, max (snd (rc_standing_span r)) queue_min)\<rparr>;
         (lo, hi) = rc_standing_span r;
         flat = (i64 (hi - lo) \<le> max (rc_standing_start r sdiv 5) STANDING_FLAT_US)
     in if STANDING_REBASE_MS \<le> now - since \<and> i64 (rc_standing_start r * 9) sdiv 10 \<le> queue_min \<and> flat then
          (r\<lparr>rc_minima := [(now, sint (delay_min_us fb))], rc_standing_since := None, rc_standing_cut := None,
             rc_draining := False, rc_standing_delivered := (0, 0)\<rparr>, False, None)
        else if STANDING_MS \<le> now - since then
          (let r = r\<lparr>rc_draining := sw_drain (rc_switches r)\<rparr> in
           if due then
             (let acc = rc_standing_delivered r;
                  r = r\<lparr>rc_standing_cut := Some (now, queue_min), rc_standing_delivered := (0, 0)\<rparr>
              in (r, \<not> shrinking, Some (if 200 \<le> snd acc then rate_of acc r else delivered)))
           else (r, False, None))
        else (r, False, None))"

definition unstand :: "ms \<Rightarrow> int \<Rightarrow> rate \<Rightarrow> rate" where
  "unstand now queue_min r =
    (let near = (case rc_drain_tail_since r of None \<Rightarrow> now | Some t \<Rightarrow> t);
         r = r\<lparr>rc_standing_since := None, rc_standing_cut := None, rc_drain_tail_since := Some near\<rparr>;
         r = (if queue_min < DRAIN_END_US \<or> \<not> sw_standing_queue (rc_switches r) \<or> DRAIN_TAIL_MS \<le> now - near
              then r\<lparr>rc_draining := False\<rparr> else r)
     in if \<not> rc_draining r then r\<lparr>rc_standing_delivered := (0, 0)\<rparr> else r)"

definition watch_standing :: "feedback \<Rightarrow> rat \<Rightarrow> ms \<Rightarrow> int \<Rightarrow> rate \<Rightarrow> rate \<times> bool \<times> rat option" where
  "watch_standing fb delivered now queue_min r =
    (if sw_standing_queue (rc_switches r) \<and> 0 < frames fb \<and> STANDING_US < queue_min then stand fb delivered now queue_min r
     else if 0 < frames fb then (unstand now queue_min r, False, None)
     else (r, False, None))"

definition drain_to :: "rat option \<Rightarrow> ms \<Rightarrow> rate \<Rightarrow> rate" where
  "drain_to link now r =
    (case link of
       None \<Rightarrow> r
     | Some link \<Rightarrow>
         let r = (if f64 (link * f64 (85 / 100)) < rc_bitrate r then floor_yield now (count_cut CUT_DRAIN r) else r)
         in r\<lparr>rc_bitrate := max (min (rc_bitrate r) (f64 (link * f64 (85 / 100)))) (min_rate r)\<rparr>)"

definition cut_standing :: "rat \<Rightarrow> ms \<Rightarrow> rate \<Rightarrow> rate" where
  "cut_standing link now r =
    (let r = r\<lparr>rc_bitrate := min (f64 (rc_bitrate r * (3 / 4))) (f64 (link * f64 (85 / 100)))\<rparr>;
         r = doubt_link link now (floor_yield now (count_cut CUT_STANDING (slow_path now (hold now r))));
         r = r\<lparr>rc_link_best := []\<rparr>;
         r = r\<lparr>rc_bulk := bulk_min r now\<rparr>;
         r = r\<lparr>rc_bitrate := clampf (rc_bitrate r) (min_rate r) (max_rate r)\<rparr>
     in note_sustained r)"

section \<open>Cuts for loss and delay\<close>

definition note_landed :: "ms \<Rightarrow> rate \<Rightarrow> rate" where
  "note_landed now r =
    (if rc_key_landed r = None \<and> (case rc_key_wait r of None \<Rightarrow> False | Some (need, _) \<Rightarrow> need \<le> rc_resolved r)
     then r\<lparr>rc_key_landed := Some now\<rparr> else r)"

definition after_key :: "ms \<Rightarrow> rate \<Rightarrow> bool" where
  "after_key now r =
    ((case rc_key_wait r of None \<Rightarrow> False | Some (need, _) \<Rightarrow> need = 1) \<and>
     (case rc_key_landed r of None \<Rightarrow> False | Some t \<Rightarrow> t - rc_key_sent r < KEY_PROBE_MS) \<and>
     now - rc_key_sent r < KEY_QUEUE_MS)"

definition recut :: "ms \<Rightarrow> int \<Rightarrow> rate \<Rightarrow> bool" where
  "recut now queue r =
    (\<not> after_key now r \<or>
     (case rc_queue_cut r of None \<Rightarrow> True
      | Some (t, q) \<Rightarrow> HOLD_MS \<le> now - t \<or> i64 (q * 3) sdiv 2 < queue))"

definition decrease :: "feedback \<Rightarrow> int \<Rightarrow> bool \<Rightarrow> bool \<Rightarrow> bool \<Rightarrow> rate \<Rightarrow> (rat \<times> nat) option" where
  "decrease fb queue busy mine again r =
    (if 0 < frames_lost fb then Some (3 / 4, CUT_LOSS)
     else if QUEUE_HARD_US < queue \<and> busy \<and> mine \<and> again then Some (3 / 4, CUT_QUEUE)
     else if QUEUE_SOFT_US < queue \<and> busy \<and> mine \<and> again \<and>
             \<not> (sw_soft_slow (rc_switches r) \<and> rc_bitrate r < SLOW_PACE_BELOW_BPS)
     then Some (f64 (93 / 100), CUT_SOFT)
     else None)"

definition cut_by :: "rat \<Rightarrow> nat \<Rightarrow> rat \<Rightarrow> int \<Rightarrow> ms \<Rightarrow> rate \<Rightarrow> rate" where
  "cut_by f why delivered queue now r =
    (let r = count_cut why r;
         r = (if why \<noteq> CUT_LOSS then r\<lparr>rc_queue_cut := Some (now, queue)\<rparr> else r);
         r = r\<lparr>rc_bitrate := f64 (rc_bitrate r * f)\<rparr>;
         r = (if queue \<le> QUEUE_SOFT_US
              then r\<lparr>rc_bitrate := min (max (rc_bitrate r) (f64 (delivered * f64 (85 / 100)))) (f64 (rc_bitrate r / f))\<rparr>
              else r);
         r = (if why = CUT_LOSS
              then floor_yield now (if QUEUE_SOFT_US < queue then r\<lparr>rc_link_best := []\<rparr> else r)
              else r\<lparr>rc_bitrate := max (rc_bitrate r) (min (lan_floor r now) (f64 (rc_bitrate r / f)))\<rparr>)
     in hold now r)"

section \<open>Growth\<close>

definition half_link :: "rate \<Rightarrow> rat" where
  "half_link r = (case rc_link_bps r of None \<Rightarrow> 0 | Some l \<Rightarrow> f64 (f64 (l / rc_overhead r) / 2))"

definition ramps :: "rate \<Rightarrow> bool" where
  "ramps r =
    (rc_warm_cap r \<noteq> None \<and> rc_last_cut r = None \<and> rc_bitrate r < rc_resting r \<or>
     (case rc_link_bps r of None \<Rightarrow> False
      | Some l \<Rightarrow> rc_bitrate r < f64 (f64 (l / rc_overhead r) * LINK_RAMP_BELOW)))"

definition resting_rate :: "rate \<Rightarrow> rat" where
  "resting_rate r =
    (case rc_warm_cap r of None \<Rightarrow> rc_resting r | Some c \<Rightarrow> min (max c (half_link r)) (rc_resting r))"

text \<open>
  The \<open>&& !(gap\<dots>)\<close> that the source writes after the \<open>else\<close> block belongs to the whole
  \<open>if\<close> expression: a \<open>let\<close> initialiser is one expression.
\<close>

definition calm :: "feedback \<Rightarrow> int \<Rightarrow> bool \<Rightarrow> (rat option \<times> rat) option \<Rightarrow> rate \<Rightarrow> bool" where
  "calm fb queue mine gap r =
    ((if 0 < frames fb then queue \<le> QUEUE_SOFT_US \<or> \<not> mine
      else fb_bytes fb = 0 \<or> rc_last_queue r \<le> QUEUE_SOFT_US \<or> \<not> mine) \<and>
     \<not> (sw_gap_cut (rc_switches r) \<and> (case gap of None \<Rightarrow> False | Some (ratio, _) \<Rightarrow> ratio_below ratio GAP_GROW)))"

definition growth_ceiling :: "rat \<Rightarrow> ms \<Rightarrow> rate \<Rightarrow> rat option" where
  "growth_ceiling used now r =
    (if sw_grow_cap (rc_switches r) \<and> now < rc_slow_until r then
       (let carried = fold max (map snd (rc_carried r)) used in
        Some (max (max (max (f64 (carried * GROW_HEADROOM)) (half_link r)) (min_rate r)) (rc_bitrate r)))
     else None)"

definition grow :: "feedback \<Rightarrow> int \<Rightarrow> rat \<Rightarrow> bool \<Rightarrow> bool \<Rightarrow> (rat option \<times> rat) option \<Rightarrow> ms \<Rightarrow> rate \<Rightarrow> rate" where
  "grow fb queue used busy mine gap now r =
    (let resting = resting_rate r;
         calm = calm fb queue mine gap r;
         ceiling = growth_ceiling used now r;
         grown = f64 (rc_bitrate r * (if ramps r then WARM_RAMP else f64 (102 / 100)))
     in if busy \<and> calm then
          (let r = r\<lparr>rc_bitrate := min_inf grown ceiling\<rparr>
           in r\<lparr>rc_warm_cap := map_option (\<lambda>c. max c (rc_bitrate r)) (rc_warm_cap r)\<rparr>)
        else if \<not> busy \<and> calm \<and> \<not> (rc_paused r \<and> sw_pause_hold (rc_switches r)) \<and> rc_bitrate r < resting \<and>
                (case rc_last_cut r of None \<Rightarrow> True | Some t \<Rightarrow> RECOVER_AFTER_MS \<le> now - t)
        then r\<lparr>rc_bitrate := min_inf (min grown resting) ceiling\<rparr>
        else r)"

definition settle :: "feedback \<Rightarrow> bool \<Rightarrow> ms \<Rightarrow> rate \<Rightarrow> rate" where
  "settle fb busy now r =
    (let r = r\<lparr>rc_bitrate := max (rc_bitrate r) (lan_floor r now)\<rparr>;
         r = r\<lparr>rc_bitrate := clampf (rc_bitrate r) (min_rate r) (max_rate r)\<rparr>
     in if busy \<and> 0 < frames fb then note_sustained r else r)"

section \<open>The whole\<close>

text \<open>The first half of \<open>update\<close>: what the window says, before any cut.\<close>

definition account :: "feedback \<Rightarrow> ms \<Rightarrow> ms \<Rightarrow> rate \<Rightarrow> rate" where
  "account fb window now r =
    note_link fb now (note_clean fb now (note_loss fb now (note_resolved fb now (note_warm now (note_gap fb window now (note_overhead r))))))"

definition adjust :: "feedback \<Rightarrow> rat \<Rightarrow> int \<Rightarrow> bool \<Rightarrow> bool \<Rightarrow> (rat option \<times> rat) option \<Rightarrow> ms \<Rightarrow> rate \<Rightarrow> rate" where
  "adjust fb used queue busy mine gap now r =
    (let r = note_landed now r
     in case decrease fb queue busy mine (recut now queue r) r of
          Some (f, why) \<Rightarrow> cut_by f why used queue now r
        | None \<Rightarrow> if rc_hold_until r \<le> now then grow fb queue used busy mine gap now r else r)"

definition update :: "feedback \<Rightarrow> ms \<Rightarrow> ms \<Rightarrow> rate \<Rightarrow> rate" where
  "update fb window now r =
    (let (r, fb) = take_padding fb r;
         r = account fb window now r;
         (r, queue_min, queue) = note_delay fb now r;
         mine = ours fb queue_min queue r;
         r = yield_bulk fb queue now r;
         used = rate_of (unat (fb_bytes fb), window) r;
         (r, busy) = note_used used r;
         r = probe_key fb window now r;
         gap = delivery_gap r;
         r = note_standing fb window queue_min queue (cut_gap gap now r);
         (r, standing_cut, link) = watch_standing fb used now queue_min r
     in if standing_cut then cut_standing (case link of None \<Rightarrow> used | Some l \<Rightarrow> l) now r
        else
          let r = (if rc_draining r then drain_to link now r else r)
          in settle fb busy now (adjust fb used queue busy mine gap now r))"

end
