(* ===== verification/RateBounds.thy ===== *)
theory RateBounds
  imports RateUpdate
begin

text \<open>
  What holds of the rate controller however it is called: its rate, parity, pacing and bulk rate
  stay within their bounds, one window raises the rate by six percent at most, a lost frame and the
  hold after any cut never raise it, small frames lose their parity only on a path that lost nothing
  for ten seconds, and a keyframe request is never swallowed longer than ten seconds.
\<close>

section \<open>What each step leaves alone\<close>

text \<open>
  Views of the state, and for a view \<open>g\<close> a predicate \<open>P\<close> on what it shows. A step that
  leaves the view alone keeps every predicate, branch by branch: the rules \<open>keeps_rules\<close> go
  through its \<open>let\<close>s and cases; \<open>keepsf\<close> is the same for a step that also returns a value.
\<close>

definition setup_of where "setup_of r = (rc_limits r, rc_switches r, rc_lan r, rc_resting r, rc_key_wait r, rc_key_sent r)"
definition path_of where "path_of r = (rc_loss r, rc_fec r, rc_pace r, rc_clean_since r, rc_clean r)"
definition overhead_of where "overhead_of r = rc_overhead r"
definition bulk_of where "bulk_of r = rc_bulk r"
definition speed_of where "speed_of r = (rc_bitrate r, rc_limits r, rc_lan r)"
definition hold_of where "hold_of r = rc_hold_until r"

definition keeps :: "(rate \<Rightarrow> 'v) \<Rightarrow> ('v \<Rightarrow> bool) \<Rightarrow> rate \<Rightarrow> bool" where
  "keeps g P r \<longleftrightarrow> P (g r)"

definition keepsf :: "(rate \<Rightarrow> 'v) \<Rightarrow> ('v \<Rightarrow> bool) \<Rightarrow> rate \<times> 'a \<Rightarrow> bool" where
  "keepsf g P p \<longleftrightarrow> keeps g P (fst p)"

lemma keeps_setup_of [simp]:
  "keeps setup_of P (rc_bitrate_update v_0 r) = keeps setup_of P r"
  "keeps setup_of P (rc_fec_update v_1 r) = keeps setup_of P r"
  "keeps setup_of P (rc_loss_update v_2 r) = keeps setup_of P r"
  "keeps setup_of P (rc_pace_update v_3 r) = keeps setup_of P r"
  "keeps setup_of P (rc_minima_update v_4 r) = keeps setup_of P r"
  "keeps setup_of P (rc_hold_until_update v_5 r) = keeps setup_of P r"
  "keeps setup_of P (rc_last_cut_update v_6 r) = keeps setup_of P r"
  "keeps setup_of P (rc_queue_cut_update v_7 r) = keeps setup_of P r"
  "keeps setup_of P (rc_sent_payload_update v_8 r) = keeps setup_of P r"
  "keeps setup_of P (rc_sent_wire_update v_9 r) = keeps setup_of P r"
  "keeps setup_of P (rc_overhead_update v_10 r) = keeps setup_of P r"
  "keeps setup_of P (rc_bulk_update v_11 r) = keeps setup_of P r"
  "keeps setup_of P (rc_bulk_busy_update v_12 r) = keeps setup_of P r"
  "keeps setup_of P (rc_clean_since_update v_13 r) = keeps setup_of P r"
  "keeps setup_of P (rc_clean_update v_14 r) = keeps setup_of P r"
  "keeps setup_of P (rc_last_used_update v_15 r) = keeps setup_of P r"
  "keeps setup_of P (rc_last_frames_update v_16 r) = keeps setup_of P r"
  "keeps setup_of P (rc_standing_since_update v_17 r) = keeps setup_of P r"
  "keeps setup_of P (rc_standing_start_update v_18 r) = keeps setup_of P r"
  "keeps setup_of P (rc_standing_cut_update v_19 r) = keeps setup_of P r"
  "keeps setup_of P (rc_standing_span_update v_20 r) = keeps setup_of P r"
  "keeps setup_of P (rc_draining_update v_21 r) = keeps setup_of P r"
  "keeps setup_of P (rc_drain_tail_since_update v_22 r) = keeps setup_of P r"
  "keeps setup_of P (rc_queue_min_update v_23 r) = keeps setup_of P r"
  "keeps setup_of P (rc_last_queue_update v_24 r) = keeps setup_of P r"
  "keeps setup_of P (rc_sent_frames_update v_25 r) = keeps setup_of P r"
  "keeps setup_of P (rc_resolved_update v_26 r) = keeps setup_of P r"
  "keeps setup_of P (rc_collapsed_update v_27 r) = keeps setup_of P r"
  "keeps setup_of P (rc_quiet_since_update v_28 r) = keeps setup_of P r"
  "keeps setup_of P (rc_sent_at_last_update_update v_29 r) = keeps setup_of P r"
  "keeps setup_of P (rc_sustained_update v_30 r) = keeps setup_of P r"
  "keeps setup_of P (rc_sustained_n_update v_31 r) = keeps setup_of P r"
  "keeps setup_of P (rc_warm_cap_update v_32 r) = keeps setup_of P r"
  "keeps setup_of P (rc_warm_retune_update v_33 r) = keeps setup_of P r"
  "keeps setup_of P (rc_floor_yield_until_update v_34 r) = keeps setup_of P r"
  "keeps setup_of P (rc_floor_yield_update v_35 r) = keeps setup_of P r"
  "keeps setup_of P (rc_link_bps_update v_36 r) = keeps setup_of P r"
  "keeps setup_of P (rc_link_seen_update v_37 r) = keeps setup_of P r"
  "keeps setup_of P (rc_link_doubt_until_update v_38 r) = keeps setup_of P r"
  "keeps setup_of P (rc_link_best_update v_39 r) = keeps setup_of P r"
  "keeps setup_of P (rc_last_probe_update v_40 r) = keeps setup_of P r"
  "keeps setup_of P (rc_pad_pending_update v_41 r) = keeps setup_of P r"
  "keeps setup_of P (rc_key_landed_update v_42 r) = keeps setup_of P r"
  "keeps setup_of P (rc_key_probe_update v_43 r) = keeps setup_of P r"
  "keeps setup_of P (rc_key_probe_cut_update v_44 r) = keeps setup_of P r"
  "keeps setup_of P (rc_standing_delivered_update v_45 r) = keeps setup_of P r"
  "keeps setup_of P (rc_gap_update v_46 r) = keeps setup_of P r"
  "keeps setup_of P (rc_slow_until_update v_47 r) = keeps setup_of P r"
  "keeps setup_of P (rc_carried_update v_48 r) = keeps setup_of P r"
  "keeps setup_of P (rc_cuts_update v_49 r) = keeps setup_of P r"
  "keeps setup_of P (rc_paused_update v_50 r) = keeps setup_of P r"
  by (simp_all add: keeps_def setup_of_def)

lemma keeps_path_of [simp]:
  "keeps path_of P (rc_limits_update v_0 r) = keeps path_of P r"
  "keeps path_of P (rc_bitrate_update v_1 r) = keeps path_of P r"
  "keeps path_of P (rc_minima_update v_2 r) = keeps path_of P r"
  "keeps path_of P (rc_hold_until_update v_3 r) = keeps path_of P r"
  "keeps path_of P (rc_last_cut_update v_4 r) = keeps path_of P r"
  "keeps path_of P (rc_queue_cut_update v_5 r) = keeps path_of P r"
  "keeps path_of P (rc_resting_update v_6 r) = keeps path_of P r"
  "keeps path_of P (rc_sent_payload_update v_7 r) = keeps path_of P r"
  "keeps path_of P (rc_sent_wire_update v_8 r) = keeps path_of P r"
  "keeps path_of P (rc_overhead_update v_9 r) = keeps path_of P r"
  "keeps path_of P (rc_bulk_update v_10 r) = keeps path_of P r"
  "keeps path_of P (rc_bulk_busy_update v_11 r) = keeps path_of P r"
  "keeps path_of P (rc_last_used_update v_12 r) = keeps path_of P r"
  "keeps path_of P (rc_last_frames_update v_13 r) = keeps path_of P r"
  "keeps path_of P (rc_standing_since_update v_14 r) = keeps path_of P r"
  "keeps path_of P (rc_standing_start_update v_15 r) = keeps path_of P r"
  "keeps path_of P (rc_standing_cut_update v_16 r) = keeps path_of P r"
  "keeps path_of P (rc_standing_span_update v_17 r) = keeps path_of P r"
  "keeps path_of P (rc_switches_update v_18 r) = keeps path_of P r"
  "keeps path_of P (rc_draining_update v_19 r) = keeps path_of P r"
  "keeps path_of P (rc_drain_tail_since_update v_20 r) = keeps path_of P r"
  "keeps path_of P (rc_queue_min_update v_21 r) = keeps path_of P r"
  "keeps path_of P (rc_last_queue_update v_22 r) = keeps path_of P r"
  "keeps path_of P (rc_sent_frames_update v_23 r) = keeps path_of P r"
  "keeps path_of P (rc_resolved_update v_24 r) = keeps path_of P r"
  "keeps path_of P (rc_key_wait_update v_25 r) = keeps path_of P r"
  "keeps path_of P (rc_collapsed_update v_26 r) = keeps path_of P r"
  "keeps path_of P (rc_quiet_since_update v_27 r) = keeps path_of P r"
  "keeps path_of P (rc_sent_at_last_update_update v_28 r) = keeps path_of P r"
  "keeps path_of P (rc_sustained_update v_29 r) = keeps path_of P r"
  "keeps path_of P (rc_sustained_n_update v_30 r) = keeps path_of P r"
  "keeps path_of P (rc_warm_cap_update v_31 r) = keeps path_of P r"
  "keeps path_of P (rc_warm_retune_update v_32 r) = keeps path_of P r"
  "keeps path_of P (rc_lan_update v_33 r) = keeps path_of P r"
  "keeps path_of P (rc_floor_yield_until_update v_34 r) = keeps path_of P r"
  "keeps path_of P (rc_floor_yield_update v_35 r) = keeps path_of P r"
  "keeps path_of P (rc_link_bps_update v_36 r) = keeps path_of P r"
  "keeps path_of P (rc_link_seen_update v_37 r) = keeps path_of P r"
  "keeps path_of P (rc_link_doubt_until_update v_38 r) = keeps path_of P r"
  "keeps path_of P (rc_link_best_update v_39 r) = keeps path_of P r"
  "keeps path_of P (rc_last_probe_update v_40 r) = keeps path_of P r"
  "keeps path_of P (rc_pad_pending_update v_41 r) = keeps path_of P r"
  "keeps path_of P (rc_key_sent_update v_42 r) = keeps path_of P r"
  "keeps path_of P (rc_key_landed_update v_43 r) = keeps path_of P r"
  "keeps path_of P (rc_key_probe_update v_44 r) = keeps path_of P r"
  "keeps path_of P (rc_key_probe_cut_update v_45 r) = keeps path_of P r"
  "keeps path_of P (rc_standing_delivered_update v_46 r) = keeps path_of P r"
  "keeps path_of P (rc_gap_update v_47 r) = keeps path_of P r"
  "keeps path_of P (rc_slow_until_update v_48 r) = keeps path_of P r"
  "keeps path_of P (rc_carried_update v_49 r) = keeps path_of P r"
  "keeps path_of P (rc_cuts_update v_50 r) = keeps path_of P r"
  "keeps path_of P (rc_paused_update v_51 r) = keeps path_of P r"
  by (simp_all add: keeps_def path_of_def)

lemma keeps_overhead_of [simp]:
  "keeps overhead_of P (rc_limits_update v_0 r) = keeps overhead_of P r"
  "keeps overhead_of P (rc_bitrate_update v_1 r) = keeps overhead_of P r"
  "keeps overhead_of P (rc_fec_update v_2 r) = keeps overhead_of P r"
  "keeps overhead_of P (rc_loss_update v_3 r) = keeps overhead_of P r"
  "keeps overhead_of P (rc_pace_update v_4 r) = keeps overhead_of P r"
  "keeps overhead_of P (rc_minima_update v_5 r) = keeps overhead_of P r"
  "keeps overhead_of P (rc_hold_until_update v_6 r) = keeps overhead_of P r"
  "keeps overhead_of P (rc_last_cut_update v_7 r) = keeps overhead_of P r"
  "keeps overhead_of P (rc_queue_cut_update v_8 r) = keeps overhead_of P r"
  "keeps overhead_of P (rc_resting_update v_9 r) = keeps overhead_of P r"
  "keeps overhead_of P (rc_sent_payload_update v_10 r) = keeps overhead_of P r"
  "keeps overhead_of P (rc_sent_wire_update v_11 r) = keeps overhead_of P r"
  "keeps overhead_of P (rc_bulk_update v_12 r) = keeps overhead_of P r"
  "keeps overhead_of P (rc_bulk_busy_update v_13 r) = keeps overhead_of P r"
  "keeps overhead_of P (rc_clean_since_update v_14 r) = keeps overhead_of P r"
  "keeps overhead_of P (rc_clean_update v_15 r) = keeps overhead_of P r"
  "keeps overhead_of P (rc_last_used_update v_16 r) = keeps overhead_of P r"
  "keeps overhead_of P (rc_last_frames_update v_17 r) = keeps overhead_of P r"
  "keeps overhead_of P (rc_standing_since_update v_18 r) = keeps overhead_of P r"
  "keeps overhead_of P (rc_standing_start_update v_19 r) = keeps overhead_of P r"
  "keeps overhead_of P (rc_standing_cut_update v_20 r) = keeps overhead_of P r"
  "keeps overhead_of P (rc_standing_span_update v_21 r) = keeps overhead_of P r"
  "keeps overhead_of P (rc_switches_update v_22 r) = keeps overhead_of P r"
  "keeps overhead_of P (rc_draining_update v_23 r) = keeps overhead_of P r"
  "keeps overhead_of P (rc_drain_tail_since_update v_24 r) = keeps overhead_of P r"
  "keeps overhead_of P (rc_queue_min_update v_25 r) = keeps overhead_of P r"
  "keeps overhead_of P (rc_last_queue_update v_26 r) = keeps overhead_of P r"
  "keeps overhead_of P (rc_sent_frames_update v_27 r) = keeps overhead_of P r"
  "keeps overhead_of P (rc_resolved_update v_28 r) = keeps overhead_of P r"
  "keeps overhead_of P (rc_key_wait_update v_29 r) = keeps overhead_of P r"
  "keeps overhead_of P (rc_collapsed_update v_30 r) = keeps overhead_of P r"
  "keeps overhead_of P (rc_quiet_since_update v_31 r) = keeps overhead_of P r"
  "keeps overhead_of P (rc_sent_at_last_update_update v_32 r) = keeps overhead_of P r"
  "keeps overhead_of P (rc_sustained_update v_33 r) = keeps overhead_of P r"
  "keeps overhead_of P (rc_sustained_n_update v_34 r) = keeps overhead_of P r"
  "keeps overhead_of P (rc_warm_cap_update v_35 r) = keeps overhead_of P r"
  "keeps overhead_of P (rc_warm_retune_update v_36 r) = keeps overhead_of P r"
  "keeps overhead_of P (rc_lan_update v_37 r) = keeps overhead_of P r"
  "keeps overhead_of P (rc_floor_yield_until_update v_38 r) = keeps overhead_of P r"
  "keeps overhead_of P (rc_floor_yield_update v_39 r) = keeps overhead_of P r"
  "keeps overhead_of P (rc_link_bps_update v_40 r) = keeps overhead_of P r"
  "keeps overhead_of P (rc_link_seen_update v_41 r) = keeps overhead_of P r"
  "keeps overhead_of P (rc_link_doubt_until_update v_42 r) = keeps overhead_of P r"
  "keeps overhead_of P (rc_link_best_update v_43 r) = keeps overhead_of P r"
  "keeps overhead_of P (rc_last_probe_update v_44 r) = keeps overhead_of P r"
  "keeps overhead_of P (rc_pad_pending_update v_45 r) = keeps overhead_of P r"
  "keeps overhead_of P (rc_key_sent_update v_46 r) = keeps overhead_of P r"
  "keeps overhead_of P (rc_key_landed_update v_47 r) = keeps overhead_of P r"
  "keeps overhead_of P (rc_key_probe_update v_48 r) = keeps overhead_of P r"
  "keeps overhead_of P (rc_key_probe_cut_update v_49 r) = keeps overhead_of P r"
  "keeps overhead_of P (rc_standing_delivered_update v_50 r) = keeps overhead_of P r"
  "keeps overhead_of P (rc_gap_update v_51 r) = keeps overhead_of P r"
  "keeps overhead_of P (rc_slow_until_update v_52 r) = keeps overhead_of P r"
  "keeps overhead_of P (rc_carried_update v_53 r) = keeps overhead_of P r"
  "keeps overhead_of P (rc_cuts_update v_54 r) = keeps overhead_of P r"
  "keeps overhead_of P (rc_paused_update v_55 r) = keeps overhead_of P r"
  by (simp_all add: keeps_def overhead_of_def)

lemma keeps_bulk_of [simp]:
  "keeps bulk_of P (rc_limits_update v_0 r) = keeps bulk_of P r"
  "keeps bulk_of P (rc_bitrate_update v_1 r) = keeps bulk_of P r"
  "keeps bulk_of P (rc_fec_update v_2 r) = keeps bulk_of P r"
  "keeps bulk_of P (rc_loss_update v_3 r) = keeps bulk_of P r"
  "keeps bulk_of P (rc_pace_update v_4 r) = keeps bulk_of P r"
  "keeps bulk_of P (rc_minima_update v_5 r) = keeps bulk_of P r"
  "keeps bulk_of P (rc_hold_until_update v_6 r) = keeps bulk_of P r"
  "keeps bulk_of P (rc_last_cut_update v_7 r) = keeps bulk_of P r"
  "keeps bulk_of P (rc_queue_cut_update v_8 r) = keeps bulk_of P r"
  "keeps bulk_of P (rc_resting_update v_9 r) = keeps bulk_of P r"
  "keeps bulk_of P (rc_sent_payload_update v_10 r) = keeps bulk_of P r"
  "keeps bulk_of P (rc_sent_wire_update v_11 r) = keeps bulk_of P r"
  "keeps bulk_of P (rc_overhead_update v_12 r) = keeps bulk_of P r"
  "keeps bulk_of P (rc_bulk_busy_update v_13 r) = keeps bulk_of P r"
  "keeps bulk_of P (rc_clean_since_update v_14 r) = keeps bulk_of P r"
  "keeps bulk_of P (rc_clean_update v_15 r) = keeps bulk_of P r"
  "keeps bulk_of P (rc_last_used_update v_16 r) = keeps bulk_of P r"
  "keeps bulk_of P (rc_last_frames_update v_17 r) = keeps bulk_of P r"
  "keeps bulk_of P (rc_standing_since_update v_18 r) = keeps bulk_of P r"
  "keeps bulk_of P (rc_standing_start_update v_19 r) = keeps bulk_of P r"
  "keeps bulk_of P (rc_standing_cut_update v_20 r) = keeps bulk_of P r"
  "keeps bulk_of P (rc_standing_span_update v_21 r) = keeps bulk_of P r"
  "keeps bulk_of P (rc_switches_update v_22 r) = keeps bulk_of P r"
  "keeps bulk_of P (rc_draining_update v_23 r) = keeps bulk_of P r"
  "keeps bulk_of P (rc_drain_tail_since_update v_24 r) = keeps bulk_of P r"
  "keeps bulk_of P (rc_queue_min_update v_25 r) = keeps bulk_of P r"
  "keeps bulk_of P (rc_last_queue_update v_26 r) = keeps bulk_of P r"
  "keeps bulk_of P (rc_sent_frames_update v_27 r) = keeps bulk_of P r"
  "keeps bulk_of P (rc_resolved_update v_28 r) = keeps bulk_of P r"
  "keeps bulk_of P (rc_key_wait_update v_29 r) = keeps bulk_of P r"
  "keeps bulk_of P (rc_collapsed_update v_30 r) = keeps bulk_of P r"
  "keeps bulk_of P (rc_quiet_since_update v_31 r) = keeps bulk_of P r"
  "keeps bulk_of P (rc_sent_at_last_update_update v_32 r) = keeps bulk_of P r"
  "keeps bulk_of P (rc_sustained_update v_33 r) = keeps bulk_of P r"
  "keeps bulk_of P (rc_sustained_n_update v_34 r) = keeps bulk_of P r"
  "keeps bulk_of P (rc_warm_cap_update v_35 r) = keeps bulk_of P r"
  "keeps bulk_of P (rc_warm_retune_update v_36 r) = keeps bulk_of P r"
  "keeps bulk_of P (rc_lan_update v_37 r) = keeps bulk_of P r"
  "keeps bulk_of P (rc_floor_yield_until_update v_38 r) = keeps bulk_of P r"
  "keeps bulk_of P (rc_floor_yield_update v_39 r) = keeps bulk_of P r"
  "keeps bulk_of P (rc_link_bps_update v_40 r) = keeps bulk_of P r"
  "keeps bulk_of P (rc_link_seen_update v_41 r) = keeps bulk_of P r"
  "keeps bulk_of P (rc_link_doubt_until_update v_42 r) = keeps bulk_of P r"
  "keeps bulk_of P (rc_link_best_update v_43 r) = keeps bulk_of P r"
  "keeps bulk_of P (rc_last_probe_update v_44 r) = keeps bulk_of P r"
  "keeps bulk_of P (rc_pad_pending_update v_45 r) = keeps bulk_of P r"
  "keeps bulk_of P (rc_key_sent_update v_46 r) = keeps bulk_of P r"
  "keeps bulk_of P (rc_key_landed_update v_47 r) = keeps bulk_of P r"
  "keeps bulk_of P (rc_key_probe_update v_48 r) = keeps bulk_of P r"
  "keeps bulk_of P (rc_key_probe_cut_update v_49 r) = keeps bulk_of P r"
  "keeps bulk_of P (rc_standing_delivered_update v_50 r) = keeps bulk_of P r"
  "keeps bulk_of P (rc_gap_update v_51 r) = keeps bulk_of P r"
  "keeps bulk_of P (rc_slow_until_update v_52 r) = keeps bulk_of P r"
  "keeps bulk_of P (rc_carried_update v_53 r) = keeps bulk_of P r"
  "keeps bulk_of P (rc_cuts_update v_54 r) = keeps bulk_of P r"
  "keeps bulk_of P (rc_paused_update v_55 r) = keeps bulk_of P r"
  by (simp_all add: keeps_def bulk_of_def)

lemma keeps_speed_of [simp]:
  "keeps speed_of P (rc_fec_update v_0 r) = keeps speed_of P r"
  "keeps speed_of P (rc_loss_update v_1 r) = keeps speed_of P r"
  "keeps speed_of P (rc_pace_update v_2 r) = keeps speed_of P r"
  "keeps speed_of P (rc_minima_update v_3 r) = keeps speed_of P r"
  "keeps speed_of P (rc_hold_until_update v_4 r) = keeps speed_of P r"
  "keeps speed_of P (rc_last_cut_update v_5 r) = keeps speed_of P r"
  "keeps speed_of P (rc_queue_cut_update v_6 r) = keeps speed_of P r"
  "keeps speed_of P (rc_resting_update v_7 r) = keeps speed_of P r"
  "keeps speed_of P (rc_sent_payload_update v_8 r) = keeps speed_of P r"
  "keeps speed_of P (rc_sent_wire_update v_9 r) = keeps speed_of P r"
  "keeps speed_of P (rc_overhead_update v_10 r) = keeps speed_of P r"
  "keeps speed_of P (rc_bulk_update v_11 r) = keeps speed_of P r"
  "keeps speed_of P (rc_bulk_busy_update v_12 r) = keeps speed_of P r"
  "keeps speed_of P (rc_clean_since_update v_13 r) = keeps speed_of P r"
  "keeps speed_of P (rc_clean_update v_14 r) = keeps speed_of P r"
  "keeps speed_of P (rc_last_used_update v_15 r) = keeps speed_of P r"
  "keeps speed_of P (rc_last_frames_update v_16 r) = keeps speed_of P r"
  "keeps speed_of P (rc_standing_since_update v_17 r) = keeps speed_of P r"
  "keeps speed_of P (rc_standing_start_update v_18 r) = keeps speed_of P r"
  "keeps speed_of P (rc_standing_cut_update v_19 r) = keeps speed_of P r"
  "keeps speed_of P (rc_standing_span_update v_20 r) = keeps speed_of P r"
  "keeps speed_of P (rc_switches_update v_21 r) = keeps speed_of P r"
  "keeps speed_of P (rc_draining_update v_22 r) = keeps speed_of P r"
  "keeps speed_of P (rc_drain_tail_since_update v_23 r) = keeps speed_of P r"
  "keeps speed_of P (rc_queue_min_update v_24 r) = keeps speed_of P r"
  "keeps speed_of P (rc_last_queue_update v_25 r) = keeps speed_of P r"
  "keeps speed_of P (rc_sent_frames_update v_26 r) = keeps speed_of P r"
  "keeps speed_of P (rc_resolved_update v_27 r) = keeps speed_of P r"
  "keeps speed_of P (rc_key_wait_update v_28 r) = keeps speed_of P r"
  "keeps speed_of P (rc_collapsed_update v_29 r) = keeps speed_of P r"
  "keeps speed_of P (rc_quiet_since_update v_30 r) = keeps speed_of P r"
  "keeps speed_of P (rc_sent_at_last_update_update v_31 r) = keeps speed_of P r"
  "keeps speed_of P (rc_sustained_update v_32 r) = keeps speed_of P r"
  "keeps speed_of P (rc_sustained_n_update v_33 r) = keeps speed_of P r"
  "keeps speed_of P (rc_warm_cap_update v_34 r) = keeps speed_of P r"
  "keeps speed_of P (rc_warm_retune_update v_35 r) = keeps speed_of P r"
  "keeps speed_of P (rc_floor_yield_until_update v_36 r) = keeps speed_of P r"
  "keeps speed_of P (rc_floor_yield_update v_37 r) = keeps speed_of P r"
  "keeps speed_of P (rc_link_bps_update v_38 r) = keeps speed_of P r"
  "keeps speed_of P (rc_link_seen_update v_39 r) = keeps speed_of P r"
  "keeps speed_of P (rc_link_doubt_until_update v_40 r) = keeps speed_of P r"
  "keeps speed_of P (rc_link_best_update v_41 r) = keeps speed_of P r"
  "keeps speed_of P (rc_last_probe_update v_42 r) = keeps speed_of P r"
  "keeps speed_of P (rc_pad_pending_update v_43 r) = keeps speed_of P r"
  "keeps speed_of P (rc_key_sent_update v_44 r) = keeps speed_of P r"
  "keeps speed_of P (rc_key_landed_update v_45 r) = keeps speed_of P r"
  "keeps speed_of P (rc_key_probe_update v_46 r) = keeps speed_of P r"
  "keeps speed_of P (rc_key_probe_cut_update v_47 r) = keeps speed_of P r"
  "keeps speed_of P (rc_standing_delivered_update v_48 r) = keeps speed_of P r"
  "keeps speed_of P (rc_gap_update v_49 r) = keeps speed_of P r"
  "keeps speed_of P (rc_slow_until_update v_50 r) = keeps speed_of P r"
  "keeps speed_of P (rc_carried_update v_51 r) = keeps speed_of P r"
  "keeps speed_of P (rc_cuts_update v_52 r) = keeps speed_of P r"
  "keeps speed_of P (rc_paused_update v_53 r) = keeps speed_of P r"
  by (simp_all add: keeps_def speed_of_def)

lemma keeps_hold_of [simp]:
  "keeps hold_of P (rc_limits_update v_0 r) = keeps hold_of P r"
  "keeps hold_of P (rc_bitrate_update v_1 r) = keeps hold_of P r"
  "keeps hold_of P (rc_fec_update v_2 r) = keeps hold_of P r"
  "keeps hold_of P (rc_loss_update v_3 r) = keeps hold_of P r"
  "keeps hold_of P (rc_pace_update v_4 r) = keeps hold_of P r"
  "keeps hold_of P (rc_minima_update v_5 r) = keeps hold_of P r"
  "keeps hold_of P (rc_last_cut_update v_6 r) = keeps hold_of P r"
  "keeps hold_of P (rc_queue_cut_update v_7 r) = keeps hold_of P r"
  "keeps hold_of P (rc_resting_update v_8 r) = keeps hold_of P r"
  "keeps hold_of P (rc_sent_payload_update v_9 r) = keeps hold_of P r"
  "keeps hold_of P (rc_sent_wire_update v_10 r) = keeps hold_of P r"
  "keeps hold_of P (rc_overhead_update v_11 r) = keeps hold_of P r"
  "keeps hold_of P (rc_bulk_update v_12 r) = keeps hold_of P r"
  "keeps hold_of P (rc_bulk_busy_update v_13 r) = keeps hold_of P r"
  "keeps hold_of P (rc_clean_since_update v_14 r) = keeps hold_of P r"
  "keeps hold_of P (rc_clean_update v_15 r) = keeps hold_of P r"
  "keeps hold_of P (rc_last_used_update v_16 r) = keeps hold_of P r"
  "keeps hold_of P (rc_last_frames_update v_17 r) = keeps hold_of P r"
  "keeps hold_of P (rc_standing_since_update v_18 r) = keeps hold_of P r"
  "keeps hold_of P (rc_standing_start_update v_19 r) = keeps hold_of P r"
  "keeps hold_of P (rc_standing_cut_update v_20 r) = keeps hold_of P r"
  "keeps hold_of P (rc_standing_span_update v_21 r) = keeps hold_of P r"
  "keeps hold_of P (rc_switches_update v_22 r) = keeps hold_of P r"
  "keeps hold_of P (rc_draining_update v_23 r) = keeps hold_of P r"
  "keeps hold_of P (rc_drain_tail_since_update v_24 r) = keeps hold_of P r"
  "keeps hold_of P (rc_queue_min_update v_25 r) = keeps hold_of P r"
  "keeps hold_of P (rc_last_queue_update v_26 r) = keeps hold_of P r"
  "keeps hold_of P (rc_sent_frames_update v_27 r) = keeps hold_of P r"
  "keeps hold_of P (rc_resolved_update v_28 r) = keeps hold_of P r"
  "keeps hold_of P (rc_key_wait_update v_29 r) = keeps hold_of P r"
  "keeps hold_of P (rc_collapsed_update v_30 r) = keeps hold_of P r"
  "keeps hold_of P (rc_quiet_since_update v_31 r) = keeps hold_of P r"
  "keeps hold_of P (rc_sent_at_last_update_update v_32 r) = keeps hold_of P r"
  "keeps hold_of P (rc_sustained_update v_33 r) = keeps hold_of P r"
  "keeps hold_of P (rc_sustained_n_update v_34 r) = keeps hold_of P r"
  "keeps hold_of P (rc_warm_cap_update v_35 r) = keeps hold_of P r"
  "keeps hold_of P (rc_warm_retune_update v_36 r) = keeps hold_of P r"
  "keeps hold_of P (rc_lan_update v_37 r) = keeps hold_of P r"
  "keeps hold_of P (rc_floor_yield_until_update v_38 r) = keeps hold_of P r"
  "keeps hold_of P (rc_floor_yield_update v_39 r) = keeps hold_of P r"
  "keeps hold_of P (rc_link_bps_update v_40 r) = keeps hold_of P r"
  "keeps hold_of P (rc_link_seen_update v_41 r) = keeps hold_of P r"
  "keeps hold_of P (rc_link_doubt_until_update v_42 r) = keeps hold_of P r"
  "keeps hold_of P (rc_link_best_update v_43 r) = keeps hold_of P r"
  "keeps hold_of P (rc_last_probe_update v_44 r) = keeps hold_of P r"
  "keeps hold_of P (rc_pad_pending_update v_45 r) = keeps hold_of P r"
  "keeps hold_of P (rc_key_sent_update v_46 r) = keeps hold_of P r"
  "keeps hold_of P (rc_key_landed_update v_47 r) = keeps hold_of P r"
  "keeps hold_of P (rc_key_probe_update v_48 r) = keeps hold_of P r"
  "keeps hold_of P (rc_key_probe_cut_update v_49 r) = keeps hold_of P r"
  "keeps hold_of P (rc_standing_delivered_update v_50 r) = keeps hold_of P r"
  "keeps hold_of P (rc_gap_update v_51 r) = keeps hold_of P r"
  "keeps hold_of P (rc_slow_until_update v_52 r) = keeps hold_of P r"
  "keeps hold_of P (rc_carried_update v_53 r) = keeps hold_of P r"
  "keeps hold_of P (rc_cuts_update v_54 r) = keeps hold_of P r"
  "keeps hold_of P (rc_paused_update v_55 r) = keeps hold_of P r"
  by (simp_all add: keeps_def hold_of_def)

lemma keeps_let: "keeps g P a \<Longrightarrow> (\<And>x. keeps g P x \<Longrightarrow> keeps g P (f x)) \<Longrightarrow> keeps g P (let x = a in f x)"
  by simp

lemma keeps_let_pair:
  "keepsf g P a \<Longrightarrow> (\<And>x y. keeps g P x \<Longrightarrow> keeps g P (f x y)) \<Longrightarrow> keeps g P (let (x, y) = a in f x y)"
  by (cases a) (simp add: keepsf_def)

lemma keeps_let_any: "(\<And>x. keeps g P (f x)) \<Longrightarrow> keeps g P (let x = a in f x)"
  by simp

lemma keeps_let_eq: "(\<And>x. x = a \<Longrightarrow> keeps g P (f x)) \<Longrightarrow> keeps g P (let x = a in f x)"
  by simp

lemma keeps_if: "(c \<Longrightarrow> keeps g P a) \<Longrightarrow> (\<not> c \<Longrightarrow> keeps g P b) \<Longrightarrow> keeps g P (if c then a else b)"
  by simp

lemma keeps_option: "keeps g P a \<Longrightarrow> (\<And>x. keeps g P (f x)) \<Longrightarrow> keeps g P (case y of None \<Rightarrow> a | Some x \<Rightarrow> f x)"
  by (cases y) simp_all

lemma keeps_prod: "(\<And>x z. keeps g P (f x z)) \<Longrightarrow> keeps g P (case y of (x, z) \<Rightarrow> f x z)"
  by (cases y) simp_all

lemma keepsf_let: "keeps g P a \<Longrightarrow> (\<And>x. keeps g P x \<Longrightarrow> keepsf g P (f x)) \<Longrightarrow> keepsf g P (let x = a in f x)"
  by simp

lemma keepsf_let_any: "(\<And>x. keepsf g P (f x)) \<Longrightarrow> keepsf g P (let x = a in f x)"
  by simp

lemma keepsf_if: "(c \<Longrightarrow> keepsf g P a) \<Longrightarrow> (\<not> c \<Longrightarrow> keepsf g P b) \<Longrightarrow> keepsf g P (if c then a else b)"
  by simp

lemma keepsf_prod: "(\<And>x z. keepsf g P (f x z)) \<Longrightarrow> keepsf g P (case y of (x, z) \<Rightarrow> f x z)"
  by (cases y) simp_all

lemma keepsf_pair: "keeps g P r \<Longrightarrow> keepsf g P (r, y)"
  by (simp add: keepsf_def)

lemmas keeps_rules = keeps_let keeps_let_pair keeps_let_any keeps_if keeps_option keeps_prod
  keepsf_let keepsf_let_any keepsf_if keepsf_prod keepsf_pair

lemma small_setup_of [simp]:
  "keeps setup_of P r \<Longrightarrow> keeps setup_of P (count_cut why r)"
  "keeps setup_of P r \<Longrightarrow> keeps setup_of P (hold now r)"
  "keeps setup_of P r \<Longrightarrow> keeps setup_of P (slow_path now r)"
  "keeps setup_of P r \<Longrightarrow> keeps setup_of P (doubt_link b now r)"
  "keeps setup_of P r \<Longrightarrow> keeps setup_of P (floor_yield now r)"
  "keeps setup_of P r \<Longrightarrow> keeps setup_of P (note_sustained r)"
  unfolding count_cut_def hold_def slow_path_def doubt_link_def floor_yield_def note_sustained_def by (rule keeps_rules | simp)+

lemma small_path_of [simp]:
  "keeps path_of P r \<Longrightarrow> keeps path_of P (count_cut why r)"
  "keeps path_of P r \<Longrightarrow> keeps path_of P (hold now r)"
  "keeps path_of P r \<Longrightarrow> keeps path_of P (slow_path now r)"
  "keeps path_of P r \<Longrightarrow> keeps path_of P (doubt_link b now r)"
  "keeps path_of P r \<Longrightarrow> keeps path_of P (floor_yield now r)"
  "keeps path_of P r \<Longrightarrow> keeps path_of P (note_sustained r)"
  unfolding count_cut_def hold_def slow_path_def doubt_link_def floor_yield_def note_sustained_def by (rule keeps_rules | simp)+

lemma small_overhead_of [simp]:
  "keeps overhead_of P r \<Longrightarrow> keeps overhead_of P (count_cut why r)"
  "keeps overhead_of P r \<Longrightarrow> keeps overhead_of P (hold now r)"
  "keeps overhead_of P r \<Longrightarrow> keeps overhead_of P (slow_path now r)"
  "keeps overhead_of P r \<Longrightarrow> keeps overhead_of P (doubt_link b now r)"
  "keeps overhead_of P r \<Longrightarrow> keeps overhead_of P (floor_yield now r)"
  "keeps overhead_of P r \<Longrightarrow> keeps overhead_of P (note_sustained r)"
  unfolding count_cut_def hold_def slow_path_def doubt_link_def floor_yield_def note_sustained_def by (rule keeps_rules | simp)+

lemma small_bulk_of [simp]:
  "keeps bulk_of P r \<Longrightarrow> keeps bulk_of P (count_cut why r)"
  "keeps bulk_of P r \<Longrightarrow> keeps bulk_of P (hold now r)"
  "keeps bulk_of P r \<Longrightarrow> keeps bulk_of P (slow_path now r)"
  "keeps bulk_of P r \<Longrightarrow> keeps bulk_of P (doubt_link b now r)"
  "keeps bulk_of P r \<Longrightarrow> keeps bulk_of P (floor_yield now r)"
  "keeps bulk_of P r \<Longrightarrow> keeps bulk_of P (note_sustained r)"
  unfolding count_cut_def hold_def slow_path_def doubt_link_def floor_yield_def note_sustained_def by (rule keeps_rules | simp)+

lemma small_speed_of [simp]:
  "keeps speed_of P r \<Longrightarrow> keeps speed_of P (count_cut why r)"
  "keeps speed_of P r \<Longrightarrow> keeps speed_of P (hold now r)"
  "keeps speed_of P r \<Longrightarrow> keeps speed_of P (slow_path now r)"
  "keeps speed_of P r \<Longrightarrow> keeps speed_of P (doubt_link b now r)"
  "keeps speed_of P r \<Longrightarrow> keeps speed_of P (floor_yield now r)"
  "keeps speed_of P r \<Longrightarrow> keeps speed_of P (note_sustained r)"
  unfolding count_cut_def hold_def slow_path_def doubt_link_def floor_yield_def note_sustained_def by (rule keeps_rules | simp)+

lemma small_hold_of [simp]:
  "keeps hold_of P r \<Longrightarrow> keeps hold_of P (count_cut why r)"
  "keeps hold_of P r \<Longrightarrow> keeps hold_of P (slow_path now r)"
  "keeps hold_of P r \<Longrightarrow> keeps hold_of P (doubt_link b now r)"
  "keeps hold_of P r \<Longrightarrow> keeps hold_of P (floor_yield now r)"
  "keeps hold_of P r \<Longrightarrow> keeps hold_of P (note_sustained r)"
  unfolding count_cut_def slow_path_def doubt_link_def floor_yield_def note_sustained_def by (rule keeps_rules | simp)+

lemma accounts_setup_of [simp]:
  "keeps setup_of P r \<Longrightarrow> keeps setup_of P (note_overhead r)"
  "keeps setup_of P r \<Longrightarrow> keeps setup_of P (note_gap fb w now r)"
  "keeps setup_of P r \<Longrightarrow> keeps setup_of P (note_warm now r)"
  "keeps setup_of P r \<Longrightarrow> keeps setup_of P (note_resolved fb now r)"
  "keeps setup_of P r \<Longrightarrow> keeps setup_of P (note_loss fb now r)"
  "keeps setup_of P r \<Longrightarrow> keeps setup_of P (note_clean fb now r)"
  "keeps setup_of P r \<Longrightarrow> keeps setup_of P (note_link fb now r)"
  unfolding note_overhead_def note_gap_def note_warm_def note_resolved_def note_loss_def note_clean_def note_link_def by (rule keeps_rules | simp)+

lemma accounts_path_of [simp]:
  "keeps path_of P r \<Longrightarrow> keeps path_of P (note_overhead r)"
  "keeps path_of P r \<Longrightarrow> keeps path_of P (note_gap fb w now r)"
  "keeps path_of P r \<Longrightarrow> keeps path_of P (note_warm now r)"
  "keeps path_of P r \<Longrightarrow> keeps path_of P (note_resolved fb now r)"
  "keeps path_of P r \<Longrightarrow> keeps path_of P (note_link fb now r)"
  unfolding note_overhead_def note_gap_def note_warm_def note_resolved_def note_link_def by (rule keeps_rules | simp)+

lemma accounts_overhead_of [simp]:
  "keeps overhead_of P r \<Longrightarrow> keeps overhead_of P (note_gap fb w now r)"
  "keeps overhead_of P r \<Longrightarrow> keeps overhead_of P (note_warm now r)"
  "keeps overhead_of P r \<Longrightarrow> keeps overhead_of P (note_resolved fb now r)"
  "keeps overhead_of P r \<Longrightarrow> keeps overhead_of P (note_loss fb now r)"
  "keeps overhead_of P r \<Longrightarrow> keeps overhead_of P (note_clean fb now r)"
  "keeps overhead_of P r \<Longrightarrow> keeps overhead_of P (note_link fb now r)"
  unfolding note_gap_def note_warm_def note_resolved_def note_loss_def note_clean_def note_link_def by (rule keeps_rules | simp)+

lemma accounts_bulk_of [simp]:
  "keeps bulk_of P r \<Longrightarrow> keeps bulk_of P (note_overhead r)"
  "keeps bulk_of P r \<Longrightarrow> keeps bulk_of P (note_gap fb w now r)"
  "keeps bulk_of P r \<Longrightarrow> keeps bulk_of P (note_warm now r)"
  "keeps bulk_of P r \<Longrightarrow> keeps bulk_of P (note_resolved fb now r)"
  "keeps bulk_of P r \<Longrightarrow> keeps bulk_of P (note_loss fb now r)"
  "keeps bulk_of P r \<Longrightarrow> keeps bulk_of P (note_clean fb now r)"
  "keeps bulk_of P r \<Longrightarrow> keeps bulk_of P (note_link fb now r)"
  unfolding note_overhead_def note_gap_def note_warm_def note_resolved_def note_loss_def note_clean_def note_link_def by (rule keeps_rules | simp)+

lemma accounts_speed_of [simp]:
  "keeps speed_of P r \<Longrightarrow> keeps speed_of P (note_overhead r)"
  "keeps speed_of P r \<Longrightarrow> keeps speed_of P (note_gap fb w now r)"
  "keeps speed_of P r \<Longrightarrow> keeps speed_of P (note_warm now r)"
  "keeps speed_of P r \<Longrightarrow> keeps speed_of P (note_resolved fb now r)"
  "keeps speed_of P r \<Longrightarrow> keeps speed_of P (note_loss fb now r)"
  "keeps speed_of P r \<Longrightarrow> keeps speed_of P (note_clean fb now r)"
  "keeps speed_of P r \<Longrightarrow> keeps speed_of P (note_link fb now r)"
  unfolding note_overhead_def note_gap_def note_warm_def note_resolved_def note_loss_def note_clean_def note_link_def by (rule keeps_rules | simp)+

lemma accounts_hold_of [simp]:
  "keeps hold_of P r \<Longrightarrow> keeps hold_of P (note_overhead r)"
  "keeps hold_of P r \<Longrightarrow> keeps hold_of P (note_gap fb w now r)"
  "keeps hold_of P r \<Longrightarrow> keeps hold_of P (note_warm now r)"
  "keeps hold_of P r \<Longrightarrow> keeps hold_of P (note_resolved fb now r)"
  "keeps hold_of P r \<Longrightarrow> keeps hold_of P (note_loss fb now r)"
  "keeps hold_of P r \<Longrightarrow> keeps hold_of P (note_clean fb now r)"
  "keeps hold_of P r \<Longrightarrow> keeps hold_of P (note_link fb now r)"
  unfolding note_overhead_def note_gap_def note_warm_def note_resolved_def note_loss_def note_clean_def note_link_def by (rule keeps_rules | simp)+

lemma reads_setup_of [simp]:
  "keeps setup_of P r \<Longrightarrow> keepsf setup_of P (take_padding fb r)"
  "keeps setup_of P r \<Longrightarrow> keepsf setup_of P (note_delay fb now r)"
  "keeps setup_of P r \<Longrightarrow> keepsf setup_of P (note_used used r)"
  unfolding take_padding_def note_delay_def note_used_def by (rule keeps_rules | simp)+

lemma reads_path_of [simp]:
  "keeps path_of P r \<Longrightarrow> keepsf path_of P (take_padding fb r)"
  "keeps path_of P r \<Longrightarrow> keepsf path_of P (note_delay fb now r)"
  "keeps path_of P r \<Longrightarrow> keepsf path_of P (note_used used r)"
  unfolding take_padding_def note_delay_def note_used_def by (rule keeps_rules | simp)+

lemma reads_overhead_of [simp]:
  "keeps overhead_of P r \<Longrightarrow> keepsf overhead_of P (take_padding fb r)"
  "keeps overhead_of P r \<Longrightarrow> keepsf overhead_of P (note_delay fb now r)"
  "keeps overhead_of P r \<Longrightarrow> keepsf overhead_of P (note_used used r)"
  unfolding take_padding_def note_delay_def note_used_def by (rule keeps_rules | simp)+

lemma reads_bulk_of [simp]:
  "keeps bulk_of P r \<Longrightarrow> keepsf bulk_of P (take_padding fb r)"
  "keeps bulk_of P r \<Longrightarrow> keepsf bulk_of P (note_delay fb now r)"
  "keeps bulk_of P r \<Longrightarrow> keepsf bulk_of P (note_used used r)"
  unfolding take_padding_def note_delay_def note_used_def by (rule keeps_rules | simp)+

lemma reads_speed_of [simp]:
  "keeps speed_of P r \<Longrightarrow> keepsf speed_of P (take_padding fb r)"
  "keeps speed_of P r \<Longrightarrow> keepsf speed_of P (note_delay fb now r)"
  "keeps speed_of P r \<Longrightarrow> keepsf speed_of P (note_used used r)"
  unfolding take_padding_def note_delay_def note_used_def by (rule keeps_rules | simp)+

lemma reads_hold_of [simp]:
  "keeps hold_of P r \<Longrightarrow> keepsf hold_of P (take_padding fb r)"
  "keeps hold_of P r \<Longrightarrow> keepsf hold_of P (note_delay fb now r)"
  "keeps hold_of P r \<Longrightarrow> keepsf hold_of P (note_used used r)"
  unfolding take_padding_def note_delay_def note_used_def by (rule keeps_rules | simp)+

lemma cuts_setup_of [simp]:
  "keeps setup_of P r \<Longrightarrow> keeps setup_of P (yield_bulk fb q now r)"
  "keeps setup_of P r \<Longrightarrow> keeps setup_of P (probe_key fb w now r)"
  "keeps setup_of P r \<Longrightarrow> keeps setup_of P (cut_gap gap now r)"
  "keeps setup_of P r \<Longrightarrow> keeps setup_of P (note_standing fb w qm q r)"
  "keeps setup_of P r \<Longrightarrow> keeps setup_of P (unstand now qm r)"
  "keeps setup_of P r \<Longrightarrow> keeps setup_of P (note_landed now r)"
  unfolding yield_bulk_def probe_key_def cut_gap_def note_standing_def unstand_def note_landed_def by (rule keeps_rules | simp)+

lemma cuts_path_of [simp]:
  "keeps path_of P r \<Longrightarrow> keeps path_of P (yield_bulk fb q now r)"
  "keeps path_of P r \<Longrightarrow> keeps path_of P (probe_key fb w now r)"
  "keeps path_of P r \<Longrightarrow> keeps path_of P (cut_gap gap now r)"
  "keeps path_of P r \<Longrightarrow> keeps path_of P (note_standing fb w qm q r)"
  "keeps path_of P r \<Longrightarrow> keeps path_of P (unstand now qm r)"
  "keeps path_of P r \<Longrightarrow> keeps path_of P (note_landed now r)"
  unfolding yield_bulk_def probe_key_def cut_gap_def note_standing_def unstand_def note_landed_def by (rule keeps_rules | simp)+

lemma cuts_overhead_of [simp]:
  "keeps overhead_of P r \<Longrightarrow> keeps overhead_of P (yield_bulk fb q now r)"
  "keeps overhead_of P r \<Longrightarrow> keeps overhead_of P (probe_key fb w now r)"
  "keeps overhead_of P r \<Longrightarrow> keeps overhead_of P (cut_gap gap now r)"
  "keeps overhead_of P r \<Longrightarrow> keeps overhead_of P (note_standing fb w qm q r)"
  "keeps overhead_of P r \<Longrightarrow> keeps overhead_of P (unstand now qm r)"
  "keeps overhead_of P r \<Longrightarrow> keeps overhead_of P (note_landed now r)"
  unfolding yield_bulk_def probe_key_def cut_gap_def note_standing_def unstand_def note_landed_def by (rule keeps_rules | simp)+

lemma cuts_bulk_of [simp]:
  "keeps bulk_of P r \<Longrightarrow> keeps bulk_of P (probe_key fb w now r)"
  "keeps bulk_of P r \<Longrightarrow> keeps bulk_of P (note_standing fb w qm q r)"
  "keeps bulk_of P r \<Longrightarrow> keeps bulk_of P (unstand now qm r)"
  "keeps bulk_of P r \<Longrightarrow> keeps bulk_of P (note_landed now r)"
  unfolding probe_key_def note_standing_def unstand_def note_landed_def by (rule keeps_rules | simp)+

lemma cuts_speed_of [simp]:
  "keeps speed_of P r \<Longrightarrow> keeps speed_of P (yield_bulk fb q now r)"
  "keeps speed_of P r \<Longrightarrow> keeps speed_of P (note_standing fb w qm q r)"
  "keeps speed_of P r \<Longrightarrow> keeps speed_of P (unstand now qm r)"
  "keeps speed_of P r \<Longrightarrow> keeps speed_of P (note_landed now r)"
  unfolding yield_bulk_def note_standing_def unstand_def note_landed_def by (rule keeps_rules | simp)+

lemma cuts_hold_of [simp]:
  "keeps hold_of P r \<Longrightarrow> keeps hold_of P (yield_bulk fb q now r)"
  "keeps hold_of P r \<Longrightarrow> keeps hold_of P (note_standing fb w qm q r)"
  "keeps hold_of P r \<Longrightarrow> keeps hold_of P (unstand now qm r)"
  "keeps hold_of P r \<Longrightarrow> keeps hold_of P (note_landed now r)"
  unfolding yield_bulk_def note_standing_def unstand_def note_landed_def by (rule keeps_rules | simp)+

lemma stands_setup_of [simp]:
  "keeps setup_of P r \<Longrightarrow> keepsf setup_of P (stand fb d now qm r)"
  unfolding stand_def by (rule keeps_rules | simp)+

lemma stands_path_of [simp]:
  "keeps path_of P r \<Longrightarrow> keepsf path_of P (stand fb d now qm r)"
  unfolding stand_def by (rule keeps_rules | simp)+

lemma stands_overhead_of [simp]:
  "keeps overhead_of P r \<Longrightarrow> keepsf overhead_of P (stand fb d now qm r)"
  unfolding stand_def by (rule keeps_rules | simp)+

lemma stands_bulk_of [simp]:
  "keeps bulk_of P r \<Longrightarrow> keepsf bulk_of P (stand fb d now qm r)"
  unfolding stand_def by (rule keeps_rules | simp)+

lemma stands_speed_of [simp]:
  "keeps speed_of P r \<Longrightarrow> keepsf speed_of P (stand fb d now qm r)"
  unfolding stand_def by (rule keeps_rules | simp)+

lemma stands_hold_of [simp]:
  "keeps hold_of P r \<Longrightarrow> keepsf hold_of P (stand fb d now qm r)"
  unfolding stand_def by (rule keeps_rules | simp)+

lemma watches_setup_of [simp]:
  "keeps setup_of P r \<Longrightarrow> keepsf setup_of P (watch_standing fb d now qm r)"
  unfolding watch_standing_def by (rule keeps_rules | simp)+

lemma watches_path_of [simp]:
  "keeps path_of P r \<Longrightarrow> keepsf path_of P (watch_standing fb d now qm r)"
  unfolding watch_standing_def by (rule keeps_rules | simp)+

lemma watches_overhead_of [simp]:
  "keeps overhead_of P r \<Longrightarrow> keepsf overhead_of P (watch_standing fb d now qm r)"
  unfolding watch_standing_def by (rule keeps_rules | simp)+

lemma watches_bulk_of [simp]:
  "keeps bulk_of P r \<Longrightarrow> keepsf bulk_of P (watch_standing fb d now qm r)"
  unfolding watch_standing_def by (rule keeps_rules | simp)+

lemma watches_speed_of [simp]:
  "keeps speed_of P r \<Longrightarrow> keepsf speed_of P (watch_standing fb d now qm r)"
  unfolding watch_standing_def by (rule keeps_rules | simp)+

lemma watches_hold_of [simp]:
  "keeps hold_of P r \<Longrightarrow> keepsf hold_of P (watch_standing fb d now qm r)"
  unfolding watch_standing_def by (rule keeps_rules | simp)+

lemma late_setup_of [simp]:
  "keeps setup_of P r \<Longrightarrow> keeps setup_of P (drain_to link now r)"
  "keeps setup_of P r \<Longrightarrow> keeps setup_of P (cut_standing d now r)"
  "keeps setup_of P r \<Longrightarrow> keeps setup_of P (cut_by f why d q now r)"
  "keeps setup_of P r \<Longrightarrow> keeps setup_of P (grow fb q d busy mine gap now r)"
  "keeps setup_of P r \<Longrightarrow> keeps setup_of P (settle fb busy now r)"
  unfolding drain_to_def cut_standing_def cut_by_def grow_def settle_def by (rule keeps_rules | simp)+

lemma late_path_of [simp]:
  "keeps path_of P r \<Longrightarrow> keeps path_of P (drain_to link now r)"
  "keeps path_of P r \<Longrightarrow> keeps path_of P (cut_standing d now r)"
  "keeps path_of P r \<Longrightarrow> keeps path_of P (cut_by f why d q now r)"
  "keeps path_of P r \<Longrightarrow> keeps path_of P (grow fb q d busy mine gap now r)"
  "keeps path_of P r \<Longrightarrow> keeps path_of P (settle fb busy now r)"
  unfolding drain_to_def cut_standing_def cut_by_def grow_def settle_def by (rule keeps_rules | simp)+

lemma late_overhead_of [simp]:
  "keeps overhead_of P r \<Longrightarrow> keeps overhead_of P (drain_to link now r)"
  "keeps overhead_of P r \<Longrightarrow> keeps overhead_of P (cut_standing d now r)"
  "keeps overhead_of P r \<Longrightarrow> keeps overhead_of P (cut_by f why d q now r)"
  "keeps overhead_of P r \<Longrightarrow> keeps overhead_of P (grow fb q d busy mine gap now r)"
  "keeps overhead_of P r \<Longrightarrow> keeps overhead_of P (settle fb busy now r)"
  unfolding drain_to_def cut_standing_def cut_by_def grow_def settle_def by (rule keeps_rules | simp)+

lemma late_bulk_of [simp]:
  "keeps bulk_of P r \<Longrightarrow> keeps bulk_of P (drain_to link now r)"
  "keeps bulk_of P r \<Longrightarrow> keeps bulk_of P (cut_by f why d q now r)"
  "keeps bulk_of P r \<Longrightarrow> keeps bulk_of P (grow fb q d busy mine gap now r)"
  "keeps bulk_of P r \<Longrightarrow> keeps bulk_of P (settle fb busy now r)"
  unfolding drain_to_def cut_by_def grow_def settle_def by (rule keeps_rules | simp)+

lemma late_hold_of [simp]:
  "keeps hold_of P r \<Longrightarrow> keeps hold_of P (drain_to link now r)"
  "keeps hold_of P r \<Longrightarrow> keeps hold_of P (grow fb q d busy mine gap now r)"
  "keeps hold_of P r \<Longrightarrow> keeps hold_of P (settle fb busy now r)"
  unfolding drain_to_def grow_def settle_def by (rule keeps_rules | simp)+

lemma adjusts_setup_of [simp]:
  "keeps setup_of P r \<Longrightarrow> keeps setup_of P (adjust fb d q busy mine gap now r)"
  unfolding adjust_def by (rule keeps_rules | simp)+

lemma adjusts_path_of [simp]:
  "keeps path_of P r \<Longrightarrow> keeps path_of P (adjust fb d q busy mine gap now r)"
  unfolding adjust_def by (rule keeps_rules | simp)+

lemma adjusts_overhead_of [simp]:
  "keeps overhead_of P r \<Longrightarrow> keeps overhead_of P (adjust fb d q busy mine gap now r)"
  unfolding adjust_def by (rule keeps_rules | simp)+

lemma adjusts_bulk_of [simp]:
  "keeps bulk_of P r \<Longrightarrow> keeps bulk_of P (adjust fb d q busy mine gap now r)"
  unfolding adjust_def by (rule keeps_rules | simp)+

lemma account_views [simp]:
  "keeps setup_of P r \<Longrightarrow> keeps setup_of P (account fb w now r)"
  "keeps bulk_of Q r \<Longrightarrow> keeps bulk_of Q (account fb w now r)"
  "keeps speed_of R r \<Longrightarrow> keeps speed_of R (account fb w now r)"
  "keeps hold_of S r \<Longrightarrow> keeps hold_of S (account fb w now r)"
  by (simp_all add: account_def)

lemma update_setup [simp]: "keeps setup_of P r \<Longrightarrow> keeps setup_of P (update fb w now r)"
  unfolding update_def by (rule keeps_rules | simp)+

section \<open>Bounds\<close>

definition path_ok :: "rat \<times> rat \<times> rat \<times> ms option \<times> bool \<Rightarrow> bool" where
  "path_ok p = (case p of (_, fec, pace, _, _) \<Rightarrow>
     FEC_MIN \<le> fec \<and> fec \<le> 1 / 2 \<and> PACE_MIN \<le> pace \<and> pace \<le> PACE_MAX)"

definition bulk_ok :: "rat \<Rightarrow> bool" where "bulk_ok b \<longleftrightarrow> BULK_MIN \<le> b \<and> b \<le> BULK_MAX"

definition between :: "rat \<times> limits \<times> bool \<Rightarrow> bool" where
  "between p = (case p of (b, l, _) \<Rightarrow> of_u32 (min_bps l) \<le> b \<and> b \<le> of_u32 (max_bps l))"

definition limits_ok :: "limits \<Rightarrow> bool" where
  "limits_ok l \<longleftrightarrow> min_bps l \<le> start_bps l \<and> start_bps l \<le> max_bps l"

definition in_bounds :: "rate \<Rightarrow> bool" where
  "in_bounds r \<longleftrightarrow> limits_ok (rc_limits r) \<and> between (speed_of r) \<and>
     between (rc_resting r, rc_limits r, rc_lan r) \<and> path_ok (path_of r) \<and> 1 \<le> rc_overhead r \<and> bulk_ok (rc_bulk r)"

lemma of_u32_mono [simp]: "of_u32 a \<le> of_u32 b \<longleftrightarrow> a \<le> b"
  unfolding of_u32_def of_nat_le_iff word_le_nat_alt ..

lemma of_u32_nonneg [simp]: "0 \<le> of_u32 a"
  unfolding of_u32_def by (rule of_nat_0_le_iff)

lemma limits_ok_min_max: "limits_ok l \<Longrightarrow> min_bps l \<le> max_bps l"
  by (auto simp: limits_ok_def)

lemma clampf_bounds: "lo \<le> hi \<Longrightarrow> lo \<le> clampf x lo hi \<and> clampf x lo hi \<le> hi"
  by (simp add: clampf_def)

lemma parity_least: "FEC_MIN \<le> 1 / 4" "FEC_MIN \<le> 1 / 2" "0 < FEC_MIN"
  by code_simp+

lemma pace_range: "PACE_MIN \<le> PACE_MAX"
  unfolding PACE_MIN_def PACE_MAX_def by (rule fl_mono) simp_all

lemma path_okD:
  assumes "keeps path_of path_ok r"
  shows "PACE_MIN \<le> rc_pace r" "rc_pace r \<le> PACE_MAX" "FEC_MIN \<le> rc_fec r" "rc_fec r \<le> 1 / 2"
  using assms by (auto simp: keeps_def path_of_def path_ok_def)

lemma path_ok_fields:
  "keeps path_of path_ok r \<Longrightarrow> keeps path_of path_ok (r\<lparr>rc_loss := v\<rparr>)"
  "keeps path_of path_ok r \<Longrightarrow> keeps path_of path_ok (r\<lparr>rc_clean_since := c\<rparr>)"
  "keeps path_of path_ok r \<Longrightarrow> keeps path_of path_ok (r\<lparr>rc_clean := b\<rparr>)"
  "keeps path_of path_ok r \<Longrightarrow> PACE_MIN \<le> p \<Longrightarrow> p \<le> PACE_MAX \<Longrightarrow> keeps path_of path_ok (r\<lparr>rc_pace := p\<rparr>)"
  "keeps path_of path_ok r \<Longrightarrow> FEC_MIN \<le> f \<Longrightarrow> f \<le> 1 / 2 \<Longrightarrow> keeps path_of path_ok (r\<lparr>rc_fec := f\<rparr>)"
  by (auto simp: keeps_def path_of_def path_ok_def)

lemma pace_widens:
  assumes "keeps path_of path_ok r"
  shows "keeps path_of path_ok (r\<lparr>rc_pace := min (f32 (rc_pace r * (3 / 2))) PACE_MAX\<rparr>)"
proof (rule path_ok_fields(4) [OF assms])
  have "0 \<le> PACE_MIN" unfolding PACE_MIN_def by (rule r32.nonneg) simp
  with path_okD(1) [OF assms] have "0 \<le> rc_pace r" by linarith
  then have "rc_pace r \<le> f32 (rc_pace r * (3 / 2))" by (rule r32.grows) simp_all
  with path_okD(1) [OF assms] pace_range
  show "PACE_MIN \<le> min (f32 (rc_pace r * (3 / 2))) PACE_MAX" by linarith
qed simp

lemma pace_tightens:
  assumes "keeps path_of path_ok r"
  shows "keeps path_of path_ok (r\<lparr>rc_pace := max (f32 (rc_pace r * f32 (97 / 100))) PACE_MIN\<rparr>)"
proof (rule path_ok_fields(4) [OF assms])
  have "0 \<le> PACE_MIN" unfolding PACE_MIN_def by (rule r32.nonneg) simp
  with path_okD(1) [OF assms] have "0 \<le> rc_pace r" by linarith
  moreover have "0 \<le> f32 (97 / 100)" "f32 (97 / 100) * (1 + 1 / 2 ^ 24) \<le> 1" by code_simp+
  ultimately have "f32 (rc_pace r * f32 (97 / 100)) \<le> rc_pace r" by (rule r32.shrinks)
  with path_okD(2) [OF assms] pace_range
  show "max (f32 (rc_pace r * f32 (97 / 100))) PACE_MIN \<le> PACE_MAX" by linarith
qed simp

lemma parity_in_range:
  assumes "keeps path_of path_ok r"
  shows "keeps path_of path_ok (r\<lparr>rc_fec := clampf x FEC_MIN (1 / 2)\<rparr>)"
    "keeps path_of path_ok (r\<lparr>rc_fec := max (rc_fec r) (1 / 4)\<rparr>)"
  using clampf_bounds [OF parity_least(2), of x] path_okD [OF assms] parity_least
  by (auto intro!: path_ok_fields(5) [OF assms])

lemma note_loss_path: "keeps path_of path_ok r \<Longrightarrow> keeps path_of path_ok (note_loss fb now r)"
  unfolding note_loss_def
  by (rule keeps_rules pace_widens pace_tightens parity_in_range path_ok_fields(1-3) | assumption)+

lemma note_clean_path: "keeps path_of path_ok r \<Longrightarrow> keeps path_of path_ok (note_clean fb now r)"
  unfolding note_clean_def by (rule keeps_rules path_ok_fields(1-3) | assumption)+

lemma account_path: "keeps path_of path_ok r \<Longrightarrow> keeps path_of path_ok (account fb w now r)"
  by (simp add: account_def note_loss_path note_clean_path)

lemma update_path: "keeps path_of path_ok r \<Longrightarrow> keeps path_of path_ok (update fb w now r)"
  unfolding update_def by (rule keeps_rules | simp add: account_path)+

lemma overhead_least:
  assumes "1 \<le> rc_overhead r" "1 \<le> ratio"
  shows "1 \<le> f64 (f64 (rc_overhead r * f64 (8 / 10)) + f64 (ratio * f64 (2 / 10)))"
proof (rule r64.one_le)
  have p: "0 \<le> f64 (8 / 10)" "0 \<le> f64 (2 / 10)" by (rule r64.nonneg, simp)+
  have "f64 (1 * f64 (8 / 10)) \<le> f64 (rc_overhead r * f64 (8 / 10))"
    by (intro r64.rnd_mono mult_right_mono assms p)
  moreover have "f64 (1 * f64 (2 / 10)) \<le> f64 (ratio * f64 (2 / 10))"
    by (intro r64.rnd_mono mult_right_mono assms p)
  moreover have "1 \<le> f64 (1 * f64 (8 / 10)) + f64 (1 * f64 (2 / 10))" by code_simp
  ultimately show "1 \<le> f64 (rc_overhead r * f64 (8 / 10)) + f64 (ratio * f64 (2 / 10))" by linarith
qed

lemma overhead_set: "1 \<le> v \<Longrightarrow> keeps overhead_of ((\<le>) 1) (r\<lparr>rc_overhead := v\<rparr>)"
  by (simp add: keeps_def overhead_of_def)

lemma overhead_get: "keeps overhead_of ((\<le>) 1) r \<longleftrightarrow> 1 \<le> rc_overhead r"
  by (simp add: keeps_def overhead_of_def)

lemma note_overhead_least: "keeps overhead_of ((\<le>) 1) r \<Longrightarrow> keeps overhead_of ((\<le>) 1) (note_overhead r)"
  unfolding note_overhead_def
  by (rule keeps_if keeps_let_eq overhead_set overhead_least | assumption | simp add: overhead_get clampf_def)+

lemma update_overhead: "keeps overhead_of ((\<le>) 1) r \<Longrightarrow> keeps overhead_of ((\<le>) 1) (update fb w now r)"
  unfolding update_def account_def by (rule keeps_rules | simp add: note_overhead_least)+

text \<open>The bulk rate.\<close>

lemma bulk_min_range: "BULK_MIN \<le> bulk_min r now" "bulk_min r now \<le> BULK_LAN_MIN"
  by (auto simp: bulk_min_def min_inf_def BULK_MIN_def BULK_LAN_MIN_def Let_def split: option.splits)

lemma bulk_set: "bulk_ok v \<Longrightarrow> keeps bulk_of bulk_ok (r\<lparr>rc_bulk := v\<rparr>)"
  by (simp add: keeps_def bulk_of_def)

lemma bulk_get: "keeps bulk_of bulk_ok r \<longleftrightarrow> BULK_MIN \<le> rc_bulk r \<and> rc_bulk r \<le> BULK_MAX"
  by (simp add: keeps_def bulk_of_def bulk_ok_def)

lemma bulk_ok_min: "bulk_ok (bulk_min r now)"
  using bulk_min_range [of r now] by (simp add: bulk_ok_def BULK_MAX_def BULK_LAN_MIN_def)

lemma bulk_halves: "keeps bulk_of bulk_ok r \<Longrightarrow> bulk_ok (max (f64 (rc_bulk r * (1 / 2))) (bulk_min r now))"
  using bulk_ok_min [of r now] r64.shrinks [of "rc_bulk r" "1 / 2"]
  by (auto simp: bulk_get bulk_ok_def BULK_MIN_def)

lemma bulk_grows: "keeps bulk_of bulk_ok r \<Longrightarrow> bulk_ok (min (f64 (rc_bulk r * f64 (115 / 100))) BULK_MAX)"
proof -
  assume ok: "keeps bulk_of bulk_ok r"
  have "0 \<le> f64 (115 / 100)" "1 \<le> f64 (115 / 100) * (1 - 1 / 2 ^ 53)" by code_simp+
  moreover have "0 \<le> rc_bulk r" using ok by (simp add: bulk_get BULK_MIN_def)
  ultimately have "rc_bulk r \<le> f64 (rc_bulk r * f64 (115 / 100))" by (intro r64.grows)
  with ok show ?thesis by (simp add: bulk_get bulk_ok_def BULK_MAX_def BULK_MIN_def)
qed

lemma bulk_steps:
  "keeps bulk_of bulk_ok r \<Longrightarrow> keeps bulk_of bulk_ok (yield_bulk fb q now r)"
  "keeps bulk_of bulk_ok r \<Longrightarrow> keeps bulk_of bulk_ok (cut_gap gap now r)"
  "keeps bulk_of bulk_ok r \<Longrightarrow> keeps bulk_of bulk_ok (cut_standing d now r)"
  unfolding yield_bulk_def cut_gap_def cut_standing_def
  by (rule keeps_rules bulk_set bulk_ok_min bulk_halves bulk_grows | simp)+

lemma update_bulk: "keeps bulk_of bulk_ok r \<Longrightarrow> keeps bulk_of bulk_ok (update fb w now r)"
  unfolding update_def by (rule keeps_rules | simp add: bulk_steps)+

text \<open>The rate itself is clamped last, on both ways out of \<open>update\<close>.\<close>

lemma clamped:
  "min_bps (rc_limits r) \<le> max_bps (rc_limits r) \<Longrightarrow>
   between (speed_of (r\<lparr>rc_bitrate := clampf b (min_rate r) (max_rate r)\<rparr>))"
  using clampf_bounds [of "min_rate r" "max_rate r" b] by (simp add: between_def speed_of_def min_rate_def max_rate_def)

text \<open>A step that ends by establishing \<open>P\<close> needs only a weaker view of what ran before it.\<close>

lemma through_let:
  "keeps h Q a \<Longrightarrow> (\<And>x. keeps h Q x \<Longrightarrow> keeps g P (f x)) \<Longrightarrow> keeps g P (let x = a in f x)"
  by simp

lemma through_pair:
  "keepsf h Q a \<Longrightarrow> (\<And>x y. keeps h Q x \<Longrightarrow> keeps g P (f x y)) \<Longrightarrow> keeps g P (let (x, y) = a in f x y)"
  by (cases a) (simp add: keepsf_def)

definition ordered :: "limits \<times> switches \<times> bool \<times> rat \<times> (nat \<times> ms) option \<times> ms \<Rightarrow> bool" where
  "ordered p = (min_bps (fst p) \<le> max_bps (fst p))"

lemma ordered_get: "keeps setup_of ordered r \<longleftrightarrow> min_bps (rc_limits r) \<le> max_bps (rc_limits r)"
  by (simp add: keeps_def setup_of_def ordered_def)

lemma clamped_keeps:
  "keeps setup_of ordered r \<Longrightarrow>
   keeps speed_of between (r\<lparr>rc_bitrate := clampf b (min_rate r) (max_rate r)\<rparr>)"
  using clamped [of r b] by (simp add: ordered_get) (simp add: keeps_def)

lemma ends_clamped:
  "keeps setup_of ordered r \<Longrightarrow> keeps speed_of between (settle fb busy now r)"
  "keeps setup_of ordered r \<Longrightarrow> keeps speed_of between (cut_standing d now r)"
  unfolding settle_def cut_standing_def Let_def
  by (rule keeps_if small_speed_of clamped_keeps | simp)+

lemmas through_ordered = through_let [where h = setup_of and Q = ordered] through_pair [where h = setup_of and Q = ordered]
  keeps_let_any keeps_if keeps_prod

lemma update_clamped: "keeps setup_of ordered r \<Longrightarrow> keeps speed_of between (update fb w now r)"
  unfolding update_def by (rule through_ordered ends_clamped | simp | rule keeps_rules)+

section \<open>Every call\<close>

datatype rate_event =
    Update feedback ms ms
  | WarmStart u32
  | SetResting u32
  | SetSwitches switches
  | SetLan bool
  | SetPaused bool
  | SetBulkBusy bool
  | NoteSent nat nat
  | NoteProbePadding nat
  | NoteKeyframe u32 nat ms
  | ProbeDue bool nat ms
  | CollapseRequest ms
  | TakeCuts
  | TakeCollapsed

fun rate_call :: "rate_event \<Rightarrow> rate \<Rightarrow> rate" where
  "rate_call (Update fb window now) r = update fb window now r"
| "rate_call (WarmStart bps) r = warm_start bps r"
| "rate_call (SetResting bps) r = set_resting bps r"
| "rate_call (SetSwitches sw) r = set_switches sw r"
| "rate_call (SetLan lan) r = set_lan lan r"
| "rate_call (SetPaused p) r = set_paused p r"
| "rate_call (SetBulkBusy b) r = set_bulk_busy b r"
| "rate_call (NoteSent payload wire) r = note_sent payload wire r"
| "rate_call (NoteProbePadding n) r = note_probe_padding n r"
| "rate_call (NoteKeyframe f n now) r = note_keyframe f n now r"
| "rate_call (ProbeDue trains n now) r = fst (probe_due trains n now r)"
| "rate_call (CollapseRequest now) r = fst (collapse_keyframe_request now r)"
| "rate_call TakeCuts r = fst (take_cuts r)"
| "rate_call TakeCollapsed r = fst (take_collapsed r)"

definition rate_run :: "rate_event list \<Rightarrow> rate \<Rightarrow> rate" where "rate_run cs r = fold rate_call cs r"

lemma in_bounds_views: "in_bounds r \<longleftrightarrow>
  limits_ok (rc_limits r) \<and> keeps speed_of between r \<and> between (rc_resting r, rc_limits r, rc_lan r) \<and>
  keeps path_of path_ok r \<and> keeps overhead_of ((\<le>) 1) r \<and> keeps bulk_of bulk_ok r"
  by (auto simp: in_bounds_def keeps_def overhead_of_def bulk_of_def)

lemma new_in_bounds: "limits_ok l \<Longrightarrow> in_bounds (rate_new l)"
  using pace_range
  by (auto simp: in_bounds_def rate_new_def between_def speed_of_def path_ok_def path_of_def bulk_ok_def limits_ok_def
      BULK_START_def BULK_MIN_def BULK_MAX_def) code_simp+

definition rests :: "limits \<Rightarrow> limits \<times> switches \<times> bool \<times> rat \<times> (nat \<times> ms) option \<times> ms \<Rightarrow> bool" where
  "rests l p = (case p of (l', _, _, b, _) \<Rightarrow> l' = l \<and> of_u32 (min_bps l) \<le> b \<and> b \<le> of_u32 (max_bps l))"

lemma rests_get: "keeps setup_of (rests (rc_limits r)) r \<longleftrightarrow> between (rc_resting r, rc_limits r, rc_lan r)"
  by (simp add: keeps_def setup_of_def rests_def between_def)

lemma update_in_bounds:
  assumes "in_bounds r"
  shows "in_bounds (update fb w now r)"
proof -
  note ok = assms [unfolded in_bounds_views]
  have "keeps setup_of (rests (rc_limits r)) (update fb w now r)"
    using ok by (intro update_setup) (simp add: rests_get)
  then have rests: "rc_limits (update fb w now r) = rc_limits r"
    "between (rc_resting (update fb w now r), rc_limits (update fb w now r), rc_lan (update fb w now r))"
    by (auto simp: keeps_def setup_of_def rests_def between_def)
  have "keeps setup_of ordered r" using ok limits_ok_min_max by (simp add: ordered_get)
  from update_clamped [OF this] rests ok update_path update_overhead update_bulk
  show ?thesis by (simp add: in_bounds_views)
qed

lemma call_in_bounds:
  assumes "in_bounds r"
  shows "in_bounds (rate_call c r)"
proof (cases c)
  case (WarmStart bps)
  have l: "of_u32 (min_bps (rc_limits r)) \<le> of_u32 (max_bps (rc_limits r))"
    using assms limits_ok_min_max by (simp add: in_bounds_def)
  from assms clampf_bounds [OF l, of "of_u32 bps"] show ?thesis unfolding WarmStart
    by (simp add: in_bounds_def warm_start_def Let_def between_def speed_of_def path_of_def)
next
  case (SetResting bps)
  have l: "of_u32 (min_bps (rc_limits r)) \<le> of_u32 (max_bps (rc_limits r))"
    using assms limits_ok_min_max by (simp add: in_bounds_def)
  from assms clampf_bounds [OF l, of "of_u32 bps"] show ?thesis unfolding SetResting
    by (simp add: in_bounds_def set_resting_def between_def speed_of_def path_of_def)
qed (use assms update_in_bounds in \<open>simp_all add: in_bounds_def between_def speed_of_def path_of_def set_switches_def
    set_lan_def set_paused_def set_bulk_busy_def note_sent_def note_probe_padding_def note_keyframe_def probe_due_def
    collapse_keyframe_request_def take_cuts_def take_collapsed_def Let_def\<close>)

lemma run_in_bounds: "in_bounds r \<Longrightarrow> in_bounds (rate_run cs r)"
  unfolding rate_run_def by (induction cs arbitrary: r) (simp_all add: call_in_bounds)

section \<open>How fast the rate grows\<close>

definition fenced :: "rat \<Rightarrow> limits \<Rightarrow> bool \<Rightarrow> rat \<times> limits \<times> bool \<Rightarrow> bool" where
  "fenced B l n p = (snd p = (l, n) \<and> of_u32 (min_bps l) \<le> fst p \<and> fst p \<le> B)"

lemma fenced_get: "keeps speed_of (fenced B l n) r \<longleftrightarrow>
  rc_limits r = l \<and> rc_lan r = n \<and> of_u32 (min_bps l) \<le> rc_bitrate r \<and> rc_bitrate r \<le> B"
  by (auto simp: keeps_def speed_of_def fenced_def)

lemma fenced_set:
  "keeps speed_of (fenced B l n) r \<Longrightarrow> of_u32 (min_bps l) \<le> b \<Longrightarrow> b \<le> B \<Longrightarrow>
   keeps speed_of (fenced B l n) (r\<lparr>rc_bitrate := b\<rparr>)"
  by (simp add: fenced_get)

lemma cuts_fenced:
  "keeps speed_of (fenced B l n) r \<Longrightarrow> keeps speed_of (fenced B l n) (probe_key fb w now r)"
  "keeps speed_of (fenced B l n) r \<Longrightarrow> keeps speed_of (fenced B l n) (cut_gap gap now r)"
  "keeps speed_of (fenced B l n) r \<Longrightarrow> keeps speed_of (fenced B l n) (drain_to link now r)"
  unfolding probe_key_def cut_gap_def drain_to_def
  by (rule keeps_rules small_speed_of fenced_set | assumption | (simp add: fenced_get min_rate_def; linarith; fail) | (simp; fail))+

lemma f64_factors:
  "0 \<le> WARM_RAMP" "f64 (102 / 100) \<le> WARM_RAMP" "1 \<le> WARM_RAMP * (1 - 1 / 2 ^ 53)" "0 \<le> f64 (102 / 100)"
  "f64 (93 / 100) * (1 + 1 / 2 ^ 53) \<le> 1" "0 < f64 (93 / 100)"
  by code_simp+

lemma min_inf_le: "min_inf x y \<le> x"
  by (simp add: min_inf_def split: option.splits)

lemma ramped:
  assumes "0 \<le> b" "b \<le> B"
  shows "f64 (b * (if c then WARM_RAMP else f64 (102 / 100))) \<le> f64 (B * WARM_RAMP)" "b \<le> f64 (B * WARM_RAMP)"
proof -
  have "b * (if c then WARM_RAMP else f64 (102 / 100)) \<le> B * WARM_RAMP"
    using assms f64_factors by (intro mult_mono) auto
  then show "f64 (b * (if c then WARM_RAMP else f64 (102 / 100))) \<le> f64 (B * WARM_RAMP)" by (rule r64.rnd_mono)
  have "B \<le> f64 (B * WARM_RAMP)" using assms f64_factors by (intro r64.grows) simp_all
  with assms show "b \<le> f64 (B * WARM_RAMP)" by simp
qed

lemma grow_bound:
  assumes "0 \<le> rc_bitrate r" "rc_bitrate r \<le> B"
  shows "rc_bitrate (grow fb q used busy mine gap now r) \<le> f64 (B * WARM_RAMP)"
proof -
  let ?g = "f64 (rc_bitrate r * (if ramps r then WARM_RAMP else f64 (102 / 100)))"
  have "rc_bitrate (grow fb q used busy mine gap now r)
      \<in> {min_inf ?g (growth_ceiling used now r), min_inf (min ?g (resting_rate r)) (growth_ceiling used now r), rc_bitrate r}"
    by (simp add: grow_def Let_def)
  then show ?thesis
    using ramped [OF assms] min_inf_le [of ?g "growth_ceiling used now r"]
      min_inf_le [of "min ?g (resting_rate r)" "growth_ceiling used now r"]
    by (auto intro: order_trans)
qed

lemma hold_keeps: "keeps hold_of P r \<Longrightarrow> P (now + HOLD_MS) \<Longrightarrow> keeps hold_of P (hold now r)"
  by (simp add: keeps_def hold_of_def hold_def)

lemma holds:
  "keeps hold_of P r \<Longrightarrow> P (now + HOLD_MS) \<Longrightarrow> keeps hold_of P (probe_key fb w now r)"
  "keeps hold_of P r \<Longrightarrow> P (now + HOLD_MS) \<Longrightarrow> keeps hold_of P (cut_gap gap now r)"
  unfolding probe_key_def cut_gap_def
  by (rule keeps_rules small_hold_of hold_keeps | assumption | simp; fail)+

text \<open>The last bit of a double: what multiplying and dividing by the same factor may add.\<close>

lemma there_and_back:
  assumes "0 \<le> b" "0 < f"
  shows "f64 (f64 (b * f) / f) \<le> b * (1 + 1 / 2 ^ 51)"
proof -
  let ?e = "1 + 1 / 2 ^ 53 :: rat"
  have "f64 (b * f) \<le> b * f * ?e" using assms by (intro r64.rnd_up) simp
  then have "f64 (b * f) / f \<le> b * f * ?e / f" using assms by (intro divide_right_mono) simp_all
  then have "f64 (b * f) / f \<le> b * ?e" using assms by simp
  moreover have "0 \<le> f64 (b * f) / f" using assms by (intro divide_nonneg_pos r64.nonneg) simp_all
  ultimately have "f64 (f64 (b * f) / f) \<le> b * ?e * ?e"
    using r64.rnd_up [of "f64 (b * f) / f"] mult_right_mono [of "f64 (b * f) / f" "b * ?e" ?e] by simp
  also have "\<dots> = b * (?e * ?e)" by simp
  also have "\<dots> \<le> b * (1 + 1 / 2 ^ 51)" using assms by (intro mult_left_mono) simp_all
  finally show ?thesis .
qed

lemma small_rates [simp]:
  "rc_bitrate (floor_yield now r) = rc_bitrate r" "rc_bitrate (count_cut why r) = rc_bitrate r"
  "rc_bitrate (hold now r) = rc_bitrate r" "rc_bitrate (note_sustained r) = rc_bitrate r"
  "rc_limits (floor_yield now r) = rc_limits r" "rc_limits (count_cut why r) = rc_limits r"
  "rc_limits (hold now r) = rc_limits r" "rc_lan (floor_yield now r) = rc_lan r"
  "rc_lan (count_cut why r) = rc_lan r" "rc_lan (hold now r) = rc_lan r"
  by (simp_all add: floor_yield_def count_cut_def hold_def note_sustained_def Let_def)

lemma lan_floor_range:
  "lan_floor r now \<le> (if rc_lan r then LAN_FLOOR_BPS else 0)"
  by (auto simp: lan_floor_def Let_def min_inf_def LAN_FLOOR_BPS_def split: option.splits)

lemma no_lan_no_floor: "\<not> rc_lan r \<Longrightarrow> lan_floor r now = 0"
  by (simp add: lan_floor_def)

text \<open>A cut for a lost frame, and a cut for a delay with the floor out of the way.\<close>

lemma cut_by_loss_rate:
  "rc_bitrate (cut_by f CUT_LOSS d q now r) =
    (let a = f64 (rc_bitrate r * f) in
     if q \<le> QUEUE_SOFT_US then min (max a (f64 (d * f64 (85 / 100)))) (f64 (a / f)) else a)"
  by (simp add: cut_by_def Let_def)

lemma cut_by_delay_rate:
  assumes "why \<noteq> CUT_LOSS" "QUEUE_SOFT_US < q"
  shows "rc_bitrate (cut_by f why d q now r) \<in>
    {let a = f64 (rc_bitrate r * f) in max a (min x (f64 (a / f))) | x.
      x \<le> (if rc_lan r then LAN_FLOOR_BPS else 0)}"
proof -
  let ?r = "(count_cut why r)\<lparr>rc_queue_cut := Some (now, q), rc_bitrate := f64 (rc_bitrate r * f)\<rparr>"
  have "rc_bitrate (cut_by f why d q now r) =
     (let a = f64 (rc_bitrate r * f) in max a (min (lan_floor ?r now) (f64 (a / f))))"
    using assms by (simp add: cut_by_def Let_def)
  moreover have "lan_floor ?r now \<le> (if rc_lan r then LAN_FLOOR_BPS else 0)"
    using lan_floor_range [of ?r now] by simp
  ultimately show ?thesis by blast
qed

definition cut_factors :: "rat set" where "cut_factors = {3 / 4, f64 (93 / 100)}"

lemma cut_factor:
  assumes "f \<in> cut_factors" "0 \<le> b"
  shows "0 < f" "f64 (b * f) \<le> b"
proof -
  show "0 < f" using assms f64_factors by (auto simp: cut_factors_def)
  with assms f64_factors show "f64 (b * f) \<le> b" by (intro r64.shrinks) (auto simp: cut_factors_def)
qed

lemma decrease_cases:
  assumes "decrease fb q busy mine again r = Some (f, why)"
  shows "f \<in> cut_factors" "why = CUT_LOSS \<longleftrightarrow> 0 < frames_lost fb" "0 < frames_lost fb \<or> QUEUE_SOFT_US < q"
    "0 < frames_lost fb \<Longrightarrow> f = 3 / 4"
  using assms by (auto simp: decrease_def cut_factors_def CUT_LOSS_def CUT_QUEUE_def CUT_SOFT_def
      QUEUE_HARD_US_def QUEUE_SOFT_US_def split: if_splits)

lemma cut_by_bound:
  assumes "decrease fb q busy mine again r' = Some (f, why)" "0 \<le> rc_bitrate r"
  shows "rc_bitrate (cut_by f why d q now r) \<le> rc_bitrate r * (1 + 1 / 2 ^ 51)"
proof -
  note dc = decrease_cases [OF assms(1)]
  note f = cut_factor [OF dc(1) assms(2)]
  let ?a = "f64 (rc_bitrate r * f)"
  have b: "rc_bitrate r \<le> rc_bitrate r * (1 + 1 / 2 ^ 51)" using assms by simp
  have once: "?a \<le> rc_bitrate r * (1 + 1 / 2 ^ 51)" using f(2) b by linarith
  have twice: "f64 (?a / f) \<le> rc_bitrate r * (1 + 1 / 2 ^ 51)" by (rule there_and_back [OF assms(2) f(1)])
  show ?thesis
  proof (cases "why = CUT_LOSS")
    case True
    then show ?thesis using once twice
      unfolding True cut_by_loss_rate Let_def by (auto intro: order_trans [OF min.cobounded2])
  next
    case False
    with dc have "QUEUE_SOFT_US < q" by blast
    from cut_by_delay_rate [OF False this, of f d now r] once twice
    show ?thesis by (auto simp: Let_def intro: order_trans [OF min.cobounded2])
  qed
qed

lemma clampf_le: "clampf x lo hi \<le> max x lo"
  by (auto simp: clampf_def)

lemma settle_rate:
  "rc_bitrate (settle fb busy now r) \<le> max (max (rc_bitrate r) (lan_floor r now)) (min_rate r)"
  using clampf_le [of "max (rc_bitrate r) (lan_floor r now)" "min_rate r" "max_rate r"]
  by (simp add: settle_def Let_def min_rate_def max_rate_def del: max.bounded_iff)

lemma cut_standing_rate:
  assumes "0 \<le> rc_bitrate r"
  shows "rc_bitrate (cut_standing d now r) \<le> max (rc_bitrate r) (min_rate r)"
proof -
  let ?b = "min (f64 (rc_bitrate r * (3 / 4))) (f64 (d * f64 (85 / 100)))"
  have "rc_bitrate (cut_standing d now r) = clampf ?b (min_rate r) (max_rate r)"
    by (simp add: cut_standing_def Let_def min_rate_def max_rate_def doubt_link_def slow_path_def)
  also have "\<dots> \<le> max ?b (min_rate r)" by (rule clampf_le)
  finally show ?thesis using r64.shrinks [OF assms, of "3 / 4"] by simp
qed

section \<open>One window\<close>

text \<open>
  \<open>update\<close> ends in \<open>cut_standing\<close>, or in \<open>settle\<close> after \<open>adjust\<close>, on a state whose rate
  the cuts before have only lowered.
\<close>

lemma update_ends:
  assumes "between (speed_of r)"
  obtains (standing) r' d where
      "keeps speed_of (fenced (rc_bitrate r) (rc_limits r) (rc_lan r)) r'"
      "now < rc_hold_until r \<Longrightarrow> now < rc_hold_until r'"
      "update fb w now r = cut_standing d now r'"
    | (settled) r' fb' q used busy mine gap where
      "keeps speed_of (fenced (rc_bitrate r) (rc_limits r) (rc_lan r)) r'"
      "now < rc_hold_until r \<Longrightarrow> now < rc_hold_until r'"
      "frames_lost fb' = frames_lost fb"
      "update fb w now r = settle fb' busy now (adjust fb' used q busy mine gap now r')"
proof -
  let ?F = "fenced (rc_bitrate r) (rc_limits r) (rc_lan r)" and ?H = "\<lambda>h. now < rc_hold_until r \<longrightarrow> now < h"
  have start: "keeps speed_of ?F r" "keeps hold_of ?H r"
    using assms by (auto simp: fenced_def between_def speed_of_def keeps_def hold_of_def)
  obtain r1 fb1 where r1: "take_padding fb r = (r1, fb1)" by (cases "take_padding fb r")
  have fb1: "frames_lost fb1 = frames_lost fb" using r1 by (auto simp: take_padding_def Let_def)
  have k1: "keeps speed_of ?F r1" "keeps hold_of ?H r1"
    using reads_speed_of(1) [OF start(1), of fb] reads_hold_of(1) [OF start(2), of fb] r1 by (simp_all add: keepsf_def)
  obtain r2 qm q where r2: "note_delay fb1 now (account fb1 w now r1) = (r2, qm, q)"
    by (cases "note_delay fb1 now (account fb1 w now r1)")
  have k2: "keeps speed_of ?F r2" "keeps hold_of ?H r2"
    using reads_speed_of(2) [OF account_views(3) [OF k1(1)], of fb1 now fb1 w now]
      reads_hold_of(2) [OF account_views(4) [OF k1(2)], of fb1 now fb1 w now] r2 by (simp_all add: keepsf_def)
  define mine where "mine = ours fb1 qm q r2"
  define r3 where "r3 = yield_bulk fb1 q now r2"
  define used where "used = rate_of (unat (fb_bytes fb1), w) r3"
  obtain r4 busy where r4: "note_used used r3 = (r4, busy)" by (cases "note_used used r3")
  have k3: "keeps speed_of ?F r3" "keeps hold_of ?H r3" using k2 by (simp_all add: r3_def)
  have k4: "keeps speed_of ?F r4" "keeps hold_of ?H r4"
    using reads_speed_of(3) [OF k3(1), of used] reads_hold_of(3) [OF k3(2), of used] r4 by (simp_all add: keepsf_def)
  define r5 where "r5 = probe_key fb1 w now r4"
  define gap where "gap = delivery_gap r5"
  define r6 where "r6 = note_standing fb1 w qm q (cut_gap gap now r5)"
  obtain r7 cut link where r7: "watch_standing fb1 used now qm r6 = (r7, cut, link)"
    by (cases "watch_standing fb1 used now qm r6")
  have h: "?H (now + HOLD_MS)" by (simp add: HOLD_MS_def)
  have "keeps speed_of ?F r6" using k4 by (simp add: r6_def r5_def cuts_fenced)
  moreover have "keeps hold_of ?H r6" using k4 h holds by (simp add: r6_def r5_def)
  ultimately have k7: "keeps speed_of ?F r7" "keeps hold_of ?H r7"
    using watches_speed_of [of ?F r6 fb1 used now qm] watches_hold_of [of ?H r6 fb1 used now qm] r7
    by (simp_all add: keepsf_def)
  define r8 where "r8 = (if rc_draining r7 then drain_to link now r7 else r7)"
  have k8: "keeps speed_of ?F r8" "keeps hold_of ?H r8" using k7 by (simp_all add: r8_def cuts_fenced)
  have u: "update fb w now r =
    (if cut then cut_standing (case link of None \<Rightarrow> used | Some l \<Rightarrow> l) now r7
     else settle fb1 busy now (adjust fb1 used q busy mine gap now r8))"
    by (simp add: update_def r1 r2 Let_def r4 [unfolded used_def r3_def] r8_def mine_def
        r7 [unfolded r6_def gap_def r5_def used_def r3_def] used_def r3_def r5_def gap_def
        cong: option.case_cong)
  show ?thesis
  proof (cases cut)
    case True
    with u k7 show ?thesis by (intro standing) (auto simp: keeps_def hold_of_def)
  next
    case False
    with u k8 fb1 show ?thesis by (intro settled) (auto simp: keeps_def hold_of_def)
  qed
qed

lemma note_landed_same [simp]:
  "rc_bitrate (note_landed now r) = rc_bitrate r" "rc_limits (note_landed now r) = rc_limits r"
  "rc_lan (note_landed now r) = rc_lan r" "rc_hold_until (note_landed now r) = rc_hold_until r"
  by (simp_all add: note_landed_def)

definition seen_by :: "limits \<Rightarrow> bool \<Rightarrow> rat \<times> limits \<times> bool \<Rightarrow> bool" where
  "seen_by l n p = (snd p = (l, n))"

lemma seen_get: "keeps speed_of (seen_by l n) r \<longleftrightarrow> rc_limits r = l \<and> rc_lan r = n"
  by (auto simp: keeps_def speed_of_def seen_by_def)

lemma seen_set [simp]: "keeps speed_of (seen_by l n) (r\<lparr>rc_bitrate := b\<rparr>) = keeps speed_of (seen_by l n) r"
  by (simp add: seen_get)

lemma adjust_seen: "keeps speed_of (seen_by l n) r \<Longrightarrow> keeps speed_of (seen_by l n) (adjust fb u q busy mine gap now r)"
  unfolding adjust_def cut_by_def grow_def
  by (rule keeps_rules adjusts_setup_of | simp)+

lemma min_rate_nonneg: "0 \<le> min_rate r"
  by (simp add: min_rate_def)

lemma fenced_facts:
  assumes "keeps speed_of (fenced B l n) r"
  shows "0 \<le> rc_bitrate r" "rc_bitrate r \<le> B" "min_rate r \<le> rc_bitrate r" "rc_lan r = n" "rc_limits r = l"
proof -
  show facts: "rc_bitrate r \<le> B" "min_rate r \<le> rc_bitrate r" "rc_lan r = n" "rc_limits r = l"
    using assms by (auto simp: fenced_get min_rate_def)
  show "0 \<le> rc_bitrate r" using facts(2) min_rate_nonneg [of r] by linarith
qed

lemma adjust_rate:
  assumes "keeps speed_of (fenced B l n) r"
  shows "rc_bitrate (adjust fb u q busy mine gap now r) \<le> f64 (B * WARM_RAMP)"
proof -
  note f = fenced_facts [OF assms]
  have B: "0 \<le> B" using f by linarith
  have tiny: "B * (1 + 1 / 2 ^ 51) \<le> f64 (B * WARM_RAMP)"
  proof -
    have "1 + 1 / 2 ^ 51 \<le> WARM_RAMP * (1 - 1 / 2 ^ 53)" by code_simp
    then have "B * (1 + 1 / 2 ^ 51) \<le> B * (WARM_RAMP * (1 - 1 / 2 ^ 53))" using B by (rule mult_left_mono)
    also have "\<dots> = B * WARM_RAMP * (1 - 1 / 2 ^ 53)" by simp
    also have "\<dots> \<le> f64 (B * WARM_RAMP)" using B f64_factors by (intro r64.rnd_down) simp
    finally show ?thesis .
  qed
  have cut: "rc_bitrate (cut_by x why u q now (note_landed now r)) \<le> f64 (B * WARM_RAMP)"
    if "decrease fb q busy mine again r' = Some (x, why)" for x why again r'
  proof -
    have "rc_bitrate (cut_by x why u q now (note_landed now r)) \<le> rc_bitrate r * (1 + 1 / 2 ^ 51)"
      using cut_by_bound [OF that, of "note_landed now r" u now] f by simp
    also have "\<dots> \<le> B * (1 + 1 / 2 ^ 51)" using f by (intro mult_right_mono) simp_all
    finally show ?thesis using tiny by linarith
  qed
  have g: "rc_bitrate (grow fb q u busy mine gap now (note_landed now r)) \<le> f64 (B * WARM_RAMP)"
    using f by (intro grow_bound) simp_all
  have k: "rc_bitrate r \<le> f64 (B * WARM_RAMP)" by (rule ramped(2) [OF f(1,2)])
  show ?thesis using cut g k by (simp add: adjust_def Let_def split: option.splits)
qed

lemma window_growth:
  assumes "in_bounds r"
  shows "rc_bitrate (update fb w now r) \<le> max (f64 (rc_bitrate r * WARM_RAMP)) (if rc_lan r then LAN_FLOOR_BPS else 0)"
proof -
  have b: "between (speed_of r)" using assms by (simp add: in_bounds_def)
  show ?thesis
  proof (cases rule: update_ends [OF b, of now fb w])
    case (1 r' d)
    note f = fenced_facts [OF 1(1)]
    show ?thesis using cut_standing_rate [of r' d now] f ramped(2) [of "rc_bitrate r'" "rc_bitrate r"] 1(3)
      ramped(2) [of "rc_bitrate r" "rc_bitrate r"] by (auto simp: max_def split: if_splits)
  next
    case (2 r' fb' q used busy mine gap)
    note f = fenced_facts [OF 2(1)]
    let ?a = "adjust fb' used q busy mine gap now r'"
    have seen: "rc_limits ?a = rc_limits r" "rc_lan ?a = rc_lan r"
      using adjust_seen [of "rc_limits r" "rc_lan r" r' fb' used q busy mine gap now] f by (simp_all add: seen_get)
    have "rc_bitrate ?a \<le> f64 (rc_bitrate r * WARM_RAMP)" using 2(1) by (rule adjust_rate)
    moreover have "min_rate ?a \<le> f64 (rc_bitrate r * WARM_RAMP)"
      using f ramped(2) [of "rc_bitrate r'" "rc_bitrate r"] seen by (simp add: min_rate_def)
    ultimately show ?thesis
      using settle_rate [of fb' busy now ?a] lan_floor_range [of ?a now] seen unfolding 2(4) by (auto simp: max_def split: if_splits)
  qed
qed

section \<open>Loss and hold\<close>

lemma floor_yields: "now < rc_floor_yield_until (floor_yield now r)"
  by (auto simp: floor_yield_def Let_def LAN_FLOOR_YIELD_MS_def LAN_FLOOR_YIELD_MAX_MS_def)

lemma yielding_no_floor: "now < rc_floor_yield_until r \<Longrightarrow> lan_floor r now = 0"
  by (simp add: lan_floor_def)

lemma adjust_lost:
  "0 < frames_lost fb \<Longrightarrow> adjust fb u q busy mine gap now r = cut_by (3 / 4) CUT_LOSS u q now (note_landed now r)"
  by (simp add: adjust_def decrease_def)

lemma lost_no_floor: "lan_floor (cut_by f CUT_LOSS u q now r) now = 0"
proof (rule yielding_no_floor)
  have "rc_floor_yield_until (hold now r) = rc_floor_yield_until r" for r by (simp add: hold_def)
  then show "now < rc_floor_yield_until (cut_by f CUT_LOSS u q now r)"
    by (simp add: cut_by_def Let_def floor_yields)
qed

lemma loss_never_raises:
  assumes "in_bounds r" "0 < frames_lost fb"
  shows "rc_bitrate (update fb w now r) \<le> rc_bitrate r * (1 + 1 / 2 ^ 51)"
proof -
  have b: "between (speed_of r)" using assms by (simp add: in_bounds_def)
  show ?thesis
  proof (cases rule: update_ends [OF b, of now fb w])
    case (1 r' d)
    note f = fenced_facts [OF 1(1)]
    have "rc_bitrate r' \<le> rc_bitrate r * (1 + 1 / 2 ^ 51)" using f by (simp add: algebra_simps)
    then show ?thesis using cut_standing_rate [of r' d now] f 1(3) by simp
  next
    case (2 r' fb' q used busy mine gap)
    note f = fenced_facts [OF 2(1)]
    let ?a = "cut_by (3 / 4) CUT_LOSS used q now (note_landed now r')"
    have a: "adjust fb' used q busy mine gap now r' = ?a" using 2(3) assms(2) by (intro adjust_lost) simp
    have "decrease fb q busy mine True r' = Some (3 / 4, CUT_LOSS)" using assms(2) by (simp add: decrease_def)
    from cut_by_bound [OF this, of "note_landed now r'" used now] f
    have "rc_bitrate ?a \<le> rc_bitrate r' * (1 + 1 / 2 ^ 51)" by simp
    also have "\<dots> \<le> rc_bitrate r * (1 + 1 / 2 ^ 51)" using f by (intro mult_right_mono) simp_all
    finally have A: "rc_bitrate ?a \<le> rc_bitrate r * (1 + 1 / 2 ^ 51)" .
    have "rc_limits ?a = rc_limits r" "rc_lan ?a = rc_lan r"
      using adjust_seen [of "rc_limits r" "rc_lan r" r' fb' used q busy mine gap now] f a by (simp_all add: seen_get)
    then have "min_rate ?a \<le> rc_bitrate r" using f by (simp add: min_rate_def)
    then have "min_rate ?a \<le> rc_bitrate r * (1 + 1 / 2 ^ 51)" using f by (simp add: algebra_simps)
    with A settle_rate [of fb' busy now ?a] lost_no_floor [of "3 / 4" used q now "note_landed now r'"]
      min_rate_nonneg [of ?a] show ?thesis unfolding 2(4) a by linarith
  qed
qed

lemma adjust_held:
  assumes "frames_lost fb = 0" "now < rc_hold_until r" "\<not> rc_lan r" "0 \<le> rc_bitrate r"
  shows "rc_bitrate (adjust fb u q busy mine gap now r) \<le> rc_bitrate r"
proof (cases "decrease fb q busy mine (recut now q (note_landed now r)) (note_landed now r)")
  case None
  with assms show ?thesis by (simp add: adjust_def Let_def)
next
  case (Some p)
  obtain f why where p: "p = (f, why)" by (cases p)
  note dc = decrease_cases [OF Some [unfolded p]]
  have q: "QUEUE_SOFT_US < q" "why \<noteq> CUT_LOSS" using dc assms by auto
  have a: "0 \<le> f64 (rc_bitrate r * f)" using cut_factor [OF dc(1) assms(4)] assms by (intro r64.nonneg) simp
  from cut_by_delay_rate [OF q(2,1), of f u now "note_landed now r"] assms(3) cut_factor [OF dc(1) assms(4)] a
  show ?thesis by (auto simp: adjust_def Let_def Some p intro: order_trans [OF min.cobounded1])
qed

lemma update_held:
  assumes "in_bounds r" "frames_lost fb = 0" "now < rc_hold_until r" "\<not> rc_lan r"
  shows "rc_bitrate (update fb w now r) \<le> rc_bitrate r"
proof -
  have b: "between (speed_of r)" using assms by (simp add: in_bounds_def)
  show ?thesis
  proof (cases rule: update_ends [OF b, of now fb w])
    case (1 r' d)
    then show ?thesis using cut_standing_rate [of r' d now] fenced_facts [OF 1(1)] by simp
  next
    case (2 r' fb' q used busy mine gap)
    note f = fenced_facts [OF 2(1)]
    let ?a = "adjust fb' used q busy mine gap now r'"
    have "rc_bitrate ?a \<le> rc_bitrate r'" using 2 assms f by (intro adjust_held) simp_all
    moreover have "rc_limits ?a = rc_limits r" "rc_lan ?a = rc_lan r"
      using adjust_seen [of "rc_limits r" "rc_lan r" r' fb' used q busy mine gap now] f by (simp_all add: seen_get)
    ultimately show ?thesis using settle_rate [of fb' busy now ?a] f assms(4)
      by (simp add: 2(4) no_lan_no_floor min_rate_def)
  qed
qed

lemma late_holds:
  "keeps hold_of P r \<Longrightarrow> P (now + HOLD_MS) \<Longrightarrow> keeps hold_of P (cut_by f why d q now r)"
  "keeps hold_of P r \<Longrightarrow> P (now + HOLD_MS) \<Longrightarrow> keeps hold_of P (cut_standing d now r)"
  unfolding cut_by_def cut_standing_def
  by (rule keeps_rules small_hold_of hold_keeps | assumption | simp; fail)+

lemma adjust_holds: "keeps hold_of P r \<Longrightarrow> P (now + HOLD_MS) \<Longrightarrow> keeps hold_of P (adjust fb u q busy mine gap now r)"
  unfolding adjust_def by (rule keeps_rules late_holds | assumption | simp; fail)+

lemma update_holds: "keeps hold_of P r \<Longrightarrow> P (now + HOLD_MS) \<Longrightarrow> keeps hold_of P (update fb w now r)"
  unfolding update_def by (rule keeps_rules late_holds adjust_holds holds | simp add: late_holds adjust_holds holds; fail)+

definition update_all :: "(feedback \<times> ms \<times> ms) list \<Rightarrow> rate \<Rightarrow> rate" where
  "update_all ws r = fold (\<lambda>(fb, w, now). update fb w now) ws r"

lemma update_lan [simp]: "rc_lan (update fb w now r) = rc_lan r"
  using update_setup [of "\<lambda>p. fst (snd (snd p)) = rc_lan r" r fb w now] by (simp add: keeps_def setup_of_def)

lemma held_windows:
  assumes "in_bounds r" "\<not> rc_lan r"
    and "\<forall>(fb, w, now) \<in> set ws. frames_lost fb = 0 \<and> now < rc_hold_until r \<and> rc_hold_until r \<le> now + HOLD_MS"
  shows "rc_bitrate (update_all ws r) \<le> rc_bitrate r"
proof -
  have "rc_bitrate (update_all ws x) \<le> rc_bitrate x"
    if "in_bounds x" "\<not> rc_lan x" "H \<le> rc_hold_until x"
      "\<forall>(fb, w, now) \<in> set ws. frames_lost fb = 0 \<and> now < H \<and> H \<le> now + HOLD_MS" for x H
    using that
  proof (induction ws arbitrary: x)
    case (Cons p ws)
    obtain fb w now where p: "p = (fb, w, now)" by (cases p)
    let ?x = "update fb w now x"
    have "keeps hold_of ((\<le>) H) ?x" using Cons.prems p by (intro update_holds) (auto simp: keeps_def hold_of_def)
    then have H: "H \<le> rc_hold_until ?x" by (simp add: keeps_def hold_of_def)
    have "rc_bitrate ?x \<le> rc_bitrate x" using Cons.prems p by (intro update_held) auto
    moreover have "rc_bitrate (update_all ws ?x) \<le> rc_bitrate ?x"
      using Cons.prems H by (intro Cons.IH update_in_bounds) (auto simp: p)
    ultimately show ?case by (simp add: update_all_def p)
  qed (simp add: update_all_def)
  from this [OF assms(1,2) order_refl assms(3)] show ?thesis .
qed

lemma update_limits [simp]: "rc_limits (update fb w now r) = rc_limits r"
  using update_setup [of "\<lambda>p. fst p = rc_limits r" r fb w now] by (simp add: keeps_def setup_of_def)

lemma call_limits: "rc_limits (rate_call c r) = rc_limits r"
  by (cases c) (simp_all add: warm_start_def set_resting_def set_switches_def set_lan_def
    set_paused_def set_bulk_busy_def note_sent_def note_probe_padding_def note_keyframe_def probe_due_def
    collapse_keyframe_request_def take_cuts_def take_collapsed_def Let_def)

lemma run_limits: "rc_limits (rate_run cs (rate_new l)) = l"
proof -
  have "rc_limits (rate_run cs r) = rc_limits r" for r
    unfolding rate_run_def by (induction cs arbitrary: r) (simp_all add: call_limits)
  then show ?thesis by (simp add: rate_new_def)
qed

section \<open>The clean path\<close>

definition lossless :: "feedback \<Rightarrow> bool" where
  "lossless fb \<longleftrightarrow> raw_loss fb \<le> 0 \<and> frames_lost fb = 0"

lemma note_loss_clean [simp]:
  "rc_clean_since (note_loss fb now r) = rc_clean_since r" "rc_clean (note_loss fb now r) = rc_clean r"
  by (simp_all add: note_loss_def Let_def)

lemma note_clean_clean:
  "rc_clean_since (note_clean fb now r) =
    (if lossless fb then Some (case rc_clean_since r of None \<Rightarrow> now | Some t \<Rightarrow> t) else None)"
  "rc_clean (note_clean fb now r) =
    (case rc_clean_since (note_clean fb now r) of None \<Rightarrow> False | Some t \<Rightarrow> CLEAN_AFTER_MS \<le> now - t)"
  by (auto simp: note_clean_def Let_def lossless_def not_less word_neq_0_conv split: option.split)

lemma raw_loss_bytes: "raw_loss (fb\<lparr>fb_bytes := n\<rparr>) = raw_loss fb"
  by (simp add: raw_loss_def cong: if_cong)

lemma note_bytes: "note_clean (fb\<lparr>fb_bytes := n\<rparr>) now r = note_clean fb now r"
  unfolding note_clean_def raw_loss_bytes by simp

lemma after_account:
  assumes "take_padding fb r = (r1, fb1)" "keeps path_of P (account fb1 w now r1)"
  shows "keeps path_of P (update fb w now r)"
  unfolding update_def assms(1) Let_def [of "(r1, _)"] prod.case
  by (rule keeps_rules | rule assms(2) | simp; fail)+

lemma update_clean:
  "rc_clean_since (update fb w now r) =
    (if lossless fb then Some (case rc_clean_since r of None \<Rightarrow> now | Some t \<Rightarrow> t) else None)"
  "rc_clean (update fb w now r) =
    (lossless fb \<and> CLEAN_AFTER_MS \<le> now - (case rc_clean_since r of None \<Rightarrow> now | Some t \<Rightarrow> t))"
proof -
  let ?since = "if lossless fb then Some (case rc_clean_since r of None \<Rightarrow> now | Some t \<Rightarrow> t) else None"
  let ?clean = "lossless fb \<and> CLEAN_AFTER_MS \<le> now - (case rc_clean_since r of None \<Rightarrow> now | Some t \<Rightarrow> t)"
  let ?P = "\<lambda>p. snd (snd (snd p)) = (?since, ?clean)" and ?Q = "\<lambda>p. fst (snd (snd (snd p))) = rc_clean_since r"
  obtain r1 n where r1: "take_padding fb r = (r1, fb\<lparr>fb_bytes := n\<rparr>)" and same: "rc_clean_since r1 = rc_clean_since r"
    by (auto simp: take_padding_def Let_def)
  have "keeps path_of ?P (account (fb\<lparr>fb_bytes := n\<rparr>) w now r1)"
  proof -
    have "keeps path_of ?Q r1" using same by (simp add: keeps_def path_of_def)
    then have "keeps path_of ?Q (note_resolved fb' now (note_warm now (note_gap fb' w now (note_overhead r1))))" for fb'
      by simp
    then have "keeps path_of ?P (note_clean fb now (note_loss fb' now
        (note_resolved fb' now (note_warm now (note_gap fb' w now (note_overhead r1))))))" for fb'
      by (simp add: keeps_def path_of_def note_clean_clean)
    then show ?thesis by (simp add: account_def note_bytes)
  qed
  with r1 have "keeps path_of ?P (update fb w now r)" by (rule after_account)
  then show "rc_clean_since (update fb w now r) = ?since" "rc_clean (update fb w now r) = ?clean"
    by (simp_all add: keeps_def path_of_def)
qed

fun windows :: "rate_event list \<Rightarrow> (feedback \<times> ms) list" where
  "windows [] = []"
| "windows (Update fb w now # cs) = (fb, now) # windows cs"
| "windows (_ # cs) = windows cs"

lemma windows_snoc: "windows (cs @ [c]) = windows cs @ (case c of Update fb w now \<Rightarrow> [(fb, now)] | _ \<Rightarrow> [])"
  by (induction cs rule: windows.induct) (simp_all split: rate_event.split)

definition clean_since :: "(feedback \<times> ms) list \<Rightarrow> ms \<Rightarrow> bool" where
  "clean_since ws t \<longleftrightarrow> (\<exists>pre suf. ws = pre @ suf \<and> suf \<noteq> [] \<and> (\<forall>(fb, _) \<in> set suf. lossless fb) \<and> snd (hd suf) = t)"

lemma clean_since_snoc:
  "clean_since ws t \<Longrightarrow> lossless fb \<Longrightarrow> clean_since (ws @ [(fb, now)]) t"
  "lossless fb \<Longrightarrow> clean_since (ws @ [(fb, now)]) now"
  unfolding clean_since_def
  by (elim exE conjE, rule_tac x = pre in exI, rule_tac x = "suf @ [(fb, now)]" in exI, auto)
    (rule exI [of _ ws], rule exI [of _ "[(fb, now)]"], simp)

definition clean_inv :: "(feedback \<times> ms) list \<Rightarrow> rate \<Rightarrow> bool" where
  "clean_inv ws r \<longleftrightarrow>
     (\<forall>t. rc_clean_since r = Some t \<longrightarrow> clean_since ws t) \<and>
     (rc_clean r \<longrightarrow> ws \<noteq> [] \<and> (\<exists>t. rc_clean_since r = Some t \<and> CLEAN_AFTER_MS \<le> snd (last ws) - t))"

lemma clean_call:
  assumes "clean_inv (windows cs) r"
  shows "clean_inv (windows (cs @ [c])) (rate_call c r)"
proof (cases c)
  case (Update fb w now)
  show ?thesis
  proof (cases "lossless fb")
    case True
    then show ?thesis using assms
      by (cases "rc_clean_since r") (auto simp: Update clean_inv_def windows_snoc update_clean intro: clean_since_snoc)
  next
    case False
    then show ?thesis by (auto simp: Update clean_inv_def windows_snoc update_clean)
  qed
qed (use assms in \<open>simp_all add: clean_inv_def windows_snoc warm_start_def set_resting_def set_switches_def set_lan_def
    set_paused_def set_bulk_busy_def note_sent_def note_probe_padding_def note_keyframe_def probe_due_def
    collapse_keyframe_request_def take_cuts_def take_collapsed_def Let_def\<close>)

lemma rate_run_snoc: "rate_run (cs @ [c]) r = rate_call c (rate_run cs r)"
  by (simp add: rate_run_def)

lemma clean_run: "clean_inv (windows cs) (rate_run cs (rate_new l))"
proof (induction cs rule: rev_induct)
  case Nil
  then show ?case by (simp add: clean_inv_def rate_run_def rate_new_def)
next
  case (snoc c cs)
  then show ?case unfolding rate_run_snoc by (rule clean_call)
qed

section \<open>The keyframe in flight\<close>

lemma key_wait_most: "to_u64 (if c then KEY_WAIT_MAX_MS else clampf x KEY_WAIT_MIN_MS KEY_WAIT_MAX_MS) \<le> 10000"
proof -
  have "(if c then KEY_WAIT_MAX_MS else clampf x KEY_WAIT_MIN_MS KEY_WAIT_MAX_MS) \<le> 10000"
    using clampf_bounds [of KEY_WAIT_MIN_MS KEY_WAIT_MAX_MS x] by (auto simp: KEY_WAIT_MAX_MS_def KEY_WAIT_MIN_MS_def)
  then have "nat \<lfloor>if c then KEY_WAIT_MAX_MS else clampf x KEY_WAIT_MIN_MS KEY_WAIT_MAX_MS\<rfloor> \<le> 10000"
    by linarith
  then show ?thesis by (simp add: to_u64_def)
qed

definition key_inv :: "rate_event list \<Rightarrow> rate \<Rightarrow> bool" where
  "key_inv cs r \<longleftrightarrow> (\<forall>need until. rc_key_wait r = Some (need, until) \<longrightarrow>
     (\<exists>f n t. NoteKeyframe f n t \<in> set cs \<and> need = unat f + 1 \<and> until \<le> t + 10000))"

lemma update_key_wait [simp]: "rc_key_wait (update fb w now r) = rc_key_wait r"
  using update_setup [of "\<lambda>p. fst (snd (snd (snd (snd p)))) = rc_key_wait r" r fb w now] by (simp add: keeps_def setup_of_def)

lemma key_call:
  assumes "key_inv cs r"
  shows "key_inv (cs @ [c]) (rate_call c r)"
proof (cases "\<exists>f n t. c = NoteKeyframe f n t")
  case True
  then obtain f n t where c: "c = NoteKeyframe f n t" by blast
  obtain b x where w: "rc_key_wait (rate_call c r) =
      Some (unat f + 1, t + to_u64 (if b then KEY_WAIT_MAX_MS else clampf x KEY_WAIT_MIN_MS KEY_WAIT_MAX_MS))"
    by (simp add: c note_keyframe_def Let_def)
  have "\<exists>f' n' t'. NoteKeyframe f' n' t' \<in> set (cs @ [c]) \<and> need = unat f' + 1 \<and> until \<le> t' + 10000"
    if "rc_key_wait (rate_call c r) = Some (need, until)" for need until
    using that w key_wait_most [of b x] c
    by (intro exI [of _ f] exI [of _ n] exI [of _ t]) simp
  then show ?thesis by (simp add: key_inv_def)
next
  case False
  then have "rc_key_wait (rate_call c r) = rc_key_wait r"
    by (cases c) (simp_all add: warm_start_def set_resting_def set_switches_def set_lan_def
      set_paused_def set_bulk_busy_def note_sent_def note_probe_padding_def probe_due_def
      collapse_keyframe_request_def take_cuts_def take_collapsed_def Let_def)
  with assms show ?thesis unfolding key_inv_def by (metis Un_iff set_append)
qed

lemma key_run: "key_inv cs (rate_run cs (rate_new l))"
proof (induction cs rule: rev_induct)
  case Nil
  then show ?case by (simp add: key_inv_def rate_run_def rate_new_def)
next
  case (snoc c cs)
  then show ?case unfolding rate_run_snoc by (rule key_call)
qed

section \<open>The frame rate\<close>

lemma nearest_usable: "usable full flr (nearest_usable full flr s)" "nearest_usable full flr s \<le> s"
  by (induction s) (auto simp: nearest_usable.simps [of _ _ 0] nearest_usable.simps [of _ _ "Suc _"] usable_def)

lemma rate_at_antimono:
  assumes "Suc k < 5"
  shows "rate_at full (Suc k) \<le> rate_at full k"
proof -
  have "unat (FPS_DIVISORS ! k) \<le> unat (FPS_DIVISORS ! Suc k)" "0 < unat (FPS_DIVISORS ! k)"
  proof -
    have "k = 0 \<or> k = 1 \<or> k = 2 \<or> k = 3" using assms by arith
    then show "unat (FPS_DIVISORS ! k) \<le> unat (FPS_DIVISORS ! Suc k)" "0 < unat (FPS_DIVISORS ! k)"
      by (elim disjE; simp add: FPS_DIVISORS_def)+
  qed
  then show ?thesis by (simp add: rate_at_def word_le_nat_alt unat_div div_le_mono2)
qed

lemma usable_down:
  assumes "usable full flr (Suc k)"
  shows "usable full flr k"
  using assms rate_at_antimono [of k full] by (auto simp: usable_def FPS_DIVISORS_def)

lemma usable_facts:
  assumes "usable full flr s"
  shows "s < 5" "s = 0 \<or> flr \<le> rate_at full s"
  using assms by (auto simp: usable_def FPS_DIVISORS_def)

lemma follow_floor_facts:
  assumes "follow_floor bps pixels full now flr f = (f', fps)"
  defines "s \<equiv> nearest_usable (max full 1) flr (fr_step f)"
  shows "usable (max full 1) flr (fr_step f')" "fps = rate_at (max full 1) (fr_step f')"
    "fr_step f' \<le> s + 1" "s \<le> fr_step f' + 1"
    "s < fr_step f' \<Longrightarrow> \<exists>t. fr_low_since f = Some t \<and> t + FPS_DOWN_AFTER_MS \<le> now"
    "fr_step f' < s \<Longrightarrow> \<exists>t. fr_high_since f = Some t \<and> t + FPS_UP_AFTER_MS \<le> now"
proof -
  have u: "usable (max full 1) flr s" unfolding s_def by (rule nearest_usable)
  have d: "usable (max full 1) flr (s - 1)" if "0 < s"
    using usable_down [of "max full 1" flr "s - 1"] u that by simp
  have step: "fps = rate_at (max full 1) (fr_step f') \<and>
     (fr_step f' = s \<or>
      fr_step f' = s + 1 \<and> usable (max full 1) flr (s + 1) \<and> (\<exists>t. fr_low_since f = Some t \<and> FPS_DOWN_AFTER_MS \<le> now - t) \<or>
      fr_step f' = s - 1 \<and> 0 < s \<and> (\<exists>t. fr_high_since f = Some t \<and> FPS_UP_AFTER_MS \<le> now - t))"
    using assms(1) unfolding follow_floor_def s_def [symmetric] Let_def
    by (auto simp: FPS_DOWN_AFTER_MS_def FPS_UP_AFTER_MS_def split: if_splits option.splits)
  with u d show "usable (max full 1) flr (fr_step f')" by auto
  from step show "fps = rate_at (max full 1) (fr_step f')" "fr_step f' \<le> s + 1" "s \<le> fr_step f' + 1" by auto
  from step show "s < fr_step f' \<Longrightarrow> \<exists>t. fr_low_since f = Some t \<and> t + FPS_DOWN_AFTER_MS \<le> now"
    "fr_step f' < s \<Longrightarrow> \<exists>t. fr_high_since f = Some t \<and> t + FPS_UP_AFTER_MS \<le> now"
    by (auto simp: FPS_DOWN_AFTER_MS_def FPS_UP_AFTER_MS_def)
qed

section \<open>Properties\<close>

lemma to_u32_range:
  assumes "of_u32 a \<le> x" "x \<le> of_u32 b"
  shows "a \<le> to_u32 x \<and> to_u32 x \<le> b"
proof -
  let ?n = "nat \<lfloor>x\<rfloor>"
  have "int (unat a) \<le> \<lfloor>x\<rfloor>"
    using assms(1) unfolding of_u32_def le_floor_iff of_int_of_nat_eq .
  then have a: "unat a \<le> ?n" by linarith
  have "\<lfloor>x\<rfloor> \<le> \<lfloor>of_nat (unat b) :: rat\<rfloor>" using assms(2) unfolding of_u32_def by (rule floor_mono)
  then have "\<lfloor>x\<rfloor> \<le> int (unat b)" unfolding floor_of_nat .
  then have b: "?n \<le> unat b" by linarith
  have lim: "unat b < 2 ^ 32" using unsigned_less [of b] by simp
  then have "min ?n (2 ^ 32 - 1) = ?n" using b by linarith
  moreover have "unat (of_nat ?n :: u32) = ?n" unfolding unat_of_nat using lim b by simp
  ultimately show ?thesis using a b by (simp only: to_u32_def word_le_nat_alt)
qed

text \<open>
  C33. Whatever is called in whatever order, the bitrate the encoder is given stays between the limits' least and most,
  so does the rate an idle stream returns to; the parity ratio stays between 5% and 50% (a keyframe's, repair or not,
  is at least 5%), the pacing between its bounds, the bulk rate between 1 and 100 Mbit/s, and the wire overhead
  the rates are divided by is never less than one.
\<close>
theorem rate_stays_in_bounds:
  assumes "limits_ok l"
  shows "let r = rate_run cs (rate_new l) in
    min_bps l \<le> bitrate_bps r \<and> bitrate_bps r \<le> max_bps l \<and>
    of_u32 (min_bps l) \<le> rc_resting r \<and> rc_resting r \<le> of_u32 (max_bps l) \<and>
    FEC_MIN \<le> rc_fec r \<and> rc_fec r \<le> 1 / 2 \<and> FEC_MIN \<le> parity_for_frame r n True repair \<and>
    PACE_MIN \<le> rc_pace r \<and> rc_pace r \<le> PACE_MAX \<and>
    1000000 \<le> bulk_bps r \<and> bulk_bps r \<le> 100000000 \<and> 1 \<le> rc_overhead r"
proof -
  define r where "r = rate_run cs (rate_new l)"
  have ok: "in_bounds r" unfolding r_def by (intro run_in_bounds new_in_bounds assms)
  have l: "rc_limits r = l" unfolding r_def by (rule run_limits)
  have b: "1000000 \<le> rc_bulk r" "rc_bulk r \<le> 100000000"
    using ok by (simp_all add: in_bounds_def bulk_ok_def BULK_MIN_def BULK_MAX_def)
  then have "1000000 \<le> \<lfloor>rc_bulk r\<rfloor>" "\<lfloor>rc_bulk r\<rfloor> \<le> 100000000" by linarith+
  then have n: "1000000 \<le> nat \<lfloor>rc_bulk r\<rfloor>" "nat \<lfloor>rc_bulk r\<rfloor> \<le> 100000000" by linarith+
  have "to_u64 (rc_bulk r) = nat \<lfloor>rc_bulk r\<rfloor>"
    unfolding to_u64_def by (rule min_absorb1, rule order_trans [OF n(2)]) simp
  with n have "to_u64 (rc_bulk r) \<le> 100000000" "1000000 \<le> to_u64 (rc_bulk r)" by simp_all
  moreover have "FEC_MIN \<le> parity_for_frame r n True repair"
    using ok by (auto simp: in_bounds_def path_ok_def path_of_def parity_for_frame_def parity_of_def Let_def)
  ultimately show ?thesis using ok l to_u32_range [of "min_bps l" "rc_bitrate r" "max_bps l"]
    by (simp add: in_bounds_def between_def speed_of_def path_ok_def path_of_def bulk_bps_def bitrate_bps_def
        flip: r_def)
qed

theorem rate_stays_in_bounds_witness:
  "let r = rate_run [SetLan True, WarmStart 1] (rate_new limits_default) in
   500000 \<le> bitrate_bps r \<and> bitrate_bps r \<le> 80000000"
  using rate_stays_in_bounds [of limits_default "[SetLan True, WarmStart 1]" 0 False]
  by (simp add: limits_default_def limits_ok_def Let_def)

text \<open>
  C34. One feedback window raises the rate by at most the warm start's six percent (on the LAN, or to its floor), and a
  window with a lost frame does not raise it at all (but for the last bit of a double).
\<close>
theorem rate_grows_slowly:
  assumes "in_bounds r"
  shows "rc_bitrate (update fb w now r) \<le> max (f64 (rc_bitrate r * WARM_RAMP)) (if rc_lan r then LAN_FLOOR_BPS else 0) \<and>
    (0 < frames_lost fb \<longrightarrow> rc_bitrate (update fb w now r) \<le> rc_bitrate r * (1 + 1 / 2 ^ 51))"
  using window_growth [OF assms] loss_never_raises [OF assms] by blast

definition calm_window :: feedback where
  "calm_window = \<lparr>shards = 100, recovered = 0, frames = 6, frames_lost = 0, fb_bytes = 125000, delay_min_us = 5000,
     delay_avg_us = 5500, window_us = 50000, ltr_frame = None, link_kbps = 0\<rparr>"

theorem rate_grows_slowly_witness:
  "rc_bitrate (update (calm_window\<lparr>frames_lost := 1\<rparr>) 50 7 (rate_new limits_default)) \<le> 20000000 * (1 + 1 / 2 ^ 51)"
  using rate_grows_slowly [OF new_in_bounds, of limits_default "calm_window\<lparr>frames_lost := 1\<rparr>" 50 7]
  by (simp add: limits_ok_def limits_default_def calm_window_def rate_new_def of_u32_def)

text \<open>
  C35. Away from the LAN, while a cut is held (600 ms) windows that lost nothing leave the rate where it was or lower
  it, any number of them.
\<close>
theorem nothing_grows_while_held:
  assumes "in_bounds r" "\<not> rc_lan r"
    and "\<forall>(fb, w, now) \<in> set ws. frames_lost fb = 0 \<and> now < rc_hold_until r \<and> rc_hold_until r \<le> now + HOLD_MS"
  shows "rc_bitrate (update_all ws r) \<le> rc_bitrate r"
  using assms by (rule held_windows)

theorem nothing_grows_while_held_witness:
  "rc_bitrate (update_all [(calm_window, 50, 100), (calm_window, 50, 150)] (hold 60 (rate_new limits_default))) \<le> 20000000"
proof -
  have "in_bounds (hold 60 (rate_new limits_default))"
    using new_in_bounds [of limits_default]
    by (simp add: limits_ok_def limits_default_def in_bounds_def speed_of_def path_of_def hold_def)
  from nothing_grows_while_held [OF this, of "[(calm_window, 50, 100), (calm_window, 50, 150)]"] show ?thesis
    by (simp add: hold_def calm_window_def HOLD_MS_def rate_new_def limits_default_def of_u32_def)
qed

text \<open>
  C36. A frame goes without parity only if it is no keyframe, at most 4096 bytes, and the feedback windows since one at
  least ten seconds before the last one reported no packet rebuilt and no frame lost.
\<close>
theorem parity_dropped_only_when_clean:
  assumes "limits_ok l" "parity_for_frame (rate_run cs (rate_new l)) n keyframe repair \<le> 0"
  shows "\<not> keyframe \<and> n \<le> PARITY_FREE_BYTES \<and>
    (\<exists>pre suf. windows cs = pre @ suf \<and> suf \<noteq> [] \<and> (\<forall>(fb, _) \<in> set suf. raw_loss fb \<le> 0 \<and> frames_lost fb = 0) \<and>
       CLEAN_AFTER_MS \<le> snd (last suf) - snd (hd suf))"
proof -
  let ?r = "rate_run cs (rate_new l)"
  have ok: "in_bounds ?r" by (intro run_in_bounds new_in_bounds assms)
  then have "0 < rc_fec ?r" using parity_least by (auto simp: in_bounds_def path_ok_def path_of_def)
  moreover have "0 < CLEAN_FEC" "0 < REPAIR_FEC" by code_simp+
  ultimately have clean: "rc_clean ?r" "\<not> keyframe" "n \<le> PARITY_FREE_BYTES"
    using assms(2) by (auto simp: parity_for_frame_def parity_of_def Let_def split: if_splits)
  with clean_run [of cs l] obtain t where t: "rc_clean_since ?r = Some t" "CLEAN_AFTER_MS \<le> snd (last (windows cs)) - t"
    and "clean_since (windows cs) t" by (auto simp: clean_inv_def)
  then obtain pre suf where "windows cs = pre @ suf" "suf \<noteq> []" "\<forall>(fb, _) \<in> set suf. lossless fb" "snd (hd suf) = t"
    by (auto simp: clean_since_def)
  with t clean show ?thesis unfolding lossless_def by auto
qed

theorem parity_dropped_only_when_clean_witness:
  "\<exists>pre suf. windows [Update calm_window 50 0, Update calm_window 50 10000] = pre @ suf \<and> suf \<noteq> [] \<and>
     CLEAN_AFTER_MS \<le> snd (last suf) - snd (hd suf)"
proof -
  let ?cs = "[Update calm_window 50 0, Update calm_window 50 10000]"
  have "lossless calm_window" by code_simp
  then have "rc_clean (rate_run ?cs (rate_new limits_default))"
    by (simp add: rate_run_def update_clean rate_new_def CLEAN_AFTER_MS_def)
  then have "parity_for_frame (rate_run ?cs (rate_new limits_default)) 1000 False False \<le> 0"
    by (simp add: parity_for_frame_def parity_of_def PARITY_FREE_BYTES_def)
  from parity_dropped_only_when_clean [OF _ this] show ?thesis
    by (auto simp: limits_ok_def limits_default_def)
qed

text \<open>
  C37. A keyframe request is swallowed only while a keyframe that went out less than ten seconds ago is not resolved;
  after that it is answered.
\<close>
theorem request_waits_ten_seconds:
  assumes "snd (collapse_keyframe_request now (rate_run cs (rate_new l)))"
  shows "\<exists>f n t. NoteKeyframe f n t \<in> set cs \<and> now < t + 10000 \<and> rc_resolved (rate_run cs (rate_new l)) \<le> unat f"
proof -
  let ?r = "rate_run cs (rate_new l)"
  from assms obtain need until where w: "rc_key_wait ?r = Some (need, until)" "rc_resolved ?r < need" "now < until"
    by (auto simp: collapse_keyframe_request_def key_in_flight_def Let_def split: option.splits)
  with key_run [of cs l] obtain f n t where "NoteKeyframe f n t \<in> set cs" "need = unat f + 1" "until \<le> t + 10000"
    unfolding key_inv_def by blast
  with w show ?thesis by (intro exI [of _ f] exI [of _ n] exI [of _ t]) auto
qed

theorem request_waits_ten_seconds_witness:
  "\<exists>f n t. NoteKeyframe f n t \<in> set [NoteKeyframe 0 300000 100] \<and> 400 < t + 10000 \<and>
     rc_resolved (rate_run [NoteKeyframe 0 300000 100] (rate_new limits_default)) \<le> unat f"
proof (rule request_waits_ten_seconds)
  show "snd (collapse_keyframe_request 400 (rate_run [NoteKeyframe 0 300000 100] (rate_new limits_default)))"
    by (simp add: collapse_keyframe_request_def key_in_flight_def rate_run_def note_keyframe_def rate_new_def
        switches_default_def KEY_WAIT_MAX_MS_def to_u64_def Let_def)
qed



end
