(* ===== verification/AutoRes.thy ===== *)
theory AutoRes
  imports Floats Machine Rate
begin

text \<open>
  The automatic stream resolution of the clients (\<open>autores.rs\<close>): one \<open>step\<close> a second, which
  may change the stream's size. The \<open>f64\<close> values are rationals, each operation rounded as in theory
  Floats; a sample's numbers are finite. No division is by zero: a picture has pixels and the frame rate is
  at least one.
\<close>

record sample =
  now_s :: rat
  received_bps :: rat
  target_bps :: rat
  latency_ms :: rat
  rtt_ms :: rat
  sm_fps :: rat
  shown_fps :: rat
  sm_width :: u32
  sm_height :: u32

record decision =
  d_scale :: u32
  d_from :: u32
  d_budget_bps :: rat
  d_bpp :: rat
  d_bpp_from :: rat
  d_behind :: bool

definition steps :: "bool \<Rightarrow> u32 list" where
  "steps office = (if office then [100, 75, 50, 33] else [100, 75, 50])"

definition thresholds :: "bool \<Rightarrow> rat \<times> rat" where
  "thresholds office =
    (if office then (f64 (12 / 1000), f64 (25 / 1000)) else (f64 (3 / 100), f64 (6 / 100)))"

definition BEHIND_LATENCY_MS :: rat where "BEHIND_LATENCY_MS = 250"
definition BEHIND_RTT_MS :: rat where "BEHIND_RTT_MS = 500"
definition DOWN_AFTER_S :: rat where "DOWN_AFTER_S = 3"
definition UP_AFTER_S :: rat where "UP_AFTER_S = 10"
definition UP_AFTER_MAX_S :: rat where "UP_AFTER_MAX_S = 160"
definition CHANGE_EVERY_S :: rat where "CHANGE_EVERY_S = 10"
definition SETTLE_S :: rat where "SETTLE_S = 2"
definition FLAP_S :: rat where "FLAP_S = 30"
definition CALM_S :: rat where "CALM_S = 300"
definition CEILING_ROOM :: rat where "CEILING_ROOM = 5 / 4"
definition RECENT :: nat where "RECENT = 5"

record auto_res =
  ar_office :: "bool option"
  ar_current :: u32
  ar_below_since :: "rat option"
  ar_above_since :: "rat option"
  ar_last_change :: "rat option"
  ar_last_up :: "rat option"
  ar_last_behind :: "rat option"
  ar_up_hold :: rat
  ar_recent :: "rat list"
  ar_ceiling :: "(rat \<times> rat) option"

definition auto_res_default :: auto_res where
  "auto_res_default = \<lparr>ar_office = None, ar_current = 0, ar_below_since = None, ar_above_since = None,
     ar_last_change = None, ar_last_up = None, ar_last_behind = None, ar_up_hold = UP_AFTER_S,
     ar_recent = [], ar_ceiling = None\<rparr>"

text \<open>\<open>option.is_some_and\<close> and \<open>is_none_or\<close> with the time since.\<close>

definition since :: "rat \<Rightarrow> rat \<Rightarrow> rat" where "since now t = f64 (now - t)"

definition watch :: "u32 \<Rightarrow> bool \<Rightarrow> auto_res \<Rightarrow> auto_res" where
  "watch current office a =
    (if ar_office a \<noteq> Some office \<or> ar_current a \<noteq> current then
       (let a = a\<lparr>ar_below_since := None, ar_above_since := None\<rparr>;
            a = (if ar_office a \<noteq> Some office then a\<lparr>ar_recent := []\<rparr> else a)
        in a\<lparr>ar_office := Some office, ar_current := current\<rparr>)
     else a)"

text \<open>\<open>while len > RECENT { pop_front }\<close> leaves the last five.\<close>

definition note_arrived :: "rat \<Rightarrow> auto_res \<Rightarrow> auto_res" where
  "note_arrived bps a =
    (let recent = ar_recent a @ [max bps 0] in a\<lparr>ar_recent := drop (length recent - RECENT) recent\<rparr>)"

definition arrived :: "auto_res \<Rightarrow> rat" where
  "arrived a = f64 (fold (\<lambda>x s. f64 (s + x)) (ar_recent a) 0 / f64 (of_nat (length (ar_recent a))))"

definition behind :: "sample \<Rightarrow> bool" where
  "behind s \<longleftrightarrow> BEHIND_LATENCY_MS < latency_ms s \<or> BEHIND_RTT_MS < rtt_ms s"

definition note_behind :: "sample \<Rightarrow> auto_res \<Rightarrow> auto_res" where
  "note_behind s a =
    (if behind s then a\<lparr>ar_last_behind := Some (now_s s)\<rparr>
     else if (case ar_last_behind a of None \<Rightarrow> True | Some t \<Rightarrow> CALM_S \<le> since (now_s s) t)
     then a\<lparr>ar_up_hold := UP_AFTER_S\<rparr> else a)"

definition budget_of :: "sample \<Rightarrow> rat \<Rightarrow> rat" where
  "budget_of s arr =
    (let target = (if 0 < target_bps s then target_bps s else arr) in
     if behind s then min target arr else target)"

definition bpp_at :: "sample \<Rightarrow> rat \<Rightarrow> u32 \<Rightarrow> u32 \<Rightarrow> rat" where
  "bpp_at s budget current scale =
    (let fps = (if 1 \<le> sm_fps s then min (sm_fps s) 60 else 60);
         pixels_now = f64 (of_u32 (sm_width s) * of_u32 (sm_height s));
         r = f64 (of_u32 scale / of_u32 current)
     in f64 (budget / f64 (f64 (f64 (pixels_now * r) * r) * fps)))"

definition changed :: "rat \<Rightarrow> u32 \<Rightarrow> u32 \<Rightarrow> rat \<Rightarrow> rat \<Rightarrow> rat \<Rightarrow> bool \<Rightarrow> auto_res \<Rightarrow> auto_res \<times> decision" where
  "changed now to frm budget bits bits_from late a =
    (a\<lparr>ar_last_change := Some now, ar_below_since := None, ar_above_since := None, ar_current := to\<rparr>,
     \<lparr>d_scale = to, d_from = frm, d_budget_bps = budget, d_bpp = bits, d_bpp_from = bits_from, d_behind = late\<rparr>)"

text \<open>\<open>steps.last()\<close>, the first smaller step with some room, and the next larger one.\<close>

definition down_to :: "sample \<Rightarrow> rat \<Rightarrow> u32 \<Rightarrow> bool \<Rightarrow> u32" where
  "down_to s budget current office =
    (case find (\<lambda>p. f64 (fst (thresholds office) * f64 (13 / 10)) \<le> bpp_at s budget current p)
            (filter (\<lambda>p. p < current) (steps office)) of
       None \<Rightarrow> last (steps office) | Some p \<Rightarrow> p)"

definition up_to :: "u32 \<Rightarrow> bool \<Rightarrow> u32 option" where
  "up_to current office =
    (case filter (\<lambda>p. current < p) (steps office) of [] \<Rightarrow> None | p # ps \<Rightarrow> Some (fold min ps p))"

definition back_off :: "rat \<Rightarrow> rat \<Rightarrow> auto_res \<Rightarrow> auto_res" where
  "back_off now arr a =
    (if (case ar_last_up a of None \<Rightarrow> False | Some t \<Rightarrow> since now t < FLAP_S)
     then a\<lparr>ar_up_hold := min (f64 (ar_up_hold a * 2)) UP_AFTER_MAX_S, ar_ceiling := Some (arr, now)\<rparr> else a)"

definition changed_ok :: "rat \<Rightarrow> auto_res \<Rightarrow> bool" where
  "changed_ok now a = (case ar_last_change a of None \<Rightarrow> True | Some t \<Rightarrow> CHANGE_EVERY_S \<le> since now t)"

definition try_up :: "sample \<Rightarrow> rat \<Rightarrow> rat \<Rightarrow> u32 \<Rightarrow> bool \<Rightarrow> auto_res \<Rightarrow> auto_res \<times> decision option" where
  "try_up s arr budget current office a =
    (let a = (case ar_ceiling a of
                None \<Rightarrow> a | Some (_, t) \<Rightarrow> if CALM_S \<le> since (now_s s) t then a\<lparr>ar_ceiling := None\<rparr> else a);
         room = (case ar_ceiling a of
                   None \<Rightarrow> 1
                 | Some (bps, _) \<Rightarrow> f64 (min budget (f64 (max bps arr * CEILING_ROOM)) / max budget 1))
     in case up_to current office of
          None \<Rightarrow> (a\<lparr>ar_above_since := None\<rparr>, None)
        | Some to \<Rightarrow>
            if \<not> behind s \<and> snd (thresholds office) \<le> f64 (bpp_at s budget current to * room) then
              (let t = (case ar_above_since a of None \<Rightarrow> now_s s | Some t \<Rightarrow> t);
                   a = a\<lparr>ar_above_since := Some t\<rparr> in
               if ar_up_hold a \<le> since (now_s s) t \<and> changed_ok (now_s s) a then
                 (let (a, d) = changed (now_s s) to current budget (bpp_at s budget current to)
                        (bpp_at s budget current current) (behind s) (a\<lparr>ar_last_up := Some (now_s s)\<rparr>)
                  in (a, Some d))
               else (a, None))
            else (a\<lparr>ar_above_since := None\<rparr>, None))"

definition judge :: "sample \<Rightarrow> rat \<Rightarrow> rat \<Rightarrow> u32 \<Rightarrow> bool \<Rightarrow> auto_res \<Rightarrow> auto_res \<times> decision option" where
  "judge s arr budget current office a =
    (if behind s \<and> last (steps office) < current \<and> bpp_at s budget current current < fst (thresholds office) then
       (let t = (case ar_below_since a of None \<Rightarrow> now_s s | Some t \<Rightarrow> t);
            a = a\<lparr>ar_below_since := Some t\<rparr> in
        if DOWN_AFTER_S \<le> since (now_s s) t \<and> changed_ok (now_s s) a then
          (let to = down_to s budget current office;
               (a, d) = changed (now_s s) to current budget (bpp_at s budget current to)
                  (bpp_at s budget current current) (behind s) (back_off (now_s s) arr a)
           in (a, Some d))
        else try_up s arr budget current office a)
     else try_up s arr budget current office (a\<lparr>ar_below_since := None\<rparr>))"

definition step :: "auto_res \<Rightarrow> sample \<times> u32 \<times> bool \<Rightarrow> auto_res \<times> decision option" where
  "step a x =
    (case x of (s, current, office) \<Rightarrow>
       let a = watch current office a in
       if shown_fps s < 1 \<or> sm_width s = 0 \<or> sm_height s = 0 \<or> current = 0 then (a, None)
       else
         let a = note_behind s (note_arrived (received_bps s) a);
             arr = arrived a;
             budget = budget_of s arr
         in if (case ar_last_change a of None \<Rightarrow> False | Some t \<Rightarrow> since (now_s s) t < SETTLE_S) then (a, None)
            else judge s arr budget current office a)"

section \<open>What a decision is\<close>

definition sound_decision :: "(sample \<times> u32 \<times> bool) \<times> decision option \<Rightarrow> bool" where
  "sound_decision p =
    (case p of (_, None) \<Rightarrow> True
     | ((s, current, office), Some d) \<Rightarrow>
         1 \<le> shown_fps s \<and> d_from d = current \<and> d_scale d \<in> set (steps office) \<and> d_behind d = behind s \<and>
         (if behind s then d_scale d < current \<and> d_bpp_from d < fst (thresholds office)
          else current < d_scale d \<and> (\<forall>p \<in> set (steps office). p \<le> current \<or> d_scale d \<le> p)))"

lemma steps_last [simp]: "last (steps office) \<in> set (steps office)"
  by (simp add: steps_def)

lemma down_to_smaller:
  assumes "last (steps office) < current"
  shows "down_to s budget current office < current" "down_to s budget current office \<in> set (steps office)"
  using assms by (auto simp: down_to_def find_Some_iff split: option.splits dest!: nth_mem)

lemma fold_min: "fold min ps (p :: u32) \<in> insert p (set ps)" "\<forall>q \<in> insert p (set ps). fold min ps p \<le> q"
  by (induction ps arbitrary: p) (auto simp: min_def split: if_splits, force+)

lemma up_to_next:
  assumes "up_to current office = Some to"
  shows "current < to" "to \<in> set (steps office)" "\<forall>p \<in> set (steps office). p \<le> current \<or> to \<le> p"
proof -
  from assms obtain p ps where f: "filter (\<lambda>p. current < p) (steps office) = p # ps" and to: "to = fold min ps p"
    by (auto simp: up_to_def split: list.splits)
  have S: "insert p (set ps) = {q \<in> set (steps office). current < q}"
    using arg_cong [OF f, of set] by auto
  have m: "to \<in> insert p (set ps)" "\<forall>q \<in> insert p (set ps). to \<le> q"
    using fold_min [where ps = ps and p = p] to by blast+
  show "current < to" "to \<in> set (steps office)" "\<forall>p \<in> set (steps office). p \<le> current \<or> to \<le> p"
    using m unfolding S by (auto simp: not_le)
qed

section \<open>Steps\<close>

lemma watch_fields [simp]:
  "ar_last_change (watch c off a) = ar_last_change a" "ar_up_hold (watch c off a) = ar_up_hold a"
  by (simp_all add: watch_def Let_def)

lemma note_arrived_fields [simp]:
  "ar_last_change (note_arrived b a) = ar_last_change a" "ar_up_hold (note_arrived b a) = ar_up_hold a"
  by (simp_all add: note_arrived_def Let_def)

definition hold_ok :: "auto_res \<Rightarrow> bool" where
  "hold_ok a \<longleftrightarrow> UP_AFTER_S \<le> ar_up_hold a \<and> ar_up_hold a \<le> UP_AFTER_MAX_S"

lemma hold_ok_same: "ar_up_hold b = ar_up_hold a \<Longrightarrow> hold_ok a \<Longrightarrow> hold_ok b"
  by (simp add: hold_ok_def)

lemma note_behind_fields:
  "ar_last_change (note_behind s a) = ar_last_change a" "hold_ok a \<Longrightarrow> hold_ok (note_behind s a)"
  by (simp_all add: note_behind_def hold_ok_def UP_AFTER_S_def UP_AFTER_MAX_S_def split: option.split)

lemma back_off_fields:
  "ar_last_change (back_off now arr a) = ar_last_change a" "hold_ok a \<Longrightarrow> hold_ok (back_off now arr a)"
proof -
  show "ar_last_change (back_off now arr a) = ar_last_change a" by (simp add: back_off_def)
  have "f64 (ar_up_hold a * 2) \<ge> ar_up_hold a" if "hold_ok a"
    using that by (intro r64.grows) (simp_all add: hold_ok_def UP_AFTER_S_def)
  then show "hold_ok a \<Longrightarrow> hold_ok (back_off now arr a)"
    by (auto simp: back_off_def hold_ok_def UP_AFTER_S_def UP_AFTER_MAX_S_def)
qed

text \<open>
  What one step does to the clock of the last change: nothing without a decision; with one, it was at least ten
  seconds old and is now.
\<close>

definition clock_kept :: "rat \<Rightarrow> auto_res \<Rightarrow> auto_res \<times> decision option \<Rightarrow> bool" where
  "clock_kept now a p \<longleftrightarrow>
     (if snd p = None then ar_last_change (fst p) = ar_last_change a
      else ar_last_change (fst p) = Some now \<and> changed_ok now a) \<and> (hold_ok a \<longrightarrow> hold_ok (fst p))"

lemma changed_ok_same: "ar_last_change b = ar_last_change a \<Longrightarrow> changed_ok now b = changed_ok now a"
  by (simp add: changed_ok_def)

lemma below_same [simp]:
  "changed_ok now (a\<lparr>ar_below_since := b\<rparr>) = changed_ok now a" "hold_ok (a\<lparr>ar_below_since := b\<rparr>) = hold_ok a"
  by (simp_all add: changed_ok_def hold_ok_def)

lemma try_up_facts:
  assumes "1 \<le> shown_fps s"
  shows "clock_kept (now_s s) a (try_up s arr budget current office a)"
    "sound_decision ((s, current, office), snd (try_up s arr budget current office a))"
proof -
  show "clock_kept (now_s s) a (try_up s arr budget current office a)"
    by (auto simp: try_up_def clock_kept_def changed_def Let_def changed_ok_def hold_ok_def split: option.splits)
  show "sound_decision ((s, current, office), snd (try_up s arr budget current office a))"
    using up_to_next [of current office] assms
    by (auto simp: try_up_def sound_decision_def changed_def Let_def split: option.splits)
qed

lemma judge_facts:
  assumes "1 \<le> shown_fps s"
  shows "clock_kept (now_s s) a (judge s arr budget current office a)"
    "sound_decision ((s, current, office), snd (judge s arr budget current office a))"
proof -
  have up: "clock_kept (now_s s) a (try_up s arr budget current office (a\<lparr>ar_below_since := b\<rparr>))" for b
    using try_up_facts(1) [OF assms, where a = "a\<lparr>ar_below_since := b\<rparr>" and arr = arr and budget = budget and
      current = current and office = office]
    by (auto simp: clock_kept_def split: if_splits)
  show "clock_kept (now_s s) a (judge s arr budget current office a)"
    using up back_off_fields(2) [of "a\<lparr>ar_below_since := t\<rparr>" "now_s s" arr for t]
    by (auto simp: judge_def changed_def Let_def clock_kept_def hold_ok_def)
  show "sound_decision ((s, current, office), snd (judge s arr budget current office a))"
    using try_up_facts(2) [OF assms] down_to_smaller [of office current s budget] assms
    by (auto simp: judge_def sound_decision_def changed_def Let_def)
qed

lemma step_facts:
  "clock_kept (now_s (fst x)) a (step a x)" "sound_decision (x, snd (step a x))"
proof -
  obtain s current office where x: "x = (s, current, office)" by (cases x)
  let ?a = "note_behind s (note_arrived (received_bps s) (watch current office a))"
  have same: "ar_last_change ?a = ar_last_change a" "hold_ok a \<Longrightarrow> hold_ok ?a"
    using note_behind_fields [where s = s and a = "note_arrived (received_bps s) (watch current office a)"]
      hold_ok_same [where a = a and b = "note_arrived (received_bps s) (watch current office a)"] by simp_all
  have quiet: "clock_kept (now_s s) a (b, None)" if "ar_last_change b = ar_last_change a" "hold_ok a \<Longrightarrow> hold_ok b" for b
    using that by (simp add: clock_kept_def)
  have through: "clock_kept (now_s s) a p" if "clock_kept (now_s s) ?a p" for p
    using that same by (auto simp: clock_kept_def changed_ok_def)
  show "clock_kept (now_s (fst x)) a (step a x)"
    using judge_facts(1) [where s = s and a = ?a] same through quiet hold_ok_same [where a = a and b = "watch current office a"]
    by (auto simp: step_def x Let_def not_less)
  show "sound_decision (x, snd (step a x))"
    using judge_facts(2) [where s = s] by (auto simp: step_def x Let_def not_less) (simp_all add: sound_decision_def)
qed

section \<open>Runs\<close>

text \<open>When the decisions of a run fell.\<close>

definition change_times :: "((sample \<times> u32 \<times> bool) \<times> decision option) list \<Rightarrow> rat list" where
  "change_times tr = map (\<lambda>p. now_s (fst (fst p))) (filter (\<lambda>p. snd p \<noteq> None) tr)"

definition ten_apart :: "rat \<Rightarrow> rat \<Rightarrow> bool" where "ten_apart t u \<longleftrightarrow> CHANGE_EVERY_S \<le> f64 (u - t)"

definition auto_inv :: "auto_res \<Rightarrow> ((sample \<times> u32 \<times> bool) \<times> decision option) list \<Rightarrow> bool" where
  "auto_inv a tr \<longleftrightarrow>
     ar_last_change a = (if change_times tr = [] then None else Some (last (change_times tr))) \<and>
     successively ten_apart (change_times tr) \<and> list_all sound_decision tr \<and> hold_ok a"

interpretation auto_history: history step auto_res_default auto_inv
proof unfold_locales
  show "auto_inv auto_res_default []"
    by (simp add: auto_inv_def change_times_def auto_res_default_def hold_ok_def UP_AFTER_S_def UP_AFTER_MAX_S_def)
next
  fix a tr x a' y
  assume inv: "auto_inv a tr" and "step a x = (a', y)"
  with step_facts [where x = x and a = a] have k: "clock_kept (now_s (fst x)) a (a', y)" "sound_decision (x, y)" by simp_all
  have ct: "change_times (tr @ [(x, y)]) = change_times tr @ (if y = None then [] else [now_s (fst x)])"
    by (simp add: change_times_def)
  show "auto_inv a' (tr @ [(x, y)])"
    using inv k unfolding auto_inv_def ct clock_kept_def
    by (auto simp: successively_append_iff changed_ok_def ten_apart_def since_def split: if_splits)
qed


end
