(* ===== verification/Playout.thy ===== *)
theory Playout
  imports Floats Machine
begin

text \<open>
  The jitter buffer in front of the audio device (\<open>playout.rs\<close>). Samples are \<open>f32\<close> values as
  rationals, rounded after each operation; \<open>sq\<close> and \<open>cs\<close> are \<open>f32::sqrt\<close> and
  \<open>f32::cos\<close>. \<open>None\<close> is a panic: an index or a range past the end of the queue or of the slice of
  candidates. A stereo queue is interleaved; a frame is one sample of each channel.
\<close>

section \<open>Loops over slices\<close>

definition at_index :: "'a list \<Rightarrow> nat \<Rightarrow> 'a option" where
  "at_index xs i = (if i < length xs then Some (xs ! i) else None)"

definition set_index :: "'a list \<Rightarrow> nat \<Rightarrow> 'a \<Rightarrow> 'a list option" where
  "set_index xs i x = (if i < length xs then Some (xs[i := x]) else None)"

text \<open>\<open>q.drain(..n)\<close>\<close>

definition drain :: "nat \<Rightarrow> 'a list \<Rightarrow> 'a list option" where
  "drain n xs = (if n \<le> length xs then Some (drop n xs) else None)"

text \<open>\<open>xs[a..b]\<close>\<close>

definition slice :: "'a list \<Rightarrow> nat \<Rightarrow> nat \<Rightarrow> 'a list option" where
  "slice xs a b = (if a \<le> b \<and> b \<le> length xs then Some (take (b - a) (drop a xs)) else None)"

primrec each :: "('a \<Rightarrow> 'b option) \<Rightarrow> 'a list \<Rightarrow> 'b list option" where
  "each f [] = Some []"
| "each f (x # xs) = (case f x of None \<Rightarrow> None | Some y \<Rightarrow> map_option ((#) y) (each f xs))"

primrec loop :: "('a \<Rightarrow> 's \<Rightarrow> 's option) \<Rightarrow> 'a list \<Rightarrow> 's \<Rightarrow> 's option" where
  "loop f [] s = Some s"
| "loop f (x # xs) s = Option.bind (f x s) (loop f xs)"

section \<open>Constants and state\<close>

definition SAMPLE_RATE :: nat where "SAMPLE_RATE = 48000"
definition TARGET_MS :: nat where "TARGET_MS = 30"
definition MAX_QUEUE_MS :: nat where "MAX_QUEUE_MS = 60"
definition SLACK_MS :: nat where "SLACK_MS = 10"
definition WINDOW_MS :: nat where "WINDOW_MS = 500"
definition SKEW :: nat where "SKEW = 200"
definition SPLICE_OVER_MS :: nat where "SPLICE_OVER_MS = 30"
definition XFADE_MS :: nat where "XFADE_MS = 5"
definition SEARCH_MS :: nat where "SEARCH_MS = 5"

definition frames_in :: "nat \<Rightarrow> nat" where "frames_in t = t * SAMPLE_RATE div 1000"

definition USIZE_MAX :: nat where "USIZE_MAX = 2 ^ 64 - 1"

record playout =
  po_q :: "rat list"
  po_ch :: nat
  po_primed :: bool
  po_low :: nat
  po_played :: nat
  po_pending :: int
  po_budget :: nat
  po_prev :: "rat list"
  po_started :: bool
  po_target :: nat
  po_underruns :: nat
  po_catchup :: bool
  po_cut :: nat

definition playout_new :: "nat \<Rightarrow> playout" where
  "playout_new ch = \<lparr>po_q = [], po_ch = min (max ch 1) 2, po_primed = False, po_low = USIZE_MAX, po_played = 0,
     po_pending = 0, po_budget = 0, po_prev = [0, 0], po_started = False, po_target = frames_in TARGET_MS,
     po_underruns = 0, po_catchup = True, po_cut = 0\<rparr>"

definition level :: "playout \<Rightarrow> nat" where "level p = length (po_q p) div po_ch p"

definition reset :: "playout \<Rightarrow> playout" where
  "reset p = p\<lparr>po_low := USIZE_MAX, po_played := 0, po_pending := 0\<rparr>"

section \<open>Cutting a backlog out\<close>

text \<open>\<open>(0..ch).map(|c| self.q[k * ch + c]).sum::<f32>()\<close>\<close>

definition mono_frame :: "playout \<Rightarrow> nat \<Rightarrow> rat option" where
  "mono_frame p k = map_option (\<lambda>xs. fold (\<lambda>x s. f32 (s + x)) xs 0)
     (each (\<lambda>c. at_index (po_q p) (k * po_ch p + c)) [0..<po_ch p])"

definition score :: "(rat \<Rightarrow> rat) \<Rightarrow> rat list \<Rightarrow> rat list \<Rightarrow> nat \<Rightarrow> nat \<Rightarrow> nat \<Rightarrow> rat option" where
  "score sq head tail lo f k =
    (case slice tail (k - lo) (k - lo + f) of
       None \<Rightarrow> None
     | Some b \<Rightarrow>
         let (dot, energy) = fold (\<lambda>(x, y) (d, e). (f32 (d + f32 (x * y)), f32 (e + f32 (y * y)))) (zip head b) (0, 0)
         in Some (f32 (dot / f32 (sq energy + f32 (1 / 1000000)))))"

definition better :: "(rat \<Rightarrow> rat) \<Rightarrow> rat list \<Rightarrow> rat list \<Rightarrow> nat \<Rightarrow> nat \<Rightarrow> nat \<Rightarrow> nat \<times> rat \<Rightarrow> (nat \<times> rat) option" where
  "better sq head tail lo f k best =
    (case score sq head tail lo f k of
       None \<Rightarrow> None
     | Some s \<Rightarrow> Some (if f32 (snd best + f32 (1 / 10000)) < s then (k, s) else best))"

text \<open>The weight of the new sound at frame \<open>i\<close> of \<open>f\<close>; \<open>f32::consts::PI\<close> is the nearest \<open>f32\<close>.\<close>

definition PI_F32 :: rat where "PI_F32 = 13176795 / 4194304"

definition fade :: "(rat \<Rightarrow> rat) \<Rightarrow> nat \<Rightarrow> nat \<Rightarrow> rat" where
  "fade cs f i =
    f32 (1 / 2 - f32 (1 / 2 * cs (f32 (f32 (PI_F32 * f32 (f32 (of_nat i) + 1 / 2)) / f32 (of_nat f)))))"

definition blend :: "rat \<Rightarrow> nat \<Rightarrow> nat \<Rightarrow> nat \<Rightarrow> nat \<Rightarrow> rat list \<Rightarrow> rat list option" where
  "blend w ch k i c q =
    (case (at_index q (i * ch + c), at_index q ((k + i) * ch + c)) of
       (Some a, Some b) \<Rightarrow> set_index q ((k + i) * ch + c) (f32 (f32 (a * f32 (1 - w)) + f32 (b * w)))
     | _ \<Rightarrow> None)"

definition cut_front :: "nat \<Rightarrow> playout \<Rightarrow> playout option" where
  "cut_front n p = map_option (\<lambda>q. p\<lparr>po_q := q, po_cut := po_cut p + n\<rparr>) (drain (n * po_ch p) (po_q p))"

definition splice :: "(rat \<Rightarrow> rat) \<Rightarrow> (rat \<Rightarrow> rat) \<Rightarrow> nat \<Rightarrow> playout \<Rightarrow> playout option" where
  "splice sq cs n p =
    (let ch = po_ch p; lev = level p; f = frames_in XFADE_MS;
         lo = max (n - frames_in SEARCH_MS) f;
         hi = min (n + frames_in SEARCH_MS) (lev - f) in
     if hi < lo then cut_front (min n lev) p
     else
       Option.bind (each (mono_frame p) [0..<f]) (\<lambda>head.
       Option.bind (each (mono_frame p) [lo..<hi + f]) (\<lambda>tail.
       let target = min (max n lo) hi in
       Option.bind (score sq head tail lo f target) (\<lambda>s.
       Option.bind (loop (better sq head tail lo f) [lo..<hi + 1] (target, s)) (\<lambda>best.
       let k = fst best in
       Option.bind (loop (\<lambda>i. loop (blend (fade cs f i) ch k i) [0..<ch]) [0..<f] (po_q p)) (\<lambda>q.
       cut_front k (p\<lparr>po_q := q\<rparr>)))))))"

definition push :: "(rat \<Rightarrow> rat) \<Rightarrow> (rat \<Rightarrow> rat) \<Rightarrow> rat list \<Rightarrow> playout \<Rightarrow> playout option" where
  "push sq cs samples p =
    (let p = p\<lparr>po_q := po_q p @ samples\<rparr> in
     if po_target p + frames_in MAX_QUEUE_MS < level p then
       (let n = level p - po_target p in
        map_option reset (if po_catchup p then splice sq cs n p else cut_front n p))
     else Some p)"

section \<open>Playing\<close>

definition cubic :: "rat \<Rightarrow> rat \<Rightarrow> rat \<Rightarrow> rat \<Rightarrow> rat \<Rightarrow> rat" where
  "cubic a b c d t =
    (let z = f32 (f32 (f32 (3 * f32 (b - c)) + d) - a);
         y = f32 (f32 (f32 (f32 (f32 (2 * a) - f32 (5 * b)) + f32 (4 * c)) - d) + f32 (t * z));
         x = f32 (f32 (c - a) + f32 (t * y))
     in f32 (b + f32 (f32 (1 / 2 * t) * x)))"

text \<open>\<open>prev[c] = q[n * ch - ch + c]\<close> for every channel.\<close>

definition note_prev :: "nat \<Rightarrow> playout \<Rightarrow> playout option" where
  "note_prev n p =
    map_option (\<lambda>prev. p\<lparr>po_prev := prev\<rparr>)
      (loop (\<lambda>c prev. Option.bind (at_index (po_q p) ((n - 1) * po_ch p + c)) (set_index prev c)) [0..<po_ch p] (po_prev p))"

definition copy :: "nat \<Rightarrow> playout \<Rightarrow> (playout \<times> rat list) option" where
  "copy len p =
    (let n = min (len div po_ch p) (level p) in
     Option.bind (if 0 < n * po_ch p then note_prev n p else Some p) (\<lambda>p.
     map_option (\<lambda>q. (p\<lparr>po_q := q\<rparr>, take (n * po_ch p) (po_q p))) (drain (n * po_ch p) (po_q p))))"

definition look :: "playout \<Rightarrow> nat \<Rightarrow> nat \<Rightarrow> rat option" where
  "look p k c = (if k = 0 then at_index (po_prev p) c else at_index (po_q p) ((k - 1) * po_ch p + c))"

definition interpolate :: "playout \<Rightarrow> nat \<Rightarrow> nat \<Rightarrow> nat \<Rightarrow> nat \<Rightarrow> rat option" where
  "interpolate p n spn j c =
    (let pos = j * spn; k = pos div n; t = f32 (f32 (of_nat (pos mod n)) / f32 (of_nat n)) in
     case (look p k c, look p (k + 1) c, look p (k + 2) c, look p (k + 3) c) of
       (Some a, Some b, Some e, Some g) \<Rightarrow> Some (cubic a b e g t)
     | _ \<Rightarrow> None)"

definition resample :: "nat \<Rightarrow> int \<Rightarrow> playout \<Rightarrow> (playout \<times> rat list) option" where
  "resample len d p =
    (let n = len div po_ch p; spn = nat (int n + d) in
     Option.bind (each (\<lambda>(j, c). interpolate p n spn j c) (List.product [0..<n] [0..<po_ch p])) (\<lambda>out.
     Option.bind (note_prev spn p) (\<lambda>p.
     map_option (\<lambda>q. (p\<lparr>po_q := q\<rparr>, out)) (drain (spn * po_ch p) (po_q p)))))"

text \<open>Priming: \<open>None\<close> when the level is not there yet (silence), else the state ready to play.\<close>

definition prime :: "nat \<Rightarrow> playout \<Rightarrow> playout option option" where
  "prime n p =
    (if po_primed p then Some (Some p)
     else if n = 0 \<or> level p < po_target p then Some None
     else
       Option.bind (if po_started p then Some p
         else map_option (\<lambda>q. p\<lparr>po_q := q, po_started := True\<rparr>) (drain ((level p - po_target p) * po_ch p) (po_q p)))
       (\<lambda>p. Some (Some (reset (p\<lparr>po_prev := [0, 0], po_primed := True\<rparr>)))))"

text \<open>The decision at the end of a watch window.\<close>

definition steer :: "(rat \<Rightarrow> rat) \<Rightarrow> (rat \<Rightarrow> rat) \<Rightarrow> nat \<Rightarrow> playout \<Rightarrow> playout option" where
  "steer sq cs n p =
    (if frames_in WINDOW_MS \<le> po_played p then
       (let error = int (po_low p) - int (po_target p);
            off = nat \<bar>error\<bar>;
            pending = (if frames_in SLACK_MS < off \<or> po_pending p \<noteq> 0 \<and> frames_in 1 < off then error else 0);
            lev = level p; p = reset p in
        if po_catchup p \<and> int (frames_in SPLICE_OVER_MS) < error \<and> nat error + n \<le> lev
        then splice sq cs (nat error) p
        else Some (p\<lparr>po_pending := pending\<rparr>))
     else Some p)"

text \<open>This fill's share of the correction; \<open>lev\<close> is the level before the window's decision.\<close>

definition share :: "nat \<Rightarrow> nat \<Rightarrow> playout \<Rightarrow> int" where
  "share n lev p =
    (let step = int (po_budget p div SKEW); w = po_pending p;
         d = (if 0 < w \<and> po_target p < lev then min w step
              else if w < 0 \<and> lev < po_target p then max w (- step) else 0)
     in if n < nat \<bar>d\<bar> * 8 \<or> lev < nat (int n + d) + 2 then 0 else d)"

definition spend :: "int \<Rightarrow> playout \<Rightarrow> playout" where
  "spend d p =
    (if d = 0 then p
     else p\<lparr>po_pending := po_pending p - d, po_budget := po_budget p - nat \<bar>d\<bar> * SKEW,
            po_low := nat (min (max (int (po_low p) - d) 0) (int USIZE_MAX))\<rparr>)"

definition play :: "nat \<Rightarrow> int \<Rightarrow> playout \<Rightarrow> (playout \<times> rat list) option" where
  "play len d p =
    Option.bind (if d = 0 then copy len p else resample len d p) (\<lambda>(p, out).
    let p = spend d p in
    Some (if length out < len then p\<lparr>po_primed := False, po_underruns := po_underruns p + 1\<rparr> else p, out))"

text \<open>The samples that came from the queue; the rest of the \<open>len\<close> asked for is silence.\<close>

definition fill :: "(rat \<Rightarrow> rat) \<Rightarrow> (rat \<Rightarrow> rat) \<Rightarrow> nat \<Rightarrow> playout \<Rightarrow> (playout \<times> rat list) option" where
  "fill sq cs len p =
    (let n = len div po_ch p in
     Option.bind (prime n p) (\<lambda>ready.
     case ready of
       None \<Rightarrow> Some (p, [])
     | Some p \<Rightarrow>
         let lev = level p;
             p = p\<lparr>po_low := min (po_low p) lev, po_played := po_played p + n,
                   po_budget := min (po_budget p + n) (2 * SKEW)\<rparr> in
         Option.bind (steer sq cs n p) (\<lambda>p.
         play len (share n lev p) p)))"

section \<open>Loops succeed\<close>

lemma each_some:
  "(\<And>x. x \<in> set xs \<Longrightarrow> f x \<noteq> None) \<Longrightarrow> \<exists>ys. each f xs = Some ys \<and> length ys = length xs"
proof (induction xs)
  case (Cons x xs)
  from Cons.prems [of x] obtain y where "f x = Some y" by auto
  moreover from Cons.IH Cons.prems obtain ys where "each f xs = Some ys" "length ys = length xs" by (meson list.set_intros(2))
  ultimately show ?case by simp
qed simp

lemma loop_some:
  "(\<And>x s. x \<in> set xs \<Longrightarrow> P s \<Longrightarrow> \<exists>s'. f x s = Some s' \<and> P s') \<Longrightarrow> P s \<Longrightarrow> \<exists>s'. loop f xs s = Some s' \<and> P s'"
proof (induction xs arbitrary: s)
  case (Cons x xs)
  from Cons.prems obtain s1 where s1: "f x s = Some s1" "P s1" by (meson list.set_intros(1))
  have "\<exists>s'. loop f xs s1 = Some s' \<and> P s'"
    using Cons.prems(1) s1(2) by (intro Cons.IH) (meson list.set_intros(2))
  with s1 show ?case by simp
qed auto

lemma at_index_some: "i < length xs \<Longrightarrow> at_index xs i = Some (xs ! i)"
  by (simp add: at_index_def)

lemma frame_index:
  assumes "k < level p" "c < po_ch p"
  shows "k * po_ch p + c < length (po_q p)"
proof -
  have "k * po_ch p + c < (k + 1) * po_ch p" using assms(2) by simp
  also have "\<dots> \<le> level p * po_ch p" using assms(1) by (intro mult_le_mono1) simp
  also have "\<dots> \<le> length (po_q p)" by (simp add: level_def)
  finally show ?thesis .
qed

lemma mono_frame_some:
  assumes "k < level p"
  shows "mono_frame p k \<noteq> None"
proof -
  have "\<exists>ys. each (\<lambda>c. at_index (po_q p) (k * po_ch p + c)) [0..<po_ch p] = Some ys \<and> length ys = length [0..<po_ch p]"
    using frame_index [OF assms] by (intro each_some) (simp add: at_index_some)
  then show ?thesis by (auto simp: mono_frame_def)
qed

lemma score_some: "lo \<le> k \<Longrightarrow> k - lo + f \<le> length tail \<Longrightarrow> \<exists>s. score sq head tail lo f k = Some s"
  by (simp add: score_def slice_def case_prod_beta Let_def)

lemma blend_some:
  assumes "(k + i) * ch + c < length q"
  shows "\<exists>q'. blend w ch k i c q = Some q' \<and> length q' = length q"
proof -
  have "i * ch + c < length q" using assms by (simp add: add_mult_distrib)
  with assms show ?thesis by (simp add: blend_def at_index_some set_index_def)
qed

lemma cut_front_some:
  "k \<le> level p \<Longrightarrow> cut_front k p = Some (p\<lparr>po_q := drop (k * po_ch p) (po_q p), po_cut := po_cut p + k\<rparr>)"
  using mult_le_mono1 [of k "level p" "po_ch p"] order_trans [of "k * po_ch p" "level p * po_ch p" "length (po_q p)"]
  by (simp add: cut_front_def drain_def level_def)

section \<open>Splicing\<close>

definition cut_to :: "nat \<Rightarrow> rat list \<Rightarrow> playout \<Rightarrow> playout" where
  "cut_to k q p = p\<lparr>po_q := q, po_cut := po_cut p + k\<rparr>"

lemma splice_cuts:
  assumes ch: "0 < po_ch p"
  shows "\<exists>k q. splice sq cs n p = Some (cut_to k q p) \<and> k \<le> level p \<and> k \<le> n + frames_in SEARCH_MS \<and>
    length q = length (po_q p) - k * po_ch p \<and> (0 < n \<and> 0 < level p \<longrightarrow> 0 < k)"
proof -
  let ?f = "frames_in XFADE_MS" and ?ch = "po_ch p"
  define lo where "lo = max (n - frames_in SEARCH_MS) ?f"
  define hi where "hi = min (n + frames_in SEARCH_MS) (level p - ?f)"
  note splice = splice_def [of sq cs n p, unfolded Let_def, folded lo_def hi_def]
  show ?thesis
  proof (cases "hi < lo")
    case True
    then have "splice sq cs n p = cut_front (min n (level p)) p" by (simp add: splice)
    then show ?thesis
      by (intro exI [of _ "min n (level p)"] exI [of _ "drop (min n (level p) * po_ch p) (po_q p)"])
        (simp add: cut_front_some cut_to_def)
  next
    case False
    have f: "0 < ?f" by (simp add: frames_in_def XFADE_MS_def SAMPLE_RATE_def)
    have lohi: "lo \<le> hi" "?f \<le> lo" "hi + ?f \<le> level p" "hi \<le> n + frames_in SEARCH_MS"
      using False f by (auto simp: lo_def hi_def)
    define t where "t = min (max n lo) hi"
    have t: "lo \<le> t" "t \<le> hi" using lohi by (auto simp: t_def)
    obtain head where head: "each (mono_frame p) [0..<?f] = Some head"
    proof -
      have "\<exists>ys. each (mono_frame p) [0..<?f] = Some ys \<and> length ys = length [0..<?f]"
        by (rule each_some, rule mono_frame_some) (use lohi in simp)
      then show ?thesis using that by blast
    qed
    obtain tail where tail: "each (mono_frame p) [lo..<hi + ?f] = Some tail" "length tail = hi + ?f - lo"
    proof -
      have "\<exists>ys. each (mono_frame p) [lo..<hi + ?f] = Some ys \<and> length ys = length [lo..<hi + ?f]"
        by (rule each_some, rule mono_frame_some) (use lohi in simp)
      then show ?thesis using that unfolding length_upt by blast
    qed
    have score: "\<exists>s. score sq head tail lo ?f k = Some s" if "lo \<le> k" "k \<le> hi" for k
    proof -
      have "k - lo + ?f \<le> length tail" using that unfolding tail(2) by linarith
      with that(1) show ?thesis by (rule score_some)
    qed
    from score [OF t] obtain s where s: "score sq head tail lo ?f t = Some s" by blast
    let ?P = "\<lambda>b. lo \<le> fst b \<and> fst b \<le> hi"
    have "\<exists>b. loop (better sq head tail lo ?f) [lo..<hi + 1] (t, s) = Some b \<and> ?P b"
    proof (rule loop_some)
      fix k and b :: "nat \<times> rat" assume k: "k \<in> set [lo..<hi + 1]" and b: "?P b"
      then have "\<exists>x. score sq head tail lo ?f k = Some x" by (intro score) auto
      with k b show "\<exists>b'. better sq head tail lo ?f k b = Some b' \<and> ?P b'"
        by (cases b) (auto simp: better_def)
    qed (use t in simp)
    then obtain best where best: "loop (better sq head tail lo ?f) [lo..<hi + 1] (t, s) = Some best" "?P best" by blast
    define k where "k = fst best"
    have k: "lo \<le> k" "k \<le> hi" using best(2) by (simp_all add: k_def)
    have "\<exists>q. loop (\<lambda>i. loop (blend (fade cs ?f i) ?ch k i) [0..<?ch]) [0..<?f] (po_q p) = Some q \<and> length q = length (po_q p)"
    proof (rule loop_some, rule loop_some)
      fix i q c and q' :: "rat list"
      assume i: "i \<in> set [0..<?f]" and c: "c \<in> set [0..<?ch]" and q': "length q' = length (po_q p)"
      have "(k + i) * ?ch + c < length (po_q p)" using i c k lohi by (intro frame_index) auto
      then show "\<exists>s'. blend (fade cs ?f i) ?ch k i c q' = Some s' \<and> length s' = length (po_q p)"
        using blend_some [of k i ?ch c q' "fade cs ?f i"] q' by auto
    qed simp_all
    then obtain q where q: "loop (\<lambda>i. loop (blend (fade cs ?f i) ?ch k i) [0..<?ch]) [0..<?f] (po_q p) = Some q"
      "length q = length (po_q p)" by blast
    have kl: "k \<le> level p" using k lohi by linarith
    have "cut_front k (p\<lparr>po_q := q\<rparr>) = Some (cut_to k (drop (k * ?ch) q) p)"
      using cut_front_some [of k "p\<lparr>po_q := q\<rparr>"] kl q(2) by (simp add: level_def cut_to_def)
    with head tail(1) s best(1) q(1) False
    have "splice sq cs n p = Some (cut_to k (drop (k * ?ch) q) p)"
      by (simp add: splice t_def k_def del: upt_Suc)
    moreover have "k \<le> n + frames_in SEARCH_MS" "0 < k" using k lohi f by linarith+
    ultimately show ?thesis using kl q(2) by (intro exI [of _ k] exI [of _ "drop (k * ?ch) q"]) simp
  qed
qed

section \<open>Playing\<close>

definition well_formed :: "playout \<Rightarrow> bool" where
  "well_formed p \<longleftrightarrow> 0 < po_ch p \<and> po_ch p \<le> 2 \<and> length (po_prev p) = 2"

lemma frames_in_queue: "n \<le> level p \<Longrightarrow> n * po_ch p \<le> length (po_q p)"
  by (rule order_trans [OF mult_le_mono1 [of n "level p"]]) (simp_all add: level_def)

lemma note_prev_some:
  assumes "well_formed p" "0 < n" "n \<le> level p"
  shows "\<exists>prev. note_prev n p = Some (p\<lparr>po_prev := prev\<rparr>) \<and> length prev = 2"
proof -
  have "\<exists>prev. loop (\<lambda>c prev. Option.bind (at_index (po_q p) ((n - 1) * po_ch p + c)) (set_index prev c)) [0..<po_ch p] (po_prev p)
      = Some prev \<and> length prev = 2"
  proof (rule loop_some)
    fix c and prev :: "rat list" assume c: "c \<in> set [0..<po_ch p]" and l: "length prev = 2"
    have "(n - 1) * po_ch p + c < length (po_q p)" using assms c by (intro frame_index) auto
    then show "\<exists>s. Option.bind (at_index (po_q p) ((n - 1) * po_ch p + c)) (set_index prev c) = Some s \<and> length s = 2"
      using c l assms by (simp add: at_index_some set_index_def well_formed_def)
  qed (use assms in \<open>simp add: well_formed_def\<close>)
  then show ?thesis by (auto simp: note_prev_def)
qed

lemma copy_some:
  assumes "well_formed p"
  shows "\<exists>prev. length prev = 2 \<and>
    copy len p = Some (p\<lparr>po_prev := prev, po_q := drop (min (len div po_ch p) (level p) * po_ch p) (po_q p)\<rparr>,
      take (min (len div po_ch p) (level p) * po_ch p) (po_q p))"
proof -
  let ?n = "min (len div po_ch p) (level p)"
  have d: "drain (?n * po_ch p) (po_q p) = Some (drop (?n * po_ch p) (po_q p))"
    using frames_in_queue [of ?n p] by (simp add: drain_def)
  show ?thesis
  proof (cases "0 < ?n * po_ch p")
    case True
    then obtain prev where "note_prev ?n p = Some (p\<lparr>po_prev := prev\<rparr>)" "length prev = 2"
      using note_prev_some [OF assms, of ?n] by auto
    with d True show ?thesis by (auto simp: copy_def Let_def)
  next
    case False
    with d assms show ?thesis
      by (intro exI [of _ "po_prev p"]) (auto simp: copy_def Let_def well_formed_def)
  qed
qed

lemma look_some:
  assumes "well_formed p" "c < po_ch p" "k \<le> level p"
  shows "\<exists>x. look p k c = Some x"
proof (cases k)
  case 0
  with assms show ?thesis by (simp add: look_def at_index_some well_formed_def)
next
  case (Suc i)
  with assms show ?thesis using frame_index [of i p c] by (simp add: look_def at_index_some)
qed

lemma interpolate_some:
  assumes "well_formed p" "c < po_ch p" "j < n" "0 < m" "m + 2 \<le> level p"
  shows "interpolate p n m j c \<noteq> None"
proof -
  have "j * m < n * m" using assms by simp
  then have "j * m div n < m" using assms by (simp add: less_mult_imp_div_less mult.commute)
  then have k: "j * m div n + 3 \<le> level p" using assms by linarith
  have "\<exists>x. look p (j * m div n + i) c = Some x" if "i \<le> 3" for i
    using k that by (intro look_some assms) linarith
  from this [of 0] this [of 1] this [of 2] this [of 3] show ?thesis
    by (auto simp: interpolate_def Let_def)
qed

lemma resample_some:
  assumes "well_formed p" "0 < len div po_ch p" "nat \<bar>d\<bar> * 8 \<le> len div po_ch p"
    "nat (int (len div po_ch p) + d) + 2 \<le> level p"
  shows "\<exists>prev out. length prev = 2 \<and> length out = len div po_ch p * po_ch p \<and>
    resample len d p = Some (p\<lparr>po_prev := prev, po_q := drop (nat (int (len div po_ch p) + d) * po_ch p) (po_q p)\<rparr>, out)"
proof -
  let ?n = "len div po_ch p" and ?m = "nat (int (len div po_ch p) + d)"
  have m: "0 < ?m" using assms by linarith
  obtain out where out: "each (\<lambda>(j, c). interpolate p ?n ?m j c) (List.product [0..<?n] [0..<po_ch p]) = Some out"
    "length out = ?n * po_ch p"
    using each_some [of "List.product [0..<?n] [0..<po_ch p]" "\<lambda>(j, c). interpolate p ?n ?m j c"]
      interpolate_some [OF assms(1) _ _ m assms(4)] by (force simp: length_product)
  obtain prev where prev: "note_prev ?m p = Some (p\<lparr>po_prev := prev\<rparr>)" "length prev = 2"
    using note_prev_some [OF assms(1) m] assms(4) by auto
  have "drain (?m * po_ch p) (po_q p) = Some (drop (?m * po_ch p) (po_q p))"
    using frames_in_queue [of ?m p] assms(4) by (simp add: drain_def)
  with out prev show ?thesis by (auto simp: resample_def Let_def)
qed

lemma prime_some:
  assumes "well_formed p"
  shows "\<exists>r. prime n p = Some r \<and> (\<forall>p'. r = Some p' \<longrightarrow> well_formed p' \<and> po_ch p' = po_ch p)"
    "po_primed p \<Longrightarrow> prime n p = Some (Some p)"
proof -
  have "(level p - po_target p) * po_ch p \<le> length (po_q p)" by (rule frames_in_queue) simp
  then show "\<exists>r. prime n p = Some r \<and> (\<forall>p'. r = Some p' \<longrightarrow> well_formed p' \<and> po_ch p' = po_ch p)"
    using assms by (auto simp: prime_def well_formed_def drain_def reset_def)
  show "po_primed p \<Longrightarrow> prime n p = Some (Some p)" by (simp add: prime_def)
qed

definition steered :: "playout \<Rightarrow> playout \<Rightarrow> bool" where
  "steered p p' \<longleftrightarrow> po_ch p' = po_ch p \<and> po_prev p' = po_prev p \<and> po_budget p' = po_budget p \<and>
     (po_q p' = po_q p \<and> po_cut p' = po_cut p \<or>
      po_pending p' = 0 \<and> (\<exists>k. 0 < k \<and> k \<le> level p \<and> length (po_q p') = length (po_q p) - k * po_ch p \<and> po_cut p' = po_cut p + k))"

lemma steer_some:
  assumes "well_formed p"
  shows "\<exists>p'. steer sq cs n p = Some p' \<and> steered p p'"
proof -
  have r: "level (reset p) = level p" "po_q (reset p) = po_q p" "po_ch (reset p) = po_ch p" "po_cut (reset p) = po_cut p"
    "po_prev (reset p) = po_prev p" "po_budget (reset p) = po_budget p" "po_pending (reset p) = 0"
    by (simp_all add: reset_def level_def)
  define e where "e = int (po_low p) - int (po_target p)"
  consider (cut) "frames_in WINDOW_MS \<le> po_played p" "po_catchup p \<and> int (frames_in SPLICE_OVER_MS) < e \<and> nat e + n \<le> level p"
    | (wait) "frames_in WINDOW_MS \<le> po_played p" "\<not> (po_catchup p \<and> int (frames_in SPLICE_OVER_MS) < e \<and> nat e + n \<le> level p)"
    | (no) "\<not> frames_in WINDOW_MS \<le> po_played p" by blast
  then show ?thesis
  proof cases
    case cut
    have "0 < e" using cut by (simp add: frames_in_def)
    then have pos: "0 < nat e" "0 < level p" using cut by linarith+
    obtain k q where s: "splice sq cs (nat e) (reset p) = Some (cut_to k q (reset p))" "k \<le> level p"
      "length q = length (po_q p) - k * po_ch p" "0 < k"
      using splice_cuts [of "reset p" sq cs "nat e"] assms pos by (auto simp: r well_formed_def)
    then have "steer sq cs n p = Some (cut_to k q (reset p))" using cut by (simp add: steer_def Let_def reset_def flip: e_def)
    with s show ?thesis by (auto simp: steered_def cut_to_def r)
  next
    case wait
    then show ?thesis by (auto simp: steer_def Let_def steered_def reset_def simp flip: e_def)
  next
    case no
    then show ?thesis by (simp add: steer_def steered_def)
  qed
qed

lemma share_facts:
  assumes "share n lev p = d" "d \<noteq> 0"
  shows "nat \<bar>d\<bar> * 8 \<le> n" "nat (int n + d) + 2 \<le> lev" "nat \<bar>d\<bar> * SKEW \<le> po_budget p" "po_pending p \<noteq> 0"
proof -
  show "nat \<bar>d\<bar> * 8 \<le> n" "nat (int n + d) + 2 \<le> lev" "po_pending p \<noteq> 0"
    using assms by (auto simp: share_def Let_def split: if_splits)
  have "nat \<bar>d\<bar> \<le> po_budget p div SKEW"
    using assms by (auto simp: share_def Let_def split: if_splits)
  then show "nat \<bar>d\<bar> * SKEW \<le> po_budget p"
    using mult_le_mono1 [of "nat \<bar>d\<bar>" "po_budget p div SKEW" SKEW] div_times_less_eq_dividend [of "po_budget p" SKEW]
    by linarith
qed

section \<open>Every call\<close>

datatype playout_event = Push "rat list" | Fill nat | SetTarget nat | SetCatchup bool

fun playout_call :: "(rat \<Rightarrow> rat) \<Rightarrow> (rat \<Rightarrow> rat) \<Rightarrow> playout_event \<Rightarrow> playout \<Rightarrow> playout option" where
  "playout_call sq cs (Push samples) p = push sq cs samples p"
| "playout_call sq cs (Fill len) p = map_option fst (fill sq cs len p)"
| "playout_call sq cs (SetTarget n) p = Some (p\<lparr>po_target := n\<rparr>)"
| "playout_call sq cs (SetCatchup b) p = Some (p\<lparr>po_catchup := b\<rparr>)"

lemma push_some:
  assumes "well_formed p"
  shows "\<exists>p'. push sq cs samples p = Some p' \<and> well_formed p'"
proof -
  let ?p = "p\<lparr>po_q := po_q p @ samples\<rparr>"
  let ?n = "level ?p - po_target p"
  have wf: "well_formed ?p" using assms by (simp add: well_formed_def)
  obtain k q where s: "splice sq cs ?n ?p = Some (cut_to k q ?p)"
    using splice_cuts [of ?p sq cs ?n] wf by (auto simp: well_formed_def)
  have c: "cut_front ?n ?p = Some (cut_to ?n (drop (?n * po_ch ?p) (po_q ?p)) ?p)"
    using cut_front_some [of ?n ?p] by (simp add: cut_to_def)
  have "well_formed (reset (cut_to k' q' ?p))" for k' q' using wf by (simp add: well_formed_def reset_def cut_to_def)
  with s c wf show ?thesis unfolding push_def Let_def by auto
qed

lemma fill_some:
  assumes wf: "well_formed p"
  shows "\<exists>p' out. fill sq cs len p = Some (p', out) \<and> well_formed p' \<and> po_ch p' = po_ch p \<and> length out \<le> len \<and>
    (po_primed p \<longrightarrow> (\<exists>d k. \<bar>d\<bar> * 8 \<le> int (len div po_ch p) \<and>
       \<bar>d\<bar> * 200 + int (po_budget p') \<le> int (po_budget p) + int (len div po_ch p) \<and> po_cut p' = po_cut p + k \<and>
       int (length (po_q p')) + int (k * po_ch p) + int (length out) + d * int (po_ch p) = int (length (po_q p)) \<and>
       (d = 0 \<and> k = 0 \<longrightarrow> out @ po_q p' = po_q p)))"
proof -
  let ?n = "len div po_ch p"
  obtain r where r: "prime ?n p = Some r" "\<forall>p1. r = Some p1 \<longrightarrow> well_formed p1 \<and> po_ch p1 = po_ch p"
    "po_primed p \<Longrightarrow> r = Some p"
    using prime_some [OF wf, of ?n] by auto
  show ?thesis
  proof (cases r)
    case None
    then have "fill sq cs len p = Some (p, [])" using r by (simp add: fill_def Let_def)
    then show ?thesis using wf r None by auto
  next
    case (Some p1)
    have wf1: "well_formed p1" "po_ch p1 = po_ch p" using r Some by auto
    define p2 where "p2 = p1\<lparr>po_low := min (po_low p1) (level p1), po_played := po_played p1 + ?n,
      po_budget := min (po_budget p1 + ?n) (2 * SKEW)\<rparr>"
    have p2: "well_formed p2" "po_ch p2 = po_ch p" "po_q p2 = po_q p1" "po_cut p2 = po_cut p1" "level p2 = level p1"
      "po_budget p2 \<le> po_budget p1 + ?n"
      using wf1 by (simp_all add: p2_def well_formed_def level_def)
    obtain p3 where p3: "steer sq cs ?n p2 = Some p3" and st: "steered p2 p3" using steer_some [OF p2(1)] by blast
    have wf3: "well_formed p3" "po_ch p3 = po_ch p" using st p2 by (auto simp: steered_def well_formed_def)
    define d where "d = share ?n (level p1) p3"
    have same: "po_q p3 = po_q p1 \<and> po_cut p3 = po_cut p1" if "d \<noteq> 0"
      using st share_facts(4) [OF d_def [symmetric] that] p2 by (auto simp: steered_def)
    obtain k where k: "length (po_q p3) + k * po_ch p = length (po_q p1)" "po_cut p3 = po_cut p1 + k" "d \<noteq> 0 \<Longrightarrow> k = 0"
      "k = 0 \<Longrightarrow> po_q p3 = po_q p1"
    proof -
      from st consider "po_q p3 = po_q p2" "po_cut p3 = po_cut p2"
        | k where "po_pending p3 = 0" "0 < k" "k \<le> level p2" "length (po_q p3) = length (po_q p2) - k * po_ch p2"
          "po_cut p3 = po_cut p2 + k" unfolding steered_def by blast
      then show ?thesis
      proof cases
        case 1
        then show ?thesis using p2 by (intro that [of 0]) simp_all
      next
        case (2 k)
        have "d = 0" using share_facts(4) [OF d_def [symmetric]] 2(1) by blast
        with 2 frames_in_queue [of k p2] p2 show ?thesis by (intro that [of k]) simp_all
      qed
    qed
    have len: "?n * po_ch p \<le> len" by (rule div_times_less_eq_dividend)
    have "\<exists>p4 out. (if d = 0 then copy len p3 else resample len d p3) = Some (p4, out) \<and> well_formed p4 \<and> po_ch p4 = po_ch p \<and>
      po_budget p4 = po_budget p3 \<and> po_cut p4 = po_cut p3 \<and> length out \<le> len \<and>
      int (length (po_q p4)) + int (length out) + d * int (po_ch p) = int (length (po_q p3)) \<and>
      (d = 0 \<longrightarrow> out @ po_q p4 = po_q p3)"
    proof (cases "d = 0")
      case True
      obtain prev where "length prev = 2" "copy len p3 = Some (p3\<lparr>po_prev := prev,
          po_q := drop (min (len div po_ch p3) (level p3) * po_ch p3) (po_q p3)\<rparr>,
        take (min (len div po_ch p3) (level p3) * po_ch p3) (po_q p3))"
        using copy_some [OF wf3(1), of len] by blast
      moreover have "min (len div po_ch p3) (level p3) * po_ch p3 \<le> len"
      proof -
        have "min ?n (level p3) * po_ch p \<le> ?n * po_ch p" by (rule mult_le_mono1) simp
        from order_trans [OF this len] show ?thesis unfolding wf3(2) .
      qed
      ultimately show ?thesis using True wf3 by (auto simp: well_formed_def)
    next
      case False
      note sh = share_facts [OF d_def [symmetric] False]
      have n: "0 < ?n" using sh(1) False by linarith
      have lv: "level p3 = level p1" using same [OF False] wf3 wf1 by (simp add: level_def)
      obtain prev out where o: "length prev = 2" "length out = ?n * po_ch p"
        "resample len d p3 = Some (p3\<lparr>po_prev := prev, po_q := drop (nat (int ?n + d) * po_ch p) (po_q p3)\<rparr>, out)"
        using resample_some [OF wf3(1), of len d] sh n lv wf3(2) by auto
      have m: "nat (int ?n + d) * po_ch p \<le> length (po_q p3)"
        using frames_in_queue [of "nat (int ?n + d)" p3] sh(2) lv wf3(2) by simp
      have i: "int (nat (int ?n + d) * po_ch p) = int (?n * po_ch p) + d * int (po_ch p)"
      proof -
        have "0 \<le> int ?n + d" using sh(1) by arith
        then show ?thesis by (simp add: distrib_right)
      qed
      show ?thesis using False o wf3 len m i by (auto simp: well_formed_def of_nat_diff)
    qed
    then obtain p4 out where p4: "(if d = 0 then copy len p3 else resample len d p3) = Some (p4, out)"
      "well_formed p4" "po_ch p4 = po_ch p" "po_budget p4 = po_budget p3" "po_cut p4 = po_cut p3" "length out \<le> len"
      "int (length (po_q p4)) + int (length out) + d * int (po_ch p) = int (length (po_q p3))"
      "d = 0 \<longrightarrow> out @ po_q p4 = po_q p3" by blast
    define p5 where "p5 = spend d p4"
    define p6 where "p6 = (if length out < len then p5\<lparr>po_primed := False, po_underruns := po_underruns p5 + 1\<rparr> else p5)"
    have "play len d p3 = Some (p6, out)"
      unfolding play_def p4(1) by (simp add: p6_def p5_def Let_def)
    then have fill: "fill sq cs len p = Some (p6, out)"
      using r(1) p3 by (simp add: fill_def Let_def Some flip: p2_def d_def)
    have p6: "well_formed p6" "po_ch p6 = po_ch p" "po_q p6 = po_q p4" "po_cut p6 = po_cut p4" "po_budget p6 = po_budget p5"
      using p4 by (simp_all add: p6_def p5_def spend_def well_formed_def)
    have "\<bar>d\<bar> * 8 \<le> int ?n" using share_facts(1) [OF d_def [symmetric]] by (cases "d = 0") auto
    moreover have "\<bar>d\<bar> * 200 + int (po_budget p6) \<le> int (po_budget p1) + int ?n"
    proof -
      have b: "po_budget p4 \<le> po_budget p1 + ?n" using p4(4) st p2(6) by (simp add: steered_def)
      show ?thesis
      proof (cases "d = 0")
        case False
        then have "nat \<bar>d\<bar> * SKEW \<le> po_budget p4" using share_facts(3) [OF d_def [symmetric]] p4(4) by simp
        then have "\<bar>d\<bar> * 200 + int (po_budget p6) = int (po_budget p4)" using False p6(5) by (simp add: p5_def spend_def SKEW_def)
        with b show ?thesis by simp
      qed (use b p6(5) in \<open>simp add: p5_def spend_def\<close>)
    qed
    moreover have "int (length (po_q p6)) + int (k * po_ch p) + int (length out) + d * int (po_ch p) = int (length (po_q p1))"
    proof -
      have "int (length (po_q p3)) + int (k * po_ch p) = int (length (po_q p1))" using k(1) by linarith
      with p4(7) p6(3) show ?thesis by simp
    qed
    moreover have "d = 0 \<and> k = 0 \<longrightarrow> out @ po_q p6 = po_q p1" using p4(8) p6(3) k(4) by simp
    moreover have "po_cut p6 = po_cut p1 + k" using p6(4) p4(5) k(2) by simp
    ultimately show ?thesis using fill p6 p4(6) r(3) Some by auto
  qed
qed

lemma call_some:
  assumes "well_formed p"
  shows "\<exists>p'. playout_call sq cs c p = Some p' \<and> well_formed p'"
proof (cases c)
  case (Push samples)
  then show ?thesis using push_some [OF assms] by simp
next
  case (Fill len)
  obtain p' out where "fill sq cs len p = Some (p', out)" "well_formed p'" using fill_some [OF assms, of sq cs len] by blast
  then show ?thesis by (simp add: Fill)
qed (use assms in \<open>simp_all add: well_formed_def\<close>)


text \<open>A buffer that plays, two samples in, one of them played.\<close>

definition playing :: playout where
  "playing = \<lparr>po_q = [8], po_ch = 1, po_primed = True, po_low = 2, po_played = 1, po_pending = 0, po_budget = 1,
     po_prev = [7, 0], po_started = True, po_target = 2, po_underruns = 0, po_catchup = True, po_cut = 0\<rparr>"

lemma playing_run: "loop (playout_call id id) [SetTarget 2, Push [7, 8], Fill 1] (playout_new 1) = Some playing"
proof -
  define p where "p = (playout_new 1)\<lparr>po_target := 2, po_q := [7, 8]\<rparr>"
  have frames: "frames_in MAX_QUEUE_MS = 2880" "frames_in WINDOW_MS = 24000"
    by (simp_all add: frames_in_def MAX_QUEUE_MS_def WINDOW_MS_def SAMPLE_RATE_def)
  have push: "push id id [7, 8] ((playout_new 1)\<lparr>po_target := 2\<rparr>) = Some p"
    by (simp add: p_def push_def playout_new_def level_def frames(1) Let_def)
  define r where "r = p\<lparr>po_primed := True, po_started := True\<rparr>"
  have "prime 1 p = Some (Some r)"
    by (simp add: prime_def r_def p_def playout_new_def reset_def level_def drain_def)
  moreover have "min (po_low r) (level r) = 2" by (simp add: r_def p_def playout_new_def level_def USIZE_MAX_def)
  moreover have "po_played r = 0" "po_budget r = 0" "po_ch r = 1" "level r = 2"
    by (simp_all add: r_def p_def playout_new_def level_def)
  moreover define t where "t = r\<lparr>po_low := 2, po_played := 1, po_budget := 1\<rparr>"
  moreover have "steer id id 1 t = Some t" by (simp add: steer_def frames(2) t_def)
  moreover have "share 1 2 t = 0" by (simp add: share_def t_def r_def p_def playout_new_def)
  moreover have "play 1 0 t = Some (playing, [7])"
    by (simp add: play_def spend_def copy_def level_def note_prev_def drain_def at_index_def set_index_def t_def r_def p_def
        playout_new_def playing_def)
  moreover have "po_ch p = 1" by (simp add: p_def playout_new_def)
  ultimately have "fill id id 1 p = Some (playing, [7])" by (simp add: fill_def SKEW_def)
  with push show ?thesis by simp
qed


end
