(* ===== verification/Spec2Isabelle.thy ===== *)
theory Spec2Isabelle
  imports FrameDelivery ReliableLink Wire Input HostPolicy ClientPolicy Control Messages Rdpudp Mcs Bignum Keys Zgfx Audio BulkTcp Connect BitmapPainting Fastpath RdpInput ClearStreams RateBounds AutoRes Playout
begin

text \<open>
  This library verifies the protocol core of RDPiO, a remote desktop client and host. The code has two stacks.
  The Hyper stack (\<open>crates/rdp-hyper\<close>) streams a game over UDP datagrams of at most 1200 bytes: \<open>wire.rs\<close> seals
  each one and refuses replays; \<open>video.rs\<close> cuts encoded frames into shards, adds parity shards of \<open>fec.rs\<close>, and
  puts frames together again on the client; \<open>reliable.rs\<close> is a reliable, ordered channel for \<open>messages.rs\<close>;
  \<open>input.rs\<close> carries key, mouse and touch events the other way; \<open>control.rs\<close> has the small control messages; and
  \<open>ltr.rs\<close>, \<open>pause.rs\<close>, \<open>liveness.rs\<close> and \<open>backlog.rs\<close> are policies of the two ends. The RDP stack speaks to
  Windows hosts: TPKT and X.224 (\<open>x224.rs\<close>) carry MCS (\<open>mcs.rs\<close>, in DER and PER, \<open>rdp-asn1\<close>), which carries static
  channels (\<open>svc.rs\<close>), one of which carries the dynamic ones (\<open>drdynvc.rs\<close>); \<open>rdpudp.rs\<close> is the UDP side transport;
  \<open>rdp-crypto\<close> has the digests, RC4, RSA and session keys of Standard RDP Security.

  \<^bold>\<open>Theories and sources.\<close>
  \<^item> \<open>Prelude\<close>: machine integers, byte codecs, checked slices, chunks. \<open>Errors\<close>: the \<open>?\<close> operator on
    results. \<open>Utf8\<close>: Rust strings. \<open>Reorder\<close>: the reorder buffer shared by \<open>Reliable\<close> and \<open>Rdpudp\<close>.
    \<open>Machine\<close>: components driven by calls and the locale \<open>history\<close>. \<open>Framing\<close>: the locales \<open>framing\<close> (cut
    and put together) and \<open>layers\<close> (one framing on another).
  \<^item> \<open>Gf256\<close>, \<open>Fec\<close>: \<open>fec.rs\<close>. The field from the two tables; any k of k + m shards rebuild the data.
  \<^item> \<open>Wire\<close>: \<open>wire.rs\<close>. The replay window against the set of numbers opened; nonces never repeat.
  \<^item> \<open>Video\<close>, \<open>Reassemble\<close>, \<open>FrameDelivery\<close>: \<open>video.rs\<close>. The packetizer, the reassembler, and what it
    delivers from any sequence of packets, lost, late, repeated or reordered.
  \<^item> \<open>Reliable\<close>, \<open>ReliableLink\<close>: \<open>reliable.rs\<close>. Sender and receiver, and the two over a lossy link as a
    step relation, with an invariant and a progress theorem.
  \<^item> \<open>Input\<close>: \<open>input.rs\<close>. The event codec, the two ends, and their link.
  \<^item> \<open>Control\<close>, \<open>Messages\<close>: \<open>control.rs\<close>, \<open>messages.rs\<close>. Round trips and well-formedness of what is parsed.
  \<^item> \<open>Audio\<close>: \<open>audio.rs\<close>. The packet codec and the sequencer, over a sender's numbered frames.
  \<^item> \<open>BulkTcp\<close>: \<open>bulk_tcp.rs\<close>. The sealed record stream: round trip, and what a reader accepts of any bytes.
  \<^item> \<open>HostPolicy\<close>: \<open>ltr.rs\<close>, \<open>pause.rs\<close>. \<open>ClientPolicy\<close>: \<open>liveness.rs\<close>, \<open>backlog.rs\<close>.
  \<^item> \<open>Floats\<close>, \<open>Rate\<close>, \<open>RateUpdate\<close>, \<open>RateBounds\<close>: \<open>rate.rs\<close>. The bitrate, parity and frame rate control of
    the host: the arithmetic of IEEE doubles and floats as rationals with their rounding, the controller's state and
    operations, its update in steps, and the bounds every sequence of calls keeps.
  \<^item> \<open>AutoRes\<close>: \<open>autores.rs\<close>. The automatic stream resolution, one step a second, and what it decides over a session.
  \<^item> \<open>Playout\<close>: \<open>playout.rs\<close>. The jitter buffer before the audio device: every index it takes is inside its queue, and
    every frame of the queue is played, corrected away within a budget, or cut out and counted.
  \<^item> \<open>Der\<close>, \<open>X224\<close>, \<open>Mcs\<close>, \<open>Svc\<close>, \<open>Drdynvc\<close>, \<open>Rdpudp\<close>: the RDP stack's files of those names.
  \<^item> \<open>Connect\<close>: \<open>rdp-core/lib.rs\<close> with \<open>transport.rs\<close> and the direct path of \<open>connect.rs\<close> (\<open>rdp-client\<close>): the
    configuration, the negotiation, reading a PDU from a socket, falling back to legacy security, redirections, and
    what protects the password of the session that results.
  \<^item> \<open>Zgfx\<close>: \<open>rdp-graphics/zgfx.rs\<close>, the decompressor of the graphics channel. The slot table, bursts and the late,
    bulk-fed ring against a token-at-a-time decoder over the whole history; a call that never returns is \<open>None\<close>.
  \<^item> \<open>Bitmap\<close>, \<open>BitmapPainting\<close>: \<open>rdp-graphics/bitmap.rs\<close>. The legacy bitmap updates, and their run-length decoder
    against one that reads all orders and paints a list of pixels; its fuel is the length of the stream, which is enough
    because every order takes a byte.
  \<^item> \<open>Fastpath\<close>: the output half of \<open>rdp-pdu/fastpath.rs\<close>: records, fragments and surface commands, run against a server
    that chops its updates in any way. \<open>RdpInput\<close>: its input half, \<open>rdp-pdu/input.rs\<close> and \<open>finalization.rs\<close>: the events
    of a client on the slow and on the fast path, read by one server.
  \<^item> \<open>ClearCodec\<close>, \<open>ClearReference\<close>, \<open>ClearEquivalence\<close>, \<open>ClearStreams\<close>: \<open>rdp-graphics/clearcodec.rs\<close>, and the pixel-wise
    decoder in \<open>clearcodec_ref.rs\<close> that it replaced. Both write the same sequence of pixels; neither panics; and what
    holds of a session's streams: the glyph cache, and which tiles need the pixels that were there before.
  \<^item> \<open>Bignum\<close> (with \<open>rsa.rs\<close>), \<open>Hashes\<close>, \<open>Rc4\<close>, \<open>Keys\<close>: \<open>rdp-crypto\<close>.

  \<^bold>\<open>Interfaces.\<close> \<open>framing\<close> is interpreted by static channels, dynamic channels, MCS and the fast path, \<open>layers\<close> by the stack of
  the three, and the theorem at the end of this theory is about that stack; \<open>history\<close> by the long-term references,
  the pause policy, the backlog and the automatic resolution; \<open>stream_cipher\<close> by RC4 and the session cipher;
  \<open>windowed_filter\<close> by the replay window of \<open>Wire\<close>; \<open>rounding\<close> by the two formats of \<open>Floats\<close>.

  \<^bold>\<open>What stands for what.\<close> A struct is a record, an enum a datatype, a \<open>u8\<close> to \<open>u64\<close> a word of that width with
  its wrap-around (release build: additions that the source does not check wrap), an \<open>i16\<close> or \<open>i32\<close> a word read with
  \<open>sint\<close>, a \<open>usize\<close> a natural number; a \<open>BTreeMap\<close> or \<open>HashMap\<close> an association list or a map; a string its UTF-8
  bytes; \<open>Instant\<close> and \<open>Duration\<close> are nanoseconds as natural numbers; \<open>f64\<close> and \<open>f32\<close> are rationals, rounded after
  each operation in the rate controller, the automatic resolution and the jitter buffer (theory \<open>Floats\<close>), whose square
  root and cosine are arguments, and exact where the packetizer multiplies by a parity ratio. A panic is \<open>None\<close>. The AEAD cipher of \<open>ring\<close> is a parameter of \<open>Wire\<close> and \<open>BulkTcp\<close> with the laws of
  authenticated encryption as named hypotheses; whether TLS comes up is an argument in \<open>Connect\<close>, where a socket is the
  list of what its reads will return.

  \<^bold>\<open>Bounds.\<close> Sequence numbers of 32 bits are compared by their difference, so theorems about a whole session say
  how many numbers it may use (under \<open>2 ^ 31\<close>); the theorems on lengths give the exact limit the code keeps or
  fails to keep.

  \<^bold>\<open>Not modelled.\<close> Sockets, threads, windows, FFI (Direct3D, Media Foundation, WebRTC, JNI) and the applications
  around the crates; JSON and base64 (external crates).
\<close>

section \<open>From channel message to wire and back\<close>

text \<open>
  C27. A message on a dynamic channel goes through the whole stack and comes out as it went in: cut into DVC
  PDUs, each cut into static channel chunks, each put into a Send Data indication on the MCS channel and
  framed in X.224 and TPKT; the readers of the four layers, whatever is left in the chunk buffer, return
  the messages sent, in order, each under its channel.
\<close>

theorem channel_messages_cross_the_stack:
  assumes "\<forall>(ch, m) \<in> set ms. length m < 2 ^ 32"
  shows "snd (feed (layered_push dvc_step (layered_push svc_push (mcs_push c))) (Map.empty, buf, ())
      (concat (map (layered_split (\<lambda>(ch, m). data_message ch m) (layered_split chunks_dvc (mcs_split u c))) ms))) = ms"
proof -
  have "\<forall>m \<in> set ms. message_ok m" using assms by (auto simp: message_ok_def)
  from dvc_stack.both.feed_stream [OF this, of "(Map.empty, buf, ())" c u] show ?thesis
    by (auto simp: case_prod_unfold)
qed

theorem channel_messages_cross_the_stack_witness:
  "snd (feed (layered_push dvc_step (layered_push svc_push (mcs_push 1005))) (Map.empty, [9], ())
      (concat (map (layered_split (\<lambda>(ch, m). data_message ch m) (layered_split chunks_dvc (mcs_split 1007 1005)))
        [(3, [1, 2, 3]), (300, replicate 4000 5)])))
    = [(3, [1, 2, 3]), (300, replicate 4000 5)]"
  by (rule channel_messages_cross_the_stack) simp

end
